(* ===== verification/Yk_Prelude.thy ===== *)
theory Yk_Prelude
  imports Main "HOL-Library.Word" "HOL-Library.State_Monad"
begin

text \<open>
  The prelude of the development: names for the C types, the RT-Thread error codes, the collections
  of facts the component theories feed, and generic lemmas on lists, words and the state monad that
  several components share.
\<close>

unbundle bit_operations_syntax

section \<open>C types and RT-Thread error codes\<close>

type_synonym u8 = "8 word"
type_synonym u16 = "16 word"
type_synonym u24 = "24 word"
type_synonym u32 = "32 word"

text \<open>
  The firmware is built without \<^verbatim>\<open>RT_USING_LIBC\<close> (rtconfig.h), so the codes are those of the
  second branch of \<^verbatim>\<open>rtdef.h\<close>.  They are positive; kernel functions return them negated,
  the application returns them as they are.
\<close>

abbreviation (input) RT_EOK :: int where "RT_EOK \<equiv> 0"
abbreviation (input) RT_ERROR :: int where "RT_ERROR \<equiv> 1"
abbreviation (input) RT_ETIMEOUT :: int where "RT_ETIMEOUT \<equiv> 2"
abbreviation (input) RT_EFULL :: int where "RT_EFULL \<equiv> 3"

section \<open>Collections of facts\<close>

named_theorems run_simps \<open>what running a monadic operation of the model gives\<close>
named_theorems frame_simps \<open>the shape of the frames the handlers write\<close>
named_theorems keeps \<open>operations that keep a component's invariant\<close>

section \<open>The state monad\<close>

type_synonym ('s, 'a) sm = "('s, 'a) State_Monad.state"

abbreviation ret :: "'a \<Rightarrow> ('s, 'a) sm" where "ret \<equiv> State_Monad.return"

definition modify :: "('s \<Rightarrow> 's) \<Rightarrow> ('s, unit) sm" where
  "modify f = State_Monad.State (\<lambda>s. ((), f s))"

definition reads :: "('s \<Rightarrow> 'a) \<Rightarrow> ('s, 'a) sm" where
  "reads f = State_Monad.State (\<lambda>s. (f s, s))"

definition whenM :: "bool \<Rightarrow> ('s, unit) sm \<Rightarrow> ('s, unit) sm" where
  "whenM b m = (if b then m else ret ())"

lemma run_state_modify [simp]: "run_state (modify f) s = ((), f s)"
  by (simp add: modify_def)

lemma run_state_reads [simp]: "run_state (reads f) s = (f s, s)"
  by (simp add: reads_def)

lemma whenM_simps [simp]: "whenM True m = m" "whenM False m = ret ()"
  by (simp_all add: whenM_def)

lemma run_state_if [simp]:
  "run_state (if b then m else n) s = (if b then run_state m s else run_state n s)"
  by simp

text \<open>
  A state predicate kept by a computation, whatever it returns; it composes along \<open>bind\<close>, so an
  operation keeps it as soon as its parts do.
\<close>

definition kept :: "('s \<Rightarrow> bool) \<Rightarrow> ('s, 'a) sm \<Rightarrow> bool" where
  "kept P m \<longleftrightarrow> (\<forall>s. P s \<longrightarrow> P (snd (run_state m s)))"

lemma keptI: "(\<And>s. P s \<Longrightarrow> P (snd (run_state m s))) \<Longrightarrow> kept P m"
  by (simp add: kept_def)

lemma keptD: "kept P m \<Longrightarrow> P s \<Longrightarrow> P (snd (run_state m s))"
  by (simp add: kept_def)

lemma keptD': "kept P m \<Longrightarrow> run_state m s = (r, t) \<Longrightarrow> P s \<Longrightarrow> P t"
  by (drule (1) keptD) simp

lemma kept_bind [keeps]:
  assumes "kept P m" and "\<And>x. kept P (f x)"
  shows "kept P (State_Monad.bind m f)"
proof (rule keptI)
  fix s assume s: "P s"
  obtain x t where m: "run_state m s = (x, t)" by fastforce
  have "P t" by (rule keptD' [OF assms(1) m s])
  with assms(2) m show "P (snd (run_state (State_Monad.bind m f) s))"
    by (simp add: keptD)
qed

lemma kept_return [keeps]: "kept P (ret x)"
  by (simp add: kept_def)

lemma kept_reads [keeps]: "kept P (reads f)"
  by (simp add: kept_def)

lemma kept_modify [keeps]: "(\<And>s. P s \<Longrightarrow> P (f s)) \<Longrightarrow> kept P (modify f)"
  by (simp add: kept_def)

lemma kept_whenM [keeps]: "kept P m \<Longrightarrow> kept P (whenM b m)"
  by (simp add: whenM_def keeps)

lemma kept_if [keeps]: "(b \<Longrightarrow> kept P m) \<Longrightarrow> (\<not> b \<Longrightarrow> kept P n) \<Longrightarrow> kept P (if b then m else n)"
  by simp

section \<open>Machines and their invariants\<close>

text \<open>
  The contract every component with a step function offers its clients: one step keeps the
  invariant.  What follows for whole runs is proved once here.
\<close>

locale step_machine =
  fixes step :: "'s \<Rightarrow> 'e \<Rightarrow> 's" and inv :: "'s \<Rightarrow> bool"
  assumes step_keeps: "inv s \<Longrightarrow> inv (step s e)"
begin

lemma run_keeps: "inv s \<Longrightarrow> inv (foldl step s es)"
  by (induction es arbitrary: s) (auto intro: step_keeps)

lemma prefix_keeps: "inv s \<Longrightarrow> inv (foldl step s (take n es))"
  by (rule run_keeps)

lemma run_measure:
  assumes "\<And>s e. inv s \<Longrightarrow> m (step s e) \<le> (m s + k :: nat)" and "inv s"
  shows "m (foldl step s es) \<le> m s + k * length es"
  using assms(2)
proof (induction es arbitrary: s)
  case Nil
  then show ?case by simp
next
  case (Cons e es)
  have "m (foldl step (step s e) es) \<le> m (step s e) + k * length es"
    using Cons.prems by (intro Cons.IH step_keeps)
  with assms(1) [OF Cons.prems, of e] show ?case by simp
qed

end

text \<open>The same for a step relation.\<close>

locale step_relation =
  fixes step :: "'s \<Rightarrow> 's \<Rightarrow> bool" and inv :: "'s \<Rightarrow> bool"
  assumes step_keeps: "step s s' \<Longrightarrow> inv s \<Longrightarrow> inv s'"
begin

lemma run_keeps: "step\<^sup>*\<^sup>* s s' \<Longrightarrow> inv s \<Longrightarrow> inv s'"
  by (induction rule: rtranclp_induct) (auto intro: step_keeps)

end

section \<open>Words\<close>

lemma word8_all: "(\<forall>b::u8. P b) \<longleftrightarrow> (\<forall>i\<in>set [0..<256]. P (of_nat i))"
proof
  assume *: "\<forall>i\<in>set [0..<256]. P (of_nat i)"
  show "\<forall>b::u8. P b"
  proof
    fix b :: u8
    have "unat b < 256" using unsigned_less [of b] by simp
    with * have "P (of_nat (unat b))" by (metis atLeastLessThan_iff set_upt zero_le)
    then show "P b" by simp
  qed
qed simp

lemma unat_u8_less [simp]: "unat (b :: u8) < 256"
  using unsigned_less [of b] by simp

lemma unat_u8_less_nat: "256 \<le> n \<Longrightarrow> unat (b :: u8) < n"
  using unat_u8_less [of b] by linarith

lemma xor_cancel_left: "(a :: 'a::len word) XOR b = a XOR c \<longleftrightarrow> b = c"
  by (metis xor.assoc xor_self_eq xor.left_neutral)

lemma xor_eq_0: "(a :: 'a::len word) XOR b = 0 \<longleftrightarrow> a = b"
  by (metis xor.right_neutral xor_cancel_left xor_self_eq)

section \<open>Lists\<close>

lemma list_len_Suc: "length xs = Suc n \<longleftrightarrow> (\<exists>y ys. xs = y # ys \<and> length ys = n)"
  by (rule length_Suc_conv)

lemma nth_update_other: "i \<noteq> j \<Longrightarrow> xs[i := x] ! j = xs ! j"
  by simp

lemma butlast_take_Suc: "n = length xs - 1 \<Longrightarrow> butlast xs = take n xs"
  by (simp add: butlast_conv_take)

text \<open>What a driver call leaves in a buffer when it wrote \<open>ws\<close> from its start.\<close>

definition overlay :: "'a list \<Rightarrow> 'a list \<Rightarrow> 'a list" where
  "overlay buf ws = take (length buf) (ws @ drop (length ws) buf)"

lemma length_overlay [simp]: "length (overlay buf ws) = length buf"
  by (simp add: overlay_def)

lemma overlay_full: "length ws = length buf \<Longrightarrow> overlay buf ws = ws"
  by (simp add: overlay_def)

lemma overlay_Nil [simp]: "overlay buf [] = buf"
  by (simp add: overlay_def)

text \<open>The last \<open>n\<close> elements of a list.\<close>

definition newest :: "nat \<Rightarrow> 'a list \<Rightarrow> 'a list" where
  "newest n xs = drop (length xs - n) xs"

lemma newest_append: "newest n (newest n xs @ ys) = newest n (xs @ ys)"
  by (cases "length xs \<le> n") (auto simp: newest_def add.commute)

lemma length_newest [simp]: "length (newest n xs) = min n (length xs)"
  by (simp add: newest_def)

end
