(* ===== verification/Crc8.thy ===== *)
theory Crc8
  imports Yk_Prelude
begin

text \<open>
  The frame check of \<^verbatim>\<open>applications/crc8.c\<close>: the lookup table and the byte loop as they
  are in the code, the shift-register definition of the same CRC (polynomial 0x07) as its
  specification, and the error patterns the check is certain to catch.
\<close>

section \<open>The code\<close>

definition crc8_table :: "u8 list" where
  "crc8_table = [
    0x00, 0x07, 0x0e, 0x09, 0x1c, 0x1b, 0x12, 0x15,
    0x38, 0x3f, 0x36, 0x31, 0x24, 0x23, 0x2a, 0x2d,
    0x70, 0x77, 0x7e, 0x79, 0x6c, 0x6b, 0x62, 0x65,
    0x48, 0x4f, 0x46, 0x41, 0x54, 0x53, 0x5a, 0x5d,
    0xe0, 0xe7, 0xee, 0xe9, 0xfc, 0xfb, 0xf2, 0xf5,
    0xd8, 0xdf, 0xd6, 0xd1, 0xc4, 0xc3, 0xca, 0xcd,
    0x90, 0x97, 0x9e, 0x99, 0x8c, 0x8b, 0x82, 0x85,
    0xa8, 0xaf, 0xa6, 0xa1, 0xb4, 0xb3, 0xba, 0xbd,
    0xc7, 0xc0, 0xc9, 0xce, 0xdb, 0xdc, 0xd5, 0xd2,
    0xff, 0xf8, 0xf1, 0xf6, 0xe3, 0xe4, 0xed, 0xea,
    0xb7, 0xb0, 0xb9, 0xbe, 0xab, 0xac, 0xa5, 0xa2,
    0x8f, 0x88, 0x81, 0x86, 0x93, 0x94, 0x9d, 0x9a,
    0x27, 0x20, 0x29, 0x2e, 0x3b, 0x3c, 0x35, 0x32,
    0x1f, 0x18, 0x11, 0x16, 0x03, 0x04, 0x0d, 0x0a,
    0x57, 0x50, 0x59, 0x5e, 0x4b, 0x4c, 0x45, 0x42,
    0x6f, 0x68, 0x61, 0x66, 0x73, 0x74, 0x7d, 0x7a,
    0x89, 0x8e, 0x87, 0x80, 0x95, 0x92, 0x9b, 0x9c,
    0xb1, 0xb6, 0xbf, 0xb8, 0xad, 0xaa, 0xa3, 0xa4,
    0xf9, 0xfe, 0xf7, 0xf0, 0xe5, 0xe2, 0xeb, 0xec,
    0xc1, 0xc6, 0xcf, 0xc8, 0xdd, 0xda, 0xd3, 0xd4,
    0x69, 0x6e, 0x67, 0x60, 0x75, 0x72, 0x7b, 0x7c,
    0x51, 0x56, 0x5f, 0x58, 0x4d, 0x4a, 0x43, 0x44,
    0x19, 0x1e, 0x17, 0x10, 0x05, 0x02, 0x0b, 0x0c,
    0x21, 0x26, 0x2f, 0x28, 0x3d, 0x3a, 0x33, 0x34,
    0x4e, 0x49, 0x40, 0x47, 0x52, 0x55, 0x5c, 0x5b,
    0x76, 0x71, 0x78, 0x7f, 0x6a, 0x6d, 0x64, 0x63,
    0x3e, 0x39, 0x30, 0x37, 0x22, 0x25, 0x2c, 0x2b,
    0x06, 0x01, 0x08, 0x0f, 0x1a, 0x1d, 0x14, 0x13,
    0xae, 0xa9, 0xa0, 0xa7, 0xb2, 0xb5, 0xbc, 0xbb,
    0x96, 0x91, 0x98, 0x9f, 0x8a, 0x8d, 0x84, 0x83,
    0xde, 0xd9, 0xd0, 0xd7, 0xc2, 0xc5, 0xcc, 0xcb,
    0xe6, 0xe1, 0xe8, 0xef, 0xfa, 0xfd, 0xf4, 0xf3]"

text \<open>The body of the loop, and the loop over the first \<open>len\<close> bytes.\<close>

fun crc8_loop :: "u8 \<Rightarrow> u8 list \<Rightarrow> u8" where
  "crc8_loop crc [] = crc"
| "crc8_loop crc (d # ds) = crc8_loop (crc8_table ! unat (crc XOR d)) ds"

definition crc8 :: "u8 list \<Rightarrow> nat \<Rightarrow> u8" where
  "crc8 data len = crc8_loop 0 (take len data) XOR 0xff"

section \<open>The shift register it implements\<close>

definition crc8_shift :: "u8 \<Rightarrow> u8" where
  "crc8_shift c = (if bit c 7 then push_bit 1 c XOR 0x07 else push_bit 1 c)"

definition crc8_step8 :: "u8 \<Rightarrow> u8" where
  "crc8_step8 c = (crc8_shift ^^ 8) c"

fun crc8_spec_loop :: "u8 \<Rightarrow> u8 list \<Rightarrow> u8" where
  "crc8_spec_loop crc [] = crc"
| "crc8_spec_loop crc (d # ds) = crc8_spec_loop (crc8_step8 (crc XOR d)) ds"

definition crc8_spec :: "u8 list \<Rightarrow> u8" where
  "crc8_spec data = crc8_spec_loop 0 data XOR 0xff"

lemma crc8_step8_unfold:
  "crc8_step8 c = crc8_shift (crc8_shift (crc8_shift (crc8_shift
     (crc8_shift (crc8_shift (crc8_shift (crc8_shift c)))))))"
  by (simp add: crc8_step8_def eval_nat_numeral)

lemma crc8_shift_numeral:
  "crc8_shift (numeral k) =
     (if bit (numeral k :: u8) 7 then push_bit 1 (numeral k) XOR 0x07 else push_bit 1 (numeral k))"
  "crc8_shift 0 = 0" "crc8_shift 1 = 2"
  by (simp_all add: crc8_shift_def)

lemmas crc8_eval = crc8_step8_unfold crc8_shift_numeral

section \<open>The table holds the shift register's values\<close>

text \<open>
  The table is compared with the shift register row by row, in four quarters; \<open>table_from w xs\<close>
  says that \<open>xs\<close> are the values for \<open>w\<close>, \<open>w + 1\<close> and so on.
\<close>

fun table_from :: "u8 \<Rightarrow> u8 list \<Rightarrow> bool" where
  "table_from w [] = True"
| "table_from w (x # xs) = (crc8_step8 w = x \<and> table_from (w + 1) xs)"

lemma table_from_append:
  "table_from w (xs @ ys) = (table_from w xs \<and> table_from (w + of_nat (length xs)) ys)"
  by (induction xs arbitrary: w) (auto simp: add.assoc)

lemma table_from_nth: "table_from w xs \<Longrightarrow> i < length xs \<Longrightarrow> xs ! i = crc8_step8 (w + of_nat i)"
proof (induction xs arbitrary: w i)
  case (Cons x xs)
  then show ?case by (cases i) (auto simp: algebra_simps)
qed simp

lemma table_from_take_drop:
  assumes "table_from w (take n xs)" and "table_from (w + of_nat n) (drop n xs)" and "n \<le> length xs"
  shows "table_from w xs"
proof -
  have "table_from w (take n xs @ drop n xs)"
    using assms by (simp only: table_from_append) simp
  then show ?thesis by simp
qed

lemma length_crc8_table [simp]: "length crc8_table = 256"
  by (simp add: crc8_table_def)

lemma table_quarter1: "table_from 0 (take 64 crc8_table)"
  and table_quarter2: "table_from 64 (take 64 (drop 64 crc8_table))"
  and table_quarter3: "table_from 128 (take 64 (drop 128 crc8_table))"
  and table_quarter4: "table_from 192 (drop 192 crc8_table)"
  by (simp_all add: crc8_eval crc8_table_def)

lemma crc8_table_from: "table_from 0 crc8_table"
proof -
  have "table_from 128 (drop 128 crc8_table)"
    by (rule table_from_take_drop [where n = 64]) (simp_all add: table_quarter3 table_quarter4)
  then have "table_from 64 (drop 64 crc8_table)"
    by (intro table_from_take_drop [where n = 64 and xs = "drop 64 crc8_table"])
       (simp_all add: table_quarter2)
  then show ?thesis
    by (intro table_from_take_drop [where n = 64 and xs = crc8_table]) (simp_all add: table_quarter1)
qed

lemma crc8_table_step8: "crc8_table ! unat b = crc8_step8 b"
  using table_from_nth [OF crc8_table_from, of "unat b"] by simp

lemma crc8_loop_spec: "crc8_loop crc ds = crc8_spec_loop crc ds"
  by (induction ds arbitrary: crc) (simp_all add: crc8_table_step8)

text \<open>
  C27: the table-driven routine computes the bitwise CRC of the bytes it is given: polynomial 0x07, the highest bit
  first, started at zero and complemented at the end.
\<close>

theorem crc8_is_bitwise_crc: "crc8 data len = crc8_spec (take len data)"
  by (simp add: crc8_def crc8_spec_def crc8_loop_spec)

section \<open>Linearity and injectivity\<close>

lemma bit_crc8_shift:
  "bit (crc8_shift c) n \<longleftrightarrow>
     (n < 8 \<and> 0 < n \<and> bit c (n - 1)) \<noteq> (bit c 7 \<and> n < 3)"
proof -
  have seven: "(7 :: u8) = mask 3" by (simp add: mask_eq_exp_minus_1)
  have "bit (7 :: u8) n \<longleftrightarrow> n < 3"
    unfolding seven by (auto simp: bit_mask_iff)
  moreover have "bit (push_bit 1 c) n \<longleftrightarrow> n < 8 \<and> 0 < n \<and> bit c (n - 1)"
    by (subst bit_push_bit_iff) auto
  ultimately show ?thesis
    unfolding crc8_shift_def by (simp only: bit_xor_iff if_distrib [of "\<lambda>w. bit w n"]) auto
qed

lemma crc8_shift_xor: "crc8_shift (a XOR b) = crc8_shift a XOR crc8_shift b"
  by (rule bit_word_eqI) (auto simp: bit_crc8_shift bit_simps)

lemma crc8_step8_xor: "crc8_step8 (a XOR b) = crc8_step8 a XOR crc8_step8 b"
  by (simp add: crc8_step8_unfold crc8_shift_xor)

lemma crc8_shift_eq_0: "crc8_shift c = 0 \<longleftrightarrow> c = 0"
proof
  assume "crc8_shift c = 0"
  then have none: "\<not> bit (crc8_shift c) n" for n by simp
  have "\<not> bit c 7" using none [of 0] by (simp add: bit_crc8_shift)
  moreover from this have "\<not> bit c n" if "n < 7" for n
    using none [of "Suc n"] that by (simp add: bit_crc8_shift)
  ultimately have "\<not> bit c n" if "n < 8" for n
    using that by (cases "n = 7") auto
  then show "c = 0" by (intro bit_word_eqI) (auto simp: bit_simps)
qed (simp add: crc8_shift_numeral)

lemma crc8_step8_eq_0: "crc8_step8 c = 0 \<longleftrightarrow> c = 0"
  by (simp add: crc8_step8_unfold crc8_shift_eq_0)

lemma crc8_step8_inj: "crc8_step8 a = crc8_step8 b \<longleftrightarrow> a = b"
  using crc8_step8_eq_0 [of "a XOR b"] by (simp add: crc8_step8_xor xor_eq_0)

lemma crc8_loop_append: "crc8_loop c (xs @ ys) = crc8_loop (crc8_loop c xs) ys"
  by (induction xs arbitrary: c) auto

lemma crc8_loop_zeros: "crc8_loop c (replicate k 0) = (crc8_step8 ^^ k) c"
  by (induction k arbitrary: c) (auto simp: crc8_table_step8 funpow_swap1)

lemma crc8_steps_eq_0: "(crc8_step8 ^^ k) c = 0 \<longleftrightarrow> c = 0"
  by (induction k) (auto simp: crc8_step8_eq_0)

lemma crc8_steps_0 [simp]: "(crc8_step8 ^^ k) 0 = 0"
  by (rule crc8_steps_eq_0 [THEN iffD2, OF refl])

lemma crc8_loop_0_zeros [simp]: "crc8_loop 0 (replicate k 0) = 0"
  by (simp add: crc8_loop_zeros crc8_steps_eq_0)

lemma crc8_loop_xor:
  "length xs = length ys \<Longrightarrow>
   crc8_loop (a XOR b) (map2 (XOR) xs ys) = crc8_loop a xs XOR crc8_loop b ys"
proof (induction xs ys arbitrary: a b rule: list_induct2)
  case (Cons x xs y ys)
  have "(a XOR b) XOR (x XOR y) = (a XOR x) XOR (b XOR y)"
    by (simp add: ac_simps)
  then have "crc8_step8 ((a XOR b) XOR (x XOR y)) = crc8_step8 (a XOR x) XOR crc8_step8 (b XOR y)"
    by (simp only: crc8_step8_xor [of "a XOR x"])
  then show ?case
    by (simp add: crc8_table_step8 Cons.IH del: xor.assoc)
qed simp

section \<open>Sealed frames and the damage the seal reveals\<close>

text \<open>
  A frame is sealed when its last byte is the CRC of the bytes before it: the test
  \<open>protocol_parser\<close> makes on what it receives and what every handler makes true of what it
  sends.  A damaged frame is the frame XOR an error pattern \<open>e\<close> of its length; whether the damage
  passes depends on the pattern alone, through its syndrome \<open>crc8_loop 0 e\<close>.
\<close>

definition sealed :: "u8 list \<Rightarrow> bool" where
  "sealed bs \<longleftrightarrow> bs \<noteq> [] \<and> last bs = crc8 bs (length bs - 1)"

definition damage :: "u8 list \<Rightarrow> u8 list \<Rightarrow> u8 list" where
  "damage bs e = map2 (XOR) bs e"

definition seal :: "u8 list \<Rightarrow> u8 list" where
  "seal bs = bs @ [crc8 bs (length bs)]"

lemma sealed_seal [simp]: "sealed (seal bs)"
  by (simp add: sealed_def seal_def crc8_def)

lemma length_seal [simp]: "length (seal bs) = Suc (length bs)"
  by (simp add: seal_def)

lemma sealed_snoc: "sealed (xs @ [c]) \<longleftrightarrow> c = crc8_loop 0 xs XOR 0xff"
  by (simp add: sealed_def crc8_def)

lemma crc8_loop_snoc_0: "crc8_loop c (xs @ [d]) = 0 \<longleftrightarrow> crc8_loop c xs = d"
  by (simp add: crc8_loop_append crc8_table_step8 crc8_step8_eq_0 xor_eq_0)

lemma map2_snoc:
  "length xs = length ys \<Longrightarrow> map2 f (xs @ [x]) (ys @ [y]) = map2 f xs ys @ [f x y]"
  by simp

lemma xor_shuffle:
  "((p :: 'a::len word) XOR q) XOR d = (p XOR r) XOR q \<longleftrightarrow> r = d"
proof -
  have "(p XOR q) XOR d = (p XOR q) XOR r \<longleftrightarrow> d = r" by (rule xor_cancel_left)
  moreover have "(p XOR r) XOR q = (p XOR q) XOR r" by (simp add: ac_simps)
  ultimately show ?thesis by metis
qed

lemma sealed_damage_iff:
  assumes "sealed bs" and "length e = length bs"
  shows "sealed (damage bs e) \<longleftrightarrow> crc8_loop 0 e = 0"
proof -
  from assms obtain xs c where bs: "bs = xs @ [c]"
    by (metis sealed_def append_butlast_last_id)
  with assms(2) obtain es d where e: "e = es @ [d]" and len: "length xs = length es"
    by (metis append_butlast_last_id length_append_singleton length_butlast length_0_conv
          diff_Suc_1 Zero_not_Suc)
  from assms(1) have c: "c = crc8_loop 0 xs XOR 0xff" by (simp add: bs sealed_snoc)
  have "sealed (damage bs e) \<longleftrightarrow> c XOR d = crc8_loop 0 (map2 (XOR) xs es) XOR 0xff"
    by (simp add: bs e damage_def len sealed_snoc)
  also have "crc8_loop 0 (map2 (XOR) xs es) = crc8_loop 0 xs XOR crc8_loop 0 es"
    using crc8_loop_xor [OF len, of 0 0] by simp
  also have "c XOR d = (crc8_loop 0 xs XOR crc8_loop 0 es) XOR 0xff \<longleftrightarrow> crc8_loop 0 es = d"
    by (simp only: c xor_shuffle)
  finally show ?thesis by (simp add: e crc8_loop_snoc_0)
qed

section \<open>Which damage is certain to be seen\<close>

subsection \<open>Bursts of at most eight bits\<close>

text \<open>Damage within one byte, wherever it lies.\<close>

lemma syndrome_byte: "x \<noteq> 0 \<Longrightarrow> crc8_loop 0 (replicate m 0 @ x # replicate k 0) \<noteq> 0"
  by (simp add: crc8_loop_append crc8_loop_zeros crc8_table_step8 crc8_steps_eq_0 crc8_step8_eq_0)

text \<open>
  A burst of at most eight bits that straddles two bytes: \<open>j\<close> of its bits lie in the first byte,
  the other \<open>8 - j\<close> in the next.
\<close>

lemma crc8_shift_no_carry: "\<not> bit c 7 \<Longrightarrow> crc8_shift c = push_bit 1 c"
  by (simp add: crc8_shift_def)

lemma shift_no_carry:
  "(\<And>i. 8 - j \<le> i \<Longrightarrow> \<not> bit c i) \<Longrightarrow> j \<le> 8 \<Longrightarrow> (crc8_shift ^^ j) c = push_bit j c"
proof (induction j)
  case (Suc j)
  have top: "\<not> bit c (7 - j)" using Suc.prems by simp
  have "(crc8_shift ^^ j) c = push_bit j c" using Suc by simp
  moreover have "\<not> bit (push_bit j c) 7"
    using top by (subst bit_push_bit_iff) auto
  ultimately show ?case by (simp add: crc8_shift_no_carry push_bit_push_bit)
qed simp

lemma crc8_shifts_xor: "(crc8_shift ^^ n) (a XOR b) = (crc8_shift ^^ n) a XOR (crc8_shift ^^ n) b"
  by (induction n) (auto simp: crc8_shift_xor)

lemma crc8_shifts_eq_0: "(crc8_shift ^^ n) c = 0 \<longleftrightarrow> c = 0"
  by (induction n) (auto simp: crc8_shift_eq_0)

lemma step8_split:
  assumes "k \<le> 8"
  shows "crc8_step8 c = (crc8_shift ^^ (8 - k)) ((crc8_shift ^^ k) c)"
  using funpow_add [of "8 - k" k crc8_shift] assms by (simp add: crc8_step8_def)

lemma straddling_burst:
  fixes p :: u8
  assumes "k \<le> 8"
  shows "crc8_step8 (drop_bit k p) XOR push_bit (8 - k) p = (crc8_shift ^^ (8 - k)) p"
proof -
  define hi where "hi = push_bit k (drop_bit k p)"
  define lo where "lo = take_bit k p"
  have "(crc8_shift ^^ k) (drop_bit k p) = hi"
    unfolding hi_def using assms
    by (intro shift_no_carry) (auto simp: bit_drop_bit_eq dest: bit_imp_le_length)
  then have hi: "crc8_step8 (drop_bit k p) = (crc8_shift ^^ (8 - k)) hi"
    using assms by (simp add: step8_split)
  have lo: "(crc8_shift ^^ (8 - k)) lo = push_bit (8 - k) lo"
    unfolding lo_def using assms by (intro shift_no_carry) (auto simp: bit_take_bit_iff)
  have low: "push_bit (8 - k) p = push_bit (8 - k) lo"
    unfolding lo_def by (rule bit_word_eqI) (use assms in \<open>auto simp: bit_simps\<close>)
  have p: "hi XOR lo = p"
    unfolding hi_def lo_def by (rule bit_word_eqI) (auto simp: bit_simps)
  have "(crc8_shift ^^ (8 - k)) p = (crc8_shift ^^ (8 - k)) (hi XOR lo)"
    by (simp only: p)
  then show ?thesis
    by (simp only: hi lo low crc8_shifts_xor)
qed

lemma syndrome_burst:
  assumes "p \<noteq> 0" and "j \<le> 8"
  shows "crc8_loop 0 (replicate m 0 @ [drop_bit j p, push_bit (8 - j) p] @ replicate k 0) \<noteq> 0"
proof -
  have "(crc8_shift ^^ (8 - j)) p \<noteq> 0" using assms by (simp add: crc8_shifts_eq_0)
  then have "crc8_step8 (crc8_step8 (drop_bit j p) XOR push_bit (8 - j) p) \<noteq> 0"
    using assms by (simp add: straddling_burst crc8_step8_eq_0)
  then show ?thesis
    by (simp add: crc8_loop_append crc8_loop_zeros crc8_table_step8 crc8_steps_eq_0)
qed

subsection \<open>An odd number of flipped bits\<close>

definition bit_count :: "u8 \<Rightarrow> nat" where
  "bit_count b = length (filter (bit b) [0, 1, 2, 3, 4, 5, 6, 7])"

definition odd_byte :: "u8 \<Rightarrow> bool" where
  "odd_byte b \<longleftrightarrow> (((bit b 0 \<noteq> bit b 1) \<noteq> (bit b 2 \<noteq> bit b 3)) \<noteq> ((bit b 4 \<noteq> bit b 5) \<noteq> (bit b 6 \<noteq> bit b 7)))"

fun odd_bits :: "u8 list \<Rightarrow> bool" where
  "odd_bits [] = False"
| "odd_bits (b # bs) = (odd_byte b \<noteq> odd_bits bs)"

lemma odd_byte_count: "odd_byte b \<longleftrightarrow> odd (bit_count b)"
  by (simp add: odd_byte_def bit_count_def)

lemma odd_bits_count: "odd_bits bs \<longleftrightarrow> odd (\<Sum>b\<leftarrow>bs. bit_count b)"
  by (induction bs) (auto simp: odd_byte_count)

lemma odd_byte_xor: "odd_byte (a XOR b) \<longleftrightarrow> odd_byte a \<noteq> odd_byte b"
  by (simp add: odd_byte_def bit_xor_iff) argo

lemma odd_byte_shift: "odd_byte (crc8_shift c) = odd_byte c"
  by (simp add: odd_byte_def bit_crc8_shift) argo

lemma odd_byte_step8: "odd_byte (crc8_step8 c) = odd_byte c"
  by (simp add: crc8_step8_unfold odd_byte_shift)

lemma odd_byte_loop: "odd_byte (crc8_loop c bs) \<longleftrightarrow> odd_byte c \<noteq> odd_bits bs"
  by (induction bs arbitrary: c) (auto simp: crc8_table_step8 odd_byte_step8 odd_byte_xor)

lemma syndrome_odd: "odd_bits e \<Longrightarrow> crc8_loop 0 e \<noteq> 0"
  using odd_byte_loop [of 0 e] by (auto simp: odd_byte_def)

subsection \<open>Two flipped bits\<close>

text \<open>
  The register started at 1 does not come back to 1 within 126 shifts, so no two single bits less
  than 127 positions apart have the same syndrome.
\<close>

fun orbit_avoids_1 :: "nat \<Rightarrow> u8 \<Rightarrow> bool" where
  "orbit_avoids_1 0 c = True"
| "orbit_avoids_1 (Suc n) c = (c \<noteq> 1 \<and> orbit_avoids_1 n (crc8_shift c))"

lemma orbit_avoids_1_numeral:
  "orbit_avoids_1 (numeral k) c = (c \<noteq> 1 \<and> orbit_avoids_1 (pred_numeral k) (crc8_shift c))"
  by (simp add: numeral_eq_Suc)

lemma orbit_avoids_1D: "orbit_avoids_1 n c \<Longrightarrow> t < n \<Longrightarrow> (crc8_shift ^^ t) c \<noteq> 1"
proof (induction n arbitrary: c t)
  case (Suc n)
  then show ?case by (cases t) (auto simp: funpow_swap1)
qed simp

lemma orbit_126: "orbit_avoids_1 126 2"
  by (simp add: orbit_avoids_1_numeral crc8_shift_numeral)

lemma crc8_period:
  assumes "0 < t" and "t < 127"
  shows "(crc8_shift ^^ t) 1 \<noteq> 1"
proof -
  have "(crc8_shift ^^ (t - 1)) (crc8_shift 1) \<noteq> 1"
    using orbit_avoids_1D [OF orbit_126, of "t - 1"] assms by (simp add: crc8_shift_numeral)
  then show ?thesis using assms by (cases t) (auto simp: funpow_swap1)
qed

lemma crc8_shifts_inj: "(crc8_shift ^^ n) a = (crc8_shift ^^ n) b \<longleftrightarrow> a = b"
  using crc8_shifts_eq_0 [of n "a XOR b"] by (simp add: crc8_shifts_xor xor_eq_0)

lemma single_bit_shift: "i < 8 \<Longrightarrow> push_bit i (1 :: u8) = (crc8_shift ^^ i) 1"
  by (rule shift_no_carry [symmetric]) (auto simp: bit_simps)

lemma crc8_steps_shifts: "(crc8_step8 ^^ d) c = (crc8_shift ^^ (8 * d)) c"
  by (induction d) (auto simp: crc8_step8_def funpow_add)

lemma syndrome_two_bits:
  assumes "i < 8" and "j < 8" and "d < 14"
  shows "crc8_loop 0 (replicate m 0 @ push_bit i 1 # replicate d 0 @ push_bit j 1 # replicate k 0) \<noteq> 0"
proof -
  let ?t = "8 * Suc d + i - j"
  have "(crc8_shift ^^ ?t) 1 \<noteq> 1" using assms by (intro crc8_period) auto
  then have "(crc8_shift ^^ j) ((crc8_shift ^^ ?t) 1) \<noteq> (crc8_shift ^^ j) 1"
    by (simp add: crc8_shifts_inj)
  moreover have "j + ?t = 8 * Suc d + i" using assms by simp
  ultimately have "(crc8_shift ^^ (8 * Suc d + i)) 1 \<noteq> (crc8_shift ^^ j) 1"
    using funpow_add [of j ?t crc8_shift] by (metis comp_apply)
  then have "(crc8_step8 ^^ Suc d) (push_bit i 1) \<noteq> push_bit j 1"
    unfolding crc8_steps_shifts single_bit_shift [OF assms(1)] single_bit_shift [OF assms(2)]
    by (simp only: funpow_add comp_apply not_False_eq_True)
  then show ?thesis
    by (simp add: crc8_loop_append crc8_loop_zeros crc8_table_step8 crc8_steps_eq_0
        crc8_step8_eq_0 xor_eq_0 funpow_swap1)
qed

section \<open>The contract the frame layer relies on\<close>

text \<open>
  What a frame check promises its users: a frame can be sealed, and a sealed frame hit by an error
  pattern the check knows is no longer sealed.  The protocol layer is proved over this contract.
\<close>

locale frame_check =
  fixes is_sealed :: "u8 list \<Rightarrow> bool" and with_seal :: "u8 list \<Rightarrow> u8 list"
    and seen :: "u8 list \<Rightarrow> bool"
  assumes with_seal_sealed: "is_sealed (with_seal bs)"
    and length_with_seal: "length (with_seal bs) = Suc (length bs)"
    and seen_breaks: "is_sealed bs \<Longrightarrow> length e = length bs \<Longrightarrow> seen e \<Longrightarrow> \<not> is_sealed (damage bs e)"
begin

lemma sealed_not_confused:
  "is_sealed bs \<Longrightarrow> is_sealed cs \<Longrightarrow> length e = length bs \<Longrightarrow> seen e \<Longrightarrow> cs \<noteq> damage bs e"
  using seen_breaks by blast

lemma with_seal_damaged: "length e = Suc (length bs) \<Longrightarrow> seen e \<Longrightarrow> \<not> is_sealed (damage (with_seal bs) e)"
  by (intro seen_breaks with_seal_sealed) (simp_all add: length_with_seal)

end

text \<open>
  The error patterns this CRC is certain to see: any damage within one byte, any burst of up to
  eight bits across two bytes, an odd number of flipped bits, and two flipped bits in frames of up
  to fifteen bytes (the longest frame of the protocol has eleven).
\<close>

inductive crc8_sees :: "u8 list \<Rightarrow> bool" where
  one_byte: "x \<noteq> 0 \<Longrightarrow> crc8_sees (replicate m 0 @ x # replicate k 0)"
| burst: "p \<noteq> 0 \<Longrightarrow> j \<le> 8 \<Longrightarrow>
    crc8_sees (replicate m 0 @ [drop_bit j p, push_bit (8 - j) p] @ replicate k 0)"
| odd_number: "odd_bits e \<Longrightarrow> crc8_sees e"
| two_bits: "i < 8 \<Longrightarrow> j < 8 \<Longrightarrow> d < 14 \<Longrightarrow>
    crc8_sees (replicate m 0 @ push_bit i 1 # replicate d 0 @ push_bit j 1 # replicate k 0)"

lemma crc8_sees_syndrome: "crc8_sees e \<Longrightarrow> crc8_loop 0 e \<noteq> 0"
proof (induction rule: crc8_sees.induct)
  case (one_byte x m k)
  then show ?case by (rule syndrome_byte)
next
  case (burst p j m k)
  then show ?case by (rule syndrome_burst)
next
  case (odd_number e)
  then show ?case by (rule syndrome_odd)
next
  case (two_bits i j d m k)
  then show ?case by (rule syndrome_two_bits)
qed

interpretation crc: frame_check sealed seal crc8_sees
  by unfold_locales (simp_all add: sealed_damage_iff crc8_sees_syndrome)

text \<open>Every error pattern of the four classes breaks the seal of every sealed frame.\<close>

theorem crc8_detects: "sealed bs \<Longrightarrow> length e = length bs \<Longrightarrow> crc8_sees e \<Longrightarrow> \<not> sealed (damage bs e)"
  by (rule crc.seen_breaks)

end
