(* ===== verification/Yk_Device.thy ===== *)
theory Yk_Device
  imports Yk_Prelude
begin

text \<open>
  The data of the lock firmware: the types of \<^verbatim>\<open>applications/common.h\<close> and
  \<^verbatim>\<open>hw_define.h\<close>, the state the application's files keep in their static \<open>self\<close>
  structures, and the environment the code calls into (the EEPROM package, GPIO, the scheduler's
  delay, the CAN device), which is a record of functions every operation takes as its argument.
\<close>

section \<open>common.h\<close>

datatype lock_type = YK_LOCK | YK_COLD_LOCK | AVC | AVC_COLD_LOCK | AVC_SWITCH | DEVICE_TYPE_MAX

datatype hw_type = HW_YK | HW_YK_COLD_LOCK | HW_AVC_COLD_LOCK | HW_AVC_SWITCH

datatype channel_type = CHANNEL_HW_USING_CAN | CHANNEL_HW_USING_UART

definition DEFAULT_DEVICE_TYPE :: lock_type where "DEFAULT_DEVICE_TYPE = YK_LOCK"
definition DEFAULT_CHANNEL_TYPE :: channel_type where "DEFAULT_CHANNEL_TYPE = CHANNEL_HW_USING_CAN"
definition DEFAULT_HARDWARE_TYPE :: hw_type where "DEFAULT_HARDWARE_TYPE = HW_AVC_SWITCH"

text \<open>The enumeration's numbers, as the code stores and casts them.\<close>

fun lock_type_code :: "lock_type \<Rightarrow> u8" where
  "lock_type_code YK_LOCK = 0"
| "lock_type_code YK_COLD_LOCK = 1"
| "lock_type_code AVC = 2"
| "lock_type_code AVC_COLD_LOCK = 3"
| "lock_type_code AVC_SWITCH = 4"
| "lock_type_code DEVICE_TYPE_MAX = 5"

definition lock_type_of :: "u8 \<Rightarrow> lock_type" where
  "lock_type_of b =
     (if b = 0 then YK_LOCK else if b = 1 then YK_COLD_LOCK else if b = 2 then AVC
      else if b = 3 then AVC_COLD_LOCK else if b = 4 then AVC_SWITCH else DEVICE_TYPE_MAX)"

lemma lock_type_of_code [simp]: "lock_type_of (lock_type_code t) = t"
  by (cases t) (simp_all add: lock_type_of_def)

lemma lock_type_code_of: "b \<le> 5 \<Longrightarrow> lock_type_code (lock_type_of b) = b"
  by (auto simp: lock_type_of_def word_le_nat_alt) (unat_arith; simp)

lemma lock_type_code_inj [simp]: "lock_type_code t = lock_type_code u \<longleftrightarrow> t = u"
  by (metis lock_type_of_code)

instantiation lock_type :: linorder
begin

definition less_eq_lock_type :: "lock_type \<Rightarrow> lock_type \<Rightarrow> bool" where
  "less_eq_lock_type a b = (lock_type_code a \<le> lock_type_code b)"

definition less_lock_type :: "lock_type \<Rightarrow> lock_type \<Rightarrow> bool" where
  "less_lock_type a b = (lock_type_code a < lock_type_code b)"

instance
  by standard (auto simp: less_eq_lock_type_def less_lock_type_def less_le)

end

record lock_info =
  dev_id :: u8
  net_id :: u8
  lk_addr :: u8
  lk_sn :: u32
  lk_type :: lock_type
  hardware_type :: hw_type
  lk_channel :: channel_type
  lk_data :: u32

section \<open>hw_define.h\<close>

text \<open>
  \<open>DEFAULT_HARDWARE_TYPE\<close> expands to an enumeration constant, which the preprocessor reads as
  the identifier 0: \<^verbatim>\<open>#if DEFAULT_HARDWARE_TYPE\<close> takes its \<^verbatim>\<open>#else\<close> branch, and the
  pins and relay macros of that branch are the ones the firmware is built with.
\<close>

definition GET_PIN :: "nat \<Rightarrow> nat \<Rightarrow> nat" where "GET_PIN port pin = 16 * port + pin"

definition PIN_YK_RELAY_CT1 :: nat where "PIN_YK_RELAY_CT1 = GET_PIN 2 6"
definition PIN_YK_RELAY_CT2 :: nat where "PIN_YK_RELAY_CT2 = GET_PIN 1 15"
definition PIN_YK_RELAY_CT3 :: nat where "PIN_YK_RELAY_CT3 = GET_PIN 1 14"
definition PIN_YK_DOUT :: nat where "PIN_YK_DOUT = GET_PIN 1 12"
definition PIN_YK_D5V0_OUT :: nat where "PIN_YK_D5V0_OUT = GET_PIN 1 13"

definition PIN_AVC_LED_CT1 :: nat where "PIN_AVC_LED_CT1 = GET_PIN 2 12"
definition PIN_AVC_LED_CT2 :: nat where "PIN_AVC_LED_CT2 = GET_PIN 2 11"
definition PIN_AVC_LED_CT3 :: nat where "PIN_AVC_LED_CT3 = GET_PIN 2 10"
definition PIN_AVC_LED_CT4 :: nat where "PIN_AVC_LED_CT4 = GET_PIN 0 15"
definition PIN_AVC_CT1 :: nat where "PIN_AVC_CT1 = PIN_AVC_LED_CT1"
definition PIN_AVC_K1 :: nat where "PIN_AVC_K1 = PIN_AVC_LED_CT2"
definition PIN_AVC_CT2 :: nat where "PIN_AVC_CT2 = PIN_AVC_LED_CT4"
definition PIN_AVC_K2 :: nat where "PIN_AVC_K2 = PIN_AVC_LED_CT3"
definition PIN_AVC_RELAY_CLOSE :: nat where "PIN_AVC_RELAY_CLOSE = GET_PIN 2 9"
definition PIN_AVC_RELAY_OPEN :: nat where "PIN_AVC_RELAY_OPEN = GET_PIN 2 8"
definition PIN_AVC_RELAY_CHECK :: nat where "PIN_AVC_RELAY_CHECK = GET_PIN 1 0"
definition PIN_AVC_DIN :: nat where "PIN_AVC_DIN = GET_PIN 1 1"

lemmas pin_defs = GET_PIN_def PIN_YK_RELAY_CT1_def PIN_YK_RELAY_CT2_def PIN_YK_RELAY_CT3_def
  PIN_YK_DOUT_def PIN_YK_D5V0_OUT_def PIN_AVC_LED_CT1_def PIN_AVC_LED_CT2_def
  PIN_AVC_LED_CT3_def PIN_AVC_LED_CT4_def PIN_AVC_CT1_def PIN_AVC_K1_def PIN_AVC_CT2_def
  PIN_AVC_K2_def PIN_AVC_RELAY_CLOSE_def PIN_AVC_RELAY_OPEN_def PIN_AVC_RELAY_CHECK_def
  PIN_AVC_DIN_def

definition TIME_RELAY_CONTROL :: nat where "TIME_RELAY_CONTROL = 10"

datatype pin_mode = PIN_MODE_OUTPUT | PIN_MODE_INPUT

section \<open>protocol.h\<close>

datatype handler_index =
    INDEX_YK_QUERY_STATE | INDEX_YK_CONTROL | INDEX_YK_MODIFY_ADDR | INDEX_YK_REPORT_STATE
  | INDEX_YK_PRODUCTION_MODIFY_SN
  | IDNEX_AVC_QUERY_STATE | INDEX_AVC_CONTROL_COMMAND | INDEX_AVC_CONTROL_REQUEST
  | INDEX_AVC_MODIFY_ADDR_TYPE | INDEX_AVC_MODIFY_SN | INDEX_AVC_PRODUCTION_QUERY
  | INDEX_COLD_LOCK_QUERY_ALL | INDEX_COLD_LOCK_CONTROL | INDEX_COLD_LOCK_MODIFY_TIMEOUT
  | INDEX_COLD_LOCK_MODIFY_ADDR | INDEX_COLD_LOCK_MODIFY_SN | INDEX_COLD_LOCK_PRODUCTION_QUERY

section \<open>The messages of the CAN device\<close>

record can_msg =
  msg_id :: "29 word"
  msg_ide :: bool
  msg_rtr :: bool
  msg_len :: u8
  msg_data :: "u8 list"

text \<open>
  The static data of \<^verbatim>\<open>can_channel.c\<close>: which of the device, the semaphore, the mutex and the
  receiving thread exist, whether the operations were handed out, whether \<open>can_rx_call\<close> is the
  device's receive indication, the filter table (identifier and mask) given to the driver, whether a receive callback is bound, and the message buffer.
\<close>

record can_channel_state =
  ch_dev :: bool
  ch_sem :: bool
  ch_lock :: bool
  ch_ops :: bool
  ch_thread :: bool
  ch_indicate :: bool
  ch_filter :: "(29 word \<times> u32) list"
  ch_rx_callback :: bool
  msg_buff :: can_msg

section \<open>The environment and the state\<close>

text \<open>
  What the code calls and this repository does not hold as portable C: \<open>at24cxx_read\<close> and
  \<open>at24cxx_write\<close> of the AT24CXX package (EEPROM address, then the number of bytes to read or
  the bytes to write; a read returns the bytes it stored from the start of the caller's buffer),
  the GPIO levels (high is \<open>True\<close>) behind \<open>rt_pin_read\<close>, \<open>rt_pin_write\<close> and
  \<open>rt_pin_mode\<close>, the passing of time in \<open>rt_thread_delay\<close>, the size \<open>rt_device_write\<close>
  returns for a message, whether \<open>rt_device_find\<close>, \<open>rt_device_open\<close>, the filter and the baud
  rate request of \<open>rt_device_control\<close> and the three \<^verbatim>\<open>create\<close> calls succeed, the results of taking (without
  waiting) and releasing the button mutex, the byte the linker places behind \<open>device_id_table\<close>, and what an
  uninitialised local variable happens to hold.
\<close>

record 'w env =
  at24cxx_read :: "nat \<Rightarrow> nat \<Rightarrow> 'w \<Rightarrow> int \<times> u8 list \<times> 'w"
  at24cxx_write :: "nat \<Rightarrow> u8 list \<Rightarrow> 'w \<Rightarrow> int \<times> 'w"
  rt_pin_read :: "nat \<Rightarrow> 'w \<Rightarrow> bool"
  rt_pin_write :: "nat \<Rightarrow> bool \<Rightarrow> 'w \<Rightarrow> 'w"
  rt_pin_mode :: "nat \<Rightarrow> pin_mode \<Rightarrow> 'w \<Rightarrow> 'w"
  rt_thread_delay :: "nat \<Rightarrow> 'w \<Rightarrow> 'w"
  rt_device_write :: "can_msg \<Rightarrow> 'w \<Rightarrow> nat \<times> 'w"
  rt_device_find :: "'w \<Rightarrow> bool \<times> 'w"
  rt_device_open :: "'w \<Rightarrow> bool \<times> 'w"
  rt_can_set_baud :: "nat \<Rightarrow> 'w \<Rightarrow> bool \<times> 'w"
  rt_can_set_filter :: "(29 word \<times> u32) list \<Rightarrow> 'w \<Rightarrow> bool \<times> 'w"
  rt_sem_create :: "'w \<Rightarrow> bool \<times> 'w"
  rt_mutex_create :: "'w \<Rightarrow> bool \<times> 'w"
  rt_thread_create :: "'w \<Rightarrow> bool \<times> 'w"
  btn_mutex_take :: "'w \<Rightarrow> int \<times> 'w"
  btn_mutex_release :: "'w \<Rightarrow> int \<times> 'w"
  behind_id_table :: u8
  uninit8 :: "'w \<Rightarrow> u8"
  uninit32 :: "'w \<Rightarrow> u32"

text \<open>The EEPROM image of \<^verbatim>\<open>config.c\<close> (\<open>struct info\<close>) and the flags of operation.c.\<close>

record info =
  avc_relay_state :: u8
  dev_type :: u8
  timeout_exec :: u8
  timeout_cmd :: u8
  addr :: u8
  sn :: u24

record avc_state =
  is_action :: bool
  is_set :: bool
  is_save :: bool

text \<open>
  The static data of the application's files in one record (\<open>proto_set\<close> is the command table
  of protocol.c, \<open>proto_ops\<close> says whether its operations were handed out, \<open>btn_bound\<close> whether the
  button callback is set and \<open>btn_threads\<close> how many button threads were started and have yet to
  run), with the messages handed to the CAN
  device in order (\<open>sent\<close>), the number of \<open>rt_hw_cpu_reset\<close> calls (the code behind the
  first never runs), \<open>asserts\<close>, set where an \<open>RT_ASSERT\<close> fails (which stops the firmware),
  and \<open>ub\<close>, set where the C code would access memory outside an object or call a null pointer.
\<close>

record 'w yk =
  cfg :: info
  lk :: lock_info
  avc :: avc_state
  chan :: can_channel_state
  proto_set :: "(u8 \<times> handler_index) list"
  proto_ops :: bool
  btn_bound :: bool
  btn_threads :: nat
  sent :: "can_msg list"
  resets :: nat
  asserts :: bool
  ub :: bool
  world :: 'w

type_synonym ('w, 'a) yk_op = "('w yk, 'a) sm"

definition on_world :: "('w \<Rightarrow> 'a \<times> 'w) \<Rightarrow> ('w, 'a) yk_op" where
  "on_world f = State_Monad.State (\<lambda>s. let (x, w) = f (world s) in (x, s\<lparr>world := w\<rparr>))"

definition set_ub :: "bool \<Rightarrow> ('w, unit) yk_op" where
  "set_ub b = modify (\<lambda>s. s\<lparr>ub := ub s \<or> b\<rparr>)"

definition pin_read :: "'w env \<Rightarrow> nat \<Rightarrow> ('w, bool) yk_op" where
  "pin_read E p = reads (\<lambda>s. rt_pin_read E p (world s))"

definition pin_write :: "'w env \<Rightarrow> nat \<Rightarrow> bool \<Rightarrow> ('w, unit) yk_op" where
  "pin_write E p v = modify (\<lambda>s. s\<lparr>world := rt_pin_write E p v (world s)\<rparr>)"

definition pin_mode :: "'w env \<Rightarrow> nat \<Rightarrow> pin_mode \<Rightarrow> ('w, unit) yk_op" where
  "pin_mode E p m = modify (\<lambda>s. s\<lparr>world := rt_pin_mode E p m (world s)\<rparr>)"

definition thread_delay :: "'w env \<Rightarrow> nat \<Rightarrow> ('w, unit) yk_op" where
  "thread_delay E n = modify (\<lambda>s. s\<lparr>world := rt_thread_delay E n (world s)\<rparr>)"

lemma run_on_world [run_simps]:
  "run_state (on_world f) s = (fst (f (world s)), s\<lparr>world := snd (f (world s))\<rparr>)"
  by (simp add: on_world_def Let_def split: prod.split)

lemma run_set_ub [run_simps]: "run_state (set_ub b) s = ((), s\<lparr>ub := ub s \<or> b\<rparr>)"
  by (simp add: set_ub_def)

lemma run_pin_read [run_simps]: "run_state (pin_read E p) s = (rt_pin_read E p (world s), s)"
  by (simp add: pin_read_def)

lemma run_pin_write [run_simps]:
  "run_state (pin_write E p v) s = ((), s\<lparr>world := rt_pin_write E p v (world s)\<rparr>)"
  by (simp add: pin_write_def)

lemma run_pin_mode [run_simps]:
  "run_state (pin_mode E p m) s = ((), s\<lparr>world := rt_pin_mode E p m (world s)\<rparr>)"
  by (simp add: pin_mode_def)

lemma run_thread_delay [run_simps]:
  "run_state (thread_delay E n) s = ((), s\<lparr>world := rt_thread_delay E n (world s)\<rparr>)"
  by (simp add: thread_delay_def)

end
