(* ===== verification/Yk_Config.thy ===== *)
theory Yk_Config
  imports Yk_Device
begin

text \<open>
  The configuration store: \<^verbatim>\<open>applications/config.c\<close>, the getters and setters of
  \<^verbatim>\<open>operation.c\<close> built on it, and \<open>lock_info_update\<close> of \<^verbatim>\<open>lock.c\<close>,
  which \<open>config_modify\<close> calls back.  The store is the EEPROM image plus a cached copy; under a
  working EEPROM it is a store of six independent fields.
\<close>

section \<open>The EEPROM image\<close>

text \<open>
  \<open>struct info\<close> as the eight bytes of the little-endian target: four byte fields, then the
  bit-fields \<open>addr : 8\<close> and \<open>sn : 24\<close> of one 32-bit unit, low bits first.
\<close>

definition info_bytes :: "info \<Rightarrow> u8 list" where
  "info_bytes i =
     [avc_relay_state i, dev_type i, timeout_exec i, timeout_cmd i, addr i,
      ucast (sn i), ucast (drop_bit 8 (sn i)), ucast (drop_bit 16 (sn i))]"

definition info_of_bytes :: "u8 list \<Rightarrow> info" where
  "info_of_bytes bs =
     \<lparr>avc_relay_state = bs ! 0, dev_type = bs ! 1, timeout_exec = bs ! 2, timeout_cmd = bs ! 3,
      addr = bs ! 4,
      sn = ucast (bs ! 5) OR push_bit 8 (ucast (bs ! 6)) OR push_bit 16 (ucast (bs ! 7))\<rparr>"

lemma length_info_bytes [simp]: "length (info_bytes i) = 8"
  by (simp add: info_bytes_def)

lemma u24_bytes:
  "(ucast (ucast (x :: u24) :: u8) :: u24) OR push_bit 8 (ucast (ucast (drop_bit 8 x) :: u8))
     OR push_bit 16 (ucast (ucast (drop_bit 16 x) :: u8)) = x"
proof (rule bit_word_eqI)
  fix n assume "n < LENGTH(24)"
  then consider "n < 8" | "8 \<le> n" "n < 16" | "16 \<le> n" "n < 24" by fastforce
  then show "bit ((ucast (ucast x :: u8) :: u24) OR push_bit 8 (ucast (ucast (drop_bit 8 x) :: u8))
     OR push_bit 16 (ucast (ucast (drop_bit 16 x) :: u8))) n = bit x n"
    by cases (auto simp: bit_simps)
qed

lemma info_of_info_bytes [simp]: "info_of_bytes (info_bytes i) = i"
  by (simp add: info_bytes_def info_of_bytes_def u24_bytes)

section \<open>config.c: get\<close>

datatype config_t = CONFIG_DEVICE_TYPE | CONFIG_ADDR | CONFIG_SN | CONFIG_TIMEOUT_EXEC
  | CONFIG_TIMEOUT_CMD | CONFIG_AVC_SWITCH_STATE

fun config_field :: "config_t \<Rightarrow> info \<Rightarrow> u32" where
  "config_field CONFIG_DEVICE_TYPE i = ucast (dev_type i)"
| "config_field CONFIG_ADDR i = ucast (addr i)"
| "config_field CONFIG_SN i = ucast (sn i)"
| "config_field CONFIG_TIMEOUT_EXEC i = ucast (timeout_exec i)"
| "config_field CONFIG_TIMEOUT_CMD i = ucast (timeout_cmd i)"
| "config_field CONFIG_AVC_SWITCH_STATE i = ucast (avc_relay_state i)"

text \<open>
  The read goes straight into the cached copy, before its result is looked at.  The result is the
  error code and, when \<open>*parameter\<close> is written, the value.
\<close>

definition config_get :: "'w env \<Rightarrow> config_t \<Rightarrow> bool \<Rightarrow> ('w, int \<times> u32 option) yk_op" where
  "config_get E t has_parameter = do {
     (r, bs) \<leftarrow> on_world (\<lambda>w. case at24cxx_read E 0 8 w of (r, bs, w') \<Rightarrow> ((r, bs), w'));
     modify (\<lambda>s. s\<lparr>cfg := info_of_bytes (overlay (info_bytes (cfg s)) bs)\<rparr>);
     if r \<noteq> RT_EOK then ret (RT_ERROR, None)
     else if \<not> has_parameter then ret (RT_ERROR, None)
     else do {
       i \<leftarrow> reads cfg;
       ret (RT_EOK, Some (config_field t i))
     }
   }"

section \<open>operation.c: the getters\<close>

text \<open>A getter returns its uninitialised local when the read fails.\<close>

definition get_byte :: "'w env \<Rightarrow> config_t \<Rightarrow> ('w, u8) yk_op" where
  "get_byte E t = do {
     (_, v) \<leftarrow> config_get E t True;
     w \<leftarrow> reads world;
     ret (case v of Some x \<Rightarrow> ucast x | None \<Rightarrow> uninit8 E w)
   }"

definition get_addr :: "'w env \<Rightarrow> ('w, u8) yk_op" where
  "get_addr E = get_byte E CONFIG_ADDR"

definition get_sn :: "'w env \<Rightarrow> ('w, u32) yk_op" where
  "get_sn E = do {
     (_, v) \<leftarrow> config_get E CONFIG_SN True;
     w \<leftarrow> reads world;
     ret (case v of Some x \<Rightarrow> x | None \<Rightarrow> uninit32 E w)
   }"

text \<open>The clamp compares with \<open>>\<close>, so the value \<open>DEVICE_TYPE_MAX\<close> itself passes.\<close>

definition get_device :: "'w env \<Rightarrow> ('w, lock_type) yk_op" where
  "get_device E = do {
     t \<leftarrow> get_byte E CONFIG_DEVICE_TYPE;
     ret (if t > lock_type_code DEVICE_TYPE_MAX then DEFAULT_DEVICE_TYPE else lock_type_of t)
   }"

definition get_timeout_exec :: "'w env \<Rightarrow> ('w, u8) yk_op" where
  "get_timeout_exec E = get_byte E CONFIG_TIMEOUT_EXEC"

definition get_timeout_cmd :: "'w env \<Rightarrow> ('w, u8) yk_op" where
  "get_timeout_cmd E = get_byte E CONFIG_TIMEOUT_CMD"

section \<open>lock.c: the lock's identity\<close>

definition device_id_table :: "u8 list" where
  "device_id_table = [0x03, 0x03, 0x03, 0x03, 0x19]"

text \<open>The table has an entry for each type below \<open>DEVICE_TYPE_MAX\<close>; \<open>None\<close> is a read behind it.\<close>

definition get_device_id_by_lock_type :: "lock_type \<Rightarrow> u8 option" where
  "get_device_id_by_lock_type t =
     (let i = unat (lock_type_code t)
      in if i < length device_id_table then Some (device_id_table ! i) else None)"

definition device_id_or_fault :: "'w env \<Rightarrow> lock_type \<Rightarrow> ('w, u8) yk_op" where
  "device_id_or_fault E t =
     (case get_device_id_by_lock_type t of
        Some d \<Rightarrow> ret d
      | None \<Rightarrow> do { set_ub True; ret (behind_id_table E) })"

definition lock_info_update :: "'w env \<Rightarrow> ('w, unit) yk_op" where
  "lock_info_update E = do {
     a \<leftarrow> get_addr E;
     n \<leftarrow> get_sn E;
     t \<leftarrow> get_device E;
     d \<leftarrow> device_id_or_fault E t;
     modify (\<lambda>s. s\<lparr>lk := (lk s)\<lparr>dev_id := d, net_id := 0x00, lk_addr := a, lk_sn := n,
       lk_type := t, lk_channel := DEFAULT_CHANNEL_TYPE, hardware_type := DEFAULT_HARDWARE_TYPE\<rparr>\<rparr>)
   }"

section \<open>config.c: modify\<close>

fun config_set :: "config_t \<Rightarrow> u32 \<Rightarrow> info \<Rightarrow> info" where
  "config_set CONFIG_DEVICE_TYPE v i = i\<lparr>dev_type := ucast v\<rparr>"
| "config_set CONFIG_ADDR v i = i\<lparr>addr := ucast v\<rparr>"
| "config_set CONFIG_SN v i = i\<lparr>sn := ucast v\<rparr>"
| "config_set CONFIG_TIMEOUT_EXEC v i = i\<lparr>timeout_exec := ucast v\<rparr>"
| "config_set CONFIG_TIMEOUT_CMD v i = i\<lparr>timeout_cmd := ucast v\<rparr>"
| "config_set CONFIG_AVC_SWITCH_STATE v i = i\<lparr>avc_relay_state := ucast v\<rparr>"

text \<open>The whole image is written, built from the cached copy with one field replaced.\<close>

definition config_modify :: "'w env \<Rightarrow> config_t \<Rightarrow> u32 \<Rightarrow> ('w, int) yk_op" where
  "config_modify E t v = do {
     i \<leftarrow> reads (\<lambda>s. config_set t v (cfg s));
     r \<leftarrow> on_world (at24cxx_write E 0 (info_bytes i));
     if r = RT_EOK then do {
       modify (\<lambda>s. s\<lparr>cfg := i\<rparr>);
       lock_info_update E;
       ret RT_EOK
     }
     else ret RT_ERROR
   }"

definition modify_addr :: "'w env \<Rightarrow> u8 \<Rightarrow> ('w, int) yk_op" where
  "modify_addr E a = config_modify E CONFIG_ADDR (ucast a)"

definition modify_sn :: "'w env \<Rightarrow> u32 \<Rightarrow> ('w, int) yk_op" where
  "modify_sn E n = config_modify E CONFIG_SN n"

definition modify_device :: "'w env \<Rightarrow> u8 \<Rightarrow> ('w, int) yk_op" where
  "modify_device E t = config_modify E CONFIG_DEVICE_TYPE (ucast t)"

definition modify_timeout_exec :: "'w env \<Rightarrow> u8 \<Rightarrow> ('w, int) yk_op" where
  "modify_timeout_exec E t = config_modify E CONFIG_TIMEOUT_EXEC (ucast t)"

definition modify_timeout_cmd :: "'w env \<Rightarrow> u8 \<Rightarrow> ('w, int) yk_op" where
  "modify_timeout_cmd E t = config_modify E CONFIG_TIMEOUT_CMD (ucast t)"

section \<open>config.c: start-up\<close>

text \<open>
  \<open>info\<close> is a local the read fills; what a failed read leaves of it is unknown
  (\<open>junk\<close> is the local before the call).  Only three fields reach the cached copy; the others keep
  the zeros of static storage.
\<close>

definition config_init :: "'w env \<Rightarrow> info \<Rightarrow> ('w, int) yk_op" where
  "config_init E junk = do {
     bs \<leftarrow> on_world (\<lambda>w. case at24cxx_read E 0 8 w of (r, bs, w') \<Rightarrow> (bs, w'));
     let i = info_of_bytes (overlay (info_bytes junk) bs);
     modify (\<lambda>s. s\<lparr>cfg := (cfg s)\<lparr>addr := (if addr i \<noteq> 0 then addr i else 0x01)\<rparr>\<rparr>);
     modify (\<lambda>s. s\<lparr>cfg := (cfg s)\<lparr>sn := (if sn i \<noteq> 0 then sn i else 0x000001)\<rparr>\<rparr>);
     modify (\<lambda>s. s\<lparr>cfg := (cfg s)\<lparr>dev_type :=
       (if dev_type i < lock_type_code DEVICE_TYPE_MAX then dev_type i
        else lock_type_code DEFAULT_DEVICE_TYPE)\<rparr>\<rparr>);
     ret RT_EOK
   }"

section \<open>A working EEPROM\<close>

text \<open>
  The documented behaviour of the AT24CXX driver when no transfer fails: \<open>mem w\<close> is the image
  the chip holds, a read returns it and a write replaces it.
\<close>

definition at24_works :: "'w env \<Rightarrow> ('w \<Rightarrow> u8 list) \<Rightarrow> bool" where
  "at24_works E mem \<longleftrightarrow>
     (\<forall>w. length (mem w) = 8) \<and> (\<forall>w. at24cxx_read E 0 8 w = (RT_EOK, mem w, w)) \<and>
     (\<forall>w bs. length bs = 8 \<longrightarrow>
        fst (at24cxx_write E 0 bs w) = RT_EOK \<and> mem (snd (at24cxx_write E 0 bs w)) = bs)"

text \<open>The cached copy agrees with the chip, as it does after every successful read.\<close>

definition store_ok :: "'w env \<Rightarrow> ('w \<Rightarrow> u8 list) \<Rightarrow> 'w yk \<Rightarrow> bool" where
  "store_ok E mem s \<longleftrightarrow> at24_works E mem \<and> cfg s = info_of_bytes (mem (world s))"

lemma at24_worksD:
  assumes "at24_works E mem"
  shows "length (mem w) = 8" and "at24cxx_read E 0 8 w = (RT_EOK, mem w, w)"
    and "fst (at24cxx_write E 0 (info_bytes i) w) = RT_EOK"
    and "mem (snd (at24cxx_write E 0 (info_bytes i) w)) = info_bytes i"
  using assms by (auto simp: at24_works_def)

text \<open>Any successful read makes the cache agree; from then on reads change nothing.\<close>

lemma config_get_works:
  assumes "at24_works E mem"
  shows "run_state (config_get E t True) s =
    ((RT_EOK, Some (config_field t (info_of_bytes (mem (world s))))),
     s\<lparr>cfg := info_of_bytes (mem (world s))\<rparr>)"
  using at24_worksD [OF assms] by (simp add: config_get_def run_simps overlay_full)

lemma get_byte_works:
  assumes "at24_works E mem"
  shows "run_state (get_byte E t) s =
    (ucast (config_field t (info_of_bytes (mem (world s)))), s\<lparr>cfg := info_of_bytes (mem (world s))\<rparr>)"
  by (simp add: get_byte_def config_get_works [OF assms])

lemma get_sn_works:
  assumes "at24_works E mem"
  shows "run_state (get_sn E) s =
    (ucast (sn (info_of_bytes (mem (world s)))), s\<lparr>cfg := info_of_bytes (mem (world s))\<rparr>)"
  by (simp add: get_sn_def config_get_works [OF assms])

definition device_of :: "info \<Rightarrow> lock_type" where
  "device_of i = (if dev_type i > 5 then YK_LOCK else lock_type_of (dev_type i))"

lemma ucast_u8_u32 [simp]: "ucast (ucast (x :: u8) :: u32) = x"
  by (rule bit_word_eqI) (auto simp: bit_simps)

lemma ucast_u24_u32 [simp]: "ucast (ucast (x :: u24) :: u32) = x"
  by (rule bit_word_eqI) (auto simp: bit_simps)

lemma get_device_works:
  assumes "at24_works E mem"
  shows "run_state (get_device E) s =
    (device_of (info_of_bytes (mem (world s))), s\<lparr>cfg := info_of_bytes (mem (world s))\<rparr>)"
  by (simp add: get_device_def get_byte_works [OF assms] device_of_def DEFAULT_DEVICE_TYPE_def)

text \<open>On a state whose cache agrees the getters are pure.\<close>

lemma cfg_same [simp]: "s\<lparr>cfg := cfg s\<rparr> = s"
  by (cases s) simp

lemma store_getters [run_simps]:
  assumes "store_ok E mem s"
  shows "run_state (get_addr E) s = (addr (cfg s), s)"
    and "run_state (get_sn E) s = (ucast (sn (cfg s)), s)"
    and "run_state (get_device E) s = (device_of (cfg s), s)"
    and "run_state (get_timeout_exec E) s = (timeout_exec (cfg s), s)"
    and "run_state (get_timeout_cmd E) s = (timeout_cmd (cfg s), s)"
    and "run_state (config_get E t True) s = ((RT_EOK, Some (config_field t (cfg s))), s)"
proof -
  from assms have works: "at24_works E mem" and cfg: "info_of_bytes (mem (world s)) = cfg s"
    by (simp_all add: store_ok_def)
  show "run_state (get_addr E) s = (addr (cfg s), s)"
    and "run_state (get_sn E) s = (ucast (sn (cfg s)), s)"
    and "run_state (get_device E) s = (device_of (cfg s), s)"
    and "run_state (get_timeout_exec E) s = (timeout_exec (cfg s), s)"
    and "run_state (get_timeout_cmd E) s = (timeout_cmd (cfg s), s)"
    and "run_state (config_get E t True) s = ((RT_EOK, Some (config_field t (cfg s))), s)"
    by (simp_all add: get_addr_def get_timeout_exec_def get_timeout_cmd_def cfg
        get_byte_works [OF works] get_sn_works [OF works] get_device_works [OF works]
        config_get_works [OF works])
qed

text \<open>What \<open>lock_info_update\<close> makes of an image.\<close>

definition ids_fault :: "info \<Rightarrow> bool" where
  "ids_fault i \<longleftrightarrow> device_of i = DEVICE_TYPE_MAX"

definition lock_info_of :: "'w env \<Rightarrow> info \<Rightarrow> lock_info \<Rightarrow> lock_info" where
  "lock_info_of E i l = l\<lparr>
     dev_id := (case get_device_id_by_lock_type (device_of i) of Some d \<Rightarrow> d | None \<Rightarrow> behind_id_table E),
     net_id := 0, lk_addr := addr i, lk_sn := ucast (sn i), lk_type := device_of i,
     lk_channel := DEFAULT_CHANNEL_TYPE, hardware_type := DEFAULT_HARDWARE_TYPE\<rparr>"

lemma device_id_lookup [simp]:
  "get_device_id_by_lock_type YK_LOCK = Some 0x03"
  "get_device_id_by_lock_type YK_COLD_LOCK = Some 0x03"
  "get_device_id_by_lock_type AVC = Some 0x03"
  "get_device_id_by_lock_type AVC_COLD_LOCK = Some 0x03"
  "get_device_id_by_lock_type AVC_SWITCH = Some 0x19"
  "get_device_id_by_lock_type DEVICE_TYPE_MAX = None"
  by (simp_all add: get_device_id_by_lock_type_def device_id_table_def)

lemma device_id_None: "get_device_id_by_lock_type t = None \<longleftrightarrow> t = DEVICE_TYPE_MAX"
  by (cases t) simp_all

lemma run_device_id [run_simps]:
  "run_state (device_id_or_fault E t) s =
     ((case get_device_id_by_lock_type t of Some d \<Rightarrow> d | None \<Rightarrow> behind_id_table E),
      s\<lparr>ub := ub s \<or> t = DEVICE_TYPE_MAX\<rparr>)"
  using device_id_None [of t]
  by (auto simp: device_id_or_fault_def run_simps split: option.split)

lemma lock_info_update_works:
  assumes "at24_works E mem"
  shows "run_state (lock_info_update E) s =
    (let i = info_of_bytes (mem (world s))
     in ((), s\<lparr>cfg := i, lk := lock_info_of E i (lk s), ub := ub s \<or> ids_fault i\<rparr>))"
  by (simp add: lock_info_update_def get_addr_def get_byte_works [OF assms] get_sn_works [OF assms]
      get_device_works [OF assms] run_simps Let_def lock_info_of_def ids_fault_def)

lemma config_modify_works:
  assumes "at24_works E mem"
  shows "run_state (config_modify E t v) s =
    (let i = config_set t v (cfg s)
     in (RT_EOK, s\<lparr>cfg := i, world := snd (at24cxx_write E 0 (info_bytes i) (world s)),
           lk := lock_info_of E i (lk s), ub := ub s \<or> ids_fault i\<rparr>))"
  using at24_worksD [OF assms]
  by (simp add: config_modify_def run_simps lock_info_update_works [OF assms] Let_def)

lemma config_modify_store_ok:
  assumes "at24_works E mem"
  shows "store_ok E mem (snd (run_state (config_modify E t v) s))"
  using at24_worksD [OF assms] assms
  by (simp add: config_modify_works [OF assms] store_ok_def Let_def)

section \<open>The store as its clients see it\<close>

text \<open>
  The contract of a store of independent fields: what was put last is found, cut to the field's
  width, and nothing else changes.
\<close>

locale field_store =
  fixes ok :: "'s \<Rightarrow> bool" and look :: "'k \<Rightarrow> 's \<Rightarrow> 'r" and put :: "'k \<Rightarrow> 'v \<Rightarrow> 's \<Rightarrow> 's"
    and fit :: "'k \<Rightarrow> 'v \<Rightarrow> 'r"
  assumes put_ok: "ok s \<Longrightarrow> ok (put k v s)"
    and look_put: "ok s \<Longrightarrow> look j (put k v s) = (if j = k then fit k v else look j s)"
begin

abbreviation puts :: "('k \<times> 'v) list \<Rightarrow> 's \<Rightarrow> 's" where
  "puts kvs s \<equiv> foldl (\<lambda>s (k, v). put k v s) s kvs"

lemma puts_ok: "ok s \<Longrightarrow> ok (puts kvs s)"
  by (induction kvs arbitrary: s) (auto intro: put_ok)

lemma look_puts:
  "ok s \<Longrightarrow> look j (puts kvs s) = (case map_of (rev kvs) j of Some v \<Rightarrow> fit j v | None \<Rightarrow> look j s)"
proof (induction kvs rule: rev_induct)
  case (snoc kv kvs)
  obtain k v where kv: "kv = (k, v)" by fastforce
  have "ok (puts kvs s)" using snoc.prems by (rule puts_ok)
  then show ?case using snoc by (auto simp: kv look_put)
qed simp

end

definition config_value :: "'w env \<Rightarrow> config_t \<Rightarrow> 'w yk \<Rightarrow> u32 option" where
  "config_value E t s = snd (fst (run_state (config_get E t True) s))"

definition config_put :: "'w env \<Rightarrow> config_t \<Rightarrow> u32 \<Rightarrow> 'w yk \<Rightarrow> 'w yk" where
  "config_put E t v s = snd (run_state (config_modify E t v) s)"

text \<open>The width a value is cut to: 24 bits for the serial number, 8 for every other field.\<close>

definition config_fit :: "config_t \<Rightarrow> u32 \<Rightarrow> u32" where
  "config_fit t v = (if t = CONFIG_SN then take_bit 24 v else take_bit 8 v)"

lemma config_field_set:
  "config_field j (config_set k v i) = (if j = k then config_fit k v else config_field j i)"
proof -
  have "ucast (ucast v :: u8) = take_bit 8 v" "ucast (ucast v :: u24) = take_bit 24 v"
    by (rule bit_word_eqI, auto simp: bit_simps)+
  then show ?thesis by (cases j; cases k) (simp_all add: config_fit_def)
qed

interpretation eeprom: field_store "store_ok E mem" "config_value E" "config_put E"
  "\<lambda>t v. Some (config_fit t v)" for E :: "'w env" and mem
proof unfold_locales
  fix s :: "'w yk" and t v
  assume s: "store_ok E mem s"
  then have works: "at24_works E mem" by (simp add: store_ok_def)
  show put: "store_ok E mem (config_put E t v s)"
    unfolding config_put_def using works by (rule config_modify_store_ok)
  fix j
  show "config_value E j (config_put E t v s) =
      (if j = t then Some (config_fit t v) else config_value E j s)"
    using s put by (simp add: config_value_def run_simps)
      (simp add: config_put_def config_modify_works [OF works] Let_def config_field_set)
qed

definition config_puts :: "'w env \<Rightarrow> (config_t \<times> u32) list \<Rightarrow> 'w yk \<Rightarrow> 'w yk" where
  "config_puts E kvs s = foldl (\<lambda>s (t, v). config_put E t v s) s kvs"


text \<open>A refused EEPROM write changes neither the cached image nor the lock's identity.\<close>

theorem config_modify_failed_write:
  assumes "fst (at24cxx_write E 0 (info_bytes (config_set t v (cfg s))) (world s)) \<noteq> RT_EOK"
  shows "fst (run_state (config_modify E t v) s) = RT_ERROR \<and>
    cfg (snd (run_state (config_modify E t v) s)) = cfg s \<and>
    lk (snd (run_state (config_modify E t v) s)) = lk s"
  using assms by (simp_all add: config_modify_def run_simps)

text \<open>The type code that passes the clamp without naming a type.\<close>

lemma ids_fault_iff: "ids_fault i \<longleftrightarrow> dev_type i = 5"
  by (auto simp: ids_fault_def device_of_def lock_type_of_def) (unat_arith; simp)

text \<open>
  C32: a configuration write makes the firmware read behind the device identifier table exactly when
  it leaves the stored device type at 5, the value of \<open>DEVICE_TYPE_MAX\<close>, which the clamp lets pass.
\<close>

theorem config_modify_table_bounds:
  assumes "at24_works E mem"
  shows "ub (snd (run_state (config_modify E t v) s)) \<longleftrightarrow> ub s \<or> dev_type (config_set t v (cfg s)) = 5"
  by (simp add: config_modify_works [OF assms] Let_def ids_fault_iff)

end
