(* ===== verification/Yk_Operation.thy ===== *)
theory Yk_Operation
  imports Yk_Config
begin

text \<open>
  \<^verbatim>\<open>applications/operation.c\<close>: the relays, the query bytes and the persistent AVC switch
  state, over the GPIO levels and the configuration store.
\<close>

section \<open>Types and relay macros\<close>

datatype lock_control = CONTROL_YK_OPEN | CONTROL_YK_CLOSE | CONTROL_AVC_SWITCH_ENGAGE
  | CONTROL_AVC_SWITCH_DISENGAGE | CONTROL_COLD_LOCK_POWER_ON | CONTROL_COLD_LOCK_POWER_OFF

datatype query_state_t = YK_PORT_STATE | AVC_SWITCH_LED_RELAY_STATE | AVC_SWITCH_RELAY_STATE
  | AVC_SWITCH_OPERATION_RESULT | COLD_LOCK_STATE

definition AVC_RELAY_STATE_OPEN :: u8 where "AVC_RELAY_STATE_OPEN = 0"
definition AVC_RELAY_STATE_CLOSE :: u8 where "AVC_RELAY_STATE_CLOSE = 1"

definition YK_REALY_STATE_OPEN :: u8 where "YK_REALY_STATE_OPEN = 1"
definition YK_REALY_STATE_CLOSE :: u8 where "YK_REALY_STATE_CLOSE = 0"

definition level :: "bool \<Rightarrow> u8" where "level b = (if b then 1 else 0)"

definition AVC_RELAY_CONTROL :: "'w env \<Rightarrow> nat \<Rightarrow> nat \<Rightarrow> ('w, unit) yk_op" where
  "AVC_RELAY_CONTROL E pin t = do {
     pin_write E pin True;
     thread_delay E t;
     pin_write E pin False
   }"

definition AVC_RELAY_ENGAGE :: "'w env \<Rightarrow> ('w, unit) yk_op" where
  "AVC_RELAY_ENGAGE E = AVC_RELAY_CONTROL E PIN_AVC_RELAY_CLOSE TIME_RELAY_CONTROL"

definition AVC_RELAY_DISENGAGE :: "'w env \<Rightarrow> ('w, unit) yk_op" where
  "AVC_RELAY_DISENGAGE E = AVC_RELAY_CONTROL E PIN_AVC_RELAY_OPEN TIME_RELAY_CONTROL"

definition AVC_RELAY_CHECK :: "'w env \<Rightarrow> ('w, u8) yk_op" where
  "AVC_RELAY_CHECK E = do { b \<leftarrow> pin_read E PIN_AVC_RELAY_CHECK; ret (level b) }"

definition YK_RELAY_K0_OPEN :: "'w env \<Rightarrow> ('w, unit) yk_op" where
  "YK_RELAY_K0_OPEN E = AVC_RELAY_DISENGAGE E"

definition YK_RELAY_K0_CLOSE :: "'w env \<Rightarrow> ('w, unit) yk_op" where
  "YK_RELAY_K0_CLOSE E = do {
     pin_write E PIN_AVC_RELAY_CLOSE True;
     pin_write E PIN_AVC_RELAY_OPEN False
   }"

definition YK_RELAY_K1_OPEN :: "'w env \<Rightarrow> ('w, unit) yk_op" where
  "YK_RELAY_K1_OPEN E = do { pin_write E PIN_AVC_CT1 True; pin_write E PIN_AVC_K1 False }"

definition YK_RELAY_K1_CLOSE :: "'w env \<Rightarrow> ('w, unit) yk_op" where
  "YK_RELAY_K1_CLOSE E = do { pin_write E PIN_AVC_CT1 False; pin_write E PIN_AVC_K1 True }"

definition YK_RELAY_K2_OPEN :: "'w env \<Rightarrow> ('w, unit) yk_op" where
  "YK_RELAY_K2_OPEN E = do { pin_write E PIN_AVC_CT2 True; pin_write E PIN_AVC_K2 False }"

definition YK_RELAY_K2_CLOSE :: "'w env \<Rightarrow> ('w, unit) yk_op" where
  "YK_RELAY_K2_CLOSE E = do { pin_write E PIN_AVC_CT2 False; pin_write E PIN_AVC_K2 True }"

text \<open>The macros of the fourth relay are empty on this hardware.\<close>

definition YK_RELAY_K3_OPEN :: "('w, unit) yk_op" where "YK_RELAY_K3_OPEN = ret ()"
definition YK_RELAY_K3_CLOSE :: "('w, unit) yk_op" where "YK_RELAY_K3_CLOSE = ret ()"

section \<open>Saving the switch state\<close>

text \<open>Up to ten reads, one tick apart; a failed read leaves \<open>state\<close> as it was.\<close>

fun save_check_loop :: "'w env \<Rightarrow> u8 \<Rightarrow> nat \<Rightarrow> u8 \<Rightarrow> ('w, int) yk_op" where
  "save_check_loop E want 0 st = ret RT_ERROR"
| "save_check_loop E want (Suc n) st = do {
     (_, v) \<leftarrow> config_get E CONFIG_AVC_SWITCH_STATE True;
     let st' = (case v of Some x \<Rightarrow> ucast x | None \<Rightarrow> st);
     if st' = want then ret RT_EOK
     else do {
       thread_delay E 1;
       save_check_loop E want n st'
     }
   }"

definition avc_relay_state_save :: "'w env \<Rightarrow> u8 \<Rightarrow> ('w, int) yk_op" where
  "avc_relay_state_save E want = do {
     (r, v) \<leftarrow> config_get E CONFIG_AVC_SWITCH_STATE True;
     w \<leftarrow> reads world;
     let st = (case v of Some x \<Rightarrow> ucast x | None \<Rightarrow> uninit8 E w);
     if r \<noteq> RT_EOK then ret RT_ERROR
     else if st = want then ret RT_EOK
     else do {
       m \<leftarrow> config_modify E CONFIG_AVC_SWITCH_STATE (ucast want);
       if m \<noteq> RT_EOK then ret RT_ERROR else save_check_loop E want 10 st
     }
   }"

section \<open>Query\<close>

fun query_state :: "'w env \<Rightarrow> query_state_t \<Rightarrow> ('w, u8) yk_op" where
  "query_state E YK_PORT_STATE = do {
     let state = (0 :: u8);
     let state = state OR push_bit 7 (0 :: u8);
     k2 \<leftarrow> pin_read E PIN_AVC_CT2;
     let state = state OR push_bit 6 (level k2);
     k1 \<leftarrow> pin_read E PIN_AVC_CT1;
     let state = state OR push_bit 5 (level k1);
     k0 \<leftarrow> AVC_RELAY_CHECK E;
     let state = state OR push_bit 4 k0;
     din \<leftarrow> pin_read E PIN_AVC_DIN;
     ret (state OR level din)
   }"
| "query_state E AVC_SWITCH_LED_RELAY_STATE = do {
     l1 \<leftarrow> pin_read E PIN_AVC_LED_CT1;
     let state = (0 :: u8) OR push_bit 5 (level l1);
     l2 \<leftarrow> pin_read E PIN_AVC_LED_CT2;
     let state = state OR push_bit 4 (level l2);
     c \<leftarrow> AVC_RELAY_CHECK E;
     ret (state OR (if c \<noteq> 0 then 0x10 else 0x01))
   }"
| "query_state E AVC_SWITCH_RELAY_STATE = do {
     c \<leftarrow> AVC_RELAY_CHECK E;
     ret ((0 :: u8) OR (if c \<noteq> 0 then 0x10 else 0x01))
   }"
| "query_state E AVC_SWITCH_OPERATION_RESULT = do {
     a \<leftarrow> reads avc;
     let state = (0 :: u8) OR push_bit 4 (level (is_set a));
     let state = state OR push_bit 1 (level (is_save a));
     ret (state OR push_bit 0 (level (is_action a)))
   }"
| "query_state E COLD_LOCK_STATE = ret 0"

section \<open>Control\<close>

text \<open>The polling loop: at most fifty ticks, until the check line shows \<open>want\<close>.\<close>

fun wait_relay :: "'w env \<Rightarrow> u8 \<Rightarrow> nat \<Rightarrow> ('w, unit) yk_op" where
  "wait_relay E want 0 = ret ()"
| "wait_relay E want (Suc n) = do {
     k0 \<leftarrow> AVC_RELAY_CHECK E;
     if k0 \<noteq> want then do { thread_delay E 1; wait_relay E want n } else ret ()
   }"

definition set_avc :: "(avc_state \<Rightarrow> avc_state) \<Rightarrow> ('w, unit) yk_op" where
  "set_avc f = modify (\<lambda>s. s\<lparr>avc := f (avc s)\<rparr>)"

definition save_into_avc :: "'w env \<Rightarrow> u8 \<Rightarrow> ('w, unit) yk_op" where
  "save_into_avc E want = do {
     r \<leftarrow> avc_relay_state_save E want;
     set_avc (\<lambda>a. a\<lparr>is_save := (if r = RT_EOK then True else False)\<rparr>)
   }"

text \<open>\<open>port\<close> is what \<open>parameter\<close> points to; only the two YK commands look at it.\<close>

fun control :: "'w env \<Rightarrow> lock_control \<Rightarrow> u8 \<Rightarrow> ('w, int) yk_op" where
  "control E CONTROL_YK_OPEN port = do {
     whenM (bit port 0) (do { YK_RELAY_K0_OPEN E; wait_relay E YK_REALY_STATE_OPEN 50 });
     whenM (bit port 1) (YK_RELAY_K1_OPEN E);
     whenM (bit port 2) (YK_RELAY_K2_OPEN E);
     whenM (bit port 3) YK_RELAY_K3_OPEN;
     ret RT_EOK
   }"
| "control E CONTROL_YK_CLOSE port = do {
     whenM (bit port 0) (do { YK_RELAY_K0_CLOSE E; wait_relay E YK_REALY_STATE_CLOSE 50 });
     whenM (bit port 1) (YK_RELAY_K1_CLOSE E);
     whenM (bit port 2) (YK_RELAY_K2_CLOSE E);
     whenM (bit port 3) YK_RELAY_K3_CLOSE;
     ret RT_EOK
   }"
| "control E CONTROL_AVC_SWITCH_ENGAGE port = do {
     c \<leftarrow> AVC_RELAY_CHECK E;
     if c = AVC_RELAY_STATE_CLOSE then do {
       set_avc (\<lambda>a. a\<lparr>is_action := False, is_set := True\<rparr>);
       save_into_avc E AVC_RELAY_STATE_CLOSE;
       ret RT_EOK
     }
     else do {
       AVC_RELAY_ENGAGE E;
       c' \<leftarrow> AVC_RELAY_CHECK E;
       (if c' = AVC_RELAY_STATE_CLOSE
        then set_avc (\<lambda>a. a\<lparr>is_action := True, is_set := True\<rparr>)
        else set_avc (\<lambda>a. a\<lparr>is_action := False, is_set := False\<rparr>));
       save_into_avc E AVC_RELAY_STATE_CLOSE;
       ret RT_EOK
     }
   }"
| "control E CONTROL_AVC_SWITCH_DISENGAGE port = do {
     c \<leftarrow> AVC_RELAY_CHECK E;
     if c = AVC_RELAY_STATE_OPEN then do {
       set_avc (\<lambda>a. a\<lparr>is_action := False, is_set := True\<rparr>);
       save_into_avc E AVC_RELAY_STATE_OPEN;
       ret RT_EOK
     }
     else do {
       AVC_RELAY_DISENGAGE E;
       c' \<leftarrow> AVC_RELAY_CHECK E;
       (if c' = AVC_RELAY_STATE_OPEN
        then set_avc (\<lambda>a. a\<lparr>is_action := True, is_set := True\<rparr>)
        else set_avc (\<lambda>a. a\<lparr>is_action := False, is_set := False\<rparr>));
       save_into_avc E AVC_RELAY_STATE_OPEN;
       ret RT_EOK
     }
   }"
| "control E CONTROL_COLD_LOCK_POWER_ON port = ret RT_EOK"
| "control E CONTROL_COLD_LOCK_POWER_OFF port = ret RT_EOK"

section \<open>A board whose parts work\<close>

text \<open>
  \<open>rel w\<close> says that the AVC relay is closed.  The check line shows it, a pulse on the close
  coil closes it, a pulse on the open coil opens it, and the EEPROM, the CAN device and the relay do
  not disturb each other.
\<close>

definition pulse :: "'w env \<Rightarrow> nat \<Rightarrow> 'w \<Rightarrow> 'w" where
  "pulse E p w =
     rt_pin_write E p False (rt_thread_delay E TIME_RELAY_CONTROL (rt_pin_write E p True w))"

definition quiet :: "'w env \<Rightarrow> ('w \<Rightarrow> 'a) \<Rightarrow> bool" where
  "quiet E f \<longleftrightarrow> (\<forall>p v w. f (rt_pin_write E p v w) = f w) \<and>
     (\<forall>n w. f (rt_thread_delay E n w) = f w) \<and> (\<forall>p m w. f (rt_pin_mode E p m w) = f w) \<and>
     (\<forall>m w. f (snd (rt_device_write E m w)) = f w)"

definition relay_works :: "'w env \<Rightarrow> ('w \<Rightarrow> bool) \<Rightarrow> bool" where
  "relay_works E rel \<longleftrightarrow>
     (\<forall>w. rt_pin_read E PIN_AVC_RELAY_CHECK w = rel w) \<and>
     (\<forall>w. rel (pulse E PIN_AVC_RELAY_CLOSE w)) \<and> (\<forall>w. \<not> rel (pulse E PIN_AVC_RELAY_OPEN w)) \<and>
     (\<forall>a bs w. rel (snd (at24cxx_write E a bs w)) = rel w) \<and> (\<forall>n w. rel (rt_thread_delay E n w) = rel w) \<and>
     (\<forall>m w. rel (snd (rt_device_write E m w)) = rel w)"

definition board_works :: "'w env \<Rightarrow> ('w \<Rightarrow> u8 list) \<Rightarrow> ('w \<Rightarrow> bool) \<Rightarrow> bool" where
  "board_works E mem rel \<longleftrightarrow> at24_works E mem \<and> quiet E mem \<and> relay_works E rel"

lemma relay_worksD:
  assumes "relay_works E rel"
  shows "rt_pin_read E PIN_AVC_RELAY_CHECK w = rel w" and "rel (pulse E PIN_AVC_RELAY_CLOSE w)"
    and "\<not> rel (pulse E PIN_AVC_RELAY_OPEN w)" and "rel (snd (at24cxx_write E a bs w)) = rel w"
    and "rel (rt_thread_delay E n w) = rel w" and "rel (snd (rt_device_write E m w)) = rel w"
  using assms by (simp_all add: relay_works_def)

lemma quietD:
  assumes "quiet E f"
  shows "f (rt_pin_write E p v w) = f w" and "f (rt_thread_delay E n w) = f w"
    and "f (rt_pin_mode E p m w) = f w" and "f (snd (rt_device_write E c w)) = f w"
    and "f (pulse E p w) = f w"
  using assms by (simp_all add: quiet_def pulse_def)

lemma level_simps [simp]: "level True = 1" "level False = 0" "level b = 0 \<longleftrightarrow> \<not> b" "level b = 1 \<longleftrightarrow> b"
  by (simp_all add: level_def)

lemma run_relay_ops [run_simps]:
  "run_state (AVC_RELAY_CONTROL E p TIME_RELAY_CONTROL) s = ((), s\<lparr>world := pulse E p (world s)\<rparr>)"
  "run_state (AVC_RELAY_ENGAGE E) s = ((), s\<lparr>world := pulse E PIN_AVC_RELAY_CLOSE (world s)\<rparr>)"
  "run_state (AVC_RELAY_DISENGAGE E) s = ((), s\<lparr>world := pulse E PIN_AVC_RELAY_OPEN (world s)\<rparr>)"
  "run_state (AVC_RELAY_CHECK E) s = (level (rt_pin_read E PIN_AVC_RELAY_CHECK (world s)), s)"
  "run_state (set_avc f) s = ((), s\<lparr>avc := f (avc s)\<rparr>)"
  by (simp_all add: AVC_RELAY_CONTROL_def AVC_RELAY_ENGAGE_def AVC_RELAY_DISENGAGE_def
      AVC_RELAY_CHECK_def set_avc_def pulse_def run_simps)

text \<open>Only the world and the cache take part in saving; on a working board it always succeeds.\<close>

definition saved :: "'w env \<Rightarrow> u8 \<Rightarrow> 'w yk \<Rightarrow> 'w yk" where
  "saved E want s =
     (if avc_relay_state (cfg s) = want then s
      else snd (run_state (config_modify E CONFIG_AVC_SWITCH_STATE (ucast want)) s))"

lemma avc_relay_state_save_works:
  assumes "store_ok E mem s"
  shows "run_state (avc_relay_state_save E want) s = (RT_EOK, saved E want s)"
proof -
  from assms have works: "at24_works E mem" by (simp add: store_ok_def)
  obtain t where mod: "run_state (config_modify E CONFIG_AVC_SWITCH_STATE (ucast want)) s = (RT_EOK, t)"
    by (simp add: config_modify_works [OF works] Let_def)
  have t: "store_ok E mem t"
    using config_modify_store_ok [OF works, of CONFIG_AVC_SWITCH_STATE "ucast want" s] mod by simp
  have "avc_relay_state (cfg t) = want"
    using mod by (auto simp: config_modify_works [OF works] Let_def)
  then have "run_state (save_check_loop E want 10 st) t = (RT_EOK, t)" for st
    by (simp add: numeral_eq_Suc store_getters [OF t])
  then show ?thesis
    using mod by (simp add: avc_relay_state_save_def store_getters [OF assms] saved_def)
qed

lemma saved_facts:
  assumes "store_ok E mem s"
  shows "store_ok E mem (saved E want s)" and "avc_relay_state (cfg (saved E want s)) = want"
    and "avc (saved E want s) = avc s" and "sent (saved E want s) = sent s"
    and "addr (cfg (saved E want s)) = addr (cfg s)" and "sn (cfg (saved E want s)) = sn (cfg s)"
    and "dev_type (cfg (saved E want s)) = dev_type (cfg s)"
proof -
  from assms have works: "at24_works E mem" by (simp add: store_ok_def)
  show "store_ok E mem (saved E want s)"
    using assms config_modify_store_ok [OF works] by (simp add: saved_def)
qed (use assms in \<open>auto simp: saved_def store_ok_def config_modify_works Let_def\<close>)

lemma saved_relay: "relay_works E rel \<Longrightarrow> store_ok E mem s \<Longrightarrow> rel (world (saved E want s)) = rel (world s)"
  by (auto simp: saved_def store_ok_def config_modify_works Let_def relay_worksD)

lemma store_ok_world:
  "store_ok E mem s \<Longrightarrow> mem w = mem (world s) \<Longrightarrow> store_ok E mem (s\<lparr>world := w\<rparr>)"
  by (simp add: store_ok_def)

lemma store_ok_avc [simp]: "store_ok E mem (s\<lparr>avc := a\<rparr>) = store_ok E mem s"
  by (simp add: store_ok_def)

section \<open>What the AVC commands achieve\<close>

text \<open>The state an engage or disengage command leaves, written as one expression.\<close>

definition switched :: "'w env \<Rightarrow> nat \<Rightarrow> u8 \<Rightarrow> bool \<Rightarrow> 'w yk \<Rightarrow> 'w yk" where
  "switched E coil want moved s =
     (let s1 = (if moved then s\<lparr>world := pulse E coil (world s)\<rparr> else s);
          s2 = saved E want (s1\<lparr>avc := (avc s1)\<lparr>is_action := moved, is_set := True\<rparr>\<rparr>)
      in s2\<lparr>avc := (avc s2)\<lparr>is_save := True\<rparr>\<rparr>)"

lemma avc_commands_run:
  assumes board: "board_works E mem rel" and ok: "store_ok E mem s"
  shows "run_state (control E CONTROL_AVC_SWITCH_ENGAGE port) s =
      (RT_EOK, switched E PIN_AVC_RELAY_CLOSE AVC_RELAY_STATE_CLOSE (\<not> rel (world s)) s)"
    and "run_state (control E CONTROL_AVC_SWITCH_DISENGAGE port) s =
      (RT_EOK, switched E PIN_AVC_RELAY_OPEN AVC_RELAY_STATE_OPEN (rel (world s)) s)"
proof -
  from board have relay: "relay_works E rel" and quiet: "quiet E mem"
    by (simp_all add: board_works_def)
  have ok': "store_ok E mem (s\<lparr>world := pulse E p (world s)\<rparr>)" for p
    using ok by (rule store_ok_world) (simp add: quietD [OF quiet])
  note rules = run_simps relay_worksD [OF relay] AVC_RELAY_STATE_CLOSE_def AVC_RELAY_STATE_OPEN_def
    save_into_avc_def switched_def Let_def
    avc_relay_state_save_works [where mem = mem]
  show "run_state (control E CONTROL_AVC_SWITCH_ENGAGE port) s =
      (RT_EOK, switched E PIN_AVC_RELAY_CLOSE AVC_RELAY_STATE_CLOSE (\<not> rel (world s)) s)"
    using ok ok' by (simp add: rules)
  show "run_state (control E CONTROL_AVC_SWITCH_DISENGAGE port) s =
      (RT_EOK, switched E PIN_AVC_RELAY_OPEN AVC_RELAY_STATE_OPEN (rel (world s)) s)"
    using ok ok' by (simp add: rules)
qed

lemma switched_facts:
  assumes board: "board_works E mem rel" and ok: "store_ok E mem s"
  shows "store_ok E mem (switched E p want m s)"
    and "avc_relay_state (cfg (switched E p want m s)) = want"
    and "avc (switched E p want m s) = \<lparr>is_action = m, is_set = True, is_save = True\<rparr>"
    and "rel (world (switched E p want m s)) = (if m then rel (pulse E p (world s)) else rel (world s))"
    and "sent (switched E p want m s) = sent s" and "addr (cfg (switched E p want m s)) = addr (cfg s)"
    and "sn (cfg (switched E p want m s)) = sn (cfg s)"
proof -
  from board have relay: "relay_works E rel" and quiet: "quiet E mem"
    by (simp_all add: board_works_def)
  let ?s1 = "if m then s\<lparr>world := pulse E p (world s)\<rparr> else s"
  let ?s1' = "?s1\<lparr>avc := (avc ?s1)\<lparr>is_action := m, is_set := True\<rparr>\<rparr>"
  have ok1: "store_ok E mem ?s1'"
    using ok store_ok_world [OF ok, of "pulse E p (world s)"] by (simp add: quietD [OF quiet])
  note facts = saved_facts [OF ok1, of want] saved_relay [OF relay ok1, of want]
  show "store_ok E mem (switched E p want m s)"
    using facts(1) by (simp add: switched_def Let_def)
  show "avc_relay_state (cfg (switched E p want m s)) = want"
    using facts(2) by (simp add: switched_def Let_def)
  show "avc (switched E p want m s) = \<lparr>is_action = m, is_set = True, is_save = True\<rparr>"
    using facts(3) by (simp add: switched_def Let_def)
  show "rel (world (switched E p want m s)) = (if m then rel (pulse E p (world s)) else rel (world s))"
    using facts(8) by (simp add: switched_def Let_def)
  show "sent (switched E p want m s) = sent s"
    using facts(4) by (simp add: switched_def Let_def)
  show "addr (cfg (switched E p want m s)) = addr (cfg s)"
    using facts(5) by (simp add: switched_def Let_def)
  show "sn (cfg (switched E p want m s)) = sn (cfg s)"
    using facts(6) by (simp add: switched_def Let_def)
qed

section \<open>The YK relay\<close>

lemma wait_relay_never:
  assumes "relay_works E rel" and "level (rel (world s)) \<noteq> want"
  shows "run_state (wait_relay E want n) s = ((), s\<lparr>world := (rt_thread_delay E 1 ^^ n) (world s)\<rparr>)"
  using assms
  by (induction n arbitrary: s)
     (simp_all add: run_simps relay_worksD [OF assms(1)] funpow_swap1)

text \<open>
  C34: on a working relay the YK open command opens the relay and then always waits the full fifty
  ticks: the loop waits for the check line to show \<open>YK_REALY_STATE_OPEN\<close>, which is 1, the level it
  has when the relay is closed.
\<close>

theorem yk_open_waits_in_vain:
  assumes "relay_works E rel"
  shows "run_state (control E CONTROL_YK_OPEN 1) s =
    (RT_EOK, s\<lparr>world := (rt_thread_delay E 1 ^^ 50) (pulse E PIN_AVC_RELAY_OPEN (world s))\<rparr>) \<and>
    \<not> rel (pulse E PIN_AVC_RELAY_OPEN (world s))"
proof -
  have open_now: "\<not> rel (pulse E PIN_AVC_RELAY_OPEN w)" for w
    using relay_worksD [OF assms] by blast
  have "run_state (wait_relay E YK_REALY_STATE_OPEN 50) (s\<lparr>world := pulse E PIN_AVC_RELAY_OPEN (world s)\<rparr>) =
      ((), s\<lparr>world := (rt_thread_delay E 1 ^^ 50) (pulse E PIN_AVC_RELAY_OPEN (world s))\<rparr>)"
    using wait_relay_never [OF assms, of "s\<lparr>world := pulse E PIN_AVC_RELAY_OPEN (world s)\<rparr>"] open_now
    by (simp add: YK_REALY_STATE_OPEN_def)
  moreover have "bit (1 :: u8) 0" "\<not> bit (1 :: u8) (Suc 0)" "\<not> bit (1 :: u8) 2" "\<not> bit (1 :: u8) 3"
    by (simp_all add: bit_1_iff)
  ultimately show ?thesis
    using open_now by (simp add: YK_RELAY_K0_OPEN_def run_relay_ops)
qed

end
