(* ===== verification/Yk_Channel.thy ===== *)
theory Yk_Channel
  imports Yk_Operation
begin

text \<open>
  The transport: \<^verbatim>\<open>bsp/can_channel.c\<close>, which carries a frame of three header bytes and up
  to eight data bytes as one extended CAN message, and the channel selection of
  \<^verbatim>\<open>applications/channel.c\<close>.
\<close>

section \<open>Reading and writing frames\<close>

text \<open>
  The copy loop of \<open>can_channel_read\<close>; \<open>size\<close> is the index it returns.  The loop ends because
  it stops at \<open>len\<close>.
\<close>

function read_loop :: "can_msg \<Rightarrow> nat \<Rightarrow> nat \<Rightarrow> u8 list \<Rightarrow> nat \<times> u8 list" where
  "read_loop m len sz buff =
     (if sz < len \<and> sz < unat (msg_len m) + 3
      then read_loop m len (sz + 1) (buff[sz := msg_data m ! (sz - 3)])
      else (sz, buff))"
  by auto

termination by (relation "measure (\<lambda>(m, len, sz, buff). len - sz)") auto

declare read_loop.simps [simp del]

text \<open>
  The code writes the header bytes and copies data bytes until the shorter of \<open>len\<close> and the
  message ends, then logs the first \<open>len - 3\<close> data bytes.  Memory is exceeded when the frame does
  not fit the caller's buffer, or when copy or log run past the eight data bytes.
\<close>

definition can_channel_read :: "u8 list \<Rightarrow> nat \<Rightarrow> ('w, nat \<times> u8 list) yk_op" where
  "can_channel_read buff len =
     (if len < 3 then ret (0, buff)
      else do {
        m \<leftarrow> reads (\<lambda>s. msg_buff (chan s));
        let buff = buff[0 := ucast (drop_bit 16 (msg_id m))];
        let buff = buff[1 := ucast (drop_bit 8 (msg_id m))];
        let buff = buff[2 := ucast (msg_id m)];
        let (size, buff) = read_loop m len 3 buff;
        set_ub (length buff < size \<or> length (msg_data m) < size - 3);
        set_ub (length (msg_data m) < len - 3);
        ret (size, buff)
      })"

text \<open>\<open>tx_id\<close> is the identifier the three header bytes add up to in the 29-bit field.\<close>

definition tx_id :: "u8 list \<Rightarrow> 29 word" where
  "tx_id data = 0 + push_bit 16 (ucast (data ! 0)) + push_bit 8 (ucast (data ! 1)) + ucast (data ! 2)"

definition CAN_TX_DEFAULT_MESSAGE :: can_msg where
  "CAN_TX_DEFAULT_MESSAGE =
     \<lparr>msg_id = 0, msg_ide = True, msg_rtr = False, msg_len = 0, msg_data = [0, 0, 0, 0, 0, 0, 0, 0]\<rparr>"

text \<open>
  The channel's mutex, which the code holds around the device write, leaves no trace here: the
  model runs one call at a time, so the mutex is free when it is taken and free again afterwards.
\<close>

definition can_channel_write :: "'w env \<Rightarrow> u8 list \<Rightarrow> nat \<Rightarrow> ('w, nat) yk_op" where
  "can_channel_write E data len =
     (if len < 3 then ret 0
      else do {
        let m = CAN_TX_DEFAULT_MESSAGE\<lparr>msg_id := tx_id data\<rparr>;
        let m = m\<lparr>msg_len := of_nat (len - 3)\<rparr>;
        set_ub (length (msg_data m) < len - 3 \<or> length data < len);
        let m = m\<lparr>msg_data := overlay (msg_data m) (take (len - 3) (drop 3 data))\<rparr>;
        size \<leftarrow> on_world (rt_device_write E m);
        modify (\<lambda>s. s\<lparr>sent := sent s @ [m]\<rparr>);
        ret size
      })"

section \<open>Setting the channel up\<close>

definition set_chan :: "(can_channel_state \<Rightarrow> can_channel_state) \<Rightarrow> ('w, unit) yk_op" where
  "set_chan f = modify (\<lambda>s. s\<lparr>chan := f (chan s)\<rparr>)"

definition can_channel_set_rx_callbck :: "bool \<Rightarrow> ('w, unit) yk_op" where
  "can_channel_set_rx_callbck cb = set_chan (\<lambda>c. c\<lparr>ch_rx_callback := cb\<rparr>)"

definition can_channel_init :: "'w env \<Rightarrow> ('w, int) yk_op" where
  "can_channel_init E = do {
     c \<leftarrow> reads chan;
     dev \<leftarrow> (if \<not> ch_dev c then on_world (rt_device_find E) else ret True);
     if \<not> dev then ret RT_ERROR
     else do {
       set_chan (\<lambda>c. c\<lparr>ch_dev := True\<rparr>);
       sem \<leftarrow> (if \<not> ch_sem c then on_world (rt_sem_create E) else ret True);
       if \<not> sem then ret RT_ERROR
       else do {
         set_chan (\<lambda>c. c\<lparr>ch_sem := True\<rparr>);
         lock \<leftarrow> (if \<not> ch_lock c then on_world (rt_mutex_create E) else ret True);
         if \<not> lock then ret RT_ERROR
         else do {
           set_chan (\<lambda>c. c\<lparr>ch_lock := True\<rparr>);
           set_chan (\<lambda>c. c\<lparr>ch_ops := True\<rparr>);
           ret RT_EOK
         }
       }
     }
   }"

definition CAN20kBaud :: nat where "CAN20kBaud = 1000 * 20"

text \<open>
  The parameter is the filter table; the receiving thread is created once.  What the baud rate
  request returns is ignored.
\<close>

definition can_channel_open :: "'w env \<Rightarrow> (29 word \<times> u32) list option \<Rightarrow> ('w, int) yk_op" where
  "can_channel_open E parameter = do {
     ok \<leftarrow> on_world (rt_device_open E);
     modify (\<lambda>s. s\<lparr>asserts := asserts s \<or> \<not> ok\<rparr>);
     set_chan (\<lambda>c. c\<lparr>ch_indicate := True\<rparr>);
     _ \<leftarrow> on_world (rt_can_set_baud E CAN20kBaud);
     (case parameter of
        Some items \<Rightarrow> do {
          ok \<leftarrow> on_world (rt_can_set_filter E items);
          set_chan (\<lambda>c. c\<lparr>ch_filter := items\<rparr>);
          modify (\<lambda>s. s\<lparr>asserts := asserts s \<or> \<not> ok\<rparr>)
        }
      | None \<Rightarrow> ret ());
     c \<leftarrow> reads chan;
     if ch_thread c then ret RT_EOK
     else do {
       t \<leftarrow> on_world (rt_thread_create E);
       if \<not> t then ret (- RT_ERROR)
       else do {
         set_chan (\<lambda>c. c\<lparr>ch_thread := True\<rparr>);
         ret RT_EOK
       }
     }
   }"

text \<open>For the UART type the code returns its uninitialised \<open>result\<close>.\<close>

definition channel_init :: "'w env \<Rightarrow> channel_type \<Rightarrow> ('w, int) yk_op" where
  "channel_init E type =
     (case type of
        CHANNEL_HW_USING_CAN \<Rightarrow> can_channel_init E
      | CHANNEL_HW_USING_UART \<Rightarrow> do { w \<leftarrow> reads world; ret (sint (uninit32 E w)) })"

section \<open>What the operations do\<close>

text \<open>The bytes of the frame a message carries: three identifier bytes, then the data.\<close>

definition msg_frame :: "can_msg \<Rightarrow> u8 list" where
  "msg_frame m =
     [ucast (drop_bit 16 (msg_id m)), ucast (drop_bit 8 (msg_id m)), ucast (msg_id m)] @
     take (unat (msg_len m)) (msg_data m)"

lemma length_msg_frame: "length (msg_frame m) = 3 + min (length (msg_data m)) (unat (msg_len m))"
  by (simp add: msg_frame_def)

lemma read_loop_result:
  assumes "3 \<le> sz" and "sz \<le> n" and "n \<le> length buff" and "n - 3 \<le> length (msg_data m)"
    and "n = min len (unat (msg_len m) + 3)"
  shows "read_loop m len sz buff =
    (n, take sz buff @ drop (sz - 3) (take (n - 3) (msg_data m)) @ drop n buff)"
  using assms
proof (induction m len sz buff rule: read_loop.induct)
  case (1 m len sz buff)
  show ?case
  proof (cases "sz < n")
    case True
    let ?buff = "buff[sz := msg_data m ! (sz - 3)]"
    have n: "drop n ?buff = drop n buff" using True by simp
    have sz: "sz - 3 < length (take (n - 3) (msg_data m))" using 1 True by auto
    have "sz < length buff" using 1 True by linarith
    then have "take (Suc sz) ?buff = take sz buff @ [msg_data m ! (sz - 3)]"
      by (simp add: take_Suc_conv_app_nth)
    moreover have "sz - 3 < n - 3" and "Suc (sz - 3) = Suc sz - 3" using 1 True by linarith+
    then have "drop (sz - 3) (take (n - 3) (msg_data m)) =
        msg_data m ! (sz - 3) # drop (Suc sz - 3) (take (n - 3) (msg_data m))"
      using Cons_nth_drop_Suc [OF sz, symmetric] by simp
    moreover have "read_loop m len sz buff = read_loop m len (sz + 1) ?buff"
      using 1 True by (subst read_loop.simps) auto
    ultimately show ?thesis using 1 True n by auto
  next
    case False
    then have "sz = n" using 1(3) by linarith
    then show ?thesis using 1 by (subst read_loop.simps) auto
  qed
qed

lemma read_loop_all:
  assumes "3 \<le> len" and "n = min len (unat (msg_len m) + 3)" and "n \<le> length buff"
    and "n - 3 \<le> length (msg_data m)"
  shows "read_loop m len 3 buff = (n, take 3 buff @ take (n - 3) (msg_data m) @ drop n buff)"
  using assms read_loop_result [of 3 n buff m len] by simp

text \<open>The message a frame of at most eleven bytes is sent as.\<close>

definition frame_msg :: "u8 list \<Rightarrow> can_msg" where
  "frame_msg data =
     \<lparr>msg_id = tx_id data, msg_ide = True, msg_rtr = False, msg_len = of_nat (length data - 3),
      msg_data = drop 3 data @ replicate (11 - length data) 0\<rparr>"

lemma ub_same [simp]: "s\<lparr>ub := ub s\<rparr> = s"
  by (cases s) simp

lemma chan_same [simp]: "s\<lparr>chan := chan s\<rparr> = s"
  by (cases s) simp

lemma zeros_8: "[0, 0, 0, 0, 0, 0, 0, 0 :: u8] = replicate 8 0"
  by (simp add: numeral_eq_Suc)

lemma run_set_chan [run_simps]: "run_state (set_chan f) s = ((), s\<lparr>chan := f (chan s)\<rparr>)"
  by (simp add: set_chan_def)

lemma can_write_run [run_simps]:
  assumes "3 \<le> length data" and "length data \<le> 11"
  shows "run_state (can_channel_write E data (length data)) s =
    (fst (rt_device_write E (frame_msg data) (world s)),
     s\<lparr>world := snd (rt_device_write E (frame_msg data) (world s)), sent := sent s @ [frame_msg data]\<rparr>)"
proof -
  have "overlay [0, 0, 0, 0, 0, 0, 0, 0] (take (length data - 3) (drop 3 data)) =
      drop 3 data @ replicate (11 - length data) 0"
    using assms by (simp only: zeros_8) (simp add: overlay_def min_def)
  moreover have "\<not> 8 < length data - 3" using assms by simp
  ultimately show ?thesis using assms
    by (simp add: can_channel_write_def CAN_TX_DEFAULT_MESSAGE_def frame_msg_def run_simps Let_def)
qed

lemma tx_id_or:
  "tx_id data = (push_bit 16 (ucast (data ! 0)) OR push_bit 8 (ucast (data ! 1))) OR ucast (data ! 2)"
proof -
  have byte: "\<not> bit (b :: u8) n" if "8 \<le> n" for b n
    using that by (auto dest: bit_imp_le_length)
  have "push_bit 16 (ucast (data ! 0) :: 29 word) + push_bit 8 (ucast (data ! 1)) =
      push_bit 16 (ucast (data ! 0)) OR push_bit 8 (ucast (data ! 1))"
    by (rule disjunctive_add) (auto simp: bit_simps byte)
  moreover have "(push_bit 16 (ucast (data ! 0) :: 29 word) OR push_bit 8 (ucast (data ! 1))) +
      ucast (data ! 2) =
      (push_bit 16 (ucast (data ! 0)) OR push_bit 8 (ucast (data ! 1))) OR ucast (data ! 2)"
    by (rule disjunctive_add) (auto simp: bit_simps byte)
  ultimately show ?thesis by (simp add: tx_id_def)
qed

lemma tx_id_bytes [simp]:
  "ucast (drop_bit 16 (tx_id data)) = data ! 0" "ucast (drop_bit 8 (tx_id data)) = data ! 1"
  "ucast (tx_id data) = data ! 2"
proof -
  have byte: "\<not> bit (b :: u8) n" if "8 \<le> n" for b n
    using that by (auto dest: bit_imp_le_length)
  show "ucast (drop_bit 16 (tx_id data)) = data ! 0" "ucast (drop_bit 8 (tx_id data)) = data ! 1"
    "ucast (tx_id data) = data ! 2"
    unfolding tx_id_or by (rule bit_word_eqI, auto simp: bit_simps byte)+
qed

lemma three_bytes: "3 \<le> length data \<Longrightarrow> [data ! 0, data ! 1, data ! 2] = take 3 data"
  by (rule nth_equalityI) (auto simp: less_Suc_eq numeral_eq_Suc)

lemma unat_frame_len: "length data \<le> 11 \<Longrightarrow> unat (word_of_nat (length data - 3) :: u8) = length data - 3"
  by (simp add: unat_of_nat)

lemma msg_frame_of_frame:
  assumes "3 \<le> length data" and "length data \<le> 11"
  shows "msg_frame (frame_msg data) = data"
proof -
  have "msg_frame (frame_msg data) = [data ! 0, data ! 1, data ! 2] @
      take (length data - 3) (drop 3 data @ replicate (11 - length data) 0)"
    unfolding msg_frame_def frame_msg_def
    by (simp only: can_msg.simps unat_frame_len [OF assms(2)] tx_id_bytes)
  also have "\<dots> = take 3 data @ drop 3 data"
    by (simp only: three_bytes [OF assms(1)]) simp
  finally show ?thesis by simp
qed

section \<open>The transport carries frames unchanged\<close>

lemma can_read_run:
  assumes "m = msg_buff (chan s)" and "length (msg_data m) = 8" and "unat (msg_len m) \<le> 8"
    and "unat (msg_len m) + 3 \<le> length buff"
  shows "run_state (can_channel_read buff (unat (msg_len m) + 3)) s =
    ((unat (msg_len m) + 3, msg_frame m @ drop (unat (msg_len m) + 3) buff), s)"
proof -
  let ?l = "unat (msg_len m)"
  let ?buff = "buff[0 := ucast (drop_bit 16 (msg_id m)), 1 := ucast (drop_bit 8 (msg_id m)),
    2 := ucast (msg_id m)]"
  have nonempty: "buff \<noteq> []" using assms by auto
  have "take 3 ?buff = [ucast (drop_bit 16 (msg_id m)), ucast (drop_bit 8 (msg_id m)), ucast (msg_id m)]"
    using three_bytes [of ?buff, symmetric] nonempty assms by simp
  moreover have "drop (?l + 3) ?buff = drop (?l + 3) buff" by simp
  moreover have "read_loop m (?l + 3) 3 ?buff =
      (?l + 3, take 3 ?buff @ take ?l (msg_data m) @ drop (?l + 3) ?buff)"
    using assms by (subst read_loop_all [where n = "?l + 3"]) auto
  ultimately have "read_loop m (?l + 3) 3 ?buff = (?l + 3, msg_frame m @ drop (?l + 3) buff)"
    by (simp add: msg_frame_def)
  then show ?thesis
    using assms by (simp add: can_channel_read_def run_simps Let_def length_msg_frame)
qed

lemma frame_msg_shape [simp]:
  assumes "length data \<le> 11"
  shows "unat (msg_len (frame_msg data)) = length data - 3"
    and "3 \<le> length data \<Longrightarrow> length (msg_data (frame_msg data)) = 8"
  using unat_frame_len [OF assms] assms by (simp_all add: frame_msg_def)

text \<open>
  What \<open>can_channel_write\<close> hands to the driver, \<open>can_channel_read\<close> gives back: the frame
  written is the frame read when its message arrives, and both stay inside their buffers.
\<close>

theorem can_frame_roundtrip:
  assumes "3 \<le> length data" and "length data \<le> 11" and "length data \<le> length buff"
  shows "\<exists>m. sent (snd (run_state (can_channel_write E data (length data)) s)) = sent s @ [m] \<and>
    ub (snd (run_state (can_channel_write E data (length data)) s)) = ub s \<and>
    (\<forall>t. msg_buff (chan t) = m \<longrightarrow>
      run_state (can_channel_read buff (unat (msg_len m) + 3)) t =
        ((length data, data @ drop (length data) buff), t))"
proof (intro exI conjI allI impI)
  show "sent (snd (run_state (can_channel_write E data (length data)) s)) = sent s @ [frame_msg data]"
    and "ub (snd (run_state (can_channel_write E data (length data)) s)) = ub s"
    using assms by (simp_all add: run_simps)
  fix t :: "'b yk"
  assume t: "msg_buff (chan t) = frame_msg data"
  have len: "unat (msg_len (frame_msg data)) + 3 = length data"
    using assms by simp
  show "run_state (can_channel_read buff (unat (msg_len (frame_msg data)) + 3)) t =
      ((length data, data @ drop (length data) buff), t)"
    using can_read_run [OF t [symmetric], of buff] assms
    by (simp add: len msg_frame_of_frame)
qed

text \<open>
  \<open>can_channel_write\<close> overruns its message exactly for frames of more than eleven bytes.
\<close>

theorem can_write_bounds:
  "ub (snd (run_state (can_channel_write E data (length data)) s)) \<longleftrightarrow> ub s \<or> 11 < length data"
  by (auto simp: can_channel_write_def CAN_TX_DEFAULT_MESSAGE_def run_simps Let_def)

end
