(* ===== verification/Yk_Handler.thy ===== *)
theory Yk_Handler
  imports Yk_Channel Crc8
begin

text \<open>
  \<^verbatim>\<open>applications/handler.c\<close>: the seventeen command handlers.  A handler gets the receive buffer
  (sixteen bytes, of which \<open>len\<close> were received) and answers with a frame built in a local array.
\<close>

section \<open>Pieces of the handlers\<close>

text \<open>The three shifts and casts that put a serial number into bytes 6 to 8 of the answer.\<close>

definition put_sn :: "u32 \<Rightarrow> u8 list \<Rightarrow> u8 list" where
  "put_sn n buff = buff[6 := ucast (drop_bit 16 n), 7 := ucast (drop_bit 8 n), 8 := ucast n]"

text \<open>The three additions that take a serial number from bytes \<open>i\<close> to \<open>i + 2\<close> of the request.\<close>

definition take_sn :: "u8 list \<Rightarrow> nat \<Rightarrow> u32" where
  "take_sn data i = 0 + push_bit 16 (ucast (data ! i)) + push_bit 8 (ucast (data ! (i + 1))) + ucast (data ! (i + 2))"

definition rt_hw_cpu_reset :: "('w, unit) yk_op" where
  "rt_hw_cpu_reset = modify (\<lambda>s. s\<lparr>resets := resets s + 1\<rparr>)"

text \<open>The seal byte and the write that end every answering handler.\<close>

definition answer :: "'w env \<Rightarrow> u8 list \<Rightarrow> nat \<Rightarrow> ('w, int) yk_op" where
  "answer E buff n = do {
     let buff = buff[n - 1 := crc8 buff (n - 1)];
     can_channel_write E buff n;
     ret RT_EOK
   }"

section \<open>YK\<close>

definition func_yk_query_state :: "'w env \<Rightarrow> u8 list \<Rightarrow> nat \<Rightarrow> ('w, int) yk_op" where
  "func_yk_query_state E data len = do {
     let buff = replicate 11 0;
     let buff = buff[3 := 0x06];
     let buff = buff[4 := 0x01];
     a \<leftarrow> get_addr E;
     let buff = buff[5 := a];
     n \<leftarrow> get_sn E;
     let buff = put_sn n buff;
     q \<leftarrow> query_state E YK_PORT_STATE;
     let buff = buff[9 := q];
     answer E buff 11
   }"

definition func_yk_control :: "'w env \<Rightarrow> u8 list \<Rightarrow> nat \<Rightarrow> ('w, int) yk_op" where
  "func_yk_control E data len = do {
     let port = data ! 5;
     let opt = data ! 6;
     (if opt = 0x00 then control E CONTROL_YK_CLOSE port else control E CONTROL_YK_OPEN port);
     let buff = replicate 8 0;
     let buff = buff[3 := 0x03];
     let buff = buff[4 := 0x02];
     a \<leftarrow> get_addr E;
     let buff = buff[5 := a];
     q \<leftarrow> query_state E YK_PORT_STATE;
     let buff = buff[6 := q];
     answer E buff 8
   }"

definition func_yk_modify_addr :: "'w env \<Rightarrow> u8 list \<Rightarrow> nat \<Rightarrow> ('w, int) yk_op" where
  "func_yk_modify_addr E data len = do {
     let a = data ! 5;
     let n = take_sn data 6;
     m \<leftarrow> get_sn E;
     if n \<noteq> m then ret RT_ERROR
     else do {
       modify_addr E a;
       rt_hw_cpu_reset;
       ret RT_EOK
     }
   }"

definition func_yk_report_state :: "'w env \<Rightarrow> u8 list \<Rightarrow> nat \<Rightarrow> ('w, int) yk_op" where
  "func_yk_report_state E data len = do {
     let buff = replicate 11 0;
     let buff = buff[3 := 0x06];
     let buff = buff[4 := 0x04];
     a \<leftarrow> get_addr E;
     let buff = buff[5 := a];
     n \<leftarrow> get_sn E;
     let buff = put_sn n buff;
     q \<leftarrow> query_state E YK_PORT_STATE;
     let buff = buff[9 := q];
     answer E buff 11
   }"

definition func_yk_production_modify_sn :: "'w env \<Rightarrow> u8 list \<Rightarrow> nat \<Rightarrow> ('w, int) yk_op" where
  "func_yk_production_modify_sn E data len = do {
     modify_sn E (take_sn data 6);
     l \<leftarrow> reads lk;
     (if hardware_type l = HW_AVC_SWITCH \<and> lk_type l \<noteq> YK_LOCK
      then do { modify_device E (lock_type_code YK_LOCK); ret () }
      else ret ());
     let buff = replicate 10 0;
     let buff = buff[3 := 0x05];
     let buff = buff[4 := 0x07];
     let buff = buff[5 := 0x00];
     n \<leftarrow> get_sn E;
     let buff = put_sn n buff;
     answer E buff 10
   }"

section \<open>AVC\<close>

definition func_avc_query_state :: "'w env \<Rightarrow> u8 list \<Rightarrow> nat \<Rightarrow> ('w, int) yk_op" where
  "func_avc_query_state E data len = do {
     let buff = replicate 11 0;
     let buff = buff[3 := 0x06];
     let buff = buff[4 := 0x31];
     a \<leftarrow> get_addr E;
     let buff = buff[5 := a];
     n \<leftarrow> get_sn E;
     let buff = put_sn n buff;
     q \<leftarrow> query_state E AVC_SWITCH_LED_RELAY_STATE;
     let buff = buff[9 := q];
     answer E buff 11
   }"

text \<open>The answer both control handlers end with.\<close>

definition avc_result_answer :: "'w env \<Rightarrow> ('w, int) yk_op" where
  "avc_result_answer E = do {
     let buff = replicate 10 0;
     let buff = buff[3 := 0x05];
     let buff = buff[4 := 0x35];
     let buff = buff[5 := 0x03];
     a \<leftarrow> get_addr E;
     let buff = buff[6 := a];
     q \<leftarrow> query_state E AVC_SWITCH_RELAY_STATE;
     let buff = buff[7 := q];
     r \<leftarrow> query_state E AVC_SWITCH_OPERATION_RESULT;
     let buff = buff[8 := r];
     answer E buff 10
   }"

definition func_avc_control_command :: "'w env \<Rightarrow> u8 list \<Rightarrow> nat \<Rightarrow> ('w, int) yk_op" where
  "func_avc_control_command E data len = do {
     let opt = data ! 5;
     if opt = 0x10 then do { control E CONTROL_AVC_SWITCH_ENGAGE 0; avc_result_answer E }
     else if opt = 0x01 then do { control E CONTROL_AVC_SWITCH_DISENGAGE 0; avc_result_answer E }
     else ret RT_ERROR
   }"

text \<open>After the requested operation the code runs an engage command in every agreed case.\<close>

definition func_avc_control_request :: "'w env \<Rightarrow> u8 list \<Rightarrow> nat \<Rightarrow> ('w, int) yk_op" where
  "func_avc_control_request E data len = do {
     let answer = data ! 5;
     let opt = data ! 6;
     if answer = 0x10 then
       (if opt = 0x10 then do {
          control E CONTROL_AVC_SWITCH_ENGAGE 0;
          control E CONTROL_AVC_SWITCH_ENGAGE 0;
          avc_result_answer E
        }
        else if opt = 0x01 then do {
          control E CONTROL_AVC_SWITCH_DISENGAGE 0;
          control E CONTROL_AVC_SWITCH_ENGAGE 0;
          avc_result_answer E
        }
        else ret RT_ERROR)
     else if answer = 0x01 then ret RT_ERROR
     else ret RT_ERROR
   }"

text \<open>
  The operands of \<open>&&\<close> in order, each evaluated only when the one before held; the bytes read
  are 1 to 5 of the buffer, where the frame head and the length byte stand.
\<close>

definition func_avc_modify_device :: "'w env \<Rightarrow> u8 list \<Rightarrow> nat \<Rightarrow> ('w, int) yk_op" where
  "func_avc_modify_device E data len = do {
     let type = data ! 1;
     let a = data ! 2;
     let n = take_sn data 3;
     m \<leftarrow> get_sn E;
     result \<leftarrow> (if n = m then do {
        r \<leftarrow> modify_device E type;
        if r = RT_EOK then do {
          r \<leftarrow> modify_addr E a;
          ret (if r = RT_EOK then RT_EOK else RT_ERROR)
        }
        else ret RT_ERROR
      }
      else ret RT_ERROR);
     let buff = replicate 9 0;
     let buff = buff[3 := 0x04];
     let buff = buff[4 := 0x33];
     d \<leftarrow> get_device E;
     let buff = buff[5 := lock_type_code d];
     a \<leftarrow> get_addr E;
     let buff = buff[6 := a];
     let buff = buff[7 := (if result = RT_EOK then 0x10 else 0x01)];
     answer E buff 9
   }"

definition func_avc_modify_sn :: "'w env \<Rightarrow> u8 list \<Rightarrow> nat \<Rightarrow> ('w, int) yk_op" where
  "func_avc_modify_sn E data len = do {
     r \<leftarrow> modify_sn E (take_sn data 6);
     let result = (word_of_int r :: u8);
     l \<leftarrow> reads lk;
     (if hardware_type l = HW_AVC_SWITCH \<and> lk_type l \<noteq> AVC_SWITCH
      then do { modify_device E (lock_type_code AVC_SWITCH); ret () }
      else ret ());
     let buff = replicate 11 0;
     let buff = buff[3 := 0x06];
     let buff = buff[4 := 0x37];
     a \<leftarrow> get_addr E;
     let buff = buff[5 := a];
     n \<leftarrow> get_sn E;
     let buff = put_sn n buff;
     let buff = buff[9 := (if result = word_of_int RT_EOK then 0x10 else 0x01)];
     answer E buff 11
   }"

definition func_avc_production_query :: "'w env \<Rightarrow> u8 list \<Rightarrow> nat \<Rightarrow> ('w, int) yk_op" where
  "func_avc_production_query E data len = do {
     let buff = replicate 11 0;
     let buff = buff[3 := 0x06];
     let buff = buff[4 := 0x31];
     a \<leftarrow> get_addr E;
     let buff = buff[5 := a];
     n \<leftarrow> get_sn E;
     let buff = put_sn n buff;
     q \<leftarrow> query_state E AVC_SWITCH_LED_RELAY_STATE;
     let buff = buff[9 := q];
     answer E buff 11
   }"

section \<open>Cold lock\<close>

definition func_cold_lock_query_all :: "'w env \<Rightarrow> u8 list \<Rightarrow> nat \<Rightarrow> ('w, int) yk_op" where
  "func_cold_lock_query_all E data len = do {
     let buff = replicate 11 0;
     let buff = buff[3 := 0x06];
     let buff = buff[4 := 0x21];
     a \<leftarrow> get_addr E;
     let buff = buff[5 := a];
     n \<leftarrow> get_sn E;
     let buff = put_sn n buff;
     q \<leftarrow> query_state E COLD_LOCK_STATE;
     let buff = buff[9 := q];
     answer E buff 11
   }"

definition func_cold_lock_control :: "'w env \<Rightarrow> u8 list \<Rightarrow> nat \<Rightarrow> ('w, int) yk_op" where
  "func_cold_lock_control E data len = do {
     let opt = data ! 5;
     (if opt = 0x00 then control E CONTROL_COLD_LOCK_POWER_OFF 0
      else if opt = 0x01 then control E CONTROL_COLD_LOCK_POWER_ON 0
      else ret RT_EOK);
     let buff = replicate 11 0;
     let buff = buff[3 := 0x06];
     let buff = buff[4 := 0x25];
     a \<leftarrow> get_addr E;
     let buff = buff[5 := a];
     n \<leftarrow> get_sn E;
     let buff = put_sn n buff;
     q \<leftarrow> query_state E COLD_LOCK_STATE;
     let buff = buff[9 := q];
     answer E buff 11
   }"

definition func_cold_lock_modify_timeout :: "'w env \<Rightarrow> u8 list \<Rightarrow> nat \<Rightarrow> ('w, int) yk_op" where
  "func_cold_lock_modify_timeout E data len = do {
     exec_before \<leftarrow> get_timeout_exec E;
     cmd_before \<leftarrow> get_timeout_cmd E;
     modify_timeout_exec E (data ! 5);
     modify_timeout_cmd E (data ! 6);
     exec_after \<leftarrow> get_timeout_exec E;
     cmd_after \<leftarrow> get_timeout_cmd E;
     let buff = replicate 11 0;
     let buff = buff[3 := 0x06];
     let buff = buff[4 := 0x2A];
     a \<leftarrow> get_addr E;
     let buff = buff[5 := a];
     let buff = buff[6 := exec_before];
     let buff = buff[7 := cmd_before];
     let buff = buff[8 := exec_after];
     let buff = buff[9 := cmd_after];
     answer E buff 11
   }"

definition func_cold_lock_modify_addr :: "'w env \<Rightarrow> u8 list \<Rightarrow> nat \<Rightarrow> ('w, int) yk_op" where
  "func_cold_lock_modify_addr E data len = do {
     let a = data ! 5;
     let n = take_sn data 6;
     m \<leftarrow> get_sn E;
     (if n = m then do { modify_addr E a; ret () } else ret ());
     let buff = replicate 11 0;
     let buff = buff[3 := 0x06];
     let buff = buff[4 := 0x23];
     a \<leftarrow> get_addr E;
     let buff = buff[5 := a];
     let buff = put_sn n buff;
     q \<leftarrow> query_state E COLD_LOCK_STATE;
     let buff = buff[9 := q];
     answer E buff 11
   }"

definition func_cold_lock_modify_sn :: "'w env \<Rightarrow> u8 list \<Rightarrow> nat \<Rightarrow> ('w, int) yk_op" where
  "func_cold_lock_modify_sn E data len = ret RT_EOK"

definition func_cold_lock_production_query :: "'w env \<Rightarrow> u8 list \<Rightarrow> nat \<Rightarrow> ('w, int) yk_op" where
  "func_cold_lock_production_query E data len = ret RT_EOK"

section \<open>The handler table\<close>

fun get_handler_table :: "'w env \<Rightarrow> handler_index \<Rightarrow> u8 list \<Rightarrow> nat \<Rightarrow> ('w, int) yk_op" where
  "get_handler_table E INDEX_YK_QUERY_STATE = func_yk_query_state E"
| "get_handler_table E INDEX_YK_CONTROL = func_yk_control E"
| "get_handler_table E INDEX_YK_MODIFY_ADDR = func_yk_modify_addr E"
| "get_handler_table E INDEX_YK_REPORT_STATE = func_yk_report_state E"
| "get_handler_table E INDEX_YK_PRODUCTION_MODIFY_SN = func_yk_production_modify_sn E"
| "get_handler_table E IDNEX_AVC_QUERY_STATE = func_avc_query_state E"
| "get_handler_table E INDEX_AVC_CONTROL_COMMAND = func_avc_control_command E"
| "get_handler_table E INDEX_AVC_CONTROL_REQUEST = func_avc_control_request E"
| "get_handler_table E INDEX_AVC_MODIFY_ADDR_TYPE = func_avc_modify_device E"
| "get_handler_table E INDEX_AVC_MODIFY_SN = func_avc_modify_sn E"
| "get_handler_table E INDEX_AVC_PRODUCTION_QUERY = func_avc_production_query E"
| "get_handler_table E INDEX_COLD_LOCK_QUERY_ALL = func_cold_lock_query_all E"
| "get_handler_table E INDEX_COLD_LOCK_CONTROL = func_cold_lock_control E"
| "get_handler_table E INDEX_COLD_LOCK_MODIFY_TIMEOUT = func_cold_lock_modify_timeout E"
| "get_handler_table E INDEX_COLD_LOCK_MODIFY_ADDR = func_cold_lock_modify_addr E"
| "get_handler_table E INDEX_COLD_LOCK_MODIFY_SN = func_cold_lock_modify_sn E"
| "get_handler_table E INDEX_COLD_LOCK_PRODUCTION_QUERY = func_cold_lock_production_query E"

section \<open>Answers are well-formed frames\<close>

text \<open>
  What every message the firmware sends must look like: a data message with extended identifier 0
  carrying a sealed frame of at most eleven bytes whose length byte counts the function code and
  the bytes between it and the seal.
\<close>

definition reply_ok :: "can_msg \<Rightarrow> bool" where
  "reply_ok m \<longleftrightarrow> msg_id m = 0 \<and> msg_ide m \<and> \<not> msg_rtr m \<and>
     (let f = msg_frame m
      in sealed f \<and> 6 \<le> length f \<and> length f \<le> 11 \<and> unat (f ! 3) = length f - 5)"

text \<open>
  \<open>silent\<close> operations send nothing; \<open>answers k\<close> are the operations that return \<open>RT_EOK\<close> having
  sent \<open>k\<close> well-formed messages, or another code having sent none.
\<close>

definition silent :: "('w, 'a) yk_op \<Rightarrow> bool" where
  "silent m \<longleftrightarrow> (\<forall>ms. kept (\<lambda>s. sent s = ms) m)"

definition answers :: "nat \<Rightarrow> ('w, int) yk_op \<Rightarrow> bool" where
  "answers k m \<longleftrightarrow> (\<forall>s. \<exists>ms. sent (snd (run_state m s)) = sent s @ ms \<and> list_all reply_ok ms \<and>
     length ms = (if fst (run_state m s) = RT_EOK then k else 0))"

named_theorems silents \<open>operations that send no message\<close>

lemma silentI: "(\<And>ms. kept (\<lambda>s. sent s = ms) m) \<Longrightarrow> silent m"
  by (simp add: silent_def)

lemma silent_sent: "silent m \<Longrightarrow> sent (snd (run_state m s)) = sent s"
  by (auto simp: silent_def kept_def)

lemma silent_bind [silents]: "silent m \<Longrightarrow> (\<And>x. silent (f x)) \<Longrightarrow> silent (State_Monad.bind m f)"
  by (auto simp: silent_def intro: keeps)

lemma silent_basic [silents]:
  "silent (ret x)" "silent (reads f)" "silent (on_world g)" "silent (set_ub b)" "silent (set_avc h)"
  "silent (pin_read E p)" "silent (pin_write E p v)" "silent (pin_mode E p md)" "silent (thread_delay E n)"
  "silent rt_hw_cpu_reset"
  by (auto simp: silent_def kept_def run_simps rt_hw_cpu_reset_def)

lemma silent_cfg [silents]: "silent (modify (\<lambda>s. s\<lparr>cfg := f s\<rparr>))" "silent (modify (\<lambda>s. s\<lparr>lk := g s\<rparr>))"
  by (auto simp: silent_def kept_def)

lemma silent_if [silents]: "silent m \<Longrightarrow> silent n \<Longrightarrow> silent (if b then m else n)"
  by simp

lemma silent_case_prod [silents]: "(\<And>a b. silent (f a b)) \<Longrightarrow> silent (case x of (a, b) \<Rightarrow> f a b)"
  by (cases x) simp

lemma silent_case_option [silents]:
  "silent m \<Longrightarrow> (\<And>a. silent (f a)) \<Longrightarrow> silent (case x of None \<Rightarrow> m | Some a \<Rightarrow> f a)"
  by (cases x) simp_all

lemma silent_whenM [silents]: "silent m \<Longrightarrow> silent (whenM b m)"
  by (simp add: whenM_def silents)

lemma silent_config [silents]:
  "silent (config_get E t b)" "silent (get_byte E t)" "silent (get_sn E)" "silent (get_device E)"
  "silent (get_addr E)" "silent (get_timeout_exec E)" "silent (get_timeout_cmd E)"
  "silent (device_id_or_fault E ty)" "silent (lock_info_update E)" "silent (config_modify E t v)"
  "silent (modify_addr E a)" "silent (modify_sn E n)" "silent (modify_device E a)"
  "silent (modify_timeout_exec E a)" "silent (modify_timeout_cmd E a)"
proof -
  show get: "silent (config_get E t b)" for t b
    unfolding config_get_def by (intro silents)
  show byte: "silent (get_byte E t)" for t
    unfolding get_byte_def by (intro silents get)
  show sn: "silent (get_sn E)" and dev: "silent (get_device E)"
    unfolding get_sn_def get_device_def by (intro silents get byte)+
  show addr: "silent (get_addr E)" and "silent (get_timeout_exec E)" and "silent (get_timeout_cmd E)"
    unfolding get_addr_def get_timeout_exec_def get_timeout_cmd_def by (rule byte)+
  show id: "silent (device_id_or_fault E ty)" for ty
    unfolding device_id_or_fault_def by (intro silents)
  show update: "silent (lock_info_update E)"
    unfolding lock_info_update_def by (intro silents addr sn dev id)
  show md: "silent (config_modify E t v)" for t v
    unfolding config_modify_def by (intro silents update)
  show "silent (modify_addr E a)" "silent (modify_sn E n)" "silent (modify_device E a)"
    "silent (modify_timeout_exec E a)" "silent (modify_timeout_cmd E a)"
    unfolding modify_addr_def modify_sn_def modify_device_def modify_timeout_exec_def
      modify_timeout_cmd_def by (rule md)+
qed

lemma silent_relays [silents]:
  "silent (AVC_RELAY_CONTROL E pin t)" "silent (AVC_RELAY_ENGAGE E)" "silent (AVC_RELAY_DISENGAGE E)"
  "silent (AVC_RELAY_CHECK E)" "silent (YK_RELAY_K0_OPEN E)" "silent (YK_RELAY_K0_CLOSE E)"
  "silent (YK_RELAY_K1_OPEN E)" "silent (YK_RELAY_K1_CLOSE E)" "silent (YK_RELAY_K2_OPEN E)"
  "silent (YK_RELAY_K2_CLOSE E)" "silent YK_RELAY_K3_OPEN" "silent YK_RELAY_K3_CLOSE"
  unfolding AVC_RELAY_CONTROL_def AVC_RELAY_ENGAGE_def AVC_RELAY_DISENGAGE_def AVC_RELAY_CHECK_def
    YK_RELAY_K0_OPEN_def YK_RELAY_K0_CLOSE_def YK_RELAY_K1_OPEN_def YK_RELAY_K1_CLOSE_def
    YK_RELAY_K2_OPEN_def YK_RELAY_K2_CLOSE_def YK_RELAY_K3_OPEN_def YK_RELAY_K3_CLOSE_def
  by (intro silents)+

lemma silent_save_check_loop [silents]: "silent (save_check_loop E want n st)"
  by (induction n arbitrary: st) (simp_all only: save_check_loop.simps Let_def, (intro silents | assumption)+)

lemma silent_wait_relay [silents]: "silent (wait_relay E want n)"
  by (induction n) (simp_all only: wait_relay.simps, (intro silents | assumption)+)

lemma silent_save [silents]: "silent (avc_relay_state_save E want)" "silent (save_into_avc E want)"
  unfolding avc_relay_state_save_def save_into_avc_def Let_def by (intro silents)+

lemma silent_query_state [silents]: "silent (query_state E q)"
  by (cases q) (simp_all only: query_state.simps Let_def, (intro silents)+)

lemma silent_control [silents]: "silent (control E c port)"
  by (cases c) (simp_all only: control.simps, (intro silents)+)

subsection \<open>The answer\<close>

lemma answers_silent: "silent m \<Longrightarrow> answers 0 m"
  by (auto simp: answers_def silent_sent)

lemma answers_error: "answers k (ret RT_ERROR)" and answers_none: "answers 0 (ret r)"
  by (simp_all add: answers_def)

lemma answers_bind:
  assumes "silent m" and "\<And>x. answers k (f x)"
  shows "answers k (State_Monad.bind m f)"
  unfolding answers_def
proof
  fix s
  obtain x t where m: "run_state m s = (x, t)" by fastforce
  have "sent t = sent s" using silent_sent [OF assms(1), of s] m by simp
  moreover obtain ms where "sent (snd (run_state (f x) t)) = sent t @ ms \<and> list_all reply_ok ms \<and>
      length ms = (if fst (run_state (f x) t) = RT_EOK then k else 0)"
    using assms(2) [of x] unfolding answers_def by blast
  ultimately show "\<exists>ms. sent (snd (run_state (State_Monad.bind m f) s)) = sent s @ ms \<and>
      list_all reply_ok ms \<and>
      length ms = (if fst (run_state (State_Monad.bind m f) s) = RT_EOK then k else 0)"
    using m by auto
qed

lemma answers_if: "(b \<Longrightarrow> answers k m) \<Longrightarrow> (\<not> b \<Longrightarrow> answers k n) \<Longrightarrow> answers k (if b then m else n)"
  by simp

lemma seal_update:
  assumes "length buff = n" and "0 < n"
  shows "buff[n - 1 := crc8 buff (n - 1)] = seal (take (n - 1) buff)"
proof -
  from assms obtain ys y where "buff = ys @ [y]" and "n = Suc (length ys)"
    by (cases buff rule: rev_cases) auto
  then show ?thesis by (simp add: seal_def crc8_def)
qed

text \<open>Transmitting a message, as a change of the state.\<close>

definition transmit :: "'w env \<Rightarrow> can_msg \<Rightarrow> 'w yk \<Rightarrow> 'w yk" where
  "transmit E m s = s\<lparr>world := snd (rt_device_write E m (world s)), sent := sent s @ [m]\<rparr>"

lemma answer_run:
  assumes "length buff = n" and "3 \<le> n" and "n \<le> 11"
  shows "run_state (answer E buff n) s =
    (RT_EOK, transmit E (frame_msg (seal (take (n - 1) buff))) s)"
proof -
  have "length (seal (take (n - 1) buff)) = n" using assms by simp
  then show ?thesis
    using assms can_write_run [of "seal (take (n - 1) buff)" E]
    by (simp add: answer_def seal_update Let_def transmit_def del: One_nat_def)
qed

lemma reply_ok_frame:
  assumes "6 \<le> length f" and "length f \<le> 11" and "sealed f" and "take 3 f = [0, 0, 0]"
    and "unat (f ! 3) = length f - 5"
  shows "reply_ok (frame_msg f)"
proof -
  have "f ! i = 0" if "i < 3" for i
    using assms(4) that nth_take [of i 3 f] by (auto simp: less_Suc_eq numeral_eq_Suc)
  then have "tx_id f = 0" by (simp add: tx_id_def)
  then show ?thesis
    using assms by (simp add: reply_ok_def msg_frame_of_frame) (simp add: frame_msg_def)
qed

lemma answers_answer:
  assumes "length buff = n" and "6 \<le> n" and "n \<le> 11" and "take 3 buff = [0, 0, 0]"
    and "unat (buff ! 3) = n - 5"
  shows "answers 1 (answer E buff n)"
proof -
  from assms(2) obtain k where n: "n = Suc k" and k: "5 \<le> k" by (cases n) auto
  have "reply_ok (frame_msg (seal (take k buff)))"
  proof (rule reply_ok_frame)
    show "take 3 (seal (take k buff)) = [0, 0, 0]" and "unat (seal (take k buff) ! 3) = length (seal (take k buff)) - 5"
      using assms k by (simp_all add: seal_def nth_append n min_def)
  qed (use assms n k in simp_all)
  then have "reply_ok (frame_msg (seal (take (n - 1) buff)))" by (simp add: n)
  then show ?thesis
    using assms by (simp add: answers_def answer_run transmit_def)
qed

text \<open>How many messages a command is answered with.\<close>

definition answer_count :: "handler_index \<Rightarrow> nat" where
  "answer_count i =
     (if i \<in> {INDEX_YK_MODIFY_ADDR, INDEX_COLD_LOCK_MODIFY_SN, INDEX_COLD_LOCK_PRODUCTION_QUERY}
      then 0 else 1)"

lemmas handler_defs = func_yk_query_state_def func_yk_control_def func_yk_modify_addr_def
  func_yk_report_state_def func_yk_production_modify_sn_def func_avc_query_state_def
  func_avc_control_command_def func_avc_control_request_def avc_result_answer_def
  func_avc_modify_device_def func_avc_modify_sn_def func_avc_production_query_def
  func_cold_lock_query_all_def func_cold_lock_control_def func_cold_lock_modify_timeout_def
  func_cold_lock_modify_addr_def func_cold_lock_modify_sn_def func_cold_lock_production_query_def

lemmas answers_rules = answers_bind answers_if answers_answer answers_error answers_none silents

lemma replicate_3 [simp]: "replicate 3 x = [x, x, x]"
  by (simp add: numeral_eq_Suc)

lemma answers_handler: "answers (answer_count i) (get_handler_table E i data len)"
  by (cases i; simp only: get_handler_table.simps handler_defs answer_count_def Let_def put_sn_def
      insert_iff empty_iff handler_index.simps if_True if_False simp_thms;
      intro answers_rules; simp)

text \<open>
  C30: every handler that returns \<open>RT_EOK\<close> has sent exactly the number of messages its command is
  answered with, a handler that returns an error has sent none, and each message sent is a
  well-formed reply, whatever the request, the state and the outcome of every EEPROM, pin and
  CAN operation.
\<close>

theorem handlers_answer:
  "\<exists>ms. sent (snd (run_state (get_handler_table E i data len) s)) = sent s @ ms \<and>
     list_all reply_ok ms \<and>
     length ms = (if fst (run_state (get_handler_table E i data len) s) = RT_EOK
                  then answer_count i else 0)"
  using answers_handler [of i E data len] unfolding answers_def by blast

section \<open>Serial numbers on the wire\<close>

definition sn_bytes :: "u32 \<Rightarrow> u8 list" where
  "sn_bytes n = [ucast (drop_bit 16 n), ucast (drop_bit 8 n), ucast n]"

lemma take_sn_or:
  "take_sn data i =
     (push_bit 16 (ucast (data ! i)) OR push_bit 8 (ucast (data ! (i + 1)))) OR ucast (data ! (i + 2))"
proof -
  have byte: "\<not> bit (b :: u8) n" if "8 \<le> n" for b n
    using that by (auto dest: bit_imp_le_length)
  have "push_bit 16 (ucast (data ! i) :: u32) + push_bit 8 (ucast (data ! (i + 1))) =
      push_bit 16 (ucast (data ! i)) OR push_bit 8 (ucast (data ! (i + 1)))"
    by (rule disjunctive_add) (auto simp: bit_simps byte)
  moreover have "(push_bit 16 (ucast (data ! i) :: u32) OR push_bit 8 (ucast (data ! (i + 1)))) +
      ucast (data ! (i + 2)) =
      (push_bit 16 (ucast (data ! i)) OR push_bit 8 (ucast (data ! (i + 1)))) OR ucast (data ! (i + 2))"
    by (rule disjunctive_add) (auto simp: bit_simps byte)
  ultimately show ?thesis by (simp add: take_sn_def)
qed

text \<open>Three request bytes survive the 24-bit field and come back in the answer.\<close>

lemma sn_bytes_take_sn: "sn_bytes (ucast (ucast (take_sn data i) :: u24)) = [data ! i, data ! (i + 1), data ! (i + 2)]"
proof -
  have byte: "\<not> bit (b :: u8) n" if "8 \<le> n" for b n
    using that by (auto dest: bit_imp_le_length)
  show ?thesis
    unfolding sn_bytes_def take_sn_or list.inject
    by (intro conjI bit_word_eqI refl) (auto simp: bit_simps byte)
qed

lemma sn_bytes_take_sn32 [simp]: "sn_bytes (take_sn data i) = [data ! i, data ! Suc i, data ! Suc (Suc i)]"
proof -
  have byte: "\<not> bit (b :: u8) n" if "8 \<le> n" for b n
    using that by (auto dest: bit_imp_le_length)
  show ?thesis
    unfolding sn_bytes_def take_sn_or list.inject
    by (intro conjI bit_word_eqI refl) (auto simp: bit_simps byte)
qed

section \<open>The answers in full\<close>

text \<open>The message with function code \<open>fc\<close> and the given payload.\<close>

definition reply :: "u8 \<Rightarrow> u8 list \<Rightarrow> can_msg" where
  "reply fc payload = frame_msg (seal ([0, 0, 0, of_nat (length payload + 1), fc] @ payload))"

lemma frame_heads [frame_simps]:
  "take 10 ((replicate 11 0)[3 := l, 4 := c, 5 := p5, 6 := p6, 7 := p7, 8 := p8, 9 := p9]) =
     [0, 0, 0, l, c, p5, p6, p7, p8, p9 :: u8]"
  "take 9 ((replicate 10 0)[3 := l, 4 := c, 5 := p5, 6 := p6, 7 := p7, 8 := p8]) =
     [0, 0, 0, l, c, p5, p6, p7, p8 :: u8]"
  "take 8 ((replicate 9 0)[3 := l, 4 := c, 5 := p5, 6 := p6, 7 := p7]) = [0, 0, 0, l, c, p5, p6, p7 :: u8]"
  "take 7 ((replicate 8 0)[3 := l, 4 := c, 5 := p5, 6 := p6]) = [0, 0, 0, l, c, p5, p6 :: u8]"
  "take 10 ((put_sn n ((replicate 11 0)[3 := l, 4 := c, 5 := p5]))[9 := p9]) =
     [0, 0, 0, l, c, p5] @ sn_bytes n @ [p9]"
  "take 9 (put_sn n ((replicate 10 0)[3 := l, 4 := c, 5 := p5])) = [0, 0, 0, l, c, p5] @ sn_bytes n"
  by (simp_all add: numeral_eq_Suc put_sn_def sn_bytes_def)

lemma length_put_sn [frame_simps]: "length (put_sn n buff) = length buff"
  by (simp add: put_sn_def)

lemma length_sn_bytes [frame_simps]: "length (sn_bytes n) = 3"
  by (simp add: sn_bytes_def)

text \<open>Queries only read.\<close>

lemma query_state_pure: "snd (run_state (query_state E q) s) = s"
  by (cases q) (simp_all add: run_simps)

definition queried :: "'w env \<Rightarrow> query_state_t \<Rightarrow> 'w yk \<Rightarrow> u8" where
  "queried E q s = fst (run_state (query_state E q) s)"

lemma run_query_state [run_simps]: "run_state (query_state E q) s = (queried E q s, s)"
  using query_state_pure [of E q s] by (simp add: queried_def prod_eq_iff)

declare query_state.simps [simp del]

lemmas answer_simps = answer_run frame_simps reply_def run_simps Let_def

text \<open>The function code and the state byte of the five commands that only query.\<close>

fun query_answer :: "handler_index \<Rightarrow> (u8 \<times> query_state_t) option" where
  "query_answer INDEX_YK_QUERY_STATE = Some (0x01, YK_PORT_STATE)"
| "query_answer INDEX_YK_REPORT_STATE = Some (0x04, YK_PORT_STATE)"
| "query_answer IDNEX_AVC_QUERY_STATE = Some (0x31, AVC_SWITCH_LED_RELAY_STATE)"
| "query_answer INDEX_AVC_PRODUCTION_QUERY = Some (0x31, AVC_SWITCH_LED_RELAY_STATE)"
| "query_answer INDEX_COLD_LOCK_QUERY_ALL = Some (0x21, COLD_LOCK_STATE)"
| "query_answer _ = None"

text \<open>
  With the cache in step with the EEPROM, the five query commands change nothing and answer
  with the stored address, the stored serial number and the state byte of their kind.
\<close>

theorem query_commands_answer:
  assumes "store_ok E mem s" and "query_answer i = Some (fc, q)"
  shows "run_state (get_handler_table E i data len) s =
    (RT_EOK, transmit E (reply fc (addr (cfg s) # sn_bytes (ucast (sn (cfg s))) @ [queried E q s])) s)"
  using assms(2)
  by (cases i) (auto simp: handler_defs answer_simps store_getters [OF assms(1)])

subsection \<open>Commands that change the configuration\<close>

text \<open>
  Writes that succeed, as an update of the image: what \<open>config_modify\<close> leaves, with the facts the
  handlers need of it.
\<close>

lemma config_put_facts:
  assumes "store_ok E mem s"
  shows "store_ok E mem (config_put E t v s)" and "cfg (config_put E t v s) = config_set t v (cfg s)"
    and "lk_type (lk (config_put E t v s)) = device_of (config_set t v (cfg s))"
    and "hardware_type (lk (config_put E t v s)) = HW_AVC_SWITCH"
    and "sent (config_put E t v s) = sent s" and "resets (config_put E t v s) = resets s"
    and "lk_addr (lk (config_put E t v s)) = addr (config_set t v (cfg s))"
    and "dev_id (lk (config_put E t v s)) = dev_id (lock_info_of E (config_set t v (cfg s)) (lk s))"
    and "ub (config_put E t v s) \<longleftrightarrow> ub s \<or> ids_fault (config_set t v (cfg s))"
  using assms
  by (auto simp: config_put_def store_ok_def config_modify_works config_modify_store_ok Let_def
      lock_info_of_def DEFAULT_HARDWARE_TYPE_def at24_worksD)

lemma run_config_modify:
  assumes "store_ok E mem s"
  shows "run_state (config_modify E t v) s = (RT_EOK, config_put E t v s)"
proof -
  have "at24_works E mem" using assms by (simp add: store_ok_def)
  then show ?thesis by (simp add: config_put_def config_modify_works [of E mem] Let_def)
qed

lemma store_ok_transmit: "store_ok E mem s \<Longrightarrow> quiet E mem \<Longrightarrow> store_ok E mem (transmit E m s)"
  by (simp add: store_ok_def transmit_def quietD)

lemma transmit_frame [simp]: "cfg (transmit E m s) = cfg s" "sent (transmit E m s) = sent s @ [m]"
  "lk (transmit E m s) = lk s" "resets (transmit E m s) = resets s" "ub (transmit E m s) = ub s"
  "avc (transmit E m s) = avc s" "world (transmit E m s) = snd (rt_device_write E m (world s))"
  "proto_set (transmit E m s) = proto_set s" "chan (transmit E m s) = chan s"
  by (simp_all add: transmit_def)

lemmas modify_defs = modify_addr_def modify_sn_def modify_device_def modify_timeout_exec_def
  modify_timeout_cmd_def

text \<open>
  An address change (0x03) is carried out, followed by a reset, exactly when the request names
  the stored serial number; otherwise it is refused and nothing changes.
\<close>

theorem yk_modify_addr_result:
  assumes "store_ok E mem s"
  shows "run_state (func_yk_modify_addr E data len) s =
    (if take_sn data 6 = ucast (sn (cfg s))
     then (RT_EOK, (config_put E CONFIG_ADDR (ucast (data ! 5)) s)\<lparr>resets := Suc (resets s)\<rparr>)
     else (RT_ERROR, s))"
  by (simp add: func_yk_modify_addr_def modify_defs run_config_modify [OF assms]
      store_getters [OF assms] rt_hw_cpu_reset_def config_put_facts [OF assms])

text \<open>The two production commands: the serial number, then the device type the command belongs to.\<close>

definition become :: "'w env \<Rightarrow> lock_type \<Rightarrow> u32 \<Rightarrow> 'w yk \<Rightarrow> 'w yk" where
  "become E ty n s =
     (let t = config_put E CONFIG_SN n s
      in if device_of (cfg t) \<noteq> ty then config_put E CONFIG_DEVICE_TYPE (ucast (lock_type_code ty)) t else t)"

lemma device_of_code [simp]: "dev_type i = lock_type_code ty \<Longrightarrow> device_of i = ty"
  by (cases ty) (simp_all add: device_of_def lock_type_of_def)

lemma become_facts:
  assumes "store_ok E mem s"
  shows "store_ok E mem (become E ty n s)" and "sn (cfg (become E ty n s)) = ucast n"
    and "addr (cfg (become E ty n s)) = addr (cfg s)" and "device_of (cfg (become E ty n s)) = ty"
    and "lk_type (lk (become E ty n s)) = ty" and "sent (become E ty n s) = sent s"
proof -
  note first = config_put_facts [OF assms, of CONFIG_SN n]
  note facts = first config_put_facts [OF first(1)] become_def Let_def
  show "store_ok E mem (become E ty n s)" and "sn (cfg (become E ty n s)) = ucast n"
    and "addr (cfg (become E ty n s)) = addr (cfg s)" and "device_of (cfg (become E ty n s)) = ty"
    and "lk_type (lk (become E ty n s)) = ty" and "sent (become E ty n s) = sent s"
    by (simp_all add: facts)
qed

lemma become_run:
  assumes "store_ok E mem s" and "hw = HW_AVC_SWITCH"
  shows "run_state (do {
     r \<leftarrow> config_modify E CONFIG_SN n;
     l \<leftarrow> reads lk;
     (if hardware_type l = hw \<and> lk_type l \<noteq> ty
      then do { config_modify E CONFIG_DEVICE_TYPE (ucast (lock_type_code ty)); ret () }
      else ret ());
     k r
   }) s = run_state (k RT_EOK) (become E ty n s)"
proof -
  note first = config_put_facts [OF assms(1), of CONFIG_SN n]
  show ?thesis
    using assms(2) first
    by (simp add: run_config_modify [OF assms(1)] run_config_modify [OF first(1)] become_def Let_def)
qed

text \<open>
  The production commands 0x07 and 0x37 store the serial number of the request, make the lock a
  YK lock or an AVC switch, keep its address, and answer with the serial number they were given.
\<close>

theorem production_commands_result:
  assumes "store_ok E mem s" and "i \<in> {INDEX_YK_PRODUCTION_MODIFY_SN, INDEX_AVC_MODIFY_SN}"
  shows "\<exists>t. run_state (get_handler_table E i data len) s =
      (RT_EOK, transmit E (if i = INDEX_AVC_MODIFY_SN
                           then reply 0x37 [addr (cfg s), data ! 6, data ! 7, data ! 8, 0x10]
                           else reply 0x07 [0, data ! 6, data ! 7, data ! 8]) t) \<and>
    store_ok E mem t \<and> sn (cfg t) = ucast (take_sn data 6) \<and> addr (cfg t) = addr (cfg s) \<and>
    sent t = sent s \<and> lk_type (lk t) = (if i = INDEX_AVC_MODIFY_SN then AVC_SWITCH else YK_LOCK)"
proof -
  let ?n = "take_sn data 6"
  have bytes: "sn_bytes (ucast (ucast ?n :: u24)) = [data ! 6, data ! 7, data ! 8]"
    using sn_bytes_take_sn [of data 6] by simp
  note facts = become_facts [OF assms(1), of _ ?n]
  note start = Let_def modify_sn_def modify_device_def become_run [OF assms(1) refl]
  note rules = store_getters [OF facts(1)] facts(2,3) answer_run frame_simps reply_def bytes
  have "run_state (func_yk_production_modify_sn E data len) s =
      (RT_EOK, transmit E (reply 0x07 [0, data ! 6, data ! 7, data ! 8]) (become E YK_LOCK ?n s))"
    unfolding func_yk_production_modify_sn_def
    by (simp only: start) (simp add: rules)
  moreover have "run_state (func_avc_modify_sn E data len) s =
      (RT_EOK, transmit E (reply 0x37 [addr (cfg s), data ! 6, data ! 7, data ! 8, 0x10])
        (become E AVC_SWITCH ?n s))"
    unfolding func_avc_modify_sn_def
    by (simp only: start) (simp add: rules)
  ultimately show ?thesis
    using assms(2) facts
    by (intro exI [of _ "become E (if i = INDEX_AVC_MODIFY_SN then AVC_SWITCH else YK_LOCK) ?n s"])
       (cases "i = INDEX_AVC_MODIFY_SN"; simp)
qed

text \<open>
  The cold-lock commands 0x2A and 0x23: the timeouts are replaced and the answer shows both the
  old and the new ones; the address is replaced when the serial number matches, and the answer shows
  the address now stored and the serial number of the request.
\<close>

theorem cold_lock_modify_result:
  assumes "store_ok E mem s"
  shows "run_state (func_cold_lock_modify_timeout E data len) s =
      (let t = config_put E CONFIG_TIMEOUT_CMD (ucast (data ! 6))
                 (config_put E CONFIG_TIMEOUT_EXEC (ucast (data ! 5)) s)
       in (RT_EOK, transmit E (reply 0x2A [addr (cfg s), timeout_exec (cfg s), timeout_cmd (cfg s),
                                           data ! 5, data ! 6]) t)) \<and>
    run_state (func_cold_lock_modify_addr E data len) s =
      (if take_sn data 6 = ucast (sn (cfg s))
       then (RT_EOK, transmit E (reply 0x23 [data ! 5, data ! 6, data ! 7, data ! 8, 0])
                       (config_put E CONFIG_ADDR (ucast (data ! 5)) s))
       else (RT_EOK, transmit E (reply 0x23 [addr (cfg s), data ! 6, data ! 7, data ! 8, 0]) s))"
proof -
  have cold: "queried E COLD_LOCK_STATE t = 0" for t :: "'a yk"
    by (simp add: queried_def query_state.simps)
  note exec = config_put_facts [OF assms, of CONFIG_TIMEOUT_EXEC]
  note both = config_put_facts [OF exec(1), of CONFIG_TIMEOUT_CMD]
  note put = config_put_facts [OF assms, of CONFIG_ADDR]
  have "run_state (func_cold_lock_modify_timeout E data len) s =
      (RT_EOK, transmit E (reply 0x2A [addr (cfg s), timeout_exec (cfg s), timeout_cmd (cfg s),
                                           data ! 5, data ! 6])
        (config_put E CONFIG_TIMEOUT_CMD (ucast (data ! 6))
          (config_put E CONFIG_TIMEOUT_EXEC (ucast (data ! 5)) s)))"
    by (simp add: func_cold_lock_modify_timeout_def modify_timeout_exec_def modify_timeout_cmd_def
        store_getters [OF assms] store_getters [OF both(1)] run_config_modify [OF assms]
        run_config_modify [OF exec(1)] both(2) exec(2) answer_run frame_simps reply_def Let_def)
  moreover have "run_state (func_cold_lock_modify_addr E data len) s =
      (if take_sn data 6 = ucast (sn (cfg s))
       then (RT_EOK, transmit E (reply 0x23 [data ! 5, data ! 6, data ! 7, data ! 8, 0])
                       (config_put E CONFIG_ADDR (ucast (data ! 5)) s))
       else (RT_EOK, transmit E (reply 0x23 [addr (cfg s), data ! 6, data ! 7, data ! 8, 0]) s))"
    by (simp add: func_cold_lock_modify_addr_def modify_addr_def store_getters [OF assms]
        store_getters [OF put(1)] run_config_modify [OF assms] put(2) cold run_query_state
        answer_run frame_simps reply_def Let_def)
  ultimately show ?thesis by (simp add: Let_def)
qed

text \<open>
  The request 0x33 is laid out like every other one: type, address and serial number behind the
  function code.  The handler reads bytes 1 to 5, so the serial number it compares has the function
  code as its middle byte.
\<close>

lemma take_sn_middle: "ucast (drop_bit 8 (take_sn data i)) = data ! Suc i"
  using sn_bytes_take_sn32 [of data i] unfolding sn_bytes_def by simp

text \<open>
  The device command 0x33 cannot be obeyed by a lock whose stored serial number has a middle
  byte other than 0x33: it changes nothing and answers with the failure byte, whatever type,
  address and serial number the request carries.
\<close>

theorem avc_modify_device_refuses:
  assumes "store_ok E mem s" and "data ! 4 = 0x33" and "ucast (drop_bit 8 (sn (cfg s))) \<noteq> (0x33 :: u8)"
  shows "run_state (func_avc_modify_device E data len) s =
    (RT_EOK, transmit E (reply 0x33 [lock_type_code (device_of (cfg s)), addr (cfg s), 0x01]) s)"
proof -
  have "take_sn data 3 \<noteq> ucast (sn (cfg s))"
  proof
    assume "take_sn data 3 = ucast (sn (cfg s))"
    then have "ucast (drop_bit 8 (ucast (sn (cfg s)) :: u32)) = (0x33 :: u8)"
      using take_sn_middle [of data 3] assms(2) by simp
    moreover have "ucast (drop_bit 8 (ucast (sn (cfg s)) :: u32)) = (ucast (drop_bit 8 (sn (cfg s))) :: u8)"
      by (rule bit_word_eqI) (auto simp: bit_simps)
    ultimately show False using assms(3) by simp
  qed
  then show ?thesis
    by (simp add: func_avc_modify_device_def store_getters [OF assms(1)] answer_run frame_simps
        reply_def Let_def)
qed

subsection \<open>Switching the AVC relay\<close>

text \<open>What an engage (\<open>on\<close>) or disengage command leaves on a working board.\<close>

definition switch_to :: "'w env \<Rightarrow> ('w \<Rightarrow> bool) \<Rightarrow> bool \<Rightarrow> 'w yk \<Rightarrow> 'w yk" where
  "switch_to E rel on s =
     (if on then switched E PIN_AVC_RELAY_CLOSE AVC_RELAY_STATE_CLOSE (\<not> rel (world s)) s
      else switched E PIN_AVC_RELAY_OPEN AVC_RELAY_STATE_OPEN (rel (world s)) s)"

lemma switch_to_facts:
  assumes "board_works E mem rel" and "store_ok E mem s"
  shows "store_ok E mem (switch_to E rel on s)" and "rel (world (switch_to E rel on s)) = on"
    and "avc_relay_state (cfg (switch_to E rel on s)) = level on"
    and "avc (switch_to E rel on s) = \<lparr>is_action = (rel (world s) \<noteq> on), is_set = True, is_save = True\<rparr>"
    and "sent (switch_to E rel on s) = sent s" and "addr (cfg (switch_to E rel on s)) = addr (cfg s)"
    and "sn (cfg (switch_to E rel on s)) = sn (cfg s)"
proof -
  have relay: "relay_works E rel" using assms(1) by (simp add: board_works_def)
  show "store_ok E mem (switch_to E rel on s)" and "rel (world (switch_to E rel on s)) = on"
    and "avc_relay_state (cfg (switch_to E rel on s)) = level on"
    and "avc (switch_to E rel on s) = \<lparr>is_action = (rel (world s) \<noteq> on), is_set = True, is_save = True\<rparr>"
    and "sent (switch_to E rel on s) = sent s" and "addr (cfg (switch_to E rel on s)) = addr (cfg s)"
    and "sn (cfg (switch_to E rel on s)) = sn (cfg s)"
    by (auto simp: switch_to_def switched_facts [OF assms] relay_worksD [OF relay]
        AVC_RELAY_STATE_CLOSE_def AVC_RELAY_STATE_OPEN_def)
qed

lemma control_switch:
  assumes "board_works E mem rel" and "store_ok E mem s"
  shows "run_state (control E CONTROL_AVC_SWITCH_ENGAGE port) s = (RT_EOK, switch_to E rel True s)"
    and "run_state (control E CONTROL_AVC_SWITCH_DISENGAGE port) s = (RT_EOK, switch_to E rel False s)"
  by (simp_all add: switch_to_def avc_commands_run [OF assms] del: control.simps)

text \<open>The two state bytes after such a command, and the answer with them.\<close>

lemma switch_answer:
  assumes "board_works E mem rel" and "store_ok E mem s"
  shows "run_state (avc_result_answer E) (switch_to E rel on s) =
    (RT_EOK, transmit E (reply 0x35 [0x03, addr (cfg s), if on then 0x10 else 0x01,
        if rel (world s) = on then 0x12 else 0x13]) (switch_to E rel on s))"
proof -
  have relay: "relay_works E rel" using assms(1) by (simp add: board_works_def)
  note facts = switch_to_facts [OF assms, of on]
  let ?t = "switch_to E rel on s"
  have "queried E AVC_SWITCH_RELAY_STATE ?t = (if on then 0x10 else 0x01)"
    and "queried E AVC_SWITCH_OPERATION_RESULT ?t = (if rel (world s) = on then 0x12 else 0x13)"
    by (simp_all add: queried_def query_state.simps run_simps facts relay_worksD [OF relay])
  then show ?thesis
    by (simp add: avc_result_answer_def store_getters [OF facts(1)] facts run_query_state answer_run
        frame_simps reply_def Let_def)
qed

lemma avc_command_run:
  assumes "board_works E mem rel" and "store_ok E mem s"
  shows "run_state (func_avc_control_command E data len) s =
      (if data ! 5 \<in> {0x10, 0x01}
       then (RT_EOK, transmit E (reply 0x35 [0x03, addr (cfg s), data ! 5,
                   if rel (world s) = (data ! 5 = 0x10) then 0x12 else 0x13])
               (switch_to E rel (data ! 5 = 0x10) s))
       else (RT_ERROR, s))"
  using switch_answer [OF assms, of True] switch_answer [OF assms, of False]
  by (simp add: func_avc_control_command_def control_switch [OF assms] Let_def del: control.simps)

text \<open>
  On a working board the command 0x35 moves the relay to the requested position, stores that
  position, and answers with the position reached and the three result flags, the lowest telling
  whether the relay had to move; any other operation byte is refused and changes nothing.
\<close>

theorem avc_control_command_result:
  assumes "board_works E mem rel" and "store_ok E mem s"
  shows "if data ! 5 \<in> {0x10, 0x01}
    then \<exists>t. run_state (func_avc_control_command E data len) s =
        (RT_EOK, transmit E (reply 0x35 [0x03, addr (cfg s), data ! 5,
                   if rel (world s) = (data ! 5 = 0x10) then 0x12 else 0x13]) t) \<and>
      store_ok E mem t \<and> rel (world t) = (data ! 5 = 0x10) \<and>
      avc_relay_state (cfg t) = level (data ! 5 = 0x10) \<and> sn (cfg t) = sn (cfg s) \<and>
      addr (cfg t) = addr (cfg s)
    else run_state (func_avc_control_command E data len) s = (RT_ERROR, s)"
proof (cases "data ! 5 \<in> {0x10, 0x01}")
  case True
  then show ?thesis
    unfolding avc_command_run [OF assms]
    using switch_to_facts [OF assms, of "data ! 5 = 0x10"] by (simp only: if_True) blast
qed (simp only: avc_command_run [OF assms] if_False)

text \<open>
  C31: on a working board the agreed request 0x32 runs an engage command after the requested one, so it leaves the
  relay engaged, and stored as engaged, also when the request was to disengage.
\<close>

theorem avc_control_request_engages:
  assumes "board_works E mem rel" and "store_ok E mem s"
  shows "if data ! 5 = 0x10 \<and> data ! 6 \<in> {0x10, 0x01}
    then \<exists>t. run_state (func_avc_control_request E data len) s =
        (RT_EOK, transmit E (reply 0x35 [0x03, addr (cfg s), 0x10,
                   if data ! 6 = 0x01 then 0x13 else 0x12]) t) \<and>
      rel (world t) \<and> avc_relay_state (cfg t) = AVC_RELAY_STATE_CLOSE \<and> store_ok E mem t
    else run_state (func_avc_control_request E data len) s = (RT_ERROR, s)"
proof (cases "data ! 5 = 0x10 \<and> data ! 6 \<in> {0x10, 0x01}")
  case True
  let ?s1 = "switch_to E rel (data ! 6 = 0x10) s"
  let ?t = "switch_to E rel True ?s1"
  note first = switch_to_facts [OF assms, of "data ! 6 = 0x10"]
  note second = switch_to_facts [OF assms(1) first(1), of True]
  have "run_state (func_avc_control_request E data len) s = run_state (avc_result_answer E) ?t"
    using True control_switch [OF assms] control_switch [OF assms(1) first(1)]
    by (auto simp: func_avc_control_request_def Let_def simp del: control.simps)
  also have "\<dots> = (RT_EOK, transmit E (reply 0x35 [0x03, addr (cfg s), 0x10,
      if data ! 6 = 0x01 then 0x13 else 0x12]) ?t)"
    using True by (auto simp: switch_answer [OF assms(1) first(1)] first)
  finally show ?thesis
    using True second by (auto simp: AVC_RELAY_STATE_CLOSE_def)
next
  case False
  then show ?thesis by (auto simp: func_avc_control_request_def Let_def)
qed

end
