(* ===== verification/Yk_Protocol.thy ===== *)
theory Yk_Protocol
  imports Yk_Handler
begin

text \<open>
  \<^verbatim>\<open>applications/protocol.c\<close>: the command tables of the lock types, the parser that accepts or
  rejects a received frame, and the dispatch to a handler.
\<close>

section \<open>Function codes and command tables\<close>

definition FUNC_CODE_YK_QUERY_STATE :: u8 where "FUNC_CODE_YK_QUERY_STATE = 0x01"
definition FUNC_CODE_YK_CONTROL :: u8 where "FUNC_CODE_YK_CONTROL = 0x02"
definition FUNC_CODE_YK_MODIFY_ADDR :: u8 where "FUNC_CODE_YK_MODIFY_ADDR = 0x03"
definition FUNC_CODE_YK_REPORT_STATE :: u8 where "FUNC_CODE_YK_REPORT_STATE = 0x04"
definition FUNC_CODE_YK_PRODUCTION_MODIFY_SN :: u8 where "FUNC_CODE_YK_PRODUCTION_MODIFY_SN = 0x07"
definition FUNC_CODE_AVC_QUERY_STATE :: u8 where "FUNC_CODE_AVC_QUERY_STATE = 0x31"
definition FUNC_CODE_AVC_CONTROL_COMMAND :: u8 where "FUNC_CODE_AVC_CONTROL_COMMAND = 0x35"
definition FUNC_CODE_AVC_CONTROL_REQUEST :: u8 where "FUNC_CODE_AVC_CONTROL_REQUEST = 0x32"
definition FUNC_CODE_AVC_MODIFY_DEVICE :: u8 where "FUNC_CODE_AVC_MODIFY_DEVICE = 0x33"
definition FUNC_CODE_AVC_MODIFY_SN :: u8 where "FUNC_CODE_AVC_MODIFY_SN = 0x37"
definition FUNC_CODE_AVC_PRODUCTION_QUERY :: u8 where "FUNC_CODE_AVC_PRODUCTION_QUERY = 0x3F"
definition FUNC_CODE_COLD_LOCK_QUERY_ALL :: u8 where "FUNC_CODE_COLD_LOCK_QUERY_ALL = 0x21"
definition FUNC_CODE_COLD_LOCK_CONTROL :: u8 where "FUNC_CODE_COLD_LOCK_CONTROL = 0x25"
definition FUNC_CODE_COLD_LOCK_MODIFY_TIMEOUT :: u8 where "FUNC_CODE_COLD_LOCK_MODIFY_TIMEOUT = 0x2A"
definition FUNC_CODE_COLD_LOCK_MODIFY_ADDR :: u8 where "FUNC_CODE_COLD_LOCK_MODIFY_ADDR = 0x23"
definition FUNC_CODE_COLD_LOCK_MODIFY_SN :: u8 where "FUNC_CODE_COLD_LOCK_MODIFY_SN = 0x27"
definition FUNC_CODE_COLD_LOCK_PRODUCTION_QUERY :: u8 where "FUNC_CODE_COLD_LOCK_PRODUCTION_QUERY = 0x2F"

lemmas func_codes = FUNC_CODE_YK_QUERY_STATE_def FUNC_CODE_YK_CONTROL_def FUNC_CODE_YK_MODIFY_ADDR_def
  FUNC_CODE_YK_REPORT_STATE_def FUNC_CODE_YK_PRODUCTION_MODIFY_SN_def FUNC_CODE_AVC_QUERY_STATE_def
  FUNC_CODE_AVC_CONTROL_COMMAND_def FUNC_CODE_AVC_CONTROL_REQUEST_def FUNC_CODE_AVC_MODIFY_DEVICE_def
  FUNC_CODE_AVC_MODIFY_SN_def FUNC_CODE_AVC_PRODUCTION_QUERY_def FUNC_CODE_COLD_LOCK_QUERY_ALL_def
  FUNC_CODE_COLD_LOCK_CONTROL_def FUNC_CODE_COLD_LOCK_MODIFY_TIMEOUT_def
  FUNC_CODE_COLD_LOCK_MODIFY_ADDR_def FUNC_CODE_COLD_LOCK_MODIFY_SN_def
  FUNC_CODE_COLD_LOCK_PRODUCTION_QUERY_def

definition protocol_set_yk :: "(u8 \<times> handler_index) list" where
  "protocol_set_yk =
     [(FUNC_CODE_YK_QUERY_STATE, INDEX_YK_QUERY_STATE),
      (FUNC_CODE_YK_CONTROL, INDEX_YK_CONTROL),
      (FUNC_CODE_YK_MODIFY_ADDR, INDEX_YK_MODIFY_ADDR),
      (FUNC_CODE_YK_REPORT_STATE, INDEX_YK_REPORT_STATE),
      (FUNC_CODE_YK_PRODUCTION_MODIFY_SN, INDEX_YK_PRODUCTION_MODIFY_SN),
      (FUNC_CODE_AVC_MODIFY_SN, INDEX_AVC_MODIFY_SN)]"

definition protocol_set_avc_switch :: "(u8 \<times> handler_index) list" where
  "protocol_set_avc_switch =
     [(FUNC_CODE_AVC_QUERY_STATE, IDNEX_AVC_QUERY_STATE),
      (FUNC_CODE_AVC_CONTROL_COMMAND, INDEX_AVC_CONTROL_COMMAND),
      (FUNC_CODE_AVC_CONTROL_REQUEST, INDEX_AVC_CONTROL_REQUEST),
      (FUNC_CODE_AVC_MODIFY_DEVICE, INDEX_AVC_MODIFY_ADDR_TYPE),
      (FUNC_CODE_AVC_MODIFY_SN, INDEX_AVC_MODIFY_SN),
      (FUNC_CODE_AVC_PRODUCTION_QUERY, INDEX_AVC_PRODUCTION_QUERY),
      (FUNC_CODE_YK_PRODUCTION_MODIFY_SN, INDEX_YK_PRODUCTION_MODIFY_SN)]"

definition protocol_set_cold_lock :: "(u8 \<times> handler_index) list" where
  "protocol_set_cold_lock =
     [(FUNC_CODE_COLD_LOCK_QUERY_ALL, INDEX_COLD_LOCK_QUERY_ALL),
      (FUNC_CODE_COLD_LOCK_CONTROL, INDEX_COLD_LOCK_CONTROL),
      (FUNC_CODE_COLD_LOCK_MODIFY_TIMEOUT, INDEX_COLD_LOCK_MODIFY_TIMEOUT),
      (FUNC_CODE_COLD_LOCK_MODIFY_ADDR, INDEX_COLD_LOCK_MODIFY_ADDR),
      (FUNC_CODE_COLD_LOCK_MODIFY_SN, INDEX_COLD_LOCK_MODIFY_SN),
      (FUNC_CODE_COLD_LOCK_PRODUCTION_QUERY, INDEX_COLD_LOCK_PRODUCTION_QUERY)]"

lemmas protocol_sets = protocol_set_yk_def protocol_set_avc_switch_def protocol_set_cold_lock_def

section \<open>The parser\<close>

record parsed_data =
  pd_index :: handler_index
  pd_data :: "u8 list"
  pd_len :: nat

text \<open>The loop over the command table: the first entry with the function code.\<close>

fun search_set :: "u8 \<Rightarrow> (u8 \<times> handler_index) list \<Rightarrow> handler_index option" where
  "search_set fc [] = None"
| "search_set fc ((c, i) # rest) = (if fc = c then Some i else search_set fc rest)"

text \<open>
  \<open>data\<close> is the whole buffer, \<open>len\<close> what was received of it.  The length comparison is between
  \<open>size_t\<close> values, so \<open>len - 5\<close> wraps around for shorter frames.
\<close>

definition protocol_parser :: "u8 list \<Rightarrow> nat \<Rightarrow> ('w, int \<times> parsed_data option) yk_op" where
  "protocol_parser data len = do {
     set_ub (len = 0 \<or> length data < len);
     if data ! (len - 1) \<noteq> crc8 data (len - 1) then ret (RT_ERROR, None)
     else do {
       set_ub (length data \<le> 3);
       if (ucast (data ! 3) :: u32) \<noteq> of_nat len - 5 then ret (RT_ERROR, None)
       else do {
         set_ub (length data \<le> 4);
         let dev = data ! 0;
         let func_code = data ! 4;
         l \<leftarrow> reads lk;
         if hardware_type l = HW_AVC_SWITCH \<and>
            (dev \<noteq> dev_id l \<and> func_code \<noteq> FUNC_CODE_AVC_MODIFY_SN \<and>
             func_code \<noteq> FUNC_CODE_YK_PRODUCTION_MODIFY_SN)
         then ret (RT_ERROR, None)
         else do {
           tab \<leftarrow> reads proto_set;
           (case search_set func_code tab of
              Some i \<Rightarrow> ret (RT_EOK, Some \<lparr>pd_index = i, pd_data = data, pd_len = len\<rparr>)
            | None \<Rightarrow> ret (RT_ERROR, None))
         }
       }
     }
   }"

section \<open>Dispatch and start-up\<close>

definition protocol_handler :: "'w env \<Rightarrow> parsed_data option \<Rightarrow> ('w, int) yk_op" where
  "protocol_handler E pd =
     (case pd of
        None \<Rightarrow> ret RT_ERROR
      | Some d \<Rightarrow> get_handler_table E (pd_index d) (pd_data d) (pd_len d))"

definition protocol_set_of :: "lock_type \<Rightarrow> (u8 \<times> handler_index) list option" where
  "protocol_set_of t =
     (case t of
        YK_LOCK \<Rightarrow> Some protocol_set_yk
      | YK_COLD_LOCK \<Rightarrow> Some protocol_set_cold_lock
      | AVC \<Rightarrow> Some protocol_set_yk
      | AVC_COLD_LOCK \<Rightarrow> Some protocol_set_cold_lock
      | AVC_SWITCH \<Rightarrow> Some protocol_set_avc_switch
      | _ \<Rightarrow> None)"

definition protocol_init :: "('w, int) yk_op" where
  "protocol_init = do {
     l \<leftarrow> reads lk;
     (case protocol_set_of (lk_type l) of
        None \<Rightarrow> ret RT_ERROR
      | Some tab \<Rightarrow> do {
          modify (\<lambda>s. s\<lparr>proto_set := tab\<rparr>);
          modify (\<lambda>s. s\<lparr>proto_ops := True\<rparr>);
          ret RT_EOK
        })
   }"

section \<open>What the parser accepts\<close>

lemma search_set_map_of: "search_set fc tab = map_of tab fc"
  by (induction fc tab rule: search_set.induct) auto

text \<open>Who may be addressed: the lock's own device identifier, or a production command.\<close>

definition addressed :: "lock_info \<Rightarrow> u8 list \<Rightarrow> bool" where
  "addressed l f \<longleftrightarrow> hardware_type l \<noteq> HW_AVC_SWITCH \<or> f ! 0 = dev_id l \<or> f ! 4 \<in> {0x37, 0x07}"

definition frame_ok :: "u8 list \<Rightarrow> bool" where
  "frame_ok f \<longleftrightarrow> sealed f \<and> 5 \<le> length f \<and> unat (f ! 3) = length f - 5"

lemma unat_ucast_u8_u32: "unat (ucast (b :: u8) :: u32) = unat b"
  by (simp add: unsigned_ucast_eq take_bit_nat_eq_self unat_u8_less_nat)

lemma length_test:
  assumes "n < 5 + 2 ^ 32"
  shows "(ucast (b :: u8) :: u32) = of_nat n - 5 \<longleftrightarrow> 5 \<le> n \<and> unat b = n - 5"
proof (cases "5 \<le> n")
  case True
  then obtain k where n: "n = 5 + k" and k: "k < 2 ^ 32" using assms by (metis le_Suc_ex nat_add_left_cancel_less)
  have "of_nat n - 5 = (of_nat k :: u32)" by (simp add: n)
  moreover have "ucast b = (of_nat k :: u32) \<longleftrightarrow> unat b = k"
    using k by (simp add: word_unat_eq_iff unat_of_nat unat_ucast_u8_u32)
  ultimately show ?thesis by (simp add: n)
next
  case False
  then have "n \<in> {0, 1, 2, 3, 4}" by auto
  then have "(of_nat n - 5 :: u32) \<ge> 2 ^ 31" by auto
  moreover have "(ucast b :: u32) < 2 ^ 31"
    by (simp add: word_less_nat_alt unat_ucast_u8_u32 unat_u8_less_nat)
  ultimately show ?thesis using False by auto
qed

lemma sealed_take:
  assumes "0 < n" and "n \<le> length data"
  shows "sealed (take n data) \<longleftrightarrow> data ! (n - 1) = crc8 data (n - 1)"
proof -
  from assms obtain k where n: "n = Suc k" by (cases n) auto
  then have "take n data = take k data @ [data ! k]" and "length (take k data) = k"
    using assms by (simp_all add: take_Suc_conv_app_nth)
  then show ?thesis by (simp add: n sealed_def crc8_def min_def)
qed

text \<open>
  The parser accepts a frame exactly when its last byte is the CRC of the others, its length
  byte counts what lies between length byte and CRC (so it has at least five bytes), it addresses
  this device or is one of the two production commands, and its function code is in the table; the
  table's index and the received bytes are handed on and nothing else changes.
\<close>

theorem protocol_parser_accepts:
  assumes "0 < len" and "len \<le> length data" and "length data < 2 ^ 32" and "5 \<le> length data"
  shows "run_state (protocol_parser data len) s =
    (if frame_ok (take len data) \<and> addressed (lk s) data
     then (case map_of (proto_set s) (data ! 4) of
             Some i \<Rightarrow> (RT_EOK, Some \<lparr>pd_index = i, pd_data = data, pd_len = len\<rparr>)
           | None \<Rightarrow> (RT_ERROR, None))
     else (RT_ERROR, None), s)"
proof -
  have crc: "data ! (len - 1) \<noteq> crc8 data (len - 1) \<longleftrightarrow> \<not> sealed (take len data)"
    using sealed_take assms by blast
  have "(ucast (data ! 3) :: u32) = of_nat len - 5 \<longleftrightarrow> 5 \<le> len \<and> unat (data ! 3) = len - 5"
    using assms by (intro length_test) simp
  then have length_ok: "(ucast (data ! 3) :: u32) \<noteq> of_nat len - 5 \<longleftrightarrow>
      \<not> (5 \<le> len \<and> unat (data ! 3) = len - 5)" by simp
  have frame: "frame_ok (take len data) \<longleftrightarrow>
      sealed (take len data) \<and> 5 \<le> len \<and> unat (data ! 3) = len - 5"
    using assms by (auto simp: frame_ok_def min_def)
  have in_bounds: "\<not> (len = 0 \<or> length data < len)" "\<not> length data \<le> 3" "\<not> length data \<le> 4"
    using assms by auto
  have other: "(hardware_type (lk s) = HW_AVC_SWITCH \<and> data ! 0 \<noteq> dev_id (lk s) \<and>
      data ! 4 \<noteq> FUNC_CODE_AVC_MODIFY_SN \<and> data ! 4 \<noteq> FUNC_CODE_YK_PRODUCTION_MODIFY_SN) \<longleftrightarrow>
      \<not> addressed (lk s) data"
    by (auto simp: addressed_def func_codes)
  show ?thesis
    unfolding protocol_parser_def Let_def crc length_ok
    by (simp add: run_simps in_bounds other frame search_set_map_of split: option.split)
qed

text \<open>The parser as a test, for the callers.\<close>

definition accepts :: "'w yk \<Rightarrow> u8 list \<Rightarrow> bool" where
  "accepts s f \<longleftrightarrow> frame_ok f \<and> addressed (lk s) f \<and> map_of (proto_set s) (f ! 4) \<noteq> None"

lemma parser_rejects:
  assumes "0 < len" and "len \<le> length data" and "length data < 2 ^ 32" and "5 \<le> length data"
    and "\<not> accepts s (take len data)"
  shows "run_state (protocol_parser data len) s = ((RT_ERROR, None), s)"
proof (cases "frame_ok (take len data)")
  case True
  then have "5 \<le> len" by (simp add: frame_ok_def)
  then show ?thesis
    using assms True by (auto simp: protocol_parser_accepts accepts_def addressed_def)
qed (use assms in \<open>simp add: protocol_parser_accepts\<close>)

text \<open>
  C26: damage is never mistaken for a command: when a sealed frame is hit by an error pattern of one
  of the four classes the CRC is certain to see, the parser rejects what arrives and no state
  changes, whatever the buffer holds behind the frame.
\<close>

theorem damaged_frame_rejected:
  assumes "sealed f" and "length e = length f" and "crc8_sees e"
    and "length (damage f e @ junk) < 2 ^ 32" and "5 \<le> length (damage f e @ junk)"
  shows "run_state (protocol_parser (damage f e @ junk) (length f)) s = ((RT_ERROR, None), s)"
proof (rule parser_rejects)
  have "\<not> sealed (damage f e)" using assms crc.seen_breaks by blast
  moreover have "take (length f) (damage f e @ junk) = damage f e"
    using assms by (simp add: damage_def)
  ultimately show "\<not> accepts s (take (length f) (damage f e @ junk))"
    by (simp add: accepts_def frame_ok_def)
  show "0 < length f" using assms(1) by (auto simp: sealed_def)
  show "length f \<le> length (damage f e @ junk)" using assms by (simp add: damage_def)
qed (use assms in auto)

text \<open>
  The command table depends on the lock type at start-up alone; every table maps a function
  code to the handler that answers it, no table holds a code twice, and every lock type accepts
  the two production serial-number commands except the cold locks, which accept neither.
\<close>

theorem protocol_init_tables:
  assumes "lk_type (lk s) = ty"
  shows "run_state protocol_init s =
      (if ty = DEVICE_TYPE_MAX then (RT_ERROR, s)
       else (RT_EOK, s\<lparr>proto_set := the (protocol_set_of ty), proto_ops := True\<rparr>)) \<and>
    (\<forall>tab. protocol_set_of ty = Some tab \<longrightarrow>
       distinct (map fst tab) \<and> distinct (map snd tab) \<and>
       (map_of tab 0x37 \<noteq> None \<longleftrightarrow> ty \<in> {YK_LOCK, AVC, AVC_SWITCH}) \<and>
       (map_of tab 0x07 \<noteq> None \<longleftrightarrow> ty \<in> {YK_LOCK, AVC, AVC_SWITCH}))"
  using assms
  by (cases ty) (simp_all add: protocol_init_def protocol_set_of_def protocol_sets func_codes)

end
