(* ===== verification/Yk_App.thy ===== *)
theory Yk_App
  imports Yk_Protocol
begin

text \<open>
  The application as a whole: \<^verbatim>\<open>applications/lock.c\<close> (start-up), \<^verbatim>\<open>main.c\<close> (receive callback,
  button thread, filter set-up), the receiving thread of \<^verbatim>\<open>can_channel.c\<close> and the shell commands of
  \<^verbatim>\<open>cmd/command.c\<close>.
\<close>

section \<open>lock.c: start-up\<close>

definition lock_pin_init :: "'w env \<Rightarrow> ('w, unit) yk_op" where
  "lock_pin_init E = do {
     l \<leftarrow> reads lk;
     (case hardware_type l of
        HW_YK \<Rightarrow> do {
          pin_mode E PIN_YK_RELAY_CT1 PIN_MODE_OUTPUT;
          pin_mode E PIN_YK_RELAY_CT2 PIN_MODE_OUTPUT;
          pin_mode E PIN_YK_RELAY_CT3 PIN_MODE_OUTPUT;
          pin_mode E PIN_YK_D5V0_OUT PIN_MODE_OUTPUT;
          pin_mode E PIN_YK_DOUT PIN_MODE_OUTPUT
        }
      | HW_YK_COLD_LOCK \<Rightarrow> ret ()
      | HW_AVC_COLD_LOCK \<Rightarrow> ret ()
      | HW_AVC_SWITCH \<Rightarrow> do {
          pin_mode E PIN_AVC_CT1 PIN_MODE_OUTPUT;
          pin_mode E PIN_AVC_CT2 PIN_MODE_OUTPUT;
          pin_mode E PIN_AVC_K1 PIN_MODE_OUTPUT;
          pin_mode E PIN_AVC_K1 PIN_MODE_OUTPUT;
          pin_mode E PIN_AVC_RELAY_CHECK PIN_MODE_INPUT
        })
   }"

definition lock_init :: "'w env \<Rightarrow> ('w, int) yk_op" where
  "lock_init E = do {
     lock_info_update E;
     lock_pin_init E;
     l \<leftarrow> reads lk;
     r \<leftarrow> channel_init E (lk_channel l);
     if r \<noteq> RT_EOK then ret r
     else do {
       r \<leftarrow> protocol_init;
       if r \<noteq> RT_EOK then ret r else ret r
     }
   }"

section \<open>main.c: the receive callback\<close>

text \<open>
  \<open>junk\<close> is what the uninitialised buffer holds.  The parser is called through a pointer that is
  null until \<open>protocol_init\<close> succeeded; the log reads the buffer up to \<open>len\<close>.
\<close>

definition rx_cb :: "'w env \<Rightarrow> u8 list \<Rightarrow> nat \<Rightarrow> bool \<Rightarrow> ('w, int) yk_op" where
  "rx_cb E junk len parameter =
     (if \<not> parameter then ret 0
      else do {
        (size, buff) \<leftarrow> can_channel_read junk len;
        if size = 0 then ret RT_ERROR
        else do {
          ops \<leftarrow> reads proto_ops;
          set_ub (\<not> ops);
          (res, pd) \<leftarrow> protocol_parser buff size;
          if res \<noteq> RT_EOK then ret RT_ERROR
          else do {
            set_ub (length buff < len);
            res \<leftarrow> protocol_handler E pd;
            if res \<noteq> RT_EOK then ret RT_ERROR else ret 0
          }
        }
      })"

text \<open>One turn of the loop of \<open>thread_can_rx\<close>, for the message the driver delivered.\<close>

definition thread_can_rx :: "'w env \<Rightarrow> u8 list \<Rightarrow> can_msg \<Rightarrow> ('w, unit) yk_op" where
  "thread_can_rx E junk m = do {
     set_chan (\<lambda>c. c\<lparr>msg_buff := m\<rparr>);
     cb \<leftarrow> reads (\<lambda>s. ch_rx_callback (chan s));
     if cb then do { rx_cb E junk (unat (msg_len m) + 3) True; ret () } else ret ()
   }"

section \<open>main.c: the button\<close>

definition btn_press_cb :: "'w env \<Rightarrow> ('w, unit) yk_op" where
  "btn_press_cb E = do {
     r \<leftarrow> on_world (btn_mutex_take E);
     if r = RT_ERROR then ret ()
     else do {
       t \<leftarrow> on_world (rt_thread_create E);
       modify (\<lambda>s. s\<lparr>asserts := asserts s \<or> \<not> t\<rparr>);
       modify (\<lambda>s. s\<lparr>btn_threads := btn_threads s + (if t then 1 else 0)\<rparr>)
     }
   }"

text \<open>The body of the started thread; a lock of another type returns without releasing the mutex.\<close>

definition thread_btn_press :: "'w env \<Rightarrow> ('w, unit) yk_op" where
  "thread_btn_press E = do {
     l \<leftarrow> reads lk;
     if lk_type l \<noteq> AVC_SWITCH then ret ()
     else do {
       let buff = replicate 8 0;
       let buff = buff[3 := 0x03];
       let buff = buff[4 := 0x32];
       a \<leftarrow> get_addr E;
       let buff = buff[5 := a];
       c \<leftarrow> AVC_RELAY_CHECK E;
       let buff = buff[6 := (if c \<noteq> 0 then 0x01 else 0x10)];
       let buff = buff[7 := crc8 buff 7];
       can_channel_write E buff 8;
       on_world (btn_mutex_release E);
       ret ()
     }
   }"

definition bind_button_press_event :: "bool \<Rightarrow> ('w, unit) yk_op" where
  "bind_button_press_event callback = modify (\<lambda>s. s\<lparr>btn_bound := callback\<rparr>)"

section \<open>main.c: main\<close>

definition filter_id :: "u8 \<Rightarrow> u8 \<Rightarrow> u8 \<Rightarrow> 29 word" where
  "filter_id a net dev =
     ucast ((push_bit 0 (ucast a) + push_bit 8 (ucast net)) + push_bit 16 (ucast dev) :: u32)"

text \<open>The table handed to the driver; only \<open>cfg.count\<close> of its two items count.\<close>

definition filter_items :: "'w env \<Rightarrow> lock_info \<Rightarrow> (29 word \<times> u32) list" where
  "filter_items E l =
     (let a = lk_addr l; net = net_id l;
          device = (\<lambda>t. case get_device_id_by_lock_type t of Some d \<Rightarrow> d | None \<Rightarrow> behind_id_table E);
          items = (if hardware_type l = HW_AVC_SWITCH
                   then [(filter_id a net (device YK_LOCK), 0xFFFFFFFF),
                         (filter_id a net (device AVC_SWITCH), 0xFFFFFFFF)]
                   else [(filter_id a net (dev_id l), 0xFFFFFFFF)])
      in if lk_type l = AVC_COLD_LOCK \<or> lk_type l = YK_COLD_LOCK
         then items[0 := (fst (items ! 0), push_bit 8 (snd (items ! 0)))] else items)"

text \<open>
  \<open>main\<close> up to its idle loop.  It ignores the result of \<open>init\<close> and calls the channel's operations
  through pointers that are null when the channel could not be set up.
\<close>

definition main :: "'w env \<Rightarrow> ('w, unit) yk_op" where
  "main E = do {
     lock_init E;
     modify (\<lambda>s. s\<lparr>lk := (lk s)\<lparr>lk_data := 20000\<rparr>\<rparr>);
     l \<leftarrow> reads lk;
     c \<leftarrow> reads chan;
     set_ub (\<not> ch_ops c);
     can_channel_open E (Some (filter_items E l));
     can_channel_set_rx_callbck True;
     bind_button_press_event True;
     on_world (rt_mutex_create E);
     ret ()
   }"

section \<open>cmd/command.c\<close>

text \<open>The integer is what the variable holds after \<open>sscanf\<close>.\<close>

definition cmd_device_modify :: "'w env \<Rightarrow> nat \<Rightarrow> int \<Rightarrow> ('w, int) yk_op" where
  "cmd_device_modify E argc type =
     (if argc < 2 then ret RT_ERROR
      else do {
        (if type \<in> {0, 1, 2, 3, 4} then do { modify_device E (word_of_int type); ret () } else ret ());
        ret RT_EOK
      })"

definition cmd_modify_device :: "'w env \<Rightarrow> nat \<Rightarrow> int \<Rightarrow> ('w, int) yk_op" where
  "cmd_modify_device E argc type =
     (if argc < 2 then ret RT_ERROR
      else do {
        (if type \<in> {0, 1, 2, 3, 4} then do { modify_device E (word_of_int type); ret () } else ret ());
        ret RT_EOK
      })"

definition cmd_modify_addr :: "'w env \<Rightarrow> nat \<Rightarrow> int \<Rightarrow> ('w, int) yk_op" where
  "cmd_modify_addr E argc a =
     (if argc = 1 then ret RT_ERROR
      else do { modify_addr E (word_of_int a); ret RT_EOK })"

definition cmd_modify_sn :: "'w env \<Rightarrow> nat \<Rightarrow> int \<Rightarrow> ('w, int) yk_op" where
  "cmd_modify_sn E argc n =
     (if argc = 1 then ret RT_ERROR
      else do { modify_sn E (word_of_int n); ret RT_EOK })"

definition cmd_modify_sn_random :: "'w env \<Rightarrow> int \<Rightarrow> ('w, int) yk_op" where
  "cmd_modify_sn_random E rand = do { modify_sn E (word_of_int rand); ret RT_EOK }"

definition cmd_led_green_control :: "'w env \<Rightarrow> nat \<Rightarrow> int \<Rightarrow> ('w, int) yk_op" where
  "cmd_led_green_control E argc state =
     (if argc = 1 then ret RT_ERROR
      else do {
        (if state \<noteq> 0
         then do { pin_write E PIN_AVC_LED_CT1 False; pin_write E PIN_AVC_LED_CT2 True }
         else do { pin_write E PIN_AVC_LED_CT1 False; pin_write E PIN_AVC_LED_CT2 False });
        ret RT_EOK
      })"

section \<open>Receiving a message\<close>

text \<open>A message as the CAN driver delivers it: eight data bytes, of which at most eight count.\<close>

definition can_msg_ok :: "can_msg \<Rightarrow> bool" where
  "can_msg_ok m \<longleftrightarrow> length (msg_data m) = 8 \<and> unat (msg_len m) \<le> 8"

lemma can_msg_okD:
  assumes "can_msg_ok m"
  shows "length (msg_data m) = 8" and "unat (msg_len m) \<le> 8"
    and "length (msg_frame m) = unat (msg_len m) + 3"
  using assms by (simp_all add: can_msg_ok_def length_msg_frame)

definition receiving :: "can_msg \<Rightarrow> 'w yk \<Rightarrow> 'w yk" where
  "receiving m s = s\<lparr>chan := (chan s)\<lparr>msg_buff := m\<rparr>\<rparr>"

lemma receiving_simps [simp]: "cfg (receiving m s) = cfg s" "lk (receiving m s) = lk s"
  "avc (receiving m s) = avc s" "proto_set (receiving m s) = proto_set s"
  "proto_ops (receiving m s) = proto_ops s" "sent (receiving m s) = sent s"
  "resets (receiving m s) = resets s" "ub (receiving m s) = ub s" "world (receiving m s) = world s"
  "msg_buff (chan (receiving m s)) = m" "accepts (receiving m s) = accepts s"
  "store_ok E mem (receiving m s) = store_ok E mem s"
  by (simp_all add: receiving_def accepts_def fun_eq_iff store_ok_def)

lemma receiving_ub [simp]: "receiving m s\<lparr>ub := ub s\<rparr> = receiving m s"
  using ub_same [of "receiving m s"] by simp

lemma receive_outcome:
  assumes "can_msg_ok m" and "length junk = 16" and "proto_ops s"
  shows "snd (run_state (thread_can_rx E junk m) s) =
    (let f = msg_frame m; s' = receiving m s
     in if ch_rx_callback (chan s) \<and> accepts s f
        then snd (run_state (get_handler_table E (the (map_of (proto_set s) (f ! 4)))
               (f @ drop (length f) junk) (length f)) s')
        else s')"
proof -
  note m = can_msg_okD [OF assms(1)]
  let ?f = "msg_frame m" and ?s = "receiving m s"
  let ?buff = "?f @ drop (length ?f) junk"
  have read: "run_state (can_channel_read junk (unat (msg_len m) + 3)) ?s = ((length ?f, ?buff), ?s)"
    using can_read_run [of m ?s junk] m assms by simp
  have fits: "0 < length ?f" "length ?f \<le> length ?buff" "length ?buff < 2 ^ 32" "5 \<le> length ?buff"
    "\<not> length ?buff < unat (msg_len m) + 3"
    using m assms by auto
  have parse: "run_state (protocol_parser ?buff (length ?f)) ?s =
      ((if accepts s ?f
        then (RT_EOK, Some \<lparr>pd_index = the (map_of (proto_set s) (?f ! 4)), pd_data = ?buff, pd_len = length ?f\<rparr>)
        else (RT_ERROR, None)), ?s)"
  proof (cases "accepts s ?f")
    case True
    then have "5 \<le> length ?f" by (simp add: accepts_def frame_ok_def)
    then have "?buff ! 4 = ?f ! 4" and "?buff ! 0 = ?f ! 0"
      by (simp_all only: nth_append) auto
    then show ?thesis
      using True protocol_parser_accepts [OF fits(1-4), of ?s]
      by (auto simp: accepts_def addressed_def)
  next
    case False
    then show ?thesis using parser_rejects [OF fits(1-4), of ?s] by simp
  qed
  have "snd (run_state (rx_cb E junk (unat (msg_len m) + 3) True) ?s) =
      (if accepts s ?f
       then snd (run_state (get_handler_table E (the (map_of (proto_set s) (?f ! 4))) ?buff (length ?f)) ?s)
       else ?s)"
    using assms(3) fits
    by (simp add: rx_cb_def read parse run_simps protocol_handler_def split: prod.split)
  moreover have "run_state (set_chan (\<lambda>c. c\<lparr>msg_buff := m\<rparr>)) s = ((), ?s)"
    by (simp add: run_simps receiving_def)
  moreover have "ch_rx_callback (chan ?s) = ch_rx_callback (chan s)"
    by (simp add: receiving_def)
  ultimately show ?thesis
    by (simp add: thread_can_rx_def case_prod_beta Let_def)
qed

text \<open>
  C4: a delivered message is acted on exactly when a receive callback is bound and its frame is
  accepted; then the handler of its function code runs on the received bytes, in a buffer that holds
  whatever it held before behind them.  Otherwise only the message buffer changes.
\<close>

theorem receive_acts_iff_accepted:
  assumes "can_msg_ok m" and "length junk = 16" and "proto_ops s"
  shows "snd (run_state (thread_can_rx E junk m) s) =
    (let f = msg_frame m; s' = receiving m s
     in if ch_rx_callback (chan s) \<and> accepts s f
        then snd (run_state (get_handler_table E (the (map_of (proto_set s) (f ! 4)))
               (f @ drop (length f) junk) (length f)) s')
        else s')"
  by (rule receive_outcome [OF assms])

section \<open>The receiving machine\<close>

text \<open>
  The firmware as a machine whose events are delivered messages (with what the stack holds below
  them).  The invariant says that everything sent so far is a well-formed reply.
\<close>

definition rx_step :: "'w env \<Rightarrow> 'w yk \<Rightarrow> u8 list \<times> can_msg \<Rightarrow> 'w yk" where
  "rx_step E s e = snd (run_state (thread_can_rx E (fst e) (snd e)) s)"

definition replies_inv :: "'w yk \<Rightarrow> bool" where
  "replies_inv s \<longleftrightarrow> list_all reply_ok (sent s)"

definition at_most_one :: "('w, 'a) yk_op \<Rightarrow> bool" where
  "at_most_one m \<longleftrightarrow> (\<forall>s. \<exists>ms. sent (snd (run_state m s)) = sent s @ ms \<and> list_all reply_ok ms \<and> length ms \<le> 1)"

lemma at_most_one_silent: "silent m \<Longrightarrow> at_most_one m"
  by (auto simp: at_most_one_def silent_sent)

lemma at_most_one_handler: "at_most_one (get_handler_table E i data len)"
  unfolding at_most_one_def
proof
  fix s
  obtain ms where "sent (snd (run_state (get_handler_table E i data len) s)) = sent s @ ms" "list_all reply_ok ms"
    "length ms = (if fst (run_state (get_handler_table E i data len) s) = RT_EOK then answer_count i else 0)"
    using answers_handler [of i E data len] unfolding answers_def by blast
  then show "\<exists>ms. sent (snd (run_state (get_handler_table E i data len) s)) = sent s @ ms \<and>
      list_all reply_ok ms \<and> length ms \<le> 1"
    by (intro exI [of _ ms]) (auto simp: answer_count_def)
qed

lemma at_most_one_bind:
  assumes "silent m" and "\<And>x. at_most_one (f x)"
  shows "at_most_one (State_Monad.bind m f)"
  unfolding at_most_one_def
proof
  fix s
  obtain x t where m: "run_state m s = (x, t)" by fastforce
  have "sent t = sent s" using silent_sent [OF assms(1), of s] m by simp
  with assms(2) [of x] m show "\<exists>ms. sent (snd (run_state (State_Monad.bind m f) s)) = sent s @ ms \<and>
      list_all reply_ok ms \<and> length ms \<le> 1"
    unfolding at_most_one_def by (metis case_prod_conv run_state_bind)
qed

lemma at_most_one_then:
  assumes "at_most_one m" and "\<And>x. silent (f x)"
  shows "at_most_one (State_Monad.bind m f)"
  unfolding at_most_one_def
proof
  fix s
  obtain x t where m: "run_state m s = (x, t)" by fastforce
  have "sent (snd (run_state (f x) t)) = sent t" by (rule silent_sent [OF assms(2)])
  with assms(1) m show "\<exists>ms. sent (snd (run_state (State_Monad.bind m f) s)) = sent s @ ms \<and>
      list_all reply_ok ms \<and> length ms \<le> 1"
    unfolding at_most_one_def by (metis case_prod_conv run_state_bind snd_conv)
qed

lemma at_most_one_if: "at_most_one m \<Longrightarrow> at_most_one n \<Longrightarrow> at_most_one (if b then m else n)"
  by simp

lemma silent_chan [silents]: "silent (set_chan f)" "silent (modify (\<lambda>s. s\<lparr>proto_set := t s\<rparr>))"
  "silent (modify (\<lambda>s. s\<lparr>proto_ops := b s\<rparr>))"
  by (auto simp: silent_def kept_def run_simps)

lemma silent_read [silents]: "silent (can_channel_read buff len)"
  unfolding can_channel_read_def Let_def by (intro silents)

lemma silent_parser [silents]: "silent (protocol_parser data len)"
  unfolding protocol_parser_def Let_def by (intro silents)

lemma at_most_one_case_prod:
  "(\<And>a b. at_most_one (f a b)) \<Longrightarrow> at_most_one (case x of (a, b) \<Rightarrow> f a b)"
  by (cases x) simp

lemma at_most_one_protocol_handler: "at_most_one (protocol_handler E pd)"
  by (cases pd) (auto simp: protocol_handler_def at_most_one_handler intro: at_most_one_silent silents)

lemma at_most_one_rx: "at_most_one (rx_cb E junk len p)"
  unfolding rx_cb_def
  by (intro at_most_one_if at_most_one_silent [OF silent_basic(1)] at_most_one_bind at_most_one_case_prod
      at_most_one_then [OF at_most_one_protocol_handler] silents)

lemma at_most_one_thread: "at_most_one (thread_can_rx E junk m)"
  unfolding thread_can_rx_def
  by (intro at_most_one_if at_most_one_silent [OF silent_basic(1)] at_most_one_bind
      at_most_one_then [OF at_most_one_rx] silents)

lemma rx_step_sent:
  "\<exists>ms. sent (rx_step E s e) = sent s @ ms \<and> list_all reply_ok ms \<and> length ms \<le> 1"
  using at_most_one_thread unfolding at_most_one_def rx_step_def by blast

interpretation rx: step_machine "rx_step E" replies_inv for E :: "'w env"
proof
  fix s :: "'w yk" and e
  assume "replies_inv s"
  moreover obtain ms where "sent (rx_step E s e) = sent s @ ms" "list_all reply_ok ms"
    using rx_step_sent by blast
  ultimately show "replies_inv (rx_step E s e)" by (simp add: replies_inv_def)
qed

text \<open>
  C1: whatever sequence of messages arrives, and however the EEPROM, the pins and the CAN driver
  behave, everything the firmware ever sends in answer is a well-formed reply, and it sends at most
  one message for each it receives.
\<close>

theorem only_well_formed_replies:
  assumes "list_all reply_ok (sent s)"
  shows "list_all reply_ok (sent (foldl (rx_step E) s es)) \<and>
    length (sent (foldl (rx_step E) s es)) \<le> length (sent s) + length es"
proof
  have inv: "replies_inv s" using assms by (simp add: replies_inv_def)
  show "list_all reply_ok (sent (foldl (rx_step E) s es))"
    using rx.run_keeps [OF inv] by (simp add: replies_inv_def)
  have "length (sent (rx_step E t e)) \<le> length (sent t) + 1" for t e
    using rx_step_sent [of E t e] by auto
  then show "length (sent (foldl (rx_step E) s es)) \<le> length (sent s) + length es"
    using rx.run_measure [where m = "\<lambda>s. length (sent s)" and k = 1, OF _ inv] by simp
qed

section \<open>Commands over the wire\<close>

text \<open>A request as the master builds it: device, net, address, length, function code, payload, seal.\<close>

definition request :: "u8 \<Rightarrow> u8 \<Rightarrow> u8 \<Rightarrow> u8 list \<Rightarrow> u8 list" where
  "request dev a fc payload = seal ([dev, 0, a, of_nat (length payload + 1), fc] @ payload)"

lemma length_request [simp]: "length (request dev a fc payload) = 6 + length payload"
  by (simp add: request_def)

lemma request_nth: "request dev a fc payload ! 0 = dev" "request dev a fc payload ! 4 = fc"
  by (simp_all add: request_def seal_def)

lemma request_payload: "i < length payload \<Longrightarrow> request dev a fc payload ! (5 + i) = payload ! i"
  by (simp add: request_def seal_def nth_append)

lemma frame_ok_request:
  assumes "length payload \<le> 5"
  shows "frame_ok (request dev a fc payload)"
proof -
  have "request dev a fc payload ! 3 = of_nat (length payload + 1)"
    by (simp add: request_def seal_def)
  moreover have "unat (word_of_nat (length payload + 1) :: u8) = length payload + 1"
    using assms by (simp add: unat_of_nat del: of_nat_add of_nat_Suc)
  ultimately show ?thesis by (simp add: frame_ok_def) (simp add: request_def)
qed

text \<open>A lock that is up: its channel and protocol are, and \<open>tab\<close> is its command table.\<close>

definition running :: "'w yk \<Rightarrow> bool" where
  "running s \<longleftrightarrow> proto_ops s \<and> ch_rx_callback (chan s)"

lemma wire_command:
  assumes "running s" and "map_of (proto_set s) fc = Some i" and "dev_id (lk s) = dev"
    and "length payload \<le> 5" and "length junk = 16"
  shows "snd (run_state (thread_can_rx E junk (frame_msg (request dev a fc payload))) s) =
    snd (run_state (get_handler_table E i
      (request dev a fc payload @ drop (6 + length payload) junk) (6 + length payload))
      (receiving (frame_msg (request dev a fc payload)) s))"
proof -
  let ?f = "request dev a fc payload"
  have frame: "msg_frame (frame_msg ?f) = ?f"
    using assms(4) by (simp add: msg_frame_of_frame)
  have "can_msg_ok (frame_msg ?f)"
    using assms(4) by (simp add: can_msg_ok_def)
  moreover have "accepts s ?f"
    using assms frame_ok_request by (simp add: accepts_def addressed_def request_nth)
  ultimately show ?thesis
    using assms receive_outcome [of "frame_msg ?f" junk s E]
    by (simp add: frame request_nth running_def Let_def)
qed

text \<open>
  C2: a state query sent over CAN to a running lock whose cache agrees with its EEPROM is answered
  with the stored address, the stored serial number and the state byte, and changes nothing else.
\<close>

theorem wire_query_answered:
  assumes "running s" and "store_ok E mem s" and "map_of (proto_set s) fc = Some i"
    and "query_answer i = Some (rc, q)" and "length payload \<le> 5" and "length junk = 16"
  shows "let m = frame_msg (request (dev_id (lk s)) a fc payload)
    in snd (run_state (thread_can_rx E junk m) s) =
       transmit E (reply rc (addr (cfg s) # sn_bytes (ucast (sn (cfg s))) @ [queried E q (receiving m s)]))
         (receiving m s)"
  using wire_command [OF assms(1,3) refl assms(5,6), where E = E and a = a]
    query_commands_answer [OF _ assms(4), of E mem] assms(2)
  by (simp add: Let_def)

text \<open>
  C3: the control command 0x35 sent over CAN to a running AVC switch on a working board leaves the
  relay and the stored state in the requested position, and the one message sent in answer reports
  that position.
\<close>

theorem wire_control_switches:
  assumes "running s" and "board_works E mem rel" and "store_ok E mem s"
    and "proto_set s = protocol_set_avc_switch" and "length junk = 16"
  shows "let t = snd (run_state (thread_can_rx E junk
                   (frame_msg (request (dev_id (lk s)) a 0x35 [if on then 0x10 else 0x01]))) s)
    in (\<exists>r. sent t = sent s @ [reply 0x35 [0x03, addr (cfg s), if on then 0x10 else 0x01, r]]) \<and>
       avc_relay_state (cfg t) = level on \<and>
       rel (world t) = on"
proof -
  let ?f = "request (dev_id (lk s)) a 0x35 [if on then 0x10 else 0x01]"
  let ?data = "?f @ drop 7 junk" and ?s = "receiving (frame_msg ?f) s"
  have ok: "store_ok E mem ?s" using assms(3) by simp
  have five: "?data ! 5 = (if on then 0x10 else 0x01)"
    using request_payload [of 0 "[if on then 0x10 else 0x01]" "dev_id (lk s)" a "0x35"]
    by (simp add: nth_append)
  have "snd (run_state (thread_can_rx E junk (frame_msg ?f)) s) =
      snd (run_state (func_avc_control_command E ?data 7) ?s)"
    using wire_command [OF assms(1) _ refl _ assms(5), where fc = "0x35" and E = E and a = a and
        i = INDEX_AVC_CONTROL_COMMAND and payload = "[if on then 0x10 else 0x01]"] assms(4)
    by (simp add: protocol_sets func_codes)
  also have "\<dots> = transmit E (reply 0x35 [0x03, addr (cfg s), if on then 0x10 else 0x01,
      if rel (world s) = on then 0x12 else 0x13]) (switch_to E rel on ?s)"
    using avc_command_run [OF assms(2) ok, of ?data 7] five by (simp add: Let_def)
  finally show ?thesis
    using switch_to_facts [OF assms(2) ok, of on] relay_worksD(6) [of E rel] assms(2)
    by (simp add: Let_def board_works_def) blast
qed

section \<open>Starting up\<close>

text \<open>
  An environment in which start-up succeeds: every object is found or created, and none of these
  calls changes the EEPROM image \<open>mem\<close>.
\<close>

definition boot_works :: "'w env \<Rightarrow> ('w \<Rightarrow> u8 list) \<Rightarrow> bool" where
  "boot_works E mem \<longleftrightarrow> at24_works E mem \<and> quiet E mem \<and>
     (\<forall>f \<in> {rt_device_find E, rt_device_open E, rt_sem_create E, rt_mutex_create E, rt_thread_create E}.
        \<forall>w. fst (f w) \<and> mem (snd (f w)) = mem w) \<and>
     (\<forall>items w. fst (rt_can_set_filter E items w) \<and> mem (snd (rt_can_set_filter E items w)) = mem w) \<and>
     (\<forall>n w. mem (snd (rt_can_set_baud E n w)) = mem w)"

lemma boot_worksD:
  assumes "boot_works E mem"
  shows "at24_works E mem" and "quiet E mem"
    and "fst (rt_device_find E w)" "mem (snd (rt_device_find E w)) = mem w"
    and "fst (rt_device_open E w)" "mem (snd (rt_device_open E w)) = mem w"
    and "fst (rt_sem_create E w)" "mem (snd (rt_sem_create E w)) = mem w"
    and "fst (rt_mutex_create E w)" "mem (snd (rt_mutex_create E w)) = mem w"
    and "fst (rt_thread_create E w)" "mem (snd (rt_thread_create E w)) = mem w"
    and "fst (rt_can_set_filter E items w)" "mem (snd (rt_can_set_filter E items w)) = mem w"
    and "mem (snd (rt_can_set_baud E n w)) = mem w"
  using assms by (auto simp: boot_works_def)

lemma lock_pin_init_run:
  assumes "quiet E mem"
  shows "\<exists>w. run_state (lock_pin_init E) s = ((), s\<lparr>world := w\<rparr>) \<and> mem w = mem (world s)"
  by (cases "hardware_type (lk s)") (auto simp: lock_pin_init_def run_simps quietD [OF assms]
      intro: exI [of _ "world s"])

lemma world_same [simp]: "s\<lparr>world := world s\<rparr> = s"
  by (cases s) simp

text \<open>A create call made only when the object is missing.\<close>

lemma create_once:
  assumes "\<And>w. fst (f w) \<and> mem (snd (f w)) = mem w"
  obtains w where "run_state (if \<not> b then on_world f else ret True) s = (True, s\<lparr>world := w\<rparr>)"
    and "mem w = mem (world s)"
  using assms [of "world s"] that [of "if b then world s else snd (f (world s))"]
  by (cases b) (simp_all add: run_simps)

lemma can_channel_init_run:
  assumes "boot_works E mem"
  obtains w where "run_state (can_channel_init E) s =
      (RT_EOK, s\<lparr>world := w, chan := (chan s)\<lparr>ch_dev := True, ch_sem := True, ch_lock := True, ch_ops := True\<rparr>\<rparr>)"
    and "mem w = mem (world s)"
proof -
  note works = boot_worksD [OF assms]
  obtain w1 where 1: "run_state (if \<not> ch_dev (chan s) then on_world (rt_device_find E) else ret True) s =
      (True, s\<lparr>world := w1\<rparr>)" "mem w1 = mem (world s)"
    by (rule create_once [of "rt_device_find E" mem "ch_dev (chan s)" "s", OF conjI [OF works(3,4)]]) (rule that)
  let ?s1 = "s\<lparr>world := w1, chan := (chan s)\<lparr>ch_dev := True\<rparr>\<rparr>"
  obtain w2 where 2: "run_state (if \<not> ch_sem (chan s) then on_world (rt_sem_create E) else ret True) ?s1 =
      (True, ?s1\<lparr>world := w2\<rparr>)" "mem w2 = mem (world ?s1)"
    by (rule create_once [of "rt_sem_create E" mem "ch_sem (chan s)" "?s1", OF conjI [OF works(7,8)]]) (rule that)
  let ?s2 = "s\<lparr>world := w2, chan := (chan s)\<lparr>ch_dev := True, ch_sem := True\<rparr>\<rparr>"
  obtain w3 where 3: "run_state (if \<not> ch_lock (chan s) then on_world (rt_mutex_create E) else ret True) ?s2 =
      (True, ?s2\<lparr>world := w3\<rparr>)" "mem w3 = mem (world ?s2)"
    by (rule create_once [of "rt_mutex_create E" mem "ch_lock (chan s)" "?s2", OF conjI [OF works(9,10)]]) (rule that)
  have "run_state (can_channel_init E) s =
      (RT_EOK, s\<lparr>world := w3, chan := (chan s)\<lparr>ch_dev := True, ch_sem := True, ch_lock := True, ch_ops := True\<rparr>\<rparr>)"
    using 1 2 3 by (simp add: can_channel_init_def run_set_chan del: run_state_if)
  then show thesis using that 1(2) 2(2) 3(2) by simp
qed

lemma asserts_same [simp]: "s\<lparr>asserts := asserts s\<rparr> = s"
  by (cases s) simp

lemma can_channel_open_run:
  assumes "boot_works E mem"
  obtains w where "run_state (can_channel_open E (Some items)) s =
      (RT_EOK, s\<lparr>world := w, chan := (chan s)\<lparr>ch_indicate := True, ch_filter := items, ch_thread := True\<rparr>\<rparr>)"
    and "mem w = mem (world s)"
proof (cases "ch_thread (chan s)")
  case True
  let ?w = "snd (rt_can_set_baud E CAN20kBaud (snd (rt_device_open E (world s))))"
  from True have same: "(chan s)\<lparr>ch_indicate := True, ch_filter := items, ch_thread := True\<rparr> =
      (chan s)\<lparr>ch_indicate := True, ch_filter := items\<rparr>"
    by (cases "chan s") simp
  show thesis
    using that [of "snd (rt_can_set_filter E items ?w)"] True
      boot_worksD [OF assms]
    by (simp add: can_channel_open_def run_simps same)
next
  case False
  let ?w = "snd (rt_can_set_baud E CAN20kBaud (snd (rt_device_open E (world s))))"
  show thesis
    using that [of "snd (rt_thread_create E (snd (rt_can_set_filter E items ?w)))"] False
      boot_worksD [OF assms]
    by (simp add: can_channel_open_def run_simps)
qed

lemma protocol_init_run:
  assumes "lk_type (lk s) \<noteq> DEVICE_TYPE_MAX"
  shows "run_state protocol_init s =
    (RT_EOK, s\<lparr>proto_set := the (protocol_set_of (lk_type (lk s))), proto_ops := True\<rparr>)"
  using assms by (cases "lk_type (lk s)") (simp_all add: protocol_init_def protocol_set_of_def)

lemma lock_init_run:
  assumes "boot_works E mem" and "i = info_of_bytes (mem (world s))" and "device_of i \<noteq> DEVICE_TYPE_MAX"
  obtains w where "run_state (lock_init E) s =
      (RT_EOK, s\<lparr>cfg := i, lk := lock_info_of E i (lk s), world := w,
         chan := (chan s)\<lparr>ch_dev := True, ch_sem := True, ch_lock := True, ch_ops := True\<rparr>,
         proto_set := the (protocol_set_of (device_of i)), proto_ops := True\<rparr>)"
    and "mem w = mem (world s)"
proof -
  note works = boot_worksD [OF assms(1)]
  let ?s1 = "s\<lparr>cfg := i, lk := lock_info_of E i (lk s)\<rparr>"
  have 1: "run_state (lock_info_update E) s = ((), ?s1)"
    using assms(3) by (simp add: lock_info_update_works [OF works(1)] assms(2) ids_fault_def Let_def)
  obtain w1 where 2: "run_state (lock_pin_init E) ?s1 = ((), ?s1\<lparr>world := w1\<rparr>)" "mem w1 = mem (world ?s1)"
    using lock_pin_init_run [OF works(2)] by blast
  let ?s2 = "?s1\<lparr>world := w1\<rparr>"
  obtain w2 where 3: "run_state (can_channel_init E) ?s2 = (RT_EOK, ?s2\<lparr>world := w2,
      chan := (chan ?s2)\<lparr>ch_dev := True, ch_sem := True, ch_lock := True, ch_ops := True\<rparr>\<rparr>)"
    "mem w2 = mem (world ?s2)"
    by (rule can_channel_init_run [OF assms(1), of ?s2])
  show thesis
    using that [of w2] 1 2 3 assms(3)
    by (simp add: lock_init_def channel_init_def protocol_init_run lock_info_of_def DEFAULT_CHANNEL_TYPE_def)
qed

text \<open>The identifier of a filter item is the identifier of a message with that header.\<close>

lemma filter_id_header: "filter_id a net dev = tx_id [dev, net, a]"
proof -
  have "filter_id a net dev = ucast (take_sn [dev, net, a] 0)"
    by (simp add: filter_id_def take_sn_def ac_simps)
  also have "\<dots> = tx_id [dev, net, a]"
    unfolding take_sn_or tx_id_or by (rule bit_word_eqI) (auto simp: bit_simps)
  finally show ?thesis .
qed

text \<open>
  C33: when the EEPROM holds a type the firmware knows and every kernel object can be created, \<open>main\<close>
  brings the lock up in step with its EEPROM: identity and command table are those of the stored
  image, the receive indication of the CAN device and the receive and button callbacks are bound,
  no message was sent, no assertion failed and no memory was exceeded.
\<close>

theorem main_brings_up:
  assumes "boot_works E mem" and "i = info_of_bytes (mem (world s))" and "dev_type i \<noteq> 5"
  shows "let t = snd (run_state (main E) s)
    in store_ok E mem t \<and> cfg t = i \<and> running t \<and> ch_indicate (chan t) \<and> btn_bound t \<and>
       lk_addr (lk t) = addr i \<and> lk_sn (lk t) = ucast (sn i) \<and> lk_type (lk t) = device_of i \<and>
       net_id (lk t) = 0 \<and> Some (dev_id (lk t)) = get_device_id_by_lock_type (device_of i) \<and>
       proto_set t = the (protocol_set_of (device_of i)) \<and>
       map fst (ch_filter (chan t)) = [tx_id [0x03, 0, addr i], tx_id [0x19, 0, addr i]] \<and>
       sent t = sent s \<and> asserts t = asserts s \<and> ub t = ub s"
proof -
  note works = boot_worksD [OF assms(1)]
  have ty: "device_of i \<noteq> DEVICE_TYPE_MAX"
    using assms(3) by (auto simp: device_of_def lock_type_of_def split: if_splits)
      (unat_arith; simp)
  obtain w where 1: "run_state (lock_init E) s =
      (RT_EOK, s\<lparr>cfg := i, lk := lock_info_of E i (lk s), world := w,
         chan := (chan s)\<lparr>ch_dev := True, ch_sem := True, ch_lock := True, ch_ops := True\<rparr>,
         proto_set := the (protocol_set_of (device_of i)), proto_ops := True\<rparr>)" "mem w = mem (world s)"
    by (rule lock_init_run [OF assms(1,2) ty])
  let ?l = "(lock_info_of E i (lk s))\<lparr>lk_data := 20000\<rparr>"
  let ?s1 = "s\<lparr>cfg := i, lk := lock_info_of E i (lk s), world := w,
         chan := (chan s)\<lparr>ch_dev := True, ch_sem := True, ch_lock := True, ch_ops := True\<rparr>,
         proto_set := the (protocol_set_of (device_of i)), proto_ops := True, lk := ?l\<rparr>"
  obtain w1 where 2: "run_state (can_channel_open E (Some (filter_items E ?l))) ?s1 = (RT_EOK, ?s1\<lparr>world := w1,
      chan := (chan ?s1)\<lparr>ch_indicate := True, ch_filter := filter_items E ?l, ch_thread := True\<rparr>\<rparr>)" "mem w1 = mem (world ?s1)"
    by (rule can_channel_open_run [OF assms(1)])
  have items: "map fst (filter_items E ?l) = [tx_id [0x03, 0, addr i], tx_id [0x19, 0, addr i]]"
    by (simp add: filter_items_def lock_info_of_def DEFAULT_HARDWARE_TYPE_def filter_id_header Let_def)
  have id: "Some (dev_id (lock_info_of E i (lk s))) = get_device_id_by_lock_type (device_of i)"
    using ty device_id_None [of "device_of i"] by (auto simp: lock_info_of_def)
  have ub: "ub (s\<lparr>ub := b\<rparr>) = b" for b by simp
  have run: "snd (run_state (main E) s) = (snd (run_state (can_channel_open E (Some (filter_items E ?l))) ?s1))
      \<lparr>world := snd (rt_mutex_create E w1), btn_bound := True,
       chan := (chan (snd (run_state (can_channel_open E (Some (filter_items E ?l))) ?s1)))\<lparr>ch_rx_callback := True\<rparr>\<rparr>"
    using 1 2 by (simp add: main_def run_simps can_channel_set_rx_callbck_def bind_button_press_event_def)
  show ?thesis
    unfolding run 2(1) using 1(2) 2(2) works items id assms(2)
    by (simp add: Let_def store_ok_def running_def lock_info_of_def)
qed

section \<open>The button thread\<close>

text \<open>
  On an AVC switch the button thread sends one request frame, asking to engage when the relay
  shows open and to disengage when it shows closed, and then releases the mutex; on a lock of any
  other type it returns at once, with the mutex still taken.
\<close>

theorem button_thread_result:
  assumes "store_ok E mem s"
  shows "run_state (thread_btn_press E) s = ((),
    if lk_type (lk s) = AVC_SWITCH
    then let t = transmit E (reply 0x32 [addr (cfg s),
                   if rt_pin_read E PIN_AVC_RELAY_CHECK (world s) then 0x01 else 0x10]) s
         in t\<lparr>world := snd (btn_mutex_release E (world t))\<rparr>
    else s)"
proof -
  let ?q = "if rt_pin_read E PIN_AVC_RELAY_CHECK (world s) then 0x01 else (0x10 :: u8)"
  let ?buff = "(replicate 8 0)[3 := 0x03, 4 := 0x32, 5 := addr (cfg s), 6 := ?q]"
  have len: "length (seal [0, 0, 0, 0x03, 0x32, addr (cfg s), q]) = 8" for q
    by simp
  have "?buff[8 - 1 := crc8 ?buff (8 - 1)] = seal (take (8 - 1) ?buff)"
    by (rule seal_update) simp_all
  then have "?buff[7 := crc8 ?buff 7] = seal [0, 0, 0, 0x03, 0x32, addr (cfg s), ?q]"
    by (simp add: frame_simps)
  moreover have "run_state (can_channel_write E (seal [0, 0, 0, 0x03, 0x32, addr (cfg s), q]) 8) t =
      (fst (rt_device_write E (reply 0x32 [addr (cfg s), q]) (world t)), transmit E (reply 0x32 [addr (cfg s), q]) t)"
    for q t
    using can_write_run [of "seal [0, 0, 0, 0x03, 0x32, addr (cfg s), q]" E t] unfolding len
    by (simp add: transmit_def reply_def)
  ultimately show ?thesis
    by (simp add: thread_btn_press_def store_getters [OF assms] run_simps Let_def)
qed

end
