(* ===== verification/Flex_Button.thy ===== *)
theory Flex_Button
  imports Yk_Prelude
begin

text \<open>
  The button library \<^verbatim>\<open>packages/FlexibleButton-latest/flexible_button.c\<close>: the registered buttons,
  one scan of all of them, and the event machine each button runs through.
\<close>

section \<open>Data\<close>

datatype flex_button_event =
    FLEX_BTN_PRESS_DOWN | FLEX_BTN_PRESS_CLICK | FLEX_BTN_PRESS_DOUBLE_CLICK
  | FLEX_BTN_PRESS_REPEAT_CLICK | FLEX_BTN_PRESS_SHORT_START | FLEX_BTN_PRESS_SHORT_UP
  | FLEX_BTN_PRESS_LONG_START | FLEX_BTN_PRESS_LONG_UP | FLEX_BTN_PRESS_LONG_HOLD
  | FLEX_BTN_PRESS_LONG_HOLD_UP | FLEX_BTN_PRESS_MAX | FLEX_BTN_PRESS_NONE

datatype flex_stage = FLEX_BTN_STAGE_DEFAULT | FLEX_BTN_STAGE_DOWN | FLEX_BTN_STAGE_MULTIPLE_CLICK

definition FLEX_BTN_SCAN_FREQ_HZ :: nat where "FLEX_BTN_SCAN_FREQ_HZ = 50"

definition FLEX_MS_TO_SCAN_CNT :: "nat \<Rightarrow> nat" where
  "FLEX_MS_TO_SCAN_CNT ms = ms div (1000 div FLEX_BTN_SCAN_FREQ_HZ)"

definition MAX_MULTIPLE_CLICKS_INTERVAL :: u16 where
  "MAX_MULTIPLE_CLICKS_INTERVAL = of_nat (FLEX_MS_TO_SCAN_CNT 300)"

text \<open>
  A button; \<open>has_read\<close> and \<open>has_cb\<close> say that the two function pointers are set.  The link to the
  next button is the order of the list the buttons are kept in.
\<close>

record flex_button =
  has_read :: bool
  has_cb :: bool
  scan_cnt :: u16
  click_cnt :: u16
  max_multiple_clicks_interval :: u16
  short_press_start_tick :: u16
  long_press_start_tick :: u16
  long_hold_start_tick :: u16
  btn_id :: u8
  pressed_logic_level :: bool
  event :: flex_button_event
  status :: flex_stage

text \<open>
  The static data: the linked list from \<open>btn_head\<close> (each button with its address), the two bit
  registers, the number of buttons, and \<open>bad_shift\<close>, set where the code shifts a 32-bit value by 32
  places or more.
\<close>

record flex_state =
  btn_head :: "(nat \<times> flex_button) list"
  g_logic_level :: u32
  g_btn_status_reg :: u32
  button_cnt :: u8
  bad_shift :: bool

section \<open>Registering a button\<close>

definition flex_button_register :: "nat \<Rightarrow> flex_button \<Rightarrow> flex_state \<Rightarrow> int \<times> flex_state" where
  "flex_button_register p button s =
     (if p = 0 \<or> button_cnt s > 4 * 8 then (- 1, s)
      else if p \<in> fst ` set (btn_head s) then (- 1, s)
      else
        let button = button\<lparr>status := FLEX_BTN_STAGE_DEFAULT\<rparr>;
            button = button\<lparr>event := FLEX_BTN_PRESS_NONE\<rparr>;
            button = button\<lparr>scan_cnt := 0\<rparr>;
            button = button\<lparr>click_cnt := 0\<rparr>;
            button = button\<lparr>max_multiple_clicks_interval := MAX_MULTIPLE_CLICKS_INTERVAL\<rparr>;
            s = s\<lparr>btn_head := (p, button) # btn_head s\<rparr>;
            s = s\<lparr>bad_shift := bad_shift s \<or> button_cnt s \<ge> 32\<rparr>;
            s = s\<lparr>g_logic_level := g_logic_level s OR
                   push_bit (unat (button_cnt s)) (of_bool (pressed_logic_level button))\<rparr>;
            s = s\<lparr>button_cnt := button_cnt s + 1\<rparr>
        in (uint (button_cnt s), s))"

section \<open>Reading the levels\<close>

text \<open>\<open>rd\<close> is what the buttons' read functions return; the loop stops at the first missing one.\<close>

fun read_raw :: "(nat \<Rightarrow> u8) \<Rightarrow> (nat \<times> flex_button) list \<Rightarrow> u8 \<Rightarrow> u32 \<Rightarrow> u32" where
  "read_raw rd [] i raw = raw"
| "read_raw rd ((p, b) # rest) i raw =
     (if has_read b then read_raw rd rest (i - 1) (raw OR push_bit (unat i) (ucast (rd p))) else raw)"

definition flex_button_read :: "(nat \<Rightarrow> u8) \<Rightarrow> flex_state \<Rightarrow> flex_state" where
  "flex_button_read rd s =
     s\<lparr>g_btn_status_reg :=
        NOT (read_raw rd (btn_head s) (button_cnt s - 1) 0) XOR g_logic_level s\<rparr>"

section \<open>One button, one scan\<close>

text \<open>The event of \<open>n\<close> clicks: the code stores the number itself while it is below 3.\<close>

definition click_event :: "u16 \<Rightarrow> flex_button_event" where
  "click_event n =
     (if n < 3
      then if n = 0 then FLEX_BTN_PRESS_DOWN
           else if n = 1 then FLEX_BTN_PRESS_CLICK else FLEX_BTN_PRESS_DOUBLE_CLICK
      else FLEX_BTN_PRESS_REPEAT_CLICK)"

text \<open>\<open>EVENT_SET_AND_EXEC_CB\<close>: the button with the event, and the events passed to its callback.\<close>

definition EVENT_SET_AND_EXEC_CB :: "flex_button_event \<Rightarrow> flex_button \<Rightarrow> flex_button \<times> flex_button_event list" where
  "EVENT_SET_AND_EXEC_CB e b = (b\<lparr>event := e\<rparr>, if has_cb b then [e] else [])"

text \<open>The increment in front of the switch, with its wrap-around guard.\<close>

definition scan_tick :: "flex_button \<Rightarrow> flex_button" where
  "scan_tick b =
     (if status b \<noteq> FLEX_BTN_STAGE_DEFAULT
      then let b = b\<lparr>scan_cnt := scan_cnt b + 1\<rparr>
           in if scan_cnt b \<ge> 0xFFFF then b\<lparr>scan_cnt := long_hold_start_tick b\<rparr> else b
      else b)"

fun stage_step :: "flex_stage \<Rightarrow> bool \<Rightarrow> flex_button \<Rightarrow> flex_button \<times> flex_button_event list" where
  "stage_step FLEX_BTN_STAGE_DEFAULT pressed b =
     (if pressed then
        let (b, es) = EVENT_SET_AND_EXEC_CB FLEX_BTN_PRESS_DOWN (b\<lparr>scan_cnt := 0, click_cnt := 0\<rparr>)
        in (b\<lparr>status := FLEX_BTN_STAGE_DOWN\<rparr>, es)
      else (b\<lparr>event := FLEX_BTN_PRESS_NONE\<rparr>, []))"
| "stage_step FLEX_BTN_STAGE_DOWN pressed b =
     (if pressed then
        (if click_cnt b > 0 then
           (if scan_cnt b > max_multiple_clicks_interval b then
              let (b, es) = EVENT_SET_AND_EXEC_CB (click_event (click_cnt b)) b
              in (b\<lparr>status := FLEX_BTN_STAGE_DOWN, scan_cnt := 0, click_cnt := 0\<rparr>, es)
            else (b, []))
         else if scan_cnt b \<ge> long_hold_start_tick b then
           (if event b \<noteq> FLEX_BTN_PRESS_LONG_HOLD then EVENT_SET_AND_EXEC_CB FLEX_BTN_PRESS_LONG_HOLD b
            else (b, []))
         else if scan_cnt b \<ge> long_press_start_tick b then
           (if event b \<noteq> FLEX_BTN_PRESS_LONG_START then EVENT_SET_AND_EXEC_CB FLEX_BTN_PRESS_LONG_START b
            else (b, []))
         else if scan_cnt b \<ge> short_press_start_tick b then
           (if event b \<noteq> FLEX_BTN_PRESS_SHORT_START then EVENT_SET_AND_EXEC_CB FLEX_BTN_PRESS_SHORT_START b
            else (b, []))
         else (b, []))
      else
        (if scan_cnt b \<ge> long_hold_start_tick b then
           let (b, es) = EVENT_SET_AND_EXEC_CB FLEX_BTN_PRESS_LONG_HOLD_UP b
           in (b\<lparr>status := FLEX_BTN_STAGE_DEFAULT\<rparr>, es)
         else if scan_cnt b \<ge> long_press_start_tick b then
           let (b, es) = EVENT_SET_AND_EXEC_CB FLEX_BTN_PRESS_LONG_UP b
           in (b\<lparr>status := FLEX_BTN_STAGE_DEFAULT\<rparr>, es)
         else if scan_cnt b \<ge> short_press_start_tick b then
           let (b, es) = EVENT_SET_AND_EXEC_CB FLEX_BTN_PRESS_SHORT_UP b
           in (b\<lparr>status := FLEX_BTN_STAGE_DEFAULT\<rparr>, es)
         else (b\<lparr>status := FLEX_BTN_STAGE_MULTIPLE_CLICK, click_cnt := click_cnt b + 1\<rparr>, [])))"
| "stage_step FLEX_BTN_STAGE_MULTIPLE_CLICK pressed b =
     (if pressed then (b\<lparr>status := FLEX_BTN_STAGE_DOWN, scan_cnt := 0\<rparr>, [])
      else if scan_cnt b > max_multiple_clicks_interval b then
        let (b, es) = EVENT_SET_AND_EXEC_CB (click_event (click_cnt b)) b
        in (b\<lparr>status := FLEX_BTN_STAGE_DEFAULT\<rparr>, es)
      else (b, []))"

definition button_step :: "bool \<Rightarrow> flex_button \<Rightarrow> flex_button \<times> flex_button_event list" where
  "button_step pressed b = (let b = scan_tick b in stage_step (status b) pressed b)"

section \<open>One scan of all buttons\<close>

text \<open>
  The loop over the list; \<open>i\<close> is the bit of the button in the status register.  The result has the
  events with the address of their button, and the number of active buttons.
\<close>

fun process_list ::
  "u32 \<Rightarrow> (nat \<times> flex_button) list \<Rightarrow> u8 \<Rightarrow> u8 \<Rightarrow>
     (nat \<times> flex_button) list \<times> (nat \<times> flex_button_event) list \<times> u8" where
  "process_list reg [] i active = ([], [], active)"
| "process_list reg ((p, b) # rest) i active =
     (let (b', es) = button_step (bit reg (unat i)) b;
          active = (if status b' \<noteq> FLEX_BTN_STAGE_DEFAULT then active + 1 else active);
          (rest', es', n) = process_list reg rest (i - 1) active
      in ((p, b') # rest', map (\<lambda>e. (p, e)) es @ es', n))"

definition flex_button_process :: "flex_state \<Rightarrow> flex_state \<times> (nat \<times> flex_button_event) list \<times> u8" where
  "flex_button_process s =
     (let (bs, es, n) = process_list (g_btn_status_reg s) (btn_head s) (button_cnt s - 1) 0
      in (s\<lparr>btn_head := bs\<rparr>, es, n))"

definition flex_button_event_read :: "flex_button \<Rightarrow> flex_button_event" where
  "flex_button_event_read b = event b"

definition flex_button_scan :: "(nat \<Rightarrow> u8) \<Rightarrow> flex_state \<Rightarrow> flex_state \<times> (nat \<times> flex_button_event) list \<times> u8" where
  "flex_button_scan rd s = flex_button_process (flex_button_read rd s)"

section \<open>The gestures of one button\<close>

fun run_button :: "flex_button \<Rightarrow> bool list \<Rightarrow> flex_button \<times> flex_button_event list" where
  "run_button b [] = (b, [])"
| "run_button b (x # xs) =
     (let (b1, es1) = button_step x b; (b2, es2) = run_button b1 xs in (b2, es1 @ es2))"

lemma run_button_append:
  "run_button b (xs @ ys) =
     (let (b1, es1) = run_button b xs; (b2, es2) = run_button b1 ys in (b2, es1 @ es2))"
  by (induction xs arbitrary: b) (auto simp: Let_def split: prod.split)

text \<open>
  A button with the settings of the application (\<open>user_button_init\<close> in button.c) and a callback.
\<close>

definition app_button :: "flex_button \<Rightarrow> bool" where
  "app_button b \<longleftrightarrow> has_cb b \<and> short_press_start_tick b = 75 \<and> long_press_start_tick b = 150 \<and>
     long_hold_start_tick b = 225 \<and> max_multiple_clicks_interval b = 15"

lemma unat_u16_Suc: "unat (x :: u16) < 65535 \<Longrightarrow> unat (x + 1) = Suc (unat x)"
  by (simp add: unat_word_ariths)

lemmas button_simps = button_step_def scan_tick_def EVENT_SET_AND_EXEC_CB_def app_button_def
  word_le_nat_alt word_less_nat_alt unat_u16_Suc Let_def

text \<open>The state of a button that has been pressed for \<open>n\<close> scans after the first.\<close>

definition held_event :: "nat \<Rightarrow> flex_button_event" where
  "held_event n =
     (if 225 \<le> n then FLEX_BTN_PRESS_LONG_HOLD else if 150 \<le> n then FLEX_BTN_PRESS_LONG_START
      else if 75 \<le> n then FLEX_BTN_PRESS_SHORT_START else FLEX_BTN_PRESS_DOWN)"

definition held :: "nat \<Rightarrow> flex_button \<Rightarrow> bool" where
  "held n b \<longleftrightarrow> app_button b \<and> status b = FLEX_BTN_STAGE_DOWN \<and> click_cnt b = 0 \<and> event b = held_event n \<and>
     (if n < 225 then unat (scan_cnt b) = n else 225 \<le> unat (scan_cnt b) \<and> unat (scan_cnt b) < 65535)"

lemma press_first:
  assumes "app_button b" and "status b = FLEX_BTN_STAGE_DEFAULT"
  shows "held 0 (fst (button_step True b))" and "snd (button_step True b) = [FLEX_BTN_PRESS_DOWN]"
  using assms by (simp_all add: button_simps held_def held_event_def)

lemma press_more:
  assumes "held n b"
  shows "held (Suc n) (fst (button_step True b))"
    and "snd (button_step True b) = (if Suc n \<in> {75, 150, 225} then [held_event (Suc n)] else [])"
proof -
  have bound: "unat (scan_cnt b) < 65535" using assms by (auto simp: held_def split: if_splits)
  show "held (Suc n) (fst (button_step True b))"
    using assms bound by (auto simp: button_simps held_def held_event_def split: if_splits)
  show "snd (button_step True b) = (if Suc n \<in> {75, 150, 225} then [held_event (Suc n)] else [])"
    using assms bound by (auto simp: button_simps held_def held_event_def split: if_splits)
qed

text \<open>The events of holding the button for \<open>n\<close> scans after the first.\<close>

definition held_events :: "nat \<Rightarrow> flex_button_event list" where
  "held_events n = FLEX_BTN_PRESS_DOWN # (if 75 \<le> n then [FLEX_BTN_PRESS_SHORT_START] else []) @
     (if 150 \<le> n then [FLEX_BTN_PRESS_LONG_START] else []) @
     (if 225 \<le> n then [FLEX_BTN_PRESS_LONG_HOLD] else [])"

lemma held_events_Suc:
  "held_events (Suc n) = held_events n @ (if Suc n \<in> {75, 150, 225} then [held_event (Suc n)] else [])"
  by (auto simp: held_events_def held_event_def)

lemma press_run:
  assumes "app_button b" and "status b = FLEX_BTN_STAGE_DEFAULT"
  shows "held n (fst (run_button b (replicate (Suc n) True))) \<and>
    snd (run_button b (replicate (Suc n) True)) = held_events n"
proof (induction n)
  case 0
  show ?case
    using press_first [OF assms] by (simp add: held_events_def Let_def split: prod.split)
next
  case (Suc n)
  have "replicate (Suc (Suc n)) True = replicate (Suc n) True @ [True]"
    by (simp add: replicate_append_same)
  then show ?case
    using Suc press_more [of n "fst (run_button b (replicate (Suc n) True))"]
    by (simp add: run_button_append held_events_Suc Let_def case_prod_beta del: replicate_Suc)
qed

text \<open>Letting go.  The counter is advanced before the release is seen, so the limits are met one scan early.\<close>

definition release_events :: "nat \<Rightarrow> flex_button_event list" where
  "release_events n =
     (if 225 \<le> Suc n then [FLEX_BTN_PRESS_LONG_HOLD_UP] else if 150 \<le> Suc n then [FLEX_BTN_PRESS_LONG_UP]
      else if 75 \<le> Suc n then [FLEX_BTN_PRESS_SHORT_UP] else [])"

definition clicked :: "nat \<Rightarrow> flex_button \<Rightarrow> bool" where
  "clicked n b \<longleftrightarrow> app_button b \<and> status b = FLEX_BTN_STAGE_MULTIPLE_CLICK \<and> click_cnt b = 1 \<and>
     unat (scan_cnt b) = n"

lemma release_step:
  assumes "held n b"
  shows "snd (button_step False b) = release_events n"
    and "if 74 \<le> n then app_button (fst (button_step False b)) \<and>
           status (fst (button_step False b)) = FLEX_BTN_STAGE_DEFAULT
         else clicked (Suc n) (fst (button_step False b))"
proof -
  have bound: "unat (scan_cnt b) < 65535" using assms by (auto simp: held_def split: if_splits)
  show "snd (button_step False b) = release_events n"
    using assms bound by (auto simp: button_simps held_def release_events_def split: if_splits)
  show "if 74 \<le> n then app_button (fst (button_step False b)) \<and>
           status (fst (button_step False b)) = FLEX_BTN_STAGE_DEFAULT
         else clicked (Suc n) (fst (button_step False b))"
    using assms bound by (auto simp: button_simps held_def clicked_def split: if_splits)
qed

lemma clicked_step:
  assumes "clicked n b" and "n < 80"
  shows "if 15 \<le> n then snd (button_step False b) = [FLEX_BTN_PRESS_CLICK] \<and>
           app_button (fst (button_step False b)) \<and> status (fst (button_step False b)) = FLEX_BTN_STAGE_DEFAULT
         else snd (button_step False b) = [] \<and> clicked (Suc n) (fst (button_step False b))"
  using assms by (auto simp: button_simps clicked_def click_event_def)

lemma idle_step:
  assumes "app_button b" and "status b = FLEX_BTN_STAGE_DEFAULT"
  shows "snd (button_step False b) = []" and "app_button (fst (button_step False b))"
    and "status (fst (button_step False b)) = FLEX_BTN_STAGE_DEFAULT"
  using assms by (simp_all add: button_simps)

lemma idle_run:
  assumes "app_button b" and "status b = FLEX_BTN_STAGE_DEFAULT"
  shows "snd (run_button b (replicate k False)) = [] \<and>
    app_button (fst (run_button b (replicate k False))) \<and>
    status (fst (run_button b (replicate k False))) = FLEX_BTN_STAGE_DEFAULT"
  using assms
proof (induction k arbitrary: b)
  case (Suc k)
  then show ?case using idle_step [OF Suc.prems] Suc.IH [of "fst (button_step False b)"]
    by (simp add: Let_def case_prod_beta)
qed simp

lemma clicked_run:
  assumes "clicked n b" and "n < 80" and "16 \<le> n + k" and "0 < k"
  shows "snd (run_button b (replicate k False)) = [FLEX_BTN_PRESS_CLICK] \<and>
    status (fst (run_button b (replicate k False))) = FLEX_BTN_STAGE_DEFAULT"
  using assms
proof (induction k arbitrary: n b)
  case (Suc k)
  note step = clicked_step [OF Suc.prems(1,2)]
  show ?case
  proof (cases "15 \<le> n")
    case True
    then show ?thesis
      using step idle_run [of "fst (button_step False b)" k] by (simp add: Let_def case_prod_beta)
  next
    case False
    then have "clicked (Suc n) (fst (button_step False b))" and "0 < k"
      using step Suc.prems by simp_all
    then show ?thesis
      using False step Suc.prems Suc.IH [of "Suc n" "fst (button_step False b)"]
      by (simp add: Let_def case_prod_beta)
  qed
qed simp

text \<open>
  C36: with the application's settings, a button at rest that is held for any number of scans and
  then left alone for seventeen gives exactly one classified gesture: the press, the start of each
  longer stage reached, and one ending event (click, short, long or hold release), after which it is
  at rest again.  The ending limits are met one scan before the starting ones.
\<close>

theorem press_and_release_gesture:
  assumes "app_button b" and "status b = FLEX_BTN_STAGE_DEFAULT" and "17 \<le> k"
  shows "snd (run_button b (replicate (Suc n) True @ replicate k False)) =
      held_events n @ (if n < 74 then [FLEX_BTN_PRESS_CLICK] else release_events n) \<and>
    status (fst (run_button b (replicate (Suc n) True @ replicate k False))) = FLEX_BTN_STAGE_DEFAULT"
proof -
  let ?b = "fst (run_button b (replicate (Suc n) True))"
  from assms(3) obtain j where k: "k = Suc j" and j: "16 \<le> j" by (cases k) auto
  have press: "held n ?b" "snd (run_button b (replicate (Suc n) True)) = held_events n"
    using press_run [OF assms(1,2)] by auto
  note release = release_step [OF press(1)]
  let ?c = "fst (button_step False ?b)"
  have "snd (run_button ?b (replicate k False)) = (if n < 74 then [FLEX_BTN_PRESS_CLICK] else release_events n) \<and>
      status (fst (run_button ?b (replicate k False))) = FLEX_BTN_STAGE_DEFAULT"
  proof (cases "n < 74")
    case True
    then have "clicked (Suc n) ?c" and "release_events n = []" using release by (simp_all add: release_events_def)
    then show ?thesis
      using True clicked_run [of "Suc n" ?c j] release(1) j by (simp add: k Let_def case_prod_beta)
  next
    case False
    then show ?thesis
      using idle_run [of ?c j] release by (simp add: k Let_def case_prod_beta)
  qed
  then show ?thesis
    using press(2) by (simp add: run_button_append Let_def case_prod_beta del: replicate_Suc)
qed

section \<open>A scan steps every button on its own level\<close>

text \<open>
  What the registers and the list are to each other while at most 32 buttons are registered: the
  button at position \<open>j\<close> of the list has bit \<open>length - 1 - j\<close>.
\<close>

definition flex_wf :: "flex_state \<Rightarrow> bool" where
  "flex_wf s \<longleftrightarrow> unat (button_cnt s) = length (btn_head s) \<and> length (btn_head s) \<le> 32 \<and>
     distinct (map fst (btn_head s)) \<and> list_all (\<lambda>(p, b). has_read b) (btn_head s) \<and>
     (\<forall>j < length (btn_head s).
        bit (g_logic_level s) (length (btn_head s) - 1 - j) = pressed_logic_level (snd (btn_head s ! j))) \<and>
     (\<forall>k. length (btn_head s) \<le> k \<longrightarrow> \<not> bit (g_logic_level s) k) \<and> \<not> bad_shift s"

lemma unat_u8_minus_1: "0 < unat (i :: u8) \<Longrightarrow> unat (i - 1) = unat i - 1"
  by (simp add: unat_minus_one word_gt_0 unat_gt_0)

lemma process_list_Cons:
  "\<exists>a'. fst (process_list reg ((p, b) # rest) i a) =
      (p, fst (button_step (bit reg (unat i)) b)) # fst (process_list reg rest (i - 1) a') \<and>
    fst (snd (process_list reg ((p, b) # rest) i a)) =
      map (Pair p) (snd (button_step (bit reg (unat i)) b)) @ fst (snd (process_list reg rest (i - 1) a'))"
  by (intro exI [of _ "if status (fst (button_step (bit reg (unat i)) b)) \<noteq> FLEX_BTN_STAGE_DEFAULT then a + 1 else a"])
     (simp add: Let_def case_prod_beta)

declare process_list.simps(2) [simp del]

lemma process_list_nth:
  "j < length bs \<Longrightarrow> length bs \<le> Suc (unat i) \<Longrightarrow>
   fst (process_list reg bs i a) ! j =
     (fst (bs ! j), fst (button_step (bit reg (unat i - j)) (snd (bs ! j))))"
proof (induction bs arbitrary: i a j)
  case (Cons pb rest)
  obtain p b where pb: "pb = (p, b)" by fastforce
  obtain a' where eq: "fst (process_list reg ((p, b) # rest) i a) =
      (p, fst (button_step (bit reg (unat i)) b)) # fst (process_list reg rest (i - 1) a')"
    using process_list_Cons by blast
  show ?case
  proof (cases j)
    case (Suc j')
    then have "j' < length rest" and "0 < unat i" using Cons.prems by auto
    then show ?thesis
      using Cons.prems Cons.IH [of j' "i - 1" a'] Suc by (simp add: pb eq unat_u8_minus_1)
  qed (simp add: pb eq)
qed simp

lemma process_list_length: "length (fst (process_list reg bs i a)) = length bs"
proof (induction bs arbitrary: i a)
  case (Cons pb rest)
  obtain p b where pb: "pb = (p, b)" by fastforce
  obtain a' where "fst (process_list reg ((p, b) # rest) i a) =
      (p, fst (button_step (bit reg (unat i)) b)) # fst (process_list reg rest (i - 1) a')"
    using process_list_Cons by blast
  then show ?case using Cons.IH [of "i - 1" a'] by (simp add: pb)
qed simp

lemma process_list_events:
  "length bs \<le> Suc (unat i) \<Longrightarrow>
   fst (snd (process_list reg bs i a)) =
     concat (map (\<lambda>j. map (Pair (fst (bs ! j))) (snd (button_step (bit reg (unat i - j)) (snd (bs ! j)))))
       [0..<length bs])"
proof (induction bs arbitrary: i a)
  case (Cons pb rest)
  obtain p b where pb: "pb = (p, b)" by fastforce
  have upt: "[0..<length (pb # rest)] = 0 # map Suc [0..<length rest]"
    by (simp add: map_Suc_upt upt_conv_Cons del: upt_Suc)
  obtain a' where eq: "fst (snd (process_list reg ((p, b) # rest) i a)) =
      map (Pair p) (snd (button_step (bit reg (unat i)) b)) @ fst (snd (process_list reg rest (i - 1) a'))"
    using process_list_Cons by blast
  show ?case
  proof (cases "rest = []")
    case True
    then show ?thesis using eq by (simp add: pb)
  next
    case False
    then have "0 < unat i" using Cons.prems by (cases rest) auto
    then show ?thesis
      using Cons.prems Cons.IH [of "i - 1" a'] unfolding upt by (simp add: pb eq unat_u8_minus_1 o_def)
  qed
qed simp

lemma button_step_keeps:
  "has_read (fst (button_step x b)) = has_read b"
  "pressed_logic_level (fst (button_step x b)) = pressed_logic_level b"
proof -
  have stage: "has_read (fst (stage_step st x c)) = has_read c \<and>
      pressed_logic_level (fst (stage_step st x c)) = pressed_logic_level c" for st c
    by (cases st) (auto simp: EVENT_SET_AND_EXEC_CB_def Let_def)
  show "has_read (fst (button_step x b)) = has_read b"
    "pressed_logic_level (fst (button_step x b)) = pressed_logic_level b"
    using stage by (simp_all add: button_step_def scan_tick_def Let_def)
qed

lemma read_raw_bit:
  assumes rd: "\<And>p. rd p \<in> {0, 1}" and "list_all (\<lambda>(p, b). has_read b) bs"
    and "length bs \<le> Suc (unat i)" and "unat i < 32"
  shows "bit (read_raw rd bs i raw) n \<longleftrightarrow>
    bit raw n \<or> (\<exists>j < length bs. n = unat i - j \<and> rd (fst (bs ! j)) = 1)"
  using assms(2-)
proof (induction bs arbitrary: i raw)
  case (Cons pb rest)
  obtain p b where pb: "pb = (p, b)" by fastforce
  have bit_p: "bit (push_bit (unat i) (ucast (rd p)) :: u32) n \<longleftrightarrow> n = unat i \<and> rd p = 1"
  proof (cases "rd p = 1")
    case True
    then show ?thesis using Cons.prems(3) by (auto simp: bit_exp_iff)
  next
    case False
    then have "rd p = 0" using rd [of p] by auto
    then show ?thesis by simp
  qed
  have split: "(\<exists>j < Suc (length rest). n = unat i - j \<and> rd (fst ((pb # rest) ! j)) = 1) \<longleftrightarrow>
      n = unat i \<and> rd p = 1 \<or> (\<exists>j < length rest. n = unat i - Suc j \<and> rd (fst (rest ! j)) = 1)"
    by (auto simp: less_Suc_eq_0_disj pb)
  have read: "read_raw rd (pb # rest) i raw = read_raw rd rest (i - 1) (raw OR push_bit (unat i) (ucast (rd p)))"
    using Cons.prems(1) by (simp add: pb)
  show ?case
  proof (cases "rest = []")
    case True
    then show ?thesis using bit_p split read by (simp add: bit_or_iff)
  next
    case False
    then have "0 < unat i" using Cons.prems(2) by (cases rest) auto
    moreover from this have "bit (read_raw rd rest (i - 1) (raw OR push_bit (unat i) (ucast (rd p)))) n \<longleftrightarrow>
        bit (raw OR push_bit (unat i) (ucast (rd p)) :: u32) n \<or>
        (\<exists>j < length rest. n = unat i - 1 - j \<and> rd (fst (rest ! j)) = 1)"
      using Cons.prems Cons.IH [of "i - 1"] by (simp add: unat_u8_minus_1)
    ultimately show ?thesis
      using bit_p split by (simp add: read bit_or_iff disj_assoc)
  qed
qed simp

lemma scan_pressed:
  assumes "flex_wf s" and "\<And>p. rd p \<in> {0, 1}" and "j < length (btn_head s)"
  shows "bit (g_btn_status_reg (flex_button_read rd s)) (unat (button_cnt s - 1) - j) =
    ((rd (fst (btn_head s ! j)) = 1) = pressed_logic_level (snd (btn_head s ! j)))"
proof -
  let ?n = "length (btn_head s)"
  have n: "?n = unat (button_cnt s)" "?n \<le> 32" and pos: "0 < unat (button_cnt s)"
    and reads: "list_all (\<lambda>(p, b). has_read b) (btn_head s)"
    using assms(1,3) by (auto simp: flex_wf_def)
  have i: "unat (button_cnt s - 1) = ?n - 1"
    using unat_u8_minus_1 [OF pos] n by simp
  have raw: "bit (read_raw rd (btn_head s) (button_cnt s - 1) 0) (?n - 1 - j) \<longleftrightarrow>
      rd (fst (btn_head s ! j)) = 1"
  proof -
    have "bit (read_raw rd (btn_head s) (button_cnt s - 1) 0) (?n - 1 - j) \<longleftrightarrow>
        (\<exists>k < ?n. ?n - 1 - j = ?n - 1 - k \<and> rd (fst (btn_head s ! k)) = 1)"
      using read_raw_bit [OF assms(2) reads, where i = "button_cnt s - 1" and raw = 0 and n = "?n - 1 - j"] i n assms(3) by simp
    also have "\<dots> \<longleftrightarrow> rd (fst (btn_head s ! j)) = 1"
    proof
      assume "\<exists>k < ?n. ?n - 1 - j = ?n - 1 - k \<and> rd (fst (btn_head s ! k)) = 1"
      then obtain k where k: "k < ?n" "?n - 1 - j = ?n - 1 - k" "rd (fst (btn_head s ! k)) = 1" by blast
      then have "k = j" using assms(3) by linarith
      then show "rd (fst (btn_head s ! j)) = 1" using k by simp
    qed (use assms(3) in blast)
    finally show ?thesis .
  qed
  have level: "bit (g_logic_level s) (?n - 1 - j) = pressed_logic_level (snd (btn_head s ! j))"
    using assms(1,3) by (simp add: flex_wf_def)
  have "?n - 1 - j < 32" using n assms(3) by simp
  then show ?thesis
    using raw level by (auto simp: flex_button_read_def bit_xor_iff bit_not_iff i)
qed

lemma flex_wf_step:
  assumes "flex_wf s" and "length bs = length (btn_head s)"
    and "\<And>j. j < length bs \<Longrightarrow> fst (bs ! j) = fst (btn_head s ! j) \<and>
      has_read (snd (bs ! j)) = has_read (snd (btn_head s ! j)) \<and>
      pressed_logic_level (snd (bs ! j)) = pressed_logic_level (snd (btn_head s ! j))"
  shows "flex_wf (s\<lparr>g_btn_status_reg := r, btn_head := bs\<rparr>)"
proof -
  have "map fst bs = map fst (btn_head s)"
    using assms(2,3) by (intro nth_equalityI) simp_all
  moreover have "list_all (\<lambda>(p, b). has_read b) bs"
    using assms by (auto simp: flex_wf_def list_all_length case_prod_beta)
  ultimately show ?thesis using assms by (simp add: flex_wf_def)
qed

lemma scan_steps_all:
  assumes "flex_wf s" and "\<And>p. rd p \<in> {0, 1}"
  defines "now b p \<equiv> ((rd p = 1) = pressed_logic_level b)"
  shows "btn_head (fst (flex_button_scan rd s)) =
      map (\<lambda>(p, b). (p, fst (button_step (now b p) b))) (btn_head s) \<and>
    fst (snd (flex_button_scan rd s)) =
      concat (map (\<lambda>(p, b). map (Pair p) (snd (button_step (now b p) b))) (btn_head s)) \<and>
    flex_wf (fst (flex_button_scan rd s))"
proof -
  let ?bs = "btn_head s" and ?reg = "g_btn_status_reg (flex_button_read rd s)" and ?i = "button_cnt s - 1"
  have fits: "length ?bs \<le> Suc (unat ?i)"
    using assms(1) unat_u8_minus_1 [of "button_cnt s"] by (cases "btn_head s = []") (auto simp: flex_wf_def)
  have pressed: "bit ?reg (unat ?i - j) = now (snd (?bs ! j)) (fst (?bs ! j))" if "j < length ?bs" for j
    using scan_pressed [OF assms(1,2) that] by (simp add: now_def)
  have read: "btn_head (flex_button_read rd s) = ?bs" "button_cnt (flex_button_read rd s) = button_cnt s"
    by (simp_all add: flex_button_read_def)
  have scan: "fst (flex_button_scan rd s) = (flex_button_read rd s)\<lparr>btn_head := fst (process_list ?reg ?bs ?i 0)\<rparr>"
    "fst (snd (flex_button_scan rd s)) = fst (snd (process_list ?reg ?bs ?i 0))"
    by (simp_all add: flex_button_scan_def flex_button_process_def read case_prod_beta Let_def)
  have heads: "fst (process_list ?reg ?bs ?i 0) = map (\<lambda>(p, b). (p, fst (button_step (now b p) b))) ?bs"
    by (rule nth_equalityI)
       (simp_all add: process_list_length process_list_nth [OF _ fits] pressed case_prod_beta)
  have "fst (snd (process_list ?reg ?bs ?i 0)) =
      concat (map (\<lambda>j. (\<lambda>(p, b). map (Pair p) (snd (button_step (now b p) b))) (?bs ! j)) [0..<length ?bs])"
    unfolding process_list_events [OF fits]
    by (intro arg_cong [of _ _ concat] map_cong refl) (simp add: pressed case_prod_beta)
  also have "\<dots> = concat (map (\<lambda>(p, b). map (Pair p) (snd (button_step (now b p) b))) ?bs)"
    by (rule arg_cong [of _ _ concat], rule nth_equalityI) simp_all
  finally have events: "fst (snd (process_list ?reg ?bs ?i 0)) = \<dots>" .
  have "flex_wf (s\<lparr>g_btn_status_reg := ?reg, btn_head := map (\<lambda>(p, b). (p, fst (button_step (now b p) b))) ?bs\<rparr>)"
    by (rule flex_wf_step [OF assms(1)]) (simp_all add: case_prod_beta button_step_keeps)
  then have "flex_wf (fst (flex_button_scan rd s))"
    by (simp add: scan heads) (simp add: flex_button_read_def)
  then show ?thesis by (simp add: scan heads events)
qed

section \<open>Registration\<close>

lemma bit_of_bool_u32: "k < 32 \<Longrightarrow> bit (push_bit k (of_bool x) :: u32) n \<longleftrightarrow> x \<and> n = k"
  by (cases x) (auto simp: bit_exp_iff)

lemma register_wf:
  assumes "flex_wf s" and "length (btn_head s) < 32" and "p \<noteq> 0" and "p \<notin> fst ` set (btn_head s)"
    and "has_read b"
  shows "flex_wf (snd (flex_button_register p b s))"
    and "fst (flex_button_register p b s) = int (length (btn_head s)) + 1"
proof -
  let ?n = "length (btn_head s)"
  have cnt: "unat (button_cnt s) = ?n" using assms(1) by (simp add: flex_wf_def)
  have cnt1: "unat (button_cnt s + 1) = Suc ?n"
    using assms(2) cnt by (simp add: unat_word_ariths)
  have guards: "\<not> button_cnt s > 32" "\<not> button_cnt s \<ge> 32"
    using assms(2) cnt by (simp_all add: word_less_nat_alt word_le_nat_alt)
  note reg = flex_button_register_def Let_def
  show "fst (flex_button_register p b s) = int ?n + 1"
  proof -
    have "int (unat (button_cnt s + 1)) = int (Suc ?n)" by (simp only: cnt1)
    then have "uint (button_cnt s + 1) = int ?n + 1" by simp
    then show ?thesis using assms guards by (simp add: reg)
  qed
  let ?b = "b\<lparr>scan_cnt := 0, click_cnt := 0, max_multiple_clicks_interval := MAX_MULTIPLE_CLICKS_INTERVAL,
    event := FLEX_BTN_PRESS_NONE, status := FLEX_BTN_STAGE_DEFAULT\<rparr>"
  let ?g = "g_logic_level s OR push_bit ?n (of_bool (pressed_logic_level b))"
  have bit_g: "bit ?g k \<longleftrightarrow> bit (g_logic_level s) k \<or> pressed_logic_level b \<and> k = ?n" for k
    using assms(2) by (simp add: bit_or_iff bit_of_bool_u32)
  have old: "\<not> bit (g_logic_level s) k" if "?n \<le> k" for k
    using assms(1) that by (simp add: flex_wf_def)
  have new: "\<not> bit ?g k" if "Suc ?n \<le> k" for k
    using bit_g old that by simp
  have levels: "bit ?g (Suc ?n - 1 - j) = pressed_logic_level (snd (((p, ?b) # btn_head s) ! j))"
    if j: "j < Suc ?n" for j
  proof (cases j)
    case 0
    then show ?thesis using bit_g [of ?n] old [of ?n] by simp
  next
    case (Suc k)
    then have k: "k < ?n" using j by simp
    then have "?n - 1 - k \<noteq> ?n" by simp
    then show ?thesis
      using bit_g [of "?n - 1 - k"] assms(1) k Suc by (simp add: flex_wf_def)
  qed
  have "snd (flex_button_register p b s) = s\<lparr>btn_head := (p, ?b) # btn_head s, g_logic_level := ?g,
      button_cnt := button_cnt s + 1\<rparr>"
    using assms guards cnt by (simp add: reg)
  then show "flex_wf (snd (flex_button_register p b s))"
    using assms cnt1 levels new by (simp add: flex_wf_def)
qed

text \<open>A client that registers at most 32 buttons, each once and with a read function, and scans.\<close>

datatype flex_call = Register nat flex_button | Scan "nat \<Rightarrow> bool"

fun client_step :: "flex_state \<Rightarrow> flex_call \<Rightarrow> flex_state" where
  "client_step s (Register p b) =
     (if length (btn_head s) < 32 \<and> p \<noteq> 0 \<and> p \<notin> fst ` set (btn_head s) \<and> has_read b
      then snd (flex_button_register p b s) else s)"
| "client_step s (Scan rd) = fst (flex_button_scan (\<lambda>p. of_bool (rd p)) s)"

definition flex_init :: flex_state where
  "flex_init = \<lparr>btn_head = [], g_logic_level = 0, g_btn_status_reg = 0, button_cnt = 0, bad_shift = False\<rparr>"

lemma flex_init_wf: "flex_wf flex_init"
  by (simp add: flex_wf_def flex_init_def)

interpretation buttons: step_machine client_step flex_wf
proof
  fix s e
  assume s: "flex_wf s"
  show "flex_wf (client_step s e)"
  proof (cases e)
    case (Register p b)
    then show ?thesis using register_wf(1) [OF s] s by simp
  next
    case (Scan rd)
    then show ?thesis using scan_steps_all [OF s, of "\<lambda>p. of_bool (rd p)"] by simp
  qed
qed

text \<open>
  C35: as long as at most 32 buttons are registered and their read functions return 0 or 1, one scan
  moves every button by one step of its own event machine, taking it as pressed exactly when the
  level read for it is its pressed level, whatever the other buttons do; the callbacks run in list
  order, and the registers keep their shape.
\<close>

theorem scan_steps_each_button:
  assumes "flex_wf s" and "\<And>p. rd p \<in> {0, 1}"
  shows "let now = (\<lambda>p b. (rd p = 1) = pressed_logic_level b); t = flex_button_scan rd s
    in btn_head (fst t) = map (\<lambda>(p, b). (p, fst (button_step (now p b) b))) (btn_head s) \<and>
       fst (snd t) = concat (map (\<lambda>(p, b). map (Pair p) (snd (button_step (now p b) b))) (btn_head s)) \<and>
       flex_wf (fst t)"
  using scan_steps_all [OF assms] by (simp add: Let_def)

text \<open>
  Whatever a client does that registers at most 32 buttons, each once and with a read function,
  the list, the counter and the level register stay in step: every registered button has its own
  bit, holding its pressed level, and no shift ever leaves the 32 bits.
\<close>

theorem registry_invariant:
  "flex_wf (foldl client_step flex_init calls)"
  by (rule buttons.run_keeps [OF flex_init_wf])

text \<open>
  The bound in \<open>flex_button_register\<close> is off by one: with 32 buttons registered a further one is
  still accepted, and its level is shifted by 32 places.
\<close>

theorem register_accepts_33rd:
  assumes "flex_wf s" and "length (btn_head s) = 32" and "p \<noteq> 0" and "p \<notin> fst ` set (btn_head s)"
  shows "fst (flex_button_register p b s) = 33 \<and> bad_shift (snd (flex_button_register p b s))"
proof -
  have "unat (button_cnt s) = 32" using assms by (simp add: flex_wf_def)
  then have "button_cnt s = 32" by (simp add: word_unat_eq_iff)
  then show ?thesis using assms by (simp add: flex_button_register_def Let_def)
qed

end
