(* ===== verification/Yk_Button.thy ===== *)
theory Yk_Button
  imports Yk_App Flex_Button
begin

text \<open>
  \<^verbatim>\<open>applications/button.c\<close>: the one user button of the board, its settings, the callback the
  button library runs, and a turn of the scanning thread, over the state of the application and of
  the library side by side.
\<close>

section \<open>The code\<close>

definition PIN_KEY0 :: nat where "PIN_KEY0 = GET_PIN 1 1"

text \<open>The address of \<open>user_button[0]\<close>, the only element of the array.\<close>

definition USER_BUTTON_0 :: nat where "USER_BUTTON_0 = 1"

text \<open>\<open>user_button_init\<close>: the settings, on a cleared structure, and the registration.\<close>

definition user_button :: flex_button where
  "user_button =
     \<lparr>has_read = True, has_cb = True, scan_cnt = 0, click_cnt = 0, max_multiple_clicks_interval = 0,
      short_press_start_tick = of_nat (FLEX_MS_TO_SCAN_CNT 1500),
      long_press_start_tick = of_nat (FLEX_MS_TO_SCAN_CNT 3000),
      long_hold_start_tick = of_nat (FLEX_MS_TO_SCAN_CNT 4500),
      btn_id = 0, pressed_logic_level = False, event = FLEX_BTN_PRESS_DOWN,
      status = FLEX_BTN_STAGE_DEFAULT\<rparr>"

definition user_button_init :: "flex_state \<Rightarrow> flex_state" where
  "user_button_init fs = snd (flex_button_register USER_BUTTON_0 user_button fs)"

definition common_btn_read :: "'w env \<Rightarrow> 'w yk \<Rightarrow> nat \<Rightarrow> u8" where
  "common_btn_read E s p = level (rt_pin_read E PIN_KEY0 (world s))"

text \<open>Every event but the press is ignored.\<close>

definition button_event_cb :: "'w env \<Rightarrow> nat \<Rightarrow> flex_button_event \<Rightarrow> ('w, unit) yk_op" where
  "button_event_cb E p e =
     (if p = USER_BUTTON_0 then
        (case e of
           FLEX_BTN_PRESS_DOWN \<Rightarrow> do {
             cb \<leftarrow> reads btn_bound;
             (if cb then btn_press_cb E else ret ())
           }
         | _ \<Rightarrow> ret ())
      else ret ())"

fun run_callbacks :: "'w env \<Rightarrow> (nat \<times> flex_button_event) list \<Rightarrow> ('w, unit) yk_op" where
  "run_callbacks E [] = ret ()"
| "run_callbacks E ((p, e) # es) = do { button_event_cb E p e; run_callbacks E es }"

text \<open>
  One turn of \<open>button_scan\<close>: a scan, whose callbacks run in it, then a pause of 20 ms.  The
  callbacks do not touch what the scan reads, so running them behind it is running them in it.
\<close>

definition button_scan :: "'w env \<Rightarrow> 'w yk \<times> flex_state \<Rightarrow> 'w yk \<times> flex_state" where
  "button_scan E sf =
     (let (s, fs) = sf;
          (fs', es, n) = flex_button_scan (common_btn_read E s) fs
      in (snd (run_state (do { run_callbacks E es; thread_delay E 20 }) s), fs'))"

section \<open>What it does\<close>

lemma user_button_settings: "short_press_start_tick user_button = 75"
  "long_press_start_tick user_button = 150" "long_hold_start_tick user_button = 225"
  by (simp_all add: user_button_def FLEX_MS_TO_SCAN_CNT_def FLEX_BTN_SCAN_FREQ_HZ_def)

definition at_rest :: "flex_state \<Rightarrow> bool" where
  "at_rest fs \<longleftrightarrow> flex_wf fs \<and> (\<exists>b. btn_head fs = [(USER_BUTTON_0, b)] \<and> app_button b \<and>
     \<not> pressed_logic_level b \<and> status b = FLEX_BTN_STAGE_DEFAULT)"

text \<open>
  After \<open>user_button_init\<close> the library holds exactly the board's button, active low, with start
  limits of 75, 150 and 225 scans and a click interval of 15, at rest.
\<close>

theorem user_button_ready: "at_rest (user_button_init flex_init)"
proof -
  have "flex_wf (user_button_init flex_init)"
    unfolding user_button_init_def
    by (rule register_wf(1) [OF flex_init_wf])
       (simp_all add: flex_init_def USER_BUTTON_0_def user_button_def)
  moreover have "\<exists>b. btn_head (user_button_init flex_init) = [(USER_BUTTON_0, b)] \<and> app_button b \<and>
      \<not> pressed_logic_level b \<and> status b = FLEX_BTN_STAGE_DEFAULT"
    by (simp add: user_button_init_def flex_button_register_def flex_init_def USER_BUTTON_0_def Let_def
        app_button_def user_button_def FLEX_MS_TO_SCAN_CNT_def FLEX_BTN_SCAN_FREQ_HZ_def
        MAX_MULTIPLE_CLICKS_INTERVAL_def)
  ultimately show ?thesis by (simp add: at_rest_def)
qed

lemma rest_scan:
  assumes "at_rest fs"
  obtains b where "btn_head fs = [(USER_BUTTON_0, b)]" and "app_button b" and "status b = FLEX_BTN_STAGE_DEFAULT"
    and "fst (snd (flex_button_scan (common_btn_read E s) fs)) =
      map (Pair USER_BUTTON_0) (snd (button_step (\<not> rt_pin_read E PIN_KEY0 (world s)) b))"
    and "btn_head (fst (flex_button_scan (common_btn_read E s) fs)) =
      [(USER_BUTTON_0, fst (button_step (\<not> rt_pin_read E PIN_KEY0 (world s)) b))]"
proof -
  from assms obtain b where b: "btn_head fs = [(USER_BUTTON_0, b)]" "app_button b"
    "\<not> pressed_logic_level b" "status b = FLEX_BTN_STAGE_DEFAULT" and wf: "flex_wf fs"
    by (auto simp: at_rest_def)
  have "common_btn_read E s p \<in> {0, 1}" for p by (auto simp: common_btn_read_def level_def)
  note scan = scan_steps_all [OF wf this]
  have "(common_btn_read E s USER_BUTTON_0 = 1) = pressed_logic_level b \<longleftrightarrow> \<not> rt_pin_read E PIN_KEY0 (world s)"
    using b(3) by (simp add: common_btn_read_def level_def)
  then show thesis using that b scan by simp
qed

text \<open>
  Pressing the button at rest runs the press callback exactly once, in the scan that first sees
  the pin low; a scan that sees it high runs nothing.
\<close>

theorem press_runs_callback:
  assumes "at_rest fs" and "btn_bound s"
  shows "fst (button_scan E (s, fs)) =
    (if rt_pin_read E PIN_KEY0 (world s) then snd (run_state (thread_delay E 20) s)
     else snd (run_state (thread_delay E 20) (snd (run_state (btn_press_cb E) s)))) \<and>
    (\<exists>b. btn_head (snd (button_scan E (s, fs))) = [(USER_BUTTON_0, b)] \<and>
       (if rt_pin_read E PIN_KEY0 (world s) then status b = FLEX_BTN_STAGE_DEFAULT else held 0 b))"
proof -
  obtain b where b: "btn_head fs = [(USER_BUTTON_0, b)]" "app_button b" "status b = FLEX_BTN_STAGE_DEFAULT"
    and scan: "fst (snd (flex_button_scan (common_btn_read E s) fs)) =
      map (Pair USER_BUTTON_0) (snd (button_step (\<not> rt_pin_read E PIN_KEY0 (world s)) b))"
    "btn_head (fst (flex_button_scan (common_btn_read E s) fs)) =
      [(USER_BUTTON_0, fst (button_step (\<not> rt_pin_read E PIN_KEY0 (world s)) b))]"
    using rest_scan [OF assms(1)] by metis
  show ?thesis
    using scan press_first [OF b(2,3)] idle_step [OF b(2,3)] assms(2)
    by (simp add: button_scan_def button_event_cb_def case_prod_beta Let_def)
qed

end
