(* ===== verification/Yk_Witness.thy ===== *)
theory Yk_Witness
  imports Yk_Button
begin

text \<open>
  A concrete board, as a record of functions with an EEPROM, a bistable relay and output pins, and a
  concrete lock on it.  Every property of the application that has hypotheses is applied here to this
  board, which shows that the hypotheses can hold together.
\<close>

section \<open>A board\<close>

record demo =
  eeprom :: "u8 list"
  relay :: bool
  pins :: "nat \<Rightarrow> bool"

definition chip :: "demo \<Rightarrow> u8 list" where
  "chip w = take 8 (eeprom w @ replicate 8 0)"

definition demo_write :: "nat \<Rightarrow> bool \<Rightarrow> demo \<Rightarrow> demo" where
  "demo_write p v w =
     w\<lparr>pins := (pins w)(p := v),
       relay := (if v \<and> p = PIN_AVC_RELAY_CLOSE then True
                 else if v \<and> p = PIN_AVC_RELAY_OPEN then False else relay w)\<rparr>"

definition board :: "demo env" where
  "board =
     \<lparr>at24cxx_read = (\<lambda>a n w. (RT_EOK, take n (drop a (chip w)), w)),
      at24cxx_write = (\<lambda>a bs w. (RT_EOK, w\<lparr>eeprom := bs\<rparr>)),
      rt_pin_read = (\<lambda>p w. if p = PIN_AVC_RELAY_CHECK then relay w else pins w p),
      rt_pin_write = demo_write,
      rt_pin_mode = (\<lambda>p m w. w),
      rt_thread_delay = (\<lambda>n w. w),
      rt_device_write = (\<lambda>m w. (16, w)),
      rt_device_find = (\<lambda>w. (True, w)), rt_device_open = (\<lambda>w. (True, w)),
      rt_can_set_baud = (\<lambda>n w. (True, w)), rt_can_set_filter = (\<lambda>items w. (True, w)),
      rt_sem_create = (\<lambda>w. (True, w)), rt_mutex_create = (\<lambda>w. (True, w)),
      rt_thread_create = (\<lambda>w. (True, w)),
      btn_mutex_take = (\<lambda>w. (RT_EOK, w)), btn_mutex_release = (\<lambda>w. (RT_EOK, w)),
      behind_id_table = 0, uninit8 = (\<lambda>w. 0), uninit32 = (\<lambda>w. 0)\<rparr>"

lemma chip_length [simp]: "length (chip w) = 8"
  by (simp add: chip_def)

lemma chip_simps [simp]: "chip (w\<lparr>relay := b\<rparr>) = chip w" "chip (w\<lparr>pins := f\<rparr>) = chip w"
  "length bs = 8 \<Longrightarrow> chip (w\<lparr>eeprom := bs\<rparr>) = bs"
  by (simp_all add: chip_def)

lemma demo_write_simps [simp]: "chip (demo_write p v w) = chip w" "eeprom (demo_write p v w) = eeprom w"
  by (simp_all add: demo_write_def chip_def)

lemma demo_at24: "at24_works board chip"
  by (simp add: at24_works_def board_def)

lemma demo_quiet: "quiet board chip"
  by (simp add: quiet_def board_def)

lemma demo_relay: "relay_works board relay"
  by (simp add: relay_works_def board_def pulse_def demo_write_def pin_defs)

lemma demo_board: "board_works board chip relay"
  by (simp add: board_works_def demo_at24 demo_quiet demo_relay)

lemma demo_boot: "boot_works board chip"
  by (simp add: boot_works_def demo_at24 demo_quiet) (simp add: board_def)

definition demo_info :: info where
  "demo_info = \<lparr>avc_relay_state = 0, dev_type = 4, timeout_exec = 10, timeout_cmd = 20, addr = 5, sn = 0x010203\<rparr>"

definition demo_world :: demo where
  "demo_world = \<lparr>eeprom = info_bytes demo_info, relay = False, pins = (\<lambda>p. False)\<rparr>"

definition demo_lk :: lock_info where
  "demo_lk = \<lparr>dev_id = 0x19, net_id = 0, lk_addr = 5, lk_sn = 0x010203, lk_type = AVC_SWITCH,
     hardware_type = HW_AVC_SWITCH, lk_channel = CHANNEL_HW_USING_CAN, lk_data = 20000\<rparr>"

definition demo_chan :: can_channel_state where
  "demo_chan = \<lparr>ch_dev = True, ch_sem = True, ch_lock = True, ch_ops = True, ch_thread = True,
     ch_indicate = True, ch_filter = [], ch_rx_callback = True, msg_buff = CAN_TX_DEFAULT_MESSAGE\<rparr>"

definition lock0 :: "demo yk" where
  "lock0 = \<lparr>cfg = demo_info, lk = demo_lk, avc = \<lparr>is_action = False, is_set = False, is_save = False\<rparr>,
     chan = demo_chan, proto_set = protocol_set_avc_switch, proto_ops = True, btn_bound = True,
     btn_threads = 0, sent = [], resets = 0, asserts = False, ub = False, world = demo_world\<rparr>"

lemma lock0_simps [simp]: "cfg lock0 = demo_info" "lk lock0 = demo_lk" "world lock0 = demo_world"
  "proto_set lock0 = protocol_set_avc_switch" "proto_ops lock0" "sent lock0 = []" "btn_bound lock0"
  "ch_rx_callback (chan lock0)" "ub lock0 = False" "lk_type demo_lk = AVC_SWITCH" "dev_id demo_lk = 0x19"
  "sn demo_info = 0x010203" "addr demo_info = 5" "dev_type demo_info = 4" "relay demo_world = False"
  by (simp_all add: lock0_def demo_chan_def demo_lk_def demo_info_def demo_world_def)

lemma lock0_store: "store_ok board chip lock0"
proof -
  have "chip demo_world = info_bytes demo_info" by (simp add: chip_def demo_world_def)
  then show ?thesis by (simp add: store_ok_def demo_at24)
qed

lemma lock0_running: "running lock0"
  by (simp add: running_def)

section \<open>The properties at work\<close>

theorem crc8_detects_witness:
  "sealed (seal [1, 2, 3]) \<and> crc8_sees [0, 1, 0, 0] \<and> \<not> sealed (damage (seal [1, 2, 3]) [0, 1, 0, 0])"
proof -
  have "crc8_sees (replicate 1 0 @ 1 # replicate 2 0)" by (rule one_byte) simp
  then have "crc8_sees [0, 1, 0, 0]" by (simp add: numeral_2_eq_2)
  then show ?thesis using crc8_detects [of "seal [1, 2, 3]" "[0, 1, 0, 0]"] by simp
qed


definition broken_board :: "demo env" where
  "broken_board = board\<lparr>at24cxx_write := (\<lambda>a bs w. (RT_ERROR, w))\<rparr>"

theorem config_modify_failed_write_witness:
  "fst (at24cxx_write broken_board 0 (info_bytes (config_set CONFIG_ADDR 7 (cfg lock0))) (world lock0)) \<noteq> RT_EOK \<and>
   cfg (snd (run_state (config_modify broken_board CONFIG_ADDR 7) lock0)) = cfg lock0"
proof -
  have fails: "fst (at24cxx_write broken_board 0 (info_bytes (config_set CONFIG_ADDR 7 (cfg lock0))) (world lock0)) \<noteq> RT_EOK"
    by (simp add: broken_board_def)
  show ?thesis using config_modify_failed_write [OF fails] fails by blast
qed

theorem config_modify_table_bounds_witness:
  "at24_works board chip \<and> ub (snd (run_state (config_modify board CONFIG_DEVICE_TYPE 5) lock0))"
  using config_modify_table_bounds [OF demo_at24, of CONFIG_DEVICE_TYPE 5 lock0] demo_at24 by simp

theorem yk_open_waits_in_vain_witness:
  "relay_works board relay \<and>
   run_state (control board CONTROL_YK_OPEN 1) lock0 =
     (RT_EOK, lock0\<lparr>world := (rt_thread_delay board 1 ^^ 50) (pulse board PIN_AVC_RELAY_OPEN (world lock0))\<rparr>)"
  using yk_open_waits_in_vain [OF demo_relay, of lock0] demo_relay by blast

theorem can_frame_roundtrip_witness:
  "\<exists>m. sent (snd (run_state (can_channel_write board (seal [3, 0, 5, 1, 1]) 6) lock0)) = [m] \<and>
     run_state (can_channel_read (replicate 16 0) (unat (msg_len m) + 3)) (lock0\<lparr>chan := (chan lock0)\<lparr>msg_buff := m\<rparr>\<rparr>) =
       ((6, seal [3, 0, 5, 1, 1] @ replicate 10 0), lock0\<lparr>chan := (chan lock0)\<lparr>msg_buff := m\<rparr>\<rparr>)"
proof -
  have len: "length (seal [3, 0, 5, 1, 1]) = 6" by simp
  obtain m where "sent (snd (run_state (can_channel_write board (seal [3, 0, 5, 1, 1]) 6) lock0)) = sent lock0 @ [m]"
    and "\<forall>t :: demo yk. msg_buff (chan t) = m \<longrightarrow>
      run_state (can_channel_read (replicate 16 0) (unat (msg_len m) + 3)) t =
        ((6, seal [3, 0, 5, 1, 1] @ drop 6 (replicate 16 0)), t)"
    using can_frame_roundtrip [of "seal [3, 0, 5, 1, 1]" "replicate 16 0" board lock0] unfolding len by auto
  then show ?thesis by (intro exI [of _ m]) simp
qed

theorem query_commands_answer_witness:
  "store_ok board chip lock0 \<and>
   run_state (get_handler_table board IDNEX_AVC_QUERY_STATE [] 0) lock0 =
     (RT_EOK, transmit board (reply 0x31 (5 # sn_bytes 0x010203 @ [queried board AVC_SWITCH_LED_RELAY_STATE lock0])) lock0)"
  using query_commands_answer [OF lock0_store, of IDNEX_AVC_QUERY_STATE "0x31" AVC_SWITCH_LED_RELAY_STATE "[]" 0]
    lock0_store by simp

text \<open>A request for the address 9 with the right serial number.\<close>

definition addr_request :: "u8 list" where
  "addr_request = [3, 0, 5, 6, 3, 9, 1, 2, 3, 0, 0, 0, 0, 0, 0, 0]"

theorem yk_modify_addr_result_witness:
  "store_ok board chip lock0 \<and> fst (run_state (func_yk_modify_addr board addr_request 10) lock0) = RT_EOK"
  using yk_modify_addr_result [OF lock0_store, of addr_request 10] lock0_store
  by (simp add: addr_request_def take_sn_def)

theorem production_commands_result_witness:
  "\<exists>t. run_state (get_handler_table board INDEX_YK_PRODUCTION_MODIFY_SN addr_request 10) lock0 =
      (RT_EOK, transmit board (reply 0x07 [0, 1, 2, 3]) t) \<and> lk_type (lk t) = YK_LOCK"
  using production_commands_result [OF lock0_store, of INDEX_YK_PRODUCTION_MODIFY_SN addr_request 10]
  by (simp add: addr_request_def) blast

theorem cold_lock_modify_result_witness:
  "store_ok board chip lock0 \<and>
   run_state (func_cold_lock_modify_timeout board addr_request 10) lock0 =
     (RT_EOK, transmit board (reply 0x2A [5, 10, 20, 9, 1])
       (config_put board CONFIG_TIMEOUT_CMD (ucast (1 :: u8)) (config_put board CONFIG_TIMEOUT_EXEC (ucast (9 :: u8)) lock0)))"
  using cold_lock_modify_result [OF lock0_store, of addr_request 10] lock0_store
  by (simp add: addr_request_def demo_info_def Let_def)

text \<open>A request 0x33 for type 1 and address 9 with the right serial number.\<close>

definition device_request :: "u8 list" where
  "device_request = [0x19, 0, 5, 6, 0x33, 1, 9, 1, 2, 3, 0, 0, 0, 0, 0, 0]"

theorem avc_modify_device_refuses_witness:
  "store_ok board chip lock0 \<and> device_request ! 4 = 0x33 \<and>
   ucast (drop_bit 8 (sn (cfg lock0))) \<noteq> (0x33 :: u8) \<and>
   run_state (func_avc_modify_device board device_request 11) lock0 =
     (RT_EOK, transmit board (reply 0x33 [lock_type_code (device_of (cfg lock0)), addr (cfg lock0), 0x01]) lock0)"
proof -
  have "device_request ! 4 = 0x33" by (simp add: device_request_def)
  moreover have "ucast (drop_bit 8 (sn (cfg lock0))) \<noteq> (0x33 :: u8)" by simp
  ultimately show ?thesis using avc_modify_device_refuses [OF lock0_store] lock0_store by blast
qed

definition engage_request :: "u8 list" where
  "engage_request = [0x19, 0, 5, 2, 0x35, 0x10, 0x01, 0, 0, 0, 0, 0, 0, 0, 0, 0]"

theorem avc_control_command_result_witness:
  "\<exists>t. run_state (func_avc_control_command board engage_request 7) lock0 =
      (RT_EOK, transmit board (reply 0x35 [0x03, 5, 0x10, 0x13]) t) \<and> relay (world t)"
  using avc_control_command_result [OF demo_board lock0_store, of engage_request 7]
  by (simp add: engage_request_def) blast

definition agreed_disengage :: "u8 list" where
  "agreed_disengage = [0x19, 0, 5, 3, 0x32, 0x10, 0x01, 0, 0, 0, 0, 0, 0, 0, 0, 0]"

theorem avc_control_request_engages_witness:
  "\<exists>t. run_state (func_avc_control_request board agreed_disengage 8) lock0 =
      (RT_EOK, transmit board (reply 0x35 [0x03, 5, 0x10, 0x13]) t) \<and> relay (world t)"
  using avc_control_request_engages [OF demo_board lock0_store, of agreed_disengage 8]
  by (simp add: agreed_disengage_def) blast

text \<open>The state query for this lock, with what the stack held behind it.\<close>

definition query_frame :: "u8 list" where
  "query_frame = request 0x19 5 0x31 []"

lemma query_frame_simps [simp]: "length query_frame = 6" "query_frame ! 0 = 0x19" "query_frame ! 4 = 0x31"
  "frame_ok query_frame" "sealed query_frame"
  using frame_ok_request [of "[]" "0x19" 5 "0x31"] by (simp_all add: query_frame_def request_nth frame_ok_def)

theorem protocol_parser_accepts_witness:
  "run_state (protocol_parser (query_frame @ replicate 10 0) 6) lock0 =
    ((RT_EOK, Some \<lparr>pd_index = IDNEX_AVC_QUERY_STATE, pd_data = query_frame @ replicate 10 0, pd_len = 6\<rparr>), lock0)"
  using protocol_parser_accepts [of 6 "query_frame @ replicate 10 0" lock0]
  by (simp add: addressed_def nth_append protocol_set_avc_switch_def func_codes)

theorem damaged_frame_rejected_witness:
  "sealed query_frame \<and> crc8_sees [0, 0, 0, 0, 1, 0] \<and>
   run_state (protocol_parser (damage query_frame [0, 0, 0, 0, 1, 0] @ replicate 10 0) 6) lock0 =
     ((RT_ERROR, None), lock0)"
proof -
  have "crc8_sees (replicate 4 0 @ 1 # replicate 1 0)" by (rule one_byte) simp
  then have "crc8_sees [0, 0, 0, 0, 1, 0]" by (simp add: numeral_eq_Suc)
  then show ?thesis
    using damaged_frame_rejected [of query_frame "[0, 0, 0, 0, 1, 0]" "replicate 10 0" lock0]
    by (simp add: damage_def)
qed

theorem protocol_init_tables_witness:
  "lk_type (lk lock0) = AVC_SWITCH \<and> distinct (map fst protocol_set_avc_switch) \<and>
   (\<exists>i. map_of protocol_set_avc_switch 0x37 = Some i)"
  using protocol_init_tables [of lock0 AVC_SWITCH]
  by (simp add: protocol_set_of_def) (simp add: protocol_set_avc_switch_def func_codes)

theorem receive_acts_iff_accepted_witness:
  "can_msg_ok (frame_msg query_frame) \<and>
   snd (run_state (thread_can_rx board (replicate 16 0) (frame_msg query_frame)) lock0) =
     snd (run_state (func_avc_query_state board (query_frame @ replicate 10 0) 6) (receiving (frame_msg query_frame) lock0))"
proof -
  have ok: "can_msg_ok (frame_msg query_frame)" by (simp add: can_msg_ok_def)
  have "accepts lock0 query_frame"
    by (simp add: accepts_def addressed_def protocol_set_avc_switch_def func_codes)
  then show ?thesis
    using receive_acts_iff_accepted [OF ok, of "replicate 16 0" lock0 board] ok
    by (simp add: msg_frame_of_frame protocol_set_avc_switch_def func_codes Let_def)
qed

theorem only_well_formed_replies_witness:
  "list_all reply_ok (sent (foldl (rx_step board) lock0 [(replicate 16 0, frame_msg query_frame)]))"
  using only_well_formed_replies [of lock0 board "[(replicate 16 0, frame_msg query_frame)]"] by simp

theorem wire_query_answered_witness:
  "snd (run_state (thread_can_rx board (replicate 16 0) (frame_msg (request 0x19 5 0x31 []))) lock0) =
     transmit board (reply 0x31 (5 # sn_bytes 0x010203 @
         [queried board AVC_SWITCH_LED_RELAY_STATE (receiving (frame_msg (request 0x19 5 0x31 [])) lock0)]))
       (receiving (frame_msg (request 0x19 5 0x31 [])) lock0)"
  using wire_query_answered [OF lock0_running lock0_store, of "0x31" IDNEX_AVC_QUERY_STATE "0x31"
      AVC_SWITCH_LED_RELAY_STATE "[]" "replicate 16 0" 5]
  by (simp add: protocol_set_avc_switch_def func_codes Let_def)

theorem wire_control_switches_witness:
  "relay (world (snd (run_state (thread_can_rx board (replicate 16 0) (frame_msg (request 0x19 5 0x35 [0x10]))) lock0)))"
  using wire_control_switches [OF lock0_running demo_board lock0_store, of "replicate 16 0" 5 True]
  by (simp add: Let_def)

theorem main_brings_up_witness:
  "running (snd (run_state (main board) lock0)) \<and>
   map fst (ch_filter (chan (snd (run_state (main board) lock0)))) = [tx_id [0x03, 0, 5], tx_id [0x19, 0, 5]]"
proof -
  have image: "demo_info = info_of_bytes (chip (world lock0))"
    using lock0_store by (simp add: store_ok_def)
  show ?thesis using main_brings_up [OF demo_boot image] by (simp add: Let_def)
qed

theorem button_thread_result_witness:
  "sent (snd (run_state (thread_btn_press board) lock0)) = [reply 0x32 [5, 0x10]]"
  using button_thread_result [OF lock0_store]
  by (simp add: Let_def board_def)

section \<open>The button\<close>

definition held_button :: flex_button where
  "held_button = snd (hd (btn_head (user_button_init flex_init)))"

lemma held_button_settings: "app_button held_button" "status held_button = FLEX_BTN_STAGE_DEFAULT"
proof -
  have "at_rest (user_button_init flex_init)"
    unfolding at_rest_def held_button_def
    using register_wf(1) [OF flex_init_wf, of USER_BUTTON_0 user_button]
    by (simp add: user_button_init_def flex_button_register_def flex_init_def USER_BUTTON_0_def Let_def
        app_button_def user_button_def FLEX_MS_TO_SCAN_CNT_def FLEX_BTN_SCAN_FREQ_HZ_def
        MAX_MULTIPLE_CLICKS_INTERVAL_def)
  then show "app_button held_button" "status held_button = FLEX_BTN_STAGE_DEFAULT"
    by (auto simp: at_rest_def held_button_def)
qed

text \<open>Held for 80 scans: a short press.\<close>

theorem press_and_release_gesture_witness:
  "snd (run_button held_button (replicate (Suc 80) True @ replicate 17 False)) =
     [FLEX_BTN_PRESS_DOWN, FLEX_BTN_PRESS_SHORT_START, FLEX_BTN_PRESS_SHORT_UP]"
  using press_and_release_gesture [OF held_button_settings, of 17 80]
  by (simp add: held_events_def release_events_def del: replicate_Suc)

theorem scan_steps_each_button_witness:
  "flex_wf (user_button_init flex_init) \<and> flex_wf (fst (flex_button_scan (\<lambda>p. 0) (user_button_init flex_init)))"
proof -
  have wf: "flex_wf (user_button_init flex_init)"
    unfolding user_button_init_def
    by (rule register_wf(1) [OF flex_init_wf]) (simp_all add: flex_init_def USER_BUTTON_0_def user_button_def)
  show ?thesis
    using scan_steps_each_button [OF wf, of "\<lambda>p. 0"] wf by (simp add: Let_def)
qed

text \<open>Thirty-two buttons, registered one after the other.\<close>

primrec registered :: "nat \<Rightarrow> flex_state" where
  "registered 0 = flex_init"
| "registered (Suc n) = snd (flex_button_register (Suc n) user_button (registered n))"

lemma register_many:
  "n \<le> 32 \<Longrightarrow> flex_wf (registered n) \<and> length (btn_head (registered n)) = n \<and>
     (\<forall>p \<in> fst ` set (btn_head (registered n)). p \<le> n)"
proof (induction n)
  case 0
  then show ?case by (simp add: flex_init_wf) (simp add: flex_init_def)
next
  case (Suc n)
  obtain t where t_def: "registered n = t" by blast
  have t: "flex_wf t" "length (btn_head t) = n" "\<forall>p \<in> fst ` set (btn_head t). p \<le> n"
    using Suc t_def by simp_all
  then have fresh: "Suc n \<notin> fst ` set (btn_head t)" by fastforce
  have guard: "\<not> button_cnt t > 32"
    using t Suc.prems by (simp add: flex_wf_def word_less_nat_alt)
  have wf: "flex_wf (snd (flex_button_register (Suc n) user_button t))"
    using t fresh Suc.prems by (intro register_wf(1)) (simp_all add: user_button_def)
  have "\<exists>b. btn_head (snd (flex_button_register (Suc n) user_button t)) = (Suc n, b) # btn_head t"
    using fresh guard by (simp add: flex_button_register_def Let_def)
  then obtain b where "btn_head (snd (flex_button_register (Suc n) user_button t)) = (Suc n, b) # btn_head t"
    by blast
  then show ?case using t wf by (simp add: t_def le_SucI)
qed

theorem register_accepts_33rd_witness:
  "length (btn_head (registered 32)) = 32 \<and> bad_shift (snd (flex_button_register 40 user_button (registered 32)))"
proof -
  obtain t where t_def: "registered 32 = t" by blast
  have full: "flex_wf t" "length (btn_head t) = 32" "\<forall>p \<in> fst ` set (btn_head t). p \<le> 32"
    using register_many [of 32] t_def by simp_all
  then have "40 \<notin> fst ` set (btn_head t)" by fastforce
  then show ?thesis using register_accepts_33rd [OF full(1,2), of 40 user_button] full by (simp add: t_def)
qed

theorem press_runs_callback_witness:
  "\<exists>b. btn_head (snd (button_scan board (lock0, user_button_init flex_init))) = [(USER_BUTTON_0, b)] \<and> held 0 b"
proof -
  have rest: "at_rest (user_button_init flex_init)"
    using held_button_settings register_wf(1) [OF flex_init_wf, of USER_BUTTON_0 user_button]
    by (simp add: at_rest_def held_button_def user_button_init_def flex_button_register_def flex_init_def
        USER_BUTTON_0_def user_button_def Let_def)
  have "\<not> rt_pin_read board PIN_KEY0 (world lock0)"
    by (simp add: board_def demo_world_def PIN_KEY0_def pin_defs)
  then show ?thesis using press_runs_callback [OF rest, of lock0 board] by simp
qed

end
