(* ===== verification/Rt_Ringbuffer.thy ===== *)
theory Rt_Ringbuffer
  imports Yk_Prelude
begin

text \<open>
  The byte ring buffer of the RT-Thread device drivers
  (\<^verbatim>\<open>src/rt-thread/components/drivers/ipc/ringbuffer.c\<close>).  The pool is a list of bytes, the
  one-bit mirrors are Booleans and the 31-bit indices are natural numbers: the invariant \<open>rb_wf\<close>
  keeps them below \<open>buffer_size\<close>, so no index ever wraps around.  \<open>rb_bytes\<close> is the sequence of bytes
  a buffer holds; the operations are shown to be those of a bounded queue of bytes.
\<close>

section \<open>The buffer\<close>

record rt_ringbuffer =
  buffer_ptr :: "u8 list"
  read_mirror :: bool
  read_index :: nat
  write_mirror :: bool
  write_index :: nat
  buffer_size :: nat

datatype rt_ringbuffer_state = RT_RINGBUFFER_EMPTY | RT_RINGBUFFER_FULL | RT_RINGBUFFER_HALFFULL

definition RT_ALIGN_SIZE :: nat where "RT_ALIGN_SIZE = 8"

definition RT_ALIGN_DOWN :: "nat \<Rightarrow> nat \<Rightarrow> nat" where
  "RT_ALIGN_DOWN n align = n - n mod align"

text \<open>\<open>memcpy dst d src n\<close> copies \<open>n\<close> bytes from the start of \<open>src\<close> to \<open>dst\<close>, from position \<open>d\<close> on.\<close>

definition memcpy :: "u8 list \<Rightarrow> nat \<Rightarrow> u8 list \<Rightarrow> nat \<Rightarrow> u8 list" where
  "memcpy dst d src n = take d dst @ take n src @ drop (d + n) dst"

definition rt_ringbuffer_status :: "rt_ringbuffer \<Rightarrow> rt_ringbuffer_state" where
  "rt_ringbuffer_status rb =
     (if read_index rb = write_index rb
      then if read_mirror rb = write_mirror rb then RT_RINGBUFFER_EMPTY else RT_RINGBUFFER_FULL
      else RT_RINGBUFFER_HALFFULL)"

definition rt_ringbuffer_data_len :: "rt_ringbuffer \<Rightarrow> nat" where
  "rt_ringbuffer_data_len rb =
     (case rt_ringbuffer_status rb of
        RT_RINGBUFFER_EMPTY \<Rightarrow> 0
      | RT_RINGBUFFER_FULL \<Rightarrow> buffer_size rb
      | RT_RINGBUFFER_HALFFULL \<Rightarrow>
          let wi = write_index rb; ri = read_index rb
          in if wi > ri then wi - ri else buffer_size rb - (ri - wi))"

definition rt_ringbuffer_get_size :: "rt_ringbuffer \<Rightarrow> nat" where
  "rt_ringbuffer_get_size rb = buffer_size rb"

definition rt_ringbuffer_space_len :: "rt_ringbuffer \<Rightarrow> nat" where
  "rt_ringbuffer_space_len rb = buffer_size rb - rt_ringbuffer_data_len rb"

section \<open>The operations\<close>

definition rt_ringbuffer_init :: "u8 list \<Rightarrow> nat \<Rightarrow> rt_ringbuffer" where
  "rt_ringbuffer_init pool sz =
     \<lparr>buffer_ptr = pool, read_mirror = False, read_index = 0, write_mirror = False, write_index = 0,
      buffer_size = RT_ALIGN_DOWN sz RT_ALIGN_SIZE\<rparr>"

definition rt_ringbuffer_put :: "rt_ringbuffer \<Rightarrow> u8 list \<Rightarrow> nat \<Rightarrow> nat \<times> rt_ringbuffer" where
  "rt_ringbuffer_put rb ptr len =
     (let space = rt_ringbuffer_space_len rb
      in if space = 0 then (0, rb)
         else
           let len = (if space < len then space else len)
           in if buffer_size rb - write_index rb > len
              then (len, rb\<lparr>buffer_ptr := memcpy (buffer_ptr rb) (write_index rb) ptr len,
                            write_index := write_index rb + len\<rparr>)
              else
                let n = buffer_size rb - write_index rb;
                    b = memcpy (buffer_ptr rb) (write_index rb) ptr n;
                    b = memcpy b 0 (drop n ptr) (len - n)
                in (len, rb\<lparr>buffer_ptr := b, write_mirror := \<not> write_mirror rb,
                            write_index := len - n\<rparr>))"

definition rt_ringbuffer_put_force :: "rt_ringbuffer \<Rightarrow> u8 list \<Rightarrow> nat \<Rightarrow> nat \<times> rt_ringbuffer" where
  "rt_ringbuffer_put_force rb ptr len =
     (let space = rt_ringbuffer_space_len rb;
          (ptr, len) = (if len > buffer_size rb then (drop (len - buffer_size rb) ptr, buffer_size rb)
                        else (ptr, len))
      in if buffer_size rb - write_index rb > len
         then
           let rb = rb\<lparr>buffer_ptr := memcpy (buffer_ptr rb) (write_index rb) ptr len,
                       write_index := write_index rb + len\<rparr>
           in (len, if len > space then rb\<lparr>read_index := write_index rb\<rparr> else rb)
         else
           let n = buffer_size rb - write_index rb;
               b = memcpy (buffer_ptr rb) (write_index rb) ptr n;
               b = memcpy b 0 (drop n ptr) (len - n);
               rb = rb\<lparr>buffer_ptr := b, write_mirror := \<not> write_mirror rb, write_index := len - n\<rparr>
           in (len,
               if len > space then
                 let rb = (if write_index rb \<le> read_index rb
                           then rb\<lparr>read_mirror := \<not> read_mirror rb\<rparr> else rb)
                 in rb\<lparr>read_index := write_index rb\<rparr>
               else rb))"

text \<open>The second component is what the call writes to \<open>ptr\<close>.\<close>

definition rt_ringbuffer_get :: "rt_ringbuffer \<Rightarrow> nat \<Rightarrow> nat \<times> u8 list \<times> rt_ringbuffer" where
  "rt_ringbuffer_get rb len =
     (let sz = rt_ringbuffer_data_len rb
      in if sz = 0 then (0, [], rb)
         else
           let len = (if sz < len then sz else len)
           in if buffer_size rb - read_index rb > len
              then (len, take len (drop (read_index rb) (buffer_ptr rb)),
                    rb\<lparr>read_index := read_index rb + len\<rparr>)
              else
                let n = buffer_size rb - read_index rb
                in (len, take n (drop (read_index rb) (buffer_ptr rb)) @ take (len - n) (buffer_ptr rb),
                    rb\<lparr>read_mirror := \<not> read_mirror rb, read_index := len - n\<rparr>))"

text \<open>The second component is the position in the pool that \<open>*ptr\<close> points to.\<close>

definition rt_ringbuffer_peek :: "rt_ringbuffer \<Rightarrow> nat \<times> nat option \<times> rt_ringbuffer" where
  "rt_ringbuffer_peek rb =
     (let sz = rt_ringbuffer_data_len rb
      in if sz = 0 then (0, None, rb)
         else if buffer_size rb - read_index rb > sz
         then (sz, Some (read_index rb), rb\<lparr>read_index := read_index rb + sz\<rparr>)
         else (buffer_size rb - read_index rb, Some (read_index rb),
               rb\<lparr>read_mirror := \<not> read_mirror rb, read_index := 0\<rparr>))"

definition rt_ringbuffer_putchar :: "rt_ringbuffer \<Rightarrow> u8 \<Rightarrow> nat \<times> rt_ringbuffer" where
  "rt_ringbuffer_putchar rb ch =
     (if rt_ringbuffer_space_len rb = 0 then (0, rb)
      else
        let rb = rb\<lparr>buffer_ptr := (buffer_ptr rb)[write_index rb := ch]\<rparr>
        in if write_index rb + 1 = buffer_size rb
           then (1, rb\<lparr>write_mirror := \<not> write_mirror rb, write_index := 0\<rparr>)
           else (1, rb\<lparr>write_index := write_index rb + 1\<rparr>))"

definition rt_ringbuffer_putchar_force :: "rt_ringbuffer \<Rightarrow> u8 \<Rightarrow> nat \<times> rt_ringbuffer" where
  "rt_ringbuffer_putchar_force rb ch =
     (let old_state = rt_ringbuffer_status rb;
          rb = rb\<lparr>buffer_ptr := (buffer_ptr rb)[write_index rb := ch]\<rparr>
      in if write_index rb + 1 = buffer_size rb
         then
           let rb = rb\<lparr>write_mirror := \<not> write_mirror rb, write_index := 0\<rparr>
           in (1, if old_state = RT_RINGBUFFER_FULL
                  then rb\<lparr>read_mirror := \<not> read_mirror rb, read_index := write_index rb\<rparr> else rb)
         else
           let rb = rb\<lparr>write_index := write_index rb + 1\<rparr>
           in (1, if old_state = RT_RINGBUFFER_FULL then rb\<lparr>read_index := write_index rb\<rparr> else rb))"

definition rt_ringbuffer_getchar :: "rt_ringbuffer \<Rightarrow> nat \<times> u8 option \<times> rt_ringbuffer" where
  "rt_ringbuffer_getchar rb =
     (if rt_ringbuffer_data_len rb = 0 then (0, None, rb)
      else
        let ch = buffer_ptr rb ! read_index rb
        in if read_index rb + 1 = buffer_size rb
           then (1, Some ch, rb\<lparr>read_mirror := \<not> read_mirror rb, read_index := 0\<rparr>)
           else (1, Some ch, rb\<lparr>read_index := read_index rb + 1\<rparr>))"

definition rt_ringbuffer_reset :: "rt_ringbuffer \<Rightarrow> rt_ringbuffer" where
  "rt_ringbuffer_reset rb =
     rb\<lparr>read_mirror := False, read_index := 0, write_mirror := False, write_index := 0\<rparr>"

text \<open>
  The two allocations of \<open>rt_ringbuffer_create\<close> are arguments: whether the control block was
  allocated, and the pool, if it was.
\<close>

definition rt_ringbuffer_create :: "bool \<Rightarrow> (nat \<Rightarrow> u8 list option) \<Rightarrow> nat \<Rightarrow> rt_ringbuffer option" where
  "rt_ringbuffer_create rb_ok rt_malloc sz =
     (let sz = RT_ALIGN_DOWN sz RT_ALIGN_SIZE
      in if \<not> rb_ok then None
         else case rt_malloc sz of None \<Rightarrow> None | Some pool \<Rightarrow> Some (rt_ringbuffer_init pool sz))"

section \<open>The invariant and the bytes a buffer holds\<close>

definition rb_wf :: "rt_ringbuffer \<Rightarrow> bool" where
  "rb_wf rb \<longleftrightarrow> read_index rb < buffer_size rb \<and> write_index rb < buffer_size rb \<and>
     buffer_size rb \<le> length (buffer_ptr rb) \<and>
     (if read_mirror rb = write_mirror rb then read_index rb \<le> write_index rb
      else write_index rb \<le> read_index rb)"

definition rb_bytes :: "rt_ringbuffer \<Rightarrow> u8 list" where
  "rb_bytes rb =
     (let b = take (buffer_size rb) (buffer_ptr rb)
      in if read_mirror rb = write_mirror rb
         then take (write_index rb - read_index rb) (drop (read_index rb) b)
         else drop (read_index rb) b @ take (write_index rb) b)"

text \<open>
  A well-formed buffer is determined by its pool, its size, where reading starts (mirror and index)
  and how many bytes it holds.
\<close>

definition pos :: "nat \<Rightarrow> nat \<Rightarrow> nat" where
  "pos sz k = (if k < sz then k else k - sz)"

lemma pos_pos: "r < sz \<Longrightarrow> k + i < sz \<Longrightarrow> pos sz (pos sz (r + k) + i) = pos sz (r + (k + i))"
  by (auto simp: pos_def)

definition rb_at :: "u8 list \<Rightarrow> nat \<Rightarrow> bool \<Rightarrow> nat \<Rightarrow> nat \<Rightarrow> rt_ringbuffer" where
  "rb_at b sz m r l =
     \<lparr>buffer_ptr = b, read_mirror = m, read_index = r,
      write_mirror = (if r + l < sz then m else \<not> m), write_index = pos sz (r + l), buffer_size = sz\<rparr>"

definition rb_fits :: "u8 list \<Rightarrow> nat \<Rightarrow> nat \<Rightarrow> nat \<Rightarrow> bool" where
  "rb_fits b sz r l \<longleftrightarrow> r < sz \<and> l \<le> sz \<and> sz \<le> length b"

lemma rb_cases:
  assumes "rb_wf rb"
  obtains b sz m r l where "rb = rb_at b sz m r l" and "rb_fits b sz r l"
proof
  let ?l = "if read_mirror rb = write_mirror rb then write_index rb - read_index rb
            else buffer_size rb - read_index rb + write_index rb"
  show "rb = rb_at (buffer_ptr rb) (buffer_size rb) (read_mirror rb) (read_index rb) ?l"
    using assms by (intro rt_ringbuffer.equality) (auto simp: rb_at_def rb_wf_def pos_def)
  show "rb_fits (buffer_ptr rb) (buffer_size rb) (read_index rb) ?l"
    using assms by (auto simp: rb_wf_def rb_fits_def)
qed

lemma rb_at_wf: "rb_fits b sz r l \<Longrightarrow> rb_wf (rb_at b sz m r l)"
  by (auto simp: rb_at_def rb_wf_def rb_fits_def pos_def)

lemma buffer_size_at [simp]: "buffer_size (rb_at b sz m r l) = sz"
  by (simp add: rb_at_def)

lemma rb_bytes_at:
  assumes "rb_fits b sz r l"
  shows "rb_bytes (rb_at b sz m r l) = map (\<lambda>i. b ! pos sz (r + i)) [0..<l]"
proof (cases "r + l < sz")
  case True
  with assms show ?thesis
    by (intro nth_equalityI) (auto simp: rb_at_def rb_bytes_def rb_fits_def pos_def Let_def)
next
  case False
  with assms show ?thesis
    by (intro nth_equalityI)
       (auto simp: rb_at_def rb_bytes_def rb_fits_def pos_def Let_def nth_append add.commute)
qed

lemma bytes_fit:
  assumes "rb_wf rb"
  shows "length (rb_bytes rb) \<le> buffer_size rb"
proof -
  obtain b sz m r l where "rb = rb_at b sz m r l" and "rb_fits b sz r l" using assms by (rule rb_cases)
  then show ?thesis by (simp add: rb_bytes_at) (simp add: rb_fits_def)
qed

lemma init_wf:
  assumes "RT_ALIGN_SIZE \<le> sz" and "sz \<le> length pool"
  shows "rb_wf (rt_ringbuffer_init pool sz)" and "rb_bytes (rt_ringbuffer_init pool sz) = []"
proof -
  have "sz mod 8 < 8" by simp
  with assms have "0 < sz - sz mod 8" and "sz - sz mod 8 \<le> length pool"
    unfolding RT_ALIGN_SIZE_def by linarith+
  then show "rb_wf (rt_ringbuffer_init pool sz)" and "rb_bytes (rt_ringbuffer_init pool sz) = []"
    by (simp_all add: rb_wf_def rb_bytes_def rt_ringbuffer_init_def RT_ALIGN_DOWN_def RT_ALIGN_SIZE_def)
qed

lemma reset_wf:
  "rb_wf rb \<Longrightarrow> rb_wf (rt_ringbuffer_reset rb) \<and> rb_bytes (rt_ringbuffer_reset rb) = []"
  by (auto simp: rb_wf_def rb_bytes_def rt_ringbuffer_reset_def)

lemma status_at:
  "rb_fits b sz r l \<Longrightarrow> rt_ringbuffer_status (rb_at b sz m r l) =
     (if l = 0 then RT_RINGBUFFER_EMPTY else if l = sz then RT_RINGBUFFER_FULL
      else RT_RINGBUFFER_HALFFULL)"
  by (auto simp: rt_ringbuffer_status_def rb_at_def rb_fits_def pos_def)

lemma data_len_at: "rb_fits b sz r l \<Longrightarrow> rt_ringbuffer_data_len (rb_at b sz m r l) = l"
  by (auto simp: rt_ringbuffer_data_len_def status_at) (auto simp: rb_at_def rb_fits_def pos_def Let_def)

lemma space_len_at: "rb_fits b sz r l \<Longrightarrow> rt_ringbuffer_space_len (rb_at b sz m r l) = sz - l"
  by (simp add: rt_ringbuffer_space_len_def data_len_at)

section \<open>Copying into the pool\<close>

lemma length_memcpy [simp]:
  "d + n \<le> length dst \<Longrightarrow> n \<le> length src \<Longrightarrow> length (memcpy dst d src n) = length dst"
  by (simp add: memcpy_def)

lemma nth_memcpy:
  "d + n \<le> length dst \<Longrightarrow> n \<le> length src \<Longrightarrow> i < length dst \<Longrightarrow>
   memcpy dst d src n ! i = (if d \<le> i \<and> i < d + n then src ! (i - d) else dst ! i)"
  by (auto simp: memcpy_def nth_append)

text \<open>The one or two copies by which a block is written from index \<open>w\<close> on.\<close>

definition store :: "u8 list \<Rightarrow> nat \<Rightarrow> nat \<Rightarrow> u8 list \<Rightarrow> nat \<Rightarrow> u8 list" where
  "store b sz w src n =
     (if sz - w > n then memcpy b w src n
      else memcpy (memcpy b w src (sz - w)) 0 (drop (sz - w) src) (n - (sz - w)))"

lemma length_store [simp]:
  "w < sz \<Longrightarrow> sz \<le> length b \<Longrightarrow> n \<le> sz \<Longrightarrow> n \<le> length src \<Longrightarrow> length (store b sz w src n) = length b"
  by (simp add: store_def)

lemma nth_store:
  assumes "w < sz" and "sz \<le> length b" and "n \<le> sz" and "n \<le> length src" and "k < sz"
  shows "store b sz w src n ! pos sz (w + k) = (if k < n then src ! k else b ! pos sz (w + k))"
  using assms by (auto simp: store_def nth_memcpy pos_def)

section \<open>Each operation, by position\<close>

lemma rb_at_eqI:
  "b = b' \<Longrightarrow> m = m' \<Longrightarrow> r = r' \<Longrightarrow> w = (if r' + l' < sz then m' else \<not> m') \<Longrightarrow> wi = pos sz (r' + l') \<Longrightarrow>
   \<lparr>buffer_ptr = b, read_mirror = m, read_index = r, write_mirror = w, write_index = wi,
    buffer_size = sz\<rparr> = rb_at b' sz m' r' l'"
  by (simp add: rb_at_def)

lemma put_at:
  assumes "rb_fits b sz r l" and "len \<le> length ptr" and "n = min len (sz - l)"
  shows "rt_ringbuffer_put (rb_at b sz m r l) ptr len =
    (n, rb_at (store b sz (pos sz (r + l)) ptr n) sz m r (l + n))"
proof (cases "l = sz")
  case True
  with assms show ?thesis
    by (simp add: rt_ringbuffer_put_def space_len_at) (auto simp: store_def memcpy_def rb_fits_def pos_def)
next
  case False
  then have s: "sz - l \<noteq> 0" using assms(1) by (auto simp: rb_fits_def)
  have n: "(if sz - l < len then sz - l else len) = n" using assms(3) by auto
  have "n \<le> sz - l" using assms(3) by simp
  with assms(1) s show ?thesis
    unfolding rt_ringbuffer_put_def Let_def space_len_at [OF assms(1)] n
    by (auto simp: rb_at_def rb_fits_def pos_def store_def ac_simps)
qed

lemma put_force_at:
  assumes "rb_fits b sz r l" and "len \<le> length ptr"
    and "n = min len sz" and "d = n - (sz - l)" and "src = drop (len - sz) ptr"
  shows "rt_ringbuffer_put_force (rb_at b sz m r l) ptr len =
    (n, rb_at (store b sz (pos sz (r + l)) src n) sz (if r + d < sz then m else \<not> m)
              (pos sz (r + d)) (l + n - d))"
proof -
  have p: "(if len > buffer_size (rb_at b sz m r l)
            then (drop (len - buffer_size (rb_at b sz m r l)) ptr, buffer_size (rb_at b sz m r l))
            else (ptr, len)) = (src, n)"
    using assms(3,5) by auto
  have fits: "r < sz" "l \<le> sz" "sz \<le> length b" using assms(1) by (auto simp: rb_fits_def)
  have "n \<le> sz" using assms(3) by simp
  note facts = fits this assms(4)
  note code = rt_ringbuffer_put_force_def Let_def space_len_at [OF assms(1)] p prod.case
  show ?thesis
  proof (cases "r + l < sz")
    case before: True
    then have wi: "pos sz (r + l) = r + l" by (simp add: pos_def)
    show ?thesis
    proof (cases "n < sz - (r + l)")
      case True
      then have d: "d = 0" "\<not> sz - l < n" "r + (l + n) < sz" using facts by linarith+
      with True before facts show ?thesis unfolding code by (simp add: rb_at_def store_def wi pos_def)
    next
      case False
      have w': "\<not> r + (l + n) < sz" using False before facts by linarith
      have w: "n - (sz - (r + l)) = pos sz (r + (l + n))" "\<not> r + (l + n) < sz"
        using False before w' by (simp_all add: pos_def)
      show ?thesis
      proof (cases "sz - l < n")
        case True
        have d: "pos sz (r + d) = pos sz (r + (l + n))" "r + d < sz" "l + n - d = sz" "\<not> r + sz < sz"
            "\<not> pos sz (r + (l + n)) \<le> r" "pos sz (pos sz (r + (l + n)) + sz) = pos sz (r + (l + n))"
          using True False before facts by (auto simp: pos_def)
        with True False before w show ?thesis unfolding code by (simp add: rb_at_def store_def wi)
      next
        case le: False
        then have d: "d = 0" using facts by linarith
        with le False before w fits show ?thesis unfolding code by (simp add: rb_at_def store_def wi) (simp add: pos_def)
      qed
    qed
  next
    case behind: False
    then have wi: "pos sz (r + l) = r + l - sz" by (simp add: pos_def)
    show ?thesis
    proof (cases "n < sz - (r + l - sz)")
      case True
      show ?thesis
      proof (cases "sz - l < n")
        case True
        have d: "r + l - sz + n = r + d" "r + d < sz" "l + n - d = sz" "pos sz (r + d) = r + d"
            "pos sz (r + d + sz) = r + d"
          using True \<open>n < sz - (r + l - sz)\<close> behind facts by (auto simp: pos_def)
        with True \<open>n < sz - (r + l - sz)\<close> behind show ?thesis unfolding code by (simp add: rb_at_def store_def wi)
      next
        case False
        then have d: "d = 0" "r + l - sz + n = pos sz (r + (l + n))" "\<not> r + (l + n) < sz" "pos sz r = r"
          using behind facts by (auto simp: pos_def)
        with True False behind fits show ?thesis unfolding code by (simp add: rb_at_def store_def wi)
      qed
    next
      case False
      have w: "n - (sz - (r + l - sz)) = pos sz (r + d)" "pos sz (r + d) \<le> r" "\<not> r + d < sz"
          "l + n - d = sz" "sz - l < n" "pos sz (pos sz (r + d) + sz) = pos sz (r + d)"
        using False behind facts by (auto simp: pos_def)
      with False behind show ?thesis unfolding code by (simp add: rb_at_def store_def wi)
    qed
  qed
qed

lemma get_at:
  assumes "rb_fits b sz r l" and "n = min len l"
  shows "rt_ringbuffer_get (rb_at b sz m r l) len =
    (n, map (\<lambda>i. b ! pos sz (r + i)) [0..<n],
     rb_at b sz (if r + n < sz then m else \<not> m) (pos sz (r + n)) (l - n))"
proof (cases "l = 0")
  case True
  with assms show ?thesis
    by (simp add: rt_ringbuffer_get_def data_len_at) (auto simp: rb_at_def rb_fits_def pos_def)
next
  case False
  have n: "(if l < len then l else len) = n" using assms(2) by auto
  have nl: "n \<le> l" using assms(2) by simp
  have fits: "r < sz" "l \<le> sz" "sz \<le> length b" using assms(1) by (auto simp: rb_fits_def)
  have bs: "(if sz - r > n then take n (drop r b) else take (sz - r) (drop r b) @ take (n - (sz - r)) b) =
      map (\<lambda>i. b ! pos sz (r + i)) [0..<n]"
    using fits nl by (intro nth_equalityI) (auto simp: pos_def nth_append add.commute split: if_splits)
  show ?thesis
    using False fits nl unfolding rt_ringbuffer_get_def Let_def data_len_at [OF assms(1)] n bs [symmetric]
    by (auto simp: rb_at_def pos_def)
qed

section \<open>Each operation, on the bytes\<close>

lemma map_pos_store:
  assumes "rb_fits b sz r l" and "n \<le> sz" and "n \<le> length src" and "d = n - (sz - l)"
  shows "map (\<lambda>i. store b sz (pos sz (r + l)) src n ! pos sz (pos sz (r + d) + i)) [0..<l + n - d] =
    drop d (map (\<lambda>i. b ! pos sz (r + i)) [0..<l] @ take n src)"
proof (rule nth_equalityI)
  show "length (map (\<lambda>i. store b sz (pos sz (r + l)) src n ! pos sz (pos sz (r + d) + i)) [0..<l + n - d]) =
      length (drop d (map (\<lambda>i. b ! pos sz (r + i)) [0..<l] @ take n src))"
    using assms by simp
next
  fix i assume "i < length (map (\<lambda>i. store b sz (pos sz (r + l)) src n ! pos sz (pos sz (r + d) + i)) [0..<l + n - d])"
  then have i: "d + i < l + n" and i': "i < l + n - d" by simp_all
  have fits: "r < sz" "l \<le> sz" "sz \<le> length b" using assms(1) by (auto simp: rb_fits_def)
  have d: "d \<le> n" "d \<le> l" "l + n \<le> sz + d" using assms fits by auto
  let ?w = "pos sz (r + l)"
  define k where "k = (if l \<le> d + i then d + i - l else d + i + sz - l)"
  have k: "k < sz" using i d by (auto simp: k_def)
  have p: "pos sz (pos sz (r + d) + i) = pos sz (?w + k)"
    using i d fits by (auto simp: pos_def k_def)
  have w: "?w < sz" using fits by (auto simp: pos_def)
  have "store b sz ?w src n ! pos sz (pos sz (r + d) + i) = (if k < n then src ! k else b ! pos sz (?w + k))"
    unfolding p by (rule nth_store [OF w fits(3) assms(2,3) k])
  also have "\<dots> = drop d (map (\<lambda>i. b ! pos sz (r + i)) [0..<l] @ take n src) ! i"
  proof (cases "l \<le> d + i")
    case True
    then have "k < n" using i by (simp add: k_def)
    with True i assms(3) d show ?thesis by (simp add: nth_append k_def del: drop_append)
  next
    case False
    then have "\<not> k < n" and "pos sz (?w + k) = pos sz (r + (d + i))"
      using i d fits by (auto simp: k_def pos_def)
    with False d show ?thesis by (simp add: nth_append del: drop_append)
  qed
  finally show "map (\<lambda>i. store b sz (pos sz (r + l)) src n ! pos sz (pos sz (r + d) + i)) [0..<l + n - d] ! i =
      drop d (map (\<lambda>i. b ! pos sz (r + i)) [0..<l] @ take n src) ! i"
    using i' by (simp del: drop_append)
qed

lemma fits_store:
  assumes "rb_fits b sz r l" and "n \<le> sz" and "n \<le> length src" and "d = n - (sz - l)"
  shows "rb_fits (store b sz (pos sz (r + l)) src n) sz (pos sz (r + d)) (l + n - d)"
proof -
  have fits: "r < sz" "l \<le> sz" "sz \<le> length b" using assms(1) by (auto simp: rb_fits_def)
  have "pos sz (r + l) < sz" using fits by (auto simp: pos_def)
  with fits assms show ?thesis by (auto simp: rb_fits_def pos_def)
qed

lemma put_bytes:
  assumes wf: "rb_wf rb" and len: "len \<le> length ptr" and put: "rt_ringbuffer_put rb ptr len = (n, rb')"
  shows "n = min len (buffer_size rb - length (rb_bytes rb))"
    and "rb_wf rb'" and "buffer_size rb' = buffer_size rb" and "rb_bytes rb' = rb_bytes rb @ take n ptr"
proof -
  obtain b sz m r l where rb: "rb = rb_at b sz m r l" and fits: "rb_fits b sz r l"
    using wf by (rule rb_cases)
  define k where "k = min len (sz - l)"
  have n: "n = k" and rb': "rb' = rb_at (store b sz (pos sz (r + l)) ptr k) sz m r (l + k)"
    using put unfolding rb put_at [OF fits len k_def] prod.inject by - (elim conjE; rule sym; assumption)+
  have k: "k \<le> sz" "k \<le> length ptr" "0 = k - (sz - l)" using len by (auto simp: k_def)
  have r: "pos sz r = r" using fits by (simp add: rb_fits_def pos_def)
  have fits': "rb_fits (store b sz (pos sz (r + l)) ptr k) sz r (l + k)"
    using fits_store [OF fits k] r by simp
  show "n = min len (buffer_size rb - length (rb_bytes rb))"
    unfolding n k_def rb rb_bytes_at [OF fits] by simp
  show "rb_wf rb'" and "buffer_size rb' = buffer_size rb"
    unfolding rb' rb by (simp_all add: rb_at_wf [OF fits'])
  show "rb_bytes rb' = rb_bytes rb @ take n ptr"
    unfolding rb' rb n rb_bytes_at [OF fits] rb_bytes_at [OF fits']
    using map_pos_store [OF fits k] r by simp
qed

lemma put_force_bytes:
  assumes wf: "rb_wf rb" and len: "len \<le> length ptr" and put: "rt_ringbuffer_put_force rb ptr len = (n, rb')"
  shows "n = min len (buffer_size rb)" and "rb_wf rb'" and "buffer_size rb' = buffer_size rb"
    and "rb_bytes rb' = (let all = rb_bytes rb @ take len ptr in drop (length all - buffer_size rb) all)"
proof -
  obtain b sz m r l where rb: "rb = rb_at b sz m r l" and fits: "rb_fits b sz r l"
    using wf by (rule rb_cases)
  define k where "k = min len sz"
  define d where "d = k - (sz - l)"
  define src where "src = drop (len - sz) ptr"
  have n: "n = k" and rb': "rb' = rb_at (store b sz (pos sz (r + l)) src k) sz (if r + d < sz then m else \<not> m)
      (pos sz (r + d)) (l + k - d)"
    using put unfolding rb put_force_at [OF fits len k_def d_def src_def] prod.inject
    by - (elim conjE; rule sym; assumption)+
  have k: "k \<le> sz" "k \<le> length src" using len by (auto simp: k_def src_def)
  note fits' = fits_store [OF fits k d_def]
  show "n = min len (buffer_size rb)" by (simp add: n k_def rb)
  show "rb_wf rb'" and "buffer_size rb' = buffer_size rb"
    unfolding rb' rb by (simp_all add: rb_at_wf [OF fits'])
  have l: "l \<le> sz" using fits by (simp add: rb_fits_def)
  have "drop d (map (\<lambda>i. b ! pos sz (r + i)) [0..<l] @ take k src) =
      drop (l + len - sz) (map (\<lambda>i. b ! pos sz (r + i)) [0..<l] @ take len ptr)"
  proof (cases "len \<le> sz")
    case True
    then have "d = l + len - sz" using l by (simp add: d_def k_def)
    with True show ?thesis by (simp add: k_def src_def)
  next
    case False
    with l len show ?thesis by (simp add: d_def k_def src_def drop_take)
  qed
  then show "rb_bytes rb' = (let all = rb_bytes rb @ take len ptr in drop (length all - buffer_size rb) all)"
    unfolding rb' rb rb_bytes_at [OF fits] rb_bytes_at [OF fits'] map_pos_store [OF fits k d_def]
    using len by (simp add: Let_def)
qed

lemma get_bytes:
  assumes wf: "rb_wf rb" and get: "rt_ringbuffer_get rb len = (n, out, rb')"
  shows "n = min len (length (rb_bytes rb))" and "out = take n (rb_bytes rb)"
    and "rb_wf rb'" and "buffer_size rb' = buffer_size rb" and "rb_bytes rb' = drop n (rb_bytes rb)"
proof -
  obtain b sz m r l where rb: "rb = rb_at b sz m r l" and fits: "rb_fits b sz r l"
    using wf by (rule rb_cases)
  define k where "k = min len l"
  have n: "n = k" and out: "out = map (\<lambda>i. b ! pos sz (r + i)) [0..<k]"
    and rb': "rb' = rb_at b sz (if r + k < sz then m else \<not> m) (pos sz (r + k)) (l - k)"
    using get unfolding rb get_at [OF fits k_def] prod.inject by - (elim conjE; rule sym; assumption)+
  have k: "k \<le> l" by (simp add: k_def)
  have fits': "rb_fits b sz (pos sz (r + k)) (l - k)"
    using fits k by (auto simp: rb_fits_def pos_def)
  show "n = min len (length (rb_bytes rb))" by (simp add: n k_def rb rb_bytes_at [OF fits])
  show "out = take n (rb_bytes rb)"
    using k by (simp add: out n rb rb_bytes_at [OF fits] take_map)
  show "rb_wf rb'" and "buffer_size rb' = buffer_size rb"
    unfolding rb' rb by (simp_all add: rb_at_wf [OF fits'])
  show "rb_bytes rb' = drop n (rb_bytes rb)"
    unfolding rb' rb n rb_bytes_at [OF fits] rb_bytes_at [OF fits']
    using k fits by (intro nth_equalityI) (auto simp: rb_fits_def pos_pos)
qed

section \<open>Single bytes and peeking\<close>

lemma memcpy_one: "w < length b \<Longrightarrow> memcpy b w [c] (Suc 0) = b[w := c]"
  by (simp add: memcpy_def upd_conv_take_nth_drop)

lemma memcpy_none [simp]: "memcpy b w p 0 = b"
  by (simp add: memcpy_def)

lemma one_left: "Suc w = n \<Longrightarrow> n - w = Suc 0"
  by simp

lemma put_one: "rb_wf rb \<Longrightarrow> rt_ringbuffer_put rb [c] 1 = rt_ringbuffer_putchar rb c"
  by (auto simp: rt_ringbuffer_put_def rt_ringbuffer_putchar_def Let_def rb_wf_def memcpy_one one_left)

lemma get_one:
  assumes "rb_wf rb"
  shows "rt_ringbuffer_get rb 1 =
    (let (n, c, rb') = rt_ringbuffer_getchar rb in (n, case c of None \<Rightarrow> [] | Some c \<Rightarrow> [c], rb'))"
  using assms
  by (auto simp: rt_ringbuffer_get_def rt_ringbuffer_getchar_def Let_def rb_wf_def take_Suc_conv_app_nth
      hd_drop_conv_nth take_Suc one_left split: if_splits)

lemma put_force_one:
  assumes "rb_wf rb"
  shows "rt_ringbuffer_put_force rb [c] 1 = rt_ringbuffer_putchar_force rb c"
proof -
  obtain b sz m r l where rb: "rb = rb_at b sz m r l" and fits: "rb_fits b sz r l"
    using assms by (rule rb_cases)
  have full: "rt_ringbuffer_status rb = RT_RINGBUFFER_FULL \<longleftrightarrow> l = sz" "1 > rt_ringbuffer_space_len rb \<longleftrightarrow> l = sz"
    using fits by (auto simp: rb status_at space_len_at rb_fits_def)
  from fits full show ?thesis
    unfolding rt_ringbuffer_put_force_def rt_ringbuffer_putchar_force_def Let_def
    by (auto simp: rb rb_at_def rb_fits_def pos_def memcpy_one)
qed

lemma peek_bytes:
  assumes wf: "rb_wf rb" and peek: "rt_ringbuffer_peek rb = (n, p, rb')"
  shows "(n = 0 \<longleftrightarrow> rb_bytes rb = [])" and "rb_wf rb'" and "rb_bytes rb' = drop n (rb_bytes rb)"
    and "p = (if n = 0 then None else Some (read_index rb))"
    and "n \<le> length (rb_bytes rb)"
    and "take n (drop (read_index rb) (buffer_ptr rb)) = take n (rb_bytes rb)"
proof -
  obtain b sz m r l where rb: "rb = rb_at b sz m r l" and fits: "rb_fits b sz r l"
    using wf by (rule rb_cases)
  define k where "k = min l (sz - r)"
  have f: "r < sz" "l \<le> sz" "sz \<le> length b" "k \<le> l" "k \<le> sz - r" using fits by (auto simp: rb_fits_def k_def)
  have res: "(n, p, rb') = (k, if k = 0 then None else Some r,
      rb_at b sz (if r + k < sz then m else \<not> m) (pos sz (r + k)) (l - k))"
    unfolding peek [symmetric] rb rt_ringbuffer_peek_def Let_def data_len_at [OF fits]
    using f by (auto simp: rb_at_def pos_def k_def)
  have fits': "rb_fits b sz (pos sz (r + k)) (l - k)" using f by (auto simp: rb_fits_def pos_def)
  show "(n = 0 \<longleftrightarrow> rb_bytes rb = [])" and "p = (if n = 0 then None else Some (read_index rb))"
    and "n \<le> length (rb_bytes rb)"
    using res f by (auto simp: rb rb_bytes_at [OF fits] k_def) (simp_all add: rb_at_def)
  show "rb_wf rb'" using res rb_at_wf [OF fits'] by simp
  show "rb_bytes rb' = drop n (rb_bytes rb)"
    using res f by (auto simp: rb rb_bytes_at [OF fits] rb_bytes_at [OF fits'] pos_pos intro!: nth_equalityI)
  show "take n (drop (read_index rb) (buffer_ptr rb)) = take n (rb_bytes rb)"
    using res f unfolding rb rb_bytes_at [OF fits]
    by (intro nth_equalityI) (auto simp: rb_at_def pos_def)
qed

section \<open>A bounded queue of bytes, as its clients see it\<close>

text \<open>The calls of a client, and what a call returns: a count, or the bytes it delivered.\<close>

datatype fifo_op =
    Put "u8 list" | Put_force "u8 list" | Putchar u8 | Putchar_force u8
  | Get nat | Getchar | Data_len | Space_len | Reset

datatype fifo_result = Count nat | Delivered nat "u8 list" | Done

text \<open>The reference: a queue of at most \<open>cap\<close> bytes, the oldest first.\<close>

fun queue_call :: "nat \<Rightarrow> fifo_op \<Rightarrow> u8 list \<Rightarrow> fifo_result \<times> u8 list" where
  "queue_call cap (Put p) q = (let n = min (length p) (cap - length q) in (Count n, q @ take n p))"
| "queue_call cap (Put_force p) q = (Count (min (length p) cap), newest cap (q @ p))"
| "queue_call cap (Putchar c) q = (if length q < cap then (Count 1, q @ [c]) else (Count 0, q))"
| "queue_call cap (Putchar_force c) q = (Count 1, newest cap (q @ [c]))"
| "queue_call cap (Get k) q = (let n = min k (length q) in (Delivered n (take n q), drop n q))"
| "queue_call cap Getchar q =
     (case q of [] \<Rightarrow> (Delivered 0 [], []) | c # q \<Rightarrow> (Delivered 1 [c], q))"
| "queue_call cap Data_len q = (Count (length q), q)"
| "queue_call cap Space_len q = (Count (cap - length q), q)"
| "queue_call cap Reset q = (Done, [])"

text \<open>The same calls of the ring buffer.\<close>

fun rb_call :: "fifo_op \<Rightarrow> rt_ringbuffer \<Rightarrow> fifo_result \<times> rt_ringbuffer" where
  "rb_call (Put p) rb = (let (n, rb) = rt_ringbuffer_put rb p (length p) in (Count n, rb))"
| "rb_call (Put_force p) rb = (let (n, rb) = rt_ringbuffer_put_force rb p (length p) in (Count n, rb))"
| "rb_call (Putchar c) rb = (let (n, rb) = rt_ringbuffer_putchar rb c in (Count n, rb))"
| "rb_call (Putchar_force c) rb = (let (n, rb) = rt_ringbuffer_putchar_force rb c in (Count n, rb))"
| "rb_call (Get k) rb = (let (n, out, rb) = rt_ringbuffer_get rb k in (Delivered n out, rb))"
| "rb_call Getchar rb =
     (let (n, c, rb) = rt_ringbuffer_getchar rb in (Delivered n (case c of None \<Rightarrow> [] | Some c \<Rightarrow> [c]), rb))"
| "rb_call Data_len rb = (Count (rt_ringbuffer_data_len rb), rb)"
| "rb_call Space_len rb = (Count (rt_ringbuffer_space_len rb), rb)"
| "rb_call Reset rb = (Done, rt_ringbuffer_reset rb)"

fun client_run :: "('o \<Rightarrow> 's \<Rightarrow> 'r \<times> 's) \<Rightarrow> 'o list \<Rightarrow> 's \<Rightarrow> 'r list \<times> 's" where
  "client_run call [] s = ([], s)"
| "client_run call (x # xs) s = (let (r, s) = call x s; (rs, s) = client_run call xs s in (r # rs, s))"

text \<open>What a provider of byte queues promises: every call does and returns what the reference's does.\<close>

locale byte_fifo =
  fixes wf :: "'q \<Rightarrow> bool" and held :: "'q \<Rightarrow> u8 list" and cap :: "'q \<Rightarrow> nat"
    and call :: "fifo_op \<Rightarrow> 'q \<Rightarrow> fifo_result \<times> 'q"
  assumes call_law: "wf q \<Longrightarrow> call x q = (r, q') \<Longrightarrow>
      queue_call (cap q) x (held q) = (r, held q') \<and> wf q' \<and> cap q' = cap q"
begin

lemma run_law:
  "wf q \<Longrightarrow> client_run call ops q = (rs, q') \<Longrightarrow>
   client_run (queue_call (cap q)) ops (held q) = (rs, held q') \<and> wf q' \<and> cap q' = cap q"
proof (induction ops arbitrary: q rs)
  case (Cons x ops)
  obtain r q1 where one: "call x q = (r, q1)" by fastforce
  obtain rs1 q2 where rest: "client_run call ops q1 = (rs1, q2)" by fastforce
  note law = call_law [OF Cons.prems(1) one]
  with Cons.IH [of q1 rs1] Cons.prems(2) one rest show ?case by auto
qed simp

end

text \<open>The bytes a run of puts and gets put in and took out.\<close>

fun accepted :: "fifo_op list \<Rightarrow> fifo_result list \<Rightarrow> u8 list" where
  "accepted (Put p # ops) (Count n # rs) = take n p @ accepted ops rs"
| "accepted (Putchar c # ops) (Count n # rs) = take n [c] @ accepted ops rs"
| "accepted (_ # ops) (_ # rs) = accepted ops rs"
| "accepted _ _ = []"

fun delivered :: "fifo_result list \<Rightarrow> u8 list" where
  "delivered (Delivered n out # rs) = out @ delivered rs"
| "delivered (_ # rs) = delivered rs"
| "delivered [] = []"

fun discards :: "fifo_op \<Rightarrow> bool" where
  "discards (Put_force p) = True"
| "discards (Putchar_force c) = True"
| "discards Reset = True"
| "discards _ = False"

lemma queue_in_order:
  "client_run (queue_call cap) ops q = (rs, q') \<Longrightarrow> \<forall>x \<in> set ops. \<not> discards x \<Longrightarrow>
   q @ accepted ops rs = delivered rs @ q'"
proof (induction ops arbitrary: q rs)
  case (Cons x ops)
  obtain r q1 where one: "queue_call cap x q = (r, q1)" by fastforce
  from Cons.prems(1) one obtain rs1 where rest: "client_run (queue_call cap) ops q1 = (rs1, q')" and res: "rs = r # rs1"
    by (auto split: prod.splits)
  have IH: "q1 @ accepted ops rs1 = delivered rs1 @ q'" using Cons.IH [OF rest] Cons.prems(2) by simp
  have "q @ accepted (x # ops) (r # rs1) = delivered [r] @ q1 @ accepted ops rs1"
    using one Cons.prems(2) by (cases x) (auto simp: Let_def split: if_splits list.splits)
  also have "\<dots> = delivered (r # rs1) @ q'" unfolding IH by (cases r) simp_all
  finally show ?case unfolding res .
qed simp

lemma rb_bytes_length: "rb_wf rb \<Longrightarrow> rt_ringbuffer_data_len rb = length (rb_bytes rb)"
  by (erule rb_cases) (simp add: data_len_at rb_bytes_at)

lemma put_call:
  assumes "rb_wf rb" and "rt_ringbuffer_put rb p (length p) = (n, rb')"
  shows "queue_call (buffer_size rb) (Put p) (rb_bytes rb) = (Count n, rb_bytes rb')"
    and "rb_wf rb'" and "buffer_size rb' = buffer_size rb"
  using put_bytes [OF assms(1) order_refl assms(2)] by (simp_all add: Let_def)

lemma put_force_call:
  assumes "rb_wf rb" and "rt_ringbuffer_put_force rb p (length p) = (n, rb')"
  shows "queue_call (buffer_size rb) (Put_force p) (rb_bytes rb) = (Count n, rb_bytes rb')"
    and "rb_wf rb'" and "buffer_size rb' = buffer_size rb"
  using put_force_bytes [OF assms(1) order_refl assms(2)] by (simp_all add: Let_def newest_def)

lemma get_call:
  assumes "rb_wf rb" and "rt_ringbuffer_get rb k = (n, out, rb')"
  shows "queue_call (buffer_size rb) (Get k) (rb_bytes rb) = (Delivered n out, rb_bytes rb')"
    and "rb_wf rb'" and "buffer_size rb' = buffer_size rb"
  using get_bytes [OF assms] by (simp_all add: Let_def)

lemma put_one_call:
  "queue_call cap (Put [c]) q = queue_call cap (Putchar c) q"
  "0 < cap \<Longrightarrow> queue_call cap (Put_force [c]) q = queue_call cap (Putchar_force c) q"
  "queue_call cap (Get 1) q = queue_call cap Getchar q"
  by (auto simp: Let_def min_def Suc_le_eq split: list.splits)

interpretation ringbuffer: byte_fifo rb_wf rb_bytes buffer_size rb_call
proof unfold_locales
  fix q q' x r
  assume wf: "rb_wf q" and call: "rb_call x q = (r, q')"
  show "queue_call (buffer_size q) x (rb_bytes q) = (r, rb_bytes q') \<and> rb_wf q' \<and> buffer_size q' = buffer_size q"
  proof (cases x)
    case (Put p)
    then show ?thesis using call put_call [OF wf] by (auto split: prod.splits)
  next
    case (Put_force p)
    then show ?thesis using call put_force_call [OF wf] by (auto split: prod.splits)
  next
    case (Putchar c)
    then obtain n where "rt_ringbuffer_put q [c] (length [c]) = (n, q')" and "r = Count n"
      using call put_one [OF wf, of c] by (auto split: prod.splits)
    with put_call [OF wf] Putchar show ?thesis by (metis put_one_call(1))
  next
    case (Putchar_force c)
    then obtain n where put: "rt_ringbuffer_put_force q [c] (length [c]) = (n, q')" "r = Count n"
      using call put_force_one [OF wf, of c] by (auto split: prod.splits)
    have "0 < buffer_size q" using wf by (auto simp: rb_wf_def)
    with put_force_call [OF wf put(1)] Putchar_force put(2) show ?thesis by (metis put_one_call(2))
  next
    case (Get k)
    then show ?thesis using call get_call [OF wf] by (auto split: prod.splits)
  next
    case Getchar
    then obtain n out where "rt_ringbuffer_get q 1 = (n, out, q')" and "r = Delivered n out"
      using call get_one [OF wf] by (auto split: prod.splits)
    with get_call [OF wf] Getchar show ?thesis by (metis put_one_call(3))
  next
    case Data_len
    then show ?thesis using call wf by (auto simp: rb_bytes_length)
  next
    case Space_len
    then show ?thesis using call wf by (auto simp: rb_bytes_length rt_ringbuffer_space_len_def)
  next
    case Reset
    then show ?thesis using call reset_wf [OF wf] by (auto simp: rt_ringbuffer_reset_def)
  qed
qed

lemma create_wf:
  assumes "rt_ringbuffer_create rb_ok rt_malloc sz = Some rb" and "RT_ALIGN_SIZE \<le> sz"
    and "\<And>n pool. rt_malloc n = Some pool \<Longrightarrow> n \<le> length pool"
  shows "rb_wf rb" and "rb_bytes rb = []" and "buffer_size rb = RT_ALIGN_DOWN sz RT_ALIGN_SIZE"
proof -
  let ?n = "RT_ALIGN_DOWN sz RT_ALIGN_SIZE"
  obtain pool where pool: "rt_malloc ?n = Some pool" and rb: "rb = rt_ringbuffer_init pool ?n"
    using assms(1) by (auto simp: rt_ringbuffer_create_def Let_def split: if_splits option.splits)
  have n: "RT_ALIGN_SIZE \<le> ?n" and again: "RT_ALIGN_DOWN ?n RT_ALIGN_SIZE = ?n"
    using assms(2) by (simp_all add: RT_ALIGN_DOWN_def RT_ALIGN_SIZE_def) presburger+
  show "rb_wf rb" and "rb_bytes rb = []" unfolding rb by (rule init_wf [OF n assms(3) [OF pool]])+
  show "buffer_size rb = ?n" unfolding rb rt_ringbuffer_init_def by (simp add: again)
qed

text \<open>
  C28: a ring buffer created with a size from eight bytes to below 2 GB is a bounded queue of that many
  bytes, rounded down to a multiple of eight.  Whatever puts, forced puts, gets, one-byte calls, length
  queries and resets a client makes, every call returns what that call of the queue returns - a put
  accepts all there is room for, a get delivers all that was asked for and is held, the lengths
  reported are the queue's - and the bytes left in the buffer are the queue's.  So, unless bytes were
  discarded on purpose, what was accepted is what was delivered followed by what is still held.
\<close>

theorem ringbuffer_is_fifo:
  assumes "rt_ringbuffer_create rb_ok rt_malloc sz = Some rb0" and "RT_ALIGN_SIZE \<le> sz" and "sz < 2 ^ 31"
    and "\<And>n pool. rt_malloc n = Some pool \<Longrightarrow> n \<le> length pool"
    and "client_run rb_call ops rb0 = (results, rb)"
  shows "client_run (queue_call (RT_ALIGN_DOWN sz RT_ALIGN_SIZE)) ops [] = (results, rb_bytes rb) \<and>
    rt_ringbuffer_data_len rb = length (rb_bytes rb) \<and>
    length (rb_bytes rb) \<le> RT_ALIGN_DOWN sz RT_ALIGN_SIZE \<and> rb_wf rb \<and>
    ((\<forall>x \<in> set ops. \<not> discards x) \<longrightarrow> accepted ops results = delivered results @ rb_bytes rb)"
proof -
  have new: "rb_wf rb0" "rb_bytes rb0 = []" "buffer_size rb0 = RT_ALIGN_DOWN sz RT_ALIGN_SIZE"
    by (rule create_wf [OF assms(1,2)], erule assms(4))+
  note run = ringbuffer.run_law [OF new(1) assms(5), unfolded new(2,3)]
  then have "length (rb_bytes rb) \<le> RT_ALIGN_DOWN sz RT_ALIGN_SIZE" by (metis bytes_fit)
  with run queue_in_order [of _ ops "[]" results "rb_bytes rb"] show ?thesis
    by (auto simp: rb_bytes_length)
qed

definition put_forces :: "rt_ringbuffer \<Rightarrow> u8 list list \<Rightarrow> rt_ringbuffer" where
  "put_forces = foldl (\<lambda>rb p. snd (rt_ringbuffer_put_force rb p (length p)))"

text \<open>
  Forced puts never fail: after any sequence of them, of any lengths, the buffer holds the newest
  bytes of the whole stream, as many as its size.
\<close>

theorem put_force_keeps_newest:
  assumes "rb_wf rb"
  shows "rb_bytes (put_forces rb ps) = newest (buffer_size rb) (rb_bytes rb @ concat ps) \<and>
    rb_wf (put_forces rb ps)"
  using assms
proof (induction ps arbitrary: rb)
  case Nil
  then obtain b sz m r l where "rb = rb_at b sz m r l" and "rb_fits b sz r l" by (rule rb_cases)
  with Nil show ?case by (simp add: put_forces_def newest_def rb_bytes_at rb_fits_def)
next
  case (Cons p ps)
  obtain n rb1 where put: "rt_ringbuffer_put_force rb p (length p) = (n, rb1)" by fastforce
  note one = put_force_bytes [OF Cons.prems order_refl put]
  have "rb_bytes rb1 = newest (buffer_size rb) (rb_bytes rb @ p)"
    using one(4) by (simp add: newest_def Let_def)
  with Cons.IH [OF one(2)] one(3) put show ?case
    by (simp add: put_forces_def newest_append)
qed

text \<open>
  The single-byte operations do what the block operations do at length one, and a peek hands out
  a non-empty prefix of the bytes held, in one piece, whenever there is one.
\<close>

theorem single_bytes_and_peek:
  assumes "rb_wf rb" and "rt_ringbuffer_peek rb = (n, p, rb')"
  shows "rt_ringbuffer_putchar rb c = rt_ringbuffer_put rb [c] 1 \<and>
    rt_ringbuffer_putchar_force rb c = rt_ringbuffer_put_force rb [c] 1 \<and>
    rt_ringbuffer_get rb 1 =
      (let (k, c, rb1) = rt_ringbuffer_getchar rb in (k, case c of None \<Rightarrow> [] | Some c \<Rightarrow> [c], rb1)) \<and>
    (n = 0 \<longleftrightarrow> rb_bytes rb = []) \<and>
    take n (drop (read_index rb) (buffer_ptr rb)) = take n (rb_bytes rb) \<and>
    rb_bytes rb' = drop n (rb_bytes rb)"
  by (intro conjI; rule put_one [OF assms(1), symmetric] put_force_one [OF assms(1), symmetric]
      get_one [OF assms(1)] peek_bytes [OF assms])

section \<open>Witnesses\<close>

definition ring16 :: rt_ringbuffer where
  "ring16 = rt_ringbuffer_init (replicate 20 0) 20"

lemma ring16: "rb_wf ring16" "rb_bytes ring16 = []"
  unfolding ring16_def by (rule init_wf; simp add: RT_ALIGN_SIZE_def)+

text \<open>Twelve and six bytes into a pool of sixteen: the second put is cut to four, and wraps after a get.\<close>

definition ring_ops :: "fifo_op list" where
  "ring_ops = [Put (replicate 12 1), Put [2, 3, 4, 5, 6, 7], Get 13, Putchar 8, Data_len, Get 9]"

lemma queue_demo: "client_run (queue_call 16) ring_ops [] =
    ([Count 12, Count 4, Delivered 13 (replicate 12 1 @ [2]), Count 1, Count 4, Delivered 4 [3, 4, 5, 8]], [])"
  by (simp add: ring_ops_def Let_def)

lemma ringbuffer_is_fifo_witness:
  "\<exists>rb0 results rb. rt_ringbuffer_create True (\<lambda>n. Some (replicate n 0)) 20 = Some rb0 \<and>
     client_run rb_call ring_ops rb0 = (results, rb) \<and>
     results = [Count 12, Count 4, Delivered 13 (replicate 12 1 @ [2]), Count 1, Count 4, Delivered 4 [3, 4, 5, 8]] \<and>
     rb_bytes rb = []"
proof -
  obtain rb0 where new: "rt_ringbuffer_create True (\<lambda>n. Some (replicate n 0)) 20 = Some rb0"
    by (simp add: rt_ringbuffer_create_def Let_def)
  obtain results rb where run: "client_run rb_call ring_ops rb0 = (results, rb)" by fastforce
  have "client_run (queue_call (RT_ALIGN_DOWN 20 RT_ALIGN_SIZE)) ring_ops [] = (results, rb_bytes rb)"
    using ringbuffer_is_fifo [OF new _ _ _ run] by (simp add: RT_ALIGN_SIZE_def)
  then show ?thesis using new run
    by (simp add: queue_demo RT_ALIGN_DOWN_def RT_ALIGN_SIZE_def)
qed

lemma put_force_keeps_newest_witness:
  "rb_bytes (put_forces ring16 [replicate 15 7, [1, 2, 3]]) = replicate 13 7 @ [1, 2, 3]"
proof -
  have "buffer_size ring16 = 16"
    by (simp add: ring16_def rt_ringbuffer_init_def RT_ALIGN_DOWN_def RT_ALIGN_SIZE_def)
  then show ?thesis
    using put_force_keeps_newest [OF ring16(1), of "[replicate 15 7, [1, 2, 3]]"]
    by (simp add: ring16(2) newest_def)
qed

lemma single_bytes_and_peek_witness:
  "\<exists>p rb'. rt_ringbuffer_peek ring16 = (0, p, rb') \<and> rb_bytes rb' = []"
proof -
  obtain n p rb' where "rt_ringbuffer_peek ring16 = (n, p, rb')" by (metis prod_cases3)
  with single_bytes_and_peek [OF ring16(1) this] show ?thesis by (simp add: ring16(2))
qed

end
