(* ===== verification/Rt_List.thy ===== *)
theory Rt_List
  imports Yk_Prelude
begin

text \<open>
  The circular doubly linked lists of the RT-Thread kernel
  (\<^verbatim>\<open>src/rt-thread/include/rtservice.h\<close>), at the level of their pointers.  A heap of
  nodes is the pair of the functions \<open>nxt\<close> and \<open>prv\<close>.  Nodes are list heads, or the nodes embedded in
  the elements; \<open>rings h L\<close> says that the heap represents the sequences \<open>L\<close>, one for each head, and
  that every element which is in no sequence is linked to itself.  Each operation on pointers is shown
  to be the operation on sequences that its name promises.
\<close>

section \<open>The operations\<close>

record 'n links =
  nxt :: "'n \<Rightarrow> 'n"
  prv :: "'n \<Rightarrow> 'n"

definition rt_list_init :: "'n \<Rightarrow> 'n links \<Rightarrow> 'n links" where
  "rt_list_init l h = h\<lparr>nxt := (nxt h)(l := l), prv := (prv h)(l := l)\<rparr>"

definition rt_list_insert_after :: "'n \<Rightarrow> 'n \<Rightarrow> 'n links \<Rightarrow> 'n links" where
  "rt_list_insert_after l n h =
     (let h = h\<lparr>prv := (prv h)(nxt h l := n)\<rparr>;
          h = h\<lparr>nxt := (nxt h)(n := nxt h l)\<rparr>;
          h = h\<lparr>nxt := (nxt h)(l := n)\<rparr>
      in h\<lparr>prv := (prv h)(n := l)\<rparr>)"

definition rt_list_insert_before :: "'n \<Rightarrow> 'n \<Rightarrow> 'n links \<Rightarrow> 'n links" where
  "rt_list_insert_before l n h =
     (let h = h\<lparr>nxt := (nxt h)(prv h l := n)\<rparr>;
          h = h\<lparr>prv := (prv h)(n := prv h l)\<rparr>;
          h = h\<lparr>prv := (prv h)(l := n)\<rparr>
      in h\<lparr>nxt := (nxt h)(n := l)\<rparr>)"

definition rt_list_remove :: "'n \<Rightarrow> 'n links \<Rightarrow> 'n links" where
  "rt_list_remove n h =
     (let h = h\<lparr>prv := (prv h)(nxt h n := prv h n)\<rparr>;
          h = h\<lparr>nxt := (nxt h)(prv h n := nxt h n)\<rparr>
      in h\<lparr>nxt := (nxt h)(n := n), prv := (prv h)(n := n)\<rparr>)"

definition rt_list_isempty :: "'n \<Rightarrow> 'n links \<Rightarrow> bool" where
  "rt_list_isempty l h \<longleftrightarrow> nxt h l = l"

text \<open>The loop of \<open>rt_list_len\<close>, which does not end on a list that never returns to its head.\<close>

partial_function (option) list_len_loop :: "'n links \<Rightarrow> 'n \<Rightarrow> 'n \<Rightarrow> nat \<Rightarrow> nat option" where
  "list_len_loop h l p len = (if nxt h p \<noteq> l then list_len_loop h l (nxt h p) (len + 1) else Some len)"

definition rt_list_len :: "'n \<Rightarrow> 'n links \<Rightarrow> nat option" where
  "rt_list_len l h = list_len_loop h l l 0"

section \<open>One ring\<close>

fun linked :: "'n links \<Rightarrow> 'n list \<Rightarrow> bool" where
  "linked h (a # b # ns) \<longleftrightarrow> nxt h a = b \<and> prv h b = a \<and> linked h (b # ns)"
| "linked h ns \<longleftrightarrow> True"

definition ring :: "'n links \<Rightarrow> 'n \<Rightarrow> 'n list \<Rightarrow> bool" where
  "ring h l ns \<longleftrightarrow> distinct (l # ns) \<and> linked h (l # ns @ [l])"

lemma linked_append: "linked h (ns @ a # ms) \<longleftrightarrow> linked h (ns @ [a]) \<and> linked h (a # ms)"
proof (induction ns)
  case (Cons x ns)
  then show ?case by (cases ns) auto
qed simp

lemma linked_split:
  "linked h (us @ a # b # vs) \<longleftrightarrow>
   linked h (us @ [a]) \<and> nxt h a = b \<and> prv h b = a \<and> linked h (b # vs)"
  by (subst linked_append) simp

lemma linked_cong:
  assumes "\<And>n. n \<in> set (butlast ns) \<Longrightarrow> nxt h n = nxt h' n"
    and "\<And>n. n \<in> set (tl ns) \<Longrightarrow> prv h n = prv h' n"
  shows "linked h ns = linked h' ns"
  using assms by (induction h ns rule: linked.induct) auto

lemma ring_cong:
  assumes "\<And>n. n \<in> set (l # ns) \<Longrightarrow> nxt h n = nxt h' n \<and> prv h n = prv h' n"
  shows "ring h l ns = ring h' l ns"
proof -
  have "linked h (l # ns @ [l]) = linked h' (l # ns @ [l])"
    by (rule linked_cong) (use assms in \<open>auto simp: butlast_append\<close>)
  then show ?thesis by (simp add: ring_def)
qed

text \<open>A ring seen from one of its links: \<open>a\<close> and \<open>b\<close> are neighbours.\<close>

lemma ring_around:
  obtains us a b vs where "l # xs = us @ [a]" and "ys @ [l] = b # vs"
proof -
  obtain us a where "l # xs = us @ [a]" by (metis append_butlast_last_id list.distinct(1))
  moreover obtain b vs where "ys @ [l] = b # vs" by (cases "ys @ [l]") auto
  ultimately show ?thesis by (rule that)
qed

lemma ring_link:
  assumes "l # xs = us @ [a]" and "ys @ [l] = b # vs"
  shows "ring h l (xs @ ys) \<longleftrightarrow>
    distinct (l # xs @ ys) \<and> linked h (us @ [a]) \<and> nxt h a = b \<and> prv h b = a \<and> linked h (b # vs)"
proof -
  have "l # (xs @ ys) @ [l] = (l # xs) @ (ys @ [l])" by simp
  also have "\<dots> = us @ a # b # vs" unfolding assms by simp
  finally show ?thesis by (simp add: ring_def linked_split)
qed

lemma ring_link_in:
  assumes "l # xs = us @ [a]" and "ys @ [l] = b # vs"
  shows "ring h l (xs @ n # ys) \<longleftrightarrow>
    distinct (l # xs @ n # ys) \<and> linked h (us @ [a]) \<and> nxt h a = n \<and> prv h n = a \<and>
    nxt h n = b \<and> prv h b = n \<and> linked h (b # vs)"
proof -
  have "l # (xs @ n # ys) @ [l] = (l # xs) @ n # (ys @ [l])" by simp
  also have "\<dots> = us @ a # n # b # vs" unfolding assms by simp
  finally show ?thesis by (auto simp: ring_def linked_split)
qed

text \<open>Rewiring the link between \<open>a\<close> and \<open>b\<close> leaves the two halves of the ring linked.\<close>

lemma halves_linked:
  assumes "l # xs = us @ [a]" and "ys @ [l] = b # vs" and "distinct (l # xs @ ys)" and "n \<notin> set (l # xs @ ys)"
    and "\<And>m. m \<noteq> a \<Longrightarrow> m \<noteq> n \<Longrightarrow> nxt h' m = nxt h m" and "\<And>m. m \<noteq> b \<Longrightarrow> m \<noteq> n \<Longrightarrow> prv h' m = prv h m"
  shows "linked h' (us @ [a]) = linked h (us @ [a])" and "linked h' (b # vs) = linked h (b # vs)"
proof -
  have d: "distinct (us @ [a])" using assms(1,3) by (metis distinct_append append_Cons)
  have ab: "b \<notin> set xs" "a \<notin> set ys" "n \<notin> set (us @ [a])" "n \<notin> set (b # vs)"
    using assms(1-4) by (auto simp: Cons_eq_append_conv append_eq_Cons_conv)
  have xs: "tl (us @ [a]) = xs" and ys: "butlast (b # vs) = ys"
    using assms(1,2) by (metis list.sel(3), metis butlast_snoc)
  have d': "distinct (b # vs)" using assms(3) unfolding assms(2) [symmetric] by auto
  show "linked h' (us @ [a]) = linked h (us @ [a])"
  proof (rule linked_cong)
    fix m assume "m \<in> set (butlast (us @ [a]))"
    then have "m \<noteq> a" "m \<noteq> n" using d ab by auto
    then show "nxt h' m = nxt h m" by (rule assms(5))
  next
    fix m assume "m \<in> set (tl (us @ [a]))"
    then have "m \<noteq> b" "m \<noteq> n" using ab assms(4) by (auto simp: xs)
    then show "prv h' m = prv h m" by (rule assms(6))
  qed
  show "linked h' (b # vs) = linked h (b # vs)"
  proof (rule linked_cong)
    fix m assume "m \<in> set (butlast (b # vs))"
    then have "m \<noteq> a" "m \<noteq> n" using ab assms(4) unfolding ys by auto
    then show "nxt h' m = nxt h m" by (rule assms(5))
  next
    fix m assume "m \<in> set (tl (b # vs))"
    then have "m \<noteq> b" "m \<noteq> n" using ab d' by auto
    then show "prv h' m = prv h m" by (rule assms(6))
  qed
qed

lemma ring_init: "ring (rt_list_init l h) l []"
  by (simp add: ring_def rt_list_init_def)

lemma ring_remove:
  assumes "ring h l (xs @ n # ys)"
  shows "ring (rt_list_remove n h) l (xs @ ys)"
proof -
  obtain us a b vs where ab: "l # xs = us @ [a]" "ys @ [l] = b # vs" by (rule ring_around)
  note r = assms [unfolded ring_link_in [OF ab]]
  have n: "a \<noteq> n" "b \<noteq> n" using r ab by (auto simp: Cons_eq_append_conv append_eq_Cons_conv)
  have "distinct (l # xs @ ys)" and "n \<notin> set (l # xs @ ys)" using r by auto
  note halves = halves_linked [OF ab this, where h = h and h' = "rt_list_remove n h"]
  show ?thesis
    unfolding ring_link [OF ab]
    using r n halves by (auto simp: rt_list_remove_def Let_def)
qed

lemma remove_self: "nxt (rt_list_remove n h) n = n" "prv (rt_list_remove n h) n = n"
  by (simp_all add: rt_list_remove_def Let_def)

lemma ring_insert_before:
  assumes "ring h l (xs @ ys)" and "n \<notin> set (l # xs @ ys)" and "ys @ [l] = b # vs"
  shows "ring (rt_list_insert_before b n h) l (xs @ n # ys)"
proof -
  obtain us a where "l # xs = us @ [a]" by (metis append_butlast_last_id list.distinct(1))
  note ab = this assms(3)
  note r = assms(1) [unfolded ring_link [OF ab]]
  have n: "a \<noteq> n" "b \<noteq> n" using assms(2) ab by (auto simp: Cons_eq_append_conv append_eq_Cons_conv)
  have d: "distinct (l # xs @ ys)" using r by blast
  note halves = halves_linked [OF ab d assms(2), where h = h and h' = "rt_list_insert_before b n h"]
  show ?thesis
    unfolding ring_link_in [OF ab]
    using r n halves assms(2) by (auto simp: rt_list_insert_before_def Let_def)
qed

lemma ring_insert_after:
  assumes "ring h l ys" and "n \<notin> set (l # ys)"
  shows "ring (rt_list_insert_after l n h) l (n # ys)"
proof -
  obtain b vs where "ys @ [l] = b # vs" by (cases "ys @ [l]") auto
  then have ab: "l # [] = [] @ [l]" "ys @ [l] = b # vs" by simp_all
  have "ring h l ([] @ ys)" using assms(1) by simp
  note r = this [unfolded ring_link [OF ab]]
  have n: "l \<noteq> n" "b \<noteq> n" using assms(2) ab by (auto simp: Cons_eq_append_conv append_eq_Cons_conv)
  have d: "distinct (l # [] @ ys)" and n': "n \<notin> set (l # [] @ ys)" using r assms(2) by auto
  note halves = halves_linked [OF ab d n', where h = h and h' = "rt_list_insert_after l n h"]
  have "ring (rt_list_insert_after l n h) l ([] @ n # ys)"
    unfolding ring_link_in [OF ab]
    using r n halves assms(2) by (auto simp: rt_list_insert_after_def Let_def)
  then show ?thesis by simp
qed

lemma ring_isempty: "ring h l ns \<Longrightarrow> rt_list_isempty l h \<longleftrightarrow> ns = []"
  by (cases ns) (auto simp: ring_def rt_list_isempty_def)

lemma ring_first: "ring h l (n # ns) \<Longrightarrow> nxt h l = n"
  by (simp add: ring_def)

lemma ring_last: "ring h l (ns @ [n]) \<Longrightarrow> prv h l = n"
  by (auto simp: ring_def linked_split [of h "l # ns" n l "[]", simplified])

lemma len_loop:
  assumes "linked h (p # ns @ [l])" and "l \<notin> set ns"
  shows "list_len_loop h l p k = Some (k + length ns)"
  using assms
proof (induction ns arbitrary: p k)
  case Nil
  then show ?case by (subst list_len_loop.simps) simp
next
  case (Cons n ns)
  then have "nxt h p = n" and "n \<noteq> l" and "linked h (n # ns @ [l])" by auto
  with Cons show ?case by (subst list_len_loop.simps) simp
qed

lemma ring_len: "ring h l ns \<Longrightarrow> rt_list_len l h = Some (length ns)"
  unfolding rt_list_len_def using len_loop [of h l ns l 0] by (simp add: ring_def)

section \<open>All rings of a heap\<close>

datatype ('h, 'n) lnode = Head 'h | Node 'n

definition rings :: "('h, 'n) lnode links \<Rightarrow> ('h \<Rightarrow> 'n list) \<Rightarrow> bool" where
  "rings h L \<longleftrightarrow>
     (\<forall>l. ring h (Head l) (map Node (L l))) \<and>
     (\<forall>l k. l \<noteq> k \<longrightarrow> set (L l) \<inter> set (L k) = {}) \<and>
     (\<forall>n. (\<forall>l. n \<notin> set (L l)) \<longrightarrow> nxt h (Node n) = Node n \<and> prv h (Node n) = Node n)"

definition unlinked :: "'n links" where
  "unlinked = \<lparr>nxt = (\<lambda>n. n), prv = (\<lambda>n. n)\<rparr>"

lemma rings_unlinked: "rings unlinked (\<lambda>_. [])"
  by (simp add: rings_def ring_def unlinked_def)

lemma init_unlinked [simp]: "rt_list_init l unlinked = unlinked"
  by (simp add: rt_list_init_def unlinked_def fun_upd_idem)

lemma fold_init_unlinked [simp]: "foldl (\<lambda>h i. rt_list_init (f i) h) unlinked xs = unlinked"
  by (induction xs) simp_all

lemma rings_ring: "rings h L \<Longrightarrow> ring h (Head l) (map Node (L l))"
  by (simp add: rings_def)

text \<open>A heap represents one family of sequences only.\<close>

lemma linked_unique:
  assumes "linked h (a # ns @ [l])" and "linked h (a # ms @ [l])" and "l \<notin> set ns" and "l \<notin> set ms"
  shows "ns = ms"
  using assms
proof (induction ns arbitrary: a ms)
  case Nil
  then show ?case by (cases ms) auto
next
  case (Cons n ns)
  then obtain ms' where "ms = n # ms'" by (cases ms) auto
  with Cons show ?case by auto
qed

lemma rings_unique: "rings h L \<Longrightarrow> rings h M \<Longrightarrow> L l = M l"
  using linked_unique [of h "Head l" "map Node (L l)" "Head l" "map Node (M l)"] rings_ring [of h L l] rings_ring [of h M l]
  by (auto simp: ring_def inj_map_eq_map inj_def)

lemma rings_distinct: "rings h L \<Longrightarrow> distinct (L l)"
  using rings_ring [of h L l] by (auto simp: ring_def distinct_map)

lemma rings_once: "rings h L \<Longrightarrow> n \<in> set (L l) \<Longrightarrow> n \<in> set (L k) \<Longrightarrow> k = l"
  by (auto simp: rings_def)

lemma rings_update:
  assumes h: "rings h L" and new: "ring h' (Head l) (map Node ns)"
    and frame: "\<And>m. m \<noteq> Head l \<Longrightarrow> m \<notin> Node ` insert n (set (L l)) \<Longrightarrow>
      nxt h' m = nxt h m \<and> prv h' m = prv h m"
    and sets: "set ns \<subseteq> insert n (set (L l))" "set (L l) \<subseteq> insert n (set ns)"
    and only: "\<And>k. k \<noteq> l \<Longrightarrow> n \<notin> set (L k)"
    and out: "n \<notin> set ns \<Longrightarrow> nxt h' (Node n) = Node n \<and> prv h' (Node n) = Node n"
  shows "rings h' (L(l := ns))"
  unfolding rings_def
proof (intro conjI allI impI)
  fix k show "ring h' (Head k) (map Node ((L(l := ns)) k))"
  proof (cases "k = l")
    case False
    have "ring h (Head k) (map Node (L k)) = ring h' (Head k) (map Node (L k))"
    proof (rule ring_cong)
      fix m assume "m \<in> set (Head k # map Node (L k))"
      then have "m \<noteq> Head l" "m \<notin> Node ` insert n (set (L l))"
        using False only rings_once [OF h, of _ k l] by auto
      then show "nxt h m = nxt h' m \<and> prv h m = prv h' m" using frame by simp
    qed
    with h False show ?thesis by (simp add: rings_def)
  qed (simp add: new)
next
  fix k k' :: 'a assume "k \<noteq> k'"
  have sub: "x \<in> set (L l) \<or> x = n" if "x \<in> set ns" for x using that sets(1) by auto
  show "set ((L(l := ns)) k) \<inter> set ((L(l := ns)) k') = {}"
  proof (rule equals0I)
    fix x assume "x \<in> set ((L(l := ns)) k) \<inter> set ((L(l := ns)) k')"
    then have "x \<in> set ((L(l := ns)) k)" "x \<in> set ((L(l := ns)) k')" by simp_all
    then show False
      using \<open>k \<noteq> k'\<close> sub [of x] rings_once [OF h, of x k k'] only [of k] only [of k']
      by (cases "k = l"; cases "k' = l") (auto dest: rings_once [OF h])
  qed
next
  fix m assume m: "\<forall>k. m \<notin> set ((L(l := ns)) k)"
  have "nxt h' (Node m) = Node m \<and> prv h' (Node m) = Node m"
  proof (cases "m = n")
    case True
    then show ?thesis using out m by (metis fun_upd_same)
  next
    case False
    then have "m \<notin> set (L k)" for k using m sets(2) by (cases "k = l") (auto split: if_splits)
    then show ?thesis using h frame [of "Node m"] False by (auto simp: rings_def)
  qed
  then show "nxt h' (Node m) = Node m" and "prv h' (Node m) = Node m" by auto
qed

lemma neighbours:
  assumes "ring h l (xs @ n # ys)"
  shows "prv h n \<in> set (l # xs)" and "nxt h n \<in> set (l # ys)"
proof -
  obtain us a b vs where ab: "l # xs = us @ [a]" "ys @ [l] = b # vs" by (rule ring_around)
  have "prv h n = a" "nxt h n = b" using assms [unfolded ring_link_in [OF ab]] by auto
  moreover have "a \<in> set (l # xs)" unfolding ab by simp
  moreover have "b \<in> set (ys @ [l])" unfolding ab by simp
  ultimately show "prv h n \<in> set (l # xs)" and "nxt h n \<in> set (l # ys)" by auto
qed

lemma rings_remove_in:
  assumes h: "rings h L" and l: "L l = xs @ n # ys"
  shows "rings (rt_list_remove (Node n) h) (L(l := xs @ ys))"
proof (rule rings_update [OF h])
  have r: "ring h (Head l) (map Node xs @ Node n # map Node ys)"
    using rings_ring [OF h, of l] l by simp
  show "ring (rt_list_remove (Node n) h) (Head l) (map Node (xs @ ys))"
    using ring_remove [OF r] by simp
  note nb = neighbours [OF r]
  fix m assume "m \<noteq> Head l" "m \<notin> Node ` insert n (set (L l))"
  then have "m \<noteq> prv h (Node n)" "m \<noteq> nxt h (Node n)" "m \<noteq> Node n" using nb l by auto
  then show "nxt (rt_list_remove (Node n) h) m = nxt h m \<and> prv (rt_list_remove (Node n) h) m = prv h m"
    by (auto simp: rt_list_remove_def Let_def)
next
  fix k assume "k \<noteq> l"
  then show "n \<notin> set (L k)" using rings_once [OF h, of n l k] l by auto
qed (use l in \<open>auto simp: remove_self\<close>)

lemma rings_remove_out:
  assumes "rings h L" and "\<And>l. n \<notin> set (L l)"
  shows "rt_list_remove (Node n) h = h"
proof -
  have "nxt h (Node n) = Node n" "prv h (Node n) = Node n" using assms by (auto simp: rings_def)
  then show ?thesis by (simp add: rt_list_remove_def Let_def fun_upd_idem)
qed

text \<open>Removing an element, wherever it is.\<close>

lemma rings_remove: "rings h L \<Longrightarrow> rings (rt_list_remove (Node n) h) (\<lambda>l. removeAll n (L l))"
proof (cases "\<exists>l. n \<in> set (L l)")
  case True
  assume h: "rings h L"
  from True obtain l xs ys where l: "L l = xs @ n # ys" by (meson split_list)
  have "(\<lambda>k. removeAll n (L k)) = L(l := xs @ ys)"
  proof
    fix k show "removeAll n (L k) = (L(l := xs @ ys)) k"
    proof (cases "k = l")
      case True
      with rings_distinct [OF h, of l] l show ?thesis by (simp add: removeAll_id)
    next
      case False
      then have "n \<notin> set (L k)" using rings_once [OF h, of n l k] l by auto
      with False show ?thesis by simp
    qed
  qed
  with rings_remove_in [OF h l] show ?thesis by simp
next
  case False
  assume "rings h L"
  with False show ?thesis by (simp add: rings_remove_out removeAll_id)
qed

lemma rings_insert_before:
  assumes h: "rings h L" and l: "L l = xs @ ys" and n: "\<And>k. n \<notin> set (L k)"
    and b: "b = (case ys of [] \<Rightarrow> Head l | y # _ \<Rightarrow> Node y)"
  shows "rings (rt_list_insert_before b (Node n) h) (L(l := xs @ n # ys))"
proof (rule rings_update [OF h])
  have r: "ring h (Head l) (map Node xs @ map Node ys)" using rings_ring [OF h, of l] l by simp
  have n': "Node n \<notin> set (Head l # map Node xs @ map Node ys)" using n [of l] l by auto
  obtain vs where vs: "map Node ys @ [Head l] = b # vs" using b by (cases ys) auto
  show "ring (rt_list_insert_before b (Node n) h) (Head l) (map Node (xs @ n # ys))"
    using ring_insert_before [OF r n' vs] by simp
  obtain us a where a: "Head l # map Node xs = us @ [a]" by (metis append_butlast_last_id list.distinct(1))
  have p: "prv h b = a" using r [unfolded ring_link [OF a vs]] by blast
  have "a \<in> set (Head l # map Node xs)" "b \<in> set (map Node ys @ [Head l])" unfolding a vs by simp_all
  note ab = this
  fix m assume "m \<noteq> Head l" "m \<notin> Node ` insert n (set (L l))"
  then have "m \<noteq> a" "m \<noteq> b" "m \<noteq> Node n" using ab l by auto
  then show "nxt (rt_list_insert_before b (Node n) h) m = nxt h m \<and>
      prv (rt_list_insert_before b (Node n) h) m = prv h m"
    by (auto simp: rt_list_insert_before_def Let_def p)
qed (use l n in auto)

lemma rings_append:
  "rings h L \<Longrightarrow> (\<And>k. n \<notin> set (L k)) \<Longrightarrow>
   rings (rt_list_insert_before (Head l) (Node n) h) (L(l := L l @ [n]))"
  by (rule rings_insert_before [where ys = "[]"]) auto

lemma rings_push:
  assumes h: "rings h L" and n: "\<And>k. n \<notin> set (L k)"
  shows "rings (rt_list_insert_after (Head l) (Node n) h) (L(l := n # L l))"
proof (rule rings_update [OF h])
  have r: "ring h (Head l) (map Node (L l))" by (rule rings_ring [OF h])
  have "Node n \<notin> set (Head l # map Node (L l))" using n [of l] by auto
  from ring_insert_after [OF r this]
  show "ring (rt_list_insert_after (Head l) (Node n) h) (Head l) (map Node (n # L l))" by simp
  have "nxt h (Head l) \<in> set (Head l # map Node (L l))"
    using r by (cases "L l") (auto simp: ring_def)
  note b = this
  fix m assume "m \<noteq> Head l" "m \<notin> Node ` insert n (set (L l))"
  then have "m \<noteq> nxt h (Head l)" "m \<noteq> Node n" using b by auto
  with \<open>m \<noteq> Head l\<close> show "nxt (rt_list_insert_after (Head l) (Node n) h) m = nxt h m \<and>
      prv (rt_list_insert_after (Head l) (Node n) h) m = prv h m"
    by (auto simp: rt_list_insert_after_def Let_def)
qed (use n in auto)

lemma rings_isempty: "rings h L \<Longrightarrow> rt_list_isempty (Head l) h \<longleftrightarrow> L l = []"
  using ring_isempty [OF rings_ring, of h L l] by simp

lemma rings_first: "rings h L \<Longrightarrow> L l \<noteq> [] \<Longrightarrow> nxt h (Head l) = Node (hd (L l))"
  using rings_ring [of h L l] by (cases "L l") (auto simp: ring_def)

lemma rings_len: "rings h L \<Longrightarrow> rt_list_len (Head l) h = Some (length (L l))"
  using ring_len [OF rings_ring, of h L l] by simp

lemma rings_node_isempty: "rings h L \<Longrightarrow> rt_list_isempty (Node n) h \<longleftrightarrow> (\<forall>l. n \<notin> set (L l))"
proof (cases "\<exists>l. n \<in> set (L l)")
  case True
  assume h: "rings h L"
  from True obtain l xs ys where "L l = xs @ n # ys" by (meson split_list)
  then have r: "ring h (Head l) (map Node xs @ Node n # map Node ys)"
    using rings_ring [OF h, of l] by simp
  have "distinct (map Node xs @ Node n # map Node ys :: ('a, 'b) lnode list)" using r by (simp add: ring_def)
  then have "nxt h (Node n) \<noteq> Node n" using neighbours(2) [OF r] by auto
  with True show ?thesis by (auto simp: rt_list_isempty_def)
next
  case False
  assume "rings h L"
  with False show ?thesis by (auto simp: rt_list_isempty_def rings_def)
qed

end
