(* ===== verification/Rt_Can.thy ===== *)
theory Rt_Can
  imports Rt_List Yk_Device
begin

text \<open>
  The CAN device of RT-Thread (\<^verbatim>\<open>src/rt-thread/components/drivers/can/can.c\<close>), which stands
  between the controller's interrupts and the threads that read and write messages, and the
  completions it waits on (\<^verbatim>\<open>ipc/completion.c\<close>).  The state is one record; its lists are kept
  as pointers (theory \<open>Rt_List\<close>), one heap for the receive slots, one for the lists of the filter banks
  and one for the send boxes.  A function is cut into operations where another thread or an interrupt
  can come in: around the stretches that run with interrupts off, and where it waits, so that every
  interleaving is a sequence of operations.  An interrupt runs to its end.  The controller driver and the
  allocator are the record \<open>can_ops\<close>, all of whose functions are there.  A failed \<open>RT_ASSERT\<close> sets
  \<open>can_assert\<close>; reading an uninitialised variable sets \<open>can_ub\<close>.  The device lock, taken only to open and
  close, is left out.
\<close>

section \<open>Completions\<close>

record rt_completion =
  completed :: bool
  waiter :: "nat option"
  wait_assert :: bool

datatype wait_result = Return int | Suspend

definition rt_completion_init :: rt_completion where
  "rt_completion_init = \<lparr>completed = False, waiter = None, wait_assert = False\<rparr>"

text \<open>\<open>rt_completion_wait\<close> of thread \<open>t\<close>, up to where it returns or is suspended.\<close>

definition rt_completion_wait :: "nat \<Rightarrow> int \<Rightarrow> rt_completion \<Rightarrow> wait_result \<times> rt_completion" where
  "rt_completion_wait t timeout c =
     (if \<not> completed c then
        let c = c\<lparr>wait_assert := (wait_assert c \<or> waiter c \<noteq> None)\<rparr>
        in if timeout = 0 then (Return (- RT_ETIMEOUT), c)
           else (Suspend, c\<lparr>waiter := Some t\<rparr>)
      else (Return RT_EOK, c\<lparr>completed := False\<rparr>))"

text \<open>The same call after \<open>rt_schedule\<close>, for a thread resumed with error code \<open>e\<close>.\<close>

definition rt_completion_wait_resumed :: "int \<Rightarrow> rt_completion \<Rightarrow> int \<times> rt_completion" where
  "rt_completion_wait_resumed e c = (e, c\<lparr>completed := False\<rparr>)"

text \<open>The first component is the thread resumed.\<close>

definition rt_completion_done :: "rt_completion \<Rightarrow> nat option \<times> rt_completion" where
  "rt_completion_done c =
     (if completed c then (None, c)
      else
        let c = c\<lparr>completed := True\<rparr>
        in case waiter c of
             Some t \<Rightarrow> (Some t, c\<lparr>waiter := None\<rparr>)
           | None \<Rightarrow> (None, c))"

section \<open>The device\<close>

record rt_can_msg = can_msg +
  priv :: nat
  hdr_index :: int

record can_filter_item =
  f_id :: "29 word"
  f_ide :: bool
  f_rtr :: bool
  f_mode :: bool
  f_mask :: u32
  hdr_bank :: int
  f_ind :: bool

definition no_filter :: can_filter_item where
  "no_filter = \<lparr>f_id = 0, f_ide = False, f_rtr = False, f_mode = False, f_mask = 0, hdr_bank = 0,
                f_ind = False\<rparr>"

record can_hdr =
  connected :: bool
  msgs :: nat
  flt :: can_filter_item

datatype rx_list = RxFree | RxUse

datatype snd_result = RT_CAN_SND_RESULT_OK | RT_CAN_SND_RESULT_ERR | RT_CAN_SND_RESULT_WAIT

text \<open>
  \<open>rx_alloc\<close>, \<open>tx_alloc\<close> and \<open>hdr_alloc\<close> tell whether \<open>can_rx\<close>, \<open>can_tx\<close> and \<open>hdr\<close> are non-null; the fields
  behind them are what these pointers point to.  \<open>calls\<close> lists the indication callbacks made, with the
  filter bank (none for \<open>rx_indicate\<close>) and the number of messages reported.
\<close>

record 'w rt_can =
  dev_flag :: u16
  open_flag :: u16
  ref_count :: nat
  rx_indicate :: bool
  msgboxsz :: nat
  sndboxnumber :: nat
  maxhdr :: nat
  privmode :: nat
  rcvpkg :: u32
  dropedrcvpkg :: u32
  sndpkg :: u32
  dropedsndpkg :: u32
  rcvchange :: bool
  sndchange :: bool
  timerinitflag :: nat
  timer_on :: bool
  status_ind :: bool
  hdr_alloc :: bool
  hdr :: "nat \<Rightarrow> can_hdr"
  hdr_links :: "(nat, nat) lnode links"
  rx_alloc :: bool
  freenumbers :: nat
  rx_data :: "nat \<Rightarrow> rt_can_msg"
  rx_owner :: "nat \<Rightarrow> nat option"
  rx_links :: "(rx_list, nat) lnode links"
  tx_alloc :: bool
  tx_sem :: nat
  tx_result :: "nat \<Rightarrow> snd_result"
  tx_done :: "nat \<Rightarrow> rt_completion"
  tx_links :: "(unit, nat) lnode links"
  calls :: "(nat option \<times> nat) list"
  status_calls :: nat
  can_assert :: bool
  can_ub :: bool
  can_world :: 'w

datatype can_cmd =
  RT_DEVICE_CTRL_SUSPEND | RT_DEVICE_CTRL_RESUME | RT_DEVICE_CTRL_CONFIG
| RT_CAN_CMD_SET_PRIV nat | RT_CAN_CMD_SET_STATUS_IND bool
| RT_CAN_CMD_SET_FILTER bool "can_filter_item list"
| CAN_CMD_DRIVER nat nat

text \<open>
  The controller driver: \<open>configure\<close>, \<open>sendmsg\<close> and \<open>recvmsg\<close> of \<open>struct rt_can_ops\<close>, its \<open>control\<close> for the
  commands, and \<open>drv_set_priv\<close>, its \<open>control\<close> for \<open>RT_CAN_CMD_SET_PRIV\<close> with the mode it leaves in the
  configuration.  \<open>drv_alloc\<close> tells whether \<open>rt_malloc\<close> succeeds.
\<close>

record 'w can_ops =
  drv_configure :: "'w \<Rightarrow> int \<times> 'w"
  drv_control :: "nat \<Rightarrow> nat \<Rightarrow> 'w \<Rightarrow> int \<times> 'w"
  drv_set_filter :: "bool \<Rightarrow> can_filter_item list \<Rightarrow> 'w \<Rightarrow> int \<times> 'w"
  drv_set_priv :: "nat \<Rightarrow> nat \<Rightarrow> 'w \<Rightarrow> int \<times> nat \<times> 'w"
  drv_sendmsg :: "rt_can_msg \<Rightarrow> nat \<Rightarrow> 'w \<Rightarrow> int \<times> 'w"
  drv_recvmsg :: "nat \<Rightarrow> 'w \<Rightarrow> rt_can_msg option \<times> 'w"
  drv_alloc :: "'w \<Rightarrow> bool \<times> 'w"

definition RT_DEVICE_FLAG_SUSPENDED :: u16 where "RT_DEVICE_FLAG_SUSPENDED = 0x020"
definition RT_DEVICE_FLAG_INT_RX :: u16 where "RT_DEVICE_FLAG_INT_RX = 0x100"
definition RT_DEVICE_FLAG_INT_TX :: u16 where "RT_DEVICE_FLAG_INT_TX = 0x400"
definition RT_DEVICE_CTRL_SET_INT :: nat where "RT_DEVICE_CTRL_SET_INT = 0x06"
definition RT_DEVICE_CTRL_CLR_INT :: nat where "RT_DEVICE_CTRL_CLR_INT = 0x07"
definition RT_DEVICE_CAN_INT_ERR :: nat where "RT_DEVICE_CAN_INT_ERR = 0x1000"
definition RT_CAN_EVENT_RX_IND :: nat where "RT_CAN_EVENT_RX_IND = 0x01"
definition RT_CAN_EVENT_TX_DONE :: nat where "RT_CAN_EVENT_TX_DONE = 0x02"
definition RT_CAN_EVENT_TX_FAIL :: nat where "RT_CAN_EVENT_TX_FAIL = 0x03"
definition RT_CAN_EVENT_RXOF_IND :: nat where "RT_CAN_EVENT_RXOF_IND = 0x06"
definition RT_CAN_CMD_GET_STATUS :: nat where "RT_CAN_CMD_GET_STATUS = 0x17"

definition rt_assert :: "bool \<Rightarrow> 'w rt_can \<Rightarrow> 'w rt_can" where
  "rt_assert b c = c\<lparr>can_assert := (can_assert c \<or> \<not> b)\<rparr>"

definition run_control :: "'w can_ops \<Rightarrow> nat \<Rightarrow> nat \<Rightarrow> 'w rt_can \<Rightarrow> 'w rt_can" where
  "run_control D cmd arg c = c\<lparr>can_world := snd (drv_control D cmd arg (can_world c))\<rparr>"

text \<open>The element that a list node is embedded in; the code asks only for nodes of non-empty lists.\<close>

fun rt_list_entry :: "('h, nat) lnode \<Rightarrow> nat" where
  "rt_list_entry (Node i) = i"
| "rt_list_entry (Head l) = 0"

section \<open>Receiving\<close>

definition rx_unlink :: "nat \<Rightarrow> 'w rt_can \<Rightarrow> 'w rt_can" where
  "rx_unlink i c =
     c\<lparr>rx_links := rt_list_remove (Node i) (rx_links c),
       hdr_links := rt_list_remove (Node i) (hdr_links c)\<rparr>"

definition hdr_dec :: "nat \<Rightarrow> 'w rt_can \<Rightarrow> 'w rt_can" where
  "hdr_dec h c =
     (if msgs (hdr c h) \<noteq> 0 then c\<lparr>hdr := (hdr c)(h := (hdr c h)\<lparr>msgs := msgs (hdr c h) - 1\<rparr>)\<rparr> else c)"

definition rx_disown :: "nat \<Rightarrow> 'w rt_can \<Rightarrow> 'w rt_can" where
  "rx_disown i c =
     (let c = (case rx_owner c i of Some h \<Rightarrow> hdr_dec h c | None \<Rightarrow> c)
      in c\<lparr>rx_owner := (rx_owner c)(i := None)\<rparr>)"

text \<open>The first critical section of \<open>_can_int_rx\<close>: the slot taken for a caller that asks for bank \<open>bank\<close>.\<close>

definition rx_take :: "int \<Rightarrow> 'w rt_can \<Rightarrow> nat option \<times> 'w rt_can" where
  "rx_take bank c =
     (if 0 \<le> bank \<and> hdr_alloc c \<and> nat bank < maxhdr c \<and> \<not> rt_list_isempty (Head (nat bank)) (hdr_links c) then
        let i = rt_list_entry (nxt (hdr_links c) (Head (nat bank)));
            c = hdr_dec (nat bank) (rx_unlink i c)
        in (Some i, c\<lparr>rx_owner := (rx_owner c)(i := None)\<rparr>)
      else if bank = -1 then
        if \<not> rt_list_isempty (Head RxUse) (rx_links c) then
          let i = rt_list_entry (nxt (rx_links c) (Head RxUse))
          in (Some i, rx_disown i (rx_unlink i c))
        else (None, c)
      else (None, c))"

text \<open>Its second critical section gives the slot back.\<close>

definition rx_give :: "nat \<Rightarrow> 'w rt_can \<Rightarrow> 'w rt_can" where
  "rx_give i c =
     (let c = c\<lparr>rx_links := rt_list_insert_before (Head RxFree) (Node i) (rx_links c),
                freenumbers := freenumbers c + 1\<rparr>
      in rt_assert (freenumbers c \<le> msgboxsz c) c)"

text \<open>The caller's buffer holds one message for each it wants; the result is what overwrites it.\<close>

fun can_int_rx :: "rt_can_msg list \<Rightarrow> 'w rt_can \<Rightarrow> rt_can_msg list \<times> 'w rt_can" where
  "can_int_rx [] c = ([], c)"
| "can_int_rx (b # bs) c =
     (case rx_take (hdr_index b) c of
        (None, c) \<Rightarrow> ([], c)
      | (Some i, c) \<Rightarrow>
          let m = rx_data c i;
              (ms, c) = can_int_rx bs (rx_give i c)
          in (m # ms, c))"

definition rt_can_read :: "rt_can_msg list \<Rightarrow> 'w rt_can \<Rightarrow> rt_can_msg list \<times> 'w rt_can" where
  "rt_can_read buffer c =
     (if buffer = [] then ([], c)
      else if open_flag c AND RT_DEVICE_FLAG_INT_RX \<noteq> 0 \<and> ref_count c > 0
      then can_int_rx buffer (rt_assert (rx_alloc c) c)
      else ([], c))"

text \<open>The interrupt's choice of a slot: a free one, or else the oldest unread one.\<close>

definition isr_slot :: "'w rt_can \<Rightarrow> nat option \<times> 'w rt_can" where
  "isr_slot c =
     (if \<not> rt_list_isempty (Head RxFree) (rx_links c) then
        let i = rt_list_entry (nxt (rx_links c) (Head RxFree));
            c = rx_disown i (rx_unlink i c);
            c = rt_assert (freenumbers c > 0) c
        in (Some i, c\<lparr>freenumbers := freenumbers c - 1\<rparr>)
      else if \<not> rt_list_isempty (Head RxUse) (rx_links c) then
        let i = rt_list_entry (nxt (rx_links c) (Head RxUse));
            c = c\<lparr>dropedrcvpkg := dropedrcvpkg c + 1\<rparr>
        in (Some i, rx_disown i (rx_unlink i c))
      else (None, c))"

definition isr_store :: "nat \<Rightarrow> rt_can_msg \<Rightarrow> 'w rt_can \<Rightarrow> 'w rt_can" where
  "isr_store i m c =
     (let c = c\<lparr>rx_data := (rx_data c)(i := m)\<rparr>;
          c = c\<lparr>rx_links := rt_list_insert_before (Head RxUse) (Node i) (rx_links c)\<rparr>;
          h = nat (hdr_index m)
      in if hdr_alloc c then
           let c = rt_assert (hdr_index m < int (maxhdr c) \<and> hdr_index m \<ge> 0) c
           in if connected (hdr c h) then
                c\<lparr>hdr_links := rt_list_insert_before (Head h) (Node i) (hdr_links c),
                  rx_owner := (rx_owner c)(i := Some h),
                  hdr := (hdr c)(h := (hdr c h)\<lparr>msgs := msgs (hdr c h) + 1\<rparr>)\<rparr>
              else c
         else c)"

text \<open>
  The callbacks.  The local \<open>hdr\<close> of the interrupt routine is set only when a slot was found.
\<close>

definition isr_indicate :: "int option \<Rightarrow> 'w rt_can \<Rightarrow> 'w rt_can" where
  "isr_indicate bank c =
     (let c = c\<lparr>can_ub := (can_ub c \<or> (hdr_alloc c \<and> bank = None))\<rparr>;
          h = (case bank of Some k \<Rightarrow> nat k | None \<Rightarrow> 0)
      in if hdr_alloc c \<and> bank \<noteq> None \<and> connected (hdr c h) \<and> f_ind (flt (hdr c h)) then
           if msgs (hdr c h) > 0 then c\<lparr>calls := calls c @ [(Some h, msgs (hdr c h))]\<rparr> else c
         else if rx_indicate c then
           (case rt_list_len (Head RxUse) (rx_links c) of
              Some n \<Rightarrow> if n > 0 then c\<lparr>calls := calls c @ [(None, n)]\<rparr> else c
            | None \<Rightarrow> c)
         else c)"

definition isr_rx :: "'w can_ops \<Rightarrow> nat \<Rightarrow> 'w rt_can \<Rightarrow> 'w rt_can" where
  "isr_rx D no c =
     (let c = rt_assert (rx_alloc c) c;
          c = rt_assert (open_flag c AND RT_DEVICE_FLAG_INT_RX \<noteq> 0) c;
          (ch, w) = drv_recvmsg D no (can_world c);
          c = c\<lparr>can_world := w\<rparr>
      in case ch of
           None \<Rightarrow> c
         | Some m \<Rightarrow>
             let c = c\<lparr>rcvpkg := rcvpkg c + 1, rcvchange := True\<rparr>
             in case isr_slot c of
                  (Some i, c) \<Rightarrow> isr_indicate (Some (hdr_index m)) (isr_store i m c)
                | (None, c) \<Rightarrow> isr_indicate None c)"

definition isr_tx :: "snd_result \<Rightarrow> nat \<Rightarrow> 'w rt_can \<Rightarrow> 'w rt_can" where
  "isr_tx r no c =
     (let c = rt_assert (tx_alloc c) c;
          c = c\<lparr>tx_result := (tx_result c)(no := r)\<rparr>
      in c\<lparr>tx_done := (tx_done c)(no := snd (rt_completion_done (tx_done c no)))\<rparr>)"

definition rt_hw_can_isr :: "'w can_ops \<Rightarrow> nat \<Rightarrow> 'w rt_can \<Rightarrow> 'w rt_can" where
  "rt_hw_can_isr D event c =
     (let code = event mod 256; no = event div 256
      in if code = RT_CAN_EVENT_RXOF_IND then isr_rx D no (c\<lparr>dropedrcvpkg := dropedrcvpkg c + 1\<rparr>)
         else if code = RT_CAN_EVENT_RX_IND then isr_rx D no c
         else if code = RT_CAN_EVENT_TX_DONE then isr_tx RT_CAN_SND_RESULT_OK no c
         else if code = RT_CAN_EVENT_TX_FAIL then isr_tx RT_CAN_SND_RESULT_ERR no c
         else c)"

section \<open>Sending\<close>

text \<open>
  A thread inside \<open>_can_int_tx\<close>: the messages still to send (the head is the current one), how many
  were sent, and where it stands.  \<open>Tx_taken\<close>: it has taken the semaphore; \<open>Tx_owns\<close>: it has a box;
  \<open>Tx_marked\<close>: the box's result is reset; \<open>Tx_ready\<close>: its completion too; \<open>Tx_failed\<close>, \<open>Tx_sent\<close>: the driver has refused or
  accepted the message; \<open>Tx_waiting\<close>: suspended on the completion; \<open>Tx_woken\<close>: behind the wait; \<open>Tx_put\<close>: the box
  is back in the list.
\<close>

datatype tx_pc =
  Tx_loop | Tx_taken | Tx_owns nat | Tx_marked nat | Tx_ready nat | Tx_failed nat | Tx_sent nat
| Tx_waiting nat | Tx_woken nat | Tx_put bool | Tx_return

record tx_thread =
  tx_todo :: "rt_can_msg list"
  tx_count :: nat
  tx_at :: tx_pc

definition tx_send :: "'w can_ops \<Rightarrow> rt_can_msg \<Rightarrow> nat \<Rightarrow> 'w rt_can \<Rightarrow> bool \<times> 'w rt_can" where
  "tx_send D m no c =
     (let (r, w) = drv_sendmsg D m no (can_world c);
          c = c\<lparr>can_world := w\<rparr>
      in if r \<noteq> RT_EOK then (False, c) else (True, c\<lparr>sndchange := True\<rparr>))"

text \<open>Up to where \<open>rt_completion_wait\<close> returns or suspends the thread, and from where it is resumed.\<close>

definition tx_wait :: "nat \<Rightarrow> nat \<Rightarrow> 'w rt_can \<Rightarrow> bool \<times> 'w rt_can" where
  "tx_wait t no c =
     (let (wait, d) = rt_completion_wait t (-1) (tx_done c no)
      in (wait = Suspend, c\<lparr>tx_done := (tx_done c)(no := d)\<rparr>))"

definition tx_resumed :: "nat \<Rightarrow> 'w rt_can \<Rightarrow> 'w rt_can" where
  "tx_resumed no c =
     c\<lparr>tx_done := (tx_done c)(no := snd (rt_completion_wait_resumed RT_EOK (tx_done c no)))\<rparr>"

definition tx_put_back :: "nat \<Rightarrow> 'w rt_can \<Rightarrow> 'w rt_can" where
  "tx_put_back no c = c\<lparr>tx_links := rt_list_insert_before (Head ()) (Node no) (tx_links c)\<rparr>"

text \<open>The step of thread \<open>t\<close>; a thread that waits stays where it is.\<close>

definition can_int_tx :: "'w can_ops \<Rightarrow> nat \<Rightarrow> tx_thread \<Rightarrow> 'w rt_can \<Rightarrow> tx_thread \<times> 'w rt_can" where
  "can_int_tx D t th c =
     (case tx_at th of
        Tx_loop \<Rightarrow>
          if tx_todo th = [] then (th\<lparr>tx_at := Tx_return\<rparr>, c)
          else if tx_sem c = 0 then (th, c)
          else (th\<lparr>tx_at := Tx_taken\<rparr>, c\<lparr>tx_sem := tx_sem c - 1\<rparr>)
      | Tx_taken \<Rightarrow>
          let no = rt_list_entry (nxt (tx_links c) (Head ()))
          in (th\<lparr>tx_at := Tx_owns no\<rparr>, c\<lparr>tx_links := rt_list_remove (Node no) (tx_links c)\<rparr>)
      | Tx_owns no \<Rightarrow>
          (th\<lparr>tx_at := Tx_marked no\<rparr>, c\<lparr>tx_result := (tx_result c)(no := RT_CAN_SND_RESULT_WAIT)\<rparr>)
      | Tx_marked no \<Rightarrow>
          (th\<lparr>tx_at := Tx_ready no\<rparr>, c\<lparr>tx_done := (tx_done c)(no := rt_completion_init)\<rparr>)
      | Tx_ready no \<Rightarrow>
          let (ok, c) = tx_send D (hd (tx_todo th)) no c
          in (th\<lparr>tx_at := (if ok then Tx_sent no else Tx_failed no)\<rparr>, c)
      | Tx_failed no \<Rightarrow> (th\<lparr>tx_at := Tx_put False\<rparr>, tx_put_back no c)
      | Tx_sent no \<Rightarrow>
          let (waits, c) = tx_wait t no c
          in (th\<lparr>tx_at := (if waits then Tx_waiting no else Tx_woken no)\<rparr>, c)
      | Tx_waiting no \<Rightarrow>
          if waiter (tx_done c no) = Some t then (th, c)
          else (th\<lparr>tx_at := Tx_woken no\<rparr>, tx_resumed no c)
      | Tx_woken no \<Rightarrow>
          let result = tx_result c no;
              c = (if \<not> rt_list_isempty (Node no) (tx_links c)
                   then c\<lparr>tx_links := rt_list_remove (Node no) (tx_links c)\<rparr> else c)
          in (th\<lparr>tx_at := Tx_put (result = RT_CAN_SND_RESULT_OK)\<rparr>, tx_put_back no c)
      | Tx_put ok \<Rightarrow>
          let c = c\<lparr>tx_sem := tx_sem c + 1\<rparr>
          in if ok then (th\<lparr>tx_todo := tl (tx_todo th), tx_count := tx_count th + 1, tx_at := Tx_loop\<rparr>,
                         c\<lparr>sndpkg := sndpkg c + 1\<rparr>)
             else (th\<lparr>tx_at := Tx_return\<rparr>, c\<lparr>dropedsndpkg := dropedsndpkg c + 1\<rparr>)
      | Tx_return \<Rightarrow> (th, c))"

text \<open>
  The same in the mode in which a message names its box (\<open>_can_int_tx_priv\<close>).  A thread that finds the
  box in use waits for its completion and then tries the same message again.
\<close>

datatype priv_pc =
  Priv_loop | Priv_busy nat | Priv_busy_waiting nat | Priv_marked nat | Priv_sent nat
| Priv_waiting nat | Priv_woken nat | Priv_return

record priv_thread =
  priv_todo :: "rt_can_msg list"
  priv_count :: nat
  priv_at :: priv_pc

definition can_int_tx_priv :: "'w can_ops \<Rightarrow> nat \<Rightarrow> priv_thread \<Rightarrow> 'w rt_can \<Rightarrow> priv_thread \<times> 'w rt_can" where
  "can_int_tx_priv D t th c =
     (case priv_at th of
        Priv_loop \<Rightarrow>
          (case priv_todo th of
             [] \<Rightarrow> (th\<lparr>priv_at := Priv_return\<rparr>, c)
           | m # _ \<Rightarrow>
               if priv m \<ge> sndboxnumber c then (th\<lparr>priv_at := Priv_return\<rparr>, c)
               else if tx_result c (priv m) \<noteq> RT_CAN_SND_RESULT_OK then (th\<lparr>priv_at := Priv_busy (priv m)\<rparr>, c)
               else (th\<lparr>priv_at := Priv_marked (priv m)\<rparr>,
                     c\<lparr>tx_result := (tx_result c)(priv m := RT_CAN_SND_RESULT_WAIT)\<rparr>))
      | Priv_busy no \<Rightarrow>
          let (waits, c) = tx_wait t no c
          in (th\<lparr>priv_at := (if waits then Priv_busy_waiting no else Priv_loop)\<rparr>, c)
      | Priv_busy_waiting no \<Rightarrow>
          if waiter (tx_done c no) = Some t then (th, c) else (th\<lparr>priv_at := Priv_loop\<rparr>, tx_resumed no c)
      | Priv_marked no \<Rightarrow>
          let (ok, c) = tx_send D (hd (priv_todo th)) no c
          in (th\<lparr>priv_at := (if ok then Priv_sent no else Priv_loop)\<rparr>, c)
      | Priv_sent no \<Rightarrow>
          let (waits, c) = tx_wait t no c
          in (th\<lparr>priv_at := (if waits then Priv_waiting no else Priv_woken no)\<rparr>, c)
      | Priv_waiting no \<Rightarrow>
          if waiter (tx_done c no) = Some t then (th, c) else (th\<lparr>priv_at := Priv_woken no\<rparr>, tx_resumed no c)
      | Priv_woken no \<Rightarrow>
          if tx_result c no = RT_CAN_SND_RESULT_OK then
            (th\<lparr>priv_todo := tl (priv_todo th), priv_count := priv_count th + 1, priv_at := Priv_loop\<rparr>,
             c\<lparr>sndpkg := sndpkg c + 1\<rparr>)
          else (th\<lparr>priv_at := Priv_return\<rparr>, c\<lparr>dropedsndpkg := dropedsndpkg c + 1\<rparr>)
      | Priv_return \<Rightarrow> (th, c))"

text \<open>Which of the two a write enters, if it enters one.\<close>

datatype write_path = Write_none | Write_priv priv_thread | Write_nopriv tx_thread

definition rt_can_write :: "rt_can_msg list \<Rightarrow> 'w rt_can \<Rightarrow> write_path \<times> 'w rt_can" where
  "rt_can_write buffer c =
     (if buffer = [] then (Write_none, c)
      else if open_flag c AND RT_DEVICE_FLAG_INT_TX \<noteq> 0 \<and> ref_count c > 0 then
        (if privmode c \<noteq> 0
         then Write_priv \<lparr>priv_todo = buffer, priv_count = 0, priv_at = Priv_loop\<rparr>
         else Write_nopriv \<lparr>tx_todo = buffer, tx_count = 0, tx_at = Tx_loop\<rparr>,
         rt_assert (tx_alloc c) c)
      else (Write_none, c))"

section \<open>Opening, closing and controlling the device\<close>

definition rt_can_init :: "'w can_ops \<Rightarrow> 'w rt_can \<Rightarrow> int \<times> 'w rt_can" where
  "rt_can_init D c =
     (let c = c\<lparr>rx_alloc := False, tx_alloc := False, hdr_alloc := False\<rparr>;
          (r, w) = drv_configure D (can_world c)
      in (r, c\<lparr>can_world := w\<rparr>))"

definition alloc :: "'w can_ops \<Rightarrow> 'w rt_can \<Rightarrow> 'w rt_can" where
  "alloc D c =
     (let (ok, w) = drv_alloc D (can_world c) in rt_assert ok (c\<lparr>can_world := w\<rparr>))"

text \<open>The links of a new block: heads and nodes set, as the loops of \<open>rt_can_open\<close> do.\<close>

definition list_of_all :: "('h, nat) lnode \<Rightarrow> nat \<Rightarrow> ('h, nat) lnode links \<Rightarrow> ('h, nat) lnode links" where
  "list_of_all l n h = foldl (\<lambda>h i. rt_list_insert_before l (Node i) h) h [0..<n]"

definition open_rx :: "'w can_ops \<Rightarrow> 'w rt_can \<Rightarrow> 'w rt_can" where
  "open_rx D c =
     (let c = alloc D c;
          h = rt_list_init (Head RxUse) (rt_list_init (Head RxFree) (rx_links c));
          c = c\<lparr>freenumbers := msgboxsz c, rx_links := list_of_all (Head RxFree) (msgboxsz c) h,
                hdr_links := foldl (\<lambda>h i. rt_list_init (Node i) h) (hdr_links c) [0..<msgboxsz c],
                rx_owner := (\<lambda>i. if i < msgboxsz c then None else rx_owner c i), rx_alloc := True,
                open_flag := open_flag c OR RT_DEVICE_FLAG_INT_RX\<rparr>
      in run_control D RT_DEVICE_CTRL_SET_INT (unat RT_DEVICE_FLAG_INT_RX) c)"

definition open_tx :: "'w can_ops \<Rightarrow> 'w rt_can \<Rightarrow> 'w rt_can" where
  "open_tx D c =
     (let c = alloc D c;
          n = sndboxnumber c;
          c = c\<lparr>tx_links := list_of_all (Head ()) n (rt_list_init (Head ()) (tx_links c)),
                tx_done := (\<lambda>i. if i < n then rt_completion_init else tx_done c i),
                tx_result := (\<lambda>i. if i < n then RT_CAN_SND_RESULT_OK else tx_result c i),
                tx_sem := n, tx_alloc := True, open_flag := open_flag c OR RT_DEVICE_FLAG_INT_TX\<rparr>
      in run_control D RT_DEVICE_CTRL_SET_INT (unat RT_DEVICE_FLAG_INT_TX) c)"

definition open_hdr :: "'w can_ops \<Rightarrow> 'w rt_can \<Rightarrow> 'w rt_can" where
  "open_hdr D c =
     (let c = alloc D c
      in c\<lparr>hdr := (\<lambda>h. if h < maxhdr c then \<lparr>connected = False, msgs = 0, flt = no_filter\<rparr> else hdr c h),
           hdr_links := foldl (\<lambda>h i. rt_list_init (Head i) h) (hdr_links c) [0..<maxhdr c],
           hdr_alloc := True\<rparr>)"

definition rt_can_open :: "'w can_ops \<Rightarrow> u16 \<Rightarrow> 'w rt_can \<Rightarrow> int \<times> 'w rt_can" where
  "rt_can_open D oflag c =
     (let c = c\<lparr>open_flag := oflag AND 0xff\<rparr>;
          c = (if \<not> rx_alloc c \<and> oflag AND RT_DEVICE_FLAG_INT_RX \<noteq> 0 then open_rx D c else c);
          c = (if \<not> tx_alloc c \<and> oflag AND RT_DEVICE_FLAG_INT_TX \<noteq> 0 then open_tx D c else c);
          c = run_control D RT_DEVICE_CTRL_SET_INT RT_DEVICE_CAN_INT_ERR c;
          c = (if \<not> hdr_alloc c then open_hdr D c else c);
          c = (if timerinitflag c = 0 then c\<lparr>timerinitflag := 1, timer_on := True\<rparr> else c)
      in (RT_EOK, c))"

definition rt_can_close :: "'w can_ops \<Rightarrow> 'w rt_can \<Rightarrow> int \<times> 'w rt_can" where
  "rt_can_close D c =
     (if ref_count c > 1 then (RT_EOK, c)
      else
        let c = (if timerinitflag c \<noteq> 0 then c\<lparr>timerinitflag := 0, timer_on := False\<rparr> else c);
            c = c\<lparr>status_ind := False\<rparr>;
            c = c\<lparr>hdr_alloc := False\<rparr>;
            c = (if open_flag c AND RT_DEVICE_FLAG_INT_RX \<noteq> 0 then
                   let c = rt_assert (rx_alloc c) c;
                       c = c\<lparr>open_flag := open_flag c AND NOT RT_DEVICE_FLAG_INT_RX, rx_alloc := False\<rparr>
                   in run_control D RT_DEVICE_CTRL_CLR_INT (unat RT_DEVICE_FLAG_INT_RX) c
                 else c);
            c = (if open_flag c AND RT_DEVICE_FLAG_INT_TX \<noteq> 0 then
                   let c = rt_assert (tx_alloc c) c;
                       c = c\<lparr>open_flag := open_flag c AND NOT RT_DEVICE_FLAG_INT_TX, tx_alloc := False\<rparr>
                   in run_control D RT_DEVICE_CTRL_CLR_INT (unat RT_DEVICE_FLAG_INT_TX) c
                 else c)
        in (RT_EOK, run_control D RT_DEVICE_CTRL_CLR_INT RT_DEVICE_CAN_INT_ERR c))"

text \<open>The two loops of \<open>RT_CAN_CMD_SET_PRIV\<close>, for box \<open>i\<close>.\<close>

definition to_priv :: "nat \<Rightarrow> 'w rt_can \<Rightarrow> 'w rt_can" where
  "to_priv i c =
     (if rt_list_isempty (Node i) (tx_links c) then c\<lparr>tx_sem := tx_sem c + 1\<rparr>
      else c\<lparr>tx_links := rt_list_remove (Node i) (tx_links c)\<rparr>)"

definition to_nopriv :: "nat \<Rightarrow> 'w rt_can \<Rightarrow> 'w rt_can" where
  "to_nopriv i c =
     (if tx_result c i = RT_CAN_SND_RESULT_OK
      then c\<lparr>tx_links := rt_list_insert_before (Head ()) (Node i) (tx_links c)\<rparr> else c)"

definition set_priv :: "'w can_ops \<Rightarrow> nat \<Rightarrow> 'w rt_can \<Rightarrow> int \<times> 'w rt_can" where
  "set_priv D mode c =
     (if mode \<noteq> privmode c then
        let (res, mode', w) = drv_set_priv D mode (privmode c) (can_world c);
            c = c\<lparr>privmode := mode', can_world := w\<rparr>
        in if res \<noteq> RT_EOK then (res, c)
           else if privmode c \<noteq> 0 then (res, fold to_priv [0..<sndboxnumber c] c)
           else (res, fold to_nopriv [0..<sndboxnumber c] c)
      else (RT_EOK, c))"

text \<open>
  The two loops of \<open>RT_CAN_CMD_SET_FILTER\<close>, for one item.  A negative bank is out of range, because
  the comparison with \<open>maxhdr\<close> is unsigned.
\<close>

definition bank_ok :: "can_filter_item \<Rightarrow> 'w rt_can \<Rightarrow> bool" where
  "bank_ok f c \<longleftrightarrow> 0 \<le> hdr_bank f \<and> hdr_bank f < int (maxhdr c)"

definition connect_filter :: "can_filter_item \<Rightarrow> 'w rt_can \<Rightarrow> 'w rt_can" where
  "connect_filter f c =
     (if bank_ok f c then
        let h = nat (hdr_bank f)
        in if \<not> connected (hdr c h)
           then c\<lparr>hdr := (hdr c)(h := \<lparr>connected = True, msgs = 0, flt = f\<rparr>),
                  hdr_links := rt_list_init (Head h) (hdr_links c)\<rparr>
           else c
      else c)"

definition disconnect_filter :: "can_filter_item \<Rightarrow> 'w rt_can \<Rightarrow> 'w rt_can" where
  "disconnect_filter f c =
     (if bank_ok f c then
        let h = nat (hdr_bank f)
        in if connected (hdr c h)
           then c\<lparr>hdr := (hdr c)(h := \<lparr>connected = False, msgs = 0, flt = no_filter\<rparr>),
                  hdr_links :=
                    (if \<not> rt_list_isempty (Head h) (hdr_links c)
                     then rt_list_remove (nxt (hdr_links c) (Head h)) (hdr_links c)
                     else hdr_links c)\<rparr>
           else c
      else c)"

definition set_filter :: "'w can_ops \<Rightarrow> bool \<Rightarrow> can_filter_item list \<Rightarrow> 'w rt_can \<Rightarrow> int \<times> 'w rt_can" where
  "set_filter D actived items c =
     (let (res, w) = drv_set_filter D actived items (can_world c);
          c = c\<lparr>can_world := w\<rparr>
      in if res \<noteq> RT_EOK \<or> \<not> hdr_alloc c then (res, c)
         else if actived then (res, fold connect_filter items c)
         else (res, fold disconnect_filter items c))"

fun rt_can_control :: "'w can_ops \<Rightarrow> can_cmd \<Rightarrow> 'w rt_can \<Rightarrow> int \<times> 'w rt_can" where
  "rt_can_control D RT_DEVICE_CTRL_SUSPEND c =
     (RT_EOK, c\<lparr>dev_flag := dev_flag c OR RT_DEVICE_FLAG_SUSPENDED\<rparr>)"
| "rt_can_control D RT_DEVICE_CTRL_RESUME c =
     (RT_EOK, c\<lparr>dev_flag := dev_flag c AND NOT RT_DEVICE_FLAG_SUSPENDED\<rparr>)"
| "rt_can_control D RT_DEVICE_CTRL_CONFIG c =
     (let (r, w) = drv_configure D (can_world c) in (r, c\<lparr>can_world := w\<rparr>))"
| "rt_can_control D (RT_CAN_CMD_SET_PRIV mode) c = set_priv D mode c"
| "rt_can_control D (RT_CAN_CMD_SET_STATUS_IND ind) c = (RT_EOK, c\<lparr>status_ind := ind\<rparr>)"
| "rt_can_control D (RT_CAN_CMD_SET_FILTER actived items) c = set_filter D actived items c"
| "rt_can_control D (CAN_CMD_DRIVER cmd arg) c =
     (let (r, w) = drv_control D cmd arg (can_world c) in (r, c\<lparr>can_world := w\<rparr>))"

definition cantimeout :: "'w can_ops \<Rightarrow> 'w rt_can \<Rightarrow> 'w rt_can" where
  "cantimeout D c =
     (let (_, c) = rt_can_control D (CAN_CMD_DRIVER RT_CAN_CMD_GET_STATUS 0) c;
          c = (if status_ind c then c\<lparr>status_calls := status_calls c + 1\<rparr> else c)
      in if timerinitflag c = 1 then c\<lparr>timerinitflag := 0xFF\<rparr> else c)"

text \<open>
  Registration keeps the configuration.  The fields behind the three null pointers hold nothing yet.
\<close>

definition rt_hw_can_register :: "'w rt_can \<Rightarrow> 'w rt_can" where
  "rt_hw_can_register c =
     c\<lparr>rx_indicate := False, hdr_alloc := False, rx_alloc := False, tx_alloc := False,
       status_ind := False, rcvpkg := 0, dropedrcvpkg := 0, sndpkg := 0, dropedsndpkg := 0,
       rcvchange := False, sndchange := False, timerinitflag := 0, timer_on := False,
       dev_flag := 0x003, open_flag := 0, ref_count := 0,
       hdr := (\<lambda>_. \<lparr>connected = False, msgs = 0, flt = no_filter\<rparr>), rx_owner := (\<lambda>_. None),
       hdr_links := unlinked, rx_links := unlinked, tx_links := unlinked\<rparr>"

end
