(* ===== verification/Rt_Can_Rx.thy ===== *)
theory Rt_Can_Rx
  imports Rt_Can
begin

text \<open>
  The receive side of the CAN device: at every moment each slot is free, unread, or in the hands of
  one reader, and to its readers the device is a queue that keeps the newest messages.
\<close>

section \<open>What the pointers represent\<close>

definition rx_lists :: "'w rt_can \<Rightarrow> nat list \<Rightarrow> nat list \<Rightarrow> bool" where
  "rx_lists c fr us \<longleftrightarrow> rings (rx_links c) (case_rx_list fr us) \<and> freenumbers c = length fr"

text \<open>\<open>H h\<close> are the unread slots of filter bank \<open>h\<close>; \<open>us\<close> are all unread slots.\<close>

definition hdr_lists :: "'w rt_can \<Rightarrow> (nat \<Rightarrow> nat list) \<Rightarrow> bool" where
  "hdr_lists c H \<longleftrightarrow> rings (hdr_links c) H \<and>
     (\<forall>i h. rx_owner c i = Some h \<longleftrightarrow> i \<in> set (H h)) \<and>
     (\<forall>h. msgs (hdr c h) = length (H h)) \<and>
     (\<forall>h. \<not> connected (hdr c h) \<longrightarrow> H h = [])"

lemma upd_free [simp]: "(case_rx_list fr us)(RxFree := xs) = case_rx_list xs us"
  by (rule ext) (simp split: rx_list.split)

lemma upd_use [simp]: "(case_rx_list fr us)(RxUse := xs) = case_rx_list fr xs"
  by (rule ext) (simp split: rx_list.split)

lemma removeAll_lists:
  "(\<lambda>l. removeAll i (case_rx_list fr us l)) = case_rx_list (removeAll i fr) (removeAll i us)"
  by (rule ext) (simp split: rx_list.split)

lemma hdr_listsD:
  assumes "hdr_lists c H"
  shows "rings (hdr_links c) H" and "\<And>i h. rx_owner c i = Some h \<longleftrightarrow> i \<in> set (H h)"
    and "\<And>h. msgs (hdr c h) = length (H h)" and "\<And>h. \<not> connected (hdr c h) \<Longrightarrow> H h = []"
  using assms by (auto simp: hdr_lists_def)

lemma length_removeAll_distinct:
  "distinct xs \<Longrightarrow> length (removeAll i xs) = length xs - (if i \<in> set xs then 1 else 0)"
  by (induction xs) (auto simp: removeAll_id, metis One_nat_def Suc_pred length_pos_if_in_set)

text \<open>Unlinking a slot and clearing its owner takes it out of the bank that holds it.\<close>

lemma take_out:
  assumes "hdr_lists c H"
  shows "hdr_lists (rx_disown i (rx_unlink i c)) (\<lambda>h. removeAll i (H h))"
proof -
  note d = hdr_listsD [OF assms]
  have r: "rings (rt_list_remove (Node i) (hdr_links c)) (\<lambda>h. removeAll i (H h))"
    by (rule rings_remove [OF d(1)])
  have m: "length (removeAll i (H h)) = length (H h) - (if i \<in> set (H h) then 1 else 0)" for h
    by (rule length_removeAll_distinct [OF rings_distinct [OF d(1)]])
  have once: "i \<in> set (H h) \<Longrightarrow> i \<in> set (H k) \<Longrightarrow> k = h" for h k by (rule rings_once [OF d(1)])
  show ?thesis
  proof (cases "rx_owner c i")
    case None
    then have out: "i \<notin> set (H h)" for h using d(2) [of i h] by auto
    then have "(\<lambda>h. removeAll i (H h)) = H" by auto
    with None out r d show ?thesis
      by (auto simp: hdr_lists_def rx_disown_def rx_unlink_def)
  next
    case (Some h)
    then have h: "i \<in> set (H h)" using d(2) by simp
    then have pos: "H h \<noteq> []" by auto
    let ?c = "rx_disown i (rx_unlink i c)"
    have f: "hdr_links ?c = rt_list_remove (Node i) (hdr_links c)" "rx_owner ?c = (rx_owner c)(i := None)"
        "hdr ?c = (hdr c)(h := (hdr c h)\<lparr>msgs := length (H h) - 1\<rparr>)"
      using Some pos d(3) by (simp_all add: rx_disown_def rx_unlink_def hdr_dec_def)
    have other: "i \<notin> set (H k)" if "k \<noteq> h" for k using once [OF h] that by auto
    show ?thesis
      unfolding hdr_lists_def f
    proof (intro conjI allI impI r)
      fix j k show "((rx_owner c)(i := None)) j = Some k \<longleftrightarrow> j \<in> set (removeAll i (H k))"
        using d(2) by simp
    next
      fix k show "msgs (((hdr c)(h := (hdr c h)\<lparr>msgs := length (H h) - 1\<rparr>)) k) = length (removeAll i (H k))"
        using d(3) h other by (cases "k = h") (simp_all add: m)
    next
      fix k assume "\<not> connected (((hdr c)(h := (hdr c h)\<lparr>msgs := length (H h) - 1\<rparr>)) k)"
      then have "\<not> connected (hdr c k)" by (cases "k = h") simp_all
      then show "removeAll i (H k) = []" using d(4) by simp
    qed
  qed
qed

lemma take_out_rest [simp]:
  "rx_links (rx_disown i (rx_unlink i c)) = rt_list_remove (Node i) (rx_links c)"
  "rx_data (rx_disown i c) = rx_data c" "freenumbers (rx_disown i c) = freenumbers c"
  "msgboxsz (rx_disown i c) = msgboxsz c" "maxhdr (rx_disown i c) = maxhdr c"
  "can_assert (rx_disown i c) = can_assert c" "can_ub (rx_disown i c) = can_ub c"
  "hdr_alloc (rx_disown i c) = hdr_alloc c" "rx_alloc (rx_disown i c) = rx_alloc c"
  "tx_alloc (rx_disown i c) = tx_alloc c" "open_flag (rx_disown i c) = open_flag c"
  "can_world (rx_disown i c) = can_world c" "ref_count (rx_disown i c) = ref_count c"
  "rx_data (rx_unlink i c) = rx_data c" "freenumbers (rx_unlink i c) = freenumbers c"
  "msgboxsz (rx_unlink i c) = msgboxsz c" "maxhdr (rx_unlink i c) = maxhdr c"
  "can_assert (rx_unlink i c) = can_assert c" "can_ub (rx_unlink i c) = can_ub c"
  "hdr_alloc (rx_unlink i c) = hdr_alloc c" "rx_alloc (rx_unlink i c) = rx_alloc c"
  "tx_alloc (rx_unlink i c) = tx_alloc c" "open_flag (rx_unlink i c) = open_flag c"
  "can_world (rx_unlink i c) = can_world c" "ref_count (rx_unlink i c) = ref_count c"
  by (simp_all add: rx_disown_def rx_unlink_def hdr_dec_def Let_def split: option.split)

section \<open>The invariant of the receive side\<close>

text \<open>The unread slots of each bank, in the order of their arrival.\<close>

definition banks :: "'w rt_can \<Rightarrow> nat list \<Rightarrow> nat \<Rightarrow> nat list" where
  "banks c us h = filter (\<lambda>i. rx_owner c i = Some h) us"

text \<open>Free slots \<open>fr\<close>, unread slots \<open>us\<close> (oldest first), slots \<open>fl\<close> in the hands of readers.\<close>

definition rx_ok :: "'w rt_can \<Rightarrow> nat list \<Rightarrow> nat list \<Rightarrow> nat list \<Rightarrow> bool" where
  "rx_ok c fr us fl \<longleftrightarrow> rx_lists c fr us \<and> hdr_lists c (banks c us) \<and>
     distinct (fr @ us @ fl) \<and> set (fr @ us @ fl) = {..<msgboxsz c} \<and>
     hdr_alloc c \<and> rx_alloc c \<and> tx_alloc c \<and> open_flag c AND RT_DEVICE_FLAG_INT_RX \<noteq> 0 \<and>
     \<not> can_assert c \<and> \<not> can_ub c"

lemma banks_irrelevant [simp]:
  "banks (c\<lparr>dropedrcvpkg := n\<rparr>) us = banks c us" "banks (c\<lparr>rcvpkg := n\<rparr>) us = banks c us"
  "banks (c\<lparr>rcvchange := b\<rparr>) us = banks c us" "banks (c\<lparr>can_world := w\<rparr>) us = banks c us"
  "banks (c\<lparr>calls := cs\<rparr>) us = banks c us" "banks (c\<lparr>tx_result := r\<rparr>) us = banks c us"
  "banks (c\<lparr>tx_done := d\<rparr>) us = banks c us" "banks (c\<lparr>rx_data := rd\<rparr>) us = banks c us"
  "banks (c\<lparr>freenumbers := k\<rparr>) us = banks c us" "banks (c\<lparr>rx_links := l\<rparr>) us = banks c us"
  "banks (c\<lparr>can_assert := b\<rparr>) us = banks c us" "banks (c\<lparr>hdr := g\<rparr>) us = banks c us"
  "banks (c\<lparr>hdr_links := l'\<rparr>) us = banks c us" "banks (c\<lparr>ref_count := k\<rparr>) us = banks c us"
  by (simp_all add: banks_def fun_eq_iff)

lemma rx_ok_irrelevant [simp]:
  "rx_ok (c\<lparr>dropedrcvpkg := n\<rparr>) fr us fl = rx_ok c fr us fl"
  "rx_ok (c\<lparr>rcvpkg := n\<rparr>) fr us fl = rx_ok c fr us fl"
  "rx_ok (c\<lparr>rcvchange := b\<rparr>) fr us fl = rx_ok c fr us fl"
  "rx_ok (c\<lparr>can_world := w\<rparr>) fr us fl = rx_ok c fr us fl"
  "rx_ok (c\<lparr>calls := cs\<rparr>) fr us fl = rx_ok c fr us fl"
  "rx_ok (c\<lparr>tx_result := r\<rparr>) fr us fl = rx_ok c fr us fl"
  "rx_ok (c\<lparr>tx_done := d\<rparr>) fr us fl = rx_ok c fr us fl"
  "rx_ok (c\<lparr>rx_data := rd\<rparr>) fr us fl = rx_ok c fr us fl"
  "rx_ok (c\<lparr>ref_count := k\<rparr>) fr us fl = rx_ok c fr us fl"
  by (simp_all add: rx_ok_def rx_lists_def hdr_lists_def)

lemma rx_okD:
  assumes "rx_ok c fr us fl"
  shows "rx_lists c fr us" and "hdr_lists c (banks c us)" and "distinct (fr @ us @ fl)"
    and "set (fr @ us @ fl) = {..<msgboxsz c}"
    and "rings (rx_links c) (case_rx_list fr us)" and "freenumbers c = length fr"
  using assms by (auto simp: rx_ok_def rx_lists_def)

lemma owner_iff: "hdr_lists c (banks c us) \<Longrightarrow> i \<notin> set us \<Longrightarrow> rx_owner c i = None"
  using hdr_listsD(2) [of c "banks c us" i] by (cases "rx_owner c i") (auto simp: banks_def)

lemma length_fr: "rx_ok c fr us fl \<Longrightarrow> length fr + length us + length fl = msgboxsz c"
proof -
  assume ok: "rx_ok c fr us fl"
  have "card (set (fr @ us @ fl)) = length (fr @ us @ fl)"
    by (rule distinct_card [OF rx_okD(3) [OF ok]])
  then show ?thesis unfolding rx_okD(4) [OF ok] by simp
qed

text \<open>A slot leaves the lists.\<close>

lemma owner_disown [simp]: "rx_owner (rx_disown i (rx_unlink i c)) = (rx_owner c)(i := None)"
  by (simp add: rx_disown_def rx_unlink_def hdr_dec_def Let_def split: option.split)

lemma connected_disown [simp]: "connected (hdr (rx_disown i (rx_unlink i c)) h) = connected (hdr c h)"
  by (simp add: rx_disown_def rx_unlink_def hdr_dec_def Let_def split: option.split)

lemma banks_disown:
  "banks (rx_disown i (rx_unlink i c)) (removeAll i us) = (\<lambda>h. removeAll i (banks c us h))"
proof
  fix h show "banks (rx_disown i (rx_unlink i c)) (removeAll i us) h = removeAll i (banks c us h)"
    unfolding banks_def removeAll_filter_not_eq filter_filter owner_disown by (rule filter_cong) auto
qed

lemma out_ok:
  assumes ok: "rx_ok c fr us fl" and i: "i \<in> set (fr @ us)"
  shows "rx_ok (rx_disown i (rx_unlink i c)\<lparr>freenumbers := length (removeAll i fr)\<rparr>)
      (removeAll i fr) (removeAll i us) (i # fl)"
proof -
  note d = rx_okD [OF ok]
  let ?c = "rx_disown i (rx_unlink i c)"
  have "rings (rx_links ?c) (case_rx_list (removeAll i fr) (removeAll i us))"
    using rings_remove [OF d(5), of i] by (simp add: removeAll_lists)
  then have l: "rx_lists (?c\<lparr>freenumbers := length (removeAll i fr)\<rparr>) (removeAll i fr) (removeAll i us)"
    by (simp add: rx_lists_def)
  have h: "hdr_lists (?c\<lparr>freenumbers := length (removeAll i fr)\<rparr>) (banks ?c (removeAll i us))"
    using take_out [OF d(2), of i] by (simp add: hdr_lists_def banks_disown)
  have s: "distinct (removeAll i fr @ removeAll i us @ i # fl)"
      "set (removeAll i fr @ removeAll i us @ i # fl) = {..<msgboxsz c}"
    using d(3,4) i by (auto simp: distinct_removeAll)
  show ?thesis
    using l h s ok by (auto simp: rx_ok_def)
qed

text \<open>What a reader who asks for bank \<open>b\<close> finds: the place of the slot among the unread ones.\<close>

definition asked :: "'w rt_can \<Rightarrow> int \<Rightarrow> nat list \<Rightarrow> nat list" where
  "asked c b us = (if 0 \<le> b \<and> nat b < maxhdr c then banks c us (nat b) else if b = -1 then us else [])"

lemma rx_take_eq:
  assumes ok: "rx_ok c fr us fl"
  shows "rx_take b c =
    (case asked c b us of [] \<Rightarrow> (None, c) | i # _ \<Rightarrow> (Some i, rx_disown i (rx_unlink i c)))"
proof -
  note d = rx_okD [OF ok] and hd = hdr_listsD [OF rx_okD(2) [OF ok]]
  have a: "hdr_alloc c" using ok by (simp add: rx_ok_def)
  note empty = rings_isempty [OF d(5)] rings_isempty [OF hd(1)]
  show ?thesis
  proof (cases "0 \<le> b \<and> nat b < maxhdr c")
    case False
    show ?thesis
    proof (cases "b = -1")
      case True
      show ?thesis
      proof (cases us)
        case (Cons i rest)
        then have "nxt (rx_links c) (Head RxUse) = Node i" using rings_first [OF d(5), of RxUse] by simp
        with True Cons show ?thesis by (simp add: rx_take_def asked_def empty)
      qed (simp add: True rx_take_def asked_def empty)
    next
      case b: False
      have "asked c b us = []" unfolding asked_def using False b by (simp only: if_False)
      moreover have "rx_take b c = (None, c)" unfolding rx_take_def using False b by auto
      ultimately show ?thesis by simp
    qed
  next
    case True
    show ?thesis
    proof (cases "banks c us (nat b)")
      case Nil
      with True show ?thesis by (auto simp: rx_take_def asked_def empty)
    next
      case (Cons i rest)
      then have first: "nxt (hdr_links c) (Head (nat b)) = Node i" using rings_first [OF hd(1), of "nat b"] by simp
      have "i \<in> set (banks c us (nat b))" using Cons by simp
      then have "rx_owner (rx_unlink i c) i = Some (nat b)" using hd(2) by (simp add: rx_unlink_def)
      with True Cons first a show ?thesis
        by (simp add: rx_take_def asked_def empty rx_disown_def Let_def)
    qed
  qed
qed

lemma asked_sub: "set (asked c b us) \<subseteq> set us"
  by (auto simp: asked_def banks_def)

lemma rx_take_ok:
  assumes ok: "rx_ok c fr us fl" and "asked c b us = i # rest"
  shows "rx_ok (snd (rx_take b c)) fr (removeAll i us) (i # fl)"
proof -
  note d = rx_okD [OF ok]
  have i: "i \<in> set us" using asked_sub [of c b us] assms(2) by auto
  let ?c = "rx_disown i (rx_unlink i c)"
  have fr: "removeAll i fr = fr" using i d(3) by (intro removeAll_id) auto
  have "freenumbers ?c = length fr" using d(6) by simp
  then have same: "?c\<lparr>freenumbers := length fr\<rparr> = ?c" by simp
  have "rx_ok (?c\<lparr>freenumbers := length fr\<rparr>) fr (removeAll i us) (i # fl)"
    using out_ok [OF ok, of i] i unfolding fr by simp
  then show ?thesis unfolding same rx_take_eq [OF ok] assms(2) by simp
qed

lemma rx_give_rest [simp]:
  "rx_data (rx_give i c) = rx_data c" "can_world (rx_give i c) = can_world c"
  "msgboxsz (rx_give i c) = msgboxsz c" "maxhdr (rx_give i c) = maxhdr c"
  "rx_owner (rx_give i c) = rx_owner c" "hdr (rx_give i c) = hdr c" "banks (rx_give i c) us = banks c us"
  by (simp_all add: rx_give_def rt_assert_def banks_def Let_def fun_eq_iff)

lemma rx_give_ok:
  assumes ok: "rx_ok c fr us fl" and i: "i \<in> set fl"
  shows "rx_ok (rx_give i c) (fr @ [i]) us (remove1 i fl)"
proof -
  note d = rx_okD [OF ok]
  have out: "i \<notin> set (case_rx_list fr us k)" for k using i d(3) by (auto split: rx_list.split)
  have l: "rings (rt_list_insert_before (Head RxFree) (Node i) (rx_links c)) (case_rx_list (fr @ [i]) us)"
    using rings_append [OF d(5) out, of RxFree] by simp
  have s: "distinct ((fr @ [i]) @ us @ remove1 i fl)" "set ((fr @ [i]) @ us @ remove1 i fl) = {..<msgboxsz c}"
    using d(3,4) i by (auto simp: distinct_remove1)
  have "length fr < msgboxsz c" using length_fr [OF ok] i by (cases fl) auto
  then show ?thesis
    using l s d ok by (auto simp: rx_ok_def rx_lists_def hdr_lists_def rx_give_def rt_assert_def Let_def)
qed

section \<open>The interrupt\<close>

text \<open>What the readers see of the unread slots: each message with the bank it is filed in.\<close>

definition queue :: "'w rt_can \<Rightarrow> nat list \<Rightarrow> (nat option \<times> rt_can_msg) list" where
  "queue c us = map (\<lambda>i. (rx_owner c i, rx_data c i)) us"

lemma queue_cong:
  "(\<And>i. i \<in> set us \<Longrightarrow> rx_owner c i = rx_owner c' i \<and> rx_data c i = rx_data c' i) \<Longrightarrow> queue c us = queue c' us"
  by (simp add: queue_def)

lemma queue_disown: "i \<notin> set us \<Longrightarrow> queue (rx_disown i (rx_unlink i c)) us = queue c us"
  by (rule queue_cong) auto

text \<open>The slot the interrupt takes: the first free one, or else the oldest unread one.\<close>

lemma isr_slot_some:
  assumes ok: "rx_ok c fr us fl" and ne: "fr @ us \<noteq> []"
  obtains c' where "isr_slot c = (Some (hd (fr @ us)), c')"
    and "rx_ok c' (tl fr) (if fr = [] then tl us else us) (hd (fr @ us) # fl)"
    and "queue c' (if fr = [] then tl us else us) = queue c (if fr = [] then tl us else us)"
    and "rx_data c' = rx_data c" and "can_world c' = can_world c" and "msgboxsz c' = msgboxsz c"
    and "maxhdr c' = maxhdr c" and "\<And>h. connected (hdr c' h) = connected (hdr c h)"
proof -
  note d = rx_okD [OF ok]
  note empty = rings_isempty [OF d(5)] rings_first [OF d(5)]
  show ?thesis
  proof (cases fr)
    case Nil
    with ne obtain i us' where us: "us = i # us'" by (cases us) auto
    let ?dropped = "c\<lparr>dropedrcvpkg := dropedrcvpkg c + 1\<rparr>"
    let ?c = "rx_disown i (rx_unlink i ?dropped)"
    have i: "i \<notin> set us'" using d(3) us by simp
    then have r: "removeAll i us = us'" using us by simp
    have f: "freenumbers ?c = 0" using d(6) Nil by simp
    then have same: "?c\<lparr>freenumbers := 0\<rparr> = ?c" by simp
    have "rx_ok (?c\<lparr>freenumbers := 0\<rparr>) [] us' (i # fl)"
      using out_ok [of ?dropped fr us fl i] ok us Nil r by simp
    then have o1: "rx_ok ?c [] us' (i # fl)" unfolding same .
    have q: "queue ?c us' = queue c us'"
      unfolding queue_disown [OF i] by (rule queue_cong) simp
    show ?thesis
    proof (rule that [of ?c])
      show "isr_slot c = (Some (hd (fr @ us)), ?c)" using us Nil by (simp add: isr_slot_def empty Let_def)
    qed (use o1 q us Nil in simp_all)
  next
    case (Cons i fr')
    let ?c = "rx_disown i (rx_unlink i c)"
    let ?c' = "?c\<lparr>freenumbers := length fr'\<rparr>"
    have i: "i \<notin> set us" "i \<notin> set fr'" using d(3) Cons by auto
    then have r: "removeAll i us = us" "removeAll i fr = fr'" using Cons by simp_all
    have n: "freenumbers ?c = Suc (length fr')" using d(6) Cons by simp
    have o1: "rx_ok ?c' fr' us (i # fl)"
      using out_ok [OF ok, of i] Cons unfolding r by simp
    have q: "queue ?c' us = queue c us"
      unfolding queue_disown [OF i(1), of c, symmetric] by (rule queue_cong) simp
    have "rt_assert (freenumbers ?c > 0) ?c = ?c" using n by (simp add: rt_assert_def)
    then have e: "isr_slot c = (Some i, ?c')"
      using Cons n by (simp add: isr_slot_def empty Let_def)
    show ?thesis
    proof (rule that [of ?c'])
      show "isr_slot c = (Some (hd (fr @ us)), ?c')" using e Cons by simp
    qed (use o1 q Cons in simp_all)
  qed
qed

lemma rt_assert_True [simp]: "rt_assert True c = c"
  by (simp add: rt_assert_def)

text \<open>The bank a message is filed in.\<close>

definition bank_of :: "(nat \<Rightarrow> bool) \<Rightarrow> rt_can_msg \<Rightarrow> nat option" where
  "bank_of con m = (if con (nat (hdr_index m)) then Some (nat (hdr_index m)) else None)"

lemma isr_store_rest [simp]:
  "rx_data (isr_store i m c) = (rx_data c)(i := m)" "can_world (isr_store i m c) = can_world c"
  "msgboxsz (isr_store i m c) = msgboxsz c" "maxhdr (isr_store i m c) = maxhdr c"
  "connected (hdr (isr_store i m c) h) = connected (hdr c h)"
  by (simp_all add: isr_store_def rt_assert_def Let_def)

lemma isr_store_ok:
  assumes ok: "rx_ok c fr us (i # fl)" and m: "0 \<le> hdr_index m" "hdr_index m < int (maxhdr c)"
  shows "rx_ok (isr_store i m c) fr (us @ [i]) fl"
    and "queue (isr_store i m c) (us @ [i]) = queue c us @ [(bank_of (\<lambda>h. connected (hdr c h)) m, m)]"
proof -
  note d = rx_okD [OF ok] and hdr = hdr_listsD [OF rx_okD(2) [OF ok]]
  let ?h = "nat (hdr_index m)"
  let ?c = "c\<lparr>rx_data := (rx_data c)(i := m),
      rx_links := rt_list_insert_before (Head RxUse) (Node i) (rx_links c)\<rparr>"
  have iu: "i \<notin> set us" and out: "i \<notin> set (case_rx_list fr us k)" for k
    using d(3) by (auto split: rx_list.split)
  have own: "rx_owner c i = None" by (rule owner_iff [OF d(2) iu])
  have outH: "i \<notin> set (banks c us h)" for h using iu by (simp add: banks_def)
  have l: "rings (rt_list_insert_before (Head RxUse) (Node i) (rx_links c)) (case_rx_list fr (us @ [i]))"
    using rings_append [OF d(5) out, of RxUse] by simp
  have s: "distinct (fr @ (us @ [i]) @ fl)" "set (fr @ (us @ [i]) @ fl) = {..<msgboxsz c}"
    using d(3,4) by auto
  have a: "hdr_alloc c" using ok by (simp add: rx_ok_def)
  have "rx_ok (isr_store i m c) fr (us @ [i]) fl \<and>
    queue (isr_store i m c) (us @ [i]) = queue c us @ [(bank_of (\<lambda>h. connected (hdr c h)) m, m)]"
  proof (cases "connected (hdr c ?h)")
    case False
    then have st: "isr_store i m c = ?c" using a m by (simp add: isr_store_def Let_def)
    have b: "banks ?c (us @ [i]) = banks c us" using own by (simp add: banks_def fun_eq_iff)
    have "rx_ok ?c fr (us @ [i]) fl"
      unfolding rx_ok_def b using ok l s by (simp add: rx_ok_def rx_lists_def hdr_lists_def)
    moreover have "queue ?c us = queue c us" by (rule queue_cong) (use iu in auto)
    ultimately show ?thesis using False own by (simp add: st queue_def bank_of_def)
  next
    case True
    let ?c' = "?c\<lparr>hdr_links := rt_list_insert_before (Head ?h) (Node i) (hdr_links c),
        rx_owner := (rx_owner c)(i := Some ?h),
        hdr := (hdr c)(?h := (hdr c ?h)\<lparr>msgs := msgs (hdr c ?h) + 1\<rparr>)\<rparr>"
    let ?H = "(banks c us)(?h := banks c us ?h @ [i])"
    have st: "isr_store i m c = ?c'" using a m True by (simp add: isr_store_def Let_def)
    have "filter (\<lambda>j. ((rx_owner c)(i := Some ?h)) j = Some k) us = banks c us k" for k
      unfolding banks_def by (rule filter_cong) (use iu in auto)
    then have b: "banks ?c' (us @ [i]) = ?H" by (simp add: banks_def fun_eq_iff)
    have r: "rings (rt_list_insert_before (Head ?h) (Node i) (hdr_links c)) ?H"
      by (rule rings_append [OF hdr(1) outH])
    have ow: "((rx_owner c)(i := Some ?h)) j = Some h \<longleftrightarrow> j \<in> set (?H h)" for j h
      using hdr(2) [of j h] outH by auto
    have h: "hdr_lists ?c' ?H"
      unfolding hdr_lists_def using r ow hdr(3,4) True by auto
    have "rx_ok ?c' fr (us @ [i]) fl"
      unfolding rx_ok_def b using h ok l s by (simp add: rx_ok_def rx_lists_def)
    moreover have "queue ?c' us = queue c us" by (rule queue_cong) (use iu in auto)
    ultimately show ?thesis using True by (simp add: st queue_def bank_of_def)
  qed
  then show "rx_ok (isr_store i m c) fr (us @ [i]) fl"
    and "queue (isr_store i m c) (us @ [i]) = queue c us @ [(bank_of (\<lambda>h. connected (hdr c h)) m, m)]"
    by auto
qed

lemma isr_indicate_calls: "isr_indicate (Some h) c = c\<lparr>calls := calls (isr_indicate (Some h) c)\<rparr>"
  by (simp add: isr_indicate_def Let_def split: option.split)

lemma isr_indicate_ok [simp]:
  "rx_ok (isr_indicate (Some h) c) fr us fl = rx_ok c fr us fl"
  "queue (isr_indicate (Some h) c) us = queue c us"
  by (subst isr_indicate_calls, simp add: queue_def)+

lemma isr_indicate_rest [simp]:
  "rx_data (isr_indicate h c) = rx_data c" "can_world (isr_indicate h c) = can_world c"
  "msgboxsz (isr_indicate h c) = msgboxsz c" "maxhdr (isr_indicate h c) = maxhdr c"
  "hdr (isr_indicate h c) = hdr c"
  by (simp_all add: isr_indicate_def Let_def split: option.split)

text \<open>The driver delivers messages whose filter index is one the device knows.\<close>

definition recv_ok :: "'w can_ops \<Rightarrow> nat \<Rightarrow> bool" where
  "recv_ok D n \<longleftrightarrow> (\<forall>no w m w'. drv_recvmsg D no w = (Some m, w') \<longrightarrow> 0 \<le> hdr_index m \<and> hdr_index m < int n)"

text \<open>An interrupt keeps these parts of the device.\<close>

definition same_device :: "'w rt_can \<Rightarrow> 'w rt_can \<Rightarrow> bool" where
  "same_device c c' \<longleftrightarrow> msgboxsz c' = msgboxsz c \<and> maxhdr c' = maxhdr c \<and>
     (\<forall>h. connected (hdr c' h) = connected (hdr c h))"

lemma isr_rx_ok:
  assumes ok: "rx_ok c fr us fl" and recv: "recv_ok D (maxhdr c)" and ne: "fr @ us \<noteq> []"
  obtains fr' us' where "rx_ok (isr_rx D no c) fr' us' fl" and "same_device c (isr_rx D no c)"
    and "can_world (isr_rx D no c) = snd (drv_recvmsg D no (can_world c))"
    and "\<And>i. i \<in> set fl \<Longrightarrow> rx_data (isr_rx D no c) i = rx_data c i"
    and "queue (isr_rx D no c) us' =
      (case fst (drv_recvmsg D no (can_world c)) of
         None \<Rightarrow> queue c us
       | Some m \<Rightarrow> newest (msgboxsz c - length fl) (queue c us @ [(bank_of (\<lambda>h. connected (hdr c h)) m, m)]))"
proof -
  note d = rx_okD [OF ok]
  have a: "rt_assert (rx_alloc c) c = c" "rt_assert (open_flag c AND RT_DEVICE_FLAG_INT_RX \<noteq> 0) c = c"
    using ok by (auto simp: rx_ok_def rt_assert_def)
  obtain ch w where recvmsg: "drv_recvmsg D no (can_world c) = (ch, w)" by fastforce
  show ?thesis
  proof (cases ch)
    case None
    then have run: "isr_rx D no c = c\<lparr>can_world := w\<rparr>" using recvmsg by (simp add: isr_rx_def a)
    have "queue (c\<lparr>can_world := w\<rparr>) us = queue c us" by (rule queue_cong) simp
    then show ?thesis
      using ok recvmsg None unfolding run by (intro that [of fr us]) (simp_all add: same_device_def run)
  next
    case (Some m)
    let ?c = "c\<lparr>can_world := w, rcvpkg := rcvpkg c + 1, rcvchange := True\<rparr>"
    let ?i = "hd (fr @ us)" and ?us = "if fr = [] then tl us else us"
    have "rx_ok ?c fr us fl" using ok by simp
    from isr_slot_some [OF this ne] obtain d where slot: "isr_slot ?c = (Some ?i, d)"
      and ok1: "rx_ok d (tl fr) ?us (?i # fl)" and q1: "queue d ?us = queue ?c ?us"
      and rest: "rx_data d = rx_data c" "can_world d = w" "msgboxsz d = msgboxsz c" "maxhdr d = maxhdr c"
        "\<And>h. connected (hdr d h) = connected (hdr c h)"
      by auto
    have m: "0 \<le> hdr_index m" "hdr_index m < int (maxhdr d)"
      using recv recvmsg Some rest by (auto simp: recv_ok_def)
    note store = isr_store_ok [OF ok1 m]
    have run: "isr_rx D no c = isr_indicate (Some (hdr_index m)) (isr_store ?i m d)"
      using recvmsg Some slot by (simp add: isr_rx_def a)
    let ?q = "queue c us @ [(bank_of (\<lambda>h. connected (hdr c h)) m, m)]"
    have "?i \<notin> set fl" using rx_okD(3) [OF ok1] by auto
    note fl = this
    have "queue (isr_rx D no c) (?us @ [?i]) = queue d ?us @ [(bank_of (\<lambda>h. connected (hdr d h)) m, m)]"
      unfolding run using store(2) by simp
    also have "queue d ?us = queue c ?us" unfolding q1 by (rule queue_cong) simp
    also have "queue c ?us @ [(bank_of (\<lambda>h. connected (hdr d h)) m, m)] = newest (length fr + length us) ?q"
      using ne rest(5) by (cases fr; cases us) (simp_all add: newest_def queue_def)
    also have "length fr + length us = msgboxsz c - length fl" using length_fr [OF ok] by simp
    finally have q: "queue (isr_rx D no c) (?us @ [?i]) = newest (msgboxsz c - length fl) ?q" .
    show ?thesis
    proof (rule that [of "tl fr" "?us @ [?i]"])
      show "rx_ok (isr_rx D no c) (tl fr) (?us @ [?i]) fl" unfolding run using store(1) by simp
      show "rx_data (isr_rx D no c) i = rx_data c i" if "i \<in> set fl" for i
        using fl that rest by (auto simp: run)
    qed (use q recvmsg Some rest in \<open>simp_all add: same_device_def run\<close>)
  qed
qed

lemma isr_ok:
  assumes ok: "rx_ok c fr us fl" and recv: "recv_ok D (maxhdr c)" and ne: "fr @ us \<noteq> []"
  obtains fr' us' where "rx_ok (rt_hw_can_isr D ev c) fr' us' fl" and "same_device c (rt_hw_can_isr D ev c)"
    and "\<And>i. i \<in> set fl \<Longrightarrow> rx_data (rt_hw_can_isr D ev c) i = rx_data c i"
    and "(can_world (rt_hw_can_isr D ev c), queue (rt_hw_can_isr D ev c) us') =
      (if ev mod 256 \<in> {RT_CAN_EVENT_RXOF_IND, RT_CAN_EVENT_RX_IND}
       then case drv_recvmsg D (ev div 256) (can_world c) of
              (None, w) \<Rightarrow> (w, queue c us)
            | (Some m, w) \<Rightarrow>
                (w, newest (msgboxsz c - length fl) (queue c us @ [(bank_of (\<lambda>h. connected (hdr c h)) m, m)]))
       else (can_world c, queue c us))"
proof (cases "ev mod 256 \<in> {RT_CAN_EVENT_RXOF_IND, RT_CAN_EVENT_RX_IND}")
  case True
  define d where "d = (if ev mod 256 = RT_CAN_EVENT_RXOF_IND then c\<lparr>dropedrcvpkg := dropedrcvpkg c + 1\<rparr> else c)"
  have d: "rx_ok d fr us fl" "recv_ok D (maxhdr d)" "same_device c d" "can_world d = can_world c"
      "rx_data d = rx_data c" "msgboxsz d = msgboxsz c" "hdr d = hdr c" "queue d us = queue c us"
    using ok recv by (simp_all add: d_def same_device_def queue_def)
  have run: "rt_hw_can_isr D ev c = isr_rx D (ev div 256) d"
    using True by (auto simp: rt_hw_can_isr_def d_def RT_CAN_EVENT_RXOF_IND_def RT_CAN_EVENT_RX_IND_def Let_def)
  obtain fr' us' where "rx_ok (isr_rx D (ev div 256) d) fr' us' fl" and "same_device d (isr_rx D (ev div 256) d)"
    and "can_world (isr_rx D (ev div 256) d) = snd (drv_recvmsg D (ev div 256) (can_world c))"
    and "\<And>i. i \<in> set fl \<Longrightarrow> rx_data (isr_rx D (ev div 256) d) i = rx_data c i"
    and "queue (isr_rx D (ev div 256) d) us' =
      (case fst (drv_recvmsg D (ev div 256) (can_world c)) of
         None \<Rightarrow> queue c us
       | Some m \<Rightarrow> newest (msgboxsz c - length fl) (queue c us @ [(bank_of (\<lambda>h. connected (hdr c h)) m, m)]))"
    by (rule isr_rx_ok [OF d(1,2) ne, of "ev div 256", unfolded d(4-8)]) (rule that; assumption)
  with True d(3) show ?thesis
    by (intro that [of fr' us']) (auto simp: run same_device_def split: prod.split option.split)
next
  case False
  have "rx_ok (isr_tx r no c) fr us fl \<and> same_device c (isr_tx r no c) \<and> rx_data (isr_tx r no c) = rx_data c \<and>
      can_world (isr_tx r no c) = can_world c \<and> queue (isr_tx r no c) us = queue c us" for r no
  proof -
    have "tx_alloc c" using ok by (simp add: rx_ok_def)
    then show ?thesis using ok by (simp add: isr_tx_def Let_def same_device_def queue_def)
  qed
  then have "rx_ok (rt_hw_can_isr D ev c) fr us fl \<and> same_device c (rt_hw_can_isr D ev c) \<and>
      rx_data (rt_hw_can_isr D ev c) = rx_data c \<and> can_world (rt_hw_can_isr D ev c) = can_world c \<and>
      queue (rt_hw_can_isr D ev c) us = queue c us"
    using False ok by (auto simp: rt_hw_can_isr_def Let_def same_device_def)
  with False show ?thesis by (intro that [of fr us]) auto
qed

section \<open>Interrupts and readers\<close>

text \<open>
  A run of the receive side: interrupts, and the threads with numbers below \<open>k\<close> that are inside
  \<open>_can_int_rx\<close>.  A thread takes a slot, and later copies its message and gives the slot back; \<open>hands\<close>
  are the slots between the two, \<open>out\<close> the messages copied.  Filters are connected at any time.
\<close>

datatype rx_event = Irq nat | Take nat int | Give nat | Connect "can_filter_item list"

record 'w rx_run =
  run_can :: "'w rt_can"
  hands :: "(nat \<times> nat) list"
  copied :: "(nat \<times> rt_can_msg) list"

definition rx_step :: "'w can_ops \<Rightarrow> nat \<Rightarrow> 'w rx_run \<Rightarrow> rx_event \<Rightarrow> 'w rx_run" where
  "rx_step D k s e =
     (case e of
        Irq ev \<Rightarrow> s\<lparr>run_can := rt_hw_can_isr D ev (run_can s)\<rparr>
      | Take t b \<Rightarrow>
          if t < k \<and> map_of (hands s) t = None then
            (case rx_take b (run_can s) of
               (None, c) \<Rightarrow> s\<lparr>run_can := c\<rparr>
             | (Some i, c) \<Rightarrow> s\<lparr>run_can := c, hands := hands s @ [(t, i)]\<rparr>)
          else s
      | Give t \<Rightarrow>
          (case map_of (hands s) t of
             None \<Rightarrow> s
           | Some i \<Rightarrow>
               s\<lparr>run_can := rx_give i (run_can s), hands := filter (\<lambda>p. fst p \<noteq> t) (hands s),
                 copied := copied s @ [(t, rx_data (run_can s) i)]\<rparr>)
      | Connect items \<Rightarrow> s\<lparr>run_can := snd (rt_can_control D (RT_CAN_CMD_SET_FILTER True items) (run_can s))\<rparr>)"

text \<open>
  What it should be: a queue of messages, each filed under a bank or none.  While messages are in the hands of readers,
  as many fewer fit; of the others the newest are kept.
\<close>

record 'w rx_spec =
  spec_world :: 'w
  unread :: "(nat option \<times> rt_can_msg) list"
  held :: "(nat \<times> rt_can_msg) list"
  spec_banks :: "nat \<Rightarrow> bool"
  spec_copied :: "(nat \<times> rt_can_msg) list"

definition spec_wants :: "nat \<Rightarrow> int \<Rightarrow> nat option \<times> rt_can_msg \<Rightarrow> bool" where
  "spec_wants n b p \<longleftrightarrow> b = -1 \<or> (0 \<le> b \<and> nat b < n \<and> fst p = Some (nat b))"

definition spec_step :: "'w can_ops \<Rightarrow> nat \<Rightarrow> nat \<Rightarrow> nat \<Rightarrow> 'w rx_spec \<Rightarrow> rx_event \<Rightarrow> 'w rx_spec" where
  "spec_step D size_rx n k a e =
     (case e of
        Irq ev \<Rightarrow>
          if ev mod 256 \<in> {RT_CAN_EVENT_RXOF_IND, RT_CAN_EVENT_RX_IND} then
            (case drv_recvmsg D (ev div 256) (spec_world a) of
               (None, w) \<Rightarrow> a\<lparr>spec_world := w\<rparr>
             | (Some m, w) \<Rightarrow>
                 a\<lparr>spec_world := w, unread := newest (size_rx - length (held a)) (unread a @ [(bank_of (spec_banks a) m, m)])\<rparr>)
          else a
      | Take t b \<Rightarrow>
          if t < k \<and> map_of (held a) t = None then
            (case List.extract (spec_wants n b) (unread a) of
               None \<Rightarrow> a
             | Some (before, p, after) \<Rightarrow> a\<lparr>unread := before @ after, held := held a @ [(t, snd p)]\<rparr>)
          else a
      | Give t \<Rightarrow>
          (case map_of (held a) t of
             None \<Rightarrow> a
           | Some m \<Rightarrow>
               a\<lparr>held := filter (\<lambda>p. fst p \<noteq> t) (held a), spec_copied := spec_copied a @ [(t, m)]\<rparr>)
      | Connect items \<Rightarrow>
          let (res, w) = drv_set_filter D True items (spec_world a);
              a = a\<lparr>spec_world := w\<rparr>
          in if res \<noteq> RT_EOK then a
             else a\<lparr>spec_banks := (\<lambda>h. spec_banks a h \<or>
                      (\<exists>f\<in>set items. 0 \<le> hdr_bank f \<and> hdr_bank f < int n \<and> nat (hdr_bank f) = h))\<rparr>)"

text \<open>The run and the queue it represents.\<close>

definition represents :: "nat \<Rightarrow> nat \<Rightarrow> nat \<Rightarrow> 'w rx_run \<Rightarrow> 'w rx_spec \<Rightarrow> bool" where
  "represents size_rx n k s a \<longleftrightarrow>
     (\<exists>fr us. rx_ok (run_can s) fr us (map snd (hands s)) \<and> unread a = queue (run_can s) us) \<and>
     msgboxsz (run_can s) = size_rx \<and> maxhdr (run_can s) = n \<and> spec_world a = can_world (run_can s) \<and>
     held a = map (\<lambda>(t, i). (t, rx_data (run_can s) i)) (hands s) \<and>
     spec_banks a = (\<lambda>h. connected (hdr (run_can s) h)) \<and> spec_copied a = copied s \<and>
     distinct (map fst (hands s)) \<and> fst ` set (hands s) \<subseteq> {..<k}"

lemma hands_few:
  assumes "distinct (map fst hs)" and "fst ` set hs \<subseteq> {..<k}" shows "length hs \<le> (k::nat)"
proof -
  have "length hs = card (set (map fst hs))" using distinct_card [OF assms(1)] by simp
  also have "\<dots> \<le> k" using card_mono [OF _ assms(2)] by simp
  finally show ?thesis .
qed

lemma represents_irq:
  assumes r: "represents N n k s a" and recv: "recv_ok D n" and k: "k < N"
  shows "represents N n k (rx_step D k s (Irq ev)) (spec_step D N n k a (Irq ev))"
proof -
  from r obtain fr us where ok: "rx_ok (run_can s) fr us (map snd (hands s))" and q: "unread a = queue (run_can s) us"
    and p: "msgboxsz (run_can s) = N" "maxhdr (run_can s) = n" "spec_world a = can_world (run_can s)"
      "held a = map (\<lambda>(t, i). (t, rx_data (run_can s) i)) (hands s)"
      "spec_banks a = (\<lambda>h. connected (hdr (run_can s) h))" "spec_copied a = copied s"
      "distinct (map fst (hands s))" "fst ` set (hands s) \<subseteq> {..<k}"
    unfolding represents_def by blast
  have "length fr + length us + length (hands s) = N" using length_fr [OF ok] p by simp
  then have ne: "fr @ us \<noteq> []" using hands_few [OF p(7,8)] k by auto
  obtain fr' us' where i: "rx_ok (rt_hw_can_isr D ev (run_can s)) fr' us' (map snd (hands s))"
      "same_device (run_can s) (rt_hw_can_isr D ev (run_can s))"
      "\<And>i. i \<in> set (map snd (hands s)) \<Longrightarrow> rx_data (rt_hw_can_isr D ev (run_can s)) i = rx_data (run_can s) i"
      "(can_world (rt_hw_can_isr D ev (run_can s)), queue (rt_hw_can_isr D ev (run_can s)) us') =
      (if ev mod 256 \<in> {RT_CAN_EVENT_RXOF_IND, RT_CAN_EVENT_RX_IND}
       then case drv_recvmsg D (ev div 256) (can_world (run_can s)) of
              (None, w) \<Rightarrow> (w, queue (run_can s) us)
            | (Some m, w) \<Rightarrow>
                (w, newest (msgboxsz (run_can s) - length (map snd (hands s)))
                  (queue (run_can s) us @ [(bank_of (\<lambda>h. connected (hdr (run_can s) h)) m, m)]))
       else (can_world (run_can s), queue (run_can s) us))"
    by (rule isr_ok [OF ok _ ne]) (use recv p in auto)
  have h: "map (\<lambda>(t, i). (t, rx_data (rt_hw_can_isr D ev (run_can s)) i)) (hands s) = held a"
    unfolding p by (rule map_cong) (use i(3) in force)+
  have spec: "(spec_world (spec_step D N n k a (Irq ev)), unread (spec_step D N n k a (Irq ev))) =
      (can_world (rt_hw_can_isr D ev (run_can s)), queue (rt_hw_can_isr D ev (run_can s)) us')"
    unfolding i(4) using p q by (auto simp: spec_step_def split: prod.split option.split)
  have same: "held (spec_step D N n k a (Irq ev)) = held a" "spec_banks (spec_step D N n k a (Irq ev)) = spec_banks a"
      "spec_copied (spec_step D N n k a (Irq ev)) = spec_copied a"
    by (auto simp: spec_step_def split: prod.split option.split)
  show ?thesis
    unfolding represents_def same
    using i(1,2) h spec p by (auto simp: rx_step_def same_device_def)
qed

lemma extract_map: "List.extract P (map f xs) =
    map_option (\<lambda>(us, x, vs). (map f us, f x, map f vs)) (List.extract (\<lambda>x. P (f x)) xs)"
  by (induction xs) (auto simp: extract_Nil_code extract_Cons_code split: option.split)

lemma extract_filter: "List.extract P xs = None \<longleftrightarrow> filter P xs = []"
  by (auto simp: extract_None_iff filter_empty_conv)

lemma extract_hd: "List.extract P xs = Some (us, x, vs) \<Longrightarrow> filter P xs = x # filter P vs"
  by (auto simp: extract_Some_iff filter_empty_conv)

lemma asked_filter: "asked c b us = filter (\<lambda>i. spec_wants (maxhdr c) b (rx_owner c i, rx_data c i)) us"
  by (auto simp: asked_def banks_def spec_wants_def)

lemma map_of_pairs: "map_of (map (\<lambda>(t, i). (t, f i)) hs) t = map_option f (map_of hs t)"
  by (induction hs) auto

lemma represents_take:
  assumes r: "represents N n k s a"
  shows "represents N n k (rx_step D k s (Take t b)) (spec_step D N n k a (Take t b))"
proof -
  from r obtain fr us where ok: "rx_ok (run_can s) fr us (map snd (hands s))" and q: "unread a = queue (run_can s) us"
    and p: "msgboxsz (run_can s) = N" "maxhdr (run_can s) = n" "spec_world a = can_world (run_can s)"
      "held a = map (\<lambda>(t, i). (t, rx_data (run_can s) i)) (hands s)"
      "spec_banks a = (\<lambda>h. connected (hdr (run_can s) h))" "spec_copied a = copied s"
      "distinct (map fst (hands s))" "fst ` set (hands s) \<subseteq> {..<k}"
    unfolding represents_def by blast
  note take = rx_take_eq [OF ok, of b]
  have free: "map_of (held a) t = None \<longleftrightarrow> map_of (hands s) t = None"
    unfolding p map_of_pairs by simp
  show ?thesis
  proof (cases "t < k \<and> map_of (hands s) t = None")
    case False
    then have "rx_step D k s (Take t b) = s" "spec_step D N n k a (Take t b) = a"
      using free by (auto simp: rx_step_def spec_step_def)
    with r show ?thesis by simp
  next
    case True
    let ?P = "\<lambda>i. spec_wants n b (rx_owner (run_can s) i, rx_data (run_can s) i)"
    have asked: "asked (run_can s) b us = filter ?P us" using asked_filter p by metis
    show ?thesis
    proof (cases "List.extract ?P us")
      case None
      then have "asked (run_can s) b us = []" using asked extract_filter by metis
      then have "rx_step D k s (Take t b) = s" using True take by (simp add: rx_step_def)
      moreover have "spec_step D N n k a (Take t b) = a"
        using None True free by (simp add: spec_step_def q queue_def extract_map)
      ultimately show ?thesis using r by simp
    next
      case (Some z)
      then obtain ys i zs where ex: "List.extract ?P us = Some (ys, i, zs)" by (cases z) auto
      then have us: "us = ys @ i # zs" by (auto simp: extract_Some_iff)
      have d: "i \<notin> set ys" "i \<notin> set zs" using rx_okD(3) [OF ok] us by auto
      let ?c = "rx_disown i (rx_unlink i (run_can s))"
      have as: "asked (run_can s) b us = i # filter ?P zs" using asked extract_hd [OF ex] by simp
      have run: "rx_step D k s (Take t b) = s\<lparr>run_can := ?c, hands := hands s @ [(t, i)]\<rparr>"
        using True take as by (simp add: rx_step_def)
      have spec: "spec_step D N n k a (Take t b) =
          a\<lparr>unread := queue (run_can s) (ys @ zs), held := held a @ [(t, rx_data (run_can s) i)]\<rparr>"
        using ex True free by (simp add: spec_step_def q queue_def extract_map)
      have "rx_ok ?c fr (ys @ zs) (i # map snd (hands s))"
        using rx_take_ok [OF ok as] take as us d by (simp add: removeAll_id)
      then have "rx_ok ?c fr (ys @ zs) (map snd (hands s @ [(t, i)]))"
        unfolding rx_ok_def by auto
      moreover have "queue ?c (ys @ zs) = queue (run_can s) (ys @ zs)"
        by (rule queue_disown) (use d in simp)
      moreover have "distinct (map fst (hands s @ [(t, i)]))"
        using p(7) True by (auto simp: map_of_eq_None_iff)
      ultimately show ?thesis
        unfolding represents_def run spec using p(1-6,8) True
        by (intro conjI exI [of _ fr] exI [of _ "ys @ zs"]) auto
    qed
  qed
qed

lemma remove_pair:
  "distinct (map fst hs) \<Longrightarrow> distinct (map snd hs) \<Longrightarrow> map_of hs t = Some i \<Longrightarrow>
   map snd (filter (\<lambda>p. fst p \<noteq> t) hs) = remove1 i (map snd hs)"
proof (induction hs)
  case (Cons h hs)
  show ?case
  proof (cases "fst h = t")
    case True
    then have "t \<notin> fst ` set hs" using Cons.prems by auto
    then have "filter (\<lambda>p. fst p \<noteq> t) hs = hs" by (metis (mono_tags, lifting) filter_True image_eqI)
    then show ?thesis using True Cons.prems by (cases h) auto
  next
    case False
    then have m: "map_of hs t = Some i" using Cons.prems by (cases h) auto
    then have "i \<in> set (map snd hs)" by (force dest: map_of_SomeD)
    then have "snd h \<noteq> i" using Cons.prems(2) by auto
    then show ?thesis using False Cons m by auto
  qed
qed simp

lemma represents_give:
  assumes r: "represents N n k s a"
  shows "represents N n k (rx_step D k s (Give t)) (spec_step D N n k a (Give t))"
proof -
  from r obtain fr us where ok: "rx_ok (run_can s) fr us (map snd (hands s))" and q: "unread a = queue (run_can s) us"
    and p: "msgboxsz (run_can s) = N" "maxhdr (run_can s) = n" "spec_world a = can_world (run_can s)"
      "held a = map (\<lambda>(t, i). (t, rx_data (run_can s) i)) (hands s)"
      "spec_banks a = (\<lambda>h. connected (hdr (run_can s) h))" "spec_copied a = copied s"
      "distinct (map fst (hands s))" "fst ` set (hands s) \<subseteq> {..<k}"
    unfolding represents_def by blast
  have m: "map_of (held a) t = map_option (rx_data (run_can s)) (map_of (hands s) t)"
    unfolding p by (rule map_of_pairs)
  show ?thesis
  proof (cases "map_of (hands s) t")
    case None
    then show ?thesis using r m by (simp add: rx_step_def spec_step_def)
  next
    case (Some i)
    let ?hs = "filter (\<lambda>p. fst p \<noteq> t) (hands s)"
    have i: "i \<in> set (map snd (hands s))" using Some by (force dest: map_of_SomeD)
    have "distinct (map snd (hands s))" using rx_okD(3) [OF ok] by simp
    then have hs: "map snd ?hs = remove1 i (map snd (hands s))" by (rule remove_pair [OF p(7) _ Some])
    have g: "rx_ok (rx_give i (run_can s)) (fr @ [i]) us (map snd ?hs)"
      unfolding hs by (rule rx_give_ok [OF ok i])
    have h: "map (\<lambda>(t, i). (t, rx_data (run_can s) i)) ?hs = filter (\<lambda>p. fst p \<noteq> t) (held a)"
      unfolding p filter_map o_def by (rule arg_cong [where f = "map _"], rule filter_cong) auto
    have qg: "queue (rx_give i (run_can s)) us = queue (run_can s) us" by (rule queue_cong) simp
    have "distinct (map fst ?hs)" using p(7) by (simp add: distinct_map_filter)
    then have d: "distinct (map fst ?hs) \<and> fst ` set ?hs \<subseteq> {..<k}" using p(8) by auto
    have run: "rx_step D k s (Give t) = s\<lparr>run_can := rx_give i (run_can s), hands := ?hs,
        copied := copied s @ [(t, rx_data (run_can s) i)]\<rparr>"
      using Some by (simp add: rx_step_def)
    have spec: "spec_step D N n k a (Give t) = a\<lparr>held := filter (\<lambda>p. fst p \<noteq> t) (held a),
        spec_copied := spec_copied a @ [(t, rx_data (run_can s) i)]\<rparr>"
      using m Some by (simp add: spec_step_def)
    have "\<exists>fr' us'. rx_ok (rx_give i (run_can s)) fr' us' (map snd ?hs) \<and> unread a = queue (rx_give i (run_can s)) us'"
      using g q qg by metis
    then show ?thesis
      unfolding represents_def run spec using h p d by simp
  qed
qed

text \<open>Connecting the filter of a bank that is already connected changes nothing; else the bank is empty.\<close>

lemma connect_filter_ok:
  assumes ok: "rx_ok c fr us fl"
  shows "rx_ok (connect_filter f c) fr us fl"
    and "connected (hdr (connect_filter f c) h) \<longleftrightarrow> connected (hdr c h) \<or> (bank_ok f c \<and> nat (hdr_bank f) = h)"
    and "rx_data (connect_filter f c) = rx_data c" and "rx_owner (connect_filter f c) = rx_owner c"
    and "can_world (connect_filter f c) = can_world c" and "msgboxsz (connect_filter f c) = msgboxsz c"
    and "maxhdr (connect_filter f c) = maxhdr c"
proof -
  note hdr = hdr_listsD [OF rx_okD(2) [OF ok]]
  let ?h = "nat (hdr_bank f)"
  show "rx_ok (connect_filter f c) fr us fl"
  proof (cases "bank_ok f c \<and> \<not> connected (hdr c ?h)")
    case False
    then have "connect_filter f c = c" by (auto simp: connect_filter_def Let_def)
    with ok show ?thesis by simp
  next
    case True
    then have e: "banks c us ?h = []" using hdr(4) by simp
    then have "ring (hdr_links c) (Head ?h) []" using rings_ring [OF hdr(1), of ?h] by simp
    then have "nxt (hdr_links c) (Head ?h) = Head ?h" "prv (hdr_links c) (Head ?h) = Head ?h"
      by (simp_all add: ring_def)
    then have i: "rt_list_init (Head ?h) (hdr_links c) = hdr_links c"
      by (simp add: rt_list_init_def fun_upd_idem)
    let ?c = "c\<lparr>hdr := (hdr c)(?h := \<lparr>connected = True, msgs = 0, flt = f\<rparr>)\<rparr>"
    have run: "connect_filter f c = ?c" using True i by (simp add: connect_filter_def Let_def)
    have "hdr_lists ?c (banks c us)"
      unfolding hdr_lists_def using hdr e by auto
    moreover have "rx_lists ?c fr us" using rx_okD(1) [OF ok] by (simp add: rx_lists_def)
    ultimately show ?thesis unfolding run using ok by (simp add: rx_ok_def)
  qed
qed (auto simp: connect_filter_def Let_def)

lemma connect_filters_ok:
  assumes "rx_ok c fr us fl"
  shows "rx_ok (fold connect_filter fs c) fr us fl \<and>
    (\<forall>h. connected (hdr (fold connect_filter fs c) h) \<longleftrightarrow>
      connected (hdr c h) \<or> (\<exists>f\<in>set fs. bank_ok f c \<and> nat (hdr_bank f) = h)) \<and>
    rx_data (fold connect_filter fs c) = rx_data c \<and> rx_owner (fold connect_filter fs c) = rx_owner c \<and>
    can_world (fold connect_filter fs c) = can_world c \<and> msgboxsz (fold connect_filter fs c) = msgboxsz c \<and>
    maxhdr (fold connect_filter fs c) = maxhdr c"
  using assms
proof (induction fs arbitrary: c)
  case (Cons f fs)
  note f = connect_filter_ok [OF Cons.prems, of f]
  have b: "bank_ok g (connect_filter f c) = bank_ok g c" for g by (simp add: bank_ok_def f)
  show ?case using Cons.IH [OF f(1)] by (simp add: f b)
qed simp

lemma represents_connect:
  assumes r: "represents N n k s a"
  shows "represents N n k (rx_step D k s (Connect items)) (spec_step D N n k a (Connect items))"
proof -
  from r obtain fr us where ok: "rx_ok (run_can s) fr us (map snd (hands s))" and q: "unread a = queue (run_can s) us"
    and p: "msgboxsz (run_can s) = N" "maxhdr (run_can s) = n" "spec_world a = can_world (run_can s)"
      "held a = map (\<lambda>(t, i). (t, rx_data (run_can s) i)) (hands s)"
      "spec_banks a = (\<lambda>h. connected (hdr (run_can s) h))" "spec_copied a = copied s"
      "distinct (map fst (hands s))" "fst ` set (hands s) \<subseteq> {..<k}"
    unfolding represents_def by blast
  obtain res w where drv: "drv_set_filter D True items (can_world (run_can s)) = (res, w)" by fastforce
  let ?c = "(run_can s)\<lparr>can_world := w\<rparr>"
  have ok': "rx_ok ?c fr us (map snd (hands s))" using ok by simp
  have a: "hdr_alloc ?c" using ok by (simp add: rx_ok_def)
  note fs = connect_filters_ok [OF ok', of items]
  let ?s = "s\<lparr>run_can := (if res = RT_EOK then fold connect_filter items ?c else ?c)\<rparr>"
  have run: "rx_step D k s (Connect items) = ?s"
    using a by (simp add: rx_step_def set_filter_def drv Let_def)
  have spec: "spec_step D N n k a (Connect items) =
      a\<lparr>spec_world := w, spec_banks := (\<lambda>h. spec_banks a h \<or> (res = RT_EOK \<and>
        (\<exists>f\<in>set items. 0 \<le> hdr_bank f \<and> hdr_bank f < int n \<and> nat (hdr_bank f) = h)))\<rparr>"
    by (cases "res = RT_EOK") (simp_all add: spec_step_def drv p(3) Let_def)
  have "rx_ok (run_can ?s) fr us (map snd (hands s))" using fs ok' by simp
  moreover have "queue (run_can ?s) us = queue (run_can s) us" by (rule queue_cong) (use fs in auto)
  ultimately have "\<exists>fr' us'. rx_ok (run_can ?s) fr' us' (map snd (hands s)) \<and> unread a = queue (run_can ?s) us'"
    using q by metis
  then show ?thesis
    unfolding represents_def run spec using fs p by (auto simp: fun_eq_iff bank_ok_def)
qed

lemma represents_step:
  assumes "represents N n k s a" and "recv_ok D n" and "k < N"
  shows "represents N n k (rx_step D k s e) (spec_step D N n k a e)"
  by (cases e) (simp_all only: represents_irq [OF assms] represents_take [OF assms(1)]
      represents_give [OF assms(1)] represents_connect [OF assms(1)])

lemma represents_run:
  assumes "represents N n k s a" and "recv_ok D n" and "k < N"
  shows "represents N n k (foldl (rx_step D k) s es) (foldl (spec_step D N n k) a es)"
  using assms(1)
proof (induction es arbitrary: s a)
  case (Cons e es)
  show ?case using Cons.IH [OF represents_step [OF Cons.prems assms(2,3)]] by simp
qed simp

section \<open>Opening the device\<close>

lemma list_of_all_rings:
  "rings h L \<Longrightarrow> (\<And>k i. i \<in> set (L k) \<Longrightarrow> n \<le> i) \<Longrightarrow> rings (list_of_all (Head l) n h) (L(l := L l @ [0..<n]))"
proof (induction n)
  case 0
  then show ?case by (simp add: list_of_all_def)
next
  case (Suc n)
  have r: "rings (list_of_all (Head l) n h) (L(l := L l @ [0..<n]))"
    using Suc.IH [OF Suc.prems(1)] Suc.prems(2) Suc_leD by blast
  have "n \<notin> set ((L(l := L l @ [0..<n])) k)" for k using Suc.prems(2) [of n k] by auto
  from rings_append [OF r this, of l] show ?case
    by (simp add: list_of_all_def del: fun_upd_apply) (simp only: fun_upd_same fun_upd_upd append_assoc)?
qed

text \<open>The device as \<open>rt_hw_can_register\<close> leaves it; then the allocator has room.\<close>

definition allocates :: "'w can_ops \<Rightarrow> bool" where
  "allocates D \<longleftrightarrow> (\<forall>w. fst (drv_alloc D w))"

lemma alloc_ok: "allocates D \<Longrightarrow> alloc D c = c\<lparr>can_world := snd (drv_alloc D (can_world c))\<rparr>"
  by (cases "drv_alloc D (can_world c)") (auto simp: allocates_def alloc_def dest: spec [of _ "can_world c"])

definition both_flags :: "u16 \<Rightarrow> bool" where
  "both_flags f \<longleftrightarrow> f AND RT_DEVICE_FLAG_INT_RX \<noteq> 0 \<and> f AND RT_DEVICE_FLAG_INT_TX \<noteq> 0"

lemma rx_flag [simp]: "(x OR RT_DEVICE_FLAG_INT_RX) AND RT_DEVICE_FLAG_INT_RX \<noteq> 0"
    "((x OR RT_DEVICE_FLAG_INT_RX) OR RT_DEVICE_FLAG_INT_TX) AND RT_DEVICE_FLAG_INT_RX \<noteq> 0"
  by (simp_all add: word_ao_dist or_eq_0_iff RT_DEVICE_FLAG_INT_RX_def RT_DEVICE_FLAG_INT_TX_def)

lemma open_rx_fields:
  assumes "allocates D"
  shows "rx_links (open_rx D c) = list_of_all (Head RxFree) (msgboxsz c)
      (rt_list_init (Head RxUse) (rt_list_init (Head RxFree) (rx_links c)))"
    and "hdr_links (open_rx D c) = foldl (\<lambda>h i. rt_list_init (Node i) h) (hdr_links c) [0..<msgboxsz c]"
    and "rx_owner (open_rx D c) i = (if i < msgboxsz c then None else rx_owner c i)"
    and "freenumbers (open_rx D c) = msgboxsz c" and "rx_alloc (open_rx D c)"
    and "open_flag (open_rx D c) = open_flag c OR RT_DEVICE_FLAG_INT_RX"
    and "msgboxsz (open_rx D c) = msgboxsz c"
    and "maxhdr (open_rx D c) = maxhdr c"
    and "sndboxnumber (open_rx D c) = sndboxnumber c"
    and "can_assert (open_rx D c) = can_assert c"
    and "can_ub (open_rx D c) = can_ub c"
    and "timerinitflag (open_rx D c) = timerinitflag c"
    and "hdr (open_rx D c) = hdr c"
    and "hdr_alloc (open_rx D c) = hdr_alloc c"
    and "tx_alloc (open_rx D c) = tx_alloc c"
    and "tx_links (open_rx D c) = tx_links c"
  by (simp_all add: open_rx_def alloc_ok [OF assms] run_control_def Let_def)

lemma open_tx_fields:
  assumes "allocates D"
  shows "tx_links (open_tx D c) = list_of_all (Head ()) (sndboxnumber c) (rt_list_init (Head ()) (tx_links c))"
    and "tx_sem (open_tx D c) = sndboxnumber c" and "tx_alloc (open_tx D c)"
    and "open_flag (open_tx D c) = open_flag c OR RT_DEVICE_FLAG_INT_TX"
    and "tx_done (open_tx D c) i = (if i < sndboxnumber c then rt_completion_init else tx_done c i)"
    and "msgboxsz (open_tx D c) = msgboxsz c"
    and "maxhdr (open_tx D c) = maxhdr c"
    and "sndboxnumber (open_tx D c) = sndboxnumber c"
    and "can_assert (open_tx D c) = can_assert c"
    and "can_ub (open_tx D c) = can_ub c"
    and "timerinitflag (open_tx D c) = timerinitflag c"
    and "hdr (open_tx D c) = hdr c"
    and "hdr_alloc (open_tx D c) = hdr_alloc c"
    and "hdr_links (open_tx D c) = hdr_links c"
    and "rx_alloc (open_tx D c) = rx_alloc c"
    and "rx_links (open_tx D c) = rx_links c"
    and "rx_owner (open_tx D c) = rx_owner c"
    and "freenumbers (open_tx D c) = freenumbers c"
  by (simp_all add: open_tx_def alloc_ok [OF assms] run_control_def Let_def)

lemma open_hdr_fields:
  assumes "allocates D"
  shows "hdr (open_hdr D c) h = (if h < maxhdr c then \<lparr>connected = False, msgs = 0, flt = no_filter\<rparr> else hdr c h)"
    and "hdr_links (open_hdr D c) = foldl (\<lambda>h i. rt_list_init (Head i) h) (hdr_links c) [0..<maxhdr c]"
    and "hdr_alloc (open_hdr D c)"
    and "msgboxsz (open_hdr D c) = msgboxsz c"
    and "maxhdr (open_hdr D c) = maxhdr c"
    and "sndboxnumber (open_hdr D c) = sndboxnumber c"
    and "can_assert (open_hdr D c) = can_assert c"
    and "can_ub (open_hdr D c) = can_ub c"
    and "timerinitflag (open_hdr D c) = timerinitflag c"
    and "open_flag (open_hdr D c) = open_flag c"
    and "rx_alloc (open_hdr D c) = rx_alloc c"
    and "rx_links (open_hdr D c) = rx_links c"
    and "rx_owner (open_hdr D c) = rx_owner c"
    and "freenumbers (open_hdr D c) = freenumbers c"
    and "tx_alloc (open_hdr D c) = tx_alloc c"
    and "tx_links (open_hdr D c) = tx_links c"
    and "tx_sem (open_hdr D c) = tx_sem c"
    and "tx_done (open_hdr D c) = tx_done c"
  by (simp_all add: open_hdr_def alloc_ok [OF assms] Let_def)

lemma run_control_fields:
  "run_control D cmd arg c = c\<lparr>can_world := can_world (run_control D cmd arg c)\<rparr>"
  by (simp add: run_control_def)

lemma opened_fields:
  fixes c :: "'w rt_can"
  assumes a: "allocates D" and f: "both_flags oflag"
  defines "d \<equiv> snd (rt_can_open D oflag (rt_hw_can_register c))"
  shows "rx_links d = list_of_all (Head RxFree) (msgboxsz c) unlinked" and "hdr_links d = unlinked"
    and "rx_owner d i = None" and "freenumbers d = msgboxsz c" and "msgboxsz d = msgboxsz c"
    and "maxhdr d = maxhdr c" and "hdr d h = \<lparr>connected = False, msgs = 0, flt = no_filter\<rparr>"
    and "rx_alloc d" and "tx_alloc d" and "hdr_alloc d"
    and "open_flag d = ((oflag AND 0xff) OR RT_DEVICE_FLAG_INT_RX) OR RT_DEVICE_FLAG_INT_TX"
    and "can_assert d = can_assert c" and "can_ub d = can_ub c"
    and "tx_links d = list_of_all (Head ()) (sndboxnumber c) unlinked" and "tx_sem d = sndboxnumber c"
    and "sndboxnumber d = sndboxnumber c"
    and "i < sndboxnumber c \<Longrightarrow> tx_done d i = rt_completion_init"
proof -
  define r where "r = (rt_hw_can_register c)\<lparr>open_flag := oflag AND 0xff\<rparr>"
  define t where "t = open_tx D (open_rx D r)"
  define w where "w = can_world (run_control D RT_DEVICE_CTRL_SET_INT RT_DEVICE_CAN_INT_ERR t)"
  have r: "\<not> rx_alloc r" "\<not> tx_alloc r" "\<not> hdr_alloc r" "timerinitflag r = 0" "rx_links r = unlinked"
      "hdr_links r = unlinked" "tx_links r = unlinked" "rx_owner r = (\<lambda>_. None)" "msgboxsz r = msgboxsz c"
      "maxhdr r = maxhdr c" "sndboxnumber r = sndboxnumber c" "can_assert r = can_assert c"
      "can_ub r = can_ub c" "hdr r = (\<lambda>_. \<lparr>connected = False, msgs = 0, flt = no_filter\<rparr>)"
      "open_flag r = oflag AND 0xff"
    by (simp_all add: r_def rt_hw_can_register_def)
  note fields = open_rx_fields [OF a] open_tx_fields [OF a] open_hdr_fields [OF a]
  let ?w = "run_control D RT_DEVICE_CTRL_SET_INT RT_DEVICE_CAN_INT_ERR t"
  let ?h = "open_hdr D ?w"
  have w: "?w = t\<lparr>can_world := w\<rparr>" unfolding w_def by (rule run_control_fields)
  have c1: "(if \<not> rx_alloc r \<and> oflag AND RT_DEVICE_FLAG_INT_RX \<noteq> 0 then open_rx D r else r) = open_rx D r"
    using f r by (simp add: both_flags_def)
  have c2: "(if \<not> tx_alloc (open_rx D r) \<and> oflag AND RT_DEVICE_FLAG_INT_TX \<noteq> 0 then open_tx D (open_rx D r)
      else open_rx D r) = t"
    using f r by (simp add: both_flags_def t_def fields)
  have "\<not> hdr_alloc ?w" unfolding w by (simp add: t_def fields r)
  then have c3: "(if \<not> hdr_alloc ?w then ?h else ?w) = ?h" by simp
  have "timerinitflag ?h = 0" unfolding w by (simp add: t_def fields r)
  then have c4: "(if timerinitflag ?h = 0 then ?h\<lparr>timerinitflag := 1, timer_on := True\<rparr> else ?h) =
      ?h\<lparr>timerinitflag := 1, timer_on := True\<rparr>" by simp
  have d: "d = (open_hdr D (t\<lparr>can_world := w\<rparr>))\<lparr>timerinitflag := 1, timer_on := True\<rparr>"
    by (simp only: d_def rt_can_open_def r_def [symmetric] Let_def c1 c2 c3 c4 snd_conv w [symmetric])
  show "rx_links d = list_of_all (Head RxFree) (msgboxsz c) unlinked" and "hdr_links d = unlinked"
    and "rx_owner d i = None" and "freenumbers d = msgboxsz c" and "msgboxsz d = msgboxsz c"
    and "maxhdr d = maxhdr c" and "hdr d h = \<lparr>connected = False, msgs = 0, flt = no_filter\<rparr>"
    and "rx_alloc d" and "tx_alloc d" and "hdr_alloc d"
    and "open_flag d = ((oflag AND 0xff) OR RT_DEVICE_FLAG_INT_RX) OR RT_DEVICE_FLAG_INT_TX"
    and "can_assert d = can_assert c" and "can_ub d = can_ub c"
    and "tx_links d = list_of_all (Head ()) (sndboxnumber c) unlinked" and "tx_sem d = sndboxnumber c"
    and "sndboxnumber d = sndboxnumber c"
    and "i < sndboxnumber c \<Longrightarrow> tx_done d i = rt_completion_init"
    by (simp_all add: d t_def fields r)
qed

lemma opened_rx_ok:
  assumes "allocates D" and "both_flags oflag" and "\<not> can_assert c" and "\<not> can_ub c"
  shows "rx_ok (snd (rt_can_open D oflag (rt_hw_can_register c))) [0..<msgboxsz c] [] []"
proof -
  note d = opened_fields [OF assms(1,2), where c = c]
  have l: "(\<lambda>_. [])(RxFree := [] @ [0..<msgboxsz c]) = case_rx_list [0..<msgboxsz c] []"
    by (rule ext) (simp split: rx_list.split)
  have "rings (list_of_all (Head RxFree) (msgboxsz c) unlinked) ((\<lambda>_. [])(RxFree := [] @ [0..<msgboxsz c]))"
    by (rule list_of_all_rings [OF rings_unlinked]) simp
  note lists = this [unfolded l]
  have b: "banks (snd (rt_can_open D oflag (rt_hw_can_register c))) [] = (\<lambda>_. [])"
    by (simp add: banks_def fun_eq_iff)
  have "hdr_lists (snd (rt_can_open D oflag (rt_hw_can_register c))) (\<lambda>_. [])"
    unfolding hdr_lists_def using rings_unlinked by (auto simp: d)
  then show ?thesis
    using lists assms(3,4) by (auto simp: rx_ok_def rx_lists_def b d)
qed

text \<open>The state in which a run begins, and the empty queue.\<close>

definition rx_start :: "'w can_ops \<Rightarrow> u16 \<Rightarrow> 'w rt_can \<Rightarrow> 'w rx_run" where
  "rx_start D oflag c =
     \<lparr>run_can = snd (rt_can_open D oflag (rt_hw_can_register c)), hands = [], copied = []\<rparr>"

definition spec_start :: "'w \<Rightarrow> 'w rx_spec" where
  "spec_start w = \<lparr>spec_world = w, unread = [], held = [], spec_banks = (\<lambda>_. False), spec_copied = []\<rparr>"

lemma represents_start:
  assumes "allocates D" and "both_flags oflag" and "\<not> can_assert c" and "\<not> can_ub c"
  shows "represents (msgboxsz c) (maxhdr c) k (rx_start D oflag c)
    (spec_start (can_world (run_can (rx_start D oflag c))))"
  using opened_rx_ok [OF assms] opened_fields [OF assms(1,2), where c = c]
  by (auto simp: represents_def rx_start_def spec_start_def queue_def intro!: exI [of _ "[0..<msgboxsz c]"])

section \<open>What the readers get\<close>

text \<open>A read is a sequence of such steps of its thread.\<close>

lemma rx_take_none: "rx_take b c = (None, c') \<Longrightarrow> c' = c"
  by (auto simp: rx_take_def Let_def split: if_splits)

lemma can_int_rx_run:
  "t < k \<Longrightarrow> map_of (hands s) t = None \<Longrightarrow> can_int_rx buffer (run_can s) = (ms, c) \<Longrightarrow>
   \<exists>es. foldl (rx_step D k) s es = s\<lparr>run_can := c, copied := copied s @ map (Pair t) ms\<rparr> \<and>
     length ms \<le> length buffer \<and> set es \<subseteq> insert (Give t) (range (Take t))"
proof (induction buffer arbitrary: s ms c)
  case Nil
  then show ?case by (intro exI [of _ "[]"]) simp
next
  case (Cons b bs)
  show ?case
  proof (cases "rx_take (hdr_index b) (run_can s)")
    case (Pair i d)
    show ?thesis
    proof (cases i)
      case None
      then have "ms = []" "c = run_can s" using Cons.prems(3) Pair rx_take_none by auto
      then show ?thesis by (intro exI [of _ "[]"]) simp
    next
      case (Some i)
      let ?s = "s\<lparr>run_can := rx_give i d, copied := copied s @ [(t, rx_data d i)]\<rparr>"
      obtain ms' where ms: "ms = rx_data d i # ms'" "can_int_rx bs (run_can ?s) = (ms', c)"
        using Cons.prems(3) Pair Some by (auto split: prod.splits)
      have none: "map_of (hands ?s) t = None" using Cons.prems(2) by simp
      obtain es where es: "foldl (rx_step D k) ?s es = ?s\<lparr>run_can := c, copied := copied ?s @ map (Pair t) ms'\<rparr>"
          "length ms' \<le> length bs" "set es \<subseteq> insert (Give t) (range (Take t))"
        using Cons.IH [OF Cons.prems(1) none ms(2)] by blast
      have t: "t \<notin> fst ` set (hands s)" using Cons.prems(2) by (simp add: map_of_eq_None_iff)
      then have "filter (\<lambda>p. fst p \<noteq> t) (hands s) = hands s" by (metis (mono_tags, lifting) filter_True image_eqI)
      then have "foldl (rx_step D k) s [Take t (hdr_index b), Give t] = ?s"
        using Pair Some Cons.prems(1,2) t by (simp add: rx_step_def map_add_def)
      then have "foldl (rx_step D k) s (Take t (hdr_index b) # Give t # es) =
          s\<lparr>run_can := c, copied := copied s @ map (Pair t) ms\<rparr>"
        using es(1) ms(1) by simp
      then show ?thesis
        using es(2,3) ms(1) by (intro exI [of _ "Take t (hdr_index b) # Give t # es"]) auto
    qed
  qed
qed

lemma can_int_rx_fifo:
  "rx_ok c fr us [] \<Longrightarrow> \<forall>b\<in>set buffer. hdr_index b = -1 \<Longrightarrow>
   fst (can_int_rx buffer c) = take (length buffer) (map snd (queue c us))"
proof (induction buffer arbitrary: c fr us)
  case (Cons b bs)
  note take = rx_take_eq [OF Cons.prems(1), of "-1"]
  show ?case
  proof (cases us)
    case Nil
    then show ?thesis using take Cons.prems(2) by (simp add: asked_def queue_def)
  next
    case us: (Cons i is')
    let ?c = "rx_disown i (rx_unlink i c)"
    have a: "asked c (-1) us = i # is'" using us by (simp add: asked_def)
    have i: "i \<notin> set is'" using rx_okD(3) [OF Cons.prems(1)] us by simp
    have "rx_ok ?c fr is' [i]"
      using rx_take_ok [OF Cons.prems(1) a] take a us i by (simp add: removeAll_id)
    then have "rx_ok (rx_give i ?c) (fr @ [i]) is' []" using rx_give_ok [of ?c fr is' "[i]" i] by simp
    note ih = Cons.IH [OF this]
    have "queue (rx_give i ?c) is' = queue c is'"
      unfolding queue_disown [OF i, of c, symmetric] by (rule queue_cong) simp
    then have "fst (can_int_rx bs (rx_give i ?c)) = take (length bs) (map snd (queue c is'))"
      using ih Cons.prems(2) by simp
    moreover obtain ms d where "can_int_rx bs (rx_give i ?c) = (ms, d)" by fastforce
    ultimately show ?thesis using take a us Cons.prems(2) by (simp add: queue_def)
  qed
qed simp

text \<open>The messages a controller hands over in a sequence of receive interrupts, by mailbox number.\<close>

fun received :: "'w can_ops \<Rightarrow> 'w \<Rightarrow> nat list \<Rightarrow> rt_can_msg list" where
  "received D w [] = []"
| "received D w (no # nos) =
     (case drv_recvmsg D no w of
        (None, w) \<Rightarrow> received D w nos
      | (Some m, w) \<Rightarrow> m # received D w nos)"

lemma isr_run_queue:
  assumes "rx_ok c fr us []" and "recv_ok D (maxhdr c)" and "0 < msgboxsz c"
  shows "\<exists>fr' us'. rx_ok (foldl (\<lambda>c no. rt_hw_can_isr D (256 * no + RT_CAN_EVENT_RX_IND) c) c nos) fr' us' [] \<and>
    map snd (queue (foldl (\<lambda>c no. rt_hw_can_isr D (256 * no + RT_CAN_EVENT_RX_IND) c) c nos) us') =
      newest (msgboxsz c) (map snd (queue c us) @ received D (can_world c) nos)"
  using assms
proof (induction nos arbitrary: c fr us)
  case Nil
  have "length us \<le> msgboxsz c" using length_fr [OF Nil.prems(1)] by simp
  then show ?case using Nil by (auto simp: newest_def queue_def)
next
  case (Cons no nos)
  let ?c = "rt_hw_can_isr D (256 * no + RT_CAN_EVENT_RX_IND) c"
  have ev: "(256 * no + RT_CAN_EVENT_RX_IND) mod 256 = RT_CAN_EVENT_RX_IND"
      "(256 * no + RT_CAN_EVENT_RX_IND) div 256 = no" by (simp_all add: RT_CAN_EVENT_RX_IND_def)
  have ne: "fr @ us \<noteq> []" using length_fr [OF Cons.prems(1)] Cons.prems(3) by auto
  obtain fr' us' where ok: "rx_ok ?c fr' us' []" and same: "same_device c ?c"
    and q: "(can_world ?c, queue ?c us') =
      (case drv_recvmsg D no (can_world c) of
              (None, w) \<Rightarrow> (w, queue c us)
            | (Some m, w) \<Rightarrow> (w, newest (msgboxsz c) (queue c us @ [(bank_of (\<lambda>h. connected (hdr c h)) m, m)])))"
    by (rule isr_ok [OF Cons.prems(1,2) ne, of "256 * no + RT_CAN_EVENT_RX_IND", unfolded ev list.size(3) diff_zero])
      (rule that; simp)
  have c: "msgboxsz ?c = msgboxsz c" "maxhdr ?c = maxhdr c" using same by (simp_all add: same_device_def)
  have m: "map snd (newest n xs) = newest n (map snd xs)" for n and xs :: "(nat option \<times> rt_can_msg) list"
    by (simp add: newest_def drop_map)
  have "newest (msgboxsz c) (map snd (queue ?c us') @ received D (can_world ?c) nos) =
      newest (msgboxsz c) (map snd (queue c us) @ received D (can_world c) (no # nos))"
    using q by (auto simp: m newest_append split: prod.splits option.splits)
  then show ?case using Cons.IH [OF ok] Cons.prems c by simp
qed

lemma isr_ref_count: "ref_count (rt_hw_can_isr D ev c) = ref_count c"
proof -
  have a: "ref_count (rt_assert b c) = ref_count c" for b and c :: "'a rt_can" by (simp add: rt_assert_def)
  have store: "ref_count (isr_store i m c) = ref_count c" for i m and c :: "'a rt_can"
    by (simp add: isr_store_def a Let_def)
  have ind: "ref_count (isr_indicate b c) = ref_count c" for b and c :: "'a rt_can"
    by (simp add: isr_indicate_def Let_def split: option.split)
  have slot: "isr_slot c = (i, d) \<Longrightarrow> ref_count d = ref_count c" for i d and c :: "'a rt_can"
    by (auto simp: isr_slot_def a Let_def split: if_splits)
  have "ref_count (isr_rx D no c) = ref_count c" for no and c :: "'a rt_can"
    by (auto simp: isr_rx_def a ind store Let_def dest: slot split: prod.split option.split)
  moreover have "ref_count (isr_tx r no c) = ref_count c" for r no and c :: "'a rt_can"
    by (simp add: isr_tx_def a Let_def)
  ultimately show ?thesis by (simp add: rt_hw_can_isr_def Let_def)
qed

text \<open>
  C5: For every order of interrupts, reads by at most \<open>k\<close> threads at a time, and filter connections, the
  opened CAN device with more than \<open>k\<close> receive slots behaves as a queue of messages that keeps the newest
  ones: each thread is handed exactly the messages the queue hands it, in the same order, also when the
  interrupt comes between the two halves of a read.  The device is opened with both interrupt flags, its allocations
  succeed, and the driver's messages name filter banks the device has.  With as many readers as slots
  the claim would be false: an interrupt that finds every slot in a reader's hands uses an uninitialised pointer.
\<close>

theorem can_device_is_queue:
  assumes "allocates D" and "recv_ok D (maxhdr c)" and "both_flags oflag"
    and "\<not> can_assert c" and "\<not> can_ub c" and "k < msgboxsz c"
  shows "let s = foldl (rx_step D k) (rx_start D oflag c) es;
             a = foldl (spec_step D (msgboxsz c) (maxhdr c) k)
                   (spec_start (can_world (run_can (rx_start D oflag c)))) es
         in copied s = spec_copied a \<and> can_world (run_can s) = spec_world a \<and>
            map (\<lambda>(t, i). (t, rx_data (run_can s) i)) (hands s) = held a"
proof -
  note represents_run [OF represents_start [OF assms(1,3,4,5)] assms(2,6), of es]
  then show ?thesis by (simp add: represents_def Let_def)
qed

text \<open>
  In every such run each receive slot is free, unread or in the hands of exactly one reader, the free
  counter is the number of free slots, the two lists are intact circular lists, no assertion of the driver fails and
  no uninitialised variable is read.
\<close>

theorem can_slots_conserved:
  assumes "allocates D" and "recv_ok D (maxhdr c)" and "both_flags oflag"
    and "\<not> can_assert c" and "\<not> can_ub c" and "k < msgboxsz c"
    and "s = foldl (rx_step D k) (rx_start D oflag c) es"
  shows "\<exists>fr us. rings (rx_links (run_can s)) (case_rx_list fr us) \<and>
    distinct (fr @ us @ map snd (hands s)) \<and> set (fr @ us @ map snd (hands s)) = {..<msgboxsz c} \<and>
    freenumbers (run_can s) = length fr \<and> \<not> can_assert (run_can s) \<and> \<not> can_ub (run_can s)"
proof -
  note represents_run [OF represents_start [OF assms(1,3,4,5)] assms(2,6), of es, folded assms(7)]
  then obtain fr us where "rx_ok (run_can s) fr us (map snd (hands s))" and "msgboxsz (run_can s) = msgboxsz c"
    unfolding represents_def by blast
  then show ?thesis by (intro exI [of _ fr] exI [of _ us]) (simp add: rx_ok_def rx_lists_def)
qed

text \<open>
  After any number of receive interrupts, a read that asks for no particular filter bank returns the
  newest messages the slots can hold, oldest first, and as many of them as the buffer has room for.
\<close>

theorem can_read_returns_newest:
  assumes "allocates D" and "recv_ok D (maxhdr c)" and "both_flags oflag"
    and "\<not> can_assert c" and "\<not> can_ub c" and "0 < msgboxsz c" and "\<forall>b\<in>set buffer. hdr_index b = -1"
    and "d = (snd (rt_can_open D oflag (rt_hw_can_register c)))\<lparr>ref_count := Suc r\<rparr>"
  shows "fst (rt_can_read buffer (foldl (\<lambda>c no. rt_hw_can_isr D (256 * no + RT_CAN_EVENT_RX_IND) c) d nos)) =
    take (length buffer) (newest (msgboxsz c) (received D (can_world d) nos))"
proof -
  let ?c = "foldl (\<lambda>c no. rt_hw_can_isr D (256 * no + RT_CAN_EVENT_RX_IND) c) d nos"
  have ok: "rx_ok d [0..<msgboxsz c] [] []"
    using opened_rx_ok [OF assms(1,3,4,5)] assms(8) by simp
  have d: "maxhdr d = maxhdr c" "msgboxsz d = msgboxsz c" "ref_count d = Suc r"
    using opened_fields [OF assms(1,3), where c = c] assms(8) by simp_all
  have "ref_count (foldl (\<lambda>c no. rt_hw_can_isr D (256 * no + RT_CAN_EVENT_RX_IND) c) x nos) = ref_count x" for x
    by (induction nos arbitrary: x) (simp_all add: isr_ref_count)
  then have r: "ref_count ?c > 0" using d by simp
  obtain fr us where run: "rx_ok ?c fr us []"
    "map snd (queue ?c us) = newest (msgboxsz c) (received D (can_world d) nos)"
    using isr_run_queue [OF ok, of D nos] assms(2,6) d by (auto simp: queue_def)
  have "fst (can_int_rx buffer ?c) = take (length buffer) (map snd (queue ?c us))"
    by (rule can_int_rx_fifo [OF run(1) assms(7)])
  moreover have "rt_can_read buffer ?c = (if buffer = [] then ([], ?c) else can_int_rx buffer ?c)"
    using run(1) r by (auto simp: rt_can_read_def rx_ok_def)
  ultimately show ?thesis using run(2) by (cases buffer) simp_all
qed

section \<open>A concrete controller\<close>

text \<open>It hands over the messages of a list, one for each interrupt, and accepts every request.\<close>

definition sample_can :: "rt_can_msg list can_ops" where
  "sample_can = \<lparr>drv_configure = (\<lambda>w. (0, w)), drv_control = (\<lambda>_ _ w. (0, w)),
     drv_set_filter = (\<lambda>_ _ w. (0, w)), drv_set_priv = (\<lambda>mode _ w. (0, mode, w)),
     drv_sendmsg = (\<lambda>_ _ w. (0, w)),
     drv_recvmsg = (\<lambda>_ w. case w of [] \<Rightarrow> (None, [])
       | m # ms \<Rightarrow> (Some (m\<lparr>hdr_index := hdr_index m mod 2\<rparr>), ms)),
     drv_alloc = (\<lambda>w. (True, w))\<rparr>"

definition sample_msg :: "nat \<Rightarrow> int \<Rightarrow> rt_can_msg" where
  "sample_msg n h = \<lparr>msg_id = of_nat n, msg_ide = True, msg_rtr = False, msg_len = 0, msg_data = [], priv = 0,
     hdr_index = h\<rparr>"

definition sample_dev :: "rt_can_msg list \<Rightarrow> rt_can_msg list rt_can" where
  "sample_dev ms = \<lparr>dev_flag = 0, open_flag = 0, ref_count = 0, rx_indicate = False, msgboxsz = 2,
     sndboxnumber = 2, maxhdr = 2, privmode = 0, rcvpkg = 0, dropedrcvpkg = 0, sndpkg = 0, dropedsndpkg = 0,
     rcvchange = False, sndchange = False, timerinitflag = 0, timer_on = False, status_ind = False,
     hdr_alloc = False, hdr = (\<lambda>_. \<lparr>connected = False, msgs = 0, flt = no_filter\<rparr>), hdr_links = unlinked,
     rx_alloc = False, freenumbers = 0, rx_data = (\<lambda>_. sample_msg 0 0), rx_owner = (\<lambda>_. None),
     rx_links = unlinked, tx_alloc = False, tx_sem = 0, tx_result = (\<lambda>_. RT_CAN_SND_RESULT_OK),
     tx_done = (\<lambda>_. rt_completion_init), tx_links = unlinked, calls = [], status_calls = 0,
     can_assert = False, can_ub = False, can_world = ms\<rparr>"

lemma sample_hyps:
  "allocates sample_can" "recv_ok sample_can 2" "both_flags 0x500"
  "\<not> can_assert (sample_dev ms)" "\<not> can_ub (sample_dev ms)" "msgboxsz (sample_dev ms) = 2"
  "maxhdr (sample_dev ms) = 2"
  by (auto simp: allocates_def sample_can_def both_flags_def RT_DEVICE_FLAG_INT_RX_def
      RT_DEVICE_FLAG_INT_TX_def sample_dev_def recv_ok_def split: list.splits)

lemma sample_world: "can_world (snd (rt_can_open sample_can 0x500 (rt_hw_can_register (sample_dev ms)))) = ms"
  by code_simp

definition sample_events :: "rx_event list" where
  "sample_events = [Irq 1, Irq 1, Irq 1, Take 0 (-1), Irq 1, Give 0, Take 0 (-1), Give 0]"

theorem can_device_is_queue_witness:
  "copied (foldl (rx_step sample_can 1) (rx_start sample_can 0x500
     (sample_dev [sample_msg 1 0, sample_msg 2 0, sample_msg 3 1, sample_msg 4 0])) sample_events) =
   [(0, sample_msg 2 0), (0, sample_msg 4 0)]"
proof -
  let ?ms = "[sample_msg 1 0, sample_msg 2 0, sample_msg 3 1, sample_msg 4 0]"
  have "1 < msgboxsz (sample_dev ?ms)" "recv_ok sample_can (maxhdr (sample_dev ?ms))" by (simp_all add: sample_hyps)
  note q = can_device_is_queue [OF sample_hyps(1) this(2) sample_hyps(3-5) this(1), of sample_events]
  have "can_world (run_can (rx_start sample_can 0x500 (sample_dev ?ms))) = ?ms"
    by (simp add: rx_start_def sample_world)
  moreover have "spec_copied (foldl (spec_step sample_can 2 2 1) (spec_start ?ms) sample_events) =
      [(0, sample_msg 2 0), (0, sample_msg 4 0)]"
    by code_simp
  ultimately show ?thesis using q by (simp add: sample_hyps Let_def)
qed

theorem can_slots_conserved_witness:
  "\<exists>fr us. set (fr @ us @ map snd (hands (foldl (rx_step sample_can 1) (rx_start sample_can 0x500
     (sample_dev [sample_msg 1 0])) sample_events))) = {..<2}"
proof -
  let ?ms = "[sample_msg 1 0]"
  have "1 < msgboxsz (sample_dev ?ms)" "recv_ok sample_can (maxhdr (sample_dev ?ms))" by (simp_all add: sample_hyps)
  note q = can_slots_conserved [OF sample_hyps(1) this(2) sample_hyps(3-5) this(1) refl, of sample_events]
  then show ?thesis by (auto simp: sample_hyps)
qed

theorem can_read_returns_newest_witness:
  "fst (rt_can_read [sample_msg 0 (-1), sample_msg 0 (-1), sample_msg 0 (-1)]
     (foldl (\<lambda>c no. rt_hw_can_isr sample_can (256 * no + RT_CAN_EVENT_RX_IND) c)
       ((snd (rt_can_open sample_can 0x500 (rt_hw_can_register
          (sample_dev [sample_msg 1 0, sample_msg 2 1, sample_msg 3 1]))))\<lparr>ref_count := Suc 0\<rparr>) [0, 1, 0])) =
   [sample_msg 2 1, sample_msg 3 1]"
proof -
  let ?ms = "[sample_msg 1 0, sample_msg 2 1, sample_msg 3 1]"
  let ?buffer = "[sample_msg 0 (-1), sample_msg 0 (-1), sample_msg 0 (-1)]"
  have "0 < msgboxsz (sample_dev ?ms)" "recv_ok sample_can (maxhdr (sample_dev ?ms))"
    "\<forall>b\<in>set ?buffer. hdr_index b = -1" by (simp_all add: sample_hyps) (simp add: sample_msg_def)
  note q = can_read_returns_newest [OF sample_hyps(1) this(2) sample_hyps(3-5) this(1,3) refl, of 0 "[0, 1, 0]"]
  have "received sample_can ?ms [0, 1, 0] = ?ms" by code_simp
  then show ?thesis using q by (simp add: sample_world sample_hyps newest_def)
qed

end
