(* ===== verification/Rt_Can_Tx.thy ===== *)
theory Rt_Can_Tx
  imports Rt_Can_Rx "HOL-Library.Multiset"
begin

text \<open>
  The send side of the CAN device, with any number of threads inside \<open>_can_int_tx\<close> and interrupts at any
  time: each send box is free or belongs to one thread, and the interrupt that ends a transmission ends
  the wait of its sender with the result reported.
\<close>

section \<open>Runs\<close>

datatype tx_event = Tx_irq nat | Tx_step nat

record 'w tx_run =
  tx_can :: "'w rt_can"
  writers :: "tx_thread list"

definition tx_step :: "'w can_ops \<Rightarrow> 'w tx_run \<Rightarrow> tx_event \<Rightarrow> 'w tx_run" where
  "tx_step D s e =
     (case e of
        Tx_irq ev \<Rightarrow> s\<lparr>tx_can := rt_hw_can_isr D ev (tx_can s)\<rparr>
      | Tx_step t \<Rightarrow>
          if t < length (writers s) then
            let (th, c) = can_int_tx D t (writers s ! t) (tx_can s)
            in s\<lparr>tx_can := c, writers := (writers s)[t := th]\<rparr>
          else s)"

text \<open>The device as opened, and the threads as \<open>rt_can_write\<close> starts them.\<close>

definition tx_start :: "'w can_ops \<Rightarrow> u16 \<Rightarrow> 'w rt_can \<Rightarrow> rt_can_msg list list \<Rightarrow> 'w tx_run" where
  "tx_start D oflag c buffers =
     \<lparr>tx_can = snd (rt_can_open D oflag (rt_hw_can_register c)),
      writers = map (\<lambda>b. \<lparr>tx_todo = b, tx_count = 0, tx_at = Tx_loop\<rparr>) buffers\<rparr>"

section \<open>Who has what\<close>

text \<open>The boxes a thread has, and how many it has the right to without having them in hand.\<close>

fun boxes :: "tx_pc \<Rightarrow> nat list" where
  "boxes (Tx_owns no) = [no]"
| "boxes (Tx_marked no) = [no]"
| "boxes (Tx_ready no) = [no]"
| "boxes (Tx_failed no) = [no]"
| "boxes (Tx_sent no) = [no]"
| "boxes (Tx_waiting no) = [no]"
| "boxes (Tx_woken no) = [no]"
| "boxes _ = []"

fun tickets :: "tx_pc \<Rightarrow> unit list" where
  "tickets Tx_taken = [()]"
| "tickets (Tx_put ok) = [()]"
| "tickets _ = []"

definition owned :: "tx_thread list \<Rightarrow> nat list" where
  "owned ws = concat (map (\<lambda>th. boxes (tx_at th)) ws)"

definition promised :: "tx_thread list \<Rightarrow> unit list" where
  "promised ws = concat (map (\<lambda>th. tickets (tx_at th)) ws)"

lemma mset_concat_update:
  assumes "t < length xs"
  shows "mset (concat (map f (xs[t := x]))) + mset (f (xs ! t)) = mset (concat (map f xs)) + mset (f x)"
proof -
  have "xs[t := x] = take t xs @ x # drop (Suc t) xs" by (rule upd_conv_take_nth_drop [OF assms])
  moreover have "xs = take t xs @ xs ! t # drop (Suc t) xs" by (rule id_take_nth_drop [OF assms])
  then have "mset (concat (map f xs)) = mset (concat (map f (take t xs @ xs ! t # drop (Suc t) xs)))" by simp
  ultimately show ?thesis by simp
qed

lemma owned_update:
  "t < length ws \<Longrightarrow>
   mset (owned (ws[t := th])) + mset (boxes (tx_at (ws ! t))) = mset (owned ws) + mset (boxes (tx_at th))"
  unfolding owned_def by (rule mset_concat_update)

lemma promised_update:
  assumes "t < length ws"
  shows "length (promised (ws[t := th])) + length (tickets (tx_at (ws ! t))) =
    length (promised ws) + length (tickets (tx_at th))"
proof -
  have "mset (promised (ws[t := th])) + mset (tickets (tx_at (ws ! t))) =
      mset (promised ws) + mset (tickets (tx_at th))"
    unfolding promised_def by (rule mset_concat_update [OF assms])
  from arg_cong [OF this, of "size"] show ?thesis by simp
qed

lemma concat_once:
  "distinct (concat (map f xs)) \<Longrightarrow> i < length xs \<Longrightarrow> j < length xs \<Longrightarrow> x \<in> set (f (xs ! i)) \<Longrightarrow>
   x \<in> set (f (xs ! j)) \<Longrightarrow> i = j"
proof (induction xs arbitrary: i j)
  case (Cons y ys)
  have in_ys: "x \<in> set (concat (map f ys))" if "k < length ys" "x \<in> set (f (ys ! k))" for k
    using that by auto
  show ?case
  proof (cases i; cases j)
    fix m n assume "i = Suc m" "j = Suc n"
    then show ?thesis using Cons.IH [of m n] Cons.prems by simp
  next
    fix n assume "i = 0" "j = Suc n"
    then show ?thesis using Cons.prems in_ys [of n] by auto
  next
    fix m assume "i = Suc m" "j = 0"
    then show ?thesis using Cons.prems in_ys [of m] by auto
  qed simp
qed simp

section \<open>The invariant of the send side\<close>

text \<open>No second thread came to wait, and nobody waits on what is completed.\<close>

definition sane :: "rt_completion \<Rightarrow> bool" where
  "sane d \<longleftrightarrow> \<not> wait_assert d \<and> (waiter d \<noteq> None \<longrightarrow> \<not> completed d)"

definition tx_ok :: "'w rt_can \<Rightarrow> tx_thread list \<Rightarrow> nat list \<Rightarrow> bool" where
  "tx_ok c ws fr \<longleftrightarrow> rings (tx_links c) (\<lambda>_. fr) \<and> mset fr + mset (owned ws) = mset [0..<sndboxnumber c] \<and>
     length fr = tx_sem c + length (promised ws) \<and>
     (\<forall>no < sndboxnumber c. sane (tx_done c no) \<and>
        (\<forall>t. waiter (tx_done c no) = Some t \<longrightarrow> t < length ws \<and> tx_at (ws ! t) = Tx_waiting no))"

lemma tx_okD:
  assumes "tx_ok c ws fr"
  shows "rings (tx_links c) (\<lambda>_. fr)" and "mset fr + mset (owned ws) = mset [0..<sndboxnumber c]"
    and "length fr = tx_sem c + length (promised ws)"
    and "\<And>no. no < sndboxnumber c \<Longrightarrow> sane (tx_done c no)"
    and "\<And>no t. no < sndboxnumber c \<Longrightarrow> waiter (tx_done c no) = Some t \<Longrightarrow> t < length ws \<and> tx_at (ws ! t) = Tx_waiting no"
  using assms by (auto simp: tx_ok_def)

lemma tx_ok_distinct:
  assumes "tx_ok c ws fr"
  shows "distinct (fr @ owned ws)" and "set (fr @ owned ws) = {..<sndboxnumber c}"
proof -
  have m: "mset (fr @ owned ws) = mset [0..<sndboxnumber c]" using tx_okD(2) [OF assms] by simp
  then show "distinct (fr @ owned ws)" by (metis distinct_upt mset_eq_imp_distinct_iff)
  show "set (fr @ owned ws) = {..<sndboxnumber c}" unfolding mset_eq_setD [OF m] by auto
qed

lemma tx_ok_owner:
  assumes "tx_ok c ws fr" and "t < length ws" and "no \<in> set (boxes (tx_at (ws ! t)))"
  shows "no < sndboxnumber c" and "no \<notin> set fr"
    and "u < length ws \<Longrightarrow> no \<in> set (boxes (tx_at (ws ! u))) \<Longrightarrow> u = t"
proof -
  note d = tx_ok_distinct [OF assms(1)]
  have "no \<in> set (owned ws)" using assms(2,3) by (auto simp: owned_def)
  with d show "no < sndboxnumber c" and "no \<notin> set fr" by auto
  assume "u < length ws" "no \<in> set (boxes (tx_at (ws ! u)))"
  with d(1) assms(2,3) show "u = t" by (intro concat_once [of "\<lambda>th. boxes (tx_at th)" ws]) (auto simp: owned_def)
qed

text \<open>A step of thread \<open>t\<close> keeps the invariant when its books balance.\<close>

lemma tx_ok_step:
  assumes ok: "tx_ok c ws fr" and t: "t < length ws" and n: "sndboxnumber c' = sndboxnumber c"
    and r: "rings (tx_links c') (\<lambda>_. fr')"
    and b: "mset fr' + mset (boxes (tx_at th)) = mset fr + mset (boxes (tx_at (ws ! t)))"
    and l: "length fr' + tx_sem c + length (tickets (tx_at (ws ! t))) =
      length fr + tx_sem c' + length (tickets (tx_at th))"
    and a: "\<And>no. no < sndboxnumber c \<Longrightarrow> sane (tx_done c' no)"
    and w: "\<And>no u. no < sndboxnumber c \<Longrightarrow> waiter (tx_done c' no) = Some u \<Longrightarrow>
      (u = t \<and> tx_at th = Tx_waiting no) \<or> (u \<noteq> t \<and> waiter (tx_done c no) = Some u)"
  shows "tx_ok c' (ws[t := th]) fr'"
proof -
  note d = tx_okD [OF ok]
  have "mset fr' + mset (owned (ws[t := th])) + mset (boxes (tx_at (ws ! t))) =
      mset fr' + (mset (owned ws) + mset (boxes (tx_at th)))"
    unfolding add.assoc owned_update [OF t] ..
  also have "\<dots> = mset fr + mset (owned ws) + mset (boxes (tx_at (ws ! t)))"
    using b by (metis add.assoc add.commute)
  finally have m: "mset fr' + mset (owned (ws[t := th])) = mset [0..<sndboxnumber c']"
    unfolding d(2) n by simp
  have "length fr' = tx_sem c' + length (promised (ws[t := th]))"
    using l d(3) promised_update [OF t, of th] by linarith
  then show ?thesis
    unfolding tx_ok_def using m r a n
  proof (intro conjI allI impI)
    fix no u assume "no < sndboxnumber c'" "waiter (tx_done c' no) = Some u"
    then have *: "no < sndboxnumber c" "(u = t \<and> tx_at th = Tx_waiting no) \<or> (u \<noteq> t \<and> waiter (tx_done c no) = Some u)"
      using w n by auto
    then show "u < length (ws[t := th])" and "tx_at (ws[t := th] ! u) = Tx_waiting no"
      using d(5) [OF *(1), of u] t by auto
  qed auto
qed

lemma tx_ok_move:
  assumes ok: "tx_ok c ws fr" and t: "t < length ws" and n: "sndboxnumber c' = sndboxnumber c"
    and r: "tx_links c' = tx_links c" and e: "tx_done c' = tx_done c"
    and b: "boxes (tx_at th) = boxes (tx_at (ws ! t))"
    and l: "tx_sem c + length (tickets (tx_at (ws ! t))) = tx_sem c' + length (tickets (tx_at th))"
    and w: "\<And>no. tx_at (ws ! t) \<noteq> Tx_waiting no"
  shows "tx_ok c' (ws[t := th]) fr"
proof (rule tx_ok_step [OF ok t n])
  show "rings (tx_links c') (\<lambda>_. fr)" unfolding r by (rule tx_okD(1) [OF ok])
  show "sane (tx_done c' no)" if "no < sndboxnumber c" for no
    unfolding e by (rule tx_okD(4) [OF ok that])
  show "(u = t \<and> tx_at th = Tx_waiting no) \<or> (u \<noteq> t \<and> waiter (tx_done c no) = Some u)"
    if "no < sndboxnumber c" "waiter (tx_done c' no) = Some u" for no u
    using tx_okD(5) [OF ok that(1), of u] that(2) w e by auto
qed (use b l in simp_all)

text \<open>What an interrupt does to the send side.\<close>

lemma isr_rx_tx [simp]:
  "tx_links (isr_rx D no c) = tx_links c" "tx_sem (isr_rx D no c) = tx_sem c"
  "tx_done (isr_rx D no c) = tx_done c" "tx_result (isr_rx D no c) = tx_result c"
  "sndboxnumber (isr_rx D no c) = sndboxnumber c"
proof -
  define keep where "keep c d \<longleftrightarrow> tx_links d = tx_links c \<and> tx_sem d = tx_sem c \<and> tx_done d = tx_done c \<and>
    tx_result d = tx_result c \<and> sndboxnumber d = sndboxnumber c" for c d :: "'a rt_can"
  have a: "keep c (rt_assert b d) = keep c d" for b d by (simp add: keep_def rt_assert_def)
  have un: "keep c (rx_unlink i d) = keep c d" and dis: "keep c (rx_disown i d) = keep c d" for i d
    by (simp_all add: keep_def rx_unlink_def rx_disown_def hdr_dec_def Let_def split: option.split)
  have store: "keep c (isr_store i m d) = keep c d" for i m d
    by (simp add: isr_store_def rt_assert_def keep_def Let_def)
  have ind: "keep c (isr_indicate b d) = keep c d" for b d
    by (simp add: isr_indicate_def keep_def Let_def split: option.split)
  have slot: "keep c d \<Longrightarrow> isr_slot d = (i, e) \<Longrightarrow> keep c e" for i d e
  proof -
    assume k: "keep c d" and s: "isr_slot d = (i, e)"
    have dec: "keep c (d\<lparr>freenumbers := n\<rparr>) = keep c d" "keep c (d\<lparr>dropedrcvpkg := m\<rparr>) = keep c d" for d n m
      by (simp_all add: keep_def)
    show ?thesis
      using k s unfolding isr_slot_def Let_def by (auto simp: a un dis dec split: if_splits)
  qed
  have upd: "keep c (d\<lparr>can_world := w, rcvpkg := n, rcvchange := b\<rparr>) = keep c d" "keep c (d\<lparr>can_world := w\<rparr>) = keep c d"
    for d w n b by (simp_all add: keep_def)
  have "keep c (isr_rx D no c)"
  proof -
    obtain ch w where r: "drv_recvmsg D no (can_world c) = (ch, w)" by fastforce
    let ?c = "rt_assert (open_flag c AND RT_DEVICE_FLAG_INT_RX \<noteq> 0) (rt_assert (rx_alloc c) c)"
    have k: "keep c ?c" by (simp add: a) (simp add: keep_def)
    have f: "can_world ?c = can_world c" "rcvpkg ?c = rcvpkg c" "open_flag (rt_assert (rx_alloc c) c) = open_flag c"
      by (simp_all add: rt_assert_def)
    obtain i d where s: "isr_slot (?c\<lparr>can_world := w, rcvpkg := rcvpkg c + 1, rcvchange := True\<rparr>) = (i, d)"
      by fastforce
    have "keep c d" by (rule slot [OF _ s]) (simp add: upd k)
    then show ?thesis
      using r s k f by (cases ch; cases i) (simp_all add: isr_rx_def Let_def upd ind store)
  qed
  then show "tx_links (isr_rx D no c) = tx_links c" "tx_sem (isr_rx D no c) = tx_sem c"
    "tx_done (isr_rx D no c) = tx_done c" "tx_result (isr_rx D no c) = tx_result c"
    "sndboxnumber (isr_rx D no c) = sndboxnumber c"
    by (simp_all add: keep_def)
qed

text \<open>The interrupts that end a transmission, and what they report.\<close>

definition ends :: "nat \<Rightarrow> nat \<Rightarrow> bool" where
  "ends ev no \<longleftrightarrow> ev mod 256 \<in> {RT_CAN_EVENT_TX_DONE, RT_CAN_EVENT_TX_FAIL} \<and> ev div 256 = no"

definition reported :: "nat \<Rightarrow> snd_result" where
  "reported ev =
     (if ev mod 256 = RT_CAN_EVENT_TX_DONE then RT_CAN_SND_RESULT_OK else RT_CAN_SND_RESULT_ERR)"

lemma isr_tx_fields [simp]:
  "tx_links (rt_hw_can_isr D ev c) = tx_links c" "tx_sem (rt_hw_can_isr D ev c) = tx_sem c"
  "sndboxnumber (rt_hw_can_isr D ev c) = sndboxnumber c"
  "tx_done (rt_hw_can_isr D ev c) no = (if ends ev no then snd (rt_completion_done (tx_done c no)) else tx_done c no)"
  "tx_result (rt_hw_can_isr D ev c) no = (if ends ev no then reported ev else tx_result c no)"
  by (auto simp: rt_hw_can_isr_def isr_tx_def rt_assert_def Let_def ends_def reported_def
      RT_CAN_EVENT_TX_DONE_def RT_CAN_EVENT_TX_FAIL_def RT_CAN_EVENT_RXOF_IND_def RT_CAN_EVENT_RX_IND_def)

lemma rt_completion_done_fields [simp]:
  "wait_assert (snd (rt_completion_done d)) = wait_assert d"
  "waiter (snd (rt_completion_done d)) = (if completed d then waiter d else None)"
  "completed (snd (rt_completion_done d))"
  by (simp_all add: rt_completion_done_def Let_def split: option.split)

lemma sane_done: "sane d \<Longrightarrow> sane (snd (rt_completion_done d))"
  by (auto simp: sane_def)

lemma tx_ok_irq: "tx_ok c ws fr \<Longrightarrow> tx_ok (rt_hw_can_isr D ev c) ws fr"
  by (auto simp: tx_ok_def sane_done)

lemma tx_wait_eq:
  "tx_wait t no c =
     (if completed (tx_done c no) then (False, c\<lparr>tx_done := (tx_done c)(no := (tx_done c no)\<lparr>completed := False\<rparr>)\<rparr>)
      else (True, c\<lparr>tx_done := (tx_done c)(no := (tx_done c no)\<lparr>
              wait_assert := wait_assert (tx_done c no) \<or> waiter (tx_done c no) \<noteq> None, waiter := Some t\<rparr>)\<rparr>))"
  by (simp add: tx_wait_def rt_completion_wait_def Let_def)

text \<open>A thread that has a box and does not wait on it: nobody waits on it.\<close>

lemma no_waiter:
  assumes "tx_ok c ws fr" and "t < length ws" and "no \<in> set (boxes (tx_at (ws ! t)))"
    and "tx_at (ws ! t) \<noteq> Tx_waiting no"
  shows "waiter (tx_done c no) = None"
proof (cases "waiter (tx_done c no)")
  case (Some u)
  note n = tx_ok_owner [OF assms(1-3)]
  have "u < length ws \<and> tx_at (ws ! u) = Tx_waiting no" by (rule tx_okD(5) [OF assms(1) n(1) Some])
  then have "u = t" using n(3) [of u] by simp
  with \<open>u < length ws \<and> tx_at (ws ! u) = Tx_waiting no\<close> assms(4) show ?thesis by simp
qed simp

text \<open>Putting a box back.\<close>

lemma put_back_ok:
  assumes ok: "tx_ok c ws fr" and t: "t < length ws" and b: "boxes (tx_at (ws ! t)) = [no]"
    and k: "tickets (tx_at (ws ! t)) = []" and w: "tx_at (ws ! t) \<noteq> Tx_waiting no"
  shows "tx_ok (tx_put_back no c) (ws[t := th\<lparr>tx_at := Tx_put p\<rparr>]) (fr @ [no])"
proof (rule tx_ok_step [OF ok t])
  note d = tx_okD [OF ok] and n = tx_ok_owner [OF ok t, of no]
  have no: "no \<notin> set fr" using n b by simp
  show "rings (tx_links (tx_put_back no c)) (\<lambda>_. fr @ [no])"
    using rings_append [OF d(1), of no "()"] no by (simp add: tx_put_back_def fun_upd_def)
  show "sane (tx_done (tx_put_back no c) m)" if "m < sndboxnumber c" for m
    using d(4) that by (simp add: tx_put_back_def)
  show "(u = t \<and> tx_at (th\<lparr>tx_at := Tx_put p\<rparr>) = Tx_waiting m) \<or> (u \<noteq> t \<and> waiter (tx_done c m) = Some u)"
    if "m < sndboxnumber c" "waiter (tx_done (tx_put_back no c) m) = Some u" for m u
  proof -
    have "waiter (tx_done c m) = Some u" using that(2) by (simp add: tx_put_back_def)
    moreover from tx_okD(5) [OF ok that(1) this] have "u \<noteq> t" using w b by auto
    ultimately show ?thesis by simp
  qed
qed (use b k in \<open>simp_all add: tx_put_back_def\<close>)

text \<open>Every step of a thread keeps the invariant.\<close>

lemma tx_ok_thread:
  assumes ok: "tx_ok c ws fr" and t: "t < length ws" and run: "can_int_tx D t (ws ! t) c = (th, c')"
  shows "\<exists>fr'. tx_ok c' (ws[t := th]) fr'"
proof -
  note d = tx_okD [OF ok]
  have free: "waiter (tx_done c m) = Some u \<Longrightarrow> m < sndboxnumber c \<Longrightarrow> tx_at (ws ! t) \<noteq> Tx_waiting m \<Longrightarrow> u \<noteq> t"
    for m u using d(5) by fastforce
  show ?thesis
  proof (cases "tx_at (ws ! t)")
    case Tx_loop
    then have th: "(th, c') = (if tx_todo (ws ! t) = [] then ((ws ! t)\<lparr>tx_at := Tx_return\<rparr>, c)
        else if tx_sem c = 0 then (ws ! t, c)
        else ((ws ! t)\<lparr>tx_at := Tx_taken\<rparr>, c\<lparr>tx_sem := tx_sem c - 1\<rparr>))"
      using run by (simp add: can_int_tx_def split: if_splits)
    have "tx_ok c' (ws[t := th]) fr"
      by (rule tx_ok_move [OF ok t]) (use th Tx_loop in \<open>simp_all split: if_splits\<close>)
    then show ?thesis ..
  next
    case Tx_taken
    have "ws ! t \<in> set ws" "() \<in> set (tickets (tx_at (ws ! t)))" using t Tx_taken by simp_all
    then have "() \<in> set (promised ws)" unfolding promised_def by auto
    then have "length (promised ws) > 0" by (auto intro: length_pos_if_in_set)
    then obtain no fr' where fr: "fr = no # fr'" using d(3) by (cases fr) auto
    then have "nxt (tx_links c) (Head ()) = Node no" using rings_first [OF d(1), of "()"] by simp
    then have th: "th = (ws ! t)\<lparr>tx_at := Tx_owns no\<rparr>" "c' = c\<lparr>tx_links := rt_list_remove (Node no) (tx_links c)\<rparr>"
      using run Tx_taken by (simp_all add: can_int_tx_def Let_def)
    have "no \<notin> set fr'" using tx_ok_distinct(1) [OF ok] fr by simp
    then have "rings (rt_list_remove (Node no) (tx_links c)) (\<lambda>_. fr')"
      using rings_remove [OF d(1), of no] fr by (simp add: removeAll_id)
    then have r: "rings (tx_links c') (\<lambda>_. fr')" using th by simp
    have "tx_ok c' (ws[t := th]) fr'"
      by (rule tx_ok_step [OF ok t _ r]) (use th Tx_taken fr d(4) free in simp_all)
    then show ?thesis ..
  next
    case (Tx_owns no)
    then have th: "th = (ws ! t)\<lparr>tx_at := Tx_marked no\<rparr>"
        "c' = c\<lparr>tx_result := (tx_result c)(no := RT_CAN_SND_RESULT_WAIT)\<rparr>"
      using run by (simp_all add: can_int_tx_def)
    have "tx_ok c' (ws[t := th]) fr"
      by (rule tx_ok_move [OF ok t]) (use th Tx_owns in simp_all)
    then show ?thesis ..
  next
    case (Tx_marked no)
    then have th: "th = (ws ! t)\<lparr>tx_at := Tx_ready no\<rparr>"
        "c' = c\<lparr>tx_done := (tx_done c)(no := rt_completion_init)\<rparr>"
      using run by (simp_all add: can_int_tx_def)
    have "tx_ok c' (ws[t := th]) fr"
    proof (rule tx_ok_step [OF ok t])
      show "rings (tx_links c') (\<lambda>_. fr)" using d(1) th by simp
      show "sane (tx_done c' m)" if "m < sndboxnumber c" for m
        using d(4) [OF that] th by (simp add: sane_def rt_completion_init_def)
      show "(u = t \<and> tx_at th = Tx_waiting m) \<or> (u \<noteq> t \<and> waiter (tx_done c m) = Some u)"
        if "m < sndboxnumber c" "waiter (tx_done c' m) = Some u" for m u
        using that th free [of m u] Tx_marked by (simp add: rt_completion_init_def split: if_splits)
    qed (use th Tx_marked in simp_all)
    then show ?thesis ..
  next
    case (Tx_ready no)
    then have th: "th = (ws ! t)\<lparr>tx_at := (if fst (tx_send D (hd (tx_todo (ws ! t))) no c) then Tx_sent no else Tx_failed no)\<rparr>"
        "c' = snd (tx_send D (hd (tx_todo (ws ! t))) no c)"
      using run by (auto simp: can_int_tx_def split: prod.splits)
    have send: "tx_links c' = tx_links c" "tx_done c' = tx_done c" "tx_sem c' = tx_sem c" "sndboxnumber c' = sndboxnumber c"
      unfolding th by (simp_all add: tx_send_def Let_def split: prod.split)
    have "tx_ok c' (ws[t := th]) fr"
      by (rule tx_ok_move [OF ok t]) (use th(1) send Tx_ready in simp_all)
    then show ?thesis ..
  next
    case (Tx_failed no)
    then have "th = (ws ! t)\<lparr>tx_at := Tx_put False\<rparr>" "c' = tx_put_back no c"
      using run by (simp_all add: can_int_tx_def)
    with put_back_ok [OF ok t, where no = no and th = "ws ! t" and p = False] Tx_failed show ?thesis by auto
  next
    case (Tx_sent no)
    have n: "waiter (tx_done c no) = None" by (rule no_waiter [OF ok t]) (simp_all add: Tx_sent)
    have th: "(th, c') = (let (waits, c) = tx_wait t no c
        in ((ws ! t)\<lparr>tx_at := (if waits then Tx_waiting no else Tx_woken no)\<rparr>, c))"
      using run Tx_sent by (simp add: can_int_tx_def)
    have "tx_ok c' (ws[t := th]) fr"
    proof (rule tx_ok_step [OF ok t])
      show "rings (tx_links c') (\<lambda>_. fr)" using d(1) th by (simp add: tx_wait_eq split: if_splits)
      show "sane (tx_done c' m)" if "m < sndboxnumber c" for m
        using d(4) [OF that] th n by (auto simp: sane_def tx_wait_eq split: if_splits)
      show "(u = t \<and> tx_at th = Tx_waiting m) \<or> (u \<noteq> t \<and> waiter (tx_done c m) = Some u)"
        if "m < sndboxnumber c" "waiter (tx_done c' m) = Some u" for m u
        using that th free [of m u] Tx_sent n by (auto simp: tx_wait_eq split: if_splits)
    qed (use th Tx_sent in \<open>auto simp: tx_wait_eq split: if_splits\<close>)
    then show ?thesis ..
  next
    case (Tx_waiting no)
    then have th: "(th, c') = (if waiter (tx_done c no) = Some t then (ws ! t, c)
        else ((ws ! t)\<lparr>tx_at := Tx_woken no\<rparr>, tx_resumed no c))"
      using run by (simp add: can_int_tx_def split: if_splits)
    show ?thesis
    proof (cases "waiter (tx_done c no) = Some t")
      case True
      with th have "th = ws ! t" "c' = c" by simp_all
      with ok show ?thesis by (metis list_update_id)
    next
      case False
      then have th: "th = (ws ! t)\<lparr>tx_at := Tx_woken no\<rparr>" "c' = tx_resumed no c" using th by simp_all
      have other: "waiter (tx_done c m) = Some u \<Longrightarrow> m < sndboxnumber c \<Longrightarrow> u \<noteq> t" for m u
        using d(5) [of m u] False Tx_waiting by auto
      have "tx_ok c' (ws[t := th]) fr"
      proof (rule tx_ok_step [OF ok t])
        show "rings (tx_links c') (\<lambda>_. fr)" using d(1) th by (simp add: tx_resumed_def)
        show "sane (tx_done c' m)" if "m < sndboxnumber c" for m
          using d(4) [OF that] th by (auto simp: sane_def tx_resumed_def rt_completion_wait_resumed_def)
        show "(u = t \<and> tx_at th = Tx_waiting m) \<or> (u \<noteq> t \<and> waiter (tx_done c m) = Some u)"
          if "m < sndboxnumber c" "waiter (tx_done c' m) = Some u" for m u
          using that th other [of m u]
          by (simp add: tx_resumed_def rt_completion_wait_resumed_def split: if_splits)
      qed (use th Tx_waiting in \<open>simp_all add: tx_resumed_def\<close>)
      then show ?thesis ..
    qed
  next
    case (Tx_woken no)
    have "no \<notin> set fr" using tx_ok_owner(2) [OF ok t, of no] Tx_woken by simp
    then have "rt_list_isempty (Node no) (tx_links c)" using rings_node_isempty [OF d(1), of no] by simp
    then have "th = (ws ! t)\<lparr>tx_at := Tx_put (tx_result c no = RT_CAN_SND_RESULT_OK)\<rparr>" "c' = tx_put_back no c"
      using run Tx_woken by (simp_all add: can_int_tx_def Let_def)
    with put_back_ok [OF ok t, where no = no and th = "ws ! t"] Tx_woken show ?thesis by auto
  next
    case (Tx_put p)
    have "tx_ok c' (ws[t := th]) fr"
      by (rule tx_ok_move [OF ok t])
        (use run Tx_put in \<open>auto simp: can_int_tx_def Let_def split: if_splits\<close>)
    then show ?thesis ..
  next
    case Tx_return
    with run have "th = ws ! t" "c' = c" by (simp_all add: can_int_tx_def)
    with ok show ?thesis by (metis list_update_id)
  qed
qed

lemma tx_ok_tx_step:
  assumes "tx_ok (tx_can s) (writers s) fr"
  shows "\<exists>fr'. tx_ok (tx_can (tx_step D s e)) (writers (tx_step D s e)) fr'"
proof (cases e)
  case (Tx_irq ev)
  with tx_ok_irq [OF assms, of D ev] show ?thesis by (auto simp: tx_step_def)
next
  case (Tx_step t)
  show ?thesis
  proof (cases "t < length (writers s)")
    case True
    obtain th c where run: "can_int_tx D t (writers s ! t) (tx_can s) = (th, c)" by fastforce
    with tx_ok_thread [OF assms True run] True Tx_step show ?thesis by (simp add: tx_step_def)
  qed (use Tx_step assms in \<open>auto simp: tx_step_def\<close>)
qed

interpretation tx: step_machine "tx_step D" "\<lambda>s. \<exists>fr. tx_ok (tx_can s) (writers s) fr"
  by unfold_locales (blast intro: tx_ok_tx_step)

lemma tx_start_ok:
  assumes "allocates D" and "both_flags oflag"
  shows "tx_ok (tx_can (tx_start D oflag c buffers)) (writers (tx_start D oflag c buffers)) [0..<sndboxnumber c]"
proof -
  note f = opened_fields [OF assms, where c = c]
  have "(\<lambda>_ :: unit. [] @ [0..<n]) = (\<lambda>_. [])(() := [] @ [0..<n])" for n by auto
  then have r: "rings (list_of_all (Head ()) (sndboxnumber c) unlinked) (\<lambda>_. [0..<sndboxnumber c])"
    using list_of_all_rings [OF rings_unlinked, of "sndboxnumber c" "()"] by simp
  have "owned (writers (tx_start D oflag c buffers)) = []" "promised (writers (tx_start D oflag c buffers)) = []"
    by (simp_all add: owned_def promised_def tx_start_def)
  then show ?thesis
    unfolding tx_ok_def using r f by (simp add: tx_start_def sane_def rt_completion_init_def)
qed

section \<open>The properties\<close>

text \<open>
  C6: For every interleaving of any number of threads sending and of interrupts, each send box of the opened
  device is free or in the possession of exactly one thread, the free list is an intact circular list, the semaphore never
  promises a box that is not there (so the box taken is never the list head), and no two threads wait on
  one completion.
\<close>

theorem can_tx_boxes_owned:
  assumes "allocates D" and "both_flags oflag" and "s = foldl (tx_step D) (tx_start D oflag c buffers) es"
  shows "\<exists>fr. rings (tx_links (tx_can s)) (\<lambda>_. fr) \<and> distinct (fr @ owned (writers s)) \<and>
    set (fr @ owned (writers s)) = {..<sndboxnumber c} \<and>
    length fr = tx_sem (tx_can s) + length (promised (writers s)) \<and>
    (\<forall>no < sndboxnumber c. \<not> wait_assert (tx_done (tx_can s) no))"
proof -
  have n: "sndboxnumber (tx_can (tx_step D s e)) = sndboxnumber (tx_can s)" for s :: "'a tx_run" and e
    by (auto simp: tx_step_def can_int_tx_def tx_send_def tx_wait_def tx_resumed_def tx_put_back_def Let_def
        split: tx_event.split tx_pc.split prod.split if_splits)
  have "sndboxnumber (tx_can (foldl (tx_step D) s es)) = sndboxnumber (tx_can s)" for s
    by (induction es arbitrary: s) (simp_all add: n)
  moreover have "sndboxnumber (tx_can (tx_start D oflag c buffers)) = sndboxnumber c"
    using opened_fields [OF assms(1,2), where c = c] by (simp add: tx_start_def)
  moreover obtain fr where "tx_ok (tx_can s) (writers s) fr"
    using tx.run_keeps [of "tx_start D oflag c buffers" D es] tx_start_ok [OF assms(1,2)] assms(3) by blast
  ultimately have "tx_ok (tx_can s) (writers s) fr" "sndboxnumber (tx_can s) = sndboxnumber c"
    using assms(3) by simp_all
  with tx_ok_distinct [OF this(1)] tx_okD [OF this(1)] show ?thesis
    by (intro exI [of _ fr]) (auto simp: sane_def)
qed

text \<open>What a thread does is its own: the box of another keeps its result and its completion.\<close>

lemma others_keep:
  assumes "can_int_tx D u th c = (th', c')" and "no \<notin> set (boxes (tx_at th))"
  shows "tx_result c' no = tx_result c no" and "tx_done c' no = tx_done c no"
  using assms by (cases "tx_at th"; auto simp: can_int_tx_def tx_send_def tx_wait_def tx_resumed_def tx_put_back_def
      Let_def split: prod.splits if_splits)+

text \<open>The four places of a thread whose transmission has ended with result \<open>r\<close>.\<close>

fun phase :: "nat \<Rightarrow> nat \<Rightarrow> nat \<Rightarrow> snd_result \<Rightarrow> tx_thread \<Rightarrow> 'w tx_run \<Rightarrow> bool" where
  "phase t no k r th s \<longleftrightarrow> t < length (writers s) \<and>
    (if k = 0 then writers s ! t = th \<and> tx_result (tx_can s) no = r \<and>
        ((tx_at th = Tx_sent no \<and> completed (tx_done (tx_can s) no)) \<or>
         (tx_at th = Tx_waiting no \<and> waiter (tx_done (tx_can s) no) \<noteq> Some t))
     else if k = 1 then writers s ! t = th\<lparr>tx_at := Tx_woken no\<rparr> \<and> tx_result (tx_can s) no = r
     else if k = 2 then writers s ! t = th\<lparr>tx_at := Tx_put (r = RT_CAN_SND_RESULT_OK)\<rparr>
     else writers s ! t =
       (if r = RT_CAN_SND_RESULT_OK
        then th\<lparr>tx_todo := tl (tx_todo th), tx_count := tx_count th + 1, tx_at := Tx_loop\<rparr>
        else th\<lparr>tx_at := Tx_return\<rparr>))"

lemma phase_own:
  assumes "phase t no k r th s" and "k < 3"
  shows "phase t no (Suc k) r th (tx_step D s (Tx_step t))"
proof -
  consider "k = 0" | "k = 1" | "k = 2" using assms(2) by linarith
  then show ?thesis
    using assms(1)
    by cases (auto simp: tx_step_def can_int_tx_def tx_wait_eq tx_resumed_def tx_put_back_def Let_def)
qed

lemma phase_other:
  assumes "phase t no k r th s" and "k \<le> 3" and "tx_ok (tx_can s) (writers s) fr" and "e \<noteq> Tx_step t"
    and "\<And>ev. e = Tx_irq ev \<Longrightarrow> ev div 256 \<noteq> no"
  shows "phase t no k r th (tx_step D s e)"
proof (cases e)
  case (Tx_irq ev)
  then have "\<not> ends ev no" using assms(5) by (simp add: ends_def)
  with Tx_irq assms(1) show ?thesis by (simp add: tx_step_def)
next
  case (Tx_step u)
  then have ut: "u \<noteq> t" using assms(4) by simp
  show ?thesis
  proof (cases "u < length (writers s)")
    case False
    with Tx_step assms(1) show ?thesis by (simp add: tx_step_def)
  next
    case True
    obtain x c where run: "can_int_tx D u (writers s ! u) (tx_can s) = (x, c)" by fastforce
    have step: "tx_step D s e = s\<lparr>tx_can := c, writers := (writers s)[u := x]\<rparr>"
      using Tx_step True run by (simp add: tx_step_def)
    have keep: "tx_result c no = tx_result (tx_can s) no \<and> tx_done c no = tx_done (tx_can s) no" if "k \<le> 1"
    proof -
      have own: "t < length (writers s)" "no \<in> set (boxes (tx_at (writers s ! t)))"
        using assms(1) that by (cases "k = 0"; auto)+
      have "no \<notin> set (boxes (tx_at (writers s ! u)))"
        using tx_ok_owner(3) [OF assms(3) own True] ut by blast
      with others_keep [OF run] show ?thesis by blast
    qed
    consider "k = 0" | "k = 1" | "k = 2" | "k = 3" using assms(2) by linarith
    then show ?thesis using assms(1) keep ut by cases (simp_all add: step)
  qed
qed

lemma phase_run:
  "phase t no k r th s \<Longrightarrow> k + count_list es (Tx_step t) \<le> 3 \<Longrightarrow> tx_ok (tx_can s) (writers s) fr \<Longrightarrow>
   \<forall>ev. Tx_irq ev \<in> set es \<longrightarrow> ev div 256 \<noteq> no \<Longrightarrow>
   phase t no (k + count_list es (Tx_step t)) r th (foldl (tx_step D) s es)"
proof (induction es arbitrary: s k fr)
  case Nil
  then show ?case by simp
next
  case (Cons e es)
  obtain fr' where ok: "tx_ok (tx_can (tx_step D s e)) (writers (tx_step D s e)) fr'"
    using tx_ok_tx_step [OF Cons.prems(3)] by blast
  show ?case
  proof (cases "e = Tx_step t")
    case True
    then have "phase t no (Suc k) r th (tx_step D s e)"
      using phase_own [OF Cons.prems(1)] Cons.prems(2) by simp
    from Cons.IH [OF this _ ok] True Cons.prems(2,4) show ?thesis by simp
  next
    case False
    have "phase t no k r th (tx_step D s e)"
      by (rule phase_other [OF Cons.prems(1) _ Cons.prems(3) False]) (use Cons.prems(2,4) in auto)
    from Cons.IH [OF this _ ok] False Cons.prems(2,4) show ?thesis by simp
  qed
qed

text \<open>
  C7: No wake-up is lost.  When the controller reports the end of the transmission in a box, the thread that
  sent it -- whether it is suspended already or has not yet come to wait -- is through after three
  steps of its own, whatever other threads and interrupts for other boxes do in between; it counts the message as
  sent and goes on to the next, or returns, exactly as the interrupt reported.
\<close>

theorem tx_interrupt_completes:
  assumes "allocates D" and "both_flags oflag" and "s = foldl (tx_step D) (tx_start D oflag c buffers) es"
    and "t < length (writers s)" and "tx_at (writers s ! t) \<in> {Tx_sent no, Tx_waiting no}"
    and "ends ev no" and "count_list es' (Tx_step t) = 3"
    and "\<forall>ev. Tx_irq ev \<in> set es' \<longrightarrow> ev div 256 \<noteq> no"
  shows "writers (foldl (tx_step D) s (Tx_irq ev # es')) ! t =
    (if reported ev = RT_CAN_SND_RESULT_OK
     then (writers s ! t)\<lparr>tx_todo := tl (tx_todo (writers s ! t)), tx_count := tx_count (writers s ! t) + 1,
            tx_at := Tx_loop\<rparr>
     else (writers s ! t)\<lparr>tx_at := Tx_return\<rparr>)"
proof -
  obtain fr where ok: "tx_ok (tx_can s) (writers s) fr"
    using tx.run_keeps [of "tx_start D oflag c buffers" D es] tx_start_ok [OF assms(1,2)] assms(3) by blast
  let ?s = "tx_step D s (Tx_irq ev)"
  have n: "no < sndboxnumber (tx_can s)" using tx_ok_owner(1) [OF ok assms(4), of no] assms(5) by auto
  have "sane (tx_done (tx_can s) no)" by (rule tx_okD(4) [OF ok n])
  moreover have "waiter (tx_done (tx_can s) no) \<noteq> None \<Longrightarrow> \<not> completed (tx_done (tx_can s) no)"
    using calculation by (simp add: sane_def)
  ultimately have "phase t no 0 (reported ev) (writers s ! t) ?s"
    using assms(4-6) by (auto simp: tx_step_def)
  moreover obtain fr' where "tx_ok (tx_can ?s) (writers ?s) fr'" using tx_ok_tx_step [OF ok] by blast
  ultimately have "phase t no (0 + count_list es' (Tx_step t)) (reported ev) (writers s ! t) (foldl (tx_step D) ?s es')"
    by (intro phase_run) (use assms(7,8) in auto)
  then show ?thesis using assms(7) by simp
qed

text \<open>
  In the mode in which a message names its box, a message the controller refuses blocks its box: the box
  stays marked as in transmission, so the sender does not return but waits for an interrupt, and as long
  as none comes for this box it stays there.
\<close>

theorem priv_refused_message_blocks:
  assumes "priv_todo th = m # ms" and "priv_at th = Priv_loop" and "priv m < sndboxnumber c"
    and "tx_result c (priv m) = RT_CAN_SND_RESULT_OK" and "\<not> completed (tx_done c (priv m))"
    and "\<forall>w. fst (drv_sendmsg D m (priv m) w) \<noteq> RT_EOK" and "4 \<le> n"
  shows "fst (((\<lambda>(th, c). can_int_tx_priv D t th c) ^^ n) (th, c)) = th\<lparr>priv_at := Priv_busy_waiting (priv m)\<rparr>"
proof -
  define f where "f = (\<lambda>(th, c). can_int_tx_priv D t th c)"
  let ?no = "priv m"
  define c1 where "c1 = c\<lparr>tx_result := (tx_result c)(?no := RT_CAN_SND_RESULT_WAIT)\<rparr>"
  define c2 where "c2 = snd (tx_send D m ?no c1)"
  define c3 where "c3 = snd (tx_wait t ?no c2)"
  have s1: "f (th, c) = (th\<lparr>priv_at := Priv_marked ?no\<rparr>, c1)"
    using assms(1-4) by (simp add: f_def can_int_tx_priv_def c1_def)
  have "fst (tx_send D m ?no c1) = False"
    using spec [OF assms(6), of "can_world c1"] by (auto simp: tx_send_def Let_def split: prod.split)
  then have s2: "f (th\<lparr>priv_at := Priv_marked ?no\<rparr>, c1) = (th\<lparr>priv_at := Priv_loop\<rparr>, c2)"
    using assms(1) by (cases "tx_send D m ?no c1") (simp add: f_def can_int_tx_priv_def c2_def)
  have c2: "tx_result c2 ?no = RT_CAN_SND_RESULT_WAIT" "tx_done c2 = tx_done c" "sndboxnumber c2 = sndboxnumber c"
    by (simp_all add: c2_def c1_def tx_send_def Let_def split: prod.split)
  have s3: "f (th\<lparr>priv_at := Priv_loop\<rparr>, c2) = (th\<lparr>priv_at := Priv_busy ?no\<rparr>, c2)"
    using assms(1,3) c2 by (simp add: f_def can_int_tx_priv_def)
  have s4: "f (th\<lparr>priv_at := Priv_busy ?no\<rparr>, c2) = (th\<lparr>priv_at := Priv_busy_waiting ?no\<rparr>, c3)"
    using assms(5) c2 by (simp add: f_def can_int_tx_priv_def c3_def tx_wait_eq)
  have "waiter (tx_done c3 ?no) = Some t" using assms(5) c2 by (simp add: c3_def tx_wait_eq)
  then have s5: "f (th\<lparr>priv_at := Priv_busy_waiting ?no\<rparr>, c3) = (th\<lparr>priv_at := Priv_busy_waiting ?no\<rparr>, c3)"
    by (simp add: f_def can_int_tx_priv_def)
  have 4: "(f ^^ 4) (th, c) = (th\<lparr>priv_at := Priv_busy_waiting ?no\<rparr>, c3)"
    by (simp add: numeral_eq_Suc s1 s2 s3 s4)
  have "(f ^^ k) (th\<lparr>priv_at := Priv_busy_waiting ?no\<rparr>, c3) = (th\<lparr>priv_at := Priv_busy_waiting ?no\<rparr>, c3)" for k
    by (induction k) (simp_all add: s5)
  then have "(f ^^ ((n - 4) + 4)) (th, c) = (th\<lparr>priv_at := Priv_busy_waiting ?no\<rparr>, c3)"
    by (simp add: funpow_add 4)
  then show ?thesis using assms(7) by (simp add: f_def)
qed

section \<open>The properties at a concrete device\<close>

definition sample_run :: "rt_can_msg list tx_run" where
  "sample_run = foldl (tx_step sample_can)
     (tx_start sample_can 0x500 (sample_dev []) [[sample_msg 1 0], [sample_msg 2 0]])
     [Tx_step 0, Tx_step 0, Tx_step 0, Tx_step 0, Tx_step 0, Tx_step 0, Tx_step 1]"

lemma sample_run_at: "tx_at (writers sample_run ! 0) = Tx_waiting 0" "length (writers sample_run) = 2"
    "tx_count (writers sample_run ! 0) = 0"
proof -
  define c where "c = tx_can (tx_start sample_can 0x500 (sample_dev []) [[sample_msg 1 0], [sample_msg 2 0]])"
  have start: "tx_start sample_can 0x500 (sample_dev []) [[sample_msg 1 0], [sample_msg 2 0]] =
      \<lparr>tx_can = c, writers = [\<lparr>tx_todo = [sample_msg 1 0], tx_count = 0, tx_at = Tx_loop\<rparr>,
        \<lparr>tx_todo = [sample_msg 2 0], tx_count = 0, tx_at = Tx_loop\<rparr>]\<rparr>"
    by (simp add: c_def tx_start_def)
  have n: "sndboxnumber (sample_dev []) = 2" by (simp add: sample_dev_def)
  have "tx_ok c (writers (tx_start sample_can 0x500 (sample_dev []) [[sample_msg 1 0], [sample_msg 2 0]])) [0..<2]"
    using tx_start_ok [OF sample_hyps(1,3), of "sample_dev []"] unfolding c_def n .
  then have first: "nxt (tx_links c) (Head ()) = Node 0"
    using rings_first [OF tx_okD(1), of c _ "[0..<2]" "()"] by (simp add: upt_rec)
  have sem: "tx_sem c = 2"
    using opened_fields(15) [OF sample_hyps(1,3), where c = "sample_dev []"] n by (simp add: c_def tx_start_def)
  have send: "drv_sendmsg sample_can = (\<lambda>_ _ w. (0, w))" by (simp add: sample_can_def)
  have step: "tx_step D \<lparr>tx_can = c, writers = [x, y]\<rparr> (Tx_step 0) =
        \<lparr>tx_can = snd (can_int_tx D 0 x c), writers = [fst (can_int_tx D 0 x c), y]\<rparr>"
      "tx_step D \<lparr>tx_can = c, writers = [x, y]\<rparr> (Tx_step 1) =
        \<lparr>tx_can = snd (can_int_tx D 1 y c), writers = [x, fst (can_int_tx D 1 y c)]\<rparr>"
    for D :: "'b can_ops" and c x y
    by (simp_all add: tx_step_def split: prod.split)
  let ?th = "\<lambda>pc. \<lparr>tx_todo = [sample_msg 1 0], tx_count = 0, tx_at = pc\<rparr>"
  define c1 where "c1 = c\<lparr>tx_sem := 1\<rparr>"
  define c2 where "c2 = c1\<lparr>tx_links := rt_list_remove (Node 0) (tx_links c1)\<rparr>"
  define c3 where "c3 = c2\<lparr>tx_result := (tx_result c2)(0 := RT_CAN_SND_RESULT_WAIT)\<rparr>"
  define c4 where "c4 = c3\<lparr>tx_done := (tx_done c3)(0 := rt_completion_init)\<rparr>"
  define c5 where "c5 = c4\<lparr>sndchange := True\<rparr>"
  define c6 where "c6 = snd (tx_wait 0 0 c5)"
  have r1: "can_int_tx sample_can 0 (?th Tx_loop) c = (?th Tx_taken, c1)"
    using sem by (simp add: can_int_tx_def c1_def)
  have r2: "can_int_tx sample_can 0 (?th Tx_taken) c1 = (?th (Tx_owns 0), c2)"
    using first by (simp add: can_int_tx_def c1_def c2_def Let_def)
  have r3: "can_int_tx sample_can 0 (?th (Tx_owns 0)) c2 = (?th (Tx_marked 0), c3)"
    by (simp add: can_int_tx_def c3_def)
  have r4: "can_int_tx sample_can 0 (?th (Tx_marked 0)) c3 = (?th (Tx_ready 0), c4)"
    by (simp add: can_int_tx_def c4_def)
  have r5: "can_int_tx sample_can 0 (?th (Tx_ready 0)) c4 = (?th (Tx_sent 0), c5)"
    by (simp add: can_int_tx_def tx_send_def send c5_def)
  have "\<not> completed (tx_done c5 0)" by (simp add: c5_def c4_def rt_completion_init_def)
  then have r6: "can_int_tx sample_can 0 (?th (Tx_sent 0)) c5 = (?th (Tx_waiting 0), c6)"
    by (simp add: can_int_tx_def tx_wait_eq c6_def)
  have "tx_sem c6 = 1" by (simp add: c6_def c5_def c4_def c3_def c2_def c1_def tx_wait_eq)
  then have r7: "fst (can_int_tx sample_can 1 \<lparr>tx_todo = [sample_msg 2 0], tx_count = 0, tx_at = Tx_loop\<rparr> c6) =
      \<lparr>tx_todo = [sample_msg 2 0], tx_count = 0, tx_at = Tx_taken\<rparr>"
    by (simp add: can_int_tx_def)
  have "writers sample_run = [?th (Tx_waiting 0), \<lparr>tx_todo = [sample_msg 2 0], tx_count = 0, tx_at = Tx_taken\<rparr>]"
    by (simp only: sample_run_def start foldl_Cons foldl_Nil step r1 r2 r3 r4 r5 r6 r7 fst_conv snd_conv tx_run.simps)
  then show "tx_at (writers sample_run ! 0) = Tx_waiting 0" "length (writers sample_run) = 2"
    "tx_count (writers sample_run ! 0) = 0" by simp_all
qed

theorem can_tx_boxes_owned_witness:
  "\<exists>fr. distinct (fr @ owned (writers sample_run)) \<and> set (fr @ owned (writers sample_run)) = {..<2}"
proof -
  have "sndboxnumber (sample_dev []) = 2" by (simp add: sample_dev_def)
  with can_tx_boxes_owned [OF sample_hyps(1) sample_hyps(3) sample_run_def] show ?thesis by auto
qed

theorem tx_interrupt_completes_witness:
  "tx_count (writers (foldl (tx_step sample_can) sample_run
     [Tx_irq 2, Tx_step 1, Tx_step 0, Tx_step 0, Tx_irq 258, Tx_step 0]) ! 0) = 1"
proof -
  have "0 < length (writers sample_run)" "tx_at (writers sample_run ! 0) \<in> {Tx_sent 0, Tx_waiting 0}"
    "ends 2 0" "count_list [Tx_step 1, Tx_step 0, Tx_step 0, Tx_irq 258, Tx_step 0] (Tx_step 0) = 3"
    "\<forall>ev. Tx_irq ev \<in> set [Tx_step 1, Tx_step 0, Tx_step 0, Tx_irq 258, Tx_step 0] \<longrightarrow> ev div 256 \<noteq> 0"
    by (simp_all add: sample_run_at ends_def RT_CAN_EVENT_TX_DONE_def)
  note tx_interrupt_completes [OF sample_hyps(1) sample_hyps(3) sample_run_def this]
  then show ?thesis by (simp add: sample_run_at reported_def RT_CAN_EVENT_TX_DONE_def)
qed

theorem priv_refused_message_blocks_witness:
  "fst (((\<lambda>(th, c). can_int_tx_priv (sample_can\<lparr>drv_sendmsg := (\<lambda>_ _ w. (-1, w))\<rparr>) 7 th c) ^^ 5)
     (\<lparr>priv_todo = [sample_msg 1 0], priv_count = 0, priv_at = Priv_loop\<rparr>, sample_dev [])) =
   \<lparr>priv_todo = [sample_msg 1 0], priv_count = 0, priv_at = Priv_busy_waiting 0\<rparr>"
proof -
  let ?th = "\<lparr>priv_todo = [sample_msg 1 0], priv_count = 0, priv_at = Priv_loop\<rparr>"
  let ?D = "sample_can\<lparr>drv_sendmsg := (\<lambda>_ _ w. (-1, w))\<rparr>"
  have p: "priv (sample_msg k h) = 0" for k h by (simp add: sample_msg_def)
  have "priv_todo ?th = sample_msg 1 0 # []" "priv_at ?th = Priv_loop"
    "priv (sample_msg 1 0) < sndboxnumber (sample_dev [])"
    "tx_result (sample_dev []) (priv (sample_msg 1 0)) = RT_CAN_SND_RESULT_OK"
    "\<not> completed (tx_done (sample_dev []) (priv (sample_msg 1 0)))"
    "\<forall>w. fst (drv_sendmsg ?D (sample_msg 1 0) (priv (sample_msg 1 0)) w) \<noteq> RT_EOK" "4 \<le> (5::nat)"
    by (simp_all add: p sample_dev_def rt_completion_init_def)
  from priv_refused_message_blocks [OF this, of 7] show ?thesis by (simp add: p)
qed

end
