(* ===== verification/Rt_Kernel.thy ===== *)
theory Rt_Kernel
  imports Rt_List
begin

text \<open>
  Threads and the scheduler for one core of RT-Thread (\<^verbatim>\<open>src/rt-thread/src/scheduler_up.c\<close>,
  \<^verbatim>\<open>thread.c\<close>, \<^verbatim>\<open>clock.c\<close>, the queue of dead threads of \<^verbatim>\<open>idle.c\<close>), with the state the
  semaphores of \<open>Rt_Sem\<close> add.  Threads and semaphores are numbers; the list node of a thread is in the ready
  list of its priority, in the list of a semaphore, in the list of dead threads, or alone, all in one heap of
  pointers.  A context switch is the change of \<open>rt_current_thread\<close>; what the other thread then does is an
  operation of its own.  The priorities are below 32 (rtconfig.h), so the ready table is the one word
  \<open>rt_thread_ready_priority_group\<close>.

  \<open>sched_ok k L\<close> says that the heap represents the sequences \<open>L\<close>, that exactly the ready threads are in the
  ready list of their priority, that the bits of the table are those of the lists that are not empty, and that
  only the current thread is running.  Every operation keeps it; \<open>rt_schedule\<close> leaves the most urgent thread
  running.
\<close>

abbreviation (input) RT_EINTR :: int where "RT_EINTR \<equiv> 9"
abbreviation (input) RT_EINVAL :: int where "RT_EINVAL \<equiv> 10"

section \<open>Threads and the scheduler\<close>

datatype tlist_head = Ready_list nat | Suspend_list nat | Defunct_list

datatype thread_stat =
  RT_THREAD_INIT | RT_THREAD_CLOSE | RT_THREAD_READY | RT_THREAD_RUNNING | RT_THREAD_SUSPEND_INTERRUPTIBLE
| RT_THREAD_SUSPEND_KILLABLE | RT_THREAD_SUSPEND_UNINTERRUPTIBLE

datatype suspend_flag = RT_INTERRUPTIBLE | RT_KILLABLE | RT_UNINTERRUPTIBLE

datatype ipc_flag = RT_IPC_FLAG_FIFO | RT_IPC_FLAG_PRIO

text \<open>
  \<open>yield\<close> is the bit \<open>RT_THREAD_STAT_YIELD\<close>; \<open>thread_timer\<close> is the time a running thread timer was set to.
\<close>

record kernel =
  tlist :: "(tlist_head, nat) lnode links"
  stat :: "nat \<Rightarrow> thread_stat"
  yield :: "nat \<Rightarrow> bool"
  errno :: "nat \<Rightarrow> int"
  current_priority :: "nat \<Rightarrow> nat"
  thread_timer :: "nat \<Rightarrow> int option"
  init_tick :: "nat \<Rightarrow> u32"
  remaining_tick :: "nat \<Rightarrow> u32"
  rt_tick :: u32
  rt_current_thread :: "nat option"
  rt_current_priority :: nat
  rt_thread_ready_priority_group :: u32
  rt_scheduler_lock_nest :: nat
  sem_value :: "nat \<Rightarrow> u16"
  object_flag :: "nat \<Rightarrow> ipc_flag"
  kernel_assert :: bool

definition RT_THREAD_PRIORITY_MAX :: nat where "RT_THREAD_PRIORITY_MAX = 32"

fun is_suspended :: "thread_stat \<Rightarrow> bool" where
  "is_suspended RT_THREAD_SUSPEND_INTERRUPTIBLE \<longleftrightarrow> True"
| "is_suspended RT_THREAD_SUSPEND_KILLABLE \<longleftrightarrow> True"
| "is_suspended RT_THREAD_SUSPEND_UNINTERRUPTIBLE \<longleftrightarrow> True"
| "is_suspended _ \<longleftrightarrow> False"

definition k_assert :: "bool \<Rightarrow> kernel \<Rightarrow> kernel" where
  "k_assert b k = k\<lparr>kernel_assert := (kernel_assert k \<or> \<not> b)\<rparr>"

fun thread_of :: "(tlist_head, nat) lnode \<Rightarrow> nat" where
  "thread_of (Node t) = t"
| "thread_of (Head l) = 0"

text \<open>The number of the lowest bit set, counted from 1.\<close>

definition rt_ffs :: "u32 \<Rightarrow> nat" where
  "rt_ffs w = (case find (bit w) [0..<32] of None \<Rightarrow> 0 | Some p \<Rightarrow> p + 1)"

definition number_mask :: "nat \<Rightarrow> kernel \<Rightarrow> u32" where
  "number_mask t k = push_bit (current_priority k t) 1"

definition rt_schedule_insert_thread :: "nat \<Rightarrow> kernel \<Rightarrow> kernel" where
  "rt_schedule_insert_thread t k =
     (if rt_current_thread k = Some t then k\<lparr>stat := (stat k)(t := RT_THREAD_RUNNING)\<rparr>
      else
        let k = k\<lparr>stat := (stat k)(t := RT_THREAD_READY)\<rparr>;
            l = Head (Ready_list (current_priority k t));
            k = (if yield k t then k\<lparr>tlist := rt_list_insert_before l (Node t) (tlist k)\<rparr>
                 else k\<lparr>tlist := rt_list_insert_after l (Node t) (tlist k)\<rparr>)
        in k\<lparr>rt_thread_ready_priority_group := rt_thread_ready_priority_group k OR number_mask t k\<rparr>)"

definition rt_schedule_remove_thread :: "nat \<Rightarrow> kernel \<Rightarrow> kernel" where
  "rt_schedule_remove_thread t k =
     (let k = k\<lparr>tlist := rt_list_remove (Node t) (tlist k)\<rparr>
      in if rt_list_isempty (Head (Ready_list (current_priority k t))) (tlist k)
         then k\<lparr>rt_thread_ready_priority_group := rt_thread_ready_priority_group k AND NOT (number_mask t k)\<rparr>
         else k)"

definition highest_priority_thread :: "kernel \<Rightarrow> nat \<times> nat" where
  "highest_priority_thread k =
     (let p = rt_ffs (rt_thread_ready_priority_group k) - 1
      in (thread_of (nxt (tlist k) (Head (Ready_list p))), p))"

definition rt_system_scheduler_init :: "kernel \<Rightarrow> kernel" where
  "rt_system_scheduler_init k =
     k\<lparr>rt_scheduler_lock_nest := 0,
       tlist := foldl (\<lambda>h p. rt_list_init (Head (Ready_list p)) h) (tlist k) [0..<RT_THREAD_PRIORITY_MAX],
       rt_thread_ready_priority_group := 0\<rparr>"

definition rt_system_scheduler_start :: "kernel \<Rightarrow> kernel" where
  "rt_system_scheduler_start k =
     (let (to, _) = highest_priority_thread k;
          k = rt_schedule_remove_thread to (k\<lparr>rt_current_thread := Some to\<rparr>)
      in k\<lparr>stat := (stat k)(to := RT_THREAD_RUNNING)\<rparr>)"

text \<open>
  \<open>cur\<close> is the current thread; the branch in which there is none is before the scheduler starts.  The stack check
  before a switch (\<^verbatim>\<open>RT_USING_OVERFLOW_CHECK\<close>) is left out: it reads the stacks' memory, which the model
  does not have, and on an intact stack it does nothing.
\<close>

definition rt_schedule :: "kernel \<Rightarrow> kernel" where
  "rt_schedule k =
     (case rt_current_thread k of
        None \<Rightarrow> k
      | Some cur \<Rightarrow>
          if rt_scheduler_lock_nest k = 0 \<and> rt_thread_ready_priority_group k \<noteq> 0 then
            let (to, highest) = highest_priority_thread k;
                (to, need_insert) =
                  (if stat k cur = RT_THREAD_RUNNING then
                     if current_priority k cur < highest then (cur, False)
                     else if current_priority k cur = highest \<and> \<not> yield k cur then (cur, False)
                     else (to, True)
                   else (to, False))
            in if to \<noteq> cur then
                 let k = k\<lparr>rt_current_priority := highest, rt_current_thread := Some to\<rparr>;
                     k = (if need_insert then rt_schedule_insert_thread cur k else k);
                     k = k\<lparr>yield := (yield k)(cur := False)\<rparr>;
                     k = rt_schedule_remove_thread to k
                 in k\<lparr>stat := (stat k)(to := RT_THREAD_RUNNING)\<rparr>
               else
                 let k = rt_schedule_remove_thread cur k
                 in k\<lparr>stat := (stat k)(cur := RT_THREAD_RUNNING)\<rparr>
          else k)"

definition rt_enter_critical :: "kernel \<Rightarrow> kernel" where
  "rt_enter_critical k = k\<lparr>rt_scheduler_lock_nest := rt_scheduler_lock_nest k + 1\<rparr>"

definition rt_exit_critical :: "kernel \<Rightarrow> kernel" where
  "rt_exit_critical k =
     (let k = k\<lparr>rt_scheduler_lock_nest := rt_scheduler_lock_nest k - 1\<rparr>
      in if rt_scheduler_lock_nest k = 0 then rt_schedule k else k)"

fun suspend_stat :: "suspend_flag \<Rightarrow> thread_stat" where
  "suspend_stat RT_INTERRUPTIBLE = RT_THREAD_SUSPEND_INTERRUPTIBLE"
| "suspend_stat RT_KILLABLE = RT_THREAD_SUSPEND_KILLABLE"
| "suspend_stat RT_UNINTERRUPTIBLE = RT_THREAD_SUSPEND_UNINTERRUPTIBLE"

definition rt_thread_suspend_with_flag :: "nat \<Rightarrow> suspend_flag \<Rightarrow> kernel \<Rightarrow> int \<times> kernel" where
  "rt_thread_suspend_with_flag t flag k =
     (let k = k_assert (rt_current_thread k = Some t) k
      in if stat k t \<noteq> RT_THREAD_READY \<and> stat k t \<noteq> RT_THREAD_RUNNING then (- RT_ERROR, k)
         else
           let k = rt_schedule_remove_thread t k;
               k = k\<lparr>stat := (stat k)(t := suspend_stat flag)\<rparr>
           in (RT_EOK, k\<lparr>thread_timer := (thread_timer k)(t := None)\<rparr>))"

definition rt_thread_suspend :: "nat \<Rightarrow> kernel \<Rightarrow> int \<times> kernel" where
  "rt_thread_suspend t k = rt_thread_suspend_with_flag t RT_UNINTERRUPTIBLE k"

definition rt_thread_resume :: "nat \<Rightarrow> kernel \<Rightarrow> int \<times> kernel" where
  "rt_thread_resume t k =
     (if \<not> is_suspended (stat k t) then (- RT_ERROR, k)
      else
        let k = k\<lparr>tlist := rt_list_remove (Node t) (tlist k), thread_timer := (thread_timer k)(t := None)\<rparr>
        in (RT_EOK, rt_schedule_insert_thread t k))"

definition rt_thread_startup :: "nat \<Rightarrow> kernel \<Rightarrow> int \<times> kernel" where
  "rt_thread_startup t k =
     (let k = k_assert (stat k t = RT_THREAD_INIT) k;
          k = k\<lparr>stat := (stat k)(t := RT_THREAD_SUSPEND_INTERRUPTIBLE), yield := (yield k)(t := False)\<rparr>;
          k = snd (rt_thread_resume t k)
      in (RT_EOK, if rt_current_thread k \<noteq> None then rt_schedule k else k))"

text \<open>The call a thread timer makes when it runs out; the timer has stopped itself before.\<close>

definition thread_timeout :: "nat \<Rightarrow> kernel \<Rightarrow> kernel" where
  "thread_timeout t k =
     (let k = k_assert (is_suspended (stat k t)) k;
          k = k\<lparr>errno := (errno k)(t := - RT_ETIMEOUT), tlist := rt_list_remove (Node t) (tlist k)\<rparr>
      in rt_schedule (rt_schedule_insert_thread t k))"

text \<open>
  A sleep returns at once, with the error, or switches to another thread; the second part follows when it runs again.
  The first part is one step: the code allows interrupts again just before it calls the scheduler, so a switch an interrupt
  makes at that point is taken as the one of the call.
\<close>

definition rt_thread_sleep :: "u32 \<Rightarrow> nat \<Rightarrow> kernel \<Rightarrow> int option \<times> kernel" where
  "rt_thread_sleep tick t k =
     (if tick = 0 then (Some (- RT_EINVAL), k)
      else
        let (err, k) = rt_thread_suspend_with_flag t RT_INTERRUPTIBLE (k\<lparr>errno := (errno k)(t := RT_EOK)\<rparr>)
        in if err = RT_EOK then
             (None, rt_schedule (k\<lparr>thread_timer := (thread_timer k)(t := Some (uint tick)), errno := (errno k)(t := - RT_EINTR)\<rparr>))
           else (Some err, k))"

definition sleep_resumed :: "nat \<Rightarrow> kernel \<Rightarrow> int \<times> kernel" where
  "sleep_resumed t k = (RT_EOK, if errno k t = - RT_ETIMEOUT then k\<lparr>errno := (errno k)(t := RT_EOK)\<rparr> else k)"

definition rt_thread_yield :: "kernel \<Rightarrow> int \<times> kernel" where
  "rt_thread_yield k =
     (case rt_current_thread k of
        None \<Rightarrow> (RT_EOK, k)
      | Some t \<Rightarrow>
          (RT_EOK, rt_schedule (k\<lparr>remaining_tick := (remaining_tick k)(t := init_tick k t),
                                  yield := (yield k)(t := True)\<rparr>)))"

text \<open>
  The clock interrupt up to the check of the timers; a timer that runs out is a call of \<open>thread_timeout\<close>.
  Before the scheduler starts, when there is no current thread, interrupts are disabled.
\<close>

definition rt_tick_increase :: "kernel \<Rightarrow> kernel" where
  "rt_tick_increase k =
     (let k = k\<lparr>rt_tick := rt_tick k + 1\<rparr>
      in case rt_current_thread k of
           None \<Rightarrow> k
         | Some t \<Rightarrow>
             let k = k\<lparr>remaining_tick := (remaining_tick k)(t := remaining_tick k t - 1)\<rparr>
             in if remaining_tick k t = 0
                then rt_schedule (k\<lparr>remaining_tick := (remaining_tick k)(t := init_tick k t), yield := (yield k)(t := True)\<rparr>)
                else k)"

text \<open>Changing the priority, the command of \<open>rt_thread_control\<close> that mutexes use.\<close>

definition change_priority :: "nat \<Rightarrow> nat \<Rightarrow> kernel \<Rightarrow> kernel" where
  "change_priority t p k =
     (if stat k t = RT_THREAD_READY then
        let k = rt_schedule_remove_thread t k;
            k = k\<lparr>current_priority := (current_priority k)(t := p), stat := (stat k)(t := RT_THREAD_INIT),
                  yield := (yield k)(t := False)\<rparr>
        in rt_schedule_insert_thread t k
      else k\<lparr>current_priority := (current_priority k)(t := p)\<rparr>)"

text \<open>
  A thread that ends first enters the list of dead threads, then is marked closed and gives up the processor;
  an interrupt may come in between.  The idle thread is initialised: before that the code leaves the list as it is.
\<close>

definition rt_thread_defunct_enqueue :: "nat \<Rightarrow> kernel \<Rightarrow> kernel" where
  "rt_thread_defunct_enqueue t k = k\<lparr>tlist := rt_list_insert_after (Head Defunct_list) (Node t) (tlist k)\<rparr>"

definition rt_thread_defunct_dequeue :: "kernel \<Rightarrow> nat option \<times> kernel" where
  "rt_thread_defunct_dequeue k =
     (if nxt (tlist k) (Head Defunct_list) \<noteq> Head Defunct_list then
        let t = thread_of (nxt (tlist k) (Head Defunct_list))
        in (Some t, k\<lparr>tlist := rt_list_remove (Node t) (tlist k)\<rparr>)
      else (None, k))"

definition thread_exit_close :: "nat \<Rightarrow> kernel \<Rightarrow> kernel" where
  "thread_exit_close t k =
     rt_schedule (k\<lparr>thread_timer := (thread_timer k)(t := None), stat := (stat k)(t := RT_THREAD_CLOSE),
                   yield := (yield k)(t := False)\<rparr>)"

definition thread_exit :: "kernel \<Rightarrow> kernel" where
  "thread_exit k =
     (case rt_current_thread k of
        None \<Rightarrow> k
      | Some t \<Rightarrow> thread_exit_close t (rt_thread_defunct_enqueue t k))"

section \<open>The invariant of the scheduler\<close>

definition lists_ok :: "kernel \<Rightarrow> (tlist_head \<Rightarrow> nat list) \<Rightarrow> bool" where
  "lists_ok k L \<longleftrightarrow>
     rings (tlist k) L \<and>
     (\<forall>p t. t \<in> set (L (Ready_list p)) \<longleftrightarrow> stat k t = RT_THREAD_READY \<and> current_priority k t = p) \<and>
     (\<forall>s t. t \<in> set (L (Suspend_list s)) \<longrightarrow> is_suspended (stat k t)) \<and>
     (\<forall>t. t \<in> set (L Defunct_list) \<longrightarrow> stat k t = RT_THREAD_CLOSE) \<and>
     (\<forall>p. bit (rt_thread_ready_priority_group k) p \<longleftrightarrow> L (Ready_list p) \<noteq> []) \<and>
     (\<forall>t. current_priority k t < RT_THREAD_PRIORITY_MAX)"

definition sched_ok :: "kernel \<Rightarrow> (tlist_head \<Rightarrow> nat list) \<Rightarrow> bool" where
  "sched_ok k L \<longleftrightarrow>
     lists_ok k L \<and>
     (\<forall>t. stat k t = RT_THREAD_RUNNING \<longrightarrow> rt_current_thread k = Some t) \<and>
     (\<forall>t. rt_current_thread k = Some t \<longrightarrow> stat k t \<noteq> RT_THREAD_READY)"


lemma ffs_lowest:
  assumes "w \<noteq> (0 :: u32)"
  shows "bit w (rt_ffs w - 1)" and "bit w p \<Longrightarrow> rt_ffs w - 1 \<le> p"
proof -
  have len: "p < 32" if "bit w p" for p using bit_imp_le_length [OF that] by simp
  have "\<exists>q. bit w q"
  proof (rule ccontr)
    assume "\<nexists>q. bit w q"
    then have "w = 0" by (intro bit_eqI) simp
    with assms show False by simp
  qed
  then obtain q where "bit w q" ..
  with len obtain n where n: "find (bit w) [0..<32] = Some n" by (fastforce simp: find_None_iff)
  then have "bit w n" "\<forall>i<n. \<not> bit w i" by (auto simp: find_Some_iff)
  with n show "bit w (rt_ffs w - 1)" and "bit w p \<Longrightarrow> rt_ffs w - 1 \<le> p"
    by (auto simp: rt_ffs_def intro: leI)
qed

lemma bit_number_mask:
  "current_priority k t < RT_THREAD_PRIORITY_MAX \<Longrightarrow> bit (number_mask t k) p \<longleftrightarrow> p = current_priority k t"
  by (auto simp: number_mask_def bit_exp_iff possible_bit_word RT_THREAD_PRIORITY_MAX_def)

lemma lists_okD:
  assumes "lists_ok k L"
  shows "rings (tlist k) L" and "t \<in> set (L (Ready_list p)) \<longleftrightarrow> stat k t = RT_THREAD_READY \<and> current_priority k t = p"
    and "t \<in> set (L (Suspend_list s)) \<Longrightarrow> is_suspended (stat k t)" and "t \<in> set (L Defunct_list) \<Longrightarrow> stat k t = RT_THREAD_CLOSE"
    and "bit (rt_thread_ready_priority_group k) p \<longleftrightarrow> L (Ready_list p) \<noteq> []"
    and "current_priority k t < RT_THREAD_PRIORITY_MAX"
  using assms by (auto simp: lists_ok_def)

text \<open>A thread that is none of these is in no list.\<close>

lemma in_no_list:
  assumes "lists_ok k L" and "stat k t \<noteq> RT_THREAD_READY" and "\<not> is_suspended (stat k t)" and "stat k t \<noteq> RT_THREAD_CLOSE"
  shows "t \<notin> set (L l)"
  using assms lists_okD(2,3,4) [OF assms(1)] by (cases l) auto

lemma lists_ok_remove:
  assumes k: "lists_ok k L" and x: "x \<noteq> RT_THREAD_READY"
  shows "lists_ok (rt_schedule_remove_thread t k\<lparr>stat := (stat k)(t := x)\<rparr>) (\<lambda>l. removeAll t (L l))"
proof -
  note kD = lists_okD [OF k]
  let ?L = "\<lambda>l. removeAll t (L l)" and ?p = "current_priority k t"
  let ?h = "rt_list_remove (Node t) (tlist k)"
  have h: "rings ?h ?L" by (rule rings_remove [OF kD(1)])
  note e = rings_isempty [OF h]
  have other: "?L (Ready_list p) = L (Ready_list p)" if "p \<noteq> ?p" for p
    using that kD(2) [of t p] by (simp add: removeAll_id)
  have bits: "bit (rt_thread_ready_priority_group (rt_schedule_remove_thread t k)) p \<longleftrightarrow> ?L (Ready_list p) \<noteq> []" for p
  proof (cases "p = ?p")
    case True
    have "bit (rt_thread_ready_priority_group k) ?p" if "?L (Ready_list ?p) \<noteq> []"
      using that kD(5) [of ?p] by auto
    with True show ?thesis
      by (auto simp: rt_schedule_remove_thread_def Let_def e bit_simps bit_number_mask kD(6))
  next
    case False
    have "p < 32" if "L (Ready_list p) \<noteq> []"
      using that bit_imp_le_length [of "rt_thread_ready_priority_group k" p] by (simp add: kD(5))
    with False show ?thesis
      by (auto simp: rt_schedule_remove_thread_def Let_def e bit_simps other bit_number_mask kD(5,6))
  qed
  have st: "tlist (rt_schedule_remove_thread t k) = ?h" "current_priority (rt_schedule_remove_thread t k) = current_priority k"
    by (simp_all add: rt_schedule_remove_thread_def Let_def)
  show ?thesis
    unfolding lists_ok_def
    using h bits kD x by (auto simp: st)
qed

definition insert_lists :: "nat \<Rightarrow> kernel \<Rightarrow> (tlist_head \<Rightarrow> nat list) \<Rightarrow> tlist_head \<Rightarrow> nat list" where
  "insert_lists t k L =
     (if rt_current_thread k = Some t then L
      else let l = Ready_list (current_priority k t) in L(l := if yield k t then L l @ [t] else t # L l))"

lemma lists_ok_insert:
  assumes k: "lists_ok k L" and t: "\<And>l. t \<notin> set (L l)"
  shows "lists_ok (rt_schedule_insert_thread t k) (insert_lists t k L)"
proof (cases "rt_current_thread k = Some t")
  case True
  with lists_okD [OF k] t show ?thesis
    unfolding lists_ok_def by (simp add: rt_schedule_insert_thread_def insert_lists_def) blast
next
  case False
  note kD = lists_okD [OF k]
  let ?l = "Ready_list (current_priority k t)"
  have "rings (rt_list_insert_before (Head ?l) (Node t) (tlist k)) (L(?l := L ?l @ [t]))"
    and "rings (rt_list_insert_after (Head ?l) (Node t) (tlist k)) (L(?l := t # L ?l))"
    by (rule rings_append [OF kD(1) t], rule rings_push [OF kD(1) t])
  then have "rings (tlist (rt_schedule_insert_thread t k)) (insert_lists t k L)"
    using False by (simp add: rt_schedule_insert_thread_def insert_lists_def Let_def)
  moreover have "stat (rt_schedule_insert_thread t k) = (stat k)(t := RT_THREAD_READY)"
    "current_priority (rt_schedule_insert_thread t k) = current_priority k"
    "rt_thread_ready_priority_group (rt_schedule_insert_thread t k) = rt_thread_ready_priority_group k OR number_mask t k"
    using False by (simp_all add: rt_schedule_insert_thread_def Let_def number_mask_def)
  moreover have "set (insert_lists t k L l) = (if l = ?l then insert t (set (L l)) else set (L l))" for l
    using False by (simp add: insert_lists_def Let_def)
  moreover have "insert_lists t k L l \<noteq> [] \<longleftrightarrow> l = ?l \<or> L l \<noteq> []" for l
    using False by (simp add: insert_lists_def Let_def)
  ultimately show ?thesis
    unfolding lists_ok_def using kD t by (auto simp: bit_simps bit_number_mask)
qed


text \<open>What the scheduler leaves alone.\<close>

named_theorems kernel_frame \<open>fields of the kernel an operation does not change\<close>

lemma remove_frame [kernel_frame]:
  "errno (rt_schedule_remove_thread t k) = errno k" "current_priority (rt_schedule_remove_thread t k) = current_priority k"
  "thread_timer (rt_schedule_remove_thread t k) = thread_timer k" "rt_current_thread (rt_schedule_remove_thread t k) = rt_current_thread k"
  "rt_scheduler_lock_nest (rt_schedule_remove_thread t k) = rt_scheduler_lock_nest k" "stat (rt_schedule_remove_thread t k) = stat k"
  "sem_value (rt_schedule_remove_thread t k) = sem_value k" "object_flag (rt_schedule_remove_thread t k) = object_flag k"
  "kernel_assert (rt_schedule_remove_thread t k) = kernel_assert k" "yield (rt_schedule_remove_thread t k) = yield k"
  by (simp_all add: rt_schedule_remove_thread_def Let_def)

lemma insert_frame [kernel_frame]:
  "errno (rt_schedule_insert_thread t k) = errno k" "current_priority (rt_schedule_insert_thread t k) = current_priority k"
  "thread_timer (rt_schedule_insert_thread t k) = thread_timer k" "rt_current_thread (rt_schedule_insert_thread t k) = rt_current_thread k"
  "rt_scheduler_lock_nest (rt_schedule_insert_thread t k) = rt_scheduler_lock_nest k" "yield (rt_schedule_insert_thread t k) = yield k"
  "sem_value (rt_schedule_insert_thread t k) = sem_value k" "object_flag (rt_schedule_insert_thread t k) = object_flag k"
  "kernel_assert (rt_schedule_insert_thread t k) = kernel_assert k"
  "stat (rt_schedule_insert_thread t k) =
     (stat k)(t := if rt_current_thread k = Some t then RT_THREAD_RUNNING else RT_THREAD_READY)"
  by (simp_all add: rt_schedule_insert_thread_def Let_def)

lemma schedule_frame [kernel_frame]:
  "errno (rt_schedule k) = errno k" "current_priority (rt_schedule k) = current_priority k"
  "thread_timer (rt_schedule k) = thread_timer k" "rt_scheduler_lock_nest (rt_schedule k) = rt_scheduler_lock_nest k"
  "sem_value (rt_schedule k) = sem_value k" "object_flag (rt_schedule k) = object_flag k" "kernel_assert (rt_schedule k) = kernel_assert k"
  by (simp_all add: rt_schedule_def Let_def kernel_frame split: option.splits prod.splits)

lemma sched_okD:
  assumes "sched_ok k L"
  shows "lists_ok k L" and "stat k t = RT_THREAD_RUNNING \<Longrightarrow> rt_current_thread k = Some t"
    and "rt_current_thread k = Some t \<Longrightarrow> stat k t \<noteq> RT_THREAD_READY"
  using assms by (auto simp: sched_ok_def)

text \<open>The thread the scheduler looks at first.\<close>

lemma highest_thread:
  assumes k: "lists_ok k L" and r: "stat k u = RT_THREAD_READY"
  obtains to p where "highest_priority_thread k = (to, p)" "L (Ready_list p) \<noteq> []" "to = hd (L (Ready_list p))"
    "stat k to = RT_THREAD_READY" "current_priority k to = p" "\<And>t. stat k t = RT_THREAD_READY \<Longrightarrow> p \<le> current_priority k t"
    "rt_thread_ready_priority_group k \<noteq> 0"
proof -
  note kD = lists_okD [OF k]
  let ?g = "rt_thread_ready_priority_group k"
  have bit: "bit ?g (current_priority k t)" if "stat k t = RT_THREAD_READY" for t
    using that kD(2) [of t "current_priority k t"] kD(5) [of "current_priority k t"] by auto
  then have g: "?g \<noteq> 0" using r by fastforce
  let ?p = "rt_ffs ?g - 1"
  have ne: "L (Ready_list ?p) \<noteq> []" using ffs_lowest(1) [OF g] kD(5) by blast
  let ?to = "hd (L (Ready_list ?p))"
  have "highest_priority_thread k = (?to, ?p)"
    by (simp only: highest_priority_thread_def Let_def rings_first [OF kD(1) ne] thread_of.simps)
  moreover have "stat k ?to = RT_THREAD_READY" "current_priority k ?to = ?p"
    using kD(2) [of ?to ?p] ne by auto
  moreover have "?p \<le> current_priority k t" if "stat k t = RT_THREAD_READY" for t
    using ffs_lowest(2) [OF g bit [OF that]] .
  ultimately show ?thesis using ne g that by blast
qed

lemma nothing_ready:
  assumes "lists_ok k L" and "\<And>t. stat k t \<noteq> RT_THREAD_READY"
  shows "rt_thread_ready_priority_group k = 0"
proof (rule bit_eqI)
  fix p
  have "L (Ready_list p) = []" using lists_okD(2) [OF assms(1), of "hd (L (Ready_list p))" p] assms(2) by (cases "L (Ready_list p)") auto
  then show "bit (rt_thread_ready_priority_group k) p = bit 0 p" using lists_okD(5) [OF assms(1), of p] by simp
qed

lemma remove_out:
  assumes k: "lists_ok k L" and t: "\<And>l. t \<notin> set (L l)"
  shows "rt_schedule_remove_thread t k = k"
proof -
  note kD = lists_okD [OF k]
  let ?g = "rt_thread_ready_priority_group k"
  have same: "rt_list_remove (Node t) (tlist k) = tlist k" by (rule rings_remove_out [OF kD(1) t])
  have "?g AND NOT (number_mask t k) = ?g" if "L (Ready_list (current_priority k t)) = []"
    by (rule bit_eqI) (use that kD(5) in \<open>auto simp: bit_simps bit_number_mask kD(6)\<close>)
  then show ?thesis
    by (simp add: rt_schedule_remove_thread_def Let_def same rings_isempty [OF kD(1)])
qed


text \<open>
  The two outcomes: the scheduler lets the current thread go on and changes nothing, or it switches to the first
  of the most urgent ready threads.
\<close>

definition goes_on :: "nat \<Rightarrow> nat \<Rightarrow> kernel \<Rightarrow> bool" where
  "goes_on c p k \<longleftrightarrow>
     stat k c = RT_THREAD_RUNNING \<and> (current_priority k c < p \<or> current_priority k c = p \<and> \<not> yield k c)"

lemma schedule_stays:
  assumes k: "sched_ok k L" and c: "rt_current_thread k = Some c"
    and stay: "\<And>t. stat k t = RT_THREAD_READY \<Longrightarrow> goes_on c (current_priority k t) k"
  shows "rt_schedule k = k"
proof (cases "\<exists>t. stat k t = RT_THREAD_READY")
  case False
  then show ?thesis
    using nothing_ready [OF sched_okD(1) [OF k]] by (simp add: rt_schedule_def c)
next
  case True
  then obtain u where u: "stat k u = RT_THREAD_READY" ..
  obtain to p where
    h: "highest_priority_thread k = (to, p)" "L (Ready_list p) \<noteq> []" "to = hd (L (Ready_list p))"
      "stat k to = RT_THREAD_READY" "current_priority k to = p" "\<And>t. stat k t = RT_THREAD_READY \<Longrightarrow> p \<le> current_priority k t"
      "rt_thread_ready_priority_group k \<noteq> 0" by (rule highest_thread [OF sched_okD(1) [OF k] u]) blast
  have g: "goes_on c p k" using stay [of to] h by simp
  then have "c \<notin> set (L l)" for l using in_no_list [OF sched_okD(1) [OF k], of c l] by (simp add: goes_on_def)
  then have "rt_schedule_remove_thread c k = k" by (rule remove_out [OF sched_okD(1) [OF k]])
  moreover have "k\<lparr>stat := (stat k)(c := RT_THREAD_RUNNING)\<rparr> = k" using g by (simp add: goes_on_def fun_upd_idem)
  ultimately show ?thesis using g by (auto simp: rt_schedule_def c h Let_def goes_on_def)
qed

definition switched :: "nat \<Rightarrow> nat \<Rightarrow> kernel \<Rightarrow> (tlist_head \<Rightarrow> nat list) \<Rightarrow> tlist_head \<Rightarrow> nat list" where
  "switched c to k L =
     (\<lambda>l. removeAll to ((if stat k c = RT_THREAD_RUNNING then insert_lists c (k\<lparr>rt_current_thread := Some to\<rparr>) L else L) l))"

lemma schedule_switches:
  assumes k: "sched_ok k L" and c: "rt_current_thread k = Some c" and on: "rt_scheduler_lock_nest k = 0"
    and h: "highest_priority_thread k = (to, p)" "stat k to = RT_THREAD_READY" "rt_thread_ready_priority_group k \<noteq> 0"
    and not: "\<not> goes_on c p k"
  shows "sched_ok (rt_schedule k) (switched c to k L)"
    and "rt_current_thread (rt_schedule k) = Some to"
    and "stat (rt_schedule k) =
      (if stat k c = RT_THREAD_RUNNING then (stat k)(c := RT_THREAD_READY) else stat k)(to := RT_THREAD_RUNNING)"
    and "yield (rt_schedule k) = (yield k)(c := False)"
proof -
  have ne: "to \<noteq> c" using sched_okD(3) [OF k c] h(2) by auto
  let ?k1 = "k\<lparr>rt_current_priority := p, rt_current_thread := Some to\<rparr>"
  let ?k2 = "if stat k c = RT_THREAD_RUNNING then rt_schedule_insert_thread c ?k1 else ?k1"
  let ?k3 = "?k2\<lparr>yield := (yield ?k2)(c := False)\<rparr>"
  let ?k4 = "rt_schedule_remove_thread to ?k3"
  have sch: "rt_schedule k = ?k4\<lparr>stat := (stat ?k4)(to := RT_THREAD_RUNNING)\<rparr>"
    using not ne by (auto simp: rt_schedule_def c on h(1,3) Let_def goes_on_def)
  let ?L = "if stat k c = RT_THREAD_RUNNING then insert_lists c (k\<lparr>rt_current_thread := Some to\<rparr>) L else L"
  have L1: "lists_ok ?k1 L" using sched_okD(1) [OF k] by (simp add: lists_ok_def)
  have "lists_ok (rt_schedule_insert_thread c ?k1) (insert_lists c ?k1 L)" if "stat k c = RT_THREAD_RUNNING"
    by (rule lists_ok_insert [OF L1]) (use that in_no_list [OF L1] in simp)
  moreover have "insert_lists c ?k1 L = insert_lists c (k\<lparr>rt_current_thread := Some to\<rparr>) L"
    by (simp add: insert_lists_def)
  ultimately have "lists_ok ?k2 ?L" using L1 by simp
  then have "lists_ok ?k3 ?L" by (simp add: lists_ok_def)
  from lists_ok_remove [OF this, of RT_THREAD_RUNNING to]
  have L': "lists_ok (rt_schedule k) (switched c to k L)"
    by (simp add: sch switched_def kernel_frame)
  show cur: "rt_current_thread (rt_schedule k) = Some to"
    by (simp add: sch kernel_frame)
  show st: "stat (rt_schedule k) =
      (if stat k c = RT_THREAD_RUNNING then (stat k)(c := RT_THREAD_READY) else stat k)(to := RT_THREAD_RUNNING)"
    using ne by (simp add: sch kernel_frame)
  show "yield (rt_schedule k) = (yield k)(c := False)" by (simp add: sch kernel_frame)
  have one: "stat k t \<noteq> RT_THREAD_RUNNING" if "t \<noteq> c" for t using sched_okD(2) [OF k, of t] c that by auto
  have "t = to" if "stat (rt_schedule k) t = RT_THREAD_RUNNING" for t
    using that one [of t] by (auto simp: st split: if_splits)
  then show "sched_ok (rt_schedule k) (switched c to k L)"
    unfolding sched_ok_def using L' by (simp add: cur) (simp add: st)
qed

lemma switched_other: "switched c to k L (Suspend_list s) = removeAll to (L (Suspend_list s))"
  "switched c to k L Defunct_list = removeAll to (L Defunct_list)"
  by (simp_all add: switched_def insert_lists_def Let_def)


text \<open>Whatever it does: the invariant holds again, and the most urgent thread runs.\<close>

definition runnable :: "thread_stat \<Rightarrow> bool" where
  "runnable x \<longleftrightarrow> x = RT_THREAD_READY \<or> x = RT_THREAD_RUNNING"

lemma schedule_ok:
  assumes k: "sched_ok k L" and c: "rt_current_thread k = Some c"
  obtains L' where "sched_ok (rt_schedule k) L'" "\<And>s. L' (Suspend_list s) = L (Suspend_list s)"
    "L' Defunct_list = L Defunct_list"
    "\<And>t. is_suspended (stat (rt_schedule k) t) = is_suspended (stat k t)"
    "\<And>t. runnable (stat (rt_schedule k) t) = runnable (stat k t)"
proof (cases "rt_scheduler_lock_nest k = 0 \<and> (\<exists>t. stat k t = RT_THREAD_READY \<and> \<not> goes_on c (current_priority k t) k)")
  case True
  then obtain u where on: "rt_scheduler_lock_nest k = 0" and u: "stat k u = RT_THREAD_READY" "\<not> goes_on c (current_priority k u) k"
    by blast
  obtain to p where
    h: "highest_priority_thread k = (to, p)" "L (Ready_list p) \<noteq> []" "to = hd (L (Ready_list p))"
      "stat k to = RT_THREAD_READY" "current_priority k to = p" "\<And>t. stat k t = RT_THREAD_READY \<Longrightarrow> p \<le> current_priority k t"
      "rt_thread_ready_priority_group k \<noteq> 0" by (rule highest_thread [OF sched_okD(1) [OF k] u(1)]) blast
  have not: "\<not> goes_on c p k" using u h(6) [of u] by (auto simp: goes_on_def)
  note sw = schedule_switches [OF k c on h(1,4,7) not]
  have "to \<notin> set (L (Suspend_list s))" for s using lists_okD(3) [OF sched_okD(1) [OF k], of to s] h(4) by auto
  moreover have "to \<notin> set (L Defunct_list)" using lists_okD(4) [OF sched_okD(1) [OF k], of to] h(4) by auto
  ultimately show ?thesis
    using h(4) by (intro that [OF sw(1)]) (auto simp: switched_other sw(3) removeAll_id runnable_def)
next
  case False
  have "rt_schedule k = k"
  proof (cases "rt_scheduler_lock_nest k = 0")
    case True
    with False show ?thesis by (intro schedule_stays [OF k c]) auto
  qed (simp add: rt_schedule_def c)
  with k show ?thesis by (intro that [of L]) auto
qed

lemma schedule_runs:
  assumes k: "sched_ok k L" and c: "rt_current_thread k = Some c" and on: "rt_scheduler_lock_nest k = 0"
    and some: "stat k c = RT_THREAD_RUNNING \<or> (\<exists>t. stat k t = RT_THREAD_READY)"
  shows "\<exists>r. rt_current_thread (rt_schedule k) = Some r \<and> stat (rt_schedule k) r = RT_THREAD_RUNNING \<and>
    (\<forall>t. stat (rt_schedule k) t = RT_THREAD_READY \<longrightarrow> current_priority k r \<le> current_priority k t)"
proof (cases "\<exists>t. stat k t = RT_THREAD_READY \<and> \<not> goes_on c (current_priority k t) k")
  case True
  then obtain u where u: "stat k u = RT_THREAD_READY" "\<not> goes_on c (current_priority k u) k" by blast
  obtain to p where
    h: "highest_priority_thread k = (to, p)" "L (Ready_list p) \<noteq> []" "to = hd (L (Ready_list p))"
      "stat k to = RT_THREAD_READY" "current_priority k to = p" "\<And>t. stat k t = RT_THREAD_READY \<Longrightarrow> p \<le> current_priority k t"
      "rt_thread_ready_priority_group k \<noteq> 0" by (rule highest_thread [OF sched_okD(1) [OF k] u(1)]) blast
  have not: "\<not> goes_on c p k" using u h(6) [of u] by (auto simp: goes_on_def)
  note sw = schedule_switches [OF k c on h(1,4,7) not]
  have "p \<le> current_priority k c" if "stat k c = RT_THREAD_RUNNING"
    using not that by (auto simp: goes_on_def not_less)
  with h(5,6) have "p \<le> current_priority k t" if "stat (rt_schedule k) t = RT_THREAD_READY" for t
    using that by (auto simp: sw(3) split: if_splits)
  with h(5) show ?thesis by (simp add: sw(2,3))
next
  case False
  then have "rt_schedule k = k" by (intro schedule_stays [OF k c]) auto
  with False some c show ?thesis by (auto simp: goes_on_def)
qed


section \<open>Operations on threads\<close>

text \<open>The invariant does not look at the other fields.\<close>

lemma sched_ok_fields [simp]:
  "sched_ok (k\<lparr>errno := e\<rparr>) L = sched_ok k L" "sched_ok (k\<lparr>thread_timer := tt\<rparr>) L = sched_ok k L"
  "sched_ok (k\<lparr>yield := y\<rparr>) L = sched_ok k L" "sched_ok (k\<lparr>remaining_tick := rt\<rparr>) L = sched_ok k L"
  "sched_ok (k\<lparr>rt_tick := n\<rparr>) L = sched_ok k L" "sched_ok (k\<lparr>sem_value := v\<rparr>) L = sched_ok k L"
  "sched_ok (k\<lparr>kernel_assert := b\<rparr>) L = sched_ok k L" "sched_ok (k\<lparr>rt_scheduler_lock_nest := m\<rparr>) L = sched_ok k L"
  by (simp_all add: sched_ok_def lists_ok_def)

lemma k_assert_True [simp]: "k_assert True k = k"
  by (simp add: k_assert_def)

lemma suspend_stat_suspended [simp]: "is_suspended (suspend_stat f)"
  by (cases f) simp_all

lemma suspended_stats: "is_suspended x \<Longrightarrow> x \<noteq> RT_THREAD_READY \<and> x \<noteq> RT_THREAD_RUNNING \<and> x \<noteq> RT_THREAD_CLOSE \<and> x \<noteq> RT_THREAD_INIT"
  by (cases x) simp_all

lemma sched_ok_stat:
  assumes "sched_ok k L" and "lists_ok (k\<lparr>stat := (stat k)(t := x)\<rparr>) L'" and "x \<noteq> RT_THREAD_READY" and "x \<noteq> RT_THREAD_RUNNING"
  shows "sched_ok (k\<lparr>stat := (stat k)(t := x)\<rparr>) L'"
  unfolding sched_ok_def using assms(2-4) sched_okD(2,3) [OF assms(1)] by (simp split: if_splits)

lemma not_listed: "sched_ok k L \<Longrightarrow> stat k t = RT_THREAD_RUNNING \<or> stat k t = RT_THREAD_INIT \<Longrightarrow> t \<notin> set (L l)"
  using in_no_list [OF sched_okD(1)] by auto

lemma suspend_running:
  assumes k: "sched_ok k L" and t: "rt_current_thread k = Some t" "stat k t = RT_THREAD_RUNNING"
  shows "rt_thread_suspend_with_flag t f k =
      (RT_EOK, k\<lparr>stat := (stat k)(t := suspend_stat f), thread_timer := (thread_timer k)(t := None)\<rparr>)"
    and "sched_ok (k\<lparr>stat := (stat k)(t := suspend_stat f), thread_timer := (thread_timer k)(t := None)\<rparr>) L"
proof -
  have out: "t \<notin> set (L l)" for l using not_listed [OF k] t(2) by simp
  have same: "rt_schedule_remove_thread t k = k" by (rule remove_out [OF sched_okD(1) [OF k] out])
  then show "rt_thread_suspend_with_flag t f k =
      (RT_EOK, k\<lparr>stat := (stat k)(t := suspend_stat f), thread_timer := (thread_timer k)(t := None)\<rparr>)"
    by (simp add: rt_thread_suspend_with_flag_def t)
  have "(\<lambda>l. removeAll t (L l)) = L" using out by (simp add: removeAll_id)
  moreover have "suspend_stat f \<noteq> RT_THREAD_READY" "suspend_stat f \<noteq> RT_THREAD_RUNNING" by (cases f; simp)+
  ultimately have "lists_ok (k\<lparr>stat := (stat k)(t := suspend_stat f)\<rparr>) L"
    using lists_ok_remove [OF sched_okD(1) [OF k], of "suspend_stat f" t] by (simp add: same)
  then have "sched_ok (k\<lparr>stat := (stat k)(t := suspend_stat f)\<rparr>) L"
    by (rule sched_ok_stat [OF k]) (cases f; simp)+
  then show "sched_ok (k\<lparr>stat := (stat k)(t := suspend_stat f), thread_timer := (thread_timer k)(t := None)\<rparr>) L" by simp
qed

lemma insert_lists_fields [simp]:
  "insert_lists t (k\<lparr>tlist := h\<rparr>) L = insert_lists t k L" "insert_lists t (k\<lparr>thread_timer := tt\<rparr>) L = insert_lists t k L"
  "insert_lists t (k\<lparr>errno := e\<rparr>) L = insert_lists t k L" "insert_lists t (k\<lparr>stat := st\<rparr>) L = insert_lists t k L"
  by (simp_all add: insert_lists_def)

lemma insert_timer: "rt_schedule_insert_thread t (k\<lparr>thread_timer := tt\<rparr>) = rt_schedule_insert_thread t k\<lparr>thread_timer := tt\<rparr>"
  by (simp add: rt_schedule_insert_thread_def number_mask_def Let_def)

definition woken :: "nat \<Rightarrow> kernel \<Rightarrow> (tlist_head \<Rightarrow> nat list) \<Rightarrow> tlist_head \<Rightarrow> nat list" where
  "woken t k L = insert_lists t k (\<lambda>l. removeAll t (L l))"

lemma woken_other: "woken t k L (Suspend_list s) = removeAll t (L (Suspend_list s))"
  "woken t k L Defunct_list = removeAll t (L Defunct_list)"
  by (simp_all add: woken_def insert_lists_def Let_def)

lemma wake_ok:
  assumes k: "sched_ok k L" and t: "is_suspended (stat k t)"
  shows "sched_ok (rt_schedule_insert_thread t (k\<lparr>tlist := rt_list_remove (Node t) (tlist k)\<rparr>)) (woken t k L)"
proof -
  note kD = lists_okD [OF sched_okD(1) [OF k]]
  have "removeAll t (L (Ready_list p)) = L (Ready_list p)" for p
    using kD(2) [of t p] suspended_stats [OF t] by (simp add: removeAll_id)
  then have "lists_ok (k\<lparr>tlist := rt_list_remove (Node t) (tlist k)\<rparr>) (\<lambda>l. removeAll t (L l))"
    using rings_remove [OF kD(1), of t] sched_okD(1) [OF k] unfolding lists_ok_def by simp blast
  from lists_ok_insert [OF this, of t]
  have "lists_ok (rt_schedule_insert_thread t (k\<lparr>tlist := rt_list_remove (Node t) (tlist k)\<rparr>)) (woken t k L)"
    by (simp add: woken_def)
  with k show ?thesis by (simp add: sched_ok_def kernel_frame) (metis option.inject)
qed

lemma resume_suspended:
  assumes k: "sched_ok k L" and t: "is_suspended (stat k t)"
  obtains k' where "rt_thread_resume t k = (RT_EOK, k')" "sched_ok k' (woken t k L)"
    "stat k' = (stat k)(t := if rt_current_thread k = Some t then RT_THREAD_RUNNING else RT_THREAD_READY)"
    "thread_timer k' = (thread_timer k)(t := None)" "errno k' = errno k" "current_priority k' = current_priority k"
    "rt_current_thread k' = rt_current_thread k" "rt_scheduler_lock_nest k' = rt_scheduler_lock_nest k"
    "sem_value k' = sem_value k" "object_flag k' = object_flag k" "kernel_assert k' = kernel_assert k"
proof -
  have "sched_ok (snd (rt_thread_resume t k)) (woken t k L)"
    using wake_ok [OF assms] t by (simp add: rt_thread_resume_def insert_timer)
  then show ?thesis
    by (rule that [rotated]) (use t in \<open>simp_all add: rt_thread_resume_def Let_def kernel_frame\<close>)
qed


text \<open>A sleep: the caller is suspended, its timer runs, and the scheduler has gone on to another thread.\<close>

lemma sleep_ok:
  assumes k: "sched_ok k L" and t: "rt_current_thread k = Some t" "stat k t = RT_THREAD_RUNNING" and tick: "tick \<noteq> 0"
  obtains k' L' where "rt_thread_sleep tick t k = (None, k')" "sched_ok k' L'" "is_suspended (stat k' t)"
    "thread_timer k' t = Some (uint tick)"
proof -
  let ?k = "k\<lparr>errno := (errno k)(t := RT_EOK)\<rparr>"
  have "sched_ok ?k L" using k by simp
  note s = suspend_running [OF this, of t RT_INTERRUPTIBLE]
  let ?s = "?k\<lparr>stat := (stat ?k)(t := suspend_stat RT_INTERRUPTIBLE), thread_timer := (thread_timer ?k)(t := None)\<rparr>"
  let ?w = "?s\<lparr>thread_timer := (thread_timer ?s)(t := Some (uint tick)), errno := (errno ?s)(t := - RT_EINTR)\<rparr>"
  have w: "sched_ok ?w L" using s(2) t by (simp only: sched_ok_fields) simp
  have e: "rt_thread_sleep tick t k = (None, rt_schedule ?w)" using s(1) t tick by (simp add: rt_thread_sleep_def)
  have c: "rt_current_thread ?w = Some t" using t by simp
  obtain L' where L': "sched_ok (rt_schedule ?w) L'" "\<And>s. L' (Suspend_list s) = L (Suspend_list s)" "L' Defunct_list = L Defunct_list"
    "\<And>u. is_suspended (stat (rt_schedule ?w) u) = is_suspended (stat ?w u)"
    "\<And>u. runnable (stat (rt_schedule ?w) u) = runnable (stat ?w u)"
    by (rule schedule_ok [OF w c]) blast
  have "is_suspended (stat (rt_schedule ?w) t)" unfolding L'(4) by simp
  from that [OF e L'(1) this] show ?thesis by (simp add: kernel_frame)
qed

section \<open>What the scheduler promises\<close>

text \<open>
  C8: after the scheduler ran, some thread is running and no ready thread is more urgent than it; the ready table
  and the lists of threads are intact.  This holds if anything can run at all: the current thread, or a ready
  one, such as the idle thread.
\<close>

theorem most_urgent_runs:
  assumes "sched_ok k L" and "rt_current_thread k = Some c" and "rt_scheduler_lock_nest k = 0"
    and "stat k c = RT_THREAD_RUNNING \<or> (\<exists>t. stat k t = RT_THREAD_READY)"
  shows "\<exists>r L'. sched_ok (rt_schedule k) L' \<and> rt_current_thread (rt_schedule k) = Some r \<and>
    stat (rt_schedule k) r = RT_THREAD_RUNNING \<and>
    (\<forall>t. stat (rt_schedule k) t = RT_THREAD_READY \<longrightarrow> current_priority (rt_schedule k) r \<le> current_priority (rt_schedule k) t)"
  using schedule_runs [OF assms] schedule_ok [OF assms(1,2)] by (metis schedule_frame(2))

text \<open>One turn among threads of equal priority.\<close>

definition in_turn :: "nat list \<Rightarrow> kernel \<Rightarrow> bool" where
  "in_turn ts k \<longleftrightarrow>
     ts \<noteq> [] \<and> rt_scheduler_lock_nest k = 0 \<and> rt_current_thread k = Some (hd ts) \<and> stat k (hd ts) = RT_THREAD_RUNNING \<and>
     (\<exists>L. sched_ok k L \<and> L (Ready_list (current_priority k (hd ts))) = tl ts) \<and>
     (\<forall>t. stat k t = RT_THREAD_READY \<longrightarrow> current_priority k (hd ts) \<le> current_priority k t)"

lemma yield_turn:
  assumes "in_turn ts k"
  shows "in_turn (rotate1 ts) (snd (rt_thread_yield k))"
proof -
  from assms obtain c us L where ts: "ts = c # us" and on: "rt_scheduler_lock_nest k = 0" and c: "rt_current_thread k = Some c"
    and run: "stat k c = RT_THREAD_RUNNING" and k: "sched_ok k L" and L: "L (Ready_list (current_priority k c)) = us"
    and low: "\<And>t. stat k t = RT_THREAD_READY \<Longrightarrow> current_priority k c \<le> current_priority k t"
    by (cases ts) (auto simp: in_turn_def)
  let ?p = "current_priority k c"
  let ?k = "k\<lparr>remaining_tick := (remaining_tick k)(c := init_tick k c), yield := (yield k)(c := True)\<rparr>"
  have y: "snd (rt_thread_yield k) = rt_schedule ?k" by (simp add: rt_thread_yield_def c)
  have k': "sched_ok ?k L" using k by simp
  note kD = lists_okD [OF sched_okD(1) [OF k']]
  show ?thesis
  proof (cases us)
    case Nil
    have "?p < current_priority k t" if "stat k t = RT_THREAD_READY" for t
      using low [OF that] kD(2) [of t ?p] that Nil L by (cases "current_priority k t = ?p") auto
    then have "rt_schedule ?k = ?k" by (intro schedule_stays [OF k']) (use run c in \<open>auto simp: goes_on_def\<close>)
    with on c run k L low show ?thesis unfolding y ts Nil in_turn_def by (intro conjI exI [of _ L]) simp_all
  next
    case (Cons u vs)
    have u: "stat k u = RT_THREAD_READY" "current_priority k u = ?p" using kD(2) [of u ?p] L Cons by auto
    then have "stat ?k u = RT_THREAD_READY" by simp
    then obtain to p where
      h: "highest_priority_thread ?k = (to, p)" "L (Ready_list p) \<noteq> []" "to = hd (L (Ready_list p))"
        "stat ?k to = RT_THREAD_READY" "current_priority ?k to = p"
        "\<And>t. stat ?k t = RT_THREAD_READY \<Longrightarrow> p \<le> current_priority ?k t" "rt_thread_ready_priority_group ?k \<noteq> 0"
      by (rule highest_thread [OF sched_okD(1) [OF k']]) blast
    have p: "p = ?p" using h(4,5) h(6) [of u] low [of to] u by simp
    with h(3) L Cons have to: "to = u" by simp
    have not: "\<not> goes_on c p ?k" by (simp add: goes_on_def p)
    have c': "rt_current_thread ?k = Some c" and on': "rt_scheduler_lock_nest ?k = 0" using c on by simp_all
    note sw = schedule_switches [OF k' c' on' h(1,4,7) not]
    have "c \<noteq> u" using u run by auto
    moreover have "distinct (L (Ready_list ?p))" by (rule rings_distinct [OF kD(1)])
    ultimately have "switched c u ?k L (Ready_list ?p) = vs @ [c]"
      using L Cons by (simp add: switched_def insert_lists_def run Let_def removeAll_id)
    moreover have "?p \<le> current_priority k t" if "stat (rt_schedule ?k) t = RT_THREAD_READY" for t
      using that low [of t] run by (cases "t = c") (auto simp: sw(3) split: if_splits)
    ultimately show ?thesis
      using sw(1,2) u(2) unfolding y ts Cons in_turn_def
      by (intro conjI exI [of _ "switched c u ?k L"]) (simp_all add: to kernel_frame on sw(3))
  qed
qed

text \<open>
  Threads of equal priority take turns.  If the running thread and the ready threads of its priority
  each give up the processor in turn, and nothing more urgent is ready, then the processor goes round their
  list, first come first served, and after as many turns as there are threads it is back.
\<close>

theorem round_robin:
  assumes "in_turn ts k"
  shows "rt_current_thread (((snd \<circ> rt_thread_yield) ^^ n) k) = Some (ts ! (n mod length ts))"
proof -
  have turn: "in_turn ((rotate1 ^^ n) ts) (((snd \<circ> rt_thread_yield) ^^ n) k)"
    by (induction n) (simp_all add: assms yield_turn)
  have "ts \<noteq> []" using assms by (simp add: in_turn_def)
  with turn show ?thesis
    by (simp add: in_turn_def hd_rotate_conv_nth rotate_def [symmetric])
qed

text \<open>The clock interrupt that ends a time slice does what \<open>rt_thread_yield\<close> does.\<close>

lemma tick_ends_slice:
  assumes "rt_current_thread k = Some t"
  shows "rt_tick_increase k =
    (if remaining_tick k t = 1 then snd (rt_thread_yield (k\<lparr>rt_tick := rt_tick k + 1\<rparr>))
     else k\<lparr>rt_tick := rt_tick k + 1, remaining_tick := (remaining_tick k)(t := remaining_tick k t - 1)\<rparr>)"
  using assms by (simp add: rt_tick_increase_def rt_thread_yield_def)


section \<open>Threads that end\<close>

lemma enqueue_rings:
  assumes k: "sched_ok k L" and t: "stat k t = RT_THREAD_RUNNING"
  shows "rings (tlist (rt_thread_defunct_enqueue t k)) (L(Defunct_list := t # L Defunct_list))"
  using rings_push [OF lists_okD(1) [OF sched_okD(1) [OF k]], of t Defunct_list] not_listed [OF k] t
  by (simp add: rt_thread_defunct_enqueue_def)

text \<open>Undisturbed, a thread leaves for ever: it is closed, in the list of dead threads, and in no other.\<close>

lemma thread_exit_ok:
  assumes k: "sched_ok k L" and t: "rt_current_thread k = Some t" "stat k t = RT_THREAD_RUNNING"
  obtains L' where "sched_ok (thread_exit k) L'" "L' Defunct_list = t # L Defunct_list" "\<And>s. L' (Suspend_list s) = L (Suspend_list s)"
proof -
  let ?e = "rt_thread_defunct_enqueue t k"
  let ?k = "?e\<lparr>thread_timer := (thread_timer ?e)(t := None), stat := (stat ?e)(t := RT_THREAD_CLOSE), yield := (yield ?e)(t := False)\<rparr>"
  let ?L = "L(Defunct_list := t # L Defunct_list)"
  have e: "stat ?e = stat k" "current_priority ?e = current_priority k" "rt_current_thread ?e = rt_current_thread k"
    "rt_thread_ready_priority_group ?e = rt_thread_ready_priority_group k"
    by (simp_all add: rt_thread_defunct_enqueue_def)
  have out: "t \<notin> set (L l)" for l using not_listed [OF k] t(2) by simp
  have "lists_ok ?k ?L"
    unfolding lists_ok_def using enqueue_rings [OF k t(2)] lists_okD(2,5,6) [OF sched_okD(1) [OF k]]
      lists_okD(3,4) [OF sched_okD(1) [OF k]] out t(2) by (simp add: e)
  moreover have "stat k v \<noteq> RT_THREAD_RUNNING" if "v \<noteq> t" for v using sched_okD(2) [OF k, of v] t(1) that by auto
  ultimately have "sched_ok ?k ?L" using t(1) by (simp add: sched_ok_def e)
  then show ?thesis
    by (rule schedule_ok [where c = t]) (use t in \<open>auto simp: e thread_exit_def thread_exit_close_def intro: that\<close>)
qed

text \<open>
  The list of dead threads when its first entry is also in another list: taking the entry out does not take it
  out of this one.
\<close>

definition stuck :: "nat \<Rightarrow> kernel \<Rightarrow> bool" where
  "stuck t k \<longleftrightarrow> nxt (tlist k) (Head Defunct_list) = Node t \<and> prv (tlist k) (Node t) \<noteq> Head Defunct_list"

lemma stuck_dequeue:
  assumes "stuck t k"
  shows "fst (rt_thread_defunct_dequeue k) = Some t" and "stuck t (snd (rt_thread_defunct_dequeue k))"
  using assms by (auto simp: stuck_def rt_thread_defunct_dequeue_def rt_list_remove_def Let_def)

lemma stuck_for_ever: "stuck t k \<Longrightarrow> stuck t (((snd \<circ> rt_thread_defunct_dequeue) ^^ n) k)"
  by (induction n) (simp_all add: stuck_dequeue(2))

lemma stuck_no_rings: "stuck t k \<Longrightarrow> \<not> rings (tlist k) L"
  using rings_ring [of "tlist k" L Defunct_list] by (cases "L Defunct_list") (auto simp: stuck_def ring_def)

lemma ring_members:
  assumes "ring h l ns" and "n \<in> set (l # ns)"
  shows "prv h n \<in> set (l # ns)"
proof (cases "n = l")
  case True
  with assms show ?thesis
    by (cases ns rule: rev_cases) (auto simp: ring_def linked_split [of h "l # _" _ l "[]", simplified])
next
  case False
  with assms(2) obtain xs ys where "ns = xs @ n # ys" by (auto dest: split_list)
  with assms(1) neighbours(1) [of h l xs n ys] show ?thesis by auto
qed

lemma stuck_moves:
  fixes h :: "(tlist_head, nat) lnode links"
  assumes "nxt h (Head Defunct_list) = Node t"
  shows "prv h (Head (Ready_list q)) \<noteq> Head Defunct_list \<Longrightarrow> h' = rt_list_insert_before (Head (Ready_list q)) (Node t) h \<Longrightarrow>
      nxt h' (Head Defunct_list) = Node t \<and> prv h' (Node t) \<noteq> Head Defunct_list \<and> (u \<noteq> t \<longrightarrow> prv h' (Node u) = prv h (Node u))"
    and "h' = rt_list_insert_after (Head (Ready_list q)) (Node t) h \<Longrightarrow>
      nxt h' (Head Defunct_list) = Node t \<and> prv h' (Node t) \<noteq> Head Defunct_list \<and>
      (u \<noteq> t \<longrightarrow> prv h' (Node u) = Node t \<or> prv h' (Node u) = prv h (Node u))"
    and "prv h (Node t) \<noteq> Head Defunct_list \<Longrightarrow> prv h (Node u) \<noteq> Head Defunct_list \<Longrightarrow> u \<noteq> t \<Longrightarrow> h' = rt_list_remove (Node u) h \<Longrightarrow>
      nxt h' (Head Defunct_list) = Node t \<and> prv h' (Node t) \<noteq> Head Defunct_list"
  using assms by (simp_all add: rt_list_insert_before_def rt_list_insert_after_def rt_list_remove_def Let_def)

lemma preempted_exit_stuck:
  assumes k: "sched_ok k L" and t: "rt_current_thread k = Some t" "stat k t = RT_THREAD_RUNNING" and on: "rt_scheduler_lock_nest k = 0"
    and u: "stat k u = RT_THREAD_READY" "\<not> goes_on t (current_priority k u) k"
  shows "stuck t (rt_schedule (rt_thread_defunct_enqueue t k))"
proof -
  let ?e = "rt_thread_defunct_enqueue t k"
  let ?L = "L(Defunct_list := t # L Defunct_list)"
  have h1: "rings (tlist ?e) ?L" by (rule enqueue_rings [OF k t(2)])
  have e: "stat ?e = stat k" "current_priority ?e = current_priority k" "rt_current_thread ?e = rt_current_thread k"
    "rt_thread_ready_priority_group ?e = rt_thread_ready_priority_group k" "rt_scheduler_lock_nest ?e = rt_scheduler_lock_nest k"
    "yield ?e = yield k"
    by (simp_all add: rt_thread_defunct_enqueue_def)
  obtain to p where
    h: "highest_priority_thread k = (to, p)" "L (Ready_list p) \<noteq> []" "to = hd (L (Ready_list p))"
      "stat k to = RT_THREAD_READY" "current_priority k to = p" "\<And>t. stat k t = RT_THREAD_READY \<Longrightarrow> p \<le> current_priority k t"
      "rt_thread_ready_priority_group k \<noteq> 0" by (rule highest_thread [OF sched_okD(1) [OF k] u(1)]) blast
  have p: "p = rt_ffs (rt_thread_ready_priority_group k) - 1" using h(1) by (simp add: highest_priority_thread_def Let_def)
  let ?R = "Head (Ready_list (current_priority k t))"
  let ?h2 = "if yield k t then rt_list_insert_before ?R (Node t) (tlist ?e) else rt_list_insert_after ?R (Node t) (tlist ?e)"
  have "highest_priority_thread ?e = (to, p)"
    using rings_first [OF h1, of "Ready_list p"] h(2,3) by (simp add: highest_priority_thread_def Let_def e) (simp add: p)
  moreover have not: "\<not> goes_on t p k" using u h(6) [of u] by (auto simp: goes_on_def)
  moreover have ne: "to \<noteq> t" using h(4) t(2) by auto
  ultimately have sch: "tlist (rt_schedule ?e) = rt_list_remove (Node to) ?h2"
    using t on h(7) by (auto simp: rt_schedule_def e Let_def goes_on_def rt_schedule_remove_thread_def rt_schedule_insert_thread_def)
  have d: "nxt (tlist ?e) (Head Defunct_list) = Node t" using rings_first [OF h1, of Defunct_list] by simp
  have r: "prv (tlist ?e) (Head (Ready_list q)) \<noteq> Head Defunct_list" for q
    using ring_members [OF rings_ring [OF h1, of "Ready_list q"], of "Head (Ready_list q)"] by auto
  have m: "prv (tlist ?e) (Node to) \<noteq> Head Defunct_list"
    using ring_members [OF rings_ring [OF h1, of "Ready_list p"], of "Node to"] h(2,3) by auto
  have "nxt ?h2 (Head Defunct_list) = Node t" "prv ?h2 (Node t) \<noteq> Head Defunct_list" "prv ?h2 (Node to) \<noteq> Head Defunct_list"
    using stuck_moves(1) [OF d r refl, of "current_priority k t" to] stuck_moves(2) [OF d refl, of "current_priority k t" to] ne m
    by auto
  from stuck_moves(3) [OF this ne refl] show ?thesis unfolding stuck_def sch .
qed

text \<open>
  C37: once the idle thread is initialised, a thread that ends can be lost between the two halves of
  \<^verbatim>\<open>_thread_exit\<close>.  It enters the list of dead threads while it still counts as running; if an interrupt makes a more urgent thread ready at that point,
  or ends its time slice, the scheduler puts the same list node into the ready list.  The lists of the kernel
  are then no longer lists, and the idle thread's loop gets the same dead thread each time it asks for the next one.
\<close>

theorem preempted_exit_breaks_lists:
  assumes "sched_ok k L" and "rt_current_thread k = Some t" and "stat k t = RT_THREAD_RUNNING" and "rt_scheduler_lock_nest k = 0"
    and "stat k u = RT_THREAD_READY" and "current_priority k u < current_priority k t"
  shows "(\<nexists>L'. rings (tlist (rt_schedule (rt_thread_defunct_enqueue t k))) L') \<and>
    (\<forall>n. fst (rt_thread_defunct_dequeue (((snd \<circ> rt_thread_defunct_dequeue) ^^ n)
      (rt_schedule (rt_thread_defunct_enqueue t k)))) = Some t)"
  using preempted_exit_stuck [OF assms(1-5)] assms(6) stuck_no_rings stuck_dequeue(1) [OF stuck_for_ever]
  by (simp add: goes_on_def)


section \<open>Starting\<close>

text \<open>The memory at reset: no lists, no ready threads; \<open>st\<close> and \<open>prio\<close> are what \<^verbatim>\<open>_thread_init\<close> sets.\<close>

definition reset :: "(nat \<Rightarrow> thread_stat) \<Rightarrow> (nat \<Rightarrow> nat) \<Rightarrow> kernel" where
  "reset st prio =
     \<lparr>tlist = unlinked, stat = st, yield = (\<lambda>_. False), errno = (\<lambda>_. RT_EOK), current_priority = prio,
      thread_timer = (\<lambda>_. None), init_tick = (\<lambda>_. 10), remaining_tick = (\<lambda>_. 10), rt_tick = 0, rt_current_thread = None,
      rt_current_priority = 0, rt_thread_ready_priority_group = 0, rt_scheduler_lock_nest = 0,
      sem_value = (\<lambda>_. 0), object_flag = (\<lambda>_. RT_IPC_FLAG_FIFO), kernel_assert = False\<rparr>"

lemma scheduler_init_ok:
  assumes "\<And>t. st t = RT_THREAD_INIT \<or> is_suspended (st t)" and "\<And>t. prio t < RT_THREAD_PRIORITY_MAX"
  shows "rt_system_scheduler_init (reset st prio) = reset st prio" and "sched_ok (reset st prio) (\<lambda>_. [])"
proof -
  show "rt_system_scheduler_init (reset st prio) = reset st prio"
    by (simp add: rt_system_scheduler_init_def reset_def)
  have "st t \<noteq> RT_THREAD_READY \<and> st t \<noteq> RT_THREAD_RUNNING" for t using assms(1) [of t] suspended_stats by force
  with assms(2) show "sched_ok (reset st prio) (\<lambda>_. [])"
    by (simp add: sched_ok_def lists_ok_def reset_def rings_unlinked)
qed

lemma startup_first:
  assumes k: "sched_ok k L" and t: "stat k t = RT_THREAD_INIT" and c: "rt_current_thread k = None"
  shows "sched_ok (snd (rt_thread_startup t k)) (L(Ready_list (current_priority k t) := t # L (Ready_list (current_priority k t))))"
    and "stat (snd (rt_thread_startup t k)) = (stat k)(t := RT_THREAD_READY)"
    and "rt_current_thread (snd (rt_thread_startup t k)) = None"
    and "current_priority (snd (rt_thread_startup t k)) = current_priority k"
    and "rt_scheduler_lock_nest (snd (rt_thread_startup t k)) = rt_scheduler_lock_nest k"
    and "yield (snd (rt_thread_startup t k)) = (yield k)(t := False)"
    and "thread_timer (snd (rt_thread_startup t k)) = (thread_timer k)(t := None)"
    and "kernel_assert (snd (rt_thread_startup t k)) = kernel_assert k"
proof -
  let ?k = "k\<lparr>stat := (stat k)(t := RT_THREAD_SUSPEND_INTERRUPTIBLE), yield := (yield k)(t := False)\<rparr>"
  have out: "t \<notin> set (L l)" for l using not_listed [OF k] t by simp
  have "lists_ok (k\<lparr>stat := (stat k)(t := RT_THREAD_SUSPEND_INTERRUPTIBLE)\<rparr>) L"
    using sched_okD(1) [OF k] out t unfolding lists_ok_def by simp
  then have "sched_ok ?k L" using sched_ok_stat [OF k] by simp
  then obtain k' where k': "rt_thread_resume t ?k = (RT_EOK, k')" "sched_ok k' (woken t ?k L)"
    "stat k' = (stat ?k)(t := if rt_current_thread ?k = Some t then RT_THREAD_RUNNING else RT_THREAD_READY)"
    "current_priority k' = current_priority ?k" "rt_current_thread k' = rt_current_thread ?k"
    "rt_scheduler_lock_nest k' = rt_scheduler_lock_nest ?k" "thread_timer k' = (thread_timer ?k)(t := None)"
    "kernel_assert k' = kernel_assert ?k"
    by (rule resume_suspended [of _ _ t]) simp_all
  have "(\<lambda>l. removeAll t (L l)) = L" using out by (simp add: removeAll_id)
  then have L: "woken t ?k L = L(Ready_list (current_priority k t) := t # L (Ready_list (current_priority k t)))"
    by (simp add: woken_def insert_lists_def c Let_def)
  have st: "rt_thread_startup t k = (RT_EOK, k')"
    using k' by (simp add: rt_thread_startup_def t Let_def c)
  have "yield k' = (yield k)(t := False)" using k'(1) by (auto simp: rt_thread_resume_def kernel_frame)
  then show "yield (snd (rt_thread_startup t k)) = (yield k)(t := False)" by (simp add: st)
  show "sched_ok (snd (rt_thread_startup t k)) (L(Ready_list (current_priority k t) := t # L (Ready_list (current_priority k t))))"
    "stat (snd (rt_thread_startup t k)) = (stat k)(t := RT_THREAD_READY)"
    "rt_current_thread (snd (rt_thread_startup t k)) = None"
    "current_priority (snd (rt_thread_startup t k)) = current_priority k"
    "rt_scheduler_lock_nest (snd (rt_thread_startup t k)) = rt_scheduler_lock_nest k"
    "thread_timer (snd (rt_thread_startup t k)) = (thread_timer k)(t := None)"
    "kernel_assert (snd (rt_thread_startup t k)) = kernel_assert k"
    using k' by (simp_all add: st L c)
qed

lemma scheduler_start_ok:
  assumes k: "sched_ok k L" and u: "stat k u = RT_THREAD_READY"
    and top: "L (Ready_list (current_priority k u)) = u # us"
    and low: "\<And>t. stat k t = RT_THREAD_READY \<Longrightarrow> current_priority k u \<le> current_priority k t"
    and none: "rt_current_thread k = None"
  shows "sched_ok (rt_system_scheduler_start k) (\<lambda>l. removeAll u (L l))"
    and "rt_current_thread (rt_system_scheduler_start k) = Some u"
    and "stat (rt_system_scheduler_start k) = (stat k)(u := RT_THREAD_RUNNING)"
    and "current_priority (rt_system_scheduler_start k) = current_priority k"
    and "yield (rt_system_scheduler_start k) = yield k"
    and "rt_scheduler_lock_nest (rt_system_scheduler_start k) = rt_scheduler_lock_nest k"
    and "thread_timer (rt_system_scheduler_start k) = thread_timer k"
    and "kernel_assert (rt_system_scheduler_start k) = kernel_assert k"
proof -
  obtain to p where
    h: "highest_priority_thread k = (to, p)" "L (Ready_list p) \<noteq> []" "to = hd (L (Ready_list p))"
      "stat k to = RT_THREAD_READY" "current_priority k to = p" "\<And>t. stat k t = RT_THREAD_READY \<Longrightarrow> p \<le> current_priority k t"
      "rt_thread_ready_priority_group k \<noteq> 0" by (rule highest_thread [OF sched_okD(1) [OF k] u]) blast
  have "p = current_priority k u" using h(4,5) h(6) [OF u] low [of to] by simp
  then have to: "to = u" using h(3) top by simp
  let ?k = "k\<lparr>rt_current_thread := Some u\<rparr>"
  have "lists_ok ?k L" using sched_okD(1) [OF k] by (simp add: lists_ok_def)
  from lists_ok_remove [OF this, of RT_THREAD_RUNNING u]
  have "lists_ok (rt_system_scheduler_start k) (\<lambda>l. removeAll u (L l))"
    by (simp add: rt_system_scheduler_start_def h(1) to kernel_frame)
  moreover show cur: "rt_current_thread (rt_system_scheduler_start k) = Some u"
    and st: "stat (rt_system_scheduler_start k) = (stat k)(u := RT_THREAD_RUNNING)"
    and "current_priority (rt_system_scheduler_start k) = current_priority k"
    and "yield (rt_system_scheduler_start k) = yield k"
    and "rt_scheduler_lock_nest (rt_system_scheduler_start k) = rt_scheduler_lock_nest k"
    and "thread_timer (rt_system_scheduler_start k) = thread_timer k"
    and "kernel_assert (rt_system_scheduler_start k) = kernel_assert k"
    by (simp_all add: rt_system_scheduler_start_def h(1) to kernel_frame)
  moreover have "stat k t \<noteq> RT_THREAD_RUNNING" for t using sched_okD(2) [OF k, of t] none by auto
  ultimately show "sched_ok (rt_system_scheduler_start k) (\<lambda>l. removeAll u (L l))"
    by (simp add: sched_ok_def)
qed


section \<open>A kernel that runs\<close>

text \<open>
  An idle thread, two threads of priority 10, of which the second is running, and a suspended thread of
  priority 5, brought up by the kernel's own operations.
\<close>

definition demo_start :: kernel where
  "demo_start =
     rt_system_scheduler_init
       (reset (\<lambda>t. if t = 3 then RT_THREAD_SUSPEND_UNINTERRUPTIBLE else RT_THREAD_INIT)
         (\<lambda>t. if t = 0 then 31 else if t = 3 then 5 else 10))"

definition demo :: kernel where
  "demo = rt_system_scheduler_start
     (snd (rt_thread_startup 2 (snd (rt_thread_startup 1 (snd (rt_thread_startup 0 demo_start))))))"

definition demo_lists :: "tlist_head \<Rightarrow> nat list" where
  "demo_lists = (\<lambda>_. [])(Ready_list 31 := [0], Ready_list 10 := [1])"

lemma demo_ok:
  "sched_ok demo demo_lists" "rt_current_thread demo = Some 2" "rt_scheduler_lock_nest demo = 0"
  "stat demo = (\<lambda>t. if t = 3 then RT_THREAD_SUSPEND_UNINTERRUPTIBLE else RT_THREAD_INIT)
     (0 := RT_THREAD_READY, 1 := RT_THREAD_READY, 2 := RT_THREAD_RUNNING)"
  "current_priority demo = (\<lambda>t. if t = 0 then 31 else if t = 3 then 5 else 10)"
  "yield demo = (\<lambda>_. False)" "thread_timer demo = (\<lambda>_. None)" "kernel_assert demo = False"
proof -
  let ?st = "\<lambda>t::nat. if t = 3 then RT_THREAD_SUSPEND_UNINTERRUPTIBLE else RT_THREAD_INIT"
  let ?pr = "\<lambda>t::nat. if t = 0 then 31 else if t = 3 then 5 else (10::nat)"
  have i: "demo_start = reset ?st ?pr" "sched_ok demo_start (\<lambda>_. [])"
    using scheduler_init_ok [of ?st ?pr] by (simp_all add: demo_start_def RT_THREAD_PRIORITY_MAX_def)
  define k0 where "k0 = snd (rt_thread_startup 0 demo_start)"
  define k1 where "k1 = snd (rt_thread_startup 1 k0)"
  define k2 where "k2 = snd (rt_thread_startup 2 k1)"
  have st: "stat demo_start = ?st" "current_priority demo_start = ?pr" "rt_current_thread demo_start = None"
    "rt_scheduler_lock_nest demo_start = 0" "yield demo_start = (\<lambda>_. False)" "thread_timer demo_start = (\<lambda>_. None)"
    "kernel_assert demo_start = False" by (simp_all add: i(1) reset_def)
  have 0: "sched_ok k0 ((\<lambda>_. [])(Ready_list 31 := [0]))" "stat k0 = ?st(0 := RT_THREAD_READY)" "rt_current_thread k0 = None"
    "current_priority k0 = ?pr" "rt_scheduler_lock_nest k0 = 0" "yield k0 = (\<lambda>_. False)"
    "thread_timer k0 = (\<lambda>_. None)" "kernel_assert k0 = False"
    using startup_first [OF i(2), of 0] unfolding k0_def st by (simp_all add: fun_upd_idem)
  have 1: "sched_ok k1 ((\<lambda>_. [])(Ready_list 31 := [0], Ready_list 10 := [1]))"
    "stat k1 = ?st(0 := RT_THREAD_READY, 1 := RT_THREAD_READY)" "rt_current_thread k1 = None"
    "current_priority k1 = ?pr" "rt_scheduler_lock_nest k1 = 0" "yield k1 = (\<lambda>_. False)"
    "thread_timer k1 = (\<lambda>_. None)" "kernel_assert k1 = False"
    using startup_first [OF 0(1), of 1] unfolding k1_def 0 by (simp_all add: fun_upd_idem)
  have 2: "sched_ok k2 ((\<lambda>_. [])(Ready_list 31 := [0], Ready_list 10 := [2, 1]))"
    "stat k2 = ?st(0 := RT_THREAD_READY, 1 := RT_THREAD_READY, 2 := RT_THREAD_READY)" "rt_current_thread k2 = None"
    "current_priority k2 = ?pr" "rt_scheduler_lock_nest k2 = 0" "yield k2 = (\<lambda>_. False)"
    "thread_timer k2 = (\<lambda>_. None)" "kernel_assert k2 = False"
    using startup_first [OF 1(1), of 2] unfolding k2_def 1 by (simp_all add: fun_upd_idem)
  have d: "demo = rt_system_scheduler_start k2" by (simp only: demo_def k0_def k1_def k2_def)
  have low: "10 \<le> current_priority k2 t" if "stat k2 t = RT_THREAD_READY" for t
    using that by (auto simp: 2(2,4) split: if_splits)
  have "stat k2 2 = RT_THREAD_READY" "current_priority k2 2 = 10" by (simp_all add: 2(2,4))
  note start = scheduler_start_ok [OF 2(1) this(1), of "[1]", unfolded this(2), simplified, OF low 2(3)]
  have "(\<lambda>l. removeAll 2 (((\<lambda>_. [])(Ready_list 31 := [0], Ready_list 10 := [2, 1])) l)) = demo_lists"
    by (auto simp: demo_lists_def)
  with start(1) show "sched_ok demo demo_lists" by (simp add: d)
  show "rt_current_thread demo = Some 2" "rt_scheduler_lock_nest demo = 0" "yield demo = (\<lambda>_. False)" "current_priority demo = ?pr"
    "thread_timer demo = (\<lambda>_. None)" "kernel_assert demo = False"
    using start(2,4-8) by (simp_all add: d 2)
  show "stat demo = ?st(0 := RT_THREAD_READY, 1 := RT_THREAD_READY, 2 := RT_THREAD_RUNNING)"
    using start(3) by (simp add: d 2)
qed

lemma demo_in_turn: "in_turn [2, 1] demo"
  unfolding in_turn_def using demo_ok
  by (intro conjI exI [of _ demo_lists]) (auto simp: demo_lists_def split: if_splits)

lemma demo_woken:
  obtains k L where "rt_thread_resume 3 demo = (RT_EOK, k)" "sched_ok k L" "stat k 3 = RT_THREAD_READY" "stat k 2 = RT_THREAD_RUNNING"
    "current_priority k 3 = 5" "current_priority k 2 = 10" "rt_current_thread k = Some 2" "rt_scheduler_lock_nest k = 0"
  by (rule resume_suspended [OF demo_ok(1), of 3]) (auto simp: demo_ok)

lemma most_urgent_runs_witness:
  "\<exists>r L'. sched_ok (rt_schedule demo) L' \<and> rt_current_thread (rt_schedule demo) = Some r \<and>
    stat (rt_schedule demo) r = RT_THREAD_RUNNING \<and>
    (\<forall>t. stat (rt_schedule demo) t = RT_THREAD_READY \<longrightarrow>
      current_priority (rt_schedule demo) r \<le> current_priority (rt_schedule demo) t)"
  by (rule most_urgent_runs [OF demo_ok(1,2,3)]) (simp add: demo_ok)

lemma round_robin_witness: "rt_current_thread (((snd \<circ> rt_thread_yield) ^^ 3) demo) = Some 1"
  by (subst round_robin [OF demo_in_turn]) code_simp

lemma preempted_exit_breaks_lists_witness:
  "\<exists>k. k = snd (rt_thread_resume 3 demo) \<and> (\<nexists>L'. rings (tlist (rt_schedule (rt_thread_defunct_enqueue 2 k))) L') \<and>
    (\<forall>n. fst (rt_thread_defunct_dequeue (((snd \<circ> rt_thread_defunct_dequeue) ^^ n)
      (rt_schedule (rt_thread_defunct_enqueue 2 k)))) = Some 2)"
proof -
  obtain k L where "rt_thread_resume 3 demo = (RT_EOK, k)" "sched_ok k L" "stat k 3 = RT_THREAD_READY" "stat k 2 = RT_THREAD_RUNNING"
    "current_priority k 3 = 5" "current_priority k 2 = 10" "rt_current_thread k = Some 2" "rt_scheduler_lock_nest k = 0"
    by (rule demo_woken)
  with preempted_exit_breaks_lists [of k L 2 3] show ?thesis by simp
qed

end
