(* ===== verification/Rt_Sem.thy ===== *)
theory Rt_Sem
  imports Rt_Kernel
begin

text \<open>
  Semaphores and the lists of threads that wait for them (\<^verbatim>\<open>src/rt-thread/src/ipc.c\<close>), on the kernel
  of \<open>Rt_Kernel\<close>.  The take of a thread has two parts: up to the call of \<open>rt_schedule\<close>, and from where the
  thread runs again on; anything may happen in between.  \<open>sem_step\<close> is the machine of all threads, interrupts and
  timers that use semaphores.
\<close>

section \<open>Lists of waiting threads\<close>

text \<open>The loop that looks for the first waiting thread of a lower priority, or comes back to the head.\<close>

partial_function (option) find_place ::
    "kernel \<Rightarrow> nat \<Rightarrow> (tlist_head, nat) lnode \<Rightarrow> (tlist_head, nat) lnode \<Rightarrow> (tlist_head, nat) lnode option" where
  "find_place k t l n =
     (if n = l then Some l
      else if current_priority k t < current_priority k (thread_of n) then Some n
      else find_place k t l (nxt (tlist k) n))"

definition ipc_list_suspend ::
    "nat \<Rightarrow> nat \<Rightarrow> ipc_flag \<Rightarrow> suspend_flag \<Rightarrow> kernel \<Rightarrow> (int \<times> kernel) option" where
  "ipc_list_suspend s t flag sflag k =
     (let l = Head (Suspend_list s);
          (ret, k) = (if \<not> is_suspended (stat k t) then rt_thread_suspend_with_flag t sflag k else (RT_EOK, k))
      in if ret \<noteq> RT_EOK then Some (ret, k)
         else
           (case flag of
              RT_IPC_FLAG_FIFO \<Rightarrow> Some (RT_EOK, k\<lparr>tlist := rt_list_insert_before l (Node t) (tlist k)\<rparr>)
            | RT_IPC_FLAG_PRIO \<Rightarrow>
                map_option (\<lambda>n. (RT_EOK, k\<lparr>tlist := rt_list_insert_before n (Node t) (tlist k)\<rparr>))
                  (find_place k t l (nxt (tlist k) l))))"

definition ipc_list_resume :: "nat \<Rightarrow> kernel \<Rightarrow> kernel" where
  "ipc_list_resume s k =
     (let t = thread_of (nxt (tlist k) (Head (Suspend_list s)))
      in snd (rt_thread_resume t (k\<lparr>errno := (errno k)(t := RT_EOK)\<rparr>)))"

partial_function (option) ipc_list_resume_all :: "nat \<Rightarrow> kernel \<Rightarrow> kernel option" where
  "ipc_list_resume_all s k =
     (if \<not> rt_list_isempty (Head (Suspend_list s)) (tlist k) then
        let t = thread_of (nxt (tlist k) (Head (Suspend_list s)))
        in ipc_list_resume_all s (snd (rt_thread_resume t (k\<lparr>errno := (errno k)(t := - RT_ERROR)\<rparr>)))
      else Some k)"

section \<open>Semaphores\<close>

definition RT_SEM_VALUE_MAX :: u16 where "RT_SEM_VALUE_MAX = 0xFFFF"

definition rt_sem_init :: "nat \<Rightarrow> nat \<Rightarrow> ipc_flag \<Rightarrow> kernel \<Rightarrow> int \<times> kernel" where
  "rt_sem_init s value flag k =
     (let k = k_assert (value < 0x10000) k
      in (RT_EOK, k\<lparr>tlist := rt_list_init (Head (Suspend_list s)) (tlist k),
                    sem_value := (sem_value k)(s := of_nat value), object_flag := (object_flag k)(s := flag)\<rparr>))"

text \<open>\<open>obj\<close> is the object the allocator hands out, if it has one.\<close>

definition rt_sem_create :: "nat option \<Rightarrow> nat \<Rightarrow> ipc_flag \<Rightarrow> kernel \<Rightarrow> nat option \<times> kernel" where
  "rt_sem_create obj value flag k =
     (let k = k_assert (value < 0x10000) k
      in case obj of
           None \<Rightarrow> (None, k)
         | Some s \<Rightarrow>
             (Some s, k\<lparr>tlist := rt_list_init (Head (Suspend_list s)) (tlist k),
                        sem_value := (sem_value k)(s := of_nat value), object_flag := (object_flag k)(s := flag)\<rparr>))"

definition rt_sem_detach :: "nat \<Rightarrow> kernel \<Rightarrow> (int \<times> kernel) option" where
  "rt_sem_detach s k = map_option (\<lambda>k. (RT_EOK, k)) (ipc_list_resume_all s k)"

text \<open>The same for a semaphore on the heap, whose memory is then freed.\<close>

definition rt_sem_delete :: "nat \<Rightarrow> kernel \<Rightarrow> (int \<times> kernel) option" where
  "rt_sem_delete s k = map_option (\<lambda>k. (RT_EOK, k)) (ipc_list_resume_all s k)"

text \<open>A take by thread \<open>t\<close> up to where it returns or calls \<open>rt_schedule\<close>.\<close>

datatype take_result = Take_returns int | Take_schedules

definition sem_take :: "nat \<Rightarrow> int \<Rightarrow> suspend_flag \<Rightarrow> nat \<Rightarrow> kernel \<Rightarrow> (take_result \<times> kernel) option" where
  "sem_take s timeout sflag t k =
     (if sem_value k s > 0 then Some (Take_returns RT_EOK, k\<lparr>sem_value := (sem_value k)(s := sem_value k s - 1)\<rparr>)
      else if timeout = 0 then Some (Take_returns (- RT_ETIMEOUT), k)
      else
        map_option (\<lambda>(ret, k).
            if ret \<noteq> RT_EOK then (Take_returns ret, k)
            else (Take_schedules, if timeout > 0 then k\<lparr>thread_timer := (thread_timer k)(t := Some timeout)\<rparr> else k))
          (ipc_list_suspend s t (object_flag k s) sflag (k\<lparr>errno := (errno k)(t := - RT_EINTR)\<rparr>)))"

text \<open>The calls: up to the return, or to the switch to another thread.\<close>

definition take_switch :: "take_result \<times> kernel \<Rightarrow> take_result \<times> kernel" where
  "take_switch = (\<lambda>(r, k). (r, if r = Take_schedules then rt_schedule k else k))"

definition rt_sem_take :: "nat \<Rightarrow> int \<Rightarrow> nat \<Rightarrow> kernel \<Rightarrow> (take_result \<times> kernel) option" where
  "rt_sem_take s time t k = map_option take_switch (sem_take s time RT_UNINTERRUPTIBLE t k)"

definition rt_sem_take_interruptible :: "nat \<Rightarrow> int \<Rightarrow> nat \<Rightarrow> kernel \<Rightarrow> (take_result \<times> kernel) option" where
  "rt_sem_take_interruptible s time t k = map_option take_switch (sem_take s time RT_INTERRUPTIBLE t k)"

definition rt_sem_take_killable :: "nat \<Rightarrow> int \<Rightarrow> nat \<Rightarrow> kernel \<Rightarrow> (take_result \<times> kernel) option" where
  "rt_sem_take_killable s time t k = map_option take_switch (sem_take s time RT_KILLABLE t k)"

definition rt_sem_trytake :: "nat \<Rightarrow> nat \<Rightarrow> kernel \<Rightarrow> (take_result \<times> kernel) option" where
  "rt_sem_trytake s = rt_sem_take s 0"

text \<open>What the take returns when the thread runs again.\<close>

definition sem_take_resumed :: "nat \<Rightarrow> kernel \<Rightarrow> int" where
  "sem_take_resumed t k = (if errno k t \<noteq> RT_EOK then errno k t else RT_EOK)"

text \<open>A release up to its end, or to the call of \<open>rt_schedule\<close> if the second component says so; then the whole call.\<close>

definition sem_release :: "nat \<Rightarrow> kernel \<Rightarrow> int \<times> bool \<times> kernel" where
  "sem_release s k =
     (if \<not> rt_list_isempty (Head (Suspend_list s)) (tlist k) then (RT_EOK, True, ipc_list_resume s k)
      else if sem_value k s < RT_SEM_VALUE_MAX
           then (RT_EOK, False, k\<lparr>sem_value := (sem_value k)(s := sem_value k s + 1)\<rparr>)
           else (- RT_EFULL, False, k))"

definition rt_sem_release :: "nat \<Rightarrow> kernel \<Rightarrow> int \<times> kernel" where
  "rt_sem_release s k = (let (ret, need_schedule, k) = sem_release s k in (ret, if need_schedule then rt_schedule k else k))"

definition RT_IPC_CMD_RESET :: int where "RT_IPC_CMD_RESET = 1"

definition rt_sem_control :: "nat \<Rightarrow> int \<Rightarrow> nat \<Rightarrow> kernel \<Rightarrow> (int \<times> kernel) option" where
  "rt_sem_control s cmd arg k =
     (if cmd = RT_IPC_CMD_RESET then
        map_option (\<lambda>k. (RT_EOK, rt_schedule (k\<lparr>sem_value := (sem_value k)(s := of_nat arg)\<rparr>))) (ipc_list_resume_all s k)
      else Some (- RT_ERROR, k))"

section \<open>The operations, on lists\<close>

text \<open>Where a waiting thread enters: last, or behind the threads that are as urgent.\<close>

fun queue_in :: "ipc_flag \<Rightarrow> (nat \<Rightarrow> nat) \<Rightarrow> nat \<Rightarrow> nat list \<Rightarrow> nat list" where
  "queue_in RT_IPC_FLAG_FIFO prio t ts = ts @ [t]"
| "queue_in RT_IPC_FLAG_PRIO prio t ts =
     takeWhile (\<lambda>u. prio u \<le> prio t) ts @ t # dropWhile (\<lambda>u. prio u \<le> prio t) ts"

lemma set_queue_in [simp]: "set (queue_in flag prio t ts) = insert t (set ts)"
proof (cases flag)
  case RT_IPC_FLAG_PRIO
  have "set (takeWhile P ts) \<union> set (dropWhile P ts) = set ts" for P by (metis set_append takeWhile_dropWhile_id)
  with RT_IPC_FLAG_PRIO show ?thesis by simp
qed simp

lemma find_place_ring:
  assumes "linked (tlist k) (map Node ns @ [Head l])"
  shows "find_place k t (Head l) (hd (map Node ns @ [Head l])) =
    Some (case dropWhile (\<lambda>u. current_priority k u \<le> current_priority k t) ns of [] \<Rightarrow> Head l | u # _ \<Rightarrow> Node u)"
  using assms
proof (induction ns)
  case Nil
  then show ?case by (subst find_place.simps) simp
next
  case (Cons n ns)
  then have "nxt (tlist k) (Node n) = hd (map Node ns @ [Head l])" and "linked (tlist k) (map Node ns @ [Head l])"
    by (cases ns; simp)+
  with Cons.IH show ?case by (subst find_place.simps) (simp add: not_less)
qed

lemma find_place_ok:
  assumes "rings (tlist k) L"
  shows "find_place k t (Head l) (nxt (tlist k) (Head l)) =
    Some (case dropWhile (\<lambda>u. current_priority k u \<le> current_priority k t) (L l) of [] \<Rightarrow> Head l | u # _ \<Rightarrow> Node u)"
proof -
  have "linked (tlist k) (Head l # map Node (L l) @ [Head l])"
    using rings_ring [OF assms, of l] by (simp add: ring_def)
  then have "nxt (tlist k) (Head l) = hd (map Node (L l) @ [Head l])" "linked (tlist k) (map Node (L l) @ [Head l])"
    by (cases "L l"; simp)+
  then show ?thesis using find_place_ring by simp
qed

lemma sched_ok_lists:
  assumes k: "sched_ok k L" and h: "rings h (L(Suspend_list s := ts))" and ts: "\<And>t. t \<in> set ts \<Longrightarrow> is_suspended (stat k t)"
  shows "sched_ok (k\<lparr>tlist := h\<rparr>) (L(Suspend_list s := ts))"
  using k h ts unfolding sched_ok_def lists_ok_def by simp

text \<open>A suspended thread enters the list.\<close>

lemma suspended_enters:
  assumes k: "sched_ok k L" and t: "is_suspended (stat k t)" and out: "\<And>l. t \<notin> set (L l)"
  obtains h where "ipc_list_suspend s t flag sflag k = Some (RT_EOK, k\<lparr>tlist := h\<rparr>)"
    "sched_ok (k\<lparr>tlist := h\<rparr>) (L(Suspend_list s := queue_in flag (current_priority k) t (L (Suspend_list s))))"
proof -
  let ?l = "Suspend_list s" and ?P = "\<lambda>u. current_priority k u \<le> current_priority k t"
  have r: "rings (tlist k) L" by (rule lists_okD(1) [OF sched_okD(1) [OF k]])
  let ?b = "case dropWhile ?P (L ?l) of [] \<Rightarrow> Head ?l | u # _ \<Rightarrow> Node u"
  let ?h = "case flag of RT_IPC_FLAG_FIFO \<Rightarrow> rt_list_insert_before (Head ?l) (Node t) (tlist k)
    | RT_IPC_FLAG_PRIO \<Rightarrow> rt_list_insert_before ?b (Node t) (tlist k)"
  have "rings ?h (L(?l := queue_in flag (current_priority k) t (L ?l)))"
  proof (cases flag)
    case RT_IPC_FLAG_FIFO
    then show ?thesis using rings_append [OF r out] by simp
  next
    case RT_IPC_FLAG_PRIO
    have "L ?l = takeWhile ?P (L ?l) @ dropWhile ?P (L ?l)" by simp
    from rings_insert_before [OF r this out refl] RT_IPC_FLAG_PRIO show ?thesis by simp
  qed
  moreover have "is_suspended (stat k u)" if "u \<in> set (queue_in flag (current_priority k) t (L ?l))" for u
    using that t lists_okD(3) [OF sched_okD(1) [OF k], of u s] by auto
  ultimately have ok: "sched_ok (k\<lparr>tlist := ?h\<rparr>) (L(?l := queue_in flag (current_priority k) t (L ?l)))"
    using sched_ok_lists [OF k] by blast
  have "ipc_list_suspend s t flag sflag k = Some (RT_EOK, k\<lparr>tlist := ?h\<rparr>)"
    using find_place_ok [OF r, of t ?l] by (cases flag) (simp_all add: ipc_list_suspend_def t Let_def)
  from that [OF this ok] show ?thesis .
qed

text \<open>A thread that has to wait is suspended and put into the list.\<close>

lemma ipc_list_suspend_ok:
  assumes k: "sched_ok k L" and t: "rt_current_thread k = Some t" "stat k t = RT_THREAD_RUNNING"
  obtains h where "ipc_list_suspend s t flag sflag k =
      Some (RT_EOK, k\<lparr>stat := (stat k)(t := suspend_stat sflag), thread_timer := (thread_timer k)(t := None), tlist := h\<rparr>)"
    "sched_ok (k\<lparr>stat := (stat k)(t := suspend_stat sflag), thread_timer := (thread_timer k)(t := None), tlist := h\<rparr>)
      (L(Suspend_list s := queue_in flag (current_priority k) t (L (Suspend_list s))))"
proof -
  let ?k = "k\<lparr>stat := (stat k)(t := suspend_stat sflag), thread_timer := (thread_timer k)(t := None)\<rparr>"
  note s = suspend_running [OF k t, of sflag]
  have sus: "is_suspended (stat ?k t)" by simp
  have out: "t \<notin> set (L l)" for l using not_listed [OF k] t(2) by simp
  have same: "ipc_list_suspend s t flag sflag k = ipc_list_suspend s t flag sflag ?k"
    using t(2) s(1) by (simp add: ipc_list_suspend_def)
  show ?thesis by (rule suspended_enters [OF s(2) sus out, of s flag sflag]) (use that same in simp)
qed

lemma sem_take_waits:
  assumes k: "sched_ok k L" and t: "rt_current_thread k = Some t" "stat k t = RT_THREAD_RUNNING"
    and s: "sem_value k s = 0" and timeout: "timeout \<noteq> 0"
  obtains k' where "sem_take s timeout sflag t k = Some (Take_schedules, k')"
    "sched_ok k' (L(Suspend_list s := queue_in (object_flag k s) (current_priority k) t (L (Suspend_list s))))"
    "stat k' = (stat k)(t := suspend_stat sflag)" "errno k' = (errno k)(t := - RT_EINTR)"
    "thread_timer k' = (thread_timer k)(t := if timeout > 0 then Some timeout else None)"
    "rt_current_thread k' = rt_current_thread k" "rt_scheduler_lock_nest k' = rt_scheduler_lock_nest k"
    "current_priority k' = current_priority k" "sem_value k' = sem_value k" "object_flag k' = object_flag k"
    "kernel_assert k' = kernel_assert k"
proof -
  let ?k = "k\<lparr>errno := (errno k)(t := - RT_EINTR)\<rparr>"
  have "sched_ok ?k L" using k by simp
  from ipc_list_suspend_ok [OF this, of t s "object_flag k s" sflag] t obtain h where
    h: "ipc_list_suspend s t (object_flag k s) sflag ?k =
      Some (RT_EOK, ?k\<lparr>stat := (stat k)(t := suspend_stat sflag), thread_timer := (thread_timer k)(t := None), tlist := h\<rparr>)"
    "sched_ok (?k\<lparr>stat := (stat k)(t := suspend_stat sflag), thread_timer := (thread_timer k)(t := None), tlist := h\<rparr>)
      (L(Suspend_list s := queue_in (object_flag k s) (current_priority k) t (L (Suspend_list s))))" by auto
  let ?h = "?k\<lparr>stat := (stat k)(t := suspend_stat sflag), thread_timer := (thread_timer k)(t := None), tlist := h\<rparr>"
  have e: "sem_take s timeout sflag t k =
      Some (Take_schedules, if timeout > 0 then ?h\<lparr>thread_timer := (thread_timer ?h)(t := Some timeout)\<rparr> else ?h)"
    using s timeout by (simp add: sem_take_def h(1))
  show ?thesis
  proof (rule that [OF e])
    show "sched_ok (if timeout > 0 then ?h\<lparr>thread_timer := (thread_timer ?h)(t := Some timeout)\<rparr> else ?h)
        (L(Suspend_list s := queue_in (object_flag k s) (current_priority k) t (L (Suspend_list s))))"
      using h(2) by (simp only: sched_ok_fields split: if_split) simp
  qed simp_all
qed

lemma first_waiter:
  assumes "sched_ok k L" and "L (Suspend_list s) = t # ts"
  shows "thread_of (nxt (tlist k) (Head (Suspend_list s))) = t" and "is_suspended (stat k t)"
  using rings_first [OF lists_okD(1) [OF sched_okD(1) [OF assms(1)]], of "Suspend_list s"]
    lists_okD(3) [OF sched_okD(1) [OF assms(1)], of t s] assms(2) by simp_all

lemma removeAll_hd: "sched_ok k L \<Longrightarrow> L l = t # ts \<Longrightarrow> removeAll t (L l) = ts"
  using rings_distinct [OF lists_okD(1) [OF sched_okD(1)], of k L l] by (simp add: removeAll_id)

text \<open>The first waiting thread is resumed.\<close>

lemma resume_first:
  assumes k: "sched_ok k L" and l: "L (Suspend_list s) = t # ts"
  obtains k' where "rt_thread_resume (thread_of (nxt (tlist k) (Head (Suspend_list s)))) (k\<lparr>errno := (errno k)(t := e)\<rparr>) = (RT_EOK, k')"
    "sched_ok k' (woken t k L)"
    "stat k' = (stat k)(t := if rt_current_thread k = Some t then RT_THREAD_RUNNING else RT_THREAD_READY)"
    "thread_timer k' = (thread_timer k)(t := None)" "errno k' = (errno k)(t := e)" "current_priority k' = current_priority k"
    "rt_current_thread k' = rt_current_thread k" "rt_scheduler_lock_nest k' = rt_scheduler_lock_nest k"
    "sem_value k' = sem_value k" "object_flag k' = object_flag k" "kernel_assert k' = kernel_assert k"
proof -
  let ?k = "k\<lparr>errno := (errno k)(t := e)\<rparr>"
  have "sched_ok ?k L" "is_suspended (stat ?k t)" using k first_waiter [OF k l] by simp_all
  from resume_suspended [OF this] obtain k' where "rt_thread_resume t ?k = (RT_EOK, k')" "sched_ok k' (woken t ?k L)"
    "stat k' = (stat ?k)(t := if rt_current_thread ?k = Some t then RT_THREAD_RUNNING else RT_THREAD_READY)"
    "thread_timer k' = (thread_timer ?k)(t := None)" "errno k' = errno ?k" "current_priority k' = current_priority ?k"
    "rt_current_thread k' = rt_current_thread ?k" "rt_scheduler_lock_nest k' = rt_scheduler_lock_nest ?k"
    "sem_value k' = sem_value ?k" "object_flag k' = object_flag ?k" "kernel_assert k' = kernel_assert ?k" .
  then show ?thesis by (intro that [of k']) (simp_all add: first_waiter(1) [OF k l] woken_def)
qed

lemma release_wakes:
  assumes k: "sched_ok k L" and l: "L (Suspend_list s) = t # ts"
  obtains k' where "sem_release s k = (RT_EOK, True, k')" "sched_ok k' (woken t k L)"
    "stat k' = (stat k)(t := if rt_current_thread k = Some t then RT_THREAD_RUNNING else RT_THREAD_READY)"
    "thread_timer k' = (thread_timer k)(t := None)" "errno k' = (errno k)(t := RT_EOK)" "current_priority k' = current_priority k"
    "rt_current_thread k' = rt_current_thread k" "rt_scheduler_lock_nest k' = rt_scheduler_lock_nest k"
    "sem_value k' = sem_value k" "object_flag k' = object_flag k" "kernel_assert k' = kernel_assert k"
proof -
  have "\<not> rt_list_isempty (Head (Suspend_list s)) (tlist k)"
    using rings_isempty [OF lists_okD(1) [OF sched_okD(1) [OF k]]] l by simp
  moreover have "ipc_list_resume s k =
      snd (rt_thread_resume (thread_of (nxt (tlist k) (Head (Suspend_list s)))) (k\<lparr>errno := (errno k)(t := RT_EOK)\<rparr>))"
    by (simp add: ipc_list_resume_def first_waiter(1) [OF k l])
  ultimately show ?thesis
    by (rule_tac resume_first [OF k l, of RT_EOK]) (auto simp: sem_release_def intro: that)
qed

lemma release_counts:
  assumes k: "sched_ok k L" and l: "L (Suspend_list s) = []"
  shows "sem_release s k = (if sem_value k s < RT_SEM_VALUE_MAX
      then (RT_EOK, False, k\<lparr>sem_value := (sem_value k)(s := sem_value k s + 1)\<rparr>) else (- RT_EFULL, False, k))"
  using rings_isempty [OF lists_okD(1) [OF sched_okD(1) [OF k]]] l by (simp add: sem_release_def)

text \<open>The loop that wakes all waiting threads ends, with the list empty and each of them told so.\<close>

lemma resume_all_ok:
  assumes "sched_ok k L"
  shows "\<exists>k' L'. ipc_list_resume_all s k = Some k' \<and> sched_ok k' L' \<and> L' (Suspend_list s) = [] \<and>
    (\<forall>r. r \<noteq> s \<longrightarrow> L' (Suspend_list r) = L (Suspend_list r)) \<and>
    rt_current_thread k' = rt_current_thread k \<and> rt_scheduler_lock_nest k' = rt_scheduler_lock_nest k \<and>
    current_priority k' = current_priority k \<and> sem_value k' = sem_value k \<and> object_flag k' = object_flag k \<and>
    (\<forall>t. errno k' t = (if t \<in> set (L (Suspend_list s)) then - RT_ERROR else errno k t)) \<and>
    (\<forall>t. stat k' t = (if t \<in> set (L (Suspend_list s))
       then if rt_current_thread k = Some t then RT_THREAD_RUNNING else RT_THREAD_READY else stat k t)) \<and>
    (\<forall>t. thread_timer k' t = (if t \<in> set (L (Suspend_list s)) then None else thread_timer k t))"
  using assms
proof (induction "length (L (Suspend_list s))" arbitrary: k L)
  case 0
  then have "ipc_list_resume_all s k = Some k"
    using rings_isempty [OF lists_okD(1) [OF sched_okD(1) [OF 0(2)]]] by (subst ipc_list_resume_all.simps) simp
  with 0 show ?case by (intro exI [of _ k] exI [of _ L]) simp
next
  case (Suc n)
  then obtain t ts where l: "L (Suspend_list s) = t # ts" by (cases "L (Suspend_list s)") auto
  from resume_first [OF Suc.prems l, of "- RT_ERROR"] obtain k1 where k1:
    "rt_thread_resume (thread_of (nxt (tlist k) (Head (Suspend_list s)))) (k\<lparr>errno := (errno k)(t := - RT_ERROR)\<rparr>) = (RT_EOK, k1)"
    "sched_ok k1 (woken t k L)"
    "stat k1 = (stat k)(t := if rt_current_thread k = Some t then RT_THREAD_RUNNING else RT_THREAD_READY)"
    "thread_timer k1 = (thread_timer k)(t := None)" "errno k1 = (errno k)(t := - RT_ERROR)" "current_priority k1 = current_priority k"
    "rt_current_thread k1 = rt_current_thread k" "rt_scheduler_lock_nest k1 = rt_scheduler_lock_nest k"
    "sem_value k1 = sem_value k" "object_flag k1 = object_flag k" by blast
  have w: "woken t k L (Suspend_list s) = ts" using removeAll_hd [of k L] Suc.prems l by (simp add: woken_other)
  have "t \<notin> set (L (Suspend_list r))" if "r \<noteq> s" for r
    using rings_once [OF lists_okD(1) [OF sched_okD(1) [OF Suc.prems]], of t "Suspend_list s" "Suspend_list r"] l that by auto
  then have other: "woken t k L (Suspend_list r) = L (Suspend_list r)" if "r \<noteq> s" for r
    using that by (simp add: woken_other removeAll_id)
  have step: "ipc_list_resume_all s k = ipc_list_resume_all s k1"
    using rings_isempty [OF lists_okD(1) [OF sched_okD(1) [OF Suc.prems]]] l k1(1)
    by (subst ipc_list_resume_all.simps) (simp add: first_waiter(1) [OF Suc.prems l])
  have "t \<notin> set ts" using rings_distinct [OF lists_okD(1) [OF sched_okD(1) [OF Suc.prems]], of "Suspend_list s"] l by simp
  moreover have "n = length (woken t k L (Suspend_list s))" using Suc.hyps(2) l w by simp
  note Suc.hyps(1) [OF this k1(2)]
  ultimately show ?case
    unfolding step w k1
    apply (elim exE conjE)
    subgoal for k' L' by (rule exI [of _ k'], rule exI [of _ L']) (auto simp: l other)
    done
qed

section \<open>Semaphores under way\<close>

text \<open>
  Where a thread is: in no take, or in a take before or behind its call of \<open>rt_schedule\<close>.  \<open>got\<close> counts the takes that
  returned \<open>RT_EOK\<close>, \<open>given\<close> the releases that did.
\<close>

datatype pc = Outside | Before nat | After nat

record sem_run =
  kern :: kernel
  pc :: "nat \<Rightarrow> pc"
  got :: "nat \<Rightarrow> nat"
  given :: "nat \<Rightarrow> nat"

definition count_ok :: "int \<Rightarrow> nat \<Rightarrow> (nat \<Rightarrow> nat) \<Rightarrow> nat \<Rightarrow> nat" where
  "count_ok r s f = (if r = RT_EOK then f(s := f s + 1) else f)"

text \<open>
  One step: the current thread takes, at once or not; it calls the scheduler; it runs again and returns; any thread
  or interrupt releases; an interrupt calls the scheduler; the clock ticks; a timer runs out; a thread yields.
  The thread \<open>idle\<close> does not wait.
\<close>

inductive sem_step :: "nat \<Rightarrow> sem_run \<Rightarrow> sem_run \<Rightarrow> bool" for idle where
  take_returns: "rt_current_thread (kern m) = Some t \<Longrightarrow> pc m t = Outside \<Longrightarrow>
    sem_take s timeout sflag t (kern m) = Some (Take_returns r, k) \<Longrightarrow>
    sem_step idle m (m\<lparr>kern := k, got := count_ok r s (got m)\<rparr>)"
| take_waits: "rt_current_thread (kern m) = Some t \<Longrightarrow> t \<noteq> idle \<Longrightarrow> pc m t = Outside \<Longrightarrow>
    sem_take s timeout sflag t (kern m) = Some (Take_schedules, k) \<Longrightarrow>
    sem_step idle m (m\<lparr>kern := k, pc := (pc m)(t := Before s)\<rparr>)"
| take_switches: "rt_current_thread (kern m) = Some t \<Longrightarrow> pc m t = Before s \<Longrightarrow>
    sem_step idle m (m\<lparr>kern := rt_schedule (kern m), pc := (pc m)(t := After s)\<rparr>)"
| take_resumes: "rt_current_thread (kern m) = Some t \<Longrightarrow> pc m t = After s \<Longrightarrow>
    sem_step idle m (m\<lparr>pc := (pc m)(t := Outside), got := count_ok (sem_take_resumed t (kern m)) s (got m)\<rparr>)"
| release: "sem_release s (kern m) = (r, need_schedule, k) \<Longrightarrow>
    sem_step idle m (m\<lparr>kern := k, given := count_ok r s (given m)\<rparr>)"
| schedule: "sem_step idle m (m\<lparr>kern := rt_schedule (kern m)\<rparr>)"
| ticks: "sem_step idle m (m\<lparr>kern := rt_tick_increase (kern m)\<rparr>)"
| times_out: "thread_timer (kern m) t \<noteq> None \<Longrightarrow>
    sem_step idle m (m\<lparr>kern := thread_timeout t (kern m\<lparr>thread_timer := (thread_timer (kern m))(t := None)\<rparr>)\<rparr>)"
| yields: "sem_step idle m (m\<lparr>kern := snd (rt_thread_yield (kern m))\<rparr>)"

inductive_cases sem_stepE: "sem_step idle m m'"

definition waits :: "(nat \<Rightarrow> pc) \<Rightarrow> nat \<Rightarrow> nat \<Rightarrow> bool" where
  "waits p s t \<longleftrightarrow> p t = Before s \<or> p t = After s"

definition sem_ok :: "nat \<Rightarrow> (nat \<Rightarrow> pc) \<Rightarrow> kernel \<Rightarrow> (tlist_head \<Rightarrow> nat list) \<Rightarrow> bool" where
  "sem_ok idle p k L \<longleftrightarrow>
     sched_ok k L \<and> rt_scheduler_lock_nest k = 0 \<and> \<not> kernel_assert k \<and>
     (\<exists>c. rt_current_thread k = Some c \<and> (stat k c = RT_THREAD_RUNNING \<or> (\<exists>s. p c = Before s))) \<and>
     runnable (stat k idle) \<and> p idle = Outside \<and>
     (\<forall>s t. t \<in> set (L (Suspend_list s)) \<longrightarrow> waits p s t \<and> errno k t = - RT_EINTR) \<and>
     (\<forall>s t. waits p s t \<longrightarrow> t \<in> set (L (Suspend_list s)) \<or> errno k t = RT_EOK \<or> errno k t = - RT_ETIMEOUT) \<and>
     (\<forall>s. sem_value k s \<noteq> 0 \<longrightarrow> L (Suspend_list s) = []) \<and>
     (\<forall>s. object_flag k s = RT_IPC_FLAG_PRIO \<longrightarrow> sorted (map (current_priority k) (L (Suspend_list s)))) \<and>
     (\<forall>t. thread_timer k t \<noteq> None \<longrightarrow> (\<exists>s. t \<in> set (L (Suspend_list s)))) \<and>
     finite {t. p t \<noteq> Outside}"

lemma sem_okD:
  assumes "sem_ok idle p k L"
  shows "sched_ok k L" and "rt_scheduler_lock_nest k = 0" and "\<not> kernel_assert k"
    and "\<exists>c. rt_current_thread k = Some c \<and> (stat k c = RT_THREAD_RUNNING \<or> (\<exists>s. p c = Before s))"
    and "runnable (stat k idle)" and "p idle = Outside"
    and "\<And>s t. t \<in> set (L (Suspend_list s)) \<Longrightarrow> waits p s t" and "\<And>s t. t \<in> set (L (Suspend_list s)) \<Longrightarrow> errno k t = - RT_EINTR"
    and "\<And>s t. waits p s t \<Longrightarrow> t \<in> set (L (Suspend_list s)) \<or> errno k t = RT_EOK \<or> errno k t = - RT_ETIMEOUT"
    and "\<And>s. sem_value k s \<noteq> 0 \<Longrightarrow> L (Suspend_list s) = []"
    and "\<And>s. object_flag k s = RT_IPC_FLAG_PRIO \<Longrightarrow> sorted (map (current_priority k) (L (Suspend_list s)))"
    and "\<And>t. thread_timer k t \<noteq> None \<Longrightarrow> \<exists>s. t \<in> set (L (Suspend_list s))"
    and "finite {t. p t \<noteq> Outside}"
  using assms unfolding sem_ok_def by blast+

lemma sem_ok_schedule:
  assumes ok: "sem_ok idle p k L"
  obtains L' where "sem_ok idle p (rt_schedule k) L'"
    "\<And>c s. p c = Before s \<Longrightarrow> sem_ok idle (p(c := After s)) (rt_schedule k) L'"
    "\<And>s. L' (Suspend_list s) = L (Suspend_list s)" "\<And>t. runnable (stat (rt_schedule k) t) = runnable (stat k t)"
proof -
  note d = sem_okD [OF ok]
  obtain c where c: "rt_current_thread k = Some c" using d(4) by blast
  have some: "stat k c = RT_THREAD_RUNNING \<or> (\<exists>t. stat k t = RT_THREAD_READY)"
    using d(5) sched_okD(2) [OF d(1), of idle] c by (auto simp: runnable_def)
  from schedule_runs [OF d(1) c d(2) this] obtain r where
    r: "rt_current_thread (rt_schedule k) = Some r" "stat (rt_schedule k) r = RT_THREAD_RUNNING" by blast
  obtain L' where L': "sched_ok (rt_schedule k) L'" "\<And>s. L' (Suspend_list s) = L (Suspend_list s)" "L' Defunct_list = L Defunct_list"
    "\<And>t. is_suspended (stat (rt_schedule k) t) = is_suspended (stat k t)"
    "\<And>t. runnable (stat (rt_schedule k) t) = runnable (stat k t)" by (rule schedule_ok [OF d(1) c]) blast
  have "sem_ok idle p (rt_schedule k) L'"
    using ok r L'(1) unfolding sem_ok_def by (simp add: L'(2,5) kernel_frame)
  moreover have "sem_ok idle (p(c := After s)) (rt_schedule k) L'" if "p c = Before s" for c s
  proof -
    have w: "waits (p(c := After s)) = waits p" using that by (auto simp: waits_def fun_eq_iff)
    have "{t. (p(c := After s)) t \<noteq> Outside} = {t. p t \<noteq> Outside}" using that by auto
    moreover have "c \<noteq> idle" using that d(6) by auto
    ultimately show ?thesis
      using ok r L'(1) unfolding sem_ok_def w by (simp add: L'(2,5) kernel_frame)
  qed
  ultimately show ?thesis by (rule that) (simp_all add: L'(2,5))
qed

text \<open>A waiting thread is woken, with the outcome in its error code.\<close>

lemma sem_ok_woken:
  assumes ok: "sem_ok idle p k L" and t: "t \<in> set (L (Suspend_list s))" and e: "e = RT_EOK \<or> e = - RT_ETIMEOUT"
    and k': "sched_ok k' (woken t k L)"
      "stat k' = (stat k)(t := if rt_current_thread k = Some t then RT_THREAD_RUNNING else RT_THREAD_READY)"
      "thread_timer k' = (thread_timer k)(t := None)" "errno k' = (errno k)(t := e)" "current_priority k' = current_priority k"
      "rt_current_thread k' = rt_current_thread k" "rt_scheduler_lock_nest k' = rt_scheduler_lock_nest k"
      "sem_value k' = sem_value k" "object_flag k' = object_flag k" "kernel_assert k' = kernel_assert k"
  shows "sem_ok idle p k' (woken t k L)"
proof -
  note d = sem_okD [OF ok]
  have L': "woken t k L (Suspend_list r) = removeAll t (L (Suspend_list r))" for r by (rule woken_other)
  obtain c where c: "rt_current_thread k = Some c" "stat k c = RT_THREAD_RUNNING \<or> (\<exists>s. p c = Before s)" using d(4) by blast
  have "runnable (stat k' idle)" using d(5) by (simp add: k'(2) runnable_def)
  moreover have "\<exists>c. rt_current_thread k' = Some c \<and> (stat k' c = RT_THREAD_RUNNING \<or> (\<exists>s. p c = Before s))"
    using c by (simp add: k'(2,6))
  moreover have "sorted (map (current_priority k) (removeAll t (L (Suspend_list r))))" if "object_flag k r = RT_IPC_FLAG_PRIO" for r
    using d(11) [OF that] by (simp add: sorted_filter removeAll_filter_not_eq)
  moreover have "u \<in> set (L (Suspend_list r)) \<Longrightarrow> u \<noteq> t \<Longrightarrow> u \<in> set (removeAll t (L (Suspend_list r)))" for u r by simp
  ultimately show ?thesis
    unfolding sem_ok_def using d(1-3,6,13) k'(1) e d(7-10,12)
    by (simp add: L' k'(2-10)) blast
qed

lemma sem_ok_times_out:
  assumes ok: "sem_ok idle p k L" and timer: "thread_timer k t \<noteq> None"
  obtains L' where "sem_ok idle p (thread_timeout t (k\<lparr>thread_timer := (thread_timer k)(t := None)\<rparr>)) L'"
    "errno (thread_timeout t (k\<lparr>thread_timer := (thread_timer k)(t := None)\<rparr>)) = (errno k)(t := - RT_ETIMEOUT)"
proof -
  note d = sem_okD [OF ok]
  obtain s where s: "t \<in> set (L (Suspend_list s))" using d(12) [OF timer] by blast
  have sus: "is_suspended (stat k t)" using lists_okD(3) [OF sched_okD(1) [OF d(1)] s] .
  let ?k = "k\<lparr>thread_timer := (thread_timer k)(t := None), errno := (errno k)(t := - RT_ETIMEOUT)\<rparr>"
  let ?w = "rt_schedule_insert_thread t (?k\<lparr>tlist := rt_list_remove (Node t) (tlist ?k)\<rparr>)"
  have "sched_ok ?w (woken t ?k L)" by (rule wake_ok) (use d(1) sus in simp_all)
  moreover have "woken t ?k L = woken t k L" by (simp add: woken_def)
  ultimately have w: "sched_ok ?w (woken t k L)" by simp
  have "sem_ok idle p ?w (woken t k L)"
    by (rule sem_ok_woken [OF ok s _ w]) (simp_all add: kernel_frame)
  moreover have "thread_timeout t (k\<lparr>thread_timer := (thread_timer k)(t := None)\<rparr>) = rt_schedule ?w"
    using sus by (simp add: thread_timeout_def)
  ultimately show ?thesis
    by (rule_tac sem_ok_schedule) (auto simp: kernel_frame intro: that)
qed

lemma take_outcome:
  assumes ok: "sem_ok idle p k L" and t: "rt_current_thread k = Some t" "p t = Outside"
    and take: "sem_take s timeout sflag t k = Some (Take_returns r, k')"
  shows "sem_value k s > 0 \<and> r = RT_EOK \<and> k' = k\<lparr>sem_value := (sem_value k)(s := sem_value k s - 1)\<rparr> \<or>
    sem_value k s = 0 \<and> r = - RT_ETIMEOUT \<and> k' = k"
proof -
  have run: "stat k t = RT_THREAD_RUNNING" using sem_okD(4) [OF ok] t by auto
  consider "sem_value k s > 0" | "sem_value k s = 0" "timeout = 0" | "sem_value k s = 0" "timeout \<noteq> 0"
    by (auto simp: word_gt_0)
  then show ?thesis
  proof cases
    case 3
    from sem_take_waits [OF sem_okD(1) [OF ok] t(1) run this, of sflag] take show ?thesis by auto
  qed (use take in \<open>auto simp: sem_take_def\<close>)
qed

text \<open>The threads in a list are those that wait for its object and were told no outcome.\<close>

lemma sem_ok_members:
  assumes "sem_ok idle p k L"
  shows "t \<in> set (L (Suspend_list v)) \<longleftrightarrow> waits p v t \<and> errno k t = - RT_EINTR"
  using sem_okD(7,8) [OF assms, of t v] sem_okD(9) [OF assms, of v t] by auto

lemma waits_one: "waits p v t \<Longrightarrow> waits p r t \<Longrightarrow> v = r"
  by (auto simp: waits_def)

lemma sem_ok_errno:
  assumes "sem_ok idle p k L" and "p t = Outside"
  shows "sem_ok idle p (k\<lparr>errno := (errno k)(t := x)\<rparr>) L"
proof -
  have "u \<noteq> t" if "waits p s u" for s u using that assms(2) by (auto simp: waits_def)
  then show ?thesis using assms(1) unfolding sem_ok_def by simp blast
qed

text \<open>A thread that runs again behind its call of the scheduler leaves the operation.\<close>

lemma sem_ok_leaves:
  assumes ok: "sem_ok idle p k L" and t: "rt_current_thread k = Some t" "p t = After s"
  shows "sem_ok idle (p(t := Outside)) k L"
proof -
  note d = sem_okD [OF ok]
  have run: "stat k t = RT_THREAD_RUNNING" using d(4) t by auto
  then have out: "t \<notin> set (L l)" for l using not_listed [OF d(1)] by simp
  have w: "waits (p(t := Outside)) r u \<longleftrightarrow> u \<noteq> t \<and> waits p r u" for r u by (auto simp: waits_def)
  have "finite {u. (p(t := Outside)) u \<noteq> Outside}" by (rule finite_subset [OF _ d(13)]) auto
  then show ?thesis using ok out t run unfolding sem_ok_def w by auto
qed

lemma sem_ok_value:
  "sem_ok idle p k L \<Longrightarrow> (v \<noteq> 0 \<Longrightarrow> L (Suspend_list s) = []) \<Longrightarrow> sem_ok idle p (k\<lparr>sem_value := (sem_value k)(s := v)\<rparr>) L"
  unfolding sem_ok_def by simp

lemma sorted_queue_in: "sorted (map prio ts) \<Longrightarrow> sorted (map prio (queue_in RT_IPC_FLAG_PRIO prio t ts))"
  by (induction ts) (auto dest!: set_takeWhileD dest: set_dropWhileD simp: not_le)

lemma sem_ok_take_waits:
  assumes ok: "sem_ok idle p k L" and t: "rt_current_thread k = Some t" "p t = Outside" "t \<noteq> idle"
    and take: "sem_take s timeout sflag t k = Some (Take_schedules, k')"
  obtains L' where "sem_ok idle (p(t := Before s)) k' L'" "errno k' = (errno k)(t := - RT_EINTR)" "sem_value k' = sem_value k"
proof -
  note d = sem_okD [OF ok]
  have run: "stat k t = RT_THREAD_RUNNING" using d(4) t by auto
  have v: "sem_value k s = 0" "timeout \<noteq> 0" using take by (auto simp: sem_take_def word_gt_0 split: if_splits)
  let ?q = "queue_in (object_flag k s) (current_priority k) t (L (Suspend_list s))"
  obtain k2 where k2: "sem_take s timeout sflag t k = Some (Take_schedules, k2)"
    "sched_ok k2 (L(Suspend_list s := ?q))" "stat k2 = (stat k)(t := suspend_stat sflag)" "errno k2 = (errno k)(t := - RT_EINTR)"
    "thread_timer k2 = (thread_timer k)(t := if timeout > 0 then Some timeout else None)"
    "rt_current_thread k2 = rt_current_thread k" "rt_scheduler_lock_nest k2 = rt_scheduler_lock_nest k"
    "current_priority k2 = current_priority k" "sem_value k2 = sem_value k" "object_flag k2 = object_flag k"
    "kernel_assert k2 = kernel_assert k" by (rule sem_take_waits [OF d(1) t(1) run v, of sflag]) blast
  have "k2 = k'" using take k2(1) by simp
  note k' = k2(2-11) [unfolded this]
  have nw: "\<not> waits p r t" for r using t(2) by (simp add: waits_def)
  have w: "waits (p(t := Before s)) r u \<longleftrightarrow> (if u = t then r = s else waits p r u)" for r u by (auto simp: waits_def)
  have "{u. (p(t := Before s)) u \<noteq> Outside} = insert t {u. p u \<noteq> Outside}" by auto
  then have "finite {u. (p(t := Before s)) u \<noteq> Outside}" using d(13) by simp
  moreover have "sorted (map (current_priority k) ((L(Suspend_list s := ?q)) (Suspend_list r)))"
    if "object_flag k r = RT_IPC_FLAG_PRIO" for r
    using d(11) [of r] that sorted_queue_in by auto
  moreover have "\<exists>r. u \<in> set ((L(Suspend_list s := ?q)) (Suspend_list r))" if "thread_timer k' u \<noteq> None" for u
  proof (cases "u = t")
    case False
    then have "thread_timer k u \<noteq> None" using that by (simp add: k'(4))
    then obtain r where "u \<in> set (L (Suspend_list r))" using d(12) by blast
    then show ?thesis by (intro exI [of _ r]) auto
  qed auto
  moreover have "waits (p(t := Before s)) r u \<and> errno k' u = - RT_EINTR" if "u \<in> set ((L(Suspend_list s := ?q)) (Suspend_list r))" for r u
    using that d(7) [of u r] d(8) [of u r] nw by (auto simp: w k'(3) split: if_splits)
  moreover have "u \<in> set ((L(Suspend_list s := ?q)) (Suspend_list r)) \<or> errno k' u = RT_EOK \<or> errno k' u = - RT_ETIMEOUT"
    if "waits (p(t := Before s)) r u" for r u
    using that d(9) [of r u] by (auto simp: w k'(3) split: if_splits)
  moreover have "(L(Suspend_list s := ?q)) (Suspend_list r) = []" if "sem_value k r \<noteq> 0" for r
    using that d(10) [of r] v(1) by auto
  moreover have "runnable (stat k' idle)" "(p(t := Before s)) idle = Outside" using d(5,6) t(3) by (simp_all add: k'(2))
  moreover have "\<exists>c. rt_current_thread k' = Some c \<and> (stat k' c = RT_THREAD_RUNNING \<or> (\<exists>r. (p(t := Before s)) c = Before r))"
    by (simp add: k'(5) t(1))
  ultimately have "sem_ok idle (p(t := Before s)) k' (L(Suspend_list s := ?q))"
    unfolding sem_ok_def using k'(1) d(2,3) by (simp only: k'(6-10)) blast
  then show ?thesis using k'(3,8) by (rule that)
qed

text \<open>The threads that hold a permit their take has not returned yet.\<close>

definition granted :: "(nat \<Rightarrow> pc) \<Rightarrow> (nat \<Rightarrow> int) \<Rightarrow> nat \<Rightarrow> nat set" where
  "granted p e s = {t. waits p s t \<and> e t = RT_EOK}"

lemma granted_waits [simp]: "p t = Outside \<Longrightarrow> granted (p(t := Before s)) (e(t := - RT_EINTR)) r = granted p e r"
  by (auto simp: granted_def waits_def)

lemma granted_after [simp]: "p t = Before s \<Longrightarrow> granted (p(t := After s)) e r = granted p e r"
  by (auto simp: granted_def waits_def)

lemma granted_returns:
  "p t = After s \<Longrightarrow> granted (p(t := Outside)) e r = (if r = s \<and> e t = RT_EOK then granted p e r - {t} else granted p e r)"
  by (auto simp: granted_def waits_def)

lemma granted_wakes:
  "waits p s t \<Longrightarrow> granted p (e(t := RT_EOK)) r = (if r = s then insert t (granted p e r) else granted p e r)"
  by (auto simp: granted_def waits_def)

lemma granted_times_out: "e t \<noteq> RT_EOK \<Longrightarrow> granted p (e(t := - RT_ETIMEOUT)) r = granted p e r"
  by (auto simp: granted_def)

lemma finite_granted: "finite {t. p t \<noteq> Outside} \<Longrightarrow> finite (granted p e r)"
  by (rule finite_subset [rotated]) (auto simp: granted_def waits_def)

definition sem_inv :: "nat \<Rightarrow> (nat \<Rightarrow> nat) \<Rightarrow> sem_run \<Rightarrow> bool" where
  "sem_inv idle v m \<longleftrightarrow>
     (\<exists>L. sem_ok idle (pc m) (kern m) L) \<and>
     (\<forall>s. unat (sem_value (kern m) s) + got m s + card (granted (pc m) (errno (kern m)) s) = v s + given m s)"

lemma sem_invI:
  assumes "sem_ok idle (pc m) (kern m) L"
    and "\<And>s. unat (sem_value (kern m) s) + got m s + card (granted (pc m) (errno (kern m)) s) = v s + given m s"
  shows "sem_inv idle v m"
  using assms unfolding sem_inv_def by blast

lemma unat_dec: "(x :: u16) > 0 \<Longrightarrow> unat (x - 1) = unat x - 1 \<and> unat x > 0"
  by (simp add: unat_minus_one word_gt_0 unat_gt_0)

lemma unat_inc:
  assumes "(x :: u16) < RT_SEM_VALUE_MAX"
  shows "unat (x + 1) = unat x + 1"
proof -
  have "1 + x \<noteq> 0"
  proof
    assume "1 + x = 0"
    then have "x = - 1" by (simp add: add_eq_0_iff)
    with assms show False by (simp add: RT_SEM_VALUE_MAX_def)
  qed
  then show ?thesis by (simp add: unatSuc add.commute)
qed

text \<open>The ticks and the yields are calls of the scheduler on a state that differs only in fields the invariant does not see.\<close>

lemma sem_ok_fields [simp]:
  "sem_ok idle p (k\<lparr>yield := y\<rparr>) L = sem_ok idle p k L" "sem_ok idle p (k\<lparr>remaining_tick := n\<rparr>) L = sem_ok idle p k L"
  "sem_ok idle p (k\<lparr>rt_tick := i\<rparr>) L = sem_ok idle p k L"
  by (simp_all add: sem_ok_def)

lemma tick_frame [kernel_frame]:
  "errno (rt_tick_increase k) = errno k" "sem_value (rt_tick_increase k) = sem_value k"
  by (simp_all add: rt_tick_increase_def Let_def kernel_frame split: option.split)

lemma yield_frame [kernel_frame]:
  "errno (snd (rt_thread_yield k)) = errno k" "sem_value (snd (rt_thread_yield k)) = sem_value k"
  by (simp_all add: rt_thread_yield_def kernel_frame split: option.split)

lemma sem_ok_yield:
  assumes "sem_ok idle p k L"
  obtains L' where "sem_ok idle p (snd (rt_thread_yield k)) L'"
proof -
  obtain c where "rt_current_thread k = Some c" using sem_okD(4) [OF assms] by blast
  then have y: "snd (rt_thread_yield k) =
      rt_schedule (k\<lparr>remaining_tick := (remaining_tick k)(c := init_tick k c), yield := (yield k)(c := True)\<rparr>)"
    by (simp add: rt_thread_yield_def)
  have "sem_ok idle p (k\<lparr>remaining_tick := (remaining_tick k)(c := init_tick k c), yield := (yield k)(c := True)\<rparr>) L"
    using assms by simp
  then show ?thesis by (rule sem_ok_schedule) (simp only: y that)
qed

lemma sem_ok_tick:
  assumes "sem_ok idle p k L"
  obtains L' where "sem_ok idle p (rt_tick_increase k) L'"
proof -
  obtain c where c: "rt_current_thread k = Some c" using sem_okD(4) [OF assms] by blast
  show ?thesis
  proof (cases "remaining_tick k c = 1")
    case True
    have "sem_ok idle p (k\<lparr>rt_tick := rt_tick k + 1\<rparr>) L" using assms by simp
    then show ?thesis by (rule sem_ok_yield) (use c True in \<open>auto simp: tick_ends_slice intro: that\<close>)
  next
    case False
    then show ?thesis using that [of L] assms by (simp add: tick_ends_slice [OF c])
  qed
qed

lemma sem_invE:
  assumes "sem_inv idle v m"
  obtains L where "sem_ok idle (pc m) (kern m) L"
    "\<And>s. unat (sem_value (kern m) s) + got m s + card (granted (pc m) (errno (kern m)) s) = v s + given m s"
  using assms unfolding sem_inv_def by blast

lemma inv_take_returns:
  assumes inv: "sem_inv idle v m" and t: "rt_current_thread (kern m) = Some t" "pc m t = Outside"
    and take: "sem_take s timeout sflag t (kern m) = Some (Take_returns r, k)"
  shows "sem_inv idle v (m\<lparr>kern := k, got := count_ok r s (got m)\<rparr>)"
proof -
  from inv obtain L where ok: "sem_ok idle (pc m) (kern m) L"
    and count: "\<And>s. unat (sem_value (kern m) s) + got m s + card (granted (pc m) (errno (kern m)) s) = v s + given m s"
    by (rule sem_invE) blast
  show ?thesis
  proof (cases "sem_value (kern m) s > 0")
    case True
    then have k: "k = (kern m)\<lparr>sem_value := (sem_value (kern m))(s := sem_value (kern m) s - 1)\<rparr>" and r: "r = RT_EOK"
      using take_outcome [OF ok t take] by auto
    have "L (Suspend_list s) = []" using sem_okD(10) [OF ok, of s] True by auto
    then have "sem_ok idle (pc m) k L" using sem_ok_value [OF ok] k by simp
    then show ?thesis
      using count unat_dec [OF True] count [of s] by (intro sem_invI [of idle _ L]) (auto simp: k r count_ok_def)
  next
    case False
    then have "k = kern m" and "r = - RT_ETIMEOUT" using take_outcome [OF ok t take] by auto
    then show ?thesis using count ok by (intro sem_invI [of idle _ L]) (simp_all add: count_ok_def)
  qed
qed

lemma inv_take_resumes:
  assumes inv: "sem_inv idle v m" and t: "rt_current_thread (kern m) = Some t" "pc m t = After s"
  shows "sem_inv idle v (m\<lparr>pc := (pc m)(t := Outside), got := count_ok (sem_take_resumed t (kern m)) s (got m)\<rparr>)"
proof -
  from inv obtain L where ok: "sem_ok idle (pc m) (kern m) L"
    and count: "\<And>s. unat (sem_value (kern m) s) + got m s + card (granted (pc m) (errno (kern m)) s) = v s + given m s"
    by (rule sem_invE) blast
  note d = sem_okD [OF ok]
  note ok' = sem_ok_leaves [OF ok t]
  have t_in: "t \<in> granted (pc m) (errno (kern m)) s \<longleftrightarrow> errno (kern m) t = RT_EOK"
    using t(2) by (simp add: granted_def waits_def)
  have fin: "finite (granted (pc m) (errno (kern m)) s)" by (rule finite_granted [OF d(13)])
  have "unat (sem_value (kern m) r) + count_ok (sem_take_resumed t (kern m)) s (got m) r +
      card (granted ((pc m)(t := Outside)) (errno (kern m)) r) = v r + given m r" for r
    using count [of r] t_in fin card_gt_0_iff [of "granted (pc m) (errno (kern m)) s"]
    by (auto simp: granted_returns [where p = "pc m" and t = t, OF t(2)] count_ok_def sem_take_resumed_def card_Diff_singleton)
  with ok' show ?thesis by (intro sem_invI [of idle _ L]) simp_all
qed

lemma inv_woken:
  assumes "sem_ok idle (pc m) k L'" and "waits (pc m) s t" and "errno (kern m) t \<noteq> RT_EOK"
    and "errno k = (errno (kern m))(t := RT_EOK)" and "sem_value k = sem_value (kern m)" and "finite {t. pc m t \<noteq> Outside}"
    and "\<And>s. unat (sem_value (kern m) s) + got m s + card (granted (pc m) (errno (kern m)) s) = v s + given m s"
  shows "sem_inv idle v (m\<lparr>kern := k, given := count_ok RT_EOK s (given m)\<rparr>)"
proof -
  have "t \<notin> granted (pc m) (errno (kern m)) s" using assms(3) by (simp add: granted_def)
  with assms finite_granted [OF assms(6)] show ?thesis
    by (intro sem_invI [of idle _ L']) (auto simp: granted_wakes count_ok_def)
qed

lemma inv_release:
  assumes inv: "sem_inv idle v m" and rel: "sem_release s (kern m) = (r, need_schedule, k)"
  shows "sem_inv idle v (m\<lparr>kern := k, given := count_ok r s (given m)\<rparr>)"
proof -
  from inv obtain L where ok: "sem_ok idle (pc m) (kern m) L"
    and count: "\<And>s. unat (sem_value (kern m) s) + got m s + card (granted (pc m) (errno (kern m)) s) = v s + given m s"
    by (rule sem_invE) blast
  note d = sem_okD [OF ok]
  show ?thesis
  proof (cases "L (Suspend_list s)")
    case Nil
    note c = release_counts [OF d(1) Nil]
    show ?thesis
    proof (cases "sem_value (kern m) s < RT_SEM_VALUE_MAX")
      case True
      have "sem_ok idle (pc m) k L" using sem_ok_value [OF ok] c rel Nil True by auto
      then show ?thesis
        using count unat_inc [OF True] count [of s] c rel True by (intro sem_invI [of idle _ L]) (auto simp: count_ok_def)
    next
      case False
      then show ?thesis using count ok c rel by (intro sem_invI [of idle _ L]) (auto simp: count_ok_def)
    qed
  next
    case (Cons t ts)
    obtain k' where k': "sem_release s (kern m) = (RT_EOK, True, k')" "sched_ok k' (woken t (kern m) L)"
      "stat k' = (stat (kern m))(t := if rt_current_thread (kern m) = Some t then RT_THREAD_RUNNING else RT_THREAD_READY)"
      "thread_timer k' = (thread_timer (kern m))(t := None)" "errno k' = (errno (kern m))(t := RT_EOK)"
      "current_priority k' = current_priority (kern m)" "rt_current_thread k' = rt_current_thread (kern m)"
      "rt_scheduler_lock_nest k' = rt_scheduler_lock_nest (kern m)" "sem_value k' = sem_value (kern m)"
      "object_flag k' = object_flag (kern m)" "kernel_assert k' = kernel_assert (kern m)"
      by (rule release_wakes [OF d(1) Cons]) blast
    have t: "t \<in> set (L (Suspend_list s))" using Cons by simp
    have "sem_ok idle (pc m) k' (woken t (kern m) L)" by (rule sem_ok_woken [OF ok t _ k'(2-11)]) simp
    from inv_woken [OF this d(7) [OF t] _ k'(5,9) d(13) count] d(8) [OF t] show ?thesis using rel k'(1) by simp
  qed
qed

lemma sem_step_keeps:
  assumes "sem_step idle m m'" and inv: "sem_inv idle v m"
  shows "sem_inv idle v m'"
proof -
  from inv obtain L where ok: "sem_ok idle (pc m) (kern m) L"
    and count: "\<And>s. unat (sem_value (kern m) s) + got m s + card (granted (pc m) (errno (kern m)) s) = v s + given m s"
    by (rule sem_invE) blast
  note d = sem_okD [OF ok]
  from assms(1) show ?thesis
  proof cases
    case take_returns
    then show ?thesis using inv_take_returns [OF inv] by simp
  next
    case (take_waits t s timeout sflag k)
    obtain L' where "sem_ok idle ((pc m)(t := Before s)) k L'" "errno k = (errno (kern m))(t := - RT_EINTR)" "sem_value k = sem_value (kern m)"
      by (rule sem_ok_take_waits [OF ok take_waits(2,4,3,5)])
    then show ?thesis unfolding take_waits(1) using count take_waits(4) by (intro sem_invI [of idle _ L']) simp_all
  next
    case (take_switches t s)
    obtain L' where "sem_ok idle ((pc m)(t := After s)) (rt_schedule (kern m)) L'"
      by (rule sem_ok_schedule [OF ok]) (use take_switches(3) in blast)
    then show ?thesis unfolding take_switches(1) using count take_switches(3) by (intro sem_invI [of idle _ L']) (simp_all add: kernel_frame)
  next
    case take_resumes
    then show ?thesis using inv_take_resumes [OF inv] by simp
  next
    case release
    then show ?thesis using inv_release [OF inv] by simp
  next
    case schedule
    obtain L' where "sem_ok idle (pc m) (rt_schedule (kern m)) L'" by (rule sem_ok_schedule [OF ok])
    then show ?thesis unfolding schedule using count by (intro sem_invI [of idle _ L']) (simp_all add: kernel_frame)
  next
    case ticks
    obtain L' where "sem_ok idle (pc m) (rt_tick_increase (kern m)) L'" by (rule sem_ok_tick [OF ok])
    then show ?thesis unfolding ticks using count by (intro sem_invI [of idle _ L']) (simp_all add: kernel_frame)
  next
    case (times_out t)
    let ?k = "thread_timeout t (kern m\<lparr>thread_timer := (thread_timer (kern m))(t := None)\<rparr>)"
    obtain L' where "sem_ok idle (pc m) ?k L'" "errno ?k = (errno (kern m))(t := - RT_ETIMEOUT)"
      by (rule sem_ok_times_out [OF ok times_out(2)])
    moreover have "errno (kern m) t \<noteq> RT_EOK" using d(12) [OF times_out(2)] d(8) by fastforce
    moreover have "sem_value ?k = sem_value (kern m)" by (simp add: thread_timeout_def k_assert_def kernel_frame)
    ultimately show ?thesis unfolding times_out(1) using count by (intro sem_invI [of idle _ L']) (simp_all add: granted_times_out)
  next
    case yields
    obtain L' where "sem_ok idle (pc m) (snd (rt_thread_yield (kern m))) L'" by (rule sem_ok_yield [OF ok])
    then show ?thesis unfolding yields using count by (intro sem_invI [of idle _ L']) (simp_all add: kernel_frame)
  qed
qed

interpretation sem_run: step_relation "sem_step idle" "sem_inv idle v" for idle v
  by unfold_locales (rule sem_step_keeps)

text \<open>A start: nobody waits, a thread runs, and the idle thread can.\<close>

definition sem_start :: "nat \<Rightarrow> kernel \<Rightarrow> bool" where
  "sem_start idle k \<longleftrightarrow>
     (\<exists>L. sched_ok k L \<and> (\<forall>s. L (Suspend_list s) = [])) \<and> rt_scheduler_lock_nest k = 0 \<and> \<not> kernel_assert k \<and>
     (\<exists>c. rt_current_thread k = Some c \<and> stat k c = RT_THREAD_RUNNING) \<and> runnable (stat k idle) \<and>
     (\<forall>t. thread_timer k t = None)"

definition start_of :: "kernel \<Rightarrow> sem_run" where
  "start_of k = \<lparr>kern = k, pc = (\<lambda>_. Outside), got = (\<lambda>_. 0), given = (\<lambda>_. 0)\<rparr>"

lemma start_inv: "sem_start idle k \<Longrightarrow> sem_inv idle (\<lambda>s. unat (sem_value k s)) (start_of k)"
  unfolding sem_start_def by (elim exE conjE, rule_tac L = L in sem_invI) (auto simp: sem_ok_def start_of_def waits_def granted_def)

section \<open>What semaphores promise\<close>

text \<open>
  C9: no permit is lost or made up.  However takes, releases, interrupts, time slices, timeouts and task switches
  are interleaved, at every moment the permits in the counter, those that takes have returned with, and those handed to
  threads that are on their way back from waiting make up the initial ones and those released.
\<close>

theorem semaphore_permits_conserved:
  assumes "sem_start idle k" and "(sem_step idle)\<^sup>*\<^sup>* (start_of k) m"
  shows "unat (sem_value (kern m) s) + got m s + card {t. waits (pc m) s t \<and> errno (kern m) t = RT_EOK} =
    unat (sem_value k s) + given m s"
  using sem_run.run_keeps [OF assms(2) start_inv [OF assms(1)]] by (auto simp: sem_inv_def granted_def)

text \<open>
  No wake-up is lost: while the counter of a semaphore is not zero, its list of waiting threads is empty.
\<close>

theorem semaphore_no_lost_wakeup:
  assumes "sem_start idle k" and "(sem_step idle)\<^sup>*\<^sup>* (start_of k) m" and "sem_value (kern m) s \<noteq> 0"
  shows "rt_list_isempty (Head (Suspend_list s)) (tlist (kern m))"
proof -
  from sem_run.run_keeps [OF assms(2) start_inv [OF assms(1)]] obtain L where ok: "sem_ok idle (pc m) (kern m) L"
    by (auto simp: sem_inv_def)
  show ?thesis
    using rings_isempty [OF lists_okD(1) [OF sched_okD(1) [OF sem_okD(1) [OF ok]]]] sem_okD(10) [OF ok assms(3)] by simp
qed

text \<open>
  A thread that waited for a semaphore comes back with \<open>RT_EOK\<close> or with a timeout, and with nothing else:
  it is never run again while it still waits.
\<close>

theorem semaphore_take_result:
  assumes "sem_start idle k" and "(sem_step idle)\<^sup>*\<^sup>* (start_of k) m"
    and "rt_current_thread (kern m) = Some t" and "pc m t = After s"
  shows "sem_take_resumed t (kern m) = RT_EOK \<or> sem_take_resumed t (kern m) = - RT_ETIMEOUT"
proof -
  from sem_run.run_keeps [OF assms(2) start_inv [OF assms(1)]] obtain L where ok: "sem_ok idle (pc m) (kern m) L"
    by (auto simp: sem_inv_def)
  have "stat (kern m) t = RT_THREAD_RUNNING" using sem_okD(4) [OF ok] assms(3,4) by auto
  then have "t \<notin> set (L (Suspend_list s))" using not_listed [OF sem_okD(1) [OF ok]] by simp
  with sem_okD(9) [OF ok, of s t] assms(4) show ?thesis by (auto simp: waits_def sem_take_resumed_def)
qed

text \<open>
  A release wakes the thread that has waited longest among the most urgent ones: it comes off the list with
  \<open>RT_EOK\<close> and its timer stopped, those that wait on are not more urgent, and if it is more urgent than every
  thread that could run, it runs at once.
\<close>

theorem release_wakes_most_urgent:
  assumes ok: "sem_ok idle p k L" and prio: "object_flag k s = RT_IPC_FLAG_PRIO" and l: "L (Suspend_list s) = t # ts"
  shows "\<exists>k' L'. rt_sem_release s k = (RT_EOK, k') \<and> sem_ok idle p k' L' \<and> L' (Suspend_list s) = ts \<and>
    errno k' t = RT_EOK \<and> thread_timer k' t = None \<and> runnable (stat k' t) \<and>
    (\<forall>u\<in>set ts. current_priority k' t \<le> current_priority k' u) \<and>
    ((\<forall>u. runnable (stat k u) \<longrightarrow> current_priority k t < current_priority k u) \<longrightarrow> rt_current_thread k' = Some t)"
proof -
  note d = sem_okD [OF ok]
  obtain k1 where k1: "sem_release s k = (RT_EOK, True, k1)" "sched_ok k1 (woken t k L)"
    "stat k1 = (stat k)(t := if rt_current_thread k = Some t then RT_THREAD_RUNNING else RT_THREAD_READY)"
    "thread_timer k1 = (thread_timer k)(t := None)" "errno k1 = (errno k)(t := RT_EOK)"
    "current_priority k1 = current_priority k" "rt_current_thread k1 = rt_current_thread k"
    "rt_scheduler_lock_nest k1 = rt_scheduler_lock_nest k" "sem_value k1 = sem_value k"
    "object_flag k1 = object_flag k" "kernel_assert k1 = kernel_assert k"
    by (rule release_wakes [OF d(1) l]) blast
  have t: "t \<in> set (L (Suspend_list s))" using l by simp
  have ok1: "sem_ok idle p k1 (woken t k L)" by (rule sem_ok_woken [OF ok t _ k1(2-11)]) simp
  obtain L' where L': "sem_ok idle p (rt_schedule k1) L'" "\<And>s. L' (Suspend_list s) = woken t k L (Suspend_list s)"
    "\<And>u. runnable (stat (rt_schedule k1) u) = runnable (stat k1 u)"
    by (rule sem_ok_schedule [OF ok1]) blast
  have c: "rt_current_thread k1 \<noteq> None" using sem_okD(4) [OF ok1] by auto
  have some: "stat k1 t = RT_THREAD_RUNNING \<and> rt_current_thread k1 = Some t \<or> (\<exists>u. stat k1 u = RT_THREAD_READY)"
    by (auto simp: k1(3,7))
  obtain r where r: "rt_current_thread (rt_schedule k1) = Some r" "stat (rt_schedule k1) r = RT_THREAD_RUNNING"
    "\<And>u. stat (rt_schedule k1) u = RT_THREAD_READY \<Longrightarrow> current_priority k r \<le> current_priority k u"
    using schedule_runs [OF k1(2) _ sem_okD(2) [OF ok1]] c some by (auto simp: k1(6))
  have "r = t" if low: "\<And>u. runnable (stat k u) \<Longrightarrow> current_priority k t < current_priority k u"
  proof (rule ccontr)
    assume "r \<noteq> t"
    have "runnable (stat k1 t)" by (simp add: k1(3) runnable_def)
    then have "stat (rt_schedule k1) t = RT_THREAD_READY"
      using L'(3) [of t] sched_okD(2) [OF sem_okD(1) [OF L'(1)], of t] r(1) \<open>r \<noteq> t\<close> by (auto simp: runnable_def)
    moreover have "runnable (stat k r)" using L'(3) [of r] r(2) \<open>r \<noteq> t\<close> by (simp add: runnable_def k1(3))
    ultimately show False using r(3) [of t] low [of r] by simp
  qed
  moreover have "L' (Suspend_list s) = ts" using removeAll_hd [OF d(1) l] by (simp add: L'(2) woken_other)
  moreover have "\<forall>u\<in>set ts. current_priority k t \<le> current_priority k u" using d(11) [OF prio] l by simp
  moreover have "runnable (stat (rt_schedule k1) t)" using L'(3) [of t] by (simp add: k1(3) runnable_def)
  moreover have "rt_sem_release s k = (RT_EOK, rt_schedule k1)" by (simp add: rt_sem_release_def k1(1))
  ultimately show ?thesis
    using L'(1) r(1) by (intro exI [of _ "rt_schedule k1"] exI [of _ L'] conjI) (simp_all add: kernel_frame k1(4-6))
qed

text \<open>
  The calls come back, or put the caller to sleep: the search for its place among the waiting threads ends, and so does
  the loop that wakes all of them when a semaphore is removed; each of those then finds an error and can run.
\<close>

theorem semaphore_calls_end:
  assumes k: "sched_ok k L" and t: "rt_current_thread k = Some t" "stat k t = RT_THREAD_RUNNING"
  shows "(\<exists>r. rt_sem_take s time t k = Some r) \<and>
    (\<exists>k' L'. rt_sem_detach s k = Some (RT_EOK, k') \<and> sched_ok k' L' \<and> L' (Suspend_list s) = [] \<and>
      (\<forall>u\<in>set (L (Suspend_list s)). errno k' u = - RT_ERROR \<and> runnable (stat k' u) \<and> thread_timer k' u = None))"
proof
  show "\<exists>r. rt_sem_take s time t k = Some r"
  proof (cases "sem_value k s = 0 \<and> time \<noteq> 0")
    case True
    then obtain k' where "sem_take s time RT_UNINTERRUPTIBLE t k = Some (Take_schedules, k')"
      by (rule_tac sem_take_waits [OF k t, of s time RT_UNINTERRUPTIBLE]) blast+
    then show ?thesis by (simp add: rt_sem_take_def)
  qed (auto simp: rt_sem_take_def sem_take_def word_gt_0)
  from resume_all_ok [OF k, of s] obtain k' L' where
    r: "ipc_list_resume_all s k = Some k'" "sched_ok k' L'" "L' (Suspend_list s) = []"
      "\<And>t. errno k' t = (if t \<in> set (L (Suspend_list s)) then - RT_ERROR else errno k t)"
      "\<And>t. stat k' t = (if t \<in> set (L (Suspend_list s))
         then if rt_current_thread k = Some t then RT_THREAD_RUNNING else RT_THREAD_READY else stat k t)"
      "\<And>t. thread_timer k' t = (if t \<in> set (L (Suspend_list s)) then None else thread_timer k t)" by auto
  show "\<exists>k' L'. rt_sem_detach s k = Some (RT_EOK, k') \<and> sched_ok k' L' \<and> L' (Suspend_list s) = [] \<and>
      (\<forall>u\<in>set (L (Suspend_list s)). errno k' u = - RT_ERROR \<and> runnable (stat k' u) \<and> thread_timer k' u = None)"
    by (rule exI [of _ k'], rule exI [of _ L']) (simp add: rt_sem_detach_def r runnable_def)
qed

section \<open>Semaphores on a kernel that runs\<close>

lemma init_empty_list:
  assumes "sched_ok k L" and "L (Suspend_list s) = []"
  shows "rt_list_init (Head (Suspend_list s)) (tlist k) = tlist k"
proof -
  have "ring (tlist k) (Head (Suspend_list s)) []"
    using rings_ring [OF lists_okD(1) [OF sched_okD(1) [OF assms(1)]], of "Suspend_list s"] assms(2) by simp
  then show ?thesis by (simp add: ring_def rt_list_init_def fun_upd_idem)
qed

lemma sem_init_ok:
  assumes "sched_ok k L" and "L (Suspend_list s) = []" and "value < 0x10000"
  shows "rt_sem_init s value flag k =
    (RT_EOK, k\<lparr>sem_value := (sem_value k)(s := of_nat value), object_flag := (object_flag k)(s := flag)\<rparr>)"
  using init_empty_list [OF assms(1,2)] assms(3) by (simp add: rt_sem_init_def)

lemma startup_value: "sem_value (snd (rt_thread_startup t k)) = sem_value k"
  by (simp add: rt_thread_startup_def rt_thread_resume_def k_assert_def Let_def kernel_frame)

lemma demo_value: "sem_value demo = (\<lambda>_. 0)"
proof -
  have "sem_value (rt_system_scheduler_start k) = sem_value k" for k
    by (simp add: rt_system_scheduler_start_def kernel_frame split: prod.split)
  then show ?thesis by (simp add: demo_def startup_value demo_start_def rt_system_scheduler_init_def reset_def)
qed

lemma sem_take_yield: "sem_take s timeout sflag t k = Some (r, k') \<Longrightarrow> yield k' = yield k"
  by (auto simp: sem_take_def ipc_list_suspend_def rt_thread_suspend_with_flag_def k_assert_def kernel_frame Let_def
      split: if_splits ipc_flag.splits prod.splits)

lemma only_member: "distinct xs \<Longrightarrow> (\<And>x. x \<in> set xs \<longleftrightarrow> x = a) \<Longrightarrow> xs = [a]"
  by (cases xs; cases "tl xs") (auto, metis)

definition demo_sem :: kernel where
  "demo_sem = snd (rt_sem_init 5 0 RT_IPC_FLAG_PRIO demo)"

lemma sem_start_ok:
  "sched_ok demo_sem demo_lists" "rt_current_thread demo_sem = Some 2" "stat demo_sem = stat demo" "sem_value demo_sem 5 = 0"
  "object_flag demo_sem 5 = RT_IPC_FLAG_PRIO" "yield demo_sem = yield demo" "current_priority demo_sem = current_priority demo"
  "rt_scheduler_lock_nest demo_sem = 0"
proof -
  have "rt_sem_init 5 0 RT_IPC_FLAG_PRIO demo =
      (RT_EOK, demo\<lparr>sem_value := (sem_value demo)(5 := 0), object_flag := (object_flag demo)(5 := RT_IPC_FLAG_PRIO)\<rparr>)"
    using sem_init_ok [OF demo_ok(1), of 5 0] by (simp add: demo_lists_def)
  then have d: "demo_sem = demo\<lparr>sem_value := (sem_value demo)(5 := 0), object_flag := (object_flag demo)(5 := RT_IPC_FLAG_PRIO)\<rparr>"
    by (simp add: demo_sem_def)
  have "sched_ok (demo\<lparr>sem_value := v, object_flag := f\<rparr>) demo_lists" for v f
    using demo_ok(1) by (simp add: sched_ok_def lists_ok_def)
  then show "sched_ok demo_sem demo_lists" by (simp add: d)
qed (simp_all add: demo_sem_def rt_sem_init_def demo_ok)

lemma demo_start: "sem_start 0 demo_sem"
proof -
  have "thread_timer demo_sem = (\<lambda>_. None)" "\<not> kernel_assert demo_sem"
    by (simp_all add: demo_sem_def rt_sem_init_def demo_ok)
  then show ?thesis
    unfolding sem_start_def using sem_start_ok
    by (auto simp: demo_ok runnable_def demo_lists_def intro!: exI [of _ demo_lists])
qed

text \<open>
  The running thread takes the semaphore, which has no permits, and waits; the other thread of its priority runs, an
  interrupt releases, and the other thread yields.
\<close>

lemma demo_run:
  obtains m2 L2 m4 where "(sem_step 0)\<^sup>*\<^sup>* (start_of demo_sem) m2" "sem_ok 0 (pc m2) (kern m2) L2"
    "L2 (Suspend_list 5) = [2]" "object_flag (kern m2) 5 = RT_IPC_FLAG_PRIO"
    "(sem_step 0)\<^sup>*\<^sup>* (start_of demo_sem) m4" "rt_current_thread (kern m4) = Some 2" "pc m4 2 = After 5"
proof -
  note d = sem_start_ok [unfolded demo_ok]
  let ?m0 = "start_of demo_sem"
  define L1 where "L1 = demo_lists(Suspend_list 5 := [2])"
  have run: "stat demo_sem 2 = RT_THREAD_RUNNING" by (simp add: d(3))
  obtain k1 where k1: "sem_take 5 3 RT_UNINTERRUPTIBLE 2 demo_sem = Some (Take_schedules, k1)"
    "sched_ok k1 L1" "stat k1 = (stat demo_sem)(2 := RT_THREAD_SUSPEND_UNINTERRUPTIBLE)"
    "rt_current_thread k1 = Some 2" "rt_scheduler_lock_nest k1 = 0" "current_priority k1 = current_priority demo_sem"
    "object_flag k1 = object_flag demo_sem"
    by (rule sem_take_waits [OF d(1,2) run d(4), of 3 RT_UNINTERRUPTIBLE]) (auto simp: d demo_lists_def L1_def)
  let ?m1 = "?m0\<lparr>kern := k1, pc := (pc ?m0)(2 := Before 5)\<rparr>"
  have s1: "sem_step 0 ?m0 ?m1"
    by (rule sem_step.take_waits) (use d(2) k1(1) in \<open>simp_all add: start_of_def\<close>)
  have "stat k1 1 = RT_THREAD_READY" by (simp add: k1(3) d(3))
  then obtain to p where h: "highest_priority_thread k1 = (to, p)" "L1 (Ready_list p) \<noteq> []" "to = hd (L1 (Ready_list p))"
      "stat k1 to = RT_THREAD_READY" "current_priority k1 to = p" "\<And>t. stat k1 t = RT_THREAD_READY \<Longrightarrow> p \<le> current_priority k1 t"
      "rt_thread_ready_priority_group k1 \<noteq> 0" by (rule highest_thread [OF sched_okD(1) [OF k1(2)]]) blast
  have "p \<le> 10" using h(6) [of 1] \<open>stat k1 1 = RT_THREAD_READY\<close> by (simp add: k1(6) d(7))
  then have p: "p = 10" "to = 1" using h(2,3) by (auto simp: L1_def demo_lists_def split: if_splits)
  have not: "\<not> goes_on 2 p k1" by (simp add: goes_on_def k1(3))
  note sw = schedule_switches [OF k1(2,4,5) h(1,4,7) not, unfolded p]
  define L2 where "L2 = switched 2 1 k1 L1"
  have L2: "L2 (Suspend_list 5) = [2]" "L2 (Ready_list 10) = []"
    by (simp_all add: L2_def switched_def k1(3) L1_def demo_lists_def)
  note sw1 = sw(1) [folded L2_def]
  let ?k2 = "rt_schedule k1"
  let ?m2 = "?m1\<lparr>kern := ?k2, pc := (pc ?m1)(2 := After 5)\<rparr>"
  have s2: "sem_step 0 ?m1 ?m2" using sem_step.take_switches [of ?m1 2 5 0] k1(4) by simp
  obtain k3 where k3: "sem_release 5 ?k2 = (RT_EOK, True, k3)" "sched_ok k3 (woken 2 ?k2 L2)"
    "stat k3 = (stat ?k2)(2 := RT_THREAD_READY)" "rt_current_thread k3 = Some 1" "rt_scheduler_lock_nest k3 = 0"
    "current_priority k3 = current_priority demo_sem"
    by (rule release_wakes [OF sw1 L2(1)]) (simp add: sw(2) kernel_frame k1(5,6))
  let ?m3 = "?m2\<lparr>kern := k3, given := count_ok RT_EOK 5 (given ?m2)\<rparr>"
  have s3: "sem_step 0 ?m2 ?m3" using sem_step.release [of 5 ?m2 RT_EOK True k3 0] k3(1) by simp
  have st3: "stat k3 = (\<lambda>t. if t = 3 then RT_THREAD_SUSPEND_UNINTERRUPTIBLE else RT_THREAD_INIT)
      (0 := RT_THREAD_READY, 1 := RT_THREAD_RUNNING, 2 := RT_THREAD_READY)"
    by (rule ext) (simp add: k3(3) sw(3) k1(3) d(3))
  have "woken 2 ?k2 L2 (Ready_list 10) = [2]"
    using L2(2) by (simp add: woken_def insert_lists_def sw(2,4) Let_def kernel_frame k1(6) d(7))
  then have "in_turn [1, 2] k3"
    unfolding in_turn_def using k3(2,4,5)
    by (intro conjI exI [of _ "woken 2 ?k2 L2"]) (auto simp: st3 k3(6) d(7) split: if_splits)
  then have "rt_current_thread (snd (rt_thread_yield k3)) = Some 2" using yield_turn [of "[1, 2]" k3] by (simp add: in_turn_def)
  moreover have s4: "sem_step 0 ?m3 (?m3\<lparr>kern := snd (rt_thread_yield k3)\<rparr>)" using sem_step.yields [of 0 ?m3] by simp
  moreover have r2: "(sem_step 0)\<^sup>*\<^sup>* ?m0 ?m2" using s1 s2 by simp
  moreover have "(sem_step 0)\<^sup>*\<^sup>* ?m0 (?m3\<lparr>kern := snd (rt_thread_yield k3)\<rparr>)" using r2 s3 s4 by simp
  moreover obtain L where "sem_ok 0 (pc ?m2) (kern ?m2) L"
    using sem_run.run_keeps [OF r2 start_inv [OF demo_start]] by (auto simp: sem_inv_def)
  moreover from this have "L (Suspend_list 5) = [2]"
    using rings_unique [OF lists_okD(1) [OF sched_okD(1) [OF sem_okD(1)]] lists_okD(1) [OF sched_okD(1) [OF sw1]]] L2(1) by fastforce
  ultimately show ?thesis
    by (intro that [of ?m2 L "?m3\<lparr>kern := snd (rt_thread_yield k3)\<rparr>"]) (simp_all add: kernel_frame k1(7) d(5))
qed

lemma semaphore_permits_conserved_witness:
  "\<exists>m. (sem_step 0)\<^sup>*\<^sup>* (start_of demo_sem) m \<and> pc m 2 = After 5 \<and>
    unat (sem_value (kern m) 5) + got m 5 + card {t. waits (pc m) 5 t \<and> errno (kern m) t = RT_EOK} =
    unat (sem_value demo_sem 5) + given m 5"
proof -
  obtain m where "(sem_step 0)\<^sup>*\<^sup>* (start_of demo_sem) m" "pc m 2 = After 5" by (rule demo_run) blast
  with semaphore_permits_conserved [OF demo_start, of m 5] show ?thesis by blast
qed

lemma semaphore_no_lost_wakeup_witness:
  "\<exists>m. (sem_step 0)\<^sup>*\<^sup>* (start_of demo_sem) m \<and> sem_value (kern m) 5 \<noteq> 0 \<and>
    rt_list_isempty (Head (Suspend_list 5)) (tlist (kern m))"
proof -
  let ?k = "demo_sem\<lparr>sem_value := (sem_value demo_sem)(5 := sem_value demo_sem 5 + 1)\<rparr>"
  let ?m = "start_of demo_sem\<lparr>kern := ?k, given := count_ok RT_EOK 5 (\<lambda>_. 0)\<rparr>"
  have "sem_release 5 demo_sem = (RT_EOK, False, ?k)"
    using release_counts [OF sem_start_ok(1), of 5] sem_start_ok(4) by (simp add: demo_lists_def RT_SEM_VALUE_MAX_def)
  then have "sem_step 0 (start_of demo_sem) ?m"
    using sem_step.release [of 5 "start_of demo_sem" RT_EOK False ?k 0] by (simp add: start_of_def)
  then have "(sem_step 0)\<^sup>*\<^sup>* (start_of demo_sem) ?m" by simp
  moreover have "sem_value (kern ?m) 5 \<noteq> 0" using sem_start_ok(4) by simp
  ultimately show ?thesis using semaphore_no_lost_wakeup [OF demo_start, of ?m 5] by blast
qed

lemma semaphore_take_result_witness:
  "\<exists>m. (sem_step 0)\<^sup>*\<^sup>* (start_of demo_sem) m \<and> pc m 2 = After 5 \<and>
    (sem_take_resumed 2 (kern m) = RT_EOK \<or> sem_take_resumed 2 (kern m) = - RT_ETIMEOUT)"
proof -
  obtain m where "(sem_step 0)\<^sup>*\<^sup>* (start_of demo_sem) m" "rt_current_thread (kern m) = Some 2" "pc m 2 = After 5"
    by (rule demo_run) blast
  with semaphore_take_result [OF demo_start, of m 2 5] show ?thesis by blast
qed

lemma release_wakes_most_urgent_witness:
  "\<exists>k k'. rt_sem_release 5 k = (RT_EOK, k') \<and> errno k' 2 = RT_EOK \<and> runnable (stat k' 2)"
proof -
  obtain m L m' where "(sem_step 0)\<^sup>*\<^sup>* (start_of demo_sem) m" "sem_ok 0 (pc m) (kern m) L" "L (Suspend_list 5) = [2]"
    "object_flag (kern m) 5 = RT_IPC_FLAG_PRIO" "(sem_step 0)\<^sup>*\<^sup>* (start_of demo_sem) m'" "rt_current_thread (kern m') = Some 2"
    "pc m' 2 = After 5" by (rule demo_run)
  with release_wakes_most_urgent [of 0 "pc m" "kern m" L 5 2 "[]"] show ?thesis by blast
qed

lemma semaphore_calls_end_witness:
  "(\<exists>r. rt_sem_take 5 (- 1) 2 demo_sem = Some r) \<and>
    (\<exists>k' L'. rt_sem_detach 5 demo_sem = Some (RT_EOK, k') \<and> sched_ok k' L' \<and> L' (Suspend_list 5) = [] \<and>
      (\<forall>u\<in>set (demo_lists (Suspend_list 5)). errno k' u = - RT_ERROR \<and> runnable (stat k' u) \<and> thread_timer k' u = None))"
  by (rule semaphore_calls_end [OF sem_start_ok(1,2)]) (simp add: sem_start_ok(3) demo_ok)

end
