(* ===== verification/Rt_Event.thy ===== *)
theory Rt_Event
  imports Rt_Sem
begin

text \<open>
  Events (\<^verbatim>\<open>src/rt-thread/src/ipc.c\<close>), on the kernel of \<open>Rt_Kernel\<close> and the lists of waiting threads of
  \<open>Rt_Sem\<close>.  An event is a number, its waiting threads are in the list of that number.  A thread waits for all
  or for some of the bits it asks for; a send sets bits and wakes every thread that is now satisfied.  As for semaphores,
  the receive of a thread has two parts, up to the call of \<open>rt_schedule\<close> and from where the thread runs again on.
  \<open>event_step\<close> is the machine of all threads, interrupts and timers that use events.
\<close>

section \<open>Events\<close>

definition RT_EVENT_FLAG_AND :: u8 where "RT_EVENT_FLAG_AND = 0x01"
definition RT_EVENT_FLAG_OR :: u8 where "RT_EVENT_FLAG_OR = 0x02"
definition RT_EVENT_FLAG_CLEAR :: u8 where "RT_EVENT_FLAG_CLEAR = 0x04"

text \<open>\<open>event_bits\<close> is the field \<open>set\<close> of the events, \<open>event_set\<close> and \<open>event_info\<close> are those of the threads.\<close>

record events =
  ekern :: kernel
  event_bits :: "nat \<Rightarrow> u32"
  event_set :: "nat \<Rightarrow> u32"
  event_info :: "nat \<Rightarrow> u8"

definition event_errno :: "nat \<Rightarrow> int \<Rightarrow> events \<Rightarrow> events" where
  "event_errno t err e = e\<lparr>ekern := (ekern e)\<lparr>errno := (errno (ekern e))(t := err)\<rparr>\<rparr>"

definition rt_event_init :: "nat \<Rightarrow> ipc_flag \<Rightarrow> events \<Rightarrow> int \<times> events" where
  "rt_event_init v flag e =
     (RT_EOK, e\<lparr>ekern := (ekern e)\<lparr>object_flag := (object_flag (ekern e))(v := flag),
                                     tlist := rt_list_init (Head (Suspend_list v)) (tlist (ekern e))\<rparr>,
                event_bits := (event_bits e)(v := 0)\<rparr>)"

text \<open>\<open>obj\<close> is the object the allocator hands out, if it has one.\<close>

definition rt_event_create :: "nat option \<Rightarrow> ipc_flag \<Rightarrow> events \<Rightarrow> nat option \<times> events" where
  "rt_event_create obj flag e =
     (case obj of
        None \<Rightarrow> (None, e)
      | Some v \<Rightarrow>
          (Some v, e\<lparr>ekern := (ekern e)\<lparr>object_flag := (object_flag (ekern e))(v := flag),
                                          tlist := rt_list_init (Head (Suspend_list v)) (tlist (ekern e))\<rparr>,
                     event_bits := (event_bits e)(v := 0)\<rparr>))"

definition rt_event_detach :: "nat \<Rightarrow> events \<Rightarrow> (int \<times> events) option" where
  "rt_event_detach v e = map_option (\<lambda>k. (RT_EOK, e\<lparr>ekern := k\<rparr>)) (ipc_list_resume_all v (ekern e))"

text \<open>The same for an event on the heap, whose memory is then freed.\<close>

definition rt_event_delete :: "nat \<Rightarrow> events \<Rightarrow> (int \<times> events) option" where
  "rt_event_delete v e = map_option (\<lambda>k. (RT_EOK, e\<lparr>ekern := k\<rparr>)) (ipc_list_resume_all v (ekern e))"

subsection \<open>Sending\<close>

text \<open>
  What a send makes of a waiting thread with the options \<open>info\<close> that waits for \<open>wanted\<close>: whether it is satisfied
  and its new \<open>event_set\<close>; nothing if it waits neither for all nor for some bits.
\<close>

definition send_status :: "u8 \<Rightarrow> u32 \<Rightarrow> u32 \<Rightarrow> (bool \<times> u32) option" where
  "send_status info wanted bits =
     (if info AND RT_EVENT_FLAG_AND \<noteq> 0 then
        if wanted AND bits = wanted then Some (True, wanted) else Some (False, wanted)
      else if info AND RT_EVENT_FLAG_OR \<noteq> 0 then
        if wanted AND bits \<noteq> 0 then Some (True, wanted AND bits) else Some (False, wanted)
      else None)"

text \<open>
  The loop over the waiting threads.  It gives up at one whose options are invalid (\<open>Inl\<close>); else it comes to the
  bits to clear and whether the scheduler is to be called (\<open>Inr\<close>).
\<close>

partial_function (option) send_loop ::
    "nat \<Rightarrow> (tlist_head, nat) lnode \<Rightarrow> u32 \<Rightarrow> bool \<Rightarrow> events \<Rightarrow> (events + u32 \<times> bool \<times> events) option" where
  "send_loop v n need_clear_set need_schedule e =
     (if n \<noteq> Head (Suspend_list v) then
        let t = thread_of n
        in (case send_status (event_info e t) (event_set e t) (event_bits e v) of
              None \<Rightarrow> Some (Inl e)
            | Some (ok, eset) \<Rightarrow>
                let e = e\<lparr>event_set := (event_set e)(t := eset)\<rparr>;
                    n = nxt (tlist (ekern e)) n
                in if ok then
                     let need_clear_set = (if event_info e t AND RT_EVENT_FLAG_CLEAR \<noteq> 0
                                           then need_clear_set OR event_set e t else need_clear_set);
                         e = event_errno t RT_EOK (e\<lparr>ekern := snd (rt_thread_resume t (ekern e))\<rparr>)
                     in send_loop v n need_clear_set True e
                   else send_loop v n need_clear_set need_schedule e)
      else Some (Inr (need_clear_set, need_schedule, e)))"

text \<open>A send up to its end, or to the call of \<open>rt_schedule\<close> if the second component says so; then the whole call.\<close>

definition event_send :: "nat \<Rightarrow> u32 \<Rightarrow> events \<Rightarrow> (int \<times> bool \<times> events) option" where
  "event_send v sent e =
     (if sent = 0 then Some (- RT_ERROR, False, e)
      else
        let e = e\<lparr>event_bits := (event_bits e)(v := event_bits e v OR sent)\<rparr>
        in if \<not> rt_list_isempty (Head (Suspend_list v)) (tlist (ekern e)) then
             (case send_loop v (nxt (tlist (ekern e)) (Head (Suspend_list v))) 0 False e of
                None \<Rightarrow> None
              | Some (Inl e) \<Rightarrow> Some (- RT_EINVAL, False, e)
              | Some (Inr (need_clear_set, need_schedule, e)) \<Rightarrow>
                  Some (RT_EOK, need_schedule,
                        if need_clear_set \<noteq> 0
                        then e\<lparr>event_bits := (event_bits e)(v := event_bits e v AND NOT need_clear_set)\<rparr> else e))
           else Some (RT_EOK, False, e))"

definition event_schedule :: "events \<Rightarrow> events" where
  "event_schedule e = e\<lparr>ekern := rt_schedule (ekern e)\<rparr>"

definition rt_event_send :: "nat \<Rightarrow> u32 \<Rightarrow> events \<Rightarrow> (int \<times> events) option" where
  "rt_event_send v sent e =
     map_option (\<lambda>(ret, need_schedule, e). (ret, if need_schedule then event_schedule e else e)) (event_send v sent e)"

subsection \<open>Receiving\<close>

text \<open>A receive by thread \<open>t\<close> up to where it returns, with the bits it received if it did, or calls \<open>rt_schedule\<close>.\<close>

datatype recv_result = Recv_returns int "u32 option" | Recv_schedules

definition recv_status :: "u8 \<Rightarrow> u32 \<Rightarrow> u32 \<Rightarrow> bool option" where
  "recv_status opt wanted bits =
     (if opt AND RT_EVENT_FLAG_AND \<noteq> 0 then Some (bits AND wanted = wanted)
      else if opt AND RT_EVENT_FLAG_OR \<noteq> 0 then Some (bits AND wanted \<noteq> 0)
      else None)"

definition event_recv :: "nat \<Rightarrow> u32 \<Rightarrow> u8 \<Rightarrow> int \<Rightarrow> suspend_flag \<Rightarrow> nat \<Rightarrow> events \<Rightarrow> (recv_result \<times> events) option" where
  "event_recv v wanted opt timeout sflag t e =
     (if wanted = 0 then Some (Recv_returns (- RT_ERROR) None, e)
      else
        let e = event_errno t (- RT_EINTR) e;
            (ok, e) = (case recv_status opt wanted (event_bits e v) of
                         Some ok \<Rightarrow> (ok, e)
                       | None \<Rightarrow> (False, e\<lparr>ekern := k_assert False (ekern e)\<rparr>))
        in if ok then
             let e = event_errno t RT_EOK e;
                 recved = event_bits e v AND wanted;
                 e = e\<lparr>event_set := (event_set e)(t := event_bits e v AND wanted), event_info := (event_info e)(t := opt)\<rparr>;
                 e = (if opt AND RT_EVENT_FLAG_CLEAR \<noteq> 0
                      then e\<lparr>event_bits := (event_bits e)(v := event_bits e v AND NOT wanted)\<rparr> else e)
             in Some (Recv_returns (errno (ekern e) t) (Some recved), e)
           else if timeout = 0 then
             Some (Recv_returns (- RT_ETIMEOUT) None, event_errno t (- RT_ETIMEOUT) e)
           else
             let e = e\<lparr>event_set := (event_set e)(t := wanted), event_info := (event_info e)(t := opt)\<rparr>
             in map_option (\<lambda>(ret, k).
                  if ret \<noteq> RT_EOK then (Recv_returns ret None, e\<lparr>ekern := k\<rparr>)
                  else (Recv_schedules,
                        e\<lparr>ekern := if timeout > 0 then k\<lparr>thread_timer := (thread_timer k)(t := Some timeout)\<rparr> else k\<rparr>))
                (ipc_list_suspend v t (object_flag (ekern e) v) sflag (ekern e)))"

text \<open>The calls: up to the return, or to the switch to another thread.\<close>

definition recv_switch :: "recv_result \<times> events \<Rightarrow> recv_result \<times> events" where
  "recv_switch = (\<lambda>(r, e). (r, if r = Recv_schedules then event_schedule e else e))"

definition rt_event_recv :: "nat \<Rightarrow> u32 \<Rightarrow> u8 \<Rightarrow> int \<Rightarrow> nat \<Rightarrow> events \<Rightarrow> (recv_result \<times> events) option" where
  "rt_event_recv v wanted opt timeout t e = map_option recv_switch (event_recv v wanted opt timeout RT_UNINTERRUPTIBLE t e)"

definition rt_event_recv_interruptible :: "nat \<Rightarrow> u32 \<Rightarrow> u8 \<Rightarrow> int \<Rightarrow> nat \<Rightarrow> events \<Rightarrow> (recv_result \<times> events) option" where
  "rt_event_recv_interruptible v wanted opt timeout t e =
     map_option recv_switch (event_recv v wanted opt timeout RT_INTERRUPTIBLE t e)"

definition rt_event_recv_killable :: "nat \<Rightarrow> u32 \<Rightarrow> u8 \<Rightarrow> int \<Rightarrow> nat \<Rightarrow> events \<Rightarrow> (recv_result \<times> events) option" where
  "rt_event_recv_killable v wanted opt timeout t e = map_option recv_switch (event_recv v wanted opt timeout RT_KILLABLE t e)"

text \<open>What the receive returns when the thread runs again.\<close>

definition event_recv_resumed :: "nat \<Rightarrow> events \<Rightarrow> int \<times> u32 option" where
  "event_recv_resumed t e =
     (if errno (ekern e) t \<noteq> RT_EOK then (errno (ekern e) t, None)
      else (errno (ekern e) t, Some (event_set e t)))"

definition rt_event_control :: "nat \<Rightarrow> int \<Rightarrow> events \<Rightarrow> (int \<times> events) option" where
  "rt_event_control v cmd e =
     (if cmd = RT_IPC_CMD_RESET then
        map_option (\<lambda>k. (RT_EOK, event_schedule (e\<lparr>ekern := k, event_bits := (event_bits e)(v := 0)\<rparr>)))
          (ipc_list_resume_all v (ekern e))
      else Some (- RT_ERROR, e))"

section \<open>The send, on lists\<close>

text \<open>Whether a waiting thread is satisfied by \<open>bits\<close>, and by which bits it would be.\<close>

definition satisfied :: "events \<Rightarrow> u32 \<Rightarrow> nat \<Rightarrow> bool" where
  "satisfied e bits t \<longleftrightarrow> recv_status (event_info e t) (event_set e t) bits = Some True"

lemma send_status_recv:
  "send_status info wanted bits =
    map_option (\<lambda>ok. (ok, if ok then wanted AND bits else wanted)) (recv_status info wanted bits)"
  by (simp add: send_status_def recv_status_def and.commute)

lemma rings_next:
  assumes "rings h L" and "L l = xs @ n # ys"
  shows "nxt h (Node n) = (case ys of [] \<Rightarrow> Head l | y # _ \<Rightarrow> Node y)"
proof -
  have "linked h ((Head l # map Node xs) @ Node n # map Node ys @ [Head l])"
    using rings_ring [OF assms(1), of l] assms(2) by (simp add: ring_def)
  then have "linked h (Node n # map Node ys @ [Head l])"
    using linked_append [of h "Head l # map Node xs" "Node n" "map Node ys @ [Head l]"] by blast
  then show ?thesis by (cases ys) auto
qed

text \<open>One step of the loop: a thread that is not satisfied is passed over, one that is satisfied is woken with its bits.\<close>

definition node_at :: "nat \<Rightarrow> nat list \<Rightarrow> (tlist_head, nat) lnode" where
  "node_at v ts = (case ts of [] \<Rightarrow> Head (Suspend_list v) | t # _ \<Rightarrow> Node t)"

lemma node_at_simps [simp]: "node_at v [] = Head (Suspend_list v)" "node_at v (t # ts) = Node t"
  by (simp_all add: node_at_def)

definition wake_event :: "nat \<Rightarrow> u32 \<Rightarrow> events \<Rightarrow> events" where
  "wake_event t bits e = event_errno t RT_EOK
     (e\<lparr>event_set := (event_set e)(t := event_set e t AND bits), ekern := snd (rt_thread_resume t (ekern e))\<rparr>)"

definition clears :: "events \<Rightarrow> nat \<Rightarrow> bool" where
  "clears e t \<longleftrightarrow> event_info e t AND RT_EVENT_FLAG_CLEAR \<noteq> 0"

lemma send_loop_end: "send_loop v (node_at v []) c b e = Some (Inr (c, b, e))"
  by (subst send_loop.simps) simp

lemma send_loop_node:
  assumes "sched_ok (ekern e) L" and "L (Suspend_list v) = pre @ t # ts"
    and "recv_status (event_info e t) (event_set e t) (event_bits e v) = Some ok"
  shows "send_loop v (Node t) c b e =
    (if ok then send_loop v (node_at v ts) (if clears e t then c OR event_set e t AND event_bits e v else c) True
        (wake_event t (event_bits e v) e)
     else send_loop v (node_at v ts) c b e)"
proof -
  have n: "nxt (tlist (ekern e)) (Node t) = node_at v ts"
    using rings_next [OF lists_okD(1) [OF sched_okD(1) [OF assms(1)]] assms(2)] by (simp add: node_at_def)
  have s: "send_status (event_info e t) (event_set e t) (event_bits e v) =
      Some (ok, if ok then event_set e t AND event_bits e v else event_set e t)"
    by (simp add: send_status_recv assms(3))
  show ?thesis
    by (subst send_loop.simps) (cases ok; simp add: s n Let_def wake_event_def clears_def)
qed

lemma wake_event_ok:
  assumes ok: "sem_ok idle p (ekern e) L" and t: "t \<in> set (L (Suspend_list v))"
  shows "sem_ok idle p (ekern (wake_event t bits e)) (woken t (ekern e) L)"
    and "stat (ekern (wake_event t bits e)) =
      (stat (ekern e))(t := if rt_current_thread (ekern e) = Some t then RT_THREAD_RUNNING else RT_THREAD_READY)"
    and "thread_timer (ekern (wake_event t bits e)) = (thread_timer (ekern e))(t := None)"
    and "errno (ekern (wake_event t bits e)) = (errno (ekern e))(t := RT_EOK)"
    and "current_priority (ekern (wake_event t bits e)) = current_priority (ekern e)"
    and "rt_current_thread (ekern (wake_event t bits e)) = rt_current_thread (ekern e)"
    and "sem_value (ekern (wake_event t bits e)) = sem_value (ekern e)"
    and "object_flag (ekern (wake_event t bits e)) = object_flag (ekern e)"
    and "yield (ekern (wake_event t bits e)) = yield (ekern e)"
proof -
  note d = sem_okD [OF ok]
  have sus: "is_suspended (stat (ekern e) t)" by (rule lists_okD(3) [OF sched_okD(1) [OF d(1)] t])
  obtain k where k: "rt_thread_resume t (ekern e) = (RT_EOK, k)" "sched_ok k (woken t (ekern e) L)"
    "stat k = (stat (ekern e))(t := if rt_current_thread (ekern e) = Some t then RT_THREAD_RUNNING else RT_THREAD_READY)"
    "thread_timer k = (thread_timer (ekern e))(t := None)" "errno k = errno (ekern e)" "current_priority k = current_priority (ekern e)"
    "rt_current_thread k = rt_current_thread (ekern e)" "rt_scheduler_lock_nest k = rt_scheduler_lock_nest (ekern e)"
    "sem_value k = sem_value (ekern e)" "object_flag k = object_flag (ekern e)" "kernel_assert k = kernel_assert (ekern e)"
    by (rule resume_suspended [OF d(1) sus])
  have w: "ekern (wake_event t bits e) = k\<lparr>errno := (errno k)(t := RT_EOK)\<rparr>"
    by (simp add: wake_event_def event_errno_def k(1))
  show "sem_ok idle p (ekern (wake_event t bits e)) (woken t (ekern e) L)"
    by (rule sem_ok_woken [OF ok t disjI1 [OF refl]]) (simp_all add: w k)
qed (use assms sem_okD(1) [OF ok] in \<open>simp_all add: wake_event_def event_errno_def rt_thread_resume_def Let_def kernel_frame
    lists_okD(3) [OF sched_okD(1)]\<close>)

lemma wake_event_fields [simp]:
  "event_bits (wake_event t bits e) = event_bits e" "event_info (wake_event t bits e) = event_info e"
  "event_set (wake_event t bits e) = (event_set e)(t := event_set e t AND bits)"
  by (simp_all add: wake_event_def event_errno_def)

text \<open>The whole loop: it wakes exactly the satisfied threads and collects the bits that those with the clear option got.\<close>

definition sent_to :: "nat \<Rightarrow> u32 \<Rightarrow> events \<Rightarrow> nat list \<Rightarrow> events \<Rightarrow> bool" where
  "sent_to v bits e ws e' \<longleftrightarrow>
     event_info e' = event_info e \<and>
     (\<forall>t. event_set e' t = (if t \<in> set ws then event_set e t AND bits else event_set e t)) \<and>
     (\<forall>t. errno (ekern e') t = (if t \<in> set ws then RT_EOK else errno (ekern e) t)) \<and>
     (\<forall>t. thread_timer (ekern e') t = (if t \<in> set ws then None else thread_timer (ekern e) t)) \<and>
     (\<forall>t. stat (ekern e') t = (if t \<in> set ws
        then if rt_current_thread (ekern e) = Some t then RT_THREAD_RUNNING else RT_THREAD_READY else stat (ekern e) t)) \<and>
     current_priority (ekern e') = current_priority (ekern e) \<and> rt_current_thread (ekern e') = rt_current_thread (ekern e) \<and>
     sem_value (ekern e') = sem_value (ekern e) \<and> object_flag (ekern e') = object_flag (ekern e) \<and> yield (ekern e') = yield (ekern e)"

lemma sent_to_none [simp]: "sent_to v bits e [] e"
  by (simp add: sent_to_def)

lemma sent_to_wake:
  assumes "sem_ok idle p (ekern e) L" and "t \<in> set (L (Suspend_list v))" and "t \<notin> set ws"
    and "sent_to v bits (wake_event t bits e) ws e'"
  shows "sent_to v bits e (t # ws) e'"
  using assms(3,4) unfolding sent_to_def by (auto simp: wake_event_ok [OF assms(1,2)])

lemma send_loop_ok:
  assumes "sem_ok idle p (ekern e) L" and "L (Suspend_list v) = pre @ ts"
    and "\<forall>t\<in>set ts. recv_status (event_info e t) (event_set e t) (event_bits e v) \<noteq> None"
  shows "\<exists>c' e' L'. send_loop v (node_at v ts) c b e =
      Some (Inr (c', b \<or> (\<exists>t\<in>set ts. satisfied e (event_bits e v) t), e')) \<and>
    sem_ok idle p (ekern e') L' \<and> L' (Suspend_list v) = pre @ filter (\<lambda>t. \<not> satisfied e (event_bits e v) t) ts \<and>
    (\<forall>r. r \<noteq> v \<longrightarrow> L' (Suspend_list r) = L (Suspend_list r)) \<and> event_bits e' = event_bits e \<and>
    sent_to v (event_bits e v) e (filter (satisfied e (event_bits e v)) ts) e' \<and>
    (\<forall>i. bit c' i \<longleftrightarrow> bit c i \<or>
      (\<exists>t\<in>set ts. satisfied e (event_bits e v) t \<and> clears e t \<and> bit (event_set e t AND event_bits e v) i))"
  using assms
proof (induction ts arbitrary: pre c b e L)
  case Nil
  then show ?case by (intro exI [of _ c] exI [of _ e] exI [of _ L]) (simp add: send_loop_end [simplified])
next
  case (Cons t ts)
  note d = sem_okD [OF Cons.prems(1)]
  obtain ok where st: "recv_status (event_info e t) (event_set e t) (event_bits e v) = Some ok" using Cons.prems(3) by auto
  then have sat: "satisfied e (event_bits e v) t = ok" by (simp add: satisfied_def)
  note step = send_loop_node [OF d(1) Cons.prems(2) st, of c b]
  have dist: "distinct (pre @ t # ts)" using rings_distinct [OF lists_okD(1) [OF sched_okD(1) [OF d(1)]]] Cons.prems(2) by metis
  show ?case
  proof (cases ok)
    case False
    from Cons.IH [OF Cons.prems(1), of "pre @ [t]" c b] Cons.prems(2,3) step sat False show ?thesis by simp
  next
    case True
    let ?e = "wake_event t (event_bits e v) e" and ?L = "woken t (ekern e) L"
      and ?c = "if clears e t then c OR event_set e t AND event_bits e v else c"
    have t: "t \<in> set (L (Suspend_list v))" using Cons.prems(2) by simp
    have l: "?L (Suspend_list v) = pre @ ts" using dist by (simp add: woken_other Cons.prems(2) removeAll_id)
    have "t \<notin> set (L (Suspend_list r))" if "r \<noteq> v" for r
      using rings_once [OF lists_okD(1) [OF sched_okD(1) [OF d(1)]] t, of "Suspend_list r"] that by auto
    then have other: "?L (Suspend_list r) = L (Suspend_list r)" if "r \<noteq> v" for r
      using that by (simp add: woken_other removeAll_id)
    have same: "satisfied ?e bits u = satisfied e bits u" "clears ?e u = clears e u" if "u \<in> set ts" for u bits
      using that dist by (auto simp: satisfied_def clears_def)
    then have f: "filter (satisfied ?e bits) ts = filter (satisfied e bits) ts"
      "filter (\<lambda>u. \<not> satisfied ?e bits u) ts = filter (\<lambda>u. \<not> satisfied e bits u) ts" for bits
      by (simp_all cong: filter_cong)
    have "\<forall>u\<in>set ts. recv_status (event_info ?e u) (event_set ?e u) (event_bits ?e v) \<noteq> None"
      using Cons.prems(3) dist by auto
    from Cons.IH [OF wake_event_ok(1) [OF Cons.prems(1) t] l this, of ?c True] obtain c' e' L' where
      r: "send_loop v (node_at v ts) ?c True ?e = Some (Inr (c', True, e'))" "sem_ok idle p (ekern e') L'"
        "L' (Suspend_list v) = pre @ filter (\<lambda>t. \<not> satisfied e (event_bits e v) t) ts"
        "\<forall>r. r \<noteq> v \<longrightarrow> L' (Suspend_list r) = L (Suspend_list r)" "event_bits e' = event_bits e"
        "sent_to v (event_bits e v) ?e (filter (satisfied e (event_bits e v)) ts) e'"
        "\<forall>i. bit c' i \<longleftrightarrow> bit ?c i \<or>
          (\<exists>u\<in>set ts. satisfied ?e (event_bits e v) u \<and> clears ?e u \<and> bit (event_set ?e u AND event_bits e v) i)"
      by (auto simp: f other)
    have "t \<notin> set (filter (satisfied e (event_bits e v)) ts)" using dist by simp
    note sent = sent_to_wake [OF Cons.prems(1) t this r(6)]
    have bits: "(\<exists>u\<in>set ts. satisfied ?e (event_bits e v) u \<and> clears ?e u \<and> bit (event_set ?e u AND event_bits e v) i) \<longleftrightarrow>
        (\<exists>u\<in>set ts. satisfied e (event_bits e v) u \<and> clears e u \<and> bit (event_set e u AND event_bits e v) i)" for i
      by (rule bex_cong [OF refl]) (use same dist in auto)
    show ?thesis
      by (rule exI [of _ c'], rule exI [of _ e'], rule exI [of _ L'])
        (use r(1-5) r(7) [unfolded bits] sent sat True step in \<open>auto simp: bit_or_iff\<close>)
  qed
qed

lemma recv_status_None: "recv_status info wanted bits = None \<longleftrightarrow> info AND RT_EVENT_FLAG_AND = 0 \<and> info AND RT_EVENT_FLAG_OR = 0"
  by (simp add: recv_status_def)

definition valid_option :: "u8 \<Rightarrow> bool" where
  "valid_option info \<longleftrightarrow> info AND RT_EVENT_FLAG_AND \<noteq> 0 \<or> info AND RT_EVENT_FLAG_OR \<noteq> 0"

lemma valid_option_status: "valid_option info \<longleftrightarrow> recv_status info wanted bits \<noteq> None"
  by (auto simp: valid_option_def recv_status_None)

lemma event_send_ok:
  assumes ok: "sem_ok idle p (ekern e) L" and sent: "sent \<noteq> 0"
    and valid: "\<And>t. t \<in> set (L (Suspend_list v)) \<Longrightarrow> valid_option (event_info e t)"
  defines "B \<equiv> event_bits e v OR sent"
  obtains e' L' where "event_send v sent e = Some (RT_EOK, \<exists>t\<in>set (L (Suspend_list v)). satisfied e B t, e')"
    "sem_ok idle p (ekern e') L'" "L' (Suspend_list v) = filter (\<lambda>t. \<not> satisfied e B t) (L (Suspend_list v))"
    "\<forall>r. r \<noteq> v \<longrightarrow> L' (Suspend_list r) = L (Suspend_list r)"
    "sent_to v B e (filter (satisfied e B) (L (Suspend_list v))) e'" "\<forall>r. r \<noteq> v \<longrightarrow> event_bits e' r = event_bits e r"
    "\<forall>i. bit (event_bits e' v) i \<longleftrightarrow> bit B i \<and>
      \<not> (\<exists>t\<in>set (L (Suspend_list v)). satisfied e B t \<and> clears e t \<and> bit (event_set e t AND B) i)"
proof -
  note d = sem_okD [OF ok]
  let ?e = "e\<lparr>event_bits := (event_bits e)(v := B)\<rparr>"
  have same: "satisfied ?e = satisfied e" "clears ?e = clears e" by (auto simp: satisfied_def clears_def fun_eq_iff)
  have sentto: "sent_to v B ?e ws e' = sent_to v B e ws e'" for ws e' by (simp add: sent_to_def)
  have r: "rings (tlist (ekern e)) L" by (rule lists_okD(1) [OF sched_okD(1) [OF d(1)]])
  have v: "\<forall>t\<in>set (L (Suspend_list v)). recv_status (event_info ?e t) (event_set ?e t) (event_bits ?e v) \<noteq> None"
    using valid valid_option_status by simp
  show ?thesis
  proof (cases "L (Suspend_list v)")
    case Nil
    have "event_send v sent e = Some (RT_EOK, False, ?e)"
      using rings_isempty [OF r, of "Suspend_list v"] Nil sent by (simp add: event_send_def B_def)
    then show ?thesis using ok Nil by (intro that [of ?e L]) (simp_all add: sent_to_def)
  next
    case (Cons t ts)
    have "nxt (tlist (ekern e)) (Head (Suspend_list v)) = node_at v (L (Suspend_list v))"
      using rings_first [OF r, of "Suspend_list v"] Cons by simp
    moreover have "\<not> rt_list_isempty (Head (Suspend_list v)) (tlist (ekern e))" using rings_isempty [OF r] Cons by simp
    moreover obtain c e1 L' where l: "send_loop v (node_at v (L (Suspend_list v))) 0 False ?e =
        Some (Inr (c, \<exists>t\<in>set (L (Suspend_list v)). satisfied e B t, e1))"
      "sem_ok idle p (ekern e1) L'" "L' (Suspend_list v) = filter (\<lambda>t. \<not> satisfied e B t) (L (Suspend_list v))"
      "\<forall>r. r \<noteq> v \<longrightarrow> L' (Suspend_list r) = L (Suspend_list r)" "event_bits e1 = (event_bits e)(v := B)"
      "sent_to v B e (filter (satisfied e B) (L (Suspend_list v))) e1"
      "\<forall>i. bit c i \<longleftrightarrow> (\<exists>t\<in>set (L (Suspend_list v)). satisfied e B t \<and> clears e t \<and> bit (event_set e t AND B) i)"
      using send_loop_ok [of idle p ?e L v "[]" "L (Suspend_list v)" 0 False] ok v by (auto simp: same sentto)
    moreover define e2 where "e2 = (if c \<noteq> 0 then e1\<lparr>event_bits := (event_bits e1)(v := event_bits e1 v AND NOT c)\<rparr> else e1)"
    ultimately have s: "event_send v sent e = Some (RT_EOK, \<exists>t\<in>set (L (Suspend_list v)). satisfied e B t, e2)"
      using sent by (simp add: event_send_def B_def Let_def)
    have f: "ekern e2 = ekern e1" "event_set e2 = event_set e1" "event_info e2 = event_info e1"
      "event_bits e2 = (event_bits e)(v := B AND NOT c)" by (simp_all add: e2_def l(5))
    show ?thesis
    proof (rule that [OF s])
      show "sem_ok idle p (ekern e2) L'" using l(2) f(1) by simp
      show "sent_to v B e (filter (satisfied e B) (L (Suspend_list v))) e2" using l(6) f unfolding sent_to_def by simp
      have "bit (event_bits e2 v) i \<longleftrightarrow> bit B i \<and>
          \<not> (\<exists>t\<in>set (L (Suspend_list v)). satisfied e B t \<and> clears e t \<and> bit (event_set e t AND B) i)" for i
        using spec [OF l(7), of i] bit_imp_le_length [of B i]
        by (simp only: f(4) fun_upd_same bit_and_iff bit_not_iff possible_bit_word) blast
      then show "\<forall>i. bit (event_bits e2 v) i \<longleftrightarrow> bit B i \<and>
          \<not> (\<exists>t\<in>set (L (Suspend_list v)). satisfied e B t \<and> clears e t \<and> bit (event_set e t AND B) i)" by blast
    qed (use l(3,4) f(4) in simp_all)
  qed
qed

section \<open>The receive, branch by branch\<close>

definition got_now :: "nat \<Rightarrow> u32 \<Rightarrow> u8 \<Rightarrow> nat \<Rightarrow> events \<Rightarrow> events" where
  "got_now v wanted opt t e =
     (let e = (event_errno t RT_EOK e)\<lparr>event_set := (event_set e)(t := event_bits e v AND wanted), event_info := (event_info e)(t := opt)\<rparr>
      in if opt AND RT_EVENT_FLAG_CLEAR \<noteq> 0
         then e\<lparr>event_bits := (event_bits e)(v := event_bits e v AND NOT wanted)\<rparr> else e)"

lemma event_recv_now:
  assumes "recv_status opt wanted (event_bits e v) = Some True" and "wanted \<noteq> 0"
  shows "event_recv v wanted opt timeout sflag t e =
    Some (Recv_returns RT_EOK (Some (event_bits e v AND wanted)), got_now v wanted opt t e)"
  using assms by (simp add: event_recv_def got_now_def event_errno_def Let_def)

lemma event_recv_no_wait:
  assumes "recv_status opt wanted (event_bits e v) = Some False" and "wanted \<noteq> 0"
  shows "event_recv v wanted opt 0 sflag t e = Some (Recv_returns (- RT_ETIMEOUT) None, event_errno t (- RT_ETIMEOUT) e)"
  using assms by (simp add: event_recv_def event_errno_def Let_def)

text \<open>A receive that has to wait suspends its thread just as the take of a semaphore without permits does.\<close>

lemma event_recv_waits:
  assumes "recv_status opt wanted (event_bits e v) = Some False" and "wanted \<noteq> 0" and "timeout \<noteq> 0" and "sem_value (ekern e) v = 0"
  shows "event_recv v wanted opt timeout sflag t e =
    map_option (\<lambda>(r, k). (case r of Take_returns err \<Rightarrow> Recv_returns err None | Take_schedules \<Rightarrow> Recv_schedules,
        e\<lparr>ekern := k, event_set := (event_set e)(t := wanted), event_info := (event_info e)(t := opt)\<rparr>))
      (sem_take v timeout sflag t (ekern e))"
  using assms
  by (cases "ipc_list_suspend v t (object_flag (ekern e) v) sflag ((ekern e)\<lparr>errno := (errno (ekern e))(t := - RT_EINTR)\<rparr>)")
    (auto simp: event_recv_def event_errno_def sem_take_def)

section \<open>Events under way\<close>

text \<open>
  Beside the state of the program: where each thread is, what it asked for last, and for each event the bits that were
  set at the start or sent, and those that threads with the clear option received.
\<close>

record event_run =
  estate :: events
  epc :: "nat \<Rightarrow> pc"
  asked :: "nat \<Rightarrow> u32 \<times> u8"
  sent_bits :: "nat \<Rightarrow> nat set"
  cleared_bits :: "nat \<Rightarrow> nat set"

definition bits_of :: "u32 \<Rightarrow> nat set" where
  "bits_of w = {i. bit w i}"

lemma bits_of_simps [simp]:
  "bits_of 0 = {}" "bits_of (a OR b) = bits_of a \<union> bits_of b" "bits_of (a AND b) = bits_of a \<inter> bits_of b"
  "bits_of a \<inter> bits_of (NOT b) = bits_of a - bits_of b"
  by (auto simp: bits_of_def bit_simps dest: bit_imp_le_length)

definition cleared_by :: "nat \<Rightarrow> recv_result \<Rightarrow> u8 \<Rightarrow> (nat \<Rightarrow> nat set) \<Rightarrow> nat \<Rightarrow> nat set" where
  "cleared_by v r opt c =
     (case r of Recv_returns _ (Some bits) \<Rightarrow> if opt AND RT_EVENT_FLAG_CLEAR \<noteq> 0 then c(v := c v \<union> bits_of bits) else c | _ \<Rightarrow> c)"

text \<open>The bits a send hands to threads with the clear option: those it woke.\<close>

definition cleared_in :: "events \<Rightarrow> events \<Rightarrow> nat set" where
  "cleared_in e e' =
     {i. \<exists>t. errno (ekern e) t = - RT_EINTR \<and> errno (ekern e') t = RT_EOK \<and> clears e' t \<and> bit (event_set e' t) i}"

text \<open>
  One step: the current thread receives, at once or not; it calls the scheduler; it runs again and returns; any thread or
  interrupt sends; an interrupt calls the scheduler; the clock ticks; a timer runs out; a thread yields.
  A receive asks for all or for some bits, as its assertion demands; the thread \<open>idle\<close> does not wait.
\<close>

inductive event_step :: "nat \<Rightarrow> event_run \<Rightarrow> event_run \<Rightarrow> bool" for idle where
  recv_returns: "rt_current_thread (ekern (estate m)) = Some t \<Longrightarrow> epc m t = Outside \<Longrightarrow> valid_option opt \<Longrightarrow>
    event_recv v wanted opt timeout sflag t (estate m) = Some (Recv_returns r bits, e) \<Longrightarrow>
    event_step idle m (m\<lparr>estate := e, cleared_bits := cleared_by v (Recv_returns r bits) opt (cleared_bits m)\<rparr>)"
| recv_waits: "rt_current_thread (ekern (estate m)) = Some t \<Longrightarrow> t \<noteq> idle \<Longrightarrow> epc m t = Outside \<Longrightarrow> valid_option opt \<Longrightarrow>
    event_recv v wanted opt timeout sflag t (estate m) = Some (Recv_schedules, e) \<Longrightarrow>
    event_step idle m (m\<lparr>estate := e, epc := (epc m)(t := Before v), asked := (asked m)(t := (wanted, opt))\<rparr>)"
| recv_switches: "rt_current_thread (ekern (estate m)) = Some t \<Longrightarrow> epc m t = Before v \<Longrightarrow>
    event_step idle m (m\<lparr>estate := event_schedule (estate m), epc := (epc m)(t := After v)\<rparr>)"
| recv_resumes: "rt_current_thread (ekern (estate m)) = Some t \<Longrightarrow> epc m t = After v \<Longrightarrow>
    event_step idle m (m\<lparr>epc := (epc m)(t := Outside)\<rparr>)"
| sends: "event_send v sent (estate m) = Some (r, need_schedule, e) \<Longrightarrow>
    event_step idle m (m\<lparr>estate := e, sent_bits := (sent_bits m)(v := sent_bits m v \<union> bits_of sent),
      cleared_bits := (cleared_bits m)(v := cleared_bits m v \<union> cleared_in (estate m) e)\<rparr>)"
| schedules: "event_step idle m (m\<lparr>estate := event_schedule (estate m)\<rparr>)"
| ticks: "event_step idle m (m\<lparr>estate := (estate m)\<lparr>ekern := rt_tick_increase (ekern (estate m))\<rparr>\<rparr>)"
| times_out: "thread_timer (ekern (estate m)) t \<noteq> None \<Longrightarrow>
    event_step idle m (m\<lparr>estate := (estate m)\<lparr>ekern :=
      thread_timeout t ((ekern (estate m))\<lparr>thread_timer := (thread_timer (ekern (estate m)))(t := None)\<rparr>)\<rparr>\<rparr>)"
| yields: "event_step idle m (m\<lparr>estate := (estate m)\<lparr>ekern := snd (rt_thread_yield (ekern (estate m)))\<rparr>\<rparr>)"

inductive_cases event_stepE: "event_step idle m m'"

text \<open>What meets a request: bits that were asked for, all of them or at least one.\<close>

definition meets :: "u32 \<times> u8 \<Rightarrow> u32 \<Rightarrow> bool" where
  "meets = (\<lambda>(wanted, opt) bits. bits \<noteq> 0 \<and> bits AND wanted = bits \<and> (opt AND RT_EVENT_FLAG_AND \<noteq> 0 \<longrightarrow> bits = wanted))"

lemma meetsI:
  assumes "recv_status opt wanted bits = Some True" and "wanted \<noteq> 0"
  shows "meets (wanted, opt) (wanted AND bits)"
  using assms by (auto simp: meets_def recv_status_def ac_simps split: if_splits)

text \<open>A thread that waits has to go on doing so when bits are cleared.\<close>

lemma fewer_unsatisfied:
  assumes "recv_status opt wanted bits = Some False" and "bits_of fewer \<subseteq> bits_of bits"
  shows "recv_status opt wanted fewer = Some False"
proof -
  have "fewer AND wanted = wanted \<Longrightarrow> bits AND wanted = wanted" and "bits AND wanted = 0 \<Longrightarrow> fewer AND wanted = 0"
    using assms(2) by (auto simp: bit_eq_iff bit_simps bits_of_def)
  with assms(1) show ?thesis by (auto simp: recv_status_def split: if_splits)
qed

text \<open>
  The invariant.  The threads in the list of an event are those that wait for it and were not told an outcome; each
  has its request in its fields, and the bits that are set do not satisfy it.
\<close>

definition event_ok :: "nat \<Rightarrow> event_run \<Rightarrow> (tlist_head \<Rightarrow> nat list) \<Rightarrow> bool" where
  "event_ok idle m L \<longleftrightarrow>
     sem_ok idle (epc m) (ekern (estate m)) L \<and> sem_value (ekern (estate m)) = (\<lambda>_. 0) \<and>
     (\<forall>v t. waits (epc m) v t \<and> errno (ekern (estate m)) t = - RT_EINTR \<longrightarrow>
        asked m t = (event_set (estate m) t, event_info (estate m) t) \<and> event_set (estate m) t \<noteq> 0 \<and>
        recv_status (event_info (estate m) t) (event_set (estate m) t) (event_bits (estate m) v) = Some False) \<and>
     (\<forall>v t. waits (epc m) v t \<and> errno (ekern (estate m)) t = RT_EOK \<longrightarrow>
        meets (asked m t) (event_set (estate m) t) \<and> bits_of (event_set (estate m) t) \<subseteq> sent_bits m v) \<and>
     (\<forall>v. sent_bits m v = bits_of (event_bits (estate m) v) \<union> cleared_bits m v)"

lemma event_okD:
  assumes "event_ok idle m L"
  shows "sem_ok idle (epc m) (ekern (estate m)) L" and "sem_value (ekern (estate m)) = (\<lambda>_. 0)"
    and "\<And>v t. waits (epc m) v t \<Longrightarrow> errno (ekern (estate m)) t = - RT_EINTR \<Longrightarrow>
      asked m t = (event_set (estate m) t, event_info (estate m) t) \<and> event_set (estate m) t \<noteq> 0 \<and>
      recv_status (event_info (estate m) t) (event_set (estate m) t) (event_bits (estate m) v) = Some False"
    and "\<And>v t. waits (epc m) v t \<Longrightarrow> errno (ekern (estate m)) t = RT_EOK \<Longrightarrow>
      meets (asked m t) (event_set (estate m) t) \<and> bits_of (event_set (estate m) t) \<subseteq> sent_bits m v"
    and "\<And>v. sent_bits m v = bits_of (event_bits (estate m) v) \<union> cleared_bits m v"
  using assms unfolding event_ok_def by blast+

lemma event_okI:
  assumes "sem_ok idle (epc m) (ekern (estate m)) L" and "sem_value (ekern (estate m)) = (\<lambda>_. 0)"
    and "\<And>v t. waits (epc m) v t \<Longrightarrow> errno (ekern (estate m)) t = - RT_EINTR \<Longrightarrow>
      asked m t = (event_set (estate m) t, event_info (estate m) t) \<and> event_set (estate m) t \<noteq> 0 \<and>
      recv_status (event_info (estate m) t) (event_set (estate m) t) (event_bits (estate m) v) = Some False"
    and "\<And>v t. waits (epc m) v t \<Longrightarrow> errno (ekern (estate m)) t = RT_EOK \<Longrightarrow>
      meets (asked m t) (event_set (estate m) t) \<and> bits_of (event_set (estate m) t) \<subseteq> sent_bits m v"
    and "\<And>v. sent_bits m v = bits_of (event_bits (estate m) v) \<union> cleared_bits m v"
  shows "event_ok idle m L"
  unfolding event_ok_def using assms by blast

text \<open>Steps that only concern the scheduler.\<close>

lemma event_ok_kernel:
  assumes ok: "event_ok idle m L" and k: "sem_ok idle p k L'" and v: "sem_value k = sem_value (ekern (estate m))"
    and w: "\<And>v t. waits p v t \<Longrightarrow> waits (epc m) v t \<and> (errno k t = errno (ekern (estate m)) t \<or> errno k t = - RT_ETIMEOUT)"
  shows "event_ok idle (m\<lparr>estate := (estate m)\<lparr>ekern := k\<rparr>, epc := p\<rparr>) L'"
proof -
  have old: "waits (epc m) v t \<and> errno (ekern (estate m)) t = x" if "waits p v t" "errno k t = x" "x \<noteq> - RT_ETIMEOUT" for v t x
    using w [OF that(1)] that(2,3) by auto
  have "asked m t = (event_set (estate m) t, event_info (estate m) t) \<and> event_set (estate m) t \<noteq> 0 \<and>
      recv_status (event_info (estate m) t) (event_set (estate m) t) (event_bits (estate m) v) = Some False"
    if "waits p v t" "errno k t = - RT_EINTR" for v t
    by (rule event_okD(3) [OF ok]) (use old [OF that] in simp_all)
  moreover have "meets (asked m t) (event_set (estate m) t) \<and> bits_of (event_set (estate m) t) \<subseteq> sent_bits m v"
    if "waits p v t" "errno k t = RT_EOK" for v t
    by (rule event_okD(4) [OF ok]) (use old [OF that] in simp_all)
  ultimately show ?thesis
    unfolding event_ok_def using k v event_okD(2,5) [OF ok] by simp blast
qed

lemma event_ok_outside:
  assumes ok: "event_ok idle m L" and t: "epc m t = Outside"
  shows "event_ok idle (m\<lparr>estate := event_errno t x (estate m)\<rparr>) L"
proof -
  have "u \<noteq> t" if "waits (epc m) v u" for v u using that t by (auto simp: waits_def)
  then show ?thesis
    using event_ok_kernel [OF ok sem_ok_errno [OF event_okD(1) [OF ok] t, of x]] by (simp add: event_errno_def)
qed

lemma event_ok_got_now:
  assumes ok: "event_ok idle m L" and t: "epc m t = Outside"
    and c: "c = cleared_by v (Recv_returns RT_EOK (Some (event_bits (estate m) v AND wanted))) opt (cleared_bits m)"
  shows "event_ok idle (m\<lparr>estate := got_now v wanted opt t (estate m), cleared_bits := c\<rparr>) L"
proof -
  have no: "\<not> waits (epc m) v t" for v using t by (simp add: waits_def)
  let ?e = "got_now v wanted opt t (estate m)"
  have k: "ekern ?e = (ekern (estate m))\<lparr>errno := (errno (ekern (estate m)))(t := RT_EOK)\<rparr>"
    by (simp add: got_now_def event_errno_def Let_def)
  have f: "event_set ?e u = event_set (estate m) u" "event_info ?e u = event_info (estate m) u" if "u \<noteq> t" for u
    using that by (simp_all add: got_now_def event_errno_def Let_def)
  have b: "event_bits ?e r = (if opt AND RT_EVENT_FLAG_CLEAR \<noteq> 0 \<and> r = v then event_bits (estate m) r AND NOT wanted else event_bits (estate m) r)" for r
    by (simp add: got_now_def event_errno_def Let_def)
  have "sem_ok idle (epc m) (ekern ?e) L" using sem_ok_errno [OF event_okD(1) [OF ok] t] k by simp
  moreover have "asked m u = (event_set ?e u, event_info ?e u) \<and> event_set ?e u \<noteq> 0 \<and>
      recv_status (event_info ?e u) (event_set ?e u) (event_bits ?e r) = Some False"
    if "waits (epc m) r u" "errno (ekern (estate m)) u = - RT_EINTR" for r u
  proof -
    have "u \<noteq> t" using that(1) no by blast
    then show ?thesis using event_okD(3) [OF ok that] by (auto simp: f b intro: fewer_unsatisfied)
  qed
  moreover have "sent_bits m r = bits_of (event_bits ?e r) \<union> c r" for r
    using event_okD(5) [OF ok, of r] by (auto simp: b c cleared_by_def)
  moreover have "meets (asked m u) (event_set ?e u) \<and> bits_of (event_set ?e u) \<subseteq> sent_bits m r"
    if "waits (epc m) r u" "errno (ekern (estate m)) u = RT_EOK" for r u
  proof -
    have "u \<noteq> t" using that(1) no by blast
    then show ?thesis using event_okD(4) [OF ok that] by (simp add: f)
  qed
  moreover have "u \<noteq> t" if "waits (epc m) r u" for r u using that no by blast
  ultimately show ?thesis
    using event_okD(2) [OF ok] by (intro event_okI) (simp_all add: k)
qed

lemma recv_keeps:
  assumes ok: "event_ok idle m L" and t: "rt_current_thread (ekern (estate m)) = Some t" "epc m t = Outside"
    and opt: "valid_option opt" and r: "event_recv v wanted opt timeout sflag t (estate m) = Some (Recv_returns r bits, e)"
  shows "event_ok idle (m\<lparr>estate := e, cleared_bits := cleared_by v (Recv_returns r bits) opt (cleared_bits m)\<rparr>) L"
proof -
  note d = sem_okD [OF event_okD(1) [OF ok]]
  have run: "stat (ekern (estate m)) t = RT_THREAD_RUNNING" using d(4) t by auto
  obtain now where now: "recv_status opt wanted (event_bits (estate m) v) = Some now"
    using opt valid_option_status by blast
  have none: "event_ok idle (m\<lparr>estate := e, cleared_bits := cleared_by v (Recv_returns x None) opt (cleared_bits m)\<rparr>) L"
    if "event_ok idle (m\<lparr>estate := e\<rparr>) L" for e x
  proof -
    have "m\<lparr>estate := e, cleared_bits := cleared_by v (Recv_returns x None) opt (cleared_bits m)\<rparr> = m\<lparr>estate := e\<rparr>"
      by (simp add: cleared_by_def)
    with that show ?thesis by (simp only:)
  qed
  consider "wanted = 0" | "wanted \<noteq> 0" now | "wanted \<noteq> 0" "\<not> now" "timeout = 0" | "wanted \<noteq> 0" "\<not> now" "timeout \<noteq> 0" by blast
  then show ?thesis
  proof cases
    case 1
    then have "r = - RT_ERROR" "bits = None" "e = estate m" using r by (auto simp: event_recv_def)
    moreover have "m\<lparr>estate := estate m\<rparr> = m" by simp
    ultimately show ?thesis using none [of "estate m"] ok by (simp only:)
  next
    case 2
    then have "event_recv v wanted opt timeout sflag t (estate m) =
        Some (Recv_returns RT_EOK (Some (event_bits (estate m) v AND wanted)), got_now v wanted opt t (estate m))"
      by (intro event_recv_now) (simp_all add: now)
    with r have "r = RT_EOK" "bits = Some (event_bits (estate m) v AND wanted)" "e = got_now v wanted opt t (estate m)" by simp_all
    then show ?thesis using event_ok_got_now [OF ok t(2) refl] by (simp only:)
  next
    case 3
    then have "event_recv v wanted opt timeout sflag t (estate m) =
        Some (Recv_returns (- RT_ETIMEOUT) None, event_errno t (- RT_ETIMEOUT) (estate m))"
      using event_recv_no_wait now by simp
    with r have "r = - RT_ETIMEOUT" "bits = None" "e = event_errno t (- RT_ETIMEOUT) (estate m)" by simp_all
    then show ?thesis using none [OF event_ok_outside [OF ok t(2)]] by (simp only:)
  next
    case 4
    have v: "sem_value (ekern (estate m)) v = 0" by (simp add: event_okD(2) [OF ok])
    obtain k where "sem_take v timeout sflag t (ekern (estate m)) = Some (Take_schedules, k)"
      by (rule sem_take_waits [OF d(1) t(1) run v 4(3), of sflag]) blast
    then have False using r event_recv_waits [of opt wanted "estate m" v timeout sflag t] 4 now v by simp
    then show ?thesis ..
  qed
qed

lemma recv_wait_keeps:
  assumes ok: "event_ok idle m L" and t: "rt_current_thread (ekern (estate m)) = Some t" "t \<noteq> idle" "epc m t = Outside"
    and opt: "valid_option opt" and r: "event_recv v wanted opt timeout sflag t (estate m) = Some (Recv_schedules, e)"
  obtains L' where "event_ok idle (m\<lparr>estate := e, epc := (epc m)(t := Before v), asked := (asked m)(t := (wanted, opt))\<rparr>) L'"
proof -
  obtain now where now: "recv_status opt wanted (event_bits (estate m) v) = Some now"
    using opt valid_option_status by blast
  have v: "sem_value (ekern (estate m)) v = 0" by (simp add: event_okD(2) [OF ok])
  have w: "wanted \<noteq> 0" using r by (auto simp: event_recv_def)
  have nn: "\<not> now"
  proof
    assume now
    with now have "recv_status opt wanted (event_bits (estate m) v) = Some True" by simp
    from event_recv_now [OF this w] r show False by simp
  qed
  then have to: "timeout \<noteq> 0" using r event_recv_no_wait [of opt wanted "estate m" v sflag t] now w by auto
  from r event_recv_waits [of opt wanted "estate m" v timeout sflag t] now nn w to v obtain k where
    k: "sem_take v timeout sflag t (ekern (estate m)) = Some (Take_schedules, k)"
    and e: "e = (estate m)\<lparr>ekern := k, event_set := (event_set (estate m))(t := wanted), event_info := (event_info (estate m))(t := opt)\<rparr>"
    by (auto split: take_result.splits) (metis take_result.exhaust)
  obtain L' where L': "sem_ok idle ((epc m)(t := Before v)) k L'" "errno k = (errno (ekern (estate m)))(t := - RT_EINTR)"
    "sem_value k = sem_value (ekern (estate m))"
    by (rule sem_ok_take_waits [OF event_okD(1) [OF ok] t(1,3,2) k])
  have w': "waits ((epc m)(t := Before v)) r u \<longleftrightarrow> (if u = t then r = v else waits (epc m) r u)" for r u
    using t(3) by (auto simp: waits_def)
  have "event_ok idle (m\<lparr>estate := e, epc := (epc m)(t := Before v), asked := (asked m)(t := (wanted, opt))\<rparr>) L'"
    unfolding event_ok_def e using L' now nn w event_okD(2,5) [OF ok] event_okD(3,4) [OF ok] by (auto simp: w')
  then show ?thesis by (rule that)
qed

lemma send_keeps:
  assumes ok: "event_ok idle m L" and s: "event_send v sent (estate m) = Some (r, need_schedule, e)"
  obtains L' where "event_ok idle (m\<lparr>estate := e, sent_bits := (sent_bits m)(v := sent_bits m v \<union> bits_of sent),
      cleared_bits := (cleared_bits m)(v := cleared_bits m v \<union> cleared_in (estate m) e)\<rparr>) L'"
proof (cases "sent = 0")
  case True
  then have "e = estate m" using s by (simp add: event_send_def)
  moreover have "cleared_in (estate m) (estate m) = {}" by (auto simp: cleared_in_def)
  ultimately show ?thesis using that [of L] ok True by simp
next
  case False
  note d = event_okD [OF ok] and sd = sem_okD [OF event_okD(1) [OF ok]] and mem = sem_ok_members [OF event_okD(1) [OF ok]]
  let ?e = "estate m" and ?L = "L (Suspend_list v)"
  define B where "B = event_bits ?e v OR sent"
  have valid: "valid_option (event_info ?e t)" if "t \<in> set ?L" for t
    using d(3) [of v t] that mem valid_option_status by fastforce
  obtain e' L' where e': "event_send v sent ?e = Some (RT_EOK, \<exists>t\<in>set ?L. satisfied ?e B t, e')"
    "sem_ok idle (epc m) (ekern e') L'" "L' (Suspend_list v) = filter (\<lambda>t. \<not> satisfied ?e B t) ?L"
    "\<forall>r. r \<noteq> v \<longrightarrow> L' (Suspend_list r) = L (Suspend_list r)"
    "sent_to v B ?e (filter (satisfied ?e B) ?L) e'" "\<forall>r. r \<noteq> v \<longrightarrow> event_bits e' r = event_bits ?e r"
    "\<forall>i. bit (event_bits e' v) i \<longleftrightarrow> bit B i \<and> \<not> (\<exists>t\<in>set ?L. satisfied ?e B t \<and> clears ?e t \<and> bit (event_set ?e t AND B) i)"
    unfolding B_def by (rule event_send_ok [OF d(1) False valid])
  have e: "e = e'" using s e'(1) by simp
  note f = e'(5) [unfolded sent_to_def]
  let ?woken = "\<lambda>t. t \<in> set ?L \<and> satisfied ?e B t"
  have info: "event_info e' = event_info ?e" and semv: "sem_value (ekern e') = sem_value (ekern ?e)"
    and eset: "event_set e' t = (if ?woken t then event_set ?e t AND B else event_set ?e t)"
    and err: "errno (ekern e') t = (if ?woken t then RT_EOK else errno (ekern ?e) t)" for t
    using f by simp_all
  have woken: "waits (epc m) v t \<and> errno (ekern ?e) t = - RT_EINTR" if "?woken t" for t using that mem by blast
  have cin: "cleared_in ?e e' = {i. \<exists>t\<in>set ?L. satisfied ?e B t \<and> clears ?e t \<and> bit (event_set ?e t AND B) i}" (is "_ = ?C")
  proof -
    have "clears e' t = clears ?e t" for t by (simp add: clears_def info)
    moreover have "errno (ekern ?e) t = - RT_EINTR \<and> errno (ekern e') t = RT_EOK \<longleftrightarrow> ?woken t" for t
      using woken [of t] by (auto simp: err)
    ultimately show ?thesis unfolding cleared_in_def by (auto simp: eset)
  qed
  have new: "bits_of (event_bits e' v) = bits_of B - ?C" by (auto simp: bits_of_def e'(7))
  have C: "?C \<subseteq> bits_of B" by (auto simp: bits_of_def bit_and_iff)
  have B: "bits_of B = bits_of (event_bits ?e v) \<union> bits_of sent" by (simp add: B_def)
  show ?thesis
  proof (rule that [of L'], unfold e, rule event_okI, goal_cases)
    case (3 r t)
    then have t: "waits (epc m) r t" "errno (ekern ?e) t = - RT_EINTR" "\<not> ?woken t" by (simp_all add: err split: if_splits)
    note o = d(3) [OF t(1,2)]
    have "recv_status (event_info ?e t) (event_set ?e t) (event_bits e' r) = Some False"
    proof (cases "r = v")
      case True
      then have l: "t \<in> set ?L" using mem t by blast
      then have "recv_status (event_info ?e t) (event_set ?e t) B \<noteq> None" using valid valid_option_status by blast
      with l have "recv_status (event_info ?e t) (event_set ?e t) B = Some False"
        using t(3) by (auto simp: satisfied_def)
      then show ?thesis by (rule fewer_unsatisfied) (use True new in blast)
    next
      case False
      then show ?thesis using o e'(6) by simp
    qed
    then show ?case using o t(3) by (auto simp: info eset)
  next
    case (4 r t)
    then have w: "waits (epc m) r t" by simp
    show ?case
    proof (cases "?woken t")
      case True
      then have "r = v" using waits_one [OF w] woken by blast
      moreover have "asked m t = (event_set ?e t, event_info ?e t)" "event_set ?e t \<noteq> 0" using d(3) [of v t] woken [OF True] by auto
      ultimately show ?thesis
        using True meetsI [of "event_info ?e t" "event_set ?e t" B] d(5) [of v] by (auto simp: eset satisfied_def B)
    next
      case False
      then have "errno (ekern ?e) t = RT_EOK" using 4 by (auto simp: err split: if_splits)
      from d(4) [OF w this] show ?thesis using False by (auto simp: eset)
    qed
  next
    case (5 r)
    show ?case using d(5) [of r] C by (auto simp: cin new B e'(6))
  qed (use e'(2) semv d(2) in simp_all)
qed

lemma event_step_keeps:
  assumes "event_step idle m m'" and "\<exists>L. event_ok idle m L"
  shows "\<exists>L. event_ok idle m' L"
proof -
  obtain L where ok: "event_ok idle m L" using assms(2) ..
  note s = event_okD(1) [OF ok]
  have kernel: "\<exists>L. event_ok idle (m\<lparr>estate := (estate m)\<lparr>ekern := k\<rparr>\<rparr>) L"
    if "sem_ok idle (epc m) k L'" "sem_value k = sem_value (ekern (estate m))"
      "\<And>t. errno k t = errno (ekern (estate m)) t \<or> errno k t = - RT_ETIMEOUT" for k L'
    using event_ok_kernel [OF ok that(1,2)] that(3) by auto
  from assms(1) show ?thesis
  proof cases
    case recv_returns
    then show ?thesis using recv_keeps [OF ok] by blast
  next
    case recv_waits
    show ?thesis unfolding recv_waits(1) by (rule recv_wait_keeps [OF ok recv_waits(2-6)]) blast
  next
    case (recv_switches t v)
    obtain L' where "sem_ok idle ((epc m)(t := After v)) (rt_schedule (ekern (estate m))) L'"
      by (rule sem_ok_schedule [OF s]) (use recv_switches(3) in blast)
    then show ?thesis
      unfolding recv_switches(1) event_schedule_def
      using recv_switches(3) by (intro exI [of _ L'] event_ok_kernel [OF ok]) (auto simp: kernel_frame waits_def split: if_splits)
  next
    case (recv_resumes t v)
    have w: "waits ((epc m)(t := Outside)) r u \<longleftrightarrow> u \<noteq> t \<and> waits (epc m) r u" for r u by (auto simp: waits_def)
    from event_ok_kernel [OF ok sem_ok_leaves [OF s recv_resumes(2,3)]]
    show ?thesis unfolding recv_resumes(1) by (intro exI [of _ L]) (simp add: w)
  next
    case sends
    show ?thesis unfolding sends(1) by (rule send_keeps [OF ok sends(2)]) blast
  next
    case schedules
    obtain L' where "sem_ok idle (epc m) (rt_schedule (ekern (estate m))) L'" by (rule sem_ok_schedule [OF s])
    then show ?thesis unfolding schedules event_schedule_def by (rule kernel) (simp_all add: kernel_frame)
  next
    case ticks
    obtain L' where "sem_ok idle (epc m) (rt_tick_increase (ekern (estate m))) L'" by (rule sem_ok_tick [OF s])
    then show ?thesis unfolding ticks by (rule kernel) (simp_all add: kernel_frame)
  next
    case (times_out t)
    let ?k = "thread_timeout t ((ekern (estate m))\<lparr>thread_timer := (thread_timer (ekern (estate m)))(t := None)\<rparr>)"
    obtain L' where "sem_ok idle (epc m) ?k L'" "errno ?k = (errno (ekern (estate m)))(t := - RT_ETIMEOUT)"
      by (rule sem_ok_times_out [OF s times_out(2)])
    moreover have "sem_value ?k = sem_value (ekern (estate m))" by (simp add: thread_timeout_def k_assert_def kernel_frame)
    ultimately show ?thesis unfolding times_out(1) by (intro kernel [of ?k L']) simp_all
  next
    case yields
    obtain L' where "sem_ok idle (epc m) (snd (rt_thread_yield (ekern (estate m)))) L'" by (rule sem_ok_yield [OF s])
    then show ?thesis unfolding yields by (rule kernel) (simp_all add: kernel_frame)
  qed
qed

interpretation event_run: step_relation "event_step idle" "\<lambda>m. \<exists>L. event_ok idle m L" for idle
  by unfold_locales (rule event_step_keeps)

text \<open>A start: nobody waits, a thread runs, and the idle thread can; the bits may be set.\<close>

definition event_start :: "nat \<Rightarrow> events \<Rightarrow> bool" where
  "event_start idle e \<longleftrightarrow> sem_start idle (ekern e) \<and> sem_value (ekern e) = (\<lambda>_. 0)"

definition events_from :: "events \<Rightarrow> event_run" where
  "events_from e =
     \<lparr>estate = e, epc = (\<lambda>_. Outside), asked = (\<lambda>_. (0, 0)), sent_bits = (\<lambda>v. bits_of (event_bits e v)), cleared_bits = (\<lambda>_. {})\<rparr>"

lemma event_start_ok:
  assumes "event_start idle e"
  shows "\<exists>L. event_ok idle (events_from e) L"
proof -
  from assms have "sem_start idle (ekern e)" and v: "sem_value (ekern e) = (\<lambda>_. 0)" by (simp_all add: event_start_def)
  from start_inv [OF this(1)] obtain L where "sem_ok idle (\<lambda>_. Outside) (ekern e) L"
    by (auto simp: sem_inv_def start_of_def)
  then have "event_ok idle (events_from e) L"
    by (intro event_okI) (simp_all add: events_from_def waits_def v)
  then show ?thesis by blast
qed

lemma event_run_ok:
  assumes "event_start idle e" and "(event_step idle)\<^sup>*\<^sup>* (events_from e) m"
  obtains L where "event_ok idle m L"
  using event_run.run_keeps [OF assms(2) event_start_ok [OF assms(1)]] by blast

section \<open>What events promise\<close>

text \<open>
  C10: no event is missed.  However receives, sends, interrupts, time slices, timeouts and task switches are
  interleaved, a thread that waits and was told no outcome is suspended, and the bits that are set do not satisfy what
  it asked for.
\<close>

theorem event_no_lost_wakeup:
  assumes "event_start idle e" and "(event_step idle)\<^sup>*\<^sup>* (events_from e) m"
    and "waits (epc m) v t" and "errno (ekern (estate m)) t = - RT_EINTR"
  shows "is_suspended (stat (ekern (estate m)) t) \<and>
    recv_status (snd (asked m t)) (fst (asked m t)) (event_bits (estate m) v) = Some False"
proof -
  obtain L where ok: "event_ok idle m L" by (rule event_run_ok [OF assms(1,2)])
  have "t \<in> set (L (Suspend_list v))" using sem_ok_members [OF event_okD(1) [OF ok]] assms(3,4) by simp
  then have "is_suspended (stat (ekern (estate m)) t)"
    using lists_okD(3) [OF sched_okD(1) [OF sem_okD(1) [OF event_okD(1) [OF ok]]]] by blast
  then show ?thesis using event_okD(3) [OF ok assms(3,4)] by simp
qed

text \<open>
  A receive that had to wait comes back with a timeout, or with bits that answer its request (all of those
  asked for, or at least one) and that were set at the start or sent.
\<close>

theorem event_recv_result:
  assumes "event_start idle e" and "(event_step idle)\<^sup>*\<^sup>* (events_from e) m"
    and "rt_current_thread (ekern (estate m)) = Some t" and "epc m t = After v"
  shows "event_recv_resumed t (estate m) = (- RT_ETIMEOUT, None) \<or>
    (\<exists>bits. event_recv_resumed t (estate m) = (RT_EOK, Some bits) \<and> meets (asked m t) bits \<and> bits_of bits \<subseteq> sent_bits m v)"
proof -
  obtain L where ok: "event_ok idle m L" by (rule event_run_ok [OF assms(1,2)])
  note s = event_okD(1) [OF ok]
  have "stat (ekern (estate m)) t = RT_THREAD_RUNNING" using sem_okD(4) [OF s] assms(3,4) by auto
  then have "t \<notin> set (L (Suspend_list v))" using not_listed [OF sem_okD(1) [OF s]] by simp
  moreover have w: "waits (epc m) v t" using assms(4) by (simp add: waits_def)
  ultimately have "errno (ekern (estate m)) t = RT_EOK \<or> errno (ekern (estate m)) t = - RT_ETIMEOUT"
    using sem_okD(9) [OF s w] by blast
  then show ?thesis using event_okD(4) [OF ok w] by (auto simp: event_recv_resumed_def)
qed

text \<open>
  No bit disappears and none is made up: the bits set at the start or sent are those still set and those that
  threads with the clear option received.
\<close>

theorem event_bits_conserved:
  assumes "event_start idle e" and "(event_step idle)\<^sup>*\<^sup>* (events_from e) m"
  shows "sent_bits m v = bits_of (event_bits (estate m) v) \<union> cleared_bits m v"
proof -
  obtain L where "event_ok idle m L" by (rule event_run_ok [OF assms])
  then show ?thesis by (rule event_okD(5))
qed

text \<open>
  C11: a send wakes exactly the waiting threads that the bits now satisfy, in one go and whatever the clear options
  of the others: each gets the bits it asked for, its timer is stopped and it can run.  The others wait on in their order.
  Afterwards the bits that went to threads with the clear option are gone.
\<close>

theorem event_send_wakes:
  assumes ok: "sem_ok idle p (ekern e) L" and sent: "sent \<noteq> 0"
    and valid: "\<And>t. t \<in> set (L (Suspend_list v)) \<Longrightarrow> valid_option (event_info e t)"
  shows "\<exists>e' L'. rt_event_send v sent e = Some (RT_EOK, e') \<and> sem_ok idle p (ekern e') L' \<and>
    L' (Suspend_list v) = filter (\<lambda>t. \<not> satisfied e (event_bits e v OR sent) t) (L (Suspend_list v)) \<and>
    (\<forall>t. t \<in> set (L (Suspend_list v)) \<and> satisfied e (event_bits e v OR sent) t \<longrightarrow>
      event_recv_resumed t e' = (RT_EOK, Some (event_set e t AND (event_bits e v OR sent))) \<and>
      thread_timer (ekern e') t = None \<and> runnable (stat (ekern e') t)) \<and>
    bits_of (event_bits e' v) = bits_of (event_bits e v OR sent) -
      (\<Union>t\<in>{t \<in> set (L (Suspend_list v)). satisfied e (event_bits e v OR sent) t \<and> clears e t}. bits_of (event_set e t))"
proof -
  let ?B = "event_bits e v OR sent"
  obtain e1 L1 where e1: "event_send v sent e = Some (RT_EOK, \<exists>t\<in>set (L (Suspend_list v)). satisfied e ?B t, e1)"
    "sem_ok idle p (ekern e1) L1" "L1 (Suspend_list v) = filter (\<lambda>t. \<not> satisfied e ?B t) (L (Suspend_list v))"
    "sent_to v ?B e (filter (satisfied e ?B) (L (Suspend_list v))) e1"
    "\<forall>i. bit (event_bits e1 v) i \<longleftrightarrow> bit ?B i \<and>
      \<not> (\<exists>t\<in>set (L (Suspend_list v)). satisfied e ?B t \<and> clears e t \<and> bit (event_set e t AND ?B) i)"
    by (rule event_send_ok [OF ok sent valid])
  obtain L2 where L2: "sem_ok idle p (rt_schedule (ekern e1)) L2" "\<And>r. L2 (Suspend_list r) = L1 (Suspend_list r)"
    "\<And>t. runnable (stat (rt_schedule (ekern e1)) t) = runnable (stat (ekern e1) t)"
    by (rule sem_ok_schedule [OF e1(2)]) blast
  let ?some = "\<exists>t\<in>set (L (Suspend_list v)). satisfied e ?B t"
  define e2 where "e2 = (if ?some then event_schedule e1 else e1)"
  have f: "event_set e2 = event_set e1" "event_bits e2 = event_bits e1" "errno (ekern e2) = errno (ekern e1)"
    "thread_timer (ekern e2) = thread_timer (ekern e1)" "\<And>t. runnable (stat (ekern e2) t) = runnable (stat (ekern e1) t)"
    using L2(3) by (simp_all add: e2_def event_schedule_def kernel_frame)
  have "rt_event_send v sent e = Some (RT_EOK, e2)" by (simp add: rt_event_send_def e1(1) e2_def)
  moreover have "sem_ok idle p (ekern e2) (if ?some then L2 else L1)" using L2(1) e1(2) by (simp add: e2_def event_schedule_def)
  moreover have "(if ?some then L2 else L1) (Suspend_list v) = filter (\<lambda>t. \<not> satisfied e ?B t) (L (Suspend_list v))"
    using L2(2) e1(3) by simp
  moreover have "event_recv_resumed t e2 = (RT_EOK, Some (event_set e t AND ?B)) \<and> thread_timer (ekern e2) t = None \<and> runnable (stat (ekern e2) t)"
    if "t \<in> set (L (Suspend_list v)) \<and> satisfied e ?B t" for t
    using e1(4) that unfolding sent_to_def f event_recv_resumed_def by (simp add: runnable_def)
  moreover have "bits_of (event_bits e2 v) = bits_of ?B -
      (\<Union>t\<in>{t \<in> set (L (Suspend_list v)). satisfied e ?B t \<and> clears e t}. bits_of (event_set e t))"
    unfolding f bits_of_def by (auto simp: e1(5) bit_and_iff)
  ultimately show ?thesis by blast
qed

text \<open>
  A reset ends: every waiting thread can run again and finds an error, and no bit is set.
\<close>

theorem event_reset_ends:
  assumes k: "sched_ok (ekern e) L" and c: "rt_current_thread (ekern e) = Some c"
  shows "\<exists>e' L'. rt_event_control v RT_IPC_CMD_RESET e = Some (RT_EOK, e') \<and> sched_ok (ekern e') L' \<and>
    L' (Suspend_list v) = [] \<and> event_bits e' v = 0 \<and>
    (\<forall>t\<in>set (L (Suspend_list v)). event_recv_resumed t e' = (- RT_ERROR, None) \<and> runnable (stat (ekern e') t))"
proof -
  from resume_all_ok [OF k, of v] obtain k1 L1 where
    r: "ipc_list_resume_all v (ekern e) = Some k1" "sched_ok k1 L1" "L1 (Suspend_list v) = []"
      "rt_current_thread k1 = rt_current_thread (ekern e)"
      "\<And>t. errno k1 t = (if t \<in> set (L (Suspend_list v)) then - RT_ERROR else errno (ekern e) t)"
      "\<And>t. stat k1 t = (if t \<in> set (L (Suspend_list v))
         then if rt_current_thread (ekern e) = Some t then RT_THREAD_RUNNING else RT_THREAD_READY else stat (ekern e) t)" by auto
  obtain L2 where L2: "sched_ok (rt_schedule k1) L2" "\<And>s. L2 (Suspend_list s) = L1 (Suspend_list s)"
    "\<And>t. runnable (stat (rt_schedule k1) t) = runnable (stat k1 t)"
    by (rule schedule_ok [OF r(2)]) (use r(4) c in auto)
  have "runnable (stat k1 t)" if "t \<in> set (L (Suspend_list v))" for t using that by (simp add: r(6) runnable_def)
  then show ?thesis
    by (intro exI [of _ "event_schedule (e\<lparr>ekern := k1, event_bits := (event_bits e)(v := 0)\<rparr>)"] exI [of _ L2])
      (simp add: rt_event_control_def r L2 event_schedule_def event_recv_resumed_def kernel_frame)
qed

section \<open>Events on a kernel that runs\<close>

definition demo_event :: events where
  "demo_event = snd (rt_event_init 7 RT_IPC_FLAG_PRIO
     \<lparr>ekern = demo, event_bits = (\<lambda>_. 0), event_set = (\<lambda>_. 0), event_info = (\<lambda>_. 0)\<rparr>)"

lemma demo_event_kern:
  "ekern demo_event = demo\<lparr>object_flag := (object_flag demo)(7 := RT_IPC_FLAG_PRIO)\<rparr>" "event_bits demo_event = (\<lambda>_. 0)"
  using init_empty_list [OF demo_ok(1), of 7] by (simp_all add: demo_event_def rt_event_init_def demo_lists_def fun_upd_idem)

lemma demo_event_ok: "sched_ok (ekern demo_event) demo_lists"
  using demo_ok(1) unfolding demo_event_kern by (simp add: sched_ok_def lists_ok_def)

lemma demo_event_start: "event_start 0 demo_event"
  unfolding event_start_def sem_start_def using demo_event_ok demo_ok
  by (auto simp: demo_event_kern demo_value demo_lists_def runnable_def intro!: exI [of _ demo_lists])

text \<open>
  The running thread asks for the bits 0 and 1, clearing them, and has to wait; before it gives up the processor an
  interrupt sends bit 0, which is not enough, and then bits 1 and 2.  Then it gets what it asked for.
\<close>

lemma demo_event_run:
  obtains m2 L2 m4 where "(event_step 0)\<^sup>*\<^sup>* (events_from demo_event) m2" "event_ok 0 m2 L2" "L2 (Suspend_list 7) = [2]"
    "epc m2 2 = Before 7" "errno (ekern (estate m2)) 2 = - RT_EINTR" "asked m2 2 = (3, 5)" "event_bits (estate m2) 7 = 1"
    "(event_step 0)\<^sup>*\<^sup>* (events_from demo_event) m4" "rt_current_thread (ekern (estate m4)) = Some 2" "epc m4 2 = After 7"
    "event_recv_resumed 2 (estate m4) = (RT_EOK, Some 3)" "event_bits (estate m4) 7 = 4"
proof -
  let ?m0 = "events_from demo_event"
  obtain L0 where ok0: "event_ok 0 ?m0 L0" using event_start_ok [OF demo_event_start] by blast
  have c0: "rt_current_thread (ekern demo_event) = Some 2" and run: "stat (ekern demo_event) 2 = RT_THREAD_RUNNING"
    and v0: "sem_value (ekern demo_event) 7 = 0" by (simp_all add: demo_event_kern demo_ok demo_value)
  obtain k1 where k1: "sem_take 7 3 RT_UNINTERRUPTIBLE 2 (ekern demo_event) = Some (Take_schedules, k1)"
    "stat k1 = (stat (ekern demo_event))(2 := RT_THREAD_SUSPEND_UNINTERRUPTIBLE)" "errno k1 = (errno (ekern demo_event))(2 := - RT_EINTR)"
    "rt_current_thread k1 = Some 2" "current_priority k1 = current_priority (ekern demo_event)"
    by (rule sem_take_waits [OF demo_event_ok c0 run v0, of 3 RT_UNINTERRUPTIBLE]) (auto simp: c0)
  define e1 where "e1 = demo_event\<lparr>ekern := k1, event_set := (event_set demo_event)(2 := 3), event_info := (event_info demo_event)(2 := 5)\<rparr>"
  have flags: "(5::u8) AND RT_EVENT_FLAG_AND \<noteq> 0" "(5::u8) AND RT_EVENT_FLAG_CLEAR \<noteq> 0"
    by (simp_all add: RT_EVENT_FLAG_AND_def RT_EVENT_FLAG_CLEAR_def)
  have recv: "event_recv 7 3 5 3 RT_UNINTERRUPTIBLE 2 demo_event = Some (Recv_schedules, e1)"
    using event_recv_waits [of 5 3 demo_event 7 3 RT_UNINTERRUPTIBLE 2] flags
    by (simp add: recv_status_def demo_event_kern(2) v0 k1(1) e1_def)
  define m1 where "m1 = ?m0\<lparr>estate := e1, epc := (epc ?m0)(2 := Before 7), asked := (asked ?m0)(2 := (3, 5))\<rparr>"
  have s1: "event_step 0 ?m0 m1"
    unfolding m1_def by (rule event_step.recv_waits) (use c0 recv flags in \<open>simp_all add: events_from_def valid_option_def\<close>)
  then obtain L1 where ok1: "event_ok 0 m1 L1" using event_run_ok [OF demo_event_start] by blast
  note o1 = event_okD(1) [OF ok1]
  have f1: "epc m1 = (\<lambda>_. Outside)(2 := Before 7)" "estate m1 = e1" "asked m1 2 = (3, 5)" by (simp_all add: m1_def events_from_def)
  have f1': "ekern e1 = k1" "event_bits e1 7 = 0" "event_set e1 2 = 3" "event_info e1 2 = 5"
    by (simp_all add: e1_def demo_event_kern(2))
  have l1: "L1 (Suspend_list 7) = [2]"
    by (rule only_member [OF rings_distinct [OF lists_okD(1) [OF sched_okD(1) [OF sem_okD(1) [OF o1]]]]])
      (use k1(3) in \<open>auto simp: sem_ok_members [OF o1] f1 f1' waits_def\<close>)
  have valid: "valid_option (event_info e1 t)" if "t \<in> set (L1 (Suspend_list 7))" for t
    using that flags by (simp add: l1 f1' valid_option_def)
  have no: "\<not> satisfied e1 (event_bits e1 7 OR 1) 2" "\<not> satisfied e1 1 2"
    using flags by (simp_all add: satisfied_def recv_status_def f1')
  obtain e2 L2 where e2: "event_send 7 1 e1 = Some (RT_EOK, \<exists>t\<in>set (L1 (Suspend_list 7)). satisfied e1 (event_bits e1 7 OR 1) t, e2)"
    "sem_ok 0 (epc m1) (ekern e2) L2"
    "L2 (Suspend_list 7) = filter (\<lambda>t. \<not> satisfied e1 (event_bits e1 7 OR 1) t) (L1 (Suspend_list 7))"
    "sent_to 7 (event_bits e1 7 OR 1) e1 (filter (satisfied e1 (event_bits e1 7 OR 1)) (L1 (Suspend_list 7))) e2"
    "\<forall>i. bit (event_bits e2 7) i \<longleftrightarrow> bit (event_bits e1 7 OR 1) i \<and> \<not> (\<exists>t\<in>set (L1 (Suspend_list 7)).
      satisfied e1 (event_bits e1 7 OR 1) t \<and> clears e1 t \<and> bit (event_set e1 t AND (event_bits e1 7 OR 1)) i)"
    by (rule event_send_ok [OF o1 [unfolded f1(2)], of 1 7]) (use valid in simp_all)
  note g2 = e2(1,3-5) [unfolded l1, simplified no, simplified]
  have f2: "event_bits e2 7 = 1" using g2(4) no by (simp add: f1' bit_eq_iff)
  have f2': "event_set e2 2 = 3" "event_info e2 2 = 5" "errno (ekern e2) 2 = - RT_EINTR" "rt_current_thread (ekern e2) = Some 2"
    "stat (ekern e2) = stat k1" "current_priority (ekern e2) = current_priority k1" "yield (ekern e2) = yield k1"
    using g2(3) k1(3,4) unfolding sent_to_def by (auto simp: f1' no)
  define m2 where "m2 = m1\<lparr>estate := e2, sent_bits := (sent_bits m1)(7 := sent_bits m1 7 \<union> bits_of 1),
      cleared_bits := (cleared_bits m1)(7 := cleared_bits m1 7 \<union> cleared_in (estate m1) e2)\<rparr>"
  have s2: "event_step 0 m1 m2" unfolding m2_def by (rule event_step.sends) (simp only: f1 g2(1))
  have r2: "(event_step 0)\<^sup>*\<^sup>* ?m0 m2" using s1 s2 by simp
  obtain L2' where ok2: "event_ok 0 m2 L2'" by (rule event_run_ok [OF demo_event_start r2])
  have f2m: "epc m2 = epc m1" "estate m2 = e2" "asked m2 2 = (3, 5)" by (simp_all add: m2_def f1)
  note o2 = event_okD(1) [OF ok2, unfolded f2m]
  have l2: "L2' (Suspend_list 7) = [2]"
    by (rule only_member [OF rings_distinct [OF lists_okD(1) [OF sched_okD(1) [OF sem_okD(1) [OF o2]]]]])
      (use f2'(3) in \<open>auto simp: sem_ok_members [OF o2] f1 waits_def\<close>)
  have valid2: "valid_option (event_info e2 t)" if "t \<in> set (L2' (Suspend_list 7))" for t
    using that flags by (simp add: l2 f2' valid_option_def)
  have yes: "satisfied e2 (event_bits e2 7 OR 6) 2" "satisfied e2 7 2" "clears e2 2"
    using flags by (simp_all add: satisfied_def recv_status_def f2 f2' clears_def)
  obtain e3 where e3: "event_send 7 6 e2 = Some (RT_EOK, \<exists>t\<in>set (L2' (Suspend_list 7)). satisfied e2 (event_bits e2 7 OR 6) t, e3)"
    "sent_to 7 (event_bits e2 7 OR 6) e2 (filter (satisfied e2 (event_bits e2 7 OR 6)) (L2' (Suspend_list 7))) e3"
    "\<forall>i. bit (event_bits e3 7) i \<longleftrightarrow> bit (event_bits e2 7 OR 6) i \<and> \<not> (\<exists>t\<in>set (L2' (Suspend_list 7)).
      satisfied e2 (event_bits e2 7 OR 6) t \<and> clears e2 t \<and> bit (event_set e2 t AND (event_bits e2 7 OR 6)) i)"
    by (rule event_send_ok [OF o2, of 6 7]) (use valid2 in simp_all)
  note g3 = e3 [unfolded l2]
  have "event_bits e3 7 = (event_bits e2 7 OR 6) AND NOT (event_set e2 2 AND (event_bits e2 7 OR 6))"
    by (rule bit_eqI) (use g3(3) yes in \<open>auto simp: bit_simps\<close>)
  then have f3: "event_bits e3 7 = 4" by (simp add: f2 f2')
  have f3': "event_set e3 2 = 3" "errno (ekern e3) 2 = RT_EOK" "rt_current_thread (ekern e3) = Some 2"
    "stat (ekern e3) = (stat k1)(2 := RT_THREAD_RUNNING)" "current_priority (ekern e3) = current_priority k1" "yield (ekern e3) = yield k1"
    using g3(2) f2' unfolding sent_to_def by (auto simp: f2 yes)
  define m3 where "m3 = m2\<lparr>estate := e3, sent_bits := (sent_bits m2)(7 := sent_bits m2 7 \<union> bits_of 6),
      cleared_bits := (cleared_bits m2)(7 := cleared_bits m2 7 \<union> cleared_in (estate m2) e3)\<rparr>"
  have s3: "event_step 0 m2 m3" unfolding m3_def by (rule event_step.sends) (simp only: f2m g3(1))
  have r3: "(event_step 0)\<^sup>*\<^sup>* ?m0 m3" using r2 s3 by simp
  obtain L3 where ok3: "event_ok 0 m3 L3" by (rule event_run_ok [OF demo_event_start r3])
  have f3m: "epc m3 = epc m1" "estate m3 = e3" by (simp_all add: m3_def f2m)
  have "yield k1 = (\<lambda>_. False)" using sem_take_yield [OF k1(1)] by (simp add: demo_event_kern demo_ok)
  then have "goes_on 2 (current_priority (ekern e3) t) (ekern e3)" if "stat (ekern e3) t = RT_THREAD_READY" for t
    using that by (auto simp: goes_on_def f3' k1(2,5) demo_event_kern demo_ok split: if_splits)
  then have stay: "event_schedule e3 = e3"
    using schedule_stays [OF sem_okD(1) [OF event_okD(1) [OF ok3]]] f3' by (simp add: event_schedule_def f3m)
  define m4 where "m4 = m3\<lparr>estate := event_schedule (estate m3), epc := (epc m3)(2 := After 7)\<rparr>"
  have s4: "event_step 0 m3 m4" unfolding m4_def by (rule event_step.recv_switches) (simp_all add: f3m f3' f1)
  show ?thesis
    by (rule that [of m2 L2' m4]) (use r2 r3 s4 ok2 l2 f2 f2' f3 f3' in \<open>simp_all add: f2m f1 m4_def f3m stay event_recv_resumed_def\<close>)
qed

lemma event_no_lost_wakeup_witness:
  "\<exists>m. (event_step 0)\<^sup>*\<^sup>* (events_from demo_event) m \<and> waits (epc m) 7 2 \<and> event_bits (estate m) 7 = 1 \<and>
    is_suspended (stat (ekern (estate m)) 2) \<and> recv_status (snd (asked m 2)) (fst (asked m 2)) (event_bits (estate m) 7) = Some False"
proof -
  obtain m where m: "(event_step 0)\<^sup>*\<^sup>* (events_from demo_event) m" "epc m 2 = Before 7"
    "errno (ekern (estate m)) 2 = - RT_EINTR" "event_bits (estate m) 7 = 1" by (rule demo_event_run)
  have "waits (epc m) 7 2" using m(2) by (simp add: waits_def)
  with m event_no_lost_wakeup [OF demo_event_start m(1) this m(3)] show ?thesis by blast
qed

lemma event_recv_result_witness:
  "\<exists>m. (event_step 0)\<^sup>*\<^sup>* (events_from demo_event) m \<and> epc m 2 = After 7 \<and> event_bits (estate m) 7 = 4 \<and>
    (event_recv_resumed 2 (estate m) = (- RT_ETIMEOUT, None) \<or>
     (\<exists>bits. event_recv_resumed 2 (estate m) = (RT_EOK, Some bits) \<and> meets (asked m 2) bits \<and> bits_of bits \<subseteq> sent_bits m 7))"
proof -
  obtain m where m: "(event_step 0)\<^sup>*\<^sup>* (events_from demo_event) m" "rt_current_thread (ekern (estate m)) = Some 2"
    "epc m 2 = After 7" "event_bits (estate m) 7 = 4" by (rule demo_event_run)
  with event_recv_result [OF demo_event_start m(1-3)] show ?thesis by blast
qed

lemma event_bits_conserved_witness:
  "\<exists>m. (event_step 0)\<^sup>*\<^sup>* (events_from demo_event) m \<and> event_bits (estate m) 7 = 4 \<and>
    sent_bits m 7 = bits_of (event_bits (estate m) 7) \<union> cleared_bits m 7"
proof -
  obtain m where m: "(event_step 0)\<^sup>*\<^sup>* (events_from demo_event) m" "event_bits (estate m) 7 = 4" by (rule demo_event_run)
  with event_bits_conserved [OF demo_event_start m(1), of 7] show ?thesis by blast
qed

lemma event_send_wakes_witness:
  "\<exists>e e'. rt_event_send 7 6 e = Some (RT_EOK, e') \<and> event_recv_resumed 2 e' = (RT_EOK, Some 3) \<and> runnable (stat (ekern e') 2)"
proof -
  obtain m L where m: "event_ok 0 m L" "L (Suspend_list 7) = [2]" "epc m 2 = Before 7"
    "errno (ekern (estate m)) 2 = - RT_EINTR" "asked m 2 = (3, 5)" "event_bits (estate m) 7 = 1" by (rule demo_event_run)
  have "waits (epc m) 7 2" using m(3) by (simp add: waits_def)
  from event_okD(3) [OF m(1) this m(4)] m(5) have f: "event_set (estate m) 2 = 3" "event_info (estate m) 2 = 5" by simp_all
  have "valid_option (event_info (estate m) t)" if "t \<in> set (L (Suspend_list 7))" for t
    using that by (simp add: m(2) f valid_option_def RT_EVENT_FLAG_AND_def)
  moreover have "satisfied (estate m) (event_bits (estate m) 7 OR 6) 2"
    by (simp add: satisfied_def recv_status_def f m(6) RT_EVENT_FLAG_AND_def)
  ultimately show ?thesis
    using event_send_wakes [OF event_okD(1) [OF m(1)], of 6 7] by (auto simp: m(2,6) f)
qed

lemma event_reset_ends_witness:
  "\<exists>e' L'. rt_event_control 7 RT_IPC_CMD_RESET demo_event = Some (RT_EOK, e') \<and> sched_ok (ekern e') L' \<and>
    L' (Suspend_list 7) = [] \<and> event_bits e' 7 = 0 \<and>
    (\<forall>t\<in>set (demo_lists (Suspend_list 7)). event_recv_resumed t e' = (- RT_ERROR, None) \<and> runnable (stat (ekern e') t))"
  by (rule event_reset_ends [OF demo_event_ok]) (simp add: demo_event_kern demo_ok)

end
