(* ===== verification/Rt_Wait.thy ===== *)
theory Rt_Wait
  imports Rt_Sem
begin

text \<open>
  What mailboxes and message queues (\<^verbatim>\<open>src/rt-thread/src/ipc.c\<close>) share: an object with two lists of waiting
  threads, those that wait for something to take and those that wait for room; how a call waits, with its time limit;
  how the first thread of a list is woken; and the reckoning that no wake-up is lost.  Unlike a semaphore, such an object
  hands nothing over: a woken thread goes through the loop of its call again.
\<close>

section \<open>Waiting and waking\<close>

text \<open>An object is a number; the threads that wait to receive and to send are in the lists with these numbers.\<close>

definition receivers :: "nat \<Rightarrow> nat" where "receivers b = 2 * b"
definition senders :: "nat \<Rightarrow> nat" where "senders b = 2 * b + 1"

lemma lists_apart [simp]:
  "receivers b \<noteq> senders c" "senders b \<noteq> receivers c" "receivers b = receivers c \<longleftrightarrow> b = c" "senders b = senders c \<longleftrightarrow> b = c"
  unfolding receivers_def senders_def by presburger+

text \<open>
  The part of the loops from the suspension to the call of the scheduler.  It fails, or the call waits, with its locals
  \<open>timeout\<close> and \<open>tick_delta\<close>.
\<close>

datatype ipc_wait_result = Wait_fails int | Wait_schedules int u32

definition ipc_wait :: "nat \<Rightarrow> int \<Rightarrow> u32 \<Rightarrow> suspend_flag \<Rightarrow> nat \<Rightarrow> kernel \<Rightarrow> (ipc_wait_result \<times> kernel) option" where
  "ipc_wait l timeout tick_delta sflag t k =
     map_option (\<lambda>(ret, k).
         if ret \<noteq> RT_EOK then (Wait_fails ret, k)
         else if timeout > 0
              then (Wait_schedules timeout (rt_tick k), k\<lparr>thread_timer := (thread_timer k)(t := Some timeout)\<rparr>)
              else (Wait_schedules timeout tick_delta, k))
       (ipc_list_suspend l t (object_flag k l) sflag k)"

text \<open>The time that is left when the thread runs again: \<open>timeout\<close> is signed, the difference of the ticks is not.\<close>

definition ipc_time_left :: "int \<Rightarrow> u32 \<Rightarrow> kernel \<Rightarrow> int \<times> u32" where
  "ipc_time_left timeout tick_delta k =
     (if timeout > 0 then
        let tick_delta = rt_tick k - tick_delta;
            timeout = sint (word_of_int timeout - tick_delta)
        in (if timeout < 0 then 0 else timeout, tick_delta)
      else (timeout, tick_delta))"

text \<open>The first thread of a list is woken, if there is one.\<close>

definition ipc_wake :: "nat \<Rightarrow> kernel \<Rightarrow> bool \<times> kernel" where
  "ipc_wake l k =
     (if \<not> rt_list_isempty (Head (Suspend_list l)) (tlist k) then (True, ipc_list_resume l k) else (False, k))"

text \<open>The flag of an object is kept under the numbers of both its lists.\<close>

definition ipc_lists_init :: "nat \<Rightarrow> ipc_flag \<Rightarrow> kernel \<Rightarrow> kernel" where
  "ipc_lists_init b flag k =
     k\<lparr>object_flag := (object_flag k)(receivers b := flag, senders b := flag),
       tlist := rt_list_init (Head (Suspend_list (senders b))) (rt_list_init (Head (Suspend_list (receivers b))) (tlist k))\<rparr>"

definition ipc_resume_both :: "nat \<Rightarrow> kernel \<Rightarrow> kernel option" where
  "ipc_resume_both b k =
     (case ipc_list_resume_all (receivers b) k of None \<Rightarrow> None | Some k \<Rightarrow> ipc_list_resume_all (senders b) k)"

section \<open>No wake-up is lost\<close>

text \<open>
  While threads wait in the list \<open>l\<close>, at least as many that were woken from it are on their way as there are things for
  them, \<open>a l\<close> in number.  \<open>extra l\<close> counts a thread that has just come back.
\<close>

definition line_ok ::
    "nat \<Rightarrow> (nat \<Rightarrow> pc) \<Rightarrow> kernel \<Rightarrow> (nat \<Rightarrow> nat) \<Rightarrow> (nat \<Rightarrow> nat) \<Rightarrow> (tlist_head \<Rightarrow> nat list) \<Rightarrow> bool" where
  "line_ok idle p k a extra L \<longleftrightarrow>
     sem_ok idle p k L \<and> sem_value k = (\<lambda>_. 0) \<and>
     (\<forall>l. L (Suspend_list l) \<noteq> [] \<longrightarrow> a l \<le> card (granted p (errno k) l) + extra l)"

lemma line_okD:
  assumes "line_ok idle p k a extra L"
  shows "sem_ok idle p k L" and "sem_value k = (\<lambda>_. 0)"
    and "\<And>l. L (Suspend_list l) \<noteq> [] \<Longrightarrow> a l \<le> card (granted p (errno k) l) + extra l"
  using assms unfolding line_ok_def by blast+

text \<open>Steps that wake nobody and after which nobody else waits.\<close>

lemma line_kernel:
  assumes ok: "line_ok idle p k a extra L" and k': "sem_ok idle p' k' L'" and v: "sem_value k' = sem_value k"
    and g: "\<And>l. granted p' (errno k') l = granted p (errno k) l"
    and w: "\<And>l t. waits p' l t \<Longrightarrow> errno k' t = - RT_EINTR \<Longrightarrow> waits p l t \<and> errno k t = - RT_EINTR"
  shows "line_ok idle p' k' a extra L'"
proof -
  note d = line_okD [OF ok]
  have "L (Suspend_list l) \<noteq> []" if "L' (Suspend_list l) \<noteq> []" for l
  proof -
    from that obtain t where "t \<in> set (L' (Suspend_list l))" by (cases "L' (Suspend_list l)") auto
    then have "t \<in> set (L (Suspend_list l))" using w [of l t] sem_ok_members [OF k'] sem_ok_members [OF d(1)] by blast
    then show ?thesis by auto
  qed
  then show ?thesis using d k' v unfolding line_ok_def by (simp add: g)
qed

lemma line_mono:
  assumes "line_ok idle p k a extra L" and "\<And>l. a' l = 0 \<or> a' l + extra l \<le> a l + extra' l"
  shows "line_ok idle p k a' extra' L"
proof -
  have "a' l \<le> c + extra' l" if "a l \<le> c + extra l" for l c using assms(2) [of l] that by linarith
  then show ?thesis using assms(1) unfolding line_ok_def by blast
qed

lemma line_errno:
  assumes ok: "line_ok idle p k a extra L" and t: "p t = Outside"
  shows "line_ok idle p (k\<lparr>errno := (errno k)(t := x)\<rparr>) a extra L"
proof -
  have no: "u \<noteq> t" if "waits p l u" for l u using that t by (auto simp: waits_def)
  have "granted p ((errno k)(t := x)) l = granted p (errno k) l" for l using no by (auto simp: granted_def)
  then show ?thesis using no by (intro line_kernel [OF ok sem_ok_errno [OF line_okD(1) [OF ok] t]]) auto
qed

text \<open>The scheduler, the clock, and timers.\<close>

lemma line_schedule:
  assumes ok: "line_ok idle p k a extra L"
  obtains L' where "line_ok idle p (rt_schedule k) a extra L'"
proof -
  obtain L' where k': "sem_ok idle p (rt_schedule k) L'" by (rule sem_ok_schedule [OF line_okD(1) [OF ok]])
  show ?thesis by (rule that, rule line_kernel [OF ok k']) (simp_all add: kernel_frame)
qed

lemma line_switches:
  assumes ok: "line_ok idle p k a extra L" and t: "p t = Before l"
  obtains L' where "line_ok idle (p(t := After l)) (rt_schedule k) a extra L'"
proof -
  obtain L' where k': "sem_ok idle (p(t := After l)) (rt_schedule k) L'"
    by (rule sem_ok_schedule [OF line_okD(1) [OF ok]]) (use t in blast)
  have w: "waits (p(t := After l)) = waits p" using t by (auto simp: waits_def fun_eq_iff)
  show ?thesis by (rule that, rule line_kernel [OF ok k']) (simp_all add: kernel_frame granted_def w)
qed

lemma line_tick:
  assumes ok: "line_ok idle p k a extra L"
  obtains L' where "line_ok idle p (rt_tick_increase k) a extra L'"
proof -
  obtain L' where k': "sem_ok idle p (rt_tick_increase k) L'" by (rule sem_ok_tick [OF line_okD(1) [OF ok]])
  show ?thesis by (rule that, rule line_kernel [OF ok k']) (simp_all add: kernel_frame)
qed

lemma line_yield:
  assumes ok: "line_ok idle p k a extra L"
  obtains L' where "line_ok idle p (snd (rt_thread_yield k)) a extra L'"
proof -
  obtain L' where k': "sem_ok idle p (snd (rt_thread_yield k)) L'" by (rule sem_ok_yield [OF line_okD(1) [OF ok]])
  show ?thesis by (rule that, rule line_kernel [OF ok k']) (simp_all add: kernel_frame)
qed

lemma line_times_out:
  assumes ok: "line_ok idle p k a extra L" and t: "thread_timer k t \<noteq> None"
  obtains L' where "line_ok idle p (thread_timeout t (k\<lparr>thread_timer := (thread_timer k)(t := None)\<rparr>)) a extra L'"
proof -
  let ?k = "thread_timeout t (k\<lparr>thread_timer := (thread_timer k)(t := None)\<rparr>)"
  note s = line_okD(1) [OF ok]
  obtain L' where k: "sem_ok idle p ?k L'" "errno ?k = (errno k)(t := - RT_ETIMEOUT)" by (rule sem_ok_times_out [OF s t])
  have v: "sem_value ?k = sem_value k" by (simp add: thread_timeout_def k_assert_def kernel_frame)
  have e: "errno k t \<noteq> RT_EOK" using sem_okD(12) [OF s t] sem_okD(8) [OF s] by fastforce
  show ?thesis
    by (rule that, rule line_kernel [OF ok k(1) v]) (auto simp: k(2) granted_times_out e split: if_splits)
qed

text \<open>A call that waits does to the kernel what the take of a semaphore without permits does.\<close>

lemma ipc_wait_take:
  assumes "timeout \<noteq> 0" and "sem_value k l = 0"
  shows "ipc_wait l timeout tick_delta sflag t (k\<lparr>errno := (errno k)(t := - RT_EINTR)\<rparr>) =
    map_option (\<lambda>(r, k). (case r of Take_returns err \<Rightarrow> Wait_fails err
        | Take_schedules \<Rightarrow> Wait_schedules timeout (if timeout > 0 then rt_tick k else tick_delta), k))
      (sem_take l timeout sflag t k)"
  using assms
  by (cases "ipc_list_suspend l t (object_flag k l) sflag (k\<lparr>errno := (errno k)(t := - RT_EINTR)\<rparr>)")
    (auto simp: ipc_wait_def sem_take_def)

lemma line_waits:
  assumes ok: "line_ok idle p k a extra L" and t: "rt_current_thread k = Some t" "p t = Outside"
    and to: "timeout \<noteq> 0" and a: "a l = 0"
  obtains td k' where
    "ipc_wait l timeout tick_delta sflag t (k\<lparr>errno := (errno k)(t := - RT_EINTR)\<rparr>) = Some (Wait_schedules timeout td, k')"
    "t \<noteq> idle \<longrightarrow> (\<exists>L'. line_ok idle (p(t := Before l)) k' a extra L')"
proof -
  note d = line_okD [OF ok] and s = sem_okD [OF line_okD(1) [OF ok]]
  have run: "stat k t = RT_THREAD_RUNNING" using s(4) t by auto
  have v: "sem_value k l = 0" by (simp add: d(2))
  obtain k' where k': "sem_take l timeout sflag t k = Some (Take_schedules, k')"
    by (rule sem_take_waits [OF s(1) t(1) run v to, of sflag]) blast
  have "\<exists>L'. line_ok idle (p(t := Before l)) k' a extra L'" if idle: "t \<noteq> idle"
  proof -
    obtain L' where L': "sem_ok idle (p(t := Before l)) k' L'" "errno k' = (errno k)(t := - RT_EINTR)" "sem_value k' = sem_value k"
      by (rule sem_ok_take_waits [OF d(1) t idle k'])
    have g: "granted (p(t := Before l)) (errno k') r = granted p (errno k) r" for r by (simp add: L'(2) t(2))
    have "L (Suspend_list r) \<noteq> []" if "L' (Suspend_list r) \<noteq> []" "r \<noteq> l" for r
    proof -
      from that(1) obtain u where "u \<in> set (L' (Suspend_list r))" by (cases "L' (Suspend_list r)") auto
      then have "u \<in> set (L (Suspend_list r))"
        using that(2) sem_ok_members [OF L'(1)] sem_ok_members [OF d(1)] by (auto simp: waits_def L'(2) split: if_splits)
      then show ?thesis by auto
    qed
    then have "a r \<le> card (granted (p(t := Before l)) (errno k') r) + extra r" if "L' (Suspend_list r) \<noteq> []" for r
      using d(3) [of r] that a by (cases "r = l") (simp_all add: g)
    then show ?thesis using L'(1,3) d(2) by (intro exI [of _ L']) (simp add: line_ok_def)
  qed
  then show ?thesis by (intro that) (auto simp: ipc_wait_take [OF to v] k')
qed

text \<open>A thread that comes back leaves its list's reckoning, unless it counts as just come back.\<close>

abbreviation came_back :: "nat \<Rightarrow> nat \<Rightarrow> nat" where
  "came_back l \<equiv> (\<lambda>_. 0)(l := 1)"

lemma line_leaves:
  assumes ok: "line_ok idle p k a (\<lambda>_. 0) L" and t: "rt_current_thread k = Some t" "p t = After l"
  shows "line_ok idle (p(t := Outside)) k a (if errno k t = RT_EOK then came_back l else (\<lambda>_. 0)) L"
proof -
  note d = line_okD [OF ok]
  have fin: "finite (granted p (errno k) r)" for r by (rule finite_granted [OF sem_okD(13) [OF d(1)]])
  have c: "card (granted p (errno k) r) \<le> card (granted (p(t := Outside)) (errno k) r) +
      (if errno k t = RT_EOK then came_back l else (\<lambda>_. 0)) r" for r
    using card_Suc_Diff1 [OF fin [of l], of t]
    by (cases "t \<in> granted p (errno k) l") (auto simp: granted_returns [where p = p and t = t, OF t(2)])
  have "a r \<le> card (granted (p(t := Outside)) (errno k) r) + (if errno k t = RT_EOK then came_back l else (\<lambda>_. 0)) r"
    if "L (Suspend_list r) \<noteq> []" for r
    using d(3) [OF that] order_trans [OF _ c [of r]] by simp
  then show ?thesis
    unfolding line_ok_def using d(2) sem_ok_leaves [OF d(1) t] by blast
qed

text \<open>Waking the first thread of a list pays for one more thing for that list.\<close>

lemma line_wake:
  assumes ok: "line_ok idle p k a extra L"
  obtains ns k' L' where "ipc_wake l k = (ns, k')" "line_ok idle p k' (a(l := a l + 1)) extra L'"
proof (cases "L (Suspend_list l)")
  case Nil
  then have "ipc_wake l k = (False, k)"
    using rings_isempty [OF lists_okD(1) [OF sched_okD(1) [OF sem_okD(1) [OF line_okD(1) [OF ok]]]]] by (simp add: ipc_wake_def)
  then show ?thesis by (rule that) (use ok Nil in \<open>auto simp: line_ok_def\<close>)
next
  case (Cons t ts)
  note c = line_okD [OF ok] and d = sem_okD [OF line_okD(1) [OF ok]]
  obtain k' where k: "sem_release l k = (RT_EOK, True, k')" "sched_ok k' (woken t k L)"
    "stat k' = (stat k)(t := if rt_current_thread k = Some t then RT_THREAD_RUNNING else RT_THREAD_READY)"
    "thread_timer k' = (thread_timer k)(t := None)" "errno k' = (errno k)(t := RT_EOK)"
    "current_priority k' = current_priority k" "rt_current_thread k' = rt_current_thread k"
    "rt_scheduler_lock_nest k' = rt_scheduler_lock_nest k" "sem_value k' = sem_value k"
    "object_flag k' = object_flag k" "kernel_assert k' = kernel_assert k"
    by (rule release_wakes [OF d(1) Cons]) blast
  have "\<not> rt_list_isempty (Head (Suspend_list l)) (tlist k)"
    using rings_isempty [OF lists_okD(1) [OF sched_okD(1) [OF d(1)]]] Cons by simp
  then have w: "ipc_wake l k = (True, k')" using k(1) by (simp add: ipc_wake_def sem_release_def)
  have t: "t \<in> set (L (Suspend_list l))" using Cons by simp
  have tw: "waits p l t" and te: "errno k t = - RT_EINTR" using d(7,8) [OF t] by simp_all
  have ok': "sem_ok idle p k' (woken t k L)" by (rule sem_ok_woken [OF c(1) t _ k(2-11)]) simp
  have "t \<notin> granted p (errno k) r" for r using te by (simp add: granted_def)
  then have g: "card (granted p (errno k') r) = card (granted p (errno k) r) + (if r = l then 1 else 0)" for r
    using finite_granted [OF d(13)] by (simp add: k(5) granted_wakes [where p = p, OF tw])
  have "L (Suspend_list r) \<noteq> []" if "woken t k L (Suspend_list r) \<noteq> []" for r using that by (auto simp: woken_other)
  then have "line_ok idle p k' (a(l := a l + 1)) extra (woken t k L)"
    using ok' c(2,3) k(9) Cons by (auto simp: line_ok_def g)
  with w show ?thesis by (rule that)
qed

text \<open>The room of a queue: what waits to be received, and the free places.\<close>

definition stock :: "(nat \<Rightarrow> nat) \<Rightarrow> (nat \<Rightarrow> nat) \<Rightarrow> nat \<Rightarrow> nat" where
  "stock full free l = (if even l then full (l div 2) else free (l div 2))"

lemma stock_simps [simp]: "stock full free (receivers b) = full b" "stock full free (senders b) = free b"
  by (simp_all add: stock_def receivers_def senders_def)

lemma list_cases: obtains b where "l = receivers b" | b where "l = senders b"
  unfolding receivers_def senders_def by (metis oddE evenE)

lemma stock_upd:
  "(stock full free)(receivers b := x) = stock (full(b := x)) free" "(stock full free)(senders b := x) = stock full (free(b := x))"
  subgoal by (rule ext) (metis fun_upd_other fun_upd_same lists_apart list_cases stock_simps)
  subgoal by (rule ext) (metis fun_upd_other fun_upd_same lists_apart list_cases stock_simps)
  done

section \<open>Histories of queues\<close>

text \<open>What users see of a run: which message was accepted, at the end or in front, and which was taken out.\<close>

datatype 'a queue_event = Posted nat 'a | Posted_front nat 'a | Fetched nat 'a

text \<open>What that means for queues with room for \<open>n\<close> messages each.\<close>

fun deliver :: "(nat \<Rightarrow> nat) \<Rightarrow> 'a queue_event \<Rightarrow> (nat \<Rightarrow> 'a list) \<Rightarrow> (nat \<Rightarrow> 'a list) option" where
  "deliver n (Posted b v) q = (if length (q b) < n b then Some (q(b := q b @ [v])) else None)"
| "deliver n (Posted_front b v) q = (if length (q b) < n b then Some (q(b := v # q b)) else None)"
| "deliver n (Fetched b v) q = (case q b of [] \<Rightarrow> None | x # xs \<Rightarrow> if x = v then Some (q(b := xs)) else None)"

fun replay :: "(nat \<Rightarrow> nat) \<Rightarrow> 'a queue_event list \<Rightarrow> (nat \<Rightarrow> 'a list) \<Rightarrow> (nat \<Rightarrow> 'a list) option" where
  "replay n [] q = Some q"
| "replay n (e # es) q = (case deliver n e q of None \<Rightarrow> None | Some q' \<Rightarrow> replay n es q')"

lemma replay_append: "replay n (es @ fs) q = (case replay n es q of None \<Rightarrow> None | Some q' \<Rightarrow> replay n fs q')"
  by (induction es arbitrary: q) (auto split: option.split)

end
