(* ===== verification/Rt_Mailbox.thy ===== *)
theory Rt_Mailbox
  imports Rt_Wait
begin

text \<open>
  Mailboxes (\<^verbatim>\<open>src/rt-thread/src/ipc.c\<close>), on the kernel of \<open>Rt_Kernel\<close> and the two lists of waiting threads of
  \<open>Rt_Wait\<close>: those of the threads that wait for mail and those of the threads that wait for room.  A call that waits comes to its call of \<open>rt_schedule\<close>, and when its
  thread runs again it goes once more through its loop: mail is not handed over, so the thread may have to wait again.
  \<open>mail_step\<close> is the machine of all threads, interrupts and timers that use mailboxes.
\<close>

section \<open>Mailboxes\<close>

definition RT_MB_ENTRY_MAX :: u16 where "RT_MB_ENTRY_MAX = 0xFFFF"

record box =
  msg_pool :: "u32 list"
  mb_size :: u16
  mb_entry :: u16
  in_offset :: u16
  out_offset :: u16

record mails =
  mkern :: kernel
  boxes :: "nat \<Rightarrow> box"

definition rt_mb_init :: "nat \<Rightarrow> u32 list \<Rightarrow> u32 \<Rightarrow> ipc_flag \<Rightarrow> mails \<Rightarrow> int \<times> mails" where
  "rt_mb_init b msgpool n flag m =
     (RT_EOK, m\<lparr>mkern := ipc_lists_init b flag (mkern m),
       boxes := (boxes m)(b := \<lparr>msg_pool = msgpool, mb_size = ucast n, mb_entry = 0, in_offset = 0, out_offset = 0\<rparr>)\<rparr>)"

text \<open>\<open>obj\<close> is the object the allocator hands out, if it has one, and \<open>pool\<close> the memory for that many mails.\<close>

definition rt_mb_create ::
    "nat option \<Rightarrow> (u16 \<Rightarrow> u32 list option) \<Rightarrow> u32 \<Rightarrow> ipc_flag \<Rightarrow> mails \<Rightarrow> nat option \<times> mails" where
  "rt_mb_create obj pool n flag m =
     (case obj of
        None \<Rightarrow> (None, m)
      | Some b \<Rightarrow>
          let m = m\<lparr>mkern := (mkern m)\<lparr>object_flag := (object_flag (mkern m))(receivers b := flag, senders b := flag),
                      tlist := rt_list_init (Head (Suspend_list (receivers b))) (tlist (mkern m))\<rparr>,
                    boxes := (boxes m)(b := (boxes m b)\<lparr>mb_size := ucast n\<rparr>)\<rparr>
          in case pool (mb_size (boxes m b)) of
               None \<Rightarrow> (None, m)
             | Some mem \<Rightarrow>
                 (Some b, m\<lparr>mkern := (mkern m)\<lparr>tlist := rt_list_init (Head (Suspend_list (senders b))) (tlist (mkern m))\<rparr>,
                   boxes := (boxes m)(b := (boxes m b)\<lparr>msg_pool := mem, mb_entry := 0, in_offset := 0, out_offset := 0\<rparr>)\<rparr>))"

definition mb_resume_all :: "nat \<Rightarrow> mails \<Rightarrow> mails option" where
  "mb_resume_all b m = map_option (\<lambda>k. m\<lparr>mkern := k\<rparr>) (ipc_resume_both b (mkern m))"

definition rt_mb_detach :: "nat \<Rightarrow> mails \<Rightarrow> (int \<times> mails) option" where
  "rt_mb_detach b m = map_option (\<lambda>m. (RT_EOK, m)) (mb_resume_all b m)"

text \<open>The same for a mailbox on the heap, whose memory is then freed.\<close>

definition rt_mb_delete :: "nat \<Rightarrow> mails \<Rightarrow> (int \<times> mails) option" where
  "rt_mb_delete b m = map_option (\<lambda>m. (RT_EOK, m)) (mb_resume_all b m)"

definition mail_errno :: "nat \<Rightarrow> int \<Rightarrow> mails \<Rightarrow> mails" where
  "mail_errno t err m = m\<lparr>mkern := (mkern m)\<lparr>errno := (errno (mkern m))(t := err)\<rparr>\<rparr>"

definition mail_schedule :: "mails \<Rightarrow> mails" where
  "mail_schedule m = m\<lparr>mkern := rt_schedule (mkern m)\<rparr>"

subsection \<open>Waiting\<close>

text \<open>
  What a pass through the loop of a call comes to: the call returns, with the mail it received, calling \<open>rt_schedule\<close> on
  its way out or not; or it calls \<open>rt_schedule\<close> to wait, with its locals \<open>timeout\<close> and \<open>tick_delta\<close>.
\<close>

datatype mb_result = Mb_returns int "u32 option" bool | Mb_waits int u32

definition mb_suspend ::
    "nat \<Rightarrow> int \<Rightarrow> u32 \<Rightarrow> suspend_flag \<Rightarrow> nat \<Rightarrow> mails \<Rightarrow> (mb_result \<times> mails) option" where
  "mb_suspend l timeout tick_delta sflag t m =
     map_option (\<lambda>(w, k). (case w of Wait_fails err \<Rightarrow> Mb_returns err None False
                                    | Wait_schedules timeout tick_delta \<Rightarrow> Mb_waits timeout tick_delta, m\<lparr>mkern := k\<rparr>))
       (ipc_wait l timeout tick_delta sflag t (mkern m))"

definition mb_wake :: "nat \<Rightarrow> mails \<Rightarrow> bool \<times> mails" where
  "mb_wake l m = (let (need_schedule, k) = ipc_wake l (mkern m) in (need_schedule, m\<lparr>mkern := k\<rparr>))"

subsection \<open>Sending\<close>

definition box_put :: "u32 \<Rightarrow> box \<Rightarrow> box" where
  "box_put value x =
     (let x = x\<lparr>msg_pool := (msg_pool x)[unat (in_offset x) := value]\<rparr>;
          x = x\<lparr>in_offset := in_offset x + 1\<rparr>
      in if in_offset x \<ge> mb_size x then x\<lparr>in_offset := 0\<rparr> else x)"

definition mb_store :: "nat \<Rightarrow> u32 \<Rightarrow> mails \<Rightarrow> mb_result \<times> mails" where
  "mb_store b value m =
     (let x = box_put value (boxes m b)
      in if mb_entry x < RT_MB_ENTRY_MAX then
           let (need_schedule, m) = mb_wake (receivers b) (m\<lparr>boxes := (boxes m)(b := x\<lparr>mb_entry := mb_entry x + 1\<rparr>)\<rparr>)
           in (Mb_returns RT_EOK None need_schedule, m)
         else (Mb_returns (- RT_EFULL) None False, m\<lparr>boxes := (boxes m)(b := x)\<rparr>))"

definition mb_send_loop ::
    "nat \<Rightarrow> u32 \<Rightarrow> int \<Rightarrow> u32 \<Rightarrow> suspend_flag \<Rightarrow> nat \<Rightarrow> mails \<Rightarrow> (mb_result \<times> mails) option" where
  "mb_send_loop b value timeout tick_delta sflag t m =
     (if mb_entry (boxes m b) = mb_size (boxes m b) then
        let m = mail_errno t (- RT_EINTR) m
        in if timeout = 0 then Some (Mb_returns (- RT_EFULL) None False, m)
           else mb_suspend (senders b) timeout tick_delta sflag t m
      else Some (mb_store b value m))"

text \<open>A send by thread \<open>t\<close>, up to its end or its first call of \<open>rt_schedule\<close>; then what it does when it runs again.\<close>

definition mb_send_wait :: "nat \<Rightarrow> u32 \<Rightarrow> int \<Rightarrow> suspend_flag \<Rightarrow> nat \<Rightarrow> mails \<Rightarrow> (mb_result \<times> mails) option" where
  "mb_send_wait b value timeout sflag t m =
     (if mb_entry (boxes m b) = mb_size (boxes m b) \<and> timeout = 0 then Some (Mb_returns (- RT_EFULL) None False, m)
      else mb_send_loop b value timeout 0 sflag t m)"

definition mb_send_resumed ::
    "nat \<Rightarrow> u32 \<Rightarrow> int \<Rightarrow> u32 \<Rightarrow> suspend_flag \<Rightarrow> nat \<Rightarrow> mails \<Rightarrow> (mb_result \<times> mails) option" where
  "mb_send_resumed b value timeout tick_delta sflag t m =
     (if errno (mkern m) t \<noteq> RT_EOK then Some (Mb_returns (errno (mkern m) t) None False, m)
      else
        let (timeout, tick_delta) = ipc_time_left timeout tick_delta (mkern m)
        in mb_send_loop b value timeout tick_delta sflag t m)"

text \<open>The calls: up to the return, or to the switch to another thread.\<close>

definition mb_switch :: "mb_result \<times> mails \<Rightarrow> mb_result \<times> mails" where
  "mb_switch = (\<lambda>(r, m). (r, case r of Mb_returns _ _ need_schedule \<Rightarrow> if need_schedule then mail_schedule m else m
                                      | Mb_waits _ _ \<Rightarrow> mail_schedule m))"

definition rt_mb_send_wait :: "nat \<Rightarrow> u32 \<Rightarrow> int \<Rightarrow> nat \<Rightarrow> mails \<Rightarrow> (mb_result \<times> mails) option" where
  "rt_mb_send_wait b value timeout t m = map_option mb_switch (mb_send_wait b value timeout RT_UNINTERRUPTIBLE t m)"

definition rt_mb_send_wait_interruptible :: "nat \<Rightarrow> u32 \<Rightarrow> int \<Rightarrow> nat \<Rightarrow> mails \<Rightarrow> (mb_result \<times> mails) option" where
  "rt_mb_send_wait_interruptible b value timeout t m = map_option mb_switch (mb_send_wait b value timeout RT_INTERRUPTIBLE t m)"

definition rt_mb_send_wait_killable :: "nat \<Rightarrow> u32 \<Rightarrow> int \<Rightarrow> nat \<Rightarrow> mails \<Rightarrow> (mb_result \<times> mails) option" where
  "rt_mb_send_wait_killable b value timeout t m = map_option mb_switch (mb_send_wait b value timeout RT_KILLABLE t m)"

definition rt_mb_send :: "nat \<Rightarrow> u32 \<Rightarrow> nat \<Rightarrow> mails \<Rightarrow> (mb_result \<times> mails) option" where
  "rt_mb_send b value = rt_mb_send_wait b value 0"

definition rt_mb_send_interruptible :: "nat \<Rightarrow> u32 \<Rightarrow> nat \<Rightarrow> mails \<Rightarrow> (mb_result \<times> mails) option" where
  "rt_mb_send_interruptible b value = rt_mb_send_wait_interruptible b value 0"

definition rt_mb_send_killable :: "nat \<Rightarrow> u32 \<Rightarrow> nat \<Rightarrow> mails \<Rightarrow> (mb_result \<times> mails) option" where
  "rt_mb_send_killable b value = rt_mb_send_wait_killable b value 0"

definition box_put_front :: "u32 \<Rightarrow> box \<Rightarrow> box" where
  "box_put_front value x =
     (let x = x\<lparr>out_offset := if out_offset x > 0 then out_offset x - 1 else mb_size x - 1\<rparr>;
          x = x\<lparr>msg_pool := (msg_pool x)[unat (out_offset x) := value]\<rparr>
      in x\<lparr>mb_entry := mb_entry x + 1\<rparr>)"

definition mb_urgent :: "nat \<Rightarrow> u32 \<Rightarrow> mails \<Rightarrow> mb_result \<times> mails" where
  "mb_urgent b value m =
     (if mb_entry (boxes m b) = mb_size (boxes m b) then (Mb_returns (- RT_EFULL) None False, m)
      else
        let (need_schedule, m) = mb_wake (receivers b) (m\<lparr>boxes := (boxes m)(b := box_put_front value (boxes m b))\<rparr>)
        in (Mb_returns RT_EOK None need_schedule, m))"

definition rt_mb_urgent :: "nat \<Rightarrow> u32 \<Rightarrow> mails \<Rightarrow> mb_result \<times> mails" where
  "rt_mb_urgent b value m = mb_switch (mb_urgent b value m)"

subsection \<open>Receiving\<close>

definition box_take :: "box \<Rightarrow> u32 \<times> box" where
  "box_take x =
     (let value = msg_pool x ! unat (out_offset x);
          x = x\<lparr>out_offset := out_offset x + 1\<rparr>;
          x = (if out_offset x \<ge> mb_size x then x\<lparr>out_offset := 0\<rparr> else x)
      in (value, if mb_entry x > 0 then x\<lparr>mb_entry := mb_entry x - 1\<rparr> else x))"

definition mb_fetch :: "nat \<Rightarrow> mails \<Rightarrow> mb_result \<times> mails" where
  "mb_fetch b m =
     (let (value, x) = box_take (boxes m b);
          (need_schedule, m) = mb_wake (senders b) (m\<lparr>boxes := (boxes m)(b := x)\<rparr>)
      in (Mb_returns RT_EOK (Some value) need_schedule, m))"

definition mb_recv_loop ::
    "nat \<Rightarrow> int \<Rightarrow> u32 \<Rightarrow> suspend_flag \<Rightarrow> nat \<Rightarrow> mails \<Rightarrow> (mb_result \<times> mails) option" where
  "mb_recv_loop b timeout tick_delta sflag t m =
     (if mb_entry (boxes m b) = 0 then
        let m = mail_errno t (- RT_EINTR) m
        in if timeout = 0 then Some (Mb_returns (- RT_ETIMEOUT) None False, mail_errno t (- RT_ETIMEOUT) m)
           else mb_suspend (receivers b) timeout tick_delta sflag t m
      else Some (mb_fetch b m))"

definition mb_recv :: "nat \<Rightarrow> int \<Rightarrow> suspend_flag \<Rightarrow> nat \<Rightarrow> mails \<Rightarrow> (mb_result \<times> mails) option" where
  "mb_recv b timeout sflag t m =
     (if mb_entry (boxes m b) = 0 \<and> timeout = 0 then Some (Mb_returns (- RT_ETIMEOUT) None False, m)
      else mb_recv_loop b timeout 0 sflag t m)"

definition mb_recv_resumed ::
    "nat \<Rightarrow> int \<Rightarrow> u32 \<Rightarrow> suspend_flag \<Rightarrow> nat \<Rightarrow> mails \<Rightarrow> (mb_result \<times> mails) option" where
  "mb_recv_resumed b timeout tick_delta sflag t m =
     (if errno (mkern m) t \<noteq> RT_EOK then Some (Mb_returns (errno (mkern m) t) None False, m)
      else
        let (timeout, tick_delta) = ipc_time_left timeout tick_delta (mkern m)
        in mb_recv_loop b timeout tick_delta sflag t m)"

definition rt_mb_recv :: "nat \<Rightarrow> int \<Rightarrow> nat \<Rightarrow> mails \<Rightarrow> (mb_result \<times> mails) option" where
  "rt_mb_recv b timeout t m = map_option mb_switch (mb_recv b timeout RT_UNINTERRUPTIBLE t m)"

definition rt_mb_recv_interruptible :: "nat \<Rightarrow> int \<Rightarrow> nat \<Rightarrow> mails \<Rightarrow> (mb_result \<times> mails) option" where
  "rt_mb_recv_interruptible b timeout t m = map_option mb_switch (mb_recv b timeout RT_INTERRUPTIBLE t m)"

definition rt_mb_recv_killable :: "nat \<Rightarrow> int \<Rightarrow> nat \<Rightarrow> mails \<Rightarrow> (mb_result \<times> mails) option" where
  "rt_mb_recv_killable b timeout t m = map_option mb_switch (mb_recv b timeout RT_KILLABLE t m)"

definition rt_mb_control :: "nat \<Rightarrow> int \<Rightarrow> mails \<Rightarrow> (int \<times> mails) option" where
  "rt_mb_control b cmd m =
     (if cmd = RT_IPC_CMD_RESET then
        map_option (\<lambda>m. (RT_EOK, mail_schedule
            (m\<lparr>boxes := (boxes m)(b := (boxes m b)\<lparr>mb_entry := 0, in_offset := 0, out_offset := 0\<rparr>)\<rparr>)))
          (mb_resume_all b m)
      else Some (- RT_ERROR, m))"

section \<open>A mailbox as a queue\<close>

definition box_ok :: "box \<Rightarrow> bool" where
  "box_ok x \<longleftrightarrow> length (msg_pool x) = unat (mb_size x) \<and> mb_entry x \<le> mb_size x \<and>
     (mb_size x \<noteq> 0 \<longrightarrow> out_offset x < mb_size x \<and>
        unat (in_offset x) = (unat (out_offset x) + unat (mb_entry x)) mod unat (mb_size x))"

definition contents :: "box \<Rightarrow> u32 list" where
  "contents x = map (\<lambda>i. msg_pool x ! ((unat (out_offset x) + i) mod unat (mb_size x))) [0..<unat (mb_entry x)]"

lemma length_contents [simp]: "length (contents x) = unat (mb_entry x)"
  by (simp add: contents_def)

lemma unat_add1: "(x :: u16) < y \<Longrightarrow> unat (x + 1) = unat x + 1"
proof -
  assume "x < y"
  then have "x + 1 \<noteq> 0" by (metis add.commute add_eq_0_iff max_word_max not_le)
  then show ?thesis by (simp add: unatSuc add.commute)
qed

lemma unat_sub1: "(x :: u16) \<noteq> 0 \<Longrightarrow> unat (x - 1) = unat x - 1 \<and> unat x > 0"
  by (simp add: unat_minus_one unat_gt_0)

text \<open>An offset that is moved on, around the end of the pool.\<close>

lemma offset_up:
  assumes "(o1 :: u16) < n"
  shows "unat (if n \<le> o1 + 1 then 0 else o1 + 1) = (unat o1 + 1) mod unat n"
proof -
  have u: "unat (o1 + 1) = unat o1 + 1" by (rule unat_add1 [OF assms])
  have l: "unat o1 < unat n" using assms by (simp add: word_less_nat_alt)
  show ?thesis
  proof (cases "n \<le> o1 + 1")
    case True
    then have "unat o1 + 1 = unat n" using l u by (simp add: word_le_nat_alt)
    then show ?thesis using True by simp
  next
    case False
    then have "unat o1 + 1 < unat n" using u by (simp add: word_le_nat_alt)
    then show ?thesis using False u by simp
  qed
qed

lemma mod_apart: "(i::nat) < e \<Longrightarrow> e < n \<Longrightarrow> (a + i) mod n \<noteq> (a + e) mod n"
proof
  assume i: "i < e" "e < n" and "(a + i) mod n = (a + e) mod n"
  then have "n dvd (a + e) - (a + i)" by (metis add_le_cancel_left less_imp_le_nat mod_eq_dvd_iff_nat)
  then have "n dvd e - i" by simp
  then show False using i by (metis dvd_imp_le less_imp_diff_less not_le zero_less_diff)
qed

lemma box_put_ok:
  fixes v :: u32
  assumes x: "box_ok x" and e: "mb_entry x \<noteq> mb_size x"
  defines "y \<equiv> (box_put v x)\<lparr>mb_entry := mb_entry x + 1\<rparr>"
  shows "box_ok y" and "contents y = contents x @ [v]" and "mb_size y = mb_size x" and "mb_entry x < RT_MB_ENTRY_MAX"
proof -
  let ?n = "unat (mb_size x)" and ?e = "unat (mb_entry x)" and ?o = "unat (out_offset x)"
  have le: "mb_entry x < mb_size x" using x e by (auto simp: box_ok_def)
  then have eN: "?e < ?n" by (simp add: word_less_nat_alt)
  then have n0: "mb_size x \<noteq> 0" by auto
  have o: "?o < ?n" and i: "unat (in_offset x) = (?o + ?e) mod ?n" and len: "length (msg_pool x) = ?n"
    using x n0 by (auto simp: box_ok_def word_less_nat_alt)
  have iN: "in_offset x < mb_size x" using i eN by (simp add: word_less_nat_alt)
  have u: "unat (mb_entry x + 1) = ?e + 1" by (rule unat_add1 [OF le])
  have y: "msg_pool y = (msg_pool x)[(?o + ?e) mod ?n := v]" "mb_size y = mb_size x" "out_offset y = out_offset x"
    "mb_entry y = mb_entry x + 1" "in_offset y = (if mb_size x \<le> in_offset x + 1 then 0 else in_offset x + 1)"
    by (simp_all add: y_def box_put_def Let_def i)
  have inY: "unat (in_offset y) = (?o + (?e + 1)) mod ?n"
    using offset_up [OF iN] by (simp only: y i mod_add_left_eq add.assoc)
  show "mb_size y = mb_size x" by (rule y)
  show "box_ok y" using o len inY u eN by (simp add: box_ok_def y word_le_nat_alt word_less_nat_alt)
  show "mb_entry x < RT_MB_ENTRY_MAX"
  proof -
    have "unat (mb_size x) < 65536" using unsigned_less [of "mb_size x"] by simp
    then show ?thesis using eN by (simp add: RT_MB_ENTRY_MAX_def word_less_nat_alt)
  qed
  have "msg_pool y ! ((?o + j) mod ?n) = msg_pool x ! ((?o + j) mod ?n)" if "j < ?e" for j
    using mod_apart [OF that eN, of ?o] by (simp add: y)
  moreover have "msg_pool y ! ((?o + ?e) mod ?n) = v" using len eN by (simp add: y)
  ultimately show "contents y = contents x @ [v]" by (simp add: contents_def y u)
qed

lemma box_put_front_ok:
  assumes x: "box_ok x" and e: "mb_entry x \<noteq> mb_size x"
  shows "box_ok (box_put_front v x)" and "contents (box_put_front v x) = v # contents x" and "mb_size (box_put_front v x) = mb_size x"
    and "mb_entry (box_put_front v x) = mb_entry x + 1"
proof -
  let ?n = "unat (mb_size x)" and ?e = "unat (mb_entry x)" and ?o = "unat (out_offset x)" and ?y = "box_put_front v x"
  have le: "mb_entry x < mb_size x" using x e by (auto simp: box_ok_def)
  then have eN: "?e < ?n" by (simp add: word_less_nat_alt)
  then have n0: "mb_size x \<noteq> 0" by auto
  have o: "?o < ?n" and i: "unat (in_offset x) = (?o + ?e) mod ?n" and len: "length (msg_pool x) = ?n"
    using x n0 by (auto simp: box_ok_def word_less_nat_alt)
  have u: "unat (mb_entry x + 1) = ?e + 1" by (rule unat_add1 [OF le])
  let ?p = "unat (out_offset ?y)"
  have p: "?p = (if ?o > 0 then ?o - 1 else ?n - 1)"
    using unat_sub1 [of "out_offset x"] unat_sub1 [OF n0] by (auto simp: box_put_front_def Let_def word_greater_zero_iff)
  then have pN: "?p < ?n" and pS: "(?p + 1) mod ?n = ?o" using o by auto
  have y: "msg_pool ?y = (msg_pool x)[?p := v]" "mb_size ?y = mb_size x" "in_offset ?y = in_offset x" "mb_entry ?y = mb_entry x + 1"
    by (simp_all add: box_put_front_def Let_def)
  have shift: "(?p + (j + 1)) mod ?n = (?o + j) mod ?n" for j
    using pS by (metis add.assoc add.commute mod_add_left_eq)
  show "mb_size ?y = mb_size x" "mb_entry ?y = mb_entry x + 1" by (rule y)+
  show "box_ok ?y" using len pN u eN i shift [of ?e] by (simp add: box_ok_def y word_le_nat_alt word_less_nat_alt)
  have "msg_pool ?y ! ((?p + Suc j) mod ?n) = msg_pool x ! ((?o + j) mod ?n)" if "j < ?e" for j
    using mod_apart [of 0 "Suc j" ?n ?p] that eN pN shift [of j] by (simp add: y)
  moreover have "msg_pool ?y ! (?p mod ?n) = v" using len pN by (simp add: y)
  ultimately show "contents ?y = v # contents x" by (simp add: contents_def y u upt_conv_Cons map_Suc_upt [symmetric] del: upt_Suc)
qed

lemma box_take_ok:
  assumes x: "box_ok x" and e: "mb_entry x \<noteq> 0"
  shows "box_ok (snd (box_take x))" and "contents x = fst (box_take x) # contents (snd (box_take x))"
    and "mb_size (snd (box_take x)) = mb_size x" and "mb_entry (snd (box_take x)) = mb_entry x - 1"
proof -
  let ?n = "unat (mb_size x)" and ?e = "unat (mb_entry x)" and ?o = "unat (out_offset x)" and ?y = "snd (box_take x)"
  have u: "unat (mb_entry x - 1) = ?e - 1" "?e > 0" using unat_sub1 [OF e] by simp_all
  have eN: "?e \<le> ?n" using x by (simp add: box_ok_def word_le_nat_alt)
  then have n0: "mb_size x \<noteq> 0" using u(2) by auto
  have o: "out_offset x < mb_size x" and i: "unat (in_offset x) = (?o + ?e) mod ?n" and len: "length (msg_pool x) = ?n"
    using x n0 by (auto simp: box_ok_def)
  have y: "msg_pool ?y = msg_pool x" "mb_size ?y = mb_size x" "in_offset ?y = in_offset x" "mb_entry ?y = mb_entry x - 1"
    "out_offset ?y = (if mb_size x \<le> out_offset x + 1 then 0 else out_offset x + 1)" "fst (box_take x) = msg_pool x ! ?o"
    using e by (auto simp: box_take_def Let_def word_greater_zero_iff)
  have p: "unat (out_offset ?y) = (?o + 1) mod ?n" using offset_up [OF o] by (simp only: y)
  have oN: "?o < ?n" using o by (simp add: word_less_nat_alt)
  have shift: "((?o + 1) mod ?n + j) mod ?n = (?o + Suc j) mod ?n" for j by (simp add: mod_add_left_eq)
  show "mb_size ?y = mb_size x" "mb_entry ?y = mb_entry x - 1" by (rule y)+
  show "box_ok ?y"
    using len u eN i oN shift [of "?e - 1"] by (simp add: box_ok_def y(1-4) p word_le_nat_alt word_less_nat_alt)
  have "[0..<?e] = 0 # map Suc [0..<?e - 1]" using u(2) by (simp add: upt_conv_Cons map_Suc_upt)
  then show "contents x = fst (box_take x) # contents ?y"
    using oN by (simp add: contents_def y(1-4,6) p u(1) mod_add_left_eq del: upt_Suc)
qed

section \<open>Mailboxes under way\<close>

text \<open>A call of a thread with its arguments and locals.\<close>

datatype mail_call = Sending nat u32 int u32 suspend_flag | Receiving nat int u32 suspend_flag

fun call_list :: "mail_call \<Rightarrow> nat" where
  "call_list (Sending b _ _ _ _) = senders b"
| "call_list (Receiving b _ _ _) = receivers b"

fun mail_called :: "mail_call \<Rightarrow> nat \<Rightarrow> mails \<Rightarrow> (mb_result \<times> mails) option" where
  "mail_called (Sending b value timeout _ sflag) t m = mb_send_wait b value timeout sflag t m"
| "mail_called (Receiving b timeout _ sflag) t m = mb_recv b timeout sflag t m"

fun mail_resumed :: "mail_call \<Rightarrow> nat \<Rightarrow> mails \<Rightarrow> (mb_result \<times> mails) option" where
  "mail_resumed (Sending b value timeout tick_delta sflag) t m = mb_send_resumed b value timeout tick_delta sflag t m"
| "mail_resumed (Receiving b timeout tick_delta sflag) t m = mb_recv_resumed b timeout tick_delta sflag t m"

fun set_locals :: "mail_call \<Rightarrow> int \<Rightarrow> u32 \<Rightarrow> mail_call" where
  "set_locals (Sending b value _ _ sflag) timeout tick_delta = Sending b value timeout tick_delta sflag"
| "set_locals (Receiving b _ _ sflag) timeout tick_delta = Receiving b timeout tick_delta sflag"

lemma call_list_locals [simp]: "call_list (set_locals c timeout tick_delta) = call_list c"
  by (cases c) simp_all

text \<open>What users see of a call: which mail was accepted or received.\<close>

fun mail_log :: "mail_call \<Rightarrow> int \<Rightarrow> u32 option \<Rightarrow> u32 queue_event list" where
  "mail_log (Sending b value _ _ _) r _ = (if r = RT_EOK then [Posted b value] else [])"
| "mail_log (Receiving b _ _ _) r (Some v) = (if r = RT_EOK then [Fetched b v] else [])"
| "mail_log (Receiving b _ _ _) r None = []"

record mail_run =
  mstate :: mails
  mpc :: "nat \<Rightarrow> pc"
  mcall :: "nat \<Rightarrow> mail_call"
  mail_trace :: "u32 queue_event list"

text \<open>
  One step: the current thread sends or receives, at once or not; it calls the scheduler; it runs again, and returns or
  waits once more; an interrupt sends without waiting; anybody sends urgent mail; an interrupt calls the scheduler; the
  clock ticks; a timer runs out; a thread yields.  The thread \<open>idle\<close> does not wait.
\<close>

inductive mail_step :: "nat \<Rightarrow> mail_run \<Rightarrow> mail_run \<Rightarrow> bool" for idle where
  call_returns: "rt_current_thread (mkern (mstate m)) = Some t \<Longrightarrow> mpc m t = Outside \<Longrightarrow>
    mail_called c t (mstate m) = Some (Mb_returns r v need_schedule, x) \<Longrightarrow>
    mail_step idle m (m\<lparr>mstate := x, mail_trace := mail_trace m @ mail_log c r v\<rparr>)"
| call_waits: "rt_current_thread (mkern (mstate m)) = Some t \<Longrightarrow> t \<noteq> idle \<Longrightarrow> mpc m t = Outside \<Longrightarrow>
    mail_called c t (mstate m) = Some (Mb_waits timeout tick_delta, x) \<Longrightarrow>
    mail_step idle m (m\<lparr>mstate := x, mpc := (mpc m)(t := Before (call_list c)),
      mcall := (mcall m)(t := set_locals c timeout tick_delta)\<rparr>)"
| call_switches: "rt_current_thread (mkern (mstate m)) = Some t \<Longrightarrow> mpc m t = Before l \<Longrightarrow>
    mail_step idle m (m\<lparr>mstate := mail_schedule (mstate m), mpc := (mpc m)(t := After l)\<rparr>)"
| resumed_returns: "rt_current_thread (mkern (mstate m)) = Some t \<Longrightarrow> mpc m t = After l \<Longrightarrow>
    mail_resumed (mcall m t) t (mstate m) = Some (Mb_returns r v need_schedule, x) \<Longrightarrow>
    mail_step idle m (m\<lparr>mstate := x, mpc := (mpc m)(t := Outside), mail_trace := mail_trace m @ mail_log (mcall m t) r v\<rparr>)"
| resumed_waits: "rt_current_thread (mkern (mstate m)) = Some t \<Longrightarrow> mpc m t = After l \<Longrightarrow>
    mail_resumed (mcall m t) t (mstate m) = Some (Mb_waits timeout tick_delta, x) \<Longrightarrow>
    mail_step idle m (m\<lparr>mstate := x, mpc := (mpc m)(t := Before l),
      mcall := (mcall m)(t := set_locals (mcall m t) timeout tick_delta)\<rparr>)"
| interrupt_sends: "mb_send_wait b value 0 sflag t (mstate m) = Some (Mb_returns r v need_schedule, x) \<Longrightarrow>
    mail_step idle m (m\<lparr>mstate := x, mail_trace := mail_trace m @ (if r = RT_EOK then [Posted b value] else [])\<rparr>)"
| urgent: "mb_urgent b value (mstate m) = (Mb_returns r v need_schedule, x) \<Longrightarrow>
    mail_step idle m (m\<lparr>mstate := x, mail_trace := mail_trace m @ (if r = RT_EOK then [Posted_front b value] else [])\<rparr>)"
| schedules: "mail_step idle m (m\<lparr>mstate := mail_schedule (mstate m)\<rparr>)"
| ticks: "mail_step idle m (m\<lparr>mstate := (mstate m)\<lparr>mkern := rt_tick_increase (mkern (mstate m))\<rparr>\<rparr>)"
| times_out: "thread_timer (mkern (mstate m)) t \<noteq> None \<Longrightarrow>
    mail_step idle m (m\<lparr>mstate := (mstate m)\<lparr>mkern :=
      thread_timeout t ((mkern (mstate m))\<lparr>thread_timer := (thread_timer (mkern (mstate m)))(t := None)\<rparr>)\<rparr>\<rparr>)"
| yields: "mail_step idle m (m\<lparr>mstate := (mstate m)\<lparr>mkern := snd (rt_thread_yield (mkern (mstate m)))\<rparr>\<rparr>)"

inductive_cases mail_stepE: "mail_step idle m m'"

text \<open>
  The invariant, for the positions \<open>p\<close> of the threads and the queues \<open>q\<close>: the pools hold the queues, and no wake-up
  is lost.  \<open>extra l\<close> counts a thread that has just come back.
\<close>

abbreviation mail_room :: "(nat \<Rightarrow> nat) \<Rightarrow> (nat \<Rightarrow> u32 list) \<Rightarrow> nat \<Rightarrow> nat" where
  "mail_room n q \<equiv> stock (\<lambda>b. length (q b)) (\<lambda>b. n b - length (q b))"

definition mail_ok ::
    "nat \<Rightarrow> (nat \<Rightarrow> nat) \<Rightarrow> (nat \<Rightarrow> pc) \<Rightarrow> mails \<Rightarrow> (nat \<Rightarrow> u32 list) \<Rightarrow> (nat \<Rightarrow> nat) \<Rightarrow> (tlist_head \<Rightarrow> nat list) \<Rightarrow> bool" where
  "mail_ok idle n p m q extra L \<longleftrightarrow> line_ok idle p (mkern m) (mail_room n q) extra L \<and>
     (\<forall>b. box_ok (boxes m b) \<and> contents (boxes m b) = q b \<and> unat (mb_size (boxes m b)) = n b)"

lemma mail_okD:
  assumes "mail_ok idle n p m q extra L"
  shows "line_ok idle p (mkern m) (mail_room n q) extra L"
    and "\<And>b. box_ok (boxes m b)" and "\<And>b. contents (boxes m b) = q b" and "\<And>b. unat (mb_size (boxes m b)) = n b"
    and "\<And>b. unat (mb_entry (boxes m b)) = length (q b)" and "\<And>b. length (q b) \<le> n b"
proof -
  show "line_ok idle p (mkern m) (mail_room n q) extra L" using assms by (simp add: mail_ok_def)
  show b: "box_ok (boxes m b)" "contents (boxes m b) = q b" "unat (mb_size (boxes m b)) = n b" for b
    using assms by (simp_all add: mail_ok_def)
  show e: "unat (mb_entry (boxes m b)) = length (q b)" for b using b(2) [of b] by (metis length_contents)
  show "length (q b) \<le> n b" for b using b(1,3) [of b] e [of b] by (auto simp: box_ok_def word_le_nat_alt)
qed

lemma mail_ok_kernel:
  assumes "mail_ok idle n p m q extra L" and "line_ok idle p' k (mail_room n q) extra' L'"
  shows "mail_ok idle n p' (m\<lparr>mkern := k\<rparr>) q extra' L'"
  using assms by (simp add: mail_ok_def)

lemma mail_ok_line:
  assumes "mail_ok idle n p m q extra L" and "line_ok idle p' (mkern m) (mail_room n q) extra' L'"
  shows "mail_ok idle n p' m q extra' L'"
  using assms by (simp add: mail_ok_def)

lemma mail_ok_errno:
  assumes "mail_ok idle n p m q extra L" and "p t = Outside"
  shows "mail_ok idle n p (mail_errno t x m) q extra L"
  unfolding mail_errno_def by (rule mail_ok_kernel [OF assms(1) line_errno [OF mail_okD(1) [OF assms(1)] assms(2)]])

lemma mail_ok_extra:
  assumes ok: "mail_ok idle n p m q extra L" and "\<And>l. mail_room n q l = 0 \<or> extra l \<le> extra' l"
  shows "mail_ok idle n p m q extra' L"
proof (rule mail_ok_line [OF ok], rule line_mono [OF mail_okD(1) [OF ok]])
  show "mail_room n q l = 0 \<or> mail_room n q l + extra l \<le> mail_room n q l + extra' l" for l using assms(2) [of l] by auto
qed

lemma mb_suspend_waits:
  assumes ok: "mail_ok idle n p m q extra L" and t: "rt_current_thread (mkern m) = Some t" "p t = Outside"
    and to: "timeout \<noteq> 0" and a: "mail_room n q l = 0"
  obtains td k where "mb_suspend l timeout tick_delta sflag t (mail_errno t (- RT_EINTR) m) = Some (Mb_waits timeout td, m\<lparr>mkern := k\<rparr>)"
    "t \<noteq> idle \<longrightarrow> (\<exists>L'. mail_ok idle n (p(t := Before l)) (m\<lparr>mkern := k\<rparr>) q extra L')"
proof -
  obtain td k where w: "ipc_wait l timeout tick_delta sflag t ((mkern m)\<lparr>errno := (errno (mkern m))(t := - RT_EINTR)\<rparr>) =
      Some (Wait_schedules timeout td, k)"
    "t \<noteq> idle \<longrightarrow> (\<exists>L'. line_ok idle (p(t := Before l)) k (mail_room n q) extra L')"
    by (rule line_waits [where l = l and sflag = sflag and tick_delta = tick_delta, OF mail_okD(1) [OF ok] t to a])
  have "mb_suspend l timeout tick_delta sflag t (mail_errno t (- RT_EINTR) m) = Some (Mb_waits timeout td, m\<lparr>mkern := k\<rparr>)"
    using w(1) by (simp add: mb_suspend_def mail_errno_def)
  moreover have "t \<noteq> idle \<longrightarrow> (\<exists>L'. mail_ok idle n (p(t := Before l)) (m\<lparr>mkern := k\<rparr>) q extra L')"
    using w(2) by (blast intro: mail_ok_kernel [OF ok])
  ultimately show ?thesis by (rule that)
qed

lemma mail_room_upd:
  "mail_room n (q(b := vs)) = (mail_room n q)(receivers b := length vs, senders b := n b - length vs)"
proof -
  have "mail_room n (q(b := vs)) = stock ((\<lambda>b. length (q b))(b := length vs)) ((\<lambda>b. n b - length (q b))(b := n b - length vs))"
    by (rule arg_cong2 [where f = stock]) auto
  then show ?thesis by (simp add: stock_upd [symmetric])
qed

text \<open>A box is changed, and a thread of the other side woken.\<close>

lemma mb_wake_ok:
  assumes ok: "mail_ok idle n p m q extra L" and y: "box_ok y" "contents y = vs" "mb_size y = mb_size (boxes m b)"
    and a: "\<And>r. ((mail_room n q)(receivers b := length vs, senders b := n b - length vs)) r = 0 \<or>
      ((mail_room n q)(receivers b := length vs, senders b := n b - length vs)) r + extra r \<le> ((mail_room n q)(l := mail_room n q l + 1)) r"
  obtains ns m' L' where "mb_wake l (m\<lparr>boxes := (boxes m)(b := y)\<rparr>) = (ns, m')" "mail_ok idle n p m' (q(b := vs)) (\<lambda>_. 0) L'"
proof -
  note d = mail_okD [OF ok]
  obtain ns k L' where w: "ipc_wake l (mkern m) = (ns, k)" "line_ok idle p k ((mail_room n q)(l := mail_room n q l + 1)) extra L'"
    by (rule line_wake [OF d(1)])
  have "line_ok idle p k (mail_room n (q(b := vs))) (\<lambda>_. 0) L'" 
    unfolding mail_room_upd by (rule line_mono [OF w(2)]) (use a in simp)
  then have "mail_ok idle n p (m\<lparr>boxes := (boxes m)(b := y), mkern := k\<rparr>) (q(b := vs)) (\<lambda>_. 0) L'"
    using d(2-4) y d(4) [of b] by (simp add: mail_ok_def)
  with w(1) show ?thesis by (intro that) (simp_all add: mb_wake_def)
qed

text \<open>The three operations on the pool, with the waking behind them.\<close>

lemma mb_store_ok:
  assumes ok: "mail_ok idle n p m q (came_back (senders b)) L" and room: "mb_entry (boxes m b) \<noteq> mb_size (boxes m b)"
  obtains ns m' L' where "mb_store b v m = (Mb_returns RT_EOK None ns, m')"
    "mail_ok idle n p m' (q(b := q b @ [v])) (\<lambda>_. 0) L'" "deliver n (Posted b v) q = Some (q(b := q b @ [v]))"
proof -
  note d = mail_okD [OF ok]
  note put = box_put_ok [OF d(2) room]
  have e: "mb_entry (box_put v (boxes m b)) = mb_entry (boxes m b)" by (simp add: box_put_def Let_def)
  have l: "length (q b) < n b" using d(4-6) [of b] room by (metis le_neq_implies_less word_unat_eq_iff)
  obtain ns m' L' where w: "mb_wake (receivers b) (m\<lparr>boxes := (boxes m)(b := (box_put v (boxes m b))\<lparr>mb_entry := mb_entry (boxes m b) + 1\<rparr>)\<rparr>) = (ns, m')"
    "mail_ok idle n p m' (q(b := q b @ [v])) (\<lambda>_. 0) L'"
    by (rule mb_wake_ok [OF ok put(1) put(2) put(3), where l = "receivers b"])
      (use l in \<open>auto simp: d(3)\<close>)
  then show ?thesis using l by (intro that [of ns m' L']) (simp_all add: mb_store_def Let_def e put(4))
qed

lemma mb_urgent_ok:
  assumes ok: "mail_ok idle n p m q (\<lambda>_. 0) L" and room: "mb_entry (boxes m b) \<noteq> mb_size (boxes m b)"
  obtains ns m' L' where "mb_urgent b v m = (Mb_returns RT_EOK None ns, m')"
    "mail_ok idle n p m' (q(b := v # q b)) (\<lambda>_. 0) L'" "deliver n (Posted_front b v) q = Some (q(b := v # q b))"
proof -
  note d = mail_okD [OF ok]
  note put = box_put_front_ok [OF d(2) room]
  have l: "length (q b) < n b" using d(4-6) [of b] room by (metis le_neq_implies_less word_unat_eq_iff)
  obtain ns m' L' where w: "mb_wake (receivers b) (m\<lparr>boxes := (boxes m)(b := box_put_front v (boxes m b))\<rparr>) = (ns, m')"
    "mail_ok idle n p m' (q(b := v # q b)) (\<lambda>_. 0) L'"
    by (rule mb_wake_ok [OF ok put(1) put(2) put(3), where l = "receivers b"])
      (use l in \<open>auto simp: d(3)\<close>)
  then show ?thesis using l by (intro that [of ns m' L']) (simp_all add: mb_urgent_def Let_def room)
qed

lemma mb_fetch_ok:
  assumes ok: "mail_ok idle n p m q (came_back (receivers b)) L" and mail: "mb_entry (boxes m b) \<noteq> 0"
  obtains v vs ns m' L' where "mb_fetch b m = (Mb_returns RT_EOK (Some v) ns, m')" "q b = v # vs"
    "mail_ok idle n p m' (q(b := vs)) (\<lambda>_. 0) L'"
proof -
  note d = mail_okD [OF ok]
  note take = box_take_ok [OF d(2) mail]
  let ?v = "fst (box_take (boxes m b))" and ?y = "snd (box_take (boxes m b))"
  have q: "q b = ?v # contents ?y" using take(2) d(3) by simp
  obtain ns m' L' where w: "mb_wake (senders b) (m\<lparr>boxes := (boxes m)(b := ?y)\<rparr>) = (ns, m')"
    "mail_ok idle n p m' (q(b := contents ?y)) (\<lambda>_. 0) L'"
    by (rule mb_wake_ok [OF ok take(1) refl take(3), where l = "senders b"])
      (use d(6) [of b] q in \<open>auto simp del: length_contents\<close>)
  moreover have "mb_fetch b m = (Mb_returns RT_EOK (Some ?v) ns, m')"
    by (simp add: mb_fetch_def case_prod_beta w(1))
  ultimately show ?thesis using that q by blast
qed

text \<open>A pass through a loop, by a thread that comes from outside or has just come back.\<close>

definition pass_ok ::
    "nat \<Rightarrow> (nat \<Rightarrow> nat) \<Rightarrow> (nat \<Rightarrow> pc) \<Rightarrow> nat \<Rightarrow> mail_call \<Rightarrow> (nat \<Rightarrow> u32 list) \<Rightarrow> mb_result \<times> mails \<Rightarrow> bool" where
  "pass_ok idle n p t c q = (\<lambda>(r, m).
     case r of
       Mb_returns e v _ \<Rightarrow> \<exists>q' L. replay n (mail_log c e v) q = Some q' \<and> mail_ok idle n p m q' (\<lambda>_. 0) L
     | Mb_waits _ _ \<Rightarrow> t \<noteq> idle \<longrightarrow> (\<exists>L. mail_ok idle n (p(t := Before (call_list c))) m q (\<lambda>_. 0) L))"

lemma mb_send_loop_ok:
  assumes ok: "mail_ok idle n p m q (came_back (senders b)) L" and t: "rt_current_thread (mkern m) = Some t" "p t = Outside"
    and r: "mb_send_loop b v timeout tick_delta sflag t m = Some r"
  shows "pass_ok idle n p t (Sending b v x y z) q r"
proof (cases "mb_entry (boxes m b) = mb_size (boxes m b)")
  case False
  obtain ns x L' where "mb_store b v m = (Mb_returns RT_EOK None ns, x)"
    "mail_ok idle n p x (q(b := q b @ [v])) (\<lambda>_. 0) L'" "deliver n (Posted b v) q = Some (q(b := q b @ [v]))"
    by (rule mb_store_ok [OF ok False])
  then show ?thesis using r False by (auto simp: mb_send_loop_def pass_ok_def intro!: exI [of _ L'])
next
  case True
  have "length (q b) = n b" using mail_okD(4,5) [OF ok, of b] True by simp
  then have full: "mail_room n q (senders b) = 0" by simp
  have ok0: "mail_ok idle n p m q (\<lambda>_. 0) L" by (rule mail_ok_extra [OF ok]) (use full in auto)
  show ?thesis
  proof (cases "timeout = 0")
    case to: True
    then show ?thesis
      using r True mail_ok_errno [OF ok0 t(2)] by (auto simp: mb_send_loop_def pass_ok_def intro!: exI [of _ L])
  next
    case False
    then show ?thesis
      by (rule mb_suspend_waits [where tick_delta = tick_delta and sflag = sflag, OF ok0 t _ full])
        (use r True False in \<open>auto simp: mb_send_loop_def pass_ok_def\<close>)
  qed
qed

lemma mb_recv_loop_ok:
  assumes ok: "mail_ok idle n p m q (came_back (receivers b)) L" and t: "rt_current_thread (mkern m) = Some t" "p t = Outside"
    and r: "mb_recv_loop b timeout tick_delta sflag t m = Some r"
  shows "pass_ok idle n p t (Receiving b x y z) q r"
proof (cases "mb_entry (boxes m b) = 0")
  case False
  obtain v vs ns x L' where "mb_fetch b m = (Mb_returns RT_EOK (Some v) ns, x)" "q b = v # vs"
    "mail_ok idle n p x (q(b := vs)) (\<lambda>_. 0) L'"
    by (rule mb_fetch_ok [OF ok False])
  then show ?thesis using r False by (auto simp: mb_recv_loop_def pass_ok_def intro!: exI [of _ L'])
next
  case True
  have "q b = []" using mail_okD(5) [OF ok, of b] True by simp
  then have empty: "mail_room n q (receivers b) = 0" by simp
  have ok0: "mail_ok idle n p m q (\<lambda>_. 0) L" by (rule mail_ok_extra [OF ok]) (use empty in auto)
  show ?thesis
  proof (cases "timeout = 0")
    case to: True
    have "mail_ok idle n p (mail_errno t (- RT_ETIMEOUT) (mail_errno t (- RT_EINTR) m)) q (\<lambda>_. 0) L"
      by (intro mail_ok_errno ok0 t(2))
    then show ?thesis using r True to by (auto simp: mb_recv_loop_def pass_ok_def)
  next
    case False
    then show ?thesis
      by (rule mb_suspend_waits [where tick_delta = tick_delta and sflag = sflag, OF ok0 t _ empty])
        (use r True False in \<open>auto simp: mb_recv_loop_def pass_ok_def\<close>)
  qed
qed

lemma mail_called_ok:
  assumes ok: "mail_ok idle n p m q (\<lambda>_. 0) L" and t: "rt_current_thread (mkern m) = Some t" "p t = Outside"
    and r: "mail_called c t m = Some r"
  shows "pass_ok idle n p t c q r"
proof -
  have ok': "mail_ok idle n p m q (came_back l) L" for l by (rule mail_ok_extra [OF ok]) simp_all
  show ?thesis
  proof (cases c)
    case (Sending b v timeout td sflag)
    then show ?thesis
      using r mb_send_loop_ok [OF ok' t, of b v timeout 0 sflag r timeout td sflag] ok
      by (auto simp: mb_send_wait_def pass_ok_def split: if_splits intro!: exI [of _ L])
  next
    case (Receiving b timeout td sflag)
    then show ?thesis
      using r mb_recv_loop_ok [OF ok' t, of b timeout 0 sflag r timeout td sflag] ok
      by (auto simp: mb_recv_def pass_ok_def split: if_splits intro!: exI [of _ L])
  qed
qed

lemma mail_ok_leaves:
  assumes ok: "mail_ok idle n p m q (\<lambda>_. 0) L" and t: "rt_current_thread (mkern m) = Some t" "p t = After l"
  shows "mail_ok idle n (p(t := Outside)) m q (if errno (mkern m) t = RT_EOK then came_back l else (\<lambda>_. 0)) L"
  by (rule mail_ok_line [OF ok line_leaves [OF mail_okD(1) [OF ok] t]])

lemma mail_resumed_ok:
  assumes ok: "mail_ok idle n p m q (\<lambda>_. 0) L" and t: "rt_current_thread (mkern m) = Some t" "p t = After (call_list c)"
    and r: "mail_resumed c t m = Some r"
  shows "pass_ok idle n (p(t := Outside)) t c q r"
proof (cases "errno (mkern m) t = RT_EOK")
  case False
  then have "mail_ok idle n (p(t := Outside)) m q (\<lambda>_. 0) L" using mail_ok_leaves [OF ok t] by simp
  then show ?thesis
    using False r
    by (cases c) (auto simp: mb_send_resumed_def mb_recv_resumed_def pass_ok_def intro!: exI [of _ L])
next
  case True
  then have ok': "mail_ok idle n (p(t := Outside)) m q (came_back (call_list c)) L" using mail_ok_leaves [OF ok t] by simp
  show ?thesis
  proof (cases c)
    case (Sending b v timeout td sflag)
    obtain to' td' where l: "ipc_time_left timeout td (mkern m) = (to', td')" by fastforce
    show ?thesis
      using mb_send_loop_ok [of idle n "p(t := Outside)" m q b L t v to' td' sflag r] ok' t r True
      by (simp add: Sending mb_send_resumed_def l)
  next
    case (Receiving b timeout td sflag)
    obtain to' td' where l: "ipc_time_left timeout td (mkern m) = (to', td')" by fastforce
    show ?thesis
      using mb_recv_loop_ok [of idle n "p(t := Outside)" m q b L t to' td' sflag r] ok' t r True
      by (simp add: Receiving mb_recv_resumed_def l)
  qed
qed

definition mail_inv :: "nat \<Rightarrow> (nat \<Rightarrow> nat) \<Rightarrow> (nat \<Rightarrow> u32 list) \<Rightarrow> mail_run \<Rightarrow> bool" where
  "mail_inv idle n q0 m \<longleftrightarrow>
     (\<exists>q L. replay n (mail_trace m) q0 = Some q \<and> mail_ok idle n (mpc m) (mstate m) q (\<lambda>_. 0) L) \<and>
     (\<forall>l t. waits (mpc m) l t \<longrightarrow> call_list (mcall m t) = l)"

lemma mail_invE:
  assumes "mail_inv idle n q0 m"
  obtains q L where "replay n (mail_trace m) q0 = Some q" "mail_ok idle n (mpc m) (mstate m) q (\<lambda>_. 0) L"
    "\<forall>l t. waits (mpc m) l t \<longrightarrow> call_list (mcall m t) = l"
  using assms unfolding mail_inv_def by blast

lemma mail_invI:
  assumes "replay n (mail_trace m) q0 = Some q" and "mail_ok idle n (mpc m) (mstate m) q (\<lambda>_. 0) L"
    and "\<And>l t. waits (mpc m) l t \<Longrightarrow> call_list (mcall m t) = l"
  shows "mail_inv idle n q0 m"
  using assms unfolding mail_inv_def by blast

lemma mail_step_keeps:
  assumes "mail_step idle m m'" and inv: "mail_inv idle n q0 m"
  shows "mail_inv idle n q0 m'"
proof -
  from inv obtain q L where tr: "replay n (mail_trace m) q0 = Some q" and ok: "mail_ok idle n (mpc m) (mstate m) q (\<lambda>_. 0) L"
    and calls: "\<forall>l t. waits (mpc m) l t \<longrightarrow> call_list (mcall m t) = l" by (rule mail_invE)
  have call: "call_list (mcall m t) = l" if "waits (mpc m) l t" for l t using calls that by blast
  note s = mail_okD(1) [OF ok]
  have kernel: "mail_inv idle n q0 (m\<lparr>mstate := (mstate m)\<lparr>mkern := k\<rparr>\<rparr>)"
    if "line_ok idle (mpc m) k (mail_room n q) (\<lambda>_. 0) L'" for k L'
    using mail_ok_kernel [OF ok that] tr call by (intro mail_invI [of n _ q0 q idle L']) simp_all
  have logged: "mail_inv idle n q0 (m\<lparr>mstate := x, mail_trace := mail_trace m @ es\<rparr>)"
    if "replay n es q = Some q'" "mail_ok idle n (mpc m) x q' (\<lambda>_. 0) L'" for x es q' L'
    using that tr call by (intro mail_invI [of n _ q0 q' idle L']) (simp_all add: replay_append)
  from assms(1) show ?thesis
  proof cases
    case (call_returns t c r v ns x)
    from mail_called_ok [OF ok call_returns(2-4)] obtain q' L' where
      "replay n (mail_log c r v) q = Some q'" "mail_ok idle n (mpc m) x q' (\<lambda>_. 0) L'" by (auto simp: pass_ok_def)
    then show ?thesis unfolding call_returns(1) by (rule logged)
  next
    case (call_waits t c timeout td x)
    from mail_called_ok [OF ok call_waits(2,4,5)] call_waits(3) obtain L' where
      L': "mail_ok idle n ((mpc m)(t := Before (call_list c))) x q (\<lambda>_. 0) L'" by (auto simp: pass_ok_def)
    then show ?thesis unfolding call_waits(1) using tr call
      by (intro mail_invI [of n _ q0 q idle L']) (auto simp: waits_def split: if_splits)
  next
    case (call_switches t l)
    obtain L' where L': "line_ok idle ((mpc m)(t := After l)) (rt_schedule (mkern (mstate m))) (mail_room n q) (\<lambda>_. 0) L'"
      by (rule line_switches [OF s call_switches(3)])
    have "waits ((mpc m)(t := After l)) = waits (mpc m)" using call_switches(3) by (auto simp: waits_def fun_eq_iff)
    with mail_ok_kernel [OF ok L'] show ?thesis
      unfolding call_switches(1) mail_schedule_def using tr call by (intro mail_invI [of n _ q0 q idle L']) simp_all
  next
    case (resumed_returns t l r v ns x)
    have c: "call_list (mcall m t) = l" using call [of l t] resumed_returns(3) by (simp add: waits_def)
    from mail_resumed_ok [OF ok resumed_returns(2) _ resumed_returns(4)] resumed_returns(3) obtain q' L' where
      "replay n (mail_log (mcall m t) r v) q = Some q'" "mail_ok idle n ((mpc m)(t := Outside)) x q' (\<lambda>_. 0) L'"
      by (auto simp: pass_ok_def c)
    then show ?thesis unfolding resumed_returns(1) using tr call
      by (intro mail_invI [of n _ q0 q' idle L']) (auto simp: replay_append waits_def split: if_splits)
  next
    case (resumed_waits t l timeout td x)
    have c: "call_list (mcall m t) = l" using call [of l t] resumed_waits(3) by (simp add: waits_def)
    have "t \<noteq> idle" using resumed_waits(3) sem_okD(6) [OF line_okD(1) [OF s]] by auto
    with mail_resumed_ok [OF ok resumed_waits(2) _ resumed_waits(4)] resumed_waits(3) obtain L' where
      L': "mail_ok idle n ((mpc m)(t := Before l)) x q (\<lambda>_. 0) L'" by (auto simp: pass_ok_def c)
    then show ?thesis unfolding resumed_waits(1) using tr call c
      by (intro mail_invI [of n _ q0 q idle L']) (auto simp: waits_def split: if_splits)
  next
    case (interrupt_sends b v sflag t r x ns y)
    show ?thesis
    proof (cases "mb_entry (boxes (mstate m) b) = mb_size (boxes (mstate m) b)")
      case True
      then show ?thesis using interrupt_sends(2) logged [of "[]" q, OF _ ok] unfolding interrupt_sends(1) by (auto simp: mb_send_wait_def)
    next
      case False
      have "mail_ok idle n (mpc m) (mstate m) q (came_back (senders b)) L" by (rule mail_ok_extra [OF ok]) simp_all
      from mb_store_ok [OF this False] obtain ns' x' L' where
        "mb_store b v (mstate m) = (Mb_returns RT_EOK None ns', x')" "mail_ok idle n (mpc m) x' (q(b := q b @ [v])) (\<lambda>_. 0) L'"
        "deliver n (Posted b v) q = Some (q(b := q b @ [v]))" by blast
      then show ?thesis
        using interrupt_sends(2) False logged [of "[Posted b v]"] unfolding interrupt_sends(1)
        by (auto simp: mb_send_wait_def mb_send_loop_def)
    qed
  next
    case (urgent b v r x ns y)
    show ?thesis
    proof (cases "mb_entry (boxes (mstate m) b) = mb_size (boxes (mstate m) b)")
      case True
      then show ?thesis using urgent(2) logged [of "[]" q, OF _ ok] unfolding urgent(1) by (auto simp: mb_urgent_def)
    next
      case False
      from mb_urgent_ok [OF ok False] obtain ns' x' L' where
        "mb_urgent b v (mstate m) = (Mb_returns RT_EOK None ns', x')" "mail_ok idle n (mpc m) x' (q(b := v # q b)) (\<lambda>_. 0) L'"
        "deliver n (Posted_front b v) q = Some (q(b := v # q b))" by blast
      then show ?thesis using urgent(2) logged [of "[Posted_front b v]"] unfolding urgent(1) by auto
    qed
  next
    case schedules
    obtain L' where "line_ok idle (mpc m) (rt_schedule (mkern (mstate m))) (mail_room n q) (\<lambda>_. 0) L'" by (rule line_schedule [OF s])
    then show ?thesis unfolding schedules mail_schedule_def by (rule kernel)
  next
    case ticks
    obtain L' where "line_ok idle (mpc m) (rt_tick_increase (mkern (mstate m))) (mail_room n q) (\<lambda>_. 0) L'" by (rule line_tick [OF s])
    then show ?thesis unfolding ticks by (rule kernel)
  next
    case (times_out t)
    obtain L' where "line_ok idle (mpc m) (thread_timeout t ((mkern (mstate m))\<lparr>thread_timer := (thread_timer (mkern (mstate m)))(t := None)\<rparr>))
        (mail_room n q) (\<lambda>_. 0) L'"
      by (rule line_times_out [OF s times_out(2)])
    then show ?thesis unfolding times_out(1) by (rule kernel)
  next
    case yields
    obtain L' where "line_ok idle (mpc m) (snd (rt_thread_yield (mkern (mstate m)))) (mail_room n q) (\<lambda>_. 0) L'" by (rule line_yield [OF s])
    then show ?thesis unfolding yields by (rule kernel)
  qed
qed

interpretation mail_run: step_relation "mail_step idle" "mail_inv idle n q0" for idle n q0
  by unfold_locales (rule mail_step_keeps)

text \<open>A start: nobody waits, a thread runs, the idle thread can, and the mailboxes are in order; there may be mail in them.\<close>

definition mail_start :: "nat \<Rightarrow> mails \<Rightarrow> bool" where
  "mail_start idle x \<longleftrightarrow> sem_start idle (mkern x) \<and> sem_value (mkern x) = (\<lambda>_. 0) \<and> (\<forall>b. box_ok (boxes x b))"

definition mail_from :: "mails \<Rightarrow> mail_run" where
  "mail_from x = \<lparr>mstate = x, mpc = (\<lambda>_. Outside), mcall = (\<lambda>_. Receiving 0 0 0 RT_UNINTERRUPTIBLE), mail_trace = []\<rparr>"

lemma mail_start_inv:
  assumes "mail_start idle x"
  shows "mail_inv idle (\<lambda>b. unat (mb_size (boxes x b))) (\<lambda>b. contents (boxes x b)) (mail_from x)"
proof -
  from assms have k: "sem_start idle (mkern x)" and v: "sem_value (mkern x) = (\<lambda>_. 0)" and b: "\<And>b. box_ok (boxes x b)"
    by (simp_all add: mail_start_def)
  obtain L where L: "sched_ok (mkern x) L" "\<And>s. L (Suspend_list s) = []" using k by (auto simp: sem_start_def)
  have "sem_ok idle (\<lambda>_. Outside) (mkern x) L" using k L by (auto simp: sem_ok_def sem_start_def waits_def)
  then have "mail_ok idle (\<lambda>b. unat (mb_size (boxes x b))) (\<lambda>_. Outside) x (\<lambda>b. contents (boxes x b)) (\<lambda>_. 0) L"
    by (simp add: mail_ok_def line_ok_def v b L(2))
  then show ?thesis by (intro mail_invI) (simp_all add: mail_from_def waits_def)
qed

section \<open>What mailboxes promise\<close>

text \<open>
  C12: a mailbox is a bounded queue of mails with a second entrance in front.  However sends, urgent sends, receives,
  interrupts, time slices, timeouts and task switches are interleaved, what was accepted and what was handed out, in
  the order in which it was, is a history of queues of the sizes of the mailboxes, and leaves what is in them.
\<close>

theorem mailbox_is_queue:
  assumes "mail_start idle x" and "(mail_step idle)\<^sup>*\<^sup>* (mail_from x) m"
  shows "replay (\<lambda>b. unat (mb_size (boxes x b))) (mail_trace m) (\<lambda>b. contents (boxes x b)) =
    Some (\<lambda>b. contents (boxes (mstate m) b))"
proof -
  from mail_run.run_keeps [OF assms(2) mail_start_inv [OF assms(1)]] obtain q L where
    q: "replay (\<lambda>b. unat (mb_size (boxes x b))) (mail_trace m) (\<lambda>b. contents (boxes x b)) = Some q"
    and ok: "mail_ok idle (\<lambda>b. unat (mb_size (boxes x b))) (mpc m) (mstate m) q (\<lambda>_. 0) L" by (rule mail_invE)
  have "q = (\<lambda>b. contents (boxes (mstate m) b))" by (rule ext) (simp add: mail_okD(3) [OF ok])
  with q show ?thesis by simp
qed

text \<open>
  C13: no wake-up is lost.  While a thread waits for mail, at least as many threads that were woken for mail are on
  their way as there are mails in the box; while one waits for room, at least as many that were woken for room are on
  their way as there are free places.
\<close>

theorem mailbox_no_lost_wakeup:
  assumes "mail_start idle x" and "(mail_step idle)\<^sup>*\<^sup>* (mail_from x) m"
    and "waits (mpc m) l t" and "errno (mkern (mstate m)) t = - RT_EINTR"
  shows "(l = receivers b \<longrightarrow> length (contents (boxes (mstate m) b)) \<le>
      card {u. waits (mpc m) (receivers b) u \<and> errno (mkern (mstate m)) u = RT_EOK}) \<and>
    (l = senders b \<longrightarrow> unat (mb_size (boxes (mstate m) b)) - length (contents (boxes (mstate m) b)) \<le>
      card {u. waits (mpc m) (senders b) u \<and> errno (mkern (mstate m)) u = RT_EOK})"
proof -
  from mail_run.run_keeps [OF assms(2) mail_start_inv [OF assms(1)]] obtain q L where
    ok: "mail_ok idle (\<lambda>b. unat (mb_size (boxes x b))) (mpc m) (mstate m) q (\<lambda>_. 0) L" by (rule mail_invE)
  note d = mail_okD [OF ok]
  note line = line_okD [OF d(1)]
  have "t \<in> set (L (Suspend_list l))" using sem_ok_members [OF line(1)] assms(3,4) by simp
  then have "L (Suspend_list l) \<noteq> []" by auto
  then show ?thesis using line(3) [of l] by (auto simp: d(3,4) granted_def simp del: length_contents)
qed

text \<open>Every call comes back or puts its thread to sleep, and so does every pass of a thread that was woken.\<close>

theorem mailbox_calls_end:
  assumes "mail_start idle x" and "(mail_step idle)\<^sup>*\<^sup>* (mail_from x) m"
    and t: "rt_current_thread (mkern (mstate m)) = Some t"
  shows "(mpc m t = Outside \<longrightarrow> (\<exists>r. mail_called c t (mstate m) = Some r)) \<and>
    (mpc m t = After l \<longrightarrow> (\<exists>r. mail_resumed (mcall m t) t (mstate m) = Some r))"
proof -
  from mail_run.run_keeps [OF assms(2) mail_start_inv [OF assms(1)]] obtain q L where
    ok: "mail_ok idle (\<lambda>b. unat (mb_size (boxes x b))) (mpc m) (mstate m) q (\<lambda>_. 0) L" by (rule mail_invE)
  have loops: "\<exists>r. mb_send_loop b v timeout td sflag t (mstate m) = Some r" "\<exists>r. mb_recv_loop b timeout td sflag t (mstate m) = Some r"
    if p: "mail_ok idle (\<lambda>b. unat (mb_size (boxes x b))) p (mstate m) q extra L" "p t = Outside" for p extra b v timeout td sflag
  proof -
    have waits: "\<exists>r. mb_suspend l timeout td sflag t (mail_errno t (- RT_EINTR) (mstate m)) = Some r"
      if "timeout \<noteq> 0" "mail_room (\<lambda>b. unat (mb_size (boxes x b))) q l = 0" for l
      by (rule mb_suspend_waits [where l = l and sflag = sflag and tick_delta = td, OF p(1) t p(2) that]) blast
    have full: "mail_room (\<lambda>b. unat (mb_size (boxes x b))) q (senders b) = 0" if "mb_entry (boxes (mstate m) b) = mb_size (boxes (mstate m) b)"
      using mail_okD(4,5) [OF ok, of b] that by simp
    have empty: "mail_room (\<lambda>b. unat (mb_size (boxes x b))) q (receivers b) = 0" if "mb_entry (boxes (mstate m) b) = 0"
      using mail_okD(5) [OF ok, of b] that by simp
    show "\<exists>r. mb_send_loop b v timeout td sflag t (mstate m) = Some r" "\<exists>r. mb_recv_loop b timeout td sflag t (mstate m) = Some r"
      using waits [OF _ full] waits [OF _ empty] by (cases "timeout = 0"; auto simp: mb_send_loop_def mb_recv_loop_def Let_def)+
  qed
  have "\<exists>r. mail_called c t (mstate m) = Some r" if "mpc m t = Outside"
    using loops [OF ok that] by (cases c) (auto simp: mb_send_wait_def mb_recv_def)
  moreover have "\<exists>r. mail_resumed (mcall m t) t (mstate m) = Some r" if "mpc m t = After l"
    using loops [OF mail_ok_leaves [OF ok t that]]
    by (cases "mcall m t") (auto simp: mb_send_resumed_def mb_recv_resumed_def split: prod.split)
  ultimately show ?thesis by blast
qed

text \<open>
  A new mailbox is empty and has the given size, as far as 16 bits hold it: of 65536 places none is left.
\<close>

theorem mailbox_init_empty:
  assumes "length msgpool = unat n"
  shows "contents (boxes (snd (rt_mb_init b msgpool n flag m)) b) = [] \<and>
    unat (mb_size (boxes (snd (rt_mb_init b msgpool n flag m)) b)) = length msgpool mod 65536 \<and>
    (length msgpool < 65536 \<longrightarrow> box_ok (boxes (snd (rt_mb_init b msgpool n flag m)) b))"
proof -
  have "unat (ucast n :: u16) = unat n mod 65536" by (simp add: unsigned_ucast_eq take_bit_eq_mod)
  then show ?thesis using assms by (auto simp: rt_mb_init_def contents_def box_ok_def word_greater_zero_iff)
qed

section \<open>Mailboxes on a kernel that runs\<close>

definition no_boxes :: "nat \<Rightarrow> box" where
  "no_boxes = (\<lambda>_. \<lparr>msg_pool = [], mb_size = 0, mb_entry = 0, in_offset = 0, out_offset = 0\<rparr>)"

definition demo_mail :: mails where
  "demo_mail = snd (rt_mb_init 1 [0, 0] 2 RT_IPC_FLAG_PRIO \<lparr>mkern = demo, boxes = no_boxes\<rparr>)"

lemma demo_mail_kern:
  "mkern demo_mail = demo\<lparr>object_flag := (object_flag demo)(2 := RT_IPC_FLAG_PRIO, 3 := RT_IPC_FLAG_PRIO)\<rparr>"
  "boxes demo_mail = no_boxes(1 := \<lparr>msg_pool = [0, 0], mb_size = 2, mb_entry = 0, in_offset = 0, out_offset = 0\<rparr>)"
  using init_empty_list [OF demo_ok(1), of 2] init_empty_list [OF demo_ok(1), of 3]
  by (simp_all add: demo_mail_def rt_mb_init_def ipc_lists_init_def receivers_def senders_def demo_lists_def)

lemma demo_mail_ok: "sched_ok (mkern demo_mail) demo_lists"
  using demo_ok(1) unfolding demo_mail_kern by (simp add: sched_ok_def lists_ok_def)

lemma demo_mail_start: "mail_start 0 demo_mail"
  unfolding mail_start_def sem_start_def using demo_mail_ok demo_ok
  by (auto simp: demo_mail_kern demo_value demo_lists_def runnable_def box_ok_def no_boxes_def intro!: exI [of _ demo_lists])

text \<open>
  The running thread asks for mail and has to wait; before it gives up the processor an interrupt sends a mail, which
  it then gets.
\<close>

lemma demo_mail_run:
  obtains m1 m4 where "(mail_step 0)\<^sup>*\<^sup>* (mail_from demo_mail) m1" "waits (mpc m1) (receivers 1) 2" "errno (mkern (mstate m1)) 2 = - RT_EINTR"
    "rt_current_thread (mkern (mstate m1)) = Some 2"
    "(mail_step 0)\<^sup>*\<^sup>* (mail_from demo_mail) m4" "mail_trace m4 = [Posted 1 42, Fetched 1 42]"
proof -
  let ?m0 = "mail_from demo_mail"
  note inv0 = mail_start_inv [OF demo_mail_start]
  let ?n = "\<lambda>b. unat (mb_size (boxes demo_mail b))" and ?q0 = "\<lambda>b. contents (boxes demo_mail b)"
  have f0: "rt_current_thread (mkern demo_mail) = Some 2" "stat (mkern demo_mail) 2 = RT_THREAD_RUNNING" "sem_value (mkern demo_mail) 2 = 0"
    "mb_entry (boxes demo_mail 1) = 0" "mb_size (boxes demo_mail 1) = 2" "receivers 1 = 2"
    by (simp_all add: demo_mail_kern demo_ok demo_value receivers_def)
  obtain k1 where k1: "sem_take 2 3 RT_UNINTERRUPTIBLE 2 (mkern demo_mail) = Some (Take_schedules, k1)"
    "stat k1 = (stat (mkern demo_mail))(2 := RT_THREAD_SUSPEND_UNINTERRUPTIBLE)" "errno k1 = (errno (mkern demo_mail))(2 := - RT_EINTR)"
    "rt_current_thread k1 = Some 2" "current_priority k1 = current_priority (mkern demo_mail)" "rt_scheduler_lock_nest k1 = 0"
    by (rule sem_take_waits [OF demo_mail_ok f0(1-3), of 3 RT_UNINTERRUPTIBLE]) (auto simp: f0 demo_mail_kern demo_ok)
  let ?x1 = "demo_mail\<lparr>mkern := k1\<rparr>" and ?c = "Receiving 1 3 (rt_tick k1) RT_UNINTERRUPTIBLE"
  define m1 where "m1 = ?m0\<lparr>mstate := ?x1, mpc := (mpc ?m0)(2 := Before 2), mcall := (mcall ?m0)(2 := ?c)\<rparr>"
  have "mail_called (Receiving 1 3 0 RT_UNINTERRUPTIBLE) 2 demo_mail = Some (Mb_waits 3 (rt_tick k1), ?x1)"
    using f0 ipc_wait_take [of 3 "mkern demo_mail" 2 0 RT_UNINTERRUPTIBLE 2] k1(1)
    by (simp add: mb_recv_def mb_recv_loop_def mb_suspend_def mail_errno_def)
  then have s1: "mail_step 0 ?m0 m1"
    using mail_step.call_waits [of ?m0 2 0 "Receiving 1 3 0 RT_UNINTERRUPTIBLE"] f0 by (simp add: m1_def mail_from_def)
  then have r1: "(mail_step 0)\<^sup>*\<^sup>* ?m0 m1" by simp
  have f1: "mstate m1 = ?x1" "mpc m1 = (\<lambda>_. Outside)(2 := Before 2)" "mcall m1 2 = ?c" "mail_trace m1 = []"
    by (simp_all add: m1_def mail_from_def)
  obtain q1 L1 where q1: "replay ?n (mail_trace m1) ?q0 = Some q1" and ok1: "mail_ok 0 ?n (mpc m1) (mstate m1) q1 (\<lambda>_. 0) L1"
    using mail_run.run_keeps [OF r1 inv0] by (rule mail_invE)
  note d1 = line_okD [OF mail_okD(1) [OF ok1]]
  have l1: "L1 (Suspend_list 2) = [2]"
    by (rule only_member [OF rings_distinct [OF lists_okD(1) [OF sched_okD(1) [OF sem_okD(1) [OF d1(1)]]]]])
      (use k1(3) in \<open>auto simp: sem_ok_members [OF d1(1)] f1 waits_def\<close>)
  have k1ok: "sched_ok k1 L1" using sem_okD(1) [OF d1(1)] by (simp add: f1)
  obtain k2 where k2: "sem_release 2 k1 = (RT_EOK, True, k2)"
    "stat k2 = (stat k1)(2 := RT_THREAD_RUNNING)" "errno k2 = (errno k1)(2 := RT_EOK)"
    "current_priority k2 = current_priority k1" "rt_current_thread k2 = Some 2"
    by (rule release_wakes [OF k1ok l1]) (auto simp: k1(4))
  have ne: "\<not> rt_list_isempty (Head (Suspend_list 2)) (tlist k1)"
    using rings_isempty [OF lists_okD(1) [OF sched_okD(1) [OF k1ok]], of "Suspend_list 2"] l1 by simp
  then have k2r: "ipc_list_resume 2 k1 = k2" using k2(1) by (simp add: sem_release_def)
  let ?y = "(box_put 42 (boxes demo_mail 1))\<lparr>mb_entry := 1\<rparr>"
  have e: "mb_entry (box_put 42 (boxes demo_mail 1)) = 0" using f0(4) by (simp add: box_put_def Let_def)
  let ?x2 = "?x1\<lparr>boxes := (boxes demo_mail)(1 := ?y), mkern := k2\<rparr>"
  have "mb_send_wait 1 42 0 RT_UNINTERRUPTIBLE 2 (mstate m1) = Some (Mb_returns RT_EOK None True, ?x2)"
    using f0(4-6) e ne k2r by (simp add: f1 mb_send_wait_def mb_send_loop_def mb_store_def mb_wake_def ipc_wake_def Let_def RT_MB_ENTRY_MAX_def)
  note s2 = mail_step.interrupt_sends [OF this, of 0]
  define m2 where "m2 = m1\<lparr>mstate := ?x2, mail_trace := mail_trace m1 @ (if (RT_EOK :: int) = RT_EOK then [Posted 1 42] else [])\<rparr>"
  have r2: "(mail_step 0)\<^sup>*\<^sup>* ?m0 m2" using r1 s2 by (simp add: m2_def)
  have f2: "mstate m2 = ?x2" "mpc m2 = (\<lambda>_. Outside)(2 := Before 2)" "mcall m2 2 = ?c" "mail_trace m2 = [Posted 1 42]"
    by (simp_all add: m2_def f1)
  obtain q2 L2 where q2: "replay ?n (mail_trace m2) ?q0 = Some q2" and ok2: "mail_ok 0 ?n (mpc m2) (mstate m2) q2 (\<lambda>_. 0) L2"
    using mail_run.run_keeps [OF r2 inv0] by (rule mail_invE)
  have "?q0 1 = []" using f0(4) by (simp add: contents_def)
  then have q2': "q2 1 = [42]" using q2 f0(5) by (auto simp: f2(4) split: if_splits)
  have "yield k1 = (\<lambda>_. False)" using sem_take_yield [OF k1(1)] by (simp add: demo_mail_kern demo_ok)
  moreover have "yield k2 = yield k1" using k2r by (auto simp: ipc_list_resume_def rt_thread_resume_def Let_def kernel_frame)
  ultimately have "goes_on 2 (current_priority k2 t) k2" if "stat k2 t = RT_THREAD_READY" for t
    using that by (auto simp: goes_on_def k2 k1(2,5) demo_mail_kern demo_ok split: if_splits)
  then have stay: "rt_schedule k2 = k2"
    using schedule_stays [OF sem_okD(1) [OF line_okD(1) [OF mail_okD(1) [OF ok2, unfolded f2]], simplified]] k2(5) by simp
  define m3 where "m3 = m2\<lparr>mstate := mail_schedule (mstate m2), mpc := (mpc m2)(2 := After 2)\<rparr>"
  have s3: "mail_step 0 m2 m3" unfolding m3_def by (rule mail_step.call_switches) (simp_all add: f2 k2)
  have r3: "(mail_step 0)\<^sup>*\<^sup>* ?m0 m3" using r2 s3 by simp
  have f3: "mstate m3 = ?x2" "mpc m3 2 = After 2" "mcall m3 2 = ?c" "mail_trace m3 = [Posted 1 42]"
    by (simp_all add: m3_def f2 mail_schedule_def stay)
  obtain q3 L3 where q3: "replay ?n (mail_trace m3) ?q0 = Some q3" and ok3: "mail_ok 0 ?n (mpc m3) (mstate m3) q3 (\<lambda>_. 0) L3"
    using mail_run.run_keeps [OF r3 inv0] by (rule mail_invE)
  have q3': "q3 1 = [42]" using q3 q2 q2' by (simp add: f2(4) f3(4))
  have c3: "rt_current_thread (mkern (mstate m3)) = Some 2" and e3: "errno (mkern (mstate m3)) 2 = RT_EOK" by (simp_all add: f3 k2)
  have ok3': "mail_ok 0 ?n ((mpc m3)(2 := Outside)) (mstate m3) q3 (came_back (receivers 1)) L3"
    using mail_ok_leaves [OF ok3 c3 f3(2)] e3 f0(6) by simp
  have m3e: "mb_entry (boxes (mstate m3) 1) \<noteq> 0" by (simp add: f3)
  obtain v vs ns x4 L4 where x4: "mb_fetch 1 (mstate m3) = (Mb_returns RT_EOK (Some v) ns, x4)" "q3 1 = v # vs"
    by (rule mb_fetch_ok [OF ok3' m3e])
  have "mail_resumed (mcall m3 2) 2 (mstate m3) = Some (Mb_returns RT_EOK (Some 42) ns, x4)"
    using x4 q3' e3 m3e by (auto simp: f3(3) mb_recv_resumed_def mb_recv_loop_def split: prod.split)
  note s4 = mail_step.resumed_returns [OF c3 f3(2) this, of 0]
  define m4 where "m4 = m3\<lparr>mstate := x4, mpc := (mpc m3)(2 := Outside), mail_trace := mail_trace m3 @ mail_log (mcall m3 2) RT_EOK (Some 42)\<rparr>"
  have "(mail_step 0)\<^sup>*\<^sup>* ?m0 m4" using r3 s4 by (simp add: m4_def)
  moreover have "mail_trace m4 = [Posted 1 42, Fetched 1 42]" by (simp add: m4_def f3)
  ultimately show ?thesis
    by (intro that [of m1 m4]) (use r1 in \<open>simp_all add: f1 receivers_def waits_def k1\<close>)
qed

lemma mailbox_is_queue_witness:
  "\<exists>m. (mail_step 0)\<^sup>*\<^sup>* (mail_from demo_mail) m \<and> mail_trace m = [Posted 1 42, Fetched 1 42] \<and>
    replay (\<lambda>b. unat (mb_size (boxes demo_mail b))) (mail_trace m) (\<lambda>b. contents (boxes demo_mail b)) =
      Some (\<lambda>b. contents (boxes (mstate m) b))"
proof -
  obtain m where m: "(mail_step 0)\<^sup>*\<^sup>* (mail_from demo_mail) m" "mail_trace m = [Posted 1 42, Fetched 1 42]" by (rule demo_mail_run)
  with mailbox_is_queue [OF demo_mail_start m(1)] show ?thesis by blast
qed

lemma mailbox_no_lost_wakeup_witness:
  "\<exists>m. (mail_step 0)\<^sup>*\<^sup>* (mail_from demo_mail) m \<and> waits (mpc m) (receivers 1) 2 \<and>
    length (contents (boxes (mstate m) 1)) \<le> card {u. waits (mpc m) (receivers 1) u \<and> errno (mkern (mstate m)) u = RT_EOK}"
proof -
  obtain m where m: "(mail_step 0)\<^sup>*\<^sup>* (mail_from demo_mail) m" "waits (mpc m) (receivers 1) 2" "errno (mkern (mstate m)) 2 = - RT_EINTR"
    by (rule demo_mail_run)
  with mailbox_no_lost_wakeup [OF demo_mail_start m, of 1] show ?thesis by blast
qed

lemma mailbox_calls_end_witness:
  "\<exists>m r. (mail_step 0)\<^sup>*\<^sup>* (mail_from demo_mail) m \<and> rt_current_thread (mkern (mstate m)) = Some 2 \<and>
    mail_called (Sending 1 7 3 0 RT_KILLABLE) 2 (mstate (mail_from demo_mail)) = Some r"
proof -
  have "rt_current_thread (mkern (mstate (mail_from demo_mail))) = Some 2" by (simp add: mail_from_def demo_mail_kern demo_ok)
  with mailbox_calls_end [OF demo_mail_start rtranclp.rtrancl_refl this, of "Sending 1 7 3 0 RT_KILLABLE" 0] show ?thesis
    by (auto simp: mail_from_def)
qed

lemma mailbox_init_empty_witness: "contents (boxes (snd (rt_mb_init 1 [0, 0] 2 RT_IPC_FLAG_PRIO demo_mail)) 1) = []"
  using mailbox_init_empty [of "[0, 0]" 2 1 RT_IPC_FLAG_PRIO demo_mail] by simp

end
