(* ===== verification/Rt_Service.thy ===== *)
theory Rt_Service
  imports Yk_Prelude
begin

text \<open>
  The memory and string routines of the kernel (\<^verbatim>\<open>src/rt-thread/src/kservice.c\<close>), on a memory of bytes.
  The build uses the versions that copy and fill by words (\<^verbatim>\<open>RT_KSERVICE_USING_TINY_SIZE\<close> is not set in
  \<^verbatim>\<open>rtconfig.h\<close>); \<open>fill\<close> and \<open>copy\<close> say byte by byte what they do.  Addresses are 32-bit words, a word in memory is
  little-endian and \<^verbatim>\<open>char\<close> is unsigned, as on the ARM cores the firmware is built for.
\<close>

section \<open>Memory\<close>

type_synonym memory = "u32 \<Rightarrow> u8"

definition load32 :: "memory \<Rightarrow> u32 \<Rightarrow> u32" where
  "load32 m a =
     ucast (m a) OR push_bit 8 (ucast (m (a + 1))) OR push_bit 16 (ucast (m (a + 2))) OR push_bit 24 (ucast (m (a + 3)))"

definition store32 :: "u32 \<Rightarrow> u32 \<Rightarrow> memory \<Rightarrow> memory" where
  "store32 a v m =
     m(a := ucast v, a + 1 := ucast (drop_bit 8 v), a + 2 := ucast (drop_bit 16 v), a + 3 := ucast (drop_bit 24 v))"

text \<open>\<open>long\<close> and \<open>rt_ubase_t\<close> have four bytes.\<close>

definition LBLOCKSIZE :: u32 where "LBLOCKSIZE = 4"

definition UNALIGNED :: "u32 \<Rightarrow> bool" where "UNALIGNED x \<longleftrightarrow> x AND (LBLOCKSIZE - 1) \<noteq> 0"

section \<open>Filling\<close>

definition fill_buffer :: "u8 \<Rightarrow> u32" where
  "fill_buffer d = fold (\<lambda>i buffer. buffer OR push_bit (8 * i) (ucast d)) [0..<4] 0"

lemma unat_sub_less: "n \<le> c \<Longrightarrow> 0 < n \<Longrightarrow> unat (c - n :: u32) < unat c"
  by (simp add: unat_sub word_le_nat_alt word_less_nat_alt)

lemma unat_pred_less: "(c :: u32) \<noteq> 0 \<Longrightarrow> unat (c - 1) < unat c"
  by (rule unat_sub_less) (simp_all add: word_le_nat_alt unat_gt_0 Suc_le_eq)

text \<open>The loops: four words at a time, one word, one byte; with where they end and what is left to do.\<close>

function memset_blocks :: "u32 \<Rightarrow> u32 \<Rightarrow> u32 \<Rightarrow> memory \<Rightarrow> u32 \<times> u32 \<times> memory" where
  "memset_blocks a buffer count m =
     (if count \<ge> LBLOCKSIZE * 4
      then memset_blocks (a + 16) buffer (count - 4 * LBLOCKSIZE)
             (store32 (a + 12) buffer (store32 (a + 8) buffer (store32 (a + 4) buffer (store32 a buffer m))))
      else (a, count, m))"
  by auto
termination
  by (relation "measure (\<lambda>(a, buffer, count, m). unat count)") (simp_all add: LBLOCKSIZE_def unat_sub_less)

function memset_words :: "u32 \<Rightarrow> u32 \<Rightarrow> u32 \<Rightarrow> memory \<Rightarrow> u32 \<times> u32 \<times> memory" where
  "memset_words a buffer count m =
     (if count \<ge> LBLOCKSIZE then memset_words (a + 4) buffer (count - LBLOCKSIZE) (store32 a buffer m) else (a, count, m))"
  by auto
termination
  by (relation "measure (\<lambda>(a, buffer, count, m). unat count)") (simp_all add: LBLOCKSIZE_def unat_sub_less)

function memset_bytes :: "u32 \<Rightarrow> u8 \<Rightarrow> u32 \<Rightarrow> memory \<Rightarrow> memory" where
  "memset_bytes a d count m = (if count \<noteq> 0 then memset_bytes (a + 1) d (count - 1) (m(a := d)) else m)"
  by auto
termination
  by (relation "measure (\<lambda>(a, d, count, m). unat count)") (simp_all add: unat_pred_less)

declare memset_blocks.simps [simp del] memset_words.simps [simp del] memset_bytes.simps [simp del]

definition rt_memset :: "u32 \<Rightarrow> int \<Rightarrow> u32 \<Rightarrow> memory \<Rightarrow> u32 \<times> memory" where
  "rt_memset s c count m =
     (let d = word_of_int c;
          (a, count, m) =
            (if \<not> count < LBLOCKSIZE \<and> \<not> UNALIGNED s then
               let buffer = fill_buffer d;
                   (a, count, m) = memset_blocks s buffer count m
               in memset_words a buffer count m
             else (s, count, m))
      in (s, memset_bytes a d count m))"


text \<open>What it does: \<open>n\<close> bytes from \<open>a\<close> on become \<open>d\<close>.\<close>

definition fill :: "memory \<Rightarrow> u32 \<Rightarrow> nat \<Rightarrow> u8 \<Rightarrow> memory" where
  "fill m a n d = (\<lambda>x. if unat (x - a) < n then d else m x)"

lemma unat_sub_u32: "unat (x - y :: u32) = (if unat y \<le> unat x then unat x - unat y else unat x + 4294967296 - unat y)"
  by (simp add: unat_sub_if_size word_size)

lemma unat_add_u32:
  "unat (x + y :: u32) = (if unat x + unat y < 4294967296 then unat x + unat y else unat x + unat y - 4294967296)"
  using unat_plus_if_size [of x y] by (simp add: word_size)

lemma unat_u32_less: "unat (x :: u32) < 4294967296"
  using unsigned_less [of x] by simp

lemma unat_of_nat_u32: "n < 4294967296 \<Longrightarrow> unat (of_nat n :: u32) = n"
  by (simp add: unsigned_of_nat take_bit_nat_eq_self)

lemma fill_0 [simp]: "fill m a 0 d = m"
  by (simp add: fill_def)

text \<open>Adjacent ranges.\<close>

lemma far_apart: "k < 4294967296 \<Longrightarrow>
    unat (x - (a + of_nat k) :: u32) = (if k \<le> unat (x - a) then unat (x - a) - k else unat (x - a) + 4294967296 - k)"
  using unat_sub_u32 [of "x - a" "of_nat k"] by (simp add: unat_of_nat_u32 algebra_simps)

lemma fill_fill: "k < 4294967296 \<Longrightarrow> fill (fill m a k d) (a + of_nat k) n d = fill m a (k + n) d"
  by (rule ext) (auto simp: fill_def far_apart)

lemma u32_below_4: "unat (y :: u32) < 4 \<longleftrightarrow> y = 0 \<or> y = 1 \<or> y = 2 \<or> y = 3"
proof
  assume "unat y < 4"
  then have "unat y = 0 \<or> unat y = 1 \<or> unat y = 2 \<or> unat y = 3" by linarith
  then show "y = 0 \<or> y = 1 \<or> y = 2 \<or> y = 3" by (simp add: word_unat_eq_iff)
qed auto

lemma in_word: "unat (x - a :: u32) < 4 \<longleftrightarrow> x = a \<or> x = a + 1 \<or> x = a + 2 \<or> x = a + 3"
  unfolding u32_below_4 by (auto simp: algebra_simps)

lemma u8_high [simp]: "8 \<le> n \<Longrightarrow> \<not> bit (d :: u8) n"
  using bit_imp_le_length [of d n] by auto

lemma fill_buffer_bytes:
  "ucast (fill_buffer d) = d" "ucast (drop_bit 8 (fill_buffer d)) = d" "ucast (drop_bit 16 (fill_buffer d)) = d"
  "ucast (drop_bit 24 (fill_buffer d)) = d"
  by (auto simp: fill_buffer_def upt_rec bit_simps intro!: bit_word_eqI)

lemma store32_fill [simp]: "store32 a (fill_buffer d) m = fill m a 4 d"
  by (rule ext) (auto simp: fill_def in_word store32_def fill_buffer_bytes)

lemma memset_words_fill:
  "\<exists>k\<le>unat count. memset_words a (fill_buffer d) count m = (a + of_nat k, count - of_nat k, fill m a k d)"
proof (induction a "fill_buffer d" count m rule: memset_words.induct)
  case (1 a count m)
  show ?case
  proof (cases "count \<ge> LBLOCKSIZE")
    case True
    then have u: "unat (count - LBLOCKSIZE) = unat count - 4" "4 \<le> unat count"
      by (simp_all add: unat_sub LBLOCKSIZE_def word_le_nat_alt)
    from 1 [OF True] obtain k where k: "k \<le> unat (count - LBLOCKSIZE)"
      "memset_words (a + 4) (fill_buffer d) (count - LBLOCKSIZE) (fill m a 4 d) =
        (a + 4 + of_nat k, count - LBLOCKSIZE - of_nat k, fill (fill m a 4 d) (a + 4) k d)" by auto
    then have "memset_words a (fill_buffer d) count m = (a + of_nat (4 + k), count - of_nat (4 + k), fill m a (4 + k) d)"
      using fill_fill [of 4 m a d k] True by (subst memset_words.simps) (simp add: LBLOCKSIZE_def algebra_simps)
    then show ?thesis using k(1) u by (intro exI [of _ "4 + k"]) simp
  qed (subst memset_words.simps, auto intro!: exI [of _ 0])
qed

lemma memset_blocks_fill:
  "\<exists>k\<le>unat count. memset_blocks a (fill_buffer d) count m = (a + of_nat k, count - of_nat k, fill m a k d)"
proof (induction a "fill_buffer d" count m rule: memset_blocks.induct)
  case (1 a count m)
  have four: "fill (fill (fill (fill m a 4 d) (a + 4) 4 d) (a + 8) 4 d) (a + 12) 4 d = fill m a 16 d"
    using fill_fill [of 4 m a d 4] fill_fill [of 8 m a d 4] fill_fill [of 12 m a d 4] by simp
  show ?case
  proof (cases "count \<ge> LBLOCKSIZE * 4")
    case True
    then have u: "unat (count - 4 * LBLOCKSIZE) = unat count - 16" "16 \<le> unat count"
      by (simp_all add: unat_sub LBLOCKSIZE_def word_le_nat_alt)
    from 1 [OF True] obtain k where k: "k \<le> unat (count - 4 * LBLOCKSIZE)"
      "memset_blocks (a + 16) (fill_buffer d) (count - 4 * LBLOCKSIZE) (fill m a 16 d) =
        (a + 16 + of_nat k, count - 4 * LBLOCKSIZE - of_nat k, fill (fill m a 16 d) (a + 16) k d)" by (auto simp: four)
    then have "memset_blocks a (fill_buffer d) count m = (a + of_nat (16 + k), count - of_nat (16 + k), fill m a (16 + k) d)"
      using fill_fill [of 16 m a d k] True four by (subst memset_blocks.simps) (simp add: LBLOCKSIZE_def algebra_simps)
    then show ?thesis using k(1) u by (intro exI [of _ "16 + k"]) simp
  qed (subst memset_blocks.simps, auto intro!: exI [of _ 0])
qed

lemma memset_bytes_fill: "memset_bytes a d count m = fill m a (unat count) d"
proof (induction a d count m rule: memset_bytes.induct)
  case (1 a d count m)
  have one: "m(a := d) = fill m a 1 d" by (rule ext) (auto simp: fill_def unat_eq_zero)
  show ?case
  proof (cases "count = 0")
    case False
    then have "memset_bytes a d count m = fill (fill m a 1 d) (a + 1) (unat (count - 1)) d"
      using 1 by (subst memset_bytes.simps) (simp add: one)
    moreover have "1 + unat (count - 1) = unat count"
      using False by (simp add: unat_minus_one unat_gt_0)
    ultimately show ?thesis using fill_fill [of 1 m a d "unat (count - 1)"] by simp
  qed (simp add: memset_bytes.simps)
qed

text \<open>
  C40: the fill by words is the fill by bytes: whatever the address, its alignment and the number of bytes, exactly
  the bytes asked for become the low byte of \<open>c\<close>.
\<close>

theorem memset_fills: "rt_memset s c count m = (s, fill m s (unat count) (word_of_int c))"
proof (cases "\<not> count < LBLOCKSIZE \<and> \<not> UNALIGNED s")
  case True
  let ?d = "word_of_int c :: u8"
  obtain k where k: "k \<le> unat count"
    "memset_blocks s (fill_buffer ?d) count m = (s + of_nat k, count - of_nat k, fill m s k ?d)"
    using memset_blocks_fill by blast
  have kl: "k < 4294967296" using k(1) unat_u32_less [of count] by linarith
  obtain j where j: "j \<le> unat (count - of_nat k)"
    "memset_words (s + of_nat k) (fill_buffer ?d) (count - of_nat k) (fill m s k ?d) =
      (s + of_nat k + of_nat j, count - of_nat k - of_nat j, fill (fill m s k ?d) (s + of_nat k) j ?d)"
    using memset_words_fill by blast
  have u: "unat (count - of_nat k) = unat count - k" using k(1) kl by (simp add: unat_sub_u32 unat_of_nat_u32)
  have jl: "k + j < 4294967296" using j(1) u k(1) unat_u32_less [of count] by linarith
  have "unat (count - of_nat (k + j)) = unat count - (k + j)"
    using j(1) u k(1) jl by (simp add: unat_sub_u32 unat_of_nat_u32 del: of_nat_add)
  then have "memset_bytes (s + of_nat (k + j)) ?d (count - of_nat (k + j)) (fill m s (k + j) ?d) = fill m s (unat count) ?d"
    using fill_fill [OF jl, of m s ?d "unat count - (k + j)"] j(1) u k(1) by (simp add: memset_bytes_fill del: of_nat_add)
  then show ?thesis
    using True k(2) j(2) fill_fill [OF kl, of m s ?d j] by (simp add: rt_memset_def Let_def algebra_simps)
qed (auto simp: rt_memset_def Let_def memset_bytes_fill)


section \<open>Copying\<close>

definition BIGBLOCKSIZE :: u32 where "BIGBLOCKSIZE = push_bit 2 4"

definition LITTLEBLOCKSIZE :: u32 where "LITTLEBLOCKSIZE = 4"

text \<open>\<open>*aligned_dst = *aligned_src\<close>, and the loops.\<close>

definition copy_word :: "u32 \<Rightarrow> u32 \<Rightarrow> memory \<Rightarrow> memory" where
  "copy_word dst src m = store32 dst (load32 m src) m"

function memcpy_blocks :: "u32 \<Rightarrow> u32 \<Rightarrow> u32 \<Rightarrow> memory \<Rightarrow> u32 \<times> u32 \<times> u32 \<times> memory" where
  "memcpy_blocks dst src len m =
     (if len \<ge> BIGBLOCKSIZE
      then memcpy_blocks (dst + 16) (src + 16) (len - BIGBLOCKSIZE)
             (copy_word (dst + 12) (src + 12) (copy_word (dst + 8) (src + 8) (copy_word (dst + 4) (src + 4) (copy_word dst src m))))
      else (dst, src, len, m))"
  by auto
termination
  by (relation "measure (\<lambda>(dst, src, len, m). unat len)") (simp_all add: BIGBLOCKSIZE_def unat_sub_less)

function memcpy_words :: "u32 \<Rightarrow> u32 \<Rightarrow> u32 \<Rightarrow> memory \<Rightarrow> u32 \<times> u32 \<times> u32 \<times> memory" where
  "memcpy_words dst src len m =
     (if len \<ge> LITTLEBLOCKSIZE then memcpy_words (dst + 4) (src + 4) (len - LITTLEBLOCKSIZE) (copy_word dst src m)
      else (dst, src, len, m))"
  by auto
termination
  by (relation "measure (\<lambda>(dst, src, len, m). unat len)") (simp_all add: LITTLEBLOCKSIZE_def unat_sub_less)

function copy_up :: "u32 \<Rightarrow> u32 \<Rightarrow> u32 \<Rightarrow> memory \<Rightarrow> memory" where
  "copy_up dst src n m = (if n \<noteq> 0 then copy_up (dst + 1) (src + 1) (n - 1) (m(dst := m src)) else m)"
  by auto
termination
  by (relation "measure (\<lambda>(dst, src, n, m). unat n)") (simp_all add: unat_pred_less)

function copy_down :: "u32 \<Rightarrow> u32 \<Rightarrow> u32 \<Rightarrow> memory \<Rightarrow> memory" where
  "copy_down tmp s n m = (if n \<noteq> 0 then copy_down (tmp - 1) (s - 1) (n - 1) (m(tmp - 1 := m (s - 1))) else m)"
  by auto
termination
  by (relation "measure (\<lambda>(tmp, s, n, m). unat n)") (simp_all add: unat_pred_less)

declare memcpy_blocks.simps [simp del] memcpy_words.simps [simp del] copy_up.simps [simp del] copy_down.simps [simp del]

definition rt_memcpy :: "u32 \<Rightarrow> u32 \<Rightarrow> u32 \<Rightarrow> memory \<Rightarrow> u32 \<times> memory" where
  "rt_memcpy dst src count m =
     (let (dst_ptr, src_ptr, len, m) =
            (if \<not> count < BIGBLOCKSIZE \<and> \<not> (UNALIGNED src \<or> UNALIGNED dst) then
               let (dst_ptr, src_ptr, len, m) = memcpy_blocks dst src count m
               in memcpy_words dst_ptr src_ptr len m
             else (dst, src, count, m))
      in (dst, copy_up dst_ptr src_ptr len m))"

definition rt_memmove :: "u32 \<Rightarrow> u32 \<Rightarrow> u32 \<Rightarrow> memory \<Rightarrow> u32 \<times> memory" where
  "rt_memmove dest src n m =
     (dest, if src < dest \<and> dest < src + n then copy_down (dest + n) (src + n) n m else copy_up dest src n m)"

text \<open>What they do: the \<open>n\<close> bytes from \<open>dst\<close> on become those that were at \<open>src\<close>.\<close>

definition copy :: "memory \<Rightarrow> u32 \<Rightarrow> u32 \<Rightarrow> nat \<Rightarrow> memory" where
  "copy m dst src n = (\<lambda>x. if unat (x - dst) < n then m (src + (x - dst)) else m x)"

text \<open>Copying upwards is right unless the destination begins inside the source, behind its first byte.\<close>

definition upwards_ok :: "u32 \<Rightarrow> u32 \<Rightarrow> nat \<Rightarrow> bool" where
  "upwards_ok dst src n \<longleftrightarrow> dst = src \<or> n \<le> unat (dst - src)"

lemma copy_at: "copy m dst src n x = (if unat (x - dst) < n then m (src + (x - dst)) else m x)"
  by (simp add: copy_def)

lemma copy_0 [simp]: "copy m dst src 0 = m"
  by (simp add: copy_def)

lemma upwards_ok_next: "upwards_ok d s (k + n) \<Longrightarrow> upwards_ok (d + of_nat k) (s + of_nat k) n"
  by (auto simp: upwards_ok_def)

lemma copy_copy:
  assumes "upwards_ok d s (k + n)" and "k + n \<le> 4294967296" and "k < 4294967296"
  shows "copy (copy m d s k) (d + of_nat k) (s + of_nat k) n = copy m d s (k + n)"
proof (rule ext)
  fix x
  let ?p = "x - d" and ?q = "d - s"
  have u: "unat (?p - ?q) = (if unat ?q \<le> unat ?p then unat ?p - unat ?q else unat ?p + 4294967296 - unat ?q)"
    by (rule unat_sub_u32)
  have f: "unat (x - (d + of_nat k)) = (if k \<le> unat ?p then unat ?p - k else unat ?p + 4294967296 - k)"
    by (rule far_apart [OF assms(3)])
  have s: "s + of_nat k + (x - (d + of_nat k)) = s + ?p" and y: "s + ?p - d = ?p - ?q" by simp_all
  have still: "copy m d s k (s + ?p) = m (s + ?p)" if "k \<le> unat ?p" "unat ?p < k + n"
  proof (cases "d = s")
    case False
    then have "\<not> unat (?p - ?q) < k"
      unfolding u using assms(1) that unat_u32_less [of ?q] by (auto simp: upwards_ok_def)
    then show ?thesis unfolding copy_def y by simp
  qed (use that in \<open>simp add: copy_def\<close>)
  show "copy (copy m d s k) (d + of_nat k) (s + of_nat k) n x = copy m d s (k + n) x"
  proof (cases "k \<le> unat ?p")
    case True
    have "copy (copy m d s k) (d + of_nat k) (s + of_nat k) n x =
        (if unat ?p < k + n then copy m d s k (s + ?p) else copy m d s k x)"
      unfolding copy_at [of "copy m d s k"] s f using True by auto
    moreover have "copy m d s k x = m x" using True by (simp add: copy_def)
    ultimately show ?thesis using still [OF True] by (simp add: copy_def)
  next
    case False
    then have "copy (copy m d s k) (d + of_nat k) (s + of_nat k) n x = copy m d s k x"
      unfolding copy_at [of "copy m d s k"] s f using assms(2) by auto
    then show ?thesis using False by (simp add: copy_def)
  qed
qed

lemma load32_bytes:
  "ucast (load32 m a) = m a" "ucast (drop_bit 8 (load32 m a)) = m (a + 1)"
  "ucast (drop_bit 16 (load32 m a)) = m (a + 2)" "ucast (drop_bit 24 (load32 m a)) = m (a + 3)"
  by (auto simp: load32_def bit_simps intro!: bit_word_eqI)

lemma word_apart:
  "a + 1 \<noteq> a" "a + 2 \<noteq> a" "a + 3 \<noteq> a" "a + 2 \<noteq> a + 1" "a + 3 \<noteq> a + 1" "a + 3 \<noteq> a + 2" for a :: u32
proof -
  have "(1 :: u32) \<noteq> 0" "(2 :: u32) \<noteq> 0" "(3 :: u32) \<noteq> 0" "(2 :: u32) \<noteq> 1" "(3 :: u32) \<noteq> 1" "(3 :: u32) \<noteq> 2"
    by (simp_all add: word_unat_eq_iff)
  then show "a + 1 \<noteq> a" "a + 2 \<noteq> a" "a + 3 \<noteq> a" "a + 2 \<noteq> a + 1" "a + 3 \<noteq> a + 1" "a + 3 \<noteq> a + 2"
    by (metis add.right_neutral add_left_imp_eq)+
qed

lemma copy_word_copy: "copy_word d s m = copy m d s 4"
proof (rule ext)
  fix x
  consider "x = d" | "x = d + 1" | "x = d + 2" | "x = d + 3" | "x \<noteq> d" "x \<noteq> d + 1" "x \<noteq> d + 2" "x \<noteq> d + 3" by blast
  then show "copy_word d s m x = copy m d s 4 x"
    by cases (simp_all add: copy_word_def copy_def in_word store32_def word_apart load32_bytes)
qed

lemma memcpy_words_copy:
  assumes "upwards_ok d s (unat len)"
  shows "\<exists>k\<le>unat len. memcpy_words d s len m = (d + of_nat k, s + of_nat k, len - of_nat k, copy m d s k)"
  using assms
proof (induction d s len m rule: memcpy_words.induct)
  case (1 d s len m)
  show ?case
  proof (cases "len \<ge> LITTLEBLOCKSIZE")
    case True
    then have u: "unat (len - LITTLEBLOCKSIZE) = unat len - 4" "4 \<le> unat len"
      by (simp_all add: unat_sub LITTLEBLOCKSIZE_def word_le_nat_alt)
    have "upwards_ok (d + 4) (s + 4) (unat (len - LITTLEBLOCKSIZE))"
      using upwards_ok_next [of d s 4 "unat len - 4"] 1(2) u by simp
    from 1(1) [OF True this] obtain k where k: "k \<le> unat (len - LITTLEBLOCKSIZE)"
      "memcpy_words (d + 4) (s + 4) (len - LITTLEBLOCKSIZE) (copy m d s 4) =
        (d + 4 + of_nat k, s + 4 + of_nat k, len - LITTLEBLOCKSIZE - of_nat k, copy (copy m d s 4) (d + 4) (s + 4) k)"
      by (auto simp: copy_word_copy)
    have "upwards_ok d s (4 + k)" using 1(2) k(1) u by (auto simp: upwards_ok_def)
    then have "copy (copy m d s 4) (d + 4) (s + 4) k = copy m d s (4 + k)"
      using copy_copy [of d s 4 k m] k(1) u less_imp_le [OF unat_u32_less [of len]] by simp
    then have "memcpy_words d s len m = (d + of_nat (4 + k), s + of_nat (4 + k), len - of_nat (4 + k), copy m d s (4 + k))"
      using k(2) True by (subst memcpy_words.simps) (simp add: copy_word_copy LITTLEBLOCKSIZE_def algebra_simps)
    then show ?thesis using k(1) u by (intro exI [of _ "4 + k"]) simp
  qed (subst memcpy_words.simps, auto intro!: exI [of _ 0])
qed

lemma memcpy_blocks_copy:
  assumes "upwards_ok d s (unat len)"
  shows "\<exists>k\<le>unat len. memcpy_blocks d s len m = (d + of_nat k, s + of_nat k, len - of_nat k, copy m d s k)"
  using assms
proof (induction d s len m rule: memcpy_blocks.induct)
  case (1 d s len m)
  show ?case
  proof (cases "len \<ge> BIGBLOCKSIZE")
    case True
    then have u: "unat (len - BIGBLOCKSIZE) = unat len - 16" "16 \<le> unat len"
      by (simp_all add: unat_sub BIGBLOCKSIZE_def word_le_nat_alt)
    have less: "upwards_ok d s j" if "j \<le> unat len" for j using 1(2) that by (auto simp: upwards_ok_def)
    have four: "copy (copy (copy (copy m d s 4) (d + 4) (s + 4) 4) (d + 8) (s + 8) 4) (d + 12) (s + 12) 4 = copy m d s 16"
      using copy_copy [of d s 4 4 m] copy_copy [of d s 8 4 m] copy_copy [of d s 12 4 m] less u by simp
    have "upwards_ok (d + 16) (s + 16) (unat (len - BIGBLOCKSIZE))"
      using upwards_ok_next [of d s 16 "unat len - 16"] 1(2) u by simp
    from 1(1) [OF True this] obtain k where k: "k \<le> unat (len - BIGBLOCKSIZE)"
      "memcpy_blocks (d + 16) (s + 16) (len - BIGBLOCKSIZE) (copy m d s 16) =
        (d + 16 + of_nat k, s + 16 + of_nat k, len - BIGBLOCKSIZE - of_nat k, copy (copy m d s 16) (d + 16) (s + 16) k)"
      by (auto simp: copy_word_copy four)
    have "copy (copy m d s 16) (d + 16) (s + 16) k = copy m d s (16 + k)"
      using copy_copy [of d s 16 k m] less [of "16 + k"] k(1) u less_imp_le [OF unat_u32_less [of len]] by simp
    then have "memcpy_blocks d s len m = (d + of_nat (16 + k), s + of_nat (16 + k), len - of_nat (16 + k), copy m d s (16 + k))"
      using k(2) True four by (subst memcpy_blocks.simps) (simp add: copy_word_copy BIGBLOCKSIZE_def algebra_simps)
    then show ?thesis using k(1) u by (intro exI [of _ "16 + k"]) simp
  qed (subst memcpy_blocks.simps, auto intro!: exI [of _ 0])
qed

lemma copy_up_copy:
  assumes "upwards_ok d s (unat n)"
  shows "copy_up d s n m = copy m d s (unat n)"
  using assms
proof (induction d s n m rule: copy_up.induct)
  case (1 d s n m)
  have one: "m(d := m s) = copy m d s 1" by (rule ext) (auto simp: copy_def unat_eq_zero)
  show ?case
  proof (cases "n = 0")
    case False
    then have u: "1 + unat (n - 1) = unat n" by (simp add: unat_minus_one unat_gt_0)
    have "upwards_ok (d + 1) (s + 1) (unat (n - 1))" using upwards_ok_next [of d s 1 "unat (n - 1)"] 1(2) u by simp
    then have "copy_up d s n m = copy (copy m d s 1) (d + 1) (s + 1) (unat (n - 1))"
      using 1(1) False by (subst copy_up.simps) (simp add: one)
    then show ?thesis using copy_copy [of d s 1 "unat (n - 1)" m] 1(2) u unat_u32_less [of n] by simp
  qed (simp add: copy_up.simps)
qed

text \<open>Copying downwards is right unless the source begins inside the destination, behind its first byte.\<close>

lemma copy_down_copy:
  assumes "n = 0 \<or> d = s \<or> unat n \<le> unat (s - d)"
  shows "copy_down (d + n) (s + n) n m = copy m d s (unat n)"
  using assms
proof (induction "unat n" arbitrary: n m)
  case 0
  then show ?case by (simp add: copy_down.simps unat_eq_zero)
next
  case (Suc j)
  then have n: "n \<noteq> 0" by auto
  then have j: "unat (n - 1) = j" using Suc.hyps(2) by (simp add: unat_minus_one)
  have ok: "d = s \<or> Suc j \<le> unat (s - d)" using Suc.prems Suc.hyps(2) n by simp
  let ?m = "m(d + n - 1 := m (s + n - 1))"
  have IH: "copy_down (d + (n - 1)) (s + (n - 1)) (n - 1) ?m = copy ?m d s j"
    using Suc.hyps(1) [of "n - 1" ?m] j ok by auto
  have "copy ?m d s j x = copy m d s (Suc j) x" for x
  proof -
    let ?p = "x - d" and ?q = "s - d"
    have x: "x = d + n - 1 \<longleftrightarrow> unat ?p = j"
      unfolding j [symmetric] word_unat_eq_iff [symmetric] by (auto simp: algebra_simps)
    have src: "s + n - 1 = s + ?p" if "unat ?p = j" using that x by (simp add: algebra_simps)
    have u: "unat (?p + ?q) = (if unat ?p + unat ?q < 4294967296 then unat ?p + unat ?q else unat ?p + unat ?q - 4294967296)"
      by (rule unat_add_u32)
    have still: "s + ?p \<noteq> d + n - 1" if "unat ?p < j"
    proof (cases "d = s")
      case True
      then show ?thesis using that x by auto
    next
      case False
      have "unat (?p + ?q) \<noteq> j"
      proof
        assume "unat (?p + ?q) = j"
        then show False unfolding u using that ok False unat_u32_less [of ?q] by (auto split: if_splits)
      qed
      moreover have "?p + ?q = n - 1" if "s + ?p = d + n - 1"
      proof -
        have "?p + ?q = s + ?p - d" by simp
        then show ?thesis unfolding that by simp
      qed
      ultimately show ?thesis using j by auto
    qed
    show ?thesis using src still x by (auto simp: copy_def less_Suc_eq add_diff_eq)
  qed
  then have "copy ?m d s j = copy m d s (Suc j)" by (rule ext)
  then show ?case using IH n Suc.hyps(2) by (subst copy_down.simps) (simp add: algebra_simps)
qed


lemma memcpy_copy:
  assumes "upwards_ok dst src (unat count)"
  shows "rt_memcpy dst src count m = (dst, copy m dst src (unat count))"
proof (cases "\<not> count < BIGBLOCKSIZE \<and> \<not> (UNALIGNED src \<or> UNALIGNED dst)")
  case True
  obtain k where k: "k \<le> unat count"
    "memcpy_blocks dst src count m = (dst + of_nat k, src + of_nat k, count - of_nat k, copy m dst src k)"
    using memcpy_blocks_copy [OF assms] by blast
  have kl: "k < 4294967296" using k(1) unat_u32_less [of count] by linarith
  have u: "unat (count - of_nat k) = unat count - k" using k(1) kl by (simp add: unat_sub_u32 unat_of_nat_u32)
  have "upwards_ok (dst + of_nat k) (src + of_nat k) (unat (count - of_nat k))"
    using upwards_ok_next [of dst src k "unat count - k"] assms u k(1) by simp
  from memcpy_words_copy [OF this, of "copy m dst src k"] obtain j where j: "j \<le> unat (count - of_nat k)"
    "memcpy_words (dst + of_nat k) (src + of_nat k) (count - of_nat k) (copy m dst src k) =
      (dst + of_nat k + of_nat j, src + of_nat k + of_nat j, count - of_nat k - of_nat j,
       copy (copy m dst src k) (dst + of_nat k) (src + of_nat k) j)" by blast
  have ok: "upwards_ok dst src i" if "i \<le> unat count" for i using assms that by (auto simp: upwards_ok_def)
  have jl: "k + j < 4294967296" and jc: "k + j \<le> unat count" using j(1) u k(1) unat_u32_less [of count] by linarith+
  have two: "copy (copy m dst src k) (dst + of_nat k) (src + of_nat k) j = copy m dst src (k + j)"
    using copy_copy [OF ok, of k j m] jc jl by simp
  have v: "unat (count - of_nat (k + j)) = unat count - (k + j)"
    using jc jl by (simp add: unat_sub_u32 unat_of_nat_u32 del: of_nat_add)
  have "upwards_ok (dst + of_nat (k + j)) (src + of_nat (k + j)) (unat (count - of_nat (k + j)))"
    unfolding v using upwards_ok_next [of dst src "k + j" "unat count - (k + j)"] assms jc by simp
  then have "copy_up (dst + of_nat (k + j)) (src + of_nat (k + j)) (count - of_nat (k + j)) (copy m dst src (k + j)) =
      copy m dst src (unat count)"
    using copy_copy [of dst src "k + j" "unat count - (k + j)" m] jc jl assms less_imp_le [OF unat_u32_less [of count]]
    by (simp add: copy_up_copy v del: of_nat_add)
  then show ?thesis using True k(2) j(2) two by (simp add: rt_memcpy_def Let_def algebra_simps)
qed (use assms in \<open>auto simp: rt_memcpy_def Let_def copy_up_copy\<close>)

text \<open>
  A copy between overlapping areas is right either way round: \<open>rt_memmove\<close> leaves in the destination what was in the
  source, however the two lie, and changes nothing else.
\<close>

theorem memmove_copies:
  assumes "unat dest + unat n < 4294967296" and "unat src + unat n < 4294967296"
  shows "rt_memmove dest src n m = (dest, copy m dest src (unat n))"
proof -
  have u: "unat (src + n) = unat src + unat n" using assms(2) by (simp add: unat_add_u32)
  show ?thesis
  proof (cases "src < dest \<and> dest < src + n")
    case True
    then have "unat n \<le> unat (src - dest)"
      using assms unat_u32_less [of src] by (simp add: unat_sub_u32 word_less_nat_alt u)
    then show ?thesis using True copy_down_copy [of n dest src m] by (simp add: rt_memmove_def)
  next
    case False
    then have "upwards_ok dest src (unat n)"
      using assms unat_u32_less [of dest]
      by (cases "dest = src") (auto simp: upwards_ok_def unat_sub_u32 word_less_nat_alt u word_unat_eq_iff)
    then show ?thesis unfolding rt_memmove_def if_not_P [OF False] by (simp add: copy_up_copy)
  qed
qed


section \<open>Comparing\<close>

function memcmp_loop :: "memory \<Rightarrow> u32 \<Rightarrow> u32 \<Rightarrow> u32 \<Rightarrow> int" where
  "memcmp_loop m su1 su2 count =
     (if 0 < count then
        let res = uint (m su1) - uint (m su2)
        in if res \<noteq> 0 then res else memcmp_loop m (su1 + 1) (su2 + 1) (count - 1)
      else 0)"
  by auto
termination
  by (relation "measure (\<lambda>(m, su1, su2, count). unat count)") (simp_all add: unat_pred_less word_gt_0)

declare memcmp_loop.simps [simp del]

definition rt_memcmp :: "u32 \<Rightarrow> u32 \<Rightarrow> u32 \<Rightarrow> memory \<Rightarrow> int" where
  "rt_memcmp cs ct count m = memcmp_loop m cs ct count"

section \<open>Strings\<close>

partial_function (option) strlen_loop :: "memory \<Rightarrow> u32 \<Rightarrow> u32 option" where
  "strlen_loop m sc = (if m sc \<noteq> 0 then strlen_loop m (sc + 1) else Some sc)"

definition rt_strlen :: "u32 \<Rightarrow> memory \<Rightarrow> u32 option" where
  "rt_strlen s m = map_option (\<lambda>sc. sc - s) (strlen_loop m s)"

text \<open>\<open>n\<close> is \<open>sc - s\<close>.\<close>

function strnlen_loop :: "memory \<Rightarrow> u32 \<Rightarrow> u32 \<Rightarrow> u32 \<Rightarrow> u32" where
  "strnlen_loop m s n maxlen = (if m (s + n) \<noteq> 0 \<and> n < maxlen then strnlen_loop m s (n + 1) maxlen else n)"
  by auto

lemma unat_next: "(n :: u32) < b \<Longrightarrow> unat (n + 1) = unat n + 1"
  using unat_u32_less [of b] by (simp add: unat_add_u32 word_less_nat_alt)

lemma closer: "(n :: u32) < b \<Longrightarrow> unat b - unat (n + 1) < unat b - unat n"
  by (simp add: unat_next word_less_nat_alt diff_less_mono2)

termination strnlen_loop
  by (relation "measure (\<lambda>(m, s, n, maxlen). unat maxlen - unat n)") (simp_all add: closer)

declare strnlen_loop.simps [simp del]

definition rt_strnlen :: "u32 \<Rightarrow> u32 \<Rightarrow> memory \<Rightarrow> u32" where
  "rt_strnlen s maxlen m = strnlen_loop m s 0 maxlen"

partial_function (option) strcpy_loop :: "u32 \<Rightarrow> u32 \<Rightarrow> memory \<Rightarrow> memory option" where
  "strcpy_loop dst src m =
     (if m src \<noteq> 0 then strcpy_loop (dst + 1) (src + 1) (m(dst := m src)) else Some (m(dst := 0)))"

definition rt_strcpy :: "u32 \<Rightarrow> u32 \<Rightarrow> memory \<Rightarrow> (u32 \<times> memory) option" where
  "rt_strcpy dst src m = map_option (\<lambda>m. (dst, m)) (strcpy_loop dst src m)"

lemma unat_pred2_less: "(n :: u32) \<noteq> 1 \<Longrightarrow> unat (n - 2) < unat (n - 1)"
  using unat_pred_less [of "n - 1"] by simp

function strncpy_pad :: "u32 \<Rightarrow> u32 \<Rightarrow> memory \<Rightarrow> memory" where
  "strncpy_pad d n m = (let n = n - 1 in if n \<noteq> 0 then strncpy_pad (d + 1) n (m(d := 0)) else m)"
  by auto
termination
  by (relation "measure (\<lambda>(d, n, m). unat (n - 1))") (simp_all add: unat_pred2_less)

function strncpy_loop :: "u32 \<Rightarrow> u32 \<Rightarrow> u32 \<Rightarrow> memory \<Rightarrow> memory" where
  "strncpy_loop d s n m =
     (let c = m s; m = m(d := c)
      in if c = 0 then strncpy_pad (d + 1) n m
         else let n = n - 1 in if n \<noteq> 0 then strncpy_loop (d + 1) (s + 1) n m else m)"
  by auto
termination
  by (relation "measure (\<lambda>(d, s, n, m). unat (n - 1))") (simp_all add: unat_pred2_less)

declare strncpy_pad.simps [simp del] strncpy_loop.simps [simp del]

definition rt_strncpy :: "u32 \<Rightarrow> u32 \<Rightarrow> u32 \<Rightarrow> memory \<Rightarrow> u32 \<times> memory" where
  "rt_strncpy dst src n m = (dst, if n \<noteq> 0 then strncpy_loop dst src n m else m)"

partial_function (option) rt_strcmp :: "u32 \<Rightarrow> u32 \<Rightarrow> memory \<Rightarrow> int option" where
  "rt_strcmp cs ct m =
     (if m cs \<noteq> 0 \<and> m cs = m ct then rt_strcmp (cs + 1) (ct + 1) m else Some (uint (m cs) - uint (m ct)))"

text \<open>The result passes through a \<^verbatim>\<open>signed char\<close>.\<close>

definition signed_char :: "int \<Rightarrow> int" where
  "signed_char i = sint (word_of_int i :: u8)"

function rt_strncmp :: "u32 \<Rightarrow> u32 \<Rightarrow> u32 \<Rightarrow> memory \<Rightarrow> int" where
  "rt_strncmp cs ct count m =
     (if count \<noteq> 0 then
        let res = signed_char (uint (m cs) - uint (m ct))
        in if res \<noteq> 0 \<or> m cs = 0 then res else rt_strncmp (cs + 1) (ct + 1) (count - 1) m
      else 0)"
  by auto
termination
  by (relation "measure (\<lambda>(cs, ct, count, m). unat count)") (simp_all add: unat_pred_less)

declare rt_strncmp.simps [simp del]

definition lower :: "u8 \<Rightarrow> int" where
  "lower c = (if uint c \<ge> 65 \<and> uint c \<le> 90 then uint c + (97 - 65) else uint c)"

partial_function (option) rt_strcasecmp :: "u32 \<Rightarrow> u32 \<Rightarrow> memory \<Rightarrow> int option" where
  "rt_strcasecmp a b m =
     (let ca = lower (m a); cb = lower (m b)
      in if ca = cb \<and> ca \<noteq> 0 then rt_strcasecmp (a + 1) (b + 1) m else Some (ca - cb))"

text \<open>The lengths are the \<^verbatim>\<open>int\<close>s that \<^verbatim>\<open>rt_strlen\<close> is stored to; a result of \<open>Some None\<close> is \<^verbatim>\<open>RT_NULL\<close>.\<close>

function strstr_loop :: "u32 \<Rightarrow> u32 \<Rightarrow> int \<Rightarrow> int \<Rightarrow> memory \<Rightarrow> u32 option" where
  "strstr_loop s1 s2 l1 l2 m =
     (if l1 \<ge> l2 then
        if rt_memcmp s1 s2 (word_of_int l2) m = 0 then Some s1 else strstr_loop (s1 + 1) s2 (l1 - 1) l2 m
      else None)"
  by auto
termination
  by (relation "measure (\<lambda>(s1, s2, l1, l2, m). nat (l1 - l2 + 1))") simp_all

declare strstr_loop.simps [simp del]

definition rt_strstr :: "u32 \<Rightarrow> u32 \<Rightarrow> memory \<Rightarrow> u32 option option" where
  "rt_strstr s1 s2 m =
     Option.bind (rt_strlen s2 m) (\<lambda>l2.
       if l2 = 0 then Some (Some s1)
       else map_option (\<lambda>l1. strstr_loop s1 s2 (sint l1) (sint l2) m) (rt_strlen s1 m))"


section \<open>Strings in memory\<close>

text \<open>The string \<open>cs\<close> lies at \<open>a\<close>, with its terminator.\<close>

primrec string_at :: "memory \<Rightarrow> u32 \<Rightarrow> u8 list \<Rightarrow> bool" where
  "string_at m a [] \<longleftrightarrow> m a = 0"
| "string_at m a (c # cs) \<longleftrightarrow> m a = c \<and> c \<noteq> 0 \<and> string_at m (a + 1) cs"

primrec bytes_at :: "memory \<Rightarrow> u32 \<Rightarrow> nat \<Rightarrow> u8 list" where
  "bytes_at m a 0 = []"
| "bytes_at m a (Suc n) = m a # bytes_at m (a + 1) n"

lemma string_at_nth: "string_at m a cs \<Longrightarrow> i < length cs \<Longrightarrow> m (a + of_nat i) = cs ! i \<and> m (a + of_nat i) \<noteq> 0"
proof (induction cs arbitrary: a i)
  case (Cons c cs)
  then show ?case
  proof (cases i)
    case (Suc j)
    with Cons.IH [of "a + 1" j] Cons.prems show ?thesis by (auto simp: add.assoc)
  qed simp
qed simp

lemma string_at_end: "string_at m a cs \<Longrightarrow> m (a + of_nat (length cs)) = 0"
proof (induction cs arbitrary: a)
  case (Cons c cs)
  with Cons.IH [of "a + 1"] show ?case by (simp add: add.assoc)
qed simp

lemma string_at_length:
  assumes "string_at m a cs"
  shows "length cs < 4294967296"
proof (rule ccontr)
  assume long: "\<not> ?thesis"
  let ?i = "length cs - 4294967296"
  have "(of_nat (?i + 4294967296) :: u32) = of_nat ?i" by simp
  then have "of_nat (length cs) = (of_nat ?i :: u32)" using long by simp
  moreover have "?i < length cs" using long by simp
  ultimately show False using string_at_nth [OF assms, of ?i] string_at_end [OF assms] by simp
qed

lemma string_at_drop: "string_at m a cs \<Longrightarrow> i \<le> length cs \<Longrightarrow> string_at m (a + of_nat i) (drop i cs)"
proof (induction cs arbitrary: a i)
  case (Cons c cs)
  then show ?case
  proof (cases i)
    case (Suc j)
    with Cons.IH [of "a + 1" j] Cons.prems show ?thesis by (simp add: add.assoc)
  qed simp
qed simp

lemma length_bytes_at [simp]: "length (bytes_at m a n) = n"
  by (induction n arbitrary: a) simp_all

lemma nth_bytes_at: "i < n \<Longrightarrow> bytes_at m a n ! i = m (a + of_nat i)"
proof (induction n arbitrary: a i)
  case (Suc n)
  then show ?case by (cases i) (simp_all add: add.assoc)
qed simp

lemma bytes_at_string: "string_at m a cs \<Longrightarrow> n \<le> length cs \<Longrightarrow> bytes_at m a n = take n cs"
  by (rule nth_equalityI) (simp_all add: nth_bytes_at string_at_nth)

lemma strlen_loop_string: "string_at m a cs \<Longrightarrow> strlen_loop m a = Some (a + of_nat (length cs))"
proof (induction cs arbitrary: a)
  case (Cons c cs)
  then show ?case by (subst strlen_loop.simps) (simp add: algebra_simps)
qed (subst strlen_loop.simps, simp)

lemma strlen_string: "string_at m a cs \<Longrightarrow> rt_strlen a m = Some (of_nat (length cs))"
  by (simp add: rt_strlen_def strlen_loop_string)

lemma strnlen_loop_string:
  assumes "string_at m s cs" and "unat n \<le> length cs" and "n \<le> maxlen"
  shows "strnlen_loop m s n maxlen = (if length cs < unat maxlen then of_nat (length cs) else maxlen)"
  using assms
proof (induction m s n maxlen rule: strnlen_loop.induct)
  case (1 m s n maxlen)
  have at: "m (s + n) = 0 \<longleftrightarrow> unat n = length cs"
  proof (cases "unat n = length cs")
    case True
    then have "n = of_nat (length cs)" by (simp flip: True)
    then show ?thesis using string_at_end [OF 1(2)] True by simp
  qed (use string_at_nth [OF 1(2), of "unat n"] 1(3) in auto)
  show ?case
  proof (cases "m (s + n) \<noteq> 0 \<and> n < maxlen")
    case True
    then have "unat (n + 1) \<le> length cs" "n + 1 \<le> maxlen"
      using at 1(3) by (auto simp: unat_next word_le_nat_alt word_less_nat_alt)
    with 1(1) [OF True 1(2)] True show ?thesis by (subst strnlen_loop.simps) simp
  next
    case False
    then have "unat n = length cs \<or> n = maxlen" using at 1(4) by auto
    moreover have "unat n \<le> unat maxlen" using 1(4) by (simp add: word_le_nat_alt)
    moreover have "n = of_nat (length cs)" if "unat n = length cs" using that by (simp flip: that)
    ultimately show ?thesis using False at 1(3)
      by (subst strnlen_loop.simps) (auto simp: word_less_nat_alt)
  qed
qed

lemma strnlen_string: "string_at m s cs \<Longrightarrow> unat (rt_strnlen s maxlen m) = min (length cs) (unat maxlen)"
  using strnlen_loop_string [of m s cs 0 maxlen] string_at_length [of m s cs]
  by (simp add: rt_strnlen_def unat_of_nat_u32)


text \<open>The lexicographic order as the sign of a comparison.\<close>

definition lex_order :: "'a::linorder list \<Rightarrow> 'a list \<Rightarrow> int" where
  "lex_order xs ys = (if xs = ys then 0 else if ord_class.lexordp xs ys then - 1 else 1)"

lemma lex_order_simps [simp]:
  "lex_order [] [] = 0" "lex_order [] (y # ys) = - 1" "lex_order (x # xs) [] = 1"
  "lex_order (x # xs) (y # ys) = (if x = y then lex_order xs ys else if x < y then - 1 else 1)"
  by (auto simp: lex_order_def)

lemma sgn_diff: "a \<noteq> b \<Longrightarrow> sgn (uint a - uint b) = (if a < b then - 1 else 1)" for a b :: u8
  by (auto simp: word_less_def sgn_if word_uint_eq_iff)

lemma memcmp_order: "sgn (rt_memcmp cs ct count m) = lex_order (bytes_at m cs (unat count)) (bytes_at m ct (unat count))"
  unfolding rt_memcmp_def
proof (induction m cs ct count rule: memcmp_loop.induct)
  case (1 m cs ct count)
  show ?case
  proof (cases "count = 0")
    case False
    then have u: "unat count = Suc (unat (count - 1))" by (simp add: unat_minus_one unat_gt_0)
    show ?thesis
    proof (cases "m cs = m ct")
      case True
      then have "sgn (memcmp_loop m cs ct count) = sgn (memcmp_loop m (cs + 1) (ct + 1) (count - 1))"
        using False by (subst memcmp_loop.simps) (simp add: word_gt_0)
      with 1 True False show ?thesis by (simp add: u word_gt_0)
    next
      case ne: False
      then have "memcmp_loop m cs ct count = uint (m cs) - uint (m ct)"
        using False by (subst memcmp_loop.simps) (simp add: word_gt_0 word_uint_eq_iff)
      then show ?thesis using sgn_diff [OF ne] ne by (simp add: u)
    qed
  qed (simp add: memcmp_loop.simps)
qed

lemma memcmp_eq: "rt_memcmp cs ct count m = 0 \<longleftrightarrow> bytes_at m cs (unat count) = bytes_at m ct (unat count)"
  using memcmp_order [of cs ct count m] by (auto simp: lex_order_def sgn_if split: if_splits)

text \<open>
  Strings are compared in the lexicographic order of their bytes: for any two strings the comparison ends, with a
  result that is negative, zero or positive as the first is smaller, equal or greater.
\<close>

theorem strcmp_order:
  assumes "string_at m cs xs" and "string_at m ct ys"
  shows "map_option sgn (rt_strcmp cs ct m) = Some (lex_order xs ys)"
  using assms
proof (induction xs arbitrary: cs ct ys)
  case Nil
  then show ?case by (cases ys; subst rt_strcmp.simps) (auto simp: sgn_if unsigned_eq_0_iff)
next
  case (Cons x xs)
  show ?case
  proof (cases "m ct = x")
    case True
    then obtain zs where "ys = x # zs" using Cons.prems by (cases ys) auto
    with Cons True show ?thesis by (subst rt_strcmp.simps) simp
  next
    case False
    then have "rt_strcmp cs ct m = Some (uint x - uint (m ct))" using Cons.prems by (subst rt_strcmp.simps) auto
    then show ?thesis using sgn_diff [of x "m ct"] False Cons.prems by (cases ys) auto
  qed
qed

lemma signed_char_small: "- 128 \<le> i \<Longrightarrow> i < 128 \<Longrightarrow> signed_char i = i"
  by (simp add: signed_char_def signed_of_int signed_take_bit_int_eq_self)

text \<open>With a limit the result passes through a signed char, which keeps it where the characters are ASCII.\<close>

lemma strncmp_order:
  assumes "string_at m cs xs" and "string_at m ct ys" and "\<forall>c\<in>set xs \<union> set ys. c < 128"
  shows "sgn (rt_strncmp cs ct count m) = lex_order (take (unat count) xs) (take (unat count) ys)"
  using assms
proof (induction xs arbitrary: cs ct ys count)
  case Nil
  show ?case
  proof (cases "count = 0")
    case False
    then obtain j where j: "unat count = Suc j" by (metis not0_implies_Suc unat_eq_zero)
    have c: "uint (m ct) < 128"
      using Nil(2,3) by (cases ys) (auto simp: word_less_def)
    have "signed_char (- uint (m ct)) = - uint (m ct)"
      using c uint_ge_0 [of "m ct"] by (intro signed_char_small) linarith+
    then have "rt_strncmp cs ct count m = - uint (m ct)"
      using Nil(1) False by (subst rt_strncmp.simps) simp
    then show ?thesis using Nil(2) by (cases ys) (auto simp: j sgn_if unsigned_eq_0_iff)
  qed (simp add: rt_strncmp.simps)
next
  case (Cons x xs)
  show ?case
  proof (cases "count = 0")
    case False
    then obtain j where j: "unat count = Suc j" "unat (count - 1) = j" using that [of "unat count - 1"] by (simp add: unat_minus_one unat_gt_0)
    have x: "m cs = x" "x \<noteq> 0" "uint x < 128" using Cons.prems by (auto simp: word_less_def)
    have c: "uint (m ct) < 128" using Cons.prems(2,3) by (cases ys) (auto simp: word_less_def)
    have s: "signed_char (uint x - uint (m ct)) = uint x - uint (m ct)"
      using x(3) c uint_ge_0 [of x] uint_ge_0 [of "m ct"] by (intro signed_char_small) linarith+
    show ?thesis
    proof (cases "m ct = x")
      case True
      then obtain zs where "ys = x # zs" using Cons.prems x by (cases ys) auto
      with Cons True False x s show ?thesis by (subst rt_strncmp.simps) (simp add: j)
    next
      case ne: False
      then have "rt_strncmp cs ct count m = uint x - uint (m ct)"
        using False x s by (subst rt_strncmp.simps) (simp add: word_uint_eq_iff)
      then show ?thesis using sgn_diff [of x "m ct"] ne Cons.prems by (cases ys) (auto simp: j)
    qed
  qed (simp add: rt_strncmp.simps)
qed

text \<open>
  Beyond ASCII it does not: a string whose first character is at least 128 above that of the other is reported as
  the smaller of the two.
\<close>

theorem strncmp_sign_wrong:
  assumes "uint (m cs) \<ge> uint (m ct) + 128" and "count \<noteq> 0"
  shows "rt_strncmp cs ct count m < 0"
proof -
  let ?d = "uint (m cs) - uint (m ct)"
  have "uint (m cs) < 256" using uint_bounded [of "m cs"] by simp
  then have d: "128 \<le> ?d" "?d < 256" using assms(1) uint_ge_0 [of "m ct"] by linarith+
  have "signed_char ?d = ?d - 256"
  proof -
    have "(word_of_int ?d :: u8) = word_of_int (?d - 256)"
      unfolding word_of_int_eq_iff by (simp add: take_bit_eq_mod)
    then have "signed_char ?d = signed_char (?d - 256)" by (simp only: signed_char_def)
    also have "\<dots> = ?d - 256" by (rule signed_char_small) (use d in linarith)+
    finally show ?thesis .
  qed
  then show ?thesis using d assms(2) by (subst rt_strncmp.simps) simp
qed


lemma lower_eq_0 [simp]: "lower 0 = 0" "lower c = 0 \<longleftrightarrow> c = 0" "0 = lower c \<longleftrightarrow> c = 0"
  by (auto simp: lower_def unsigned_eq_0_iff)

lemma lower_pos: "c \<noteq> 0 \<Longrightarrow> 0 < lower c"
  using uint_ge_0 [of c] by (simp add: lower_def less_le unsigned_eq_0_iff)

lemma strcasecmp_order:
  assumes "string_at m a xs" and "string_at m b ys"
  shows "map_option sgn (rt_strcasecmp a b m) = Some (lex_order (map lower xs) (map lower ys))"
  using assms
proof (induction xs arbitrary: a b ys)
  case Nil
  then show ?case by (cases ys; subst rt_strcasecmp.simps) (auto simp: Let_def sgn_if lower_pos dest: lower_pos)
next
  case (Cons x xs)
  show ?case
  proof (cases "lower (m b) = lower x")
    case True
    have "lower x \<noteq> 0" using Cons.prems by simp
    with True obtain y zs where "ys = y # zs" "lower y = lower x" using Cons.prems by (cases ys) auto
    with Cons True show ?thesis by (subst rt_strcasecmp.simps) (simp add: Let_def)
  next
    case False
    then have "rt_strcasecmp a b m = Some (lower x - lower (m b))"
      using Cons.prems by (subst rt_strcasecmp.simps) (auto simp: Let_def)
    then show ?thesis using False Cons.prems lower_pos [of x] by (cases ys) (auto simp: sgn_if)
  qed
qed

text \<open>Copying a string.\<close>

lemma string_at_iff:
  "string_at m a cs \<longleftrightarrow> (\<forall>i<length cs. m (a + of_nat i) = cs ! i \<and> cs ! i \<noteq> 0) \<and> m (a + of_nat (length cs)) = 0"
proof (induction cs arbitrary: a)
  case (Cons c cs)
  show ?case by (auto simp: Cons.IH All_less_Suc2 add.assoc)
qed simp

lemma string_at_copy: "string_at m src cs \<Longrightarrow> length cs < n \<Longrightarrow> string_at (copy m dst src n) dst cs"
  using string_at_length [of m src cs] by (simp add: string_at_iff copy_def unat_of_nat_u32)

lemma string_at_kept:
  assumes "string_at m (src + 1) cs" and "upwards_ok dst src (Suc (Suc (length cs)))"
  shows "string_at (m(dst := m src)) (src + 1) cs"
proof (cases "dst = src")
  case False
  have "src + 1 + of_nat i \<noteq> dst" if "i \<le> length cs" for i
  proof
    assume "src + 1 + of_nat i = dst"
    then have "dst - src = of_nat (Suc i)" by auto
    then have "unat (dst - src) = unat (of_nat (Suc i) :: u32)" by simp
    then have "unat (dst - src) \<le> Suc i" by (simp add: unsigned_of_nat take_bit_nat_less_eq_self del: of_nat_Suc)
    then show False using assms(2) that False by (auto simp: upwards_ok_def)
  qed
  then show ?thesis using assms(1) by (simp add: string_at_iff)
qed (use assms in simp)

lemma strcpy_loop_copy:
  assumes "string_at m src cs" and "upwards_ok dst src (Suc (length cs))"
  shows "strcpy_loop dst src m = Some (copy m dst src (Suc (length cs)))"
  using assms
proof (induction cs arbitrary: m dst src)
  case Nil
  have "m(dst := 0) = copy m dst src 1" using Nil by (auto simp: copy_def unat_eq_zero)
  then show ?case using Nil by (subst strcpy_loop.simps) simp
next
  case (Cons c cs)
  have one: "m(dst := c) = copy m dst src 1" using Cons.prems(1) by (auto simp: copy_def unat_eq_zero)
  have "string_at (m(dst := c)) (src + 1) cs" using string_at_kept [of m src cs dst] Cons.prems by simp
  moreover have "upwards_ok (dst + 1) (src + 1) (Suc (length cs))"
    using upwards_ok_next [of dst src 1 "Suc (length cs)"] Cons.prems(2) by simp
  ultimately have "strcpy_loop dst src m = Some (copy (copy m dst src 1) (dst + 1) (src + 1) (Suc (length cs)))"
    using Cons.prems(1) Cons.IH by (subst strcpy_loop.simps) (simp add: one)
  then show ?case
    using copy_copy [of dst src 1 "Suc (length cs)" m] Cons.prems(2) string_at_length [OF Cons.prems(1)] by simp
qed

lemma strcpy_string:
  assumes "string_at m src cs" and "upwards_ok dst src (Suc (length cs))"
  shows "rt_strcpy dst src m = Some (dst, copy m dst src (Suc (length cs)))"
  using strcpy_loop_copy [OF assms] by (simp add: rt_strcpy_def)

text \<open>With a limit: the copy stops at the limit, or what remains up to the limit is filled with zeros.\<close>

lemma strncpy_pad_fill: "n \<noteq> 0 \<Longrightarrow> strncpy_pad d n m = fill m d (unat n - 1) 0"
proof (induction d n m rule: strncpy_pad.induct)
  case (1 d n m)
  have u: "unat (n - 1) = unat n - 1" using 1(2) by (simp add: unat_minus_one)
  have one: "m(d := 0) = fill m d 1 0" by (rule ext) (auto simp: fill_def unat_eq_zero)
  show ?case
  proof (cases "n - 1 = 0")
    case True
    then show ?thesis using u by (subst strncpy_pad.simps) (simp add: Let_def)
  next
    case False
    then have "unat n - 1 \<noteq> 0" unfolding u [symmetric] by (simp add: unat_eq_zero)
    then obtain j where j: "unat n = Suc (Suc j)" using that [of "unat n - 2"] by simp
    show ?thesis
      using 1(1) [OF refl False False] False fill_fill [of 1 m d 0 j] 
      by (subst strncpy_pad.simps) (simp add: Let_def one u j)
  qed
qed

lemma strncpy_string:
  assumes "string_at m src cs" and "upwards_ok dst src (Suc (length cs))"
  shows "rt_strncpy dst src n m =
    (dst, let k = min (unat n) (Suc (length cs)) in fill (copy m dst src k) (dst + of_nat k) (unat n - k) 0)"
proof (cases "n = 0")
  case False
  have "strncpy_loop dst src n m =
      (let k = min (unat n) (Suc (length cs)) in fill (copy m dst src k) (dst + of_nat k) (unat n - k) 0)"
    using assms False
  proof (induction cs arbitrary: m dst src n)
    case Nil
    have "m(dst := 0) = copy m dst src 1" using Nil by (auto simp: copy_def unat_eq_zero)
    then show ?case using Nil
      by (subst strncpy_loop.simps) (simp add: Let_def strncpy_pad_fill unat_gt_0 Suc_leI min_absorb2)
  next
    case (Cons c cs)
    have one: "m(dst := c) = copy m dst src 1" using Cons.prems(1) by (auto simp: copy_def unat_eq_zero)
    have u: "unat n = Suc (unat (n - 1))" using Cons.prems(3) by (simp add: unat_minus_one unat_gt_0)
    let ?k = "min (unat (n - 1)) (Suc (length cs))"
    have k: "min (unat n) (Suc (length (c # cs))) = Suc ?k" by (simp add: u)
    show ?case
    proof (cases "n - 1 = 0")
      case True
      then show ?thesis using Cons.prems(1) u by (subst strncpy_loop.simps) (simp add: Let_def one)
    next
      case more: False
      have "string_at (copy m dst src 1) (src + 1) cs"
        unfolding one [symmetric] using string_at_kept [of m src cs dst] Cons.prems(1,2) by simp
      moreover have "upwards_ok (dst + 1) (src + 1) (Suc (length cs))"
        using upwards_ok_next [of dst src 1 "Suc (length cs)"] Cons.prems(2) by simp
      ultimately have "strncpy_loop (dst + 1) (src + 1) (n - 1) (copy m dst src 1) =
          fill (copy (copy m dst src 1) (dst + 1) (src + 1) ?k) (dst + 1 + of_nat ?k) (unat (n - 1) - ?k) 0"
        using Cons.IH more by (simp add: Let_def)
      moreover have "copy (copy m dst src 1) (dst + 1) (src + 1) ?k = copy m dst src (Suc ?k)"
      proof -
        have "1 + ?k \<le> 4294967296" using unat_u32_less [of n] u by linarith
        moreover have "upwards_ok dst src (1 + ?k)"
        proof -
          have "1 + ?k \<le> Suc (length (c # cs))" by simp
          then show ?thesis using Cons.prems(2) unfolding upwards_ok_def by linarith
        qed
        ultimately show ?thesis using copy_copy [of dst src 1 ?k m] by simp
      qed
      ultimately show ?thesis unfolding k using Cons.prems(1) more
        by (subst strncpy_loop.simps) (simp add: Let_def one u add.assoc)
    qed
  qed
  then show ?thesis using False by (simp add: rt_strncpy_def)
qed (simp add: rt_strncpy_def)


text \<open>Searching a string: the loop looks at one position after the other while the rest is long enough.\<close>

definition occurs_at :: "u8 list \<Rightarrow> u8 list \<Rightarrow> nat \<Rightarrow> bool" where
  "occurs_at xs ys n \<longleftrightarrow> n \<le> length xs \<and> take (length ys) (drop n xs) = ys"

lemma occurs_at_simps [simp]:
  "occurs_at xs [] n \<longleftrightarrow> n \<le> length xs" "occurs_at xs ys 0 \<longleftrightarrow> take (length ys) xs = ys"
  "occurs_at (x # xs) ys (Suc n) \<longleftrightarrow> occurs_at xs ys n"
  by (simp_all add: occurs_at_def)

lemma occurs_at_length: "occurs_at xs ys n \<Longrightarrow> n + length ys \<le> length xs"
  unfolding occurs_at_def by (metis add.commute diff_le_mono2 le_diff_conv2 length_drop length_take min.cobounded1)

definition finds :: "u8 list \<Rightarrow> u8 list \<Rightarrow> u32 \<Rightarrow> u32 option \<Rightarrow> bool" where
  "finds xs ys s1 r \<longleftrightarrow>
     (case r of None \<Rightarrow> \<forall>n. \<not> occurs_at xs ys n
      | Some p \<Rightarrow> \<exists>n. p = s1 + of_nat n \<and> occurs_at xs ys n \<and> (\<forall>k<n. \<not> occurs_at xs ys k))"

lemma finds_here: "take (length ys) xs = ys \<Longrightarrow> finds xs ys s1 (Some s1)"
  by (auto simp: finds_def intro!: exI [of _ 0])

lemma finds_next:
  assumes "take (length ys) (x # xs) \<noteq> ys" and "finds xs ys (s1 + 1) r"
  shows "finds (x # xs) ys s1 r"
proof (cases r)
  case None
  have "\<not> occurs_at (x # xs) ys n" for n using assms None by (cases n) (auto simp: finds_def)
  then show ?thesis using None by (simp add: finds_def)
next
  case (Some p)
  then obtain n where n: "p = s1 + 1 + of_nat n" "occurs_at xs ys n" "\<And>k. k < n \<Longrightarrow> \<not> occurs_at xs ys k"
    using assms(2) by (auto simp: finds_def)
  have "\<not> occurs_at (x # xs) ys k" if "k < Suc n" for k using that n(3) assms(1) by (cases k) auto
  then show ?thesis using Some n by (auto simp: finds_def add.assoc intro!: exI [of _ "Suc n"])
qed

lemma strstr_loop_finds:
  assumes "string_at m s1 xs" and "string_at m s2 ys"
  shows "finds xs ys s1 (strstr_loop s1 s2 (int (length xs)) (int (length ys)) m)"
  using assms(1)
proof (induction xs arbitrary: s1)
  case (Cons x xs)
  let ?l2 = "int (length ys)"
  have w: "unat (word_of_int ?l2 :: u32) = length ys" using string_at_length [OF assms(2)] by (simp add: unat_of_nat_u32)
  have here: "rt_memcmp s1 s2 (word_of_int ?l2) m = 0 \<longleftrightarrow> take (length ys) (x # xs) = ys" if "length ys \<le> length (x # xs)"
    unfolding memcmp_eq w using bytes_at_string [OF Cons.prems that] bytes_at_string [OF assms(2) order_refl] by simp
  show ?case
  proof (cases "length ys \<le> length (x # xs)")
    case long: True
    show ?thesis
    proof (cases "take (length ys) (x # xs) = ys")
      case True
      then have "strstr_loop s1 s2 (int (length (x # xs))) ?l2 m = Some s1"
        using long here by (subst strstr_loop.simps) simp
      then show ?thesis using finds_here [OF True] by simp
    next
      case False
      then have "strstr_loop s1 s2 (int (length (x # xs))) ?l2 m = strstr_loop (s1 + 1) s2 (int (length xs)) ?l2 m"
        using long here by (subst strstr_loop.simps) simp
      then show ?thesis using finds_next [OF False] Cons by simp
    qed
  next
    case False
    then have "strstr_loop s1 s2 (int (length (x # xs))) ?l2 m = None" by (subst strstr_loop.simps) simp
    then show ?thesis using False occurs_at_length [of "x # xs" ys] by (fastforce simp: finds_def)
  qed
next
  case Nil
  show ?case
  proof (cases "ys = []")
    case True
    then show ?thesis using memcmp_eq [of s1 s2 0 m] finds_here [of "[]" "[]" s1] by (subst strstr_loop.simps) simp
  next
    case False
    then have "strstr_loop s1 s2 (int (length [])) (int (length ys)) m = None" by (subst strstr_loop.simps) simp
    then show ?thesis using False occurs_at_length [of "[]" ys] by (fastforce simp: finds_def)
  qed
qed

text \<open>
  The search finds the first occurrence: for strings of less than 2 GB it ends, with no result exactly if the second
  occurs nowhere in the first, and otherwise with the address where it first does.
\<close>

theorem strstr_first:
  assumes "string_at m s1 xs" and "string_at m s2 ys" and "length xs < 2147483648" and "length ys < 2147483648"
  shows "\<exists>r. rt_strstr s1 s2 m = Some r \<and> finds xs ys s1 r"
proof (cases "ys = []")
  case True
  then show ?thesis using strlen_string [OF assms(2)] finds_here [of "[]" xs s1] by (simp add: rt_strstr_def)
next
  case False
  have i: "sint (of_nat n :: u32) = int n" if "n < 2147483648" for n
    using that by (simp add: signed_of_nat signed_take_bit_int_eq_self)
  have "(of_nat (length ys) :: u32) \<noteq> 0" using False assms(4) unat_of_nat_u32 [of "length ys"] by auto
  then have "rt_strstr s1 s2 m = Some (strstr_loop s1 s2 (int (length xs)) (int (length ys)) m)"
    using strlen_string [OF assms(1)] strlen_string [OF assms(2)] i assms(3,4) by (simp add: rt_strstr_def)
  then show ?thesis using strstr_loop_finds [OF assms(1,2)] by simp
qed

section \<open>The routines on concrete memory\<close>

text \<open>\<open>store_bytes\<close> puts a list of bytes into memory.\<close>

primrec store_bytes :: "u32 \<Rightarrow> u8 list \<Rightarrow> memory \<Rightarrow> memory" where
  "store_bytes a [] m = m"
| "store_bytes a (b # bs) m = (store_bytes (a + 1) bs m)(a := b)"

definition demo_memory :: memory where
  "demo_memory = store_bytes 100 [0x61, 0x62, 0x61, 0x63, 0] (store_bytes 200 [0x61, 0x63, 0] (store_bytes 300 [0xE9, 0] (\<lambda>_. 0xFF)))"

lemma memmove_copies_witness: "rt_memmove 101 100 3 demo_memory = (101, copy demo_memory 101 100 3)"
  using memmove_copies [of 101 3 100 demo_memory] by simp

lemma strcmp_order_witness: "map_option sgn (rt_strcmp 100 200 demo_memory) = Some (- 1)"
  using strcmp_order [of demo_memory 100 "[0x61, 0x62, 0x61, 0x63]" 200 "[0x61, 0x63]"]
  by (simp add: demo_memory_def)

lemma strncmp_sign_wrong_witness: "rt_strncmp 300 100 5 demo_memory < 0"
  using strncmp_sign_wrong [of demo_memory 100 300 5] by (simp add: demo_memory_def)

lemma strstr_first_witness: "\<exists>r. rt_strstr 100 200 demo_memory = Some r \<and> finds [0x61, 0x62, 0x61, 0x63] [0x61, 0x63] 100 r"
  using strstr_first [of demo_memory 100 "[0x61, 0x62, 0x61, 0x63]" 200 "[0x61, 0x63]"] by (simp add: demo_memory_def)

end
