(* ===== verification/Rt_Mem.thy ===== *)
theory Rt_Mem
  imports Rt_Service
begin

text \<open>
  The heap of the kernel: the small memory manager (\<^verbatim>\<open>src/rt-thread/src/mem.c\<close>, configured by
  \<^verbatim>\<open>RT_USING_SMALL_MEM_AS_HEAP\<close>), and on it the allocation calls of \<^verbatim>\<open>src/rt-thread/src/kservice.c\<close>.  The object's fields
  are a record with the memory it manages; the items in front of the blocks lie in that memory and are read and
  written there.  A call runs with the heap locked, so it is one step.  There is one memory object, so the pool an item
  names is this one or the item is no item.
\<close>

section \<open>The memory object and its items\<close>

record small_mem =
  obj :: u32
  address :: u32
  total :: u32
  used :: u32
  max_used :: u32
  heap_ptr :: u32
  heap_end :: u32
  lfree :: u32
  mem_size_aligned :: u32
  mem_assert :: bool
  bytes :: memory

definition RT_ALIGN :: "u32 \<Rightarrow> u32 \<Rightarrow> u32" where
  "RT_ALIGN sz align = (sz + align - 1) AND NOT (align - 1)"

definition RT_ALIGN_DOWN32 :: "u32 \<Rightarrow> u32 \<Rightarrow> u32" where
  "RT_ALIGN_DOWN32 sz align = sz AND NOT (align - 1)"

text \<open>The sizes of \<open>struct rt_small_mem\<close> and \<open>struct rt_small_mem_item\<close> on a 32-bit machine.\<close>

definition sizeof_small_mem :: u32 where "sizeof_small_mem = 56"

definition sizeof_item :: u32 where "sizeof_item = 12"

definition MIN_SIZE :: u32 where "MIN_SIZE = 12"

definition MIN_SIZE_ALIGNED :: u32 where "MIN_SIZE_ALIGNED = RT_ALIGN MIN_SIZE 8"

definition SIZEOF_STRUCT_MEM :: u32 where "SIZEOF_STRUCT_MEM = RT_ALIGN sizeof_item 8"

definition RT_NULL :: u32 where "RT_NULL = 0"

text \<open>The fields of the item at an address.\<close>

definition pool_ptr :: "small_mem \<Rightarrow> u32 \<Rightarrow> u32" where "pool_ptr m mem = load32 (bytes m) mem"

definition item_next :: "small_mem \<Rightarrow> u32 \<Rightarrow> u32" where "item_next m mem = load32 (bytes m) (mem + 4)"

definition item_prev :: "small_mem \<Rightarrow> u32 \<Rightarrow> u32" where "item_prev m mem = load32 (bytes m) (mem + 8)"

definition set_pool_ptr :: "u32 \<Rightarrow> u32 \<Rightarrow> small_mem \<Rightarrow> small_mem" where
  "set_pool_ptr mem v m = m\<lparr>bytes := store32 mem v (bytes m)\<rparr>"

definition set_next :: "u32 \<Rightarrow> u32 \<Rightarrow> small_mem \<Rightarrow> small_mem" where
  "set_next mem v m = m\<lparr>bytes := store32 (mem + 4) v (bytes m)\<rparr>"

definition set_prev :: "u32 \<Rightarrow> u32 \<Rightarrow> small_mem \<Rightarrow> small_mem" where
  "set_prev mem v m = m\<lparr>bytes := store32 (mem + 8) v (bytes m)\<rparr>"

definition MEM_MASK :: u32 where "MEM_MASK = NOT 0 - 1"

definition MEM_USED :: "small_mem \<Rightarrow> u32" where "MEM_USED m = (obj m AND MEM_MASK) OR 1"

definition MEM_FREED :: "small_mem \<Rightarrow> u32" where "MEM_FREED m = (obj m AND MEM_MASK) OR 0"

definition MEM_ISUSED :: "small_mem \<Rightarrow> u32 \<Rightarrow> bool" where "MEM_ISUSED m mem \<longleftrightarrow> pool_ptr m mem AND NOT MEM_MASK \<noteq> 0"

definition MEM_POOL :: "small_mem \<Rightarrow> u32 \<Rightarrow> u32" where "MEM_POOL m mem = pool_ptr m mem AND MEM_MASK"

definition m_assert :: "bool \<Rightarrow> small_mem \<Rightarrow> small_mem" where
  "m_assert b m = (if b then m else m\<lparr>mem_assert := True\<rparr>)"

section \<open>Initialisation\<close>

text \<open>
  \<open>None\<close> is the error return \<^verbatim>\<open>RT_NULL\<close>; \<open>b\<close> is what the memory holds before.  The object itself lies in front of the heap;
  its fields are those of the record, and its bytes in memory are left as they are.
\<close>

definition rt_smem_init :: "u32 \<Rightarrow> u32 \<Rightarrow> memory \<Rightarrow> small_mem option" where
  "rt_smem_init begin_addr sz b =
     (let small_mem = RT_ALIGN begin_addr 8;
          start_addr = small_mem + sizeof_small_mem;
          begin_align = RT_ALIGN start_addr 8;
          end_align = RT_ALIGN_DOWN32 (begin_addr + sz) 8
      in if end_align > 2 * SIZEOF_STRUCT_MEM \<and> end_align - 2 * SIZEOF_STRUCT_MEM \<ge> start_addr then
           let mem_size = end_align - begin_align - 2 * SIZEOF_STRUCT_MEM;
               m = \<lparr>obj = small_mem, address = begin_align, total = mem_size, used = 0, max_used = 0, heap_ptr = begin_align,
                    heap_end = 0, lfree = 0, mem_size_aligned = mem_size, mem_assert = False, bytes = b\<rparr>;
               mem = heap_ptr m;
               m = set_pool_ptr mem (MEM_FREED m) m;
               m = set_next mem (mem_size_aligned m + SIZEOF_STRUCT_MEM) m;
               m = set_prev mem 0 m;
               m = m\<lparr>heap_end := heap_ptr m + item_next m mem\<rparr>;
               m = set_pool_ptr (heap_end m) (MEM_USED m) m;
               m = set_next (heap_end m) (mem_size_aligned m + SIZEOF_STRUCT_MEM) m;
               m = set_prev (heap_end m) (mem_size_aligned m + SIZEOF_STRUCT_MEM) m
           in Some (m\<lparr>lfree := heap_ptr m\<rparr>)
         else None)"

section \<open>Allocation\<close>

text \<open>The loop over the items from the lowest free one on: the first that is free and large enough, or \<open>None\<close>.\<close>

partial_function (option) alloc_search :: "u32 \<Rightarrow> u32 \<Rightarrow> small_mem \<Rightarrow> u32 option option" where
  "alloc_search sz ptr m =
     (if ptr \<le> mem_size_aligned m - sz then
        let mem = heap_ptr m + ptr
        in if \<not> MEM_ISUSED m mem \<and> item_next m mem - (ptr + SIZEOF_STRUCT_MEM) \<ge> sz then Some (Some ptr)
           else alloc_search sz (item_next m mem) m
      else Some None)"

text \<open>The loop that looks for the next free item.\<close>

partial_function (option) lfree_loop :: "small_mem \<Rightarrow> small_mem option" where
  "lfree_loop m =
     (if MEM_ISUSED m (lfree m) \<and> lfree m \<noteq> heap_end m
      then lfree_loop (m\<lparr>lfree := heap_ptr m + item_next m (lfree m)\<rparr>)
      else Some m)"

definition uses :: "u32 \<Rightarrow> small_mem \<Rightarrow> small_mem" where
  "uses n m =
     (let m = m\<lparr>used := used m + n\<rparr>
      in if max_used m < used m then m\<lparr>max_used := used m\<rparr> else m)"

text \<open>What the call does with the item it found.\<close>

definition alloc_split :: "u32 \<Rightarrow> u32 \<Rightarrow> small_mem \<Rightarrow> small_mem" where
  "alloc_split sz ptr m =
     (let mem = heap_ptr m + ptr;
          ptr2 = ptr + SIZEOF_STRUCT_MEM + sz;
          mem2 = heap_ptr m + ptr2;
          m = set_pool_ptr mem2 (MEM_FREED m) m;
          m = set_next mem2 (item_next m mem) m;
          m = set_prev mem2 ptr m;
          m = set_next mem ptr2 m
      in if item_next m mem2 \<noteq> mem_size_aligned m + SIZEOF_STRUCT_MEM
         then set_prev (heap_ptr m + item_next m mem2) ptr2 m else m)"

text \<open>What the allocation does last: the tag, the lowest free item, and its assertions.\<close>

definition alloc_finish :: "u32 \<Rightarrow> u32 \<Rightarrow> small_mem \<Rightarrow> (u32 \<times> small_mem) option" where
  "alloc_finish sz mem m =
     map_option (\<lambda>m.
         let m = m_assert (mem + SIZEOF_STRUCT_MEM + sz \<le> heap_end m) m;
             m = m_assert ((mem + SIZEOF_STRUCT_MEM) mod 8 = 0) m;
             m = m_assert (mem AND (8 - 1) = 0) m
         in (mem + SIZEOF_STRUCT_MEM, m))
       (if mem = lfree m
        then map_option (\<lambda>m. m_assert (lfree m = heap_end m \<or> \<not> MEM_ISUSED m (lfree m)) m) (lfree_loop m)
        else Some m)"

definition alloc_take :: "u32 \<Rightarrow> u32 \<Rightarrow> small_mem \<Rightarrow> (u32 \<times> small_mem) option" where
  "alloc_take sz ptr m =
     (let mem = heap_ptr m + ptr;
          m = (if item_next m mem - (ptr + SIZEOF_STRUCT_MEM) \<ge> sz + SIZEOF_STRUCT_MEM + MIN_SIZE_ALIGNED
               then uses (sz + SIZEOF_STRUCT_MEM) (alloc_split sz ptr m)
               else uses (item_next m mem - (mem - heap_ptr m)) m);
          m = set_pool_ptr mem (MEM_USED m) m
      in alloc_finish sz mem m)"

definition rt_smem_alloc :: "u32 \<Rightarrow> small_mem \<Rightarrow> (u32 \<times> small_mem) option" where
  "rt_smem_alloc sz m =
     (if sz = 0 then Some (RT_NULL, m)
      else
        let sz = RT_ALIGN sz 8;
            sz = (if sz < MIN_SIZE_ALIGNED then MIN_SIZE_ALIGNED else sz)
        in if sz > mem_size_aligned m then Some (RT_NULL, m)
           else Option.bind (alloc_search sz (lfree m - heap_ptr m) m) (\<lambda>r.
             case r of None \<Rightarrow> Some (RT_NULL, m) | Some ptr \<Rightarrow> alloc_take sz ptr m))"

section \<open>Release\<close>

definition plug_forward :: "u32 \<Rightarrow> small_mem \<Rightarrow> small_mem" where
  "plug_forward mem m =
     (let nmem = heap_ptr m + item_next m mem
      in if mem \<noteq> nmem \<and> \<not> MEM_ISUSED m nmem \<and> nmem \<noteq> heap_end m then
           let m = (if lfree m = nmem then m\<lparr>lfree := mem\<rparr> else m);
               m = set_pool_ptr nmem 0 m;
               m = set_next mem (item_next m nmem) m
           in set_prev (heap_ptr m + item_next m nmem) (mem - heap_ptr m) m
         else m)"

definition plug_backward :: "u32 \<Rightarrow> small_mem \<Rightarrow> small_mem" where
  "plug_backward mem m =
     (let pmem = heap_ptr m + item_prev m mem
      in if pmem \<noteq> mem \<and> \<not> MEM_ISUSED m pmem then
           let m = (if lfree m = mem then m\<lparr>lfree := pmem\<rparr> else m);
               m = set_pool_ptr mem 0 m;
               m = set_next pmem (item_next m mem) m
           in set_prev (heap_ptr m + item_next m mem) (pmem - heap_ptr m) m
         else m)"

definition plug_holes :: "u32 \<Rightarrow> small_mem \<Rightarrow> small_mem" where
  "plug_holes mem m =
     (let m = m_assert (mem \<ge> heap_ptr m) m;
          m = m_assert (mem < heap_end m) m
      in plug_backward mem (plug_forward mem m))"

definition rt_smem_free :: "u32 \<Rightarrow> small_mem \<Rightarrow> small_mem" where
  "rt_smem_free rmem m =
     (if rmem = RT_NULL then m
      else
        let m = m_assert (rmem AND (8 - 1) = 0) m;
            mem = rmem - SIZEOF_STRUCT_MEM;
            m = m_assert (MEM_POOL m mem = obj m) m;
            m = m_assert (MEM_ISUSED m mem) m;
            m = m_assert (rmem \<ge> heap_ptr m \<and> rmem < heap_end m) m;
            m = m_assert (MEM_POOL m (heap_ptr m + item_next m mem) = obj m) m;
            m = set_pool_ptr mem (MEM_FREED m) m;
            m = (if mem < lfree m then m\<lparr>lfree := mem\<rparr> else m);
            m = m\<lparr>used := used m - (item_next m mem - (mem - heap_ptr m))\<rparr>
        in plug_holes mem m)"

definition rt_smem_realloc :: "u32 \<Rightarrow> u32 \<Rightarrow> small_mem \<Rightarrow> (u32 \<times> small_mem) option" where
  "rt_smem_realloc rmem newsize m =
     (let newsize = RT_ALIGN newsize 8
      in if newsize > mem_size_aligned m then Some (RT_NULL, m)
         else if newsize = 0 then Some (RT_NULL, rt_smem_free rmem m)
         else if rmem = RT_NULL then rt_smem_alloc newsize m
         else
           let m = m_assert (rmem AND (8 - 1) = 0) m;
               m = m_assert (rmem \<ge> heap_ptr m) m;
               m = m_assert (rmem < heap_end m) m;
               mem = rmem - SIZEOF_STRUCT_MEM;
               ptr = mem - heap_ptr m;
               sz = item_next m mem - ptr - SIZEOF_STRUCT_MEM
           in if sz = newsize then Some (rmem, m)
              else if newsize + SIZEOF_STRUCT_MEM + MIN_SIZE < sz then
                let m = m\<lparr>used := used m - (sz - newsize)\<rparr>;
                    ptr2 = ptr + SIZEOF_STRUCT_MEM + newsize;
                    mem2 = heap_ptr m + ptr2;
                    m = alloc_split newsize ptr m;
                    m = (if mem2 < lfree m then m\<lparr>lfree := mem2\<rparr> else m)
                in Some (rmem, plug_holes mem2 m)
              else
                map_option (\<lambda>(nmem, m).
                    if nmem \<noteq> RT_NULL then
                      (nmem, rt_smem_free rmem
                               (m\<lparr>bytes := snd (rt_memcpy nmem rmem (if sz < newsize then sz else newsize) (bytes m))\<rparr>))
                    else (nmem, m))
                  (rt_smem_alloc newsize m))"

section \<open>The calls of the kernel\<close>

definition rt_system_heap_init :: "u32 \<Rightarrow> u32 \<Rightarrow> memory \<Rightarrow> bool \<times> small_mem option" where
  "rt_system_heap_init begin_addr end_addr b =
     (let begin_align = RT_ALIGN begin_addr 8;
          end_align = RT_ALIGN_DOWN32 end_addr 8
      in (\<not> end_align > begin_align, rt_smem_init begin_align (end_align - begin_align) b))"

definition rt_malloc :: "u32 \<Rightarrow> small_mem \<Rightarrow> (u32 \<times> small_mem) option" where
  "rt_malloc sz m = rt_smem_alloc sz m"

definition rt_realloc :: "u32 \<Rightarrow> u32 \<Rightarrow> small_mem \<Rightarrow> (u32 \<times> small_mem) option" where
  "rt_realloc ptr newsize m = rt_smem_realloc ptr newsize m"

definition rt_calloc :: "u32 \<Rightarrow> u32 \<Rightarrow> small_mem \<Rightarrow> (u32 \<times> small_mem) option" where
  "rt_calloc count sz m =
     map_option (\<lambda>(p, m). (p, if p \<noteq> RT_NULL then m\<lparr>bytes := snd (rt_memset p 0 (count * sz) (bytes m))\<rparr> else m))
       (rt_malloc (count * sz) m)"

definition rt_free :: "u32 \<Rightarrow> small_mem \<Rightarrow> small_mem" where
  "rt_free ptr m = (if ptr = RT_NULL then m else rt_smem_free ptr m)"

definition rt_memory_info :: "small_mem \<Rightarrow> u32 \<times> u32 \<times> u32" where
  "rt_memory_info m = (total m, used m, max_used m)"

definition rt_malloc_align :: "u32 \<Rightarrow> u32 \<Rightarrow> small_mem \<Rightarrow> (u32 \<times> small_mem) option" where
  "rt_malloc_align sz align m =
     (let uintptr_size = 4 - 1;
          align = (align + uintptr_size) AND NOT uintptr_size;
          align_size = ((sz + uintptr_size) AND NOT uintptr_size) + align
      in map_option (\<lambda>(ptr, m).
           if ptr \<noteq> RT_NULL then
             let align_ptr = (if ptr AND (align - 1) = 0 then ptr + align else (ptr + (align - 1)) AND NOT (align - 1))
             in (align_ptr, m\<lparr>bytes := store32 (align_ptr - 4) ptr (bytes m)\<rparr>)
           else (ptr, m))
         (rt_malloc align_size m))"

definition rt_free_align :: "u32 \<Rightarrow> small_mem \<Rightarrow> small_mem" where
  "rt_free_align ptr m = (if ptr = RT_NULL then m else rt_free (load32 (bytes m) (ptr - 4)) m)"

definition rt_strdup :: "u32 \<Rightarrow> small_mem \<Rightarrow> (u32 \<times> small_mem) option" where
  "rt_strdup s m =
     Option.bind (rt_strlen s (bytes m)) (\<lambda>n.
       let len = n + 1
       in map_option (\<lambda>(tmp, m). if tmp = RT_NULL then (RT_NULL, m)
            else (tmp, m\<lparr>bytes := snd (rt_memcpy tmp s len (bytes m))\<rparr>)) (rt_malloc len m))"


section \<open>Words of the heap, by their offset\<close>

lemma sizes [simp]: "SIZEOF_STRUCT_MEM = 16" "MIN_SIZE_ALIGNED = 16" "RT_NULL = 0" "MIN_SIZE = 12"
  by (simp_all add: SIZEOF_STRUCT_MEM_def MIN_SIZE_ALIGNED_def RT_ALIGN_def sizeof_item_def MIN_SIZE_def RT_NULL_def)

abbreviation at :: "small_mem \<Rightarrow> nat \<Rightarrow> u32" where "at m i \<equiv> heap_ptr m + of_nat i"

definition ld :: "small_mem \<Rightarrow> nat \<Rightarrow> u32" where "ld m i = load32 (bytes m) (at m i)"

definition st :: "nat \<Rightarrow> u32 \<Rightarrow> small_mem \<Rightarrow> small_mem" where "st i v m = m\<lparr>bytes := store32 (at m i) v (bytes m)\<rparr>"

lemma item_at:
  assumes "heap_ptr m = h"
  shows "pool_ptr m (h + of_nat i) = ld m i" "item_next m (h + of_nat i) = ld m (i + 4)" "item_prev m (h + of_nat i) = ld m (i + 8)"
    "set_pool_ptr (h + of_nat i) v m = st i v m" "set_next (h + of_nat i) v m = st (i + 4) v m"
    "set_prev (h + of_nat i) v m = st (i + 8) v m"
  unfolding assms [symmetric] by (simp_all add: pool_ptr_def item_next_def item_prev_def set_pool_ptr_def set_next_def set_prev_def ld_def st_def add.assoc)

lemma st_fields [simp]:
  "obj (st i v m) = obj m" "address (st i v m) = address m" "total (st i v m) = total m" "used (st i v m) = used m"
  "max_used (st i v m) = max_used m" "heap_ptr (st i v m) = heap_ptr m" "heap_end (st i v m) = heap_end m"
  "lfree (st i v m) = lfree m" "mem_size_aligned (st i v m) = mem_size_aligned m" "mem_assert (st i v m) = mem_assert m"
  by (simp_all add: st_def)

lemma ld_fields [simp]:
  "ld (m\<lparr>used := x\<rparr>) i = ld m i" "ld (m\<lparr>max_used := x\<rparr>) i = ld m i" "ld (m\<lparr>lfree := x\<rparr>) i = ld m i"
  "ld (m\<lparr>mem_assert := b\<rparr>) i = ld m i"
  by (simp_all add: ld_def)

lemma load32_store32 [simp]: "load32 (store32 a v m) a = v"
proof (rule bit_word_eqI)
  fix n assume "n < LENGTH(32)"
  then show "bit (load32 (store32 a v m) a) n \<longleftrightarrow> bit v n"
    by (cases "n < 8"; cases "n < 16"; cases "n < 24") (auto simp: load32_def store32_def word_apart bit_simps)
qed

lemma store32_other: "4 \<le> unat (x - a) \<Longrightarrow> store32 a v m x = m x"
  using in_word [of x a] by (auto simp: store32_def)

lemma unat_offsets: "i < 4294967296 \<Longrightarrow> j < 4294967296 \<Longrightarrow>
    unat (of_nat i - of_nat j :: u32) = (if j \<le> i then i - j else i + 4294967296 - j)"
  by (simp add: unat_sub_u32 unat_of_nat_u32)

lemma at_diff: "at m i + x - (at m j + y) = of_nat i - of_nat j + (x - y)" "at m i - at m j = of_nat i - of_nat j"
  "at m i + x - at m j = of_nat i - of_nat j + x"
  by simp_all

lemma byte_st: "i < 4294967292 \<Longrightarrow> j < 4294967296 \<Longrightarrow> j < i \<or> i + 4 \<le> j \<Longrightarrow> bytes (st i v m) (at m j) = bytes m (at m j)"
  unfolding st_def by (auto simp: at_diff(2) unat_offsets intro!: store32_other)

lemma ld_st_same [simp]: "ld (st i v m) i = v"
  by (simp add: ld_def st_def)

lemma ld_bytes: "(\<And>k. k < 4 \<Longrightarrow> bytes m' (at m (i + k)) = bytes m (at m (i + k))) \<Longrightarrow> heap_ptr m' = heap_ptr m \<Longrightarrow> ld m' i = ld m i"
proof -
  assume b: "\<And>k. k < 4 \<Longrightarrow> bytes m' (at m (i + k)) = bytes m (at m (i + k))" and h: "heap_ptr m' = heap_ptr m"
  show ?thesis using b [of 0] b [of 1] b [of 2] b [of 3] by (simp add: ld_def load32_def h ac_simps)
qed

lemma ld_st_other [simp]:
  assumes "i + 4 \<le> j \<or> j + 4 \<le> i" and "i < 4294967292" and "j < 4294967292"
  shows "ld (st i v m) j = ld m j"
  by (rule ld_bytes) (use assms in \<open>auto intro!: byte_st simp del: of_nat_add\<close>)

section \<open>Blocks\<close>

text \<open>A heap as the sequence of its blocks: used or free, and how many bytes.\<close>

type_synonym blocks = "(bool \<times> nat) list"

primrec span :: "blocks \<Rightarrow> nat" where
  "span [] = 0"
| "span (b # bs) = 16 + snd b + span bs"

lemma span_append [simp]: "span (xs @ ys) = span xs + span ys"
  by (induction xs) simp_all

text \<open>The offset of the last item of a sequence that begins at \<open>k\<close>; \<open>p\<close> if there is none.\<close>

primrec last_item :: "nat \<Rightarrow> nat \<Rightarrow> blocks \<Rightarrow> nat" where
  "last_item p k [] = p"
| "last_item p k (b # bs) = last_item k (k + 16 + snd b) bs"

lemma last_item_append [simp]: "last_item p k (xs @ ys) = last_item (last_item p k xs) (k + span xs) ys"
  by (induction xs arbitrary: p k) (simp_all add: add.assoc)

definition tag :: "small_mem \<Rightarrow> bool \<Rightarrow> u32" where
  "tag m u = (if u then MEM_USED m else MEM_FREED m)"

text \<open>The items from offset \<open>k\<close> on are those of the blocks; \<open>p\<close> is the item before.\<close>

primrec seg :: "small_mem \<Rightarrow> nat \<Rightarrow> nat \<Rightarrow> blocks \<Rightarrow> bool" where
  "seg m p k [] \<longleftrightarrow> True"
| "seg m p k (b # bs) \<longleftrightarrow>
     ld m k = tag m (fst b) \<and> ld m (k + 4) = of_nat (k + 16 + snd b) \<and> ld m (k + 8) = of_nat p \<and>
     seg m k (k + 16 + snd b) bs"

lemma seg_append: "seg m p k (xs @ ys) \<longleftrightarrow> seg m p k xs \<and> seg m (last_item p k xs) (k + span xs) ys"
  by (induction xs arbitrary: p k) (simp_all add: add.assoc)

lemma tag_fields: "obj m' = obj m \<Longrightarrow> tag m' = tag m"
  by (simp add: tag_def MEM_USED_def MEM_FREED_def fun_eq_iff)

lemma tag_st [simp]: "tag (st i v m) = tag m" "MEM_USED (st i v m) = MEM_USED m" "MEM_FREED (st i v m) = MEM_FREED m"
  by (rule tag_fields; simp) (simp_all add: MEM_USED_def MEM_FREED_def)

lemma seg_frame:
  assumes "\<And>i. k \<le> i \<Longrightarrow> i + 4 \<le> k + span bs \<Longrightarrow> ld m' i = ld m i" and "obj m' = obj m" and "seg m p k bs"
  shows "seg m' p k bs"
  using assms(1,3)
proof (induction bs arbitrary: p k)
  case (Cons b bs)
  have "seg m' k (k + 16 + snd b) bs" using Cons.prems by (intro Cons.IH) auto
  moreover have "ld m' k = ld m k" "ld m' (k + 4) = ld m (k + 4)" "ld m' (k + 8) = ld m (k + 8)"
    by (rule Cons.prems(1); simp)+
  ultimately show ?case using Cons.prems(2) tag_fields [OF assms(2)] by simp
qed simp

lemma seg_st [simp]: "i + 4 \<le> k \<or> k + span bs \<le> i \<Longrightarrow> i < 4294967292 \<Longrightarrow> k + span bs \<le> 4294967292 \<Longrightarrow>
    seg (st i v m) p k bs \<longleftrightarrow> seg m p k bs"
  by (auto elim!: seg_frame [rotated 2])

lemma seg_fields [simp]:
  "seg (m\<lparr>used := x\<rparr>) p k bs = seg m p k bs" "seg (m\<lparr>max_used := x\<rparr>) p k bs = seg m p k bs"
  "seg (m\<lparr>lfree := x\<rparr>) p k bs = seg m p k bs" "seg (m\<lparr>mem_assert := a\<rparr>) p k bs = seg m p k bs"
  by (auto elim!: seg_frame [rotated 2])

lemma is_used:
  "pool_ptr m mem = tag m u \<Longrightarrow> MEM_ISUSED m mem \<longleftrightarrow> u"
proof -
  have "((x AND MEM_MASK) OR 1) AND NOT MEM_MASK = 1" "((x AND MEM_MASK) OR 0) AND NOT MEM_MASK = 0" for x
    by (auto simp: MEM_MASK_def bit_simps intro!: bit_word_eqI)
  then show "pool_ptr m mem = tag m u \<Longrightarrow> MEM_ISUSED m mem \<longleftrightarrow> u"
    by (simp add: MEM_ISUSED_def tag_def MEM_USED_def MEM_FREED_def)
qed

lemma pool_of:
  assumes "obj m AND MEM_MASK = obj m" and "pool_ptr m mem = tag m u"
  shows "MEM_POOL m mem = obj m"
proof -
  have "((x AND MEM_MASK) OR 1) AND MEM_MASK = x AND MEM_MASK" "((x AND MEM_MASK) OR 0) AND MEM_MASK = x AND MEM_MASK" for x
    by (auto simp: MEM_MASK_def bit_simps intro!: bit_word_eqI)
  from this [of "obj m"] show ?thesis
    unfolding MEM_POOL_def assms(2) tag_def MEM_USED_def MEM_FREED_def assms(1) by simp
qed


text \<open>Numbers that fit compare as words do.\<close>

lemma of_nat_u32 [simp]:
  assumes "a < 4294967296" and "b < 4294967296"
  shows "(of_nat a :: u32) \<le> of_nat b \<longleftrightarrow> a \<le> b" "(of_nat a :: u32) < of_nat b \<longleftrightarrow> a < b" "(of_nat a :: u32) = of_nat b \<longleftrightarrow> a = b"
  using assms by (simp_all add: word_le_nat_alt word_less_nat_alt word_unat_eq_iff unat_of_nat_u32)

lemma at_order:
  assumes "unat (heap_ptr m) + a < 4294967296" and "unat (heap_ptr m) + b < 4294967296"
  shows "at m a < at m b \<longleftrightarrow> a < b" "at m a \<le> at m b \<longleftrightarrow> a \<le> b" "at m a = at m b \<longleftrightarrow> a = b"
proof -
  have "unat (at m a) = unat (heap_ptr m) + a" "unat (at m b) = unat (heap_ptr m) + b"
    using assms by (simp_all add: unat_add_u32 unat_of_nat_u32)
  then show "at m a < at m b \<longleftrightarrow> a < b" "at m a \<le> at m b \<longleftrightarrow> a \<le> b" "at m a = at m b \<longleftrightarrow> a = b"
    by (simp_all add: word_le_nat_alt word_less_nat_alt word_unat_eq_iff)
qed

lemma unat_at: "unat (heap_ptr m) + a < 4294967296 \<Longrightarrow> unat (at m a) = unat (heap_ptr m) + a"
  by (simp add: unat_add_u32 unat_of_nat_u32)

text \<open>The items of the object are those of the blocks \<open>bs\<close>.\<close>

definition items_ok :: "small_mem \<Rightarrow> blocks \<Rightarrow> bool" where
  "items_ok m bs \<longleftrightarrow>
     bs \<noteq> [] \<and> unat (heap_ptr m) + span bs + 16 < 4294967296 \<and> 8 dvd unat (heap_ptr m) \<and> obj m AND MEM_MASK = obj m \<and>
     heap_end m = at m (span bs) \<and> mem_size_aligned m = of_nat (span bs - 16) \<and>
     seg m 0 0 bs \<and> ld m (span bs) = MEM_USED m \<and> (\<forall>b\<in>set bs. 8 dvd snd b)"

text \<open>\<open>m'\<close> differs from \<open>m\<close> at most in the lowest free item, the counters, and the bytes at the offsets \<open>I\<close>.\<close>

definition touches :: "small_mem \<Rightarrow> small_mem \<Rightarrow> nat set \<Rightarrow> bool" where
  "touches m m' I \<longleftrightarrow>
     obj m' = obj m \<and> heap_ptr m' = heap_ptr m \<and> heap_end m' = heap_end m \<and> mem_size_aligned m' = mem_size_aligned m \<and>
     address m' = address m \<and> total m' = total m \<and>
     (\<forall>j<4294967296. j \<notin> I \<longrightarrow> bytes m' (at m j) = bytes m (at m j))"

lemma touches_refl [simp]: "touches m m I"
  by (simp add: touches_def)

lemma touches_fields [simp]:
  "touches m (m'\<lparr>used := x\<rparr>) I = touches m m' I" "touches m (m'\<lparr>max_used := x\<rparr>) I = touches m m' I"
  "touches m (m'\<lparr>lfree := x\<rparr>) I = touches m m' I" "touches m (m'\<lparr>mem_assert := b\<rparr>) I = touches m m' I"
  by (simp_all add: touches_def)

lemma touches_st: "touches m m' I \<Longrightarrow> i < 4294967292 \<Longrightarrow> {i..<i + 4} \<subseteq> I \<Longrightarrow> touches m (st i v m') I"
  unfolding touches_def
proof (elim conjE, intro conjI allI impI)
  fix j assume a: "i < 4294967292" "{i..<i + 4} \<subseteq> I" "heap_ptr m' = heap_ptr m" "j < 4294967296" "j \<notin> I"
    "\<forall>j<4294967296. j \<notin> I \<longrightarrow> bytes m' (at m j) = bytes m (at m j)"
  then have "j < i \<or> i + 4 \<le> j" by (auto simp: subset_iff) (meson atLeastLessThan_iff not_le)
  then have "bytes (st i v m') (at m' j) = bytes m' (at m' j)" using a by (intro byte_st) auto
  then show "bytes (st i v m') (at m j) = bytes m (at m j)" using a by simp
qed simp_all

lemma touches_trans: "touches m m1 I \<Longrightarrow> touches m1 m2 I \<Longrightarrow> touches m m2 I"
  by (simp add: touches_def)

lemma touches_mono: "touches m m' I \<Longrightarrow> I \<subseteq> J \<Longrightarrow> touches m m' J"
  by (auto simp: touches_def)

text \<open>Another tag for one block.\<close>

lemma seg_relink:
  "seg m p k bs \<Longrightarrow> k + span bs < 4294967280 \<Longrightarrow> bs \<noteq> [] \<Longrightarrow> seg (st (k + 8) (of_nat q) m) q k bs"
  by (cases bs) simp_all

lemma set_tag:
  assumes "items_ok m (xs @ (u, n) # ys)"
  shows "items_ok (st (span xs) (tag m v) m) (xs @ (v, n) # ys)"
    and "touches m (st (span xs) (tag m v) m) {span xs..<span xs + 4}"
proof -
  have s: "seg m 0 0 xs" "seg m (last_item 0 0 xs) (span xs) ((u, n) # ys)" and b: "span xs + 16 + n + span ys < 4294967280"
    and e: "ld m (span xs + 16 + n + span ys) = MEM_USED m"
    using assms by (simp_all add: items_ok_def seg_append add.assoc)
  have "seg (st (span xs) (tag m v) m) 0 0 (xs @ (v, n) # ys)"
    unfolding seg_append using s b by simp
  moreover have "ld (st (span xs) (tag m v) m) (span xs + 16 + n + span ys) = MEM_USED m" using e b by simp
  ultimately show "items_ok (st (span xs) (tag m v) m) (xs @ (v, n) # ys)"
    using assms by (simp add: items_ok_def add.assoc MEM_USED_def)
  show "touches m (st (span xs) (tag m v) m) {span xs..<span xs + 4}" using b by (intro touches_st) auto
qed


lemma items_ok_change:
  assumes "items_ok m bs" and "touches m m' I" and "seg m' 0 0 bs'" and "ld m' (span bs) = MEM_USED m" and "span bs' = span bs"
    and "bs' \<noteq> []" and "\<forall>b\<in>set bs'. 8 dvd snd b"
  shows "items_ok m' bs'"
proof -
  have "MEM_USED m' = MEM_USED m" using assms(2) by (simp add: touches_def MEM_USED_def)
  then show ?thesis using assms unfolding items_ok_def touches_def by simp
qed

text \<open>A block is split: the second part is free.\<close>

lemma items_okD:
  assumes "items_ok m (xs @ (u, n) # ys)"
  shows "seg m 0 0 xs" "seg m (span xs) (span xs + 16 + n) ys" "ld m (span xs) = tag m u"
    "ld m (span xs + 4) = of_nat (span xs + 16 + n)" "ld m (span xs + 8) = of_nat (last_item 0 0 xs)"
    "unat (heap_ptr m) + (span xs + 16 + n + span ys) + 16 < 4294967296" "8 dvd n"
    "heap_end m = at m (span xs + 16 + n + span ys)" "ld m (span xs + 16 + n + span ys) = MEM_USED m"
    "mem_size_aligned m = of_nat (span xs + n + span ys)" "8 dvd unat (heap_ptr m)" "obj m AND MEM_MASK = obj m"
  using assms by (simp_all add: items_ok_def seg_append add.assoc)

lemma split_block:
  assumes m: "items_ok m (xs @ (u, n) # ys)" and K: "8 dvd K" "K + 16 \<le> n"
  defines "m' \<equiv> alloc_split (of_nat K) (of_nat (span xs)) m"
  shows "items_ok m' (xs @ (u, K) # (False, n - 16 - K) # ys)"
    "touches m m' ({span xs + 4..<span xs + 8} \<union> {span xs + 16 + K..<span xs + 28 + K} \<union> {span xs + 24 + n..<span xs + 28 + n})"
    "lfree m' = lfree m" "used m' = used m" "max_used m' = max_used m" "mem_assert m' = mem_assert m"
proof -
  note d = items_okD [OF m]
  define k where "k = span xs"
  define k2 where "k2 = k + 16 + K"
  define e where "e = k + 16 + n"
  have b: "e + span ys + 16 < 4294967296" "k2 + 16 \<le> e" using d(6) K(2) by (simp_all add: e_def k2_def k_def)
  have k2: "of_nat k + 16 + of_nat K = (of_nat k2 :: u32)" by (simp add: k2_def)
  let ?m1 = "st (k + 4) (of_nat k2) (st (k2 + 8) (of_nat k) (st (k2 + 4) (of_nat e) (st k2 (MEM_FREED m) m)))"
  have ends: "of_nat e \<noteq> mem_size_aligned m + 16 \<longleftrightarrow> ys \<noteq> []"
  proof -
    have "mem_size_aligned m + 16 = of_nat (e + span ys)" using d(10) by (simp add: e_def k_def)
    then show ?thesis using b by (cases ys) (simp_all del: of_nat_add)
  qed
  have ld4: "ld m (k + 4) = of_nat e" "ld m k = tag m u" "ld m (k + 8) = of_nat (last_item 0 0 xs)"
    using d(3-5) by (simp_all add: k_def e_def)
  have sx: "span xs = k" by (simp add: k_def)
  have e: "m' = (if ys \<noteq> [] then st (e + 8) (of_nat k2) ?m1 else ?m1)"
    unfolding m'_def alloc_split_def Let_def sizes sx k2 using b k2_def
    by (simp add: item_at ld4 ends del: of_nat_add)
  have kb: "k + 16 \<le> k2" "e \<le> 4294967279" using b by (simp_all add: k2_def)
  have fields: "obj m' = obj m" "heap_ptr m' = heap_ptr m" "heap_end m' = heap_end m" "mem_size_aligned m' = mem_size_aligned m"
    "lfree m' = lfree m" "used m' = used m" "max_used m' = max_used m" "mem_assert m' = mem_assert m" by (simp_all add: e)
  have l: "ld m' k = tag m u" "ld m' (k + 4) = of_nat k2" "ld m' (k + 8) = of_nat (last_item 0 0 xs)"
    "ld m' k2 = MEM_FREED m" "ld m' (k2 + 4) = of_nat e" "ld m' (k2 + 8) = of_nat k"
    using ld4 b kb by (simp_all add: e del: of_nat_add)
  have s1: "seg ?m1 0 0 xs" and s2: "seg ?m1 k e ys" using d(1,2) b kb by (simp_all add: sx e_def)
  have s2': "seg m' k2 e ys" unfolding e using seg_relink [OF s2, of k2] b by auto
  have s1': "seg m' 0 0 xs" unfolding e using s1 b kb by (simp add: sx)
  have end': "ld m' (e + span ys) = MEM_USED m" unfolding e using d(9) b kb by (cases ys) (simp_all add: e_def sx)
  have tags: "tag m' = tag m" "MEM_USED m' = MEM_USED m" by (simp_all add: e)
  have e2: "k2 + 16 + (n - 16 - K) = e" using K(2) by (simp add: k2_def e_def)
  have "seg m' 0 0 (xs @ (u, K) # (False, n - 16 - K) # ys)"
    unfolding seg_append using s1' s2' l tags by (simp add: sx tag_def e2 flip: k2_def del: of_nat_add diff_diff_left)
  moreover have "span (xs @ (u, K) # (False, n - 16 - K) # ys) = span (xs @ (u, n) # ys)" using K(2) by simp
  moreover have "ld m' (span (xs @ (u, n) # ys)) = MEM_USED m" using end' by (simp add: sx e_def add.assoc)
  moreover have "\<forall>b\<in>set (xs @ (u, K) # (False, n - 16 - K) # ys). 8 dvd snd b"
    using m K(1) d(7) by (auto simp: items_ok_def intro!: dvd_diff_nat)
  moreover show t: "touches m m' ({span xs + 4..<span xs + 8} \<union> {span xs + 16 + K..<span xs + 28 + K} \<union> {span xs + 24 + n..<span xs + 28 + n})"
    unfolding e using b kb by (auto intro!: touches_st simp: sx k2_def e_def)
  ultimately show "items_ok m' (xs @ (u, K) # (False, n - 16 - K) # ys)"
    by (intro items_ok_change [OF m t]) auto
  show "lfree m' = lfree m" "used m' = used m" "max_used m' = max_used m" "mem_assert m' = mem_assert m"
    by (simp_all add: e)
qed


text \<open>Two neighbours become one.\<close>

definition merge :: "nat \<Rightarrow> nat \<Rightarrow> nat \<Rightarrow> small_mem \<Rightarrow> small_mem" where
  "merge k e f m = st (f + 8) (of_nat k) (st (k + 4) (of_nat f) (st e 0 m))"

lemma merge_fields [simp]:
  "lfree (merge k e f m) = lfree m" "used (merge k e f m) = used m" "max_used (merge k e f m) = max_used m"
  "mem_assert (merge k e f m) = mem_assert m" "heap_ptr (merge k e f m) = heap_ptr m" "heap_end (merge k e f m) = heap_end m"
  "obj (merge k e f m) = obj m" "mem_size_aligned (merge k e f m) = mem_size_aligned m"
  by (simp_all add: merge_def)

lemma st_update [simp]:
  "st i v (m\<lparr>lfree := x\<rparr>) = (st i v m)\<lparr>lfree := x\<rparr>" "st i v (m\<lparr>used := x\<rparr>) = (st i v m)\<lparr>used := x\<rparr>"
  "st i v (m\<lparr>max_used := x\<rparr>) = (st i v m)\<lparr>max_used := x\<rparr>" "st i v (m\<lparr>mem_assert := b\<rparr>) = (st i v m)\<lparr>mem_assert := b\<rparr>"
  by (simp_all add: st_def)

lemma items_ok_fields [simp]:
  "items_ok (m\<lparr>lfree := x\<rparr>) bs = items_ok m bs" "items_ok (m\<lparr>used := x\<rparr>) bs = items_ok m bs"
  "items_ok (m\<lparr>max_used := x\<rparr>) bs = items_ok m bs" "items_ok (m\<lparr>mem_assert := b\<rparr>) bs = items_ok m bs"
  by (simp_all add: items_ok_def MEM_USED_def)

lemma merge_blocks:
  assumes m: "items_ok m (xs @ (u, n) # (v, a) # zs)"
  defines "m' \<equiv> merge (span xs) (span xs + 16 + n) (span xs + 32 + n + a) m"
  shows "items_ok m' (xs @ (u, n + 16 + a) # zs)"
    "touches m m' ({span xs + 4..<span xs + 8} \<union> {span xs + 16 + n..<span xs + 20 + n} \<union>
      {span xs + 40 + n + a..<span xs + 44 + n + a})"
proof -
  note d = items_okD [OF m]
  define k where "k = span xs"
  define e where "e = k + 16 + n"
  define f where "f = e + 16 + a"
  have sx: "span xs = k" "k + 16 + n = e" "k + 32 + n + a = f" by (simp_all add: k_def e_def f_def)
  have fb: "f + span zs + 16 < 4294967296" "e + 16 \<le> f" "k + 16 \<le> e" using d(6) by (simp_all add: f_def e_def k_def)
  have h: "seg m e f zs" "seg m 0 0 xs" using d(1,2) by (simp_all add: e_def k_def f_def)
  let ?m1 = "st (k + 4) (of_nat f) (st e 0 m)"
  have e: "m' = st (f + 8) (of_nat k) ?m1" unfolding m'_def merge_def sx ..
  have l: "ld m' k = tag m u" "ld m' (k + 4) = of_nat f" "ld m' (k + 8) = of_nat (last_item 0 0 xs)"
    using d(3-5) fb by (simp_all add: e sx del: of_nat_add)
  have s1: "seg ?m1 e f zs" "seg ?m1 0 0 xs" using h fb by (simp_all add: sx)
  have f2: "k + 16 + (n + 16 + a) = f" by (simp add: f_def e_def)
  have "seg m' k f zs" unfolding e using seg_relink [OF s1(1), of k] fb by (cases "zs = []") simp_all
  moreover have "seg m' 0 0 xs" unfolding e using s1(2) fb by (simp add: sx)
  moreover have tags: "tag m' = tag m" by (simp add: e)
  ultimately have "seg m' 0 0 (xs @ (u, n + 16 + a) # zs)"
    unfolding seg_append using l by (simp add: sx tags f2 del: of_nat_add)
  moreover have "ld m' (span (xs @ (u, n) # (v, a) # zs)) = MEM_USED m" unfolding e using d(9) fb
    by (cases zs) (simp_all add: f_def e_def sx add.assoc)
  moreover have "\<forall>b\<in>set (xs @ (u, n + 16 + a) # zs). 8 dvd snd b" using m by (auto simp: items_ok_def intro!: dvd_add)
  moreover show t: "touches m m' ({span xs + 4..<span xs + 8} \<union> {span xs + 16 + n..<span xs + 20 + n} \<union>
      {span xs + 40 + n + a..<span xs + 44 + n + a})"
  proof -
    have "touches m m' ({k + 4..<k + 8} \<union> {e..<e + 4} \<union> {f + 8..<f + 12})"
      unfolding e using fb by (auto intro!: touches_st)
    moreover have "{k + 4..<k + 8} \<union> {e..<e + 4} \<union> {f + 8..<f + 12} =
        {k + 4..<k + 8} \<union> {k + 16 + n..<k + 20 + n} \<union> {k + 40 + n + a..<k + 44 + n + a}" by (auto simp: f_def e_def)
    ultimately show ?thesis by (simp only: k_def)
  qed
  ultimately show "items_ok m' (xs @ (u, n + 16 + a) # zs)"
    by (intro items_ok_change [OF m t]) auto
qed

lemma last_item_snoc [simp]: "last_item p k (xs @ [b]) = k + span xs"
  by simp

text \<open>Where the forward half of \<open>plug_holes\<close> does something, and where the backward half does.\<close>

lemma plug_forward_merges:
  assumes m: "items_ok m (xs @ (u, n) # ys)"
  shows "plug_forward (at m (span xs)) m =
    (case ys of
       (False, a) # zs \<Rightarrow>
         merge (span xs) (span xs + 16 + n) (span xs + 32 + n + a)
           (m\<lparr>lfree := if lfree m = at m (span xs + 16 + n) then at m (span xs) else lfree m\<rparr>)
     | _ \<Rightarrow> m)"
proof -
  note d = items_okD [OF m]
  define k where "k = span xs"
  define e where "e = k + 16 + n"
  have sx: "span xs = k" "k + 16 + n = e" by (simp_all add: k_def e_def)
  have b: "unat (heap_ptr m) + (e + span ys) + 16 < 4294967296" "k + 16 \<le> e" using d(6) by (simp_all add: e_def k_def)
  have nm: "heap_ptr m + item_next m (at m k) = at m e" using d(4) by (simp add: item_at e_def k_def)
  have ne: "at m k \<noteq> at m e" using b by (subst at_order) simp_all
  have he: "heap_end m = at m (e + span ys)" using d(8) by (simp add: e_def k_def)
  show ?thesis
  proof (cases ys)
    case Nil
    then have "ld m e = MEM_USED m" using d(9) by (simp add: e_def k_def)
    then have "MEM_ISUSED m (at m e)" using is_used [of m "at m e" True] by (simp add: item_at tag_def)
    then show ?thesis unfolding plug_forward_def sx Let_def nm using Nil by simp
  next
    case (Cons c zs)
    obtain v a where c: "c = (v, a)" by fastforce
    have h: "ld m e = tag m v" "ld m (e + 4) = of_nat (e + 16 + a)"
      using d(2) by (simp_all add: Cons c e_def k_def)
    have us: "MEM_ISUSED m (at m e) \<longleftrightarrow> v" using is_used [of m "at m e" v] h(1) by (simp add: item_at)
    have ns: "at m e \<noteq> heap_end m" unfolding he using b by (subst at_order) (simp_all add: Cons)
    have f: "k + 32 + n + a = e + 16 + a" by (simp add: e_def)
    have km: "at m k - heap_ptr m = of_nat k" by simp
    show ?thesis
    proof (cases v)
      case False
      let ?m0 = "m\<lparr>lfree := if lfree m = at m e then at m k else lfree m\<rparr>"
      have m0: "(if lfree m = at m e then m\<lparr>lfree := at m k\<rparr> else m) = ?m0" by simp
      have "plug_forward (at m k) m = merge k e (e + 16 + a) ?m0"
        unfolding plug_forward_def Let_def nm m0 merge_def using ne us ns False b h(2)
        by (simp add: item_at km del: of_nat_add)
      then show ?thesis using False by (simp only: Cons c sx f list.case prod.case bool.case)
    next
      case True
      then have "plug_forward (at m k) m = m" unfolding plug_forward_def Let_def nm using us by simp
      then show ?thesis using True by (simp only: Cons c sx list.case prod.case bool.case)
    qed
  qed
qed

lemma plug_backward_merges:
  assumes m: "items_ok m (xs @ (u, n) # ys)"
  shows "plug_backward (at m (span xs)) m =
    (case rev xs of
       (False, a) # ws \<Rightarrow>
         merge (span (rev ws)) (span xs) (span xs + 16 + n)
           (m\<lparr>lfree := if lfree m = at m (span xs) then at m (span (rev ws)) else lfree m\<rparr>)
     | _ \<Rightarrow> m)"
proof -
  note d = items_okD [OF m]
  define k where "k = span xs"
  have sx: "span xs = k" by (simp add: k_def)
  have b: "unat (heap_ptr m) + (k + 16 + n) + 16 < 4294967296" using d(6) by (simp add: k_def)
  have pm: "heap_ptr m + item_prev m (at m k) = at m (last_item 0 0 xs)" using d(5) by (simp add: item_at k_def)
  show ?thesis
  proof (cases xs rule: rev_cases)
    case Nil
    then show ?thesis unfolding plug_backward_def sx Let_def pm by (simp add: k_def)
  next
    case (snoc ws c)
    obtain v a where c: "c = (v, a)" by fastforce
    define p where "p = span ws"
    have r: "rev xs = (v, a) # rev ws" by (simp add: snoc c)
    have kp: "k = p + 16 + a" by (simp add: k_def snoc c p_def)
    have pm2: "heap_ptr m + item_prev m (at m k) = at m p" unfolding pm by (simp add: snoc p_def)
    have h: "ld m p = tag m v" using d(1) by (simp add: snoc c seg_append p_def)
    have us: "MEM_ISUSED m (at m p) \<longleftrightarrow> v" using is_used [of m "at m p" v] h by (simp add: item_at)
    have ne: "at m p \<noteq> at m k" using b kp by (subst at_order) simp_all
    have nx: "ld m (k + 4) = of_nat (k + 16 + n)" using d(4) by (simp add: sx)
    have pmm: "at m p - heap_ptr m = of_nat p" by simp
    show ?thesis
    proof (cases v)
      case False
      let ?m0 = "m\<lparr>lfree := if lfree m = at m k then at m p else lfree m\<rparr>"
      have m0: "(if lfree m = at m k then m\<lparr>lfree := at m p\<rparr> else m) = ?m0" by simp
      have "plug_backward (at m k) m = merge p k (k + 16 + n) ?m0"
        unfolding plug_backward_def Let_def pm2 m0 merge_def using ne us False b nx kp
        by (simp add: item_at pmm del: of_nat_add)
      then show ?thesis using False by (simp only: r sx rev_rev_ident p_def list.case prod.case bool.case)
    next
      case True
      then have "plug_backward (at m k) m = m" unfolding plug_backward_def Let_def pm2 using us by simp
      then show ?thesis using True by (simp only: r sx list.case prod.case bool.case)
    qed
  qed
qed


section \<open>The heap as a list of blocks\<close>

text \<open>The offset of the first free block (or of the end), and what the used ones take.\<close>

primrec lowest :: "nat \<Rightarrow> blocks \<Rightarrow> nat" where
  "lowest k [] = k"
| "lowest k (b # bs) = (if fst b then lowest (k + 16 + snd b) bs else k)"

primrec usage :: "blocks \<Rightarrow> nat" where
  "usage [] = 0"
| "usage (b # bs) = (if fst b then 16 + snd b else 0) + usage bs"

text \<open>No two neighbours are free.\<close>

abbreviation tidy :: "blocks \<Rightarrow> bool" where "tidy \<equiv> successively (\<lambda>b c. fst b \<or> fst c)"

definition heap_ok :: "small_mem \<Rightarrow> blocks \<Rightarrow> bool" where
  "heap_ok m bs \<longleftrightarrow>
     items_ok m bs \<and> tidy bs \<and> (\<forall>b\<in>set bs. fst b \<longrightarrow> 8 \<le> snd b) \<and> lfree m = at m (lowest 0 bs) \<and> used m = of_nat (usage bs) \<and> used m \<le> max_used m \<and>
     \<not> mem_assert m"

text \<open>The abstract operations: the first free block that is large enough, and what becomes of it.\<close>

primrec first_fit :: "nat \<Rightarrow> nat \<Rightarrow> blocks \<Rightarrow> nat option" where
  "first_fit K k [] = None"
| "first_fit K k (b # bs) = (if \<not> fst b \<and> K \<le> snd b then Some k else first_fit K (k + 16 + snd b) bs)"

definition carve :: "nat \<Rightarrow> nat \<Rightarrow> blocks" where
  "carve K n = (if K + 32 \<le> n then [(True, K), (False, n - 16 - K)] else [(True, n)])"

primrec take_block :: "nat \<Rightarrow> blocks \<Rightarrow> blocks" where
  "take_block K [] = []"
| "take_block K (b # bs) = (if \<not> fst b \<and> K \<le> snd b then carve K (snd b) @ bs else b # take_block K bs)"

lemma usage_append [simp]: "usage (xs @ ys) = usage xs + usage ys"
  by (induction xs) simp_all

lemma usage_span: "usage bs \<le> span bs"
  by (induction bs) auto

lemma lowest_append:
  "lowest k (xs @ ys) = (if list_all fst xs then lowest (k + span xs) ys else lowest k xs)"
  by (induction xs arbitrary: k) (simp_all add: add.assoc)

lemma lowest_le: "k \<le> lowest k bs" "lowest k bs \<le> k + span bs"
proof -
  show "k \<le> lowest k bs"
  proof (induction bs arbitrary: k)
    case (Cons b bs)
    show ?case using Cons.IH [of "k + 16 + snd b"] by simp
  qed simp
  show "lowest k bs \<le> k + span bs"
  proof (induction bs arbitrary: k)
    case (Cons b bs)
    show ?case using Cons.IH [of "k + 16 + snd b"] by simp
  qed simp
qed

lemma first_fit_split:
  "first_fit K k bs = Some j \<Longrightarrow>
    \<exists>xs n ys. bs = xs @ (False, n) # ys \<and> j = k + span xs \<and> K \<le> n \<and> take_block K bs = xs @ carve K n @ ys"
proof (induction bs arbitrary: k)
  case (Cons b bs)
  show ?case
  proof (cases "\<not> fst b \<and> K \<le> snd b")
    case True
    then show ?thesis using Cons.prems by (intro exI [of _ "[]"] exI [of _ "snd b"] exI [of _ bs]) (cases b; simp)
  next
    case False
    then have "first_fit K (k + 16 + snd b) bs = Some j" using Cons.prems by auto
    from Cons.IH [OF this] obtain xs n ys where "bs = xs @ (False, n) # ys" "j = k + 16 + snd b + span xs" "K \<le> n"
      "take_block K bs = xs @ carve K n @ ys" by blast
    then show ?thesis using False by (intro exI [of _ "b # xs"] exI [of _ n] exI [of _ ys]) auto
  qed
qed simp

lemma first_fit_none: "first_fit K k bs = None \<longleftrightarrow> (\<forall>b\<in>set bs. fst b \<or> snd b < K)"
  by (induction bs arbitrary: k) auto

lemma span_member: "b \<in> set bs \<Longrightarrow> 16 + snd b \<le> span bs"
  by (induction bs) auto

text \<open>The loop of the allocation finds the first fit.\<close>

lemma alloc_search_fits:
  assumes "seg m p k bs" and "mem_size_aligned m = of_nat (k + span bs - 16)" and "k + span bs < 4294967280"
    and "0 < K" and "K \<le> k + span bs - 16"
  shows "alloc_search (of_nat K) (of_nat k) m = Some (map_option of_nat (first_fit K k bs))"
  using assms(1-3,5)
proof (induction bs arbitrary: p k)
  case Nil
  have "mem_size_aligned m - of_nat K = of_nat (k - 16 - K)" using Nil.prems(2,4) of_nat_diff [of K "k - 16", where 'a = u32] by simp
  moreover have "\<not> (of_nat k :: u32) \<le> of_nat (k - 16 - K)"
    by (subst of_nat_u32) (use Nil.prems assms(4) in simp_all)
  ultimately show ?case by (subst alloc_search.simps) (simp only: if_False first_fit.simps option.map)
next
  case (Cons b bs)
  let ?E = "k + span (b # bs)"
  have d: "mem_size_aligned m - of_nat K = of_nat (?E - 16 - K)"
    unfolding Cons.prems(2) by (rule of_nat_diff [OF Cons.prems(4), symmetric])
  have go: "of_nat k \<le> mem_size_aligned m - of_nat K \<longleftrightarrow> k \<le> ?E - 16 - K" unfolding d using Cons.prems(3) by (intro of_nat_u32) simp_all
  have us: "MEM_ISUSED m (at m k) \<longleftrightarrow> fst b" using is_used [of m "at m k" "fst b"] Cons.prems(1) by (simp add: item_at)
  have nx: "item_next m (at m k) = of_nat (k + 16 + snd b)" using Cons.prems(1) by (simp add: item_at)
  have sz: "of_nat K \<le> item_next m (at m k) - (of_nat k + SIZEOF_STRUCT_MEM) \<longleftrightarrow> K \<le> snd b"
  proof -
    have "item_next m (at m k) - (of_nat k + SIZEOF_STRUCT_MEM) = of_nat (snd b)" unfolding nx by simp
    then show ?thesis using Cons.prems(3,4) by simp
  qed
  show ?case
  proof (cases "k \<le> ?E - 16 - K")
    case True
    show ?thesis
    proof (cases "\<not> fst b \<and> K \<le> snd b")
      case True
      then show ?thesis using \<open>k \<le> ?E - 16 - K\<close> by (subst alloc_search.simps) (simp only: Let_def go us sz if_True first_fit.simps option.map simp_thms)
    next
      case False
      have "alloc_search (of_nat K) (of_nat (k + 16 + snd b)) m = Some (map_option of_nat (first_fit K (k + 16 + snd b) bs))"
        using Cons.prems by (intro Cons.IH [where p = k]) (simp_all add: add.assoc)
      then show ?thesis using False \<open>k \<le> ?E - 16 - K\<close>
        by (subst alloc_search.simps) (simp only: Let_def go us sz sz [unfolded nx] nx if_True if_False first_fit.simps simp_thms)
    qed
  next
    case False
    then have "first_fit K k (b # bs) = None" using span_member [of _ "b # bs"] unfolding first_fit_none by fastforce
    then show ?thesis using False by (subst alloc_search.simps) (simp only: go if_False option.map)
  qed
qed

text \<open>The loop that moves the lowest free item on stops at the next free one.\<close>

lemma lfree_loop_lowest:
  assumes "seg m p k bs" and "lfree m = at m k" and "heap_end m = at m (k + span bs)" and "ld m (k + span bs) = MEM_USED m"
    and "unat (heap_ptr m) + (k + span bs) < 4294967296"
  shows "lfree_loop m = Some (m\<lparr>lfree := at m (lowest k bs)\<rparr>)"
  using assms
proof (induction bs arbitrary: p k m)
  case Nil
  then show ?case by (subst lfree_loop.simps) simp
next
  case (Cons b bs)
  have us: "MEM_ISUSED m (at m k) \<longleftrightarrow> fst b" using is_used [of m "at m k" "fst b"] Cons.prems(1) by (simp add: item_at)
  have ne: "at m k \<noteq> heap_end m" unfolding Cons.prems(3) using Cons.prems(5) by (subst at_order) simp_all
  show ?case
  proof (cases "fst b")
    case True
    let ?m = "m\<lparr>lfree := at m (k + 16 + snd b)\<rparr>"
    have "heap_ptr m + item_next m (at m k) = at m (k + 16 + snd b)" using Cons.prems(1) by (simp add: item_at)
    then have "lfree_loop m = lfree_loop ?m" using us ne True Cons.prems(2) by (subst lfree_loop.simps) simp
    also have "\<dots> = Some (?m\<lparr>lfree := at ?m (lowest (k + 16 + snd b) bs)\<rparr>)"
      using Cons.prems by (intro Cons.IH [where p = k]) (simp_all add: add.assoc MEM_USED_def)
    finally show ?thesis using True by simp
  next
    case False
    then show ?thesis using us Cons.prems(2) by (subst lfree_loop.simps) simp
  qed
qed


text \<open>Where two blocks of a sequence lie.\<close>

lemma split_cases:
  assumes "xs @ b # ys = us @ c # vs"
  obtains "us = xs" "c = b" "vs = ys" | "span us + 16 + snd c \<le> span xs" | "span xs + 16 + snd b \<le> span us"
proof -
  consider "length us = length xs" | "length us < length xs" | "length xs < length us" by linarith
  then show thesis
  proof cases
    case 1
    then show ?thesis using assms that(1) by simp
  next
    case 2
    then obtain zs where "xs = us @ zs" "zs \<noteq> []" using assms by (auto simp: append_eq_append_conv2)
    then obtain z zs' where "xs = us @ z # zs'" by (cases zs) auto
    then show ?thesis using assms that(2) by auto
  next
    case 3
    then obtain zs where "us = xs @ zs" "zs \<noteq> []" using assms by (auto simp: append_eq_append_conv2)
    then obtain z zs' where "us = xs @ z # zs'" by (cases zs) auto
    then show ?thesis using assms that(3) by auto
  qed
qed

text \<open>The used blocks, with their offsets.\<close>

primrec used_from :: "nat \<Rightarrow> blocks \<Rightarrow> nat \<Rightarrow> nat \<Rightarrow> bool" where
  "used_from j [] k n \<longleftrightarrow> False"
| "used_from j (b # bs) k n \<longleftrightarrow> k = j \<and> b = (True, n) \<or> used_from (j + 16 + snd b) bs k n"

lemma used_from_append [simp]: "used_from j (xs @ ys) k n \<longleftrightarrow> used_from j xs k n \<or> used_from (j + span xs) ys k n"
  by (induction xs arbitrary: j) (auto simp: add.assoc)

lemma used_from_split: "used_from j bs k n \<longleftrightarrow> (\<exists>us vs. bs = us @ (True, n) # vs \<and> k = j + span us)"
proof
  show "used_from j bs k n \<Longrightarrow> \<exists>us vs. bs = us @ (True, n) # vs \<and> k = j + span us"
  proof (induction bs arbitrary: j)
    case (Cons b bs)
    show ?case
    proof (cases "k = j \<and> b = (True, n)")
      case True
      then show ?thesis by (intro exI [of _ "[]"] exI [of _ bs]) simp
    next
      case False
      then have "used_from (j + 16 + snd b) bs k n" using Cons.prems by auto
      from Cons.IH [OF this] obtain us vs where "bs = us @ (True, n) # vs" "k = j + 16 + snd b + span us" by blast
      then show ?thesis by (intro exI [of _ "b # us"] exI [of _ vs]) simp
    qed
  qed simp
qed auto

text \<open>The data of used blocks stay as they are.\<close>

definition same_data :: "small_mem \<Rightarrow> small_mem \<Rightarrow> blocks \<Rightarrow> bool" where
  "same_data m m' bs \<longleftrightarrow>
     heap_ptr m' = heap_ptr m \<and> heap_end m' = heap_end m \<and>
     (\<forall>k n i. used_from 0 bs k n \<longrightarrow> i < n \<longrightarrow> bytes m' (at m (k + 16 + i)) = bytes m (at m (k + 16 + i)))"

lemma same_dataD: "same_data m m' bs \<Longrightarrow> used_from 0 bs k n \<Longrightarrow> i < n \<Longrightarrow>
    bytes m' (at m (k + 16 + i)) = bytes m (at m (k + 16 + i))"
  unfolding same_data_def by blast

lemma same_data_trans:
  assumes "same_data m m1 bs" and "same_data m1 m2 cs" and "\<And>k n. used_from 0 bs k n \<Longrightarrow> used_from 0 cs k n"
  shows "same_data m m2 bs"
proof -
  have h: "heap_ptr m1 = heap_ptr m" using assms(1) by (simp add: same_data_def)
  have "bytes m2 (at m (k + 16 + i)) = bytes m (at m (k + 16 + i))" if "used_from 0 bs k n" "i < n" for k n i
    using same_dataD [OF assms(1) that] same_dataD [OF assms(2) assms(3) [OF that(1)] that(2)] by (simp add: h)
  then show ?thesis using assms(1,2) by (simp add: same_data_def)
qed

lemma same_data_touches:
  assumes "touches m m' I" and "span bs \<le> 4294967296"
    and "\<And>us n vs. bs = us @ (True, n) # vs \<Longrightarrow> I \<inter> {span us + 16..<span us + 16 + n} = {}"
  shows "same_data m m' bs"
  unfolding same_data_def
proof (intro conjI allI impI)
  fix k n i assume "used_from 0 bs k n" and i: "i < n"
  then obtain us vs where b: "bs = us @ (True, n) # vs" "k = span us" by (auto simp: used_from_split)
  have "k + 16 + i \<notin> I" using assms(3) [OF b(1)] i b(2) by auto
  moreover have "k + 16 + i < 4294967296" using assms(2) i by (simp add: b)
  ultimately show "bytes m' (at m (k + 16 + i)) = bytes m (at m (k + 16 + i))"
    using assms(1) unfolding touches_def by blast
qed (use assms(1) in \<open>simp_all add: touches_def\<close>)

section \<open>Rounding\<close>

definition round8 :: "nat \<Rightarrow> nat" where "round8 n = (n + 7) div 8 * 8"

lemma and_not_7: "unat (x AND - 8 :: u32) = unat x div 8 * 8"
proof -
  have tb: "take_bit 32 (unat x) = unat x" using unat_u32_less [of x] by (simp add: take_bit_nat_eq_self)
  have "(- 8 :: u32) = NOT 7" by simp
  moreover   have "(7 :: u32) = mask 3" by (simp add: mask_eq_exp_minus_1)
  moreover have "x AND NOT (mask 3) = push_bit 3 (drop_bit 3 x)"
    by (rule bit_word_eqI) (auto simp: bit_simps simp del: push_bit_numeral)
  moreover have "unat (push_bit 3 (drop_bit 3 x)) = take_bit 32 (push_bit 3 (drop_bit 3 (unat x)))"
    by (simp add: unsigned_push_bit_eq unsigned_drop_bit_eq take_bit_push_bit tb)
  moreover have "push_bit 3 (drop_bit 3 (unat x)) = unat x div 8 * 8" by (simp add: push_bit_eq_mult drop_bit_eq_div)
  moreover have "unat x div 8 * 8 < 2 ^ 32"
    using unat_u32_less [of x] div_times_less_eq_dividend [of "unat x" 8] by (simp del: div_times_less_eq_dividend)
  ultimately show ?thesis by (simp add: take_bit_nat_eq_self)
qed

lemma and_7: "x AND 7 = 0 \<longleftrightarrow> 8 dvd unat (x :: u32)"
proof -
  have "(7 :: u32) = mask 3" by (simp add: mask_eq_exp_minus_1)
  then have "x AND 7 = take_bit 3 x" by (simp add: take_bit_eq_mask)
  moreover have "unat (take_bit 3 x) = unat x mod 8" unfolding unsigned_take_bit_eq by (simp add: take_bit_eq_mod)
  ultimately show ?thesis by (metis dvd_eq_mod_eq_0 unat_eq_zero)
qed

lemma RT_ALIGN_round8: "unat x \<le> 4294967288 \<Longrightarrow> unat (RT_ALIGN x 8) = round8 (unat x)"
  by (simp add: RT_ALIGN_def and_not_7 round8_def unat_add_u32)

lemma RT_ALIGN_wraps: "4294967288 < unat x \<Longrightarrow> RT_ALIGN x 8 = 0"
  using unat_u32_less [of x] by (simp add: RT_ALIGN_def unat_eq_zero [symmetric] and_not_7 unat_add_u32)

lemma round8_props: "8 dvd round8 n" "n \<le> round8 n" "round8 n < n + 8" "8 dvd n \<Longrightarrow> round8 n = n"
  unfolding round8_def by presburger+


section \<open>Allocation, on blocks\<close>

lemma heap_okD:
  assumes "heap_ok m bs"
  shows "items_ok m bs" "tidy bs" "lfree m = at m (lowest 0 bs)" "used m = of_nat (usage bs)" "used m \<le> max_used m" "\<not> mem_assert m"
    "\<forall>b\<in>set bs. fst b \<longrightarrow> 8 \<le> snd b"
  using assms unfolding heap_ok_def by blast+

lemma items_okD2:
  assumes "items_ok m bs"
  shows "bs \<noteq> []" "unat (heap_ptr m) + span bs + 16 < 4294967296" "8 dvd unat (heap_ptr m)" "obj m AND MEM_MASK = obj m"
    "heap_end m = at m (span bs)" "mem_size_aligned m = of_nat (span bs - 16)" "seg m 0 0 bs" "ld m (span bs) = MEM_USED m"
    "\<And>b. b \<in> set bs \<Longrightarrow> 8 dvd snd b"
  using assms by (simp_all add: items_ok_def)

lemma span_dvd: "(\<forall>b\<in>set bs. 8 dvd snd b) \<Longrightarrow> 8 dvd span bs"
  by (induction bs) (auto intro: dvd_add)

lemma tidy_append:
  "tidy (xs @ b # ys) \<longleftrightarrow> tidy xs \<and> tidy (b # ys) \<and> (xs = [] \<or> fst (last xs) \<or> fst b)"
  by (auto simp: successively_append_iff)

text \<open>The block the search found is carved: its first part is used.\<close>

lemma uses_fields [simp]:
  "lfree (uses n m) = lfree m" "heap_ptr (uses n m) = heap_ptr m" "mem_assert (uses n m) = mem_assert m"
  "used (uses n m) = used m + n" "bytes (uses n m) = bytes m"
  "heap_end (uses n m) = heap_end m" "obj (uses n m) = obj m"
  by (auto simp: uses_def Let_def)

lemma uses_le: "used (uses n m) \<le> max_used (uses n m)"
  by (auto simp: uses_def Let_def)

lemma uses_items [simp]: "items_ok (uses n m) bs = items_ok m bs" "touches m0 (uses n m) I = touches m0 m I" "ld (uses n m) i = ld m i"
  by (simp_all add: uses_def Let_def)

lemma lowest_free: "seg m p k bs \<Longrightarrow> lowest k bs = k + span bs \<or> \<not> MEM_ISUSED m (at m (lowest k bs))"
proof (induction bs arbitrary: p k)
  case (Cons b bs)
  show ?case
  proof (cases "fst b")
    case True
    then show ?thesis using Cons.IH [of k "k + 16 + snd b"] Cons.prems by (auto simp: add.assoc)
  next
    case False
    then show ?thesis using is_used [of m "at m k" False] Cons.prems by (simp add: item_at)
  qed
qed simp

lemma lowest_inside: "\<not> list_all fst xs \<Longrightarrow> lowest k xs + 16 \<le> k + span xs"
proof (induction xs arbitrary: k)
  case (Cons b bs)
  show ?case
  proof (cases "fst b")
    case True
    then have "lowest (k + 16 + snd b) bs + 16 \<le> k + 16 + snd b + span bs" using Cons.prems by (intro Cons.IH) simp
    with True show ?thesis by simp
  qed simp
qed simp

lemma mod_8: "x mod 8 = 0 \<longleftrightarrow> 8 dvd unat (x :: u32)"
proof -
  have "unat (x mod 8) = unat x mod 8" by (simp add: unat_mod_distrib)
  then show ?thesis by (metis dvd_eq_mod_eq_0 unat_eq_zero)
qed

lemma m_assert_True [simp]: "m_assert True m = m"
  by (simp add: m_assert_def)

lemma alloc_finish_ok:
  assumes m: "items_ok m (xs @ (True, a) # ws)" and t: "tidy (xs @ (True, a) # ws)"
    and l: "lfree m = at m (if list_all fst xs then span xs else lowest 0 xs)"
    and u: "used m = of_nat (usage (xs @ (True, a) # ws))" "used m \<le> max_used m" "\<not> mem_assert m" and K: "K \<le> a"
    and big: "\<forall>b\<in>set (xs @ (True, a) # ws). fst b \<longrightarrow> 8 \<le> snd b"
  shows "\<exists>m'. alloc_finish (of_nat K) (at m (span xs)) m = Some (at m (span xs + 16), m') \<and>
    heap_ok m' (xs @ (True, a) # ws) \<and> touches m m' {}"
proof -
  note d = items_okD2 [OF m]
  define k where "k = span xs"
  have sx: "span xs = k" by (simp add: k_def)
  have b: "unat (heap_ptr m) + (k + 16 + a + span ws) + 16 < 4294967296" using d(2) by (simp add: sx)
  have k8: "8 dvd k" using d(9) unfolding k_def by (intro span_dvd) auto
  let ?l = "lowest 0 (xs @ (True, a) # ws)"
  let ?m = "m\<lparr>lfree := at m ?l\<rparr>"
  have s: "seg m (last_item 0 0 xs) k ((True, a) # ws)" using d(7) by (simp add: seg_append sx)
  have "(if at m k = lfree m
      then map_option (\<lambda>m. m_assert (lfree m = heap_end m \<or> \<not> MEM_ISUSED m (lfree m)) m) (lfree_loop m) else Some m) = Some ?m"
  proof (cases "list_all fst xs")
    case True
    have "lfree_loop m = Some (m\<lparr>lfree := at m (lowest k ((True, a) # ws))\<rparr>)"
      by (rule lfree_loop_lowest [OF s]) (use True l d(5,8) b in \<open>simp_all add: sx add.assoc\<close>)
    moreover have "lowest k ((True, a) # ws) = ?l" using True by (simp add: lowest_append sx)
    moreover have "at m ?l = heap_end m \<or> \<not> MEM_ISUSED m (at m ?l)"
      using lowest_free [OF d(7)] d(5) by auto
    then have "at m ?l = heap_end m \<or> \<not> MEM_ISUSED ?m (at m ?l)" by (simp add: MEM_ISUSED_def pool_ptr_def)
    ultimately show ?thesis using True l by (simp add: sx)
  next
    case False
    then have "lowest 0 xs < k" using lowest_inside [of xs 0] by (simp add: sx)
    then have "at m k \<noteq> at m (lowest 0 xs)" using b by (subst at_order) simp_all
    moreover have "?l = lowest 0 xs" using False by (simp add: lowest_append)
    ultimately show ?thesis using False l by simp
  qed
  moreover have "at m k + 16 + of_nat K \<le> heap_end m"
  proof -
    have "at m (k + 16 + K) \<le> at m (k + 16 + a + span ws)" using b K by (subst at_order) simp_all
    then show ?thesis using d(5) by (simp add: sx add.assoc)
  qed
  moreover have "(at m k + 16) mod 8 = 0"
  proof -
    have "unat (at m (k + 16)) = unat (heap_ptr m) + (k + 16)" using b by (intro unat_at) simp
    then have "8 dvd unat (at m (k + 16))" using d(3) k8 by simp
    then show ?thesis unfolding mod_8 by (simp add: add.assoc)
  qed
  moreover have "at m k AND 7 = 0"
    unfolding and_7 using unat_at [of m k] b d(3) k8 by simp
  ultimately have "alloc_finish (of_nat K) (at m k) m = Some (at m (k + 16), ?m)"
    unfolding alloc_finish_def by (simp add: Let_def add.assoc)
  moreover have "heap_ok ?m (xs @ (True, a) # ws)" using m t u big by (simp add: heap_ok_def)
  ultimately show ?thesis by (intro exI [of _ ?m]) (simp add: sx)
qed


lemma alloc_take_carves:
  assumes m: "heap_ok m (xs @ (False, n) # ys)" and K: "K \<le> n" "8 dvd K" "16 \<le> K"
  shows "\<exists>m'. alloc_take (of_nat K) (of_nat (span xs)) m = Some (at m (span xs + 16), m') \<and>
    heap_ok m' (xs @ carve K n @ ys) \<and>
    touches m m' ({span xs..<span xs + 8} \<union> {span xs + 16 + K..<span xs + 16 + n} \<union> {span xs + 24 + n..<span xs + 28 + n})"
proof -
  note h = heap_okD [OF m] and d = items_okD [OF heap_okD(1) [OF m]]
  define k where "k = span xs"
  have sx: "span xs = k" by (simp add: k_def)
  let ?I = "{k..<k + 8} \<union> {k + 16 + K..<k + 16 + n} \<union> {k + 24 + n..<k + 28 + n}"
  have big: "item_next m (at m k) - (of_nat k + SIZEOF_STRUCT_MEM) \<ge> of_nat K + SIZEOF_STRUCT_MEM + MIN_SIZE_ALIGNED \<longleftrightarrow> K + 32 \<le> n"
  proof -
    have "item_next m (at m k) - (of_nat k + SIZEOF_STRUCT_MEM) = of_nat n" using d(4) by (simp add: item_at sx)
    moreover have "of_nat K + SIZEOF_STRUCT_MEM + MIN_SIZE_ALIGNED = (of_nat (K + 32) :: u32)" by simp
    moreover have "K + 32 < 4294967296" "n < 4294967296" using d(6) K(1) by simp_all
    ultimately show ?thesis by (simp only: of_nat_u32)
  qed
  have whole: "item_next m (at m k) - (at m k - heap_ptr m) = of_nat (16 + n)" using d(4) by (simp add: item_at sx)
  define m1 where "m1 = (if K + 32 \<le> n then uses (of_nat K + 16) (alloc_split (of_nat K) (of_nat k) m) else uses (of_nat (16 + n)) m)"
  define a where "a = (if K + 32 \<le> n then K else n)"
  define rest where "rest = (if K + 32 \<le> n then [(False, n - 16 - K)] else [])"
  have carve: "carve K n = (True, a) # rest" by (simp add: carve_def a_def rest_def)
  have fields: "heap_ptr m1 = heap_ptr m" "lfree m1 = lfree m" "mem_assert m1 = mem_assert m"
    using split_block(2-) [OF heap_okD(1) [OF m] K(2)] by (simp_all add: m1_def sx touches_def)
  have max: "used m1 \<le> max_used m1"
    unfolding m1_def by (cases "K + 32 \<le> n") (simp_all only: if_True if_False uses_le)
  have take: "alloc_take (of_nat K) (of_nat k) m = alloc_finish (of_nat K) (at m k) (st k (MEM_USED m1) m1)"
  proof -
    have "(if K + 32 \<le> n then uses (of_nat K + SIZEOF_STRUCT_MEM) (alloc_split (of_nat K) (of_nat k) m)
        else uses (of_nat (16 + n)) m) = m1" by (simp add: m1_def)
    then show ?thesis unfolding alloc_take_def Let_def big whole by (simp only: item_at(4) [OF fields(1)])
  qed
  have items: "items_ok m1 (xs @ (False, a) # rest @ ys)" and t1: "touches m m1 ?I"
    using split_block(1,2) [OF heap_okD(1) [OF m] K(2)] heap_okD(1) [OF m] K
    by (auto simp: m1_def a_def rest_def sx intro: touches_mono)
  let ?m2 = "st k (MEM_USED m1) m1"
  have items2: "items_ok ?m2 (xs @ (True, a) # rest @ ys)" and t2: "touches m1 ?m2 {k..<k + 4}"
    using set_tag [OF items, of True] by (simp_all add: sx tag_def)
  have tidy: "tidy (xs @ (True, a) # rest @ ys)"
  proof -
    have "tidy xs" "tidy ((False, n) # ys)" using h(2) by (simp_all add: tidy_append)
    then have "tidy ((True, a) # rest @ ys)" by (cases ys) (simp_all add: rest_def)
    then show ?thesis using \<open>tidy xs\<close> by (simp add: tidy_append)
  qed
  have use: "used ?m2 = of_nat (usage (xs @ (True, a) # rest @ ys))"
    using split_block(4) [OF heap_okD(1) [OF m] K(2)] h(4) by (simp add: m1_def a_def rest_def sx)
  have low: "lfree ?m2 = at ?m2 (if list_all fst xs then span xs else lowest 0 xs)"
    using h(3) fields by (simp add: lowest_append)
  have Ka: "K \<le> a" using K(1) by (simp add: a_def)
  have eights: "\<forall>b\<in>set (xs @ (True, a) # rest @ ys). fst b \<longrightarrow> 8 \<le> snd b" using h(7) K(3) Ka by (auto simp: rest_def)
  obtain m' where m': "alloc_finish (of_nat K) (at ?m2 (span xs)) ?m2 = Some (at ?m2 (span xs + 16), m')"
    "heap_ok m' (xs @ (True, a) # rest @ ys)" "touches ?m2 m' {}"
    using alloc_finish_ok [OF items2 tidy low use _ _ Ka] fields max h(6) eights by auto
  have "touches m m' ?I"
    by (rule touches_trans [OF touches_trans [OF t1 touches_mono [OF t2]] touches_mono [OF m'(3)]]) auto
  then show ?thesis using m' take fields(1) by (simp add: carve sx)
qed


text \<open>The number of bytes a request is served with.\<close>

definition request_size :: "u32 \<Rightarrow> nat" where "request_size sz = max 16 (round8 (unat sz))"

lemma request_props: "8 dvd request_size sz" "16 \<le> request_size sz" "unat sz \<le> request_size sz" "request_size sz < unat sz + 17"
  using round8_props [of "unat sz"] by (auto simp: request_size_def max_def)

lemma request_fits: "unat sz \<le> 4294967288 \<Longrightarrow> request_size sz \<le> 4294967288"
  unfolding request_size_def round8_def by simp

lemma alloc_rounds:
  assumes "sz \<noteq> 0" and "unat sz \<le> 4294967288"
  shows "(if RT_ALIGN sz 8 < MIN_SIZE_ALIGNED then MIN_SIZE_ALIGNED else RT_ALIGN sz 8) = of_nat (request_size sz)"
proof -
  have a: "unat (RT_ALIGN sz 8) = round8 (unat sz)" by (rule RT_ALIGN_round8 [OF assms(2)])
  have "RT_ALIGN sz 8 = of_nat (round8 (unat sz))" by (simp flip: a)
  moreover have "RT_ALIGN sz 8 < MIN_SIZE_ALIGNED \<longleftrightarrow> round8 (unat sz) < 16" by (simp add: word_less_nat_alt a)
  ultimately show ?thesis by (simp add: request_size_def max_def)
qed

lemma first_fit_lowest: "first_fit K k bs = first_fit K (lowest k bs) (dropWhile fst bs)"
  by (induction bs arbitrary: k) auto

lemma seg_lowest:
  "seg m p k bs \<Longrightarrow> \<exists>q. seg m q (lowest k bs) (dropWhile fst bs) \<and> lowest k bs + span (dropWhile fst bs) = k + span bs"
proof (induction bs arbitrary: p k)
  case (Cons b bs)
  show ?case
  proof (cases "fst b")
    case True
    then show ?thesis using Cons.IH [of k "k + 16 + snd b"] Cons.prems by (auto simp: add.assoc)
  next
    case False
    then show ?thesis using Cons.prems by (intro exI [of _ p]) simp
  qed
qed simp

text \<open>
  The allocation is first fit: it serves the request from the first free block that is large enough, returns nothing
  exactly if there is none, and ends either way.
\<close>

lemma alloc_fits:
  assumes m: "heap_ok m bs" and sz: "sz \<noteq> 0" "unat sz \<le> 4294967288"
  shows "case first_fit (request_size sz) 0 bs of
      None \<Rightarrow> rt_smem_alloc sz m = Some (RT_NULL, m)
    | Some k \<Rightarrow> \<exists>m'. rt_smem_alloc sz m = Some (at m (k + 16), m') \<and> heap_ok m' (take_block (request_size sz) bs) \<and> same_data m m' bs"
proof -
  note h = heap_okD [OF m] and d = items_okD2 [OF heap_okD(1) [OF m]]
  let ?K = "request_size sz"
  have msa: "of_nat ?K > mem_size_aligned m \<longleftrightarrow> span bs - 16 < ?K"
    unfolding d(6) using d(2) request_fits [OF sz(2)] by (intro of_nat_u32) simp_all
  have alloc: "rt_smem_alloc sz m =
      (if span bs - 16 < ?K then Some (RT_NULL, m)
       else Option.bind (alloc_search (of_nat ?K) (of_nat (lowest 0 bs)) m) (\<lambda>r.
         case r of None \<Rightarrow> Some (RT_NULL, m) | Some ptr \<Rightarrow> alloc_take (of_nat ?K) ptr m))"
    unfolding rt_smem_alloc_def Let_def alloc_rounds [OF sz] msa RT_NULL_def using sz(1) h(3) by simp
  show ?thesis
  proof (cases "span bs - 16 < ?K")
    case True
    then have "first_fit ?K 0 bs = None" using span_member [of _ bs] unfolding first_fit_none by fastforce
    then show ?thesis using True alloc by simp
  next
    case False
    obtain q where q: "seg m q (lowest 0 bs) (dropWhile fst bs)" "lowest 0 bs + span (dropWhile fst bs) = span bs"
      using seg_lowest [OF d(7)] by auto
    have "alloc_search (of_nat ?K) (of_nat (lowest 0 bs)) m = Some (map_option of_nat (first_fit ?K 0 bs))"
      unfolding first_fit_lowest [of ?K 0 bs]
      by (rule alloc_search_fits [OF q(1)]) (use q(2) d(2,6) request_props(2) [of sz] False in simp_all)
    then have s: "rt_smem_alloc sz m = (case first_fit ?K 0 bs of None \<Rightarrow> Some (RT_NULL, m)
        | Some k \<Rightarrow> alloc_take (of_nat ?K) (of_nat k) m)"
      unfolding alloc using False by (simp split: option.split)
    show ?thesis
    proof (cases "first_fit ?K 0 bs")
      case None
      then show ?thesis using s by simp
    next
      case (Some k)
      obtain xs n ys where b: "bs = xs @ (False, n) # ys" "k = span xs" "?K \<le> n" "take_block ?K bs = xs @ carve ?K n @ ys"
        using first_fit_split [OF Some] by auto
      obtain m' where m': "alloc_take (of_nat ?K) (of_nat k) m = Some (at m (k + 16), m')" "heap_ok m' (xs @ carve ?K n @ ys)"
        "touches m m' ({span xs..<span xs + 8} \<union> {span xs + 16 + ?K..<span xs + 16 + n} \<union> {span xs + 24 + n..<span xs + 28 + n})"
        using alloc_take_carves [OF m [unfolded b(1)] b(3) request_props(1,2)] b(2) by auto
      have "same_data m m' bs"
      proof (rule same_data_touches [OF m'(3)])
        show "span bs \<le> 4294967296" using d(2) by simp
        fix us j vs assume e: "bs = us @ (True, j) # vs"
        show "({span xs..<span xs + 8} \<union> {span xs + 16 + ?K..<span xs + 16 + n} \<union> {span xs + 24 + n..<span xs + 28 + n}) \<inter>
            {span us + 16..<span us + 16 + j} = {}"
          by (rule split_cases [OF e [unfolded b(1)]]) auto
      qed
      then show ?thesis using Some s m'(1,2) b(4) by auto
    qed
  qed
qed


section \<open>Release, on blocks\<close>

text \<open>The free block of \<open>n\<close> bytes between \<open>xs\<close> and \<open>ys\<close> is joined with a free neighbour on either side.\<close>

definition join_right :: "nat \<Rightarrow> blocks \<Rightarrow> nat \<times> blocks" where
  "join_right n ys = (case ys of (False, a) # zs \<Rightarrow> (n + 16 + a, zs) | _ \<Rightarrow> (n, ys))"

definition join_left :: "blocks \<Rightarrow> nat \<Rightarrow> blocks \<Rightarrow> blocks" where
  "join_left xs n ys = (case rev xs of (False, a) # ws \<Rightarrow> rev ws @ (False, a + 16 + n) # ys | _ \<Rightarrow> xs @ (False, n) # ys)"

definition release :: "blocks \<Rightarrow> nat \<Rightarrow> blocks \<Rightarrow> blocks" where
  "release xs n ys = (let (n, ys) = join_right n ys in join_left xs n ys)"

lemma join_right_cases:
  obtains a zs where "ys = (False, a) # zs" "join_right n ys = (n + 16 + a, zs)"
  | "ys = [] \<or> fst (hd ys)" "join_right n ys = (n, ys)"
  by (cases ys; cases "fst (hd ys)"; cases "hd ys") (auto simp: join_right_def)

lemma join_left_cases:
  obtains a ws where "xs = ws @ [(False, a)]" "join_left xs n ys = ws @ (False, a + 16 + n) # ys"
  | "xs = [] \<or> fst (last xs)" "join_left xs n ys = xs @ (False, n) # ys"
proof (cases xs rule: rev_cases)
  case (snoc ws b)
  then show ?thesis using that by (cases b; cases "fst b") (auto simp: join_left_def)
qed (use that in \<open>auto simp: join_left_def\<close>)

lemma used_from_release: "used_from 0 (release xs n ys) k j \<longleftrightarrow> used_from 0 xs k j \<or> used_from (span xs + 16 + n) ys k j"
proof -
  have r: "used_from (span xs + 16 + fst (join_right n ys)) (snd (join_right n ys)) k j \<longleftrightarrow> used_from (span xs + 16 + n) ys k j"
    by (rule join_right_cases [of ys n]) (auto simp: add.assoc)
  have "used_from 0 (join_left xs n' ys') k j \<longleftrightarrow> used_from 0 xs k j \<or> used_from (span xs + 16 + n') ys' k j" for n' ys'
    by (rule join_left_cases [of xs n' ys']) (auto simp: add.assoc)
  then show ?thesis using r by (cases "join_right n ys") (simp add: release_def)
qed

lemma release_facts:
  "span (release xs n ys) = span xs + 16 + n + span ys" "usage (release xs n ys) = usage xs + usage ys"
proof -
  obtain n' ys' where r: "join_right n ys = (n', ys')" by fastforce
  have "span ys' + n' = span ys + n" "usage ys' = usage ys" by (rule join_right_cases [of ys n]; use r in auto)+
  moreover have "span (join_left xs n' ys') = span xs + 16 + n' + span ys'" "usage (join_left xs n' ys') = usage xs + usage ys'"
    by (rule join_left_cases [of xs n' ys']; auto)+
  ultimately show "span (release xs n ys) = span xs + 16 + n + span ys" "usage (release xs n ys) = usage xs + usage ys"
    by (simp_all add: release_def r)
qed

lemma tidy_release:
  assumes "tidy xs" and "tidy ys"
  shows "tidy (release xs n ys)"
proof -
  obtain n' ys' where r: "join_right n ys = (n', ys')" by fastforce
  have y: "tidy ((False, n'') # ys')" for n''
    by (rule join_right_cases [of ys n]; use r assms(2) in \<open>cases ys'; auto\<close>)
  have "tidy (join_left xs n' ys')"
    by (rule join_left_cases [of xs n' ys']) (use y assms(1) in \<open>auto simp: tidy_append successively_append_iff\<close>)
  then show ?thesis by (simp add: release_def r)
qed

lemma lowest_release: "lowest 0 (release xs n ys) = lowest 0 (xs @ [(False, n)])"
proof -
  obtain n' ys' where r: "join_right n ys = (n', ys')" by fastforce
  have "lowest 0 (join_left xs n' ys') = lowest 0 (xs @ [(False, n)])"
    by (rule join_left_cases [of xs n' ys']) (auto simp: lowest_append)
  then show ?thesis by (simp add: release_def r)
qed


text \<open>Filling the holes around a block that became free.\<close>

lemma plug_forward_ok:
  assumes m: "items_ok m (xs @ (False, n) # ys)" and l: "lfree m = at m (lowest 0 (xs @ [(False, n)]))"
  defines "r \<equiv> join_right n ys"
  defines "m' \<equiv> plug_forward (at m (span xs)) m"
  shows "items_ok m' (xs @ (False, fst r) # snd r)" "same_data m m' (xs @ (False, n) # ys)" "lfree m' = lfree m"
    "used m' = used m" "max_used m' = max_used m" "mem_assert m' = mem_assert m" "heap_ptr m' = heap_ptr m"
proof -
  note d = items_okD [OF m]
  have "items_ok m' (xs @ (False, fst r) # snd r) \<and> same_data m m' (xs @ (False, n) # ys) \<and> lfree m' = lfree m \<and>
    used m' = used m \<and> max_used m' = max_used m \<and> mem_assert m' = mem_assert m \<and> heap_ptr m' = heap_ptr m"
  proof (rule join_right_cases [of ys n])
    fix a zs assume y: "ys = (False, a) # zs" "join_right n ys = (n + 16 + a, zs)"
    have "lfree m \<noteq> at m (span xs + 16 + n)"
    proof -
      have "lowest 0 (xs @ [(False, n)]) \<le> span xs" using lowest_inside [of xs 0] by (auto simp: lowest_append)
      then show ?thesis unfolding l using d(6) by (subst at_order) simp_all
    qed
    then have m': "m' = merge (span xs) (span xs + 16 + n) (span xs + 32 + n + a) m"
      unfolding m'_def plug_forward_merges [OF m] by (simp add: y(1))
    note mb = merge_blocks [OF m [unfolded y(1)], folded m']
    have "same_data m m' (xs @ (False, n) # ys)"
    proof (rule same_data_touches [OF mb(2)])
      show "span (xs @ (False, n) # ys) \<le> 4294967296" using d(6) by simp
      fix us j vs assume "xs @ (False, n) # ys = us @ (True, j) # vs"
      then have e: "xs @ (False, n) # ys = us @ (True, j) # vs" "(xs @ [(False, n)]) @ (False, a) # zs = us @ (True, j) # vs"
        by (simp_all add: y(1))
      show "({span xs + 4..<span xs + 8} \<union> {span xs + 16 + n..<span xs + 20 + n} \<union>
          {span xs + 40 + n + a..<span xs + 44 + n + a}) \<inter> {span us + 16..<span us + 16 + j} = {}"
        by (rule split_cases [OF e(1)]; rule split_cases [OF e(2)]) auto
    qed
    then show ?thesis using mb(1) y(2) by (simp add: r_def) (simp add: m')
  next
    assume y: "ys = [] \<or> fst (hd ys)" "join_right n ys = (n, ys)"
    then have "m' = m" unfolding m'_def plug_forward_merges [OF m] by (cases ys; cases "hd ys") auto
    then show ?thesis using m y(2) by (simp add: r_def same_data_def)
  qed
  then show "items_ok m' (xs @ (False, fst r) # snd r)" "same_data m m' (xs @ (False, n) # ys)" "lfree m' = lfree m"
    "used m' = used m" "max_used m' = max_used m" "mem_assert m' = mem_assert m" "heap_ptr m' = heap_ptr m" by blast+
qed

lemma plug_backward_ok:
  assumes m: "items_ok m (xs @ (False, n) # ys)" and l: "lfree m = at m (lowest 0 (xs @ [(False, n)]))"
    and x: "tidy xs"
  defines "m' \<equiv> plug_backward (at m (span xs)) m"
  shows "items_ok m' (join_left xs n ys)" "same_data m m' (xs @ (False, n) # ys)" "lfree m' = lfree m"
    "used m' = used m" "max_used m' = max_used m" "mem_assert m' = mem_assert m" "heap_ptr m' = heap_ptr m"
proof -
  note d = items_okD [OF m]
  have "items_ok m' (join_left xs n ys) \<and> same_data m m' (xs @ (False, n) # ys) \<and> lfree m' = lfree m \<and>
    used m' = used m \<and> max_used m' = max_used m \<and> mem_assert m' = mem_assert m \<and> heap_ptr m' = heap_ptr m"
  proof (rule join_left_cases [of xs n ys])
    fix a ws assume y: "xs = ws @ [(False, a)]" "join_left xs n ys = ws @ (False, a + 16 + n) # ys"
    have "lfree m \<noteq> at m (span xs)"
    proof -
      have "lowest 0 (xs @ [(False, n)]) < span xs"
        by (cases "list_all fst ws") (use lowest_inside [of ws 0] in \<open>simp_all add: lowest_append y(1)\<close>)
      then show ?thesis unfolding l using d(6) by (subst at_order) simp_all
    qed
    then have m': "m' = merge (span ws) (span ws + 16 + a) (span ws + 32 + a + n) m"
      unfolding m'_def plug_backward_merges [OF m] by (simp add: y(1) add.assoc)
    have m2: "items_ok m (ws @ (False, a) # (False, n) # ys)" using m y(1) by simp
    note mb = merge_blocks [OF m2, folded m']
    have "same_data m m' (xs @ (False, n) # ys)"
    proof (rule same_data_touches [OF mb(2)])
      show "span (xs @ (False, n) # ys) \<le> 4294967296" using d(6) by simp
      fix us j vs assume "xs @ (False, n) # ys = us @ (True, j) # vs"
      then have e: "ws @ (False, a) # (False, n) # ys = us @ (True, j) # vs" "(ws @ [(False, a)]) @ (False, n) # ys = us @ (True, j) # vs"
        by (simp_all add: y(1))
      show "({span ws + 4..<span ws + 8} \<union> {span ws + 16 + a..<span ws + 20 + a} \<union>
          {span ws + 40 + a + n..<span ws + 44 + a + n}) \<inter> {span us + 16..<span us + 16 + j} = {}"
        by (rule split_cases [OF e(1)]; rule split_cases [OF e(2)]) auto
    qed
    then show ?thesis using mb(1) y(2) by (simp) (simp add: m')
  next
    assume y: "xs = [] \<or> fst (last xs)" "join_left xs n ys = xs @ (False, n) # ys"
    then have "m' = m" unfolding m'_def plug_backward_merges [OF m]
      by (cases xs rule: rev_cases; cases "last xs") auto
    then show ?thesis using m y(2) by (simp add: same_data_def)
  qed
  then show "items_ok m' (join_left xs n ys)" "same_data m m' (xs @ (False, n) # ys)" "lfree m' = lfree m"
    "used m' = used m" "max_used m' = max_used m" "mem_assert m' = mem_assert m" "heap_ptr m' = heap_ptr m" by blast+
qed


lemma plug_holes_ok:
  assumes m: "items_ok m (xs @ (False, n) # ys)" and l: "lfree m = at m (lowest 0 (xs @ [(False, n)]))" and x: "tidy xs"
  defines "m' \<equiv> plug_holes (at m (span xs)) m"
  shows "items_ok m' (release xs n ys)" "same_data m m' (xs @ (False, n) # ys)" "lfree m' = lfree m" "used m' = used m"
    "max_used m' = max_used m" "mem_assert m' = mem_assert m" "heap_ptr m' = heap_ptr m"
proof -
  note d = items_okD [OF m]
  obtain n' ys' where r: "join_right n ys = (n', ys')" by fastforce
  let ?m1 = "plug_forward (at m (span xs)) m"
  note f = plug_forward_ok [OF m l, unfolded r fst_conv snd_conv]
  have "at m (span xs) < heap_end m" unfolding d(8) using d(6) by (subst at_order) simp_all
  moreover have "heap_ptr m \<le> at m (span xs)" using at_order(2) [of m 0 "span xs"] d(6) by simp
  ultimately have m': "m' = plug_backward (at m (span xs)) ?m1"
    by (simp add: m'_def plug_holes_def m_assert_def)
  have l1: "lfree ?m1 = at ?m1 (lowest 0 (xs @ [(False, n')]))"
    using f(3,7) l by (simp add: lowest_append)
  note b = plug_backward_ok [OF f(1) l1 x, unfolded f(7), folded m']
  show "items_ok m' (release xs n ys)" using b(1) by (simp add: release_def r)
  have "used_from 0 (xs @ (False, n') # ys') k j" if "used_from 0 (xs @ (False, n) # ys) k j" for k j
    by (rule join_right_cases [of ys n]) (use that r in \<open>auto simp: add.assoc\<close>)
  then show "same_data m m' (xs @ (False, n) # ys)" using same_data_trans [OF f(2) b(2)] by blast
  show "lfree m' = lfree m" "used m' = used m" "max_used m' = max_used m" "mem_assert m' = mem_assert m" "heap_ptr m' = heap_ptr m"
    using b(3-7) f(3-7) by simp_all
qed

text \<open>A used block is released: it and its free neighbours become one free block.\<close>

lemma set_release: "b \<in> set (release xs n ys) \<Longrightarrow> fst b \<Longrightarrow> b \<in> set xs \<union> set ys"
proof -
  obtain n' ys' where r: "join_right n ys = (n', ys')" by fastforce
  have "b \<in> set ys' \<Longrightarrow> b \<in> set ys" by (rule join_right_cases [of ys n]) (use r in auto)
  then have "b \<in> set (join_left xs n' ys') \<Longrightarrow> fst b \<Longrightarrow> b \<in> set xs \<union> set ys"
    by (rule_tac join_left_cases [of xs n' ys']) auto
  then show "b \<in> set (release xs n ys) \<Longrightarrow> fst b \<Longrightarrow> b \<in> set xs \<union> set ys" by (simp add: release_def r)
qed

lemma free_ok:
  assumes m: "heap_ok m (xs @ (True, n) # ys)"
  defines "m' \<equiv> rt_smem_free (at m (span xs + 16)) m"
  shows "heap_ok m' (release xs n ys)" "same_data m m' (release xs n ys)"
proof -
  note h = heap_okD [OF m] and d = items_okD [OF heap_okD(1) [OF m]]
  define k where "k = span xs"
  have sx: "span xs = k" by (simp add: k_def)
  have b: "unat (heap_ptr m) + (k + 16 + n + span ys) + 16 < 4294967296" "8 \<le> n" using d(6) h(7) by (simp_all add: sx)
  have k8: "8 dvd k" using items_okD2(9) [OF h(1)] unfolding k_def by (intro span_dvd) auto
  have ua: "unat (at m (k + 16)) = unat (heap_ptr m) + (k + 16)" using b by (intro unat_at) simp
  then have nz: "at m (k + 16) \<noteq> 0" by (metis add_is_0 unat_0 zero_neq_numeral)
  have al: "at m (k + 16) AND 7 = 0" unfolding and_7 ua using d(11) k8 by simp
  have mem: "at m (k + 16) - 16 = at m k" by simp
  have tk: "ld m k = tag m True" using d(3) by (simp add: sx)
  have po: "MEM_POOL m (at m k) = obj m" using pool_of [OF d(12), of "at m k" True] tk by (simp add: item_at)
  have us: "MEM_ISUSED m (at m k)" using is_used [of m "at m k" True] tk by (simp add: item_at)
  have in_heap: "heap_ptr m \<le> at m (k + 16)" "at m (k + 16) < heap_end m"
  proof -
    show "heap_ptr m \<le> at m (k + 16)" using at_order(2) [of m 0 "k + 16"] b by simp
    show "at m (k + 16) < heap_end m" unfolding d(8) sx using b by (subst at_order) simp_all
  qed
  have nx: "heap_ptr m + item_next m (at m k) = at m (k + 16 + n)" using d(4) by (simp add: item_at sx)
  have "\<exists>u. ld m (k + 16 + n) = tag m u"
  proof (cases ys)
    case Nil
    then show ?thesis using d(9) by (intro exI [of _ True]) (simp add: sx tag_def)
  next
    case (Cons c zs)
    then show ?thesis using d(2) by (auto simp: sx)
  qed
  then obtain u where "ld m (k + 16 + n) = tag m u" by blast
  then have pn: "MEM_POOL m (at m (k + 16 + n)) = obj m"
    using pool_of [OF d(12), of "at m (k + 16 + n)" u] by (simp add: item_at del: of_nat_add)
  let ?m1 = "st k (MEM_FREED m) m"
  let ?m2 = "?m1\<lparr>lfree := at m (lowest 0 (xs @ [(False, n)])), used := of_nat (usage xs + usage ys)\<rparr>"
  note t = set_tag [OF h(1), of False, unfolded sx]
  have low: "at m k < lfree m \<longleftrightarrow> list_all fst xs"
  proof -
    let ?l = "lowest 0 (xs @ (True, n) # ys)"
    have "?l \<le> k + 16 + n + span ys" using lowest_le(2) [of 0 "xs @ (True, n) # ys"] by (simp add: sx)
    then have "at m k < lfree m \<longleftrightarrow> k < ?l" unfolding h(3) using b by (intro at_order) simp_all
    also have "\<dots> \<longleftrightarrow> list_all fst xs"
      by (cases "list_all fst xs")
        (use lowest_le(1) [of "k + 16 + n" ys] lowest_inside [of xs 0] in \<open>simp_all add: lowest_append sx\<close>)
    finally show ?thesis .
  qed
  have low': "(if at m k < lfree m then at m k else lfree m) = at m (lowest 0 (xs @ [(False, n)]))"
    unfolding low using h(3) by (simp add: lowest_append sx)
  have size: "item_next ?m1 (at m k) - (at m k - heap_ptr m) = of_nat (16 + n)"
    using d(4) b by (simp add: item_at sx)
  have nx': "ld m (k + 4) = of_nat (k + 16 + n)" using d(4) by (simp add: sx)
  have size': "of_nat (k + 16 + n) - of_nat k = (of_nat (16 + n) :: u32)" by simp
  have sub: "used m - of_nat (16 + n) = of_nat (usage xs + usage ys)" using h(4) by simp
  have m': "m' = plug_holes (at ?m2 (span xs)) ?m2"
  proof -
    have "ld ?m1 (k + 4) = of_nat (k + 16 + n)" using nx' b by (simp del: of_nat_add)
    moreover have same: "?m1\<lparr>lfree := lfree m, used := x\<rparr> = ?m1\<lparr>used := x\<rparr>" for x by (simp add: st_def)
    ultimately show ?thesis
      unfolding m'_def rt_smem_free_def Let_def sizes sx low' [symmetric] using nz
      by (simp add: mem al po us in_heap nx' pn item_at size' sub same del: of_nat_add)
  qed
  have i2: "items_ok ?m2 (xs @ (False, n) # ys)" using t(1) by (simp add: tag_def)
  have tx: "tidy xs" "tidy ys" using h(2) by (auto simp: tidy_append successively_Cons)
  have l2: "lfree ?m2 = at ?m2 (lowest 0 (xs @ [(False, n)]))" by simp
  note p = plug_holes_ok [OF i2 l2 tx(1), folded m']
  have "used ?m2 \<le> used m"
  proof -
    have "usage xs + usage ys + (16 + n) < 4294967296"
      using usage_span [of xs] usage_span [of ys] b by (simp add: sx)
    then show ?thesis unfolding h(4) by (simp del: of_nat_add)
  qed
  then have "used m' \<le> max_used m'" using p(4,5) h(5) by simp
  moreover have "lfree m' = at m' (lowest 0 (release xs n ys))" using p(3,7) by (simp add: lowest_release)
  moreover have "used m' = of_nat (usage (release xs n ys))" using p(4) by (simp add: release_facts)
  moreover have "\<forall>b\<in>set (release xs n ys). fst b \<longrightarrow> 8 \<le> snd b" using set_release [of _ xs n ys] h(7) by auto
  ultimately show "heap_ok m' (release xs n ys)"
    using p(1,6) tidy_release [OF tx] h(6) by (simp add: heap_ok_def)
  have "same_data m ?m2 (xs @ (False, n) # ys)"
  proof (rule same_data_touches)
    show "touches m ?m2 {span xs..<span xs + 4}" using t(2) by (simp add: tag_def sx)
    show "span (xs @ (False, n) # ys) \<le> 4294967296" using b by (simp add: sx)
    fix us j vs assume "xs @ (False, n) # ys = us @ (True, j) # vs"
    then show "{span xs..<span xs + 4} \<inter> {span us + 16..<span us + 16 + j} = {}"
      by (rule split_cases) auto
  qed
  then have "same_data m m' (xs @ (False, n) # ys)" by (rule same_data_trans [OF _ p(2)])
  then show "same_data m m' (release xs n ys)" by (simp add: same_data_def used_from_release)
qed

end
