(* ===== verification/Rt_Queue.thy ===== *)
theory Rt_Queue
  imports Rt_Wait Rt_Mem
begin

text \<open>
  Message queues (\<^verbatim>\<open>src/rt-thread/src/ipc.c\<close>, without \<^verbatim>\<open>RT_USING_MESSAGEQUEUE_PRIORITY\<close>).  The places for messages are
  numbered; a pointer to one is its number.  A call holds the lock of the queue only while it takes a place out of one
  of the queue's lists and while it puts it into the other; in between, with the place in its hands, it copies the
  message, and everybody else may use the queue.  The parts of the calls between two such points are the operations
  below, and the steps of the machine \<open>mq_step\<close>.
\<close>

section \<open>Message queues\<close>

definition RT_MQ_ENTRY_MAX :: u16 where "RT_MQ_ENTRY_MAX = 0xFFFF"

text \<open>What a place for messages of \<open>msg_size\<close> bytes takes: the message, up to a multiple of \<^verbatim>\<open>RT_ALIGN_SIZE\<close>, and its header.\<close>

definition mq_place_size :: "u32 \<Rightarrow> u32" where
  "mq_place_size msg_size = RT_ALIGN msg_size 8 + 8"

record mq_message =
  mq_next :: "nat option"
  mq_length :: u32
  mq_body :: "u8 list"

record mqueue =
  mq_pool :: "nat \<Rightarrow> mq_message"
  mq_msg_size :: u16
  mq_max_msgs :: u16
  mq_entry :: u16
  mq_head :: "nat option"
  mq_tail :: "nat option"
  mq_free :: "nat option"

record queues =
  qkern :: kernel
  mqs :: "nat \<Rightarrow> mqueue"

definition mq_set_next :: "nat \<Rightarrow> nat option \<Rightarrow> mqueue \<Rightarrow> mqueue" where
  "mq_set_next s p x = x\<lparr>mq_pool := (mq_pool x)(s := (mq_pool x s)\<lparr>mq_next := p\<rparr>)\<rparr>"

subsection \<open>Starting and ending\<close>

text \<open>A place is put in front of the free ones.\<close>

definition mq_give :: "nat \<Rightarrow> mqueue \<Rightarrow> mqueue" where
  "mq_give s x = (mq_set_next s (mq_free x) x)\<lparr>mq_free := Some s\<rparr>"

definition mq_lists_init :: "mqueue \<Rightarrow> mqueue" where
  "mq_lists_init x =
     (let x = x\<lparr>mq_head := None, mq_tail := None, mq_free := None\<rparr>;
          x = foldl (\<lambda>x temp. mq_give temp x) x [0..<unat (mq_max_msgs x)]
      in x\<lparr>mq_entry := 0\<rparr>)"

text \<open>
  \<open>pool\<close> is what the memory of the pool holds.  The call does not return when the size of a place, a number of 32 bits,
  comes to 0: it is divided by.
\<close>

definition rt_mq_init ::
    "nat \<Rightarrow> (nat \<Rightarrow> mq_message) \<Rightarrow> u32 \<Rightarrow> u32 \<Rightarrow> ipc_flag \<Rightarrow> queues \<Rightarrow> (int \<times> queues) option" where
  "rt_mq_init b pool msg_size pool_size flag m =
     (let m = m\<lparr>qkern := (qkern m)\<lparr>object_flag := (object_flag (qkern m))(receivers b := flag, senders b := flag),
                  tlist := rt_list_init (Head (Suspend_list (receivers b))) (tlist (qkern m))\<rparr>\<rparr>;
          place = mq_place_size msg_size
      in if place = 0 then None
         else
           let x = (mqs m b)\<lparr>mq_pool := pool, mq_msg_size := ucast msg_size, mq_max_msgs := ucast (pool_size div place)\<rparr>
           in if mq_max_msgs x = 0 then Some (- RT_EINVAL, m\<lparr>mqs := (mqs m)(b := x)\<rparr>)
              else Some (RT_EOK, m\<lparr>mqs := (mqs m)(b := mq_lists_init x),
                qkern := (qkern m)\<lparr>tlist := rt_list_init (Head (Suspend_list (senders b))) (tlist (qkern m))\<rparr>\<rparr>))"

text \<open>\<open>found\<close> is the object the allocator hands out, if it has one, and \<open>pool\<close> the memory for that many bytes.\<close>

definition rt_mq_create ::
    "nat option \<Rightarrow> (u32 \<Rightarrow> (nat \<Rightarrow> mq_message) option) \<Rightarrow> u32 \<Rightarrow> u32 \<Rightarrow> ipc_flag \<Rightarrow> queues \<Rightarrow> nat option \<times> queues" where
  "rt_mq_create found pool msg_size max_msgs flag m =
     (case found of
        None \<Rightarrow> (None, m)
      | Some b \<Rightarrow>
          let m = m\<lparr>qkern := (qkern m)\<lparr>object_flag := (object_flag (qkern m))(receivers b := flag, senders b := flag),
                      tlist := rt_list_init (Head (Suspend_list (receivers b))) (tlist (qkern m))\<rparr>\<rparr>;
              x = (mqs m b)\<lparr>mq_msg_size := ucast msg_size, mq_max_msgs := ucast max_msgs\<rparr>
          in case pool (mq_place_size msg_size * ucast (mq_max_msgs x)) of
               None \<Rightarrow> (None, m\<lparr>mqs := (mqs m)(b := x)\<rparr>)
             | Some mem \<Rightarrow>
                 (Some b, m\<lparr>mqs := (mqs m)(b := mq_lists_init (x\<lparr>mq_pool := mem\<rparr>)),
                   qkern := (qkern m)\<lparr>tlist := rt_list_init (Head (Suspend_list (senders b))) (tlist (qkern m))\<rparr>\<rparr>))"

definition rt_mq_detach :: "nat \<Rightarrow> queues \<Rightarrow> (int \<times> queues) option" where
  "rt_mq_detach b m = map_option (\<lambda>k. (RT_EOK, m\<lparr>qkern := k\<rparr>)) (ipc_resume_both b (qkern m))"

text \<open>The same for a queue on the heap, whose memory is then freed.\<close>

definition rt_mq_delete :: "nat \<Rightarrow> queues \<Rightarrow> (int \<times> queues) option" where
  "rt_mq_delete b m = map_option (\<lambda>k. (RT_EOK, m\<lparr>qkern := k\<rparr>)) (ipc_resume_both b (qkern m))"

definition mq_errno :: "nat \<Rightarrow> int \<Rightarrow> queues \<Rightarrow> queues" where
  "mq_errno t err m = m\<lparr>qkern := (qkern m)\<lparr>errno := (errno (qkern m))(t := err)\<rparr>\<rparr>"

definition mq_schedule :: "queues \<Rightarrow> queues" where
  "mq_schedule m = m\<lparr>qkern := rt_schedule (qkern m)\<rparr>"

subsection \<open>Waiting\<close>

text \<open>
  What the first part of a call comes to: the call returns, it goes on with a place in its hands, or it calls
  \<open>rt_schedule\<close> to wait, with its locals \<open>timeout\<close> and \<open>tick_delta\<close>.
\<close>

datatype mq_result = Mq_returns int | Mq_takes nat | Mq_waits int u32

definition mq_wait :: "nat \<Rightarrow> int \<Rightarrow> u32 \<Rightarrow> suspend_flag \<Rightarrow> nat \<Rightarrow> queues \<Rightarrow> (mq_result \<times> queues) option" where
  "mq_wait l timeout tick_delta sflag t m =
     map_option (\<lambda>(w, k). (case w of Wait_fails err \<Rightarrow> Mq_returns err
                                    | Wait_schedules timeout tick_delta \<Rightarrow> Mq_waits timeout tick_delta, m\<lparr>qkern := k\<rparr>))
       (ipc_wait l timeout tick_delta sflag t (qkern m))"

subsection \<open>Sending\<close>

text \<open>First a free place is taken.\<close>

definition mq_take_free :: "nat \<Rightarrow> mqueue \<Rightarrow> mqueue" where
  "mq_take_free s x = x\<lparr>mq_free := mq_next (mq_pool x s)\<rparr>"

definition mq_send_loop ::
    "nat \<Rightarrow> int \<Rightarrow> u32 \<Rightarrow> suspend_flag \<Rightarrow> nat \<Rightarrow> queues \<Rightarrow> (mq_result \<times> queues) option" where
  "mq_send_loop b timeout tick_delta sflag t m =
     (case mq_free (mqs m b) of
        None \<Rightarrow>
          let m = mq_errno t (- RT_EINTR) m
          in if timeout = 0 then Some (Mq_returns (- RT_EFULL), m)
             else mq_wait (senders b) timeout tick_delta sflag t m
      | Some s \<Rightarrow> Some (Mq_takes s, m\<lparr>mqs := (mqs m)(b := mq_take_free s (mqs m b))\<rparr>))"

definition mq_send :: "nat \<Rightarrow> u8 list \<Rightarrow> int \<Rightarrow> suspend_flag \<Rightarrow> nat \<Rightarrow> queues \<Rightarrow> (mq_result \<times> queues) option" where
  "mq_send b msg timeout sflag t m =
     (if length msg > unat (mq_msg_size (mqs m b)) then Some (Mq_returns (- RT_ERROR), m)
      else if mq_free (mqs m b) = None \<and> timeout = 0 then Some (Mq_returns (- RT_EFULL), m)
      else mq_send_loop b timeout 0 sflag t m)"

definition mq_send_resumed ::
    "nat \<Rightarrow> int \<Rightarrow> u32 \<Rightarrow> suspend_flag \<Rightarrow> nat \<Rightarrow> queues \<Rightarrow> (mq_result \<times> queues) option" where
  "mq_send_resumed b timeout tick_delta sflag t m =
     (if errno (qkern m) t \<noteq> RT_EOK then Some (Mq_returns (errno (qkern m) t), m)
      else
        let (timeout, tick_delta) = ipc_time_left timeout tick_delta (qkern m)
        in mq_send_loop b timeout tick_delta sflag t m)"

definition mq_urgent :: "nat \<Rightarrow> u8 list \<Rightarrow> queues \<Rightarrow> mq_result \<times> queues" where
  "mq_urgent b msg m =
     (if length msg > unat (mq_msg_size (mqs m b)) then (Mq_returns (- RT_ERROR), m)
      else case mq_free (mqs m b) of
             None \<Rightarrow> (Mq_returns (- RT_EFULL), m)
           | Some s \<Rightarrow> (Mq_takes s, m\<lparr>mqs := (mqs m)(b := mq_take_free s (mqs m b))\<rparr>))"

text \<open>Then the place is filled.  An urgent message keeps the pointer that is in it.\<close>

definition mq_copy_in :: "nat \<Rightarrow> u8 list \<Rightarrow> mqueue \<Rightarrow> mqueue" where
  "mq_copy_in s msg x =
     x\<lparr>mq_pool := (mq_pool x)(s := (mq_pool x s)
       \<lparr>mq_length := of_nat (length msg), mq_body := msg @ drop (length msg) (mq_body (mq_pool x s))\<rparr>)\<rparr>"

definition mq_fill :: "nat \<Rightarrow> u8 list \<Rightarrow> bool \<Rightarrow> mqueue \<Rightarrow> mqueue" where
  "mq_fill s msg urgent x = mq_copy_in s msg (if urgent then x else mq_set_next s None x)"

text \<open>Last it is linked to the end of the queue or, when the message is urgent, to its head, and a receiver is woken.\<close>

definition mq_append :: "nat \<Rightarrow> mqueue \<Rightarrow> mqueue" where
  "mq_append s x =
     (let x = (case mq_tail x of None \<Rightarrow> x | Some u \<Rightarrow> mq_set_next u (Some s) x);
          x = x\<lparr>mq_tail := Some s\<rparr>
      in if mq_head x = None then x\<lparr>mq_head := Some s\<rparr> else x)"

definition mq_prepend :: "nat \<Rightarrow> mqueue \<Rightarrow> mqueue" where
  "mq_prepend s x =
     (let x = (mq_set_next s (mq_head x) x)\<lparr>mq_head := Some s\<rparr>
      in if mq_tail x = None then x\<lparr>mq_tail := Some s\<rparr> else x)"

definition mq_link :: "nat \<Rightarrow> nat \<Rightarrow> bool \<Rightarrow> queues \<Rightarrow> int \<times> bool \<times> queues" where
  "mq_link b s urgent m =
     (let x = (if urgent then mq_prepend s (mqs m b) else mq_append s (mqs m b))
      in if mq_entry x < RT_MQ_ENTRY_MAX then
           let (need_schedule, k) = ipc_wake (receivers b) (qkern m)
           in (RT_EOK, need_schedule, m\<lparr>qkern := k, mqs := (mqs m)(b := x\<lparr>mq_entry := mq_entry x + 1\<rparr>)\<rparr>)
         else (- RT_EFULL, False, m\<lparr>mqs := (mqs m)(b := x)\<rparr>))"

subsection \<open>Receiving\<close>

text \<open>First the place at the head of the queue is taken.\<close>

definition mq_take_head :: "nat \<Rightarrow> mqueue \<Rightarrow> mqueue" where
  "mq_take_head s x =
     (let x = x\<lparr>mq_head := mq_next (mq_pool x s)\<rparr>;
          x = (if mq_tail x = Some s then x\<lparr>mq_tail := None\<rparr> else x)
      in if mq_entry x > 0 then x\<lparr>mq_entry := mq_entry x - 1\<rparr> else x)"

definition mq_recv_loop ::
    "nat \<Rightarrow> int \<Rightarrow> u32 \<Rightarrow> suspend_flag \<Rightarrow> nat \<Rightarrow> queues \<Rightarrow> (mq_result \<times> queues) option" where
  "mq_recv_loop b timeout tick_delta sflag t m =
     (if mq_entry (mqs m b) = 0 then
        let m = mq_errno t (- RT_EINTR) m
        in if timeout = 0 then Some (Mq_returns (- RT_ETIMEOUT), mq_errno t (- RT_ETIMEOUT) m)
           else mq_wait (receivers b) timeout tick_delta sflag t m
      else case mq_head (mqs m b) of
             None \<Rightarrow> None
           | Some s \<Rightarrow> Some (Mq_takes s, m\<lparr>mqs := (mqs m)(b := mq_take_head s (mqs m b))\<rparr>))"

definition mq_recv :: "nat \<Rightarrow> int \<Rightarrow> suspend_flag \<Rightarrow> nat \<Rightarrow> queues \<Rightarrow> (mq_result \<times> queues) option" where
  "mq_recv b timeout sflag t m =
     (if mq_entry (mqs m b) = 0 \<and> timeout = 0 then Some (Mq_returns (- RT_ETIMEOUT), m)
      else mq_recv_loop b timeout 0 sflag t m)"

definition mq_recv_resumed ::
    "nat \<Rightarrow> int \<Rightarrow> u32 \<Rightarrow> suspend_flag \<Rightarrow> nat \<Rightarrow> queues \<Rightarrow> (mq_result \<times> queues) option" where
  "mq_recv_resumed b timeout tick_delta sflag t m =
     (if errno (qkern m) t \<noteq> RT_EOK then Some (Mq_returns (errno (qkern m) t), m)
      else
        let (timeout, tick_delta) = ipc_time_left timeout tick_delta (qkern m)
        in mq_recv_loop b timeout tick_delta sflag t m)"

text \<open>Then the message is copied to a buffer of \<open>room\<close> bytes; a longer one is cut off.\<close>

definition mq_copy_out :: "nat \<Rightarrow> u32 \<Rightarrow> mqueue \<Rightarrow> u8 list" where
  "mq_copy_out s room x =
     (let len = mq_length (mq_pool x s);
          len = (if len > room then room else len)
      in take (unat len) (mq_body (mq_pool x s)))"

text \<open>Last the place is given back, and a sender is woken.\<close>

definition mq_give_back :: "nat \<Rightarrow> nat \<Rightarrow> queues \<Rightarrow> bool \<times> queues" where
  "mq_give_back b s m =
     (let (need_schedule, k) = ipc_wake (senders b) (qkern m)
      in (need_schedule, m\<lparr>qkern := k, mqs := (mqs m)(b := mq_give s (mqs m b))\<rparr>))"

subsection \<open>The calls\<close>

text \<open>
  The calls as long as nobody interferes, up to the return or to the switch to another thread that waits.  What a
  receive returns is the length of the message or an error; the message itself is in the buffer.
\<close>

definition mq_post :: "nat \<Rightarrow> u8 list \<Rightarrow> bool \<Rightarrow> mq_result \<times> queues \<Rightarrow> mq_result \<times> bool \<times> queues" where
  "mq_post b msg urgent = (\<lambda>(r, m).
     case r of
       Mq_takes s \<Rightarrow>
         let (e, need_schedule, m) = mq_link b s urgent (m\<lparr>mqs := (mqs m)(b := mq_fill s msg urgent (mqs m b))\<rparr>)
         in (Mq_returns e, need_schedule, m)
     | Mq_waits _ _ \<Rightarrow> (r, True, m)
     | Mq_returns _ \<Rightarrow> (r, False, m))"

definition mq_switch :: "mq_result \<times> bool \<times> queues \<Rightarrow> mq_result \<times> queues" where
  "mq_switch = (\<lambda>(r, need_schedule, m). (r, if need_schedule then mq_schedule m else m))"

definition rt_mq_send_wait :: "nat \<Rightarrow> u8 list \<Rightarrow> int \<Rightarrow> nat \<Rightarrow> queues \<Rightarrow> (mq_result \<times> queues) option" where
  "rt_mq_send_wait b msg timeout t m =
     map_option (\<lambda>r. mq_switch (mq_post b msg False r)) (mq_send b msg timeout RT_UNINTERRUPTIBLE t m)"

definition rt_mq_send_wait_interruptible :: "nat \<Rightarrow> u8 list \<Rightarrow> int \<Rightarrow> nat \<Rightarrow> queues \<Rightarrow> (mq_result \<times> queues) option" where
  "rt_mq_send_wait_interruptible b msg timeout t m =
     map_option (\<lambda>r. mq_switch (mq_post b msg False r)) (mq_send b msg timeout RT_INTERRUPTIBLE t m)"

definition rt_mq_send_wait_killable :: "nat \<Rightarrow> u8 list \<Rightarrow> int \<Rightarrow> nat \<Rightarrow> queues \<Rightarrow> (mq_result \<times> queues) option" where
  "rt_mq_send_wait_killable b msg timeout t m =
     map_option (\<lambda>r. mq_switch (mq_post b msg False r)) (mq_send b msg timeout RT_KILLABLE t m)"

definition rt_mq_send :: "nat \<Rightarrow> u8 list \<Rightarrow> nat \<Rightarrow> queues \<Rightarrow> (mq_result \<times> queues) option" where
  "rt_mq_send b msg = rt_mq_send_wait b msg 0"

definition rt_mq_send_interruptible :: "nat \<Rightarrow> u8 list \<Rightarrow> nat \<Rightarrow> queues \<Rightarrow> (mq_result \<times> queues) option" where
  "rt_mq_send_interruptible b msg = rt_mq_send_wait_interruptible b msg 0"

definition rt_mq_send_killable :: "nat \<Rightarrow> u8 list \<Rightarrow> nat \<Rightarrow> queues \<Rightarrow> (mq_result \<times> queues) option" where
  "rt_mq_send_killable b msg = rt_mq_send_wait_killable b msg 0"

definition rt_mq_urgent :: "nat \<Rightarrow> u8 list \<Rightarrow> queues \<Rightarrow> mq_result \<times> queues" where
  "rt_mq_urgent b msg m = mq_switch (mq_post b msg True (mq_urgent b msg m))"

definition mq_fetch :: "nat \<Rightarrow> u32 \<Rightarrow> mq_result \<times> queues \<Rightarrow> (mq_result \<times> u8 list) \<times> queues" where
  "mq_fetch b room = (\<lambda>(r, m).
     case r of
       Mq_takes s \<Rightarrow>
         let buffer = mq_copy_out s room (mqs m b);
             (need_schedule, m) = mq_give_back b s m
         in ((Mq_returns (int (length buffer)), buffer), if need_schedule then mq_schedule m else m)
     | Mq_waits _ _ \<Rightarrow> ((r, []), mq_schedule m)
     | Mq_returns _ \<Rightarrow> ((r, []), m))"

definition rt_mq_recv :: "nat \<Rightarrow> u32 \<Rightarrow> int \<Rightarrow> nat \<Rightarrow> queues \<Rightarrow> ((mq_result \<times> u8 list) \<times> queues) option" where
  "rt_mq_recv b room timeout t m = map_option (mq_fetch b room) (mq_recv b timeout RT_UNINTERRUPTIBLE t m)"

definition rt_mq_recv_interruptible :: "nat \<Rightarrow> u32 \<Rightarrow> int \<Rightarrow> nat \<Rightarrow> queues \<Rightarrow> ((mq_result \<times> u8 list) \<times> queues) option" where
  "rt_mq_recv_interruptible b room timeout t m = map_option (mq_fetch b room) (mq_recv b timeout RT_INTERRUPTIBLE t m)"

definition rt_mq_recv_killable :: "nat \<Rightarrow> u32 \<Rightarrow> int \<Rightarrow> nat \<Rightarrow> queues \<Rightarrow> ((mq_result \<times> u8 list) \<times> queues) option" where
  "rt_mq_recv_killable b room timeout t m = map_option (mq_fetch b room) (mq_recv b timeout RT_KILLABLE t m)"

text \<open>The messages that are in the queue are thrown away, one after the other.\<close>

partial_function (option) mq_release_all :: "mqueue \<Rightarrow> mqueue option" where
  "mq_release_all x =
     (case mq_head x of
        None \<Rightarrow> Some x
      | Some s \<Rightarrow>
          let x = x\<lparr>mq_head := mq_next (mq_pool x s)\<rparr>;
              x = (if mq_tail x = Some s then x\<lparr>mq_tail := None\<rparr> else x)
          in mq_release_all (mq_give s x))"

definition rt_mq_control :: "nat \<Rightarrow> int \<Rightarrow> queues \<Rightarrow> (int \<times> queues) option" where
  "rt_mq_control b cmd m =
     (if cmd = RT_IPC_CMD_RESET then
        case ipc_resume_both b (qkern m) of
          None \<Rightarrow> None
        | Some k \<Rightarrow>
            map_option (\<lambda>x. (RT_EOK, mq_schedule (m\<lparr>qkern := k, mqs := (mqs m)(b := x\<lparr>mq_entry := 0\<rparr>)\<rparr>)))
              (mq_release_all (mqs m b))
      else Some (- RT_ERROR, m))"

section \<open>The places of a queue\<close>

text \<open>\<open>mq_chain p a ss\<close>: from \<open>a\<close> on the pointers lead through the places \<open>ss\<close> and end there.\<close>

fun mq_chain :: "(nat \<Rightarrow> mq_message) \<Rightarrow> nat option \<Rightarrow> nat list \<Rightarrow> bool" where
  "mq_chain p a [] \<longleftrightarrow> a = None"
| "mq_chain p a (s # ss) \<longleftrightarrow> a = Some s \<and> mq_chain p (mq_next (p s)) ss"

fun mq_walk :: "nat \<Rightarrow> (nat \<Rightarrow> mq_message) \<Rightarrow> nat option \<Rightarrow> nat list" where
  "mq_walk 0 p a = []"
| "mq_walk (Suc n) p None = []"
| "mq_walk (Suc n) p (Some s) = s # mq_walk n p (mq_next (p s))"

definition mq_text :: "mqueue \<Rightarrow> nat \<Rightarrow> u8 list" where
  "mq_text x s = take (unat (mq_length (mq_pool x s))) (mq_body (mq_pool x s))"

text \<open>The places in the queue and the free ones, and the messages.\<close>

definition mq_queued :: "mqueue \<Rightarrow> nat list" where
  "mq_queued x = mq_walk (unat (mq_entry x)) (mq_pool x) (mq_head x)"

definition mq_unused :: "mqueue \<Rightarrow> nat list" where
  "mq_unused x = mq_walk (unat (mq_max_msgs x)) (mq_pool x) (mq_free x)"

definition mq_contents :: "mqueue \<Rightarrow> u8 list list" where
  "mq_contents x = map (mq_text x) (mq_queued x)"

lemma mq_walk_chain: "mq_chain p a ss \<Longrightarrow> length ss \<le> n \<Longrightarrow> mq_walk n p a = ss"
proof (induction ss arbitrary: n a)
  case Nil
  then show ?case by (cases n) simp_all
next
  case (Cons s ss)
  then show ?case by (cases n) simp_all
qed

lemma mq_chain_cong: "(\<And>s. s \<in> set ss \<Longrightarrow> mq_next (p' s) = mq_next (p s)) \<Longrightarrow> mq_chain p' a ss = mq_chain p a ss"
  by (induction ss arbitrary: a) simp_all

lemma mq_chain_other [simp]: "s \<notin> set ss \<Longrightarrow> mq_chain (p(s := y)) a ss = mq_chain p a ss"
  by (rule mq_chain_cong) auto

lemma mq_chain_append:
  "mq_chain p a (ss @ [s]) \<Longrightarrow> s \<notin> set ss \<Longrightarrow> u \<noteq> s \<Longrightarrow> u \<notin> set ss \<Longrightarrow> mq_next (p u) = None \<Longrightarrow>
    mq_chain (p(s := (p s)\<lparr>mq_next := Some u\<rparr>)) a (ss @ [s, u])"
  by (induction ss arbitrary: a) auto

text \<open>
  A queue in order, with the places \<open>F\<close> that are free, \<open>Q\<close> that are in the queue, and \<open>H\<close> that are in the hands of
  a call: each place is in exactly one of them.
\<close>

definition mq_places :: "mqueue \<Rightarrow> nat list \<Rightarrow> nat list \<Rightarrow> nat set \<Rightarrow> bool" where
  "mq_places x F Q H \<longleftrightarrow>
     mq_chain (mq_pool x) (mq_free x) F \<and> mq_chain (mq_pool x) (mq_head x) Q \<and>
     mq_tail x = (if Q = [] then None else Some (last Q)) \<and> distinct (F @ Q) \<and> H \<inter> set (F @ Q) = {} \<and>
     H \<union> set (F @ Q) = {..<unat (mq_max_msgs x)} \<and> unat (mq_entry x) = length Q"

lemma mq_placesD:
  assumes "mq_places x F Q H"
  shows "mq_chain (mq_pool x) (mq_free x) F" and "mq_chain (mq_pool x) (mq_head x) Q"
    and "mq_tail x = (if Q = [] then None else Some (last Q))" and "distinct (F @ Q)" and "H \<inter> set (F @ Q) = {}"
    and "H \<union> set (F @ Q) = {..<unat (mq_max_msgs x)}" and "unat (mq_entry x) = length Q"
  using assms unfolding mq_places_def by blast+

lemma mq_places_count:
  assumes "mq_places x F Q H"
  shows "finite H" and "card H + length F + length Q = unat (mq_max_msgs x)"
proof -
  note d = mq_placesD [OF assms]
  show f: "finite H" using d(6) by (metis finite_Un finite_lessThan)
  have "card (H \<union> set (F @ Q)) = card H + card (set (F @ Q))" by (rule card_Un_disjoint [OF f _ d(5)]) simp
  then show "card H + length F + length Q = unat (mq_max_msgs x)" using distinct_card [OF d(4)] d(6) by simp
qed

lemma mq_places_walks:
  assumes "mq_places x F Q H"
  shows "mq_queued x = Q" and "mq_unused x = F" and "mq_contents x = map (mq_text x) Q"
  using mq_placesD(1,2,7) [OF assms] mq_places_count(2) [OF assms]
  by (simp_all add: mq_queued_def mq_unused_def mq_contents_def mq_walk_chain)

subsection \<open>The operations\<close>

lemma unat_u16_less: "unat (w :: u16) < 65536"
  using unsigned_less [of w] by simp

lemma mq_places_take_free:
  assumes x: "mq_places x F Q H" and s: "mq_free x = Some s"
  shows "mq_places (mq_take_free s x) (tl F) Q (insert s H)" and "s \<notin> H" and "F = s # tl F"
proof -
  note d = mq_placesD [OF x]
  show F: "F = s # tl F" using d(1) s by (cases F) auto
  then have F': "\<exists>F'. F = s # F'" by blast
  show "s \<notin> H" using d(5) F' by auto
  show "mq_places (mq_take_free s x) (tl F) Q (insert s H)"
    using d F' by (auto simp: mq_places_def mq_take_free_def)
qed

lemma mq_take_free_simps [simp]:
  "mq_pool (mq_take_free s x) = mq_pool x" "mq_text (mq_take_free s x) = mq_text x"
  "mq_msg_size (mq_take_free s x) = mq_msg_size x" "mq_max_msgs (mq_take_free s x) = mq_max_msgs x"
  by (simp_all add: mq_take_free_def mq_text_def fun_eq_iff)

lemma mq_places_pool:
  assumes x: "mq_places x F Q H" and p: "\<And>s. s \<in> set (F @ Q) \<Longrightarrow> mq_next (p s) = mq_next (mq_pool x s)"
  shows "mq_places (x\<lparr>mq_pool := p\<rparr>) F Q H"
  using x p mq_chain_cong [of F p "mq_pool x"] mq_chain_cong [of Q p "mq_pool x"] by (simp add: mq_places_def)

lemma mq_places_fill:
  assumes x: "mq_places x F Q H" and s: "s \<in> H"
  shows "mq_places (mq_fill s msg u x) F Q H"
proof -
  have "s \<notin> set (F @ Q)" using mq_placesD(5) [OF x] s by blast
  then have "mq_places (x\<lparr>mq_pool := (mq_pool x)(s := y)\<rparr>) F Q H" for y
    by (intro mq_places_pool [OF x]) auto
  then show ?thesis by (simp add: mq_fill_def mq_copy_in_def mq_set_next_def)
qed

lemma mq_text_fill:
  assumes "length msg < 4294967296"
  shows "mq_text (mq_fill s msg u x) r = (if r = s then msg else mq_text x r)"
  using assms by (simp add: mq_text_def mq_fill_def mq_copy_in_def mq_set_next_def unsigned_of_nat take_bit_nat_eq_self)

lemma mq_fill_simps [simp]:
  "mq_msg_size (mq_fill s msg u x) = mq_msg_size x" "mq_max_msgs (mq_fill s msg u x) = mq_max_msgs x"
  "mq_next (mq_pool (mq_fill s msg u x) r) = (if r = s \<and> \<not> u then None else mq_next (mq_pool x r))"
  by (simp_all add: mq_fill_def mq_copy_in_def mq_set_next_def)

lemma mq_entry_up:
  assumes x: "mq_places x F Q H" and s: "s \<in> H"
  shows "unat (mq_entry x + 1) = Suc (length Q)" and "mq_entry x < RT_MQ_ENTRY_MAX" and "length Q < unat (mq_max_msgs x)"
proof -
  have "card H > 0" using mq_places_count(1) [OF x] s by (auto simp: card_gt_0_iff)
  then show l: "length Q < unat (mq_max_msgs x)" using mq_places_count(2) [OF x] by simp
  then have l': "length Q < 65535" using unat_u16_less [of "mq_max_msgs x"] by simp
  then show e: "mq_entry x < RT_MQ_ENTRY_MAX"
    using mq_placesD(7) [OF x] by (simp add: RT_MQ_ENTRY_MAX_def word_less_nat_alt)
  then have "mq_entry x + 1 \<noteq> 0" by (metis add.commute add_eq_0_iff max_word_max not_le)
  then show "unat (mq_entry x + 1) = Suc (length Q)" using mq_placesD(7) [OF x] by (simp add: unatSuc add.commute)
qed

lemma mq_places_append:
  assumes x: "mq_places x F Q H" and s: "s \<in> H" and n: "mq_next (mq_pool x s) = None"
  shows "mq_places ((mq_append s x)\<lparr>mq_entry := mq_entry x + 1\<rparr>) F (Q @ [s]) (H - {s})"
proof -
  note d = mq_placesD [OF x]
  have out: "s \<notin> set F" "s \<notin> set Q" using d(5) s by auto
  show ?thesis
  proof (cases Q rule: rev_cases)
    case Nil
    then show ?thesis
      using d out s n mq_entry_up(1) [OF x s] by (auto simp: mq_places_def mq_append_def Let_def)
  next
    case (snoc R u)
    let ?p = "(mq_pool x)(u := (mq_pool x u)\<lparr>mq_next := Some s\<rparr>)"
    have u: "u \<notin> set R" "u \<notin> set F" "s \<noteq> u" "s \<notin> set R" using d(4) out by (auto simp: snoc)
    have "mq_head x \<noteq> None" using d(2) by (cases R) (auto simp: snoc)
    then have y: "(mq_append s x)\<lparr>mq_entry := mq_entry x + 1\<rparr> = x\<lparr>mq_pool := ?p, mq_tail := Some s, mq_entry := mq_entry x + 1\<rparr>"
      using d(3) by (simp add: mq_append_def mq_set_next_def Let_def snoc)
    have "mq_chain ?p (mq_head x) (Q @ [s])"
      using mq_chain_append [of "mq_pool x" "mq_head x" R u s] d(2) u n by (simp add: snoc)
    moreover have "mq_chain ?p (mq_free x) F" using d(1) u(2) by simp
    ultimately show ?thesis
      unfolding y mq_places_def using d(4-6) out s mq_entry_up(1) [OF x s] by auto
  qed
qed

lemma mq_places_prepend:
  assumes x: "mq_places x F Q H" and s: "s \<in> H"
  shows "mq_places ((mq_prepend s x)\<lparr>mq_entry := mq_entry x + 1\<rparr>) F (s # Q) (H - {s})"
proof -
  note d = mq_placesD [OF x]
  let ?p = "(mq_pool x)(s := (mq_pool x s)\<lparr>mq_next := mq_head x\<rparr>)"
  have out: "s \<notin> set F" "s \<notin> set Q" using d(5) s by auto
  have "mq_chain ?p (mq_free x) F" "mq_chain ?p (mq_head x) Q" using d(1,2) out by simp_all
  then show ?thesis
    using d(3-7) out s mq_entry_up(1) [OF x s] by (auto simp: mq_places_def mq_prepend_def mq_set_next_def Let_def)
qed

lemma mq_link_simps [simp]:
  "mq_text (mq_append s x) = mq_text x" "mq_text (mq_prepend s x) = mq_text x"
  "mq_entry (mq_append s x) = mq_entry x" "mq_entry (mq_prepend s x) = mq_entry x"
  "mq_msg_size (mq_append s x) = mq_msg_size x" "mq_msg_size (mq_prepend s x) = mq_msg_size x"
  "mq_max_msgs (mq_append s x) = mq_max_msgs x" "mq_max_msgs (mq_prepend s x) = mq_max_msgs x"
  by (auto simp: mq_append_def mq_prepend_def mq_set_next_def mq_text_def Let_def fun_eq_iff split: option.split)

lemma mq_text_entry [simp]: "mq_text (x\<lparr>mq_entry := e\<rparr>) = mq_text x"
  by (simp add: mq_text_def fun_eq_iff)

lemma mq_places_take_head:
  assumes x: "mq_places x F Q H" and e: "mq_entry x \<noteq> 0"
  obtains s Q' where "mq_head x = Some s" "Q = s # Q'" "s \<notin> H" "mq_places (mq_take_head s x) F Q' (insert s H)"
proof -
  note d = mq_placesD [OF x]
  have u: "unat (mq_entry x - 1) = unat (mq_entry x) - 1" "unat (mq_entry x) > 0"
    using e by (simp_all add: unat_minus_one unat_gt_0)
  then obtain s Q' where Q: "Q = s # Q'" using d(7) by (cases Q) auto
  have pos: "mq_entry x > 0" using e by (simp add: word_greater_zero_iff)
  have t: "mq_tail x = Some s \<longleftrightarrow> Q' = []" using d(3,4) by (cases Q' rule: rev_cases) (auto simp: Q)
  let ?y = "mq_take_head s x"
  have y: "mq_pool ?y = mq_pool x" "mq_free ?y = mq_free x" "mq_head ?y = mq_next (mq_pool x s)" "mq_max_msgs ?y = mq_max_msgs x"
    "mq_tail ?y = (if Q' = [] then None else mq_tail x)" "mq_entry ?y = mq_entry x - 1"
    using t pos by (auto simp: mq_take_head_def Let_def)
  have "mq_places ?y F Q' (insert s H)"
    unfolding mq_places_def y u using d by (intro conjI) (auto simp: Q)
  moreover have "mq_head x = Some s" "s \<notin> H" using d(2,5) by (simp_all add: Q)
  ultimately show ?thesis using Q by (intro that)
qed

lemma mq_take_head_simps [simp]:
  "mq_pool (mq_take_head s x) = mq_pool x" "mq_text (mq_take_head s x) = mq_text x"
  "mq_msg_size (mq_take_head s x) = mq_msg_size x" "mq_max_msgs (mq_take_head s x) = mq_max_msgs x"
  by (simp_all add: mq_take_head_def mq_text_def Let_def fun_eq_iff)

lemma mq_copy_out_text: "mq_copy_out s room x = take (unat room) (mq_text x s)"
  by (simp add: mq_copy_out_def mq_text_def Let_def min_def word_less_nat_alt)

lemma mq_places_give:
  assumes x: "mq_places x F Q H" and s: "s \<in> H"
  shows "mq_places (mq_give s x) (s # F) Q (H - {s})"
proof -
  note d = mq_placesD [OF x]
  let ?p = "(mq_pool x)(s := (mq_pool x s)\<lparr>mq_next := mq_free x\<rparr>)"
  have out: "s \<notin> set F" "s \<notin> set Q" using d(5) s by auto
  have "mq_chain ?p (mq_free x) F" "mq_chain ?p (mq_head x) Q" using d(1,2) out by simp_all
  then show ?thesis
    using d(3-7) out s by (auto simp: mq_places_def mq_give_def mq_set_next_def)
qed

lemma mq_give_simps [simp]:
  "mq_text (mq_give s x) = mq_text x" "mq_msg_size (mq_give s x) = mq_msg_size x" "mq_max_msgs (mq_give s x) = mq_max_msgs x"
  "mq_entry (mq_give s x) = mq_entry x" "mq_head (mq_give s x) = mq_head x" "mq_tail (mq_give s x) = mq_tail x"
  "mq_free (mq_give s x) = Some s"
  by (simp_all add: mq_give_def mq_set_next_def mq_text_def fun_eq_iff)

lemma mq_chain_give:
  "mq_chain (mq_pool x) (mq_free x) ss \<Longrightarrow> s \<notin> set ss \<Longrightarrow> mq_chain (mq_pool (mq_give s x)) (mq_free (mq_give s x)) (s # ss)"
  by (simp add: mq_give_def mq_set_next_def)

lemma mq_places_init: "mq_places (mq_lists_init x) (rev [0..<unat (mq_max_msgs x)]) [] {}"
proof -
  let ?x = "x\<lparr>mq_head := None, mq_tail := None, mq_free := None\<rparr>"
  let ?f = "foldl (\<lambda>x temp. mq_give temp x) ?x"
  have "mq_chain (mq_pool (?f [0..<n])) (mq_free (?f [0..<n])) (rev [0..<n]) \<and>
      mq_head (?f [0..<n]) = None \<and> mq_tail (?f [0..<n]) = None \<and> mq_max_msgs (?f [0..<n]) = mq_max_msgs x" for n
    by (induction n) (simp_all add: mq_chain_give [simplified])
  then show ?thesis by (auto simp: mq_lists_init_def mq_places_def Let_def)
qed

lemma mq_release_all_ok:
  assumes "mq_places x F Q H"
  shows "\<exists>y. mq_release_all x = Some y \<and> mq_places (y\<lparr>mq_entry := 0\<rparr>) (rev Q @ F) [] H \<and>
    mq_max_msgs y = mq_max_msgs x \<and> mq_msg_size y = mq_msg_size x"
proof -
  have "\<exists>y. mq_release_all x = Some y \<and> mq_places (y\<lparr>mq_entry := 0\<rparr>) (rev Q @ F) [] H \<and>
      mq_max_msgs y = mq_max_msgs x \<and> mq_msg_size y = mq_msg_size x"
    if "mq_places (x\<lparr>mq_entry := of_nat (length Q)\<rparr>) F Q H" for x
    using that
  proof (induction Q arbitrary: x F)
    case Nil
    then have "mq_head x = None" by (simp add: mq_places_def)
    then show ?case using Nil by (subst mq_release_all.simps) simp
  next
    case (Cons s Q)
    note d = mq_placesD [OF Cons.prems]
    let ?x1 = "x\<lparr>mq_head := mq_next (mq_pool x s)\<rparr>"
    let ?x2 = "if mq_tail ?x1 = Some s then ?x1\<lparr>mq_tail := None\<rparr> else ?x1"
    let ?x = "mq_give s ?x2"
    have t: "mq_tail x = Some s \<longleftrightarrow> Q = []" using d(3,4) by (cases Q rule: rev_cases) auto
    have fit: "Suc (length Q) < 65536"
      using mq_places_count(2) [OF Cons.prems] unat_u16_less [of "mq_max_msgs x"] by simp
    then have u: "unat (of_nat (length Q) :: u16) = length Q" by (simp add: unsigned_of_nat take_bit_nat_eq_self)
    have y: "mq_pool ?x2 = mq_pool x" "mq_free ?x2 = mq_free x" "mq_head ?x2 = mq_next (mq_pool x s)"
      "mq_max_msgs ?x2 = mq_max_msgs x" "mq_tail ?x2 = (if Q = [] then None else mq_tail x)" "mq_msg_size ?x2 = mq_msg_size x"
      using t by simp_all
    have "mq_places (?x2\<lparr>mq_entry := of_nat (length Q)\<rparr>) F Q (insert s H)"
      unfolding mq_places_def using d y u by (intro conjI) auto
    then have "mq_places (mq_give s (?x2\<lparr>mq_entry := of_nat (length Q)\<rparr>)) (s # F) Q (insert s H - {s})"
      by (rule mq_places_give) simp
    moreover have "insert s H - {s} = H" using d(5) by auto
    moreover have "mq_give s (?x2\<lparr>mq_entry := of_nat (length Q)\<rparr>) = ?x\<lparr>mq_entry := of_nat (length Q)\<rparr>"
      by (simp add: mq_give_def mq_set_next_def)
    ultimately obtain z where "mq_release_all ?x = Some z" "mq_places (z\<lparr>mq_entry := 0\<rparr>) (rev Q @ s # F) [] H"
      "mq_max_msgs z = mq_max_msgs x" "mq_msg_size z = mq_msg_size x"
      using Cons.IH [of ?x "s # F"] y by auto
    moreover have "mq_release_all x = mq_release_all ?x"
      using d(2) by (subst mq_release_all.simps) (simp add: Let_def)
    ultimately show ?case by simp
  qed
  moreover have "of_nat (length Q) = mq_entry x" using arg_cong [OF mq_placesD(7) [OF assms], of "of_nat :: nat \<Rightarrow> u16"] by simp
  ultimately show ?thesis using assms by simp
qed

section \<open>Message queues under way\<close>

text \<open>A call of a thread that has no place yet, with its arguments and locals, and what a thread does with a place.\<close>

datatype mq_call = Sends nat "u8 list" int u32 suspend_flag | Sends_urgent nat "u8 list" | Receives nat u32 int u32 suspend_flag

datatype mq_phase = Fills "u8 list" bool | Links "u8 list" bool | Drains u32 | Gives_back "u8 list"

fun mq_queue_of :: "mq_call \<Rightarrow> nat" where
  "mq_queue_of (Sends b _ _ _ _) = b"
| "mq_queue_of (Sends_urgent b _) = b"
| "mq_queue_of (Receives b _ _ _ _) = b"

fun mq_list_of :: "mq_call \<Rightarrow> nat" where
  "mq_list_of (Receives b _ _ _ _) = receivers b"
| "mq_list_of c = senders (mq_queue_of c)"

fun mq_phase_of :: "mq_call \<Rightarrow> mq_phase" where
  "mq_phase_of (Sends _ msg _ _ _) = Fills msg False"
| "mq_phase_of (Sends_urgent _ msg) = Fills msg True"
| "mq_phase_of (Receives _ room _ _ _) = Drains room"

fun mq_called :: "mq_call \<Rightarrow> nat \<Rightarrow> queues \<Rightarrow> (mq_result \<times> queues) option" where
  "mq_called (Sends b msg timeout _ sflag) t m = mq_send b msg timeout sflag t m"
| "mq_called (Sends_urgent b msg) t m = Some (mq_urgent b msg m)"
| "mq_called (Receives b _ timeout _ sflag) t m = mq_recv b timeout sflag t m"

fun mq_resumed :: "mq_call \<Rightarrow> nat \<Rightarrow> queues \<Rightarrow> (mq_result \<times> queues) option" where
  "mq_resumed (Sends b _ timeout tick_delta sflag) t m = mq_send_resumed b timeout tick_delta sflag t m"
| "mq_resumed (Sends_urgent b msg) t m = None"
| "mq_resumed (Receives b _ timeout tick_delta sflag) t m = mq_recv_resumed b timeout tick_delta sflag t m"

fun mq_set_locals :: "mq_call \<Rightarrow> int \<Rightarrow> u32 \<Rightarrow> mq_call" where
  "mq_set_locals (Sends b msg _ _ sflag) timeout tick_delta = Sends b msg timeout tick_delta sflag"
| "mq_set_locals (Sends_urgent b msg) timeout tick_delta = Sends_urgent b msg"
| "mq_set_locals (Receives b room _ _ sflag) timeout tick_delta = Receives b room timeout tick_delta sflag"

lemma mq_set_locals_simps [simp]:
  "mq_list_of (mq_set_locals c timeout tick_delta) = mq_list_of c" "mq_queue_of (mq_set_locals c timeout tick_delta) = mq_queue_of c"
  "mq_phase_of (mq_set_locals c timeout tick_delta) = mq_phase_of c"
  by (cases c; simp)+

text \<open>
  The system: positions of the threads at the scheduler, their calls, the places in their hands; the history of the
  queues; for every thread the messages that were taken out for it, with the size of its buffer, and what its calls that
  are through returned.
\<close>

record mq_run =
  qstate :: queues
  qpc :: "nat \<Rightarrow> pc"
  qcall :: "nat \<Rightarrow> mq_call"
  qhand :: "nat \<Rightarrow> (nat \<times> nat \<times> mq_phase) option"
  qtrace :: "u8 list queue_event list"
  qtaken :: "nat \<Rightarrow> (u32 \<times> u8 list) list"
  qgot :: "nat \<Rightarrow> u8 list list"

fun mq_takes :: "mq_call \<Rightarrow> nat \<Rightarrow> nat \<Rightarrow> queues \<Rightarrow> mq_run \<Rightarrow> mq_run" where
  "mq_takes (Receives b room timeout tick_delta sflag) t s x m =
     m\<lparr>qstate := x, qpc := (qpc m)(t := Outside), qhand := (qhand m)(t := Some (b, s, Drains room)),
       qtrace := qtrace m @ [Fetched b (mq_text (mqs x b) s)],
       qtaken := (qtaken m)(t := qtaken m t @ [(room, mq_text (mqs x b) s)])\<rparr>"
| "mq_takes c t s x m =
     m\<lparr>qstate := x, qpc := (qpc m)(t := Outside), qhand := (qhand m)(t := Some (mq_queue_of c, s, mq_phase_of c))\<rparr>"

definition mq_posted :: "nat \<Rightarrow> u8 list \<Rightarrow> bool \<Rightarrow> int \<Rightarrow> u8 list queue_event list" where
  "mq_posted b msg urgent r = (if r = RT_EOK then [if urgent then Posted_front b msg else Posted b msg] else [])"

text \<open>
  One step: the current thread calls, and returns, takes a place or waits; it calls the scheduler to wait; it runs again;
  it fills its place, links it, copies a message out, gives its place back; an interrupt sends; an interrupt calls the
  scheduler; the clock ticks; a timer runs out; a thread yields.  The thread \<open>idle\<close> does not wait.
\<close>

inductive mq_step :: "nat \<Rightarrow> mq_run \<Rightarrow> mq_run \<Rightarrow> bool" for idle where
  call_returns: "rt_current_thread (qkern (qstate m)) = Some t \<Longrightarrow> qpc m t = Outside \<Longrightarrow> qhand m t = None \<Longrightarrow>
    mq_called c t (qstate m) = Some (Mq_returns r, x) \<Longrightarrow> mq_step idle m (m\<lparr>qstate := x\<rparr>)"
| call_takes: "rt_current_thread (qkern (qstate m)) = Some t \<Longrightarrow> qpc m t = Outside \<Longrightarrow> qhand m t = None \<Longrightarrow>
    mq_called c t (qstate m) = Some (Mq_takes s, x) \<Longrightarrow> mq_step idle m (mq_takes c t s x m)"
| call_waits: "rt_current_thread (qkern (qstate m)) = Some t \<Longrightarrow> t \<noteq> idle \<Longrightarrow> qpc m t = Outside \<Longrightarrow> qhand m t = None \<Longrightarrow>
    mq_called c t (qstate m) = Some (Mq_waits timeout tick_delta, x) \<Longrightarrow>
    mq_step idle m (m\<lparr>qstate := x, qpc := (qpc m)(t := Before (mq_list_of c)),
      qcall := (qcall m)(t := mq_set_locals c timeout tick_delta)\<rparr>)"
| call_switches: "rt_current_thread (qkern (qstate m)) = Some t \<Longrightarrow> qpc m t = Before l \<Longrightarrow>
    mq_step idle m (m\<lparr>qstate := mq_schedule (qstate m), qpc := (qpc m)(t := After l)\<rparr>)"
| resumed_returns: "rt_current_thread (qkern (qstate m)) = Some t \<Longrightarrow> qpc m t = After l \<Longrightarrow>
    mq_resumed (qcall m t) t (qstate m) = Some (Mq_returns r, x) \<Longrightarrow>
    mq_step idle m (m\<lparr>qstate := x, qpc := (qpc m)(t := Outside)\<rparr>)"
| resumed_takes: "rt_current_thread (qkern (qstate m)) = Some t \<Longrightarrow> qpc m t = After l \<Longrightarrow>
    mq_resumed (qcall m t) t (qstate m) = Some (Mq_takes s, x) \<Longrightarrow> mq_step idle m (mq_takes (qcall m t) t s x m)"
| resumed_waits: "rt_current_thread (qkern (qstate m)) = Some t \<Longrightarrow> qpc m t = After l \<Longrightarrow>
    mq_resumed (qcall m t) t (qstate m) = Some (Mq_waits timeout tick_delta, x) \<Longrightarrow>
    mq_step idle m (m\<lparr>qstate := x, qpc := (qpc m)(t := Before l),
      qcall := (qcall m)(t := mq_set_locals (qcall m t) timeout tick_delta)\<rparr>)"
| fills: "rt_current_thread (qkern (qstate m)) = Some t \<Longrightarrow> qhand m t = Some (b, s, Fills msg urgent) \<Longrightarrow>
    mq_step idle m (m\<lparr>qstate := (qstate m)\<lparr>mqs := (mqs (qstate m))(b := mq_fill s msg urgent (mqs (qstate m) b))\<rparr>,
      qhand := (qhand m)(t := Some (b, s, Links msg urgent))\<rparr>)"
| links: "rt_current_thread (qkern (qstate m)) = Some t \<Longrightarrow> qhand m t = Some (b, s, Links msg urgent) \<Longrightarrow>
    mq_link b s urgent (qstate m) = (r, need_schedule, x) \<Longrightarrow>
    mq_step idle m (m\<lparr>qstate := x, qhand := (qhand m)(t := None), qtrace := qtrace m @ mq_posted b msg urgent r\<rparr>)"
| drains: "rt_current_thread (qkern (qstate m)) = Some t \<Longrightarrow> qhand m t = Some (b, s, Drains room) \<Longrightarrow>
    mq_step idle m (m\<lparr>qhand := (qhand m)(t := Some (b, s, Gives_back (mq_copy_out s room (mqs (qstate m) b))))\<rparr>)"
| gives_back: "rt_current_thread (qkern (qstate m)) = Some t \<Longrightarrow> qhand m t = Some (b, s, Gives_back buffer) \<Longrightarrow>
    mq_give_back b s (qstate m) = (need_schedule, x) \<Longrightarrow>
    mq_step idle m (m\<lparr>qstate := x, qhand := (qhand m)(t := None), qgot := (qgot m)(t := qgot m t @ [buffer])\<rparr>)"
| interrupt_sends: "mq_send b msg 0 sflag t (qstate m) = Some y \<Longrightarrow>
    mq_post b msg False y = (Mq_returns r, need_schedule, x) \<Longrightarrow>
    mq_step idle m (m\<lparr>qstate := x, qtrace := qtrace m @ mq_posted b msg False r\<rparr>)"
| interrupt_sends_urgent: "mq_post b msg True (mq_urgent b msg (qstate m)) = (Mq_returns r, need_schedule, x) \<Longrightarrow>
    mq_step idle m (m\<lparr>qstate := x, qtrace := qtrace m @ mq_posted b msg True r\<rparr>)"
| schedules: "mq_step idle m (m\<lparr>qstate := mq_schedule (qstate m)\<rparr>)"
| ticks: "mq_step idle m (m\<lparr>qstate := (qstate m)\<lparr>qkern := rt_tick_increase (qkern (qstate m))\<rparr>\<rparr>)"
| times_out: "thread_timer (qkern (qstate m)) t \<noteq> None \<Longrightarrow>
    mq_step idle m (m\<lparr>qstate := (qstate m)\<lparr>qkern :=
      thread_timeout t ((qkern (qstate m))\<lparr>thread_timer := (thread_timer (qkern (qstate m)))(t := None)\<rparr>)\<rparr>\<rparr>)"
| yields: "mq_step idle m (m\<lparr>qstate := (qstate m)\<lparr>qkern := snd (rt_thread_yield (qkern (qstate m)))\<rparr>\<rparr>)"

inductive_cases mq_stepE: "mq_step idle m m'"

section \<open>The invariant\<close>

text \<open>
  The part of it about kernel and queues: with the free places \<open>F\<close>, the queued ones \<open>Q\<close> and those in hands \<open>H\<close>,
  the sizes \<open>n\<close> of the queues and \<open>z\<close> of their messages; and no wake-up is lost.
\<close>

definition mq_core ::
    "nat \<Rightarrow> (nat \<Rightarrow> nat) \<Rightarrow> (nat \<Rightarrow> nat) \<Rightarrow> (nat \<Rightarrow> pc) \<Rightarrow> queues \<Rightarrow> (nat \<Rightarrow> nat list) \<Rightarrow> (nat \<Rightarrow> nat list) \<Rightarrow>
      (nat \<Rightarrow> nat set) \<Rightarrow> (nat \<Rightarrow> nat) \<Rightarrow> (tlist_head \<Rightarrow> nat list) \<Rightarrow> bool" where
  "mq_core idle n z p m F Q H extra L \<longleftrightarrow>
     line_ok idle p (qkern m) (stock (\<lambda>b. length (Q b)) (\<lambda>b. length (F b))) extra L \<and>
     (\<forall>b. mq_places (mqs m b) (F b) (Q b) (H b) \<and> unat (mq_max_msgs (mqs m b)) = n b \<and> unat (mq_msg_size (mqs m b)) = z b)"

lemma mq_coreD:
  assumes "mq_core idle n z p m F Q H extra L"
  shows "line_ok idle p (qkern m) (stock (\<lambda>b. length (Q b)) (\<lambda>b. length (F b))) extra L"
    and "\<And>b. mq_places (mqs m b) (F b) (Q b) (H b)" and "\<And>b. unat (mq_max_msgs (mqs m b)) = n b"
    and "\<And>b. unat (mq_msg_size (mqs m b)) = z b"
  using assms unfolding mq_core_def by blast+

lemma mq_coreI:
  assumes "line_ok idle p (qkern m) (stock (\<lambda>b. length (Q b)) (\<lambda>b. length (F b))) extra L"
    and "\<And>b. mq_places (mqs m b) (F b) (Q b) (H b)" and "\<And>b. unat (mq_max_msgs (mqs m b)) = n b"
    and "\<And>b. unat (mq_msg_size (mqs m b)) = z b"
  shows "mq_core idle n z p m F Q H extra L"
  using assms unfolding mq_core_def by blast

lemma mq_core_kern:
  assumes "mq_core idle n z p m F Q H extra L"
    and "line_ok idle p' k (stock (\<lambda>b. length (Q b)) (\<lambda>b. length (F b))) extra' L'"
  shows "mq_core idle n z p' (m\<lparr>qkern := k\<rparr>) F Q H extra' L'"
  using assms by (simp add: mq_core_def)

lemma stock_lengths:
  "stock (\<lambda>b. length ((Q(c := qs)) b)) free = (stock (\<lambda>b. length (Q b)) free)(receivers c := length qs)"
  "stock full (\<lambda>b. length ((F(c := fs)) b)) = (stock full (\<lambda>b. length (F b)))(senders c := length fs)"
  by (auto simp: stock_upd intro!: arg_cong2 [where f = stock])

text \<open>What nobody has touched.\<close>

definition mq_same :: "(nat \<Rightarrow> nat set) \<Rightarrow> queues \<Rightarrow> queues \<Rightarrow> bool" where
  "mq_same R m m' \<longleftrightarrow> (\<forall>b. \<forall>r\<in>R b. mq_text (mqs m' b) r = mq_text (mqs m b) r \<and>
     mq_next (mq_pool (mqs m' b) r) = mq_next (mq_pool (mqs m b) r))"

lemma mq_core_take_free:
  assumes ok: "mq_core idle n z p m F Q H (came_back (senders b)) L" and s: "mq_free (mqs m b) = Some s"
  defines "m' \<equiv> m\<lparr>mqs := (mqs m)(b := mq_take_free s (mqs m b))\<rparr>"
  shows "mq_core idle n z p m' (F(b := tl (F b))) Q (H(b := insert s (H b))) (\<lambda>_. 0) L"
    and "s \<notin> H b" and "mq_text (mqs m' c) = mq_text (mqs m c)" and "mq_same R m m'"
proof -
  note d = mq_coreD [OF ok]
  note t = mq_places_take_free [OF d(2) s]
  show "s \<notin> H b" by (rule t)
  have "line_ok idle p (qkern m) (stock (\<lambda>b. length (Q b)) (\<lambda>c. length ((F(b := tl (F b))) c))) (\<lambda>_. 0) L"
    unfolding stock_lengths using t(3) by (intro line_mono [OF d(1)]) (cases "F b"; auto)
  then show "mq_core idle n z p m' (F(b := tl (F b))) Q (H(b := insert s (H b))) (\<lambda>_. 0) L"
    using d t(1) unfolding m'_def by (intro mq_coreI) simp_all
  show "mq_text (mqs m' c) = mq_text (mqs m c)" by (simp add: m'_def)
  show "mq_same R m m'" by (simp add: m'_def mq_same_def)
qed

lemma mq_core_fill:
  fixes u :: bool
  assumes ok: "mq_core idle n z p m F Q H extra L" and s: "s \<in> H b" and msg: "length msg \<le> z b"
  defines "m' \<equiv> m\<lparr>mqs := (mqs m)(b := mq_fill s msg u (mqs m b))\<rparr>"
  shows "mq_core idle n z p m' F Q H extra L" and "mq_text (mqs m' b) s = msg"
    and "\<not> u \<Longrightarrow> mq_next (mq_pool (mqs m' b) s) = None" and "mq_same (H(b := H b - {s})) m m'"
    and "map (mq_text (mqs m' c)) (Q c) = map (mq_text (mqs m c)) (Q c)"
proof -
  note d = mq_coreD [OF ok]
  have l: "length msg < 4294967296" using msg d(4) [of b] unat_u16_less [of "mq_msg_size (mqs m b)"] by simp
  show "mq_core idle n z p m' F Q H extra L"
    using d mq_places_fill [OF d(2) s] unfolding m'_def by (intro mq_coreI) simp_all
  show "mq_text (mqs m' b) s = msg" "\<not> u \<Longrightarrow> mq_next (mq_pool (mqs m' b) s) = None"
    by (simp_all add: m'_def mq_text_fill [OF l])
  show "mq_same (H(b := H b - {s})) m m'" by (simp add: m'_def mq_same_def mq_text_fill [OF l])
  have "s \<notin> set (Q b)" using mq_placesD(5) [OF d(2)] s by auto
  then show "map (mq_text (mqs m' c)) (Q c) = map (mq_text (mqs m c)) (Q c)" by (auto simp: m'_def mq_text_fill [OF l])
qed

lemma mq_link_next:
  assumes "mq_places x F Q H" and "r \<in> H" and "r \<noteq> s"
  shows "mq_next (mq_pool (mq_append s x) r) = mq_next (mq_pool x r)" and "mq_next (mq_pool (mq_prepend s x) r) = mq_next (mq_pool x r)"
proof -
  have "mq_tail x \<noteq> Some r" using mq_placesD(3,5) [OF assms(1)] assms(2) by (cases Q rule: rev_cases) auto
  then show "mq_next (mq_pool (mq_append s x) r) = mq_next (mq_pool x r)"
    by (auto simp: mq_append_def mq_set_next_def Let_def split: option.split)
  show "mq_next (mq_pool (mq_prepend s x) r) = mq_next (mq_pool x r)"
    using assms(3) by (simp add: mq_prepend_def mq_set_next_def Let_def)
qed

lemma mq_core_link:
  assumes ok: "mq_core idle n z p m F Q H (\<lambda>_. 0) L" and s: "s \<in> H b"
    and nx: "\<not> u \<Longrightarrow> mq_next (mq_pool (mqs m b) s) = None"
  obtains ns m' L' where "mq_link b s u m = (RT_EOK, ns, m')"
    "mq_core idle n z p m' F (Q(b := if u then s # Q b else Q b @ [s])) (H(b := H b - {s})) (\<lambda>_. 0) L'"
    "\<forall>c. mq_text (mqs m' c) = mq_text (mqs m c)" "mq_same (H(b := H b - {s})) m m'" "length (Q b) < n b"
proof -
  note d = mq_coreD [OF ok]
  let ?x = "if u then mq_prepend s (mqs m b) else mq_append s (mqs m b)"
  let ?Q = "Q(b := if u then s # Q b else Q b @ [s])"
  obtain ns k L' where w: "ipc_wake (receivers b) (qkern m) = (ns, k)"
    "line_ok idle p k ((stock (\<lambda>b. length (Q b)) (\<lambda>b. length (F b)))(receivers b := length (Q b) + 1)) (\<lambda>_. 0) L'"
    using line_wake [OF d(1), of "receivers b"] by auto
  let ?m = "m\<lparr>qkern := k, mqs := (mqs m)(b := ?x\<lparr>mq_entry := mq_entry ?x + 1\<rparr>)\<rparr>"
  have e: "mq_entry ?x = mq_entry (mqs m b)" by simp
  have "mq_link b s u m = (RT_EOK, ns, ?m)"
    using mq_entry_up(2) [OF d(2) s] w(1) by (simp add: mq_link_def Let_def e)
  moreover have "mq_core idle n z p ?m F ?Q (H(b := H b - {s})) (\<lambda>_. 0) L'"
  proof (rule mq_coreI)
    show "line_ok idle p (qkern ?m) (stock (\<lambda>b. length (?Q b)) (\<lambda>b. length (F b))) (\<lambda>_. 0) L'"
      unfolding stock_lengths using w(2) by (cases u) simp_all
    show "mq_places (mqs ?m c) (F c) (?Q c) ((H(b := H b - {s})) c)" for c
      using mq_places_append [OF d(2) s nx] mq_places_prepend [OF d(2) s] d(2) [of c] by (cases u) simp_all
  qed (use d(3,4) in simp_all)
  moreover have "mq_same (H(b := H b - {s})) m ?m"
    using mq_link_next [OF d(2) [of b]] by (simp add: mq_same_def)
  ultimately show ?thesis using mq_entry_up(3) [OF d(2) s] d(3) [of b] by (intro that) simp_all
qed

lemma mq_core_take_head:
  assumes ok: "mq_core idle n z p m F Q H (came_back (receivers b)) L" and e: "mq_entry (mqs m b) \<noteq> 0"
  obtains s Q' m' where "mq_head (mqs m b) = Some s" "m' = m\<lparr>mqs := (mqs m)(b := mq_take_head s (mqs m b))\<rparr>" "Q b = s # Q'" "s \<notin> H b"
    "mq_core idle n z p m' F (Q(b := Q')) (H(b := insert s (H b))) (\<lambda>_. 0) L"
    "\<forall>c. mq_text (mqs m' c) = mq_text (mqs m c)" "\<forall>R. mq_same R m m'"
proof -
  note d = mq_coreD [OF ok]
  obtain s Q' where s: "mq_head (mqs m b) = Some s" "Q b = s # Q'" "s \<notin> H b"
    "mq_places (mq_take_head s (mqs m b)) (F b) Q' (insert s (H b))"
    by (rule mq_places_take_head [OF d(2) e])
  let ?m = "m\<lparr>mqs := (mqs m)(b := mq_take_head s (mqs m b))\<rparr>"
  have "line_ok idle p (qkern m) (stock (\<lambda>c. length ((Q(b := Q')) c)) (\<lambda>b. length (F b))) (\<lambda>_. 0) L"
    unfolding stock_lengths by (rule line_mono [OF d(1)]) (simp add: s(2))
  then have "mq_core idle n z p ?m F (Q(b := Q')) (H(b := insert s (H b))) (\<lambda>_. 0) L"
    using d s(4) by (intro mq_coreI) simp_all
  with s show ?thesis by (intro that [OF s(1) refl]) (simp_all add: mq_same_def)
qed

lemma mq_core_give:
  assumes ok: "mq_core idle n z p m F Q H (\<lambda>_. 0) L" and s: "s \<in> H b"
  obtains ns m' L' where "mq_give_back b s m = (ns, m')"
    "mq_core idle n z p m' (F(b := s # F b)) Q (H(b := H b - {s})) (\<lambda>_. 0) L'"
    "\<forall>c. mq_text (mqs m' c) = mq_text (mqs m c)" "mq_same (H(b := H b - {s})) m m'"
proof -
  note d = mq_coreD [OF ok]
  obtain ns k L' where w: "ipc_wake (senders b) (qkern m) = (ns, k)"
    "line_ok idle p k ((stock (\<lambda>b. length (Q b)) (\<lambda>b. length (F b)))(senders b := length (F b) + 1)) (\<lambda>_. 0) L'"
    using line_wake [OF d(1), of "senders b"] by auto
  let ?m = "m\<lparr>qkern := k, mqs := (mqs m)(b := mq_give s (mqs m b))\<rparr>"
  have "mq_core idle n z p ?m (F(b := s # F b)) Q (H(b := H b - {s})) (\<lambda>_. 0) L'"
  proof (rule mq_coreI)
    show "line_ok idle p (qkern ?m) (stock (\<lambda>b. length (Q b)) (\<lambda>c. length ((F(b := s # F b)) c))) (\<lambda>_. 0) L'"
      unfolding stock_lengths using w(2) by simp
    show "mq_places (mqs ?m c) ((F(b := s # F b)) c) (Q c) ((H(b := H b - {s})) c)" for c
      using mq_places_give [OF d(2) s] d(2) [of c] by simp
  qed (use d(3,4) in simp_all)
  moreover have "mq_same (H(b := H b - {s})) m ?m" by (simp add: mq_same_def mq_give_def mq_set_next_def mq_text_def)
  ultimately show ?thesis using w(1) by (intro that [of ns ?m L']) (simp_all add: mq_give_back_def)
qed

subsection \<open>Hands\<close>

definition mq_held :: "(nat \<Rightarrow> (nat \<times> nat \<times> mq_phase) option) \<Rightarrow> nat \<Rightarrow> nat set" where
  "mq_held h b = {s. \<exists>t ph. h t = Some (b, s, ph)}"

fun mq_hand_ok :: "(nat \<Rightarrow> nat) \<Rightarrow> queues \<Rightarrow> nat \<times> nat \<times> mq_phase \<Rightarrow> bool" where
  "mq_hand_ok z m (b, s, Fills msg urgent) \<longleftrightarrow> length msg \<le> z b"
| "mq_hand_ok z m (b, s, Links msg urgent) \<longleftrightarrow>
     mq_text (mqs m b) s = msg \<and> (urgent \<or> mq_next (mq_pool (mqs m b) s) = None)"
| "mq_hand_ok z m (b, s, _) \<longleftrightarrow> True"

definition mq_hands :: "(nat \<Rightarrow> nat) \<Rightarrow> queues \<Rightarrow> (nat \<Rightarrow> (nat \<times> nat \<times> mq_phase) option) \<Rightarrow> bool" where
  "mq_hands z m h \<longleftrightarrow> (\<forall>t x. h t = Some x \<longrightarrow> mq_hand_ok z m x) \<and>
     (\<forall>t u b s ph ph'. h t = Some (b, s, ph) \<longrightarrow> h u = Some (b, s, ph') \<longrightarrow> t = u)"

text \<open>What a receive that is under way will return.\<close>

fun mq_pending :: "queues \<Rightarrow> (nat \<times> nat \<times> mq_phase) option \<Rightarrow> u8 list list" where
  "mq_pending m (Some (b, s, Drains room)) = [take (unat room) (mq_text (mqs m b) s)]"
| "mq_pending m (Some (b, s, Gives_back buffer)) = [buffer]"
| "mq_pending m _ = []"

lemma mq_hand_same:
  assumes "mq_same R m m'" and "s \<in> R b"
  shows "mq_hand_ok z m' (b, s, ph) = mq_hand_ok z m (b, s, ph)" and "mq_pending m' (Some (b, s, ph)) = mq_pending m (Some (b, s, ph))"
  using assms by (cases ph; simp add: mq_same_def)+

lemma mq_held_upd:
  "r \<in> mq_held (h(t := v)) c \<longleftrightarrow> (\<exists>ph. v = Some (c, r, ph)) \<or> (\<exists>u ph. u \<noteq> t \<and> h u = Some (c, r, ph))"
  unfolding mq_held_def fun_upd_def by (auto split: if_splits)

lemma mq_held_split: "r \<in> mq_held h c \<longleftrightarrow> (\<exists>ph. h t = Some (c, r, ph)) \<or> (\<exists>u ph. u \<noteq> t \<and> h u = Some (c, r, ph))"
  using mq_held_upd [of r h t "h t" c] by simp

lemma mq_held_change: "h t = Some (b, s, ph) \<Longrightarrow> mq_held (h(t := Some (b, s, ph'))) = mq_held h"
  by (rule ext, rule set_eqI) (simp add: mq_held_upd mq_held_split [of _ h _ t])

lemma mq_held_put: "h t = None \<Longrightarrow> mq_held (h(t := Some (b, s, ph))) = (mq_held h)(b := insert s (mq_held h b))"
  by (rule ext, rule set_eqI) (auto simp: mq_held_upd mq_held_split [of _ h _ t])

lemma mq_held_drop:
  assumes h: "mq_hands z m h" and t: "h t = Some (b, s, ph)"
  shows "mq_held (h(t := None)) = (mq_held h)(b := mq_held h b - {s})"
proof (rule ext, rule set_eqI)
  fix c r
  have u: "u = t" if "h u = Some (b, s, ph')" for u ph' using h t that unfolding mq_hands_def by blast
  show "r \<in> mq_held (h(t := None)) c \<longleftrightarrow> r \<in> ((mq_held h)(b := mq_held h b - {s})) c"
  proof (cases "c = b \<and> r = s")
    case True
    then show ?thesis using u by (auto simp: mq_held_upd)
  next
    case False
    then have "r \<in> mq_held h c \<longleftrightarrow> r \<in> mq_held (h(t := None)) c"
      using t by (auto simp add: mq_held_upd mq_held_split [of _ h _ t])
    then show ?thesis using False by auto
  qed
qed

lemma mq_held_memb: "h t = Some (b, s, ph) \<Longrightarrow> s \<in> mq_held h b"
  by (auto simp: mq_held_def)

lemma mq_hands_same:
  assumes h: "mq_hands z m h" and "mq_same (mq_held h) m m'"
  shows "mq_hands z m' h" and "mq_pending m' (h t) = mq_pending m (h t)"
proof -
  show "mq_hands z m' h"
    unfolding mq_hands_def
  proof (intro conjI allI impI)
    fix t x assume t: "h t = Some x"
    obtain b s ph where x: "x = (b, s, ph)" by (cases x)
    show "mq_hand_ok z m' x"
      using h t mq_hand_same(1) [OF assms(2), where s = s and b = b and ph = ph] mq_held_memb [of h t b s ph] unfolding mq_hands_def by (auto simp: x)
  qed (use h in \<open>unfold mq_hands_def, blast\<close>)
  show "mq_pending m' (h t) = mq_pending m (h t)"
  proof (cases "h t")
    case (Some x)
    obtain b s ph where x: "x = (b, s, ph)" by (cases x)
    show ?thesis unfolding Some x by (rule mq_hand_same(2) [OF assms(2)], rule mq_held_memb [of h t]) (simp add: Some x)
  qed simp
qed

lemma mq_hands_put:
  assumes h: "mq_hands z m h" and t: "h t = None" and s: "s \<notin> mq_held h b" and ok: "mq_hand_ok z m (b, s, ph)"
  shows "mq_hands z m (h(t := Some (b, s, ph)))"
proof -
  have "h u \<noteq> Some (b, s, ph')" for u ph' using s by (auto simp: mq_held_def)
  then show ?thesis using h ok unfolding mq_hands_def by (auto split: if_splits)
qed

lemma mq_hands_drop: "mq_hands z m h \<Longrightarrow> mq_hands z m (h(t := None))"
  unfolding mq_hands_def by (auto split: if_splits)

text \<open>A hand that goes on, while the others keep what they have.\<close>

lemma mq_hands_change:
  assumes h: "mq_hands z m h" and t: "h t = Some (b, s, ph)" and m': "mq_same ((mq_held h)(b := mq_held h b - {s})) m m'"
    and ok: "mq_hand_ok z m' (b, s, ph')"
  shows "mq_hands z m' (h(t := Some (b, s, ph')))"
proof -
  have "mq_hands z m' (h(t := None))"
    by (rule mq_hands_same(1) [OF mq_hands_drop [OF h]]) (simp add: mq_held_drop [OF h t] m')
  moreover have "s \<notin> mq_held (h(t := None)) b" by (simp add: mq_held_drop [OF h t])
  ultimately show ?thesis using mq_hands_put [of z m' "h(t := None)" t s b ph'] ok by simp
qed

lemma mq_pending_others:
  assumes h: "mq_hands z m h" and t: "h t = Some (b, s, ph)" and m': "mq_same ((mq_held h)(b := mq_held h b - {s})) m m'" and u: "u \<noteq> t"
  shows "mq_pending m' (h u) = mq_pending m (h u)"
  using mq_hands_same(2) [OF mq_hands_drop [OF h], of t m' u] u m' by (simp add: mq_held_drop [OF h t])

section \<open>The first part of a call\<close>

fun mq_receives :: "mq_call \<Rightarrow> bool" where
  "mq_receives (Receives _ _ _ _ _) = True"
| "mq_receives _ = False"

fun mq_fits :: "(nat \<Rightarrow> nat) \<Rightarrow> mq_call \<Rightarrow> bool" where
  "mq_fits z (Receives _ _ _ _ _) = True"
| "mq_fits z (Sends b msg _ _ _) = (length msg \<le> z b)"
| "mq_fits z (Sends_urgent b msg) = False"

definition mq_pass ::
    "nat \<Rightarrow> (nat \<Rightarrow> nat) \<Rightarrow> (nat \<Rightarrow> nat) \<Rightarrow> (nat \<Rightarrow> pc) \<Rightarrow> nat \<Rightarrow> mq_call \<Rightarrow> queues \<Rightarrow> (nat \<Rightarrow> nat list) \<Rightarrow> (nat \<Rightarrow> nat list) \<Rightarrow>
      (nat \<Rightarrow> nat set) \<Rightarrow> mq_result \<times> queues \<Rightarrow> bool" where
  "mq_pass idle n z p t c m F Q H = (\<lambda>(r, m').
     case r of
       Mq_returns _ \<Rightarrow> \<exists>k L. m' = m\<lparr>qkern := k\<rparr> \<and> mq_core idle n z p m' F Q H (\<lambda>_. 0) L
     | Mq_takes s \<Rightarrow> \<exists>F' Q' L. s \<notin> H (mq_queue_of c) \<and>
         mq_core idle n z p m' F' Q' (H(mq_queue_of c := insert s (H (mq_queue_of c)))) (\<lambda>_. 0) L \<and>
         Q = (if mq_receives c then Q'(mq_queue_of c := s # Q' (mq_queue_of c)) else Q') \<and>
         (\<forall>b. mq_text (mqs m' b) = mq_text (mqs m b)) \<and> (\<forall>R. mq_same R m m') \<and>
         mq_hand_ok z m' (mq_queue_of c, s, mq_phase_of c)
     | Mq_waits _ _ \<Rightarrow> mq_fits z c \<and> (t \<noteq> idle \<longrightarrow>
         (\<exists>k L. m' = m\<lparr>qkern := k\<rparr> \<and> mq_core idle n z (p(t := Before (mq_list_of c))) m' F Q H (\<lambda>_. 0) L)))"

lemma mq_pass_takes:
  assumes "mq_core idle n z p m' F' Q' (H(mq_queue_of c := insert s (H (mq_queue_of c)))) (\<lambda>_. 0) L" and "s \<notin> H (mq_queue_of c)"
    and "Q = (if mq_receives c then Q'(mq_queue_of c := s # Q' (mq_queue_of c)) else Q')"
    and "\<And>b. mq_text (mqs m' b) = mq_text (mqs m b)" and "\<And>R. mq_same R m m'"
    and "mq_hand_ok z m' (mq_queue_of c, s, mq_phase_of c)"
  shows "mq_pass idle n z p t c m F Q H (Mq_takes s, m')"
  unfolding mq_pass_def using assms by (simp del: fun_upd_apply) blast

lemma mq_core_errno:
  assumes "mq_core idle n z p m F Q H extra L" and "p t = Outside"
  shows "mq_core idle n z p (mq_errno t e m) F Q H extra L"
  unfolding mq_errno_def by (rule mq_core_kern [OF assms(1) line_errno [OF mq_coreD(1) [OF assms(1)] assms(2)]])

lemma mq_core_extra:
  assumes ok: "mq_core idle n z p m F Q H (came_back l) L" and "stock (\<lambda>b. length (Q b)) (\<lambda>b. length (F b)) l = 0"
  shows "mq_core idle n z p m F Q H (\<lambda>_. 0) L"
proof -
  have "line_ok idle p (qkern m) (stock (\<lambda>b. length (Q b)) (\<lambda>b. length (F b))) (\<lambda>_. 0) L"
    by (rule line_mono [OF mq_coreD(1) [OF ok]]) (simp add: assms(2))
  from mq_core_kern [OF ok this] show ?thesis by simp
qed

lemma mq_wait_ok:
  assumes ok: "mq_core idle n z p m F Q H (\<lambda>_. 0) L" and t: "rt_current_thread (qkern m) = Some t" "p t = Outside"
    and to: "timeout \<noteq> 0" and a: "stock (\<lambda>b. length (Q b)) (\<lambda>b. length (F b)) l = 0"
  obtains td k where "mq_wait l timeout tick_delta sflag t (mq_errno t (- RT_EINTR) m) = Some (Mq_waits timeout td, m\<lparr>qkern := k\<rparr>)"
    "t \<noteq> idle \<longrightarrow> (\<exists>L'. mq_core idle n z (p(t := Before l)) (m\<lparr>qkern := k\<rparr>) F Q H (\<lambda>_. 0) L')"
proof -
  obtain td k where w: "ipc_wait l timeout tick_delta sflag t ((qkern m)\<lparr>errno := (errno (qkern m))(t := - RT_EINTR)\<rparr>) =
      Some (Wait_schedules timeout td, k)"
    "t \<noteq> idle \<longrightarrow> (\<exists>L'. line_ok idle (p(t := Before l)) k (stock (\<lambda>b. length (Q b)) (\<lambda>b. length (F b))) (\<lambda>_. 0) L')"
    by (rule line_waits [where l = l and sflag = sflag and tick_delta = tick_delta, OF mq_coreD(1) [OF ok] t to a])
  have "mq_wait l timeout tick_delta sflag t (mq_errno t (- RT_EINTR) m) = Some (Mq_waits timeout td, m\<lparr>qkern := k\<rparr>)"
    using w(1) by (simp add: mq_wait_def mq_errno_def)
  moreover have "t \<noteq> idle \<longrightarrow> (\<exists>L'. mq_core idle n z (p(t := Before l)) (m\<lparr>qkern := k\<rparr>) F Q H (\<lambda>_. 0) L')"
    using w(2) by (blast intro: mq_core_kern [OF ok])
  ultimately show ?thesis by (rule that)
qed

lemma mq_send_loop_ok:
  assumes ok: "mq_core idle n z p m F Q H (came_back (senders b)) L" and t: "rt_current_thread (qkern m) = Some t" "p t = Outside"
    and msg: "length msg \<le> z b" and r: "mq_send_loop b timeout tick_delta sflag t m = Some r"
  shows "mq_pass idle n z p t (Sends b msg x y w) m F Q H r"
proof (cases "mq_free (mqs m b)")
  case (Some s)
  then show ?thesis
    using mq_core_take_free [OF ok Some] r msg by (auto simp: mq_send_loop_def intro!: mq_pass_takes)
next
  case None
  have "F b = []" using mq_placesD(1) [OF mq_coreD(2) [OF ok], of b] None by (cases "F b") auto
  then have full: "stock (\<lambda>b. length (Q b)) (\<lambda>b. length (F b)) (senders b) = 0" by simp
  note ok0 = mq_core_extra [OF ok full]
  show ?thesis
  proof (cases "timeout = 0")
    case True
    then show ?thesis
      using r None mq_core_errno [OF ok0 t(2), of "- RT_EINTR"] by (auto simp: mq_send_loop_def mq_pass_def mq_errno_def)
  next
    case False
    then show ?thesis
      by (rule mq_wait_ok [where tick_delta = tick_delta and sflag = sflag, OF ok0 t _ full])
        (use r None msg False in \<open>auto simp: mq_send_loop_def mq_pass_def\<close>)
  qed
qed

lemma mq_recv_loop_ok:
  assumes ok: "mq_core idle n z p m F Q H (came_back (receivers b)) L" and t: "rt_current_thread (qkern m) = Some t" "p t = Outside"
    and r: "mq_recv_loop b timeout tick_delta sflag t m = Some r"
  shows "mq_pass idle n z p t (Receives b room x y w) m F Q H r"
proof (cases "mq_entry (mqs m b) = 0")
  case False
  obtain s Q' m' where s: "mq_head (mqs m b) = Some s" "m' = m\<lparr>mqs := (mqs m)(b := mq_take_head s (mqs m b))\<rparr>" "Q b = s # Q'" "s \<notin> H b"
    "mq_core idle n z p m' F (Q(b := Q')) (H(b := insert s (H b))) (\<lambda>_. 0) L"
    "\<forall>c. mq_text (mqs m' c) = mq_text (mqs m c)" "\<forall>R. mq_same R m m'"
    by (rule mq_core_take_head [OF ok False])
  have "r = (Mq_takes s, m')" using r False s(1,2) by (simp add: mq_recv_loop_def)
  moreover have "Q = (Q(b := Q'))(b := s # (Q(b := Q')) b)" using s(3) by auto
  ultimately show ?thesis using s(4-7) by (auto intro!: mq_pass_takes [where F' = F and Q' = "Q(b := Q')"])
next
  case True
  then have "Q b = []" using mq_placesD(7) [OF mq_coreD(2) [OF ok], of b] by simp
  then have empty: "stock (\<lambda>b. length (Q b)) (\<lambda>b. length (F b)) (receivers b) = 0" by simp
  note ok0 = mq_core_extra [OF ok empty]
  show ?thesis
  proof (cases "timeout = 0")
    case to: True
    have "mq_core idle n z p (mq_errno t (- RT_ETIMEOUT) (mq_errno t (- RT_EINTR) m)) F Q H (\<lambda>_. 0) L"
      by (intro mq_core_errno ok0 t(2))
    then show ?thesis using r True to by (auto simp: mq_recv_loop_def mq_pass_def mq_errno_def)
  next
    case False
    then show ?thesis
      by (rule mq_wait_ok [where tick_delta = tick_delta and sflag = sflag, OF ok0 t _ empty])
        (use r True False in \<open>auto simp: mq_recv_loop_def mq_pass_def\<close>)
  qed
qed

lemma mq_core_any_extra:
  assumes "mq_core idle n z p m F Q H (\<lambda>_. 0) L"
  shows "mq_core idle n z p m F Q H extra L"
proof -
  have "line_ok idle p (qkern m) (stock (\<lambda>b. length (Q b)) (\<lambda>b. length (F b))) extra L"
    by (rule line_mono [OF mq_coreD(1) [OF assms]]) simp
  from mq_core_kern [OF assms this] show ?thesis by simp
qed

lemma mq_pass_fails: "mq_core idle n z p m F Q H (\<lambda>_. 0) L \<Longrightarrow> mq_pass idle n z p t c m F Q H (Mq_returns e, m)"
  unfolding mq_pass_def by (auto intro!: exI [of _ "qkern m"])

lemma mq_called_ok:
  assumes ok: "mq_core idle n z p m F Q H (\<lambda>_. 0) L" and t: "rt_current_thread (qkern m) = Some t" "p t = Outside"
    and r: "mq_called c t m = Some r"
  shows "mq_pass idle n z p t c m F Q H r"
proof (cases c)
  case (Sends b msg timeout td sflag)
  then show ?thesis
    using r mq_send_loop_ok [OF mq_core_any_extra [OF ok] t, of msg b timeout 0 sflag r timeout td sflag] mq_pass_fails [OF ok] mq_coreD(4) [OF ok]
    by (auto simp: mq_send_def split: if_splits)
next
  case (Sends_urgent b msg)
  show ?thesis
  proof (cases "length msg > z b \<or> mq_free (mqs m b) = None")
    case True
    then show ?thesis
      using r mq_pass_fails [OF ok] by (auto simp: Sends_urgent mq_urgent_def mq_coreD(4) [OF ok] split: if_splits option.splits)
  next
    case False
    then obtain s where s: "mq_free (mqs m b) = Some s" by auto
    show ?thesis
      using mq_core_take_free [OF mq_core_any_extra [OF ok] s] r False s
      by (auto simp: Sends_urgent mq_urgent_def mq_coreD(4) [OF ok] intro!: mq_pass_takes)
  qed
next
  case (Receives b room timeout td sflag)
  then show ?thesis
    using r mq_recv_loop_ok [OF mq_core_any_extra [OF ok] t, of b timeout 0 sflag r room timeout td sflag] mq_pass_fails [OF ok]
    by (auto simp: mq_recv_def split: if_splits)
qed

lemma mq_resumed_ok:
  assumes ok: "mq_core idle n z p m F Q H (\<lambda>_. 0) L" and t: "rt_current_thread (qkern m) = Some t" "p t = After (mq_list_of c)"
    and c: "mq_fits z c" and r: "mq_resumed c t m = Some r"
  shows "mq_pass idle n z (p(t := Outside)) t c m F Q H r"
proof -
  let ?p = "p(t := Outside)"
  have bk: "mq_core idle n z ?p m F Q H (if errno (qkern m) t = RT_EOK then came_back (mq_list_of c) else (\<lambda>_. 0)) L"
    using mq_core_kern [OF ok line_leaves [OF mq_coreD(1) [OF ok] t]] by simp
  show ?thesis
  proof (cases "errno (qkern m) t = RT_EOK")
    case False
    then show ?thesis
      using r bk mq_pass_fails [of idle n z ?p m F Q H L]
      by (cases c) (auto simp: mq_send_resumed_def mq_recv_resumed_def)
  next
    case True
    then have bk: "mq_core idle n z ?p m F Q H (came_back (mq_list_of c)) L" using bk by simp
    show ?thesis
    proof (cases c)
      case (Sends b msg timeout td sflag)
      obtain to' td' where l: "ipc_time_left timeout td (qkern m) = (to', td')" by fastforce
      show ?thesis
        using mq_send_loop_ok [of idle n z ?p m F Q H b L t msg to' td' sflag r] bk t r c True
        by (simp add: Sends mq_send_resumed_def l)
    next
      case (Receives b room timeout td sflag)
      obtain to' td' where l: "ipc_time_left timeout td (qkern m) = (to', td')" by fastforce
      show ?thesis
        using mq_recv_loop_ok [of idle n z ?p m F Q H b L t to' td' sflag r] bk t r True
        by (simp add: Receives mq_recv_resumed_def l)
    qed (use c in simp)
  qed
qed

section \<open>Every run keeps it\<close>

abbreviation mq_texts :: "queues \<Rightarrow> (nat \<Rightarrow> nat list) \<Rightarrow> nat \<Rightarrow> u8 list list" where
  "mq_texts m Q \<equiv> (\<lambda>b. map (mq_text (mqs m b)) (Q b))"

abbreviation mq_cut :: "u32 \<times> u8 list \<Rightarrow> u8 list" where
  "mq_cut \<equiv> (\<lambda>(room, msg). take (unat room) msg)"

definition mq_inv ::
    "nat \<Rightarrow> (nat \<Rightarrow> nat) \<Rightarrow> (nat \<Rightarrow> nat) \<Rightarrow> (nat \<Rightarrow> u8 list list) \<Rightarrow> mq_run \<Rightarrow> bool" where
  "mq_inv idle n z q0 m \<longleftrightarrow>
     (\<exists>F Q L. replay n (qtrace m) q0 = Some (mq_texts (qstate m) Q) \<and>
        mq_core idle n z (qpc m) (qstate m) F Q (mq_held (qhand m)) (\<lambda>_. 0) L) \<and>
     mq_hands z (qstate m) (qhand m) \<and>
     (\<forall>l t. waits (qpc m) l t \<longrightarrow> mq_list_of (qcall m t) = l \<and> mq_fits z (qcall m t) \<and> qhand m t = None) \<and>
     (\<forall>t. qgot m t @ mq_pending (qstate m) (qhand m t) = map mq_cut (qtaken m t))"

lemma mq_invE:
  assumes "mq_inv idle n z q0 m"
  obtains F Q L where "replay n (qtrace m) q0 = Some (mq_texts (qstate m) Q)"
    "mq_core idle n z (qpc m) (qstate m) F Q (mq_held (qhand m)) (\<lambda>_. 0) L" "mq_hands z (qstate m) (qhand m)"
    "\<forall>l t. waits (qpc m) l t \<longrightarrow> mq_list_of (qcall m t) = l \<and> mq_fits z (qcall m t) \<and> qhand m t = None"
    "\<forall>t. qgot m t @ mq_pending (qstate m) (qhand m t) = map mq_cut (qtaken m t)"
  using assms unfolding mq_inv_def by blast

lemma mq_invI:
  assumes "replay n (qtrace m) q0 = Some (mq_texts (qstate m) Q)"
    and "mq_core idle n z (qpc m) (qstate m) F Q (mq_held (qhand m)) (\<lambda>_. 0) L" and "mq_hands z (qstate m) (qhand m)"
    and "\<And>l t. waits (qpc m) l t \<Longrightarrow> mq_list_of (qcall m t) = l \<and> mq_fits z (qcall m t) \<and> qhand m t = None"
    and "\<And>t. qgot m t @ mq_pending (qstate m) (qhand m t) = map mq_cut (qtaken m t)"
  shows "mq_inv idle n z q0 m"
  using assms unfolding mq_inv_def by blast

lemma waits_fun_upd: "waits (p(t := c)) l u \<longleftrightarrow> (if u = t then c = Before l \<or> c = After l else waits p l u)"
  by (auto simp: waits_def)

text \<open>Steps in which only the kernel changes; calls that fail or wait are among them.\<close>

lemma mq_inv_stays:
  assumes inv: "mq_inv idle n z q0 m"
    and ok: "\<And>F Q L. mq_core idle n z (qpc m) (qstate m) F Q (mq_held (qhand m)) (\<lambda>_. 0) L \<Longrightarrow>
      \<exists>k L'. x = (qstate m)\<lparr>qkern := k\<rparr> \<and> mq_core idle n z p x F Q (mq_held (qhand m)) (\<lambda>_. 0) L'"
    and w: "\<And>l t. waits p l t \<Longrightarrow> mq_list_of (c t) = l \<and> mq_fits z (c t) \<and> qhand m t = None"
  shows "mq_inv idle n z q0 (m\<lparr>qstate := x, qpc := p, qcall := c\<rparr>)"
proof -
  from inv obtain F Q L where i: "replay n (qtrace m) q0 = Some (mq_texts (qstate m) Q)"
    "mq_core idle n z (qpc m) (qstate m) F Q (mq_held (qhand m)) (\<lambda>_. 0) L" "mq_hands z (qstate m) (qhand m)"
    "\<forall>t. qgot m t @ mq_pending (qstate m) (qhand m t) = map mq_cut (qtaken m t)" by (rule mq_invE)
  from ok [OF i(2)] obtain k L' where x: "x = (qstate m)\<lparr>qkern := k\<rparr>"
    "mq_core idle n z p x F Q (mq_held (qhand m)) (\<lambda>_. 0) L'" by blast
  have same: "mq_same (mq_held (qhand m)) (qstate m) x" by (simp add: mq_same_def x(1))
  have tr: "mq_texts x Q = mq_texts (qstate m) Q" by (simp add: x(1))
  show ?thesis
    by (rule mq_invI [where F = F and Q = Q and L = L'])
      (use i x(2) w tr mq_hands_same [OF i(3) same] in simp_all)
qed

lemma mq_inv_kern:
  assumes inv: "mq_inv idle n z q0 m"
    and ok: "\<And>a L. line_ok idle (qpc m) (qkern (qstate m)) a (\<lambda>_. 0) L \<Longrightarrow> \<exists>L'. line_ok idle p k a (\<lambda>_. 0) L'"
    and w: "\<And>l t. waits p l t \<Longrightarrow> waits (qpc m) l t"
  shows "mq_inv idle n z q0 (m\<lparr>qstate := (qstate m)\<lparr>qkern := k\<rparr>, qpc := p\<rparr>)"
proof -
  have "mq_inv idle n z q0 (m\<lparr>qstate := (qstate m)\<lparr>qkern := k\<rparr>, qpc := p, qcall := qcall m\<rparr>)"
  proof (rule mq_inv_stays [OF inv])
    fix F Q L assume c: "mq_core idle n z (qpc m) (qstate m) F Q (mq_held (qhand m)) (\<lambda>_. 0) L"
    from ok [OF mq_coreD(1) [OF c]] mq_core_kern [OF c]
    show "\<exists>k' L'. (qstate m)\<lparr>qkern := k\<rparr> = (qstate m)\<lparr>qkern := k'\<rparr> \<and>
        mq_core idle n z p ((qstate m)\<lparr>qkern := k\<rparr>) F Q (mq_held (qhand m)) (\<lambda>_. 0) L'" by blast
  qed (use inv w in \<open>auto elim!: mq_invE\<close>)
  then show ?thesis by simp
qed

text \<open>A call gets a place.\<close>

lemma mq_inv_takes:
  assumes inv: "mq_inv idle n z q0 m" and t: "qhand m t = None"
    and pass: "\<And>F Q L. mq_core idle n z (qpc m) (qstate m) F Q (mq_held (qhand m)) (\<lambda>_. 0) L \<Longrightarrow>
      mq_pass idle n z ((qpc m)(t := Outside)) t c (qstate m) F Q (mq_held (qhand m)) (Mq_takes s, x)"
  shows "mq_inv idle n z q0 (mq_takes c t s x m)"
proof -
  from inv obtain F Q L where i: "replay n (qtrace m) q0 = Some (mq_texts (qstate m) Q)"
    "mq_core idle n z (qpc m) (qstate m) F Q (mq_held (qhand m)) (\<lambda>_. 0) L" "mq_hands z (qstate m) (qhand m)"
    "\<forall>l t. waits (qpc m) l t \<longrightarrow> mq_list_of (qcall m t) = l \<and> mq_fits z (qcall m t) \<and> qhand m t = None"
    "\<forall>t. qgot m t @ mq_pending (qstate m) (qhand m t) = map mq_cut (qtaken m t)" by (rule mq_invE)
  let ?b = "mq_queue_of c" and ?h = "(qhand m)(t := Some (mq_queue_of c, s, mq_phase_of c))"
  from pass [OF i(2)] obtain F' Q' L' where x: "s \<notin> mq_held (qhand m) ?b"
    "mq_core idle n z ((qpc m)(t := Outside)) x F' Q' ((mq_held (qhand m))(?b := insert s (mq_held (qhand m) ?b))) (\<lambda>_. 0) L'"
    "Q = (if mq_receives c then Q'(?b := s # Q' ?b) else Q')" "\<forall>b. mq_text (mqs x b) = mq_text (mqs (qstate m) b)"
    "\<forall>R. mq_same R (qstate m) x" "mq_hand_ok z x (?b, s, mq_phase_of c)" by (auto simp: mq_pass_def)
  note same = mq_hands_same [OF i(3) x(5) [rule_format]]
  have core: "mq_core idle n z ((qpc m)(t := Outside)) x F' Q' (mq_held ?h) (\<lambda>_. 0) L'" by (simp only: mq_held_put [of "qhand m", OF t] x(2))
  have hands: "mq_hands z x ?h" by (rule mq_hands_put [OF same(1) t x(1) x(6)])
  have w: "mq_list_of (qcall m u) = l \<and> mq_fits z (qcall m u) \<and> ?h u = None" if "waits ((qpc m)(t := Outside)) l u" for l u
    using that i(4) by (auto simp: waits_fun_upd split: if_splits)
  have got: "qgot m u @ mq_pending x (qhand m u) = map mq_cut (qtaken m u)" for u using i(5) by (simp add: same(2))
  have got_t: "qgot m t = map mq_cut (qtaken m t)" using got [of t] t by simp
  show ?thesis
  proof (cases c)
    case (Receives b room timeout td sflag)
    have "deliver n (Fetched b (mq_text (mqs x b) s)) (mq_texts (qstate m) Q) = Some (mq_texts x Q')"
      using x(3,4) by (auto simp: Receives)
    then show ?thesis
      by (intro mq_invI [where F = F' and Q = Q' and L = L'])
        (use i(1) core hands w got got_t in \<open>auto simp: Receives replay_append\<close>)
  qed (rule mq_invI [where F = F' and Q = Q' and L = L']; use i(1) x(3,4) core hands w got got_t in simp)+
qed

text \<open>What a thread does with its place, and a send by an interrupt, whose place comes and goes in one step.\<close>

lemma mq_inv_fills:
  assumes inv: "mq_inv idle n z q0 m" and t: "qhand m t = Some (b, s, Fills msg urgent)"
  shows "mq_inv idle n z q0 (m\<lparr>qstate := (qstate m)\<lparr>mqs := (mqs (qstate m))(b := mq_fill s msg urgent (mqs (qstate m) b))\<rparr>,
    qhand := (qhand m)(t := Some (b, s, Links msg urgent))\<rparr>)"
proof -
  from inv obtain F Q L where i: "replay n (qtrace m) q0 = Some (mq_texts (qstate m) Q)"
    "mq_core idle n z (qpc m) (qstate m) F Q (mq_held (qhand m)) (\<lambda>_. 0) L" "mq_hands z (qstate m) (qhand m)"
    "\<forall>l t. waits (qpc m) l t \<longrightarrow> mq_list_of (qcall m t) = l \<and> mq_fits z (qcall m t) \<and> qhand m t = None"
    "\<forall>t. qgot m t @ mq_pending (qstate m) (qhand m t) = map mq_cut (qtaken m t)" by (rule mq_invE)
  have "mq_hand_ok z (qstate m) (b, s, Fills msg urgent)" using i(3) t unfolding mq_hands_def by blast
  then have msg: "length msg \<le> z b" by simp
  let ?x = "(qstate m)\<lparr>mqs := (mqs (qstate m))(b := mq_fill s msg urgent (mqs (qstate m) b))\<rparr>"
  note fill = mq_core_fill [OF i(2) mq_held_memb [of "qhand m", OF t] msg, where u = urgent]
  have hands: "mq_hands z ?x ((qhand m)(t := Some (b, s, Links msg urgent)))"
    by (rule mq_hands_change [OF i(3) t fill(4)]) (use fill(2,3) in auto)
  have tr: "mq_texts ?x Q = mq_texts (qstate m) Q" by (rule ext) (rule fill(5))
  have got: "qgot m u @ mq_pending ?x (((qhand m)(t := Some (b, s, Links msg urgent))) u) = map mq_cut (qtaken m u)" for u
    using i(5) [rule_format, of u] t mq_pending_others [OF i(3) t fill(4), of u] by (cases "u = t") simp_all
  have core: "mq_core idle n z (qpc m) ?x F Q (mq_held ((qhand m)(t := Some (b, s, Links msg urgent)))) (\<lambda>_. 0) L"
    unfolding mq_held_change [of "qhand m", OF t] by (rule fill(1))
  have w: "mq_list_of (qcall m u) = l \<and> mq_fits z (qcall m u) \<and> ((qhand m)(t := Some (b, s, Links msg urgent))) u = None"
    if "waits (qpc m) l u" for l u using that i(4) t by auto
  show ?thesis
    by (rule mq_invI [where F = F and Q = Q and L = L]) (use i(1) w tr core hands got in \<open>simp_all del: fun_upd_apply\<close>)
qed

lemma mq_link_delivers:
  assumes "length (Q b) < n b" and "mq_text (mqs m b) s = msg" and "\<forall>c. mq_text (mqs m' c) = mq_text (mqs m c)"
  shows "replay n (mq_posted b msg u RT_EOK) (mq_texts m Q) = Some (mq_texts m' (Q(b := if u then s # Q b else Q b @ [s])))"
  using assms by (auto simp: mq_posted_def)

lemma mq_inv_links:
  assumes inv: "mq_inv idle n z q0 m" and t: "qhand m t = Some (b, s, Links msg urgent)"
    and r: "mq_link b s urgent (qstate m) = (r, need_schedule, x)"
  shows "mq_inv idle n z q0 (m\<lparr>qstate := x, qhand := (qhand m)(t := None), qtrace := qtrace m @ mq_posted b msg urgent r\<rparr>)"
proof -
  from inv obtain F Q L where i: "replay n (qtrace m) q0 = Some (mq_texts (qstate m) Q)"
    "mq_core idle n z (qpc m) (qstate m) F Q (mq_held (qhand m)) (\<lambda>_. 0) L" "mq_hands z (qstate m) (qhand m)"
    "\<forall>l t. waits (qpc m) l t \<longrightarrow> mq_list_of (qcall m t) = l \<and> mq_fits z (qcall m t) \<and> qhand m t = None"
    "\<forall>t. qgot m t @ mq_pending (qstate m) (qhand m t) = map mq_cut (qtaken m t)" by (rule mq_invE)
  have hand: "mq_hand_ok z (qstate m) (b, s, Links msg urgent)" using i(3) t unfolding mq_hands_def by blast
  obtain ns m' L' where l: "mq_link b s urgent (qstate m) = (RT_EOK, ns, m')"
    "mq_core idle n z (qpc m) m' F (Q(b := if urgent then s # Q b else Q b @ [s])) ((mq_held (qhand m))(b := mq_held (qhand m) b - {s})) (\<lambda>_. 0) L'"
    "\<forall>c. mq_text (mqs m' c) = mq_text (mqs (qstate m) c)" "mq_same ((mq_held (qhand m))(b := mq_held (qhand m) b - {s})) (qstate m) m'"
    "length (Q b) < n b"
    by (rule mq_core_link [OF i(2) mq_held_memb [of "qhand m", OF t], where u = urgent]) (use hand in simp_all)
  have x: "r = RT_EOK" "x = m'" using r l(1) by simp_all
  let ?h = "(qhand m)(t := None)"
  have held: "mq_held ?h = (mq_held (qhand m))(b := mq_held (qhand m) b - {s})" by (rule mq_held_drop [OF i(3) t])
  have "mq_same (mq_held ?h) (qstate m) m'" by (simp only: held l(4))
  note same = mq_hands_same [OF mq_hands_drop [OF i(3)] this]
  have tr: "replay n (mq_posted b msg urgent r) (mq_texts (qstate m) Q) = Some (mq_texts m' (Q(b := if urgent then s # Q b else Q b @ [s])))"
    unfolding x(1) by (rule mq_link_delivers [where Q = Q and n = n and b = b, OF l(5) _ l(3)]) (use hand in simp)
  have got: "qgot m u @ mq_pending m' (?h u) = map mq_cut (qtaken m u)" for u
    using i(5) [rule_format, of u] t same(2) [of u] by (cases "u = t") simp_all
  have w: "mq_list_of (qcall m u) = l \<and> mq_fits z (qcall m u) \<and> ?h u = None" if "waits (qpc m) l u" for l u
    using that i(4) t by auto
  show ?thesis
    by (rule mq_invI [where F = F and Q = "Q(b := if urgent then s # Q b else Q b @ [s])" and L = L'])
      (use i(1) w tr l(2) same(1) got in \<open>simp_all add: replay_append x(2) held del: fun_upd_apply\<close>)
qed

lemma mq_inv_drains:
  assumes inv: "mq_inv idle n z q0 m" and t: "qhand m t = Some (b, s, Drains room)"
  shows "mq_inv idle n z q0 (m\<lparr>qhand := (qhand m)(t := Some (b, s, Gives_back (mq_copy_out s room (mqs (qstate m) b))))\<rparr>)"
proof -
  from inv obtain F Q L where i: "replay n (qtrace m) q0 = Some (mq_texts (qstate m) Q)"
    "mq_core idle n z (qpc m) (qstate m) F Q (mq_held (qhand m)) (\<lambda>_. 0) L" "mq_hands z (qstate m) (qhand m)"
    "\<forall>l t. waits (qpc m) l t \<longrightarrow> mq_list_of (qcall m t) = l \<and> mq_fits z (qcall m t) \<and> qhand m t = None"
    "\<forall>t. qgot m t @ mq_pending (qstate m) (qhand m t) = map mq_cut (qtaken m t)" by (rule mq_invE)
  let ?h = "(qhand m)(t := Some (b, s, Gives_back (mq_copy_out s room (mqs (qstate m) b))))"
  have hands: "mq_hands z (qstate m) ?h" by (rule mq_hands_change [OF i(3) t]) (simp_all add: mq_same_def)
  have got: "qgot m u @ mq_pending (qstate m) (?h u) = map mq_cut (qtaken m u)" for u
    using i(5) [rule_format, of u] t by (cases "u = t") (simp_all add: mq_copy_out_text)
  have w: "mq_list_of (qcall m u) = l \<and> mq_fits z (qcall m u) \<and> ?h u = None" if "waits (qpc m) l u" for l u
    using that i(4) t by auto
  have core: "mq_core idle n z (qpc m) (qstate m) F Q (mq_held ?h) (\<lambda>_. 0) L"
    unfolding mq_held_change [of "qhand m", OF t] by (rule i(2))
  show ?thesis
    by (rule mq_invI [where F = F and Q = Q and L = L]) (use i(1) w core hands got in \<open>simp_all del: fun_upd_apply\<close>)
qed

lemma mq_inv_gives_back:
  assumes inv: "mq_inv idle n z q0 m" and t: "qhand m t = Some (b, s, Gives_back buffer)"
    and r: "mq_give_back b s (qstate m) = (need_schedule, x)"
  shows "mq_inv idle n z q0 (m\<lparr>qstate := x, qhand := (qhand m)(t := None), qgot := (qgot m)(t := qgot m t @ [buffer])\<rparr>)"
proof -
  from inv obtain F Q L where i: "replay n (qtrace m) q0 = Some (mq_texts (qstate m) Q)"
    "mq_core idle n z (qpc m) (qstate m) F Q (mq_held (qhand m)) (\<lambda>_. 0) L" "mq_hands z (qstate m) (qhand m)"
    "\<forall>l t. waits (qpc m) l t \<longrightarrow> mq_list_of (qcall m t) = l \<and> mq_fits z (qcall m t) \<and> qhand m t = None"
    "\<forall>t. qgot m t @ mq_pending (qstate m) (qhand m t) = map mq_cut (qtaken m t)" by (rule mq_invE)
  obtain ns m' L' where g: "mq_give_back b s (qstate m) = (ns, m')"
    "mq_core idle n z (qpc m) m' (F(b := s # F b)) Q ((mq_held (qhand m))(b := mq_held (qhand m) b - {s})) (\<lambda>_. 0) L'"
    "\<forall>c. mq_text (mqs m' c) = mq_text (mqs (qstate m) c)" "mq_same ((mq_held (qhand m))(b := mq_held (qhand m) b - {s})) (qstate m) m'"
    by (rule mq_core_give [OF i(2) mq_held_memb [of "qhand m", OF t]])
  have x: "x = m'" using r g(1) by simp
  let ?h = "(qhand m)(t := None)"
  have held: "mq_held ?h = (mq_held (qhand m))(b := mq_held (qhand m) b - {s})" by (rule mq_held_drop [OF i(3) t])
  have "mq_same (mq_held ?h) (qstate m) m'" by (simp only: held g(4))
  note same = mq_hands_same [OF mq_hands_drop [OF i(3)] this]
  have tr: "mq_texts m' Q = mq_texts (qstate m) Q" using g(3) by simp
  have got: "((qgot m)(t := qgot m t @ [buffer])) u @ mq_pending m' (?h u) = map mq_cut (qtaken m u)" for u
    using i(5) [rule_format, of u] t same(2) [of u] by (cases "u = t") simp_all
  have w: "mq_list_of (qcall m u) = l \<and> mq_fits z (qcall m u) \<and> ?h u = None" if "waits (qpc m) l u" for l u
    using that i(4) t by auto
  show ?thesis
    by (rule mq_invI [where F = "F(b := s # F b)" and Q = Q and L = L'])
      (use i(1) w tr g(2) same(1) got in \<open>simp_all add: x held del: fun_upd_apply\<close>)
qed

lemma mq_inv_interrupt:
  assumes inv: "mq_inv idle n z q0 m" and s: "mq_free (mqs (qstate m) b) = Some s" and msg: "length msg \<le> z b"
    and r: "mq_post b msg urgent (Mq_takes s, (qstate m)\<lparr>mqs := (mqs (qstate m))(b := mq_take_free s (mqs (qstate m) b))\<rparr>) =
      (Mq_returns r, need_schedule, x)"
  shows "mq_inv idle n z q0 (m\<lparr>qstate := x, qtrace := qtrace m @ mq_posted b msg urgent r\<rparr>)"
proof -
  from inv obtain F Q L where i: "replay n (qtrace m) q0 = Some (mq_texts (qstate m) Q)"
    "mq_core idle n z (qpc m) (qstate m) F Q (mq_held (qhand m)) (\<lambda>_. 0) L" "mq_hands z (qstate m) (qhand m)"
    "\<forall>l t. waits (qpc m) l t \<longrightarrow> mq_list_of (qcall m t) = l \<and> mq_fits z (qcall m t) \<and> qhand m t = None"
    "\<forall>t. qgot m t @ mq_pending (qstate m) (qhand m t) = map mq_cut (qtaken m t)" by (rule mq_invE)
  let ?H = "mq_held (qhand m)"
  let ?H1 = "?H(b := insert s (?H b))"
  define x1 where "x1 = (qstate m)\<lparr>mqs := (mqs (qstate m))(b := mq_take_free s (mqs (qstate m) b))\<rparr>"
  define x2 where "x2 = x1\<lparr>mqs := (mqs x1)(b := mq_fill s msg urgent (mqs x1 b))\<rparr>"
  note take = mq_core_take_free [OF mq_core_any_extra [OF i(2)] s, folded x1_def]
  have s1: "s \<in> ?H1 b" by simp
  note fill = mq_core_fill [OF take(1) s1 msg, where u = urgent, folded x2_def]
  obtain ns m' L' where l: "mq_link b s urgent x2 = (RT_EOK, ns, m')"
    "mq_core idle n z (qpc m) m' (F(b := tl (F b))) (Q(b := if urgent then s # Q b else Q b @ [s])) (?H1(b := ?H1 b - {s})) (\<lambda>_. 0) L'"
    "\<forall>c. mq_text (mqs m' c) = mq_text (mqs x2 c)" "mq_same (?H1(b := ?H1 b - {s})) x2 m'" "length (Q b) < n b"
    by (rule mq_core_link [OF fill(1) s1 fill(3)])
  have H: "?H1(b := ?H1 b - {s}) = ?H" using take(2) by auto
  have x: "r = RT_EOK" "x = m'" using r l(1) by (simp_all add: mq_post_def Let_def x1_def [symmetric] x2_def [symmetric])
  have "mq_same ?H (qstate m) m'"
    using take(4) [of ?H] fill(4) l(4) unfolding H by (simp add: mq_same_def)
  note same = mq_hands_same [OF i(3) this]
  have "mq_texts x2 Q = mq_texts (qstate m) Q" by (simp only: fill(5) take(3))
  then have tr: "replay n (mq_posted b msg urgent r) (mq_texts (qstate m) Q) = Some (mq_texts m' (Q(b := if urgent then s # Q b else Q b @ [s])))"
    using mq_link_delivers [where Q = Q and n = n and b = b, OF l(5) fill(2) l(3), of urgent] by (simp only: x(1))
  show ?thesis
    by (rule mq_invI [where F = "F(b := tl (F b))" and Q = "Q(b := if urgent then s # Q b else Q b @ [s])" and L = L'])
      (use i(1,4,5) tr l(2) [unfolded H] same in \<open>simp_all add: replay_append x(2) del: fun_upd_apply\<close>)
qed

lemma mq_step_keeps:
  assumes "mq_step idle m m'" and inv: "mq_inv idle n z q0 m"
  shows "mq_inv idle n z q0 m'"
proof -
  have call: "mq_list_of (qcall m t) = l \<and> mq_fits z (qcall m t) \<and> qhand m t = None" if "waits (qpc m) l t" for l t
    using inv that by (auto elim!: mq_invE)
  from inv obtain F0 Q0 L0 where core: "mq_core idle n z (qpc m) (qstate m) F0 Q0 (mq_held (qhand m)) (\<lambda>_. 0) L0" by (rule mq_invE)
  have passed: "mq_inv idle n z q0 (m\<lparr>qstate := x, qpc := (qpc m)(t := Outside)\<rparr>)"
    if "\<And>F Q L. mq_core idle n z (qpc m) (qstate m) F Q (mq_held (qhand m)) (\<lambda>_. 0) L \<Longrightarrow>
      mq_pass idle n z ((qpc m)(t := Outside)) t c (qstate m) F Q (mq_held (qhand m)) (Mq_returns r, x)" for t c r x
  proof -
    have "mq_inv idle n z q0 (m\<lparr>qstate := x, qpc := (qpc m)(t := Outside), qcall := qcall m\<rparr>)"
      by (rule mq_inv_stays [OF inv]) (use that call in \<open>auto simp: mq_pass_def waits_fun_upd split: if_splits\<close>)
    then show ?thesis by simp
  qed
  have waited: "mq_inv idle n z q0 (m\<lparr>qstate := x, qpc := (qpc m)(t := Before (mq_list_of c)),
      qcall := (qcall m)(t := mq_set_locals c timeout tick_delta)\<rparr>)"
    if "\<And>F Q L. mq_core idle n z (qpc m) (qstate m) F Q (mq_held (qhand m)) (\<lambda>_. 0) L \<Longrightarrow>
      mq_pass idle n z ((qpc m)(t := Outside)) t c (qstate m) F Q (mq_held (qhand m)) (Mq_waits timeout tick_delta, x)"
      and "t \<noteq> idle" and "qhand m t = None" for t c x timeout tick_delta
  proof (rule mq_inv_stays [OF inv])
    have "mq_fits z c" using that(1) [OF core] by (simp add: mq_pass_def)
    then have "mq_fits z (mq_set_locals c timeout tick_delta)" by (cases c) simp_all
    then show "mq_list_of (((qcall m)(t := mq_set_locals c timeout tick_delta)) u) = l \<and>
        mq_fits z (((qcall m)(t := mq_set_locals c timeout tick_delta)) u) \<and> qhand m u = None"
      if "waits ((qpc m)(t := Before (mq_list_of c))) l u" for l u
      using that call \<open>qhand m t = None\<close> by (auto simp: waits_fun_upd split: if_splits)
  qed (use that in \<open>auto simp: mq_pass_def\<close>)
  from assms(1) show ?thesis
  proof cases
    case (call_returns t c r x)
    have p: "(qpc m)(t := Outside) = qpc m" using call_returns(3) by auto
    show ?thesis unfolding call_returns(1)
      using passed [of t c r x] mq_called_ok [where p = "qpc m", OF _ call_returns(2,3,5)] by (simp add: p)
  next
    case (call_takes t c s x)
    have p: "(qpc m)(t := Outside) = qpc m" using call_takes(3) by auto
    show ?thesis unfolding call_takes(1)
      by (rule mq_inv_takes [OF inv call_takes(4)]) (unfold p, rule mq_called_ok [where p = "qpc m", OF _ call_takes(2,3,5)])
  next
    case (call_waits t c timeout td x)
    have p: "(qpc m)(t := Outside) = qpc m" using call_waits(4) by auto
    show ?thesis unfolding call_waits(1)
      by (rule waited [OF _ call_waits(3,5)]) (unfold p, rule mq_called_ok [where p = "qpc m", OF _ call_waits(2,4,6)])
  next
    case (call_switches t l)
    show ?thesis unfolding call_switches(1) mq_schedule_def
    proof (rule mq_inv_kern [OF inv])
      show "\<exists>L'. line_ok idle ((qpc m)(t := After l)) (rt_schedule (qkern (qstate m))) a (\<lambda>_. 0) L'"
        if "line_ok idle (qpc m) (qkern (qstate m)) a (\<lambda>_. 0) L" for a L
        by (rule line_switches [where p = "qpc m" and t = t and l = l, OF that call_switches(3)]) blast
    qed (use call_switches(3) in \<open>auto simp: waits_fun_upd waits_def split: if_splits\<close>)
  next
    case (resumed_returns t l r x)
    have c: "mq_list_of (qcall m t) = l" "mq_fits z (qcall m t)" using call [of l t] resumed_returns(3) by (auto simp: waits_def)
    show ?thesis unfolding resumed_returns(1)
      by (rule passed [where c = "qcall m t" and r = r]) (rule mq_resumed_ok [where p = "qpc m", OF _ resumed_returns(2) _ c(2) resumed_returns(4)]; simp add: c resumed_returns(3))
  next
    case (resumed_takes t l s x)
    have c: "mq_list_of (qcall m t) = l" "mq_fits z (qcall m t)" "qhand m t = None" using call [of l t] resumed_takes(3) by (auto simp: waits_def)
    show ?thesis unfolding resumed_takes(1)
      by (rule mq_inv_takes [OF inv c(3)]) (rule mq_resumed_ok [where p = "qpc m", OF _ resumed_takes(2) _ c(2) resumed_takes(4)]; simp add: c resumed_takes(3))
  next
    case (resumed_waits t l timeout td x)
    have c: "mq_list_of (qcall m t) = l" "mq_fits z (qcall m t)" "qhand m t = None" using call [of l t] resumed_waits(3) by (auto simp: waits_def)
    have "t \<noteq> idle" using resumed_waits(3) sem_okD(6) [OF line_okD(1) [OF mq_coreD(1) [OF core]]] by auto
    with waited [of t "qcall m t" timeout td x] c mq_resumed_ok [where p = "qpc m", OF _ resumed_waits(2) _ c(2) resumed_waits(4)] resumed_waits(3)
    show ?thesis unfolding resumed_waits(1) by simp
  next
    case (fills t b s msg urgent)
    then show ?thesis using mq_inv_fills [OF inv] by simp
  next
    case (links t b s msg urgent r ns x)
    then show ?thesis using mq_inv_links [OF inv] by simp
  next
    case (drains t b s room)
    then show ?thesis using mq_inv_drains [OF inv] by simp
  next
    case (gives_back t b s buffer ns x)
    then show ?thesis using mq_inv_gives_back [OF inv] by simp
  next
    case (interrupt_sends b msg sflag t y r ns x)
    show ?thesis
    proof (cases "length msg > z b \<or> mq_free (mqs (qstate m) b) = None")
      case True
      then have "x = qstate m" "r \<noteq> RT_EOK"
        using interrupt_sends(2,3) by (auto simp: mq_send_def mq_post_def mq_coreD(4) [OF core] split: if_splits)
      then show ?thesis unfolding interrupt_sends(1) using inv by (simp add: mq_posted_def)
    next
      case False
      then obtain s where s: "mq_free (mqs (qstate m) b) = Some s" "length msg \<le> z b" by auto
      then show ?thesis unfolding interrupt_sends(1)
        using mq_inv_interrupt [OF inv s, of False r ns x] interrupt_sends(2,3) mq_coreD(4) [OF core, of b]
        by (simp add: mq_send_def mq_send_loop_def split: if_splits)
    qed
  next
    case (interrupt_sends_urgent b msg r ns x)
    show ?thesis
    proof (cases "length msg > z b \<or> mq_free (mqs (qstate m) b) = None")
      case True
      then have "x = qstate m" "r \<noteq> RT_EOK"
        using interrupt_sends_urgent(2) by (auto simp: mq_urgent_def mq_post_def mq_coreD(4) [OF core] split: if_splits option.splits)
      then show ?thesis unfolding interrupt_sends_urgent(1) using inv by (simp add: mq_posted_def)
    next
      case False
      then obtain s where s: "mq_free (mqs (qstate m) b) = Some s" "length msg \<le> z b" by auto
      then show ?thesis unfolding interrupt_sends_urgent(1)
        using mq_inv_interrupt [OF inv s, of True r ns x] interrupt_sends_urgent(2) mq_coreD(4) [OF core, of b]
        by (simp add: mq_urgent_def split: if_splits)
    qed
  next
    case schedules
    have "mq_inv idle n z q0 (m\<lparr>qstate := mq_schedule (qstate m), qpc := qpc m\<rparr>)"
      unfolding mq_schedule_def by (rule mq_inv_kern [OF inv]) (blast elim: line_schedule)+
    then show ?thesis unfolding schedules by simp
  next
    case ticks
    have "mq_inv idle n z q0 (m\<lparr>qstate := (qstate m)\<lparr>qkern := rt_tick_increase (qkern (qstate m))\<rparr>, qpc := qpc m\<rparr>)"
      by (rule mq_inv_kern [OF inv]) (blast elim: line_tick)+
    then show ?thesis unfolding ticks by simp
  next
    case (times_out t)
    let ?k = "thread_timeout t ((qkern (qstate m))\<lparr>thread_timer := (thread_timer (qkern (qstate m)))(t := None)\<rparr>)"
    have "mq_inv idle n z q0 (m\<lparr>qstate := (qstate m)\<lparr>qkern := ?k\<rparr>, qpc := qpc m\<rparr>)"
      by (rule mq_inv_kern [OF inv]) (use times_out(2) in \<open>blast elim: line_times_out\<close>)+
    then show ?thesis unfolding times_out(1) by simp
  next
    case yields
    have "mq_inv idle n z q0 (m\<lparr>qstate := (qstate m)\<lparr>qkern := snd (rt_thread_yield (qkern (qstate m)))\<rparr>, qpc := qpc m\<rparr>)"
      by (rule mq_inv_kern [OF inv]) (blast elim: line_yield)+
    then show ?thesis unfolding yields by simp
  qed
qed

interpretation mq_run: step_relation "mq_step idle" "mq_inv idle n z q0" for idle n z q0
  by unfold_locales (rule mq_step_keeps)

text \<open>A start: nobody waits, a thread runs, the idle thread can, and the queues are in order; there may be messages in them.\<close>

definition mq_ready :: "mqueue \<Rightarrow> bool" where
  "mq_ready x \<longleftrightarrow> mq_places x (mq_unused x) (mq_queued x) {}"

definition mq_start :: "nat \<Rightarrow> queues \<Rightarrow> bool" where
  "mq_start idle x \<longleftrightarrow> sem_start idle (qkern x) \<and> sem_value (qkern x) = (\<lambda>_. 0) \<and> (\<forall>b. mq_ready (mqs x b))"

definition mq_from :: "queues \<Rightarrow> mq_run" where
  "mq_from x = \<lparr>qstate = x, qpc = (\<lambda>_. Outside), qcall = (\<lambda>_. Receives 0 0 0 0 RT_UNINTERRUPTIBLE), qhand = (\<lambda>_. None),
     qtrace = [], qtaken = (\<lambda>_. []), qgot = (\<lambda>_. [])\<rparr>"

lemma mq_start_inv:
  assumes "mq_start idle x"
  shows "mq_inv idle (\<lambda>b. unat (mq_max_msgs (mqs x b))) (\<lambda>b. unat (mq_msg_size (mqs x b))) (\<lambda>b. mq_contents (mqs x b)) (mq_from x)"
proof -
  have none: "mq_held (\<lambda>_. None) = (\<lambda>_. {})" by (simp add: mq_held_def fun_eq_iff)
  from assms have k: "sem_start idle (qkern x)" and v: "sem_value (qkern x) = (\<lambda>_. 0)" and b: "\<And>b. mq_ready (mqs x b)"
    by (simp_all add: mq_start_def)
  obtain L where L: "sched_ok (qkern x) L" "\<And>s. L (Suspend_list s) = []" using k by (auto simp: sem_start_def)
  have "sem_ok idle (\<lambda>_. Outside) (qkern x) L" using k L by (auto simp: sem_ok_def sem_start_def waits_def)
  then have "line_ok idle (\<lambda>_. Outside) (qkern x) (stock (\<lambda>b. length (mq_queued (mqs x b))) (\<lambda>b. length (mq_unused (mqs x b)))) (\<lambda>_. 0) L"
    using v L(2) by (simp add: line_ok_def)
  then have "mq_core idle (\<lambda>b. unat (mq_max_msgs (mqs x b))) (\<lambda>b. unat (mq_msg_size (mqs x b))) (\<lambda>_. Outside) x
      (\<lambda>b. mq_unused (mqs x b)) (\<lambda>b. mq_queued (mqs x b)) (\<lambda>_. {}) (\<lambda>_. 0) L"
    using b by (intro mq_coreI) (simp_all add: mq_ready_def)
  then show ?thesis
    by (intro mq_invI [where F = "\<lambda>b. mq_unused (mqs x b)" and Q = "\<lambda>b. mq_queued (mqs x b)" and L = L])
      (simp_all add: mq_from_def mq_contents_def mq_hands_def waits_def none)
qed

lemma mq_run_state:
  assumes "mq_start idle x" and "(mq_step idle)\<^sup>*\<^sup>* (mq_from x) m"
  obtains F Q L where "replay (\<lambda>b. unat (mq_max_msgs (mqs x b))) (qtrace m) (\<lambda>b. mq_contents (mqs x b)) = Some (mq_texts (qstate m) Q)"
    "mq_core idle (\<lambda>b. unat (mq_max_msgs (mqs x b))) (\<lambda>b. unat (mq_msg_size (mqs x b))) (qpc m) (qstate m) F Q (mq_held (qhand m)) (\<lambda>_. 0) L"
    "\<And>b. mq_queued (mqs (qstate m) b) = Q b" "\<And>b. mq_unused (mqs (qstate m) b) = F b"
    "mq_hands (\<lambda>b. unat (mq_msg_size (mqs x b))) (qstate m) (qhand m)"
    "\<And>l t. waits (qpc m) l t \<Longrightarrow> mq_list_of (qcall m t) = l \<and> mq_fits (\<lambda>b. unat (mq_msg_size (mqs x b))) (qcall m t) \<and> qhand m t = None"
    "\<And>t. qgot m t @ mq_pending (qstate m) (qhand m t) = map mq_cut (qtaken m t)"
proof -
  from mq_run.run_keeps [OF assms(2) mq_start_inv [OF assms(1)]] obtain F Q L where
    i: "replay (\<lambda>b. unat (mq_max_msgs (mqs x b))) (qtrace m) (\<lambda>b. mq_contents (mqs x b)) = Some (mq_texts (qstate m) Q)"
      "mq_core idle (\<lambda>b. unat (mq_max_msgs (mqs x b))) (\<lambda>b. unat (mq_msg_size (mqs x b))) (qpc m) (qstate m) F Q (mq_held (qhand m)) (\<lambda>_. 0) L"
      "mq_hands (\<lambda>b. unat (mq_msg_size (mqs x b))) (qstate m) (qhand m)"
      "\<forall>l t. waits (qpc m) l t \<longrightarrow> mq_list_of (qcall m t) = l \<and> mq_fits (\<lambda>b. unat (mq_msg_size (mqs x b))) (qcall m t) \<and> qhand m t = None"
      "\<forall>t. qgot m t @ mq_pending (qstate m) (qhand m t) = map mq_cut (qtaken m t)" by (rule mq_invE)
  show ?thesis
    by (rule that [OF i(1,2)]) (use i mq_places_walks [OF mq_coreD(2) [OF i(2)]] in simp_all)
qed

section \<open>What message queues promise\<close>

text \<open>
  C14: a message queue is a bounded queue of messages with a second entrance in front.  However sends, urgent sends and
  receives - whose copying is open to everybody -, interrupts, time slices, timeouts and task switches are interleaved,
  what was linked and what was taken out, in the order in which it was, is a history of queues of the given sizes and
  leaves what is in them; and a thread that is through with its receives got exactly the messages that were taken out
  for it, cut to the sizes of its buffers.
\<close>

theorem message_queue_is_queue:
  assumes "mq_start idle x" and "(mq_step idle)\<^sup>*\<^sup>* (mq_from x) m"
  shows "replay (\<lambda>b. unat (mq_max_msgs (mqs x b))) (qtrace m) (\<lambda>b. mq_contents (mqs x b)) = Some (\<lambda>b. mq_contents (mqs (qstate m) b)) \<and>
    (\<forall>t. qhand m t = None \<longrightarrow> qgot m t = map (\<lambda>(room, msg). take (unat room) msg) (qtaken m t))"
proof (rule mq_run_state [OF assms], intro conjI allI impI)
  fix F Q L t
  assume r: "replay (\<lambda>b. unat (mq_max_msgs (mqs x b))) (qtrace m) (\<lambda>b. mq_contents (mqs x b)) = Some (mq_texts (qstate m) Q)"
    and q: "\<And>b. mq_queued (mqs (qstate m) b) = Q b"
    and got: "\<And>t. qgot m t @ mq_pending (qstate m) (qhand m t) = map mq_cut (qtaken m t)"
  show "replay (\<lambda>b. unat (mq_max_msgs (mqs x b))) (qtrace m) (\<lambda>b. mq_contents (mqs x b)) = Some (\<lambda>b. mq_contents (mqs (qstate m) b))"
    unfolding r by (simp add: mq_contents_def q)
  show "qgot m t = map mq_cut (qtaken m t)" if "qhand m t = None" using got [of t] that by simp
qed

text \<open>
  C15: no place is lost and none is used twice: in every such run each place of a queue is in exactly one of the list of
  free places, the list of messages, and the hands of one thread, and the counter is the number of messages.
\<close>

theorem message_places_conserved:
  assumes "mq_start idle x" and "(mq_step idle)\<^sup>*\<^sup>* (mq_from x) m"
  shows "distinct (mq_unused (mqs (qstate m) b) @ mq_queued (mqs (qstate m) b)) \<and>
    {s. \<exists>t ph. qhand m t = Some (b, s, ph)} =
      {..<unat (mq_max_msgs (mqs x b))} - set (mq_unused (mqs (qstate m) b) @ mq_queued (mqs (qstate m) b)) \<and>
    set (mq_unused (mqs (qstate m) b) @ mq_queued (mqs (qstate m) b)) \<subseteq> {..<unat (mq_max_msgs (mqs x b))} \<and>
    (\<forall>t u s ph ph'. qhand m t = Some (b, s, ph) \<longrightarrow> qhand m u = Some (b, s, ph') \<longrightarrow> t = u) \<and>
    unat (mq_entry (mqs (qstate m) b)) = length (mq_queued (mqs (qstate m) b))"
proof (rule mq_run_state [OF assms])
  fix F Q L
  assume c: "mq_core idle (\<lambda>b. unat (mq_max_msgs (mqs x b))) (\<lambda>b. unat (mq_msg_size (mqs x b))) (qpc m) (qstate m) F Q (mq_held (qhand m)) (\<lambda>_. 0) L"
    and q: "\<And>b. mq_queued (mqs (qstate m) b) = Q b" and f: "\<And>b. mq_unused (mqs (qstate m) b) = F b"
    and h: "mq_hands (\<lambda>b. unat (mq_msg_size (mqs x b))) (qstate m) (qhand m)"
  note d = mq_placesD [OF mq_coreD(2) [OF c, of b]]
  have "mq_held (qhand m) b = {..<unat (mq_max_msgs (mqs x b))} - set (F b @ Q b)" "set (F b @ Q b) \<subseteq> {..<unat (mq_max_msgs (mqs x b))}"
    using d(5,6) mq_coreD(3) [OF c, of b] by auto
  moreover have "\<forall>t u s ph ph'. qhand m t = Some (b, s, ph) \<longrightarrow> qhand m u = Some (b, s, ph') \<longrightarrow> t = u"
    using h unfolding mq_hands_def by blast
  ultimately show ?thesis using d(4,7) unfolding q f mq_held_def by blast
qed

text \<open>
  No wake-up is lost.  While a thread waits for a message, at least as many threads that were woken for one are on
  their way as there are messages; while one waits for room, at least as many that were woken for room are on their way
  as there are free places.
\<close>

theorem message_queue_no_lost_wakeup:
  assumes "mq_start idle x" and "(mq_step idle)\<^sup>*\<^sup>* (mq_from x) m"
    and "waits (qpc m) l t" and "errno (qkern (qstate m)) t = - RT_EINTR"
  shows "(l = receivers b \<longrightarrow> length (mq_contents (mqs (qstate m) b)) \<le>
      card {u. waits (qpc m) (receivers b) u \<and> errno (qkern (qstate m)) u = RT_EOK}) \<and>
    (l = senders b \<longrightarrow> length (mq_unused (mqs (qstate m) b)) \<le>
      card {u. waits (qpc m) (senders b) u \<and> errno (qkern (qstate m)) u = RT_EOK})"
proof (rule mq_run_state [OF assms(1,2)])
  fix F Q L
  assume c: "mq_core idle (\<lambda>b. unat (mq_max_msgs (mqs x b))) (\<lambda>b. unat (mq_msg_size (mqs x b))) (qpc m) (qstate m) F Q (mq_held (qhand m)) (\<lambda>_. 0) L"
    and q: "\<And>b. mq_queued (mqs (qstate m) b) = Q b" and f: "\<And>b. mq_unused (mqs (qstate m) b) = F b"
  note d = line_okD [OF mq_coreD(1) [OF c]]
  have "t \<in> set (L (Suspend_list l))" using sem_ok_members [OF d(1)] assms(3,4) by simp
  then have "L (Suspend_list l) \<noteq> []" by auto
  then show ?thesis using d(3) [of l] by (auto simp: q f granted_def mq_contents_def)
qed

text \<open>Every call comes back, gets a place or puts its thread to sleep, and so does every thread that was woken.\<close>

theorem message_queue_calls_end:
  assumes "mq_start idle x" and "(mq_step idle)\<^sup>*\<^sup>* (mq_from x) m"
    and t: "rt_current_thread (qkern (qstate m)) = Some t"
  shows "(qpc m t = Outside \<longrightarrow> (\<exists>r. mq_called c t (qstate m) = Some r)) \<and>
    (qpc m t = After l \<longrightarrow> (\<exists>r. mq_resumed (qcall m t) t (qstate m) = Some r))"
proof (rule mq_run_state [OF assms(1,2)])
  fix F Q L
  let ?n = "\<lambda>b. unat (mq_max_msgs (mqs x b))" and ?z = "\<lambda>b. unat (mq_msg_size (mqs x b))" and ?H = "mq_held (qhand m)"
  assume c: "mq_core idle ?n ?z (qpc m) (qstate m) F Q ?H (\<lambda>_. 0) L"
    and calls: "\<And>l t. waits (qpc m) l t \<Longrightarrow> mq_list_of (qcall m t) = l \<and> mq_fits ?z (qcall m t) \<and> qhand m t = None"
  have loops: "\<exists>r. mq_send_loop b timeout td sflag t (qstate m) = Some r" "\<exists>r. mq_recv_loop b timeout td sflag t (qstate m) = Some r"
    if p: "line_ok idle p (qkern (qstate m)) (stock (\<lambda>b. length (Q b)) (\<lambda>b. length (F b))) extra L" "p t = Outside" for p extra b timeout td sflag
  proof -
    have core: "mq_core idle ?n ?z p (qstate m) F Q ?H extra L" using mq_core_kern [OF c p(1)] by simp
    have full: "stock (\<lambda>b. length (Q b)) (\<lambda>b. length (F b)) (senders b) = 0" if "mq_free (mqs (qstate m) b) = None"
      using mq_placesD(1) [OF mq_coreD(2) [OF c], of b] that by (cases "F b") auto
    have waits: "\<exists>r. ipc_wait l timeout td sflag t ((qkern (qstate m))\<lparr>errno := (errno (qkern (qstate m)))(t := - RT_EINTR)\<rparr>) = Some r"
      if "timeout \<noteq> 0" "stock (\<lambda>b. length (Q b)) (\<lambda>b. length (F b)) l = 0" for l
      by (rule line_waits [where l = l and sflag = sflag and tick_delta = td, OF p(1) t p(2) that]) blast
    then have waits: "\<exists>r. mq_wait l timeout td sflag t (mq_errno t (- RT_EINTR) (qstate m)) = Some r"
      if "timeout \<noteq> 0" "stock (\<lambda>b. length (Q b)) (\<lambda>b. length (F b)) l = 0" for l
      using that by (fastforce simp: mq_wait_def mq_errno_def)
    show "\<exists>r. mq_send_loop b timeout td sflag t (qstate m) = Some r"
      using waits [OF _ full] by (cases "timeout = 0") (auto simp: mq_send_loop_def Let_def split: option.split)
    have "\<exists>s. mq_head (mqs (qstate m) b) = Some s" if "mq_entry (mqs (qstate m) b) \<noteq> 0"
      by (rule mq_places_take_head [OF mq_coreD(2) [OF c] that]) blast
    moreover have "stock (\<lambda>b. length (Q b)) (\<lambda>b. length (F b)) (receivers b) = 0" if "mq_entry (mqs (qstate m) b) = 0"
      using mq_placesD(7) [OF mq_coreD(2) [OF c], of b] that by simp
    ultimately show "\<exists>r. mq_recv_loop b timeout td sflag t (qstate m) = Some r"
      using waits [of "receivers b"] by (cases "timeout = 0") (auto simp: mq_recv_loop_def Let_def)
  qed
  have "\<exists>r. mq_called c t (qstate m) = Some r" if "qpc m t = Outside"
    using loops [OF mq_coreD(1) [OF c] that] by (cases c) (auto simp: mq_send_def mq_recv_def)
  moreover have "\<exists>r. mq_resumed (qcall m t) t (qstate m) = Some r" if "qpc m t = After l"
    using loops [OF line_leaves [OF mq_coreD(1) [OF c] t that]] calls [of l t] that
    by (cases "qcall m t") (auto simp: mq_send_resumed_def mq_recv_resumed_def waits_def split: prod.split)
  ultimately show ?thesis by blast
qed

text \<open>
  A new queue is empty and all its places are free: as many as go into the memory, as far as 16 bits hold their number.
  When that number comes to 0 the call fails.
\<close>

theorem message_queue_init:
  assumes "mq_place_size msg_size \<noteq> 0"
  shows "\<exists>r m'. rt_mq_init b pool msg_size pool_size flag m = Some (r, m') \<and>
    unat (mq_max_msgs (mqs m' b)) = unat (pool_size div mq_place_size msg_size) mod 65536 \<and>
    (r = RT_EOK \<longleftrightarrow> mq_max_msgs (mqs m' b) \<noteq> 0) \<and>
    (r = RT_EOK \<longrightarrow> mq_ready (mqs m' b) \<and> mq_contents (mqs m' b) = [] \<and> length (mq_unused (mqs m' b)) = unat (mq_max_msgs (mqs m' b)))"
proof -
  define x where "x = (mqs m b)\<lparr>mq_pool := pool, mq_msg_size := ucast msg_size,
    mq_max_msgs := ucast (pool_size div mq_place_size msg_size)\<rparr>"
  note p = mq_places_init [of x]
  note w = mq_places_walks [OF p]
  have ready: "mq_ready (mq_lists_init x)" using p by (simp add: mq_ready_def w)
  have "mq_max_msgs (mq_lists_init x) = mq_max_msgs x"
  proof -
    have "unat (mq_max_msgs (mq_lists_init x)) = unat (mq_max_msgs x)" using mq_places_count(2) [OF p] by simp
    then show ?thesis by (simp only: word_unat_eq_iff)
  qed
  moreover have "unat (mq_max_msgs x) = unat (pool_size div mq_place_size msg_size) mod 65536"
    by (simp add: x_def unsigned_ucast_eq take_bit_eq_mod)
  moreover have "\<exists>m'. rt_mq_init b pool msg_size pool_size flag m = Some (- RT_EINVAL, m') \<and> mqs m' b = x" if "mq_max_msgs x = 0"
    using that assms by (auto simp: rt_mq_init_def Let_def x_def)
  moreover have "\<exists>m'. rt_mq_init b pool msg_size pool_size flag m = Some (RT_EOK, m') \<and> mqs m' b = mq_lists_init x" if "mq_max_msgs x \<noteq> 0"
    using that assms by (auto simp: rt_mq_init_def Let_def x_def)
  ultimately show ?thesis using ready w by (cases "mq_max_msgs x = 0") fastforce+
qed

text \<open>A reset throws the messages away; their places are free again, and those in somebody's hands stay there.\<close>

theorem message_queue_reset_frees:
  assumes k: "sched_ok (qkern m) L" and x: "mq_places (mqs m b) F Q H"
  shows "\<exists>m'. rt_mq_control b RT_IPC_CMD_RESET m = Some (RT_EOK, m') \<and> mq_contents (mqs m' b) = [] \<and>
    mq_places (mqs m' b) (rev Q @ F) [] H"
proof -
  from resume_all_ok [OF k, of "receivers b"] obtain k1 L1 where k1: "ipc_list_resume_all (receivers b) (qkern m) = Some k1" "sched_ok k1 L1"
    by blast
  from resume_all_ok [OF k1(2), of "senders b"] obtain k2 where k2: "ipc_list_resume_all (senders b) k1 = Some k2" by blast
  from mq_release_all_ok [OF x] obtain y where y: "mq_release_all (mqs m b) = Some y" "mq_places (y\<lparr>mq_entry := 0\<rparr>) (rev Q @ F) [] H"
    by blast
  from y(2) mq_places_walks(3) [OF y(2)] show ?thesis
    by (simp add: rt_mq_control_def ipc_resume_both_def k1(1) k2 y(1) mq_schedule_def)
qed

section \<open>Message queues on a kernel that runs\<close>

definition no_queues :: "nat \<Rightarrow> mqueue" where
  "no_queues = (\<lambda>_. \<lparr>mq_pool = (\<lambda>_. \<lparr>mq_next = None, mq_length = 0, mq_body = []\<rparr>), mq_msg_size = 0, mq_max_msgs = 0, mq_entry = 0,
     mq_head = None, mq_tail = None, mq_free = None\<rparr>)"

definition demo_pool :: "nat \<Rightarrow> mq_message" where
  "demo_pool = (\<lambda>_. \<lparr>mq_next = None, mq_length = 0, mq_body = replicate 8 0\<rparr>)"

definition demo_queues :: queues where
  "demo_queues = (case rt_mq_init 1 demo_pool 8 40 RT_IPC_FLAG_PRIO \<lparr>qkern = demo, mqs = no_queues\<rparr> of Some (_, m) \<Rightarrow> m)"

lemma demo_place: "mq_place_size 8 = 16"
  by (simp add: mq_place_size_def RT_ALIGN_def)

lemma demo_queues_parts:
  "qkern demo_queues = demo\<lparr>object_flag := (object_flag demo)(2 := RT_IPC_FLAG_PRIO, 3 := RT_IPC_FLAG_PRIO)\<rparr>"
  "mqs demo_queues = no_queues(1 := mq_lists_init ((no_queues 1)\<lparr>mq_pool := demo_pool, mq_msg_size := 8, mq_max_msgs := 2\<rparr>))"
  using init_empty_list [OF demo_ok(1), of 2] init_empty_list [OF demo_ok(1), of 3]
  by (simp_all add: demo_queues_def rt_mq_init_def Let_def demo_place receivers_def senders_def demo_lists_def)

lemma upt_two: "[0..<2] = [0, 1]"
  by (simp add: numeral_2_eq_2)

lemma demo_queues_ready: "mq_ready (mqs demo_queues b)"
proof (cases "b = 1")
  case True
  have p: "mq_places (mqs demo_queues 1) [1, 0] [] {}"
    using mq_places_init [of "(no_queues 1)\<lparr>mq_pool := demo_pool, mq_msg_size := 8, mq_max_msgs := 2\<rparr>"]
    by (simp add: demo_queues_parts upt_two)
  show ?thesis unfolding True mq_ready_def mq_places_walks(1,2) [OF p] by (rule p)
qed (simp add: demo_queues_parts mq_ready_def mq_places_def mq_unused_def mq_queued_def no_queues_def)

lemma demo_queues_ok: "sched_ok (qkern demo_queues) demo_lists"
  using demo_ok(1) unfolding demo_queues_parts by (simp add: sched_ok_def lists_ok_def)

lemma demo_queues_start: "mq_start 0 demo_queues"
  unfolding mq_start_def sem_start_def using demo_queues_ok demo_ok demo_queues_ready
  by (auto simp: demo_queues_parts(1) demo_value demo_lists_def runnable_def intro!: exI [of _ demo_lists])

text \<open>What becomes of the queue when a message of one byte is sent.\<close>

definition demo_sent :: mqueue where
  "demo_sent = (mq_append 1 (mq_fill 1 [42] False (mq_take_free 1 (mqs demo_queues 1))))\<lparr>mq_entry := 1\<rparr>"

lemma demo_queue_facts:
  "mq_free (mqs demo_queues 1) = Some 1" "mq_entry (mqs demo_queues 1) = 0" "mq_msg_size (mqs demo_queues 1) = 8"
  "mq_entry (mq_fill 1 [42] False (mq_take_free 1 (mqs demo_queues 1))) = 0"
  "mq_entry demo_sent = 1" "mq_head demo_sent = Some 1" "mq_text demo_sent 1 = [42]" "mq_contents (mqs demo_queues 1) = []"
  by (simp_all add: demo_queues_parts no_queues_def mq_lists_init_def upt_two demo_sent_def mq_append_def mq_fill_def
      mq_copy_in_def mq_set_next_def mq_take_free_def mq_give_def mq_text_def mq_contents_def mq_queued_def Let_def)

text \<open>
  The running thread asks for a message and has to wait; before it gives up the processor an interrupt sends one; then it
  takes the message out, copies it, and gives the place back.
\<close>

lemma demo_queue_run:
  obtains m1 m4 m6 where "(mq_step 0)\<^sup>*\<^sup>* (mq_from demo_queues) m1" "waits (qpc m1) (receivers 1) 2" "errno (qkern (qstate m1)) 2 = - RT_EINTR"
    "(mq_step 0)\<^sup>*\<^sup>* (mq_from demo_queues) m4" "qhand m4 2 = Some (1, 1, Drains 4)"
    "(mq_step 0)\<^sup>*\<^sup>* (mq_from demo_queues) m6" "qtrace m6 = [Posted 1 [42], Fetched 1 [42]]" "qgot m6 2 = [[42]]" "qhand m6 2 = None"
proof -
  let ?m0 = "mq_from demo_queues"
  note inv0 = mq_start_inv [OF demo_queues_start] and f0 = demo_queue_facts
  have g0: "rt_current_thread (qkern demo_queues) = Some 2" "stat (qkern demo_queues) 2 = RT_THREAD_RUNNING" "sem_value (qkern demo_queues) 2 = 0"
    "receivers 1 = 2" by (simp_all add: demo_queues_parts(1) demo_ok demo_value receivers_def)
  obtain k1 where k1: "sem_take 2 3 RT_UNINTERRUPTIBLE 2 (qkern demo_queues) = Some (Take_schedules, k1)"
    "stat k1 = (stat (qkern demo_queues))(2 := RT_THREAD_SUSPEND_UNINTERRUPTIBLE)" "errno k1 = (errno (qkern demo_queues))(2 := - RT_EINTR)"
    "rt_current_thread k1 = Some 2" "current_priority k1 = current_priority (qkern demo_queues)" "rt_scheduler_lock_nest k1 = 0"
    by (rule sem_take_waits [OF demo_queues_ok g0(1-3), of 3 RT_UNINTERRUPTIBLE]) (auto simp: g0 demo_queues_parts(1) demo_ok)
  let ?x1 = "demo_queues\<lparr>qkern := k1\<rparr>" and ?c = "Receives 1 4 3 (rt_tick k1) RT_UNINTERRUPTIBLE"
  define m1 where "m1 = ?m0\<lparr>qstate := ?x1, qpc := (qpc ?m0)(2 := Before 2), qcall := (qcall ?m0)(2 := ?c)\<rparr>"
  have "mq_called (Receives 1 4 3 0 RT_UNINTERRUPTIBLE) 2 demo_queues = Some (Mq_waits 3 (rt_tick k1), ?x1)"
    using f0(2) g0(3,4) ipc_wait_take [of 3 "qkern demo_queues" 2 0 RT_UNINTERRUPTIBLE 2] k1(1)
    by (simp add: mq_recv_def mq_recv_loop_def mq_wait_def mq_errno_def)
  then have s1: "mq_step 0 ?m0 m1"
    using mq_step.call_waits [of ?m0 2 0 "Receives 1 4 3 0 RT_UNINTERRUPTIBLE"] g0 by (simp add: m1_def mq_from_def)
  then have r1: "(mq_step 0)\<^sup>*\<^sup>* ?m0 m1" by simp
  have f1: "qstate m1 = ?x1" "qpc m1 = (\<lambda>_. Outside)(2 := Before 2)" "qcall m1 2 = ?c" "qtrace m1 = []" "qhand m1 = (\<lambda>_. None)"
    "qgot m1 = (\<lambda>_. [])" by (simp_all add: m1_def mq_from_def)
  obtain F1 Q1 L1 where c1: "mq_core 0 (\<lambda>b. unat (mq_max_msgs (mqs demo_queues b))) (\<lambda>b. unat (mq_msg_size (mqs demo_queues b)))
      (qpc m1) (qstate m1) F1 Q1 (mq_held (qhand m1)) (\<lambda>_. 0) L1"
    by (rule mq_run_state [OF demo_queues_start r1])
  note d1 = line_okD [OF mq_coreD(1) [OF c1]]
  have l1: "L1 (Suspend_list 2) = [2]"
    by (rule only_member [OF rings_distinct [OF lists_okD(1) [OF sched_okD(1) [OF sem_okD(1) [OF d1(1)]]]]])
      (use k1(3) in \<open>auto simp: sem_ok_members [OF d1(1)] f1 waits_def\<close>)
  have k1ok: "sched_ok k1 L1" using sem_okD(1) [OF d1(1)] by (simp add: f1)
  obtain k2 where k2: "sem_release 2 k1 = (RT_EOK, True, k2)"
    "stat k2 = (stat k1)(2 := RT_THREAD_RUNNING)" "errno k2 = (errno k1)(2 := RT_EOK)"
    "current_priority k2 = current_priority k1" "rt_current_thread k2 = Some 2"
    by (rule release_wakes [OF k1ok l1]) (auto simp: k1(4))
  have ne: "\<not> rt_list_isempty (Head (Suspend_list 2)) (tlist k1)"
    using rings_isempty [OF lists_okD(1) [OF sched_okD(1) [OF k1ok]], of "Suspend_list 2"] l1 by simp
  then have k2r: "ipc_list_resume 2 k1 = k2" using k2(1) by (simp add: sem_release_def)
  let ?x2 = "?x1\<lparr>mqs := (mqs demo_queues)(1 := demo_sent), qkern := k2\<rparr>"
  let ?y = "?x1\<lparr>mqs := (mqs demo_queues)(1 := mq_take_free 1 (mqs demo_queues 1))\<rparr>"
  have y: "mq_send 1 [42] 0 RT_UNINTERRUPTIBLE 2 (qstate m1) = Some (Mq_takes 1, ?y)"
    using f0(1,3) by (simp add: f1 mq_send_def mq_send_loop_def)
  have "mq_post 1 [42] False (Mq_takes 1, ?y) = (Mq_returns RT_EOK, True, ?x2)"
    using f0(4) ne k2r g0(4) by (simp add: mq_post_def mq_link_def ipc_wake_def Let_def RT_MQ_ENTRY_MAX_def demo_sent_def)
  note s2 = mq_step.interrupt_sends [OF y this, of 0]
  define m2 where "m2 = m1\<lparr>qstate := ?x2, qtrace := [Posted 1 [42]]\<rparr>"
  have r2: "(mq_step 0)\<^sup>*\<^sup>* ?m0 m2" using r1 s2 by (simp add: m2_def mq_posted_def f1)
  have f2: "qstate m2 = ?x2" "qpc m2 = (\<lambda>_. Outside)(2 := Before 2)" "qcall m2 2 = ?c" "qtrace m2 = [Posted 1 [42]]" "qhand m2 = (\<lambda>_. None)"
    "qgot m2 = (\<lambda>_. [])" by (simp_all add: m2_def f1)
  obtain F2 Q2 L2 where c2: "mq_core 0 (\<lambda>b. unat (mq_max_msgs (mqs demo_queues b))) (\<lambda>b. unat (mq_msg_size (mqs demo_queues b)))
      (qpc m2) (qstate m2) F2 Q2 (mq_held (qhand m2)) (\<lambda>_. 0) L2"
    by (rule mq_run_state [OF demo_queues_start r2])
  have k2ok: "sched_ok k2 L2" using sem_okD(1) [OF line_okD(1) [OF mq_coreD(1) [OF c2]]] by (simp add: f2)
  have "yield k1 = (\<lambda>_. False)" using sem_take_yield [OF k1(1)] by (simp add: demo_queues_parts(1) demo_ok)
  moreover have "yield k2 = yield k1" using k2r by (auto simp: ipc_list_resume_def rt_thread_resume_def Let_def kernel_frame)
  ultimately have "goes_on 2 (current_priority k2 t) k2" if "stat k2 t = RT_THREAD_READY" for t
    using that by (auto simp: goes_on_def k2 k1(2,5) demo_queues_parts(1) demo_ok split: if_splits)
  then have stay: "rt_schedule k2 = k2" using schedule_stays [OF k2ok] k2(5) by simp
  define m3 where "m3 = m2\<lparr>qstate := mq_schedule (qstate m2), qpc := (qpc m2)(2 := After 2)\<rparr>"
  have s3: "mq_step 0 m2 m3" unfolding m3_def by (rule mq_step.call_switches) (simp_all add: f2 k2)
  have r3: "(mq_step 0)\<^sup>*\<^sup>* ?m0 m3" using r2 s3 by simp
  have f3: "qstate m3 = ?x2" "qpc m3 2 = After 2" "qcall m3 2 = ?c" "qtrace m3 = [Posted 1 [42]]" "qhand m3 = (\<lambda>_. None)" "qgot m3 = (\<lambda>_. [])"
    by (simp_all add: m3_def f2 mq_schedule_def stay)
  let ?x4 = "?x2\<lparr>mqs := (mqs ?x2)(1 := mq_take_head 1 demo_sent)\<rparr>"
  have "mq_resumed (qcall m3 2) 2 (qstate m3) = Some (Mq_takes 1, ?x4)"
    using f0(5,6) k2(3) by (auto simp: f3 mq_recv_resumed_def mq_recv_loop_def split: prod.split)
  then have s4: "mq_step 0 m3 (mq_takes ?c 2 1 ?x4 m3)" using mq_step.resumed_takes [of m3 2 2 1 ?x4 0] k2(5) f3 by simp
  define m4 where "m4 = mq_takes ?c 2 1 ?x4 m3"
  have r4: "(mq_step 0)\<^sup>*\<^sup>* ?m0 m4" using r3 s4 by (simp add: m4_def)
  have f4: "qstate m4 = ?x4" "qhand m4 2 = Some (1, 1, Drains 4)" "qtrace m4 = [Posted 1 [42], Fetched 1 [42]]" "qgot m4 = (\<lambda>_. [])"
    using f0(7) by (simp_all add: m4_def f3)
  have cur4: "rt_current_thread (qkern (qstate m4)) = Some 2" using k2(5) by (simp add: f4)
  define m5 where "m5 = m4\<lparr>qhand := (qhand m4)(2 := Some (1, 1, Gives_back (mq_copy_out 1 4 (mqs (qstate m4) 1))))\<rparr>"
  have s5: "mq_step 0 m4 m5" unfolding m5_def by (rule mq_step.drains [OF cur4 f4(2)])
  have f5: "qstate m5 = ?x4" "qhand m5 2 = Some (1, 1, Gives_back [42])" "qtrace m5 = [Posted 1 [42], Fetched 1 [42]]" "qgot m5 = (\<lambda>_. [])"
    using f0(7) by (simp_all add: m5_def f4 mq_copy_out_text)
  obtain ns x6 where g: "mq_give_back 1 1 (qstate m5) = (ns, x6)" by fastforce
  define m6 where "m6 = m5\<lparr>qstate := x6, qhand := (qhand m5)(2 := None), qgot := (qgot m5)(2 := qgot m5 2 @ [[42]])\<rparr>"
  have s6: "mq_step 0 m5 m6"
    unfolding m6_def by (rule mq_step.gives_back [OF _ f5(2) g]) (use cur4 in \<open>simp add: f5 f4\<close>)
  have r6: "(mq_step 0)\<^sup>*\<^sup>* ?m0 m6" using r4 s5 s6 by (meson rtranclp.rtrancl_into_rtrancl)
  have "waits (qpc m1) (receivers 1) 2" "errno (qkern (qstate m1)) 2 = - RT_EINTR" using k1(3) g0(4) by (simp_all add: f1 waits_def)
  moreover have "qtrace m6 = [Posted 1 [42], Fetched 1 [42]]" "qgot m6 2 = [[42]]" "qhand m6 2 = None" by (simp_all add: m6_def f5)
  ultimately show ?thesis using r1 r4 f4(2) r6 by (intro that)
qed

lemma message_queue_is_queue_witness:
  "\<exists>m. (mq_step 0)\<^sup>*\<^sup>* (mq_from demo_queues) m \<and> qtrace m = [Posted 1 [42], Fetched 1 [42]] \<and> qgot m 2 = [[42]] \<and>
    map (\<lambda>(room, msg). take (unat room) msg) (qtaken m 2) = [[42]] \<and>
    replay (\<lambda>b. unat (mq_max_msgs (mqs demo_queues b))) (qtrace m) (\<lambda>b. mq_contents (mqs demo_queues b)) =
      Some (\<lambda>b. mq_contents (mqs (qstate m) b))"
proof -
  obtain m where m: "(mq_step 0)\<^sup>*\<^sup>* (mq_from demo_queues) m" "qtrace m = [Posted 1 [42], Fetched 1 [42]]" "qgot m 2 = [[42]]" "qhand m 2 = None"
    by (rule demo_queue_run)
  with message_queue_is_queue [OF demo_queues_start m(1)] show ?thesis by metis
qed

lemma message_places_conserved_witness:
  "\<exists>m. (mq_step 0)\<^sup>*\<^sup>* (mq_from demo_queues) m \<and> qhand m 2 = Some (1, 1, Drains 4) \<and>
    1 \<notin> set (mq_unused (mqs (qstate m) 1) @ mq_queued (mqs (qstate m) 1))"
proof -
  obtain m where m: "(mq_step 0)\<^sup>*\<^sup>* (mq_from demo_queues) m" "qhand m 2 = Some (1, 1, Drains 4)" by (rule demo_queue_run)
  have "1 \<in> {s. \<exists>t ph. qhand m t = Some (1, s, ph)}" using m(2) by blast
  with message_places_conserved [OF demo_queues_start m(1), of 1] m show ?thesis by blast
qed

lemma message_queue_no_lost_wakeup_witness:
  "\<exists>m. (mq_step 0)\<^sup>*\<^sup>* (mq_from demo_queues) m \<and> waits (qpc m) (receivers 1) 2 \<and>
    length (mq_contents (mqs (qstate m) 1)) \<le> card {u. waits (qpc m) (receivers 1) u \<and> errno (qkern (qstate m)) u = RT_EOK}"
proof -
  obtain m where m: "(mq_step 0)\<^sup>*\<^sup>* (mq_from demo_queues) m" "waits (qpc m) (receivers 1) 2" "errno (qkern (qstate m)) 2 = - RT_EINTR"
    by (rule demo_queue_run)
  with message_queue_no_lost_wakeup [OF demo_queues_start m, of 1] show ?thesis by blast
qed

lemma message_queue_calls_end_witness:
  "\<exists>r. mq_called (Sends 1 [7] 3 0 RT_KILLABLE) 2 (qstate (mq_from demo_queues)) = Some r"
proof -
  have "rt_current_thread (qkern (qstate (mq_from demo_queues))) = Some 2" by (simp add: mq_from_def demo_queues_parts(1) demo_ok)
  with message_queue_calls_end [OF demo_queues_start rtranclp.rtrancl_refl this, of "Sends 1 [7] 3 0 RT_KILLABLE" 0] show ?thesis
    by (auto simp: mq_from_def)
qed

lemma message_queue_init_witness:
  "\<exists>r m'. rt_mq_init 1 demo_pool 8 40 RT_IPC_FLAG_PRIO demo_queues = Some (r, m') \<and> unat (mq_max_msgs (mqs m' 1)) = 2"
  using message_queue_init [of 8 1 demo_pool 40 RT_IPC_FLAG_PRIO demo_queues] by (auto simp: demo_place)

lemma message_queue_reset_frees_witness:
  "\<exists>m'. rt_mq_control 1 RT_IPC_CMD_RESET demo_queues = Some (RT_EOK, m') \<and> mq_contents (mqs m' 1) = []"
  using message_queue_reset_frees [OF demo_queues_ok demo_queues_ready [of 1, unfolded mq_ready_def]] by blast

end
