(* ===== verification/Rt_Mutex.thy ===== *)
theory Rt_Mutex
  imports Rt_Sem
begin

text \<open>
  Mutexes with priority inheritance (\<^verbatim>\<open>src/rt-thread/src/ipc.c\<close>), on the kernel of \<open>Rt_Kernel\<close> and the
  lists of waiting threads of \<open>Rt_Sem\<close>.  A mutex is a number, its waiting threads are in the list of that number.
  \<open>taken\<close> is the heap of the lists of mutexes that threads own.  Reading the owner of a mutex that has none
  sets \<open>null_owner\<close>.
\<close>

section \<open>Mutexes\<close>

record mutexes =
  core :: kernel
  mutex_owner :: "nat \<Rightarrow> nat option"
  mutex_priority :: "nat \<Rightarrow> nat"
  mutex_hold :: "nat \<Rightarrow> u8"
  ceiling_priority :: "nat \<Rightarrow> nat"
  taken :: "(nat, nat) lnode links"
  pending_object :: "nat \<Rightarrow> nat option"
  init_priority :: "nat \<Rightarrow> nat"
  null_owner :: bool

definition RT_MUTEX_HOLD_MAX :: u8 where "RT_MUTEX_HOLD_MAX = 0xFF"

fun mutex_of :: "(nat, nat) lnode \<Rightarrow> nat" where
  "mutex_of (Node m) = m"
| "mutex_of (Head t) = 0"

definition set_error :: "nat \<Rightarrow> int \<Rightarrow> mutexes \<Rightarrow> mutexes" where
  "set_error t e x = x\<lparr>core := (core x)\<lparr>errno := (errno (core x))(t := e)\<rparr>\<rparr>"

definition prio :: "mutexes \<Rightarrow> nat \<Rightarrow> nat" where
  "prio x = current_priority (core x)"

definition no_waiter :: "nat \<Rightarrow> mutexes \<Rightarrow> bool" where
  "no_waiter m x \<longleftrightarrow> rt_list_isempty (Head (Suspend_list m)) (tlist (core x))"

definition first_waiting :: "nat \<Rightarrow> mutexes \<Rightarrow> nat" where
  "first_waiting m x = thread_of (nxt (tlist (core x)) (Head (Suspend_list m)))"

definition mutex_update_priority :: "nat \<Rightarrow> mutexes \<Rightarrow> mutexes" where
  "mutex_update_priority m x =
     x\<lparr>mutex_priority := (mutex_priority x)(m := if \<not> no_waiter m x then prio x (first_waiting m x) else 0xff)\<rparr>"

text \<open>The most urgent of the priorities of the mutexes in a thread's list, or the thread's own.\<close>

partial_function (option) taken_loop :: "mutexes \<Rightarrow> nat \<Rightarrow> (nat, nat) lnode \<Rightarrow> nat \<Rightarrow> nat option" where
  "taken_loop x t node p =
     (if node \<noteq> Head t then
        let m = mutex_of node;
            mutex_prio = (if mutex_priority x m < ceiling_priority x m then mutex_priority x m else ceiling_priority x m)
        in taken_loop x t (nxt (taken x) node) (if p > mutex_prio then mutex_prio else p)
      else Some p)"

definition thread_get_mutex_priority :: "nat \<Rightarrow> mutexes \<Rightarrow> nat option" where
  "thread_get_mutex_priority t x = taken_loop x t (nxt (taken x) (Head t)) (init_priority x t)"

definition set_priority :: "nat \<Rightarrow> nat \<Rightarrow> mutexes \<Rightarrow> mutexes" where
  "set_priority t p x = x\<lparr>core := change_priority t p (core x)\<rparr>"

text \<open>
  The loop that hands a change of priority on along the chain of waiting threads, from a thread that waits for a mutex
  to the owner of that mutex.  \<open>hand_on\<close> is one round: it gives the thread to go on with, if any.
\<close>

definition hand_on :: "nat \<Rightarrow> suspend_flag \<Rightarrow> mutexes \<Rightarrow> (mutexes \<times> nat option) option" where
  "hand_on t sflag x =
     (if is_suspended (stat (core x) t) then
        case pending_object x t of
          None \<Rightarrow> Some (x, None)
        | Some m \<Rightarrow>
            Option.bind (ipc_list_suspend m t (object_flag (core x) m) sflag
                (core x\<lparr>tlist := rt_list_remove (Node t) (tlist (core x))\<rparr>))
              (\<lambda>(ret, k).
                let x = x\<lparr>core := k\<rparr>
                in if ret \<noteq> RT_EOK then Some (x, None)
                   else
                     let x = mutex_update_priority m x
                     in case mutex_owner x m of
                          None \<Rightarrow> Some (x\<lparr>null_owner := True\<rparr>, None)
                        | Some u \<Rightarrow>
                            map_option (\<lambda>p. if p \<noteq> prio x u then (set_priority u p x, Some u) else (x, None))
                              (thread_get_mutex_priority u x))
      else Some (x, None))"

partial_function (option) update_loop :: "nat \<Rightarrow> suspend_flag \<Rightarrow> mutexes \<Rightarrow> mutexes option" where
  "update_loop t sflag x =
     Option.bind (hand_on t sflag x)
       (\<lambda>(x, next_thread). case next_thread of None \<Rightarrow> Some x | Some u \<Rightarrow> update_loop u sflag x)"

definition thread_update_priority :: "nat \<Rightarrow> nat \<Rightarrow> suspend_flag \<Rightarrow> mutexes \<Rightarrow> mutexes option" where
  "thread_update_priority t p sflag x = update_loop t sflag (set_priority t p x)"

section \<open>The operations\<close>

definition rt_mutex_init :: "nat \<Rightarrow> mutexes \<Rightarrow> int \<times> mutexes" where
  "rt_mutex_init m x =
     (RT_EOK,
      x\<lparr>core := (core x)\<lparr>tlist := rt_list_init (Head (Suspend_list m)) (tlist (core x)),
                         object_flag := (object_flag (core x))(m := RT_IPC_FLAG_PRIO)\<rparr>,
        mutex_owner := (mutex_owner x)(m := None), mutex_priority := (mutex_priority x)(m := 0xff),
        mutex_hold := (mutex_hold x)(m := 0), ceiling_priority := (ceiling_priority x)(m := 0xff),
        taken := rt_list_init (Node m) (taken x)\<rparr>)"

definition rt_mutex_create :: "nat option \<Rightarrow> mutexes \<Rightarrow> nat option \<times> mutexes" where
  "rt_mutex_create obj x = (case obj of None \<Rightarrow> (None, x) | Some m \<Rightarrow> (Some m, snd (rt_mutex_init m x)))"

definition rt_mutex_detach :: "nat \<Rightarrow> mutexes \<Rightarrow> (int \<times> mutexes) option" where
  "rt_mutex_detach m x =
     map_option (\<lambda>k. (RT_EOK, x\<lparr>core := k, taken := rt_list_remove (Node m) (taken x)\<rparr>)) (ipc_list_resume_all m (core x))"

definition rt_mutex_delete :: "nat \<Rightarrow> mutexes \<Rightarrow> (int \<times> mutexes) option" where
  "rt_mutex_delete m x =
     map_option (\<lambda>k. (RT_EOK, x\<lparr>core := k, taken := rt_list_remove (Node m) (taken x)\<rparr>)) (ipc_list_resume_all m (core x))"

text \<open>The priority of a thread after a change to a mutex it owns.\<close>

definition refresh_owner :: "nat \<Rightarrow> mutexes \<Rightarrow> mutexes option" where
  "refresh_owner t x =
     Option.bind (thread_get_mutex_priority t x)
       (\<lambda>p. if p \<noteq> prio x t then thread_update_priority t p RT_UNINTERRUPTIBLE x else Some x)"

text \<open>A thread has left the waiting threads of a mutex: its part of the owner's priority goes.\<close>

definition waiter_left :: "nat \<Rightarrow> nat \<Rightarrow> mutexes \<Rightarrow> mutexes option" where
  "waiter_left m t x =
     (let need_update = (case mutex_owner x m of None \<Rightarrow> False | Some u \<Rightarrow> prio x u = prio x t);
          x = mutex_update_priority m x
      in if need_update then (case mutex_owner x m of None \<Rightarrow> Some x | Some u \<Rightarrow> refresh_owner u x) else Some x)"

definition rt_mutex_drop_thread :: "nat \<Rightarrow> nat \<Rightarrow> mutexes \<Rightarrow> mutexes option" where
  "rt_mutex_drop_thread m t x =
     waiter_left m t (x\<lparr>core := (core x)\<lparr>tlist := rt_list_remove (Node t) (tlist (core x))\<rparr>\<rparr>)"

definition rt_mutex_setprioceiling :: "nat \<Rightarrow> nat \<Rightarrow> mutexes \<Rightarrow> (nat \<times> mutexes) option" where
  "rt_mutex_setprioceiling m p x =
     (if p < RT_THREAD_PRIORITY_MAX then
        let old = ceiling_priority x m;
            x = x\<lparr>ceiling_priority := (ceiling_priority x)(m := p)\<rparr>
        in map_option (\<lambda>x. (old, x)) (case mutex_owner x m of None \<Rightarrow> Some x | Some u \<Rightarrow> refresh_owner u x)
      else Some (0xFF, x))"

definition rt_mutex_getprioceiling :: "nat \<Rightarrow> mutexes \<Rightarrow> nat" where
  "rt_mutex_getprioceiling m x = ceiling_priority x m"

text \<open>A take by the current thread \<open>t\<close> up to its return or its call of \<open>rt_schedule\<close>; then what follows when it runs again.\<close>

definition own_mutex :: "nat \<Rightarrow> nat \<Rightarrow> suspend_flag \<Rightarrow> mutexes \<Rightarrow> mutexes option" where
  "own_mutex m t sflag x =
     (let x = x\<lparr>mutex_owner := (mutex_owner x)(m := Some t), mutex_priority := (mutex_priority x)(m := 0xff),
                mutex_hold := (mutex_hold x)(m := 1)\<rparr>
      in map_option (\<lambda>x. x\<lparr>taken := rt_list_insert_after (Head t) (Node m) (taken x)\<rparr>)
           (if ceiling_priority x m \<noteq> 0xFF \<and> ceiling_priority x m < prio x t
            then thread_update_priority t (ceiling_priority x m) sflag x else Some x))"

text \<open>A waiting thread that is more urgent than all before it passes its priority on to the owner.\<close>

definition pass_on :: "nat \<Rightarrow> nat \<Rightarrow> nat \<Rightarrow> mutexes \<Rightarrow> mutexes option" where
  "pass_on m u p x =
     (if p < mutex_priority x m then
        let x = x\<lparr>mutex_priority := (mutex_priority x)(m := p)\<rparr>
        in if mutex_priority x m < prio x u then thread_update_priority u p RT_UNINTERRUPTIBLE x else Some x
      else Some x)"

definition wait_mutex ::
    "nat \<Rightarrow> nat \<Rightarrow> int \<Rightarrow> suspend_flag \<Rightarrow> nat \<Rightarrow> mutexes \<Rightarrow> (take_result \<times> mutexes) option" where
  "wait_mutex m u timeout sflag t x =
     (let p = prio x t
      in Option.bind (ipc_list_suspend m t (object_flag (core x) m) sflag (core x))
           (\<lambda>(ret, k).
             let x = x\<lparr>core := k\<rparr>
             in if ret \<noteq> RT_EOK then Some (Take_returns ret, x)
                else
                  map_option
                    (\<lambda>x. (Take_schedules,
                       if timeout > 0 then x\<lparr>core := (core x)\<lparr>thread_timer := (thread_timer (core x))(t := Some timeout)\<rparr>\<rparr>
                       else x))
                    (pass_on m u p (x\<lparr>pending_object := (pending_object x)(t := Some m)\<rparr>))))"

definition mutex_take :: "nat \<Rightarrow> int \<Rightarrow> suspend_flag \<Rightarrow> nat \<Rightarrow> mutexes \<Rightarrow> (take_result \<times> mutexes) option" where
  "mutex_take m timeout sflag t x =
     (let x = set_error t RT_EOK x
      in case mutex_owner x m of
           None \<Rightarrow> map_option (\<lambda>x. (Take_returns RT_EOK, x)) (own_mutex m t sflag x)
         | Some u \<Rightarrow>
             if u = t then
               if mutex_hold x m < RT_MUTEX_HOLD_MAX
               then Some (Take_returns RT_EOK, x\<lparr>mutex_hold := (mutex_hold x)(m := mutex_hold x m + 1)\<rparr>)
               else Some (Take_returns (- RT_EFULL), x)
             else if timeout = 0 then Some (Take_returns (- RT_ETIMEOUT), set_error t (- RT_ETIMEOUT) x)
             else wait_mutex m u timeout sflag t x)"

definition mutex_take_resumed :: "nat \<Rightarrow> nat \<Rightarrow> mutexes \<Rightarrow> (int \<times> mutexes) option" where
  "mutex_take_resumed m t x =
     (if errno (core x) t = RT_EOK then Some (RT_EOK, x)
      else
        map_option
          (\<lambda>x. let ret = errno (core x) t
                in (if ret > 0 then - ret else ret, x\<lparr>pending_object := (pending_object x)(t := None)\<rparr>))
          (waiter_left m t x))"

definition mutex_switch :: "take_result \<times> mutexes \<Rightarrow> take_result \<times> mutexes" where
  "mutex_switch = (\<lambda>(r, x). (r, if r = Take_schedules then x\<lparr>core := rt_schedule (core x)\<rparr> else x))"

definition rt_mutex_take :: "nat \<Rightarrow> int \<Rightarrow> nat \<Rightarrow> mutexes \<Rightarrow> (take_result \<times> mutexes) option" where
  "rt_mutex_take m time t x = map_option mutex_switch (mutex_take m time RT_UNINTERRUPTIBLE t x)"

definition rt_mutex_take_interruptible :: "nat \<Rightarrow> int \<Rightarrow> nat \<Rightarrow> mutexes \<Rightarrow> (take_result \<times> mutexes) option" where
  "rt_mutex_take_interruptible m time t x = map_option mutex_switch (mutex_take m time RT_INTERRUPTIBLE t x)"

definition rt_mutex_take_killable :: "nat \<Rightarrow> int \<Rightarrow> nat \<Rightarrow> mutexes \<Rightarrow> (take_result \<times> mutexes) option" where
  "rt_mutex_take_killable m time t x = map_option mutex_switch (mutex_take m time RT_KILLABLE t x)"

definition rt_mutex_trytake :: "nat \<Rightarrow> nat \<Rightarrow> mutexes \<Rightarrow> (take_result \<times> mutexes) option" where
  "rt_mutex_trytake m = rt_mutex_take m 0"

text \<open>The last release: the mutex leaves the owner's list, the owner its inherited priority, and the first waiting thread gets it.\<close>

definition restore_priority :: "nat \<Rightarrow> nat \<Rightarrow> mutexes \<Rightarrow> (bool \<times> mutexes) option" where
  "restore_priority m t x =
     (if ceiling_priority x m \<noteq> 0xFF \<or> prio x t = mutex_priority x m
      then map_option (\<lambda>p. (True, set_priority t p x)) (thread_get_mutex_priority t x)
      else Some (False, x))"

definition hand_over :: "nat \<Rightarrow> mutexes \<Rightarrow> mutexes" where
  "hand_over m x =
     (let next_thread = first_waiting m x;
          x = x\<lparr>core := (core x)\<lparr>tlist := rt_list_remove (Node next_thread) (tlist (core x))\<rparr>,
                mutex_owner := (mutex_owner x)(m := Some next_thread), mutex_hold := (mutex_hold x)(m := 1),
                taken := rt_list_insert_after (Head next_thread) (Node m) (taken x),
                pending_object := (pending_object x)(next_thread := None)\<rparr>;
          x = x\<lparr>core := snd (rt_thread_resume next_thread (core x))\<rparr>
      in mutex_update_priority m x)"

definition mutex_release :: "nat \<Rightarrow> nat \<Rightarrow> mutexes \<Rightarrow> (int \<times> bool \<times> mutexes) option" where
  "mutex_release m t x =
     (if mutex_owner x m \<noteq> Some t then Some (- RT_ERROR, False, set_error t (- RT_ERROR) x)
      else
        let x = x\<lparr>mutex_hold := (mutex_hold x)(m := mutex_hold x m - 1)\<rparr>
        in if mutex_hold x m = 0 then
             map_option
               (\<lambda>(need_schedule, x).
                 if \<not> no_waiter m x then (RT_EOK, True, hand_over m x)
                 else (RT_EOK, need_schedule,
                   x\<lparr>mutex_owner := (mutex_owner x)(m := None), mutex_priority := (mutex_priority x)(m := 0xff)\<rparr>))
               (restore_priority m t (x\<lparr>taken := rt_list_remove (Node m) (taken x)\<rparr>))
           else Some (RT_EOK, False, x))"

definition rt_mutex_release :: "nat \<Rightarrow> nat \<Rightarrow> mutexes \<Rightarrow> (int \<times> mutexes) option" where
  "rt_mutex_release m t x =
     map_option (\<lambda>(ret, need_schedule, x). (ret, if need_schedule then x\<lparr>core := rt_schedule (core x)\<rparr> else x))
       (mutex_release m t x)"

definition rt_mutex_control :: "nat \<Rightarrow> int \<Rightarrow> mutexes \<Rightarrow> int \<times> mutexes" where
  "rt_mutex_control m cmd x = (- RT_ERROR, x)"

text \<open>Removing a thread, which may be waiting for a mutex.\<close>

definition rt_thread_detach :: "nat \<Rightarrow> mutexes \<Rightarrow> (int \<times> mutexes) option" where
  "rt_thread_detach t x =
     (if stat (core x) t = RT_THREAD_CLOSE then Some (RT_EOK, x)
      else
        let k = (if stat (core x) t \<noteq> RT_THREAD_INIT then rt_schedule_remove_thread t (core x) else core x);
            k = k\<lparr>thread_timer := (thread_timer k)(t := None), stat := (stat k)(t := RT_THREAD_CLOSE), yield := (yield k)(t := False)\<rparr>;
            x = x\<lparr>core := k\<rparr>
        in map_option (\<lambda>x. (RT_EOK, x\<lparr>core := rt_thread_defunct_enqueue t (core x)\<rparr>))
             (case pending_object x t of
                None \<Rightarrow> Some x
              | Some m \<Rightarrow>
                  map_option (\<lambda>x. x\<lparr>pending_object := (pending_object x)(t := None)\<rparr>) (rt_mutex_drop_thread m t x)))"

section \<open>Priorities\<close>

text \<open>The priority \<open>_thread_get_mutex_priority\<close> computes.\<close>

definition inherited :: "mutexes \<Rightarrow> nat list \<Rightarrow> nat \<Rightarrow> nat" where
  "inherited x = fold (\<lambda>m p. min p (min (mutex_priority x m) (ceiling_priority x m)))"

lemma inherited_le: "inherited x ms p \<le> p" and inherited_mutex: "m \<in> set ms \<Longrightarrow> inherited x ms p \<le> mutex_priority x m"
proof -
  have le: "inherited x ms p \<le> p" for ms p
  proof (induction ms arbitrary: p)
    case (Cons m ms)
    have "inherited x (m # ms) p \<le> min p (min (mutex_priority x m) (ceiling_priority x m))"
      unfolding inherited_def fold_Cons comp_def by (rule Cons.IH [unfolded inherited_def])
    then show ?case by simp
  qed (simp add: inherited_def)
  then show "inherited x ms p \<le> p" .
  show "m \<in> set ms \<Longrightarrow> inherited x ms p \<le> mutex_priority x m"
  proof (induction ms arbitrary: p)
    case (Cons n ms)
    have "inherited x (n # ms) p = inherited x ms (min p (min (mutex_priority x n) (ceiling_priority x n)))"
      by (simp add: inherited_def)
    with Cons le [of ms "min p (min (mutex_priority x n) (ceiling_priority x n))"] show ?case by auto
  qed simp
qed

lemma taken_loop_ring:
  assumes "linked (taken x) (map Node ms @ [Head t])"
  shows "taken_loop x t (hd (map Node ms @ [Head t])) p = Some (inherited x ms p)"
  using assms
proof (induction ms arbitrary: p)
  case Nil
  then show ?case by (subst taken_loop.simps) (simp add: inherited_def)
next
  case (Cons m ms)
  then have "nxt (taken x) (Node m) = hd (map Node ms @ [Head t])" and "linked (taken x) (map Node ms @ [Head t])"
    by (cases ms; simp)+
  moreover have "(if p > q then q else p) = min p q" for q :: nat by (simp add: min_def)
  moreover have "(if a < b then a else b) = min a b" for a b :: nat by (simp add: min_def)
  ultimately show ?case
    using Cons.IH by (subst taken_loop.simps) (simp add: inherited_def)
qed

lemma get_priority_ok:
  assumes "rings (taken x) M"
  shows "thread_get_mutex_priority t x = Some (inherited x (M t) (init_priority x t))"
proof -
  have "linked (taken x) (Head t # map Node (M t) @ [Head t])"
    using rings_ring [OF assms, of t] by (simp add: ring_def)
  then have "nxt (taken x) (Head t) = hd (map Node (M t) @ [Head t])" "linked (taken x) (map Node (M t) @ [Head t])"
    by (cases "M t"; simp)+
  then show ?thesis using taken_loop_ring by (simp add: thread_get_mutex_priority_def)
qed

lemma lists_ok_cong:
  "tlist k = tlist k' \<Longrightarrow> stat k = stat k' \<Longrightarrow> current_priority k = current_priority k' \<Longrightarrow>
   rt_thread_ready_priority_group k = rt_thread_ready_priority_group k' \<Longrightarrow> lists_ok k L = lists_ok k' L"
  by (simp add: lists_ok_def)

lemma lists_ok_priority:
  "lists_ok k L \<Longrightarrow> stat k t \<noteq> RT_THREAD_READY \<Longrightarrow> p < RT_THREAD_PRIORITY_MAX \<Longrightarrow>
   lists_ok (k\<lparr>current_priority := (current_priority k)(t := p)\<rparr>) L"
  unfolding lists_ok_def by simp

text \<open>Changing a priority moves a ready thread to its new list and changes nothing else.\<close>

lemma change_priority_ok:
  assumes k: "sched_ok k L" and p: "p < RT_THREAD_PRIORITY_MAX"
  obtains L' where "sched_ok (change_priority t p k) L'" "\<And>s. L' (Suspend_list s) = L (Suspend_list s)"
    "L' Defunct_list = L Defunct_list"
proof (cases "stat k t = RT_THREAD_READY")
  case False
  have "lists_ok (k\<lparr>current_priority := (current_priority k)(t := p)\<rparr>) L"
    by (rule lists_ok_priority [OF sched_okD(1) [OF k] False p])
  with k False show ?thesis by (intro that [of L]) (simp_all add: change_priority_def sched_ok_def)
next
  case True
  note kD = lists_okD [OF sched_okD(1) [OF k]]
  let ?r = "rt_schedule_remove_thread t k"
  let ?k = "?r\<lparr>current_priority := (current_priority ?r)(t := p), stat := (stat ?r)(t := RT_THREAD_INIT), yield := (yield ?r)(t := False)\<rparr>"
  let ?L = "\<lambda>l. removeAll t (L l)"
  have "lists_ok (?r\<lparr>stat := (stat k)(t := RT_THREAD_INIT)\<rparr>) ?L"
    by (rule lists_ok_remove [OF sched_okD(1) [OF k]]) simp
  then have "lists_ok (?r\<lparr>stat := (stat k)(t := RT_THREAD_INIT), current_priority := (current_priority k)(t := p)\<rparr>) ?L"
    using lists_ok_priority [of "?r\<lparr>stat := (stat k)(t := RT_THREAD_INIT)\<rparr>" ?L t p] p by (simp add: kernel_frame)
  moreover have "lists_ok ?k ?L =
      lists_ok (?r\<lparr>stat := (stat k)(t := RT_THREAD_INIT), current_priority := (current_priority k)(t := p)\<rparr>) ?L"
    by (rule lists_ok_cong) (simp_all add: kernel_frame)
  ultimately have "lists_ok ?k ?L" by simp
  then have "lists_ok (rt_schedule_insert_thread t ?k) (insert_lists t ?k ?L)" by (rule lists_ok_insert) simp
  moreover have "change_priority t p k = rt_schedule_insert_thread t ?k" using True by (simp add: change_priority_def Let_def)
  ultimately have ok: "lists_ok (change_priority t p k) (insert_lists t ?k ?L)" by simp
  have c: "rt_current_thread k \<noteq> Some t" using sched_okD(3) [OF k, of t] True by auto
  have st: "stat (change_priority t p k) = stat k" using True c by (simp add: change_priority_def kernel_frame fun_upd_idem)
  have cur: "rt_current_thread (change_priority t p k) = rt_current_thread k"
    by (simp add: change_priority_def Let_def kernel_frame)
  have "t \<notin> set (L (Suspend_list s))" for s using kD(3) [of t s] True by auto
  then have "insert_lists t ?k ?L (Suspend_list s) = L (Suspend_list s)" for s
    by (simp add: insert_lists_def Let_def removeAll_id)
  moreover have "t \<notin> set (L Defunct_list)" using kD(4) [of t] True by auto
  then have "insert_lists t ?k ?L Defunct_list = L Defunct_list"
    by (simp add: insert_lists_def Let_def removeAll_id)
  moreover have "sched_ok (change_priority t p k) (insert_lists t ?k ?L)"
    using ok sched_okD(2,3) [OF k] unfolding sched_ok_def st cur by blast
  ultimately show ?thesis by (rule_tac that) blast+
qed

text \<open>Everything else a change of priority leaves as it is.\<close>

lemma change_priority_frame:
  assumes "sched_ok k L"
  shows "stat (change_priority t p k) = stat k"
  using sched_okD(3) [OF assms, of t] by (auto simp: change_priority_def Let_def kernel_frame fun_upd_idem)

lemma change_priority_fields [kernel_frame]:
  "errno (change_priority t p k) = errno k" "current_priority (change_priority t p k) = (current_priority k)(t := p)"
  "thread_timer (change_priority t p k) = thread_timer k" "rt_current_thread (change_priority t p k) = rt_current_thread k"
  "rt_scheduler_lock_nest (change_priority t p k) = rt_scheduler_lock_nest k" "object_flag (change_priority t p k) = object_flag k"
  "kernel_assert (change_priority t p k) = kernel_assert k"
  by (simp_all add: change_priority_def Let_def kernel_frame)

section \<open>The invariant\<close>

text \<open>
  \<open>mutex_shape x L M\<close>: the waiting threads of each mutex are in its list \<open>L\<close> and say so, the mutexes a thread
  owns are in its list \<open>M\<close>, and a mutex with waiting threads has an owner.
\<close>

definition mutex_shape :: "mutexes \<Rightarrow> (tlist_head \<Rightarrow> nat list) \<Rightarrow> (nat \<Rightarrow> nat list) \<Rightarrow> bool" where
  "mutex_shape x L M \<longleftrightarrow>
     sched_ok (core x) L \<and> rings (taken x) M \<and>
     (\<forall>m t. m \<in> set (M t) \<longleftrightarrow> mutex_owner x m = Some t) \<and>
     (\<forall>m t. t \<in> set (L (Suspend_list m)) \<longleftrightarrow> is_suspended (stat (core x) t) \<and> pending_object x t = Some m) \<and>
     (\<forall>m. L (Suspend_list m) \<noteq> [] \<longrightarrow> object_flag (core x) m = RT_IPC_FLAG_PRIO \<and> mutex_owner x m \<noteq> None) \<and>
     (\<forall>t. init_priority x t < RT_THREAD_PRIORITY_MAX) \<and> \<not> null_owner x"

text \<open>
  \<open>bounds_ok W U x L\<close>: the waiting threads are in the order of their priorities, the priority of a mutex is at
  least as urgent as each of them, and its owner's priority is at least as urgent as that of the mutex; all this but
  for waiting threads in \<open>W\<close> and owners in \<open>U\<close>, whose priorities are being changed.
\<close>

definition bounds_ok :: "nat set \<Rightarrow> nat set \<Rightarrow> mutexes \<Rightarrow> (tlist_head \<Rightarrow> nat list) \<Rightarrow> bool" where
  "bounds_ok W U x L \<longleftrightarrow>
     (\<forall>m. sorted (map (prio x) (filter (\<lambda>t. t \<notin> W) (L (Suspend_list m))))) \<and>
     (\<forall>m t. t \<in> set (L (Suspend_list m)) \<longrightarrow> t \<notin> W \<longrightarrow> mutex_priority x m \<le> prio x t) \<and>
     (\<forall>m u. mutex_owner x m = Some u \<longrightarrow> u \<notin> U \<longrightarrow> prio x u \<le> mutex_priority x m)"

lemma mutex_shapeD:
  assumes "mutex_shape x L M"
  shows "sched_ok (core x) L" and "rings (taken x) M" and "m \<in> set (M t) \<longleftrightarrow> mutex_owner x m = Some t"
    and "t \<in> set (L (Suspend_list m)) \<longleftrightarrow> is_suspended (stat (core x) t) \<and> pending_object x t = Some m"
    and "L (Suspend_list m) \<noteq> [] \<Longrightarrow> object_flag (core x) m = RT_IPC_FLAG_PRIO"
    and "L (Suspend_list m) \<noteq> [] \<Longrightarrow> \<exists>u. mutex_owner x m = Some u"
    and "init_priority x t < RT_THREAD_PRIORITY_MAX" and "\<not> null_owner x"
  using assms unfolding mutex_shape_def by blast+

lemma bounds_okD:
  assumes "bounds_ok W U x L"
  shows "sorted (map (prio x) (filter (\<lambda>t. t \<notin> W) (L (Suspend_list m))))"
    and "t \<in> set (L (Suspend_list m)) \<Longrightarrow> t \<notin> W \<Longrightarrow> mutex_priority x m \<le> prio x t"
    and "mutex_owner x m = Some u \<Longrightarrow> u \<notin> U \<Longrightarrow> prio x u \<le> mutex_priority x m"
  using assms unfolding bounds_ok_def by blast+

lemma bounds_ok_mono: "bounds_ok {} {} x L \<Longrightarrow> bounds_ok W U x L"
  unfolding bounds_ok_def by (auto simp: sorted_map intro: sorted_wrt_filter)

lemma bounds_ok_owner:
  assumes "bounds_ok W {u} x L" and "\<And>m. mutex_owner x m = Some u \<Longrightarrow> prio x u \<le> mutex_priority x m"
  shows "bounds_ok W {} x L"
  using assms unfolding bounds_ok_def by (metis empty_iff singletonD)

text \<open>What a change of priorities does not touch.\<close>

definition fixed :: "mutexes \<Rightarrow> _" where
  "fixed x = ((stat (core x), errno (core x), thread_timer (core x), rt_current_thread (core x), rt_scheduler_lock_nest (core x)),
     (object_flag (core x), kernel_assert (core x)), mutex_owner x, mutex_hold x, ceiling_priority x, taken x, pending_object x,
     init_priority x, null_owner x)"

lemma fixedD:
  assumes "fixed x = fixed y"
  shows "stat (core x) = stat (core y)" "errno (core x) = errno (core y)" "thread_timer (core x) = thread_timer (core y)"
    "rt_current_thread (core x) = rt_current_thread (core y)" "rt_scheduler_lock_nest (core x) = rt_scheduler_lock_nest (core y)"
    "object_flag (core x) = object_flag (core y)" "kernel_assert (core x) = kernel_assert (core y)"
    "mutex_owner x = mutex_owner y" "mutex_hold x = mutex_hold y" "ceiling_priority x = ceiling_priority y" "taken x = taken y"
    "pending_object x = pending_object y" "init_priority x = init_priority y" "null_owner x = null_owner y"
  using assms by (simp_all add: fixed_def)

lemma shape_fixed:
  assumes s: "mutex_shape x L M" and f: "fixed y = fixed x" and k: "sched_ok (core y) L'"
    and l: "\<And>m. set (L' (Suspend_list m)) = set (L (Suspend_list m))"
  shows "mutex_shape y L' M"
proof -
  have "L' (Suspend_list m) \<noteq> [] \<longleftrightarrow> L (Suspend_list m) \<noteq> []" for m using l [of m] by (metis set_empty)
  with s k l show ?thesis unfolding mutex_shape_def fixedD [OF f] by simp
qed

text \<open>A thread gets a priority that is at least as urgent as each mutex it owns.\<close>

lemma set_priority_ok:
  assumes s: "mutex_shape x L M" and b: "bounds_ok {} {u} x L" and p: "p < RT_THREAD_PRIORITY_MAX"
    and own: "\<And>m. mutex_owner x m = Some u \<Longrightarrow> p \<le> mutex_priority x m"
  obtains L' where "mutex_shape (set_priority u p x) L' M" "bounds_ok {u} {} (set_priority u p x) L'"
    "fixed (set_priority u p x) = fixed x" "\<And>m. L' (Suspend_list m) = L (Suspend_list m)"
proof -
  note d = mutex_shapeD [OF s]
  obtain L' where L': "sched_ok (change_priority u p (core x)) L'" "\<And>s. L' (Suspend_list s) = L (Suspend_list s)"
    "L' Defunct_list = L Defunct_list" by (rule change_priority_ok [OF d(1) p]) blast
  let ?y = "set_priority u p x"
  have f: "fixed ?y = fixed x"
    by (simp add: fixed_def set_priority_def kernel_frame change_priority_frame [OF d(1)])
  have pr: "prio ?y = (prio x)(u := p)" and mp: "mutex_priority ?y = mutex_priority x"
    by (simp_all add: set_priority_def prio_def kernel_frame)
  have "map (prio ?y) (filter (\<lambda>t. t \<notin> {u}) l) = map (prio x) (filter (\<lambda>t. t \<notin> {u}) l)" for l by (simp add: pr)
  moreover have "sorted (map (prio x) (filter (\<lambda>t. t \<notin> {u}) (L (Suspend_list m))))" for m
    using bounds_okD(1) [OF b, of m] by (simp add: sorted_filter)
  ultimately have "bounds_ok {u} {} ?y L'"
    using bounds_okD(2,3) [OF b] own unfolding bounds_ok_def fixedD [OF f] by (auto simp: L'(2) mp pr)
  moreover have "mutex_shape ?y L' M" by (rule shape_fixed [OF s f]) (simp_all add: L' set_priority_def)
  ultimately show ?thesis using f L'(2) by (intro that) blast+
qed

lemma get_priority_bounds:
  assumes s: "mutex_shape x L M"
  obtains p where "thread_get_mutex_priority u x = Some p" "p < RT_THREAD_PRIORITY_MAX"
    "\<And>m. mutex_owner x m = Some u \<Longrightarrow> p \<le> mutex_priority x m"
proof -
  note d = mutex_shapeD [OF s]
  show ?thesis
  proof (rule that [OF get_priority_ok [OF d(2)]])
    show "inherited x (M u) (init_priority x u) < RT_THREAD_PRIORITY_MAX"
      using inherited_le [of x "M u" "init_priority x u"] d(7) [of u] by simp
    show "inherited x (M u) (init_priority x u) \<le> mutex_priority x m" if "mutex_owner x m = Some u" for m
      using that by (intro inherited_mutex) (simp add: d(3))
  qed
qed

text \<open>The priority of a mutex is set to that of its first waiting thread.\<close>

definition first_priority :: "mutexes \<Rightarrow> nat list \<Rightarrow> nat" where
  "first_priority x ts = (case ts of [] \<Rightarrow> 0xff | t # _ \<Rightarrow> prio x t)"

lemma update_priority_ok:
  assumes "sched_ok (core x) L"
  shows "no_waiter m x \<longleftrightarrow> L (Suspend_list m) = []"
    and "L (Suspend_list m) = t # ts \<Longrightarrow> first_waiting m x = t"
    and "mutex_update_priority m x = x\<lparr>mutex_priority := (mutex_priority x)(m := first_priority x (L (Suspend_list m)))\<rparr>"
proof -
  show e: "no_waiter m x \<longleftrightarrow> L (Suspend_list m) = []"
    unfolding no_waiter_def by (rule rings_isempty [OF lists_okD(1) [OF sched_okD(1) [OF assms]]])
  show f: "L (Suspend_list m) = t # ts \<Longrightarrow> first_waiting m x = t" for t ts
    unfolding first_waiting_def by (rule first_waiter(1) [OF assms])
  show "mutex_update_priority m x = x\<lparr>mutex_priority := (mutex_priority x)(m := first_priority x (L (Suspend_list m)))\<rparr>"
    using f by (cases "L (Suspend_list m)") (simp_all add: mutex_update_priority_def e first_priority_def)
qed

lemma first_priority_le: "sorted (map (prio x) ts) \<Longrightarrow> t \<in> set ts \<Longrightarrow> first_priority x ts \<le> prio x t"
  by (cases ts) (auto simp: first_priority_def)

lemma fixed_priority [simp]: "fixed (x\<lparr>mutex_priority := f\<rparr>) = fixed x"
  by (simp add: fixed_def)

lemma shape_priority [simp]: "mutex_shape (x\<lparr>mutex_priority := f\<rparr>) L M = mutex_shape x L M"
  by (simp add: mutex_shape_def)

lemma prio_fields [simp]: "prio (x\<lparr>mutex_priority := f\<rparr>) = prio x" "prio (x\<lparr>core := (core x)\<lparr>tlist := h\<rparr>\<rparr>) = prio x"
  by (simp_all add: prio_def)

text \<open>A thread whose priority has changed moves to its place among the waiting threads, and the priority of the mutex follows.\<close>

lemma reenter_ok:
  assumes s: "mutex_shape x L M" and b: "bounds_ok {t} {} x L" and t: "t \<in> set (L (Suspend_list m))"
  obtains h L' u where "ipc_list_suspend m t (object_flag (core x) m) sflag (core x\<lparr>tlist := rt_list_remove (Node t) (tlist (core x))\<rparr>) =
      Some (RT_EOK, core x\<lparr>tlist := h\<rparr>)"
    "mutex_shape (mutex_update_priority m (x\<lparr>core := core x\<lparr>tlist := h\<rparr>\<rparr>)) L' M" "mutex_owner x m = Some u"
    "bounds_ok {} {u} (mutex_update_priority m (x\<lparr>core := core x\<lparr>tlist := h\<rparr>\<rparr>)) L'"
    "fixed (mutex_update_priority m (x\<lparr>core := core x\<lparr>tlist := h\<rparr>\<rparr>)) = fixed x"
proof -
  note d = mutex_shapeD [OF s]
  note r = lists_okD(1) [OF sched_okD(1) [OF d(1)]]
  let ?l = "Suspend_list m" and ?k = "core x\<lparr>tlist := rt_list_remove (Node t) (tlist (core x))\<rparr>"
  have one: "t \<notin> set (L l)" if "l \<noteq> ?l" for l using rings_once [OF r t, of l] that by auto
  then have "(\<lambda>l. removeAll t (L l)) = L(?l := removeAll t (L ?l))" by (auto simp: removeAll_id fun_eq_iff)
  with rings_remove [OF r, of t] have h0: "rings (rt_list_remove (Node t) (tlist (core x))) (L(?l := removeAll t (L ?l)))" by simp
  have "sched_ok ?k (L(?l := removeAll t (L ?l)))"
    by (rule sched_ok_lists [OF d(1) h0]) (auto dest: lists_okD(3) [OF sched_okD(1) [OF d(1)]])
  moreover have "is_suspended (stat ?k t)" using t d(4) by simp
  moreover have "t \<notin> set ((L(?l := removeAll t (L ?l))) l)" for l using one by simp
  ultimately obtain h where h: "ipc_list_suspend m t (object_flag (core x) m) sflag ?k = Some (RT_EOK, ?k\<lparr>tlist := h\<rparr>)"
    "sched_ok (?k\<lparr>tlist := h\<rparr>) ((L(?l := removeAll t (L ?l)))(?l :=
      queue_in (object_flag (core x) m) (current_priority ?k) t ((L(?l := removeAll t (L ?l))) ?l)))"
    by (rule suspended_enters)
  have ne: "L ?l \<noteq> []" using t by auto
  obtain u where u: "mutex_owner x m = Some u" using d(6) [OF ne] by blast
  define L' where "L' = L(?l := queue_in RT_IPC_FLAG_PRIO (prio x) t (removeAll t (L ?l)))"
  let ?y = "x\<lparr>core := core x\<lparr>tlist := h\<rparr>\<rparr>"
  have k': "sched_ok (core ?y) L'" using h(2) d(5) [OF ne] by (simp add: L'_def prio_def)
  have y: "mutex_update_priority m ?y = ?y\<lparr>mutex_priority := (mutex_priority x)(m := first_priority ?y (L' ?l))\<rparr>"
    using update_priority_ok(3) [OF k', of m] by simp
  have fx: "fixed (mutex_update_priority m ?y) = fixed x" by (simp add: y) (simp add: fixed_def)
  have sets: "set (L' (Suspend_list n)) = set (L (Suspend_list n))" for n using t by (auto simp: L'_def simp del: queue_in.simps)
  have "filter (\<lambda>u. u \<notin> {t}) (L ?l) = removeAll t (L ?l)" by (simp add: removeAll_filter_not_eq eq_commute)
  then have "sorted (map (prio x) (removeAll t (L ?l)))" using bounds_okD(1) [OF b, of m] by simp
  then have "sorted (map (prio x) (L' ?l))" using sorted_queue_in by (simp add: L'_def del: queue_in.simps)
  moreover have "sorted (map (prio x) (L' (Suspend_list n)))" if "n \<noteq> m" for n
  proof -
    have "filter (\<lambda>u. u \<notin> {t}) (L (Suspend_list n)) = L (Suspend_list n)" using one [of "Suspend_list n"] that
      by (auto simp: filter_id_conv)
    with bounds_okD(1) [OF b, of n] that show ?thesis by (simp add: L'_def)
  qed
  ultimately have sorted: "sorted (map (prio x) (L' (Suspend_list n)))" for n by (cases "n = m") simp_all
  have "first_priority ?y (L' ?l) \<le> prio x v" if "v \<in> set (L' ?l)" for v
    using first_priority_le [of ?y "L' ?l"] sorted that by simp
  moreover have "mutex_priority x n \<le> prio x v" if "v \<in> set (L' (Suspend_list n))" "n \<noteq> m" for v n
    using bounds_okD(2) [OF b, of v n] that one [of "Suspend_list n"] by (auto simp: sets)
  moreover have "prio x v \<le> mutex_priority x n" if "mutex_owner x n = Some v" for v n
    using bounds_okD(3) [OF b that] by simp
  ultimately have "bounds_ok {} {u} (mutex_update_priority m ?y) L'"
    using sorted u unfolding bounds_ok_def y by auto
  moreover have "mutex_shape (mutex_update_priority m ?y) L' M"
    by (rule shape_fixed [OF s fx]) (use k' sets in \<open>simp_all add: y\<close>)
  ultimately show ?thesis using h(1) u fx by (intro that [of h]) simp_all
qed

lemma hand_on_ok:
  assumes s: "mutex_shape x L M" and b: "bounds_ok {t} {} x L"
  obtains x' L' u where "hand_on t sflag x = Some (x', u)" "mutex_shape x' L' M" "bounds_ok (set_option u) {} x' L'"
    "fixed x' = fixed x"
    "\<And>v. u = Some v \<Longrightarrow> is_suspended (stat (core x) t) \<and> (\<exists>m. pending_object x t = Some m \<and> mutex_owner x m = Some v)"
proof -
  note d = mutex_shapeD [OF s]
  show ?thesis
  proof (cases "is_suspended (stat (core x) t) \<and> pending_object x t \<noteq> None")
    case False
    then have "t \<notin> set (L (Suspend_list m))" for m using d(4) by auto
    then have "filter (\<lambda>u. u \<notin> {t}) (L (Suspend_list m)) = L (Suspend_list m)" and "u \<in> set (L (Suspend_list m)) \<Longrightarrow> u \<noteq> t" for m u
      by (auto simp: filter_id_conv)
    with b have "bounds_ok {} {} x L" unfolding bounds_ok_def by auto
    moreover have "hand_on t sflag x = Some (x, None)" using False by (auto simp: hand_on_def)
    ultimately show ?thesis using s by (intro that [of x None L]) simp_all
  next
    case True
    then obtain m where m: "is_suspended (stat (core x) t)" "pending_object x t = Some m" by blast
    then have t: "t \<in> set (L (Suspend_list m))" using d(4) by simp
    obtain h L' u where h: "ipc_list_suspend m t (object_flag (core x) m) sflag (core x\<lparr>tlist := rt_list_remove (Node t) (tlist (core x))\<rparr>) =
        Some (RT_EOK, core x\<lparr>tlist := h\<rparr>)"
      "mutex_shape (mutex_update_priority m (x\<lparr>core := core x\<lparr>tlist := h\<rparr>\<rparr>)) L' M" "mutex_owner x m = Some u"
      "bounds_ok {} {u} (mutex_update_priority m (x\<lparr>core := core x\<lparr>tlist := h\<rparr>\<rparr>)) L'"
      "fixed (mutex_update_priority m (x\<lparr>core := core x\<lparr>tlist := h\<rparr>\<rparr>)) = fixed x"
      by (rule reenter_ok [OF s b t])
    define y where "y = mutex_update_priority m (x\<lparr>core := core x\<lparr>tlist := h\<rparr>\<rparr>)"
    note h' = h(2,4,5) [folded y_def]
    have u: "mutex_owner y m = Some u" using h(3) fixedD(8) [OF h'(3)] by simp
    obtain p where p: "thread_get_mutex_priority u y = Some p" "p < RT_THREAD_PRIORITY_MAX"
      "\<And>m. mutex_owner y m = Some u \<Longrightarrow> p \<le> mutex_priority y m" by (rule get_priority_bounds [OF h'(1)]) blast
    have e: "hand_on t sflag x = Some (if p \<noteq> prio y u then (set_priority u p y, Some u) else (y, None))"
      by (simp add: hand_on_def m h(1) y_def [symmetric] u p(1))
    show ?thesis
    proof (cases "p = prio y u")
      case True
      then have "bounds_ok {} {} y L'" using bounds_ok_owner [OF h'(2)] p(3) by simp
      with True e h'(1,3) show ?thesis by (intro that [of y None L']) simp_all
    next
      case False
      obtain L2 where "mutex_shape (set_priority u p y) L2 M" "bounds_ok {u} {} (set_priority u p y) L2"
        "fixed (set_priority u p y) = fixed y" "\<And>m. L2 (Suspend_list m) = L' (Suspend_list m)"
        by (rule set_priority_ok [OF h'(1,2) p(2,3)]) blast+
      with False e h'(3) m h(3) show ?thesis by (intro that [of "set_priority u p y" "Some u" L2]) simp_all
    qed
  qed
qed

text \<open>The chain of changes, if it ends.\<close>

lemma update_loop_induct [consumes 1, case_names round]:
  assumes "update_loop t sflag x = Some x'"
    and "\<And>t sflag x x' y u. hand_on t sflag x = Some (y, u) \<Longrightarrow> (case u of None \<Rightarrow> x' = y | Some v \<Rightarrow> P v sflag y x') \<Longrightarrow> P t sflag x x'"
  shows "P t sflag x x'"
proof -
  have "P t sflag x x'"
    if IH: "\<And>t sflag x x'. loop t sflag x = Some x' \<Longrightarrow> P t sflag x x'"
      and e: "hand_on t sflag x \<bind> (\<lambda>(x, u). case u of None \<Rightarrow> Some x | Some u \<Rightarrow> loop u sflag x) = Some x'"
    for loop :: "nat \<Rightarrow> suspend_flag \<Rightarrow> mutexes \<Rightarrow> mutexes option" and t sflag x x'
  proof -
    obtain y u where "hand_on t sflag x = Some (y, u)" "(case u of None \<Rightarrow> Some y | Some u \<Rightarrow> loop u sflag y) = Some x'"
      using e by (auto simp: bind_eq_Some_conv)
    then show ?thesis by (intro assms(2) [of t sflag x y u]) (auto split: option.splits intro: IH)
  qed
  from update_loop.raw_induct [of P "((t, sflag), x)" x', unfolded split, OF this assms(1)] show ?thesis .
qed

lemma update_loop_ok:
  assumes "update_loop t sflag x = Some x'" and "mutex_shape x L M" and "bounds_ok {t} {} x L"
  shows "\<exists>L'. mutex_shape x' L' M \<and> bounds_ok {} {} x' L' \<and> fixed x' = fixed x"
  using assms
proof (induction arbitrary: L rule: update_loop_induct)
  case (round t sflag x x' y u)
  obtain z L' v where "hand_on t sflag x = Some (z, v)" "mutex_shape z L' M" "bounds_ok (set_option v) {} z L'" "fixed z = fixed x"
    by (rule hand_on_ok [OF round(3,4), of sflag]) blast
  with round(1,2) show ?case by (cases v) auto
qed

text \<open>It does end where no thread waits for itself.\<close>

inductive chain_ends :: "mutexes \<Rightarrow> nat \<Rightarrow> bool" for x where
  no_wait: "\<not> is_suspended (stat (core x) t) \<or> pending_object x t = None \<Longrightarrow> chain_ends x t"
| owner: "pending_object x t = Some m \<Longrightarrow> mutex_owner x m = Some u \<Longrightarrow> chain_ends x u \<Longrightarrow> chain_ends x t"

lemma update_loop_ends:
  assumes "chain_ends x t" and "mutex_shape y L M" and "bounds_ok {t} {} y L" and "fixed y = fixed x"
  shows "\<exists>y'. update_loop t sflag y = Some y'"
  using assms
proof (induction arbitrary: y L rule: chain_ends.induct)
  case (no_wait t)
  then have "hand_on t sflag y = Some (y, None)" using fixedD [OF no_wait(4)] by (auto simp: hand_on_def)
  then show ?case by (subst update_loop.simps) simp
next
  case (owner t m u)
  obtain z L' v where z: "hand_on t sflag y = Some (z, v)" "mutex_shape z L' M" "bounds_ok (set_option v) {} z L'" "fixed z = fixed y"
    "\<And>w. v = Some w \<Longrightarrow> is_suspended (stat (core y) t) \<and> (\<exists>m. pending_object y t = Some m \<and> mutex_owner y m = Some w)"
    by (rule hand_on_ok [OF owner(5,6), of sflag]) blast
  show ?case
  proof (cases v)
    case None
    with z(1) show ?thesis by (subst update_loop.simps) simp
  next
    case (Some w)
    then have "w = u" using z(5) owner(1,2) fixedD [OF owner(7)] by simp
    with owner(4) [of z L'] z Some owner(7) show ?thesis by (subst update_loop.simps) simp
  qed
qed

lemma thread_update_priority_ok:
  assumes s: "mutex_shape x L M" and b: "bounds_ok {} {u} x L" and p: "p < RT_THREAD_PRIORITY_MAX"
    and own: "\<And>m. mutex_owner x m = Some u \<Longrightarrow> p \<le> mutex_priority x m"
  shows "thread_update_priority u p sflag x = Some x' \<Longrightarrow> \<exists>L'. mutex_shape x' L' M \<and> bounds_ok {} {} x' L' \<and> fixed x' = fixed x"
    and "chain_ends x u \<Longrightarrow> \<exists>x'. thread_update_priority u p sflag x = Some x'"
proof -
  obtain L' where L': "mutex_shape (set_priority u p x) L' M" "bounds_ok {u} {} (set_priority u p x) L'"
    "fixed (set_priority u p x) = fixed x" "\<And>m. L' (Suspend_list m) = L (Suspend_list m)"
    by (rule set_priority_ok [OF s b p own]) blast+
  show "thread_update_priority u p sflag x = Some x' \<Longrightarrow> \<exists>L'. mutex_shape x' L' M \<and> bounds_ok {} {} x' L' \<and> fixed x' = fixed x"
    using update_loop_ok [OF _ L'(1,2)] L'(3) by (simp add: thread_update_priority_def)
  show "chain_ends x u \<Longrightarrow> \<exists>x'. thread_update_priority u p sflag x = Some x'"
    using update_loop_ends [OF _ L'(1-3)] by (simp add: thread_update_priority_def)
qed

lemma refresh_owner_ok:
  assumes s: "mutex_shape x L M" and b: "bounds_ok {} {u} x L"
  shows "refresh_owner u x = Some x' \<Longrightarrow> \<exists>L'. mutex_shape x' L' M \<and> bounds_ok {} {} x' L' \<and> fixed x' = fixed x"
    and "chain_ends x u \<Longrightarrow> \<exists>x'. refresh_owner u x = Some x'"
proof -
  obtain p where p: "thread_get_mutex_priority u x = Some p" "p < RT_THREAD_PRIORITY_MAX"
    "\<And>m. mutex_owner x m = Some u \<Longrightarrow> p \<le> mutex_priority x m" by (rule get_priority_bounds [OF s]) blast
  note t = thread_update_priority_ok [OF s b p(2,3), of RT_UNINTERRUPTIBLE]
  show "refresh_owner u x = Some x' \<Longrightarrow> \<exists>L'. mutex_shape x' L' M \<and> bounds_ok {} {} x' L' \<and> fixed x' = fixed x"
    using t(1) bounds_ok_owner [OF b] s p(1,3) by (auto simp: refresh_owner_def split: if_splits)
  show "chain_ends x u \<Longrightarrow> \<exists>x'. refresh_owner u x = Some x'"
    using t(2) p(1) by (simp add: refresh_owner_def)
qed

section \<open>Takes and releases\<close>

text \<open>The kernel below a state may change where no waiting thread, flag or priority does.\<close>

lemma shape_core:
  assumes s: "mutex_shape x L M" and k: "sched_ok k L'" and l: "\<And>m. L' (Suspend_list m) = L (Suspend_list m)"
    and st: "\<And>t. is_suspended (stat k t) = is_suspended (stat (core x) t)" and f: "object_flag k = object_flag (core x)"
  shows "mutex_shape (x\<lparr>core := k\<rparr>) L' M"
  using s k unfolding mutex_shape_def by (simp add: l st f)

lemma bounds_core:
  assumes "bounds_ok W U x L" and "\<And>m. L' (Suspend_list m) = L (Suspend_list m)" and "current_priority k = current_priority (core x)"
  shows "bounds_ok W U (x\<lparr>core := k\<rparr>) L'"
  using assms unfolding bounds_ok_def by (simp add: prio_def)

text \<open>A waiting thread is woken.\<close>

lemma shape_woken:
  assumes s: "mutex_shape x L M" and k: "sched_ok k (woken t (core x) L)"
    and st: "stat k = (stat (core x))(t := if rt_current_thread (core x) = Some t then RT_THREAD_RUNNING else RT_THREAD_READY)"
    and f: "object_flag k = object_flag (core x)"
  shows "mutex_shape (x\<lparr>core := k\<rparr>) (woken t (core x) L) M"
proof -
  have ne: "L l \<noteq> []" if "removeAll t (L l) \<noteq> []" for l using that by auto
  show ?thesis using s k unfolding mutex_shape_def by (auto simp: woken_other st f dest: ne)
qed

lemma bounds_woken:
  assumes "bounds_ok {} {} x L" and "current_priority k = current_priority (core x)"
  shows "bounds_ok {} {} (x\<lparr>core := k\<rparr>) (woken t (core x) L)"
  using assms unfolding bounds_ok_def
  by (auto simp: woken_other prio_def removeAll_filter_not_eq intro: sorted_filter)

text \<open>A running thread's priority is a plain field.\<close>

lemma running_priority:
  assumes "sched_ok (core x) L" and "stat (core x) t = RT_THREAD_RUNNING" and "p < RT_THREAD_PRIORITY_MAX"
  shows "sched_ok ((core x)\<lparr>current_priority := (current_priority (core x))(t := p)\<rparr>) L"
    and "set_priority t p x = x\<lparr>core := (core x)\<lparr>current_priority := (current_priority (core x))(t := p)\<rparr>\<rparr>"
    and "thread_update_priority t p sflag x = Some (set_priority t p x)"
proof -
  show "sched_ok ((core x)\<lparr>current_priority := (current_priority (core x))(t := p)\<rparr>) L"
    using assms lists_ok_priority [of "core x" L t p] by (simp add: sched_ok_def)
  show e: "set_priority t p x = x\<lparr>core := (core x)\<lparr>current_priority := (current_priority (core x))(t := p)\<rparr>\<rparr>"
    using assms(2) by (simp add: set_priority_def change_priority_def)
  have "hand_on t sflag (set_priority t p x) = Some (set_priority t p x, None)"
    using assms(2) by (simp add: hand_on_def e)
  then show "thread_update_priority t p sflag x = Some (set_priority t p x)"
    unfolding thread_update_priority_def by (subst update_loop.simps) simp
qed

lemma prio_less: "mutex_shape x L M \<Longrightarrow> prio x t < RT_THREAD_PRIORITY_MAX"
  unfolding prio_def by (rule lists_okD(6) [OF sched_okD(1) [OF mutex_shapeD(1)]])

text \<open>The current thread takes a free mutex.\<close>

lemma own_mutex_ok:
  assumes s: "mutex_shape x L M" and b: "bounds_ok {} {} x L" and t: "stat (core x) t = RT_THREAD_RUNNING"
    and free: "mutex_owner x m = None"
  obtains p where "own_mutex m t sflag x = Some (x\<lparr>core := (core x)\<lparr>current_priority := (current_priority (core x))(t := p)\<rparr>,
      mutex_owner := (mutex_owner x)(m := Some t), mutex_priority := (mutex_priority x)(m := 0xff),
      mutex_hold := (mutex_hold x)(m := 1), taken := rt_list_insert_after (Head t) (Node m) (taken x)\<rparr>)"
    "mutex_shape (x\<lparr>core := (core x)\<lparr>current_priority := (current_priority (core x))(t := p)\<rparr>,
      mutex_owner := (mutex_owner x)(m := Some t), mutex_priority := (mutex_priority x)(m := 0xff),
      mutex_hold := (mutex_hold x)(m := 1), taken := rt_list_insert_after (Head t) (Node m) (taken x)\<rparr>) L (M(t := m # M t))"
    "bounds_ok {} {} (x\<lparr>core := (core x)\<lparr>current_priority := (current_priority (core x))(t := p)\<rparr>,
      mutex_owner := (mutex_owner x)(m := Some t), mutex_priority := (mutex_priority x)(m := 0xff),
      mutex_hold := (mutex_hold x)(m := 1), taken := rt_list_insert_after (Head t) (Node m) (taken x)\<rparr>) L"
proof -
  note d = mutex_shapeD [OF s]
  define p where "p = (if ceiling_priority x m \<noteq> 0xFF \<and> ceiling_priority x m < prio x t then ceiling_priority x m else prio x t)"
  have p: "p \<le> prio x t" "p < RT_THREAD_PRIORITY_MAX" using prio_less [OF s, of t] by (auto simp: p_def)
  let ?k = "(core x)\<lparr>current_priority := (current_priority (core x))(t := p)\<rparr>"
  let ?o = "x\<lparr>mutex_owner := (mutex_owner x)(m := Some t), mutex_priority := (mutex_priority x)(m := 0xff), mutex_hold := (mutex_hold x)(m := 1)\<rparr>"
  let ?y = "x\<lparr>core := ?k, mutex_owner := (mutex_owner x)(m := Some t), mutex_priority := (mutex_priority x)(m := 0xff),
      mutex_hold := (mutex_hold x)(m := 1), taken := rt_list_insert_after (Head t) (Node m) (taken x)\<rparr>"
  have k: "sched_ok ?k L" by (rule running_priority(1) [OF d(1) t p(2)])
  have o: "sched_ok (core ?o) L" "stat (core ?o) t = RT_THREAD_RUNNING" "prio ?o = prio x" using d(1) t by (simp_all add: prio_def)
  have "(core x)\<lparr>current_priority := (current_priority (core x))(t := prio x t)\<rparr> = core x" by (simp add: prio_def)
  then have e: "own_mutex m t sflag x = Some ?y"
    using running_priority(2,3) [OF o(1,2) p(2)] o(3) by (auto simp: own_mutex_def p_def)
  have empty: "L (Suspend_list m) = []" using d(6) [of m] free by auto
  have "\<not> is_suspended (stat (core x) t)" using t by simp
  then have out: "t \<notin> set (L (Suspend_list n))" for n by (simp add: d(4))
  have "m \<notin> set (M u)" for u using d(3) free by simp
  then have "rings (taken ?y) (M(t := m # M t))" using rings_push [OF d(2)] by simp
  then have "mutex_shape ?y L (M(t := m # M t))"
    using s k empty unfolding mutex_shape_def by (auto simp: free)
  moreover have pr: "prio ?y = (prio x)(t := p)" by (simp add: prio_def)
  moreover have "map (prio ?y) (L (Suspend_list n)) = map (prio x) (L (Suspend_list n))" for n
    unfolding pr by (rule map_cong) (use out in auto)
  then have "bounds_ok {} {} ?y L"
    using bounds_okD [OF b] p out empty unfolding bounds_ok_def RT_THREAD_PRIORITY_MAX_def
    by (auto simp: pr intro: order_trans)
  ultimately show ?thesis using e that by blast
qed

text \<open>A waiting thread's priority reaches the owner, and those the owner waits for.\<close>

lemma pass_on_ok:
  assumes s: "mutex_shape x L M" and u: "mutex_owner x m = Some u" and p: "p < RT_THREAD_PRIORITY_MAX"
    and own: "\<And>n. mutex_owner x n = Some u \<Longrightarrow> prio x u \<le> mutex_priority x n"
    and b: "bounds_ok {} {u} (x\<lparr>mutex_priority := (mutex_priority x)(m := min p (mutex_priority x m))\<rparr>) L"
  shows "pass_on m u p x = Some x' \<Longrightarrow> \<exists>L'. mutex_shape x' L' M \<and> bounds_ok {} {} x' L' \<and> fixed x' = fixed x"
    and "chain_ends x u \<Longrightarrow> \<exists>x'. pass_on m u p x = Some x'"
proof -
  let ?y = "x\<lparr>mutex_priority := (mutex_priority x)(m := p)\<rparr>"
  have "\<exists>L'. mutex_shape x' L' M \<and> bounds_ok {} {} x' L' \<and> fixed x' = fixed x" if e: "pass_on m u p x = Some x'" for x'
  proof (cases "p < mutex_priority x m \<and> p < prio x u")
    case True
    then have "thread_update_priority u p RT_UNINTERRUPTIBLE ?y = Some x'" using e by (simp add: pass_on_def)
    moreover have "bounds_ok {} {u} ?y L" using b True by (simp add: min_def)
    moreover have "p \<le> mutex_priority ?y n" if "mutex_owner ?y n = Some u" for n using that own [of n] True by auto
    ultimately show ?thesis using thread_update_priority_ok(1) [of ?y L M u p] s p by simp
  next
    case False
    define q where "q = min p (mutex_priority x m)"
    have x': "x' = x\<lparr>mutex_priority := (mutex_priority x)(m := q)\<rparr>"
      using e False by (auto simp: pass_on_def q_def min_def fun_upd_idem split: if_splits)
    have "prio x' u \<le> mutex_priority x' n" if "mutex_owner x' n = Some u" for n
      using that own [of n] own [OF u] False by (auto simp: x' q_def)
    then have "bounds_ok {} {} x' L" using bounds_ok_owner [of "{}" u x' L] b by (simp add: x' q_def)
    with s show ?thesis by (intro exI [of _ L]) (simp add: x')
  qed
  then show "pass_on m u p x = Some x' \<Longrightarrow> \<exists>L'. mutex_shape x' L' M \<and> bounds_ok {} {} x' L' \<and> fixed x' = fixed x" .
  show "\<exists>x'. pass_on m u p x = Some x'" if c: "chain_ends x u"
  proof (cases "p < mutex_priority x m \<and> p < prio x u")
    case True
    have "bounds_ok {} {u} ?y L" using b True by (simp add: min_def)
    moreover have "p \<le> mutex_priority ?y n" if "mutex_owner ?y n = Some u" for n using that own [of n] True by auto
    moreover have "chain_ends ?y u" using c by (induction rule: chain_ends.induct) (auto intro: chain_ends.intros)
    ultimately show ?thesis using thread_update_priority_ok(2) [of ?y L M u p] s p True by (simp add: pass_on_def)
  qed (auto simp: pass_on_def)
qed

text \<open>Whom a thread waits for.\<close>

definition blocked_by :: "mutexes \<Rightarrow> nat \<Rightarrow> nat \<Rightarrow> bool" where
  "blocked_by x t u \<longleftrightarrow> is_suspended (stat (core x) t) \<and> (\<exists>m. pending_object x t = Some m \<and> mutex_owner x m = Some u)"

lemma chain_ends_waits:
  assumes "chain_ends x u" and "\<not> (blocked_by x)\<^sup>*\<^sup>* u t"
    and "\<And>v. v \<noteq> t \<Longrightarrow> is_suspended (stat (core y) v) = is_suspended (stat (core x) v) \<and> pending_object y v = pending_object x v"
    and "mutex_owner y = mutex_owner x"
  shows "chain_ends y u"
  using assms(1,2)
proof (induction rule: chain_ends.induct)
  case (no_wait v)
  then have "v \<noteq> t" by auto
  with no_wait(1) assms(3) [of v] show ?case by (auto intro: chain_ends.no_wait)
next
  case (owner v m w)
  then have "v \<noteq> t" by auto
  show ?case
  proof (cases "is_suspended (stat (core x) v)")
    case True
    with owner(1,2) have "blocked_by x v w" by (simp add: blocked_by_def)
    then have "\<not> (blocked_by x)\<^sup>*\<^sup>* w t" using owner(5) by (meson converse_rtranclp_into_rtranclp)
    with owner(4) show ?thesis using owner(1,2) assms(3) [OF \<open>v \<noteq> t\<close>] by (auto simp: assms(4) intro: chain_ends.owner)
  next
    case False
    with assms(3) [OF \<open>v \<noteq> t\<close>] show ?thesis by (auto intro: chain_ends.no_wait)
  qed
qed

text \<open>The current thread waits for a mutex of another thread.\<close>

lemma wait_mutex_ok:
  assumes s: "mutex_shape x L M" and b: "bounds_ok {} {} x L"
    and t: "rt_current_thread (core x) = Some t" "stat (core x) t = RT_THREAD_RUNNING" "pending_object x t = None"
    and u: "mutex_owner x m = Some u" and flag: "object_flag (core x) m = RT_IPC_FLAG_PRIO"
  obtains y where
    "wait_mutex m u timeout sflag t x = map_option (\<lambda>y. (Take_schedules,
       if timeout > 0 then y\<lparr>core := (core y)\<lparr>thread_timer := (thread_timer (core y))(t := Some timeout)\<rparr>\<rparr> else y)) (pass_on m u (prio x t) y)"
    "fixed y = fixed (x\<lparr>core := (core x)\<lparr>stat := (stat (core x))(t := suspend_stat sflag), thread_timer := (thread_timer (core x))(t := None)\<rparr>,
       pending_object := (pending_object x)(t := Some m)\<rparr>)"
    "\<And>y'. pass_on m u (prio x t) y = Some y' \<Longrightarrow> \<exists>L'. mutex_shape y' L' M \<and> bounds_ok {} {} y' L' \<and> fixed y' = fixed y"
    "chain_ends y u \<Longrightarrow> \<exists>y'. pass_on m u (prio x t) y = Some y'"
    "prio y = prio x" "mutex_priority y = mutex_priority x"
proof -
  note d = mutex_shapeD [OF s]
  obtain h where h: "ipc_list_suspend m t (object_flag (core x) m) sflag (core x) =
      Some (RT_EOK, (core x)\<lparr>stat := (stat (core x))(t := suspend_stat sflag), thread_timer := (thread_timer (core x))(t := None), tlist := h\<rparr>)"
    "sched_ok ((core x)\<lparr>stat := (stat (core x))(t := suspend_stat sflag), thread_timer := (thread_timer (core x))(t := None), tlist := h\<rparr>)
      (L(Suspend_list m := queue_in (object_flag (core x) m) (current_priority (core x)) t (L (Suspend_list m))))"
    by (rule ipc_list_suspend_ok [OF d(1) t(1,2), of m "object_flag (core x) m" sflag])
  define k where "k = (core x)\<lparr>stat := (stat (core x))(t := suspend_stat sflag), thread_timer := (thread_timer (core x))(t := None), tlist := h\<rparr>"
  define L' where "L' = L(Suspend_list m := queue_in RT_IPC_FLAG_PRIO (prio x) t (L (Suspend_list m)))"
  define y where "y = x\<lparr>core := k, pending_object := (pending_object x)(t := Some m)\<rparr>"
  have k: "sched_ok k L'" using h(2) flag by (simp add: k_def L'_def prio_def)
  have pr: "prio y = prio x" and mp: "mutex_priority y = mutex_priority x" and ow: "mutex_owner y = mutex_owner x"
    by (simp_all add: y_def k_def prio_def)
  have fy: "fixed y = fixed (x\<lparr>core := (core x)\<lparr>stat := (stat (core x))(t := suspend_stat sflag), thread_timer := (thread_timer (core x))(t := None)\<rparr>,
       pending_object := (pending_object x)(t := Some m)\<rparr>)" by (simp add: y_def k_def fixed_def)
  have sets: "set (L' (Suspend_list n)) = (if n = m then insert t (set (L (Suspend_list n))) else set (L (Suspend_list n)))" for n
    by (simp add: L'_def del: queue_in.simps)
  have out: "t \<notin> set (L (Suspend_list n))" for n by (simp add: d(4) t(2))
  have nonempty: "L' (Suspend_list n) \<noteq> [] \<longleftrightarrow> n = m \<or> L (Suspend_list n) \<noteq> []" for n
    using sets [of n] by (metis insert_not_empty set_empty)
  have y: "mutex_shape y L' M"
    using s k u flag unfolding mutex_shape_def nonempty sets by (auto simp: y_def k_def t(2))
  have sorted: "sorted (map (prio x) (L' (Suspend_list n)))" for n
    using bounds_okD(1) [OF b, of n] bounds_okD(1) [OF b, of m] sorted_queue_in [of "prio x" "L (Suspend_list m)" t]
    by (simp add: L'_def del: queue_in.simps)
  let ?p = "prio x t"
  have b': "bounds_ok {} {u} (y\<lparr>mutex_priority := (mutex_priority y)(m := min ?p (mutex_priority y m))\<rparr>) L'"
    using sorted bounds_okD(2,3) [OF b] u unfolding bounds_ok_def
    by (auto simp: pr mp ow sets min_def intro: order_trans split: if_splits)
  have own: "prio y u \<le> mutex_priority y n" if "mutex_owner y n = Some u" for n
    using bounds_okD(3) [OF b, of n u] that by (simp add: pr mp ow)
  have "mutex_owner y m = Some u" using u by (simp add: ow)
  note ok = pass_on_ok [OF y this prio_less [OF s, of t] own b']
  have e: "wait_mutex m u timeout sflag t x = map_option (\<lambda>y. (Take_schedules,
       if timeout > 0 then y\<lparr>core := (core y)\<lparr>thread_timer := (thread_timer (core y))(t := Some timeout)\<rparr>\<rparr> else y)) (pass_on m u (prio x t) y)"
    by (simp add: wait_mutex_def h(1) y_def k_def Let_def)
  show ?thesis by (rule that [OF e fy ok(1) ok(2) pr mp]) assumption+
qed

text \<open>A thread that is no longer among the waiting threads of a mutex.\<close>

lemma waiter_left_ok:
  assumes s: "mutex_shape x L M" and b: "bounds_ok {} {} x L"
  shows "waiter_left m t x = Some x' \<Longrightarrow> \<exists>L'. mutex_shape x' L' M \<and> bounds_ok {} {} x' L' \<and> fixed x' = fixed x"
    and "(\<And>u. mutex_owner x m = Some u \<Longrightarrow> chain_ends x u) \<Longrightarrow> \<exists>x'. waiter_left m t x = Some x'"
proof -
  let ?y = "x\<lparr>mutex_priority := (mutex_priority x)(m := first_priority x (L (Suspend_list m)))\<rparr>"
  have sorted: "sorted (map (prio x) (L (Suspend_list m)))" using bounds_okD(1) [OF b, of m] by simp
  have "prio x u \<le> first_priority x (L (Suspend_list m))" if "mutex_owner x m = Some u" for u
  proof (cases "L (Suspend_list m)")
    case Nil
    with prio_less [OF s, of u] show ?thesis by (simp add: first_priority_def RT_THREAD_PRIORITY_MAX_def)
  next
    case (Cons v vs)
    with bounds_okD(3) [OF b that] bounds_okD(2) [OF b, of v m] show ?thesis by (simp add: first_priority_def)
  qed
  then have "bounds_ok {} {} ?y L"
    using b first_priority_le [OF sorted] unfolding bounds_ok_def by auto
  then have b': "bounds_ok W U ?y L" for W U using bounds_ok_mono by blast
  have s': "mutex_shape ?y L M" using s by simp
  have e: "waiter_left m t x = (if \<exists>u. mutex_owner x m = Some u \<and> prio x u = prio x t
      then refresh_owner (the (mutex_owner x m)) ?y else Some ?y)"
    using update_priority_ok(3) [OF mutex_shapeD(1) [OF s], of m] by (auto simp: waiter_left_def split: option.split)
  show "waiter_left m t x = Some x' \<Longrightarrow> \<exists>L'. mutex_shape x' L' M \<and> bounds_ok {} {} x' L' \<and> fixed x' = fixed x"
    using refresh_owner_ok(1) [OF s' b'] s' b' by (auto simp: e split: if_splits)
  show "\<exists>x'. waiter_left m t x = Some x'" if c: "\<And>u. mutex_owner x m = Some u \<Longrightarrow> chain_ends x u"
  proof -
    have "chain_ends ?y u" if "chain_ends x u" for u using that by (induction rule: chain_ends.induct) (auto intro: chain_ends.intros)
    with c refresh_owner_ok(2) [OF s' b'] show ?thesis by (auto simp: e)
  qed
qed

text \<open>The owner gives up a mutex: the priority it keeps is at least as urgent as the other mutexes it owns.\<close>

lemma restore_priority_ok:
  assumes s: "mutex_shape x L M" and b: "bounds_ok {} {} x L" and t: "stat (core x) t = RT_THREAD_RUNNING"
    and own: "mutex_owner x m = Some t"
  obtains need p where "restore_priority m t (x\<lparr>mutex_hold := h, taken := rt_list_remove (Node m) (taken x)\<rparr>) =
      Some (need, x\<lparr>mutex_hold := h, taken := rt_list_remove (Node m) (taken x),
        core := (core x)\<lparr>current_priority := (current_priority (core x))(t := p)\<rparr>\<rparr>)"
    "p < RT_THREAD_PRIORITY_MAX" "\<And>n. n \<noteq> m \<Longrightarrow> mutex_owner x n = Some t \<Longrightarrow> p \<le> mutex_priority x n"
    "need \<or> p = prio x t"
proof -
  note d = mutex_shapeD [OF s]
  let ?y = "x\<lparr>mutex_hold := h, taken := rt_list_remove (Node m) (taken x)\<rparr>"
  have r: "rings (taken ?y) (\<lambda>u. removeAll m (M u))" using rings_remove [OF d(2)] by simp
  define p where "p = inherited ?y (removeAll m (M t)) (init_priority ?y t)"
  have p: "thread_get_mutex_priority t ?y = Some p" unfolding p_def by (rule get_priority_ok [OF r])
  have less: "p < RT_THREAD_PRIORITY_MAX"
    using inherited_le [of ?y "removeAll m (M t)" "init_priority ?y t"] d(7) [of t] by (simp add: p_def)
  have le: "p \<le> mutex_priority x n" if "n \<noteq> m" "mutex_owner x n = Some t" for n
    using inherited_mutex [of n "removeAll m (M t)" ?y "init_priority ?y t"] that d(3) [of n t] by (simp add: p_def)
  have y: "sched_ok (core ?y) L" "stat (core ?y) t = RT_THREAD_RUNNING" using d(1) t by simp_all
  show ?thesis
  proof (cases "ceiling_priority x m \<noteq> 0xFF \<or> prio x t = mutex_priority x m")
    case True
    then have "restore_priority m t ?y = Some (True, set_priority t p ?y)" by (simp add: restore_priority_def p prio_def)
    with less le show ?thesis using running_priority(2) [OF y less] by (intro that [of True p]) simp_all
  next
    case False
    then have "restore_priority m t ?y = Some (False, ?y)" by (simp add: restore_priority_def prio_def)
    moreover have "(core x)\<lparr>current_priority := (current_priority (core x))(t := prio x t)\<rparr> = core x" by (simp add: prio_def)
    ultimately show ?thesis
      using bounds_okD(3) [OF b] prio_less [OF s, of t] by (intro that [of False "prio x t"]) simp_all
  qed
qed

lemma remove_twice: "rt_list_remove n (rt_list_remove n h) = rt_list_remove n h"
  by (simp add: rt_list_remove_def Let_def fun_upd_idem)

text \<open>A mutex nobody waits for becomes free.\<close>

lemma clear_owner_ok:
  assumes s: "mutex_shape x L M" and b: "bounds_ok {} {} x L" and t: "stat (core x) t = RT_THREAD_RUNNING"
    and own: "mutex_owner x m = Some t" and empty: "L (Suspend_list m) = []"
    and p: "p < RT_THREAD_PRIORITY_MAX" "\<And>n. n \<noteq> m \<Longrightarrow> mutex_owner x n = Some t \<Longrightarrow> p \<le> mutex_priority x n"
    and y: "y = x\<lparr>mutex_hold := h, taken := rt_list_remove (Node m) (taken x),
        core := (core x)\<lparr>current_priority := (current_priority (core x))(t := p)\<rparr>,
        mutex_owner := (mutex_owner x)(m := None), mutex_priority := (mutex_priority x)(m := 0xff)\<rparr>"
  shows "mutex_shape y L (\<lambda>u. removeAll m (M u))" and "bounds_ok {} {} y L"
proof -
  note d = mutex_shapeD [OF s]
  have k: "sched_ok (core y) L" using running_priority(1) [OF d(1) t p(1)] by (simp add: y)
  have "rings (taken y) (\<lambda>u. removeAll m (M u))" using rings_remove [OF d(2)] by (simp add: y)
  with s k empty show "mutex_shape y L (\<lambda>u. removeAll m (M u))" unfolding mutex_shape_def by (auto simp: y)
  have out: "t \<notin> set (L (Suspend_list n))" for n by (simp add: d(4) t)
  have pr: "prio y = (prio x)(t := p)" by (simp add: y prio_def)
  have "map (prio y) (L (Suspend_list n)) = map (prio x) (L (Suspend_list n))" for n
    unfolding pr by (rule map_cong) (use out in auto)
  with bounds_okD [OF b] p(2) out empty show "bounds_ok {} {} y L"
    unfolding bounds_ok_def by (auto simp: pr) (auto simp: y split: if_splits)
qed

text \<open>A mutex goes to the first of its waiting threads.\<close>

lemma hand_over_ok:
  assumes s: "mutex_shape x L M" and b: "bounds_ok {} {} x L" and t: "stat (core x) t = RT_THREAD_RUNNING"
    and own: "mutex_owner x m = Some t" and l: "L (Suspend_list m) = v # vs"
    and p: "p < RT_THREAD_PRIORITY_MAX" "\<And>n. n \<noteq> m \<Longrightarrow> mutex_owner x n = Some t \<Longrightarrow> p \<le> mutex_priority x n"
    and z: "z = x\<lparr>mutex_hold := h, taken := rt_list_remove (Node m) (taken x),
        core := (core x)\<lparr>current_priority := (current_priority (core x))(t := p)\<rparr>\<rparr>"
  obtains L' M' where "mutex_shape (hand_over m z) L' M'" "bounds_ok {} {} (hand_over m z) L'"
    "stat (core (hand_over m z)) = (stat (core x))(v := RT_THREAD_READY)" "errno (core (hand_over m z)) = errno (core x)"
    "thread_timer (core (hand_over m z)) = (thread_timer (core x))(v := None)"
    "rt_current_thread (core (hand_over m z)) = rt_current_thread (core x)"
    "rt_scheduler_lock_nest (core (hand_over m z)) = rt_scheduler_lock_nest (core x)"
    "kernel_assert (core (hand_over m z)) = kernel_assert (core x)"
    "mutex_owner (hand_over m z) = (mutex_owner x)(m := Some v)" "mutex_hold (hand_over m z) = h(m := 1)"
    "pending_object (hand_over m z) = (pending_object x)(v := None)" "\<And>u. u \<in> set vs \<Longrightarrow> prio (hand_over m z) v \<le> prio (hand_over m z) u"
    "prio (hand_over m z) v = prio x v" "ceiling_priority (hand_over m z) = ceiling_priority x"
proof -
  note d = mutex_shapeD [OF s]
  have cz: "core z = (core x)\<lparr>current_priority := (current_priority (core x))(t := p)\<rparr>" by (simp add: z)
  have k: "sched_ok (core z) L" unfolding cz by (rule running_priority(1) [OF d(1) t p(1)])
  have v: "v \<in> set (L (Suspend_list m))" "v \<noteq> t" using l d(4) [of v m] t by auto
  have sus: "is_suspended (stat (core z) v)" using v d(4) by (simp add: z)
  have c: "rt_current_thread (core x) = Some t" using sched_okD(2) [OF d(1) t] .
  obtain k' where k': "rt_thread_resume v (core z) = (RT_EOK, k')" "sched_ok k' (woken v (core z) L)"
    "stat k' = (stat (core z))(v := if rt_current_thread (core z) = Some v then RT_THREAD_RUNNING else RT_THREAD_READY)"
    "thread_timer k' = (thread_timer (core z))(v := None)" "errno k' = errno (core z)" "current_priority k' = current_priority (core z)"
    "rt_current_thread k' = rt_current_thread (core z)" "rt_scheduler_lock_nest k' = rt_scheduler_lock_nest (core z)"
    "sem_value k' = sem_value (core z)" "object_flag k' = object_flag (core z)" "kernel_assert k' = kernel_assert (core z)"
    by (rule resume_suspended [OF k sus])
  have r: "snd (rt_thread_resume v ((core z)\<lparr>tlist := rt_list_remove (Node v) (tlist (core z))\<rparr>)) = k'"
    using k'(1) sus by (simp add: rt_thread_resume_def remove_twice)
  define L' where "L' = woken v (core z) L"
  define M' where "M' = (\<lambda>u. removeAll m (M u))(v := m # removeAll m (M v))"
  have L': "L' (Suspend_list n) = removeAll v (L (Suspend_list n))" for n by (simp add: L'_def woken_other)
  have Lm: "L' (Suspend_list m) = vs" using removeAll_hd [OF d(1) l] by (simp add: L')
  define w where "w = z\<lparr>mutex_owner := (mutex_owner z)(m := Some v), mutex_hold := (mutex_hold z)(m := 1),
      taken := rt_list_insert_after (Head v) (Node m) (taken z), pending_object := (pending_object z)(v := None), core := k'\<rparr>"
  have kw: "sched_ok (core w) L'" using k'(2) by (simp add: w_def L'_def)
  have "first_waiting m z = v" by (rule update_priority_ok(2) [OF k l])
  then have "hand_over m z = mutex_update_priority m w"
    using r by (simp add: hand_over_def w_def Let_def)
  then have e: "hand_over m z = w\<lparr>mutex_priority := (mutex_priority w)(m := first_priority w vs)\<rparr>"
    using update_priority_ok(3) [OF kw, of m] Lm by simp
  have pr: "prio w = (prio x)(t := p)" by (simp add: w_def prio_def k'(6) z)
  have st: "stat (core w) = (stat (core x))(v := RT_THREAD_READY)" using c v(2) by (simp add: w_def k'(3) z)
  have ow: "mutex_owner w = (mutex_owner x)(m := Some v)" and pe: "pending_object w = (pending_object x)(v := None)"
    and mp: "mutex_priority w = mutex_priority x" and fl: "object_flag (core w) = object_flag (core x)"
    and ip: "init_priority w = init_priority x" and nu: "null_owner w = null_owner x"
    by (simp_all add: w_def z k'(10))
  have "rings (taken z) (\<lambda>u. removeAll m (M u))" using rings_remove [OF d(2)] by (simp add: z)
  from rings_push [OF this, of m v] have M: "rings (taken w) M'" by (simp add: w_def M'_def)
  have ne: "L (Suspend_list n) \<noteq> []" if "L' (Suspend_list n) \<noteq> []" for n using that by (auto simp: L')
  have owners: "n \<in> set (M' u) \<longleftrightarrow> mutex_owner w n = Some u" for n u
    using d(3) [of n u] own v(2) by (auto simp: M'_def ow)
  have waiting: "u \<in> set (L' (Suspend_list n)) \<longleftrightarrow> is_suspended (stat (core w) u) \<and> pending_object w u = Some n" for u n
    using d(4) [of u n] by (auto simp: L' st pe)
  have "object_flag (core w) n = RT_IPC_FLAG_PRIO \<and> mutex_owner w n \<noteq> None" if "L' (Suspend_list n) \<noteq> []" for n
    using d(5,6) [OF ne [OF that]] by (auto simp: fl ow)
  then have "mutex_shape w L' M'"
    unfolding mutex_shape_def using kw M owners waiting d(7,8) by (simp add: ip nu)
  then have shape: "mutex_shape (hand_over m z) L' M'" by (simp add: e)
  have out: "u \<noteq> t" if "u \<in> set (L (Suspend_list n))" for u n using that t d(4) [of u n] by auto
  have "map (prio w) (L' (Suspend_list n)) = map (prio x) (removeAll v (L (Suspend_list n)))" for n
    unfolding pr L' by (rule map_cong) (use out in auto)
  then have sorted: "sorted (map (prio w) (L' (Suspend_list n)))" for n
    using bounds_okD(1) [OF b, of n] by (simp add: removeAll_filter_not_eq sorted_filter)
  have vx: "prio w v = prio x v" using v(2) by (simp add: pr)
  have first: "prio w v \<le> prio w u" if "u \<in> set vs" for u
    using bounds_okD(1) [OF b, of m] that l out [of u m] by (auto simp: pr v(2))
  have "prio w v \<le> first_priority w vs"
    using first prio_less [OF s, of v] by (cases vs) (auto simp: first_priority_def vx RT_THREAD_PRIORITY_MAX_def)
  moreover have "first_priority w vs \<le> prio w u" if "u \<in> set vs" for u
    using first_priority_le [of w vs u] sorted [of m] that by (simp add: Lm)
  moreover have "mutex_priority x n \<le> prio w u" if "u \<in> set (L' (Suspend_list n))" for n u
    using that bounds_okD(2) [OF b, of u n] out [of u n] by (simp add: L' pr)
  moreover have "prio w u \<le> mutex_priority x n" if "mutex_owner x n = Some u" "n \<noteq> m" for n u
    using that bounds_okD(3) [OF b, of n u] p(2) by (auto simp: pr)
  ultimately have "bounds_ok {} {} (hand_over m z) L'"
    using sorted Lm unfolding bounds_ok_def e by (auto simp: ow mp split: if_splits)
  then show ?thesis
    using shape first vx
    by (rule_tac that) (simp_all add: e st ow pe, simp_all add: w_def k'(4,5,7,8,11) z)
qed

end
