(* ===== verification/Rt_Mutex_Run.thy ===== *)
theory Rt_Mutex_Run
  imports Rt_Mutex
begin

text \<open>
  Mutexes under way: \<open>mutex_step\<close> is the machine of all threads, interrupts and timers that use the mutexes of
  \<open>Rt_Mutex\<close>, a take being split at its call of the scheduler.  Its invariant \<open>mutex_inv\<close> gives what a mutex is for:
  at most one thread holds it, as often as it took it, and no owner is less urgent than a thread that waits for it.
\<close>

section \<open>The machine\<close>

text \<open>
  Where a thread is in a take, as for semaphores, and how often each thread holds each mutex: the takes that returned
  \<open>RT_EOK\<close> less the releases that did.
\<close>

record mutex_run =
  mx :: mutexes
  mpc :: "nat \<Rightarrow> pc"
  depth :: "nat \<Rightarrow> nat \<Rightarrow> nat"

definition count_take :: "int \<Rightarrow> nat \<Rightarrow> nat \<Rightarrow> (nat \<Rightarrow> nat \<Rightarrow> nat) \<Rightarrow> nat \<Rightarrow> nat \<Rightarrow> nat" where
  "count_take e t m d = (if e = RT_EOK then d(t := (d t)(m := d t m + 1)) else d)"

definition count_release :: "int \<Rightarrow> nat \<Rightarrow> nat \<Rightarrow> (nat \<Rightarrow> nat \<Rightarrow> nat) \<Rightarrow> nat \<Rightarrow> nat \<Rightarrow> nat" where
  "count_release e t m d = (if e = RT_EOK then d(t := (d t)(m := d t m - 1)) else d)"

text \<open>
  One step: the current thread takes a mutex, at once or not; it calls the scheduler; it runs again and returns; it
  releases; a ceiling is set; an interrupt calls the scheduler; the clock ticks; a timer runs out; a thread yields.
\<close>

inductive mutex_step :: "nat \<Rightarrow> mutex_run \<Rightarrow> mutex_run \<Rightarrow> bool" for idle where
  take_returns: "rt_current_thread (core (mx r)) = Some t \<Longrightarrow> mpc r t = Outside \<Longrightarrow>
    object_flag (core (mx r)) m = RT_IPC_FLAG_PRIO \<Longrightarrow>
    mutex_take m timeout sflag t (mx r) = Some (Take_returns e, x) \<Longrightarrow>
    mutex_step idle r (r\<lparr>mx := x, depth := count_take e t m (depth r)\<rparr>)"
| take_waits: "rt_current_thread (core (mx r)) = Some t \<Longrightarrow> t \<noteq> idle \<Longrightarrow> mpc r t = Outside \<Longrightarrow>
    object_flag (core (mx r)) m = RT_IPC_FLAG_PRIO \<Longrightarrow>
    mutex_take m timeout sflag t (mx r) = Some (Take_schedules, x) \<Longrightarrow>
    mutex_step idle r (r\<lparr>mx := x, mpc := (mpc r)(t := Before m)\<rparr>)"
| take_switches: "rt_current_thread (core (mx r)) = Some t \<Longrightarrow> mpc r t = Before m \<Longrightarrow>
    mutex_step idle r (r\<lparr>mx := (mx r)\<lparr>core := rt_schedule (core (mx r))\<rparr>, mpc := (mpc r)(t := After m)\<rparr>)"
| take_resumes: "rt_current_thread (core (mx r)) = Some t \<Longrightarrow> mpc r t = After m \<Longrightarrow>
    mutex_take_resumed m t (mx r) = Some (e, x) \<Longrightarrow>
    mutex_step idle r (r\<lparr>mx := x, mpc := (mpc r)(t := Outside), depth := count_take e t m (depth r)\<rparr>)"
| releases: "rt_current_thread (core (mx r)) = Some t \<Longrightarrow> mpc r t = Outside \<Longrightarrow>
    mutex_release m t (mx r) = Some (e, need_schedule, x) \<Longrightarrow>
    mutex_step idle r (r\<lparr>mx := x, depth := count_release e t m (depth r)\<rparr>)"
| sets_ceiling: "rt_mutex_setprioceiling m p (mx r) = Some (old, x) \<Longrightarrow> mutex_step idle r (r\<lparr>mx := x\<rparr>)"
| schedule: "mutex_step idle r (r\<lparr>mx := (mx r)\<lparr>core := rt_schedule (core (mx r))\<rparr>\<rparr>)"
| ticks: "mutex_step idle r (r\<lparr>mx := (mx r)\<lparr>core := rt_tick_increase (core (mx r))\<rparr>\<rparr>)"
| times_out: "thread_timer (core (mx r)) t \<noteq> None \<Longrightarrow>
    mutex_step idle r (r\<lparr>mx := (mx r)\<lparr>core :=
      thread_timeout t ((core (mx r))\<lparr>thread_timer := (thread_timer (core (mx r)))(t := None)\<rparr>)\<rparr>\<rparr>)"
| yields: "mutex_step idle r (r\<lparr>mx := (mx r)\<lparr>core := snd (rt_thread_yield (core (mx r)))\<rparr>\<rparr>)"

section \<open>Its invariant\<close>

text \<open>
  A thread whose take is under way waits in the list of the mutex, or its timer has run out, or it has been handed the
  mutex.
\<close>

definition takes_ok :: "(nat \<Rightarrow> pc) \<Rightarrow> mutexes \<Rightarrow> bool" where
  "takes_ok p x \<longleftrightarrow>
     (\<forall>m t. pending_object x t = Some m \<longrightarrow> waits p m t \<and> mutex_owner x m \<noteq> Some t) \<and>
     (\<forall>t. pending_object x t \<noteq> None \<longrightarrow>
        errno (core x) t = (if is_suspended (stat (core x) t) then RT_EOK else - RT_ETIMEOUT)) \<and>
     (\<forall>m t. waits p m t \<longrightarrow>
        pending_object x t = Some m \<or> pending_object x t = None \<and> errno (core x) t = RT_EOK \<and> mutex_owner x m = Some t) \<and>
     (\<forall>t. thread_timer (core x) t \<noteq> None \<longrightarrow> is_suspended (stat (core x) t) \<and> pending_object x t \<noteq> None)"

definition runs_ok :: "nat \<Rightarrow> (nat \<Rightarrow> pc) \<Rightarrow> kernel \<Rightarrow> bool" where
  "runs_ok idle p k \<longleftrightarrow>
     rt_scheduler_lock_nest k = 0 \<and> \<not> kernel_assert k \<and>
     (\<exists>c. rt_current_thread k = Some c \<and> (stat k c = RT_THREAD_RUNNING \<or> (\<exists>m. p c = Before m))) \<and>
     runnable (stat k idle) \<and> p idle = Outside"

definition mutex_ok :: "nat \<Rightarrow> (nat \<Rightarrow> pc) \<Rightarrow> mutexes \<Rightarrow> (tlist_head \<Rightarrow> nat list) \<Rightarrow> (nat \<Rightarrow> nat list) \<Rightarrow> bool" where
  "mutex_ok idle p x L M \<longleftrightarrow> mutex_shape x L M \<and> bounds_ok {} {} x L \<and> runs_ok idle p (core x) \<and> takes_ok p x"

text \<open>The number of times the owner holds the mutex; the first is its waiting take's own, until that returns.\<close>

definition counts_ok :: "(nat \<Rightarrow> pc) \<Rightarrow> mutexes \<Rightarrow> (nat \<Rightarrow> nat \<Rightarrow> nat) \<Rightarrow> bool" where
  "counts_ok p x d \<longleftrightarrow>
     (\<forall>m t. mutex_owner x m = Some t \<longrightarrow> mutex_hold x m \<noteq> 0 \<and> unat (mutex_hold x m) = d t m + (if waits p m t then 1 else 0)) \<and>
     (\<forall>m t. mutex_owner x m \<noteq> Some t \<or> waits p m t \<longrightarrow> d t m = 0)"

definition mutex_inv :: "nat \<Rightarrow> mutex_run \<Rightarrow> bool" where
  "mutex_inv idle r \<longleftrightarrow> (\<exists>L M. mutex_ok idle (mpc r) (mx r) L M) \<and> counts_ok (mpc r) (mx r) (depth r)"

lemma mutex_okD:
  assumes "mutex_ok idle p x L M"
  shows "mutex_shape x L M" and "bounds_ok {} {} x L" and "runs_ok idle p (core x)" and "takes_ok p x"
  using assms by (simp_all add: mutex_ok_def)

lemma runs_okD:
  assumes "runs_ok idle p k"
  shows "rt_scheduler_lock_nest k = 0" and "\<not> kernel_assert k"
    and "\<exists>c. rt_current_thread k = Some c \<and> (stat k c = RT_THREAD_RUNNING \<or> (\<exists>m. p c = Before m))"
    and "runnable (stat k idle)" and "p idle = Outside"
    and "rt_current_thread k = Some t \<Longrightarrow> (\<And>m. p t \<noteq> Before m) \<Longrightarrow> stat k t = RT_THREAD_RUNNING"
  using assms by (auto simp: runs_ok_def)

lemma takes_okD:
  assumes "takes_ok p x"
  shows "pending_object x t = Some m \<Longrightarrow> waits p m t \<and> mutex_owner x m \<noteq> Some t"
    and "pending_object x t \<noteq> None \<Longrightarrow> errno (core x) t = (if is_suspended (stat (core x) t) then RT_EOK else - RT_ETIMEOUT)"
    and "waits p m t \<Longrightarrow> pending_object x t = Some m \<or> pending_object x t = None \<and> errno (core x) t = RT_EOK \<and> mutex_owner x m = Some t"
    and "thread_timer (core x) t \<noteq> None \<Longrightarrow> is_suspended (stat (core x) t) \<and> pending_object x t \<noteq> None"
proof -
  note t = assms [unfolded takes_ok_def]
  show "pending_object x t = Some m \<Longrightarrow> waits p m t \<and> mutex_owner x m \<noteq> Some t" using t by blast
  show "pending_object x t \<noteq> None \<Longrightarrow> errno (core x) t = (if is_suspended (stat (core x) t) then RT_EOK else - RT_ETIMEOUT)"
    using t by blast
  show "waits p m t \<Longrightarrow> pending_object x t = Some m \<or> pending_object x t = None \<and> errno (core x) t = RT_EOK \<and> mutex_owner x m = Some t"
    using t by blast
  show "thread_timer (core x) t \<noteq> None \<Longrightarrow> is_suspended (stat (core x) t) \<and> pending_object x t \<noteq> None" using t by blast
qed

lemma takes_okI:
  assumes "\<And>m t. pending_object x t = Some m \<Longrightarrow> waits p m t \<and> mutex_owner x m \<noteq> Some t"
    and "\<And>t. pending_object x t \<noteq> None \<Longrightarrow> errno (core x) t = (if is_suspended (stat (core x) t) then RT_EOK else - RT_ETIMEOUT)"
    and "\<And>m t. waits p m t \<Longrightarrow> pending_object x t = Some m \<or> pending_object x t = None \<and> errno (core x) t = RT_EOK \<and> mutex_owner x m = Some t"
    and "\<And>t. thread_timer (core x) t \<noteq> None \<Longrightarrow> is_suspended (stat (core x) t) \<and> pending_object x t \<noteq> None"
  shows "takes_ok p x"
  unfolding takes_ok_def using assms by blast

lemma not_pending: "takes_ok p x \<Longrightarrow> p t = Outside \<Longrightarrow> pending_object x t = None"
  using takes_okD(1) [of p x t] by (cases "pending_object x t") (auto simp: waits_def)

lemma waits_Outside: "p t = Outside \<Longrightarrow> \<not> waits p m t"
  by (simp add: waits_def)

lemma mutex_invI:
  assumes "mutex_ok idle (mpc r) (mx r) L M" and "counts_ok (mpc r) (mx r) (depth r)"
  shows "mutex_inv idle r"
  using assms unfolding mutex_inv_def by blast

lemma mutex_invE:
  assumes "mutex_inv idle r"
  obtains L M where "mutex_ok idle (mpc r) (mx r) L M" "counts_ok (mpc r) (mx r) (depth r)"
  using assms unfolding mutex_inv_def by blast

text \<open>Changes of priorities.\<close>

lemma mutex_ok_fixed:
  assumes ok: "mutex_ok idle p x L M" and f: "fixed y = fixed x" and "mutex_shape y L' M'" and "bounds_ok {} {} y L'"
  shows "mutex_ok idle p y L' M'"
proof -
  have "takes_ok p y = takes_ok p x" "runs_ok idle p (core y) = runs_ok idle p (core x)"
    unfolding takes_ok_def runs_ok_def fixedD [OF f] by (rule refl)+
  with assms show ?thesis by (simp add: mutex_ok_def)
qed

lemma counts_ok_fixed:
  assumes "fixed y = fixed x"
  shows "counts_ok p y d = counts_ok p x d"
  unfolding counts_ok_def fixedD [OF assms] by (rule refl)

text \<open>Calls of the scheduler.\<close>

lemma counts_ok_core [simp]: "counts_ok p (x\<lparr>core := k\<rparr>) d = counts_ok p x d"
  by (simp add: counts_ok_def)

lemma takes_ok_after: "p c = Before m \<Longrightarrow> takes_ok (p(c := After m)) x = takes_ok p x"
  and counts_ok_after: "p c = Before m \<Longrightarrow> counts_ok (p(c := After m)) x d = counts_ok p x d"
proof -
  assume "p c = Before m"
  then have "waits (p(c := After m)) = waits p" by (auto simp: waits_def fun_eq_iff)
  then show "takes_ok (p(c := After m)) x = takes_ok p x" and "counts_ok (p(c := After m)) x d = counts_ok p x d"
    by (simp_all add: takes_ok_def counts_ok_def)
qed

lemma mutex_ok_schedule:
  assumes ok: "mutex_ok idle p x L M"
  obtains L' where "mutex_ok idle p (x\<lparr>core := rt_schedule (core x)\<rparr>) L' M"
    "\<And>c m. p c = Before m \<Longrightarrow> mutex_ok idle (p(c := After m)) (x\<lparr>core := rt_schedule (core x)\<rparr>) L' M"
proof -
  note d = mutex_okD [OF ok] and run = runs_okD [OF mutex_okD(3) [OF ok]]
  note k = mutex_shapeD(1) [OF d(1)]
  obtain c where c: "rt_current_thread (core x) = Some c" using run(3) by blast
  have some: "stat (core x) c = RT_THREAD_RUNNING \<or> (\<exists>t. stat (core x) t = RT_THREAD_READY)"
    using run(4) sched_okD(2) [OF k, of idle] c by (auto simp: runnable_def)
  from schedule_runs [OF k c run(1) this] obtain r where
    r: "rt_current_thread (rt_schedule (core x)) = Some r" "stat (rt_schedule (core x)) r = RT_THREAD_RUNNING" by blast
  obtain L' where L': "sched_ok (rt_schedule (core x)) L'" "\<And>s. L' (Suspend_list s) = L (Suspend_list s)"
    "L' Defunct_list = L Defunct_list" "\<And>t. is_suspended (stat (rt_schedule (core x)) t) = is_suspended (stat (core x) t)"
    "\<And>t. runnable (stat (rt_schedule (core x)) t) = runnable (stat (core x) t)" by (rule schedule_ok [OF k c]) blast
  let ?y = "x\<lparr>core := rt_schedule (core x)\<rparr>"
  have "mutex_shape ?y L' M" by (rule shape_core [OF d(1) L'(1,2,4)]) (simp add: kernel_frame)
  moreover have "bounds_ok {} {} ?y L'" by (rule bounds_core [OF d(2) L'(2)]) (simp add: kernel_frame)
  moreover have "takes_ok p ?y = takes_ok p x" by (simp add: takes_ok_def L'(4) kernel_frame)
  moreover have "runs_ok idle p (rt_schedule (core x))" using d(3) r unfolding runs_ok_def by (simp add: L'(5) kernel_frame)
  moreover from this have "runs_ok idle (p(c := After m)) (rt_schedule (core x))" if "p c = Before m" for c m
    using r that unfolding runs_ok_def by auto
  ultimately show ?thesis using d(4) by (intro that) (auto simp: mutex_ok_def takes_ok_after)
qed

section \<open>Every step keeps it\<close>

lemma set_error_ok:
  assumes ok: "mutex_ok idle p x L M" and t: "p t = Outside"
  shows "mutex_ok idle p (set_error t e x) L M"
proof -
  note d = mutex_okD [OF ok]
  have "mutex_shape (set_error t e x) L M" "bounds_ok {} {} (set_error t e x) L"
    unfolding set_error_def using shape_core [OF d(1)] bounds_core [OF d(2)] mutex_shapeD(1) [OF d(1)] by simp_all
  moreover have "pending_object x t = None" using not_pending [OF d(4) t] .
  then have "takes_ok p (set_error t e x)"
    using takes_okD [OF d(4)] t unfolding takes_ok_def by (simp add: set_error_def waits_def)
  moreover have "runs_ok idle p (core (set_error t e x)) = runs_ok idle p (core x)" by (simp add: runs_ok_def set_error_def)
  ultimately show ?thesis using d(3) by (simp add: mutex_ok_def)
qed

lemma set_error_fields [simp]:
  "mutex_owner (set_error t e x) = mutex_owner x" "mutex_hold (set_error t e x) = mutex_hold x"
  "stat (core (set_error t e x)) = stat (core x)" "rt_current_thread (core (set_error t e x)) = rt_current_thread (core x)"
  "object_flag (core (set_error t e x)) = object_flag (core x)" "counts_ok p (set_error t e x) d = counts_ok p x d"
  by (simp_all add: set_error_def)

lemma counts_okD:
  assumes "counts_ok p x d"
  shows "mutex_owner x m = Some t \<Longrightarrow> mutex_hold x m \<noteq> 0 \<and> unat (mutex_hold x m) = d t m + (if waits p m t then 1 else 0)"
    and "mutex_owner x m \<noteq> Some t \<Longrightarrow> d t m = 0" and "waits p m t \<Longrightarrow> d t m = 0"
  using assms unfolding counts_ok_def by blast+

lemma unat_hold:
  assumes "(h :: u8) < RT_MUTEX_HOLD_MAX"
  shows "unat (h + 1) = unat h + 1" and "h + 1 \<noteq> 0"
proof -
  have "unat h < 0xFF" using assms by (simp add: RT_MUTEX_HOLD_MAX_def word_less_nat_alt)
  then show e: "unat (h + 1) = unat h + 1" by (simp add: unat_word_ariths)
  show "h + 1 \<noteq> 0" using e by (metis add_is_0 one_neq_zero unat_0)
qed

text \<open>A take that does not wait.\<close>

lemma take_owner:
  assumes ok: "mutex_ok idle p x L M" and cnt: "counts_ok p x d" and t: "rt_current_thread (core x) = Some t" "p t = Outside"
    and free: "mutex_owner x m = None" and own: "own_mutex m t sflag x = Some y"
  shows "\<exists>L' M'. mutex_ok idle p y L' M' \<and> counts_ok p y (count_take RT_EOK t m d)"
proof -
  note d = mutex_okD [OF ok]
  have run: "stat (core x) t = RT_THREAD_RUNNING" by (rule runs_okD(6) [OF d(3) t(1)]) (simp add: t(2))
  obtain q where q: "own_mutex m t sflag x = Some (x\<lparr>core := (core x)\<lparr>current_priority := (current_priority (core x))(t := q)\<rparr>,
      mutex_owner := (mutex_owner x)(m := Some t), mutex_priority := (mutex_priority x)(m := 0xff),
      mutex_hold := (mutex_hold x)(m := 1), taken := rt_list_insert_after (Head t) (Node m) (taken x)\<rparr>)"
    "mutex_shape (x\<lparr>core := (core x)\<lparr>current_priority := (current_priority (core x))(t := q)\<rparr>,
      mutex_owner := (mutex_owner x)(m := Some t), mutex_priority := (mutex_priority x)(m := 0xff),
      mutex_hold := (mutex_hold x)(m := 1), taken := rt_list_insert_after (Head t) (Node m) (taken x)\<rparr>) L (M(t := m # M t))"
    "bounds_ok {} {} (x\<lparr>core := (core x)\<lparr>current_priority := (current_priority (core x))(t := q)\<rparr>,
      mutex_owner := (mutex_owner x)(m := Some t), mutex_priority := (mutex_priority x)(m := 0xff),
      mutex_hold := (mutex_hold x)(m := 1), taken := rt_list_insert_after (Head t) (Node m) (taken x)\<rparr>) L"
    by (rule own_mutex_ok [OF d(1,2) run free])
  have y: "y = x\<lparr>core := (core x)\<lparr>current_priority := (current_priority (core x))(t := q)\<rparr>,
      mutex_owner := (mutex_owner x)(m := Some t), mutex_priority := (mutex_priority x)(m := 0xff),
      mutex_hold := (mutex_hold x)(m := 1), taken := rt_list_insert_after (Head t) (Node m) (taken x)\<rparr>" using q(1) own by simp
  have out: "pending_object x t = None" by (rule not_pending [OF d(4) t(2)])
  have no: "\<not> waits p n t" for n using t(2) by (simp add: waits_def)
  have takes: "takes_ok p y"
  proof (rule takes_okI)
    fix n u
    show "waits p n u \<and> mutex_owner y n \<noteq> Some u" if "pending_object y u = Some n"
      using that takes_okD(1) [OF d(4), of u n] out by (auto simp: y)
    show "errno (core y) u = (if is_suspended (stat (core y) u) then RT_EOK else - RT_ETIMEOUT)" if "pending_object y u \<noteq> None"
      using that takes_okD(2) [OF d(4), of u] by (simp add: y)
    show "pending_object y u = Some n \<or> pending_object y u = None \<and> errno (core y) u = RT_EOK \<and> mutex_owner y n = Some u"
      if "waits p n u" using takes_okD(3) [OF d(4) that] free by (auto simp: y)
    show "is_suspended (stat (core y) u) \<and> pending_object y u \<noteq> None" if "thread_timer (core y) u \<noteq> None"
      using that takes_okD(4) [OF d(4), of u] by (simp add: y)
  qed
  have "runs_ok idle p (core y) = runs_ok idle p (core x)" by (simp add: runs_ok_def y)
  moreover have "counts_ok p y (count_take RT_EOK t m d)"
    using counts_okD [OF cnt] no free unfolding counts_ok_def by (auto simp: y count_take_def)
  ultimately show ?thesis using q(2,3) [folded y] d(3) takes unfolding mutex_ok_def by blast
qed

lemma take_returns_ok:
  assumes ok: "mutex_ok idle p x L M" and cnt: "counts_ok p x d" and t: "rt_current_thread (core x) = Some t" "p t = Outside"
    and flag: "object_flag (core x) m = RT_IPC_FLAG_PRIO" and take: "mutex_take m timeout sflag t x = Some (Take_returns e, y)"
  shows "\<exists>L' M'. mutex_ok idle p y L' M' \<and> counts_ok p y (count_take e t m d)"
proof -
  let ?x = "set_error t RT_EOK x"
  have ok': "mutex_ok idle p ?x L M" by (rule set_error_ok [OF ok t(2)])
  have cnt': "counts_ok p ?x d" using cnt by simp
  note d = mutex_okD [OF ok']
  have t': "rt_current_thread (core ?x) = Some t" using t(1) by simp
  have run: "stat (core ?x) t = RT_THREAD_RUNNING" by (rule runs_okD(6) [OF d(3) t']) (simp add: t(2))
  have no: "\<not> waits p n t" for n using t(2) by (simp add: waits_def)
  show ?thesis
  proof (cases "mutex_owner ?x m")
    case None
    then have "own_mutex m t sflag ?x = Some y" "e = RT_EOK" using take by (auto simp: mutex_take_def Let_def)
    then show ?thesis using take_owner [OF ok' cnt' t' t(2) None] by simp
  next
    case (Some u)
    consider (again) "u = t" "mutex_hold x m < RT_MUTEX_HOLD_MAX" | (full) "u = t" "\<not> mutex_hold x m < RT_MUTEX_HOLD_MAX"
      | (busy) "u \<noteq> t" "timeout = 0" | (waits) "u \<noteq> t" "timeout \<noteq> 0" by blast
    then show ?thesis
    proof cases
      case again
      then have y: "y = ?x\<lparr>mutex_hold := (mutex_hold x)(m := mutex_hold x m + 1)\<rparr>" and e: "e = RT_EOK"
        using take Some by (simp_all add: mutex_take_def)
      have "mutex_ok idle p y L M" using ok' unfolding y mutex_ok_def mutex_shape_def bounds_ok_def takes_ok_def by (simp add: prio_def)
      moreover have "counts_ok p y (count_take e t m d)"
        using counts_okD [OF cnt] no unat_hold [OF again(2)] Some again(1) unfolding counts_ok_def
        by (auto simp: y e count_take_def)
      ultimately show ?thesis by blast
    next
      case full
      then have "y = ?x" "e = - RT_EFULL" using take Some by (simp_all add: mutex_take_def)
      with ok' cnt show ?thesis by (auto simp: count_take_def)
    next
      case busy
      then have "y = set_error t (- RT_ETIMEOUT) ?x" "e = - RT_ETIMEOUT" using take Some by (simp_all add: mutex_take_def)
      with set_error_ok [OF ok' t(2)] cnt show ?thesis by (auto simp: count_take_def)
    next
      case waits
      have flag': "object_flag (core ?x) m = RT_IPC_FLAG_PRIO" using flag by simp
      obtain z where "wait_mutex m u timeout sflag t ?x = map_option (\<lambda>y. (Take_schedules,
         if timeout > 0 then y\<lparr>core := (core y)\<lparr>thread_timer := (thread_timer (core y))(t := Some timeout)\<rparr>\<rparr> else y)) (pass_on m u (prio ?x t) z)"
        by (rule wait_mutex_ok [OF d(1,2) t' run not_pending [OF d(4) t(2)] Some flag'])
      with take waits Some show ?thesis by (auto simp: mutex_take_def)
    qed
  qed
qed

text \<open>A take that waits.\<close>

lemma shape_timer: "mutex_shape (x\<lparr>core := (core x)\<lparr>thread_timer := f\<rparr>\<rparr>) L M = mutex_shape x L M"
  and bounds_timer: "bounds_ok W U (x\<lparr>core := (core x)\<lparr>thread_timer := f\<rparr>\<rparr>) L = bounds_ok W U x L"
  by (simp_all add: mutex_shape_def bounds_ok_def prio_def)

lemma take_waits_ok:
  assumes ok: "mutex_ok idle p x L M" and cnt: "counts_ok p x d" and t: "rt_current_thread (core x) = Some t" "p t = Outside" "t \<noteq> idle"
    and flag: "object_flag (core x) m = RT_IPC_FLAG_PRIO" and take: "mutex_take m timeout sflag t x = Some (Take_schedules, y)"
  shows "\<exists>L'. mutex_ok idle (p(t := Before m)) y L' M \<and> counts_ok (p(t := Before m)) y d"
proof -
  let ?x = "set_error t RT_EOK x" and ?p = "p(t := Before m)"
  note d = mutex_okD [OF set_error_ok [OF ok t(2), of RT_EOK]]
  have t': "rt_current_thread (core ?x) = Some t" and flag': "object_flag (core ?x) m = RT_IPC_FLAG_PRIO" using t(1) flag by simp_all
  have run: "stat (core ?x) t = RT_THREAD_RUNNING" by (rule runs_okD(6) [OF d(3) t']) (simp add: t(2))
  obtain u where u: "mutex_owner ?x m = Some u" "u \<noteq> t" and w: "wait_mutex m u timeout sflag t ?x = Some (Take_schedules, y)"
    using take by (auto simp: mutex_take_def Let_def split: option.splits if_splits)
  obtain z where z: "wait_mutex m u timeout sflag t ?x = map_option (\<lambda>y. (Take_schedules,
       if timeout > 0 then y\<lparr>core := (core y)\<lparr>thread_timer := (thread_timer (core y))(t := Some timeout)\<rparr>\<rparr> else y)) (pass_on m u (prio ?x t) z)"
    "fixed z = fixed (?x\<lparr>core := (core ?x)\<lparr>stat := (stat (core ?x))(t := suspend_stat sflag), thread_timer := (thread_timer (core ?x))(t := None)\<rparr>,
       pending_object := (pending_object ?x)(t := Some m)\<rparr>)"
    "\<And>y'. pass_on m u (prio ?x t) z = Some y' \<Longrightarrow> \<exists>L'. mutex_shape y' L' M \<and> bounds_ok {} {} y' L' \<and> fixed y' = fixed z"
    by (rule wait_mutex_ok [OF d(1,2) t' run not_pending [OF d(4) t(2)] u(1) flag', of timeout sflag]) blast
  from w z(1) obtain y' where y': "pass_on m u (prio ?x t) z = Some y'"
    "y = (if timeout > 0 then y'\<lparr>core := (core y')\<lparr>thread_timer := (thread_timer (core y'))(t := Some timeout)\<rparr>\<rparr> else y')"
    by auto
  obtain L' where L': "mutex_shape y' L' M" "bounds_ok {} {} y' L'" "fixed y' = fixed z" using z(3) [OF y'(1)] by blast
  note f = fixedD [OF trans [OF L'(3) z(2)]]
  have fields: "stat (core y) = (stat (core x))(t := suspend_stat sflag)" "errno (core y) = (errno (core x))(t := RT_EOK)"
    "pending_object y = (pending_object x)(t := Some m)" "mutex_owner y = mutex_owner x" "mutex_hold y = mutex_hold x"
    "rt_current_thread (core y) = Some t" "rt_scheduler_lock_nest (core y) = rt_scheduler_lock_nest (core x)"
    "kernel_assert (core y) = kernel_assert (core x)"
    "\<And>v. v \<noteq> t \<Longrightarrow> thread_timer (core y) v = thread_timer (core x) v"
    using f t(1) by (simp_all add: y'(2) set_error_def split: if_splits)
  have shape: "mutex_shape y L' M" "bounds_ok {} {} y L'" using L'(1,2) by (simp_all add: y'(2) shape_timer bounds_timer)
  note d0 = mutex_okD [OF ok]
  have w: "waits ?p n v \<longleftrightarrow> (if v = t then n = m else waits p n v)" for n v by (auto simp: waits_def)
  have own: "mutex_owner x m \<noteq> Some t" using u by simp
  have takes: "takes_ok ?p y"
  proof (rule takes_okI)
    fix n v
    show "waits ?p n v \<and> mutex_owner y n \<noteq> Some v" if "pending_object y v = Some n"
      using that takes_okD(1) [OF d0(4), of v n] own by (auto simp: fields w split: if_splits)
    show "errno (core y) v = (if is_suspended (stat (core y) v) then RT_EOK else - RT_ETIMEOUT)" if "pending_object y v \<noteq> None"
      using that takes_okD(2) [OF d0(4), of v] by (auto simp: fields split: if_splits)
    show "pending_object y v = Some n \<or> pending_object y v = None \<and> errno (core y) v = RT_EOK \<and> mutex_owner y n = Some v"
      if "waits ?p n v" using that takes_okD(3) [OF d0(4), of n v] by (auto simp: fields w split: if_splits)
    show "is_suspended (stat (core y) v) \<and> pending_object y v \<noteq> None" if "thread_timer (core y) v \<noteq> None"
      using that takes_okD(4) [OF d0(4), of v] by (cases "v = t") (simp_all add: fields)
  qed
  have "runs_ok idle ?p (core y)"
    using runs_okD(1,2,4,5) [OF d0(3)] t(3) unfolding runs_ok_def by (simp add: fields)
  moreover have "counts_ok ?p y d"
    using counts_okD [OF cnt] own t(2) unfolding counts_ok_def by (auto simp: fields w waits_def)
  ultimately show ?thesis using shape takes by (auto simp: mutex_ok_def)
qed

text \<open>A take that returns after it waited.\<close>

lemma waiter_gone:
  assumes ok: "mutex_ok idle p x L M" and cnt: "counts_ok p x d" and t: "p t = After m" "stat (core x) t = RT_THREAD_RUNNING"
    and y: "y = x\<lparr>pending_object := (pending_object x)(t := None)\<rparr>"
  shows "mutex_ok idle (p(t := Outside)) y L M"
    and "(e = RT_EOK \<longleftrightarrow> mutex_owner x m = Some t) \<Longrightarrow> counts_ok (p(t := Outside)) y (count_take e t m d)"
proof -
  note d = mutex_okD [OF ok]
  have w: "waits (p(t := Outside)) n v \<longleftrightarrow> v \<noteq> t \<and> waits p n v" for n v by (auto simp: waits_def)
  have takes: "takes_ok (p(t := Outside)) y"
  proof (rule takes_okI)
    fix n v
    show "waits (p(t := Outside)) n v \<and> mutex_owner y n \<noteq> Some v" if "pending_object y v = Some n"
      using that takes_okD(1) [OF d(4), of v n] by (auto simp: y w split: if_splits)
    show "errno (core y) v = (if is_suspended (stat (core y) v) then RT_EOK else - RT_ETIMEOUT)" if "pending_object y v \<noteq> None"
      using that takes_okD(2) [OF d(4), of v] by (auto simp: y split: if_splits)
    show "pending_object y v = Some n \<or> pending_object y v = None \<and> errno (core y) v = RT_EOK \<and> mutex_owner y n = Some v"
      if "waits (p(t := Outside)) n v" using that takes_okD(3) [OF d(4), of n v] by (auto simp: y w split: if_splits)
    show "is_suspended (stat (core y) v) \<and> pending_object y v \<noteq> None" if "thread_timer (core y) v \<noteq> None"
      using that takes_okD(4) [OF d(4), of v] t(2) by (cases "v = t") (auto simp: y)
  qed
  have shape: "mutex_shape y L M" using d(1) t(2) unfolding mutex_shape_def by (auto simp: y)
  have bounds: "bounds_ok {} {} y L" using d(2) unfolding bounds_ok_def by (simp add: y prio_def)
  have "idle \<noteq> t" using runs_okD(5) [OF d(3)] t(1) by auto
  moreover obtain c where "rt_current_thread (core x) = Some c" "stat (core x) c = RT_THREAD_RUNNING \<or> (\<exists>m. p c = Before m)"
    using runs_okD(3) [OF d(3)] by blast
  then have "\<exists>c. rt_current_thread (core y) = Some c \<and> (stat (core y) c = RT_THREAD_RUNNING \<or> (\<exists>m. (p(t := Outside)) c = Before m))"
    using t(2) by (intro exI [of _ c]) (auto simp: y)
  ultimately have "runs_ok idle (p(t := Outside)) (core y)"
    using runs_okD(1,2,4,5) [OF d(3)] unfolding runs_ok_def by (simp add: y)
  then show "mutex_ok idle (p(t := Outside)) y L M" using takes shape bounds by (simp add: mutex_ok_def)
  have wt: "waits p n t \<longleftrightarrow> n = m" for n using t(1) by (auto simp: waits_def)
  show "counts_ok (p(t := Outside)) y (count_take e t m d)" if e: "e = RT_EOK \<longleftrightarrow> mutex_owner x m = Some t"
    unfolding counts_ok_def
  proof (intro conjI allI impI)
    fix n v
    show "mutex_hold y n \<noteq> 0" if "mutex_owner y n = Some v" using counts_okD(1) [OF cnt, of n v] that by (simp add: y)
    show "unat (mutex_hold y n) = count_take e t m d v n + (if waits (p(t := Outside)) n v then 1 else 0)" if "mutex_owner y n = Some v"
      using counts_okD(1) [OF cnt, of n v] that e wt by (cases "v = t") (auto simp: y w count_take_def)
    show "count_take e t m d v n = 0" if "mutex_owner y n \<noteq> Some v \<or> waits (p(t := Outside)) n v"
      using counts_okD(2,3) [OF cnt, of n v] that e by (auto simp: y w count_take_def)
  qed
qed

lemma take_resumes_ok:
  assumes ok: "mutex_ok idle p x L M" and cnt: "counts_ok p x d" and t: "rt_current_thread (core x) = Some t" "p t = After m"
    and resumed: "mutex_take_resumed m t x = Some (e, y)"
  shows "\<exists>L' M'. mutex_ok idle (p(t := Outside)) y L' M' \<and> counts_ok (p(t := Outside)) y (count_take e t m d)"
    and "e = (if mutex_owner x m = Some t then RT_EOK else - RT_ETIMEOUT)" and "mutex_owner y = mutex_owner x"
proof -
  note d = mutex_okD [OF ok]
  have run: "stat (core x) t = RT_THREAD_RUNNING" by (rule runs_okD(6) [OF d(3) t(1)]) (simp add: t(2))
  have "waits p m t" using t(2) by (simp add: waits_def)
  from takes_okD(3) [OF d(4) this] takes_okD(1,2) [OF d(4), of t] run
  consider (got) "pending_object x t = None" "errno (core x) t = RT_EOK" "mutex_owner x m = Some t"
    | (out) "pending_object x t = Some m" "errno (core x) t = - RT_ETIMEOUT" "mutex_owner x m \<noteq> Some t" by auto
  then have "(\<exists>L' M'. mutex_ok idle (p(t := Outside)) y L' M' \<and> counts_ok (p(t := Outside)) y (count_take e t m d)) \<and>
      e = (if mutex_owner x m = Some t then RT_EOK else - RT_ETIMEOUT) \<and> mutex_owner y = mutex_owner x"
  proof cases
    case got
    then have e: "e = RT_EOK" and y: "y = x\<lparr>pending_object := (pending_object x)(t := None)\<rparr>"
      using resumed by (simp_all add: mutex_take_resumed_def fun_upd_idem)
    from waiter_gone(1) [OF ok cnt t(2) run y] waiter_gone(2) [OF ok cnt t(2) run y, of e] e got(3) show ?thesis by (auto simp: y)
  next
    case out
    then obtain z where z: "waiter_left m t x = Some z"
      and ey: "(e, y) = (let ret = errno (core z) t in (if ret > 0 then - ret else ret, z\<lparr>pending_object := (pending_object z)(t := None)\<rparr>))"
      using resumed by (auto simp: mutex_take_resumed_def)
    from waiter_left_ok(1) [OF d(1,2) z] obtain L' where
      L': "mutex_shape z L' M" "bounds_ok {} {} z L'" "fixed z = fixed x" by blast
    note f = fixedD [OF L'(3)]
    have e: "e = - RT_ETIMEOUT" and y: "y = z\<lparr>pending_object := (pending_object z)(t := None)\<rparr>"
      using ey out(2) f(2) by (simp_all add: Let_def)
    have zok: "mutex_ok idle p z L' M" by (rule mutex_ok_fixed [OF ok L'(3,1,2)])
    have zcnt: "counts_ok p z d" using cnt counts_ok_fixed [OF L'(3)] by simp
    have run': "stat (core z) t = RT_THREAD_RUNNING" using run f(1) by simp
    from waiter_gone(1) [OF zok zcnt t(2) run' y] waiter_gone(2) [OF zok zcnt t(2) run' y, of e] e out(3) f(8) show ?thesis by (auto simp: y)
  qed
  then show "\<exists>L' M'. mutex_ok idle (p(t := Outside)) y L' M' \<and> counts_ok (p(t := Outside)) y (count_take e t m d)"
    and "e = (if mutex_owner x m = Some t then RT_EOK else - RT_ETIMEOUT)" and "mutex_owner y = mutex_owner x" by blast+
qed

text \<open>The last release.\<close>

lemma counts_released:
  assumes cnt: "counts_ok p x d" and own: "mutex_owner x m = Some t" and one: "d t m = 1"
    and y: "mutex_owner y = (mutex_owner x)(m := v)" "\<And>n. n \<noteq> m \<Longrightarrow> mutex_hold y n = mutex_hold x n"
    and v: "\<And>u. v = Some u \<Longrightarrow> u \<noteq> t \<and> waits p m u \<and> mutex_hold y m = 1"
  shows "counts_ok p y (count_release RT_EOK t m d)"
  unfolding counts_ok_def
proof (intro conjI allI impI)
  fix n u
  show "mutex_hold y n \<noteq> 0" if "mutex_owner y n = Some u"
    using counts_okD(1) [OF cnt, of n u] that y(2) [of n] v by (cases "n = m") (auto simp: y(1))
  have "d u m = 0" if "u \<noteq> t" for u using counts_okD(2) [OF cnt, of m u] own that by simp
  then show "unat (mutex_hold y n) = count_release RT_EOK t m d u n + (if waits p n u then 1 else 0)" if "mutex_owner y n = Some u"
    using counts_okD(1) [OF cnt, of n u] that y(2) [of n] v by (cases "n = m") (auto simp: y(1) count_release_def)
  show "count_release RT_EOK t m d u n = 0" if "mutex_owner y n \<noteq> Some u \<or> waits p n u"
    using counts_okD(2,3) [OF cnt, of n u] that one own by (auto simp: y(1) count_release_def split: if_splits)
qed

lemma last_release_ok:
  assumes ok: "mutex_ok idle p x L M" and cnt: "counts_ok p x d" and t: "rt_current_thread (core x) = Some t" "p t = Outside"
    and own: "mutex_owner x m = Some t" and one: "mutex_hold x m = 1"
  shows "\<exists>need y. mutex_release m t x = Some (RT_EOK, need, y) \<and>
    (\<exists>L' M'. mutex_ok idle p y L' M' \<and> counts_ok p y (count_release RT_EOK t m d)) \<and>
    mutex_owner y m = (case L (Suspend_list m) of [] \<Rightarrow> None | v # _ \<Rightarrow> Some v) \<and>
    (\<forall>v vs. L (Suspend_list m) = v # vs \<longrightarrow> need \<and> runnable (stat (core y) v) \<and> errno (core y) v = RT_EOK \<and>
      thread_timer (core y) v = None \<and> prio y v = prio x v \<and> ceiling_priority y = ceiling_priority x \<and>
      (\<forall>u\<in>set vs. prio y v \<le> prio y u))"
proof -
  note d = mutex_okD [OF ok]
  have run: "stat (core x) t = RT_THREAD_RUNNING" by (rule runs_okD(6) [OF d(3) t(1)]) (simp add: t(2))
  have no: "\<not> waits p n t" for n using t(2) by (simp add: waits_def)
  have pend: "pending_object x t = None" by (rule not_pending [OF d(4) t(2)])
  have dt: "d t m = 1" using counts_okD(1) [OF cnt own] no one by simp
  let ?h = "(mutex_hold x)(m := mutex_hold x m - 1)"
  obtain need q where q: "restore_priority m t (x\<lparr>mutex_hold := ?h, taken := rt_list_remove (Node m) (taken x)\<rparr>) =
      Some (need, x\<lparr>mutex_hold := ?h, taken := rt_list_remove (Node m) (taken x),
        core := (core x)\<lparr>current_priority := (current_priority (core x))(t := q)\<rparr>\<rparr>)"
    "q < RT_THREAD_PRIORITY_MAX" "\<And>n. n \<noteq> m \<Longrightarrow> mutex_owner x n = Some t \<Longrightarrow> q \<le> mutex_priority x n" "need \<or> q = prio x t"
    by (rule restore_priority_ok [OF d(1,2) run own]) blast
  define z where "z = x\<lparr>mutex_hold := ?h, taken := rt_list_remove (Node m) (taken x),
      core := (core x)\<lparr>current_priority := (current_priority (core x))(t := q)\<rparr>\<rparr>"
  have "sched_ok (core z) L"
    using running_priority(1) [OF mutex_shapeD(1) [OF d(1)] run q(2)] by (simp add: z_def)
  note w = update_priority_ok(1) [OF this, of m]
  have rel: "mutex_release m t x = Some (if L (Suspend_list m) \<noteq> [] then (RT_EOK, True, hand_over m z)
      else (RT_EOK, need, z\<lparr>mutex_owner := (mutex_owner z)(m := None), mutex_priority := (mutex_priority z)(m := 0xff)\<rparr>))"
    using own one q(1) w by (simp add: mutex_release_def z_def)
  show ?thesis
  proof (cases "L (Suspend_list m)")
    case Nil
    define y where "y = z\<lparr>mutex_owner := (mutex_owner z)(m := None), mutex_priority := (mutex_priority z)(m := 0xff)\<rparr>"
    have y: "y = x\<lparr>mutex_hold := ?h, taken := rt_list_remove (Node m) (taken x),
        core := (core x)\<lparr>current_priority := (current_priority (core x))(t := q)\<rparr>,
        mutex_owner := (mutex_owner x)(m := None), mutex_priority := (mutex_priority x)(m := 0xff)\<rparr>" by (simp add: y_def z_def)
    note shape = clear_owner_ok [OF d(1,2) run own Nil q(2,3) y]
    have "takes_ok p y"
    proof (rule takes_okI)
      fix n v
      show "waits p n v \<and> mutex_owner y n \<noteq> Some v" if "pending_object y v = Some n"
        using that takes_okD(1) [OF d(4), of v n] by (auto simp: y)
      show "errno (core y) v = (if is_suspended (stat (core y) v) then RT_EOK else - RT_ETIMEOUT)" if "pending_object y v \<noteq> None"
        using that takes_okD(2) [OF d(4), of v] by (simp add: y)
      show "pending_object y v = Some n \<or> pending_object y v = None \<and> errno (core y) v = RT_EOK \<and> mutex_owner y n = Some v"
        if "waits p n v" using takes_okD(3) [OF d(4) that] own that no by (auto simp: y)
      show "is_suspended (stat (core y) v) \<and> pending_object y v \<noteq> None" if "thread_timer (core y) v \<noteq> None"
        using that takes_okD(4) [OF d(4), of v] by (simp add: y)
    qed
    moreover have "runs_ok idle p (core y)" using d(3) by (simp add: y runs_ok_def)
    moreover have "counts_ok p y (count_release RT_EOK t m d)"
      by (rule counts_released [OF cnt own dt, of _ None]) (simp_all add: y)
    ultimately show ?thesis
      using shape rel Nil by (intro exI [of _ need] exI [of _ y]) (auto simp: mutex_ok_def y_def [symmetric], simp add: y)
  next
    case (Cons v vs)
    obtain L' M' where y: "mutex_shape (hand_over m z) L' M'" "bounds_ok {} {} (hand_over m z) L'"
      "stat (core (hand_over m z)) = (stat (core x))(v := RT_THREAD_READY)" "errno (core (hand_over m z)) = errno (core x)"
      "thread_timer (core (hand_over m z)) = (thread_timer (core x))(v := None)"
      "rt_current_thread (core (hand_over m z)) = rt_current_thread (core x)"
      "rt_scheduler_lock_nest (core (hand_over m z)) = rt_scheduler_lock_nest (core x)"
      "kernel_assert (core (hand_over m z)) = kernel_assert (core x)"
      "mutex_owner (hand_over m z) = (mutex_owner x)(m := Some v)" "mutex_hold (hand_over m z) = ?h(m := 1)"
      "pending_object (hand_over m z) = (pending_object x)(v := None)"
      "\<And>u. u \<in> set vs \<Longrightarrow> prio (hand_over m z) v \<le> prio (hand_over m z) u"
      "prio (hand_over m z) v = prio x v" "ceiling_priority (hand_over m z) = ceiling_priority x"
      by (rule hand_over_ok [OF d(1,2) run own Cons q(2,3) z_def]) blast+
    define y where "y = hand_over m z"
    note y = y [folded y_def]
    have v: "is_suspended (stat (core x) v)" "pending_object x v = Some m" using mutex_shapeD(4) [OF d(1), of v m] Cons by auto
    have vt: "v \<noteq> t" using pend v(2) by auto
    have wv: "waits p m v" using takes_okD(1) [OF d(4) v(2)] by simp
    have ev: "errno (core x) v = RT_EOK" using takes_okD(2) [OF d(4), of v] v by simp
    have "takes_ok p y"
    proof (rule takes_okI)
      fix n u
      show "waits p n u \<and> mutex_owner y n \<noteq> Some u" if "pending_object y u = Some n"
        using that takes_okD(1) [OF d(4), of u n] by (auto simp: y split: if_splits)
      show "errno (core y) u = (if is_suspended (stat (core y) u) then RT_EOK else - RT_ETIMEOUT)" if "pending_object y u \<noteq> None"
        using that takes_okD(2) [OF d(4), of u] by (auto simp: y split: if_splits)
      show "pending_object y u = Some n \<or> pending_object y u = None \<and> errno (core y) u = RT_EOK \<and> mutex_owner y n = Some u"
        if "waits p n u"
      proof (cases "u = v")
        case True
        then have "n = m" using that wv by (auto simp: waits_def)
        with True ev show ?thesis by (simp add: y)
      next
        case False
        with takes_okD(3) [OF d(4) that] own that no show ?thesis by (auto simp: y)
      qed
      show "is_suspended (stat (core y) u) \<and> pending_object y u \<noteq> None" if "thread_timer (core y) u \<noteq> None"
        using that takes_okD(4) [OF d(4), of u] by (cases "u = v") (simp_all add: y)
    qed
    moreover have "runs_ok idle p (core y)"
    proof -
      have "runnable (stat (core y) idle)" using runs_okD(4) [OF d(3)] by (simp add: y runnable_def)
      then show ?thesis using runs_okD(1,2,5) [OF d(3)] t(1) run vt by (simp add: runs_ok_def y)
    qed
    moreover have "counts_ok p y (count_release RT_EOK t m d)"
      by (rule counts_released [OF cnt own dt, of _ "Some v"]) (use vt wv in \<open>simp_all add: y\<close>)
    ultimately show ?thesis
      using y(1,2,12-14) rel Cons ev by (intro exI [of _ True] exI [of _ y]) (auto simp: mutex_ok_def y_def [symmetric] y(3-11) runnable_def)
  qed
qed

text \<open>Any release.\<close>

lemma releases_ok:
  assumes ok: "mutex_ok idle p x L M" and cnt: "counts_ok p x d" and t: "rt_current_thread (core x) = Some t" "p t = Outside"
  shows "\<exists>e need y. mutex_release m t x = Some (e, need, y) \<and> (e = RT_EOK \<longleftrightarrow> mutex_owner x m = Some t) \<and>
    (\<exists>L' M'. mutex_ok idle p y L' M' \<and> counts_ok p y (count_release e t m d))"
proof (cases "mutex_owner x m = Some t")
  case False
  then have "mutex_release m t x = Some (- RT_ERROR, False, set_error t (- RT_ERROR) x)" by (simp add: mutex_release_def)
  with set_error_ok [OF ok t(2), of "- RT_ERROR"] cnt False show ?thesis by (auto simp: count_release_def)
next
  case own: True
  have no: "\<not> waits p n t" for n using t(2) by (simp add: waits_def)
  show ?thesis
  proof (cases "mutex_hold x m = 1")
    case True
    from last_release_ok [OF ok cnt t own True] own show ?thesis by blast
  next
    case False
    have h: "mutex_hold x m \<noteq> 0" "unat (mutex_hold x m) = d t m" using counts_okD(1) [OF cnt own] no by auto
    have h1: "mutex_hold x m - 1 \<noteq> 0" using False by simp
    have dec: "unat (mutex_hold x m - 1) = d t m - 1" using h by (simp add: unat_minus_one)
    define y where "y = x\<lparr>mutex_hold := (mutex_hold x)(m := mutex_hold x m - 1)\<rparr>"
    have "mutex_release m t x = Some (RT_EOK, False, y)" using own h1 by (simp add: mutex_release_def y_def)
    moreover have "mutex_ok idle p y L M"
      using ok unfolding mutex_ok_def mutex_shape_def bounds_ok_def takes_ok_def by (simp add: y_def prio_def)
    moreover have "counts_ok p y (count_release RT_EOK t m d)"
      using counts_okD [OF cnt] no h1 dec own unfolding counts_ok_def by (auto simp: y_def count_release_def)
    ultimately show ?thesis using own by blast
  qed
qed

text \<open>A timer that runs out.\<close>

lemma times_out_ok:
  assumes ok: "mutex_ok idle p x L M" and timer: "thread_timer (core x) t \<noteq> None"
  shows "\<exists>L'. mutex_ok idle p (x\<lparr>core := thread_timeout t ((core x)\<lparr>thread_timer := (thread_timer (core x))(t := None)\<rparr>)\<rparr>) L' M"
proof -
  note d = mutex_okD [OF ok]
  note k = mutex_shapeD(1) [OF d(1)]
  have sus: "is_suspended (stat (core x) t)" and pend: "pending_object x t \<noteq> None" using takes_okD(4) [OF d(4) timer] by blast+
  let ?k = "(core x)\<lparr>thread_timer := (thread_timer (core x))(t := None), errno := (errno (core x))(t := - RT_ETIMEOUT)\<rparr>"
  define w where "w = rt_schedule_insert_thread t (?k\<lparr>tlist := rt_list_remove (Node t) (tlist ?k)\<rparr>)"
  have "sched_ok w (woken t ?k L)" unfolding w_def by (rule wake_ok) (use k sus in simp_all)
  moreover have "woken t ?k L = woken t (core x) L" by (simp add: woken_def)
  ultimately have w: "sched_ok w (woken t (core x) L)" by simp
  have st: "stat w = (stat (core x))(t := if rt_current_thread (core x) = Some t then RT_THREAD_RUNNING else RT_THREAD_READY)"
    by (simp add: w_def kernel_frame)
  have f: "object_flag w = object_flag (core x)" "current_priority w = current_priority (core x)"
    "errno w = (errno (core x))(t := - RT_ETIMEOUT)" "thread_timer w = (thread_timer (core x))(t := None)"
    "rt_scheduler_lock_nest w = rt_scheduler_lock_nest (core x)" "kernel_assert w = kernel_assert (core x)"
    "rt_current_thread w = rt_current_thread (core x)" by (simp_all add: w_def kernel_frame)
  define y where "y = x\<lparr>core := w\<rparr>"
  have out: "\<not> is_suspended (if b then RT_THREAD_RUNNING else RT_THREAD_READY)" for b by simp
  have "takes_ok p y"
  proof (rule takes_okI)
    fix n u
    show "waits p n u \<and> mutex_owner y n \<noteq> Some u" if "pending_object y u = Some n"
      using that takes_okD(1) [OF d(4), of u n] by (simp add: y_def)
    show "errno (core y) u = (if is_suspended (stat (core y) u) then RT_EOK else - RT_ETIMEOUT)" if "pending_object y u \<noteq> None"
      using that takes_okD(2) [OF d(4), of u] by (cases "u = t") (simp_all add: y_def st f)
    show "pending_object y u = Some n \<or> pending_object y u = None \<and> errno (core y) u = RT_EOK \<and> mutex_owner y n = Some u"
      if "waits p n u" using takes_okD(3) [OF d(4) that] pend by (cases "u = t") (auto simp: y_def f)
    show "is_suspended (stat (core y) u) \<and> pending_object y u \<noteq> None" if "thread_timer (core y) u \<noteq> None"
      using that takes_okD(4) [OF d(4), of u] by (cases "u = t") (simp_all add: y_def st f)
  qed
  moreover have "runs_ok idle p w"
  proof -
    obtain c where c: "rt_current_thread (core x) = Some c" "stat (core x) c = RT_THREAD_RUNNING \<or> (\<exists>m. p c = Before m)"
      using runs_okD(3) [OF d(3)] by blast
    then have "stat w c = RT_THREAD_RUNNING \<or> (\<exists>m. p c = Before m)" by (simp add: st)
    moreover have "runnable (stat w idle)" using runs_okD(4) [OF d(3)] by (simp add: st runnable_def)
    ultimately show ?thesis using runs_okD(1,2,5) [OF d(3)] c(1) by (auto simp: runs_ok_def f)
  qed
  ultimately have "mutex_ok idle p y (woken t (core x) L) M"
    using shape_woken [OF d(1) w st f(1)] bounds_woken [OF d(2) f(2)] by (simp add: mutex_ok_def y_def)
  then obtain L' where "mutex_ok idle p (y\<lparr>core := rt_schedule (core y)\<rparr>) L' M" by (rule mutex_ok_schedule)
  moreover have "thread_timeout t ((core x)\<lparr>thread_timer := (thread_timer (core x))(t := None)\<rparr>) = rt_schedule w"
    using sus by (simp add: thread_timeout_def w_def)
  ultimately show ?thesis by (auto simp: y_def)
qed

text \<open>A ceiling that is set.\<close>

lemma sets_ceiling_ok:
  assumes ok: "mutex_ok idle p x L M" and cnt: "counts_ok p x d" and set: "rt_mutex_setprioceiling m q x = Some (old, y)"
  shows "\<exists>L'. mutex_ok idle p y L' M \<and> counts_ok p y d"
proof (cases "q < RT_THREAD_PRIORITY_MAX")
  case False
  with ok cnt set show ?thesis by (auto simp: rt_mutex_setprioceiling_def)
next
  case True
  define z where "z = x\<lparr>ceiling_priority := (ceiling_priority x)(m := q)\<rparr>"
  have z: "mutex_ok idle p z L M" "counts_ok p z d"
    using ok cnt unfolding mutex_ok_def mutex_shape_def bounds_ok_def takes_ok_def counts_ok_def by (simp_all add: z_def prio_def)
  note d = mutex_okD [OF z(1)]
  have "rt_mutex_setprioceiling m q x =
      map_option (Pair (ceiling_priority x m)) (case mutex_owner z m of None \<Rightarrow> Some z | Some u \<Rightarrow> refresh_owner u z)"
    using True by (simp add: rt_mutex_setprioceiling_def z_def Let_def split: option.split)
  with set consider "y = z" | u where "refresh_owner u z = Some y" by (cases "mutex_owner z m") auto
  then show ?thesis
  proof cases
    case 1
    with z show ?thesis by blast
  next
    case 2
    from refresh_owner_ok(1) [OF d(1) bounds_ok_mono [OF d(2)] this] obtain L' where
      L': "mutex_shape y L' M" "bounds_ok {} {} y L'" "fixed y = fixed z" by blast
    from mutex_ok_fixed [OF z(1) L'(3,1,2)] counts_ok_fixed [OF L'(3)] z(2) show ?thesis by blast
  qed
qed

text \<open>A yield and a tick: calls of the scheduler on fields the invariant does not see.\<close>

lemma mutex_ok_fields [simp]:
  "mutex_ok idle p (x\<lparr>core := k\<lparr>yield := y\<rparr>\<rparr>) L M = mutex_ok idle p (x\<lparr>core := k\<rparr>) L M"
  "mutex_ok idle p (x\<lparr>core := k\<lparr>remaining_tick := n\<rparr>\<rparr>) L M = mutex_ok idle p (x\<lparr>core := k\<rparr>) L M"
  "mutex_ok idle p (x\<lparr>core := k\<lparr>rt_tick := i\<rparr>\<rparr>) L M = mutex_ok idle p (x\<lparr>core := k\<rparr>) L M"
  by (simp_all add: mutex_ok_def mutex_shape_def bounds_ok_def takes_ok_def runs_ok_def prio_def)

lemma yields_ok:
  assumes "mutex_ok idle p (x\<lparr>core := k\<rparr>) L M"
  shows "\<exists>L'. mutex_ok idle p (x\<lparr>core := snd (rt_thread_yield k)\<rparr>) L' M"
proof -
  obtain c where c: "rt_current_thread k = Some c" using runs_okD(3) [OF mutex_okD(3) [OF assms]] by auto
  define k' where "k' = k\<lparr>remaining_tick := (remaining_tick k)(c := init_tick k c), yield := (yield k)(c := True)\<rparr>"
  have "mutex_ok idle p (x\<lparr>core := k'\<rparr>) L M" using assms by (simp add: k'_def)
  then obtain L' where "mutex_ok idle p (x\<lparr>core := k'\<rparr>\<lparr>core := rt_schedule (core (x\<lparr>core := k'\<rparr>))\<rparr>) L' M" by (rule mutex_ok_schedule)
  then show ?thesis using c by (auto simp: rt_thread_yield_def k'_def)
qed

lemma ticks_ok:
  assumes ok: "mutex_ok idle p x L M"
  shows "\<exists>L'. mutex_ok idle p (x\<lparr>core := rt_tick_increase (core x)\<rparr>) L' M"
proof -
  obtain c where c: "rt_current_thread (core x) = Some c" using runs_okD(3) [OF mutex_okD(3) [OF ok]] by auto
  have same: "mutex_ok idle p (x\<lparr>core := core x\<rparr>) L M" using ok by simp
  show ?thesis
  proof (cases "remaining_tick (core x) c = 1")
    case True
    have "mutex_ok idle p (x\<lparr>core := (core x)\<lparr>rt_tick := rt_tick (core x) + 1\<rparr>\<rparr>) L M" using same by simp
    from yields_ok [OF this] c True show ?thesis by (simp add: tick_ends_slice)
  next
    case False
    with same show ?thesis by (auto simp: tick_ends_slice [OF c])
  qed
qed

lemma mutex_step_keeps:
  assumes "mutex_step idle r r'" and inv: "mutex_inv idle r"
  shows "mutex_inv idle r'"
proof -
  from inv obtain L M where ok: "mutex_ok idle (mpc r) (mx r) L M" and cnt: "counts_ok (mpc r) (mx r) (depth r)"
    by (rule mutex_invE)
  from assms(1) show ?thesis
  proof cases
    case (take_returns t m timeout sflag e x)
    from take_returns_ok [OF ok cnt take_returns(2-5)] show ?thesis by (auto simp: mutex_inv_def take_returns(1))
  next
    case (take_waits t m timeout sflag x)
    from take_waits_ok [OF ok cnt take_waits(2,4,3,5,6)] show ?thesis by (auto simp: mutex_inv_def take_waits(1))
  next
    case (take_switches t m)
    obtain L' where "mutex_ok idle ((mpc r)(t := After m)) ((mx r)\<lparr>core := rt_schedule (core (mx r))\<rparr>) L' M"
      by (rule mutex_ok_schedule [OF ok]) (use take_switches(3) in blast)
    then show ?thesis using cnt take_switches(3) by (intro mutex_invI [of idle _ L' M]) (simp_all add: take_switches(1) counts_ok_after)
  next
    case (take_resumes t m e x)
    from take_resumes_ok(1) [OF ok cnt take_resumes(2-4)] show ?thesis by (auto simp: mutex_inv_def take_resumes(1))
  next
    case (releases t m e need x)
    from releases_ok [OF ok cnt releases(2,3), of m] releases(4) show ?thesis by (auto simp: mutex_inv_def releases(1))
  next
    case (sets_ceiling m q old x)
    from sets_ceiling_ok [OF ok cnt sets_ceiling(2)] show ?thesis by (auto simp: mutex_inv_def sets_ceiling(1))
  next
    case schedule
    obtain L' where "mutex_ok idle (mpc r) ((mx r)\<lparr>core := rt_schedule (core (mx r))\<rparr>) L' M" by (rule mutex_ok_schedule [OF ok])
    then show ?thesis using cnt by (intro mutex_invI [of idle _ L' M]) (simp_all add: schedule)
  next
    case ticks
    from ticks_ok [OF ok] cnt show ?thesis by (auto simp: mutex_inv_def ticks)
  next
    case (times_out t)
    from times_out_ok [OF ok times_out(2)] cnt show ?thesis by (auto simp: mutex_inv_def times_out(1))
  next
    case yields
    have "mutex_ok idle (mpc r) ((mx r)\<lparr>core := core (mx r)\<rparr>) L M" using ok by simp
    from yields_ok [OF this] cnt show ?thesis by (auto simp: mutex_inv_def yields)
  qed
qed

interpretation mutex_run: step_relation "mutex_step idle" "mutex_inv idle" for idle
  by unfold_locales (rule mutex_step_keeps)

text \<open>A start: no mutex is taken, a thread runs, and the idle thread can.\<close>

definition mutex_start :: "nat \<Rightarrow> mutexes \<Rightarrow> bool" where
  "mutex_start idle x \<longleftrightarrow>
     sem_start idle (core x) \<and> taken x = unlinked \<and> (\<forall>m. mutex_owner x m = None) \<and> (\<forall>t. pending_object x t = None) \<and>
     (\<forall>t. init_priority x t < RT_THREAD_PRIORITY_MAX) \<and> \<not> null_owner x"

definition run_of :: "mutexes \<Rightarrow> mutex_run" where
  "run_of x = \<lparr>mx = x, mpc = (\<lambda>_. Outside), depth = (\<lambda>_ _. 0)\<rparr>"

lemma run_of_inv:
  assumes "mutex_start idle x"
  shows "mutex_inv idle (run_of x)"
proof -
  obtain L where L: "sched_ok (core x) L" "\<And>s. L (Suspend_list s) = []" using assms by (auto simp: mutex_start_def sem_start_def)
  have "mutex_ok idle (\<lambda>_. Outside) x L (\<lambda>_. [])"
    using assms L unfolding mutex_start_def sem_start_def
    by (auto simp: mutex_ok_def mutex_shape_def bounds_ok_def runs_ok_def takes_ok_def waits_def rings_unlinked)
  moreover have "counts_ok (\<lambda>_. Outside) x (\<lambda>_ _. 0)" using assms by (simp add: counts_ok_def mutex_start_def)
  ultimately show ?thesis by (intro mutex_invI [of idle _ L "\<lambda>_. []"]) (simp_all add: run_of_def)
qed

section \<open>What mutexes promise\<close>

text \<open>
  C16: mutual exclusion.  However takes, releases, timeouts, changes of ceilings, time slices and task switches are
  interleaved: a thread that has taken a mutex more often than it released it is its owner, the mutex counts exactly
  these takes, and no other thread holds it.
\<close>

theorem mutex_excludes:
  assumes "mutex_start idle x" and "(mutex_step idle)\<^sup>*\<^sup>* (run_of x) r" and "depth r t m > 0"
  shows "mutex_owner (mx r) m = Some t \<and> unat (mutex_hold (mx r) m) = depth r t m \<and> (\<forall>u. u \<noteq> t \<longrightarrow> depth r u m = 0)"
proof -
  obtain L M where ok: "mutex_ok idle (mpc r) (mx r) L M" and cnt: "counts_ok (mpc r) (mx r) (depth r)"
    by (rule mutex_invE [OF mutex_run.run_keeps [OF assms(2) run_of_inv [OF assms(1)]]])
  have own: "mutex_owner (mx r) m = Some t" using counts_okD(2) [OF cnt, of m t] assms(3) by auto
  then have "depth r u m = 0" if "u \<noteq> t" for u using counts_okD(2) [OF cnt, of m u] that by simp
  moreover have "\<not> waits (mpc r) m t" using counts_okD(3) [OF cnt, of m t] assms(3) by auto
  ultimately show ?thesis using own counts_okD(1) [OF cnt own] by simp
qed

lemma run_inv:
  assumes "mutex_start idle x" and "(mutex_step idle)\<^sup>*\<^sup>* (run_of x) r"
  obtains L M where "mutex_ok idle (mpc r) (mx r) L M" "counts_ok (mpc r) (mx r) (depth r)"
  using mutex_run.run_keeps [OF assms(2) run_of_inv [OF assms(1)]] by (rule mutex_invE)

text \<open>
  C38: the data stay well-formed in every run.  The pointers are lists; the list of a thread's mutexes holds just those
  it owns; the list of a mutex just the threads that are suspended and say they wait for it, and only if it has an
  owner; no owner is read where there is none, and no assertion of the kernel fails.
\<close>

theorem mutex_data_well_formed:
  assumes "mutex_start idle x" and "(mutex_step idle)\<^sup>*\<^sup>* (run_of x) r"
  shows "\<exists>L M. sched_ok (core (mx r)) L \<and> rings (taken (mx r)) M \<and>
    (\<forall>m t. m \<in> set (M t) \<longleftrightarrow> mutex_owner (mx r) m = Some t) \<and>
    (\<forall>m t. t \<in> set (L (Suspend_list m)) \<longleftrightarrow> is_suspended (stat (core (mx r)) t) \<and> pending_object (mx r) t = Some m) \<and>
    (\<forall>m. mutex_owner (mx r) m = None \<longrightarrow> L (Suspend_list m) = []) \<and> \<not> null_owner (mx r) \<and> \<not> kernel_assert (core (mx r))"
proof -
  obtain L M where ok: "mutex_ok idle (mpc r) (mx r) L M" by (rule run_inv [OF assms])
  note d = mutex_shapeD [OF mutex_okD(1) [OF ok]] and run = runs_okD(2) [OF mutex_okD(3) [OF ok]]
  have "L (Suspend_list m) = []" if "mutex_owner (mx r) m = None" for m using d(6) [of m] that by auto
  with d run show ?thesis by (intro exI [of _ L] exI [of _ M]) simp
qed

text \<open>
  C17: no priority inversion.  In every run, a thread that waits for a mutex waits for an owner at least as
  urgent as itself, and so is everyone that owner waits for, directly or through further mutexes.
\<close>

theorem no_priority_inversion:
  assumes "mutex_start idle x" and "(mutex_step idle)\<^sup>*\<^sup>* (run_of x) r" and "(blocked_by (mx r))\<^sup>+\<^sup>+ t u"
  shows "current_priority (core (mx r)) u \<le> current_priority (core (mx r)) t"
proof -
  obtain L M where ok: "mutex_ok idle (mpc r) (mx r) L M" by (rule run_inv [OF assms(1,2)])
  note d = mutex_okD [OF ok]
  have one: "prio (mx r) v \<le> prio (mx r) w" if b: "blocked_by (mx r) w v" for v w
  proof -
    from b obtain m where "w \<in> set (L (Suspend_list m))" "mutex_owner (mx r) m = Some v"
      using mutex_shapeD(4) [OF d(1)] by (auto simp: blocked_by_def)
    with bounds_okD(2) [OF d(2), of w m] bounds_okD(3) [OF d(2), of m v] show ?thesis by simp
  qed
  from assms(3) have "prio (mx r) u \<le> prio (mx r) t"
    by (induction rule: tranclp_induct) (use one order_trans in blast)+
  then show ?thesis by (simp add: prio_def)
qed

text \<open>
  A take that had to wait returns \<open>RT_EOK\<close> exactly when the thread now owns the mutex, and otherwise that its
  time is up; whatever happened while it waited, and whether or not the mutex still has an owner.
\<close>

theorem mutex_take_result:
  assumes "mutex_start idle x" and "(mutex_step idle)\<^sup>*\<^sup>* (run_of x) r"
    and "rt_current_thread (core (mx r)) = Some t" and "mpc r t = After m" and "mutex_take_resumed m t (mx r) = Some (e, y)"
  shows "if mutex_owner y m = Some t then e = RT_EOK else e = - RT_ETIMEOUT"
proof -
  obtain L M where ok: "mutex_ok idle (mpc r) (mx r) L M" and cnt: "counts_ok (mpc r) (mx r) (depth r)" by (rule run_inv [OF assms(1,2)])
  show ?thesis using take_resumes_ok(2,3) [OF ok cnt assms(3-5)] by simp
qed

lemma run_last_release:
  assumes "mutex_start idle x" and "(mutex_step idle)\<^sup>*\<^sup>* (run_of x) r"
    and "rt_current_thread (core (mx r)) = Some t" and "mpc r t = Outside" and "depth r t m = 1"
    and "sched_ok (core (mx r)) L" and "L (Suspend_list m) = v # vs"
  obtains z L' M' where "mutex_release m t (mx r) = Some (RT_EOK, True, z)" "mutex_ok idle (mpc r) z L' M'"
    "mutex_owner z m = Some v" "runnable (stat (core z) v)" "errno (core z) v = RT_EOK" "prio z v = prio (mx r) v"
    "ceiling_priority z = ceiling_priority (mx r)" "\<And>u. u \<in> set vs \<Longrightarrow> prio z v \<le> prio z u"
proof -
  obtain K M where ok: "mutex_ok idle (mpc r) (mx r) K M" and cnt: "counts_ok (mpc r) (mx r) (depth r)" by (rule run_inv [OF assms(1,2)])
  have l: "K (Suspend_list m) = v # vs"
    using rings_unique [OF lists_okD(1) [OF sched_okD(1) [OF mutex_shapeD(1) [OF mutex_okD(1) [OF ok]]]]
      lists_okD(1) [OF sched_okD(1) [OF assms(6)]], of "Suspend_list m"] assms(7) by simp
  have own: "mutex_owner (mx r) m = Some t" using counts_okD(2) [OF cnt, of m t] assms(5) by auto
  have "unat (mutex_hold (mx r) m) = 1" using counts_okD(1) [OF cnt own] assms(4,5) by (simp add: waits_def)
  then have one: "mutex_hold (mx r) m = 1" by (metis unat_1 unsigned_word_eqI)
  obtain need z where z: "mutex_release m t (mx r) = Some (RT_EOK, need, z)"
    "\<exists>L' M'. mutex_ok idle (mpc r) z L' M' \<and> counts_ok (mpc r) z (count_release RT_EOK t m (depth r))"
    "mutex_owner z m = (case K (Suspend_list m) of [] \<Rightarrow> None | v # _ \<Rightarrow> Some v)"
    "\<forall>v vs. K (Suspend_list m) = v # vs \<longrightarrow> need \<and> runnable (stat (core z) v) \<and> errno (core z) v = RT_EOK \<and>
      thread_timer (core z) v = None \<and> prio z v = prio (mx r) v \<and> ceiling_priority z = ceiling_priority (mx r) \<and>
      (\<forall>u\<in>set vs. prio z v \<le> prio z u)"
    using last_release_ok [OF ok cnt assms(3,4) own one] by blast
  from z(2) obtain L' M' where "mutex_ok idle (mpc r) z L' M'" by blast
  with z(1,3) z(4) [rule_format, OF l] l show ?thesis by (intro that [of z L' M']) auto
qed

text \<open>
  C18: the last release of a mutex gives it to the waiting thread that is the most urgent, the first of them if
  there are several; that thread can run, its take will succeed, and when the call returns or switches, the processor
  is with it or with a thread at least as urgent.
\<close>

theorem mutex_release_hands_over:
  assumes "mutex_start idle x" and "(mutex_step idle)\<^sup>*\<^sup>* (run_of x) r"
    and "rt_current_thread (core (mx r)) = Some t" and "mpc r t = Outside" and "depth r t m = 1"
    and "sched_ok (core (mx r)) L" and "L (Suspend_list m) = v # vs"
  shows "\<exists>y. rt_mutex_release m t (mx r) = Some (RT_EOK, y) \<and> mutex_owner y m = Some v \<and> errno (core y) v = RT_EOK \<and>
    runnable (stat (core y) v) \<and> (\<forall>u\<in>set vs. current_priority (core y) v \<le> current_priority (core y) u) \<and>
    (\<exists>c. rt_current_thread (core y) = Some c \<and> current_priority (core y) c \<le> current_priority (core y) v)"
proof -
  obtain z L' M' where z: "mutex_release m t (mx r) = Some (RT_EOK, True, z)" "mutex_ok idle (mpc r) z L' M'"
    "mutex_owner z m = Some v" "runnable (stat (core z) v)" "errno (core z) v = RT_EOK" "\<And>u. u \<in> set vs \<Longrightarrow> prio z v \<le> prio z u"
    by (rule run_last_release [OF assms(1-7)]) blast
  note k = mutex_shapeD(1) [OF mutex_okD(1) [OF z(2)]] and run = runs_okD [OF mutex_okD(3) [OF z(2)]]
  obtain c where c: "rt_current_thread (core z) = Some c" using run(3) by blast
  have "stat (core z) c = RT_THREAD_RUNNING \<or> (\<exists>t. stat (core z) t = RT_THREAD_READY)"
    using z(4) sched_okD(2) [OF k, of v] c by (auto simp: runnable_def)
  from schedule_runs [OF k c run(1) this] obtain w where w: "rt_current_thread (rt_schedule (core z)) = Some w"
    "\<And>t. stat (rt_schedule (core z)) t = RT_THREAD_READY \<Longrightarrow> current_priority (core z) w \<le> current_priority (core z) t" by blast
  obtain L2 where L2: "sched_ok (rt_schedule (core z)) L2" "\<And>s. L2 (Suspend_list s) = L' (Suspend_list s)" "L2 Defunct_list = L' Defunct_list"
    "\<And>t. is_suspended (stat (rt_schedule (core z)) t) = is_suspended (stat (core z) t)"
    "\<And>t. runnable (stat (rt_schedule (core z)) t) = runnable (stat (core z) t)" by (rule schedule_ok [OF k c]) blast
  have "current_priority (core z) w \<le> current_priority (core z) v"
  proof (cases "stat (rt_schedule (core z)) v = RT_THREAD_READY")
    case False
    then have "stat (rt_schedule (core z)) v = RT_THREAD_RUNNING" using L2(5) [of v] z(4) by (simp add: runnable_def)
    then show ?thesis using sched_okD(2) [OF L2(1)] w(1) by fastforce
  qed (rule w(2))
  then show ?thesis
    using z w(1) L2(5) [of v] by (intro exI [of _ "z\<lparr>core := rt_schedule (core z)\<rparr>"]) (simp add: rt_mutex_release_def kernel_frame prio_def)
qed

text \<open>
  C39: the calls come back, or put the caller to sleep, unless threads wait for each other in a circle: if the
  chain of owners from the mutex on ends, in a thread that waits for nothing and is not the caller, the take gets
  through its loop, which passes the caller's priority along this chain; and a release always does.
\<close>

theorem mutex_calls_end:
  assumes "mutex_start idle x" and "(mutex_step idle)\<^sup>*\<^sup>* (run_of x) r"
    and "rt_current_thread (core (mx r)) = Some t" and "mpc r t = Outside" and "object_flag (core (mx r)) m = RT_IPC_FLAG_PRIO"
    and "\<And>u. mutex_owner (mx r) m = Some u \<Longrightarrow> u = t \<or> chain_ends (mx r) u \<and> \<not> (blocked_by (mx r))\<^sup>*\<^sup>* u t"
  shows "(\<exists>a. rt_mutex_take m time t (mx r) = Some a) \<and> (\<exists>b. rt_mutex_release m t (mx r) = Some b)"
proof
  obtain L M where ok: "mutex_ok idle (mpc r) (mx r) L M" and cnt: "counts_ok (mpc r) (mx r) (depth r)" by (rule run_inv [OF assms(1,2)])
  show "\<exists>b. rt_mutex_release m t (mx r) = Some b"
    using releases_ok [OF ok cnt assms(3,4), of m] by (auto simp: rt_mutex_release_def)
  let ?x = "set_error t RT_EOK (mx r)"
  note d = mutex_okD [OF set_error_ok [OF ok assms(4), of RT_EOK]]
  have t: "rt_current_thread (core ?x) = Some t" and flag: "object_flag (core ?x) m = RT_IPC_FLAG_PRIO" using assms(3,5) by simp_all
  have run: "stat (core ?x) t = RT_THREAD_RUNNING" by (rule runs_okD(6) [OF d(3) t]) (simp add: assms(4))
  have "\<exists>a. mutex_take m time RT_UNINTERRUPTIBLE t (mx r) = Some a"
  proof (cases "mutex_owner ?x m")
    case None
    have "\<exists>y. own_mutex m t RT_UNINTERRUPTIBLE ?x = Some y" by (rule own_mutex_ok [OF d(1,2) run None]) blast
    with None show ?thesis by (auto simp: mutex_take_def Let_def)
  next
    case (Some u)
    show ?thesis
    proof (cases "u = t \<or> time = 0")
      case True
      with Some show ?thesis by (auto simp: mutex_take_def Let_def)
    next
      case False
      then have c: "chain_ends (mx r) u" "\<not> (blocked_by (mx r))\<^sup>*\<^sup>* u t" using assms(6) Some by auto
      obtain z where z: "wait_mutex m u time RT_UNINTERRUPTIBLE t ?x = map_option (\<lambda>y. (Take_schedules,
         if time > 0 then y\<lparr>core := (core y)\<lparr>thread_timer := (thread_timer (core y))(t := Some time)\<rparr>\<rparr> else y)) (pass_on m u (prio ?x t) z)"
        "fixed z = fixed (?x\<lparr>core := (core ?x)\<lparr>stat := (stat (core ?x))(t := suspend_stat RT_UNINTERRUPTIBLE), thread_timer := (thread_timer (core ?x))(t := None)\<rparr>,
         pending_object := (pending_object ?x)(t := Some m)\<rparr>)"
        "chain_ends z u \<Longrightarrow> \<exists>y'. pass_on m u (prio ?x t) z = Some y'"
        by (rule wait_mutex_ok [OF d(1,2) t run not_pending [OF d(4) assms(4)] Some flag, of time RT_UNINTERRUPTIBLE]) blast
      have "chain_ends z u"
        by (rule chain_ends_waits [OF c]) (simp_all add: fixedD [OF z(2)] set_error_def)
      with z(1,3) False Some show ?thesis by (auto simp: mutex_take_def Let_def)
    qed
  qed
  then show "\<exists>a. rt_mutex_take m time t (mx r) = Some a" by (auto simp: rt_mutex_take_def)
qed

text \<open>
  A mutex does not know a thread that was woken by someone else.  If \<^verbatim>\<open>rt_thread_resume\<close> wakes a thread that
  waits for a mutex, its take returns \<open>RT_EOK\<close> although another thread owns the mutex: the error code the take
  looks at was set to \<open>RT_EOK\<close> before it waited, where the semaphore's take sets it to \<open>RT_EINTR\<close>.
\<close>

theorem resumed_waiter_enters:
  assumes "mutex_start idle x" and "(mutex_step idle)\<^sup>*\<^sup>* (run_of x) r"
    and "is_suspended (stat (core (mx r)) t)" and "pending_object (mx r) t = Some m"
  shows "\<exists>k u. rt_thread_resume t (core (mx r)) = (RT_EOK, k) \<and> runnable (stat k t) \<and>
    mutex_take_resumed m t ((mx r)\<lparr>core := k\<rparr>) = Some (RT_EOK, (mx r)\<lparr>core := k\<rparr>) \<and>
    mutex_owner ((mx r)\<lparr>core := k\<rparr>) m = Some u \<and> u \<noteq> t"
proof -
  obtain L M where ok: "mutex_ok idle (mpc r) (mx r) L M" by (rule run_inv [OF assms(1,2)])
  note d = mutex_okD [OF ok]
  obtain k where k: "rt_thread_resume t (core (mx r)) = (RT_EOK, k)"
    "stat k = (stat (core (mx r)))(t := if rt_current_thread (core (mx r)) = Some t then RT_THREAD_RUNNING else RT_THREAD_READY)"
    "errno k = errno (core (mx r))" by (rule resume_suspended [OF mutex_shapeD(1) [OF d(1)] assms(3)])
  have e: "errno k t = RT_EOK" using takes_okD(2) [OF d(4), of t] assms(3,4) k(3) by simp
  have "L (Suspend_list m) \<noteq> []" using mutex_shapeD(4) [OF d(1), of t m] assms(3,4) by auto
  then obtain u where u: "mutex_owner (mx r) m = Some u" using mutex_shapeD(6) [OF d(1)] by blast
  with takes_okD(1) [OF d(4) assms(4)] have "u \<noteq> t" by auto
  with k e u show ?thesis by (intro exI [of _ k] exI [of _ u]) (simp add: mutex_take_resumed_def runnable_def)
qed

text \<open>
  A mutex handed over forgets its ceiling.  A thread that takes a free mutex runs at least at the ceiling's
  priority; a thread that is given the mutex by a release stays at its own priority, however urgent the ceiling.
\<close>

theorem handed_over_below_ceiling:
  assumes "mutex_start idle x" and "(mutex_step idle)\<^sup>*\<^sup>* (run_of x) r"
    and "rt_current_thread (core (mx r)) = Some t" and "mpc r t = Outside" and "depth r t m = 1"
    and "sched_ok (core (mx r)) L" and "L (Suspend_list m) = v # vs"
    and "ceiling_priority (mx r) m < current_priority (core (mx r)) v"
  shows "\<exists>y. rt_mutex_release m t (mx r) = Some (RT_EOK, y) \<and> mutex_owner y m = Some v \<and>
    ceiling_priority y m < current_priority (core y) v"
proof -
  obtain z where z: "mutex_release m t (mx r) = Some (RT_EOK, True, z)" "mutex_owner z m = Some v" "prio z v = prio (mx r) v"
    "ceiling_priority z = ceiling_priority (mx r)" by (rule run_last_release [OF assms(1-7)]) blast
  with assms(8) show ?thesis
    by (intro exI [of _ "z\<lparr>core := rt_schedule (core z)\<rparr>"]) (simp add: rt_mutex_release_def kernel_frame prio_def)
qed

section \<open>Mutexes on a kernel that runs\<close>

text \<open>The mutexes' memory before any is initialised, and the kernel of the scheduler's demonstration with one mutex.\<close>

definition mutex_memory :: "kernel \<Rightarrow> mutexes" where
  "mutex_memory k =
     \<lparr>core = k, mutex_owner = (\<lambda>_. None), mutex_priority = (\<lambda>_. 0), mutex_hold = (\<lambda>_. 0), ceiling_priority = (\<lambda>_. 0),
      taken = unlinked, pending_object = (\<lambda>_. None), init_priority = current_priority k, null_owner = False\<rparr>"

definition demo_mutex :: mutexes where
  "demo_mutex = snd (rt_mutex_init 5 (mutex_memory demo))"

lemma demo_mutex_ok:
  "core demo_mutex = demo\<lparr>object_flag := (object_flag demo)(5 := RT_IPC_FLAG_PRIO)\<rparr>"
  "sched_ok (core demo_mutex) demo_lists" "mutex_owner demo_mutex = (\<lambda>_. None)" "ceiling_priority demo_mutex 5 = 0xff"
  "mutex_start 0 demo_mutex"
proof -
  show c: "core demo_mutex = demo\<lparr>object_flag := (object_flag demo)(5 := RT_IPC_FLAG_PRIO)\<rparr>"
    using init_empty_list [OF demo_ok(1), of 5] by (simp add: demo_mutex_def mutex_memory_def rt_mutex_init_def demo_lists_def)
  have "sched_ok (demo\<lparr>object_flag := f\<rparr>) demo_lists" for f using demo_ok(1) by (simp add: sched_ok_def lists_ok_def)
  then show k: "sched_ok (core demo_mutex) demo_lists" by (simp add: c)
  show own: "mutex_owner demo_mutex = (\<lambda>_. None)" and "ceiling_priority demo_mutex 5 = 0xff"
    by (simp_all add: demo_mutex_def mutex_memory_def rt_mutex_init_def fun_upd_idem)
  have "sem_start 0 (core demo_mutex)"
    unfolding sem_start_def using k
    by (auto simp: c demo_ok runnable_def demo_lists_def intro!: exI [of _ demo_lists])
  moreover have "taken demo_mutex = unlinked" "pending_object demo_mutex = (\<lambda>_. None)" "\<not> null_owner demo_mutex"
    "init_priority demo_mutex = current_priority demo"
    by (simp_all add: demo_mutex_def mutex_memory_def rt_mutex_init_def)
  ultimately show "mutex_start 0 demo_mutex"
    using lists_okD(6) [OF sched_okD(1) [OF demo_ok(1)]] by (simp add: mutex_start_def own)
qed

text \<open>A yield switches to a ready thread that is as urgent.\<close>

lemma yield_switches:
  assumes k: "sched_ok k L" and c: "rt_current_thread k = Some c" "stat k c = RT_THREAD_RUNNING" "rt_scheduler_lock_nest k = 0"
    and u: "stat k u = RT_THREAD_READY" "current_priority k u \<le> current_priority k c"
  obtains to where "rt_current_thread (snd (rt_thread_yield k)) = Some to" "stat k to = RT_THREAD_READY"
    "current_priority k to \<le> current_priority k u"
    "stat (snd (rt_thread_yield k)) = (stat k)(c := RT_THREAD_READY, to := RT_THREAD_RUNNING)"
proof -
  let ?k = "k\<lparr>remaining_tick := (remaining_tick k)(c := init_tick k c), yield := (yield k)(c := True)\<rparr>"
  have k': "sched_ok ?k L" "rt_current_thread ?k = Some c" "rt_scheduler_lock_nest ?k = 0" using k c by simp_all
  have "stat ?k u = RT_THREAD_READY" using u by simp
  then obtain to p where h: "highest_priority_thread ?k = (to, p)" "L (Ready_list p) \<noteq> []" "to = hd (L (Ready_list p))"
    "stat ?k to = RT_THREAD_READY" "current_priority ?k to = p" "\<And>t. stat ?k t = RT_THREAD_READY \<Longrightarrow> p \<le> current_priority ?k t"
    "rt_thread_ready_priority_group ?k \<noteq> 0" by (rule highest_thread [OF sched_okD(1) [OF k'(1)]]) blast
  have p: "p \<le> current_priority k u" using h(6) [of u] u(1) by simp
  then have "\<not> goes_on c p ?k" using u(2) by (simp add: goes_on_def)
  from schedule_switches(2,3) [OF k' h(1,4,7) this] h(4,5) p c show ?thesis
    by (intro that [of to]) (simp_all add: rt_thread_yield_def)
qed

abbreviation (input) demo_priority :: "nat \<Rightarrow> nat" where
  "demo_priority \<equiv> \<lambda>t. if t = 0 then 31 else if t = 3 then 5 else 10"

lemma yield_fields [kernel_frame]:
  "current_priority (snd (rt_thread_yield k)) = current_priority k" "object_flag (snd (rt_thread_yield k)) = object_flag k"
  "rt_scheduler_lock_nest (snd (rt_thread_yield k)) = rt_scheduler_lock_nest k"
  by (simp_all add: rt_thread_yield_def kernel_frame split: option.split)

text \<open>The running thread takes the mutex and yields to the other of its priority.\<close>

lemma demo_run1:
  obtains r where "(mutex_step 0)\<^sup>*\<^sup>* (run_of demo_mutex) r" "rt_current_thread (core (mx r)) = Some 1" "mpc r = (\<lambda>_. Outside)"
    "stat (core (mx r)) = (stat demo)(1 := RT_THREAD_RUNNING, 2 := RT_THREAD_READY)"
    "current_priority (core (mx r)) = demo_priority" "mutex_owner (mx r) = (\<lambda>_. None)(5 := Some 2)"
    "object_flag (core (mx r)) 5 = RT_IPC_FLAG_PRIO" "depth r 2 5 = 1" "mutex_priority (mx r) 5 = 0xff" "ceiling_priority (mx r) 5 = 0xff"
proof -
  note c = demo_mutex_ok(1)
  define x1 where "x1 = (set_error 2 RT_EOK demo_mutex)\<lparr>mutex_owner := (mutex_owner demo_mutex)(5 := Some 2),
    mutex_priority := (mutex_priority demo_mutex)(5 := 0xff), mutex_hold := (mutex_hold demo_mutex)(5 := 1),
    taken := rt_list_insert_after (Head 2) (Node 5) (taken demo_mutex)\<rparr>"
  have t: "mutex_take 5 3 RT_UNINTERRUPTIBLE 2 demo_mutex = Some (Take_returns RT_EOK, x1)"
    by (simp add: mutex_take_def own_mutex_def demo_mutex_ok(3,4) set_error_def x1_def)
  let ?r0 = "run_of demo_mutex"
  let ?r1 = "?r0\<lparr>mx := x1, depth := count_take RT_EOK 2 5 (depth ?r0)\<rparr>"
  have s1: "mutex_step 0 ?r0 ?r1"
    by (rule mutex_step.take_returns [where m = 5 and timeout = 3 and sflag = RT_UNINTERRUPTIBLE])
      (use t in \<open>simp_all add: run_of_def c demo_ok\<close>)
  let ?r2 = "?r1\<lparr>mx := (mx ?r1)\<lparr>core := snd (rt_thread_yield (core (mx ?r1)))\<rparr>\<rparr>"
  have s2: "mutex_step 0 ?r1 ?r2" by (rule mutex_step.yields)
  have k1: "sched_ok (core x1) demo_lists" using demo_mutex_ok(2) by (simp add: x1_def set_error_def)
  have f1: "rt_current_thread (core x1) = Some 2" "stat (core x1) = stat demo" "rt_scheduler_lock_nest (core x1) = 0"
    "current_priority (core x1) = demo_priority" "object_flag (core x1) 5 = RT_IPC_FLAG_PRIO"
    by (simp_all add: x1_def set_error_def c demo_ok)
  obtain to where to: "rt_current_thread (snd (rt_thread_yield (core x1))) = Some to" "stat (core x1) to = RT_THREAD_READY"
    "current_priority (core x1) to \<le> current_priority (core x1) 1"
    "stat (snd (rt_thread_yield (core x1))) = (stat (core x1))(2 := RT_THREAD_READY, to := RT_THREAD_RUNNING)"
    by (rule yield_switches [OF k1 f1(1) _ f1(3), of 1]) (simp_all add: f1 demo_ok)
  then have "to = 1" by (auto simp: f1 demo_ok split: if_splits)
  with to(1,4) s1 s2 show ?thesis
    by (intro that [of ?r2]) (simp_all add: kernel_frame f1 fun_upd_twist, simp_all add: run_of_def x1_def demo_mutex_ok count_take_def set_error_def)
qed

text \<open>That thread has to wait for the mutex, and its owner runs on.\<close>

lemma demo_wait:
  obtains r where "(mutex_step 0)\<^sup>*\<^sup>* (run_of demo_mutex) r" "mpc r = (\<lambda>_. Outside)(1 := Before 5)"
    "stat (core (mx r)) = (stat demo)(2 := RT_THREAD_READY, 1 := RT_THREAD_SUSPEND_UNINTERRUPTIBLE)"
    "rt_current_thread (core (mx r)) = Some 1" "current_priority (core (mx r)) = demo_priority"
    "mutex_owner (mx r) = (\<lambda>_. None)(5 := Some 2)" "pending_object (mx r) 1 = Some 5" "thread_timer (core (mx r)) 1 = Some 3"
    "depth r 2 5 = 1"
proof -
  obtain r where r: "(mutex_step 0)\<^sup>*\<^sup>* (run_of demo_mutex) r" "rt_current_thread (core (mx r)) = Some 1" "mpc r = (\<lambda>_. Outside)"
    "stat (core (mx r)) = (stat demo)(1 := RT_THREAD_RUNNING, 2 := RT_THREAD_READY)"
    "current_priority (core (mx r)) = demo_priority" "mutex_owner (mx r) = (\<lambda>_. None)(5 := Some 2)"
    "object_flag (core (mx r)) 5 = RT_IPC_FLAG_PRIO" "depth r 2 5 = 1" "mutex_priority (mx r) 5 = 0xff" "ceiling_priority (mx r) 5 = 0xff"
    by (rule demo_run1)
  obtain L M where ok: "mutex_ok 0 (mpc r) (mx r) L M" by (rule run_inv [OF demo_mutex_ok(5) r(1)])
  let ?x = "set_error 1 RT_EOK (mx r)"
  have "mpc r 1 = Outside" by (simp add: r(3))
  note d = mutex_okD [OF set_error_ok [OF ok this, of RT_EOK]]
  have t: "rt_current_thread (core ?x) = Some 1" "stat (core ?x) 1 = RT_THREAD_RUNNING" "pending_object ?x 1 = None"
    "mutex_owner ?x 5 = Some 2" "object_flag (core ?x) 5 = RT_IPC_FLAG_PRIO"
    using r(2,4,6,7) not_pending [OF d(4) \<open>mpc r 1 = Outside\<close>] by simp_all
  have p: "prio ?x = demo_priority" "mutex_priority ?x 5 = 0xff" using r(5,9) by (simp_all add: set_error_def prio_def)
  obtain z where z: "wait_mutex 5 2 3 RT_UNINTERRUPTIBLE 1 ?x = map_option (\<lambda>y. (Take_schedules,
       if (3::int) > 0 then y\<lparr>core := (core y)\<lparr>thread_timer := (thread_timer (core y))(1 := Some 3)\<rparr>\<rparr> else y)) (pass_on 5 2 (prio ?x 1) z)"
    "fixed z = fixed (?x\<lparr>core := (core ?x)\<lparr>stat := (stat (core ?x))(1 := suspend_stat RT_UNINTERRUPTIBLE), thread_timer := (thread_timer (core ?x))(1 := None)\<rparr>,
       pending_object := (pending_object ?x)(1 := Some 5)\<rparr>)"
    "prio z = prio ?x" "mutex_priority z = mutex_priority ?x"
    by (rule wait_mutex_ok [OF d(1,2) t, of 3 RT_UNINTERRUPTIBLE]) blast
  define y where "y = z\<lparr>mutex_priority := (mutex_priority z)(5 := 10)\<rparr>"
  have "pass_on 5 2 (prio ?x 1) z = Some y" using p z(3,4) by (simp add: pass_on_def y_def)
  then have take: "mutex_take 5 3 RT_UNINTERRUPTIBLE 1 (mx r) =
      Some (Take_schedules, y\<lparr>core := (core y)\<lparr>thread_timer := (thread_timer (core y))(1 := Some 3)\<rparr>\<rparr>)"
    using z(1) t(4) by (simp add: mutex_take_def)
  let ?r = "r\<lparr>mx := y\<lparr>core := (core y)\<lparr>thread_timer := (thread_timer (core y))(1 := Some 3)\<rparr>\<rparr>, mpc := (mpc r)(1 := Before 5)\<rparr>"
  have "mutex_step 0 r ?r" by (rule mutex_step.take_waits) (use take r(2,7) in \<open>simp_all add: r(3)\<close>)
  with r(1) have run: "(mutex_step 0)\<^sup>*\<^sup>* (run_of demo_mutex) ?r" by (rule rtranclp.rtrancl_into_rtrancl)
  have "current_priority (core z) = demo_priority" using z(3) p(1) by (simp add: prio_def)
  then show ?thesis using r(2-10) fixedD [OF z(2)] by (intro that [OF run]) (simp_all add: y_def set_error_def)
qed

lemma demo_run2:
  obtains r where "(mutex_step 0)\<^sup>*\<^sup>* (run_of demo_mutex) r" "mpc r = (\<lambda>_. Outside)(1 := After 5)"
    "\<forall>t. runnable (stat (core (mx r)) t) \<longleftrightarrow> t = 0 \<or> t = 2" "is_suspended (stat (core (mx r)) 1)"
    "rt_current_thread (core (mx r)) = Some 2" "current_priority (core (mx r)) = demo_priority"
    "mutex_owner (mx r) = (\<lambda>_. None)(5 := Some 2)" "pending_object (mx r) 1 = Some 5" "thread_timer (core (mx r)) 1 = Some 3"
    "depth r 2 5 = 1"
proof -
  obtain r where r: "(mutex_step 0)\<^sup>*\<^sup>* (run_of demo_mutex) r" "mpc r = (\<lambda>_. Outside)(1 := Before 5)"
    "stat (core (mx r)) = (stat demo)(2 := RT_THREAD_READY, 1 := RT_THREAD_SUSPEND_UNINTERRUPTIBLE)"
    "rt_current_thread (core (mx r)) = Some 1" "current_priority (core (mx r)) = demo_priority"
    "mutex_owner (mx r) = (\<lambda>_. None)(5 := Some 2)" "pending_object (mx r) 1 = Some 5" "thread_timer (core (mx r)) 1 = Some 3"
    "depth r 2 5 = 1" by (rule demo_wait)
  obtain L M where ok: "mutex_ok 0 (mpc r) (mx r) L M" by (rule run_inv [OF demo_mutex_ok(5) r(1)])
  note k = mutex_shapeD(1) [OF mutex_okD(1) [OF ok]]
  let ?k = "rt_schedule (core (mx r))"
  have run: "runnable (stat (core (mx r)) t) \<longleftrightarrow> t = 0 \<or> t = 2" for t by (simp add: r(3) demo_ok runnable_def)
  have "stat (core (mx r)) 2 = RT_THREAD_READY" by (simp add: r(3))
  from schedule_runs [OF k r(4) runs_okD(1) [OF mutex_okD(3) [OF ok]]] this obtain w where
    w: "rt_current_thread ?k = Some w" "stat ?k w = RT_THREAD_RUNNING"
      "\<And>t. stat ?k t = RT_THREAD_READY \<Longrightarrow> demo_priority w \<le> demo_priority t" unfolding r(5) by blast
  obtain L' where L': "sched_ok ?k L'" "\<And>s. L' (Suspend_list s) = L (Suspend_list s)" "L' Defunct_list = L Defunct_list"
    "\<And>t. is_suspended (stat ?k t) = is_suspended (stat (core (mx r)) t)"
    "\<And>t. runnable (stat ?k t) = runnable (stat (core (mx r)) t)" by (rule schedule_ok [OF k r(4)]) blast
  have "w = 0 \<or> w = 2" using L'(5) [of w] w(2) run [of w] by (simp add: runnable_def)
  moreover have "stat ?k 2 = RT_THREAD_READY" if "w \<noteq> 2"
    using L'(5) [of 2] run [of 2] sched_okD(2) [OF L'(1), of 2] w(1) that by (auto simp: runnable_def)
  ultimately have "w = 2" using w(3) [of 2] by auto
  let ?r = "r\<lparr>mx := (mx r)\<lparr>core := ?k\<rparr>, mpc := (mpc r)(1 := After 5)\<rparr>"
  have "mutex_step 0 r ?r" by (rule mutex_step.take_switches) (simp_all add: r)
  with r(1) have "(mutex_step 0)\<^sup>*\<^sup>* (run_of demo_mutex) ?r" by simp
  then show ?thesis
    using w(1) \<open>w = 2\<close> L'(4,5) run r by (intro that [of ?r]) (simp_all add: kernel_frame)
qed

lemma demo_waiting:
  assumes "mutex_ok 0 p x L M" and "p = (\<lambda>_. Outside)(1 := After 5)" and "is_suspended (stat (core x) 1)" and "pending_object x 1 = Some 5"
  shows "L (Suspend_list 5) = [1]"
proof -
  note d = mutex_okD [OF assms(1)]
  have "t = 1" if "t \<in> set (L (Suspend_list 5))" for t
  proof -
    have "pending_object x t = Some 5" using that mutex_shapeD(4) [OF d(1)] by simp
    then show ?thesis using takes_okD(1) [OF d(4), of t 5] by (auto simp: assms(2) waits_def split: if_splits)
  qed
  moreover have "1 \<in> set (L (Suspend_list 5))" using assms(3,4) mutex_shapeD(4) [OF d(1)] by simp
  ultimately have "set (L (Suspend_list 5)) = {1}" by blast
  moreover have "distinct (L (Suspend_list 5))" by (rule rings_distinct [OF lists_okD(1) [OF sched_okD(1) [OF mutex_shapeD(1) [OF d(1)]]]])
  ultimately show ?thesis by (cases "L (Suspend_list 5)"; cases "tl (L (Suspend_list 5))") auto
qed

lemma mutex_data_well_formed_witness:
  "\<exists>r L M. (mutex_step 0)\<^sup>*\<^sup>* (run_of demo_mutex) r \<and> pending_object (mx r) 1 = Some 5 \<and>
    sched_ok (core (mx r)) L \<and> rings (taken (mx r)) M \<and> \<not> null_owner (mx r)"
proof -
  obtain r where r: "(mutex_step 0)\<^sup>*\<^sup>* (run_of demo_mutex) r" "pending_object (mx r) 1 = Some 5" by (rule demo_run2)
  with mutex_data_well_formed [OF demo_mutex_ok(5) r(1)] show ?thesis by blast
qed

lemma mutex_excludes_witness:
  "\<exists>r. (mutex_step 0)\<^sup>*\<^sup>* (run_of demo_mutex) r \<and> mutex_owner (mx r) 5 = Some 2 \<and>
    unat (mutex_hold (mx r) 5) = depth r 2 5 \<and> (\<forall>u. u \<noteq> 2 \<longrightarrow> depth r u 5 = 0)"
proof -
  obtain r where r: "(mutex_step 0)\<^sup>*\<^sup>* (run_of demo_mutex) r" and one: "depth r 2 5 = 1" by (rule demo_run2)
  have "depth r 2 5 > 0" using one by simp
  with mutex_excludes [OF demo_mutex_ok(5) r, of 2 5] r show ?thesis by blast
qed

lemma no_priority_inversion_witness:
  "\<exists>r. (mutex_step 0)\<^sup>*\<^sup>* (run_of demo_mutex) r \<and> blocked_by (mx r) 1 2 \<and>
    current_priority (core (mx r)) 2 \<le> current_priority (core (mx r)) 1"
proof -
  obtain r where r: "(mutex_step 0)\<^sup>*\<^sup>* (run_of demo_mutex) r" "is_suspended (stat (core (mx r)) 1)"
    "mutex_owner (mx r) = (\<lambda>_. None)(5 := Some 2)" "pending_object (mx r) 1 = Some 5" by (rule demo_run2)
  then have "blocked_by (mx r) 1 2" by (simp add: blocked_by_def)
  with no_priority_inversion [OF demo_mutex_ok(5) r(1), of 1 2] r(1) show ?thesis by blast
qed

lemma mutex_release_hands_over_witness:
  "\<exists>r y. (mutex_step 0)\<^sup>*\<^sup>* (run_of demo_mutex) r \<and> rt_mutex_release 5 2 (mx r) = Some (RT_EOK, y) \<and> mutex_owner y 5 = Some 1"
proof -
  obtain r where r: "(mutex_step 0)\<^sup>*\<^sup>* (run_of demo_mutex) r" "mpc r = (\<lambda>_. Outside)(1 := After 5)"
    "is_suspended (stat (core (mx r)) 1)" "rt_current_thread (core (mx r)) = Some 2" "pending_object (mx r) 1 = Some 5" "depth r 2 5 = 1"
    by (rule demo_run2)
  obtain L M where ok: "mutex_ok 0 (mpc r) (mx r) L M" by (rule run_inv [OF demo_mutex_ok(5) r(1)])
  have "L (Suspend_list 5) = [1]" by (rule demo_waiting [OF ok r(2,3,5)])
  moreover have "mpc r 2 = Outside" by (simp add: r(2))
  ultimately show ?thesis
    using mutex_release_hands_over [OF demo_mutex_ok(5) r(1,4) _ r(6) mutex_shapeD(1) [OF mutex_okD(1) [OF ok]]] r(1) by blast
qed

lemma mutex_calls_end_witness:
  "\<exists>r a. (mutex_step 0)\<^sup>*\<^sup>* (run_of demo_mutex) r \<and> mutex_owner (mx r) 5 = Some 2 \<and> rt_mutex_take 5 (- 1) 1 (mx r) = Some a"
proof -
  obtain r where r: "(mutex_step 0)\<^sup>*\<^sup>* (run_of demo_mutex) r" "rt_current_thread (core (mx r)) = Some 1" "mpc r = (\<lambda>_. Outside)"
    "stat (core (mx r)) = (stat demo)(1 := RT_THREAD_RUNNING, 2 := RT_THREAD_READY)"
    "mutex_owner (mx r) = (\<lambda>_. None)(5 := Some 2)" "object_flag (core (mx r)) 5 = RT_IPC_FLAG_PRIO" by (rule demo_run1)
  have run: "\<not> is_suspended (stat (core (mx r)) 2)" by (simp add: r(4))
  have "chain_ends (mx r) u \<and> \<not> (blocked_by (mx r))\<^sup>*\<^sup>* u 1" if "mutex_owner (mx r) 5 = Some u" for u
  proof -
    have u: "u = 2" using that by (simp add: r(5))
    have "\<not> blocked_by (mx r) 2 v" for v using run by (simp add: blocked_by_def)
    then have "\<not> (blocked_by (mx r))\<^sup>*\<^sup>* 2 1" by (auto elim: converse_rtranclpE)
    with run u show ?thesis by (auto intro: chain_ends.no_wait)
  qed
  then have "u = 1 \<or> chain_ends (mx r) u \<and> \<not> (blocked_by (mx r))\<^sup>*\<^sup>* u 1" if "mutex_owner (mx r) 5 = Some u" for u
    using that by blast
  moreover have "mpc r 1 = Outside" by (simp add: r(3))
  ultimately have "\<exists>a. rt_mutex_take 5 (- 1) 1 (mx r) = Some a"
    using mutex_calls_end [OF demo_mutex_ok(5) r(1,2) _ r(6), of "- 1"] by blast
  with r(1,5) show ?thesis by auto
qed

lemma resumed_waiter_enters_witness:
  "\<exists>r k u. (mutex_step 0)\<^sup>*\<^sup>* (run_of demo_mutex) r \<and> rt_thread_resume 1 (core (mx r)) = (RT_EOK, k) \<and>
    mutex_take_resumed 5 1 ((mx r)\<lparr>core := k\<rparr>) = Some (RT_EOK, (mx r)\<lparr>core := k\<rparr>) \<and>
    mutex_owner ((mx r)\<lparr>core := k\<rparr>) 5 = Some u \<and> u \<noteq> 1"
proof -
  obtain r where r: "(mutex_step 0)\<^sup>*\<^sup>* (run_of demo_mutex) r" "is_suspended (stat (core (mx r)) 1)" "pending_object (mx r) 1 = Some 5"
    by (rule demo_run2)
  from resumed_waiter_enters [OF demo_mutex_ok(5) r] r(1) show ?thesis by blast
qed

text \<open>The owner runs on until the waiting thread's timer runs out, then yields to it.\<close>

lemma demo_run3:
  obtains r where "(mutex_step 0)\<^sup>*\<^sup>* (run_of demo_mutex) r" "mpc r = (\<lambda>_. Outside)(1 := After 5)"
    "rt_current_thread (core (mx r)) = Some 1" "mutex_owner (mx r) = (\<lambda>_. None)(5 := Some 2)"
    "\<not> is_suspended (stat (core (mx r)) 2)"
proof -
  obtain r where r: "(mutex_step 0)\<^sup>*\<^sup>* (run_of demo_mutex) r" "mpc r = (\<lambda>_. Outside)(1 := After 5)"
    "\<forall>t. runnable (stat (core (mx r)) t) \<longleftrightarrow> t = 0 \<or> t = 2" "is_suspended (stat (core (mx r)) 1)"
    "rt_current_thread (core (mx r)) = Some 2" "current_priority (core (mx r)) = demo_priority"
    "mutex_owner (mx r) = (\<lambda>_. None)(5 := Some 2)" "thread_timer (core (mx r)) 1 = Some 3" by (rule demo_run2)
  obtain L M where ok: "mutex_ok 0 (mpc r) (mx r) L M" by (rule run_inv [OF demo_mutex_ok(5) r(1)])
  note k = mutex_shapeD(1) [OF mutex_okD(1) [OF ok]] and nest = runs_okD(1) [OF mutex_okD(3) [OF ok]]
  let ?k = "(core (mx r))\<lparr>thread_timer := (thread_timer (core (mx r)))(1 := None), errno := (errno (core (mx r)))(1 := - RT_ETIMEOUT)\<rparr>"
  define w where "w = rt_schedule_insert_thread 1 (?k\<lparr>tlist := rt_list_remove (Node 1) (tlist ?k)\<rparr>)"
  have w: "sched_ok w (woken 1 ?k L)" unfolding w_def by (rule wake_ok) (use k r(4) in simp_all)
  have f: "stat w = (stat (core (mx r)))(1 := RT_THREAD_READY)" "current_priority w = demo_priority" "rt_current_thread w = Some 2"
    "rt_scheduler_lock_nest w = 0" using r(5,6) nest by (simp_all add: w_def kernel_frame)
  have out: "thread_timeout 1 ((core (mx r))\<lparr>thread_timer := (thread_timer (core (mx r)))(1 := None)\<rparr>) = rt_schedule w"
    using r(4) by (simp add: thread_timeout_def w_def)
  let ?r = "r\<lparr>mx := (mx r)\<lparr>core := rt_schedule w\<rparr>\<rparr>"
  have "mutex_step 0 r ?r" using mutex_step.times_out [of r 1 0] r(8) out by simp
  with r(1) have run: "(mutex_step 0)\<^sup>*\<^sup>* (run_of demo_mutex) ?r" by (rule rtranclp.rtrancl_into_rtrancl)
  have rw: "runnable (stat w t) \<longleftrightarrow> t \<in> {0, 1, 2}" for t using r(3) by (simp add: f runnable_def)
  have ready: "\<exists>t. stat w t = RT_THREAD_READY" by (rule exI [of _ 1]) (simp add: f)
  then obtain c where c: "rt_current_thread (rt_schedule w) = Some c" "stat (rt_schedule w) c = RT_THREAD_RUNNING"
    "\<And>t. stat (rt_schedule w) t = RT_THREAD_READY \<Longrightarrow> demo_priority c \<le> demo_priority t"
    using schedule_runs [OF w f(3,4)] unfolding f(2) by blast
  obtain L' where L': "sched_ok (rt_schedule w) L'" "\<And>s. L' (Suspend_list s) = woken 1 ?k L (Suspend_list s)"
    "L' Defunct_list = woken 1 ?k L Defunct_list" "\<And>t. is_suspended (stat (rt_schedule w) t) = is_suspended (stat w t)"
    "\<And>t. runnable (stat (rt_schedule w) t) = runnable (stat w t)" by (rule schedule_ok [OF w f(3)]) blast
  have rdy: "stat (rt_schedule w) t = RT_THREAD_READY" if "t \<in> {0, 1, 2}" "t \<noteq> c" for t
    using that rw [of t] L'(5) [of t] sched_okD(2) [OF L'(1), of t] c(1) by (auto simp: runnable_def)
  have "c \<in> {0, 1, 2}" using L'(5) [of c] rw [of c] c(2) by (simp add: runnable_def)
  moreover have "c \<noteq> 0"
  proof
    assume "c = 0"
    with c(3) [of 1] rdy [of 1] show False by simp
  qed
  ultimately have c12: "c = 1 \<or> c = 2" by auto
  have two: "\<not> is_suspended (stat (rt_schedule w) 2)" using L'(5) [of 2] rw [of 2] suspended_stats by (auto simp: runnable_def)
  show ?thesis
  proof (cases "c = 1")
    case True
    with run c(1) r two show ?thesis by (intro that [of ?r]) simp_all
  next
    case False
    then have c2: "c = 2" using c12 by simp
    have one: "stat (rt_schedule w) 1 = RT_THREAD_READY" using rdy [of 1] c2 by simp
    have cp: "current_priority (rt_schedule w) = demo_priority" by (simp add: kernel_frame f)
    obtain to where to: "rt_current_thread (snd (rt_thread_yield (rt_schedule w))) = Some to" "stat (rt_schedule w) to = RT_THREAD_READY"
      "current_priority (rt_schedule w) to \<le> current_priority (rt_schedule w) 1"
      "stat (snd (rt_thread_yield (rt_schedule w))) = (stat (rt_schedule w))(c := RT_THREAD_READY, to := RT_THREAD_RUNNING)"
      by (rule yield_switches [OF L'(1) c(1,2) _ one]) (simp_all add: kernel_frame f c2)
    have "runnable (stat w to)" using L'(5) [of to] to(2) by (simp add: runnable_def)
    then have "to = 1" using rw [of to] to(2,3) c(2) c2 by (auto simp: cp)
    let ?s = "?r\<lparr>mx := (mx ?r)\<lparr>core := snd (rt_thread_yield (core (mx ?r)))\<rparr>\<rparr>"
    have "(mutex_step 0)\<^sup>*\<^sup>* (run_of demo_mutex) ?s" using run mutex_step.yields [of 0 ?r] by (rule rtranclp.rtrancl_into_rtrancl)
    then show ?thesis using to(1,4) \<open>to = 1\<close> c2 r by (intro that [of ?s]) simp_all
  qed
qed

lemma mutex_take_result_witness:
  "\<exists>r e y. (mutex_step 0)\<^sup>*\<^sup>* (run_of demo_mutex) r \<and> mutex_take_resumed 5 1 (mx r) = Some (e, y) \<and>
    (if mutex_owner y 5 = Some 1 then e = RT_EOK else e = - RT_ETIMEOUT)"
proof -
  obtain r where r: "(mutex_step 0)\<^sup>*\<^sup>* (run_of demo_mutex) r" "mpc r = (\<lambda>_. Outside)(1 := After 5)"
    "rt_current_thread (core (mx r)) = Some 1" "mutex_owner (mx r) = (\<lambda>_. None)(5 := Some 2)"
    "\<not> is_suspended (stat (core (mx r)) 2)" by (rule demo_run3)
  obtain L M where ok: "mutex_ok 0 (mpc r) (mx r) L M" by (rule run_inv [OF demo_mutex_ok(5) r(1)])
  have "\<exists>x. waiter_left 5 1 (mx r) = Some x"
    by (rule waiter_left_ok(2) [OF mutex_okD(1,2) [OF ok]]) (use r(4,5) in \<open>auto intro: chain_ends.no_wait\<close>)
  then have "mutex_take_resumed 5 1 (mx r) \<noteq> None" by (auto simp: mutex_take_resumed_def)
  then obtain e y where "mutex_take_resumed 5 1 (mx r) = Some (e, y)" by auto
  moreover have "mpc r 1 = After 5" by (simp add: r(2))
  ultimately show ?thesis using mutex_take_result [OF demo_mutex_ok(5) r(1,3)] r(1) by blast
qed

text \<open>A ceiling set while a thread waits reaches the owner, not the waiting thread.\<close>

lemma refresh_running:
  assumes s: "mutex_shape x L M" and u: "\<not> is_suspended (stat (core x) u)"
  shows "\<exists>y. refresh_owner u x = Some y \<and> (\<forall>t. t \<noteq> u \<longrightarrow> prio y t = prio x t)"
proof -
  obtain p where p: "thread_get_mutex_priority u x = Some p" by (rule get_priority_bounds [OF s])
  have st: "\<not> is_suspended (stat (core (set_priority u p x)) u)"
    using u change_priority_frame [OF mutex_shapeD(1) [OF s]] by (simp add: set_priority_def)
  then have "thread_update_priority u p RT_UNINTERRUPTIBLE x = Some (set_priority u p x)"
    unfolding thread_update_priority_def by (subst update_loop.simps) (simp add: hand_on_def)
  with p show ?thesis by (simp add: refresh_owner_def set_priority_def prio_def kernel_frame)
qed

lemma handed_over_below_ceiling_witness:
  "\<exists>r y. (mutex_step 0)\<^sup>*\<^sup>* (run_of demo_mutex) r \<and> rt_mutex_release 5 2 (mx r) = Some (RT_EOK, y) \<and>
    mutex_owner y 5 = Some 1 \<and> ceiling_priority y 5 < current_priority (core y) 1"
proof -
  obtain r where r: "(mutex_step 0)\<^sup>*\<^sup>* (run_of demo_mutex) r" "mpc r = (\<lambda>_. Outside)(1 := After 5)"
    "\<forall>t. runnable (stat (core (mx r)) t) \<longleftrightarrow> t = 0 \<or> t = 2" "is_suspended (stat (core (mx r)) 1)"
    "rt_current_thread (core (mx r)) = Some 2" "current_priority (core (mx r)) = demo_priority"
    "mutex_owner (mx r) = (\<lambda>_. None)(5 := Some 2)" "pending_object (mx r) 1 = Some 5" "depth r 2 5 = 1" by (rule demo_run2)
  obtain L M where ok: "mutex_ok 0 (mpc r) (mx r) L M" by (rule run_inv [OF demo_mutex_ok(5) r(1)])
  define z where "z = (mx r)\<lparr>ceiling_priority := (ceiling_priority (mx r))(5 := 3)\<rparr>"
  have z: "mutex_shape z L M" "bounds_ok {} {} z L"
    using mutex_okD(1,2) [OF ok] unfolding mutex_shape_def bounds_ok_def by (simp_all add: z_def prio_def)
  have two: "\<not> is_suspended (stat (core z) 2)" using r(3) [rule_format, of 2] suspended_stats by (auto simp: z_def runnable_def)
  obtain y where y: "refresh_owner 2 z = Some y" "\<And>t. t \<noteq> 2 \<Longrightarrow> prio y t = prio z t" using refresh_running [OF z(1) two] by blast
  from refresh_owner_ok(1) [OF z(1) bounds_ok_mono [OF z(2)] y(1)] have f: "fixed y = fixed z" by blast
  have set: "rt_mutex_setprioceiling 5 3 (mx r) = Some (ceiling_priority (mx r) 5, y)"
    using y(1) r(7) by (simp add: rt_mutex_setprioceiling_def z_def RT_THREAD_PRIORITY_MAX_def)
  let ?r = "r\<lparr>mx := y\<rparr>"
  have run: "(mutex_step 0)\<^sup>*\<^sup>* (run_of demo_mutex) ?r"
    using r(1) mutex_step.sets_ceiling [OF set] by (rule rtranclp.rtrancl_into_rtrancl)
  obtain L' M' where ok': "mutex_ok 0 (mpc ?r) (mx ?r) L' M'" by (rule run_inv [OF demo_mutex_ok(5) run])
  have fy: "is_suspended (stat (core y) 1)" "pending_object y 1 = Some 5" "rt_current_thread (core y) = Some 2" "ceiling_priority y 5 = 3"
    using fixedD [OF f] r by (simp_all add: z_def)
  have "L' (Suspend_list 5) = [1]" by (rule demo_waiting [OF ok']) (use r(2) fy in simp_all)
  moreover have "current_priority (core y) 1 = 10" using y(2) [of 1] r(6) by (simp add: prio_def z_def)
  ultimately show ?thesis
    using handed_over_below_ceiling [OF demo_mutex_ok(5) run, of 2 5 L' 1 "[]"] run fy r(2,9) mutex_shapeD(1) [OF mutex_okD(1) [OF ok']] by auto
qed

end
