(* ===== verification/Rt_Timer.thy ===== *)
theory Rt_Timer
  imports Rt_List
begin

text \<open>
  The timers of the kernel (\<^verbatim>\<open>src/rt-thread/src/timer.c\<close>) and the time of
  \<^verbatim>\<open>clock.c\<close>.  rtconfig.h leaves the soft timers out and the skip list has one level, so there is one
  list, \<open>_timer_list\<close>, and the temporary list of \<open>rt_timer_check\<close>, here the heads \<open>Timer_list\<close> and
  \<open>Check_list\<close> over the pointers of \<open>Rt_List\<close>.  Timers are numbers, a timeout function and its parameter the
  words the code stores.  What a timeout function does to timers is a parameter of the model: the calls
  into this module it makes, depending on its parameter and the state; each call of one is recorded in \<open>invoked\<close>.

  The tick count is a 32-bit word that wraps around.  \<open>left T t\<close> is the number of ticks after which the
  check will find the timer \<open>t\<close> run out, counted so that 0 and 1 are those it finds now; the list is
  sorted by it, whatever the count is.
\<close>

section \<open>The state\<close>

datatype timer_head = Timer_list | Check_list

record timers =
  row :: "(timer_head, nat) lnode links"
  timer_flag :: "nat \<Rightarrow> u8"
  timeout_func :: "nat \<Rightarrow> u32"
  parameter :: "nat \<Rightarrow> u32"
  timer_init_tick :: "nat \<Rightarrow> u32"
  timeout_tick :: "nat \<Rightarrow> u32"
  random_nr :: u32
  tick :: u32
  timer_assert :: bool
  invoked :: "(nat \<times> u32 \<times> u32 \<times> u32) list"

abbreviation (input) RT_TIMER_FLAG_DEACTIVATED :: "'a::len word" where "RT_TIMER_FLAG_DEACTIVATED \<equiv> 0"
abbreviation (input) RT_TIMER_FLAG_ACTIVATED :: "'a::len word" where "RT_TIMER_FLAG_ACTIVATED \<equiv> 1"
abbreviation (input) RT_TIMER_FLAG_PERIODIC :: u8 where "RT_TIMER_FLAG_PERIODIC \<equiv> 2"

definition RT_TICK_MAX :: u32 where "RT_TICK_MAX = 0xFFFFFFFF"

definition t_assert :: "bool \<Rightarrow> timers \<Rightarrow> timers" where
  "t_assert b T = T\<lparr>timer_assert := (timer_assert T \<or> \<not> b)\<rparr>"

fun timer_of :: "(timer_head, nat) lnode \<Rightarrow> nat" where
  "timer_of (Node t) = t"
| "timer_of (Head l) = 0"

section \<open>Operations\<close>

definition timer_init :: "nat \<Rightarrow> u32 \<Rightarrow> u32 \<Rightarrow> u32 \<Rightarrow> u8 \<Rightarrow> timers \<Rightarrow> timers" where
  "timer_init t timeout param time flag T =
     (let T = T\<lparr>timer_flag := (timer_flag T)(t := flag)\<rparr>;
          T = T\<lparr>timer_flag := (timer_flag T)(t := timer_flag T t AND NOT RT_TIMER_FLAG_ACTIVATED)\<rparr>;
          T = T\<lparr>timeout_func := (timeout_func T)(t := timeout), parameter := (parameter T)(t := param)\<rparr>;
          T = T\<lparr>timeout_tick := (timeout_tick T)(t := 0), timer_init_tick := (timer_init_tick T)(t := time)\<rparr>
      in T\<lparr>row := rt_list_init (Node t) (row T)\<rparr>)"

definition timer_list_next_timeout :: "u32 \<Rightarrow> timers \<Rightarrow> int \<times> u32" where
  "timer_list_next_timeout next_tick T =
     (if \<not> rt_list_isempty (Head Timer_list) (row T)
      then (RT_EOK, timeout_tick T (timer_of (nxt (row T) (Head Timer_list))))
      else (- RT_ERROR, next_tick))"

definition timer_remove :: "nat \<Rightarrow> timers \<Rightarrow> timers" where
  "timer_remove t T = T\<lparr>row := rt_list_remove (Node t) (row T)\<rparr>"

definition deactivate :: "nat \<Rightarrow> timers \<Rightarrow> timers" where
  "deactivate t T = T\<lparr>timer_flag := (timer_flag T)(t := timer_flag T t AND NOT RT_TIMER_FLAG_ACTIVATED)\<rparr>"

definition rt_timer_init :: "nat \<Rightarrow> u32 \<Rightarrow> u32 \<Rightarrow> u32 \<Rightarrow> u8 \<Rightarrow> timers \<Rightarrow> timers" where
  "rt_timer_init t timeout param time flag T =
     (let T = t_assert (timeout \<noteq> 0) T;
          T = t_assert (time < RT_TICK_MAX div 2) T
      in timer_init t timeout param time flag T)"

text \<open>The memory the object of a new timer is put in is the allocator's choice.\<close>

definition rt_timer_create :: "nat option \<Rightarrow> u32 \<Rightarrow> u32 \<Rightarrow> u32 \<Rightarrow> u8 \<Rightarrow> timers \<Rightarrow> nat option \<times> timers" where
  "rt_timer_create allocated timeout param time flag T =
     (let T = t_assert (timeout \<noteq> 0) T;
          T = t_assert (time < RT_TICK_MAX div 2) T
      in case allocated of
           None \<Rightarrow> (None, T)
         | Some t \<Rightarrow> (Some t, timer_init t timeout param time flag T))"

definition rt_timer_detach :: "nat \<Rightarrow> timers \<Rightarrow> int \<times> timers" where
  "rt_timer_detach t T = (RT_EOK, deactivate t (timer_remove t T))"

definition rt_timer_delete :: "nat \<Rightarrow> timers \<Rightarrow> int \<times> timers" where
  "rt_timer_delete t T = (RT_EOK, deactivate t (timer_remove t T))"

text \<open>The loop that looks for the place of a timer: it goes on to the node behind which the timer is put.\<close>

partial_function (option) start_place :: "timers \<Rightarrow> nat \<Rightarrow> (timer_head, nat) lnode \<Rightarrow> (timer_head, nat) lnode option" where
  "start_place T timer row_head =
     (if row_head \<noteq> prv (row T) (Head Timer_list) then
        let p = nxt (row T) row_head;
            t = timer_of p
        in if timeout_tick T t - timeout_tick T timer = 0 then start_place T timer (nxt (row T) row_head)
           else if timeout_tick T t - timeout_tick T timer < RT_TICK_MAX div 2 then Some row_head
           else start_place T timer (nxt (row T) row_head)
      else Some row_head)"

definition rt_timer_start :: "nat \<Rightarrow> timers \<Rightarrow> (int \<times> timers) option" where
  "rt_timer_start t T =
     (let T = deactivate t (timer_remove t T);
          T = T\<lparr>timeout_tick := (timeout_tick T)(t := tick T + timer_init_tick T t)\<rparr>
      in case start_place T t (Head Timer_list) of
           None \<Rightarrow> None
         | Some row_head \<Rightarrow>
             let T = T\<lparr>random_nr := random_nr T + 1\<rparr>;
                 T = T\<lparr>row := rt_list_insert_after row_head (Node t) (row T)\<rparr>
             in Some (RT_EOK, T\<lparr>timer_flag := (timer_flag T)(t := timer_flag T t OR RT_TIMER_FLAG_ACTIVATED)\<rparr>))"

definition rt_timer_stop :: "nat \<Rightarrow> timers \<Rightarrow> int \<times> timers" where
  "rt_timer_stop t T =
     (if timer_flag T t AND RT_TIMER_FLAG_ACTIVATED = 0 then (- RT_ERROR, T)
      else (RT_EOK, deactivate t (timer_remove t T)))"

text \<open>The commands of \<open>rt_timer_control\<close> and, for those that answer, the word they write.\<close>

datatype timer_ctrl =
  RT_TIMER_CTRL_SET_TIME u32 | RT_TIMER_CTRL_GET_TIME | RT_TIMER_CTRL_SET_ONESHOT | RT_TIMER_CTRL_SET_PERIODIC
| RT_TIMER_CTRL_GET_STATE | RT_TIMER_CTRL_GET_REMAIN_TIME | RT_TIMER_CTRL_GET_FUNC | RT_TIMER_CTRL_SET_FUNC u32
| RT_TIMER_CTRL_GET_PARM | RT_TIMER_CTRL_SET_PARM u32 | RT_TIMER_CTRL_OTHER int

fun timer_control :: "nat \<Rightarrow> timer_ctrl \<Rightarrow> timers \<Rightarrow> u32 option \<times> timers" where
  "timer_control t RT_TIMER_CTRL_GET_TIME T = (Some (timer_init_tick T t), T)"
| "timer_control t (RT_TIMER_CTRL_SET_TIME n) T =
     (let T = t_assert (n < RT_TICK_MAX div 2) T
      in (None, T\<lparr>timer_init_tick := (timer_init_tick T)(t := n)\<rparr>))"
| "timer_control t RT_TIMER_CTRL_SET_ONESHOT T =
     (None, T\<lparr>timer_flag := (timer_flag T)(t := timer_flag T t AND NOT RT_TIMER_FLAG_PERIODIC)\<rparr>)"
| "timer_control t RT_TIMER_CTRL_SET_PERIODIC T =
     (None, T\<lparr>timer_flag := (timer_flag T)(t := timer_flag T t OR RT_TIMER_FLAG_PERIODIC)\<rparr>)"
| "timer_control t RT_TIMER_CTRL_GET_STATE T =
     (if timer_flag T t AND RT_TIMER_FLAG_ACTIVATED \<noteq> 0 then (Some RT_TIMER_FLAG_ACTIVATED, T)
      else (Some RT_TIMER_FLAG_DEACTIVATED, T))"
| "timer_control t RT_TIMER_CTRL_GET_REMAIN_TIME T = (Some (timeout_tick T t), T)"
| "timer_control t RT_TIMER_CTRL_GET_FUNC T = (Some (timeout_func T t), T)"
| "timer_control t (RT_TIMER_CTRL_SET_FUNC f) T = (None, T\<lparr>timeout_func := (timeout_func T)(t := f)\<rparr>)"
| "timer_control t RT_TIMER_CTRL_GET_PARM T = (Some (parameter T t), T)"
| "timer_control t (RT_TIMER_CTRL_SET_PARM p) T = (None, T\<lparr>parameter := (parameter T)(t := p)\<rparr>)"
| "timer_control t (RT_TIMER_CTRL_OTHER c) T = (None, T)"

definition rt_timer_control :: "nat \<Rightarrow> timer_ctrl \<Rightarrow> timers \<Rightarrow> int \<times> u32 option \<times> timers" where
  "rt_timer_control t c T = (RT_EOK, timer_control t c T)"

text \<open>The calls of this module that threads, interrupts and timeout functions make on timers that exist.\<close>

datatype timer_call = Start nat | Stop nat | Control nat timer_ctrl | Detach nat

fun do_call :: "timer_call \<Rightarrow> timers \<Rightarrow> timers option" where
  "do_call (Start t) T = map_option snd (rt_timer_start t T)"
| "do_call (Stop t) T = Some (snd (rt_timer_stop t T))"
| "do_call (Control t c) T = Some (snd (snd (rt_timer_control t c T)))"
| "do_call (Detach t) T = Some (snd (rt_timer_detach t T))"

fun do_calls :: "timer_call list \<Rightarrow> timers \<Rightarrow> timers option" where
  "do_calls [] T = Some T"
| "do_calls (c # cs) T = Option.bind (do_call c T) (do_calls cs)"

type_synonym behaviour = "u32 \<Rightarrow> u32 \<Rightarrow> timers \<Rightarrow> timer_call list"

text \<open>One round of the loop of \<open>rt_timer_check\<close> up to the call of the timeout function, and from there on.\<close>

definition expire :: "nat \<Rightarrow> timers \<Rightarrow> timers" where
  "expire t T =
     (let T = timer_remove t T;
          T = (if timer_flag T t AND RT_TIMER_FLAG_PERIODIC = 0 then deactivate t T else T)
      in T\<lparr>row := rt_list_insert_after (Head Check_list) (Node t) (row T)\<rparr>)"

definition call_timeout :: "behaviour \<Rightarrow> nat \<Rightarrow> timers \<Rightarrow> timers option" where
  "call_timeout acts t T =
     do_calls (acts (timeout_func T t) (parameter T t) T)
       (T\<lparr>invoked := invoked T @ [(t, timeout_func T t, parameter T t, tick T)]\<rparr>)"

definition after_timeout :: "nat \<Rightarrow> timers \<Rightarrow> timers option" where
  "after_timeout t T =
     (if rt_list_isempty (Head Check_list) (row T) then Some T
      else
        let T = T\<lparr>row := rt_list_remove (Node t) (row T)\<rparr>
        in if timer_flag T t AND RT_TIMER_FLAG_PERIODIC \<noteq> 0 \<and> timer_flag T t AND RT_TIMER_FLAG_ACTIVATED \<noteq> 0
           then map_option snd (rt_timer_start t (deactivate t T))
           else Some T)"

partial_function (option) timer_check_loop :: "behaviour \<Rightarrow> u32 \<Rightarrow> timers \<Rightarrow> timers option" where
  "timer_check_loop acts current_tick T =
     (if \<not> rt_list_isempty (Head Timer_list) (row T) then
        let t = timer_of (nxt (row T) (Head Timer_list))
        in if current_tick - timeout_tick T t < RT_TICK_MAX div 2
           then Option.bind (call_timeout acts t (expire t T))
                  (\<lambda>T'. let current_tick = tick T'
                        in Option.bind (after_timeout t T') (timer_check_loop acts current_tick))
           else Some T
      else Some T)"

definition rt_timer_check :: "behaviour \<Rightarrow> timers \<Rightarrow> timers option" where
  "rt_timer_check acts T =
     (let T = T\<lparr>row := rt_list_init (Head Check_list) (row T)\<rparr>
      in timer_check_loop acts (tick T) T)"

definition rt_timer_next_timeout_tick :: "timers \<Rightarrow> u32" where
  "rt_timer_next_timeout_tick T = snd (timer_list_next_timeout RT_TICK_MAX T)"

definition rt_system_timer_init :: "timers \<Rightarrow> timers" where
  "rt_system_timer_init T = T\<lparr>row := rt_list_init (Head Timer_list) (row T)\<rparr>"

section \<open>The clock\<close>

definition RT_TICK_PER_SECOND :: u32 where "RT_TICK_PER_SECOND = 1000"

definition rt_tick_set :: "u32 \<Rightarrow> timers \<Rightarrow> timers" where
  "rt_tick_set n T = T\<lparr>tick := n\<rparr>"

text \<open>The clock interrupt as far as it concerns the timers.\<close>

definition clock_tick :: "behaviour \<Rightarrow> timers \<Rightarrow> timers option" where
  "clock_tick acts T = rt_timer_check acts (T\<lparr>tick := tick T + 1\<rparr>)"

definition rt_tick_from_millisecond :: "int \<Rightarrow> u32" where
  "rt_tick_from_millisecond ms =
     (if ms < 0 then - 1
      else word_of_int (1000 * (ms div 1000)) + word_of_int ((1000 * (ms mod 1000) + 999) div 1000))"

definition rt_tick_get_millisecond :: "timers \<Rightarrow> u32" where
  "rt_tick_get_millisecond T = tick T * (1000 div RT_TICK_PER_SECOND)"

section \<open>The place of a timer\<close>

definition active :: "timers \<Rightarrow> nat \<Rightarrow> bool" where
  "active T t \<longleftrightarrow> bit (timer_flag T t) 0"

definition periodic :: "timers \<Rightarrow> nat \<Rightarrow> bool" where
  "periodic T t \<longleftrightarrow> bit (timer_flag T t) 1"

lemma flag_bits [simp]:
  "timer_flag T t AND RT_TIMER_FLAG_ACTIVATED = 0 \<longleftrightarrow> \<not> active T t"
  "timer_flag T t AND RT_TIMER_FLAG_PERIODIC = 0 \<longleftrightarrow> \<not> periodic T t"
proof -
  show "timer_flag T t AND RT_TIMER_FLAG_ACTIVATED = 0 \<longleftrightarrow> \<not> active T t"
    using and_exp_eq_0_iff_not_bit [of "timer_flag T t" 0] by (simp add: active_def)
  show "timer_flag T t AND RT_TIMER_FLAG_PERIODIC = 0 \<longleftrightarrow> \<not> periodic T t"
    using and_exp_eq_0_iff_not_bit [of "timer_flag T t" 1] by (simp add: periodic_def)
qed

definition half :: nat where "half = 0x7FFFFFFF"

lemma tick_half: "RT_TICK_MAX div 2 = 0x7FFFFFFF"
  by (simp add: RT_TICK_MAX_def)

lemma less_half: "x < RT_TICK_MAX div 2 \<longleftrightarrow> unat x < half"
  by (simp add: tick_half word_less_nat_alt half_def)

definition left :: "timers \<Rightarrow> nat \<Rightarrow> nat" where
  "left T t = unat (timeout_tick T t + 1 - tick T)"

lemma word_order:
  fixes u v :: u32
  assumes "unat u \<le> half" and "0 < unat v" and "unat v \<le> half"
  shows "u - v = 0 \<or> \<not> u - v < RT_TICK_MAX div 2 \<longleftrightarrow> unat u \<le> unat v"
proof -
  have d: "unat (u - v) = (if unat v \<le> unat u then unat u - unat v else unat u + 2 ^ 32 - unat v)"
    by (simp add: unat_sub_if')
  have "u - v = 0 \<longleftrightarrow> unat u = unat v" by (simp add: word_unat_eq_iff [symmetric])
  then show ?thesis using assms d by (auto simp: less_half half_def split: if_splits)
qed

lemma passes:
  assumes "left T y \<le> half" and "0 < left T t" and "left T t \<le> half"
  shows "timeout_tick T y - timeout_tick T t = 0 \<or> \<not> timeout_tick T y - timeout_tick T t < RT_TICK_MAX div 2 \<longleftrightarrow>
    left T y \<le> left T t"
proof -
  have "timeout_tick T y - timeout_tick T t = (timeout_tick T y + 1 - tick T) - (timeout_tick T t + 1 - tick T)" by simp
  then show ?thesis unfolding left_def using assms word_order unfolding left_def by metis
qed

text \<open>The place: behind all timers that run out no later.\<close>

definition insert_timer :: "(nat \<Rightarrow> nat) \<Rightarrow> nat \<Rightarrow> nat list \<Rightarrow> nat list" where
  "insert_timer f t ts = takeWhile (\<lambda>y. f y \<le> f t) ts @ t # dropWhile (\<lambda>y. f y \<le> f t) ts"

lemma set_insert_timer [simp]: "set (insert_timer f t ts) = insert t (set ts)"
proof -
  have "set ts = set (takeWhile (\<lambda>y. f y \<le> f t) ts) \<union> set (dropWhile (\<lambda>y. f y \<le> f t) ts)"
    by (metis set_append takeWhile_dropWhile_id)
  then show ?thesis by (auto simp: insert_timer_def)
qed

lemma sorted_insert_timer: "sorted (map f ts) \<Longrightarrow> sorted (map f (insert_timer f t ts))"
proof (induction ts)
  case (Cons y ts)
  show ?case
  proof (cases "f y \<le> f t")
    case True
    then have "insert_timer f t (y # ts) = y # insert_timer f t ts" by (simp add: insert_timer_def)
    with Cons True show ?thesis by (auto)
  next
    case False
    then have "insert_timer f t (y # ts) = t # y # ts" by (simp add: insert_timer_def)
    with Cons False show ?thesis by (auto)
  qed
qed (simp add: insert_timer_def)

text \<open>The search on pointers: it starts behind the timers \<open>xs\<close> and stops behind those of \<open>ys\<close> it passes.\<close>

lemma search_place:
  assumes "ring (row T) (Head Timer_list) (map Node (xs @ ys))"
    and "\<And>y. y \<in> set ys \<Longrightarrow> left T y \<le> half" and "0 < left T t" and "left T t \<le> half"
  shows "start_place T t (last (Head Timer_list # map Node xs)) =
    Some (last (Head Timer_list # map Node (xs @ takeWhile (\<lambda>y. left T y \<le> left T t) ys)))"
  using assms(1,2)
proof (induction ys arbitrary: xs)
  case Nil
  have "prv (row T) (Head Timer_list) = last (Head Timer_list # map Node xs)"
  proof (cases xs rule: rev_cases)
    case Nil
    with Nil.prems(1) show ?thesis by (simp add: ring_def)
  next
    case (snoc zs z)
    with ring_last [of "row T" "Head Timer_list" "map Node zs" "Node z"] Nil.prems(1) show ?thesis by simp
  qed
  then show ?case by (subst start_place.simps) simp
next
  case (Cons y ys)
  let ?a = "last (Head Timer_list # map Node xs)"
  have a: "Head Timer_list # map Node xs = butlast (Head Timer_list # map Node xs) @ [?a]" by simp
  have r: "ring (row T) (Head Timer_list) (map Node xs @ Node y # map Node ys)" using Cons.prems(1) by simp
  have b: "(Node y # map Node ys) @ [Head Timer_list] = Node y # map Node ys @ [Head Timer_list]" by simp
  have n: "nxt (row T) ?a = Node y" using r [unfolded ring_link [OF a b]] by blast
  have d: "distinct (Head Timer_list # map Node xs @ Node y # map Node ys)" using r by (simp only: ring_def)
  obtain z where z: "prv (row T) (Head Timer_list) = z" "z \<in> set (Node y # map Node ys)"
  proof (rule that [OF refl])
    obtain zs and z :: "(timer_head, nat) lnode" where s: "Node y # map Node ys = zs @ [z]" by (metis append_butlast_last_id list.distinct(1))
    then have "ring (row T) (Head Timer_list) ((map Node xs @ zs) @ [z])" using r by simp
    from ring_last [OF this] s show "prv (row T) (Head Timer_list) \<in> set (Node y # map Node ys)" by simp
  qed
  have "?a \<in> set (Head Timer_list # map Node xs)" by (rule last_in_set) simp
  then have "?a \<noteq> prv (row T) (Head Timer_list)" using z d by auto
  moreover have "left T y \<le> half" using Cons.prems(2) by simp
  note passes = passes [OF this assms(3,4)]
  have next_one: "start_place T t (Node y) =
      Some (last (Head Timer_list # map Node (xs @ y # takeWhile (\<lambda>y. left T y \<le> left T t) ys)))"
    using Cons.IH [of "xs @ [y]"] Cons.prems by simp
  show ?case
  proof (cases "left T y \<le> left T t")
    case True
    with calculation passes have "start_place T t ?a = start_place T t (Node y)"
      by (subst start_place.simps) (simp only: n timer_of.simps Let_def if_True not_False_eq_True split: if_split, blast)
    with True next_one show ?thesis by simp
  next
    case False
    with calculation passes have "start_place T t ?a = Some ?a"
      by (subst start_place.simps) (simp only: n timer_of.simps Let_def if_True not_False_eq_True split: if_split, blast)
    with False show ?thesis by simp
  qed
qed

lemma insert_after_before:
  assumes "prv h (nxt h l) = l" and "n \<noteq> l" and "n \<noteq> nxt h l"
  shows "rt_list_insert_after l n h = rt_list_insert_before (nxt h l) n h"
  using assms by (simp add: rt_list_insert_after_def rt_list_insert_before_def Let_def fun_upd_twist)

lemma rings_insert_after:
  assumes h: "rings h L" and l: "L l = xs @ ys" and n: "\<And>k. n \<notin> set (L k)"
  shows "rings (rt_list_insert_after (last (Head l # map Node xs)) (Node n) h) (L(l := xs @ n # ys))"
proof -
  let ?a = "last (Head l # map Node xs)"
  have a: "Head l # map Node xs = butlast (Head l # map Node xs) @ [?a]" by simp
  obtain b vs where b: "map Node ys @ [Head l] = b # vs" by (cases "map Node ys @ [Head l]") auto
  have "ring h (Head l) (map Node xs @ map Node ys)" using rings_ring [OF h, of l] l by simp
  from this [unfolded ring_link [OF a b]] have ab: "nxt h ?a = b" "prv h b = ?a" by blast+
  have "?a \<in> set (Head l # map Node xs)" by (rule last_in_set) simp
  then have "Node n \<noteq> ?a" using n [of l] l by auto
  moreover have "b \<in> set (map Node ys @ [Head l])" unfolding b by simp
  then have "Node n \<noteq> b" using n [of l] l by auto
  ultimately have "rt_list_insert_after ?a (Node n) h = rt_list_insert_before b (Node n) h"
    using insert_after_before [of h ?a "Node n"] ab by simp
  moreover have "b = (case ys of [] \<Rightarrow> Head l | y # _ \<Rightarrow> Node y)" using b by (cases ys) auto
  ultimately show ?thesis using rings_insert_before [OF h l n, of b] by simp
qed

section \<open>The invariant and the calls\<close>

definition two_lists :: "nat list \<Rightarrow> nat list \<Rightarrow> timer_head \<Rightarrow> nat list" where
  "two_lists ts cs l = (case l of Timer_list \<Rightarrow> ts | Check_list \<Rightarrow> cs)"

lemma two_lists_simps [simp]:
  "two_lists ts cs Timer_list = ts" "two_lists ts cs Check_list = cs"
  "(two_lists ts cs)(Timer_list := us) = two_lists us cs" "(two_lists ts cs)(Check_list := us) = two_lists ts us"
  by (auto simp: two_lists_def fun_eq_iff split: timer_head.split)

lemma removeAll_two_lists: "(\<lambda>l. removeAll t (two_lists ts cs l)) = two_lists (removeAll t ts) (removeAll t cs)"
  by (auto simp: two_lists_def fun_eq_iff split: timer_head.split)

text \<open>
  \<open>ts\<close> is the list of the timers and \<open>cs\<close> the temporary one: the pointers represent them, exactly the active
  timers are in the first, or, while one is dealt with, in the second, and the first is sorted.
\<close>

definition timers_inv :: "timers \<Rightarrow> nat list \<Rightarrow> nat list \<Rightarrow> bool" where
  "timers_inv T ts cs \<longleftrightarrow>
     rings (row T) (two_lists ts cs) \<and>
     (\<forall>t. active T t \<longrightarrow> t \<in> set ts \<union> set cs) \<and>
     (\<forall>t\<in>set ts. active T t \<and> left T t \<le> half) \<and>
     (\<forall>t. unat (timer_init_tick T t) < half) \<and>
     sorted (map (left T) ts) \<and>
     \<not> timer_assert T"

lemma timers_invD:
  assumes "timers_inv T ts cs"
  shows "rings (row T) (two_lists ts cs)" "active T t \<Longrightarrow> t \<in> set ts \<union> set cs" "t \<in> set ts \<Longrightarrow> active T t"
    "t \<in> set ts \<Longrightarrow> left T t \<le> half" "unat (timer_init_tick T t) < half" "sorted (map (left T) ts)" "\<not> timer_assert T"
    "distinct ts" "distinct cs" "t \<in> set ts \<Longrightarrow> t \<notin> set cs"
  using assms rings_distinct [of "row T" "two_lists ts cs" Timer_list] rings_distinct [of "row T" "two_lists ts cs" Check_list]
    rings_once [of "row T" "two_lists ts cs" t Timer_list Check_list]
  by (auto simp: timers_inv_def)

named_theorems timer_frame \<open>the fields an operation on timers leaves alone\<close>

lemma deactivate_frame [timer_frame, simp]:
  "row (deactivate t T) = row T" "timeout_func (deactivate t T) = timeout_func T" "parameter (deactivate t T) = parameter T"
  "timer_init_tick (deactivate t T) = timer_init_tick T" "timeout_tick (deactivate t T) = timeout_tick T"
  "tick (deactivate t T) = tick T" "timer_assert (deactivate t T) = timer_assert T" "invoked (deactivate t T) = invoked T"
  "active (deactivate t T) u \<longleftrightarrow> active T u \<and> u \<noteq> t" "periodic (deactivate t T) = periodic T"
  "left (deactivate t T) = left T"
  by (auto simp: deactivate_def active_def periodic_def left_def fun_eq_iff bit_simps)

lemma timer_remove_frame [timer_frame, simp]:
  "row (timer_remove t T) = rt_list_remove (Node t) (row T)"
  "timeout_func (timer_remove t T) = timeout_func T" "parameter (timer_remove t T) = parameter T"
  "timer_init_tick (timer_remove t T) = timer_init_tick T" "timeout_tick (timer_remove t T) = timeout_tick T"
  "tick (timer_remove t T) = tick T" "timer_assert (timer_remove t T) = timer_assert T" "invoked (timer_remove t T) = invoked T"
  "active (timer_remove t T) = active T" "periodic (timer_remove t T) = periodic T" "left (timer_remove t T) = left T"
  by (auto simp: timer_remove_def active_def periodic_def left_def fun_eq_iff)

lemma row_update [simp]:
  "active (T\<lparr>row := h\<rparr>) = active T" "periodic (T\<lparr>row := h\<rparr>) = periodic T" "left (T\<lparr>row := h\<rparr>) = left T"
  "active (T\<lparr>random_nr := n\<rparr>) = active T" "periodic (T\<lparr>random_nr := n\<rparr>) = periodic T" "left (T\<lparr>random_nr := n\<rparr>) = left T"
  "active (T\<lparr>invoked := i\<rparr>) = active T" "periodic (T\<lparr>invoked := i\<rparr>) = periodic T" "left (T\<lparr>invoked := i\<rparr>) = left T"
  "active (T\<lparr>tick := m\<rparr>) = active T" "periodic (T\<lparr>tick := m\<rparr>) = periodic T"
  by (auto simp: active_def periodic_def left_def fun_eq_iff)

lemma sorted_filter_map: "sorted (map f ts) \<Longrightarrow> sorted (map f (removeAll t ts))"
  by (simp add: removeAll_filter_not_eq sorted_filter)

text \<open>Taking a timer out.\<close>

lemma taken_out:
  assumes "timers_inv T ts cs"
  shows "timers_inv (deactivate t (timer_remove t T)) (removeAll t ts) (removeAll t cs)"
  using assms rings_remove [of "row T" "two_lists ts cs" t]
  by (auto simp: timers_inv_def removeAll_two_lists sorted_filter_map)

lemma start_ok:
  assumes inv: "timers_inv T ts cs"
  obtains T' where "rt_timer_start t T = Some (RT_EOK, T')"
    "timers_inv T' (insert_timer (left T') t (removeAll t ts)) (removeAll t cs)"
    "timeout_tick T' = (timeout_tick T)(t := tick T + timer_init_tick T t)" "left T' t = unat (timer_init_tick T t) + 1"
    "\<And>u. u \<noteq> t \<Longrightarrow> left T' u = left T u"
    "tick T' = tick T" "timer_init_tick T' = timer_init_tick T" "periodic T' = periodic T" "invoked T' = invoked T"
    "timeout_func T' = timeout_func T" "parameter T' = parameter T" "\<And>u. active T' u \<longleftrightarrow> active T u \<or> u = t"
proof -
  let ?T1 = "deactivate t (timer_remove t T)"
  let ?T2 = "?T1\<lparr>timeout_tick := (timeout_tick ?T1)(t := tick T + timer_init_tick T t)\<rparr>"
  let ?ts = "removeAll t ts" and ?cs = "removeAll t cs"
  have inv1: "timers_inv ?T1 ?ts ?cs" by (rule taken_out [OF inv])
  have n: "unat (timer_init_tick T t) < half" by (rule timers_invD(5) [OF inv])
  have "unat (1 + timer_init_tick T t) = unat (timer_init_tick T t) + 1"
    using n by (simp add: unat_word_ariths half_def)
  then have lt: "left ?T2 t = unat (timer_init_tick T t) + 1" by (simp add: left_def add.commute)
  have lo: "left ?T2 u = left T u" if "u \<noteq> t" for u using that by (simp add: left_def)
  have r: "ring (row ?T2) (Head Timer_list) (map Node ([] @ ?ts))"
    using rings_ring [OF timers_invD(1) [OF inv1], of Timer_list] by simp
  have low: "left ?T2 y \<le> half" if "y \<in> set ?ts" for y
    using timers_invD(4) [OF inv1, of y] that lo [of y] by simp
  have "0 < left ?T2 t" "left ?T2 t \<le> half" using lt n by (auto simp: half_def)
  note s = search_place [OF r low this, unfolded append_Nil list.map last.simps simp_thms if_True]
  define xs where "xs = takeWhile (\<lambda>y. left ?T2 y \<le> left ?T2 t) ?ts"
  define ys where "ys = dropWhile (\<lambda>y. left ?T2 y \<le> left ?T2 t) ?ts"
  have place: "start_place ?T2 t (Head Timer_list) = Some (last (Head Timer_list # map Node xs))"
    using s unfolding xs_def last.simps .
  have ts: "?ts = xs @ ys" by (simp add: xs_def ys_def)
  let ?h = "rt_list_insert_after (last (Head Timer_list # map Node xs)) (Node t) (row ?T1)"
  let ?T3 = "?T2\<lparr>random_nr := random_nr ?T2 + 1, row := ?h\<rparr>"
  define T4 where "T4 = ?T3\<lparr>timer_flag := (timer_flag ?T3)(t := timer_flag ?T3 t OR RT_TIMER_FLAG_ACTIVATED)\<rparr>"
  have e: "rt_timer_start t T = Some (RT_EOK, T4)"
    unfolding rt_timer_start_def Let_def T4_def using place by (simp del: last.simps)
  have l4: "left T4 = left ?T2" by (simp add: T4_def left_def fun_eq_iff)
  have h4: "row T4 = ?h" by (simp add: T4_def)
  have act: "active T4 u \<longleftrightarrow> active T u \<or> u = t" for u
    by (auto simp: T4_def active_def bit_simps deactivate_def timer_remove_def)
  have p4: "periodic T4 = periodic T" by (auto simp: T4_def periodic_def fun_eq_iff bit_simps deactivate_def timer_remove_def)
  have f4: "tick T4 = tick T" "timer_init_tick T4 = timer_init_tick T" "invoked T4 = invoked T" "timer_assert T4 = timer_assert T"
    "timeout_func T4 = timeout_func T" "parameter T4 = parameter T"
    "timeout_tick T4 = (timeout_tick T)(t := tick T + timer_init_tick T t)" by (simp_all add: T4_def)
  have ins: "insert_timer (left T4) t ?ts = xs @ t # ys" unfolding insert_timer_def xs_def ys_def l4 ..
  have "rings ?h ((two_lists ?ts ?cs)(Timer_list := xs @ t # ys))"
  proof (rule rings_insert_after [OF timers_invD(1) [OF inv1]])
    fix k show "t \<notin> set (two_lists ?ts ?cs k)" by (cases k) simp_all
  qed (simp add: ts)
  then have "rings (row T4) (two_lists (insert_timer (left T4) t ?ts) ?cs)" by (simp only: ins h4 two_lists_simps)
  moreover have "sorted (map (left T4) (insert_timer (left T4) t ?ts))"
  proof (rule sorted_insert_timer)
    have eq: "map (left T4) ?ts = map (left T) ?ts" unfolding l4 by (rule map_cong [OF refl], rule lo) simp
    show "sorted (map (left T4) ?ts)" unfolding eq using timers_invD(6) [OF inv1] by simp
  qed
  moreover have "left T4 u \<le> half" if "u \<in> set (insert_timer (left T4) t ?ts)" for u
  proof (cases "u = t")
    case True
    then show ?thesis unfolding l4 using lt n by simp
  next
    case False
    with that low [of u] show ?thesis unfolding l4 by simp
  qed
  ultimately have inv4: "timers_inv T4 (insert_timer (left T4) t ?ts) ?cs"
    using inv by (auto simp: timers_inv_def act f4)
  have "left T4 t = unat (timer_init_tick T t) + 1" "\<And>u. u \<noteq> t \<Longrightarrow> left T4 u = left T u"
    unfolding l4 by (rule lt, rule lo)
  then show ?thesis by (rule_tac that [OF e inv4]) (simp_all add: f4 p4 act)
qed

text \<open>A call a timeout function or a thread may make; the time it sets must satisfy the assertion.\<close>

fun call_ok :: "timer_call \<Rightarrow> bool" where
  "call_ok (Control t (RT_TIMER_CTRL_SET_TIME n)) \<longleftrightarrow> n < RT_TICK_MAX div 2"
| "call_ok c \<longleftrightarrow> True"

fun names :: "timer_call \<Rightarrow> nat" where
  "names (Start t) = t" | "names (Stop t) = t" | "names (Control t c) = t" | "names (Detach t) = t"

text \<open>
  The timers of a system that always comes to an end with its timeout functions: every timer of the set \<open>K\<close> has a
  time that is not zero, and only these are started; \<open>due\<close> are those the check will find run out.
\<close>

definition live :: "nat set \<Rightarrow> timers \<Rightarrow> nat list \<Rightarrow> bool" where
  "live K T ts \<longleftrightarrow> set ts \<subseteq> K \<and> (\<forall>t\<in>K. timer_init_tick T t \<noteq> 0)"

fun call_live :: "nat set \<Rightarrow> timer_call \<Rightarrow> bool" where
  "call_live K (Control t (RT_TIMER_CTRL_SET_TIME n)) \<longleftrightarrow> t \<in> K \<and> n \<noteq> 0"
| "call_live K c \<longleftrightarrow> names c \<in> K"

definition due :: "timers \<Rightarrow> nat list \<Rightarrow> nat set" where
  "due T ts = {t \<in> set ts. left T t \<le> 1}"

text \<open>
  A timeout function should not make timers one-shot: its own would stay marked active although it is in no list.
  \<open>steady\<close> says that the timer that is dealt with is active only if it is to be started again.
\<close>

fun call_steady :: "timer_call \<Rightarrow> bool" where
  "call_steady (Control t RT_TIMER_CTRL_SET_ONESHOT) \<longleftrightarrow> False"
| "call_steady c \<longleftrightarrow> True"

definition steady :: "timers \<Rightarrow> nat list \<Rightarrow> bool" where
  "steady T cs \<longleftrightarrow> (\<forall>t\<in>set cs. active T t \<longrightarrow> periodic T t)"

text \<open>What a call on another timer leaves as it is.\<close>

definition untouched :: "nat \<Rightarrow> timers \<Rightarrow> timers \<Rightarrow> bool" where
  "untouched t T T' \<longleftrightarrow> active T' t = active T t \<and> periodic T' t = periodic T t \<and> timeout_tick T' t = timeout_tick T t \<and>
     timer_init_tick T' t = timer_init_tick T t"

lemma control_frame:
  "row (snd (timer_control t c T)) = row T" "tick (snd (timer_control t c T)) = tick T"
  "invoked (snd (timer_control t c T)) = invoked T" "timeout_tick (snd (timer_control t c T)) = timeout_tick T"
  "left (snd (timer_control t c T)) = left T"
  by (cases c; simp add: Let_def t_assert_def left_def fun_eq_iff)+

lemma control_active: "active (snd (timer_control t c T)) = active T"
  by (cases c) (auto simp: Let_def t_assert_def active_def fun_eq_iff bit_simps)

lemma control_init_tick:
  "timer_init_tick (snd (timer_control t c T)) u =
     (case c of RT_TIMER_CTRL_SET_TIME n \<Rightarrow> if u = t then n else timer_init_tick T u | _ \<Rightarrow> timer_init_tick T u)"
  by (cases c) (simp_all add: Let_def t_assert_def)

lemma control_periodic: "u \<noteq> t \<Longrightarrow> periodic (snd (timer_control t c T)) u = periodic T u"
  by (cases c) (simp_all add: Let_def t_assert_def periodic_def)

lemma control_inv:
  assumes "timers_inv T ts cs" and "call_ok (Control t c)"
  shows "timers_inv (snd (timer_control t c T)) ts cs"
    and "u \<noteq> t \<Longrightarrow> untouched u T (snd (timer_control t c T))"
proof -
  have "unat (timer_init_tick (snd (timer_control t c T)) u) < half" for u
    using assms timers_invD(5) [OF assms(1), of u] by (cases c) (auto simp: less_half Let_def t_assert_def)
  moreover have "timer_assert (snd (timer_control t c T)) = timer_assert T"
    using assms(2) by (cases c) (simp_all add: t_assert_def Let_def)
  ultimately show "timers_inv (snd (timer_control t c T)) ts cs"
    using assms(1) by (simp add: timers_inv_def control_frame control_active)
  show "u \<noteq> t \<Longrightarrow> untouched u T (snd (timer_control t c T))"
    by (simp add: untouched_def control_frame control_active control_periodic control_init_tick split: timer_ctrl.split)
qed

lemma due_insert:
  assumes "1 < left T' t" and "\<forall>u. u \<noteq> t \<longrightarrow> left T' u = left T u"
  shows "due T' (insert_timer f t (removeAll t ts)) \<subseteq> due T ts"
proof
  fix u assume "u \<in> due T' (insert_timer f t (removeAll t ts))"
  with assms show "u \<in> due T ts" by (cases "u = t") (auto simp: due_def)
qed

lemma do_call_ok:
  assumes inv: "timers_inv T ts cs" and ok: "call_ok c"
  obtains T' ts' cs' where "do_call c T = Some T'" "timers_inv T' ts' cs'" "tick T' = tick T" "invoked T' = invoked T"
    "cs' = cs \<or> cs' = removeAll (names c) cs" "\<forall>u. u \<noteq> names c \<longrightarrow> untouched u T T' \<and> (u \<in> set ts' \<longleftrightarrow> u \<in> set ts)"
    "\<forall>K. live K T ts \<and> call_live K c \<longrightarrow> live K T' ts' \<and> due T' ts' \<subseteq> due T ts"
    "call_steady c \<and> steady T cs \<longrightarrow> steady T' cs'"
proof (cases c)
  case (Start t)
  obtain T' where "rt_timer_start t T = Some (RT_EOK, T')"
    "timers_inv T' (insert_timer (left T') t (removeAll t ts)) (removeAll t cs)"
    "timeout_tick T' = (timeout_tick T)(t := tick T + timer_init_tick T t)"
    "tick T' = tick T" "timer_init_tick T' = timer_init_tick T" "periodic T' = periodic T" "invoked T' = invoked T"
    "\<forall>u. active T' u \<longleftrightarrow> active T u \<or> u = t" "left T' t = unat (timer_init_tick T t) + 1" "\<forall>u. u \<noteq> t \<longrightarrow> left T' u = left T u"
    by (rule start_ok [OF inv]) blast
  note T' = this
  have start_live: "live K T' (insert_timer (left T') t (removeAll t ts)) \<and> due T' (insert_timer (left T') t (removeAll t ts)) \<subseteq> due T ts"
    if k: "live K T ts" "t \<in> K" for K
  proof -
    have "timer_init_tick T t \<noteq> 0" using k by (simp add: live_def)
    then have "1 < left T' t" using T'(9) by (simp add: unat_gt_0)
    from due_insert [OF this T'(10)] show ?thesis using k T'(5) by (auto simp: live_def)
  qed
  show thesis
  proof (rule that [OF _ T'(2)])
    show "do_call c T = Some T'" using Start T'(1) by simp
    show "\<forall>u. u \<noteq> names c \<longrightarrow> untouched u T T' \<and> (u \<in> set (insert_timer (left T') t (removeAll t ts)) \<longleftrightarrow> u \<in> set ts)"
      using Start T'(3,5,6,8) by (auto simp: untouched_def)
    show "\<forall>K. live K T ts \<and> call_live K c \<longrightarrow> live K T' (insert_timer (left T') t (removeAll t ts)) \<and>
        due T' (insert_timer (left T') t (removeAll t ts)) \<subseteq> due T ts"
      unfolding Start call_live.simps names.simps using start_live by blast
    show "call_steady c \<and> steady T cs \<longrightarrow> steady T' (removeAll t cs)" using T'(6,8) by (simp add: steady_def)
  qed (use Start T' in simp_all)
next
  case (Stop t)
  show thesis
  proof (cases "active T t")
    case True
    then show thesis using Stop taken_out [OF inv, of t]
      by (intro that [of "deactivate t (timer_remove t T)" "removeAll t ts" "removeAll t cs"])
        (auto simp: rt_timer_stop_def untouched_def live_def due_def steady_def)
  next
    case False
    then show thesis using Stop inv by (intro that [of T ts cs]) (auto simp: rt_timer_stop_def untouched_def live_def)
  qed
next
  case (Control t x)
  moreover have "periodic (snd (timer_control t x T)) u" if "periodic T u" "call_steady c" for u
    using that Control by (cases x) (auto simp: Let_def t_assert_def periodic_def bit_simps)
  ultimately show thesis
    using control_inv [OF inv, of t x] ok control_frame [of t x T] control_active [of t x T]
    by (intro that [of "snd (timer_control t x T)" ts cs])
      (auto simp: rt_timer_control_def live_def due_def steady_def control_init_tick split: timer_ctrl.splits)
next
  case (Detach t)
  then show thesis using taken_out [OF inv, of t]
    by (intro that [of "deactivate t (timer_remove t T)" "removeAll t ts" "removeAll t cs"])
      (auto simp: rt_timer_detach_def untouched_def live_def due_def steady_def)
qed

text \<open>Any sequence of calls.\<close>

definition acts_ok :: "behaviour \<Rightarrow> bool" where
  "acts_ok acts \<longleftrightarrow> (\<forall>f p T. \<forall>c\<in>set (acts f p T). call_ok c \<and> call_steady c)"

lemma untouched_trans: "untouched t T T' \<Longrightarrow> untouched t T' T'' \<Longrightarrow> untouched t T T''"
  by (simp add: untouched_def)

lemma do_calls_ok:
  assumes "timers_inv T ts cs" and "\<forall>c\<in>set calls. call_ok c"
  obtains T' ts' cs' where "do_calls calls T = Some T'" "timers_inv T' ts' cs'" "tick T' = tick T" "invoked T' = invoked T"
    "set cs' \<subseteq> set cs" "\<forall>u. (\<forall>c\<in>set calls. names c \<noteq> u) \<longrightarrow> untouched u T T' \<and> (u \<in> set ts' \<longleftrightarrow> u \<in> set ts)"
    "\<forall>K. live K T ts \<and> (\<forall>c\<in>set calls. call_live K c) \<longrightarrow> live K T' ts' \<and> due T' ts' \<subseteq> due T ts"
    "(\<forall>c\<in>set calls. call_steady c) \<and> steady T cs \<longrightarrow> steady T' cs'"
    "\<forall>u. (\<forall>c\<in>set calls. names c \<noteq> u) \<longrightarrow> u \<in> set cs \<longrightarrow> u \<in> set cs'"
  using assms
proof (induction calls arbitrary: T ts cs thesis)
  case Nil
  show ?case by (rule Nil.prems(1) [of T ts cs]) (use Nil.prems in \<open>auto simp: untouched_def\<close>)
next
  case (Cons c calls)
  have "call_ok c" using Cons.prems(3) by simp
  with Cons.prems(2) obtain T1 ts1 cs1 where 1: "do_call c T = Some T1" "timers_inv T1 ts1 cs1" "tick T1 = tick T" "invoked T1 = invoked T"
    "cs1 = cs \<or> cs1 = removeAll (names c) cs" "\<forall>u. u \<noteq> names c \<longrightarrow> untouched u T T1 \<and> (u \<in> set ts1 \<longleftrightarrow> u \<in> set ts)"
    "\<forall>K. live K T ts \<and> call_live K c \<longrightarrow> live K T1 ts1 \<and> due T1 ts1 \<subseteq> due T ts"
    "call_steady c \<and> steady T cs \<longrightarrow> steady T1 cs1"
    by (rule do_call_ok)
  have "\<forall>c\<in>set calls. call_ok c" using Cons.prems(3) by simp
  then obtain T' ts' cs' where 2: "do_calls calls T1 = Some T'" "timers_inv T' ts' cs'" "tick T' = tick T1" "invoked T' = invoked T1"
    "set cs' \<subseteq> set cs1" "\<forall>u. (\<forall>c\<in>set calls. names c \<noteq> u) \<longrightarrow> untouched u T1 T' \<and> (u \<in> set ts' \<longleftrightarrow> u \<in> set ts1)"
    "\<forall>K. live K T1 ts1 \<and> (\<forall>c\<in>set calls. call_live K c) \<longrightarrow> live K T' ts' \<and> due T' ts' \<subseteq> due T1 ts1"
    "(\<forall>c\<in>set calls. call_steady c) \<and> steady T1 cs1 \<longrightarrow> steady T' cs'"
    "\<forall>u. (\<forall>c\<in>set calls. names c \<noteq> u) \<longrightarrow> u \<in> set cs1 \<longrightarrow> u \<in> set cs'"
    using Cons.IH [OF _ 1(2)] by blast
  show ?case
  proof (rule Cons.prems(1) [of T' ts' cs'])
    show "set cs' \<subseteq> set cs" using 1(5) 2(5) by auto
    show "\<forall>u. (\<forall>c'\<in>set (c # calls). names c' \<noteq> u) \<longrightarrow> untouched u T T' \<and> (u \<in> set ts' \<longleftrightarrow> u \<in> set ts)"
      using 1(6) 2(6) untouched_trans by (metis list.set_intros)
    show "\<forall>u. (\<forall>c'\<in>set (c # calls). names c' \<noteq> u) \<longrightarrow> u \<in> set cs \<longrightarrow> u \<in> set cs'"
      using 1(5) 2(9) by auto
    show "\<forall>K. live K T ts \<and> (\<forall>c'\<in>set (c # calls). call_live K c') \<longrightarrow> live K T' ts' \<and> due T' ts' \<subseteq> due T ts"
      using 1(7) 2(7) by (metis list.set_intros subset_trans)
  qed (use 1 2 in simp_all)
qed

section \<open>One round of the check\<close>

lemma first_timer:
  assumes "timers_inv T ts cs"
  shows "rt_list_isempty (Head Timer_list) (row T) \<longleftrightarrow> ts = []"
    and "ts \<noteq> [] \<Longrightarrow> timer_of (nxt (row T) (Head Timer_list)) = hd ts"
  using rings_isempty [OF timers_invD(1) [OF assms], of Timer_list] rings_first [OF timers_invD(1) [OF assms], of Timer_list]
  by simp_all

lemma due_now:
  assumes "left T t \<le> half"
  shows "tick T - timeout_tick T t < RT_TICK_MAX div 2 \<longleftrightarrow> left T t \<le> 1"
proof -
  define w where "w = timeout_tick T t + 1 - tick T"
  have e: "tick T - timeout_tick T t = 1 - w" by (simp add: w_def)
  have "unat (1 - w) = (if unat w \<le> 1 then 1 - unat w else 2 ^ 32 + 1 - unat w)" by (simp add: unat_sub_if')
  then show ?thesis unfolding e using assms by (auto simp: less_half half_def left_def simp flip: w_def)
qed

lemma expire_ok:
  assumes inv: "timers_inv T (t # ts) []"
  shows "timers_inv (expire t T) ts [t]" and "tick (expire t T) = tick T" and "invoked (expire t T) = invoked T"
    and "active (expire t T) u \<longleftrightarrow> active T u \<and> (u \<noteq> t \<or> periodic T t)" and "periodic (expire t T) = periodic T"
    and "timeout_tick (expire t T) = timeout_tick T" and "timer_init_tick (expire t T) = timer_init_tick T"
    and "timeout_func (expire t T) = timeout_func T" and "parameter (expire t T) = parameter T"
proof -
  note d = timers_invD [OF inv]
  have t: "t \<notin> set ts" using d(8) by simp
  have out: "rings (rt_list_remove (Node t) (row T)) (two_lists ts [])"
    using rings_remove [OF d(1), of t] t by (simp add: removeAll_two_lists)
  have "t \<notin> set (two_lists ts [] k)" for k using t by (cases k) simp_all
  from rings_push [OF out this, of Check_list]
  have r: "rings (row (expire t T)) (two_lists ts [t])" by (simp add: expire_def Let_def)
  have l: "left (expire t T) = left T" by (simp add: expire_def Let_def)
  show act: "active (expire t T) u \<longleftrightarrow> active T u \<and> (u \<noteq> t \<or> periodic T t)" for u by (auto simp: expire_def Let_def)
  show f: "tick (expire t T) = tick T" "invoked (expire t T) = invoked T" "periodic (expire t T) = periodic T"
    "timeout_tick (expire t T) = timeout_tick T" "timer_init_tick (expire t T) = timer_init_tick T"
    "timeout_func (expire t T) = timeout_func T" "parameter (expire t T) = parameter T"
    by (simp_all add: expire_def Let_def fun_eq_iff)
  have "timer_assert (expire t T) = timer_assert T" by (simp add: expire_def Let_def)
  then show "timers_inv (expire t T) ts [t]"
    using inv r t by (auto simp: timers_inv_def l act f)
qed

text \<open>How often the timeout function of a timer was called.\<close>

definition fired :: "timers \<Rightarrow> nat \<Rightarrow> nat" where
  "fired T t = length (filter (\<lambda>i. fst i = t) (invoked T))"

text \<open>A timer that no timeout function touches.\<close>

definition left_alone :: "nat \<Rightarrow> behaviour \<Rightarrow> bool" where
  "left_alone t acts \<longleftrightarrow> (\<forall>f p T. \<forall>c\<in>set (acts f p T). names c \<noteq> t)"

definition acts_live :: "nat set \<Rightarrow> behaviour \<Rightarrow> bool" where
  "acts_live K acts \<longleftrightarrow> (\<forall>f p T. \<forall>c\<in>set (acts f p T). call_live K c)"

text \<open>
  What one round does to the timer \<open>t\<close> it finds run out: its timeout function is called once; a periodic timer is
  started again, another is no longer active.
\<close>

definition ran_out :: "nat \<Rightarrow> timers \<Rightarrow> timers \<Rightarrow> nat list \<Rightarrow> bool" where
  "ran_out t T T' ts' \<longleftrightarrow>
     fired T' t = fired T t + 1 \<and> periodic T' t = periodic T t \<and> timer_init_tick T' t = timer_init_tick T t \<and>
     (t \<in> set ts' \<longleftrightarrow> periodic T t) \<and> (periodic T t \<longrightarrow> left T' t = unat (timer_init_tick T t) + 1)"

lemma after_timeout_ok:
  assumes inv: "timers_inv T ts cs" and cs: "set cs \<subseteq> {t}" and st: "steady T cs"
  obtains T' ts' where "after_timeout t T = Some T'" "timers_inv T' ts' []" "tick T' = tick T" "invoked T' = invoked T"
    "\<forall>u. u \<noteq> t \<longrightarrow> untouched u T T' \<and> (u \<in> set ts' \<longleftrightarrow> u \<in> set ts)"
    "\<forall>K. live K T ts \<and> t \<in> K \<longrightarrow> live K T' ts' \<and> due T' ts' \<subseteq> due T ts"
    "t \<in> set cs \<longrightarrow> periodic T' t = periodic T t \<and> timer_init_tick T' t = timer_init_tick T t \<and>
       (t \<in> set ts' \<longleftrightarrow> active T t) \<and> (active T t \<longrightarrow> left T' t = unat (timer_init_tick T t) + 1)"
proof -
  have "cs = [] \<or> cs = [t]"
    using cs timers_invD(9) [OF inv] by (metis distinct_length_2_or_more insert_subset list.exhaust list.simps(15) singletonD)
  then consider "cs = []" | "cs = [t]" "periodic T t \<and> active T t" | "cs = [t]" "\<not> active T t"
    using st by (cases "active T t") (auto simp: steady_def)
  then show thesis
  proof cases
    case 1
    with inv rings_isempty [OF timers_invD(1) [OF inv], of Check_list] show thesis
      by (intro that [of T ts]) (auto simp: after_timeout_def untouched_def)
  next
    case 2
    then have t: "t \<notin> set ts" using timers_invD(10) [OF inv, of t] by auto
    let ?T1 = "T\<lparr>row := rt_list_remove (Node t) (row T)\<rparr>"
    have i: "timers_inv (deactivate t ?T1) ts []"
      using taken_out [OF inv, of t] 2 t by (simp add: timer_remove_def)
    let ?D = "deactivate t ?T1"
    obtain T' where T': "rt_timer_start t ?D = Some (RT_EOK, T')"
      "timers_inv T' (insert_timer (left T') t (removeAll t ts)) (removeAll t [])"
      "timeout_tick T' = (timeout_tick ?D)(t := tick ?D + timer_init_tick ?D t)" "left T' t = unat (timer_init_tick ?D t) + 1"
      "\<forall>u. u \<noteq> t \<longrightarrow> left T' u = left ?D u" "tick T' = tick ?D" "timer_init_tick T' = timer_init_tick ?D" "periodic T' = periodic ?D"
      "invoked T' = invoked ?D" "\<forall>u. active T' u \<longleftrightarrow> active ?D u \<or> u = t"
      by (rule start_ok [OF i, of t]) blast
    note T' = T' [unfolded deactivate_frame row_update timers.simps]
    have e: "after_timeout t T = Some T'"
      using 2 T'(1) rings_isempty [OF timers_invD(1) [OF inv], of Check_list] by (simp add: after_timeout_def Let_def)
    show thesis
    proof (rule that [OF e])
      show "timers_inv T' (insert_timer (left T') t (removeAll t ts)) []" using T'(2) by simp
      show "\<forall>K. live K T ts \<and> t \<in> K \<longrightarrow> live K T' (insert_timer (left T') t (removeAll t ts)) \<and>
          due T' (insert_timer (left T') t (removeAll t ts)) \<subseteq> due T ts"
      proof (intro allI impI)
        fix K assume k: "live K T ts \<and> t \<in> K"
        then have "timer_init_tick T t \<noteq> 0" by (simp add: live_def)
        then have "1 < left T' t" using T'(4) by (simp add: unat_gt_0)
        from due_insert [OF this T'(5)] k T'(7)
        show "live K T' (insert_timer (left T') t (removeAll t ts)) \<and> due T' (insert_timer (left T') t (removeAll t ts)) \<subseteq> due T ts"
          by (auto simp: live_def)
      qed
    qed (use T' 2 in \<open>auto simp: untouched_def\<close>)
  next
    case 3
    let ?T1 = "T\<lparr>row := rt_list_remove (Node t) (row T)\<rparr>"
    have t: "t \<notin> set ts" using 3 timers_invD(10) [OF inv, of t] by auto
    have e: "after_timeout t T = Some ?T1"
      using 3 rings_isempty [OF timers_invD(1) [OF inv], of Check_list] by (auto simp: after_timeout_def Let_def)
    have "timers_inv ?T1 ts []"
      using inv t 3 rings_remove [OF timers_invD(1) [OF inv], of t] by (auto simp: timers_inv_def removeAll_two_lists)
    then show thesis
      using 3 t e by (intro that [of ?T1 ts]) (auto simp: untouched_def live_def due_def)
  qed
qed

lemma inv_invoked [simp]: "timers_inv (T\<lparr>invoked := i\<rparr>) ts cs = timers_inv T ts cs"
  by (simp add: timers_inv_def)

lemma round_ok:
  assumes inv: "timers_inv T (t # ts) []" and ok: "acts_ok acts"
  obtains T1 T2 ts2 where "call_timeout acts t (expire t T) = Some T1" "tick T1 = tick T" "after_timeout t T1 = Some T2"
    "timers_inv T2 ts2 []" "tick T2 = tick T" "\<exists>f p. invoked T2 = invoked T @ [(t, f, p, tick T)]"
    "\<forall>K. live K T (t # ts) \<and> acts_live K acts \<longrightarrow> live K T2 ts2 \<and> due T2 ts2 \<subseteq> due T (t # ts) - {t}"
    "left_alone t acts \<longrightarrow> ran_out t T T2 ts2"
    "\<forall>u. u \<noteq> t \<and> left_alone u acts \<longrightarrow> untouched u T T2 \<and> (u \<in> set ts2 \<longleftrightarrow> u \<in> set ts)"
proof -
  note x = expire_ok [OF inv]
  let ?f = "timeout_func (expire t T) t" and ?p = "parameter (expire t T) t"
  let ?X = "expire t T\<lparr>invoked := invoked (expire t T) @ [(t, ?f, ?p, tick (expire t T))]\<rparr>"
  let ?calls = "acts ?f ?p (expire t T)"
  have invX: "timers_inv ?X ts [t]" using x(1) by simp
  have t: "active T t" "t \<notin> set ts" using timers_invD(3,8) [OF inv] by auto
  have ok': "\<forall>c\<in>set ?calls. call_ok c" "\<forall>c\<in>set ?calls. call_steady c" using ok by (simp_all add: acts_ok_def)
  have lX: "left ?X u = left T u" "left (expire t T) u = left T u" for u using x by (simp_all add: left_def)
  have stX: "steady ?X [t]" using x(4,5) by (simp add: steady_def)
  obtain T1 ts1 cs1 where 1: "do_calls ?calls ?X = Some T1" "timers_inv T1 ts1 cs1" "tick T1 = tick ?X" "invoked T1 = invoked ?X"
    "set cs1 \<subseteq> set [t]" "\<forall>u. (\<forall>c\<in>set ?calls. names c \<noteq> u) \<longrightarrow> untouched u ?X T1 \<and> (u \<in> set ts1 \<longleftrightarrow> u \<in> set ts)"
    "\<forall>K. live K ?X ts \<and> (\<forall>c\<in>set ?calls. call_live K c) \<longrightarrow> live K T1 ts1 \<and> due T1 ts1 \<subseteq> due ?X ts"
    "(\<forall>c\<in>set ?calls. call_steady c) \<and> steady ?X [t] \<longrightarrow> steady T1 cs1"
    "\<forall>u. (\<forall>c\<in>set ?calls. names c \<noteq> u) \<longrightarrow> u \<in> set [t] \<longrightarrow> u \<in> set cs1"
    by (rule do_calls_ok [OF invX ok'(1)])
  have "set cs1 \<subseteq> {t}" and "steady T1 cs1" using 1(5,8) stX ok' by simp_all
  then obtain T2 ts2 where 2: "after_timeout t T1 = Some T2" "timers_inv T2 ts2 []" "tick T2 = tick T1" "invoked T2 = invoked T1"
    "\<forall>u. u \<noteq> t \<longrightarrow> untouched u T1 T2 \<and> (u \<in> set ts2 \<longleftrightarrow> u \<in> set ts1)"
    "\<forall>K. live K T1 ts1 \<and> t \<in> K \<longrightarrow> live K T2 ts2 \<and> due T2 ts2 \<subseteq> due T1 ts1"
    "t \<in> set cs1 \<longrightarrow> periodic T2 t = periodic T1 t \<and> timer_init_tick T2 t = timer_init_tick T1 t \<and>
       (t \<in> set ts2 \<longleftrightarrow> active T1 t) \<and> (active T1 t \<longrightarrow> left T2 t = unat (timer_init_tick T1 t) + 1)"
    by (rule after_timeout_ok [OF 1(2)])
  have i: "invoked T2 = invoked T @ [(t, ?f, ?p, tick T)]" using 1(4) 2(4) x(2,3) by simp
  show thesis
  proof (rule that)
    show "call_timeout acts t (expire t T) = Some T1" using 1(1) by (simp add: call_timeout_def)
    show "\<exists>f p. invoked T2 = invoked T @ [(t, f, p, tick T)]" using i by blast
    show "\<forall>K. live K T (t # ts) \<and> acts_live K acts \<longrightarrow> live K T2 ts2 \<and> due T2 ts2 \<subseteq> due T (t # ts) - {t}"
    proof (intro allI impI)
      fix K assume k: "live K T (t # ts) \<and> acts_live K acts"
      then have "live K ?X ts" "t \<in> K" "\<forall>c\<in>set ?calls. call_live K c" using x(7) by (simp_all add: live_def acts_live_def)
      then have "live K T2 ts2" "due T2 ts2 \<subseteq> due ?X ts" using 1(7) 2(6) by (blast, blast)
      moreover have "due ?X ts = due T (t # ts) - {t}" using t by (auto simp: due_def lX)
      ultimately show "live K T2 ts2 \<and> due T2 ts2 \<subseteq> due T (t # ts) - {t}" by simp
    qed
    show "left_alone t acts \<longrightarrow> ran_out t T T2 ts2"
    proof
      assume "left_alone t acts"
      then have "\<forall>c\<in>set ?calls. names c \<noteq> t" by (simp add: left_alone_def)
      then have "t \<in> set cs1" "untouched t ?X T1" using 1(6,9) by simp_all
      then show "ran_out t T T2 ts2"
        using 2(7) i x t by (auto simp: ran_out_def fired_def untouched_def active_def periodic_def)
    qed
    show "\<forall>u. u \<noteq> t \<and> left_alone u acts \<longrightarrow> untouched u T T2 \<and> (u \<in> set ts2 \<longleftrightarrow> u \<in> set ts)"
    proof (intro allI impI)
      fix u assume u: "u \<noteq> t \<and> left_alone u acts"
      then have "\<forall>c\<in>set ?calls. names c \<noteq> u" by (simp add: left_alone_def)
      then have "untouched u ?X T1" "u \<in> set ts1 \<longleftrightarrow> u \<in> set ts" using 1(6) by simp_all
      moreover have "untouched u T1 T2" "u \<in> set ts2 \<longleftrightarrow> u \<in> set ts1" using 2(5) u by blast+
      moreover have "untouched u T ?X" using u x by (simp add: untouched_def)
      ultimately show "untouched u T T2 \<and> (u \<in> set ts2 \<longleftrightarrow> u \<in> set ts)" using untouched_trans by blast
    qed
  qed (use 1 2 x in simp_all)
qed

section \<open>The whole check\<close>

text \<open>The check deals with the timers at the front of the list until the first is not due.\<close>

lemma check_ok:
  assumes "timers_inv T ts []" and "live K T ts" and "acts_ok acts" and "acts_live K acts"
  obtains T' ts' where "timer_check_loop acts (tick T) T = Some T'" "timers_inv T' ts' []" "live K T' ts'" "due T' ts' = {}"
    "tick T' = tick T" "\<exists>new. invoked T' = invoked T @ new"
    "\<forall>u. left_alone u acts \<longrightarrow> (if u \<in> due T ts then ran_out u T T' ts'
       else untouched u T T' \<and> fired T' u = fired T u \<and> (u \<in> set ts' \<longleftrightarrow> u \<in> set ts))"
  using assms(1,2)
proof (induction "card (due T ts)" arbitrary: T ts thesis rule: less_induct)
  case less
  note inv = less.prems(2) and live = less.prems(3)
  show ?case
  proof (cases "\<exists>t us. ts = t # us \<and> left T t \<le> 1")
    case False
    have d: "due T ts = {}"
    proof (cases ts)
      case (Cons t us)
      then have "1 < left T t" using False by auto
      moreover have "left T t \<le> left T u" if "u \<in> set ts" for u
        using timers_invD(6) [OF inv] that Cons by auto
      ultimately show ?thesis unfolding due_def by fastforce
    qed (simp add: due_def)
    have "timer_check_loop acts (tick T) T = Some T"
    proof (cases ts)
      case (Cons t us)
      then have "\<not> left T t \<le> 1" "left T t \<le> half" using False timers_invD(4) [OF inv, of t] by auto
      then show ?thesis
        using first_timer [OF inv] Cons due_now [of T t] by (subst timer_check_loop.simps) simp
    qed (use first_timer [OF inv] in \<open>subst timer_check_loop.simps, simp\<close>)
    then show ?thesis using inv live d by (intro less.prems(1) [of T ts]) (auto simp: untouched_def)
  next
    case True
    then obtain t us where ts: "ts = t # us" and t: "left T t \<le> 1" by blast
    obtain T1 T2 ts2 where r: "call_timeout acts t (expire t T) = Some T1" "tick T1 = tick T" "after_timeout t T1 = Some T2"
      "timers_inv T2 ts2 []" "tick T2 = tick T" "\<exists>f p. invoked T2 = invoked T @ [(t, f, p, tick T)]"
      "\<forall>K. live K T (t # us) \<and> acts_live K acts \<longrightarrow> live K T2 ts2 \<and> due T2 ts2 \<subseteq> due T (t # us) - {t}"
      "left_alone t acts \<longrightarrow> ran_out t T T2 ts2"
      "\<forall>u. u \<noteq> t \<and> left_alone u acts \<longrightarrow> untouched u T T2 \<and> (u \<in> set ts2 \<longleftrightarrow> u \<in> set us)"
      by (rule round_ok [OF inv [unfolded ts] assms(3)])
    have "t \<in> due T ts" using t ts by (simp add: due_def)
    moreover have "live K T2 ts2" and sub: "due T2 ts2 \<subseteq> due T ts - {t}" using r(7) live assms(4) unfolding ts by blast+
    moreover have "finite (due T ts)" by (simp add: due_def)
    ultimately have "card (due T2 ts2) < card (due T ts)"
      by (metis Diff_subset card_mono card_Diff1_less finite_Diff le_less_trans)
    then obtain T' ts' where i: "timer_check_loop acts (tick T2) T2 = Some T'" "timers_inv T' ts' []" "live K T' ts'" "due T' ts' = {}"
      "tick T' = tick T2" "\<exists>new. invoked T' = invoked T2 @ new"
      "\<forall>u. left_alone u acts \<longrightarrow> (if u \<in> due T2 ts2 then ran_out u T2 T' ts'
         else untouched u T2 T' \<and> fired T' u = fired T2 u \<and> (u \<in> set ts' \<longleftrightarrow> u \<in> set ts2))"
      using less.hyps [OF _ _ r(4) \<open>live K T2 ts2\<close>] by blast
    have e: "timer_check_loop acts (tick T) T = Some T'"
      using first_timer [OF inv] ts due_now [of T t] t timers_invD(4) [OF inv, of t] r(1,2,3,5) i(1)
      by (subst timer_check_loop.simps) simp
    have f: "fired T2 u = fired T u + (if u = t then 1 else 0)" for u using r(6) by (auto simp: fired_def)
    show ?thesis
    proof (rule less.prems(1) [OF e i(2-4)])
      show "tick T' = tick T" using i(5) r(5) by simp
      show "\<exists>new. invoked T' = invoked T @ new" using i(6) r(6) by force
      show "\<forall>u. left_alone u acts \<longrightarrow> (if u \<in> due T ts then ran_out u T T' ts'
         else untouched u T T' \<and> fired T' u = fired T u \<and> (u \<in> set ts' \<longleftrightarrow> u \<in> set ts))"
      proof (intro allI impI)
        fix u assume q: "left_alone u acts"
        show "if u \<in> due T ts then ran_out u T T' ts'
          else untouched u T T' \<and> fired T' u = fired T u \<and> (u \<in> set ts' \<longleftrightarrow> u \<in> set ts)"
        proof (cases "u = t")
          case True
          then have "ran_out t T T2 ts2" "t \<notin> due T2 ts2" "left_alone t acts" using r(8) q sub by auto
          moreover from this have "untouched t T2 T' \<and> fired T' t = fired T2 t \<and> (t \<in> set ts' \<longleftrightarrow> t \<in> set ts2)"
            using i(7) by presburger
          ultimately have "ran_out t T T' ts'"
            using i(5) r(5) by (auto simp: ran_out_def untouched_def left_def)
          with True \<open>t \<in> due T ts\<close> show ?thesis by simp
        next
          case False
          then have s: "untouched u T T2" "u \<in> set ts2 \<longleftrightarrow> u \<in> set ts" using r(9) q by (auto simp: ts)
          then have l: "left T2 u = left T u" using r(5) by (simp add: untouched_def left_def)
          then have d: "u \<in> due T2 ts2 \<longleftrightarrow> u \<in> due T ts" using s by (simp add: due_def)
          show ?thesis
            using i(7) q d s f [of u] False r(5) l by (auto simp: ran_out_def untouched_def split: if_splits)
        qed
      qed
    qed
  qed
qed

section \<open>Runs of the clock\<close>

datatype timer_event = Clock | Call timer_call

fun timer_run :: "behaviour \<Rightarrow> timer_event list \<Rightarrow> timers \<Rightarrow> timers option" where
  "timer_run acts [] T = Some T"
| "timer_run acts (Clock # es) T = Option.bind (clock_tick acts T) (timer_run acts es)"
| "timer_run acts (Call c # es) T = Option.bind (do_call c T) (timer_run acts es)"

definition clocks :: "timer_event list \<Rightarrow> nat" where
  "clocks es = length (filter (\<lambda>e. e = Clock) es)"

definition events_ok :: "nat set \<Rightarrow> timer_event list \<Rightarrow> bool" where
  "events_ok K es \<longleftrightarrow> (\<forall>c. Call c \<in> set es \<longrightarrow> call_ok c \<and> call_live K c)"

definition behaves :: "nat set \<Rightarrow> behaviour \<Rightarrow> bool" where
  "behaves K acts \<longleftrightarrow> acts_ok acts \<and> acts_live K acts"

text \<open>Between two ticks nothing is due.\<close>

definition settled :: "nat set \<Rightarrow> timers \<Rightarrow> nat list \<Rightarrow> bool" where
  "settled K T ts \<longleftrightarrow> timers_inv T ts [] \<and> live K T ts \<and> due T ts = {}"

lemma settledD:
  assumes "settled K T ts"
  shows "timers_inv T ts []" "live K T ts" "t \<in> set ts \<Longrightarrow> 1 < left T t" "active T t \<longleftrightarrow> t \<in> set ts"
  using assms timers_invD(2,3) [of T ts "[]" t] by (auto simp: settled_def due_def)

lemma tick_left: "0 < left T t \<Longrightarrow> left (T\<lparr>tick := tick T + 1\<rparr>) t = left T t - 1"
proof -
  assume "0 < left T t"
  then have "timeout_tick T t + 1 - tick T \<noteq> 0" by (metis left_def less_numeral_extra(3) unat_0)
  from unat_minus_one [OF this] have "unat (timeout_tick T t + 1 - tick T - 1) = left T t - 1" by (simp add: left_def)
  moreover have "timeout_tick T t + 1 - (tick T + 1) = (timeout_tick T t + 1 - tick T) - 1" by simp
  moreover have "left (T\<lparr>tick := m\<rparr>) t = unat (timeout_tick T t + 1 - m)" for m by (simp add: left_def)
  ultimately show ?thesis by metis
qed

lemma sorted_pred:
  assumes "sorted (map f ts)" and "\<And>t. t \<in> set ts \<Longrightarrow> g t = f t - (1 :: nat)"
  shows "sorted (map g ts)"
  using assms by (induction ts) (auto intro: diff_le_mono)

lemma tick_inv:
  assumes "timers_inv T ts []" and "\<forall>t\<in>set ts. 0 < left T t"
  shows "timers_inv (T\<lparr>tick := tick T + 1\<rparr>) ts []"
proof -
  have l: "left (T\<lparr>tick := tick T + 1\<rparr>) t = left T t - 1" if "t \<in> set ts" for t
    using assms(2) that by (simp add: tick_left)
  have "sorted (map (left (T\<lparr>tick := tick T + 1\<rparr>)) ts)" by (rule sorted_pred [OF timers_invD(6) [OF assms(1)] l])
  then show "timers_inv (T\<lparr>tick := tick T + 1\<rparr>) ts []"
    using assms(1) l by (auto simp: timers_inv_def intro: le_trans [OF diff_le_self])
qed

lemma tick_settled:
  assumes "settled K T ts"
  shows "timers_inv (T\<lparr>tick := tick T + 1\<rparr>) ts []" and "live K (T\<lparr>tick := tick T + 1\<rparr>) ts"
proof -
  have "0 < left T t" if "t \<in> set ts" for t using settledD(3) [OF assms that] by simp
  then show "timers_inv (T\<lparr>tick := tick T + 1\<rparr>) ts []" by (intro tick_inv settledD(1) [OF assms]) simp
  show "live K (T\<lparr>tick := tick T + 1\<rparr>) ts" using settledD(2) [OF assms] by (simp add: live_def)
qed

lemma check_starts:
  assumes "timers_inv T ts []"
  shows "rt_timer_check acts T = timer_check_loop acts (tick T) T"
proof -
  have "ring (row T) (Head Check_list) []" using rings_ring [OF timers_invD(1) [OF assms], of Check_list] by simp
  then have "rt_list_init (Head Check_list) (row T) = row T" by (simp add: ring_def rt_list_init_def fun_upd_idem)
  then show ?thesis by (simp add: rt_timer_check_def)
qed

lemma tick_ok:
  assumes s: "settled K T ts" and b: "behaves K acts"
  obtains T' ts' where "clock_tick acts T = Some T'" "settled K T' ts'" "tick T' = tick T + 1"
    "\<exists>new. invoked T' = invoked T @ new"
    "\<forall>u. left_alone u acts \<longrightarrow> (if u \<in> set ts \<and> left T u = 2 then ran_out u T T' ts'
       else untouched u T T' \<and> fired T' u = fired T u \<and> (u \<in> set ts' \<longleftrightarrow> u \<in> set ts))"
proof -
  let ?T = "T\<lparr>tick := tick T + 1\<rparr>"
  have "acts_ok acts" "acts_live K acts" using b by (simp_all add: behaves_def)
  with tick_settled [OF s] obtain T' ts' where
    c: "timer_check_loop acts (tick ?T) ?T = Some T'" "timers_inv T' ts' []" "live K T' ts'" "due T' ts' = {}" "tick T' = tick ?T"
    "\<exists>new. invoked T' = invoked ?T @ new"
    "\<forall>u. left_alone u acts \<longrightarrow> (if u \<in> due ?T ts then ran_out u ?T T' ts'
       else untouched u ?T T' \<and> fired T' u = fired ?T u \<and> (u \<in> set ts' \<longleftrightarrow> u \<in> set ts))"
    by (rule_tac check_ok)
  have d: "u \<in> due ?T ts \<longleftrightarrow> u \<in> set ts \<and> left T u = 2" for u
    using settledD(3) [OF s, of u] by (auto simp: due_def tick_left)
  have f: "ran_out u ?T = ran_out u T" "untouched u ?T = untouched u T" "fired ?T u = fired T u" for u
    by (simp_all add: ran_out_def untouched_def fired_def fun_eq_iff)
  show thesis
  proof (rule that)
    show "clock_tick acts T = Some T'"
      using check_starts [OF tick_settled(1) [OF s], of acts] c(1) by (simp add: clock_tick_def)
    show "settled K T' ts'" using c by (simp add: settled_def)
  qed (use c(5,6) c(7) [unfolded d f] in simp_all)
qed

lemma call_settled:
  assumes s: "settled K T ts" and c: "call_ok c" "call_live K c"
  obtains T' ts' where "do_call c T = Some T'" "settled K T' ts'" "tick T' = tick T" "invoked T' = invoked T"
    "\<forall>u. u \<noteq> names c \<longrightarrow> untouched u T T' \<and> (u \<in> set ts' \<longleftrightarrow> u \<in> set ts)"
proof -
  obtain T' ts' cs' where T': "do_call c T = Some T'" "timers_inv T' ts' cs'" "tick T' = tick T" "invoked T' = invoked T"
    "cs' = [] \<or> cs' = removeAll (names c) []" "\<forall>u. u \<noteq> names c \<longrightarrow> untouched u T T' \<and> (u \<in> set ts' \<longleftrightarrow> u \<in> set ts)"
    "\<forall>K. live K T ts \<and> call_live K c \<longrightarrow> live K T' ts' \<and> due T' ts' \<subseteq> due T ts"
    by (rule do_call_ok [OF settledD(1) [OF s] c(1)])
  have "due T ts = {}" using s by (simp add: settled_def)
  then have "settled K T' ts'" using T'(2,5,7) settledD(2) [OF s] c(2) unfolding settled_def by auto
  with T' show thesis by (intro that)
qed

text \<open>
  The calls of a timer that is started with the time \<open>n\<close> and left alone, \<open>k\<close> ticks after that: a periodic one once
  every \<open>n\<close> ticks, another once when \<open>n\<close> ticks have passed.
\<close>

definition calls_due :: "bool \<Rightarrow> nat \<Rightarrow> nat \<Rightarrow> nat" where
  "calls_due per n k = (if per then k div n else if n \<le> k then 1 else 0)"

definition untouched_by :: "nat \<Rightarrow> timer_event list \<Rightarrow> bool" where
  "untouched_by t es \<longleftrightarrow> (\<forall>c. Call c \<in> set es \<longrightarrow> names c \<noteq> t)"

lemma events_ok_Cons [simp]:
  "events_ok K (Clock # es) \<longleftrightarrow> events_ok K es"
  "events_ok K (Call c # es) \<longleftrightarrow> call_ok c \<and> call_live K c \<and> events_ok K es"
  by (auto simp: events_ok_def)

lemma untouched_by_Cons [simp]:
  "untouched_by t (Clock # es) \<longleftrightarrow> untouched_by t es"
  "untouched_by t (Call c # es) \<longleftrightarrow> names c \<noteq> t \<and> untouched_by t es"
  by (auto simp: untouched_by_def)

lemma clocks_simps [simp]:
  "clocks [] = 0" "clocks (Clock # es) = clocks es + 1" "clocks (Call c # es) = clocks es"
  by (simp_all add: clocks_def)

lemma run_ok:
  assumes "settled K T ts" and "behaves K acts" and "events_ok K es"
  obtains T' ts' where "timer_run acts es T = Some T'" "settled K T' ts'" "tick T' = tick T + of_nat (clocks es)"
  using assms(1,3)
proof (induction es arbitrary: T ts thesis)
  case Nil
  then show ?case by simp
next
  case (Cons e es)
  show ?case
  proof (cases e)
    case Clock
    obtain T1 ts1 where 1: "clock_tick acts T = Some T1" "settled K T1 ts1" "tick T1 = tick T + 1"
      by (rule tick_ok [OF Cons.prems(2) assms(2)])
    have "events_ok K es" using Cons.prems(3) Clock by simp
    from Cons.IH [OF _ 1(2) this] obtain T' ts' where
      "timer_run acts es T1 = Some T'" "settled K T' ts'" "tick T' = tick T1 + of_nat (clocks es)" by blast
    with 1 Clock show ?thesis by (intro Cons.prems(1) [of T' ts']) (simp_all add: algebra_simps)
  next
    case (Call c)
    then have c: "call_ok c" "call_live K c" "events_ok K es" using Cons.prems(3) by simp_all
    obtain T1 ts1 where 1: "do_call c T = Some T1" "settled K T1 ts1" "tick T1 = tick T"
      by (rule call_settled [OF Cons.prems(2) c(1,2)])
    from Cons.IH [OF _ 1(2) c(3)] obtain T' ts' where
      "timer_run acts es T1 = Some T'" "settled K T' ts'" "tick T' = tick T1 + of_nat (clocks es)" by blast
    with 1 Call show ?thesis by (intro Cons.prems(1) [of T' ts']) simp_all
  qed
qed

text \<open>A timer that is in the list, \<open>j\<close> ticks after it was started last, and one that is not.\<close>

lemma run_times:
  assumes "settled K T ts" and "behaves K acts" and "left_alone t acts" and "events_ok K es" and "untouched_by t es"
    and "n = unat (timer_init_tick T t)" and "timer_run acts es T = Some T'"
  shows "(t \<notin> set ts \<longrightarrow> fired T' t = fired T t) \<and>
    (\<forall>j<n. t \<in> set ts \<and> left T t = n + 1 - j \<longrightarrow> fired T' t = fired T t + calls_due (periodic T t) n (j + clocks es))"
  using assms(1,4-)
proof (induction es arbitrary: T ts)
  case Nil
  then show ?case by (auto simp: calls_due_def)
next
  case (Cons e es)
  show ?case
  proof (cases e)
    case (Call c)
    then have c: "call_ok c" "call_live K c" "events_ok K es" "names c \<noteq> t" "untouched_by t es" using Cons.prems(2,3) by simp_all
    obtain T1 ts1 where 1: "do_call c T = Some T1" "settled K T1 ts1" "tick T1 = tick T" "invoked T1 = invoked T"
      "\<forall>u. u \<noteq> names c \<longrightarrow> untouched u T T1 \<and> (u \<in> set ts1 \<longleftrightarrow> u \<in> set ts)"
      by (rule call_settled [OF Cons.prems(1) c(1,2)])
    have t: "untouched t T T1" "t \<in> set ts1 \<longleftrightarrow> t \<in> set ts" using 1(5) c(4) by auto
    then have "n = unat (timer_init_tick T1 t)" "timer_run acts es T1 = Some T'"
      using Cons.prems(4,5) 1(1) Call by (simp_all add: untouched_def)
    from Cons.IH [OF 1(2) c(3,5) this] show ?thesis
      using t 1(3,4) Call by (simp add: untouched_def left_def fired_def)
  next
    case Clock
    then have e: "events_ok K es" "untouched_by t es" using Cons.prems(2,3) by simp_all
    obtain T1 ts1 where 1: "clock_tick acts T = Some T1" "settled K T1 ts1" "tick T1 = tick T + 1"
      "\<forall>u. left_alone u acts \<longrightarrow> (if u \<in> set ts \<and> left T u = 2 then ran_out u T T1 ts1
         else untouched u T T1 \<and> fired T1 u = fired T u \<and> (u \<in> set ts1 \<longleftrightarrow> u \<in> set ts))"
      by (rule tick_ok [OF Cons.prems(1) assms(2)])
    have run: "timer_run acts es T1 = Some T'" using Cons.prems(5) 1(1) Clock by simp
    show ?thesis
    proof (cases "t \<in> set ts \<and> left T t = 2")
      case True
      then have r: "ran_out t T T1 ts1" using 1(4) assms(3) by auto
      then have "n = unat (timer_init_tick T1 t)" using Cons.prems(4) by (simp add: ran_out_def)
      note IH = Cons.IH [OF 1(2) e this run]
      have "fired T' t = fired T t + calls_due (periodic T t) n (j + clocks (e # es))"
        if j: "j < n" "left T t = n + 1 - j" for j
      proof -
        have "j + 1 = n" using j True by simp
        then have k: "j + clocks (e # es) = n + clocks es" "0 < n" using Clock by simp_all
        show ?thesis
        proof (cases "periodic T t")
          case True
          then have "t \<in> set ts1" "left T1 t = n + 1 - 0" using r Cons.prems(4) by (simp_all add: ran_out_def)
          with IH k(2) have "fired T' t = fired T1 t + calls_due (periodic T1 t) n (0 + clocks es)" by blast
          moreover have "(n + clocks es) div n = clocks es div n + 1" using k(2) by (simp add: div_add_self1)
          ultimately show ?thesis using True r k by (simp add: ran_out_def calls_due_def)
        qed (use IH r k in \<open>simp add: ran_out_def calls_due_def\<close>)
      qed
      with True show ?thesis by auto
    next
      case False
      then have u: "untouched t T T1" "fired T1 t = fired T t" "t \<in> set ts1 \<longleftrightarrow> t \<in> set ts" using 1(4) assms(3) by metis+
      then have "n = unat (timer_init_tick T1 t)" using Cons.prems(4) by (simp add: untouched_def)
      note IH = Cons.IH [OF 1(2) e this run]
      have "fired T' t = fired T t + calls_due (periodic T t) n (j + clocks (e # es))"
        if j: "j < n" "t \<in> set ts" "left T t = n + 1 - j" for j
      proof -
        have "left T1 t = left (T\<lparr>tick := tick T + 1\<rparr>) t" using u(1) 1(3) by (simp add: untouched_def left_def)
        then have "left T1 t = left T t - 1" using settledD(3) [OF Cons.prems(1) j(2)] by (simp add: tick_left)
        then have "left T1 t = n + 1 - (j + 1)" "j + 1 < n" using j False by auto
        then have "fired T' t = fired T1 t + calls_due (periodic T1 t) n (j + 1 + clocks es)" using IH u(3) j(2) by blast
        with u Clock show ?thesis by (simp add: untouched_def)
      qed
      with IH u show ?thesis by auto
    qed
  qed
qed

text \<open>
  C19: timers run out on time.  No timer has or is given the time zero, and timeout functions make no timer one-shot and
  leave this one alone.  After it was started, whatever ticks and calls of other timers follow, \<open>k\<close> ticks later its
  timeout function was called exactly as often as its time says: a periodic timer once every \<open>n\<close> ticks, without drift,
  another once, when \<open>n\<close> ticks have passed and not before.  The tick count may wrap around in between.
\<close>

theorem timer_fires_on_time:
  assumes "settled K T ts" and "behaves K acts" and "left_alone t acts" and "t \<in> K"
    and "events_ok K es" and "untouched_by t es"
  shows "\<exists>T'. timer_run acts (Call (Start t) # es) T = Some T' \<and>
    fired T' t = fired T t + calls_due (periodic T t) (unat (timer_init_tick T t)) (clocks es)"
proof -
  obtain T1 where 1: "rt_timer_start t T = Some (RT_EOK, T1)"
    "timers_inv T1 (insert_timer (left T1) t (removeAll t ts)) (removeAll t [])"
    "timeout_tick T1 = (timeout_tick T)(t := tick T + timer_init_tick T t)" "left T1 t = unat (timer_init_tick T t) + 1"
    "timer_init_tick T1 = timer_init_tick T" "periodic T1 = periodic T" "invoked T1 = invoked T"
    by (rule start_ok [OF settledD(1) [OF assms(1)], of t])
  have "call_ok (Start t)" "call_live K (Start t)" using assms(4) by simp_all
  then obtain T2 ts2 where 2: "do_call (Start t) T = Some T2" "settled K T2 ts2"
    by (rule call_settled [OF assms(1)])
  then have "T2 = T1" using 1(1) by simp
  note s = 2(2) [unfolded this]
  have t: "t \<in> set ts2" using settledD(4) [OF s, of t] timers_invD(3) [OF 1(2), of t] by simp
  have n: "unat (timer_init_tick T t) = unat (timer_init_tick T1 t)" "0 < unat (timer_init_tick T t)"
    using 1(5) settledD(2) [OF assms(1)] assms(4) by (simp_all add: live_def unat_gt_0)
  obtain T' where T': "timer_run acts es T1 = Some T'" by (rule run_ok [OF s assms(2,5)])
  have "fired T' t = fired T1 t + calls_due (periodic T1 t) (unat (timer_init_tick T t)) (0 + clocks es)"
    using run_times [OF s assms(2,3,5,6) n(1) T'] t n(2) 1(4) by auto
  then show ?thesis using T' 1 by (intro exI [of _ T']) (simp add: fired_def)
qed

text \<open>
  A timer that was stopped is never called again unless it is started: whatever ticks and calls of other timers follow,
  its timeout function is not called.
\<close>

theorem stopped_timer_silent:
  assumes "settled K T ts" and "behaves K acts" and "left_alone t acts" and "t \<in> K"
    and "events_ok K es" and "untouched_by t es"
  shows "\<exists>T'. timer_run acts (Call (Stop t) # es) T = Some T' \<and> fired T' t = fired T t"
proof -
  let ?T1 = "snd (rt_timer_stop t T)"
  have "call_ok (Stop t)" "call_live K (Stop t)" using assms(4) by simp_all
  then obtain T2 ts2 where 2: "do_call (Stop t) T = Some T2" "settled K T2 ts2" "invoked T2 = invoked T"
    by (rule call_settled [OF assms(1)])
  have t: "t \<notin> set ts2" using settledD(4) [OF 2(2), of t] 2(1) by (auto simp: rt_timer_stop_def split: if_splits)
  obtain T' where T': "timer_run acts es T2 = Some T'" by (rule run_ok [OF 2(2) assms(2,5)])
  then have "fired T' t = fired T2 t" using run_times [OF 2(2) assms(2,3,5,6) refl] t by blast
  then show ?thesis using T' 2(1,3) by (intro exI [of _ T']) (simp add: fired_def)
qed

section \<open>A system of timers from its start\<close>

text \<open>Memory that is zero, as at a reset; then the list and the timers are initialised.\<close>

definition timers_reset :: timers where
  "timers_reset = \<lparr>row = unlinked, timer_flag = (\<lambda>_. 0), timeout_func = (\<lambda>_. 0), parameter = (\<lambda>_. 0),
     timer_init_tick = (\<lambda>_. 0), timeout_tick = (\<lambda>_. 0), random_nr = 0, tick = 0, timer_assert = False, invoked = []\<rparr>"

definition init_timers :: "(nat \<times> u32 \<times> u32 \<times> u32 \<times> u8) list \<Rightarrow> timers \<Rightarrow> timers" where
  "init_timers specs T = foldl (\<lambda>T (t, f, p, n, flag). rt_timer_init t f p n flag T) T specs"

definition specs_ok :: "(nat \<times> u32 \<times> u32 \<times> u32 \<times> u8) list \<Rightarrow> bool" where
  "specs_ok specs \<longleftrightarrow> (\<forall>(t, f, p, n, flag)\<in>set specs. f \<noteq> 0 \<and> n \<noteq> 0 \<and> n < RT_TICK_MAX div 2)"

lemma timer_init_ok:
  assumes "timers_inv T [] []" and "f \<noteq> 0" and "n < RT_TICK_MAX div 2"
  shows "timers_inv (rt_timer_init t f p n flag T) [] []"
    and "timer_init_tick (rt_timer_init t f p n flag T) = (timer_init_tick T)(t := n)"
    and "tick (rt_timer_init t f p n flag T) = tick T"
proof -
  have "\<forall>l. t \<notin> set (two_lists [] [] l)" by (simp add: two_lists_def split: timer_head.split)
  then have "nxt (row T) (Node t) = Node t \<and> prv (row T) (Node t) = Node t"
    using timers_invD(1) [OF assms(1)] unfolding rings_def by blast
  then have h: "rt_list_init (Node t) (row T) = row T" by (simp add: rt_list_init_def fun_upd_idem)
  define T' where "T' = rt_timer_init t f p n flag T"
  note T' = T'_def [unfolded rt_timer_init_def timer_init_def t_assert_def Let_def]
  have "row T' = row T" "timer_assert T' = timer_assert T" using assms(2,3) h by (simp_all add: T')
  moreover have "\<not> active T' t" by (simp add: T' active_def bit_simps)
  moreover have "active T' u = active T u" if "u \<noteq> t" for u using that by (simp add: T' active_def)
  moreover show n: "timer_init_tick (rt_timer_init t f p n flag T) = (timer_init_tick T)(t := n)"
    and "tick (rt_timer_init t f p n flag T) = tick T" unfolding T'_def [symmetric] by (simp_all add: T')
  ultimately show "timers_inv (rt_timer_init t f p n flag T) [] []"
    using assms(1,3) unfolding T'_def [symmetric] by (auto simp: timers_inv_def less_half) metis
qed

lemma init_timers_ok:
  assumes "timers_inv T [] []" and "specs_ok specs" and "\<forall>t\<in>K. timer_init_tick T t \<noteq> 0"
  shows "settled (K \<union> fst ` set specs) (init_timers specs T) []"
  using assms
proof (induction specs arbitrary: T K)
  case Nil
  then show ?case by (simp add: settled_def live_def due_def init_timers_def)
next
  case (Cons s specs)
  obtain t f p n flag where s: "s = (t, f, p, n, flag)" by (cases s)
  have n: "f \<noteq> 0" "n \<noteq> 0" "n < RT_TICK_MAX div 2" and rest: "specs_ok specs"
    using Cons.prems(2) by (auto simp: specs_ok_def s)
  let ?T = "rt_timer_init t f p n flag T"
  note i = timer_init_ok [OF Cons.prems(1) n(1,3), of t p flag]
  have "settled (insert t K \<union> fst ` set specs) (init_timers specs ?T) []"
    using i(2) n(2) Cons.prems(3) by (intro Cons.IH i(1) rest) auto
  then show ?case by (simp add: init_timers_def s)
qed

lemma reset_inv: "timers_inv (rt_system_timer_init timers_reset) [] []"
proof -
  have "two_lists [] [] = (\<lambda>_. [])" by (simp add: two_lists_def fun_eq_iff split: timer_head.split)
  then show ?thesis using rings_unlinked
    by (simp add: timers_inv_def rt_system_timer_init_def timers_reset_def active_def half_def)
qed

definition timers_start :: "(nat \<times> u32 \<times> u32 \<times> u32 \<times> u8) list \<Rightarrow> timers" where
  "timers_start specs = init_timers specs (rt_system_timer_init timers_reset)"

lemma start_settled: "specs_ok specs \<Longrightarrow> settled (fst ` set specs) (timers_start specs) []"
  using init_timers_ok [OF reset_inv, of specs "{}"] by (simp add: timers_start_def)

text \<open>How many ticks are left to a timer.\<close>

definition remaining :: "timers \<Rightarrow> nat \<Rightarrow> nat" where
  "remaining T t = unat (timeout_tick T t - tick T)"

lemma remaining_left:
  assumes "0 < left T t"
  shows "remaining T t = left T t - 1"
proof -
  have "timeout_tick T t + 1 - tick T \<noteq> 0" using assms by (auto simp: left_def)
  from unat_minus_one [OF this] show ?thesis by (simp add: left_def remaining_def)
qed

text \<open>
  C25: the timers are set up with timeout functions and with times that are neither zero nor half of the range of ticks or
  more; calls, also those of timeout functions, are made on these timers alone, set no such time, and no
  timeout function makes a timer one-shot.  Then, whatever ticks and calls follow the start, the system returns from each of
  them, the list holds exactly the active timers, sorted by the ticks they have left, none of which is zero or over
  the half of the range, and the next timeout the kernel reports is that of an active timer with the fewest ticks
  left.  \<open>zero_period_hangs\<close> and \<open>own_oneshot_stays_active\<close> show what happens outside these conditions.
\<close>

theorem timer_list_sorted:
  assumes "specs_ok specs" and "behaves (fst ` set specs) acts" and "events_ok (fst ` set specs) es"
  shows "\<exists>T ts. timer_run acts es (timers_start specs) = Some T \<and>
    tick T = of_nat (clocks es) \<and> \<not> timer_assert T \<and>
    ring (row T) (Head Timer_list) (map Node ts) \<and> set ts = {t. active T t} \<and>
    sorted (map (remaining T) ts) \<and> (\<forall>t\<in>set ts. 0 < remaining T t \<and> remaining T t < half) \<and>
    rt_timer_next_timeout_tick T = (if ts = [] then RT_TICK_MAX else timeout_tick T (hd ts))"
proof -
  obtain T ts where T: "timer_run acts es (timers_start specs) = Some T" "settled (fst ` set specs) T ts"
    "tick T = tick (timers_start specs) + of_nat (clocks es)"
    by (rule run_ok [OF start_settled [OF assms(1)] assms(2,3)])
  note inv = settledD(1) [OF T(2)]
  have "tick (init_timers specs T) = tick T" for T
    by (induction specs arbitrary: T)
      (auto simp: init_timers_def rt_timer_init_def timer_init_def t_assert_def Let_def)
  then have t0: "tick (timers_start specs) = 0" by (simp add: timers_start_def rt_system_timer_init_def timers_reset_def)
  have r: "remaining T t = left T t - 1" if "t \<in> set ts" for t
    using settledD(3) [OF T(2) that] by (simp add: remaining_left)
  have "sorted (map (remaining T) ts)" by (rule sorted_pred [OF timers_invD(6) [OF inv] r])
  moreover have "0 < remaining T t \<and> remaining T t < half" if "t \<in> set ts" for t
    using r [OF that] settledD(3) [OF T(2) that] timers_invD(4) [OF inv that] by auto
  moreover have "rt_timer_next_timeout_tick T = (if ts = [] then RT_TICK_MAX else timeout_tick T (hd ts))"
    using first_timer [OF inv] by (simp add: rt_timer_next_timeout_tick_def timer_list_next_timeout_def)
  moreover have "ring (row T) (Head Timer_list) (map Node ts)"
    using rings_ring [OF timers_invD(1) [OF inv], of Timer_list] by simp
  moreover have "set ts = {t. active T t}" using settledD(4) [OF T(2)] by auto
  ultimately show ?thesis using T(1,3) t0 timers_invD(7) [OF inv] by (intro exI [of _ T] exI [of _ ts]) simp
qed

section \<open>Where the timers go wrong\<close>

text \<open>While a periodic timer of the time zero is in the list, the check has something to do.\<close>

definition endless :: "behaviour \<Rightarrow> nat \<Rightarrow> u32 \<Rightarrow> timers \<Rightarrow> bool" where
  "endless acts t now T \<longleftrightarrow> acts_ok acts \<and> left_alone t acts \<and> now = tick T \<and>
     (\<exists>ts. timers_inv T ts [] \<and> t \<in> set ts) \<and> left T t \<le> 1 \<and> periodic T t \<and> timer_init_tick T t = 0"

lemma endless_round:
  assumes "endless acts t now T"
  obtains u T1 T2 where "\<not> rt_list_isempty (Head Timer_list) (row T)" "u = timer_of (nxt (row T) (Head Timer_list))"
    "now - timeout_tick T u < RT_TICK_MAX div 2" "call_timeout acts u (expire u T) = Some T1" "after_timeout u T1 = Some T2"
    "endless acts t (tick T1) T2"
proof -
  obtain ts where inv: "timers_inv T ts []" and t: "t \<in> set ts" and d: "acts_ok acts" "left_alone t acts" "now = tick T" "left T t \<le> 1"
    "periodic T t" "timer_init_tick T t = 0" using assms by (auto simp: endless_def)
  obtain u us where ts: "ts = u # us" using t by (cases ts) auto
  have "left T u \<le> left T t" using timers_invD(6) [OF inv] t ts by auto
  then have u: "left T u \<le> 1" "left T u \<le> half" using d(4) timers_invD(4) [OF inv, of u] ts by auto
  obtain T1 T2 ts2 where r: "call_timeout acts u (expire u T) = Some T1" "tick T1 = tick T" "after_timeout u T1 = Some T2"
    "timers_inv T2 ts2 []" "tick T2 = tick T"
    "left_alone u acts \<longrightarrow> ran_out u T T2 ts2"
    "\<forall>v. v \<noteq> u \<and> left_alone v acts \<longrightarrow> untouched v T T2 \<and> (v \<in> set ts2 \<longleftrightarrow> v \<in> set us)"
    by (rule round_ok [OF inv [unfolded ts] d(1)])
  have "t \<in> set ts2 \<and> left T2 t \<le> 1 \<and> periodic T2 t \<and> timer_init_tick T2 t = 0"
  proof (cases "u = t")
    case True
    with r(6) d show ?thesis by (simp add: ran_out_def)
  next
    case False
    then have "untouched t T T2" "t \<in> set ts2" using r(7) d(2) t ts by auto
    with d r(5) show ?thesis by (simp add: untouched_def left_def)
  qed
  then have "endless acts t (tick T1) T2" using d(1,2) r(2,4,5) by (auto simp: endless_def)
  with first_timer [OF inv] ts due_now [of T u] u r(1,3) d(3) show thesis by (intro that [of u T1 T2]) simp_all
qed

lemma check_never_ends:
  assumes "endless acts t now T"
  shows "timer_check_loop acts now T = None"
proof (rule ccontr)
  assume "timer_check_loop acts now T \<noteq> None"
  then obtain T' where ends: "timer_check_loop acts now T = Some T'" by blast
  define P where "P = (\<lambda>a n T (x :: timers). \<not> endless a t n T)"
  have step: "P a n T x"
    if IH: "\<And>a n T x. loop a n T = Some x \<Longrightarrow> P a n T x"
      and e: "(if \<not> rt_list_isempty (Head Timer_list) (row T)
        then let t = timer_of (nxt (row T) (Head Timer_list))
             in if n - timeout_tick T t < RT_TICK_MAX div 2
                then Option.bind (call_timeout a t (expire t T)) (\<lambda>T'. let current_tick = tick T'
                       in Option.bind (after_timeout t T') (loop a current_tick))
                else Some T
        else Some T) = Some x"
    for loop :: "behaviour \<Rightarrow> u32 \<Rightarrow> timers \<Rightarrow> timers option" and a n T x
    unfolding P_def
  proof
    assume "endless a t n T"
    then obtain u T1 T2 where "\<not> rt_list_isempty (Head Timer_list) (row T)" "u = timer_of (nxt (row T) (Head Timer_list))"
      "n - timeout_tick T u < RT_TICK_MAX div 2" "call_timeout a u (expire u T) = Some T1" "after_timeout u T1 = Some T2"
      "endless a t (tick T1) T2" by (rule endless_round)
    with e IH [of a "tick T1" T2 x] show False by (simp add: P_def)
  qed
  have "P acts now T T'" by (rule timer_check_loop.raw_induct [of P, OF step ends])
  with assms show False by (simp add: P_def)
qed

text \<open>
  A periodic timer of the time zero, which \<^verbatim>\<open>rt_timer_init\<close> and \<^verbatim>\<open>rt_timer_control\<close> accept,
  stops the system: the clock interrupt after its start starts it again for the tick it has just dealt with, and never returns.
\<close>

theorem zero_period_hangs:
  assumes "settled K T ts" and "acts_ok acts" and "left_alone t acts" and "periodic T t" and "timer_init_tick T t = 0"
  shows "\<exists>T'. rt_timer_start t T = Some (RT_EOK, T') \<and> clock_tick acts T' = None"
proof -
  obtain T1 where 1: "rt_timer_start t T = Some (RT_EOK, T1)"
    "timers_inv T1 (insert_timer (left T1) t (removeAll t ts)) (removeAll t [])"
    "timeout_tick T1 = (timeout_tick T)(t := tick T + timer_init_tick T t)" "left T1 t = unat (timer_init_tick T t) + 1"
    "\<forall>u. u \<noteq> t \<longrightarrow> left T1 u = left T u" "timer_init_tick T1 = timer_init_tick T" "periodic T1 = periodic T"
    by (rule start_ok [OF settledD(1) [OF assms(1)], of t]) blast
  let ?ts = "insert_timer (left T1) t (removeAll t ts)" and ?T = "T1\<lparr>tick := tick T1 + 1\<rparr>"
  have inv: "timers_inv T1 ?ts []" using 1(2) by simp
  have "0 < left T1 u" if "u \<in> set ?ts" for u
    using that 1(4,5) settledD(3) [OF assms(1), of u] by (cases "u = t") auto
  note inv' = tick_inv [OF inv, simplified Ball_def, rule_format, OF this]
  have l: "left ?T t \<le> 1" using 1(4) assms(5) by (simp add: tick_left)
  have "endless acts t (tick ?T) ?T"
    using assms(2-5) inv' l 1(6,7) by (auto simp: endless_def intro!: exI [of _ ?ts])
  then have "timer_check_loop acts (tick ?T) ?T = None" by (rule check_never_ends)
  then show ?thesis using 1(1) check_starts [OF inv', of acts] by (simp add: clock_tick_def)
qed

text \<open>
  A periodic timer that its own timeout function makes one-shot is left marked active although it is in no list: it
  will never be called again, yet \<^verbatim>\<open>rt_timer_control\<close> reports it as running.
\<close>

theorem own_oneshot_stays_active:
  assumes "settled K T [t]" and "remaining T t = 1" and "periodic T t"
    and "\<And>S. acts (timeout_func T t) (parameter T t) S = [Control t RT_TIMER_CTRL_SET_ONESHOT]"
  shows "\<exists>T'. clock_tick acts T = Some T' \<and> fst (snd (rt_timer_control t RT_TIMER_CTRL_GET_STATE T')) = Some RT_TIMER_FLAG_ACTIVATED \<and>
    rt_list_isempty (Head Timer_list) (row T')"
proof -
  let ?T = "T\<lparr>tick := tick T + 1\<rparr>"
  have inv: "timers_inv ?T [t] []" by (rule tick_settled(1) [OF assms(1)])
  have "left T t = 2" using assms(2) settledD(3) [OF assms(1), of t] by (simp add: remaining_left)
  then have l: "left ?T t \<le> 1" "left ?T t \<le> half" by (simp_all add: tick_left half_def)
  note x = expire_ok [OF inv]
  let ?X = "expire t ?T\<lparr>invoked := invoked (expire t ?T) @ [(t, timeout_func T t, parameter T t, tick T + 1)]\<rparr>"
  define T1 where "T1 = snd (timer_control t RT_TIMER_CTRL_SET_ONESHOT ?X)"
  have c: "call_timeout acts t (expire t ?T) = Some T1"
    using x(2,8,9) assms(4) by (simp add: call_timeout_def rt_timer_control_def T1_def)
  have "timers_inv ?X [] [t]" using x(1) by simp
  from control_inv(1) [OF this, of t RT_TIMER_CTRL_SET_ONESHOT] have inv1: "timers_inv T1 [] [t]" unfolding T1_def by simp
  have "active ?X t" using x(4) assms(3) timers_invD(3) [OF inv, of t] by simp
  then have a1: "active T1 t" unfolding T1_def control_active .
  have p1: "\<not> periodic T1 t" by (simp add: T1_def periodic_def bit_simps)
  define T2 where "T2 = T1\<lparr>row := rt_list_remove (Node t) (row T1)\<rparr>"
  have r: "rings (row T2) (two_lists [] [])"
    using rings_remove [OF timers_invD(1) [OF inv1], of t] by (simp add: T2_def removeAll_two_lists)
  then have e2: "rt_list_isempty (Head Timer_list) (row T2)" using rings_isempty [OF r, of Timer_list] by simp
  have a: "after_timeout t T1 = Some T2"
    using rings_isempty [OF timers_invD(1) [OF inv1], of Check_list] p1 by (simp add: after_timeout_def T2_def Let_def)
  have "timer_check_loop acts (tick T1) T2 = Some T2" using e2 by (subst timer_check_loop.simps) simp
  then have "timer_check_loop acts (tick ?T) ?T = Some T2"
    using first_timer [OF inv] due_now [OF l(2)] l(1) c a by (subst timer_check_loop.simps) simp
  then have "clock_tick acts T = Some T2" using check_starts [OF inv, of acts] by (simp add: clock_tick_def)
  moreover have "active T2 t" using a1 by (simp add: T2_def)
  ultimately show ?thesis using e2 by (intro exI [of _ T2]) (simp add: rt_timer_control_def)
qed

section \<open>Witnesses\<close>

text \<open>
  A periodic timer of three ticks whose timeout function starts a one-shot timer of five ticks again and again; the tick count is
  about to wrap around.
\<close>

definition demo_specs :: "(nat \<times> u32 \<times> u32 \<times> u32 \<times> u8) list" where
  "demo_specs = [(0, 1, 0, 3, 2), (1, 2, 0, 5, 0)]"

definition demo_acts :: behaviour where
  "demo_acts f p T = (if f = 1 then [Start 1] else [])"

definition demo_timers :: timers where
  "demo_timers = rt_tick_set (- 2) (timers_start demo_specs)"

lemma tick_set_settled: "settled K T [] \<Longrightarrow> settled K (rt_tick_set n T) []"
  by (simp add: settled_def timers_inv_def live_def due_def rt_tick_set_def)

lemma demo_settled:
  "specs_ok demo_specs" "fst ` set demo_specs = {0, 1}" "settled {0, 1} demo_timers []" "behaves {0, 1} demo_acts" "left_alone 0 demo_acts"
proof -
  show ok: "specs_ok demo_specs" and k: "fst ` set demo_specs = {0, 1}"
    by (auto simp: specs_ok_def demo_specs_def less_half half_def)
  show "settled {0, 1} demo_timers []"
    using tick_set_settled [OF start_settled [OF ok]] k by (simp add: demo_timers_def)
  show "behaves {0, 1} demo_acts" "left_alone 0 demo_acts"
    by (simp_all add: behaves_def acts_ok_def acts_live_def left_alone_def demo_acts_def)
qed

lemma demo_fields: "periodic demo_timers 0" "timer_init_tick demo_timers 0 = 3" "fired demo_timers t = 0"
  by (simp_all add: demo_timers_def rt_tick_set_def timers_start_def init_timers_def demo_specs_def rt_timer_init_def timer_init_def
      t_assert_def Let_def rt_system_timer_init_def timers_reset_def periodic_def fired_def bit_simps)

lemma timer_fires_on_time_witness:
  "\<exists>T'. timer_run demo_acts (Call (Start 0) # replicate 5 Clock @ Call (Stop 1) # replicate 2 Clock) demo_timers = Some T' \<and>
    fired T' 0 = 2"
proof -
  let ?es = "replicate 5 Clock @ Call (Stop 1) # replicate 2 Clock"
  have "calls_due (periodic demo_timers 0) (unat (timer_init_tick demo_timers 0)) (clocks ?es) = 2"
    using demo_fields by (simp add: clocks_def calls_due_def)
  moreover have "events_ok {0, 1} ?es" "untouched_by 0 ?es" by (auto simp: events_ok_def untouched_by_def)
  ultimately show ?thesis using timer_fires_on_time [OF demo_settled(3-5) _ , of ?es] demo_fields(3) by auto
qed

lemma stopped_timer_silent_witness:
  "\<exists>T'. timer_run demo_acts (Call (Stop 0) # replicate 9 Clock) demo_timers = Some T' \<and> fired T' 0 = 0"
  using stopped_timer_silent [OF demo_settled(3-5), of "replicate 9 Clock"] demo_fields
  by (simp add: events_ok_def untouched_by_def)

lemma timer_list_sorted_witness:
  "\<exists>T ts. timer_run demo_acts [Call (Start 1), Clock, Call (Start 0)] (timers_start demo_specs) = Some T \<and>
    tick T = 1 \<and> \<not> timer_assert T \<and>
    ring (row T) (Head Timer_list) (map Node ts) \<and> set ts = {t. active T t} \<and>
    sorted (map (remaining T) ts) \<and> (\<forall>t\<in>set ts. 0 < remaining T t \<and> remaining T t < half) \<and>
    rt_timer_next_timeout_tick T = (if ts = [] then RT_TICK_MAX else timeout_tick T (hd ts))"
  using timer_list_sorted [OF demo_settled(1), of demo_acts "[Call (Start 1), Clock, Call (Start 0)]"] demo_settled(2,4)
  by (simp add: events_ok_def)

lemma zero_period_hangs_witness:
  "\<exists>T T'. rt_timer_start 0 T = Some (RT_EOK, T') \<and> clock_tick (\<lambda>f p T. []) T' = None"
proof -
  let ?T = "rt_timer_init 0 1 0 0 2 (rt_system_timer_init timers_reset)"
  have "timers_inv ?T [] []" by (rule timer_init_ok(1) [OF reset_inv]) (simp_all add: less_half half_def)
  then have "settled {} ?T []" by (simp add: settled_def live_def due_def)
  moreover have "periodic ?T 0" "timer_init_tick ?T 0 = 0"
    by (simp_all add: rt_timer_init_def timer_init_def t_assert_def Let_def periodic_def bit_simps)
  moreover have "acts_ok (\<lambda>f p T. [])" "left_alone 0 (\<lambda>f p T. [])" by (simp_all add: acts_ok_def left_alone_def)
  ultimately show ?thesis using zero_period_hangs [of "{}" ?T "[]" "\<lambda>f p T. []" 0] by blast
qed

lemma own_oneshot_stays_active_witness:
  "\<exists>T T'. clock_tick (\<lambda>f p S. [Control 0 RT_TIMER_CTRL_SET_ONESHOT]) T = Some T' \<and>
    fst (snd (rt_timer_control 0 RT_TIMER_CTRL_GET_STATE T')) = Some RT_TIMER_FLAG_ACTIVATED \<and>
    rt_list_isempty (Head Timer_list) (row T')"
proof -
  let ?T = "rt_timer_init 0 1 0 1 2 (rt_system_timer_init timers_reset)"
  have inv: "timers_inv ?T [] []" by (rule timer_init_ok(1) [OF reset_inv]) (simp_all add: less_half half_def)
  have f: "periodic ?T 0" "timer_init_tick ?T 0 = 1"
    by (simp_all add: rt_timer_init_def timer_init_def t_assert_def Let_def periodic_def bit_simps)
  obtain T1 where 1: "timers_inv T1 (insert_timer (left T1) 0 (removeAll 0 [])) (removeAll 0 [])"
    "left T1 0 = unat (timer_init_tick ?T 0) + 1" "timer_init_tick T1 = timer_init_tick ?T" "periodic T1 = periodic ?T"
    by (rule start_ok [OF inv, of 0])
  then have "settled {0} T1 [0]" using f by (auto simp: settled_def live_def due_def insert_timer_def)
  moreover have "remaining T1 0 = 1" using 1(2) f(2) by (simp add: remaining_left)
  ultimately show ?thesis
    using own_oneshot_stays_active [of "{0}" T1 0 "\<lambda>f p S. [Control 0 RT_TIMER_CTRL_SET_ONESHOT]"] 1(4) f(1) by auto
qed

text \<open>The conversions of the clock.\<close>

lemma from_millisecond: "0 \<le> ms \<Longrightarrow> rt_tick_from_millisecond ms = word_of_int ms"
proof -
  assume "0 \<le> ms"
  have "(1000 * (ms mod 1000) + 999) div 1000 = ms mod 1000" by simp
  then have "rt_tick_from_millisecond ms = word_of_int (1000 * (ms div 1000) + ms mod 1000)"
    using \<open>0 \<le> ms\<close> by (simp only: rt_tick_from_millisecond_def wi_hom_add flip: linorder_not_le) simp
  also have "1000 * (ms div 1000) + ms mod 1000 = ms" by simp
  finally show ?thesis .
qed

lemma get_millisecond: "rt_tick_get_millisecond T = tick T"
  by (simp add: rt_tick_get_millisecond_def RT_TICK_PER_SECOND_def)

end
