(* ===== verification/Rt_Clock.thy ===== *)
theory Rt_Clock
  imports Rt_Kernel Rt_Timer
begin

text \<open>
  Sleeping threads: the scheduler of \<open>Rt_Kernel\<close> and the timers of \<open>Rt_Timer\<close> put together
  (\<^verbatim>\<open>src/rt-thread/src/clock.c\<close>, \<^verbatim>\<open>thread.c\<close>).  The timer of the thread \<open>t\<close> is the timer \<open>t\<close>; its
  timeout function is \<open>thread_timeout\<close>, which makes no calls to timers.  In \<open>Rt_Kernel\<close> a timer is only the time
  it was set to and may run out whenever it is set; here it runs out when the clock says so.
\<close>

record system =
  kern :: kernel
  tmr :: timers

section \<open>Operations\<close>

definition no_calls :: behaviour where
  "no_calls f p T = []"

text \<open>What the check of the timers does to the threads whose timers it finds run out, in the order of the calls.\<close>

definition expire_thread :: "kernel \<Rightarrow> nat \<Rightarrow> kernel" where
  "expire_thread k t = thread_timeout t (k\<lparr>thread_timer := (thread_timer k)(t := None)\<rparr>)"

definition sys_tick :: "system \<Rightarrow> system option" where
  "sys_tick S =
     (let k = rt_tick_increase (kern S)
      in case clock_tick no_calls (tmr S) of
           None \<Rightarrow> None
         | Some T \<Rightarrow>
             Some \<lparr>kern = foldl expire_thread k (map fst (drop (length (invoked (tmr S))) (invoked T))), tmr = T\<rparr>)"

text \<open>The first part of a sleep, up to the call of the scheduler, with what it returns if it does not come that far.\<close>

definition sys_sleep :: "u32 \<Rightarrow> nat \<Rightarrow> system \<Rightarrow> (int option \<times> system) option" where
  "sys_sleep n t S =
     (let (r, k) = rt_thread_sleep n t (kern S)
      in case r of
           Some err \<Rightarrow> Some (Some err, S\<lparr>kern := k\<rparr>)
         | None \<Rightarrow> map_option (\<lambda>T. (None, \<lparr>kern = k, tmr = T\<rparr>))
                     (do_calls [Stop t, Control t (RT_TIMER_CTRL_SET_TIME n), Start t] (tmr S)))"

definition rt_thread_delay :: "u32 \<Rightarrow> nat \<Rightarrow> system \<Rightarrow> (int option \<times> system) option" where
  "rt_thread_delay n t S = sys_sleep n t S"

definition rt_thread_mdelay :: "int \<Rightarrow> nat \<Rightarrow> system \<Rightarrow> (int option \<times> system) option" where
  "rt_thread_mdelay ms t S = sys_sleep (rt_tick_from_millisecond ms) t S"

text \<open>
  A delay until the tick \<open>last + inc\<close>, again up to the call of the scheduler.  It returns the new value of the caller's
  variable, and the thread's error code if there is nothing to wait for.
\<close>

definition rt_thread_delay_until :: "u32 \<Rightarrow> u32 \<Rightarrow> nat \<Rightarrow> system \<Rightarrow> (int option \<times> u32 \<times> system) option" where
  "rt_thread_delay_until last_tick inc_tick t S =
     (let k = kern S\<lparr>errno := (errno (kern S))(t := RT_EOK)\<rparr>;
          cur_tick = rt_tick k
      in if cur_tick - last_tick < inc_tick then
           let last_tick = last_tick + inc_tick;
               left_tick = last_tick - cur_tick;
               (err, k) = rt_thread_suspend_with_flag t RT_UNINTERRUPTIBLE k;
               k = k\<lparr>thread_timer := (thread_timer k)(t := Some (uint left_tick))\<rparr>
           in map_option (\<lambda>T. (None, last_tick, \<lparr>kern = rt_schedule k, tmr = T\<rparr>))
                (do_calls ((if err = RT_EOK then [Stop t] else []) @
                  [Control t (RT_TIMER_CTRL_SET_TIME left_tick), Start t]) (tmr S))
         else Some (Some (errno k t), cur_tick, S\<lparr>kern := k\<rparr>))"

definition sys_resume :: "nat \<Rightarrow> system \<Rightarrow> int \<times> system" where
  "sys_resume t S =
     (let (r, k) = rt_thread_resume t (kern S)
      in (r, \<lparr>kern = k, tmr = if is_suspended (stat (kern S) t) then snd (rt_timer_stop t (tmr S)) else tmr S\<rparr>))"

definition sys_yield :: "system \<Rightarrow> system" where
  "sys_yield S = S\<lparr>kern := snd (rt_thread_yield (kern S))\<rparr>"

section \<open>The system runs\<close>

text \<open>The running thread sleeps, gives up the processor, or wakes another one; the clock ticks.\<close>

datatype sys_event = Tick | Sleeps u32 nat | Delays u32 u32 nat | Yields | Resumes nat

inductive sys_step :: "sys_event \<Rightarrow> system \<Rightarrow> system \<Rightarrow> bool" where
  tick: "sys_tick S = Some S' \<Longrightarrow> sys_step Tick S S'"
| sleeps: "rt_current_thread (kern S) = Some t \<Longrightarrow> stat (kern S) t = RT_THREAD_RUNNING \<Longrightarrow> n < RT_TICK_MAX div 2 \<Longrightarrow>
    sys_sleep n t S = Some (r, S') \<Longrightarrow> sys_step (Sleeps n t) S S'"
| delays: "rt_current_thread (kern S) = Some t \<Longrightarrow> stat (kern S) t = RT_THREAD_RUNNING \<Longrightarrow> inc < RT_TICK_MAX div 2 \<Longrightarrow>
    rt_thread_delay_until w inc t S = Some (r, w', S') \<Longrightarrow> sys_step (Delays w inc t) S S'"
| yields: "sys_step Yields S (sys_yield S)"
| resumes: "sys_step (Resumes t) S (snd (sys_resume t S))"

inductive sys_run :: "sys_event list \<Rightarrow> system \<Rightarrow> system \<Rightarrow> bool" where
  start: "sys_run [] S S"
| step: "sys_step e S S' \<Longrightarrow> sys_run es S' S'' \<Longrightarrow> sys_run (e # es) S S''"

inductive_cases sys_stepE: "sys_step e S S'"
lemmas sys_step_cases = sys_stepE [consumes 1, case_names tick sleeps delays yields resumes]
inductive_simps sys_run_Nil [simp]: "sys_run [] S S'"
inductive_simps sys_run_Cons: "sys_run (e # es) S S'"

text \<open>
  The threads whose timers run are suspended, no thread timer is periodic, and the two clocks agree.  \<open>K\<close> are the threads
  that have slept before.
\<close>

definition sys_ok :: "nat set \<Rightarrow> nat list \<Rightarrow> system \<Rightarrow> bool" where
  "sys_ok K ts S \<longleftrightarrow>
     (\<exists>L. sched_ok (kern S) L) \<and> rt_current_thread (kern S) \<noteq> None \<and>
     settled K (tmr S) ts \<and> tick (tmr S) = rt_tick (kern S) \<and>
     (\<forall>t\<in>set ts. is_suspended (stat (kern S) t)) \<and> (\<forall>t. \<not> periodic (tmr S) t) \<and>
     (\<forall>t. thread_timer (kern S) t = (if t \<in> set ts then Some (uint (timer_init_tick (tmr S) t)) else None))"

section \<open>Steps of the kernel\<close>

definition kernel_fine :: "kernel \<Rightarrow> bool" where
  "kernel_fine k \<longleftrightarrow> (\<exists>L. sched_ok k L) \<and> rt_current_thread k \<noteq> None"

lemma kernel_fine_fields [simp]:
  "kernel_fine (k\<lparr>errno := e\<rparr>) = kernel_fine k" "kernel_fine (k\<lparr>thread_timer := tt\<rparr>) = kernel_fine k"
  "kernel_fine (k\<lparr>yield := y\<rparr>) = kernel_fine k" "kernel_fine (k\<lparr>remaining_tick := rt\<rparr>) = kernel_fine k"
  "kernel_fine (k\<lparr>rt_tick := n\<rparr>) = kernel_fine k"
  by (simp_all add: kernel_fine_def)

lemma rt_tick_frame [kernel_frame]:
  "rt_tick (rt_schedule k) = rt_tick k" "rt_tick (rt_schedule_insert_thread t k) = rt_tick k"
  "rt_tick (rt_schedule_remove_thread t k) = rt_tick k"
  by (simp_all add: rt_schedule_def rt_schedule_insert_thread_def rt_schedule_remove_thread_def Let_def split: option.splits prod.splits)

text \<open>What a call of the scheduler keeps.\<close>

definition same_threads :: "kernel \<Rightarrow> kernel \<Rightarrow> bool" where
  "same_threads k k' \<longleftrightarrow>
     (\<forall>t. is_suspended (stat k' t) = is_suspended (stat k t) \<and> runnable (stat k' t) = runnable (stat k t)) \<and>
     thread_timer k' = thread_timer k \<and> errno k' = errno k"

lemma same_threadsD:
  assumes "same_threads k k'"
  shows "is_suspended (stat k' t) = is_suspended (stat k t)" "runnable (stat k' t) = runnable (stat k t)"
    "thread_timer k' = thread_timer k" "errno k' = errno k"
  using assms by (simp_all add: same_threads_def)

lemma schedule_fine:
  assumes "kernel_fine k"
  shows "kernel_fine (rt_schedule k)" and "same_threads k (rt_schedule k)"
proof -
  obtain L c where k: "sched_ok k L" "rt_current_thread k = Some c" using assms by (auto simp: kernel_fine_def)
  obtain L' where L': "sched_ok (rt_schedule k) L'" "\<forall>t. is_suspended (stat (rt_schedule k) t) = is_suspended (stat k t)"
    "\<forall>t. runnable (stat (rt_schedule k) t) = runnable (stat k t)" by (rule schedule_ok [OF k]) blast
  have "rt_current_thread (rt_schedule k) \<noteq> None"
    using k(2) by (auto simp: rt_schedule_def Let_def kernel_frame split: prod.splits)
  with L' show "kernel_fine (rt_schedule k)" "same_threads k (rt_schedule k)"
    by (auto simp: kernel_fine_def same_threads_def kernel_frame)
qed

lemma tick_increase_fine:
  assumes "kernel_fine k"
  shows "kernel_fine (rt_tick_increase k)" and "same_threads k (rt_tick_increase k)" and "rt_tick (rt_tick_increase k) = rt_tick k + 1"
proof -
  obtain c where c: "rt_current_thread k = Some c" using assms by (auto simp: kernel_fine_def)
  let ?k = "k\<lparr>rt_tick := rt_tick k + 1, remaining_tick := (remaining_tick k)(c := remaining_tick k c - 1)\<rparr>"
  let ?y = "?k\<lparr>remaining_tick := (remaining_tick ?k)(c := init_tick k c), yield := (yield k)(c := True)\<rparr>"
  have "rt_tick_increase k = (if remaining_tick k c - 1 = 0 then rt_schedule ?y else ?k)"
    by (simp add: rt_tick_increase_def c Let_def)
  moreover have "kernel_fine ?y" "kernel_fine ?k" using assms by simp_all
  moreover have "same_threads k ?k" "same_threads ?y z \<Longrightarrow> same_threads k z" for z by (simp_all add: same_threads_def)
  ultimately show "kernel_fine (rt_tick_increase k)" "same_threads k (rt_tick_increase k)"
    "rt_tick (rt_tick_increase k) = rt_tick k + 1"
    using schedule_fine [of ?y] by (auto simp: kernel_frame)
qed

lemma expire_thread_fine:
  assumes k: "kernel_fine k" and t: "is_suspended (stat k t)"
  shows "kernel_fine (expire_thread k t)"
    and "is_suspended (stat (expire_thread k t) u) \<longleftrightarrow> is_suspended (stat k u) \<and> u \<noteq> t"
    and "runnable (stat (expire_thread k t) u) \<longleftrightarrow> runnable (stat k u) \<or> u = t"
    and "errno (expire_thread k t) = (errno k)(t := - RT_ETIMEOUT)"
    and "thread_timer (expire_thread k t) = (thread_timer k)(t := None)" and "rt_tick (expire_thread k t) = rt_tick k"
proof -
  obtain L where L: "sched_ok k L" using k by (auto simp: kernel_fine_def)
  let ?k = "k\<lparr>thread_timer := (thread_timer k)(t := None), errno := (errno k)(t := - RT_ETIMEOUT)\<rparr>"
  let ?w = "rt_schedule_insert_thread t (?k\<lparr>tlist := rt_list_remove (Node t) (tlist ?k)\<rparr>)"
  have e: "expire_thread k t = rt_schedule ?w" using t by (simp add: expire_thread_def thread_timeout_def)
  have "sched_ok ?w (woken t ?k L)" by (rule wake_ok) (use L t in simp_all)
  then have w: "kernel_fine ?w" using k by (auto simp: kernel_fine_def kernel_frame)
  note s = schedule_fine [OF w]
  show "kernel_fine (expire_thread k t)" unfolding e by (rule s(1))
  have st: "stat ?w = (stat k)(t := if rt_current_thread k = Some t then RT_THREAD_RUNNING else RT_THREAD_READY)"
    by (simp add: kernel_frame)
  show "is_suspended (stat (expire_thread k t) u) \<longleftrightarrow> is_suspended (stat k u) \<and> u \<noteq> t"
    and "runnable (stat (expire_thread k t) u) \<longleftrightarrow> runnable (stat k u) \<or> u = t"
    using s(2) unfolding e same_threads_def st by (auto simp: runnable_def)
  show "errno (expire_thread k t) = (errno k)(t := - RT_ETIMEOUT)"
    and "thread_timer (expire_thread k t) = (thread_timer k)(t := None)" and "rt_tick (expire_thread k t) = rt_tick k"
    unfolding e by (simp_all add: kernel_frame)
qed

lemma expire_threads_fine:
  assumes "kernel_fine k" and "distinct ts" and "\<forall>t\<in>set ts. is_suspended (stat k t)"
  shows "kernel_fine (foldl expire_thread k ts) \<and>
    (\<forall>u. is_suspended (stat (foldl expire_thread k ts) u) \<longleftrightarrow> is_suspended (stat k u) \<and> u \<notin> set ts) \<and>
    (\<forall>u. runnable (stat (foldl expire_thread k ts) u) \<longleftrightarrow> runnable (stat k u) \<or> u \<in> set ts) \<and>
    (\<forall>u. errno (foldl expire_thread k ts) u = (if u \<in> set ts then - RT_ETIMEOUT else errno k u)) \<and>
    (\<forall>u. thread_timer (foldl expire_thread k ts) u = (if u \<in> set ts then None else thread_timer k u)) \<and>
    rt_tick (foldl expire_thread k ts) = rt_tick k"
  using assms
proof (induction ts arbitrary: k)
  case (Cons t ts)
  have t: "is_suspended (stat k t)" using Cons.prems(3) by simp
  note e = expire_thread_fine [OF Cons.prems(1) t]
  have "\<forall>u\<in>set ts. is_suspended (stat (expire_thread k t) u)" using Cons.prems(2,3) e(2) by auto
  with Cons.IH [OF e(1)] Cons.prems(2) show ?case by (auto simp: e(2-6))
qed simp

section \<open>Steps of the system\<close>

lemma sys_okD:
  assumes "sys_ok K ts S"
  shows "kernel_fine (kern S)" "settled K (tmr S) ts" "tick (tmr S) = rt_tick (kern S)"
    "t \<in> set ts \<Longrightarrow> is_suspended (stat (kern S) t)" "\<not> periodic (tmr S) t"
    "thread_timer (kern S) t = (if t \<in> set ts then Some (uint (timer_init_tick (tmr S) t)) else None)"
  using assms by (simp_all add: sys_ok_def kernel_fine_def)

lemma sys_okI:
  assumes "kernel_fine (kern S)" and "settled K (tmr S) ts" and "tick (tmr S) = rt_tick (kern S)"
    and "\<And>t. t \<in> set ts \<Longrightarrow> is_suspended (stat (kern S) t)" and "\<And>t. \<not> periodic (tmr S) t"
    and "\<And>t. thread_timer (kern S) t = (if t \<in> set ts then Some (uint (timer_init_tick (tmr S) t)) else None)"
  shows "sys_ok K ts S"
  using assms by (simp add: sys_ok_def kernel_fine_def)

lemma no_calls_ok: "behaves K no_calls" "left_alone t no_calls"
  by (simp_all add: behaves_def acts_ok_def acts_live_def left_alone_def no_calls_def)

lemma distinct_counts: "(\<And>u. length (filter (\<lambda>i. f i = u) xs) \<le> 1) \<Longrightarrow> distinct (map f xs)"
proof (induction xs)
  case (Cons x xs)
  have "length (filter (\<lambda>i. f i = u) xs) \<le> 1" for u
    using Cons.prems [of u] by (cases "f x = u") simp_all
  moreover have "filter (\<lambda>i. f i = f x) xs = []" using Cons.prems [of "f x"] by simp
  then have "f x \<notin> f ` set xs" by (auto simp: filter_empty_conv)
  ultimately show ?case using Cons.IH by simp
qed simp

lemma in_counts: "u \<in> set (map f xs) \<longleftrightarrow> length (filter (\<lambda>i. f i = u) xs) \<noteq> 0"
  by (auto simp: filter_empty_conv)

lemma settled_tick_left: "settled K T ts \<Longrightarrow> u \<in> set ts \<Longrightarrow> remaining T u = left T u - 1 \<and> 1 < left T u"
  using settledD(3) [of K T ts u] by (simp add: remaining_left)

text \<open>A tick wakes the threads whose timers have one tick left, and nobody else.\<close>

lemma sys_tick_ok:
  assumes ok: "sys_ok K ts S"
  obtains S' ts' where "sys_tick S = Some S'" "sys_ok K ts' S'" "tick (tmr S') = tick (tmr S) + 1"
    "\<forall>u. u \<in> set ts' \<longleftrightarrow> u \<in> set ts \<and> remaining (tmr S) u \<noteq> 1"
    "\<forall>u\<in>set ts'. remaining (tmr S') u = remaining (tmr S) u - 1"
    "\<forall>u. is_suspended (stat (kern S') u) \<longleftrightarrow> is_suspended (stat (kern S) u) \<and> \<not> (u \<in> set ts \<and> remaining (tmr S) u = 1)"
    "\<forall>u. runnable (stat (kern S') u) \<longleftrightarrow> runnable (stat (kern S) u) \<or> u \<in> set ts \<and> remaining (tmr S) u = 1"
    "\<forall>u. errno (kern S') u = (if u \<in> set ts \<and> remaining (tmr S) u = 1 then - RT_ETIMEOUT else errno (kern S) u)"
proof -
  note d = sys_okD [OF ok]
  obtain T ts' where T: "clock_tick no_calls (tmr S) = Some T" "settled K T ts'" "tick T = tick (tmr S) + 1"
    "\<exists>new. invoked T = invoked (tmr S) @ new"
    "\<forall>u. left_alone u no_calls \<longrightarrow> (if u \<in> set ts \<and> left (tmr S) u = 2 then ran_out u (tmr S) T ts'
       else untouched u (tmr S) T \<and> fired T u = fired (tmr S) u \<and> (u \<in> set ts' \<longleftrightarrow> u \<in> set ts))"
    by (rule tick_ok [OF d(2) no_calls_ok(1)])
  define gone where "gone u \<longleftrightarrow> u \<in> set ts \<and> remaining (tmr S) u = 1" for u
  have rem: "remaining (tmr S) u = left (tmr S) u - 1" "1 < left (tmr S) u" if "u \<in> set ts" for u
    using settledD(3) [OF d(2) that] by (simp_all add: remaining_left)
  then have "u \<in> set ts \<and> left (tmr S) u = 2 \<longleftrightarrow> gone u" for u by (auto simp: gone_def)
  then have T5: "if gone u then ran_out u (tmr S) T ts'
      else untouched u (tmr S) T \<and> fired T u = fired (tmr S) u \<and> (u \<in> set ts' \<longleftrightarrow> u \<in> set ts)" for u
    using T(5) no_calls_ok(2) by presburger
  obtain new where new: "invoked T = invoked (tmr S) @ new" using T(4) by blast
  let ?new = "map fst new"
  have count: "length (filter (\<lambda>i. fst i = u) new) = (if gone u then 1 else 0)" for u
    using T5 [of u] new by (auto simp: fired_def ran_out_def split: if_splits)
  then have dist: "distinct ?new" by (intro distinct_counts) simp
  have mem: "u \<in> set ?new \<longleftrightarrow> gone u" for u
    unfolding in_counts count by simp
  let ?k = "rt_tick_increase (kern S)"
  let ?S = "\<lparr>kern = foldl expire_thread ?k ?new, tmr = T\<rparr>"
  note k = tick_increase_fine [OF d(1)]
  have "is_suspended (stat ?k u)" if "u \<in> set ?new" for u
    using that d(4) [of u] same_threadsD(1) [OF k(2), of u] unfolding mem gone_def by simp
  then have "\<forall>u\<in>set ?new. is_suspended (stat ?k u)" by blast
  note x = expire_threads_fine [OF k(1) dist this]
  have ts': "u \<in> set ts' \<longleftrightarrow> u \<in> set ts \<and> \<not> gone u" for u
    using T5 [of u] d(5) [of u] by (auto simp: ran_out_def gone_def split: if_splits)
  have per: "\<not> periodic T u" for u using T5 [of u] d(5) [of u] by (auto simp: ran_out_def untouched_def split: if_splits)
  have un: "timer_init_tick T u = timer_init_tick (tmr S) u \<and> timeout_tick T u = timeout_tick (tmr S) u" if "u \<in> set ts'" for u
    using T5 [of u] that by (auto simp: ts' untouched_def)
  show thesis
  proof (rule that)
    show "sys_tick S = Some ?S" using T(1) new by (simp add: sys_tick_def)
    show "sys_ok K ts' ?S"
    proof (rule sys_okI)
      show "kernel_fine (kern ?S)" using x by simp
      show "settled K (tmr ?S) ts'" using T(2) by simp
      show "tick (tmr ?S) = rt_tick (kern ?S)" using T(3) d(3) x k(3) by simp
      show "is_suspended (stat (kern ?S) u)" if "u \<in> set ts'" for u
        using that x d(4) [of u] by (simp only: mem ts' same_threadsD(1) [OF k(2)] system.simps) blast
      show "\<not> periodic (tmr ?S) u" for u using per by simp
      show "thread_timer (kern ?S) u = (if u \<in> set ts' then Some (uint (timer_init_tick (tmr ?S) u)) else None)" for u
        using x d(6) [of u] un [of u] by (simp only: mem ts' same_threadsD(3) [OF k(2)] system.simps) (auto simp: gone_def)
    qed
    show "tick (tmr ?S) = tick (tmr S) + 1" using T(3) by simp
    show "\<forall>u. u \<in> set ts' \<longleftrightarrow> u \<in> set ts \<and> remaining (tmr S) u \<noteq> 1" by (auto simp: ts' gone_def)
    show "\<forall>u\<in>set ts'. remaining (tmr ?S) u = remaining (tmr S) u - 1"
    proof
      fix u assume u: "u \<in> set ts'"
      then have "left T u = left (tmr S\<lparr>tick := tick (tmr S) + 1\<rparr>) u" using un T(3) by (simp add: left_def)
      also have "\<dots> = left (tmr S) u - 1" using u rem(2) [of u] by (simp add: tick_left ts')
      finally show "remaining (tmr ?S) u = remaining (tmr S) u - 1"
        using settled_tick_left [OF T(2) u] rem(1) [of u] u by (simp add: ts')
    qed
  qed (use x in \<open>simp_all only: mem gone_def same_threadsD [OF k(2)] system.simps simp_thms\<close>)
qed

text \<open>Putting the running thread to sleep.\<close>

lemma settled_set_time:
  assumes "settled K T ts" and "n \<noteq> 0" and "n < RT_TICK_MAX div 2" and T': "T' = snd (timer_control t (RT_TIMER_CTRL_SET_TIME n) T)"
  shows "settled (insert t K) T' ts" and "left T' = left T" and "tick T' = tick T"
    and "timer_init_tick T' = (timer_init_tick T)(t := n)" and "periodic T' = periodic T"
proof -
  show l: "left T' = left T" and "tick T' = tick T" unfolding T' by (simp_all only: control_frame)
  show n: "timer_init_tick T' = (timer_init_tick T)(t := n)" unfolding T' by (simp add: Let_def t_assert_def)
  show "periodic T' = periodic T" by (simp add: T' Let_def t_assert_def periodic_def fun_eq_iff)
  have "timers_inv T' ts []" unfolding T' by (rule control_inv(1) [OF settledD(1) [OF assms(1)]]) (simp add: assms(3))
  then show "settled (insert t K) T' ts"
    using assms(1,2) by (auto simp: settled_def live_def due_def l n)
qed

lemma timer_started:
  assumes T: "settled K T ts" and n: "n \<noteq> 0" "n < RT_TICK_MAX div 2" and t: "t \<notin> set ts"
    and cs: "cs = [Stop t, Control t (RT_TIMER_CTRL_SET_TIME n), Start t] \<or> cs = [Control t (RT_TIMER_CTRL_SET_TIME n), Start t]"
  obtains T' ts' where "do_calls cs T = Some T'" "settled (insert t K) T' ts'" "set ts' = insert t (set ts)"
    "remaining T' t = unat n" "\<forall>u\<in>set ts. remaining T' u = remaining T u" "tick T' = tick T"
    "timer_init_tick T' = (timer_init_tick T)(t := n)" "periodic T' = periodic T"
proof -
  have last_call: "Option.bind x (do_calls []) = x" for x by (cases x) simp_all
  have "rt_timer_stop t T = (- RT_ERROR, T)" using settledD(4) [OF T, of t] t by (simp add: rt_timer_stop_def)
  then have e: "do_calls cs T = do_call (Start t) (snd (timer_control t (RT_TIMER_CTRL_SET_TIME n) T))"
    using cs last_call by (auto simp: rt_timer_control_def)
  define T1 where "T1 = snd (timer_control t (RT_TIMER_CTRL_SET_TIME n) T)"
  note T1 = settled_set_time [OF T n T1_def]
  obtain T2 where T2: "rt_timer_start t T1 = Some (RT_EOK, T2)"
    "timers_inv T2 (insert_timer (left T2) t (removeAll t ts)) (removeAll t [])"
    "timeout_tick T2 = (timeout_tick T1)(t := tick T1 + timer_init_tick T1 t)" "left T2 t = unat (timer_init_tick T1 t) + 1"
    "\<forall>u. u \<noteq> t \<longrightarrow> left T2 u = left T1 u"
    "tick T2 = tick T1" "timer_init_tick T2 = timer_init_tick T1" "periodic T2 = periodic T1"
    by (rule start_ok [OF settledD(1) [OF T1(1)], of t]) blast
  obtain ts2 where ts2: "do_call (Start t) T1 = Some T2" "settled (insert t K) T2 ts2"
    by (rule call_settled [OF T1(1), of "Start t"]) (use T2(1) in auto)
  have "u \<in> set ts2 \<longleftrightarrow> u \<in> insert t (set ts)" for u
    using settledD(4) [OF ts2(2), of u] timers_invD(2,3) [OF T2(2), of u] t by auto
  then have m: "set ts2 = insert t (set ts)" by blast
  have r: "remaining T2 u = left T2 u - 1" if "u \<in> set ts2" for u using settled_tick_left [OF ts2(2) that] by simp
  have "remaining T2 t = unat n" using r [of t] T2(4) T1(4) m by simp
  moreover have "\<forall>u\<in>set ts. remaining T2 u = remaining T u"
  proof
    fix u assume u: "u \<in> set ts"
    then have "u \<noteq> t" using t by blast
    then have "left T2 u = left T u" using T2(5) T1(2) by simp
    with r [of u] m u settled_tick_left [OF T u] show "remaining T2 u = remaining T u" by simp
  qed
  moreover have "do_calls cs T = Some T2" using e ts2(1) unfolding T1_def by simp
  ultimately show thesis
    using m T1(3-5) T2(6-8) by (intro that [OF _ ts2(2)]) simp_all
qed

text \<open>What a sleep does to the threads, whichever of the two it is.\<close>

definition put_to_sleep :: "nat \<Rightarrow> nat \<Rightarrow> nat list \<Rightarrow> system \<Rightarrow> nat list \<Rightarrow> system \<Rightarrow> bool" where
  "put_to_sleep t n ts S ts' S' \<longleftrightarrow>
     set ts' = insert t (set ts) \<and> remaining (tmr S') t = n \<and> tick (tmr S') = tick (tmr S) \<and> (\<forall>u\<in>set ts. remaining (tmr S') u = remaining (tmr S) u) \<and>
     (\<forall>u. is_suspended (stat (kern S') u) \<longleftrightarrow> is_suspended (stat (kern S) u) \<or> u = t)"

lemma sleep_steps:
  assumes ok: "sys_ok K ts S" and t: "stat (kern S) t = RT_THREAD_RUNNING" and n: "n \<noteq> 0" "n < RT_TICK_MAX div 2"
    and w: "kernel_fine w" "stat w = (stat (kern S))(t := suspend_stat f)" "rt_tick w = rt_tick (kern S)"
      "thread_timer w = (thread_timer (kern S))(t := Some (uint n))"
    and cs: "cs = [Stop t, Control t (RT_TIMER_CTRL_SET_TIME n), Start t] \<or> cs = [Control t (RT_TIMER_CTRL_SET_TIME n), Start t]"
  obtains T' ts' where "do_calls cs (tmr S) = Some T'" "sys_ok (insert t K) ts' \<lparr>kern = rt_schedule w, tmr = T'\<rparr>"
    "put_to_sleep t (unat n) ts S ts' \<lparr>kern = rt_schedule w, tmr = T'\<rparr>"
proof -
  note d = sys_okD [OF ok]
  have out: "t \<notin> set ts" using d(4) [of t] t suspended_stats [of "stat (kern S) t"] by auto
  obtain T' ts' where T': "do_calls cs (tmr S) = Some T'" "settled (insert t K) T' ts'" "set ts' = insert t (set ts)"
    "remaining T' t = unat n" "\<forall>u\<in>set ts. remaining T' u = remaining (tmr S) u" "tick T' = tick (tmr S)"
    "timer_init_tick T' = (timer_init_tick (tmr S))(t := n)" "periodic T' = periodic (tmr S)"
    by (rule timer_started [OF d(2) n out cs])
  note sch = schedule_fine [OF w(1)]
  note same = same_threadsD [OF sch(2)]
  have "is_suspended (stat w u) \<longleftrightarrow> is_suspended (stat (kern S) u) \<or> u = t" for u by (simp add: w(2))
  then have sus: "is_suspended (stat (rt_schedule w) u) \<longleftrightarrow> is_suspended (stat (kern S) u) \<or> u = t" for u unfolding same(1) .
  let ?S = "\<lparr>kern = rt_schedule w, tmr = T'\<rparr>"
  have "sys_ok (insert t K) ts' ?S"
  proof (rule sys_okI)
    show "settled (insert t K) (tmr ?S) ts'" using T'(2) by simp
    show "tick (tmr ?S) = rt_tick (kern ?S)" using T'(6) d(3) w(3) by (simp add: kernel_frame)
    show "is_suspended (stat (kern ?S) u)" if "u \<in> set ts'" for u using that T'(3) sus [of u] d(4) [of u] by auto
    show "\<not> periodic (tmr ?S) u" for u using T'(8) d(5) [of u] by simp
    show "thread_timer (kern ?S) u = (if u \<in> set ts' then Some (uint (timer_init_tick (tmr ?S) u)) else None)" for u
      using d(6) [of u] T'(3,7) by (simp add: same(3) w(4))
  qed (use sch in simp)
  moreover have "put_to_sleep t (unat n) ts S ts' ?S" using T'(3-6) sus by (simp add: put_to_sleep_def)
  ultimately show thesis by (rule that [OF T'(1)])
qed

lemma sys_sleep_ok:
  assumes ok: "sys_ok K ts S" and t: "rt_current_thread (kern S) = Some t" "stat (kern S) t = RT_THREAD_RUNNING"
    and n: "n \<noteq> 0" "n < RT_TICK_MAX div 2"
  obtains S' ts' where "sys_sleep n t S = Some (None, S')" "sys_ok (insert t K) ts' S'" "put_to_sleep t (unat n) ts S ts' S'"
proof -
  obtain L where L: "sched_ok (kern S) L" using sys_okD(1) [OF ok] by (auto simp: kernel_fine_def)
  let ?k = "kern S\<lparr>errno := (errno (kern S))(t := RT_EOK)\<rparr>"
  have k: "sched_ok ?k L" using L by simp
  have t': "rt_current_thread ?k = Some t" "stat ?k t = RT_THREAD_RUNNING" using t by simp_all
  note s = suspend_running [OF k t', of RT_INTERRUPTIBLE]
  let ?s = "?k\<lparr>stat := (stat ?k)(t := suspend_stat RT_INTERRUPTIBLE), thread_timer := (thread_timer ?k)(t := None)\<rparr>"
  let ?w = "?s\<lparr>thread_timer := (thread_timer ?s)(t := Some (uint n)), errno := (errno ?s)(t := - RT_EINTR)\<rparr>"
  have e: "rt_thread_sleep n t (kern S) = (None, rt_schedule ?w)" using s(1) n(1) by (simp add: rt_thread_sleep_def)
  have "kernel_fine ?s" using s(2) t(1) unfolding kernel_fine_def by auto
  then have w: "kernel_fine ?w" unfolding kernel_fine_fields .
  have w': "stat ?w = (stat (kern S))(t := suspend_stat RT_INTERRUPTIBLE)" "rt_tick ?w = rt_tick (kern S)"
    "thread_timer ?w = (thread_timer (kern S))(t := Some (uint n))" by simp_all
  obtain T' ts' where "do_calls [Stop t, Control t (RT_TIMER_CTRL_SET_TIME n), Start t] (tmr S) = Some T'"
    "sys_ok (insert t K) ts' \<lparr>kern = rt_schedule ?w, tmr = T'\<rparr>" "put_to_sleep t (unat n) ts S ts' \<lparr>kern = rt_schedule ?w, tmr = T'\<rparr>"
    by (rule sleep_steps [OF ok t(2) n w w' disjI1 [OF refl]])
  then show thesis using e by (intro that [of "\<lparr>kern = rt_schedule ?w, tmr = T'\<rparr>" ts']) (simp_all only: sys_sleep_def split Let_def option.simps option.map)
qed

lemma delay_until_ok:
  assumes ok: "sys_ok K ts S" and t: "rt_current_thread (kern S) = Some t" "stat (kern S) t = RT_THREAD_RUNNING"
    and n: "rt_tick (kern S) - w < inc" "inc < RT_TICK_MAX div 2"
  obtains S' ts' where "rt_thread_delay_until w inc t S = Some (None, w + inc, S')" "sys_ok (insert t K) ts' S'"
    "put_to_sleep t (unat (w + inc - rt_tick (kern S))) ts S ts' S'"
proof -
  let ?n = "w + inc - rt_tick (kern S)"
  have "unat ?n = unat inc - unat (rt_tick (kern S) - w)"
  proof -
    have "?n = inc - (rt_tick (kern S) - w)" by simp
    moreover have "rt_tick (kern S) - w \<le> inc" using n(1) by simp
    ultimately show ?thesis by (metis unat_sub)
  qed
  moreover have "unat (rt_tick (kern S) - w) < unat inc" using n(1) by (simp add: word_less_nat_alt)
  ultimately have m: "0 < unat ?n" "unat ?n \<le> unat inc" by simp_all
  have n0: "?n \<noteq> 0" using m(1) by (metis less_irrefl unat_0)
  have nh: "?n < RT_TICK_MAX div 2" using m(2) n(2) by (simp only: less_half)
  obtain L where L: "sched_ok (kern S) L" using sys_okD(1) [OF ok] by (auto simp: kernel_fine_def)
  let ?k = "kern S\<lparr>errno := (errno (kern S))(t := RT_EOK)\<rparr>"
  have k: "sched_ok ?k L" using L by simp
  have t': "rt_current_thread ?k = Some t" "stat ?k t = RT_THREAD_RUNNING" using t by simp_all
  note s = suspend_running [OF k t', of RT_UNINTERRUPTIBLE]
  let ?s = "?k\<lparr>stat := (stat ?k)(t := suspend_stat RT_UNINTERRUPTIBLE), thread_timer := (thread_timer ?k)(t := None)\<rparr>"
  let ?w = "?s\<lparr>thread_timer := (thread_timer ?s)(t := Some (uint ?n))\<rparr>"
  have "kernel_fine ?s" using s(2) t(1) unfolding kernel_fine_def by auto
  then have w: "kernel_fine ?w" unfolding kernel_fine_fields .
  have w': "stat ?w = (stat (kern S))(t := suspend_stat RT_UNINTERRUPTIBLE)" "rt_tick ?w = rt_tick (kern S)"
    "thread_timer ?w = (thread_timer (kern S))(t := Some (uint ?n))" by simp_all
  obtain T' ts' where T': "do_calls [Stop t, Control t (RT_TIMER_CTRL_SET_TIME ?n), Start t] (tmr S) = Some T'"
    "sys_ok (insert t K) ts' \<lparr>kern = rt_schedule ?w, tmr = T'\<rparr>" "put_to_sleep t (unat ?n) ts S ts' \<lparr>kern = rt_schedule ?w, tmr = T'\<rparr>"
    by (rule sleep_steps [OF ok t(2) n0 nh w w' disjI1 [OF refl]])
  have "rt_thread_delay_until w inc t S = Some (None, w + inc, \<lparr>kern = rt_schedule ?w, tmr = T'\<rparr>)"
    using T'(1) n(1) s(1) by (simp add: rt_thread_delay_until_def Let_def)
  then show thesis by (rule that [OF _ T'(2,3)])
qed

lemma sys_resume_ok:
  assumes ok: "sys_ok K ts S"
  obtains ts' where "sys_ok K ts' (snd (sys_resume t S))" "set ts' = set ts - {t}" "tick (tmr (snd (sys_resume t S))) = tick (tmr S)"
    "\<forall>u\<in>set ts'. remaining (tmr (snd (sys_resume t S))) u = remaining (tmr S) u"
    "\<forall>u. u \<noteq> t \<longrightarrow> is_suspended (stat (kern (snd (sys_resume t S))) u) = is_suspended (stat (kern S) u)"
proof (cases "is_suspended (stat (kern S) t)")
  case False
  then have "snd (sys_resume t S) = S" by (simp add: sys_resume_def rt_thread_resume_def)
  moreover have "t \<notin> set ts" using sys_okD(4) [OF ok, of t] False by blast
  ultimately show thesis using ok by (intro that [of ts]) auto
next
  case True
  note d = sys_okD [OF ok]
  obtain L where L: "sched_ok (kern S) L" using d(1) by (auto simp: kernel_fine_def)
  obtain k' where k': "rt_thread_resume t (kern S) = (RT_EOK, k')" "sched_ok k' (woken t (kern S) L)"
    "stat k' = (stat (kern S))(t := if rt_current_thread (kern S) = Some t then RT_THREAD_RUNNING else RT_THREAD_READY)"
    "thread_timer k' = (thread_timer (kern S))(t := None)" "rt_current_thread k' = rt_current_thread (kern S)"
    by (rule resume_suspended [OF L True])
  have tick: "rt_tick k' = rt_tick (kern S)"
    using k'(1) True by (auto simp: rt_thread_resume_def kernel_frame)
  let ?cs = "rt_timer_stop t (tmr S)"
  have S': "snd (sys_resume t S) = \<lparr>kern = k', tmr = snd ?cs\<rparr>" using k'(1) True by (simp add: sys_resume_def)
  have fr: "tick (snd ?cs) = tick (tmr S)" "periodic (snd ?cs) = periodic (tmr S)" "timer_init_tick (snd ?cs) = timer_init_tick (tmr S)"
    "left (snd ?cs) = left (tmr S)" "remaining (snd ?cs) = remaining (tmr S)"
    by (simp_all add: rt_timer_stop_def remaining_def fun_eq_iff)
  have "\<exists>ts'. timers_inv (snd ?cs) ts' [] \<and> set ts' = set ts - {t}"
  proof (cases "active (tmr S) t")
    case True
    then show ?thesis using taken_out [OF settledD(1) [OF d(2)], of t]
      by (intro exI [of _ "removeAll t ts"]) (simp add: rt_timer_stop_def)
  next
    case False
    then show ?thesis using settledD(1,4) [OF d(2)] by (intro exI [of _ ts]) (auto simp: rt_timer_stop_def)
  qed
  then obtain ts' where ts': "timers_inv (snd ?cs) ts' []" "set ts' = set ts - {t}" by blast
  have s': "settled K (snd ?cs) ts'"
    using d(2) ts' fr by (auto simp: settled_def live_def due_def)
  show thesis
  proof (rule that)
    show "sys_ok K ts' (snd (sys_resume t S))"
    proof (rule sys_okI)
      show "kernel_fine (kern (snd (sys_resume t S)))" using k'(2,5) d(1) by (auto simp: kernel_fine_def S')
      show "thread_timer (kern (snd (sys_resume t S))) u =
          (if u \<in> set ts' then Some (uint (timer_init_tick (tmr (snd (sys_resume t S))) u)) else None)" for u
        using d(6) [of u] ts'(2) by (auto simp: S' k'(4) fr)
      show "is_suspended (stat (kern (snd (sys_resume t S))) u)" if "u \<in> set ts'" for u
        using that d(4) [of u] ts'(2) by (auto simp: S' k'(3))
    qed (use s' d(3,5) fr tick in \<open>simp_all add: S'\<close>)
    show "\<forall>u. u \<noteq> t \<longrightarrow> is_suspended (stat (kern (snd (sys_resume t S))) u) = is_suspended (stat (kern S) u)"
      by (simp add: S' k'(3))
  qed (use ts' fr in \<open>simp_all add: S'\<close>)
qed

lemma sys_yield_ok:
  assumes ok: "sys_ok K ts S"
  shows "sys_ok K ts (sys_yield S)" and "is_suspended (stat (kern (sys_yield S)) u) = is_suspended (stat (kern S) u)"
    and "tmr (sys_yield S) = tmr S"
proof -
  note d = sys_okD [OF ok]
  obtain c where c: "rt_current_thread (kern S) = Some c" using d(1) by (auto simp: kernel_fine_def)
  let ?w = "kern S\<lparr>remaining_tick := (remaining_tick (kern S))(c := init_tick (kern S) c), yield := (yield (kern S))(c := True)\<rparr>"
  have e: "sys_yield S = S\<lparr>kern := rt_schedule ?w\<rparr>" by (simp add: sys_yield_def rt_thread_yield_def c)
  have w: "kernel_fine ?w" using d(1) by simp
  note sch = schedule_fine [OF w]
  note same = same_threadsD [OF sch(2)]
  show "is_suspended (stat (kern (sys_yield S)) u) = is_suspended (stat (kern S) u)" for u
    unfolding e using same(1) [of u] by simp
  show "tmr (sys_yield S) = tmr S" by (simp add: e)
  show "sys_ok K ts (sys_yield S)"
    unfolding e by (rule sys_okI) (use sch d same in \<open>simp_all add: kernel_frame\<close>)
qed

text \<open>Every step keeps the invariant, and only a tick or a wake-up changes a running timer.\<close>

lemma sys_step_ok:
  assumes "sys_step e S S'" and ok: "sys_ok K ts S"
  obtains K' ts' where "sys_ok K' ts' S'" "tick (tmr S') = tick (tmr S) + (if e = Tick then 1 else 0)"
    "\<forall>t\<in>set ts. e \<noteq> Resumes t \<longrightarrow>
       (if e = Tick then (t \<in> set ts' \<longleftrightarrow> remaining (tmr S) t \<noteq> 1) \<and> (remaining (tmr S) t \<noteq> 1 \<longrightarrow> remaining (tmr S') t = remaining (tmr S) t - 1)
        else t \<in> set ts' \<and> remaining (tmr S') t = remaining (tmr S) t)"
  using assms(1)
proof (cases rule: sys_step_cases)
  case tick
  obtain S1 ts' where 1: "sys_tick S = Some S1" "sys_ok K ts' S1" "tick (tmr S1) = tick (tmr S) + 1" "\<forall>u. u \<in> set ts' \<longleftrightarrow> u \<in> set ts \<and> remaining (tmr S) u \<noteq> 1"
    "\<forall>u\<in>set ts'. remaining (tmr S1) u = remaining (tmr S) u - 1" by (rule sys_tick_ok [OF ok])
  moreover have "S1 = S'" "e = Tick" using tick 1(1) by simp_all
  ultimately show thesis by (intro that [of K ts']) auto
next
  case (sleeps t n r)
  show thesis
  proof (cases "n = 0")
    case True
    with sleeps have "S' = S" by (simp add: sys_sleep_def rt_thread_sleep_def)
    with ok sleeps show thesis by (intro that [of K ts]) simp_all
  next
    case False
    obtain S1 ts' where "sys_sleep n t S = Some (None, S1)" "sys_ok (insert t K) ts' S1" "put_to_sleep t (unat n) ts S ts' S1"
      by (rule sys_sleep_ok [OF ok sleeps(2,3) False sleeps(4)])
    with sleeps show thesis by (intro that [of "insert t K" ts']) (simp_all add: put_to_sleep_def)
  qed
next
  case (delays t inc w r w')
  show thesis
  proof (cases "rt_tick (kern S) - w < inc")
    case True
    obtain S1 ts' where "rt_thread_delay_until w inc t S = Some (None, w + inc, S1)" "sys_ok (insert t K) ts' S1"
      "put_to_sleep t (unat (w + inc - rt_tick (kern S))) ts S ts' S1"
      by (rule delay_until_ok [OF ok delays(2,3) True delays(4)])
    with delays show thesis by (intro that [of "insert t K" ts']) (simp_all add: put_to_sleep_def)
  next
    case False
    then have S': "S' = S\<lparr>kern := kern S\<lparr>errno := (errno (kern S))(t := RT_EOK)\<rparr>\<rparr>"
      using delays(5) by (simp add: rt_thread_delay_until_def)
    have "sys_ok K ts S'" unfolding S' by (rule sys_okI) (use sys_okD [OF ok] in simp_all)
    with delays show thesis by (intro that [of K ts]) (simp_all add: S')
  qed
next
  case yields
  with sys_yield_ok [OF ok] show thesis by (intro that [of K ts]) simp_all
next
  case (resumes t)
  obtain ts' where "sys_ok K ts' (snd (sys_resume t S))" "set ts' = set ts - {t}" "tick (tmr (snd (sys_resume t S))) = tick (tmr S)"
    "\<forall>u\<in>set ts'. remaining (tmr (snd (sys_resume t S))) u = remaining (tmr S) u"
    by (rule sys_resume_ok [OF ok])
  with resumes show thesis by (intro that [of K ts']) auto
qed

definition sys_inv :: "system \<Rightarrow> bool" where
  "sys_inv S \<longleftrightarrow> (\<exists>K ts. sys_ok K ts S)"

interpretation sys: step_relation "\<lambda>S S'. \<exists>e. sys_step e S S'" sys_inv
  by unfold_locales (unfold sys_inv_def, meson sys_step_ok)

definition ticks :: "sys_event list \<Rightarrow> nat" where
  "ticks es = length (filter (\<lambda>e. e = Tick) es)"

lemma ticks_simps [simp]: "ticks [] = 0" "ticks (e # es) = (if e = Tick then ticks es + 1 else ticks es)"
  by (simp_all add: ticks_def)

lemma run_reaches: "sys_run es S S' \<Longrightarrow> (\<lambda>S S'. \<exists>e. sys_step e S S')\<^sup>*\<^sup>* S S'"
  by (induction rule: sys_run.induct) (auto intro: converse_rtranclp_into_rtranclp)

text \<open>A timer that is left alone counts down.\<close>

lemma counts_down:
  assumes "sys_run es S S'" and "sys_ok K ts S" and "t \<in> set ts" and "Resumes t \<notin> set es" and "ticks es < remaining (tmr S) t"
  shows "\<exists>K' ts'. sys_ok K' ts' S' \<and> t \<in> set ts' \<and> remaining (tmr S') t = remaining (tmr S) t - ticks es \<and>
    tick (tmr S') = tick (tmr S) + of_nat (ticks es)"
  using assms
proof (induction arbitrary: K ts rule: sys_run.induct)
  case (start S)
  then show ?case by auto
next
  case (step e S S1 es S')
  obtain K1 ts1 where 1: "sys_ok K1 ts1 S1" "tick (tmr S1) = tick (tmr S) + (if e = Tick then 1 else 0)"
    "\<forall>t\<in>set ts. e \<noteq> Resumes t \<longrightarrow>
       (if e = Tick then (t \<in> set ts1 \<longleftrightarrow> remaining (tmr S) t \<noteq> 1) \<and> (remaining (tmr S) t \<noteq> 1 \<longrightarrow> remaining (tmr S1) t = remaining (tmr S) t - 1)
        else t \<in> set ts1 \<and> remaining (tmr S1) t = remaining (tmr S) t)"
    by (rule sys_step_ok [OF step(1,4)])
  have "e \<noteq> Resumes t" using step(6) by auto
  then have e: "if e = Tick then (t \<in> set ts1 \<longleftrightarrow> remaining (tmr S) t \<noteq> 1) \<and> (remaining (tmr S) t \<noteq> 1 \<longrightarrow> remaining (tmr S1) t = remaining (tmr S) t - 1)
        else t \<in> set ts1 \<and> remaining (tmr S1) t = remaining (tmr S) t" using 1(3) step(5) by blast
  have "t \<in> set ts1" "ticks es < remaining (tmr S1) t" "remaining (tmr S1) t - ticks es = remaining (tmr S) t - ticks (e # es)"
    using e step(7) by (auto split: if_splits)
  with step.IH [OF 1(1)] step(6) 1(2) show ?case by (cases "e = Tick") (simp_all add: algebra_simps)
qed

lemma wakes_at:
  assumes run: "sys_run es S S'" and ok: "sys_ok K ts S" and t: "t \<in> set ts" "Resumes t \<notin> set es" "ticks es < remaining (tmr S) t"
  shows "is_suspended (stat (kern S') t) \<and>
    (\<exists>S''. sys_tick S' = Some S'' \<and> tick (tmr S'') = tick (tmr S) + of_nat (ticks es) + 1 \<and> rt_tick (kern S'') = tick (tmr S'') \<and>
      (if ticks es + 1 = remaining (tmr S) t then runnable (stat (kern S'') t) \<and> errno (kern S'') t = - RT_ETIMEOUT
       else is_suspended (stat (kern S'') t)))"
proof -
  obtain K' ts' where 1: "sys_ok K' ts' S'" "t \<in> set ts'" "remaining (tmr S') t = remaining (tmr S) t - ticks es"
    "tick (tmr S') = tick (tmr S) + of_nat (ticks es)"
    using counts_down [OF assms] by blast
  obtain S'' ts'' where 2: "sys_tick S' = Some S''" "sys_ok K' ts'' S''" "tick (tmr S'') = tick (tmr S') + 1"
    "\<forall>u. is_suspended (stat (kern S'') u) \<longleftrightarrow> is_suspended (stat (kern S') u) \<and> \<not> (u \<in> set ts' \<and> remaining (tmr S') u = 1)"
    "\<forall>u. runnable (stat (kern S'') u) \<longleftrightarrow> runnable (stat (kern S') u) \<or> u \<in> set ts' \<and> remaining (tmr S') u = 1"
    "\<forall>u. errno (kern S'') u = (if u \<in> set ts' \<and> remaining (tmr S') u = 1 then - RT_ETIMEOUT else errno (kern S') u)"
    by (rule sys_tick_ok [OF 1(1)])
  have "ticks es + 1 = remaining (tmr S) t \<longleftrightarrow> remaining (tmr S') t = 1" using 1(3) t(3) by auto
  moreover have "rt_tick (kern S'') = tick (tmr S'')" using sys_okD(3) [OF 2(2)] by simp
  ultimately show ?thesis using 1(2,4) 2 sys_okD(4) [OF 1(1,2)] by auto
qed

section \<open>Sleeping from the start of a system\<close>

text \<open>The scheduler runs a thread, no timer runs, and the clocks agree.\<close>

definition sys_starts :: "system \<Rightarrow> bool" where
  "sys_starts S \<longleftrightarrow>
     (\<exists>L. sched_ok (kern S) L) \<and> rt_current_thread (kern S) \<noteq> None \<and> (\<forall>t. thread_timer (kern S) t = None) \<and>
     tmr S = rt_tick_set (rt_tick (kern S)) (rt_system_timer_init timers_reset)"

lemma starts_inv: "sys_starts S \<Longrightarrow> sys_inv S"
proof -
  assume s: "sys_starts S"
  have "settled {} (rt_system_timer_init timers_reset) []" using reset_inv by (simp add: settled_def live_def due_def)
  then have "settled {} (tmr S) []" using s tick_set_settled by (simp add: sys_starts_def)
  moreover have "\<not> periodic (tmr S) t" "tick (tmr S) = rt_tick (kern S)" for t
    using s by (simp_all add: sys_starts_def rt_tick_set_def periodic_def rt_system_timer_init_def timers_reset_def)
  ultimately have "sys_ok {} [] S" using s by (intro sys_okI) (simp_all add: sys_starts_def kernel_fine_def)
  then show ?thesis by (auto simp: sys_inv_def)
qed

lemma sys_run_inv: "sys_starts S0 \<Longrightarrow> sys_run es S0 S \<Longrightarrow> \<exists>K ts. sys_ok K ts S"
  using sys.run_keeps [OF run_reaches starts_inv] by (simp add: sys_inv_def)

text \<open>
  C20: a thread that sleeps for \<open>n\<close> ticks is woken by the \<open>n\<close>-th clock interrupt after that and by none before, whatever the
  other threads do (sleep, delay, yield, wake others) and however often the tick count wraps around, unless somebody
  resumes it; each of these interrupts returns.
\<close>

theorem sleeper_wakes_on_time:
  assumes "sys_starts S0" and "sys_run es0 S0 S" and "rt_current_thread (kern S) = Some t" and "stat (kern S) t = RT_THREAD_RUNNING"
    and "n \<noteq> 0" and "n < RT_TICK_MAX div 2"
    and "sys_sleep n t S = Some (r, S1)" and "sys_run es S1 S2" and "Resumes t \<notin> set es" and "ticks es < unat n"
  shows "is_suspended (stat (kern S2) t) \<and>
    (\<exists>S3. sys_tick S2 = Some S3 \<and>
      (if ticks es + 1 = unat n then runnable (stat (kern S3) t) \<and> errno (kern S3) t = - RT_ETIMEOUT
       else is_suspended (stat (kern S3) t)))"
proof -
  obtain K ts where ok: "sys_ok K ts S" using sys_run_inv [OF assms(1,2)] by blast
  obtain S1' ts1 where 1: "sys_sleep n t S = Some (None, S1')" "sys_ok (insert t K) ts1 S1'" "put_to_sleep t (unat n) ts S ts1 S1'"
    by (rule sys_sleep_ok [OF ok assms(3-6)])
  have "S1' = S1" using 1(1) assms(7) by simp
  with 1 have "sys_ok (insert t K) ts1 S1" "t \<in> set ts1" "remaining (tmr S1) t = unat n" by (simp_all add: put_to_sleep_def)
  with wakes_at [OF assms(8) this(1,2) assms(9)] assms(10) show ?thesis by auto
qed

text \<open>
  A thread that delays until the tick \<open>w + inc\<close>, which has not passed, is told \<open>w + inc\<close> as its new start and is woken
  when the tick count is just that: a loop of such delays keeps the rhythm of \<open>inc\<close> ticks, however long its body takes.
\<close>

theorem delay_until_keeps_rhythm:
  assumes "sys_starts S0" and "sys_run es0 S0 S" and "rt_current_thread (kern S) = Some t" and "stat (kern S) t = RT_THREAD_RUNNING"
    and "rt_tick (kern S) - w < inc" and "inc < RT_TICK_MAX div 2"
    and "rt_thread_delay_until w inc t S = Some (r, w', S1)" and "sys_run es S1 S2" and "Resumes t \<notin> set es"
    and "ticks es < unat (w + inc - rt_tick (kern S))"
  shows "w' = w + inc \<and> (\<exists>S3. sys_tick S2 = Some S3 \<and> (runnable (stat (kern S3) t) \<longleftrightarrow> rt_tick (kern S3) = w'))"
proof -
  obtain K ts where ok: "sys_ok K ts S" using sys_run_inv [OF assms(1,2)] by blast
  let ?n = "w + inc - rt_tick (kern S)"
  obtain S1' ts1 where 1: "rt_thread_delay_until w inc t S = Some (None, w + inc, S1')" "sys_ok (insert t K) ts1 S1'"
    "put_to_sleep t (unat ?n) ts S ts1 S1'" by (rule delay_until_ok [OF ok assms(3-6)])
  have "S1' = S1" and w': "w' = w + inc" using 1(1) assms(7) by simp_all
  with 1 have s: "sys_ok (insert t K) ts1 S1" "t \<in> set ts1" "remaining (tmr S1) t = unat ?n" by (simp_all add: put_to_sleep_def)
  obtain S3 where S3: "sys_tick S2 = Some S3" "tick (tmr S3) = tick (tmr S1) + of_nat (ticks es) + 1" "rt_tick (kern S3) = tick (tmr S3)"
    "if ticks es + 1 = unat ?n then runnable (stat (kern S3) t) \<and> errno (kern S3) t = - RT_ETIMEOUT
       else is_suspended (stat (kern S3) t)"
    using wakes_at [OF assms(8) s(1,2) assms(9)] assms(10) s(3) by auto
  have "tick (tmr S1) = rt_tick (kern S)" using 1(3) \<open>S1' = S1\<close> sys_okD(3) [OF ok] by (simp add: put_to_sleep_def)
  then have now: "rt_tick (kern S3) = rt_tick (kern S) + (of_nat (ticks es + 1) :: u32)" using S3(2,3) by simp
  have small: "unat (of_nat (ticks es + 1) :: u32) = ticks es + 1"
  proof -
    have "ticks es + 1 < 2 ^ 32" using assms(10) unsigned_less [of ?n, where 'a = nat] by simp
    then show ?thesis by (simp add: unat_of_nat take_bit_eq_mod del: of_nat_add of_nat_Suc)
  qed
  have "rt_tick (kern S3) = w + inc \<longleftrightarrow> (of_nat (ticks es + 1) :: u32) = ?n" unfolding now by (auto simp: algebra_simps)
  also have "\<dots> \<longleftrightarrow> ticks es + 1 = unat ?n" by (simp only: word_unat_eq_iff small)
  finally have "rt_tick (kern S3) = w' \<longleftrightarrow> ticks es + 1 = unat ?n" using w' by simp
  moreover have "is_suspended x \<Longrightarrow> \<not> runnable x" for x by (cases x) (simp_all add: runnable_def)
  ultimately show ?thesis using S3(1,4) w' by (auto split: if_splits)
qed

section \<open>Witnesses\<close>

definition demo_system :: system where
  "demo_system = \<lparr>kern = demo, tmr = rt_tick_set (rt_tick demo) (rt_system_timer_init timers_reset)\<rparr>"

lemma demo_starts:
  "sys_starts demo_system" "rt_current_thread (kern demo_system) = Some 2" "stat (kern demo_system) 2 = RT_THREAD_RUNNING"
proof -
  show "sys_starts demo_system" using demo_ok by (auto simp: sys_starts_def demo_system_def)
qed (simp_all add: demo_system_def demo_ok)

text \<open>After a first part of its wait, one tick has passed.\<close>

lemma one_tick:
  assumes "sys_ok K ts S"
  obtains S' where "sys_run [Tick] S S'"
  using sys_tick_ok [OF assms] by (metis sys_run.intros sys_step.tick)

lemma sleeper_wakes_on_time_witness:
  "\<exists>S1 S2. sys_sleep 2 2 demo_system = Some (None, S1) \<and> sys_run [Tick] S1 S2 \<and> is_suspended (stat (kern S2) 2) \<and>
    (\<exists>S3. sys_tick S2 = Some S3 \<and> runnable (stat (kern S3) 2) \<and> errno (kern S3) 2 = - RT_ETIMEOUT)"
proof -
  have n: "(2 :: u32) \<noteq> 0" "(2 :: u32) < RT_TICK_MAX div 2" by (simp_all add: tick_half)
  obtain K ts where ok: "sys_ok K ts demo_system" using starts_inv [OF demo_starts(1)] by (auto simp: sys_inv_def)
  obtain S1 ts1 where 1: "sys_sleep 2 2 demo_system = Some (None, S1)" "sys_ok (insert 2 K) ts1 S1"
    by (rule sys_sleep_ok [OF ok demo_starts(2,3) n])
  obtain S2 where 2: "sys_run [Tick] S1 S2" by (rule one_tick [OF 1(2)])
  have "Resumes 2 \<notin> set [Tick]" "ticks [Tick] < unat (2 :: u32)" "ticks [Tick] + 1 = unat (2 :: u32)" by simp_all
  with sleeper_wakes_on_time [OF demo_starts(1) sys_run.start demo_starts(2,3) n 1(1) 2] 1(1) 2 show ?thesis by auto
qed

lemma delay_until_keeps_rhythm_witness:
  "\<exists>S1 S2. rt_thread_delay_until (rt_tick demo) 2 2 demo_system = Some (None, rt_tick demo + 2, S1) \<and> sys_run [Tick] S1 S2 \<and>
    (\<exists>S3. sys_tick S2 = Some S3 \<and> (runnable (stat (kern S3) 2) \<longleftrightarrow> rt_tick (kern S3) = rt_tick demo + 2))"
proof -
  have n: "rt_tick (kern demo_system) - rt_tick demo < (2 :: u32)" "(2 :: u32) < RT_TICK_MAX div 2"
    by (simp_all add: demo_system_def tick_half)
  obtain K ts where ok: "sys_ok K ts demo_system" using starts_inv [OF demo_starts(1)] by (auto simp: sys_inv_def)
  obtain S1 ts1 where 1: "rt_thread_delay_until (rt_tick demo) 2 2 demo_system = Some (None, rt_tick demo + 2, S1)"
    "sys_ok (insert 2 K) ts1 S1" by (rule delay_until_ok [OF ok demo_starts(2,3) n])
  obtain S2 where 2: "sys_run [Tick] S1 S2" by (rule one_tick [OF 1(2)])
  have "Resumes 2 \<notin> set [Tick]" "ticks [Tick] < unat (rt_tick demo + 2 - rt_tick (kern demo_system))"
    by (simp_all add: demo_system_def)
  with delay_until_keeps_rhythm [OF demo_starts(1) sys_run.start demo_starts(2,3) n 1(1) 2] 1(1) 2 show ?thesis by blast
qed

end
