(* ===== verification/Rt_Heap.thy ===== *)
theory Rt_Heap
  imports Rt_Mem
begin

text \<open>
  The heap of the kernel as its users see it: what the calls of \<^verbatim>\<open>src/rt-thread/src/mem.c\<close> and
  \<^verbatim>\<open>src/rt-thread/src/kservice.c\<close> modelled in \<^verbatim>\<open>Rt_Mem\<close> promise, over every sequence of them.
\<close>

section \<open>Writing to a block\<close>

text \<open>Whoever writes only to the bytes of a used block leaves the heap in order and the other blocks as they are.\<close>

lemma write_ok:
  assumes m: "heap_ok m (xs @ (u, n) # ys)"
    and b: "\<And>j. j < 4294967296 \<Longrightarrow> j < span xs + 16 \<or> span xs + 16 + n \<le> j \<Longrightarrow> b (at m j) = bytes m (at m j)"
  defines "m' \<equiv> m\<lparr>bytes := b\<rparr>"
  shows "heap_ok m' (xs @ (u, n) # ys)"
proof -
  note h = heap_okD [OF m] and d = items_okD [OF heap_okD(1) [OF m]]
  have "ld m' i = ld m i" if "i + 4 \<le> span xs + 16 \<or> span xs + 16 + n \<le> i" "i < 4294967292" for i
    by (rule ld_bytes) (use that in \<open>auto simp: m'_def simp del: of_nat_add intro!: b\<close>)
  moreover have tags: "tag m' = tag m" "MEM_USED m' = MEM_USED m" by (rule tag_fields; simp add: m'_def) (simp add: m'_def MEM_USED_def)
  ultimately have "seg m' 0 0 (xs @ (u, n) # ys)" "ld m' (span (xs @ (u, n) # ys)) = MEM_USED m'"
    using d(1-6,9) by (auto simp: seg_append add.assoc elim!: seg_frame [rotated 2] simp: m'_def)
  then show "heap_ok m' (xs @ (u, n) # ys)"
    using h unfolding heap_ok_def items_ok_def by (simp add: m'_def)
qed

section \<open>Resizing\<close>

text \<open>A block that begins inside a used one is the lowest free one if no free one is before it.\<close>

lemma lower_free:
  assumes m: "items_ok m (xs @ (True, n) # ys)" and l: "lfree m = at m (lowest 0 (xs @ (True, n) # ys))"
    and k: "span xs \<le> k" "k < span xs + 16 + n"
  shows "(if at m k < lfree m then at m k else lfree m) = at m (if list_all fst xs then k else lowest 0 xs)"
proof -
  note d = items_okD [OF m]
  let ?l = "lowest 0 (xs @ (True, n) # ys)"
  have "?l \<le> span xs + 16 + n + span ys" using lowest_le(2) [of 0 "xs @ (True, n) # ys"] by simp
  then have "at m k < lfree m \<longleftrightarrow> k < ?l" unfolding l using d(6) k by (intro at_order) simp_all
  also have "\<dots> \<longleftrightarrow> list_all fst xs"
    by (cases "list_all fst xs")
      (use lowest_le(1) [of "span xs + 16 + n" ys] lowest_inside [of xs 0] k in \<open>simp_all add: lowest_append\<close>)
  finally show ?thesis unfolding l by (simp add: lowest_append)
qed

lemma realloc_eq:
  assumes m: "heap_ok m (xs @ (True, n) # ys)" and sz: "unat sz \<le> 4294967288"
  defines "K \<equiv> round8 (unat sz)" and "k \<equiv> span xs" and "p \<equiv> at m (span xs + 16)"
  shows "rt_smem_realloc p sz m =
    (if span xs + n + span ys < K then Some (RT_NULL, m)
     else if K = 0 then Some (RT_NULL, rt_smem_free p m)
     else if n = K then Some (p, m)
     else if K + 28 < n then
       let m1 = alloc_split (of_nat K) (of_nat k) (m\<lparr>used := used m - of_nat (n - K)\<rparr>);
           mem2 = at m (k + 16 + K)
       in Some (p, plug_holes mem2 (if mem2 < lfree m1 then m1\<lparr>lfree := mem2\<rparr> else m1))
     else map_option (\<lambda>(q, m). if q \<noteq> RT_NULL
            then (q, rt_smem_free p (m\<lparr>bytes := snd (rt_memcpy q p (of_nat (min n K)) (bytes m))\<rparr>)) else (q, m))
          (rt_smem_alloc (of_nat K) m))"
proof -
  note h = heap_okD [OF m] and d = items_okD [OF heap_okD(1) [OF m]]
  have sx: "span xs = k" by (simp add: k_def)
  have K: "RT_ALIGN sz 8 = of_nat K" unfolding K_def RT_ALIGN_round8 [OF sz, symmetric] by simp
  have Kb: "K \<le> 4294967288" unfolding K_def round8_def using sz by simp
  have b: "unat (heap_ptr m) + (k + 16 + n + span ys) + 16 < 4294967296" "8 \<le> n" using d(6) h(7) by (simp_all add: sx)
  have pk: "p = at m (k + 16)" by (simp add: p_def sx)
  have k8: "8 dvd k" using items_okD2(9) [OF h(1)] unfolding k_def by (intro span_dvd) auto
  have ua: "unat p = unat (heap_ptr m) + (k + 16)" unfolding pk using b by (intro unat_at) simp
  then have nz: "p \<noteq> 0" by (metis add_is_0 unat_0 zero_neq_numeral)
  have al: "p AND 7 = 0" unfolding and_7 ua using d(11) k8 by simp
  have in_heap: "heap_ptr m \<le> p" "p < heap_end m"
  proof -
    show "heap_ptr m \<le> p" unfolding pk using at_order(2) [of m 0 "k + 16"] b by simp
    show "p < heap_end m" unfolding d(8) sx pk using b by (subst at_order) simp_all
  qed
  have mem: "p - 16 = at m k" "at m k - heap_ptr m = of_nat k" by (simp_all add: pk)
  have nx: "item_next m (at m k) - of_nat k - 16 = of_nat n" using d(4) by (simp add: item_at sx)
  have big: "of_nat K > mem_size_aligned m \<longleftrightarrow> k + n + span ys < K" unfolding d(10) sx using b Kb by (intro of_nat_u32) simp_all
  have zero: "(of_nat K :: u32) = 0 \<longleftrightarrow> K = 0" using of_nat_u32(3) [of K 0] Kb by simp
  have same: "(of_nat n :: u32) = of_nat K \<longleftrightarrow> n = K" using b Kb by (intro of_nat_u32) simp_all
  have less: "(of_nat n :: u32) < of_nat K \<longleftrightarrow> n < K" using b Kb by (intro of_nat_u32) simp_all
  have shrink: "of_nat K + 16 + 12 < (of_nat n :: u32) \<longleftrightarrow> K + 28 < n" if "\<not> k + n + span ys < K"
    using of_nat_u32(2) [of "K + 28" n] b that by (simp add: add.commute)
  have mem2: "heap_ptr m + (of_nat k + 16 + of_nat K) = at m (k + 16 + K)" by simp
  have diff: "of_nat n - of_nat K = (of_nat (n - K) :: u32)" if "K + 28 < n" using that by simp
  have mn: "(if n < K then of_nat n else of_nat K) = (of_nat (min n K) :: u32)" by (simp add: min_def)
  have hu: "heap_ptr (m\<lparr>used := x\<rparr>) = heap_ptr m" for x by simp
  have asserts: "m_assert (p AND (8 - 1) = 0) m = m" "m_assert (heap_ptr m \<le> p) m = m" "m_assert (p < heap_end m) m = m"
    using al in_heap by simp_all
  have e: "rt_smem_realloc p sz m =
    (if k + n + span ys < K then Some (RT_NULL, m)
     else if K = 0 then Some (RT_NULL, rt_smem_free p m)
     else if n = K then Some (p, m)
     else if of_nat K + 16 + 12 < (of_nat n :: u32) then
       let m1 = alloc_split (of_nat K) (of_nat k) (m\<lparr>used := used m - (of_nat n - of_nat K)\<rparr>);
           mem2 = heap_ptr m + (of_nat k + 16 + of_nat K)
       in Some (p, plug_holes mem2 (if mem2 < lfree m1 then m1\<lparr>lfree := mem2\<rparr> else m1))
     else map_option (\<lambda>(q, m). if q \<noteq> RT_NULL
            then (q, rt_smem_free p (m\<lparr>bytes := snd (rt_memcpy q p (of_nat (min n K)) (bytes m))\<rparr>)) else (q, m))
          (rt_smem_alloc (of_nat K) m))"
    unfolding rt_smem_realloc_def Let_def K big zero using nz
    by (simp only: sizes asserts mem nx same less mn hu if_False simp_thms)
  show ?thesis
  proof (cases "\<not> k + n + span ys < K \<and> K \<noteq> 0 \<and> n \<noteq> K")
    case True
    then show ?thesis unfolding e mem2 Let_def sx using shrink diff by (cases "K + 28 < n") (simp_all only: if_True if_False simp_thms)
  next
    case False
    then show ?thesis unfolding e sx by (cases "k + n + span ys < K"; cases "K = 0") (simp_all only: if_True if_False simp_thms)
  qed
qed

text \<open>A block is made smaller in place if what is cut off is more than a header and the least size.\<close>

lemma realloc_shrinks:
  assumes m: "heap_ok m (xs @ (True, n) # ys)" and sz: "unat sz \<le> 4294967288" and K: "K = round8 (unat sz)" "0 < K" "K + 28 < n"
  shows "\<exists>m'. rt_smem_realloc (at m (span xs + 16)) sz m = Some (at m (span xs + 16), m') \<and>
    heap_ok m' (release (xs @ [(True, K)]) (n - 16 - K) ys) \<and> same_data m m' (release (xs @ [(True, K)]) (n - 16 - K) ys)"
proof -
  note h = heap_okD [OF m] and d = items_okD [OF heap_okD(1) [OF m]]
  define k where "k = span xs"
  have sx: "span xs = k" by (simp add: k_def)
  have b: "unat (heap_ptr m) + (k + 16 + n + span ys) + 16 < 4294967296" using d(6) by (simp add: sx)
  have K8: "8 dvd K" using round8_props(1) by (simp add: K(1))
  then have "8 \<le> K" using K(2) by (intro dvd_imp_le)
  let ?r = "n - 16 - K" and ?xs = "xs @ [(True, K)]"
  let ?m0 = "m\<lparr>used := used m - of_nat (n - K)\<rparr>"
  let ?m1 = "alloc_split (of_nat K) (of_nat k) ?m0"
  let ?l = "at m (lowest 0 (?xs @ [(False, ?r)]))"
  let ?m2 = "?m1\<lparr>lfree := ?l\<rparr>"
  have m0: "items_ok ?m0 (xs @ (True, n) # ys)" using h(1) by simp
  have kn: "K + 16 \<le> n" using K(3) by simp
  note sp = split_block [OF m0 K8 kn, unfolded sx]
  have hp: "heap_ptr ?m1 = heap_ptr m" using sp(2) by (simp add: touches_def)
  have low: "(if at m (k + 16 + K) < lfree m then at m (k + 16 + K) else lfree m) = ?l"
    using lower_free [OF h(1,3), of "k + 16 + K"] K(3) by (simp add: sx lowest_append)
  have m1: "(if at m (k + 16 + K) < lfree ?m1 then ?m1\<lparr>lfree := at m (k + 16 + K)\<rparr> else ?m1) = ?m2"
  proof -
    have "lfree ?m1 = lfree m" using sp(3) by simp
    moreover have "?m1\<lparr>lfree := lfree ?m1\<rparr> = ?m1" by simp
    ultimately show ?thesis unfolding low [symmetric] by (simp only: split: if_split) simp
  qed
  have s2: "at m (k + 16 + K) = at ?m2 (span ?xs)" by (simp add: sx hp)
  have c: "\<not> k + n + span ys < K" "K \<noteq> 0" "n \<noteq> K" using K(2,3) by simp_all
  have e: "rt_smem_realloc (at m (span xs + 16)) sz m = Some (at m (span xs + 16), plug_holes (at ?m2 (span ?xs)) ?m2)"
    using realloc_eq [OF m sz, folded K(1), unfolded Let_def sx m1] unfolding sx s2 [symmetric]
    by (simp only: c K(3) if_True if_False)
  have i2: "items_ok ?m2 (?xs @ (False, ?r) # ys)" using sp(1) by simp
  have l2: "lfree ?m2 = at ?m2 (lowest 0 (?xs @ [(False, ?r)]))" using hp by simp
  have tx: "tidy ?xs" "tidy ys" using h(2) by (auto simp: tidy_append successively_Cons)
  note p = plug_holes_ok [OF i2 l2 tx(1)]
  let ?m' = "plug_holes (at ?m2 (span ?xs)) ?m2"
  have "used ?m2 = of_nat (usage ?xs + usage ys)" using sp(4) h(4) K(3) by simp
  then have use: "used ?m' = of_nat (usage (release ?xs ?r ys))" using p(4) by (simp add: release_facts)
  have "usage ?xs + usage ys \<le> usage (xs @ (True, n) # ys)" "usage (xs @ (True, n) # ys) < 4294967296"
    using K(3) usage_span [of xs] usage_span [of ys] b by (simp_all add: sx)
  then have "(of_nat (usage ?xs + usage ys) :: u32) \<le> of_nat (usage (xs @ (True, n) # ys))"
    by (subst of_nat_u32) simp_all
  then have "used ?m' \<le> used m" using use h(4) by (simp only: release_facts)
  then have "used ?m' \<le> max_used ?m'" using p(5) sp(5) h(5) by simp
  moreover have "lfree ?m' = at ?m' (lowest 0 (release ?xs ?r ys))" using p(3,7) hp by (simp add: lowest_release)
  moreover have "\<forall>b\<in>set (release ?xs ?r ys). fst b \<longrightarrow> 8 \<le> snd b"
    using set_release [of _ ?xs ?r ys] h(7) \<open>8 \<le> K\<close> by fastforce
  moreover have "\<not> mem_assert ?m'" using p(6) sp(6) h(6) by simp
  ultimately have ok: "heap_ok ?m' (release ?xs ?r ys)"
    using p(1) tidy_release [OF tx] use by (simp add: heap_ok_def)
  have "same_data m ?m2 (?xs @ (False, ?r) # ys)"
  proof (rule same_data_touches)
    show "touches m ?m2 ({k + 4..<k + 8} \<union> {k + 16 + K..<k + 28 + K} \<union> {k + 24 + n..<k + 28 + n})"
      using sp(2) by (simp add: touches_def)
    show "span (?xs @ (False, ?r) # ys) \<le> 4294967296" using b K(3) by (simp add: sx)
    fix us j vs assume a: "?xs @ (False, ?r) # ys = us @ (True, j) # vs"
    then have e: "xs @ (True, K) # (False, ?r) # ys = us @ (True, j) # vs" by simp
    show "({k + 4..<k + 8} \<union> {k + 16 + K..<k + 28 + K} \<union> {k + 24 + n..<k + 28 + n}) \<inter> {span us + 16..<span us + 16 + j} = {}"
      by (rule split_cases [OF a]; rule split_cases [OF e]) (use K(3) in \<open>auto simp: sx\<close>)
  qed
  then have "same_data m ?m' (?xs @ (False, ?r) # ys)" by (rule same_data_trans [OF _ p(2)])
  then have "same_data m ?m' (release ?xs ?r ys)" by (simp add: same_data_def used_from_release)
  then show ?thesis using e ok by blast
qed

section \<open>The calls, by the blocks in use\<close>

text \<open>Which data stay: \<open>P k n\<close> for the block of \<open>n\<close> bytes with its item at the offset \<open>k\<close>.\<close>

definition keeps :: "small_mem \<Rightarrow> small_mem \<Rightarrow> (nat \<Rightarrow> nat \<Rightarrow> bool) \<Rightarrow> bool" where
  "keeps m m' P \<longleftrightarrow> heap_ptr m' = heap_ptr m \<and> heap_end m' = heap_end m \<and>
     (\<forall>k n i. P k n \<longrightarrow> i < n \<longrightarrow> bytes m' (at m (k + 16 + i)) = bytes m (at m (k + 16 + i)))"

lemma keepsI: "heap_ptr m' = heap_ptr m \<Longrightarrow> heap_end m' = heap_end m \<Longrightarrow>
    (\<And>k n i. P k n \<Longrightarrow> i < n \<Longrightarrow> bytes m' (at m (k + 16 + i)) = bytes m (at m (k + 16 + i))) \<Longrightarrow> keeps m m' P"
  unfolding keeps_def by blast

lemma keepsD: "keeps m m' P \<Longrightarrow> P k n \<Longrightarrow> i < n \<Longrightarrow> bytes m' (at m (k + 16 + i)) = bytes m (at m (k + 16 + i))"
  unfolding keeps_def by blast

lemma keeps_heap_ptr: "keeps m m' P \<Longrightarrow> heap_ptr m' = heap_ptr m" "keeps m m' P \<Longrightarrow> heap_end m' = heap_end m"
  by (simp_all add: keeps_def)

lemma keeps_refl [simp]: "keeps m m P"
  by (simp add: keeps_def)

lemma same_data_keeps: "same_data m m' bs \<Longrightarrow> keeps m m' (used_from 0 bs)"
  by (simp add: same_data_def keeps_def)

lemma keeps_trans: "keeps m m1 P \<Longrightarrow> keeps m1 m2 P \<Longrightarrow> keeps m m2 P"
  by (simp add: keeps_def)

lemma keeps_mono: "keeps m m' P \<Longrightarrow> (\<And>k n. Q k n \<Longrightarrow> P k n) \<Longrightarrow> keeps m m' Q"
  unfolding keeps_def by blast

lemma used_from_apart:
  assumes "used_from 0 bs k n" and "used_from 0 bs k' n'"
  shows "k = k' \<and> n = n' \<or> k + 16 + n \<le> k' \<or> k' + 16 + n' \<le> k"
proof -
  obtain us vs where u: "bs = us @ (True, n) # vs" "k = span us" using assms(1) by (auto simp: used_from_split)
  obtain us' vs' where u': "bs = us' @ (True, n') # vs'" "k' = span us'" using assms(2) by (auto simp: used_from_split)
  have "us @ (True, n) # vs = us' @ (True, n') # vs'" using u u' by simp
  then show ?thesis by (rule split_cases) (simp_all add: u(2) u'(2))
qed

lemma used_from_inside: "used_from 0 bs k n \<Longrightarrow> k + 16 + n \<le> span bs"
  by (auto simp: used_from_split)

lemma block_at:
  assumes "heap_ok m bs" and "used_from 0 bs k n"
  shows "unat (at m (k + 16)) = unat (heap_ptr m) + k + 16" "at m (k + 16) \<noteq> 0"
    "unat (heap_ptr m) + k + 16 + n + 16 < 4294967296" "8 dvd unat (at m (k + 16))" "8 \<le> n"
proof -
  note h = heap_okD [OF assms(1)] and d = items_okD2 [OF heap_okD(1) [OF assms(1)]]
  show b: "unat (heap_ptr m) + k + 16 + n + 16 < 4294967296" using d(2) used_from_inside [OF assms(2)] by simp
  then show a: "unat (at m (k + 16)) = unat (heap_ptr m) + k + 16" using unat_at [of m "k + 16"] by simp
  then show "at m (k + 16) \<noteq> 0" by (metis add_is_0 unat_0 zero_neq_numeral)
  obtain us vs where e: "bs = us @ (True, n) # vs" "k = span us" using assms(2) by (auto simp: used_from_split)
  then have "8 dvd k" using d(9) unfolding e(2) by (intro span_dvd) auto
  then show "8 dvd unat (at m (k + 16))" unfolding a using d(3) by simp
  show "8 \<le> n" using h(7) e by auto
qed

lemma used_take:
  assumes "first_fit K 0 bs = Some k"
  shows "\<exists>a\<ge>K. \<forall>i n. used_from 0 (take_block K bs) i n \<longleftrightarrow> used_from 0 bs i n \<or> i = k \<and> n = a"
proof -
  obtain xs n ys where "bs = xs @ (False, n) # ys" "k = span xs" "K \<le> n" "take_block K bs = xs @ carve K n @ ys"
    using first_fit_split [OF assms] by auto
  then show ?thesis by (intro exI [of _ "if K + 32 \<le> n then K else n"]) (auto simp: carve_def add.assoc)
qed

lemma first_fit_unused: "first_fit K 0 bs = Some k \<Longrightarrow> \<not> used_from 0 bs k n"
proof
  assume "first_fit K 0 bs = Some k" "used_from 0 bs k n"
  then obtain xs j ys us vs where e: "bs = xs @ (False, j) # ys" "k = span xs" "bs = us @ (True, n) # vs" "k = span us"
    using first_fit_split [of K 0 bs k] by (auto simp: used_from_split)
  then have "xs @ (False, j) # ys = us @ (True, n) # vs" by simp
  then show False by (rule split_cases) (use e(2,4) in auto)
qed

lemma alloc_blocks:
  assumes m: "heap_ok m bs" and sz: "sz \<noteq> 0" "unat sz \<le> 4294967288" and f: "first_fit (request_size sz) 0 bs = Some k"
  obtains m' bs' a where "rt_smem_alloc sz m = Some (at m (k + 16), m')" "heap_ok m' bs'" "request_size sz \<le> a"
    "\<And>i n. used_from 0 bs' i n \<longleftrightarrow> used_from 0 bs i n \<or> i = k \<and> n = a" "keeps m m' (used_from 0 bs)"
  using alloc_fits [OF m sz] f used_take [OF f] by (auto dest: same_data_keeps)

lemma free_blocks:
  assumes m: "heap_ok m bs" and u: "used_from 0 bs k n"
  obtains bs' where "heap_ok (rt_smem_free (at m (k + 16)) m) bs'"
    "\<And>i j. used_from 0 bs' i j \<longleftrightarrow> used_from 0 bs i j \<and> i \<noteq> k"
    "keeps m (rt_smem_free (at m (k + 16)) m) (\<lambda>i j. used_from 0 bs i j \<and> i \<noteq> k)"
proof -
  obtain xs ys where b: "bs = xs @ (True, n) # ys" "k = span xs" using u by (auto simp: used_from_split)
  have r: "used_from 0 (release xs n ys) i j \<longleftrightarrow> used_from 0 bs i j \<and> i \<noteq> k" for i j
  proof -
    have "i \<noteq> k" if "used_from 0 xs i j \<or> used_from (span xs + 16 + n) ys i j"
      using that by (auto simp: b(2) used_from_split)
    moreover have "used_from 0 bs i j \<longleftrightarrow> used_from 0 xs i j \<or> i = k \<and> j = n \<or> used_from (span xs + 16 + n) ys i j"
      by (auto simp: b)
    ultimately show ?thesis by (auto simp: used_from_release)
  qed
  show thesis
    by (rule that [of "release xs n ys"])
      (use free_ok [OF m [unfolded b(1)]] r in \<open>auto simp: b(2) intro: keeps_mono dest: same_data_keeps\<close>)
qed

lemma write_blocks:
  assumes m: "heap_ok m bs" and u: "used_from 0 bs k n"
    and b: "\<And>j. j < 4294967296 \<Longrightarrow> j < k + 16 \<or> k + 16 + n \<le> j \<Longrightarrow> b (at m j) = bytes m (at m j)"
  shows "heap_ok (m\<lparr>bytes := b\<rparr>) bs" "keeps m (m\<lparr>bytes := b\<rparr>) (\<lambda>i j. used_from 0 bs i j \<and> i \<noteq> k)"
proof -
  obtain xs ys where e: "bs = xs @ (True, n) # ys" "k = span xs" using u by (auto simp: used_from_split)
  show "heap_ok (m\<lparr>bytes := b\<rparr>) bs" unfolding e(1) by (rule write_ok) (use m b in \<open>simp_all add: e\<close>)
  have "span bs < 4294967296" using items_okD2(2) [OF heap_okD(1) [OF m]] by simp
  then have "b (at m (i + 16 + l)) = bytes m (at m (i + 16 + l))" if "used_from 0 bs i j" "i \<noteq> k" "l < j" for i j l
    using used_from_apart [OF that(1) u] used_from_inside [OF that(1)] that(2,3) \<open>span bs < 4294967296\<close> by (intro b) auto
  then show "keeps m (m\<lparr>bytes := b\<rparr>) (\<lambda>i j. used_from 0 bs i j \<and> i \<noteq> k)" by (intro keepsI) (auto simp del: of_nat_add)
qed

text \<open>The data of a block are copied to another one, which is large enough.\<close>

lemma copy_blocks:
  assumes m: "heap_ok m bs" and u: "used_from 0 bs k n" "used_from 0 bs k' a" "k' \<noteq> k" and c: "c \<le> n" "c \<le> a"
  defines "m' \<equiv> m\<lparr>bytes := snd (rt_memcpy (at m (k' + 16)) (at m (k + 16)) (of_nat c) (bytes m))\<rparr>"
  shows "heap_ok m' bs" "keeps m m' (\<lambda>i j. used_from 0 bs i j \<and> i \<noteq> k')"
    "l < c \<Longrightarrow> bytes m' (at m (k' + 16 + l)) = bytes m (at m (k + 16 + l))"
proof -
  have s: "span bs < 4294967296" using items_okD2(2) [OF heap_okD(1) [OF m]] by simp
  have lt: "k + 16 + n < 4294967296" "k' + 16 + a < 4294967296" using used_from_inside [OF u(1)] used_from_inside [OF u(2)] s by simp_all
  have "unat (at m (k' + 16) - at m (k + 16)) = (if k \<le> k' then k' - k else k' + 4294967296 - k)"
    unfolding at_diff(2) using lt unat_offsets [of "k' + 16" "k + 16"] by (simp add: ac_simps)
  then have "upwards_ok (at m (k' + 16)) (at m (k + 16)) c"
    unfolding upwards_ok_def using used_from_apart [OF u(1,2)] u(3) c lt by auto
  then have cp: "bytes m' = copy (bytes m) (at m (k' + 16)) (at m (k + 16)) c"
    using lt c by (simp add: m'_def memcpy_copy unat_of_nat_u32)
  then have m': "m' = m\<lparr>bytes := copy (bytes m) (at m (k' + 16)) (at m (k + 16)) c\<rparr>" by (simp add: m'_def)
  have out: "copy (bytes m) (at m (k' + 16)) (at m (k + 16)) c (at m j) = bytes m (at m j)"
    if "j < 4294967296" "j < k' + 16 \<or> k' + 16 + a \<le> j" for j
    unfolding copy_at at_diff(2) using that lt c unat_offsets [of j "k' + 16"] by auto
  show "heap_ok m' bs" "keeps m m' (\<lambda>i j. used_from 0 bs i j \<and> i \<noteq> k')"
    unfolding m' by (rule write_blocks [OF m u(2)]; rule out; assumption)+
  have "at m (k' + 16 + l) - at m (k' + 16) = of_nat l" "at m (k + 16) + of_nat l = at m (k + 16 + l)" by simp_all
  then show "l < c \<Longrightarrow> bytes m' (at m (k' + 16 + l)) = bytes m (at m (k + 16 + l))"
    unfolding cp copy_at using lt c by (simp add: unat_of_nat_u32 add.assoc)
qed

lemma request_of_round8: "unat sz \<le> 4294967288 \<Longrightarrow> request_size (of_nat (round8 (unat sz))) = request_size sz"
proof -
  assume sz: "unat sz \<le> 4294967288"
  then have "round8 (unat sz) < 4294967296" by (simp add: round8_def)
  then show ?thesis using round8_props(4) [OF round8_props(1)] by (simp add: request_size_def unat_of_nat_u32)
qed

text \<open>The three ways a block is resized: it stays, it is cut, or it moves.\<close>

lemma shrink_blocks:
  assumes m: "heap_ok m bs" and u: "used_from 0 bs k n" and sz: "unat sz \<le> 4294967288" and K: "K = round8 (unat sz)" "0 < K" "K + 28 < n"
  obtains m' bs' where "rt_smem_realloc (at m (k + 16)) sz m = Some (at m (k + 16), m')" "heap_ok m' bs'"
    "\<And>i j. used_from 0 bs' i j \<longleftrightarrow> used_from 0 bs i j \<and> i \<noteq> k \<or> i = k \<and> j = K" "keeps m m' (used_from 0 bs')"
proof -
  obtain xs ys where b: "bs = xs @ (True, n) # ys" "k = span xs" using u by (auto simp: used_from_split)
  let ?bs = "release (xs @ [(True, K)]) (n - 16 - K) ys"
  obtain m' where m': "rt_smem_realloc (at m (k + 16)) sz m = Some (at m (k + 16), m')" "heap_ok m' ?bs" "same_data m m' ?bs"
    using realloc_shrinks [OF m [unfolded b(1)] sz K] by (auto simp: b(2))
  have r: "used_from 0 ?bs i j \<longleftrightarrow> used_from 0 bs i j \<and> i \<noteq> k \<or> i = k \<and> j = K" for i j
  proof -
    have "i \<noteq> k" if "used_from 0 xs i j \<or> used_from (k + 16 + n) ys i j" using that by (auto simp: b(2) used_from_split)
    moreover have "span (xs @ [(True, K)]) + 16 + (n - 16 - K) = k + 16 + n" using K(3) by (simp add: b(2))
    then have "used_from 0 ?bs i j \<longleftrightarrow> used_from 0 xs i j \<or> i = k \<and> j = K \<or> used_from (k + 16 + n) ys i j"
      unfolding used_from_release by (simp only: ) (auto simp: b(2))
    moreover have "used_from 0 bs i j \<longleftrightarrow> used_from 0 xs i j \<or> i = k \<and> j = n \<or> used_from (k + 16 + n) ys i j"
      by (auto simp: b)
    ultimately show ?thesis by blast
  qed
  show thesis by (rule that [OF m'(1,2) r same_data_keeps [OF m'(3)]])
qed

lemma move_blocks:
  assumes m: "heap_ok m bs" and u: "used_from 0 bs k n" and sz: "sz \<noteq> 0" "unat sz \<le> 4294967288"
    and f: "first_fit (request_size sz) 0 bs = Some k'" and c: "c \<le> n" "c \<le> request_size sz"
  obtains m1 bs' a where "rt_smem_alloc sz m = Some (at m (k' + 16), m1)" "at m (k' + 16) \<noteq> 0" "request_size sz \<le> a"
    "heap_ok (rt_smem_free (at m (k + 16)) (m1\<lparr>bytes := snd (rt_memcpy (at m (k' + 16)) (at m (k + 16)) (of_nat c) (bytes m1))\<rparr>)) bs'"
    "\<And>i j. used_from 0 bs' i j \<longleftrightarrow> used_from 0 bs i j \<and> i \<noteq> k \<or> i = k' \<and> j = a"
    "keeps m (rt_smem_free (at m (k + 16)) (m1\<lparr>bytes := snd (rt_memcpy (at m (k' + 16)) (at m (k + 16)) (of_nat c) (bytes m1))\<rparr>))
       (\<lambda>i j. used_from 0 bs i j \<and> i \<noteq> k)"
    "\<And>l. l < c \<Longrightarrow> bytes (rt_smem_free (at m (k + 16)) (m1\<lparr>bytes := snd (rt_memcpy (at m (k' + 16)) (at m (k + 16)) (of_nat c) (bytes m1))\<rparr>))
       (at m (k' + 16 + l)) = bytes m (at m (k + 16 + l))"
proof -
  obtain m1 bs1 a where a: "rt_smem_alloc sz m = Some (at m (k' + 16), m1)" "heap_ok m1 bs1" "request_size sz \<le> a"
    "\<And>i n. used_from 0 bs1 i n \<longleftrightarrow> used_from 0 bs i n \<or> i = k' \<and> n = a" "keeps m m1 (used_from 0 bs)"
    by (rule alloc_blocks [OF m sz f]) blast
  note hp = keeps_heap_ptr(1) [OF a(5)]
  have kk: "k' \<noteq> k" using first_fit_unused [OF f, of n] u by auto
  have u1: "used_from 0 bs1 k n" "used_from 0 bs1 k' a" using u a(4) by simp_all
  have ca: "c \<le> a" using c(2) a(3) by simp
  define m2 where "m2 = m1\<lparr>bytes := snd (rt_memcpy (at m (k' + 16)) (at m (k + 16)) (of_nat c) (bytes m1))\<rparr>"
  note cb = copy_blocks [OF a(2) u1 kk c(1) ca, unfolded hp, folded m2_def]
  have hp2: "heap_ptr m2 = heap_ptr m" using keeps_heap_ptr(1) [OF cb(2)] hp by simp
  let ?m3 = "rt_smem_free (at m (k + 16)) m2"
  obtain bs3 where fr: "heap_ok ?m3 bs3" "\<And>i j. used_from 0 bs3 i j \<longleftrightarrow> used_from 0 bs1 i j \<and> i \<noteq> k"
    "keeps m2 ?m3 (\<lambda>i j. used_from 0 bs1 i j \<and> i \<noteq> k)"
    by (rule free_blocks [OF cb(1) u1(1), unfolded hp2]) blast
  show thesis
  proof (rule that [OF a(1) _ a(3) fr(1) [unfolded m2_def]])
    show "at m (k' + 16) \<noteq> 0" using block_at(2) [OF a(2) u1(2)] hp by simp
    show "used_from 0 bs3 i j \<longleftrightarrow> used_from 0 bs i j \<and> i \<noteq> k \<or> i = k' \<and> j = a" for i j
      using kk by (auto simp: fr(2) a(4))
    have unused: "\<not> used_from 0 bs k' j" for j using first_fit_unused [OF f] .
    show "keeps m (rt_smem_free (at m (k + 16)) (m1\<lparr>bytes := snd (rt_memcpy (at m (k' + 16)) (at m (k + 16)) (of_nat c) (bytes m1))\<rparr>))
        (\<lambda>i j. used_from 0 bs i j \<and> i \<noteq> k)"
      unfolding m2_def [symmetric]
      by (rule keeps_trans [OF keeps_trans]; rule keeps_mono, (rule a(5) | rule cb(2) | rule fr(3))) (use unused in \<open>auto simp: a(4)\<close>)
    fix l assume l: "l < c"
    have "bytes ?m3 (at m (k' + 16 + l)) = bytes m2 (at m (k' + 16 + l))"
      using keepsD [OF fr(3), of k' a l] l kk u1(2) ca hp2 by simp
    also have "\<dots> = bytes m1 (at m (k + 16 + l))" using cb(3) l by simp
    also have "\<dots> = bytes m (at m (k + 16 + l))" using keepsD [OF a(5) u] l c(1) by simp
    finally show "bytes (rt_smem_free (at m (k + 16)) (m1\<lparr>bytes := snd (rt_memcpy (at m (k' + 16)) (at m (k + 16)) (of_nat c) (bytes m1))\<rparr>))
        (at m (k' + 16 + l)) = bytes m (at m (k + 16 + l))" unfolding m2_def .
  qed
qed

lemma realloc_blocks:
  assumes m: "heap_ok m bs" and u: "used_from 0 bs k n" and sz: "unat sz \<le> 4294967288" "sz \<noteq> 0"
  obtains (fails) "rt_smem_realloc (at m (k + 16)) sz m = Some (RT_NULL, m)" "first_fit (request_size sz) 0 bs = None"
    "n \<noteq> round8 (unat sz)" "n \<le> round8 (unat sz) + 28"
  | (works) k' a m' bs' where "rt_smem_realloc (at m (k + 16)) sz m = Some (at m (k' + 16), m')" "heap_ok m' bs'"
    "round8 (unat sz) \<le> a" "\<And>i j. used_from 0 bs' i j \<longleftrightarrow> used_from 0 bs i j \<and> i \<noteq> k \<or> i = k' \<and> j = a"
    "keeps m m' (\<lambda>i j. used_from 0 bs i j \<and> i \<noteq> k)"
    "\<And>l. l < min n (round8 (unat sz)) \<Longrightarrow> bytes m' (at m (k' + 16 + l)) = bytes m (at m (k + 16 + l))"
proof -
  define K where "K = round8 (unat sz)"
  have K0: "0 < K" using round8_props(2) [of "unat sz"] sz(2) unat_eq_zero [of sz] unfolding K_def by linarith
  have Kb: "K \<le> 4294967288" unfolding K_def round8_def using sz by simp
  have R: "request_size sz = max 16 K" by (simp add: request_size_def K_def)
  obtain xs ys where b: "bs = xs @ (True, n) # ys" "k = span xs" using u by (auto simp: used_from_split)
  note e = realloc_eq [OF m [unfolded b(1)] sz(1), folded K_def b(2)]
  have only: "used_from 0 bs i j \<longleftrightarrow> used_from 0 bs i j \<and> i \<noteq> k \<or> i = k \<and> j = n" for i j
    using used_from_apart [OF u, of i j] u by auto
  consider "k + n + span ys < K" | "n = K" "K \<le> k + n + span ys" | "K + 28 < n" | "n \<noteq> K" "K \<le> k + n + span ys" "n \<le> K + 28" by linarith
  then show thesis
  proof cases
    case 1
    have "first_fit (request_size sz) 0 bs = None"
      unfolding first_fit_none R using span_member [of _ xs] span_member [of _ ys] 1 by (force simp: b)
    then show thesis using fails e 1 by (simp add: K_def)
  next
    case 2
    then have "rt_smem_realloc (at m (k + 16)) sz m = Some (at m (k + 16), m)" unfolding e using K0 by simp
    then show thesis using only 2 m by (intro works [of k m bs n]) (simp_all add: K_def)
  next
    case 3
    obtain m' bs' where s: "rt_smem_realloc (at m (k + 16)) sz m = Some (at m (k + 16), m')" "heap_ok m' bs'"
      "\<And>i j. used_from 0 bs' i j \<longleftrightarrow> used_from 0 bs i j \<and> i \<noteq> k \<or> i = k \<and> j = K" "keeps m m' (used_from 0 bs')"
      by (rule shrink_blocks [OF m u sz(1) K_def K0 3]) blast
    show thesis
    proof (rule works [OF s(1,2) _ s(3)])
      show "round8 (unat sz) \<le> K" by (simp add: K_def)
      show "keeps m m' (\<lambda>i j. used_from 0 bs i j \<and> i \<noteq> k)" using s(4) by (rule keeps_mono) (use s(3) in blast)
      show "bytes m' (at m (k + 16 + l)) = bytes m (at m (k + 16 + l))" if "l < min n (round8 (unat sz))" for l
        by (rule keepsD [OF s(4), of k K]) (use that s(3) in \<open>simp_all add: K_def\<close>)
    qed
  next
    case 4
    let ?sz = "of_nat K :: u32"
    have u': "unat ?sz = K" "?sz \<noteq> 0" using Kb K0 unat_of_nat_u32 [of K] by auto
    have rq: "request_size ?sz = request_size sz" unfolding K_def by (rule request_of_round8 [OF sz(1)])
    have e4: "rt_smem_realloc (at m (k + 16)) sz m = map_option (\<lambda>(q, mx). if q \<noteq> RT_NULL
            then (q, rt_smem_free (at m (k + 16)) (mx\<lparr>bytes := snd (rt_memcpy q (at m (k + 16)) (of_nat (min n K)) (bytes mx))\<rparr>))
            else (q, mx)) (rt_smem_alloc ?sz m)"
    proof -
      have "\<not> k + n + span ys < K" "K \<noteq> 0" "\<not> K + 28 < n" using 4 K0 by simp_all
      then show ?thesis unfolding e using 4(1) by (simp only: if_False simp_thms)
    qed
    show thesis
    proof (cases "first_fit (request_size sz) 0 bs")
      case None
      then have "rt_smem_alloc ?sz m = Some (RT_NULL, m)" using alloc_fits [OF m u'(2)] u'(1) Kb rq by simp
      then show thesis using fails None 4 e4 by (simp add: K_def)
    next
      case (Some k')
      let ?m = "\<lambda>m1. rt_smem_free (at m (k + 16)) (m1\<lparr>bytes := snd (rt_memcpy (at m (k' + 16)) (at m (k + 16)) (of_nat (min n K)) (bytes m1))\<rparr>)"
      obtain m1 bs' a where a: "rt_smem_alloc ?sz m = Some (at m (k' + 16), m1)" "at m (k' + 16) \<noteq> 0" "request_size ?sz \<le> a"
        "heap_ok (?m m1) bs'" "\<And>i j. used_from 0 bs' i j \<longleftrightarrow> used_from 0 bs i j \<and> i \<noteq> k \<or> i = k' \<and> j = a"
        "keeps m (?m m1) (\<lambda>i j. used_from 0 bs i j \<and> i \<noteq> k)"
        "\<And>l. l < min n K \<Longrightarrow> bytes (?m m1) (at m (k' + 16 + l)) = bytes m (at m (k + 16 + l))"
        by (rule move_blocks [OF m u u'(2), of k' "min n K"]) (use u'(1) Kb rq R Some in \<open>simp_all del: of_nat_add\<close>)
      have r: "rt_smem_realloc (at m (k + 16)) sz m = Some (at m (k' + 16), ?m m1)" unfolding e4 a(1) using a(2) by simp
      have "round8 (unat sz) \<le> a" using a(3) rq R by (simp add: K_def)
      from works [OF r a(4) this a(5,6)] a(7) show thesis unfolding K_def by blast
    qed
  qed
qed

section \<open>A new heap\<close>

text \<open>
  The region from \<open>begin_addr\<close> to \<open>end_addr\<close> becomes one free block, less the memory object in front of it, its two headers and
  what alignment costs.
\<close>

definition new_size :: "u32 \<Rightarrow> u32 \<Rightarrow> nat" where
  "new_size begin_addr end_addr = unat end_addr div 8 * 8 - round8 (unat begin_addr) - 88"

lemma heap_end_update [simp]:
  "st i v (m\<lparr>heap_end := x\<rparr>) = (st i v m)\<lparr>heap_end := x\<rparr>" "ld (m\<lparr>heap_end := x\<rparr>) i = ld m i"
  by (simp_all add: st_def ld_def)

lemma even_masked: "8 dvd unat x \<Longrightarrow> (x :: u32) AND MEM_MASK = x"
proof -
  assume "8 dvd unat x"
  then have "even (unat x)" by presburger
  then have "\<not> bit (unat x) 0" by (simp add: bit_0)
  then have "\<not> bit x 0" by (simp add: bit_unsigned_iff)
  then show ?thesis by (auto simp: MEM_MASK_def bit_simps bit_0 intro!: bit_word_eqI)
qed

lemma heap_init_ok:
  assumes b: "unat begin_addr \<le> 4294967200" and room: "round8 (unat begin_addr) + 88 \<le> unat end_addr div 8 * 8"
  shows "\<exists>m. rt_system_heap_init begin_addr end_addr mem = (False, Some m) \<and> heap_ok m [(False, new_size begin_addr end_addr)] \<and>
    unat (heap_ptr m) = round8 (unat begin_addr) + 56 \<and> unat (heap_end m) = unat end_addr div 8 * 8 - 16"
proof -
  define A where "A = RT_ALIGN begin_addr 8"
  define E where "E = RT_ALIGN_DOWN32 end_addr 8"
  define n where "n = new_size begin_addr end_addr"
  define h where "h = A + 56"
  have A: "unat A = round8 (unat begin_addr)" unfolding A_def using b by (intro RT_ALIGN_round8) simp
  have E: "unat E = unat end_addr div 8 * 8" unfolding E_def RT_ALIGN_DOWN32_def by (simp add: and_not_7)
  have n: "unat E = unat A + 88 + n" unfolding n_def new_size_def A E using room by simp
  have E32: "unat E < 4294967296" by (rule unat_u32_less)
  have A8: "8 dvd unat A" unfolding A by (rule round8_props)
  have E8: "8 dvd unat E" unfolding E by simp
  have h: "unat h = unat A + 56" using n E32 by (simp add: h_def unat_add_u32)
  have h8: "8 dvd unat h" unfolding h using A8 by simp
  have n8: "8 dvd n" using n A8 E8 by presburger
  have al: "RT_ALIGN A 8 = A" "RT_ALIGN h 8 = h" "RT_ALIGN_DOWN32 E 8 = E"
  proof -
    have "unat (RT_ALIGN A 8) = unat A" using RT_ALIGN_round8 [of A] n E32 round8_props(4) [OF A8] by simp
    then show "RT_ALIGN A 8 = A" by (simp add: word_unat_eq_iff)
    have "unat (RT_ALIGN h 8) = unat h" using RT_ALIGN_round8 [of h] n h E32 round8_props(4) [OF h8] by simp
    then show "RT_ALIGN h 8 = h" by (simp add: word_unat_eq_iff)
    have "unat (RT_ALIGN_DOWN32 E 8) = unat E" using E8 by (simp add: RT_ALIGN_DOWN32_def and_not_7)
    then show "RT_ALIGN_DOWN32 E 8 = E" by (simp add: word_unat_eq_iff)
  qed
  have En: "E = h + of_nat (32 + n)" using n h E32 by (simp add: word_unat_eq_iff unat_add_u32 unat_of_nat_u32)
  have ms: "E - h - 32 = of_nat n" by (simp add: En)
  have guard: "32 < E" "h \<le> E - 32"
  proof -
    show "32 < E" using n by (simp add: word_less_nat_alt)
    have "E - 32 = h + of_nat n" by (simp add: En)
    then show "h \<le> E - 32" using h n E32 by (simp add: word_le_nat_alt unat_add_u32 unat_of_nat_u32)
  qed
  have AE: "A < E" using n by (simp add: word_less_nat_alt)
  define e where "e = 16 + n"
  define m0 where "m0 = \<lparr>obj = A, address = h, total = of_nat n, used = 0, max_used = 0, heap_ptr = h,
    heap_end = 0, lfree = 0, mem_size_aligned = of_nat n, mem_assert = False, bytes = mem\<rparr>"
  define m1 where "m1 = (st 8 0 (st 4 (of_nat e) (st 0 (MEM_FREED m0) m0)))\<lparr>heap_end := h + of_nat e\<rparr>"
  define m where "m = (st (e + 8) (of_nat e) (st (e + 4) (of_nat e) (st e (MEM_USED m1) m1)))\<lparr>lfree := h\<rparr>"
  have bd: "unat h + e + 16 < 4294967296" using n h E32 by (simp add: e_def)
  have at0: "set_pool_ptr h v x = st 0 v x" "set_next h v x = st 4 v x" "set_prev h v x = st 8 v x" "item_next x h = ld x 4"
    if "heap_ptr x = h" for x v using item_at [OF that, of 0] by simp_all
  have ln: "of_nat n + 16 = (of_nat e :: u32)" by (simp add: e_def)
  have fields0: "obj m0 = A" "heap_ptr m0 = h" "mem_size_aligned m0 = of_nat n" "used m0 = 0" "max_used m0 = 0" "\<not> mem_assert m0"
    by (simp_all add: m0_def)
  have fields1: "obj m1 = A" "heap_ptr m1 = h" "mem_size_aligned m1 = of_nat n" "used m1 = 0" "max_used m1 = 0" "\<not> mem_assert m1"
    "heap_end m1 = h + of_nat e"
    by (simp_all add: m1_def fields0)
  have next0: "ld (st 8 0 (st 4 (of_nat e) (st 0 v m0))) 4 = of_nat e" for v by simp
  have i: "rt_smem_init A (E - A) mem = Some m"
  proof -
    have "A + sizeof_small_mem = h" "A + (E - A) = E" by (simp_all add: h_def sizeof_small_mem_def)
    then have "rt_smem_init A (E - A) mem = (if E > 32 \<and> E - 32 \<ge> h then
       let m = m0;
           m = set_pool_ptr h (MEM_FREED m) m;
           m = set_next h (of_nat e) m;
           m = set_prev h 0 m;
           m = m\<lparr>heap_end := h + item_next m h\<rparr>;
           m = set_pool_ptr (heap_end m) (MEM_USED m) m;
           m = set_next (heap_end m) (mem_size_aligned m + SIZEOF_STRUCT_MEM) m;
           m = set_prev (heap_end m) (mem_size_aligned m + SIZEOF_STRUCT_MEM) m
       in Some (m\<lparr>lfree := heap_ptr m\<rparr>) else None)"
      unfolding rt_smem_init_def Let_def sizes al(1) by (simp add: al ms ln m0_def set_pool_ptr_def set_next_def set_prev_def)
    also have "\<dots> = Some m"
      using guard by (simp add: Let_def at0 fields0 next0 fields1 item_at [of _ h e] ln m_def flip: m1_def)
    finally show ?thesis .
  qed
  have e16: "16 \<le> e" by (simp add: e_def)
  have words: "ld m 0 = MEM_FREED m" "ld m 4 = of_nat e" "ld m 8 = 0" "ld m e = MEM_USED m"
    using bd e16 by (simp_all add: m_def m1_def MEM_FREED_def MEM_USED_def)
  have fields: "obj m = A" "heap_ptr m = h" "mem_size_aligned m = of_nat n" "used m = 0" "max_used m = 0" "\<not> mem_assert m"
    "heap_end m = h + of_nat e" "lfree m = h"
    by (simp_all add: m_def fields1)
  have span: "span [(False, n)] = e" "0 + 16 + n = e" by (simp_all add: e_def)
  have "items_ok m [(False, n)]"
    unfolding items_ok_def span using bd h8 n8 even_masked [OF A8]
    by (simp add: fields words tag_def span(2) [simplified]) (simp add: e_def)
  then have "heap_ok m [(False, n)]" by (simp add: heap_ok_def fields)
  moreover have "rt_system_heap_init begin_addr end_addr mem = (False, Some m)"
    using AE i by (simp add: rt_system_heap_init_def Let_def flip: A_def E_def)
  moreover have "unat (heap_end m) = unat E - 16"
    unfolding fields using bd n h by (simp add: unat_add_u32 unat_of_nat_u32 e_def)
  ultimately show ?thesis using h A E fields(2) by (intro exI [of _ m]) (simp add: n_def)
qed
end
