(* ===== verification/Rt_Heap_Run.thy ===== *)
theory Rt_Heap_Run
  imports Rt_Heap
begin

text \<open>
  The heap of the kernel over every sequence of its calls: the users of the heap get blocks, write to them, resize them and
  give them back; the bytes each has written are recorded beside the heap and compared with what the memory holds.
\<close>

section \<open>The users of the heap\<close>

text \<open>
  \<open>owned\<close> maps the address of a block in use to the bytes its user relies on.  The users ask for at most 4294967288
  bytes at a time (the product, for \<open>rt_calloc\<close>): a larger size wraps to zero when it is rounded up, or as a
  product, and the block handed out is smaller than what its user asked for.
\<close>

record users =
  heap :: small_mem
  owned :: "u32 \<rightharpoonup> u8 list"

inductive heap_step :: "users \<Rightarrow> users \<Rightarrow> bool" where
  malloc: "rt_malloc sz (heap c) = Some (p, m) \<Longrightarrow> unat sz \<le> 4294967288 \<Longrightarrow> p \<noteq> RT_NULL \<Longrightarrow>
    heap_step c (c\<lparr>heap := m, owned := (owned c)(p \<mapsto> bytes_at (bytes m) p (unat sz))\<rparr>)"
| malloc_fails: "rt_malloc sz (heap c) = Some (RT_NULL, m) \<Longrightarrow> unat sz \<le> 4294967288 \<Longrightarrow> heap_step c (c\<lparr>heap := m\<rparr>)"
| calloc: "rt_calloc count sz (heap c) = Some (p, m) \<Longrightarrow> unat count * unat sz \<le> 4294967288 \<Longrightarrow> p \<noteq> RT_NULL \<Longrightarrow>
    heap_step c (c\<lparr>heap := m, owned := (owned c)(p \<mapsto> replicate (unat count * unat sz) 0)\<rparr>)"
| free: "owned c p = Some d \<Longrightarrow> heap_step c (c\<lparr>heap := rt_free p (heap c), owned := (owned c)(p := None)\<rparr>)"
| free_null: "heap_step c (c\<lparr>heap := rt_free RT_NULL (heap c)\<rparr>)"
| store: "owned c p = Some d \<Longrightarrow> i < length d \<Longrightarrow>
    heap_step c (c\<lparr>heap := (heap c)\<lparr>bytes := (bytes (heap c))(p + of_nat i := v)\<rparr>, owned := (owned c)(p \<mapsto> d[i := v])\<rparr>)"
| realloc: "owned c p = Some d \<Longrightarrow> rt_realloc p sz (heap c) = Some (q, m) \<Longrightarrow> unat sz \<le> 4294967288 \<Longrightarrow> q \<noteq> RT_NULL \<Longrightarrow>
    heap_step c (c\<lparr>heap := m, owned := ((owned c)(p := None))(
      q \<mapsto> take (unat sz) d @ bytes_at (bytes m) (q + of_nat (length d)) (unat sz - length d))\<rparr>)"
| realloc_fails: "owned c p = Some d \<Longrightarrow> rt_realloc p sz (heap c) = Some (RT_NULL, m) \<Longrightarrow> unat sz \<le> 4294967288 \<Longrightarrow> sz \<noteq> 0 \<Longrightarrow>
    heap_step c (c\<lparr>heap := m\<rparr>)"
| realloc_zero: "owned c p = Some d \<Longrightarrow> rt_realloc p 0 (heap c) = Some (q, m) \<Longrightarrow>
    heap_step c (c\<lparr>heap := m, owned := (owned c)(p := None)\<rparr>)"
| realloc_null: "rt_realloc RT_NULL sz (heap c) = Some (p, m) \<Longrightarrow> unat sz \<le> 4294967288 \<Longrightarrow> p \<noteq> RT_NULL \<Longrightarrow>
    heap_step c (c\<lparr>heap := m, owned := (owned c)(p \<mapsto> bytes_at (bytes m) p (unat sz))\<rparr>)"

section \<open>The invariant\<close>

definition holds :: "u32 \<Rightarrow> u32 \<Rightarrow> users \<Rightarrow> blocks \<Rightarrow> bool" where
  "holds lo hi c bs \<longleftrightarrow>
     heap_ok (heap c) bs \<and> heap_ptr (heap c) = lo \<and> heap_end (heap c) = hi \<and>
     (\<forall>p. owned c p \<noteq> None \<longleftrightarrow> (\<exists>k n. used_from 0 bs k n \<and> p = at (heap c) (k + 16))) \<and>
     (\<forall>k n d. used_from 0 bs k n \<longrightarrow> owned c (at (heap c) (k + 16)) = Some d \<longrightarrow>
        length d \<le> n \<and> (\<forall>i<length d. bytes (heap c) (at (heap c) (k + 16 + i)) = d ! i))"

definition heap_inv :: "u32 \<Rightarrow> u32 \<Rightarrow> users \<Rightarrow> bool" where
  "heap_inv lo hi c \<longleftrightarrow> (\<exists>bs. holds lo hi c bs)"

lemma holdsD:
  assumes "holds lo hi c bs"
  shows "heap_ok (heap c) bs" "heap_ptr (heap c) = lo" "heap_end (heap c) = hi"
    "owned c p = Some d \<Longrightarrow> \<exists>k n. used_from 0 bs k n \<and> p = at (heap c) (k + 16)"
    "used_from 0 bs k n \<Longrightarrow> \<exists>d. owned c (at (heap c) (k + 16)) = Some d"
    "used_from 0 bs k n \<Longrightarrow> owned c (at (heap c) (k + 16)) = Some d \<Longrightarrow> length d \<le> n"
    "used_from 0 bs k n \<Longrightarrow> owned c (at (heap c) (k + 16)) = Some d \<Longrightarrow> i < length d \<Longrightarrow>
       bytes (heap c) (at (heap c) (k + 16 + i)) = d ! i"
  using assms unfolding holds_def by blast+

lemma block_inj:
  assumes "heap_ok m bs" and "used_from 0 bs k n" and "used_from 0 bs k' n'" and "at m (k + 16) = at m (k' + 16)"
  shows "k = k'"
  using assms(4) at_order(3) [of m "k + 16" "k' + 16"] block_at(3) [OF assms(1,2)] block_at(3) [OF assms(1,3)] by simp

text \<open>
  What a call does to the blocks in use: those at the offsets \<open>G\<close> go, and none or one comes.
\<close>

lemma holds_drop:
  assumes c: "holds lo hi c bs" and m: "heap_ok m' bs'" and kp: "keeps (heap c) m' (\<lambda>i j. used_from 0 bs i j \<and> i \<notin> G)"
    and u: "\<And>i j. used_from 0 bs' i j \<longleftrightarrow> used_from 0 bs i j \<and> i \<notin> G" and G: "\<And>g. g \<in> G \<Longrightarrow> \<exists>n. used_from 0 bs g n"
  shows "holds lo hi (c\<lparr>heap := m', owned := owned c |` (- ((\<lambda>g. at (heap c) (g + 16)) ` G))\<rparr>) bs'"
proof -
  note h = holdsD [OF c] and hp = keeps_heap_ptr [OF kp]
  let ?a = "\<lambda>g. at (heap c) (g + 16)"
  let ?o = "owned c |` (- (?a ` G))"
  have old: "?a i \<notin> ?a ` G" if "used_from 0 bs i j" "i \<notin> G" for i j
    using block_inj [OF h(1) that(1)] G that(2) by blast
  have "?o p \<noteq> None \<longleftrightarrow> (\<exists>i n. used_from 0 bs' i n \<and> p = ?a i)" for p
  proof
    assume "?o p \<noteq> None"
    then have "p \<notin> ?a ` G" "owned c p \<noteq> None" by (auto simp: restrict_map_def split: if_splits)
    moreover then obtain i n where "used_from 0 bs i n" "p = ?a i" using h(4) by blast
    ultimately show "\<exists>i n. used_from 0 bs' i n \<and> p = ?a i" using u [of i n] by blast
  next
    assume "\<exists>i n. used_from 0 bs' i n \<and> p = ?a i"
    then obtain i n where i: "used_from 0 bs i n" "i \<notin> G" "p = ?a i" using u by blast
    then show "?o p \<noteq> None" using old [OF i(1,2)] h(5) [OF i(1)] by (auto simp: restrict_map_def)
  qed
  moreover have "length e \<le> n \<and> (\<forall>l<length e. bytes m' (at (heap c) (i + 16 + l)) = e ! l)"
    if "used_from 0 bs' i n" "?o (?a i) = Some e" for i n e
  proof -
    have b: "used_from 0 bs i n" "i \<notin> G" using that(1) u by auto
    have e: "owned c (?a i) = Some e" using that(2) old [OF b] by (simp add: restrict_map_def)
    then show ?thesis using h(6,7) [OF b(1) e] keepsD [OF kp] b by simp
  qed
  ultimately show ?thesis using m h(2,3) hp by (simp add: holds_def)
qed

lemma holds_put:
  assumes c: "holds lo hi c bs" and m: "heap_ok m' bs'" and kp: "keeps (heap c) m' (\<lambda>i j. used_from 0 bs i j \<and> i \<notin> G)"
    and u: "\<And>i j. used_from 0 bs' i j \<longleftrightarrow> used_from 0 bs i j \<and> i \<notin> G \<or> i = k \<and> j = a"
    and G: "\<And>g. g \<in> G \<Longrightarrow> \<exists>n. used_from 0 bs g n"
    and d: "length d \<le> a" "\<And>i. i < length d \<Longrightarrow> bytes m' (at (heap c) (k + 16 + i)) = d ! i"
  shows "holds lo hi (c\<lparr>heap := m', owned := (owned c |` (- ((\<lambda>g. at (heap c) (g + 16)) ` G)))(at (heap c) (k + 16) \<mapsto> d)\<rparr>) bs'"
proof -
  note h = holdsD [OF c] and hp = keeps_heap_ptr [OF kp]
  let ?a = "\<lambda>g. at (heap c) (g + 16)"
  let ?o = "(owned c |` (- (?a ` G)))(?a k \<mapsto> d)"
  have old: "?a i \<notin> ?a ` G" if "used_from 0 bs i j" "i \<notin> G" for i j
    using block_inj [OF h(1) that(1)] G that(2) by blast
  have new: "?a i \<noteq> ?a k" if "used_from 0 bs' i j" "i \<noteq> k" for i j
    using block_inj [OF m, of i j k a] that u [of k a] hp(1) by auto
  have "?o p \<noteq> None \<longleftrightarrow> (\<exists>i n. used_from 0 bs' i n \<and> p = ?a i)" for p
  proof
    assume "?o p \<noteq> None"
    then show "\<exists>i n. used_from 0 bs' i n \<and> p = ?a i"
    proof (cases "p = ?a k")
      case True
      then show ?thesis using u [of k a] by blast
    next
      case False
      then have "p \<notin> ?a ` G" "owned c p \<noteq> None" using \<open>?o p \<noteq> None\<close> by (auto simp: restrict_map_def split: if_splits)
      moreover then obtain i n where "used_from 0 bs i n" "p = ?a i" using h(4) by blast
      ultimately show ?thesis using u [of i n] by blast
    qed
  next
    assume "\<exists>i n. used_from 0 bs' i n \<and> p = ?a i"
    then obtain i n where i: "used_from 0 bs' i n" "p = ?a i" by blast
    then show "?o p \<noteq> None"
    proof (cases "i = k")
      case False
      then have "used_from 0 bs i n" "i \<notin> G" using i(1) u by auto
      then show ?thesis using old h(5) i(2) by (auto simp: restrict_map_def)
    qed (simp add: i(2))
  qed
  moreover have "length e \<le> n \<and> (\<forall>l<length e. bytes m' (at (heap c) (i + 16 + l)) = e ! l)"
    if "used_from 0 bs' i n" "?o (?a i) = Some e" for i n e
  proof (cases "i = k")
    case True
    have "used_from 0 bs' k a" using u by blast
    then have "n = a" using used_from_apart [OF that(1)] True by fastforce
    then show ?thesis using that(2) d True by simp
  next
    case False
    then have b: "used_from 0 bs i n" "i \<notin> G" using that(1) u by auto
    then have e: "owned c (?a i) = Some e" using that(2) new [OF that(1) False] old [OF b] by (simp add: restrict_map_def)
    then show ?thesis using h(6,7) [OF b(1) e] keepsD [OF kp] b by simp
  qed
  ultimately show ?thesis using m h(2,3) hp by (simp add: holds_def)
qed


section \<open>Every call keeps it\<close>

lemma malloc_some:
  assumes c: "holds lo hi c bs" and r: "rt_malloc sz (heap c) = Some (p, m)" and sz: "unat sz \<le> 4294967288" and p: "p \<noteq> RT_NULL"
  obtains k a bs' where "p = at (heap c) (k + 16)" "heap_ok m bs'" "request_size sz \<le> a"
    "\<And>i n. used_from 0 bs' i n \<longleftrightarrow> used_from 0 bs i n \<or> i = k \<and> n = a" "keeps (heap c) m (used_from 0 bs)"
    "\<And>n. \<not> used_from 0 bs k n"
proof -
  have "sz \<noteq> 0" using r p by (auto simp: rt_malloc_def rt_smem_alloc_def)
  note a = holdsD(1) [OF c] this sz
  obtain k where k: "first_fit (request_size sz) 0 bs = Some k"
    using alloc_fits [OF a] r p by (cases "first_fit (request_size sz) 0 bs") (auto simp: rt_malloc_def)
  obtain m' bs' a where x: "rt_smem_alloc sz (heap c) = Some (at (heap c) (k + 16), m')" "heap_ok m' bs'" "request_size sz \<le> a"
    "\<And>i n. used_from 0 bs' i n \<longleftrightarrow> used_from 0 bs i n \<or> i = k \<and> n = a" "keeps (heap c) m' (used_from 0 bs)"
    by (rule alloc_blocks [OF a k]) blast
  have "p = at (heap c) (k + 16)" "m' = m" using x(1) r by (simp_all add: rt_malloc_def)
  then show thesis using x(2-5) first_fit_unused [OF k] by (intro that [of k bs' a]) blast+
qed

lemma restrict_one: "f |` (- ((\<lambda>g. at m (g + 16)) ` {k})) = f(at m (k + 16) := None)"
  by (rule ext) (auto simp: restrict_map_def)

lemma restrict_none: "f |` (- (h ` {})) = f"
  by (rule ext) (auto simp: restrict_map_def)

text \<open>A new block, whatever is written to it before its user goes on.\<close>

lemma holds_new:
  assumes c: "holds lo hi c bs" and r: "rt_malloc sz (heap c) = Some (p, m)" and sz: "unat sz \<le> 4294967288" and p: "p \<noteq> RT_NULL"
    and d: "length d \<le> request_size sz" "\<And>i. i < length d \<Longrightarrow> b (p + of_nat i) = d ! i"
    and b: "\<And>x. request_size sz \<le> unat (x - p) \<Longrightarrow> b x = bytes m x"
  shows "heap_inv lo hi (c\<lparr>heap := m\<lparr>bytes := b\<rparr>, owned := (owned c)(p \<mapsto> d)\<rparr>)"
proof -
  obtain k a bs' where a: "p = at (heap c) (k + 16)" "heap_ok m bs'" "request_size sz \<le> a"
    "\<And>i n. used_from 0 bs' i n \<longleftrightarrow> used_from 0 bs i n \<or> i = k \<and> n = a" "keeps (heap c) m (used_from 0 bs)"
    "\<And>n. \<not> used_from 0 bs k n"
    by (rule malloc_some [OF c r sz p]) blast
  note hp = keeps_heap_ptr(1) [OF a(5)]
  have u: "used_from 0 bs' k a" using a(4) by blast
  note at = block_at(3) [OF a(2) u]
  have out: "b (at m j) = bytes m (at m j)" if "j < 4294967296" "j < k + 16 \<or> k + 16 + a \<le> j" for j
  proof (rule b)
    have e: "at m j - p = of_nat j - of_nat (k + 16)" by (simp add: a(1) hp)
    show "request_size sz \<le> unat (at m j - p)" unfolding e using that a(3) at unat_offsets [of j "k + 16"] by auto
  qed
  note w = write_blocks [OF a(2) u out]
  have kp: "keeps (heap c) (m\<lparr>bytes := b\<rparr>) (used_from 0 bs)"
    by (rule keeps_trans [OF a(5)], rule keeps_mono [OF w(2)]) (use a(4,6) in auto)
  have "holds lo hi (c\<lparr>heap := m\<lparr>bytes := b\<rparr>,
      owned := (owned c |` (- ((\<lambda>g. at (heap c) (g + 16)) ` {})))(at (heap c) (k + 16) \<mapsto> d)\<rparr>) bs'"
    by (rule holds_put [where a = a, OF c w(1)]) (use a(1,3,4) d kp in \<open>auto simp: add.assoc\<close>)
  then show ?thesis unfolding restrict_none a(1) [symmetric] by (auto simp: heap_inv_def)
qed

lemma inv_malloc:
  assumes "heap_inv lo hi c" and "rt_malloc sz (heap c) = Some (p, m)" and "unat sz \<le> 4294967288" and "p \<noteq> RT_NULL"
    and "n \<le> request_size sz"
  shows "heap_inv lo hi (c\<lparr>heap := m, owned := (owned c)(p \<mapsto> bytes_at (bytes m) p n)\<rparr>)"
proof -
  obtain bs where "holds lo hi c bs" using assms(1) by (auto simp: heap_inv_def)
  from holds_new [OF this assms(2-4), of "bytes_at (bytes m) p n" "bytes m"] assms(5) show ?thesis by (simp add: nth_bytes_at)
qed

lemma inv_calloc:
  assumes c: "heap_inv lo hi c" and r: "rt_calloc count sz (heap c) = Some (p, m)" and n: "unat count * unat sz \<le> 4294967288"
    and p: "p \<noteq> RT_NULL"
  shows "heap_inv lo hi (c\<lparr>heap := m, owned := (owned c)(p \<mapsto> replicate (unat count * unat sz) 0)\<rparr>)"
proof -
  obtain bs where bs: "holds lo hi c bs" using c by (auto simp: heap_inv_def)
  have u: "unat (count * sz) = unat count * unat sz" using n by (simp add: unat_word_ariths)
  obtain m1 where m1: "rt_malloc (count * sz) (heap c) = Some (p, m1)" "m = m1\<lparr>bytes := fill (bytes m1) p (unat (count * sz)) 0\<rparr>"
    using r p by (auto simp: rt_calloc_def memset_fills)
  have n32: "unat (p + of_nat i - p) = i" if "i < unat count * unat sz" for i
    using that n by (simp add: unat_of_nat_u32)
  show ?thesis unfolding m1(2)
    by (rule holds_new [OF bs m1(1)]) (use n p request_props(3) [of "count * sz"] n32 in \<open>simp_all add: u fill_def\<close>)
qed

lemma block_of:
  assumes "holds lo hi c bs" and "owned c p = Some d"
  obtains k n where "used_from 0 bs k n" "p = at (heap c) (k + 16)" "p \<noteq> RT_NULL" "length d \<le> n"
    "k + 16 + n < 4294967296" "\<And>i. i < length d \<Longrightarrow> bytes (heap c) (at (heap c) (k + 16 + i)) = d ! i"
    "\<And>j. used_from 0 bs k j \<longleftrightarrow> j = n"
proof -
  note h = holdsD [OF assms(1)]
  obtain k n where k: "used_from 0 bs k n" "p = at (heap c) (k + 16)" using h(4) assms(2) by blast
  have "used_from 0 bs k j \<longleftrightarrow> j = n" for j using used_from_apart [OF k(1), of k j] k(1) by auto
  moreover have "k + 16 + n < 4294967296" using block_at(3) [OF h(1) k(1)] by simp
  moreover have "p \<noteq> RT_NULL" using block_at(2) [OF h(1) k(1)] k(2) by simp
  ultimately show thesis using h(6,7) [OF k(1)] assms(2) k by (intro that [of k n]) auto
qed


lemma inv_free:
  assumes c: "heap_inv lo hi c" and d: "owned c p = Some d"
  shows "heap_inv lo hi (c\<lparr>heap := rt_smem_free p (heap c), owned := (owned c)(p := None)\<rparr>)"
proof -
  obtain bs where bs: "holds lo hi c bs" using c by (auto simp: heap_inv_def)
  obtain k n where k: "used_from 0 bs k n" "p = at (heap c) (k + 16)" by (rule block_of [OF bs d])
  obtain bs' where f: "heap_ok (rt_smem_free p (heap c)) bs'"
    "\<And>i j. used_from 0 bs' i j \<longleftrightarrow> used_from 0 bs i j \<and> i \<noteq> k"
    "keeps (heap c) (rt_smem_free p (heap c)) (\<lambda>i j. used_from 0 bs i j \<and> i \<noteq> k)"
    by (rule free_blocks [OF holdsD(1) [OF bs] k(1), folded k(2)]) blast
  have "holds lo hi (c\<lparr>heap := rt_smem_free p (heap c), owned := owned c |` (- ((\<lambda>g. at (heap c) (g + 16)) ` {k}))\<rparr>) bs'"
    by (rule holds_drop [OF bs f(1)]) (use f k in auto)
  then show ?thesis unfolding restrict_one k(2) [symmetric] by (auto simp: heap_inv_def)
qed

lemma inv_store:
  assumes c: "heap_inv lo hi c" and d: "owned c p = Some d" and i: "i < length d"
  shows "heap_inv lo hi (c\<lparr>heap := (heap c)\<lparr>bytes := (bytes (heap c))(p + of_nat i := v)\<rparr>, owned := (owned c)(p \<mapsto> d[i := v])\<rparr>)"
proof -
  obtain bs where bs: "holds lo hi c bs" using c by (auto simp: heap_inv_def)
  obtain k n where k': "used_from 0 bs k n" "p = at (heap c) (k + 16)" "p \<noteq> RT_NULL" "length d \<le> n" "k + 16 + n < 4294967296"
    "\<And>i. i < length d \<Longrightarrow> bytes (heap c) (at (heap c) (k + 16 + i)) = d ! i" "\<And>j. used_from 0 bs k j \<longleftrightarrow> j = n"
    by (rule block_of [OF bs d]) (rule that)
  note k = k'(1,2,4-)
  let ?b = "(bytes (heap c))(p + of_nat i := v)"
  have pi: "p + of_nat i = at (heap c) (k + 16 + i)" by (simp add: k(2))
  have other: "?b (at (heap c) j) = bytes (heap c) (at (heap c) j)" if "j < 4294967296" "j \<noteq> k + 16 + i" for j
  proof -
    have "at (heap c) j - at (heap c) (k + 16 + i) \<noteq> 0"
      unfolding at_diff(2) using unat_offsets [of j "k + 16 + i"] that k(3,4) i by (intro notI) (auto split: if_splits)
    then show ?thesis unfolding pi by auto
  qed
  have out: "?b (at (heap c) j) = bytes (heap c) (at (heap c) j)" if "j < 4294967296" "j < k + 16 \<or> k + 16 + n \<le> j" for j
    by (rule other) (use that k(3) i in auto)
  note w = write_blocks [OF holdsD(1) [OF bs] k(1) out]
  have "holds lo hi (c\<lparr>heap := (heap c)\<lparr>bytes := ?b\<rparr>,
      owned := (owned c |` (- ((\<lambda>g. at (heap c) (g + 16)) ` {k})))(at (heap c) (k + 16) \<mapsto> d[i := v])\<rparr>) bs"
  proof (rule holds_put [where a = n, OF bs w(1)])
    fix l assume l: "l < length (d[i := v])"
    show "bytes ((heap c)\<lparr>bytes := ?b\<rparr>) (at (heap c) (k + 16 + l)) = d[i := v] ! l"
      using other [of "k + 16 + l"] k(3-5) l pi by (cases "l = i") (simp_all del: of_nat_add)
  qed (use w(2) k in auto)
  then show ?thesis unfolding restrict_one k(2) [symmetric] by (auto simp: heap_inv_def)
qed

lemma realloc_aligns_0: "RT_ALIGN sz 8 = 0 \<Longrightarrow> rt_realloc p sz m = Some (RT_NULL, rt_smem_free p m)"
  by (simp add: rt_realloc_def rt_smem_realloc_def)

lemma realloc_0: "rt_realloc p 0 m = Some (RT_NULL, rt_smem_free p m)"
  by (simp add: realloc_aligns_0 RT_ALIGN_def)

lemma realloc_null_eq: "RT_ALIGN sz 8 \<noteq> 0 \<Longrightarrow> rt_realloc RT_NULL sz m =
    (if RT_ALIGN sz 8 > mem_size_aligned m then Some (RT_NULL, m) else rt_smem_alloc (RT_ALIGN sz 8) m)"
  by (simp add: rt_realloc_def rt_smem_realloc_def Let_def)

lemma inv_realloc:
  assumes c: "heap_inv lo hi c" and d: "owned c p = Some d" and r: "rt_realloc p sz (heap c) = Some (q, m)"
    and sz: "unat sz \<le> 4294967288" and q: "q \<noteq> RT_NULL"
  shows "heap_inv lo hi (c\<lparr>heap := m, owned := ((owned c)(p := None))(
    q \<mapsto> take (unat sz) d @ bytes_at (bytes m) (q + of_nat (length d)) (unat sz - length d))\<rparr>)"
proof -
  obtain bs where bs: "holds lo hi c bs" using c by (auto simp: heap_inv_def)
  obtain k n where k: "used_from 0 bs k n" "p = at (heap c) (k + 16)" "p \<noteq> RT_NULL" "length d \<le> n" "k + 16 + n < 4294967296"
    "\<And>i. i < length d \<Longrightarrow> bytes (heap c) (at (heap c) (k + 16 + i)) = d ! i" "\<And>j. used_from 0 bs k j \<longleftrightarrow> j = n"
    by (rule block_of [OF bs d]) (rule that)
  have "sz \<noteq> 0" using r q by (auto simp: realloc_0)
  show ?thesis
  proof (rule realloc_blocks [OF holdsD(1) [OF bs] k(1) sz \<open>sz \<noteq> 0\<close>])
    assume "rt_smem_realloc (at (heap c) (k + 16)) sz (heap c) = Some (RT_NULL, heap c)"
    then show ?thesis using r q k(2) by (simp add: rt_realloc_def)
  next
    fix k' a m' bs'
    assume x: "rt_smem_realloc (at (heap c) (k + 16)) sz (heap c) = Some (at (heap c) (k' + 16), m')" "heap_ok m' bs'"
      "round8 (unat sz) \<le> a" "\<And>i j. used_from 0 bs' i j \<longleftrightarrow> used_from 0 bs i j \<and> i \<noteq> k \<or> i = k' \<and> j = a"
      "keeps (heap c) m' (\<lambda>i j. used_from 0 bs i j \<and> i \<noteq> k)"
      "\<And>l. l < min n (round8 (unat sz)) \<Longrightarrow> bytes m' (at (heap c) (k' + 16 + l)) = bytes (heap c) (at (heap c) (k + 16 + l))"
    have m: "q = at (heap c) (k' + 16)" "m' = m" using x(1) r k(2) by (simp_all add: rt_realloc_def)
    let ?d = "take (unat sz) d @ bytes_at (bytes m) (q + of_nat (length d)) (unat sz - length d)"
    have "holds lo hi (c\<lparr>heap := m', owned := (owned c |` (- ((\<lambda>g. at (heap c) (g + 16)) ` {k})))(at (heap c) (k' + 16) \<mapsto> ?d)\<rparr>) bs'"
    proof (rule holds_put [where a = a, OF bs x(2)])
      have len: "length ?d = unat sz" by simp
      then show "length ?d \<le> a" using x(3) round8_props(2) [of "unat sz"] by linarith
      fix l assume l: "l < length ?d"
      show "bytes m' (at (heap c) (k' + 16 + l)) = ?d ! l"
      proof (cases "l < length d")
        case True
        have "l < min n (round8 (unat sz))" using l len True k(4) round8_props(2) [of "unat sz"] by simp
        then show ?thesis using x(6) k(6) True l len by (simp add: nth_append del: of_nat_add)
      next
        case False
        have "q + of_nat (length d) + of_nat (l - length d) = at (heap c) (k' + 16 + l)" using False by (simp add: m(1))
        then show ?thesis using False l len by (simp add: nth_append nth_bytes_at m(2) del: of_nat_add)
      qed
    qed (use x k(1) in auto)
    then show ?thesis unfolding restrict_one k(2) [symmetric] m by (auto simp: heap_inv_def)
  qed
qed

lemma realloc_fails_same:
  assumes c: "heap_inv lo hi c" and d: "owned c p = Some d" and r: "rt_realloc p sz (heap c) = Some (RT_NULL, m)"
    and sz: "unat sz \<le> 4294967288" "sz \<noteq> 0"
  shows "m = heap c"
proof -
  obtain bs where bs: "holds lo hi c bs" using c by (auto simp: heap_inv_def)
  obtain k n where k: "used_from 0 bs k n" "p = at (heap c) (k + 16)" by (rule block_of [OF bs d])
  show ?thesis
  proof (rule realloc_blocks [OF holdsD(1) [OF bs] k(1) sz])
    assume "rt_smem_realloc (at (heap c) (k + 16)) sz (heap c) = Some (RT_NULL, heap c)"
    then show ?thesis using r k(2) by (simp add: rt_realloc_def)
  next
    fix k' a m' bs'
    assume x: "rt_smem_realloc (at (heap c) (k + 16)) sz (heap c) = Some (at (heap c) (k' + 16), m')" "heap_ok m' bs'"
      "\<And>i j. used_from 0 bs' i j \<longleftrightarrow> used_from 0 bs i j \<and> i \<noteq> k \<or> i = k' \<and> j = a"
      "keeps (heap c) m' (\<lambda>i j. used_from 0 bs i j \<and> i \<noteq> k)"
    have "used_from 0 bs' k' a" using x(3) by blast
    then have "at (heap c) (k' + 16) \<noteq> 0" using block_at(2) [OF x(2)] keeps_heap_ptr(1) [OF x(4)] by simp
    then show ?thesis using x(1) r k(2) by (simp add: rt_realloc_def)
  qed
qed

lemma malloc_fails_same:
  assumes "heap_inv lo hi c" and r: "rt_malloc sz (heap c) = Some (RT_NULL, m)" and sz: "unat sz \<le> 4294967288"
  shows "m = heap c"
proof (cases "sz = 0")
  case True
  then show ?thesis using r by (simp add: rt_malloc_def rt_smem_alloc_def)
next
  case False
  obtain bs where bs: "holds lo hi c bs" using assms(1) by (auto simp: heap_inv_def)
  note h = holdsD(1) [OF bs]
  show ?thesis
  proof (cases "first_fit (request_size sz) 0 bs")
    case None
    then show ?thesis using alloc_fits [OF h False sz] r by (simp add: rt_malloc_def)
  next
    case (Some k)
    obtain m' bs' a where x: "rt_smem_alloc sz (heap c) = Some (at (heap c) (k + 16), m')" "heap_ok m' bs'" "request_size sz \<le> a"
      "\<And>i n. used_from 0 bs' i n \<longleftrightarrow> used_from 0 bs i n \<or> i = k \<and> n = a" "keeps (heap c) m' (used_from 0 bs)"
      by (rule alloc_blocks [OF h False sz Some]) blast
    have "used_from 0 bs' k a" using x(4) by blast
    then have "at (heap c) (k + 16) \<noteq> 0" using block_at(2) [OF x(2)] keeps_heap_ptr(1) [OF x(5)] by simp
    then show ?thesis using x(1) r by (simp add: rt_malloc_def)
  qed
qed

lemma realloc_of_null:
  assumes "rt_realloc RT_NULL sz m = Some (p, m')" and "p \<noteq> RT_NULL"
  shows "rt_malloc (RT_ALIGN sz 8) m = Some (p, m')"
  using assms by (cases "RT_ALIGN sz 8 = 0") (auto simp: realloc_null_eq [simplified] realloc_aligns_0 rt_malloc_def split: if_splits)

lemma heap_step_keeps: "heap_step c c' \<Longrightarrow> heap_inv lo hi c \<Longrightarrow> heap_inv lo hi c'"
proof (induction rule: heap_step.induct)
  case (malloc sz c p m)
  then show ?case using request_props(3) by (intro inv_malloc) auto
next
  case (malloc_fails sz c m)
  then have "m = heap c" by (intro malloc_fails_same)
  with malloc_fails show ?case by simp
next
  case (calloc count sz c p m)
  then show ?case by (intro inv_calloc)
next
  case (free c p d)
  then obtain bs where bs: "holds lo hi c bs" by (auto simp: heap_inv_def)
  have "p \<noteq> RT_NULL" by (rule block_of [OF bs free(1)])
  then show ?case using inv_free [OF free.prems free(1)] by (simp add: rt_free_def)
next
  case (free_null c)
  then show ?case by (simp add: rt_free_def)
next
  case (store c p d i v)
  then show ?case by (intro inv_store)
next
  case (realloc c p d sz q m)
  then show ?case by (intro inv_realloc)
next
  case (realloc_fails c p d sz m)
  then have "m = heap c" by (intro realloc_fails_same)
  with realloc_fails show ?case by simp
next
  case (realloc_zero c p d q m)
  then have "m = rt_smem_free p (heap c)" by (simp add: realloc_0)
  with realloc_zero show ?case using inv_free by simp
next
  case (realloc_null sz c p m)
  have "unat (RT_ALIGN sz 8) = round8 (unat sz)" using realloc_null(2) by (rule RT_ALIGN_round8)
  moreover have "unat sz \<le> round8 (unat sz)" "round8 (unat sz) \<le> 4294967288" using realloc_null(2) round8_props(2) by (simp_all add: round8_def)
  moreover have "unat (RT_ALIGN sz 8) \<le> request_size (RT_ALIGN sz 8)" by (rule request_props(3))
  ultimately show ?case using realloc_null realloc_of_null by (intro inv_malloc [where sz = "RT_ALIGN sz 8"]) auto
qed

interpretation heap_run: step_relation heap_step "heap_inv lo hi" for lo hi
  by unfold_locales (rule heap_step_keeps)


section \<open>What the heap promises\<close>

text \<open>The states after the heap was set up over a region and any sequence of calls and writes.\<close>

definition heap_reachable :: "u32 \<Rightarrow> u32 \<Rightarrow> users \<Rightarrow> bool" where
  "heap_reachable begin_addr end_addr c \<longleftrightarrow>
     unat begin_addr \<le> 4294967200 \<and> round8 (unat begin_addr) + 88 \<le> unat end_addr div 8 * 8 \<and>
     (\<exists>mem a m. rt_system_heap_init begin_addr end_addr mem = (a, Some m) \<and> heap_step\<^sup>*\<^sup>* \<lparr>heap = m, owned = \<lambda>_. None\<rparr> c)"

lemma reachable_inv:
  assumes "heap_reachable begin_addr end_addr c"
  obtains bs lo hi where "holds lo hi c bs" "unat lo = round8 (unat begin_addr) + 56" "unat hi = unat end_addr div 8 * 8 - 16"
    "span bs = 16 + new_size begin_addr end_addr"
proof -
  obtain mem a m where r: "rt_system_heap_init begin_addr end_addr mem = (a, Some m)"
    "heap_step\<^sup>*\<^sup>* \<lparr>heap = m, owned = \<lambda>_. None\<rparr> c"
    and b: "unat begin_addr \<le> 4294967200" "round8 (unat begin_addr) + 88 \<le> unat end_addr div 8 * 8"
    using assms by (auto simp: heap_reachable_def)
  have m: "heap_ok m [(False, new_size begin_addr end_addr)]" "unat (heap_ptr m) = round8 (unat begin_addr) + 56"
    "unat (heap_end m) = unat end_addr div 8 * 8 - 16"
    using heap_init_ok [OF b, of mem] r(1) by auto
  have "holds (heap_ptr m) (heap_end m) \<lparr>heap = m, owned = \<lambda>_. None\<rparr> [(False, new_size begin_addr end_addr)]"
    using m(1) by (simp add: holds_def)
  then have "heap_inv (heap_ptr m) (heap_end m) c" using heap_run.run_keeps [OF r(2)] by (auto simp: heap_inv_def)
  then obtain bs where bs: "holds (heap_ptr m) (heap_end m) c bs" by (auto simp: heap_inv_def)
  note h = holdsD(1-3) [OF bs] and d = items_okD2 [OF heap_okD(1) [OF holdsD(1) [OF bs]]]
  have "unat (heap_end m) = unat (heap_ptr m) + span bs" using d(2,5) h by (simp add: unat_at)
  then have "span bs = 16 + new_size begin_addr end_addr" using m(2,3) b(2) by (simp add: new_size_def)
  then show thesis using that bs m(2,3) by blast
qed

text \<open>
  C21: whatever the users of the heap do - allocate, clear, resize, release, write to their own blocks - every byte of a
  block in use is the one its user wrote last or found there, as long as no request exceeds 4294967288 bytes.
\<close>

theorem heap_contents_kept:
  assumes "heap_reachable begin_addr end_addr c" and "owned c p = Some d" and "i < length d"
  shows "bytes (heap c) (p + of_nat i) = d ! i"
proof -
  obtain bs lo hi where bs: "holds lo hi c bs" by (rule reachable_inv [OF assms(1)])
  show ?thesis by (rule block_of [OF bs assms(2)]) (use assms(3) in \<open>simp add: add.assoc\<close>)
qed

text \<open>
  C22: at every moment, as long as no request exceeds 4294967288 bytes, a block in use is aligned, lies inside the
  region with room for a header in front of it and one behind it, and keeps the distance of a header from every
  other block in use.
\<close>

theorem heap_blocks_apart:
  assumes "heap_reachable begin_addr end_addr c" and "owned c p = Some d"
  shows "8 dvd unat p \<and> unat begin_addr + 72 \<le> unat p \<and> unat p + length d + 16 \<le> unat end_addr \<and>
    (\<forall>q e. owned c q = Some e \<longrightarrow> q = p \<or> unat p + length d + 16 \<le> unat q \<or> unat q + length e + 16 \<le> unat p)"
proof -
  obtain bs lo hi where bs: "holds lo hi c bs" "unat lo = round8 (unat begin_addr) + 56" "unat hi = unat end_addr div 8 * 8 - 16"
    "span bs = 16 + new_size begin_addr end_addr" by (rule reachable_inv [OF assms(1)])
  note h = holdsD(1-3) [OF bs(1)]
  obtain k n where k: "used_from 0 bs k n" "p = at (heap c) (k + 16)" "length d \<le> n"
    by (rule block_of [OF bs(1) assms(2)])
  note b = block_at [OF h(1) k(1), folded k(2), unfolded h(2)]
  have "unat begin_addr + 72 \<le> unat p" using b(1) bs(2) round8_props(2) [of "unat begin_addr"] by simp
  moreover have "unat p + length d + 16 \<le> unat end_addr"
  proof -
    have "k + 16 + n \<le> 16 + new_size begin_addr end_addr" using used_from_inside [OF k(1)] bs(4) by simp
    moreover have "round8 (unat begin_addr) + 88 \<le> unat end_addr div 8 * 8" using assms(1) by (simp add: heap_reachable_def)
    moreover have "unat end_addr div 8 * 8 \<le> unat end_addr" by (rule div_times_less_eq_dividend)
    ultimately show ?thesis using b(1) bs(2) k(3) unfolding new_size_def by linarith
  qed
  moreover have "q = p \<or> unat p + length d + 16 \<le> unat q \<or> unat q + length e + 16 \<le> unat p" if q: "owned c q = Some e" for q e
  proof -
    obtain k' n' where k': "used_from 0 bs k' n'" "q = at (heap c) (k' + 16)" "length e \<le> n'" by (rule block_of [OF bs(1) q])
    show ?thesis
      using used_from_apart [OF k(1) k'(1)] k(2,3) k'(2,3) b(1) block_at(1) [OF h(1) k'(1), folded k'(2), unfolded h(2)] by auto
  qed
  ultimately show ?thesis using b(4) by blast
qed

lemma no_used_blocks: "(\<forall>k n. \<not> used_from j bs k n) \<Longrightarrow> \<forall>b\<in>set bs. \<not> fst b"
proof
  fix b assume "\<forall>k n. \<not> used_from j bs k n" "b \<in> set bs"
  moreover from \<open>b \<in> set bs\<close> obtain us vs where "bs = us @ b # vs" by (auto simp: in_set_conv_decomp)
  ultimately show "\<not> fst b" by (cases b) auto
qed

lemma tidy_all_free: "tidy bs \<Longrightarrow> \<forall>b\<in>set bs. \<not> fst b \<Longrightarrow> length bs \<le> 1"
  by (cases bs; cases "tl bs") auto

text \<open>
  C24: nothing is lost: once every block was given back, the heap is one block again and any request of at least one
  byte that fits into a new heap is served, whatever happened before, as long as no request exceeded 4294967288 bytes.
\<close>

theorem heap_recovers:
  assumes "heap_reachable begin_addr end_addr c" and "\<forall>p. owned c p = None" and "sz \<noteq> 0"
    and "request_size sz \<le> new_size begin_addr end_addr"
  shows "\<exists>p m. rt_malloc sz (heap c) = Some (p, m) \<and> p \<noteq> RT_NULL"
proof -
  obtain bs lo hi where bs: "holds lo hi c bs" "span bs = 16 + new_size begin_addr end_addr" by (rule reachable_inv [OF assms(1)])
  note h = holdsD [OF bs(1)]
  have "\<not> used_from 0 bs k n" for k n using h(5) [of k n] assms(2) by auto
  then have free: "\<forall>b\<in>set bs. \<not> fst b" using no_used_blocks by blast
  then have "length bs \<le> 1" "bs \<noteq> []" using tidy_all_free heap_okD(1,2) [OF h(1)] items_okD2(1) by blast+
  then obtain n where b: "bs = [(False, n)]" using free by (cases bs) auto
  then have n: "n = new_size begin_addr end_addr" using bs(2) by simp
  have "span bs + 16 < 4294967296" using items_okD2(2) [OF heap_okD(1) [OF h(1)]] by simp
  then have sz: "unat sz \<le> 4294967288" using request_props(3) [of sz] assms(4) n b by simp
  have f: "first_fit (request_size sz) 0 bs = Some 0" using assms(4) n b by simp
  obtain m' bs' a where x: "rt_smem_alloc sz (heap c) = Some (at (heap c) (0 + 16), m')" "heap_ok m' bs'" "request_size sz \<le> a"
      "\<And>i n. used_from 0 bs' i n \<longleftrightarrow> used_from 0 bs i n \<or> i = 0 \<and> n = a" "keeps (heap c) m' (used_from 0 bs)"
    by (rule alloc_blocks [OF h(1) assms(3) sz f]) blast
  have "used_from 0 bs' 0 a" using x(4) by blast
  then have "at (heap c) (0 + 16) \<noteq> 0" using block_at(2) [OF x(2), of 0 a] keeps_heap_ptr(1) [OF x(5)] by simp
  then show ?thesis using x(1) by (simp add: rt_malloc_def)
qed

text \<open>A request within seven bytes of 4 GB wraps when it is rounded up, and is served as if it were for one byte.\<close>

theorem huge_malloc_wraps:
  assumes "4294967288 < unat sz"
  shows "rt_malloc sz m = rt_malloc 1 m"
proof -
  have "sz \<noteq> 0" using assms(1) by auto
  then show ?thesis using RT_ALIGN_wraps [OF assms] by (simp add: rt_malloc_def rt_smem_alloc_def) (simp add: RT_ALIGN_def)
qed

lemma malloc_first_fit:
  assumes "heap_ok m bs" and "sz \<noteq> 0" and "unat sz \<le> 4294967288"
  shows "\<exists>p m'. rt_malloc sz m = Some (p, m') \<and>
    (case first_fit (request_size sz) 0 bs of
       None \<Rightarrow> p = RT_NULL \<and> m' = m
     | Some k \<Rightarrow> p = heap_ptr m + of_nat (k + 16) \<and> heap_ok m' (take_block (request_size sz) bs))"
  using alloc_fits [OF assms] by (cases "first_fit (request_size sz) 0 bs") (auto simp: rt_malloc_def)

text \<open>
  C23: every request returns.  A request for no bytes is refused; one for more than 4294967288 bytes is taken as one for
  a single byte, since rounding it up wraps.  Otherwise a request is served from the first free block that is large
  enough for its rounded size, and refused, with the heap as it was, exactly if there is none; the rest of that block
  stays free if it is worth a block of its own.
\<close>

theorem malloc_is_first_fit:
  assumes "heap_ok m bs"
  shows "\<exists>p m'. rt_malloc sz m = Some (p, m') \<and>
    (if sz = 0 then p = RT_NULL \<and> m' = m
     else let need = request_size (if unat sz \<le> 4294967288 then sz else 1)
          in case first_fit need 0 bs of
               None \<Rightarrow> p = RT_NULL \<and> m' = m
             | Some k \<Rightarrow> p = heap_ptr m + of_nat (k + 16) \<and> heap_ok m' (take_block need bs))"
proof -
  consider "sz = 0" | "sz \<noteq> 0" "unat sz \<le> 4294967288" | "sz \<noteq> 0" "4294967288 < unat sz" by linarith
  then show ?thesis
  proof cases
    case 1
    then show ?thesis by (simp add: rt_malloc_def rt_smem_alloc_def)
  next
    case 2
    then show ?thesis using malloc_first_fit [OF assms 2] by (simp add: Let_def)
  next
    case 3
    then show ?thesis using malloc_first_fit [OF assms, of 1] by (simp add: Let_def huge_malloc_wraps [OF 3(2)])
  qed
qed

text \<open>
  Every call ends: an allocation of any size, and resizing a block in use (or none) to any size; and no assertion of
  the heap has failed.
\<close>

lemma malloc_ends: "heap_ok m bs \<Longrightarrow> \<exists>r. rt_smem_alloc sz m = Some r"
proof -
  assume m: "heap_ok m bs"
  have ends: "\<exists>r. rt_smem_alloc s m = Some r" if "unat s \<le> 4294967288" for s
  proof (cases "s = 0")
    case True
    then show ?thesis by (simp add: rt_smem_alloc_def)
  next
    case False
    then show ?thesis using alloc_fits [OF m False that] by (auto split: option.splits)
  qed
  show ?thesis
  proof (cases "unat sz \<le> 4294967288")
    case False
    then have "sz \<noteq> 0" "RT_ALIGN sz 8 = 0" using RT_ALIGN_wraps [of sz] by auto
    then have "rt_smem_alloc sz m = rt_smem_alloc 1 m" by (simp add: rt_smem_alloc_def) (simp add: RT_ALIGN_def)
    then show ?thesis using ends [of 1] by simp
  qed (rule ends)
qed

theorem heap_calls_end:
  assumes "heap_reachable begin_addr end_addr c" and "p = RT_NULL \<or> owned c p \<noteq> None"
  shows "(\<exists>r. rt_malloc sz (heap c) = Some r) \<and> (\<exists>r. rt_realloc p sz (heap c) = Some r) \<and> \<not> mem_assert (heap c)"
proof -
  obtain bs lo hi where bs: "holds lo hi c bs" by (rule reachable_inv [OF assms(1)])
  note h = holdsD(1) [OF bs]
  have "\<exists>r. rt_realloc p sz (heap c) = Some r"
  proof (cases "p = RT_NULL \<or> RT_ALIGN sz 8 = 0")
    case True
    then show ?thesis using malloc_ends [OF h] by (cases "RT_ALIGN sz 8 = 0") (auto simp: realloc_aligns_0 realloc_null_eq [simplified])
  next
    case False
    then have sz: "unat sz \<le> 4294967288" "sz \<noteq> 0" using RT_ALIGN_wraps [of sz] by (force, auto simp: RT_ALIGN_def)
    obtain d where "owned c p = Some d" using False assms(2) by auto
    then obtain k n where k: "used_from 0 bs k n" "p = at (heap c) (k + 16)" by (rule block_of [OF bs])
    show ?thesis
      by (rule realloc_blocks [OF h k(1) sz]) (auto simp: rt_realloc_def k(2))
  qed
  then show ?thesis using malloc_ends [OF h, of sz] heap_okD(6) [OF h] by (simp add: rt_malloc_def)
qed

text \<open>
  To make a block smaller by up to 28 bytes the heap looks for another block: if there is none the call fails, although
  the block it has is large enough.
\<close>

theorem smaller_realloc_fails:
  assumes "heap_ok m bs" and "used_from 0 bs k n" and "unat sz \<le> 4294967288" and "sz \<noteq> 0"
    and "round8 (unat sz) < n" and "n \<le> round8 (unat sz) + 28" and "first_fit (request_size sz) 0 bs = None"
  shows "rt_realloc (heap_ptr m + of_nat (k + 16)) sz m = Some (RT_NULL, m)"
proof -
  define K where "K = round8 (unat sz)"
  obtain xs ys where b: "bs = xs @ (True, n) # ys" "k = span xs" using assms(2) by (auto simp: used_from_split)
  have Kb: "K \<le> 4294967288" unfolding K_def round8_def using assms(3) by simp
  have K: "unat (of_nat K :: u32) = K" "K \<le> 4294967288" using Kb by (simp_all add: unat_of_nat_u32)
  have K0: "(of_nat K :: u32) \<noteq> 0" "K \<noteq> 0"
    using round8_props(2) [of "unat sz"] assms(4) K(1) unat_eq_zero [of sz] by (auto simp: K_def)
  have rq: "request_size (of_nat K) = request_size sz" unfolding K_def by (rule request_of_round8 [OF assms(3)])
  have "rt_smem_alloc (of_nat K) m = Some (RT_NULL, m)"
    using alloc_fits [OF assms(1) K0(1)] K assms(7) rq by simp
  then show ?thesis
    using realloc_eq [OF assms(1) [unfolded b(1)] assms(3), folded K_def b(2)] assms(5,6) K0(2)
    by (simp add: rt_realloc_def K_def [symmetric])
qed

section \<open>Aligned blocks\<close>

lemma and_not_mask:
  assumes "j < 32"
  shows "unat (x AND NOT (mask j) :: u32) = unat x div 2 ^ j * 2 ^ j" "unat (x AND mask j :: u32) = unat x mod 2 ^ j"
proof -
  have tb: "take_bit 32 (unat x) = unat x" using unat_u32_less [of x] by (simp add: take_bit_nat_eq_self)
  have "x AND mask j = take_bit j x" by (simp add: take_bit_eq_mask)
  then show "unat (x AND mask j) = unat x mod 2 ^ j" by (simp only: unsigned_take_bit_eq) (simp add: take_bit_eq_mod)
  have "x AND NOT (mask j) = push_bit j (drop_bit j x)"
    by (rule bit_word_eqI) (auto simp: bit_simps simp del: push_bit_numeral)
  moreover have "unat (push_bit j (drop_bit j x)) = take_bit 32 (push_bit j (drop_bit j (unat x)))"
    by (simp add: unsigned_push_bit_eq unsigned_drop_bit_eq take_bit_push_bit tb)
  moreover have "push_bit j (drop_bit j (unat x)) = unat x div 2 ^ j * 2 ^ j" by (simp add: push_bit_eq_mult drop_bit_eq_div)
  moreover have "unat x div 2 ^ j * 2 ^ j < 2 ^ 32"
    using unat_u32_less [of x] div_times_less_eq_dividend [of "unat x" "2 ^ j"] by (simp del: div_times_less_eq_dividend)
  ultimately show "unat (x AND NOT (mask j)) = unat x div 2 ^ j * 2 ^ j" by (simp add: take_bit_nat_eq_self)
qed

text \<open>Where the aligned block begins: behind the word that records the block it is in.\<close>

lemma align_up:
  assumes "8 dvd p" and "(p :: nat) mod 2 ^ j \<noteq> 0"
  shows "p + 8 \<le> (p + (2 ^ j - 1)) div 2 ^ j * 2 ^ j" "(p + (2 ^ j - 1)) div 2 ^ j * 2 ^ j \<le> p + 2 ^ j"
proof -
  let ?A = "2 ^ j :: nat" and ?q = "(p + (2 ^ j - 1)) div 2 ^ j * 2 ^ j"
  have "\<not> j \<le> 3"
  proof
    assume "j \<le> 3"
    then have "?A dvd 2 ^ 3" by (rule le_imp_power_dvd)
    then have "?A dvd p" using assms(1) by (auto intro: dvd_trans)
    then show False using assms(2) by simp
  qed
  then have "(2 ^ 3 :: nat) dvd ?A" by (intro le_imp_power_dvd) simp
  then have "8 dvd ?q" by simp
  have "0 < ?A" by simp
  have m: "?q = p + (?A - 1) - (p + (?A - 1)) mod ?A" by (simp add: minus_mod_eq_div_mult)
  have "(p + (?A - 1)) mod ?A < ?A" by simp
  then have "p \<le> ?q" "?q \<le> p + ?A" unfolding m by linarith+
  moreover have "?q \<noteq> p" using assms(2) by (metis mod_mult_self2_is_0)
  ultimately have "p < ?q" by simp
  then show "p + 8 \<le> ?q" using assms(1) \<open>8 dvd ?q\<close> by presburger
  show "?q \<le> p + ?A" by fact
qed

lemma aligned_address:
  assumes j: "2 \<le> j" "j < 31" and p: "8 dvd unat (p :: u32)" "unat p + 2 ^ j < 4294967296"
    and q: "q = (if p AND mask j = 0 then p + 2 ^ j else (p + mask j) AND NOT (mask j))"
  shows "2 ^ j dvd unat q \<and> unat p + 4 \<le> unat q \<and> unat q \<le> unat p + 2 ^ j"
proof -
  define A where "A = (2 :: nat) ^ j"
  have A4: "4 \<le> A" unfolding A_def using power_increasing [OF j(1), of "2 :: nat"] by simp
  have pA: "unat p + A < 4294967296" using p(2) by (simp add: A_def)
  have uA: "unat (2 ^ j :: u32) = A"
  proof -
    have "(2 ^ j :: u32) = of_nat A" by (simp add: A_def)
    then show ?thesis using pA by (simp add: unat_of_nat_u32)
  qed
  have mk: "unat (p + mask j) = unat p + (A - 1)"
  proof -
    have "unat (mask j :: u32) = A - 1" using uA A4 by (simp add: mask_eq_exp_minus_1 unat_sub_u32)
    moreover have "unat p + (A - 1) < 4294967296" using pA by linarith
    ultimately show ?thesis by (simp add: unat_add_u32)
  qed
  have "unat (p AND mask j) = unat p mod A" unfolding A_def by (rule and_not_mask(2)) (use j in simp)
  then have z: "p AND mask j = 0 \<longleftrightarrow> unat p mod A = 0" using unat_eq_zero [of "p AND mask j"] by metis
  show ?thesis
  proof (cases "unat p mod A = 0")
    case True
    then have "unat q = unat p + A" using q z pA by (simp add: unat_add_u32 uA)
    then show ?thesis using True A4 by (auto simp: A_def)
  next
    case False
    then have "unat q = (unat p + (A - 1)) div A * A" using q z mk and_not_mask(1) [of j "p + mask j"] j by (simp add: A_def)
    then show ?thesis using align_up [OF p(1), of j] False by (simp add: A_def)
  qed
qed

text \<open>The call, for an alignment of a power of two.\<close>

lemma malloc_align_eq:
  assumes j: "2 \<le> j" "j < 31" and sz: "unat sz + 3 + 2 ^ j \<le> 4294967288"
  obtains s where "s \<noteq> 0" "unat s \<le> 4294967288" "2 ^ j + unat sz \<le> unat s"
    "rt_malloc_align sz (2 ^ j) m = map_option (\<lambda>(p, m).
       if p \<noteq> RT_NULL then
         let q = (if p AND mask j = 0 then p + 2 ^ j else (p + mask j) AND NOT (mask j))
         in (q, m\<lparr>bytes := store32 (q - 4) p (bytes m)\<rparr>)
       else (p, m)) (rt_malloc s m)"
proof -
  define A where "A = (2 :: nat) ^ j"
  have A4: "4 \<le> A" unfolding A_def using power_increasing [OF j(1), of "2 :: nat"] by simp
  have A31: "A < 2 ^ 31" unfolding A_def using power_strict_increasing [OF j(2), of "2 :: nat"] by simp
  have uA: "unat (2 ^ j :: u32) = A"
  proof -
    have "(2 ^ j :: u32) = of_nat A" by (simp add: A_def)
    then show ?thesis using A31 by (simp add: unat_of_nat_u32)
  qed
  have m1: "(2 ^ j - 1 :: u32) = mask j" "(3 :: u32) = mask 2" by (simp_all add: mask_eq_exp_minus_1)
  have "4 dvd A" unfolding A_def using le_imp_power_dvd [OF j(1), of "2 :: nat"] by simp
  then have al: "(2 ^ j + 3) AND NOT 3 = (2 ^ j :: u32)"
    unfolding word_unat_eq_iff m1(2) and_not_mask(1) [of 2, simplified] using A31 by (simp add: unat_add_u32 uA m1(2) [symmetric]) presburger
  define s where "s = ((sz + 3) AND NOT 3) + 2 ^ j"
  have d4: "(unat sz + 3) div 4 * 4 + A < 4294967296"
    using div_times_less_eq_dividend [of "unat sz + 3" 4] sz unfolding A_def by linarith
  have us: "unat s = (unat sz + 3) div 4 * 4 + A"
    unfolding s_def m1(2) using and_not_mask(1) [of 2 "sz + mask 2"] sz d4 by (simp add: unat_add_u32 uA A_def [symmetric] m1(2) [symmetric])
  have "(4 - 1 :: u32) = 3" by simp
  then have "rt_malloc_align sz (2 ^ j) m = map_option (\<lambda>(p, m).
       if p \<noteq> RT_NULL then
         let q = (if p AND mask j = 0 then p + 2 ^ j else (p + mask j) AND NOT (mask j))
         in (q, m\<lparr>bytes := store32 (q - 4) p (bytes m)\<rparr>)
       else (p, m)) (rt_malloc s m)"
    unfolding rt_malloc_align_def Let_def by (simp only: al m1(1) s_def)
  moreover have "s \<noteq> 0" "unat s \<le> 4294967288" "2 ^ j + unat sz \<le> unat s" using us A4 sz by (auto simp: A_def)
  ultimately show thesis using that by blast
qed

text \<open>
  An aligned allocation for an alignment of a power of two (from four on) that does not return \<open>RT_NULL\<close> returns an
  aligned address inside a new block, with room for the size asked for behind it and for a word in front of it; and
  releasing that address releases just that block.
\<close>

theorem malloc_align_aligned:
  assumes m: "heap_ok m bs" and j: "2 \<le> j" "j < 31" and sz: "unat sz + 3 + 2 ^ j \<le> 4294967288"
    and r: "rt_malloc_align sz (2 ^ j) m = Some (q, m')" and q: "q \<noteq> RT_NULL"
  shows "2 ^ j dvd unat q \<and> (\<exists>p a bs'. heap_ok m' bs' \<and> used_from 0 bs' (unat (p - heap_ptr m) - 16) a \<and>
    unat p + 4 \<le> unat q \<and> unat q + unat sz \<le> unat p + a \<and> rt_free_align q m' = rt_free p m')"
proof -
  obtain s where s: "s \<noteq> 0" "unat s \<le> 4294967288" "2 ^ j + unat sz \<le> unat s"
    and alloc: "rt_malloc_align sz (2 ^ j) m = map_option (\<lambda>(p, m).
       if p \<noteq> RT_NULL then
         let q = (if p AND mask j = 0 then p + 2 ^ j else (p + mask j) AND NOT (mask j))
         in (q, m\<lparr>bytes := store32 (q - 4) p (bytes m)\<rparr>)
       else (p, m)) (rt_malloc s m)" by (rule malloc_align_eq [OF j sz])
  obtain k where k: "first_fit (request_size s) 0 bs = Some k"
    using alloc_fits [OF m s(1,2)] r q unfolding alloc by (cases "first_fit (request_size s) 0 bs") (auto simp: rt_malloc_def)
  obtain m1 bs' a where x: "rt_smem_alloc s m = Some (at m (k + 16), m1)" "heap_ok m1 bs'" "request_size s \<le> a"
    "\<And>i n. used_from 0 bs' i n \<longleftrightarrow> used_from 0 bs i n \<or> i = k \<and> n = a" "keeps m m1 (used_from 0 bs)"
    by (rule alloc_blocks [OF m s(1,2) k]) blast
  have u: "used_from 0 bs' k a" using x(4) by blast
  define p where "p = at m (k + 16)"
  have hp: "heap_ptr m1 = heap_ptr m" using x(5) by (rule keeps_heap_ptr)
  note b = block_at [OF x(2) u, unfolded hp, folded p_def]
  have a: "2 ^ j + unat sz \<le> a" using x(3) s(3) request_props(3) [of s] by linarith
  have x1: "rt_malloc s m = Some (p, m1)" using x(1) by (simp only: rt_malloc_def p_def)
  have q': "q = (if p AND mask j = 0 then p + 2 ^ j else (p + mask j) AND NOT (mask j))"
    "m' = m1\<lparr>bytes := store32 (q - 4) p (bytes m1)\<rparr>"
    using r b(2) unfolding alloc x1 Let_def by auto
  have "unat p + 2 ^ j < 4294967296" using b(1,3) a by simp
  then have qa: "2 ^ j dvd unat q" "unat p + 4 \<le> unat q" "unat q \<le> unat p + 2 ^ j"
    using aligned_address [OF j b(4) _ q'(1)] by blast+
  define l where "l = unat q - 4 - unat (heap_ptr m)"
  have l: "q - 4 = at m l" "k + 16 \<le> l" "l + 4 \<le> k + 16 + a" "l < 4294967292"
  proof -
    have "unat q = unat (heap_ptr m) + l + 4" unfolding l_def using qa b(1) by simp
    then show "q - 4 = at m l" using unat_u32_less [of q] by (simp add: word_unat_eq_iff unat_sub_u32 unat_add_u32 unat_of_nat_u32)
    show "k + 16 \<le> l" "l + 4 \<le> k + 16 + a" "l < 4294967292" unfolding l_def using qa b(1,3) a by simp_all
  qed
  have m': "m' = m1\<lparr>bytes := bytes (st l p m1)\<rparr>" using q'(2) l(1) hp by (simp add: st_def)
  have "heap_ok m' bs'"
    unfolding m' by (rule write_blocks(1) [OF x(2) u], rule byte_st) (use l in auto)
  moreover have "used_from 0 bs' (unat (p - heap_ptr m) - 16) a"
    using u b(3) by (simp add: p_def unat_of_nat_u32 del: of_nat_add)
  moreover have "rt_free_align q m' = rt_free p m'" using q by (simp add: rt_free_align_def q'(2))
  moreover have "unat q + unat sz \<le> unat p + a" using qa a by simp
  ultimately show ?thesis using qa by blast
qed

section \<open>The heap on a concrete region\<close>

definition demo_heap :: small_mem where
  "demo_heap = the (snd (rt_system_heap_init 256 512 (\<lambda>_. 0)))"

definition demo_full :: small_mem where
  "demo_full = the (snd (rt_system_heap_init 256 384 (\<lambda>_. 0)))"

lemma demo_heap_new: "rt_system_heap_init 256 512 (\<lambda>_. 0) = (False, Some demo_heap)" "heap_ok demo_heap [(False, 168)]" "heap_ptr demo_heap = 312"
proof -
  have "round8 256 = 256" "new_size 256 512 = 168" by (simp_all add: round8_def new_size_def)
  then obtain m where "rt_system_heap_init 256 512 (\<lambda>_. 0) = (False, Some m)" "heap_ok m [(False, 168)]" "unat (heap_ptr m) = 312"
    using heap_init_ok [of 256 512 "\<lambda>_. 0"] by auto
  then show "rt_system_heap_init 256 512 (\<lambda>_. 0) = (False, Some demo_heap)" "heap_ok demo_heap [(False, 168)]" "heap_ptr demo_heap = 312"
    by (simp_all add: demo_heap_def word_unat_eq_iff)
qed

lemma demo_full_new: "heap_ok demo_full [(False, 40)]" "heap_ptr demo_full = 312"
proof -
  have "round8 256 = 256" "new_size 256 384 = 40" by (simp_all add: round8_def new_size_def)
  then obtain m where "rt_system_heap_init 256 384 (\<lambda>_. 0) = (False, Some m)" "heap_ok m [(False, 40)]" "unat (heap_ptr m) = 312"
    using heap_init_ok [of 256 384 "\<lambda>_. 0"] by auto
  then show "heap_ok demo_full [(False, 40)]" "heap_ptr demo_full = 312"
    by (simp_all add: demo_full_def word_unat_eq_iff)
qed

text \<open>Twenty bytes are taken, and the third of them is set to 7.\<close>

definition demo_taken :: users where
  "demo_taken = (let m = snd (the (rt_malloc 20 demo_heap)) in \<lparr>heap = m, owned = [328 \<mapsto> bytes_at (bytes m) 328 20]\<rparr>)"

definition demo_users :: users where
  "demo_users = demo_taken\<lparr>heap := (heap demo_taken)\<lparr>bytes := (bytes (heap demo_taken))(330 := 7)\<rparr>,
     owned := [328 \<mapsto> (bytes_at (bytes (heap demo_taken)) 328 20)[2 := 7]]\<rparr>"

lemma request_20: "request_size 20 = 24"
  by (simp add: request_size_def round8_def)

lemma demo_malloc: "rt_malloc 20 demo_heap = Some (328, heap demo_taken)"
  using alloc_fits [OF demo_heap_new(2), of 20] by (auto simp: request_20 rt_malloc_def demo_taken_def demo_heap_new(3))

lemma demo_reachable: "heap_reachable 256 512 demo_taken" "heap_reachable 256 512 demo_users"
proof -
  let ?c0 = "\<lparr>heap = demo_heap, owned = \<lambda>_. None\<rparr>"
  have "heap_step ?c0 (?c0\<lparr>heap := heap demo_taken, owned := (owned ?c0)(328 \<mapsto> bytes_at (bytes (heap demo_taken)) 328 (unat (20 :: u32)))\<rparr>)"
    by (rule heap_step.malloc) (simp_all add: demo_malloc)
  moreover have "?c0\<lparr>heap := heap demo_taken, owned := (owned ?c0)(328 \<mapsto> bytes_at (bytes (heap demo_taken)) 328 (unat (20 :: u32)))\<rparr> = demo_taken"
    by (simp add: demo_taken_def Let_def)
  ultimately have s: "heap_step ?c0 demo_taken" by simp
  have b: "unat (256 :: u32) \<le> 4294967200" "round8 (unat (256 :: u32)) + 88 \<le> unat (512 :: u32) div 8 * 8" by (simp_all add: round8_def)
  show "heap_reachable 256 512 demo_taken"
    unfolding heap_reachable_def using b demo_heap_new(1) s by blast
  have o: "owned demo_taken 328 = Some (bytes_at (bytes (heap demo_taken)) 328 20)" by (simp add: demo_taken_def Let_def)
  have "heap_step demo_taken demo_users"
    using heap_step.store [OF o, of 2 7] by (simp add: demo_users_def) (simp add: demo_taken_def Let_def)
  then show "heap_reachable 256 512 demo_users"
    unfolding heap_reachable_def using b demo_heap_new(1) s by (meson converse_rtranclp_into_rtranclp r_into_rtranclp)
qed

lemma heap_contents_kept_witness: "bytes (heap demo_users) 330 = 7"
  using heap_contents_kept [OF demo_reachable(2), of 328 _ 2] by (simp add: demo_users_def)

lemma heap_blocks_apart_witness: "unat (328 :: u32) + length (the (owned demo_users 328)) + 16 \<le> 512"
  using heap_blocks_apart [OF demo_reachable(2), of 328] by (simp add: demo_users_def)

text \<open>The block is given back.\<close>

definition demo_freed :: users where
  "demo_freed = demo_users\<lparr>heap := rt_free 328 (heap demo_users), owned := (owned demo_users)(328 := None)\<rparr>"

lemma demo_freed_reachable: "heap_reachable 256 512 demo_freed"
proof -
  have "heap_step demo_users demo_freed" unfolding demo_freed_def by (rule heap_step.free) (simp add: demo_users_def)
  then show ?thesis using demo_reachable(2) unfolding heap_reachable_def by (meson rtranclp.rtrancl_into_rtrancl)
qed

lemma heap_recovers_witness: "\<exists>p m. rt_malloc 168 (heap demo_freed) = Some (p, m) \<and> p \<noteq> RT_NULL"
  by (rule heap_recovers [OF demo_freed_reachable])
    (simp_all add: demo_freed_def demo_users_def request_size_def round8_def new_size_def)

lemma malloc_is_first_fit_witness:
  "\<exists>p m. rt_malloc 20 demo_heap = Some (p, m) \<and> p = 328 \<and> heap_ok m [(True, 24), (False, 128)]"
  using malloc_is_first_fit [OF demo_heap_new(2), of 20] by (simp add: request_20 demo_heap_new(3) carve_def)

lemma huge_malloc_wraps_witness: "rt_malloc 0xFFFFFFFF demo_heap = rt_malloc 1 demo_heap"
  by (rule huge_malloc_wraps) simp

lemma heap_calls_end_witness: "(\<exists>r. rt_malloc 999 (heap demo_users) = Some r) \<and> (\<exists>r. rt_realloc 328 999 (heap demo_users) = Some r) \<and>
    \<not> mem_assert (heap demo_users)"
  by (rule heap_calls_end [OF demo_reachable(2)]) (simp add: demo_users_def)

lemma smaller_realloc_fails_witness: "\<exists>m. rt_malloc 40 demo_full = Some (328, m) \<and> rt_realloc 328 16 m = Some (RT_NULL, m)"
proof -
  have r: "request_size 40 = 40" "request_size 16 = 16" "round8 16 = 16" by (simp_all add: request_size_def round8_def)
  obtain m where m: "rt_malloc 40 demo_full = Some (328, m)" "heap_ok m [(True, 40)]" "heap_ptr m = 312"
    using alloc_fits [OF demo_full_new(1), of 40] by (auto simp: r demo_full_new(2) carve_def rt_malloc_def same_data_def)
  have "rt_realloc 328 16 m = Some (RT_NULL, m)"
    using smaller_realloc_fails [OF m(2), of 0 40 16] by (simp add: r m(3))
  then show ?thesis using m(1) by blast
qed

lemma malloc_align_aligned_witness: "\<exists>q m. rt_malloc_align 20 (2 ^ 5) demo_heap = Some (q, m) \<and> 32 dvd unat q"
proof -
  have a: "(35 :: u32) AND - 4 = 32" "(23 :: u32) AND - 4 = 20"
    using and_not_mask(1) [of 2 35] and_not_mask(1) [of 2 23] by (simp_all add: mask_eq_exp_minus_1 word_unat_eq_iff)
  have r: "request_size 52 = 56" by (simp add: request_size_def round8_def)
  obtain m where m: "rt_malloc 52 demo_heap = Some (328, m)"
    using alloc_fits [OF demo_heap_new(2), of 52] by (auto simp: r demo_heap_new(3) rt_malloc_def)
  obtain q m' where q: "rt_malloc_align 20 (2 ^ 5) demo_heap = Some (q, m')" "q = (if 328 AND 31 = (0 :: u32) then 360 else 359 AND - 32)"
    by (auto simp: rt_malloc_align_def Let_def a m)
  have "q = 352" using and_not_mask(1) [of 5 359] and_not_mask(2) [of 5 328] q(2)
    by (simp add: mask_eq_exp_minus_1 word_unat_eq_iff)
  then have "2 ^ 5 dvd unat q"
    using malloc_align_aligned [OF demo_heap_new(2), of 5 20 q m'] q(1) by simp
  then show ?thesis using q(1) by auto
qed

end
