(* ===== verification/Spec2Isabelle.thy ===== *)
theory Spec2Isabelle
  imports Yk_Prelude Crc8 Yk_Device Yk_Config Yk_Operation Yk_Channel Yk_Handler Yk_Protocol
    Yk_App Flex_Button Yk_Button Yk_Witness Rt_Ringbuffer Rt_List Rt_Can Rt_Can_Rx Rt_Can_Tx
    Rt_Kernel Rt_Sem Rt_Event Rt_Wait Rt_Mailbox Rt_Queue Rt_Mutex Rt_Mutex_Run Rt_Timer Rt_Clock Rt_Service Rt_Mem Rt_Heap Rt_Heap_Run
begin

text \<open>
  A model of the firmware of an electrical lock controller (YK locks, cold locks and AVC switches on
  one CAN bus, an STM32L431 running RT-Thread), with the theorems that make it correct.

  The parts of the program and how they interact.  At start-up the initialisation exports fill in
  function tables and \<open>main\<close> (\<open>src/applications/main.c\<close>) runs \<open>lock_init\<close>: it reads the identity of
  the lock from an EEPROM, sets pin modes, creates the CAN channel and selects the command table of
  the lock's type; then it opens the channel with an acceptance filter and binds two callbacks.
  From then on two things happen.  A CAN message arrives: the receive thread of
  \<open>src/bsp/can_channel.c\<close> takes it from the driver and calls \<open>rx_cb\<close>, which turns it into bytes, has
  \<open>protocol_parser\<close> check them and \<open>protocol_handler\<close> run the handler of the function code, which reads
  or changes configuration and pins through the lock operations and may send one answer.  Or the
  button moves: the scan thread of \<open>src/applications/button.c\<close> runs the button library every 20 ms, and
  a press runs \<open>btn_press_cb\<close>, whose thread sends a request frame.

  The theories, in the order of their dependencies:
  \<^item> \<open>Yk_Prelude\<close>: word types and lemmas, the state monad and the rules by which operations keep
    parts of the state, and the locales \<open>step_machine\<close> and \<open>step_relation\<close> for invariants of runs.
  \<^item> \<open>Crc8\<close> (\<open>crc8.c\<close>): the table-driven CRC, its equality with the shift register, and which damage
    it detects.  Locale \<open>frame_check\<close>.
  \<^item> \<open>Yk_Device\<close> (\<open>common.h\<close>, \<open>hw_define.h\<close>, the module variables of all application files): the data,
    the state \<open>yk\<close> and the environment \<open>env\<close>.
  \<^item> \<open>Yk_Config\<close> (\<open>config.c\<close>, the getters and setters of \<open>operation.c\<close>, \<open>lock_info_update\<close> of
    \<open>lock.c\<close>): the EEPROM image and its fields.  Locale \<open>field_store\<close>.
  \<^item> \<open>Yk_Operation\<close> (\<open>operation.c\<close>, the relay macros of \<open>hw_define.h\<close>): relay control with its polling
    loops, and the state queries.
  \<^item> \<open>Yk_Channel\<close> (\<open>can_channel.c\<close>, \<open>channel.c\<close>): frames and CAN messages, opening the channel.
  \<^item> \<open>Yk_Handler\<close> (\<open>handler.c\<close>): the seventeen command handlers.
  \<^item> \<open>Yk_Protocol\<close> (\<open>protocol.c\<close>, \<open>protocol.h\<close>): command tables, parser, dispatcher.
  \<^item> \<open>Yk_App\<close> (\<open>main.c\<close>, \<open>lock.c\<close>, \<open>cmd/command.c\<close>): bring-up, the receive path, the button thread, the
    shell commands, and what the receive path guarantees end to end.
  \<^item> \<open>Flex_Button\<close> (\<open>packages/FlexibleButton-latest\<close>): the button library for any set of buttons.
  \<^item> \<open>Yk_Button\<close> (\<open>button.c\<close>): the board's button on that library.
  \<^item> \<open>Yk_Witness\<close>: a concrete board, with which every property that has hypotheses is applied.

  Underneath is RT-Thread, of which the parts the CAN path runs through are modelled on their own:
  \<^item> \<open>Rt_Ringbuffer\<close> (\<open>components/drivers/ipc/ringbuffer.c\<close>): the byte ring buffer with mirror bits: every
    call returns and does what the same call (\<open>queue_call\<close>) of a bounded queue of bytes does.  Locale \<open>byte_fifo\<close>.
  \<^item> \<open>Rt_List\<close> (\<open>include/rtservice.h\<close>): the kernel's circular lists as a heap of pointers; \<open>rings h L\<close> says
    which sequences the heap represents, and each pointer operation is shown to be one on sequences.
  \<^item> \<open>Rt_Can\<close> (\<open>components/drivers/can/can.c\<close>, \<open>components/drivers/ipc/completion.c\<close>): the CAN device that
    \<open>can_channel.c\<close> reads and writes, between the controller's interrupts and the threads.
  \<^item> \<open>Rt_Can_Rx\<close>: its receive side refines a queue that keeps the newest messages, for every interleaving
    of interrupts and readers.
  \<^item> \<open>Rt_Can_Tx\<close>: on its send side each box has one owner and no wake-up is lost.  Both use \<open>step_machine\<close>
    or a simulation over lists of events.
  \<^item> \<open>Rt_Kernel\<close> (\<open>src/scheduler_up.c\<close>, \<open>thread.c\<close>, \<open>clock.c\<close>, the queue of dead threads in \<open>idle.c\<close>): threads and
    the scheduler for one core.  \<open>sched_ok k L\<close> ties the pointers, the states of the threads and the ready table
    together; every operation keeps it, \<open>rt_schedule\<close> leaves the most urgent thread running, equals take turns,
    and the end of a thread is shown to be unsafe when it is preempted.
  \<^item> \<open>Rt_Sem\<close> (\<open>src/ipc.c\<close>): lists of waiting threads and semaphores.  \<open>sem_step\<close> is the machine of all threads,
    interrupts and timers that use semaphores, a take being split at its call of the scheduler; along every run
    permits are conserved, no wake-up is lost, and a take returns what it should.  Uses \<open>step_relation\<close>.
  \<^item> \<open>Rt_Event\<close> (\<open>src/ipc.c\<close>): events.  The loop of a send is shown to wake exactly the satisfied threads (\<open>send_loop_ok\<close>); in
    the machine \<open>event_step\<close>, in which what each thread asked for and the bits sent and received are recorded, no thread waits
    for what is there, each gets what it asked for, and no bit is lost.  Uses \<open>step_relation\<close>.
  \<^item> \<open>Rt_Wait\<close> (\<open>src/ipc.c\<close>): what mailboxes and message queues share: waiting in one of two lists with a time limit, waking,
    and \<open>line_ok\<close>, the reckoning that no wake-up is lost, kept by what the scheduler, the clock and timers do; histories of
    queues (\<open>replay\<close>).
  \<^item> \<open>Rt_Mailbox\<close> (\<open>src/ipc.c\<close>): mailboxes.  \<open>box_ok\<close> says that offsets and count of the pool fit, \<open>contents\<close> reads it as a queue;
    along every run of the machine \<open>mail_step\<close> what was accepted and handed out is a history of queues (\<open>replay\<close>), and no
    thread waits for mail or room without one on its way for it.  Uses \<open>step_relation\<close>.
  \<^item> \<open>Rt_Queue\<close> (\<open>src/ipc.c\<close>): message queues, whose calls give up the lock while they copy.  \<open>mq_places\<close> says which places are
    free, queued and in somebody's hands; along every run of \<open>mq_step\<close>, in which the copying is a step of its own, none is lost
    or shared, the messages are a history of queues, and every receive returns what was taken out for it.  Uses \<open>step_relation\<close>.
  \<^item> \<open>Rt_Mutex\<close> (\<open>src/ipc.c\<close>, \<open>rt_thread_detach\<close> of \<open>thread.c\<close>): mutexes with priority inheritance and ceilings.
    \<open>mutex_shape\<close> ties owners, lists and waiting threads together, \<open>bounds_ok\<close> the priorities; the loop that passes
    a priority along the chain of owners (\<open>update_loop\<close>) keeps both and ends if the chain does (\<open>chain_ends\<close>).
  \<^item> \<open>Rt_Mutex_Run\<close>: the machine of threads, interrupts and timers that use mutexes.  Along every run a mutex has one
    holder, no owner is less urgent than a thread that waits for it, a release serves the most urgent thread, and
    a take returns what it should; and what a wake-up from outside and a ceiling do not do.
  \<^item> \<open>Rt_Timer\<close> (\<open>src/timer.c\<close>, \<open>clock.c\<close>): the timers.  \<open>timers_inv\<close> says that the list holds the active timers sorted by
    the ticks they have left (\<open>left\<close>), however the 32-bit count wraps around; \<open>timer_run\<close> is a run of ticks and calls.
    Timers run out on time, the check ends (\<open>live\<close>: no time is zero), and where either fails.
  \<^item> \<open>Rt_Clock\<close>: threads and timers together (\<open>rt_thread_sleep\<close>, \<open>rt_thread_delay_until\<close>, \<open>rt_tick_increase\<close>): a sleeping
    thread is woken by the clock interrupt it waits for.  Uses \<open>step_relation\<close>.
  \<^item> \<open>Rt_Service\<close> (\<open>src/kservice.c\<close>): the routines on bytes and strings over a memory of bytes with 32-bit addresses; the
    word-wise ones are shown equal to what they do byte by byte (\<open>fill\<close>, \<open>copy\<close>), the string ones to do what they should
    on the strings in memory (\<open>string_at\<close>), and where \<open>rt_strncmp\<close> does not.
  \<^item> \<open>Rt_Mem\<close> (\<open>src/mem.c\<close>, the allocation calls of \<open>src/kservice.c\<close>): the heap, with its items read and written in that
    memory.  \<open>heap_ok m bs\<close> says that the items are those of the sequence of blocks \<open>bs\<close>; allocation is first fit on \<open>bs\<close>,
    release joins neighbours.  \<open>Rt_Heap\<close>: resizing, a new heap, and what each call does to the blocks in use.
  \<^item> \<open>Rt_Heap_Run\<close>: the machine of the users of the heap (\<open>heap_step\<close>), in which the bytes each relies on are recorded;
    along every run they stay as they are, blocks keep apart, and nothing is lost.  Uses \<open>step_relation\<close>.

  State and effects.  The module variables of the application are the fields of the record \<open>yk\<close>
  (\<open>cfg\<close> the cached EEPROM image, \<open>lk\<close> the lock's identity, \<open>avc\<close> the three result bits, \<open>chan\<close> the CAN
  channel, \<open>proto_set\<close> the selected table); an operation is a function in the state monad over it.
  What is not in the repository, or is hardware, is a field of the record \<open>env\<close>, an argument of every
  operation that uses it: the \<open>at24cxx\<close> EEPROM package, the GPIO driver, delays, the CAN driver's
  write, and the creation of kernel objects.  They act on a state \<open>world\<close> of any type.  What the
  theorems need of them is stated by named predicates (\<open>at24_works\<close>: what is written is read back;
  \<open>relay_works\<close>: a pulse moves the relay, and the check line shows it; \<open>board_works\<close>, \<open>boot_works\<close>).
  Theorems without such a predicate hold for any behaviour of the hardware.

  Memory errors are values: \<open>ub\<close> is set when an operation would leave an array, \<open>asserts\<close> when an
  \<open>RT_ASSERT\<close> would fail, and a local that C leaves uninitialised takes a value from the environment.

  Loops.  The polling loops run on their own counters (50 and 10 rounds), the read loop of the channel
  on the bytes left, \<open>rt_list_len\<close> until it is back at its list head (\<open>partial_function\<close>; on a ring it is
  shown to end), the search for a place among waiting threads, the waking of all of them and the loop of \<open>rt_event_send\<close> likewise;
  the loop of \<open>_thread_update_priority\<close> is shown to end where no threads wait for each other in a circle, that of
  \<open>rt_timer_check\<close> where no timer has the time zero; those over the items of a heap and over strings are shown to end
  on a heap that is in order and on strings.  Threads that run for ever are modelled by one round: \<open>thread_can_rx\<close> by what it
  does with one delivered message, \<open>button_scan\<close> by one scan; the theorems about sequences quantify over
  all lists of such rounds.  The receive thread is the only one that runs handlers; the button thread
  and the shell only send or change configuration between them.

  What the lemmas show.  Per component: each operation's result on every branch, what it leaves
  unchanged (\<open>kept\<close> rules), and the calculus \<open>silent\<close>/\<open>answers\<close> that counts messages.  Across
  components: what is accepted from the bus and what is never accepted, that answers are well formed,
  that commands do to relay and EEPROM what they say, and where the code does not do what it means to.

  Not modelled: log output (no effect on the state), the channel's mutex around a write (free whenever one call runs
  at a time), the stack check of \<open>rt_schedule\<close>, exits before the idle thread is initialised, the UART channel (an empty stub), the
  unreferenced files \<open>operations.c\<close>, \<open>device_init.c\<close>, \<open>test.c\<close>, \<open>storage.c\<close>, \<open>bl24c128.c\<close>, board and
  vendor code under \<open>src/board\<close> and \<open>src/libraries\<close>, the bench programs under \<open>src/test\<close>, and the rest of
  RT-Thread (formatted output, shell, the other device classes).
\<close>

end
